(* ===== verification/Prelude.thy ===== *)
theory Prelude
  imports Main "HOL-Library.Word"
begin

text \<open>
  Shared vocabulary of the development: the integer types and sentinels of
  \<^verbatim>\<open>src/src/defs.hpp\<close>, the exception classes of \<^verbatim>\<open>src/src/exceptions.hpp\<close> as one
  datatype, results as a sum type with its sequencing operator, and the list
  lemmas the components share.

  Integers. \<open>offset_t\<close>, \<open>dcode_t\<close>, \<open>xid_t\<close> are unsigned machine integers that the
  code uses as indices, codes and timestamps; they are modelled as \<^typ>\<open>nat\<close>, with
  the wrap-around written out (\<open>dec64\<close>, \<open>sub64\<close>, \<open>mod32\<close>) at the operations that can wrap.
  Page identifiers, on which the code works bitwise, are 64-bit words.
\<close>

named_theorems vec_laws \<open>laws of the record vectors\<close>
named_theorems result_simps \<open>simplification rules for results\<close>

section \<open>Sentinels and machine arithmetic\<close>

type_synonym offset_t = nat
type_synonym dcode_t = nat
type_synonym xid_t = nat
type_synonym page_id = "64 word"

definition UNKNOWN :: offset_t where
  "UNKNOWN = 2 ^ 64 - 1"

definition UNKNOWN_PID :: page_id where
  "UNKNOWN_PID = - 1"

definition UNKNOWN_CODE :: dcode_t where
  "UNKNOWN_CODE = 2 ^ 32 - 1"

text \<open>Decrement of a 64-bit unsigned counter: it wraps at zero.\<close>

definition dec64 :: "nat \<Rightarrow> nat" where
  "dec64 n = (if n = 0 then UNKNOWN else n - 1)"

text \<open>Subtraction of 64-bit unsigned numbers.\<close>

definition sub64 :: "nat \<Rightarrow> nat \<Rightarrow> nat" where
  "sub64 a b = (if b \<le> a then a - b else a + 2 ^ 64 - b)"

text \<open>Truncation of a value that is stored in a 32-bit unsigned field.\<close>

definition mod32 :: "nat \<Rightarrow> nat" where
  "mod32 n = n mod 2 ^ 32"

lemma dec64_pos: "0 < n \<Longrightarrow> dec64 n = n - 1"
  by (simp add: dec64_def)

lemma mod32_small: "n < 2 ^ 32 \<Longrightarrow> mod32 n = n"
  by (simp add: mod32_def)

lemma mod32_less: "mod32 n < 2 ^ 32"
  by (simp add: mod32_def)

section \<open>Exceptions and results\<close>

text \<open>
  One constructor per exception class of the source, in its order, and more for
  what the C++ program does outside its own exception hierarchy: a failed
  \<open>assert\<close>, undefined behaviour (a null or dangling access), the \<open>std::out_of_range\<close>, \<open>std::invalid_argument\<close>,
  \<open>std::bad_any_cast\<close>, \<open>std::bad_optional_access\<close> and \<open>std::bad_function_call\<close> of the standard library, \<open>boost::bad_get\<close>, a file stream that has entered its error state, and a loop
  that does not end (a cyclic chain of records).
\<close>

datatype exn =
    Unknown_id
  | Unknown_index
  | Index_out_of_range
  | Unknown_property
  | Unknown_db
  | Invalid_typecast
  | Transaction_abort
  | Out_of_transaction_scope
  | Invalid_nested_transaction
  | Orphaned_relationship
  | Udf_not_found
  | File_not_found
  | Query_processing_error
  | Bufferpool_overrun
  | Invalid_csr_update
  | Assertion_failed
  | Undefined_behaviour
  | Std_out_of_range
  | Std_invalid_argument
  | Bad_any_cast
  | Bad_get
  | Bad_optional_access
  | Bad_function_call
  | Stream_failed
  | Diverges

type_synonym 'a result = "exn + 'a"

text \<open>Sequencing: the first exception ends the computation.\<close>

definition rbind :: "'e + 'a \<Rightarrow> ('a \<Rightarrow> 'e + 'b) \<Rightarrow> 'e + 'b" where
  "rbind m f = (case m of Inl e \<Rightarrow> Inl e | Inr x \<Rightarrow> f x)"

lemma rbind_Inl [simp, result_simps]: "rbind (Inl e) f = Inl e"
  by (simp add: rbind_def)

lemma rbind_Inr [simp, result_simps]: "rbind (Inr x) f = f x"
  by (simp add: rbind_def)

lemma rbind_eq_Inr_iff: "rbind m f = Inr y \<longleftrightarrow> (\<exists>x. m = Inr x \<and> f x = Inr y)"
  by (cases m) auto

lemma rbind_cong [fundef_cong]:
  "m = m' \<Longrightarrow> (\<And>x. m' = Inr x \<Longrightarrow> f x = f' x) \<Longrightarrow> rbind m f = rbind m' f'"
  by (cases m') auto

text \<open>The defined part of a result, as a partial value.\<close>

definition ok :: "'e + 'a \<Rightarrow> 'a option" where
  "ok r = (case r of Inl _ \<Rightarrow> None | Inr x \<Rightarrow> Some x)"

lemma ok_simps [simp, result_simps]: "ok (Inl e) = None" "ok (Inr x) = Some x"
  by (simp_all add: ok_def)

lemma ok_eq_Some_iff: "ok r = Some x \<longleftrightarrow> r = Inr x"
  by (cases r) auto

section \<open>Effects that survive an exception\<close>

text \<open>
  Where a caller can catch an exception and go on, what the callee did before it
  threw is visible: an action returns its result together with the state at that point.
\<close>

type_synonym ('s, 'a) action = "'s \<Rightarrow> 'a result \<times> 's"

definition sbind :: "('s, 'a) action \<Rightarrow> ('a \<Rightarrow> ('s, 'b) action) \<Rightarrow> ('s, 'b) action" where
  "sbind m f s = (case m s of (Inl e, s') \<Rightarrow> (Inl e, s') | (Inr x, s') \<Rightarrow> f x s')"

definition sret :: "'a \<Rightarrow> ('s, 'a) action" where
  "sret x s = (Inr x, s)"

definition sthrow :: "exn \<Rightarrow> ('s, 'a) action" where
  "sthrow e s = (Inl e, s)"

text \<open>A result that does not touch the state, and one that replaces it.\<close>

definition slift :: "('s \<Rightarrow> 'a result) \<Rightarrow> ('s, 'a) action" where
  "slift f s = (f s, s)"

definition supd :: "('s \<Rightarrow> 's result) \<Rightarrow> ('s, unit) action" where
  "supd f s = (case f s of Inl e \<Rightarrow> (Inl e, s) | Inr s' \<Rightarrow> (Inr (), s'))"

lemma sret_apply [simp, result_simps]: "sret x s = (Inr x, s)"
  by (simp add: sret_def)

lemma sthrow_apply [simp, result_simps]: "sthrow e s = (Inl e, s)"
  by (simp add: sthrow_def)

lemma slift_apply [simp, result_simps]: "slift f s = (f s, s)"
  by (simp add: slift_def)

lemma sbind_Inr [result_simps]: "m s = (Inr x, s') \<Longrightarrow> sbind m f s = f x s'"
  by (simp add: sbind_def)

lemma sbind_Inl [result_simps]: "m s = (Inl e, s') \<Longrightarrow> sbind m f s = (Inl e, s')"
  by (simp add: sbind_def)

lemma supd_Inr [result_simps]: "f s = Inr s' \<Longrightarrow> supd f s = (Inr (), s')"
  by (simp add: supd_def)

lemma supd_Inl [result_simps]: "f s = Inl e \<Longrightarrow> supd f s = (Inl e, s)"
  by (simp add: supd_def)

section \<open>Lists\<close>

lemma find_upt_Some:
  assumes "find P [a..<b] = Some j"
  shows "a \<le> j" "j < b" "P j" "\<And>i. a \<le> i \<Longrightarrow> i < j \<Longrightarrow> \<not> P i"
proof -
  from assms obtain i where i: "i < length [a..<b]" "P ([a..<b] ! i)" "j = [a..<b] ! i"
    and least: "\<forall>k<i. \<not> P ([a..<b] ! k)"
    unfolding find_Some_iff by blast
  show "a \<le> j" "j < b" "P j" using i by auto
  fix k assume "a \<le> k" "k < j"
  then have "k - a < i" "[a..<b] ! (k - a) = k" using i by (auto simp: nth_append)
  with least show "\<not> P k" by metis
qed

lemma find_upt_None: "find P [a..<b] = None \<longleftrightarrow> (\<forall>i. a \<le> i \<and> i < b \<longrightarrow> \<not> P i)"
  by (auto simp: find_None_iff)

lemma find_append: "find P (xs @ ys) = (case find P xs of None \<Rightarrow> find P ys | Some x \<Rightarrow> Some x)"
  by (induction xs) auto

lemma list_all_nth_iff: "(\<forall>b\<in>set xs. P b) \<longleftrightarrow> (\<forall>i<length xs. P (xs ! i))"
  by (metis in_set_conv_nth)

lemma sum_list_update_nat:
  "k < length xs \<Longrightarrow> sum_list (xs[k := y]) + xs ! k = sum_list xs + (y::nat)"
proof (induction xs arbitrary: k)
  case (Cons x xs)
  then show ?case by (cases k) auto
qed simp

lemma count_list_update_True_False:
  "k < length xs \<Longrightarrow> \<not> xs ! k \<Longrightarrow> count_list (xs[k := True]) False + 1 = count_list xs False"
proof (induction xs arbitrary: k)
  case (Cons x xs)
  then show ?case by (cases k) auto
qed simp

lemma count_list_update_False:
  "k < length xs \<Longrightarrow> xs ! k \<Longrightarrow> count_list (xs[k := False]) False = count_list xs False + 1"
proof (induction xs arbitrary: k)
  case (Cons x xs)
  then show ?case by (cases k) auto
qed simp

lemma count_list_set_True:
  "k < length xs \<Longrightarrow> \<not> xs ! k \<Longrightarrow> count_list xs False = Suc (count_list (xs[k := True]) False)"
  using count_list_update_True_False [of k xs] by simp

lemma count_list_set_False:
  "k < length xs \<Longrightarrow> xs ! k \<Longrightarrow> count_list (xs[k := False]) False = Suc (count_list xs False)"
  using count_list_update_False [of k xs] by simp

lemma count_list_False_full:
  "count_list xs False = length xs \<Longrightarrow> xs = replicate (length xs) False"
proof (induction xs)
  case (Cons x xs)
  then show ?case using count_le_length [of xs False] by (cases x) auto
qed simp

lemma div_mult_split:
  fixes n :: nat
  assumes "0 < n" "p < n"
  shows "(k * n + p) div n = k" "(k * n + p) mod n = p"
  using assms by (simp_all add: div_mult_self1_is_m)

end
