(* ===== verification/Dict.thy ===== *)
theory Dict
  imports Prelude
begin

text \<open>
  The string dictionary, \<^verbatim>\<open>src/src/dict\<close>: the string pool (a growing character array in which
  zero-terminated strings are placed one after the other), the code table (a hash map from the hash of a
  string to its code, the position in the pool) and the dictionary on top of both. A cell of the
  array is \<open>None\<close> while it is uninitialised memory; reading such a cell, or any cell outside
  the allocation, is undefined behaviour. \<open>std::hash\<close> is the parameter \<open>h\<close> of the
  operations, a function from strings to 64-bit keys of which nothing is assumed but, where a
  theorem needs it, that it separates the strings in use.
\<close>

section \<open>The string pool\<close>

record string_pool =
  sp_pool :: "char option list"
  sp_size :: nat
  sp_expand :: nat
  sp_last :: nat

abbreviation nul :: char where
  "nul \<equiv> CHR 0x00"

definition sp_new :: "nat \<Rightarrow> nat \<Rightarrow> string_pool result" where
  "sp_new init_size exp_size =
     (if init_size = 0 then Inl Undefined_behaviour
      else Inr \<lparr>sp_pool = (replicate init_size (Some nul))[0 := Some (CHR ''#'')],
                sp_size = init_size, sp_expand = exp_size, sp_last = 1\<rparr>)"

text \<open>The zero-terminated string that starts with the first of the given cells.\<close>

fun cstr :: "char option list \<Rightarrow> string result" where
  "cstr [] = Inl Undefined_behaviour"
| "cstr (None # cs) = Inl Undefined_behaviour"
| "cstr (Some c # cs) = (if c = nul then Inr [] else rbind (cstr cs) (\<lambda>s. Inr (c # s)))"

fun sp_scan_from :: "string_pool \<Rightarrow> nat \<Rightarrow> nat \<Rightarrow> nat \<Rightarrow> (string \<times> dcode_t) list result" where
  "sp_scan_from sp pos p 0 = Inr []"
| "sp_scan_from sp pos p (Suc n) =
     (if length (sp_pool sp) \<le> p then Inl Undefined_behaviour
      else case sp_pool sp ! p of
             None \<Rightarrow> Inl Undefined_behaviour
           | Some c \<Rightarrow>
               if c = nul
               then rbind (cstr (drop pos (sp_pool sp))) (\<lambda>s.
                    rbind (sp_scan_from sp (p + 1) (p + 1) n) (\<lambda>r. Inr ((s, pos) # r)))
               else sp_scan_from sp pos (p + 1) n)"

definition sp_scan :: "string_pool \<Rightarrow> (string \<times> dcode_t) list result" where
  "sp_scan sp = sp_scan_from sp 1 1 (sp_last sp - 1)"

definition sp_extract :: "dcode_t \<Rightarrow> string_pool \<Rightarrow> string result" where
  "sp_extract pos sp =
     (if pos < sp_last sp then cstr (drop pos (sp_pool sp)) else Inl Assertion_failed)"

fun sp_equal_from :: "string_pool \<Rightarrow> nat \<Rightarrow> string \<Rightarrow> bool result" where
  "sp_equal_from sp q s =
     (if s = [] \<or> sp_last sp \<le> q then
        (if q < length (sp_pool sp) then
           (case sp_pool sp ! q of None \<Rightarrow> Inl Undefined_behaviour | Some c \<Rightarrow> Inr (c = nul))
         else Inl Undefined_behaviour)
      else if q < length (sp_pool sp) then
        (case sp_pool sp ! q of
           None \<Rightarrow> Inl Undefined_behaviour
         | Some c \<Rightarrow> if c \<noteq> hd s then Inr False else sp_equal_from sp (q + 1) (tl s))
      else Inl Undefined_behaviour)"

definition sp_equal :: "dcode_t \<Rightarrow> string \<Rightarrow> string_pool \<Rightarrow> bool result" where
  "sp_equal pos s sp = sp_equal_from sp pos s"

text \<open>\<open>realloc\<close> keeps the common prefix and leaves the rest uninitialised.\<close>

definition sp_realloc :: "nat \<Rightarrow> char option list \<Rightarrow> char option list" where
  "sp_realloc n p = take n p @ replicate (n - length p) None"

definition sp_copy :: "nat \<Rightarrow> string \<Rightarrow> char option list \<Rightarrow> char option list result" where
  "sp_copy i s p =
     (if i + length s \<le> length p then Inr (take i p @ map Some s @ drop (i + length s) p)
      else Inl Undefined_behaviour)"

definition sp_add :: "string \<Rightarrow> string_pool \<Rightarrow> (string_pool \<times> dcode_t) result" where
  "sp_add str sp =
     (let pos = sp_last sp;
          sp1 = (if sp_last sp + length str + 1 \<ge> sp_size sp
                 then let n = mod32 (sp_size sp + sp_expand sp)
                      in sp\<lparr>sp_size := n, sp_pool := sp_realloc n (sp_pool sp)\<rparr>
                 else sp) in
      rbind (sp_copy (sp_last sp1) str (sp_pool sp1)) (\<lambda>p.
      let l = mod32 (sp_last sp1 + length str + 1);
          i = (if l = 0 then 2 ^ 32 - 1 else l - 1) in
      if i < length p
      then Inr (sp1\<lparr>sp_last := l, sp_pool := p[i := Some nul]\<rparr>, pos)
      else Inl Undefined_behaviour))"

section \<open>The code table\<close>

type_synonym hash = "string \<Rightarrow> nat"

type_synonym code_table = "(nat \<times> dcode_t) list"

definition ct_find :: "hash \<Rightarrow> string \<Rightarrow> code_table \<Rightarrow> dcode_t" where
  "ct_find h s t = (case map_of t (h s) of Some c \<Rightarrow> c | None \<Rightarrow> UNKNOWN_CODE)"

definition ct_get :: "dcode_t \<Rightarrow> dcode_t" where
  "ct_get c = c"

definition ct_insert :: "hash \<Rightarrow> string \<Rightarrow> dcode_t \<Rightarrow> code_table \<Rightarrow> code_table" where
  "ct_insert h s c t = (if map_of t (h s) = None then t @ [(h s, c)] else t)"

definition ct_size :: "code_table \<Rightarrow> nat" where
  "ct_size t = length t"

definition ct_rebuild :: "hash \<Rightarrow> string_pool \<Rightarrow> code_table \<Rightarrow> code_table result" where
  "ct_rebuild h sp t = rbind (sp_scan sp) (\<lambda>es. Inr (foldl (\<lambda>u (s, c). ct_insert h s c u) t es))"

section \<open>The dictionary\<close>

record dict =
  d_pool :: string_pool
  d_table :: code_table

definition dict_initialize :: "hash \<Rightarrow> string_pool \<Rightarrow> dict result" where
  "dict_initialize h sp = rbind (ct_rebuild h sp []) (\<lambda>t. Inr \<lparr>d_pool = sp, d_table = t\<rparr>)"

definition dict_new :: "hash \<Rightarrow> nat \<Rightarrow> dict result" where
  "dict_new h init_pool_size = rbind (sp_new init_pool_size 10000) (dict_initialize h)"

definition dict_size :: "dict \<Rightarrow> nat" where
  "dict_size d = ct_size (d_table d)"

definition dict_insert :: "hash \<Rightarrow> string \<Rightarrow> dict \<Rightarrow> (dict \<times> dcode_t) result" where
  "dict_insert h s d =
     (let pos = ct_find h s (d_table d) in
      if pos \<noteq> UNKNOWN_CODE then Inr (d, ct_get pos)
      else rbind (sp_add s (d_pool d)) (\<lambda>(sp, c).
           Inr (d\<lparr>d_pool := sp, d_table := ct_insert h s c (d_table d)\<rparr>, c)))"

definition dict_lookup_string :: "hash \<Rightarrow> string \<Rightarrow> dict \<Rightarrow> dcode_t" where
  "dict_lookup_string h s d =
     (let k = ct_find h s (d_table d) in if k \<noteq> UNKNOWN_CODE then ct_get k else 0)"

definition dict_lookup_code :: "dcode_t \<Rightarrow> dict \<Rightarrow> string result" where
  "dict_lookup_code c d = sp_extract c (d_pool d)"

definition dict_count_string_pool_size :: "dict \<Rightarrow> nat result" where
  "dict_count_string_pool_size d = rbind (sp_scan (d_pool d)) (\<lambda>es. Inr (length es))"

section \<open>Layout of the pool\<close>

text \<open>
  \<open>sp_layout sp ss\<close>: the used part of the array is the marker followed by the strings \<open>ss\<close>, each with
  its terminator; \<open>sp_code ss s\<close> is the position at which \<open>s\<close> starts.
\<close>

definition sp_cells :: "string list \<Rightarrow> char option list" where
  "sp_cells ss = Some (CHR ''#'') # concat (map (\<lambda>s. map Some s @ [Some nul]) ss)"

definition sp_layout :: "string_pool \<Rightarrow> string list \<Rightarrow> bool" where
  "sp_layout sp ss \<longleftrightarrow>
     sp_last sp = length (sp_cells ss) \<and> length (sp_pool sp) = sp_size sp \<and>
     sp_last sp \<le> sp_size sp \<and> take (sp_last sp) (sp_pool sp) = sp_cells ss \<and>
     (\<forall>s\<in>set ss. nul \<notin> set s)"

fun sp_codes :: "nat \<Rightarrow> string list \<Rightarrow> (string \<times> dcode_t) list" where
  "sp_codes n [] = []"
| "sp_codes n (s # ss) = (s, n) # sp_codes (n + length s + 1) ss"

lemma sp_codes_append: "sp_codes n (xs @ ys) = sp_codes n xs @ sp_codes (n + length (concat (map (\<lambda>s. s @ [nul]) xs))) ys"
  by (induction xs arbitrary: n) (auto simp: algebra_simps)

lemma sp_cells_snoc: "sp_cells (ss @ [s]) = sp_cells ss @ map Some s @ [Some nul]"
  by (simp add: sp_cells_def)

lemma length_sp_cells: "length (sp_cells ss) = Suc (length (concat (map (\<lambda>s. s @ [nul]) ss)))"
  by (induction ss) (auto simp: sp_cells_def)

lemma sp_codes_snoc: "sp_codes 1 (ss @ [s]) = sp_codes 1 ss @ [(s, length (sp_cells ss))]"
  by (simp add: sp_codes_append length_sp_cells)

lemma fst_sp_codes [simp]: "map fst (sp_codes n ss) = ss"
  by (induction ss arbitrary: n) auto

lemma cstr_append: "nul \<notin> set s \<Longrightarrow> cstr (map Some s @ Some nul # cs) = Inr s"
  by (induction s) auto

lemma sp_codes_split:
  assumes "(s, c) \<in> set (sp_codes n ss)"
  shows "\<exists>xs ys. ss = xs @ s # ys \<and> c = n + length (concat (map (\<lambda>s. s @ [nul]) xs))"
  using assms
proof (induction ss arbitrary: n)
  case (Cons t ss)
  show ?case
  proof (cases "(s, c) = (t, n)")
    case True
    then show ?thesis by (intro exI [of _ "[]"] exI [of _ ss]) simp
  next
    case False
    with Cons.prems have "(s, c) \<in> set (sp_codes (n + length t + 1) ss)" by auto
    from Cons.IH [OF this] obtain xs ys where "ss = xs @ s # ys"
      "c = n + length t + 1 + length (concat (map (\<lambda>s. s @ [nul]) xs))" by blast
    then show ?thesis by (intro exI [of _ "t # xs"] exI [of _ ys]) simp
  qed
qed simp

text \<open>Every string of the layout is read back at its code, whatever follows it.\<close>

lemma sp_code_cells:
  assumes "(s, c) \<in> set (sp_codes 1 ss)"
  obtains xs ys where "sp_cells ss = xs @ map Some s @ Some nul # ys" "length xs = c"
proof -
  from sp_codes_split [OF assms] obtain us vs where u: "ss = us @ s # vs"
    "c = 1 + length (concat (map (\<lambda>s. s @ [nul]) us))" by blast
  then show ?thesis
    using that [of "sp_cells us" "concat (map (\<lambda>s. map Some s @ [Some nul]) vs)"]
    by (simp add: sp_cells_def length_sp_cells [unfolded sp_cells_def, simplified])
qed

lemma sp_extract_layout:
  assumes l: "sp_layout sp ss" and s: "(s, c) \<in> set (sp_codes 1 ss)"
  shows "sp_extract c sp = Inr s" "0 < c" "c < sp_last sp"
proof -
  from sp_code_cells [OF s] obtain xs ys where xy: "sp_cells ss = xs @ map Some s @ Some nul # ys"
    "length xs = c" .
  have n: "nul \<notin> set s" using l s fst_sp_codes [of 1 ss] unfolding sp_layout_def
    by (metis fst_conv image_eqI set_map)
  have pool: "sp_pool sp = sp_cells ss @ drop (sp_last sp) (sp_pool sp)"
    using l unfolding sp_layout_def by (metis append_take_drop_id)
  have "drop c (sp_pool sp) = map Some s @ Some nul # ys @ drop (sp_last sp) (sp_pool sp)"
    by (subst pool) (use xy in simp)
  moreover show cl: "c < sp_last sp" using l xy by (simp add: sp_layout_def)
  ultimately show "sp_extract c sp = Inr s" using cstr_append [OF n] by (simp add: sp_extract_def)
  show "0 < c" using sp_codes_split [OF s] by auto
qed

lemma sp_scan_from_layout:
  assumes "sp_pool sp = pre @ concat (map (\<lambda>s. map Some s @ [Some nul]) ss) @ post"
    "\<forall>s\<in>set ss. nul \<notin> set s"
  shows "sp_scan_from sp (length pre) (length pre) (length (concat (map (\<lambda>s. s @ [nul]) ss))) =
           Inr (sp_codes (length pre) ss)"
  using assms
proof (induction ss arbitrary: pre)
  case (Cons s ss)
  let ?rest = "concat (map (\<lambda>s. map Some s @ [Some nul]) ss) @ post"
  let ?n = "length (concat (map (\<lambda>s. s @ [nul]) ss))"
  have pool: "sp_pool sp = pre @ map Some s @ Some nul # ?rest" using Cons.prems(1) by simp
  have n: "nul \<notin> set s" using Cons.prems(2) by simp
  have skip: "sp_scan_from sp (length pre) (length pre + k) (length s - k + Suc ?n) =
      sp_scan_from sp (length pre) (length pre + length s) (Suc ?n)" if "k \<le> length s" for k
    using that
  proof (induction "length s - k" arbitrary: k)
    case (Suc m)
    then have k: "k < length s" by simp
    then have "sp_pool sp ! (length pre + k) = Some (s ! k)"
      "length pre + k < length (sp_pool sp)"
      using pool by (auto simp: nth_append)
    moreover have "s ! k \<noteq> nul" using n k by (metis nth_mem)
    moreover have "length s - k + Suc ?n = Suc (length s - Suc k + Suc ?n)" using k by simp
    ultimately show ?case using Suc.hyps(1) [of "Suc k"] Suc.hyps(2) k by simp
  qed simp
  have IH: "sp_scan_from sp (length pre + length s + 1) (length pre + length s + 1) ?n =
      Inr (sp_codes (length pre + length s + 1) ss)"
    using Cons.IH [of "pre @ map Some s @ [Some nul]"] pool Cons.prems(2) by simp
  have "cstr (drop (length pre) (sp_pool sp)) = Inr s" using pool cstr_append [OF n] by simp
  moreover have "sp_pool sp ! (length pre + length s) = Some nul"
    "length pre + length s < length (sp_pool sp)" using pool by (auto simp: nth_append)
  ultimately have "sp_scan_from sp (length pre) (length pre + length s) (Suc ?n) = Inr (sp_codes (length pre) (s # ss))"
    using IH by simp
  with skip [of 0] show ?case by (simp add: add.assoc)
qed simp

lemma sp_scan_layout:
  assumes l: "sp_layout sp ss"
  shows "sp_scan sp = Inr (sp_codes 1 ss)"
proof -
  have "sp_pool sp = sp_cells ss @ drop (sp_last sp) (sp_pool sp)"
    using l unfolding sp_layout_def by (metis append_take_drop_id)
  then have "sp_pool sp = [Some (CHR ''#'')] @ concat (map (\<lambda>s. map Some s @ [Some nul]) ss) @ drop (sp_last sp) (sp_pool sp)"
    by (simp add: sp_cells_def)
  from sp_scan_from_layout [OF this] l show ?thesis
    by (simp add: sp_scan_def sp_layout_def length_sp_cells)
qed

section \<open>Adding strings\<close>

text \<open>
  The pool takes the string: the 32-bit positions do not wrap, and where the array has to grow,
  one expansion step is enough.
\<close>

definition sp_fits :: "string \<Rightarrow> string_pool \<Rightarrow> bool" where
  "sp_fits str sp \<longleftrightarrow> sp_last sp + length str + 1 < 2 ^ 32 \<and>
     (sp_size sp \<le> sp_last sp + length str + 1 \<longrightarrow>
        sp_size sp + sp_expand sp < 2 ^ 32 \<and> sp_last sp + length str + 1 \<le> sp_size sp + sp_expand sp)"

lemma sp_write_prefix:
  assumes "l + length s + 1 \<le> length p"
  shows "take (l + length s + 1) ((take l p @ map Some s @ drop (l + length s) p)[l + length s := v]) =
           take l p @ map Some s @ [v]"
proof -
  have l: "l \<le> length p" using assms by simp
  obtain x r where d: "drop (l + length s) p = x # r" using assms by (cases "drop (l + length s) p") auto
  have "(take l p @ map Some s @ x # r)[l + length s := v] = (take l p @ map Some s) @ (x # r)[0 := v]"
    using l by (simp add: list_update_append min_def)
  then show ?thesis unfolding d using l by (simp add: min_def)
qed

lemma sp_add_layout:
  assumes l: "sp_layout sp ss" and n: "nul \<notin> set str" and f: "sp_fits str sp" and sz: "sp_size sp < 2 ^ 32"
  obtains sp' where "sp_add str sp = Inr (sp', sp_last sp)" "sp_layout sp' (ss @ [str])" "sp_size sp' < 2 ^ 32"
proof -
  let ?n = "sp_size sp + sp_expand sp" and ?l = "sp_last sp + length str + 1"
  define sp1 where "sp1 = (if ?l \<ge> sp_size sp
     then sp\<lparr>sp_size := mod32 ?n, sp_pool := sp_realloc (mod32 ?n) (sp_pool sp)\<rparr> else sp)"
  have len: "length (sp_pool sp) = sp_size sp" "sp_last sp \<le> sp_size sp" using l by (auto simp: sp_layout_def)
  have m: "?l \<ge> sp_size sp \<Longrightarrow> mod32 ?n = ?n" using f by (simp add: sp_fits_def mod32_small)
  have s1: "sp_last sp1 = sp_last sp" "length (sp_pool sp1) = sp_size sp1" "?l \<le> sp_size sp1"
    "sp_size sp1 < 2 ^ 32" "take (sp_last sp) (sp_pool sp1) = take (sp_last sp) (sp_pool sp)"
    using f len sz m by (auto simp: sp1_def sp_fits_def sp_realloc_def)
  let ?p = "take (sp_last sp) (sp_pool sp1) @ map Some str @ drop (sp_last sp + length str) (sp_pool sp1)"
  let ?sp = "sp1\<lparr>sp_last := ?l, sp_pool := ?p[sp_last sp + length str := Some nul]\<rparr>"
  have cp: "sp_copy (sp_last sp1) str (sp_pool sp1) = Inr ?p"
    using s1 by (simp add: sp_copy_def)
  have lenp: "length ?p = sp_size sp1" using s1 len by simp
  have ml: "mod32 ?l = ?l" using f by (simp add: sp_fits_def mod32_small)
  have "sp_add str sp = Inr (?sp, sp_last sp)"
    using cp ml lenp s1 unfolding sp_add_def Let_def sp1_def [symmetric] by simp
  moreover have tk: "take (sp_last sp) (sp_pool sp) = sp_cells ss" using l unfolding sp_layout_def by blast
  have "sp_last sp + length str + 1 \<le> length (sp_pool sp1)" using s1 by simp
  from sp_write_prefix [OF this, of "Some nul"]
  have "take ?l (?p[sp_last sp + length str := Some nul]) = sp_cells (ss @ [str])"
    unfolding s1(5) tk sp_cells_snoc .
  then have "sp_layout ?sp (ss @ [str])"
    using l n s1 lenp by (simp add: sp_layout_def sp_cells_snoc)
  ultimately show ?thesis using that s1(4) by simp
qed

section \<open>Invariant of the dictionary\<close>

definition dict_inv :: "hash \<Rightarrow> dict \<Rightarrow> string list \<Rightarrow> bool" where
  "dict_inv h d ss \<longleftrightarrow>
     sp_layout (d_pool d) ss \<and> sp_size (d_pool d) < 2 ^ 32 \<and> distinct ss \<and> inj_on h (set ss) \<and>
     d_table d = map (\<lambda>(s, c). (h s, c)) (sp_codes 1 ss)"

lemma dict_table_find:
  assumes "distinct ss" "inj_on h (insert s (set ss))"
  shows "map_of (map (\<lambda>(s, c). (h s, c)) (sp_codes n ss)) (h s) = map_of (sp_codes n ss) s"
  using assms
proof (induction ss arbitrary: n)
  case (Cons t ss)
  have "h s = h t \<longleftrightarrow> s = t" using Cons.prems(2) by (auto dest: inj_onD)
  moreover have "inj_on h (insert s (set ss))" using Cons.prems(2) by (rule inj_on_subset) auto
  ultimately show ?case using Cons by auto
qed simp

lemma dict_find:
  assumes "dict_inv h d ss" "inj_on h (insert s (set ss))"
  shows "ct_find h s (d_table d) = (case map_of (sp_codes 1 ss) s of Some c \<Rightarrow> c | None \<Rightarrow> UNKNOWN_CODE)"
  using assms dict_table_find [of ss h s 1] by (simp add: dict_inv_def ct_find_def)

lemma map_of_sp_codes_None: "map_of (sp_codes n ss) s = None \<longleftrightarrow> s \<notin> set ss"
  using fst_sp_codes [of n ss] by (metis map_of_eq_None_iff set_map)

lemma sp_codes_Some: "s \<in> set ss \<Longrightarrow> \<exists>c. map_of (sp_codes n ss) s = Some c"
  using map_of_sp_codes_None [of n ss s] by auto

lemma dict_code_bound:
  assumes "dict_inv h d ss" "map_of (sp_codes 1 ss) s = Some c"
  shows "c \<noteq> UNKNOWN_CODE" "sp_extract c (d_pool d) = Inr s"
proof -
  from assms(1) have "sp_layout (d_pool d) ss" by (simp add: dict_inv_def)
  note e = sp_extract_layout [OF this map_of_SomeD [OF assms(2)]]
  show "sp_extract c (d_pool d) = Inr s" by (rule e)
  show "c \<noteq> UNKNOWN_CODE" using e(3) assms(1) unfolding dict_inv_def sp_layout_def UNKNOWN_CODE_def by auto
qed

lemma dict_lookup_string_eq:
  assumes "dict_inv h d ss" "inj_on h (insert s (set ss))"
  shows "dict_lookup_string h s d = (case map_of (sp_codes 1 ss) s of Some c \<Rightarrow> c | None \<Rightarrow> 0)"
  using dict_find [OF assms] dict_code_bound [OF assms(1)]
  by (auto simp: dict_lookup_string_def ct_get_def Let_def split: option.splits)

lemma dict_insert_old:
  assumes "dict_inv h d ss" "s \<in> set ss"
  shows "dict_insert h s d = Inr (d, dict_lookup_string h s d)"
    "dict_lookup_code (dict_lookup_string h s d) d = Inr s"
proof -
  have i: "inj_on h (insert s (set ss))" using assms by (simp add: dict_inv_def insert_absorb)
  from sp_codes_Some [OF assms(2)] obtain c where c: "map_of (sp_codes 1 ss) s = Some c" by blast
  note b = dict_code_bound [OF assms(1) c]
  show "dict_insert h s d = Inr (d, dict_lookup_string h s d)"
    using dict_find [OF assms(1) i] c b(1) dict_lookup_string_eq [OF assms(1) i]
    by (simp add: dict_insert_def Let_def ct_get_def)
  show "dict_lookup_code (dict_lookup_string h s d) d = Inr s"
    using dict_lookup_string_eq [OF assms(1) i] c b(2) by (simp add: dict_lookup_code_def)
qed

lemma dict_insert_new:
  assumes inv: "dict_inv h d ss" and s: "s \<notin> set ss" and i: "inj_on h (insert s (set ss))"
    and n: "nul \<notin> set s" and f: "sp_fits s (d_pool d)"
  obtains d' where "dict_insert h s d = Inr (d', sp_last (d_pool d))" "dict_inv h d' (ss @ [s])"
proof -
  from inv have l: "sp_layout (d_pool d) ss" "sp_size (d_pool d) < 2 ^ 32"
    and t: "d_table d = map (\<lambda>(s, c). (h s, c)) (sp_codes 1 ss)" and ds: "distinct ss"
    by (auto simp: dict_inv_def)
  have none: "map_of (sp_codes 1 ss) s = None" using s by (simp add: map_of_sp_codes_None)
  from sp_add_layout [OF l(1) n f l(2)] obtain sp' where a: "sp_add s (d_pool d) = Inr (sp', sp_last (d_pool d))"
    "sp_layout sp' (ss @ [s])" "sp_size sp' < 2 ^ 32" .
  let ?d = "d\<lparr>d_pool := sp', d_table := ct_insert h s (sp_last (d_pool d)) (d_table d)\<rparr>"
  have "ct_find h s (d_table d) = UNKNOWN_CODE" using dict_find [OF inv i] none by simp
  then have "dict_insert h s d = Inr (?d, sp_last (d_pool d))" using a(1) by (simp add: dict_insert_def)
  moreover have "map_of (d_table d) (h s) = None" using dict_table_find [OF ds i] none t by simp
  then have "ct_insert h s (sp_last (d_pool d)) (d_table d) = map (\<lambda>(s, c). (h s, c)) (sp_codes 1 (ss @ [s]))"
    unfolding ct_insert_def t sp_codes_snoc using l(1) by (simp add: sp_layout_def)
  then have "dict_inv h ?d (ss @ [s])" using a ds s i by (simp add: dict_inv_def)
  ultimately show ?thesis using that by blast
qed

lemma sp_codes_grow: "map_of (sp_codes 1 ss) t = Some c \<Longrightarrow> map_of (sp_codes 1 (ss @ [s])) t = Some c"
  unfolding sp_codes_snoc by simp

text \<open>What a client of the dictionary needs of an insertion.\<close>

lemma dict_insert_ok:
  assumes inv: "dict_inv h d ss" and i: "inj_on h (insert s (set ss))" and n: "nul \<notin> set s"
    and f: "sp_fits s (d_pool d)"
  obtains d' c where "dict_insert h s d = Inr (d', c)" "dict_lookup_code c d' = Inr s" "0 < c" "c < 2 ^ 32"
    "dict_inv h d' (if s \<in> set ss then ss else ss @ [s])"
proof -
  obtain d' c where d': "dict_insert h s d = Inr (d', c)" "dict_inv h d' (if s \<in> set ss then ss else ss @ [s])"
  proof (cases "s \<in> set ss")
    case True
    then show ?thesis using that dict_insert_old [OF inv] inv by simp
  next
    case False
    then show ?thesis using that dict_insert_new [OF inv False i n f] by metis
  qed
  let ?ss = "if s \<in> set ss then ss else ss @ [s]"
  have si: "s \<in> set ?ss" by simp
  have i': "inj_on h (insert s (set ?ss))" using d'(2) si by (simp add: dict_inv_def insert_absorb)
  from sp_codes_Some [OF si] obtain e where e: "map_of (sp_codes 1 ?ss) s = Some e" by blast
  have "c = e"
  proof (cases "s \<in> set ss")
    case True
    then have "c = dict_lookup_string h s d'" using d'(1) dict_insert_old(1) [OF inv True] by auto
    then show ?thesis using dict_lookup_string_eq [OF d'(2) i'] e by simp
  next
    case False
    from dict_insert_new [OF inv False i n f] d'(1) have "c = sp_last (d_pool d)" by (metis Inr_inject prod.inject)
    moreover have "map_of (sp_codes 1 ss) s = None" using False by (simp add: map_of_sp_codes_None)
    moreover have "sp_last (d_pool d) = length (sp_cells ss)" using inv by (simp add: dict_inv_def sp_layout_def)
    moreover have "map_of (sp_codes 1 (ss @ [s])) s = Some e" using e False by simp
    ultimately show ?thesis unfolding sp_codes_snoc by (simp add: map_add_def)
  qed
  have l: "sp_layout (d_pool d') ?ss" "sp_size (d_pool d') < 2 ^ 32" using d'(2) by (auto simp: dict_inv_def)
  note x = sp_extract_layout [OF l(1) map_of_SomeD [OF e]]
  have "c < 2 ^ 32" using x(3) l \<open>c = e\<close> unfolding sp_layout_def by linarith
  then show ?thesis using that d' x \<open>c = e\<close> by (simp add: dict_lookup_code_def)
qed

section \<open>Properties\<close>

text \<open>
  C24. Round trip of the dictionary: if the hash separates the strings in use, inserting a string that
  the pool can take returns a code from which \<open>lookup_code\<close> gets the string back and which
  \<open>lookup_string\<close> finds; a string that was already there keeps its code and the dictionary does not
  change; the codes of all other strings stay valid.
\<close>

theorem dict_insert_lookup:
  assumes "dict_inv h d ss" "inj_on h (insert s (set ss))" "nul \<notin> set s" "sp_fits s (d_pool d)"
  shows "\<exists>d' c. dict_insert h s d = Inr (d', c) \<and> dict_lookup_code c d' = Inr s \<and>
     dict_lookup_string h s d' = c \<and> dict_inv h d' (if s \<in> set ss then ss else ss @ [s]) \<and>
     (s \<in> set ss \<longrightarrow> d' = d) \<and>
     (\<forall>t\<in>set ss. dict_lookup_string h t d' = dict_lookup_string h t d \<and>
        dict_lookup_code (dict_lookup_string h t d') d' = Inr t)"
proof (cases "s \<in> set ss")
  case True
  then show ?thesis using dict_insert_old [OF assms(1)] assms(1) by simp
next
  case False
  from dict_insert_new [OF assms(1) False assms(2-4)] obtain d' where d':
    "dict_insert h s d = Inr (d', sp_last (d_pool d))" "dict_inv h d' (ss @ [s])" .
  have last: "sp_last (d_pool d) = length (sp_cells ss)" using assms(1) by (simp add: dict_inv_def sp_layout_def)
  have "map_of (sp_codes 1 ss) s = None" using False by (simp add: map_of_sp_codes_None)
  then have new: "map_of (sp_codes 1 (ss @ [s])) s = Some (sp_last (d_pool d))"
    using last unfolding sp_codes_snoc by (simp add: map_add_def)
  have i: "inj_on h (insert s (set (ss @ [s])))" using assms(2) by simp
  have "dict_lookup_string h t d' = dict_lookup_string h t d" if t: "t \<in> set ss" for t
  proof -
    obtain c where c: "map_of (sp_codes 1 ss) t = Some c"
      using sp_codes_Some [OF t] by blast
    have "insert t (set ss) \<subseteq> insert s (set ss)" "insert t (set (ss @ [s])) \<subseteq> insert s (set ss)"
      using t by auto
    note j = this [THEN inj_on_subset [OF assms(2)]]
    show ?thesis
      using dict_lookup_string_eq [OF assms(1) j(1)] dict_lookup_string_eq [OF d'(2) j(2)] c sp_codes_grow [OF c, of s]
      by simp
  qed
  moreover have "dict_lookup_code (dict_lookup_string h t d') d' = Inr t" if t: "t \<in> set ss" for t
    using dict_insert_old(2) [OF d'(2), of t] t by simp
  ultimately have "\<forall>t\<in>set ss. dict_lookup_string h t d' = dict_lookup_string h t d \<and>
      dict_lookup_code (dict_lookup_string h t d') d' = Inr t" by blast
  then show ?thesis
    using d' False new dict_lookup_string_eq [OF d'(2) i] dict_code_bound(2) [OF d'(2) new]
    by (intro exI [of _ d'] exI [of _ "sp_last (d_pool d)"]) (auto simp: dict_lookup_code_def)
qed

definition dict_demo :: dict where
  "dict_demo = \<lparr>d_pool = \<lparr>sp_pool = [Some (CHR ''#''), Some nul],
     sp_size = 2, sp_expand = 10000, sp_last = 1\<rparr>, d_table = []\<rparr>"

lemma dict_demo_new: "dict_new length 2 = Inr dict_demo"
  by (simp add: dict_new_def sp_new_def dict_initialize_def ct_rebuild_def sp_scan_def dict_demo_def
      numeral_2_eq_2)

lemma dict_demo_inv: "dict_inv length dict_demo []"
  by (simp add: dict_demo_def dict_inv_def sp_layout_def sp_cells_def)

theorem dict_insert_lookup_witness:
  "\<exists>d' c. dict_new length 2 = Inr dict_demo \<and> dict_insert length ''knows'' dict_demo = Inr (d', c) \<and>
     dict_lookup_code c d' = Inr ''knows'' \<and> dict_lookup_string length ''knows'' d' = c"
proof -
  have "inj_on length (insert ''knows'' (set []))" "nul \<notin> set ''knows''" by simp_all
  moreover have "sp_fits ''knows'' (d_pool dict_demo)" by (simp add: sp_fits_def dict_demo_def)
  ultimately show ?thesis using dict_insert_lookup [OF dict_demo_inv] dict_demo_new by blast
qed

lemma ct_insert_all:
  assumes "distinct ss" "inj_on h (set ss)" "\<forall>s\<in>set ss. map_of t (h s) = None"
  shows "foldl (\<lambda>u (s, c). ct_insert h s c u) t (sp_codes n ss) = t @ map (\<lambda>(s, c). (h s, c)) (sp_codes n ss)"
  using assms
proof (induction ss arbitrary: n t)
  case (Cons s ss)
  have ins: "ct_insert h s n t = t @ [(h s, n)]" using Cons.prems(3) by (simp add: ct_insert_def)
  have "h u \<noteq> h s" if "u \<in> set ss" for u
    using inj_onD [OF Cons.prems(2), of u s] Cons.prems(1) that by auto
  then have "\<forall>u\<in>set ss. map_of (t @ [(h s, n)]) (h u) = None" using Cons.prems(3) by (simp add: map_add_def)
  then show ?case using Cons.IH [of "t @ [(h s, n)]" "n + length s + 1"] Cons.prems ins by simp
qed simp

text \<open>
  Restart: opening a dictionary on an existing pool rebuilds, by scanning the pool, exactly the
  code table the dictionary had, so every string has the code it was given.
\<close>

theorem dict_initialize_restores:
  assumes "dict_inv h d ss"
  shows "dict_initialize h (d_pool d) = Inr d"
proof -
  from assms have "sp_scan (d_pool d) = Inr (sp_codes 1 ss)"
    and t: "d_table d = map (\<lambda>(s, c). (h s, c)) (sp_codes 1 ss)"
    by (auto simp: dict_inv_def sp_scan_layout)
  then have "ct_rebuild h (d_pool d) [] = Inr (d_table d)"
    using ct_insert_all [of ss h "[]" 1] assms by (simp add: ct_rebuild_def dict_inv_def)
  then show ?thesis by (simp add: dict_initialize_def)
qed

theorem dict_initialize_restores_witness: "dict_initialize length (d_pool dict_demo) = Inr dict_demo"
  by (rule dict_initialize_restores [OF dict_demo_inv])

text \<open>
  Hash collisions: the table is keyed by the hash alone and never compares strings, so
  a new string whose hash equals that of a stored one is not stored; it is given the code of the other
  string, from which the other string is read.
\<close>

theorem dict_collision_conflates:
  assumes "dict_inv h d ss" "t \<in> set ss" "h s = h t" "s \<noteq> t"
  shows "\<exists>c. dict_insert h s d = Inr (d, c) \<and> dict_lookup_code c d = Inr t"
proof -
  have i: "inj_on h (insert t (set ss))" using assms(1,2) by (simp add: dict_inv_def insert_absorb)
  obtain c where c: "map_of (sp_codes 1 ss) t = Some c"
    using sp_codes_Some [OF assms(2)] by blast
  have "ct_find h s (d_table d) = c"
    using dict_find [OF assms(1) i] c assms(3) by (simp add: ct_find_def)
  then show ?thesis using dict_code_bound [OF assms(1) c]
    by (simp add: dict_insert_def ct_get_def dict_lookup_code_def)
qed

theorem dict_collision_conflates_witness:
  "\<exists>d c. dict_insert length ''ab'' dict_demo = Inr (d, 1) \<and>
     dict_insert length ''xy'' d = Inr (d, c) \<and> dict_lookup_code c d = Inr ''ab''"
proof -
  have f: "sp_fits ''ab'' (d_pool dict_demo)" by (simp add: sp_fits_def dict_demo_def)
  from dict_insert_new [OF dict_demo_inv, of "''ab''"] f obtain d where
    d: "dict_insert length ''ab'' dict_demo = Inr (d, sp_last (d_pool dict_demo))" "dict_inv length d ([] @ [''ab''])"
    by auto
  have "\<exists>c. dict_insert length ''xy'' d = Inr (d, c) \<and> dict_lookup_code c d = Inr ''ab''"
    by (rule dict_collision_conflates [OF d(2)]) simp_all
  with d(1) show ?thesis by (auto simp: dict_demo_def)
qed

text \<open>
  Long strings: \<open>add\<close> expands the array once, by \<open>expand_\<close> bytes. A string that does not fit
  into the free space and one expansion is copied past the end of the allocation.
\<close>

theorem sp_add_long_string_overflows:
  assumes "sp_layout sp ss" "sp_size sp + sp_expand sp < 2 ^ 32" "sp_size sp + sp_expand sp < sp_last sp + length str"
  shows "sp_add str sp = Inl Undefined_behaviour"
proof -
  let ?n = "sp_size sp + sp_expand sp"
  have m: "mod32 ?n = ?n" using assms(2) by (rule mod32_small)
  have len: "length (sp_pool sp) = sp_size sp" using assms(1) by (simp add: sp_layout_def)
  have "length (sp_realloc ?n (sp_pool sp)) = ?n" using len by (simp add: sp_realloc_def)
  then show ?thesis using assms(3) m by (simp add: sp_add_def Let_def sp_copy_def)
qed

theorem sp_add_long_string_overflows_witness:
  "sp_add (replicate 10006 (CHR ''x'')) (d_pool dict_demo) = Inl Undefined_behaviour"
  by (rule sp_add_long_string_overflows [of _ "[]"])
    (use dict_demo_inv in \<open>simp_all add: dict_inv_def dict_demo_def\<close>)

end
