(* ===== verification/Property_Value.thy ===== *)
theory Property_Value
  imports Dict
begin

text \<open>
  Property values, \<^verbatim>\<open>src/src/storage/properties.cpp\<close> and the first part of \<^verbatim>\<open>properties.hpp\<close>: a
  \<open>p_item\<close> is eight value bytes, a dictionary code for the key and a flag byte with the type code.
  The value bytes are one 64-bit word; doubles and time stamps are their 64-bit patterns.
  \<open>std::any\<close> is a datatype with one constructor per type the code casts to. The regular expressions
  are functions on strings. What the code takes from outside, the conversion of decimal fractions
  (\<open>std::stod\<close>) and the date parsers of Boost, is the record parameter \<open>conv\<close>.
\<close>

section \<open>Recognising literals\<close>

definition is_digit :: "char \<Rightarrow> bool" where
  "is_digit c = (48 \<le> (of_char c :: nat) \<and> (of_char c :: nat) \<le> 57)"

definition is_digits :: "string \<Rightarrow> bool" where
  "is_digits s = (s \<noteq> [] \<and> list_all is_digit s)"

definition is_quoted_string :: "string \<Rightarrow> bool" where
  "is_quoted_string s =
     (s \<noteq> [] \<and> (hd s = CHR 0x22 \<and> last s = CHR 0x22 \<or> hd s = CHR 0x27 \<and> last s = CHR 0x27))"

definition is_posint :: "string \<Rightarrow> bool" where
  "is_posint s = (is_digits s \<and> hd s \<noteq> CHR ''0'')"

definition is_int :: "string \<Rightarrow> bool" where
  "is_int s = (s = ''0'' \<or> is_posint s \<or> s \<noteq> [] \<and> hd s = CHR ''-'' \<and> is_posint (tl s))"

definition is_float :: "string \<Rightarrow> bool" where
  "is_float s =
     (let t = (if s \<noteq> [] \<and> hd s = CHR ''-'' then tl s else s);
          a = takeWhile (\<lambda>c. c \<noteq> CHR ''.'') t; b = dropWhile (\<lambda>c. c \<noteq> CHR ''.'') t
      in is_digits a \<and> b \<noteq> [] \<and> is_digits (tl b))"

definition digit_val :: "char \<Rightarrow> nat" where
  "digit_val c = (of_char c :: nat) - 48"

definition nat_of_digits :: "string \<Rightarrow> nat" where
  "nat_of_digits s = foldl (\<lambda>n c. 10 * n + digit_val c) 0 s"

text \<open>The two-digit fields of a date: \<open>lo\<close> to \<open>hi\<close>.\<close>

definition field2 :: "nat \<Rightarrow> nat \<Rightarrow> string \<Rightarrow> bool" where
  "field2 lo hi s = (length s = 2 \<and> is_digits s \<and> lo \<le> nat_of_digits s \<and> nat_of_digits s \<le> hi)"

definition is_date :: "string \<Rightarrow> bool" where
  "is_date s =
     (length s = 10 \<and> is_digits (take 4 s) \<and> 1970 \<le> nat_of_digits (take 4 s) \<and>
      nat_of_digits (take 4 s) \<le> 2099 \<and> s ! 4 = CHR ''-'' \<and> field2 1 12 (take 2 (drop 5 s)) \<and>
      s ! 7 = CHR ''-'' \<and> field2 1 31 (take 2 (drop 8 s)))"

definition is_zone :: "string \<Rightarrow> bool" where
  "is_zone s = (length s = 4 \<and> is_digits s \<or>
     length s = 5 \<and> is_digits (take 2 s) \<and> s ! 2 = CHR '':'' \<and> is_digits (drop 3 s))"

definition is_dtime :: "string \<Rightarrow> bool" where
  "is_dtime s =
     (24 < length s \<and> is_date (take 10 s) \<and> s ! 10 = CHR ''T'' \<and> field2 0 23 (take 2 (drop 11 s)) \<and>
      s ! 13 = CHR '':'' \<and> field2 0 59 (take 2 (drop 14 s)) \<and> s ! 16 = CHR '':'' \<and>
      field2 0 59 (take 2 (drop 17 s)) \<and> s ! 19 \<noteq> CHR 0x0A \<and> s ! 19 \<noteq> CHR 0x0D \<and> is_digits (take 3 (drop 20 s)) \<and>
      s ! 23 = CHR ''+'' \<and> is_zone (drop 24 s))"

section \<open>Conversions\<close>

definition int_of_string :: "string \<Rightarrow> int" where
  "int_of_string s =
     (if s \<noteq> [] \<and> hd s = CHR ''-'' then - int (nat_of_digits (tl s)) else int (nat_of_digits s))"

text \<open>\<open>std::stoi\<close> on a string that matches the integer expression.\<close>

definition stoi :: "string \<Rightarrow> int result" where
  "stoi s = (let i = int_of_string s in
     if - (2 ^ 31) \<le> i \<and> i < 2 ^ 31 then Inr i else Inl Std_out_of_range)"

text \<open>
  \<open>std::stoull\<close> takes a minus sign and negates in 64 bits.
\<close>

definition stoull :: "string \<Rightarrow> 64 word result" where
  "stoull s = (let i = int_of_string s in
     if \<bar>i\<bar> < 2 ^ 64 then Inr (word_of_int i) else Inl Std_out_of_range)"

definition is_uint64 :: "string \<Rightarrow> bool" where
  "is_uint64 s =
     (is_int s \<and> (case stoi s of Inr _ \<Rightarrow> False | Inl _ \<Rightarrow> (case stoull s of Inr _ \<Rightarrow> True | Inl _ \<Rightarrow> False)))"

record conv =
  cv_stod :: "string \<Rightarrow> 64 word"
  cv_ptime_of_date :: "string \<Rightarrow> 64 word"
  cv_ptime_of_string :: "string \<Rightarrow> 64 word"

text \<open>The first \<open>T\<close> becomes a blank and everything from the first \<open>+\<close> on is cut off.\<close>

definition dtime_text :: "string \<Rightarrow> string" where
  "dtime_text s =
     (let t = (case dropWhile (\<lambda>c. c \<noteq> CHR ''T'') s of [] \<Rightarrow> s
               | _ # r \<Rightarrow> takeWhile (\<lambda>c. c \<noteq> CHR ''T'') s @ CHR '' '' # r)
      in takeWhile (\<lambda>c. c \<noteq> CHR ''+'') t)"

section \<open>Items\<close>

datatype p_typecode = P_int | P_double | P_dcode | P_uint64 | P_ptime | P_unused | P_none

text \<open>
  \<open>P_none\<close> is the flag byte 0 a constructor leaves for an unknown type code. The enumerators
  \<open>p_unused\<close> and \<open>p_date\<close> have the same value; both are \<open>P_unused\<close>.
\<close>

fun typecode_bits :: "p_typecode \<Rightarrow> 8 word" where
  "typecode_bits P_unused = 0xE0"
| "typecode_bits P_int = 0x20"
| "typecode_bits P_double = 0x40"
| "typecode_bits P_dcode = 0x60"
| "typecode_bits P_uint64 = 0x80"
| "typecode_bits P_ptime = 0xA0"
| "typecode_bits P_none = 0"

record p_item =
  pi_value :: "64 word"
  pi_key :: dcode_t
  pi_type :: p_typecode

datatype any_val =
    Any_int int
  | Any_double "64 word"
  | Any_string string
  | Any_uint64 "64 word"
  | Any_ptime "64 word"
  | Any_dcode dcode_t
  | Any_other

definition pi_unused :: p_item where
  "pi_unused = \<lparr>pi_value = 0, pi_key = 0, pi_type = P_unused\<rparr>"

definition pi_set_int :: "int \<Rightarrow> p_item \<Rightarrow> p_item" where
  "pi_set_int i p = p\<lparr>pi_type := P_int, pi_value := ucast (word_of_int i :: 32 word)\<rparr>"

definition pi_set_double :: "64 word \<Rightarrow> p_item \<Rightarrow> p_item" where
  "pi_set_double d p = p\<lparr>pi_type := P_double, pi_value := d\<rparr>"

definition pi_set_dcode :: "dcode_t \<Rightarrow> p_item \<Rightarrow> p_item" where
  "pi_set_dcode c p = p\<lparr>pi_type := P_dcode, pi_value := ucast (of_nat c :: 32 word)\<rparr>"

definition pi_set_uint64 :: "64 word \<Rightarrow> p_item \<Rightarrow> p_item" where
  "pi_set_uint64 u p = p\<lparr>pi_type := P_uint64, pi_value := u\<rparr>"

definition pi_set_ptime :: "64 word \<Rightarrow> p_item \<Rightarrow> p_item" where
  "pi_set_ptime t p = p\<lparr>pi_type := P_ptime, pi_value := t\<rparr>"

definition pi_get_int :: "p_item \<Rightarrow> int result" where
  "pi_get_int p = (if pi_type p = P_int then Inr (sint (ucast (pi_value p) :: 32 word)) else Inl Assertion_failed)"

definition pi_get_double :: "p_item \<Rightarrow> 64 word result" where
  "pi_get_double p = (if pi_type p = P_double then Inr (pi_value p) else Inl Assertion_failed)"

definition pi_get_dcode :: "p_item \<Rightarrow> dcode_t result" where
  "pi_get_dcode p = (if pi_type p = P_dcode then Inr (unat (ucast (pi_value p) :: 32 word)) else Inl Assertion_failed)"

definition pi_get_uint64 :: "p_item \<Rightarrow> 64 word result" where
  "pi_get_uint64 p = (if pi_type p = P_uint64 then Inr (pi_value p) else Inl Assertion_failed)"

definition pi_get_ptime :: "p_item \<Rightarrow> 64 word result" where
  "pi_get_ptime p = (if pi_type p = P_ptime then Inr (pi_value p) else Inl Assertion_failed)"

text \<open>The constructor from \<open>std::any\<close>: strings are classified by their form.\<close>

definition pi_of_any :: "conv \<Rightarrow> hash \<Rightarrow> any_val \<Rightarrow> dict \<Rightarrow> (dict \<times> p_item) result" where
  "pi_of_any cv h v d =
     (case v of
        Any_uint64 u \<Rightarrow> Inr (d, pi_set_uint64 u pi_unused)
      | Any_string s \<Rightarrow>
          if is_quoted_string s then
            rbind (dict_insert h s d) (\<lambda>(d', c). Inr (d', pi_set_dcode c pi_unused))
          else if is_int s then rbind (stoi s) (\<lambda>i. Inr (d, pi_set_int i pi_unused))
          else if is_float s then Inr (d, pi_set_double (cv_stod cv s) pi_unused)
          else if is_date s then Inr (d, pi_set_ptime (cv_ptime_of_date cv s) pi_unused)
          else if is_dtime s then Inr (d, pi_set_ptime (cv_ptime_of_string cv (dtime_text s)) pi_unused)
          else rbind (dict_insert h s d) (\<lambda>(d', c). Inr (d', pi_set_dcode c pi_unused))
      | Any_ptime t \<Rightarrow> Inr (d, pi_set_ptime t pi_unused)
      | Any_double x \<Rightarrow> Inr (d, pi_set_double x pi_unused)
      | Any_int i \<Rightarrow> Inr (d, pi_set_int i pi_unused)
      | Any_dcode _ \<Rightarrow> Inr (d, pi_unused)
      | Any_other \<Rightarrow> Inr (d, pi_unused))"

definition pi_of_kv :: "conv \<Rightarrow> hash \<Rightarrow> string \<Rightarrow> any_val \<Rightarrow> dict \<Rightarrow> (dict \<times> p_item) result" where
  "pi_of_kv cv h k v d =
     rbind (pi_of_any cv h v d) (\<lambda>(d1, p).
     rbind (dict_insert h k d1) (\<lambda>(d2, c). Inr (d2, p\<lparr>pi_key := c\<rparr>)))"

definition pi_of_code :: "conv \<Rightarrow> hash \<Rightarrow> dcode_t \<Rightarrow> any_val \<Rightarrow> dict \<Rightarrow> (dict \<times> p_item) result" where
  "pi_of_code cv h k v d = rbind (pi_of_any cv h v d) (\<lambda>(d1, p). Inr (d1, p\<lparr>pi_key := k\<rparr>))"

text \<open>The typed constructors of the import: a value of another type than announced is a bad cast.\<close>

definition pi_typed :: "dcode_t \<Rightarrow> p_typecode \<Rightarrow> any_val \<Rightarrow> p_item result" where
  "pi_typed k tc v =
     (let p = \<lparr>pi_value = 0, pi_key = k, pi_type = P_none\<rparr> in
      case tc of
        P_int \<Rightarrow> (case v of Any_int i \<Rightarrow> Inr (pi_set_int i p) | _ \<Rightarrow> Inl Bad_any_cast)
      | P_double \<Rightarrow> (case v of Any_double x \<Rightarrow> Inr (pi_set_double x p) | _ \<Rightarrow> Inl Bad_any_cast)
      | P_dcode \<Rightarrow> (case v of Any_dcode c \<Rightarrow> Inr (pi_set_dcode c p) | _ \<Rightarrow> Inl Bad_any_cast)
      | P_uint64 \<Rightarrow> (case v of Any_uint64 u \<Rightarrow> Inr (pi_set_uint64 u p) | _ \<Rightarrow> Inl Bad_any_cast)
      | P_ptime \<Rightarrow> (case v of Any_ptime t \<Rightarrow> Inr (pi_set_ptime t p) | _ \<Rightarrow> Inl Bad_any_cast)
      | P_unused \<Rightarrow> (case v of Any_ptime t \<Rightarrow> Inr (pi_set_ptime t p) | _ \<Rightarrow> Inl Bad_any_cast)
      | P_none \<Rightarrow> Inr p)"

definition pi_equal_int :: "(64 word \<Rightarrow> int \<Rightarrow> bool) \<Rightarrow> p_item \<Rightarrow> int \<Rightarrow> bool result" where
  "pi_equal_int deq p i =
     (if pi_type p = P_int then rbind (pi_get_int p) (\<lambda>j. Inr (j = i))
      else if pi_type p = P_double then rbind (pi_get_double p) (\<lambda>x. Inr (deq x i))
      else Inl Invalid_typecast)"

definition pi_equal_double :: "(int \<Rightarrow> 64 word \<Rightarrow> bool) \<Rightarrow> (64 word \<Rightarrow> 64 word \<Rightarrow> bool) \<Rightarrow> p_item \<Rightarrow> 64 word \<Rightarrow> bool result" where
  "pi_equal_double ieq deq p x =
     (if pi_type p = P_int then rbind (pi_get_int p) (\<lambda>i. Inr (ieq i x))
      else if pi_type p = P_double then rbind (pi_get_double p) (\<lambda>y. Inr (deq y x))
      else Inl Invalid_typecast)"

definition pi_equal_dcode :: "p_item \<Rightarrow> dcode_t \<Rightarrow> bool result" where
  "pi_equal_dcode p c =
     (if pi_type p = P_dcode then rbind (pi_get_dcode p) (\<lambda>d. Inr (d = c)) else Inl Invalid_typecast)"

definition pi_equal_uint64 :: "p_item \<Rightarrow> 64 word \<Rightarrow> bool result" where
  "pi_equal_uint64 p u =
     (if pi_type p = P_uint64 then rbind (pi_get_uint64 p) (\<lambda>v. Inr (v = u)) else Inl Invalid_typecast)"

definition pi_equal_ptime :: "p_item \<Rightarrow> 64 word \<Rightarrow> bool result" where
  "pi_equal_ptime p t =
     (if pi_type p = P_ptime then rbind (pi_get_ptime p) (\<lambda>v. Inr (v = t)) else Inl Invalid_typecast)"

definition pi_get_raw :: "p_item \<Rightarrow> 64 word" where
  "pi_get_raw p = pi_value p"

text \<open>Reading an item back as a value of the property map, \<open>None\<close> for an unused item.\<close>

definition pi_to_any :: "p_item \<Rightarrow> dict \<Rightarrow> any_val option result" where
  "pi_to_any p d =
     (case pi_type p of
        P_int \<Rightarrow> rbind (pi_get_int p) (\<lambda>i. Inr (Some (Any_int i)))
      | P_double \<Rightarrow> rbind (pi_get_double p) (\<lambda>x. Inr (Some (Any_double x)))
      | P_uint64 \<Rightarrow> rbind (pi_get_uint64 p) (\<lambda>u. Inr (Some (Any_uint64 u)))
      | P_dcode \<Rightarrow> rbind (pi_get_dcode p) (\<lambda>c. rbind (dict_lookup_code c d) (\<lambda>s. Inr (Some (Any_string s))))
      | P_ptime \<Rightarrow> rbind (pi_get_ptime p) (\<lambda>t. Inr (Some (Any_ptime t)))
      | P_unused \<Rightarrow> Inr None
      | P_none \<Rightarrow> Inr None)"

section \<open>Lemmas\<close>

lemma sint_word_of_int32: "- (2 ^ 31) \<le> i \<Longrightarrow> i < 2 ^ 31 \<Longrightarrow> sint (word_of_int i :: 32 word) = i"
  by (simp add: signed_of_int signed_take_bit_int_eq_self)

lemma ucast_ucast32: "(ucast (ucast (w :: 32 word) :: 64 word) :: 32 word) = w"
  by (simp add: unsigned_ucast_eq take_bit_word_eq_self)

lemma pi_get_set_int:
  "- (2 ^ 31) \<le> i \<Longrightarrow> i < 2 ^ 31 \<Longrightarrow> pi_get_int (pi_set_int i p) = Inr i"
  by (simp add: pi_get_int_def pi_set_int_def ucast_ucast32 sint_word_of_int32)

lemma pi_get_set_dcode: "c < 2 ^ 32 \<Longrightarrow> pi_get_dcode (pi_set_dcode c p) = Inr c"
  by (simp add: pi_get_dcode_def pi_set_dcode_def ucast_ucast32 unsigned_of_nat take_bit_nat_eq_self)

section \<open>Properties\<close>

text \<open>A value that is stored as such: numbers in range, and strings that do not look like a number or a date.\<close>

fun any_plain :: "any_val \<Rightarrow> bool" where
  "any_plain (Any_int i) = (- (2 ^ 31) \<le> i \<and> i < 2 ^ 31)"
| "any_plain (Any_string s) =
     (nul \<notin> set s \<and> (is_quoted_string s \<or> \<not> is_int s \<and> \<not> is_float s \<and> \<not> is_date s \<and> \<not> is_dtime s))"
| "any_plain (Any_dcode c) = False"
| "any_plain Any_other = False"
| "any_plain _ = True"

fun any_fits :: "hash \<Rightarrow> string list \<Rightarrow> dict \<Rightarrow> any_val \<Rightarrow> bool" where
  "any_fits h ss d (Any_string s) = (inj_on h (insert s (set ss)) \<and> sp_fits s (d_pool d))"
| "any_fits h ss d _ = True"

lemma pi_dcode_string:
  assumes "c < 2 ^ 32" "dict_lookup_code c d = Inr s"
  shows "pi_to_any (pi_set_dcode c p) d = Inr (Some (Any_string s))"
  using assms pi_get_set_dcode [OF assms(1)] by (simp add: pi_to_any_def) (simp add: pi_set_dcode_def)

text \<open>
  Round trip of property values: an integer of 32 bits, a double, an unsigned 64-bit number, a time
  stamp, and a string that does not have the form of a number or a date, is stored in a property item
  from which the same value is read back through the dictionary.
\<close>

theorem pi_any_roundtrip:
  assumes "dict_inv h d ss" "any_plain v" "any_fits h ss d v"
  shows "\<exists>d' p. pi_of_any cv h v d = Inr (d', p) \<and> pi_to_any p d' = Inr (Some v)"
proof (cases v)
  case (Any_string s)
  with assms have s: "inj_on h (insert s (set ss))" "sp_fits s (d_pool d)" "nul \<notin> set s"
    "is_quoted_string s \<or> \<not> is_int s \<and> \<not> is_float s \<and> \<not> is_date s \<and> \<not> is_dtime s" by auto
  from dict_insert_ok [OF assms(1) s(1,3,2)] obtain d' c where
    d': "dict_insert h s d = Inr (d', c)" "dict_lookup_code c d' = Inr s" "c < 2 ^ 32" by metis
  have "pi_of_any cv h v d = Inr (d', pi_set_dcode c pi_unused)"
    using s(4) d'(1) Any_string by (auto simp: pi_of_any_def)
  with pi_dcode_string [OF d'(3,2)] Any_string show ?thesis by simp
next
  case (Any_int i)
  then have "pi_of_any cv h v d = Inr (d, pi_set_int i pi_unused)" by (simp add: pi_of_any_def)
  moreover have "pi_to_any (pi_set_int i pi_unused) d = Inr (Some (Any_int i))"
    using pi_get_set_int [of i pi_unused] assms(2) Any_int by (simp add: pi_to_any_def) (simp add: pi_set_int_def)
  ultimately show ?thesis using Any_int by simp
qed (use assms in \<open>auto simp: pi_of_any_def pi_to_any_def pi_set_uint64_def pi_get_uint64_def
    pi_set_double_def pi_get_double_def pi_set_ptime_def pi_get_ptime_def\<close>)

definition conv_demo :: conv where
  "conv_demo = \<lparr>cv_stod = (\<lambda>s. of_nat (length s)), cv_ptime_of_date = (\<lambda>s. of_nat (length s)),
     cv_ptime_of_string = (\<lambda>s. of_nat (length s))\<rparr>"

theorem pi_any_roundtrip_witness:
  "\<exists>d' p. pi_of_any conv_demo length (Any_string ''Ada'') dict_demo = Inr (d', p) \<and> pi_to_any p d' = Inr (Some (Any_string ''Ada''))"
  by (rule pi_any_roundtrip [OF dict_demo_inv])
    (simp_all add: is_quoted_string_def is_int_def is_posint_def is_digits_def is_digit_def is_float_def
      is_date_def is_dtime_def sp_fits_def dict_demo_def Let_def)

text \<open>
  Large integers: a string of digits beyond the range of \<open>int\<close> (which \<open>is_uint64\<close> recognises) is
  taken as an integer by the constructor of \<open>p_item\<close> and makes it throw \<open>std::out_of_range\<close> instead of
  being stored as an unsigned 64-bit value.
\<close>

theorem pi_big_integer_throws:
  assumes "is_uint64 s"
  shows "pi_of_any cv h (Any_string s) d = Inl Std_out_of_range"
proof -
  have i: "is_int s" and e: "stoi s = Inl Std_out_of_range"
    using assms by (auto simp: is_uint64_def stoi_def Let_def split: sum.splits if_splits)
  have "\<not> is_quoted_string s"
    using i by (cases s) (auto simp: is_quoted_string_def is_int_def is_posint_def is_digits_def is_digit_def)
  with i e show ?thesis by (simp add: pi_of_any_def)
qed

theorem pi_big_integer_throws_witness:
  "pi_of_any conv_demo length (Any_string ''3000000000'') dict_demo = Inl Std_out_of_range"
  by (rule pi_big_integer_throws)
    (simp add: is_uint64_def is_int_def is_posint_def is_digits_def is_digit_def stoi_def stoull_def
      int_of_string_def nat_of_digits_def digit_val_def Let_def)

end
