(* ===== verification/Txn.thy ===== *)
theory Txn
  imports Property_Value
begin

text \<open>
  Multiversion transactional objects, \<^verbatim>\<open>src/src/tx/txn_data.hpp\<close>, and transactions, \<^verbatim>\<open>src/src/tx/transaction.cpp\<close>.

  A transactional element (a node or a relationship) has the fields of \<open>txn\<close> (lock word, begin, commit and
  read timestamp, the pointer \<open>d_\<close> to its volatile part) and a body. An object of a table is its element
  together with its dirty list: the versions kept in volatile memory, most recent first. The volatile
  part of the elements of all versions points to this same list (\<open>add_dirty_version\<close> sets it), so the list
  is a field of the object, and \<open>d_\<close> of an element is \<open>None\<close> for the null pointer or the dirty flag.
  Methods of an element that work on the list are functions of the object. References to elements of one object
  are positions: the table element, or a version counted from the end of the list, which stays the
  same when a version is pushed to its front. The mutex of a list only excludes concurrent calls.
\<close>

section \<open>Data\<close>

definition INF_TS :: nat where
  "INF_TS = 2 ^ 64 - 1"

record 'b elem =
  txn_id :: xid_t
  bts :: nat
  cts :: nat
  rts :: nat
  vol :: "bool option"
  body :: 'b

record 'b version =
  v_updated :: bool
  v_elem :: "'b elem"
  v_props :: "p_item list"

record 'b object =
  o_elem :: "'b elem"
  o_list :: "'b version list option"

datatype vref = Main | Version nat

definition elem_new :: "'b \<Rightarrow> 'b elem" where
  "elem_new b = \<lparr>txn_id = 0, bts = 0, cts = INF_TS, rts = 0, vol = None, body = b\<rparr>"

definition object_new :: "'b \<Rightarrow> 'b object" where
  "object_new b = \<lparr>o_elem = elem_new b, o_list = None\<rparr>"

section \<open>Elements\<close>

definition runtime_initialize :: "'b object \<Rightarrow> 'b object" where
  "runtime_initialize ob =
     \<lparr>o_elem = (o_elem ob)\<lparr>txn_id := 0, bts := 0, rts := 0, cts := INF_TS, vol := None\<rparr>, o_list = None\<rparr>"

definition prepare :: "'b elem \<Rightarrow> 'b elem" where
  "prepare e = (if vol e = None then e\<lparr>vol := Some False\<rparr> else e)"

definition set_timestamps :: "nat \<Rightarrow> nat \<Rightarrow> 'b elem \<Rightarrow> 'b elem" where
  "set_timestamps b c e = e\<lparr>bts := b, cts := c\<rparr>"

definition set_cts :: "nat \<Rightarrow> 'b elem \<Rightarrow> 'b elem" where
  "set_cts c e = e\<lparr>cts := c\<rparr>"

definition set_rts :: "nat \<Rightarrow> 'b elem \<Rightarrow> 'b elem" where
  "set_rts r e = (if rts e < r then e\<lparr>rts := r\<rparr> else e)"

definition is_locked :: "'b elem \<Rightarrow> bool" where
  "is_locked e = (txn_id e \<noteq> 0)"

definition is_locked_by :: "xid_t \<Rightarrow> 'b elem \<Rightarrow> bool" where
  "is_locked_by xid e = (txn_id e = xid)"

text \<open>
  The loop of \<open>lock\<close>: a failed compare-and-exchange stores the value it found in \<open>expected\<close>, and the next
  round compares with that value. Without interference it ends after at most two rounds.
\<close>

function lock_loop :: "xid_t \<Rightarrow> xid_t \<Rightarrow> 'b elem \<Rightarrow> 'b elem" where
  "lock_loop expected xid e =
     (if txn_id e = expected then e\<lparr>txn_id := xid\<rparr>
      else if txn_id e = xid then e
      else lock_loop (txn_id e) xid e)"
  by pat_completeness auto
termination by (relation "measure (\<lambda>(expected, xid, e). if txn_id e = expected then 0 else 1)") auto

definition lock :: "xid_t \<Rightarrow> 'b elem \<Rightarrow> 'b elem" where
  "lock xid e = lock_loop 0 xid e"

definition unlock :: "'b elem \<Rightarrow> 'b elem" where
  "unlock e = e\<lparr>txn_id := 0\<rparr>"

definition try_lock :: "xid_t \<Rightarrow> 'b elem \<Rightarrow> bool \<times> 'b elem" where
  "try_lock xid e = (if txn_id e = 0 then (True, e\<lparr>txn_id := xid\<rparr>) else (False, e))"

definition set_dirty :: "'b elem \<Rightarrow> 'b elem result" where
  "set_dirty e = (case vol e of None \<Rightarrow> Inl Undefined_behaviour | Some _ \<Rightarrow> Inr (e\<lparr>vol := Some True\<rparr>))"

definition is_dirty :: "'b elem \<Rightarrow> bool" where
  "is_dirty e = (vol e = Some True)"

definition is_valid_for :: "xid_t \<Rightarrow> 'b elem \<Rightarrow> bool" where
  "is_valid_for xid e = (vol e = None \<or> bts e \<le> xid \<and> xid < cts e)"

definition is_valid :: "'b elem \<Rightarrow> bool" where
  "is_valid e = (cts e = INF_TS)"

section \<open>Dirty lists\<close>

definition versions :: "'b object \<Rightarrow> 'b version list" where
  "versions ob = (case o_list ob of None \<Rightarrow> [] | Some vs \<Rightarrow> vs)"

definition has_dirty_versions :: "'b object \<Rightarrow> bool" where
  "has_dirty_versions ob = (vol (o_elem ob) \<noteq> None \<and> versions ob \<noteq> [])"

definition delete_dirty_list :: "'b object \<Rightarrow> 'b object result" where
  "delete_dirty_list ob =
     (if vol (o_elem ob) = None then Inl Undefined_behaviour else Inr (ob\<lparr>o_list := None\<rparr>))"

text \<open>The search returns the position in the list.\<close>

fun find_valid_from :: "xid_t \<Rightarrow> bool \<Rightarrow> nat \<Rightarrow> 'b version list \<Rightarrow> nat result" where
  "find_valid_from xid abort i [] = Inl (if abort then Transaction_abort else Unknown_id)"
| "find_valid_from xid abort i (v # vs) =
     (let e = v_elem v in
      if \<not> is_locked e \<or> is_locked_by xid e then
        (if is_valid_for xid e then Inr i
         else if is_locked_by xid e \<and> bts e = cts e then Inl Unknown_id
         else find_valid_from xid True (Suc i) vs)
      else find_valid_from xid abort (Suc i) vs)"

definition version_ref :: "'b object \<Rightarrow> nat \<Rightarrow> vref" where
  "version_ref ob i = Version (length (versions ob) - 1 - i)"

definition find_valid_version :: "xid_t \<Rightarrow> 'b object \<Rightarrow> vref result" where
  "find_valid_version xid ob =
     (if has_dirty_versions ob
      then rbind (find_valid_from xid False 0 (versions ob)) (\<lambda>i. Inr (version_ref ob i))
      else Inl Unknown_id)"

fun has_valid_from :: "xid_t \<Rightarrow> 'b version list \<Rightarrow> bool" where
  "has_valid_from xid [] = False"
| "has_valid_from xid (v # vs) =
     (let e = v_elem v in
      if \<not> is_locked e \<or> is_locked_by xid e then
        (if is_valid_for xid e then True
         else if is_locked_by xid e \<and> bts e = cts e then False
         else has_valid_from xid vs)
      else has_valid_from xid vs)"

definition has_valid_version :: "xid_t \<Rightarrow> 'b object \<Rightarrow> bool" where
  "has_valid_version xid ob = (has_dirty_versions ob \<and> has_valid_from xid (versions ob))"

fun dirty_pos :: "xid_t \<Rightarrow> nat \<Rightarrow> 'b version list \<Rightarrow> nat option" where
  "dirty_pos xid i [] = None"
| "dirty_pos xid i (v # vs) = (if txn_id (v_elem v) = xid then Some i else dirty_pos xid (Suc i) vs)"

definition get_dirty_version :: "xid_t \<Rightarrow> 'b object \<Rightarrow> vref result" where
  "get_dirty_version xid ob =
     (if has_dirty_versions ob
      then (case dirty_pos xid 0 (versions ob) of None \<Rightarrow> Inl Unknown_id | Some i \<Rightarrow> Inr (version_ref ob i))
      else Inl Unknown_id)"

definition remove_dirty_version :: "xid_t \<Rightarrow> 'b object \<Rightarrow> 'b object" where
  "remove_dirty_version xid ob =
     (if has_dirty_versions ob
      then ob\<lparr>o_list := Some (filter (\<lambda>v. \<not> (txn_id (v_elem v) = xid \<and> cts (v_elem v) = INF_TS)) (versions ob))\<rparr>
      else ob)"

definition add_dirty_version :: "'b version \<Rightarrow> 'b object \<Rightarrow> vref \<times> 'b object" where
  "add_dirty_version v ob =
     (Version (length (versions ob)),
      ob\<lparr>o_elem := prepare (o_elem ob), o_list := Some (v\<lparr>v_elem := prepare (v_elem v)\<rparr> # versions ob)\<rparr>)"

definition updated_in_version :: "xid_t \<Rightarrow> 'b object \<Rightarrow> bool result" where
  "updated_in_version xid ob =
     (if vol (o_elem ob) = None then Inl Undefined_behaviour
      else Inr (case find (\<lambda>v. txn_id (v_elem v) = xid) (versions ob) of None \<Rightarrow> False | Some v \<Rightarrow> v_updated v))"

definition gc :: "xid_t \<Rightarrow> 'b object \<Rightarrow> 'b object result" where
  "gc oldest ob =
     (let ob1 = (if has_dirty_versions ob
                 then ob\<lparr>o_list := Some (filter (\<lambda>v. \<not> cts (v_elem v) \<le> oldest) (versions ob))\<rparr> else ob)
      in if has_dirty_versions ob1 then Inr ob1 else delete_dirty_list ob1)"

section \<open>References\<close>

definition version_at :: "'b object \<Rightarrow> nat \<Rightarrow> 'b version option" where
  "version_at ob k = (if k < length (versions ob) then Some (rev (versions ob) ! k) else None)"

definition o_get :: "'b object \<Rightarrow> vref \<Rightarrow> 'b elem result" where
  "o_get ob r =
     (case r of Main \<Rightarrow> Inr (o_elem ob)
      | Version k \<Rightarrow> (case version_at ob k of None \<Rightarrow> Inl Undefined_behaviour | Some v \<Rightarrow> Inr (v_elem v)))"

definition set_version :: "nat \<Rightarrow> 'b version \<Rightarrow> 'b object \<Rightarrow> 'b object" where
  "set_version k v ob = ob\<lparr>o_list := Some (rev ((rev (versions ob))[k := v]))\<rparr>"

definition o_set :: "vref \<Rightarrow> 'b elem \<Rightarrow> 'b object \<Rightarrow> 'b object" where
  "o_set r e ob =
     (case r of Main \<Rightarrow> ob\<lparr>o_elem := e\<rparr>
      | Version k \<Rightarrow> (case version_at ob k of None \<Rightarrow> ob | Some v \<Rightarrow> set_version k (v\<lparr>v_elem := e\<rparr>) ob))"

definition o_version :: "'b object \<Rightarrow> vref \<Rightarrow> 'b version result" where
  "o_version ob r =
     (case r of Main \<Rightarrow> Inl Undefined_behaviour
      | Version k \<Rightarrow> (case version_at ob k of None \<Rightarrow> Inl Undefined_behaviour | Some v \<Rightarrow> Inr v))"

definition o_set_version :: "vref \<Rightarrow> 'b version \<Rightarrow> 'b object \<Rightarrow> 'b object" where
  "o_set_version r v ob = (case r of Main \<Rightarrow> ob | Version k \<Rightarrow> set_version k v ob)"

section \<open>Transactions\<close>

record transaction =
  xid :: xid_t
  dirty_nodes :: "offset_t list"
  dirty_rships :: "offset_t list"

definition transaction_new :: "xid_t \<Rightarrow> transaction" where
  "transaction_new x = \<lparr>xid = x, dirty_nodes = [], dirty_rships = []\<rparr>"

definition add_dirty_node :: "offset_t \<Rightarrow> transaction \<Rightarrow> transaction" where
  "add_dirty_node i tx = tx\<lparr>dirty_nodes := dirty_nodes tx @ [i]\<rparr>"

definition add_dirty_relationship :: "offset_t \<Rightarrow> transaction \<Rightarrow> transaction" where
  "add_dirty_relationship i tx = tx\<lparr>dirty_rships := dirty_rships tx @ [i]\<rparr>"

section \<open>Visibility\<close>

text \<open>
  Specification of the searches: a version can be read by a transaction when it is unlocked or locked by the transaction itself and
  valid at its timestamp. A version of the transaction with \<open>bts = cts\<close> marks that it has deleted the object.
\<close>

definition readable :: "xid_t \<Rightarrow> 'b version \<Rightarrow> bool" where
  "readable x v = ((\<not> is_locked (v_elem v) \<or> is_locked_by x (v_elem v)) \<and> is_valid_for x (v_elem v))"

definition deleted_by :: "xid_t \<Rightarrow> 'b version \<Rightarrow> bool" where
  "deleted_by x v = (is_locked_by x (v_elem v) \<and> \<not> is_valid_for x (v_elem v) \<and> bts (v_elem v) = cts (v_elem v))"

text \<open>What a reader finds: the newest version on which the search stops, if it is readable.\<close>

definition snapshot :: "xid_t \<Rightarrow> 'b version list \<Rightarrow> 'b version option" where
  "snapshot x vs =
     (case find (\<lambda>v. readable x v \<or> deleted_by x v) vs of None \<Rightarrow> None | Some v \<Rightarrow> if readable x v then Some v else None)"

lemma readable_not_deleted: "readable x v \<Longrightarrow> \<not> deleted_by x v"
  by (simp add: readable_def deleted_by_def)

lemma snapshot_simps [simp]:
  "snapshot x [] = None"
  "snapshot x (v # vs) = (if readable x v then Some v else if deleted_by x v then None else snapshot x vs)"
  by (simp_all add: snapshot_def)

lemma snapshot_readable: "snapshot x vs = Some v \<Longrightarrow> v \<in> set vs \<and> readable x v"
  by (induction vs) (auto split: if_splits)

lemma snapshot_filter:
  assumes "\<And>v. v \<in> set vs \<Longrightarrow> \<not> P v \<Longrightarrow> \<not> readable x v \<and> \<not> deleted_by x v"
  shows "snapshot x (filter P vs) = snapshot x vs"
  using assms by (induction vs) auto

lemma find_valid_from_snapshot:
  "find_valid_from x a i vs = Inr j \<longleftrightarrow> (\<exists>k<length vs. j = i + k \<and> snapshot x vs = Some (vs ! k) \<and>
     (\<forall>l<k. \<not> readable x (vs ! l) \<and> \<not> deleted_by x (vs ! l)) \<and> readable x (vs ! k))"
proof (induction vs arbitrary: i a)
  case (Cons v vs)
  show ?case
  proof (cases "readable x v \<or> deleted_by x v")
    case True
    then show ?thesis
      by (auto simp: readable_def deleted_by_def Let_def less_Suc_eq_0_disj split: if_splits)
  next
    case False
    then have "find_valid_from x a i (v # vs) = find_valid_from x (a \<or> \<not> is_locked (v_elem v) \<or> is_locked_by x (v_elem v)) (Suc i) vs"
      by (auto simp: readable_def deleted_by_def Let_def)
    with False Cons.IH show ?thesis by (simp add: Ex_less_Suc2 All_less_Suc2 del: find_valid_from.simps)
  qed
qed simp

lemma find_valid_from_error: "find_valid_from x a i vs = Inl e \<Longrightarrow> e = Transaction_abort \<or> e = Unknown_id"
  by (induction vs arbitrary: a i) (auto simp: Let_def split: if_splits)

lemma has_valid_from_iff: "has_valid_from x vs \<longleftrightarrow> snapshot x vs \<noteq> None"
  by (induction vs) (auto simp: readable_def deleted_by_def Let_def)

lemma version_at_ref: "k < length (versions ob) \<Longrightarrow> o_version ob (version_ref ob k) = Inr (versions ob ! k)"
  by (simp add: o_version_def version_ref_def version_at_def rev_nth)

lemma find_valid_version_snapshot:
  "vol (o_elem ob) \<noteq> None \<Longrightarrow> ok (rbind (find_valid_version x ob) (o_version ob)) = snapshot x (versions ob)"
proof (cases "versions ob = []")
  case False
  assume v: "vol (o_elem ob) \<noteq> None"
  show ?thesis
  proof (cases "find_valid_from x False 0 (versions ob)")
    case (Inr j)
    with find_valid_from_snapshot [of x False 0 "versions ob" j] have j: "j < length (versions ob)" "snapshot x (versions ob) = Some (versions ob ! j)"
      by auto
    with Inr v False show ?thesis by (simp add: find_valid_version_def has_dirty_versions_def version_at_ref)
  next
    case (Inl e)
    have "snapshot x (versions ob) = None"
    proof (rule ccontr)
      assume "snapshot x (versions ob) \<noteq> None"
      then obtain w where "find (\<lambda>v. readable x v \<or> deleted_by x v) (versions ob) = Some w" "readable x w" "snapshot x (versions ob) = Some w"
        by (auto simp: snapshot_def split: option.splits if_splits)
      then obtain k where k: "k < length (versions ob)" "readable x (versions ob ! k)" "snapshot x (versions ob) = Some (versions ob ! k)"
        "\<forall>l<k. \<not> (readable x (versions ob ! l) \<or> deleted_by x (versions ob ! l))"
        unfolding find_Some_iff by auto
      then have "find_valid_from x False 0 (versions ob) = Inr k" unfolding find_valid_from_snapshot by simp
      with Inl show False by simp
    qed
    with Inl v False show ?thesis by (simp add: find_valid_version_def has_dirty_versions_def)
  qed
qed (simp add: find_valid_version_def has_dirty_versions_def)

text \<open>
  \<open>lock\<close> does not wait for a holder: it overwrites the lock word of another transaction, where \<open>try_lock\<close> refuses.
\<close>

lemma lock_takes_over: "lock x e = e\<lparr>txn_id := x\<rparr>"
  by (simp add: lock_def)

lemma try_lock_refuses: "txn_id e \<noteq> 0 \<Longrightarrow> try_lock x e = (False, e)"
  by (simp add: try_lock_def)

lemma version_at_nth: "version_at ob k = Some v \<longleftrightarrow> k < length (versions ob) \<and> v = versions ob ! (length (versions ob) - 1 - k)"
  by (auto simp: version_at_def rev_nth)

lemma gc_versions: "gc oldest ob = Inr ob' \<Longrightarrow> o_elem ob' = o_elem ob \<and> vol (o_elem ob) \<noteq> None \<and>
   versions ob' = filter (\<lambda>v. oldest < cts (v_elem v)) (versions ob)"
  by (auto simp: gc_def Let_def has_dirty_versions_def delete_dirty_list_def versions_def not_le split: if_splits option.splits)

lemma gc_ok: "vol (o_elem ob) \<noteq> None \<Longrightarrow> \<exists>ob'. gc oldest ob = Inr ob'"
  by (auto simp: gc_def Let_def has_dirty_versions_def delete_dirty_list_def)

text \<open>
  C7. \<open>find_valid_version\<close> returns the newest version that the transaction can read: unlocked or its own, and valid at its
  timestamp; no newer version is readable, and none records a deletion by the transaction itself.
\<close>

theorem find_valid_version_newest:
  assumes "find_valid_version x ob = Inr r"
  shows "\<exists>k v. r = Version k \<and> version_at ob k = Some v \<and> readable x v \<and>
     (\<forall>j w. k < j \<and> version_at ob j = Some w \<longrightarrow> \<not> readable x w \<and> \<not> deleted_by x w)"
proof -
  let ?n = "length (versions ob)"
  from assms obtain i where i: "find_valid_from x False 0 (versions ob) = Inr i" "r = version_ref ob i"
    by (auto simp: find_valid_version_def rbind_eq_Inr_iff split: if_splits)
  then have j: "i < ?n" "readable x (versions ob ! i)" "\<And>l. l < i \<Longrightarrow> \<not> readable x (versions ob ! l) \<and> \<not> deleted_by x (versions ob ! l)"
    unfolding find_valid_from_snapshot by auto
  have "\<not> readable x w \<and> \<not> deleted_by x w" if "?n - 1 - i < k" "version_at ob k = Some w" for k w
  proof -
    have "?n - 1 - k < i" using that j(1) by (auto simp: version_at_nth)
    from j(3) [OF this] that(2) show ?thesis by (simp add: version_at_nth)
  qed
  moreover have "version_at ob (?n - 1 - i) = Some (versions ob ! i)" using j(1) by (simp add: version_at_nth)
  ultimately show ?thesis using i(2) j(2) by (auto simp: version_ref_def)
qed

text \<open>Sample versions: \<open>txn\<close> is the lock word, \<open>b\<close> and \<open>c\<close> the interval of validity.\<close>

definition version_demo :: "xid_t \<Rightarrow> nat \<Rightarrow> nat \<Rightarrow> string \<Rightarrow> string version" where
  "version_demo l b c s =
     \<lparr>v_updated = True, v_elem = \<lparr>txn_id = l, bts = b, cts = c, rts = 0, vol = Some True, body = s\<rparr>, v_props = []\<rparr>"

definition object_demo :: "string object" where
  "object_demo = \<lparr>o_elem = \<lparr>txn_id = 7, bts = 3, cts = INF_TS, rts = 0, vol = Some False, body = ''b''\<rparr>,
     o_list = Some [version_demo 7 7 INF_TS ''c'', version_demo 0 3 7 ''b'', version_demo 0 1 3 ''a'']\<rparr>"

lemmas txn_eval = find_valid_version_def has_dirty_versions_def versions_def is_locked_def is_locked_by_def is_valid_for_def
  version_ref_def version_at_def o_version_def o_get_def INF_TS_def

theorem find_valid_version_newest_witness:
  "find_valid_version 5 object_demo = Inr (Version 1) \<and>
   (\<exists>v. version_at object_demo 1 = Some v \<and> readable 5 v \<and> body (v_elem v) = ''b'')"
proof -
  have f: "find_valid_version 5 object_demo = Inr (Version 1)"
    by (simp add: object_demo_def version_demo_def txn_eval)
  from find_valid_version_newest [OF this] obtain v where "version_at object_demo 1 = Some v" "readable 5 v" by auto
  moreover have "map_option (body \<circ> v_elem) (version_at object_demo 1) = Some ''b''"
    by (simp add: object_demo_def version_demo_def txn_eval)
  ultimately show ?thesis using f by auto
qed

text \<open>
  The test \<open>has_valid_version\<close>, which the deletion of nodes relies on, agrees with the search: it holds exactly when
  \<open>find_valid_version\<close> returns a version instead of throwing.
\<close>

theorem has_valid_version_iff: "has_valid_version x ob \<longleftrightarrow> (\<exists>r. find_valid_version x ob = Inr r)"
proof (cases "has_dirty_versions ob")
  case True
  then have "ok (rbind (find_valid_version x ob) (o_version ob)) = snapshot x (versions ob)"
    by (intro find_valid_version_snapshot) (simp add: has_dirty_versions_def)
  moreover have "ok (o_version ob r) \<noteq> None" if r: "find_valid_version x ob = Inr r" for r
  proof -
    from r True obtain i where "find_valid_from x False 0 (versions ob) = Inr i" "r = version_ref ob i"
      by (auto simp: find_valid_version_def rbind_eq_Inr_iff)
    then have "i < length (versions ob)" "r = version_ref ob i" by (simp_all add: find_valid_from_snapshot)
    then show ?thesis by (simp add: version_at_ref)
  qed
  ultimately show ?thesis using True
    by (cases "find_valid_version x ob") (auto simp: has_valid_version_def has_valid_from_iff)
qed (simp add: has_valid_version_def find_valid_version_def)

text \<open>
  C5. Garbage collection is invisible: removing the versions that ended at or before the oldest active timestamp changes neither
  the table element nor what a transaction at or after that timestamp reads from the version list, provided that no mark of a deletion
  by this transaction itself (a version it has locked with equal begin and end) ended at or before the oldest timestamp. Such a mark ends at the timestamp of
  its transaction, so the proviso concerns only the oldest transaction; \<open>gc_forgets_own_deletion\<close> shows that it is needed there.
  The versions carry their volatile part, as all versions of dirty lists do.
\<close>

theorem gc_keeps_snapshots:
  assumes "gc oldest ob = Inr ob'" "oldest \<le> x" "\<forall>v\<in>set (versions ob). vol (v_elem v) \<noteq> None \<and> (deleted_by x v \<longrightarrow> oldest < cts (v_elem v))"
  shows "o_elem ob' = o_elem ob \<and>
     ok (rbind (find_valid_version x ob') (o_version ob')) = ok (rbind (find_valid_version x ob) (o_version ob))"
proof -
  from gc_versions [OF assms(1)] have ob': "o_elem ob' = o_elem ob" "vol (o_elem ob) \<noteq> None"
    "versions ob' = filter (\<lambda>v. oldest < cts (v_elem v)) (versions ob)" by auto
  have "\<not> readable x v \<and> \<not> deleted_by x v" if "v \<in> set (versions ob)" "\<not> oldest < cts (v_elem v)" for v
    using assms(2,3) that by (auto simp: readable_def is_valid_for_def)
  from snapshot_filter [of "versions ob" "\<lambda>v. oldest < cts (v_elem v)" x, OF this]
  have "snapshot x (versions ob') = snapshot x (versions ob)" by (simp add: ob'(3))
  then show ?thesis using ob' by (simp add: find_valid_version_snapshot)
qed

theorem gc_keeps_snapshots_witness:
  "\<exists>ob'. gc 4 object_demo = Inr ob' \<and> length (versions ob') = 2 \<and>
     ok (rbind (find_valid_version 5 ob') (o_version ob')) = Some (version_demo 0 3 7 ''b'')"
proof -
  have "vol (o_elem object_demo) = Some False" by (simp add: object_demo_def)
  with gc_ok [of object_demo 4] obtain ob' where g: "gc 4 object_demo = Inr ob'" by blast
  have "\<forall>v\<in>set (versions object_demo). vol (v_elem v) \<noteq> None \<and> (deleted_by 5 v \<longrightarrow> 4 < cts (v_elem v))"
    by (auto simp add: object_demo_def version_demo_def versions_def deleted_by_def is_locked_by_def)
  from gc_keeps_snapshots [OF g _ this] have
    "ok (rbind (find_valid_version 5 ob') (o_version ob')) = ok (rbind (find_valid_version 5 object_demo) (o_version object_demo))" by simp
  moreover have "ok (rbind (find_valid_version 5 object_demo) (o_version object_demo)) = Some (version_demo 0 3 7 ''b'')"
    by (simp add: object_demo_def version_demo_def txn_eval)
  moreover have "length (versions ob') = 2" using gc_versions [OF g] by (simp add: object_demo_def version_demo_def versions_def INF_TS_def)
  ultimately show ?thesis using g by simp
qed

text \<open>
  The proviso is needed: a transaction that deleted an object and has itself the oldest timestamp no longer finds its mark after a collection; it reads the version
  before its deletion again.
\<close>

lemma gc_forgets_own_deletion:
  fixes e :: "string elem"
  assumes "vol e \<noteq> None" "ob = \<lparr>o_elem = e, o_list = Some [version_demo 5 5 5 s, version_demo 0 3 INF_TS s]\<rparr>" "gc 5 ob = Inr ob'"
  shows "ok (rbind (find_valid_version 5 ob) (o_version ob)) = None \<and>
    ok (rbind (find_valid_version 5 ob') (o_version ob')) = Some (version_demo 0 3 INF_TS s)"
proof -
  have "o_elem ob' = e" "versions ob' = [version_demo 0 3 INF_TS s]" using gc_versions [OF assms(3)] assms(2)
    by (auto simp: versions_def version_demo_def INF_TS_def)
  then show ?thesis using assms(1,2)
    by (simp add: find_valid_version_snapshot versions_def readable_def deleted_by_def version_demo_def is_locked_def is_locked_by_def is_valid_for_def INF_TS_def)
qed

end
