(* ===== verification/Record_Table.thy ===== *)
theory Record_Table
  imports Prelude
begin

text \<open>
  The contract between the record vectors (\<^verbatim>\<open>src/src/vec\<close>) and their clients, the
  templates \<open>node_list<T>\<close>, \<open>relationship_list<T>\<close> and \<open>property_list<T>\<close>: what reading,
  assigning through a returned reference, erasing and storing promise, stated over
  an abstract view of the vector as a partial map from positions to records.
  The three locales are interpreted on the vector of \<open>Chunked_Vec\<close>.
\<close>

text \<open>Reading a record and assigning through the reference that \<open>at\<close> returns.\<close>

locale slot_reader =
  fixes inv :: "'v \<Rightarrow> bool"
    and view :: "'v \<Rightarrow> nat \<Rightarrow> 'a option"
    and cap :: "'v \<Rightarrow> nat"
    and at :: "'v \<Rightarrow> nat \<Rightarrow> 'a result"
    and assign :: "'v \<Rightarrow> nat \<Rightarrow> 'a \<Rightarrow> 'v"
  assumes at_law: "inv v \<Longrightarrow> at v i =
      (case view v i of
         Some x \<Rightarrow> Inr x
       | None \<Rightarrow> Inl (if i < cap v then Unknown_id else Index_out_of_range))"
    and view_cap: "inv v \<Longrightarrow> view v i = Some x \<Longrightarrow> i < cap v"
    and assign_law: "inv v \<Longrightarrow> view v i = Some y \<Longrightarrow>
      inv (assign v i x) \<and> view (assign v i x) = (view v)(i \<mapsto> x) \<and> cap (assign v i x) = cap v"
begin

lemma at_Some: "inv v \<Longrightarrow> view v i = Some x \<Longrightarrow> at v i = Inr x"
  by (simp add: at_law)

lemma at_Inr_iff: "inv v \<Longrightarrow> at v i = Inr x \<longleftrightarrow> view v i = Some x"
  by (auto simp: at_law split: option.splits)

lemma at_assign:
  "inv v \<Longrightarrow> view v i = Some y \<Longrightarrow> at (assign v i x) j = (if j = i then Inr x else at v j)"
  using assign_law [of v i y x] by (auto simp: at_law view_cap)

end

text \<open>Erasing frees the slot and touches no other record.\<close>

locale slot_eraser = slot_reader inv view cap at assign
  for inv :: "'v \<Rightarrow> bool"
    and view :: "'v \<Rightarrow> nat \<Rightarrow> 'a option"
    and cap :: "'v \<Rightarrow> nat"
    and at :: "'v \<Rightarrow> nat \<Rightarrow> 'a result"
    and assign :: "'v \<Rightarrow> nat \<Rightarrow> 'a \<Rightarrow> 'v" +
  fixes erase :: "'v \<Rightarrow> nat \<Rightarrow> 'v result"
  assumes erase_law: "inv v \<Longrightarrow> i < cap v \<Longrightarrow>
      \<exists>v'. erase v i = Inr v' \<and> inv v' \<and> view v' = (view v)(i := None) \<and> cap v' = cap v"
    and erase_out: "inv v \<Longrightarrow> cap v \<le> i \<Longrightarrow> erase v i = Inl Index_out_of_range"
begin

lemma erase_then_at:
  assumes "inv v" "erase v i = Inr v'"
  shows "at v' i = Inl Unknown_id" "\<And>j. j \<noteq> i \<Longrightarrow> at v' j = at v j"
proof -
  have i: "i < cap v" using assms erase_out [of v i] by (cases "i < cap v") auto
  with assms erase_law [of v i] have v': "inv v'" "view v' = (view v)(i := None)" "cap v' = cap v"
    by auto
  show "at v' i = Inl Unknown_id" using v' i by (simp add: at_law)
  show "at v' j = at v j" if "j \<noteq> i" for j using v' assms(1) that by (simp add: at_law)
qed

end

text \<open>Storing takes a position that was free and returns it.\<close>

locale slot_writer = slot_reader inv view cap at assign
  for inv :: "'v \<Rightarrow> bool"
    and view :: "'v \<Rightarrow> nat \<Rightarrow> 'a option"
    and cap :: "'v \<Rightarrow> nat"
    and at :: "'v \<Rightarrow> nat \<Rightarrow> 'a result"
    and assign :: "'v \<Rightarrow> nat \<Rightarrow> 'a \<Rightarrow> 'v" +
  fixes store :: "'v \<Rightarrow> 'a \<Rightarrow> ('v \<times> nat) result"
  assumes store_law: "inv v \<Longrightarrow>
      \<exists>v' i. store v x = Inr (v', i) \<and> inv v' \<and> view v i = None \<and>
             view v' = (view v)(i \<mapsto> x) \<and> cap v \<le> cap v'"
begin

lemma storeE:
  assumes "inv v"
  obtains v' i where "store v x = Inr (v', i)" "inv v'" "view v i = None"
    "view v' = (view v)(i \<mapsto> x)" "cap v \<le> cap v'"
  using store_law [OF assms] by blast

lemma store_then_at:
  assumes "inv v" "store v x = Inr (v', i)"
  shows "at v' i = Inr x" "\<And>j y. at v j = Inr y \<Longrightarrow> at v' j = Inr y"
proof -
  from storeE [OF assms(1), of x] assms(2)
  have v': "inv v'" "view v i = None" "view v' = (view v)(i \<mapsto> x)" by (metis Inr_inject prod.inject)+
  show "at v' i = Inr x" using v' by (simp add: at_law)
  show "at v' j = Inr y" if "at v j = Inr y" for j y
    using that v' assms(1) by (auto simp: at_Inr_iff)
qed

end

end
