(* ===== verification/Chunked_Vec.thy ===== *)
theory Chunked_Vec
  imports Record_Table
begin

text \<open>
  The in-memory record vector \<^verbatim>\<open>src/src/vec/mem_chunked_vec.hpp\<close>: chunks of a fixed
  number of records with a bit set of used slots and a \<open>first_\<close> hint, the vector
  over a list of chunks with its counters and its free list, and the element-wise
  iterator. The order of the chunk list is the \<open>next_\<close> chain of the source, which
  \<open>resize\<close> keeps identical. \<open>SIZE_MAX\<close>, the "no slot" value, is \<open>None\<close>.

  The lemmas show which part of the contract each operation keeps: the slot
  accounting (\<open>cv_wf\<close>) under every operation, the free list (\<open>fl_ok\<close>) under
  \<open>resize\<close>, \<open>append\<close> and \<open>store\<close>, and the abstract view of the vector as a finite map
  from positions to records.
\<close>

section \<open>Chunks\<close>

record 'a chunk =
  ch_data :: "'a list"
  ch_slots :: "bool list"
  ch_first :: nat

text \<open>\<open>chunk()\<close>: all slots free, the records default-constructed.\<close>

definition chunk_new :: "'a \<Rightarrow> nat \<Rightarrow> 'a chunk" where
  "chunk_new d n = \<lparr>ch_data = replicate n d, ch_slots = replicate n False, ch_first = 0\<rparr>"

definition chunk_is_used :: "'a chunk \<Rightarrow> nat \<Rightarrow> bool" where
  "chunk_is_used c i = ch_slots c ! i"

definition chunk_set :: "'a chunk \<Rightarrow> nat \<Rightarrow> bool \<Rightarrow> 'a chunk" where
  "chunk_set c i b =
     (let s = (ch_slots c)[i := b]; c' = c\<lparr>ch_slots := s\<rparr> in
      if \<not> b \<and> i < ch_first c then c'\<lparr>ch_first := i\<rparr>
      else if b \<and> i = ch_first c then
        (case find (\<lambda>j. \<not> s ! j) [ch_first c..<length s] of
           Some j \<Rightarrow> c'\<lparr>ch_first := j\<rparr>
         | None \<Rightarrow> c'\<lparr>ch_first := length s\<rparr>)
      else c')"

definition chunk_is_full :: "'a chunk \<Rightarrow> bool" where
  "chunk_is_full c = (\<forall>b\<in>set (ch_slots c). b)"

definition chunk_is_empty :: "'a chunk \<Rightarrow> bool" where
  "chunk_is_empty c = (\<forall>b\<in>set (ch_slots c). \<not> b)"

definition chunk_first_available :: "'a chunk \<Rightarrow> nat option" where
  "chunk_first_available c =
     (if chunk_is_full c then None
      else find (\<lambda>i. \<not> ch_slots c ! i) [ch_first c..<length (ch_slots c)])"

definition chunk_last_used :: "'a chunk \<Rightarrow> nat option" where
  "chunk_last_used c =
     (if chunk_is_empty c then None
      else find (\<lambda>i. ch_slots c ! i) (rev [0..<length (ch_slots c)]))"

section \<open>The vector\<close>

record 'a cvec =
  capacity :: nat
  available_slots :: nat
  elems_per_chunk :: nat
  chunk_list :: "'a chunk list"
  free_list :: "nat list"

text \<open>The constructor; \<open>n\<close> is the compile-time \<open>num_entries\<close>.\<close>

definition cv_empty :: "nat \<Rightarrow> 'a cvec" where
  "cv_empty n = \<lparr>capacity = 0, available_slots = 0, elems_per_chunk = n,
                 chunk_list = [], free_list = []\<rparr>"

definition cv_clear :: "'a cvec \<Rightarrow> 'a cvec" where
  "cv_clear v = v\<lparr>chunk_list := [], free_list := [], capacity := 0, available_slots := 0\<rparr>"

definition cv_add_to_free_list :: "nat \<Rightarrow> 'a cvec \<Rightarrow> 'a cvec" where
  "cv_add_to_free_list idx v = v\<lparr>free_list := free_list v @ [idx]\<rparr>"

definition cv_remove_from_free_list :: "nat \<Rightarrow> 'a cvec \<Rightarrow> 'a cvec" where
  "cv_remove_from_free_list idx v = v\<lparr>free_list := filter (\<lambda>i. i \<noteq> idx) (free_list v)\<rparr>"

text \<open>\<open>front()\<close> of an empty vector is undefined behaviour.\<close>

definition cv_find_in_free_list :: "'a cvec \<Rightarrow> nat result" where
  "cv_find_in_free_list v =
     (case free_list v of [] \<Rightarrow> Inl Undefined_behaviour | i # _ \<Rightarrow> Inr i)"

text \<open>\<open>find_chunk\<close> gives the position of the chunk in the chunk list.\<close>

definition cv_find_chunk :: "'a cvec \<Rightarrow> nat \<Rightarrow> nat result" where
  "cv_find_chunk v idx =
     (let n = idx div elems_per_chunk v in
      if n \<ge> length (chunk_list v) then Inl Index_out_of_range else Inr n)"

text \<open>One more chunk at the end: the body of the loop of \<open>resize\<close>.\<close>

definition cv_add_chunk :: "'a \<Rightarrow> 'a cvec \<Rightarrow> 'a cvec" where
  "cv_add_chunk d v =
     (let n = elems_per_chunk v; cl = chunk_list v @ [chunk_new d n] in
      cv_add_to_free_list ((length cl - 1) * n)
        (v\<lparr>chunk_list := cl, capacity := capacity v + n,
           available_slots := available_slots v + n\<rparr>))"

definition cv_resize :: "'a \<Rightarrow> nat \<Rightarrow> 'a cvec \<Rightarrow> 'a cvec" where
  "cv_resize d nchunks v =
     (if chunk_list v = [] then
        (let n = elems_per_chunk v;
             v1 = cv_add_to_free_list 0
                    (v\<lparr>chunk_list := [chunk_new d n], capacity := n, available_slots := n\<rparr>)
         in (cv_add_chunk d ^^ (nchunks - 1)) v1)
      else (cv_add_chunk d ^^ nchunks) v)"

definition cv_is_full :: "'a cvec \<Rightarrow> bool" where
  "cv_is_full v = (available_slots v = 0)"

text \<open>Writing a record and its slot bit into the chunk at position \<open>k\<close>.\<close>

definition cv_put :: "'a cvec \<Rightarrow> nat \<Rightarrow> nat \<Rightarrow> 'a \<Rightarrow> 'a cvec" where
  "cv_put v k pos x =
     (let ch = chunk_set (chunk_list v ! k) pos True in
      v\<lparr>chunk_list := (chunk_list v)[k := ch\<lparr>ch_data := (ch_data ch)[pos := x]\<rparr>]\<rparr>)"

definition cv_store_at :: "'a cvec \<Rightarrow> nat \<Rightarrow> 'a \<Rightarrow> 'a cvec result" where
  "cv_store_at v idx x =
     rbind (cv_find_chunk v idx) (\<lambda>k.
       let pos = idx mod elems_per_chunk v;
           is_used = chunk_is_used (chunk_list v ! k) pos;
           v1 = cv_put v k pos x;
           v2 = (if is_used then v1 else v1\<lparr>available_slots := dec64 (available_slots v1)\<rparr>)
       in Inr (if chunk_is_full (chunk_list v2 ! k) then cv_remove_from_free_list idx v2 else v2))"

text \<open>
  The part \<open>append\<close> and \<open>store\<close> share: take the first free slot of chunk \<open>k\<close>, count it
  as used, write the record, and drop the free-list entry \<open>idx\<close> once the chunk is
  full. \<open>idx\<close> is also the offset the returned position is computed from.
\<close>

definition cv_fill_first :: "'a cvec \<Rightarrow> nat \<Rightarrow> nat \<Rightarrow> 'a \<Rightarrow> ('a cvec \<times> nat) result" where
  "cv_fill_first v k idx x =
     (case chunk_first_available (chunk_list v ! k) of
        None \<Rightarrow> Inl Assertion_failed
      | Some pos \<Rightarrow>
          let v3 = cv_put (v\<lparr>available_slots := dec64 (available_slots v)\<rparr>) k pos x;
              v4 = (if chunk_is_full (chunk_list v3 ! k)
                    then cv_remove_from_free_list idx v3 else v3)
          in Inr (v4, idx + pos))"

definition cv_append :: "'a \<Rightarrow> 'a cvec \<Rightarrow> 'a \<Rightarrow> ('a cvec \<times> nat) result" where
  "cv_append d v x =
     (let v1 = (if cv_is_full v then cv_resize d 1 v else v) in
      if chunk_list v1 = [] then Inl Undefined_behaviour
      else
        let v2 = (if chunk_is_full (last (chunk_list v1)) then cv_resize d 1 v1 else v1);
            k = length (chunk_list v2) - 1
        in cv_fill_first v2 k (k * elems_per_chunk v2) x)"

definition cv_store :: "'a \<Rightarrow> 'a cvec \<Rightarrow> 'a \<Rightarrow> ('a cvec \<times> nat) result" where
  "cv_store d v x =
     rbind
       (if free_list v = []
        then (let v1 = cv_resize d 1 v in
              rbind (cv_find_in_free_list v1) (\<lambda>idx. Inr (v1, length (chunk_list v1) - 1, idx)))
        else rbind (cv_find_in_free_list v) (\<lambda>idx.
             rbind (cv_find_chunk v idx) (\<lambda>k. Inr (v, k, idx))))
       (\<lambda>(v2, k, idx). cv_fill_first v2 k idx x)"

definition cv_erase :: "'a cvec \<Rightarrow> nat \<Rightarrow> 'a cvec result" where
  "cv_erase v idx =
     rbind (cv_find_chunk v idx) (\<lambda>k.
       let ch = chunk_list v ! k;
           was_full = chunk_is_full ch;
           pos = idx mod elems_per_chunk v;
           v1 = (if chunk_is_used ch pos then v\<lparr>available_slots := available_slots v + 1\<rparr> else v);
           v2 = v1\<lparr>chunk_list := (chunk_list v1)[k := chunk_set ch pos False]\<rparr>
       in Inr (if was_full then cv_add_to_free_list idx v2 else v2))"

text \<open>The walk over the chunks with the running offset, as in the source's loop.\<close>

fun first_free_from :: "nat \<Rightarrow> nat \<Rightarrow> 'a chunk list \<Rightarrow> nat" where
  "first_free_from n offs [] = UNKNOWN"
| "first_free_from n offs (c # cs) =
     (case chunk_first_available c of
        Some p \<Rightarrow> offs + p
      | None \<Rightarrow> first_free_from n (offs + n) cs)"

definition cv_first_available :: "'a cvec \<Rightarrow> nat" where
  "cv_first_available v =
     (if available_slots v = 0 then UNKNOWN
      else first_free_from (elems_per_chunk v) 0 (chunk_list v))"

text \<open>
  \<open>last_used\<close> of the last chunk may be \<open>SIZE_MAX\<close> (an empty chunk); the sum then
  wraps at 64 bits.
\<close>

definition cv_last_used :: "'a cvec \<Rightarrow> nat" where
  "cv_last_used v =
     (if chunk_list v = [] then UNKNOWN
      else ((length (chunk_list v) - 1) * elems_per_chunk v +
            (case chunk_last_used (last (chunk_list v)) of Some p \<Rightarrow> p | None \<Rightarrow> UNKNOWN)) mod 2 ^ 64)"

definition cv_is_used :: "'a cvec \<Rightarrow> nat \<Rightarrow> bool result" where
  "cv_is_used v i =
     rbind (cv_find_chunk v i) (\<lambda>k.
       Inr (ch_slots (chunk_list v ! k) ! (i mod elems_per_chunk v)))"

definition cv_at :: "'a cvec \<Rightarrow> nat \<Rightarrow> 'a result" where
  "cv_at v idx =
     rbind (cv_find_chunk v idx) (\<lambda>k.
       let ch = chunk_list v ! k; pos = idx mod elems_per_chunk v in
       if \<not> chunk_is_used ch pos then Inl Unknown_id else Inr (ch_data ch ! pos))"

text \<open>
  Assignment through the reference \<open>at(idx)\<close> returns: the record changes, the slot
  bits do not.
\<close>

definition cv_assign :: "'a cvec \<Rightarrow> nat \<Rightarrow> 'a \<Rightarrow> 'a cvec" where
  "cv_assign v idx x =
     (let k = idx div elems_per_chunk v; pos = idx mod elems_per_chunk v; ch = chunk_list v ! k in
      v\<lparr>chunk_list := (chunk_list v)[k := ch\<lparr>ch_data := (ch_data ch)[pos := x]\<rparr>]\<rparr>)"

section \<open>Iteration\<close>

text \<open>
  An iterator is a chunk pointer and a position in the chunk; the model names the
  pair by the global position, with \<open>None\<close> for the null pointer of \<open>end()\<close>. Advancing
  the pair until the chain ends or a used slot is reached is a search over the
  following global positions. The constructor looks for a used slot in the first
  chunk only.
\<close>

definition cv_used :: "'a cvec \<Rightarrow> nat \<Rightarrow> bool" where
  "cv_used v i = chunk_is_used (chunk_list v ! (i div elems_per_chunk v)) (i mod elems_per_chunk v)"

definition cv_begin :: "'a cvec \<Rightarrow> nat option" where
  "cv_begin v =
     (case chunk_list v of
        [] \<Rightarrow> None
      | c # _ \<Rightarrow> find (chunk_is_used c) [0..<elems_per_chunk v])"

definition cv_iter_next :: "'a cvec \<Rightarrow> nat \<Rightarrow> nat option" where
  "cv_iter_next v q = find (cv_used v) [Suc q..<length (chunk_list v) * elems_per_chunk v]"

text \<open>The positions a loop \<open>for (auto &x : v)\<close> visits from an iterator on.\<close>

function cv_walk :: "'a cvec \<Rightarrow> nat option \<Rightarrow> nat list" where
  "cv_walk v None = []"
| "cv_walk v (Some q) = q # cv_walk v (cv_iter_next v q)"
  by pat_completeness auto
termination
proof (relation "measure (\<lambda>(v, it). case it of None \<Rightarrow> 0
    | Some q \<Rightarrow> Suc (length (chunk_list v) * elems_per_chunk v - q))")
  fix v :: "'a cvec" and q
  show "((v, cv_iter_next v q), v, Some q) \<in> measure (\<lambda>(v, it). case it of None \<Rightarrow> 0
    | Some q \<Rightarrow> Suc (length (chunk_list v) * elems_per_chunk v - q))"
  proof (cases "cv_iter_next v q")
    case (Some j)
    then have "Suc q \<le> j" "j < length (chunk_list v) * elems_per_chunk v"
      unfolding cv_iter_next_def by (fact find_upt_Some)+
    then show ?thesis using Some by simp
  qed simp
qed simp

text \<open>
  \<open>range_iter\<close> visits the chunks \<open>lo\<close> to \<open>hi\<close> from slot \<open>pos\<close> on. Its constructor
  takes the start slot as it is, used or not; the loop \<open>while (iter) { ... ++iter; }\<close>
  then moves to the next used slot and stops behind chunk \<open>hi\<close>. A start outside
  the chunk list reads past its end.
\<close>

definition cv_range_walk :: "'a cvec \<Rightarrow> nat \<Rightarrow> nat \<Rightarrow> nat \<Rightarrow> nat list result" where
  "cv_range_walk v lo hi pos =
     (if chunk_list v = [] then Inr []
      else if length (chunk_list v) \<le> lo \<or> elems_per_chunk v \<le> pos then Inl Undefined_behaviour
      else if hi < lo then Inr []
      else let n = elems_per_chunk v; start = lo * n + pos;
               stop = min (Suc hi) (length (chunk_list v)) * n in
           Inr (start # filter (cv_used v) [Suc start..<stop]))"

section \<open>Chunk invariant\<close>

text \<open>
  All slots before \<open>first_\<close> are used, and \<open>first_\<close> is itself free unless the chunk is
  full: this is what makes \<open>first_available\<close> constant-time in practice.
\<close>

definition chunk_inv :: "nat \<Rightarrow> 'a chunk \<Rightarrow> bool" where
  "chunk_inv n c \<longleftrightarrow>
     length (ch_data c) = n \<and> length (ch_slots c) = n \<and> ch_first c \<le> n \<and>
     (\<forall>i<ch_first c. ch_slots c ! i) \<and> (ch_first c < n \<longrightarrow> \<not> ch_slots c ! ch_first c)"

definition free_count :: "'a chunk \<Rightarrow> nat" where
  "free_count c = count_list (ch_slots c) False"

lemma chunk_new_inv [vec_laws]: "chunk_inv n (chunk_new d n)"
  by (simp add: chunk_inv_def chunk_new_def)

lemma chunk_set_slots [simp]: "ch_slots (chunk_set c i b) = (ch_slots c)[i := b]"
  by (auto simp: chunk_set_def Let_def split: option.split)

lemma chunk_set_data [simp]: "ch_data (chunk_set c i b) = ch_data c"
  by (auto simp: chunk_set_def Let_def split: option.split)

lemma chunk_set_True_first:
  assumes inv: "chunk_inv n c" and i: "i < n"
  shows "ch_first (chunk_set c i True) \<le> n \<and>
         (\<forall>j<ch_first (chunk_set c i True). (ch_slots c)[i := True] ! j) \<and>
         (ch_first (chunk_set c i True) < n \<longrightarrow>
            \<not> (ch_slots c)[i := True] ! ch_first (chunk_set c i True))"
proof (cases "i = ch_first c")
  case False
  then show ?thesis using inv i
    by (auto simp: chunk_set_def Let_def chunk_inv_def nth_list_update)
next
  case True
  let ?s = "(ch_slots c)[i := True]"
  have len: "length ?s = n" using inv by (simp add: chunk_inv_def)
  have below: "?s ! j" if "j < i" for j
    using that inv True i by (auto simp: chunk_inv_def nth_list_update)
  show ?thesis
  proof (cases "find (\<lambda>j. \<not> ?s ! j) [i..<n]")
    case None
    then have "?s ! j" if "j < n" for j
      using below that by (cases "j < i") (auto simp: find_upt_None)
    then show ?thesis using None True len by (simp add: chunk_set_def Let_def)
  next
    case (Some j)
    note f = find_upt_Some [OF Some]
    have "?s ! k" if "k < j" for k
      using below f(4) that by (cases "k < i") auto
    then show ?thesis using Some True len f(2,3) by (simp add: chunk_set_def Let_def)
  qed
qed

lemma chunk_set_False_first:
  assumes inv: "chunk_inv n c" and i: "i < n"
  shows "ch_first (chunk_set c i False) \<le> n \<and>
         (\<forall>j<ch_first (chunk_set c i False). (ch_slots c)[i := False] ! j) \<and>
         (ch_first (chunk_set c i False) < n \<longrightarrow>
            \<not> (ch_slots c)[i := False] ! ch_first (chunk_set c i False))"
  using inv i by (auto simp: chunk_set_def Let_def chunk_inv_def nth_list_update)

lemma chunk_set_inv [vec_laws]: "chunk_inv n c \<Longrightarrow> i < n \<Longrightarrow> chunk_inv n (chunk_set c i b)"
  using chunk_set_True_first [of n c i] chunk_set_False_first [of n c i]
  by (cases b) (simp_all add: chunk_inv_def)

lemma chunk_inv_data_update [simp]:
  "chunk_inv n (c\<lparr>ch_data := (ch_data c)[i := x]\<rparr>) = chunk_inv n c"
  by (simp add: chunk_inv_def)

lemma chunk_full_iff: "chunk_inv n c \<Longrightarrow> chunk_is_full c \<longleftrightarrow> (\<forall>i<n. ch_slots c ! i)"
  by (simp add: chunk_is_full_def list_all_nth_iff chunk_inv_def)

lemma chunk_free_not_full: "chunk_inv n c \<Longrightarrow> i < n \<Longrightarrow> \<not> ch_slots c ! i \<Longrightarrow> \<not> chunk_is_full c"
  by (auto simp: chunk_full_iff)

lemma chunk_full_first: "chunk_inv n c \<Longrightarrow> chunk_is_full c \<longleftrightarrow> ch_first c = n"
  by (auto simp: chunk_full_iff) (auto simp: chunk_inv_def)

lemma chunk_full_count: "chunk_is_full c \<longleftrightarrow> free_count c = 0"
  by (metis (full_types) chunk_is_full_def free_count_def count_list_0_iff)

text \<open>\<open>first_available\<close> returns the least free slot; it never has to search.\<close>

lemma chunk_first_available_eq:
  assumes inv: "chunk_inv n c"
  shows "chunk_first_available c = (if chunk_is_full c then None else Some (ch_first c))"
proof (cases "chunk_is_full c")
  case False
  with chunk_full_first [OF inv] have "ch_first c < n" "\<not> ch_slots c ! ch_first c"
    using inv by (auto simp: chunk_inv_def)
  moreover have "length (ch_slots c) = n" using inv by (simp add: chunk_inv_def)
  ultimately have "find (\<lambda>i. \<not> ch_slots c ! i) [ch_first c..<length (ch_slots c)] = Some (ch_first c)"
    by (simp add: upt_conv_Cons)
  with False show ?thesis by (simp add: chunk_first_available_def)
qed (simp add: chunk_first_available_def)

lemma chunk_first_available_Some:
  assumes "chunk_inv n c" "chunk_first_available c = Some p"
  shows "p < n" "\<not> ch_slots c ! p" "\<And>i. i < p \<Longrightarrow> ch_slots c ! i"
proof -
  from assms have p: "p = ch_first c" "ch_first c \<noteq> n"
    using chunk_full_first [OF assms(1)]
    by (auto simp: chunk_first_available_eq [OF assms(1)] split: if_splits)
  show "p < n" "\<not> ch_slots c ! p" "\<And>i. i < p \<Longrightarrow> ch_slots c ! i"
    using assms(1) p by (auto simp: chunk_inv_def)
qed

lemma free_count_set_True:
  "i < length (ch_slots c) \<Longrightarrow> \<not> ch_slots c ! i \<Longrightarrow> free_count (chunk_set c i True) + 1 = free_count c"
  using count_list_update_True_False [of i "ch_slots c"] by (simp add: free_count_def)

lemma free_count_set_False:
  "i < length (ch_slots c) \<Longrightarrow> ch_slots c ! i \<Longrightarrow> free_count (chunk_set c i False) = free_count c + 1"
  by (simp add: free_count_def count_list_update_False)

lemma free_count_data [simp]: "free_count (c\<lparr>ch_data := d\<rparr>) = free_count c"
  by (simp add: free_count_def)

lemma chunk_full_data [simp]: "chunk_is_full (c\<lparr>ch_data := d\<rparr>) = chunk_is_full c"
  by (simp add: chunk_is_full_def)

lemma free_count_new [simp]: "free_count (chunk_new d n) = n"
  by (induction n) (simp_all add: free_count_def chunk_new_def)

lemma chunk_new_not_full: "0 < n \<Longrightarrow> \<not> chunk_is_full (chunk_new d n)"
  by (simp add: chunk_full_count)

section \<open>Vector invariant and abstract view\<close>

definition cv_wf :: "'a cvec \<Rightarrow> bool" where
  "cv_wf v \<longleftrightarrow>
     0 < elems_per_chunk v \<and>
     (\<forall>c\<in>set (chunk_list v). chunk_inv (elems_per_chunk v) c) \<and>
     capacity v = length (chunk_list v) * elems_per_chunk v \<and>
     available_slots v = sum_list (map free_count (chunk_list v))"

text \<open>The free list names exactly the chunks with a free slot, by their first position.\<close>

definition fl_ok :: "'a cvec \<Rightarrow> bool" where
  "fl_ok v \<longleftrightarrow>
     distinct (free_list v) \<and>
     set (free_list v) =
       (\<lambda>k. k * elems_per_chunk v) ` {k. k < length (chunk_list v) \<and> \<not> chunk_is_full (chunk_list v ! k)}"

definition cv_inv :: "'a cvec \<Rightarrow> bool" where
  "cv_inv v \<longleftrightarrow> cv_wf v \<and> fl_ok v"

text \<open>The vector as a finite map: what \<open>at\<close> returns at each position.\<close>

definition cv_view :: "'a cvec \<Rightarrow> nat \<Rightarrow> 'a option" where
  "cv_view v i = ok (cv_at v i)"

lemma cv_at_eq:
  "cv_at v i =
     (if i div elems_per_chunk v < length (chunk_list v) then
        (if ch_slots (chunk_list v ! (i div elems_per_chunk v)) ! (i mod elems_per_chunk v)
         then Inr (ch_data (chunk_list v ! (i div elems_per_chunk v)) ! (i mod elems_per_chunk v))
         else Inl Unknown_id)
      else Inl Index_out_of_range)"
  by (simp add: cv_at_def cv_find_chunk_def chunk_is_used_def Let_def)

lemma cv_view_eq:
  "cv_view v i =
     (if i div elems_per_chunk v < length (chunk_list v) \<and>
         ch_slots (chunk_list v ! (i div elems_per_chunk v)) ! (i mod elems_per_chunk v)
      then Some (ch_data (chunk_list v ! (i div elems_per_chunk v)) ! (i mod elems_per_chunk v))
      else None)"
  by (simp add: cv_view_def cv_at_eq)

lemma cv_wf_chunk:
  "cv_wf v \<Longrightarrow> k < length (chunk_list v) \<Longrightarrow> chunk_inv (elems_per_chunk v) (chunk_list v ! k)"
  by (simp add: cv_wf_def)

lemma cv_wf_pos: "cv_wf v \<Longrightarrow> 0 < elems_per_chunk v"
  by (simp add: cv_wf_def)

lemma cv_chunk_lengths:
  assumes "cv_wf v" "k < length (chunk_list v)"
  shows "length (ch_slots (chunk_list v ! k)) = elems_per_chunk v"
    "length (ch_data (chunk_list v ! k)) = elems_per_chunk v"
  using cv_wf_chunk [OF assms] by (simp_all add: chunk_inv_def)

lemma cv_index_bound:
  assumes "cv_wf v"
  shows "i div elems_per_chunk v < length (chunk_list v) \<longleftrightarrow> i < capacity v"
  using assms by (simp add: cv_wf_def less_mult_imp_div_less div_less_iff_less_mult)

lemma cv_find_chunk_eq:
  "cv_wf v \<Longrightarrow> cv_find_chunk v i =
     (if i < capacity v then Inr (i div elems_per_chunk v) else Inl Index_out_of_range)"
  using cv_index_bound [of v i] by (auto simp: cv_find_chunk_def Let_def)

lemma cv_view_dom: "cv_wf v \<Longrightarrow> cv_view v i = Some x \<Longrightarrow> i < capacity v"
  by (auto simp: cv_view_eq simp flip: cv_index_bound split: if_splits)

text \<open>Replacing one chunk by one that differs at a single slot updates the view there.\<close>

lemma cv_view_replace:
  assumes wf: "cv_wf v" and k: "k < length (chunk_list v)" and pos: "pos < elems_per_chunk v"
    and e: "elems_per_chunk v' = elems_per_chunk v"
    and cl: "chunk_list v' = (chunk_list v)[k := ch]"
    and s: "ch_slots ch = (ch_slots (chunk_list v ! k))[pos := b]"
    and d: "ch_data ch = (ch_data (chunk_list v ! k))[pos := x]"
  shows "cv_view v' = (cv_view v)(k * elems_per_chunk v + pos := (if b then Some x else None))"
proof
  fix i
  let ?n = "elems_per_chunk v"
  have n: "0 < ?n" using wf by (rule cv_wf_pos)
  define j where "j = k * ?n + pos"
  have here: "i = j \<longleftrightarrow> i div ?n = k \<and> i mod ?n = pos"
    unfolding j_def using div_mult_split [OF n pos] by (metis div_mult_mod_eq)
  note len = cv_chunk_lengths [OF wf k]
  have "cv_view v' i = ((cv_view v)(j := (if b then Some x else None))) i"
  proof (cases "i div ?n = k")
    case True
    have at: "cv_view v' i = (if (ch_slots (chunk_list v ! k))[pos := b] ! (i mod ?n)
        then Some ((ch_data (chunk_list v ! k))[pos := x] ! (i mod ?n)) else None)"
      using True k by (simp add: cv_view_eq e cl s d)
    have at0: "cv_view v i = (if ch_slots (chunk_list v ! k) ! (i mod ?n)
        then Some (ch_data (chunk_list v ! k) ! (i mod ?n)) else None)"
      using True k by (simp add: cv_view_eq)
    show ?thesis
    proof (cases "i mod ?n = pos")
      case eq: True
      then have "i = j" using here True by blast
      then show ?thesis using at len pos eq by simp
    next
      case neq: False
      then have "i \<noteq> j" using here by blast
      then show ?thesis using at at0 neq by simp
    qed
  next
    case False
    have "chunk_list v' ! (i div ?n) = chunk_list v ! (i div ?n)"
      "length (chunk_list v') = length (chunk_list v)"
      unfolding cl using False by (simp_all add: nth_list_update_neq)
    then have "cv_view v' i = cv_view v i" unfolding cv_view_eq e by simp
    moreover have "i \<noteq> j" using False here by blast
    ultimately show ?thesis by simp
  qed
  then show "cv_view v' i = ((cv_view v)(k * ?n + pos := (if b then Some x else None))) i"
    by (simp only: j_def)
qed

lemma sum_free_replace:
  "k < length cl \<Longrightarrow> sum_list (map free_count (cl[k := ch])) + free_count (cl ! k) =
     sum_list (map free_count cl) + free_count ch"
  using sum_list_update_nat [of k "map free_count cl" "free_count ch"]
  by (simp add: map_update)

lemma free_count_le_sum: "k < length cl \<Longrightarrow> free_count (cl ! k) \<le> sum_list (map free_count cl)"
  by (rule member_le_sum_list) simp_all

section \<open>Growing the vector\<close>

lemma cv_add_chunk_simps [simp]:
  "chunk_list (cv_add_chunk d v) = chunk_list v @ [chunk_new d (elems_per_chunk v)]"
  "elems_per_chunk (cv_add_chunk d v) = elems_per_chunk v"
  "capacity (cv_add_chunk d v) = capacity v + elems_per_chunk v"
  "available_slots (cv_add_chunk d v) = available_slots v + elems_per_chunk v"
  "free_list (cv_add_chunk d v) = free_list v @ [length (chunk_list v) * elems_per_chunk v]"
  by (simp_all add: cv_add_chunk_def cv_add_to_free_list_def Let_def)

lemma cv_resize_eq:
  assumes "cv_wf v" "0 < m"
  shows "cv_resize d m v = (cv_add_chunk d ^^ m) v"
proof (cases "chunk_list v = []")
  case True
  then have "capacity v = 0" "available_slots v = 0" using assms(1) by (simp_all add: cv_wf_def)
  with True have "cv_add_chunk d v = cv_add_to_free_list 0
      (v\<lparr>chunk_list := [chunk_new d (elems_per_chunk v)], capacity := elems_per_chunk v,
         available_slots := elems_per_chunk v\<rparr>)"
    by (simp add: cv_add_chunk_def Let_def)
  moreover obtain k where "m = Suc k" using assms(2) by (cases m) auto
  ultimately show ?thesis using True by (simp add: cv_resize_def Let_def funpow_Suc_right del: funpow.simps)
qed (simp add: cv_resize_def)

lemma cv_add_chunk_wf: "cv_wf v \<Longrightarrow> cv_wf (cv_add_chunk d v)"
  by (auto simp: cv_wf_def chunk_new_inv)

lemma cv_add_chunk_view: "cv_wf v \<Longrightarrow> cv_view (cv_add_chunk d v) = cv_view v"
proof
  fix i assume wf: "cv_wf v"
  have "i mod elems_per_chunk v < elems_per_chunk v" using wf by (simp add: cv_wf_def)
  then show "cv_view (cv_add_chunk d v) i = cv_view v i"
    by (auto simp: cv_view_eq nth_append chunk_new_def less_Suc_eq)
qed

lemma cv_add_chunk_fl:
  assumes wf: "cv_wf v" and fl: "fl_ok v"
  shows "fl_ok (cv_add_chunk d v)"
proof -
  let ?n = "elems_per_chunk v" and ?l = "length (chunk_list v)"
  have n: "0 < ?n" using wf by (rule cv_wf_pos)
  have fresh: "?l * ?n \<notin> set (free_list v)" using fl n by (auto simp: fl_ok_def)
  have "{k. k < Suc ?l \<and> \<not> chunk_is_full ((chunk_list v @ [chunk_new d ?n]) ! k)}
      = insert ?l {k. k < ?l \<and> \<not> chunk_is_full (chunk_list v ! k)}"
    using chunk_new_not_full [OF n, of d] by (auto simp: less_Suc_eq nth_append)
  then show ?thesis using fl fresh by (simp add: fl_ok_def)
qed

lemma cv_add_chunk_inv: "cv_inv v \<Longrightarrow> cv_inv (cv_add_chunk d v)"
  by (simp add: cv_inv_def cv_add_chunk_wf cv_add_chunk_fl)

lemma cv_resize_props:
  assumes "cv_wf v" "0 < m"
  shows "cv_wf (cv_resize d m v)" "cv_view (cv_resize d m v) = cv_view v"
    "fl_ok v \<Longrightarrow> fl_ok (cv_resize d m v)"
    "capacity (cv_resize d m v) = capacity v + m * elems_per_chunk v"
proof -
  have "cv_wf ((cv_add_chunk d ^^ m) v) \<and> cv_view ((cv_add_chunk d ^^ m) v) = cv_view v \<and>
      (fl_ok v \<longrightarrow> fl_ok ((cv_add_chunk d ^^ m) v)) \<and>
      capacity ((cv_add_chunk d ^^ m) v) = capacity v + m * elems_per_chunk v \<and>
      elems_per_chunk ((cv_add_chunk d ^^ m) v) = elems_per_chunk v"
    using assms(1) by (induction m) (auto simp: cv_add_chunk_wf cv_add_chunk_view cv_add_chunk_fl)
  then show "cv_wf (cv_resize d m v)" "cv_view (cv_resize d m v) = cv_view v"
    "fl_ok v \<Longrightarrow> fl_ok (cv_resize d m v)"
    "capacity (cv_resize d m v) = capacity v + m * elems_per_chunk v"
    by (simp_all add: cv_resize_eq [OF assms])
qed

lemma cv_resize_one: "cv_wf v \<Longrightarrow> cv_resize d 1 v = cv_add_chunk d v"
  by (simp add: cv_resize_eq)

section \<open>Filling a free slot\<close>

lemma cv_put_simps [simp]:
  "elems_per_chunk (cv_put v k pos x) = elems_per_chunk v"
  "capacity (cv_put v k pos x) = capacity v"
  "available_slots (cv_put v k pos x) = available_slots v"
  "free_list (cv_put v k pos x) = free_list v"
  "chunk_list (cv_put v k pos x) =
     (chunk_list v)[k := (chunk_set (chunk_list v ! k) pos True)
        \<lparr>ch_data := (ch_data (chunk_list v ! k))[pos := x]\<rparr>]"
  by (simp_all add: cv_put_def Let_def)

lemma chunk_put_inv:
  "chunk_inv n c \<Longrightarrow> pos < n \<Longrightarrow>
     chunk_inv n ((chunk_set c pos True)\<lparr>ch_data := (ch_data c)[pos := x]\<rparr>)"
  using chunk_set_inv [of n c pos True] by (simp add: chunk_inv_def)

lemma cv_wf_update:
  assumes wf: "cv_wf v" and inv: "chunk_inv (elems_per_chunk v) ch" and k: "k < length (chunk_list v)"
    and e: "elems_per_chunk v' = elems_per_chunk v" "capacity v' = capacity v"
    and cl: "chunk_list v' = (chunk_list v)[k := ch]"
    and av: "available_slots v' + free_count (chunk_list v ! k) = available_slots v + free_count ch"
  shows "cv_wf v'"
  using assms sum_free_replace [OF k, of ch] set_update_subset_insert [of "chunk_list v" k ch]
  by (auto simp: cv_wf_def)

lemma cv_put_view:
  assumes "cv_wf v" "k < length (chunk_list v)" "pos < elems_per_chunk v"
  shows "cv_view (cv_put v k pos x) = (cv_view v)(k * elems_per_chunk v + pos \<mapsto> x)"
  using cv_view_replace [OF assms, where b = True and x = x and v' = "cv_put v k pos x"] by simp

lemma cv_view_avail [simp]: "cv_view (v\<lparr>available_slots := a\<rparr>) = cv_view v"
  by (rule ext) (simp add: cv_view_eq)

lemma cv_view_fl [simp]: "cv_view (v\<lparr>free_list := f\<rparr>) = cv_view v"
  by (rule ext) (simp add: cv_view_eq)

lemma cv_wf_fl [simp]: "cv_wf (v\<lparr>free_list := f\<rparr>) = cv_wf v"
  by (simp add: cv_wf_def)

lemma cv_available_pos:
  assumes wf: "cv_wf v" and k: "k < length (chunk_list v)" and nf: "\<not> chunk_is_full (chunk_list v ! k)"
  shows "0 < available_slots v"
proof -
  have "0 < free_count (chunk_list v ! k)" using nf by (simp add: chunk_full_count)
  also have "\<dots> \<le> sum_list (map free_count (chunk_list v))" using k by (rule free_count_le_sum)
  finally show ?thesis using wf by (simp add: cv_wf_def)
qed

lemma cv_fill_wf:
  assumes wf: "cv_wf v" and k: "k < length (chunk_list v)" and pos: "pos < elems_per_chunk v"
    and free: "\<not> ch_slots (chunk_list v ! k) ! pos"
  shows "cv_wf (cv_put (v\<lparr>available_slots := dec64 (available_slots v)\<rparr>) k pos x)"
proof -
  note len = cv_chunk_lengths [OF wf k]
  have "\<not> chunk_is_full (chunk_list v ! k)"
    using chunk_free_not_full [OF cv_wf_chunk [OF wf k] pos free] .
  from cv_available_pos [OF wf k this] have "dec64 (available_slots v) + 1 = available_slots v"
    by (simp add: dec64_pos)
  moreover have "free_count (chunk_set (chunk_list v ! k) pos True) + 1 = free_count (chunk_list v ! k)"
    using free_count_set_True free pos len by metis
  ultimately show ?thesis
    using cv_wf_update [OF wf chunk_put_inv [OF cv_wf_chunk [OF wf k] pos] k,
        of "cv_put (v\<lparr>available_slots := dec64 (available_slots v)\<rparr>) k pos x" x]
    by simp
qed

lemma fl_ok_keep:
  assumes fl: "fl_ok v" and k: "k < length (chunk_list v)"
    and e: "elems_per_chunk v' = elems_per_chunk v" "free_list v' = free_list v"
    and cl: "chunk_list v' = (chunk_list v)[k := ch]"
    and nf: "chunk_is_full ch \<longleftrightarrow> chunk_is_full (chunk_list v ! k)"
  shows "fl_ok v'"
proof -
  have "chunk_is_full ((chunk_list v)[k := ch] ! j) \<longleftrightarrow> chunk_is_full (chunk_list v ! j)" for j
    using nf k by (cases "j = k") auto
  then show ?thesis using fl by (simp add: fl_ok_def e cl)
qed

lemma set_filter_neq: "set (filter (\<lambda>i. i \<noteq> a) xs) = set xs - {a}"
  by auto

lemma fl_ok_remove:
  assumes fl: "fl_ok v" and k: "k < length (chunk_list v)" and n: "0 < elems_per_chunk v"
    and e: "elems_per_chunk v' = elems_per_chunk v"
    and fl': "free_list v' = filter (\<lambda>i. i \<noteq> k * elems_per_chunk v) (free_list v)"
    and cl: "chunk_list v' = (chunk_list v)[k := ch]" and full: "chunk_is_full ch"
  shows "fl_ok v'"
proof -
  let ?n = "elems_per_chunk v"
  have "{j. j < length (chunk_list v) \<and> \<not> chunk_is_full ((chunk_list v)[k := ch] ! j)}
      = {j. j < length (chunk_list v) \<and> \<not> chunk_is_full (chunk_list v ! j)} - {k}"
    using full k by (auto simp: nth_list_update)
  moreover have "(\<lambda>j. j * ?n) ` (S - {k}) = (\<lambda>j. j * ?n) ` S - {k * ?n}" for S :: "nat set"
    using n by auto
  ultimately show ?thesis using fl by (simp add: fl_ok_def e fl' cl set_filter_neq del: set_filter)
qed

text \<open>The common tail of \<open>append\<close> and \<open>store\<close>: fill the slot, drop a full chunk from the free list.\<close>

lemma cv_fill_inv:
  assumes inv: "cv_inv v" and k: "k < length (chunk_list v)" and pos: "pos < elems_per_chunk v"
    and free: "\<not> ch_slots (chunk_list v ! k) ! pos"
    and v3: "v3 = cv_put (v\<lparr>available_slots := dec64 (available_slots v)\<rparr>) k pos x"
    and v4: "v4 = (if chunk_is_full (chunk_list v3 ! k)
                   then cv_remove_from_free_list (k * elems_per_chunk v) v3 else v3)"
  shows "cv_inv v4" "cv_view v4 = (cv_view v)(k * elems_per_chunk v + pos \<mapsto> x)"
    "capacity v4 = capacity v"
proof -
  let ?v = "v\<lparr>available_slots := dec64 (available_slots v)\<rparr>"
  from inv have wf: "cv_wf v" and fl: "fl_ok v" by (simp_all add: cv_inv_def)
  have wf3: "cv_wf v3" unfolding v3 by (rule cv_fill_wf [OF wf k pos free])
  have "cv_view v3 = (cv_view v)(k * elems_per_chunk v + pos \<mapsto> x)"
    unfolding v3
    using cv_view_replace [OF wf k pos, where b = True and x = x and v' = "cv_put ?v k pos x"] by simp
  then show "cv_view v4 = (cv_view v)(k * elems_per_chunk v + pos \<mapsto> x)"
    by (simp add: v4 cv_remove_from_free_list_def)
  show "capacity v4 = capacity v" by (simp add: v4 v3 cv_remove_from_free_list_def)
  have old: "\<not> chunk_is_full (chunk_list v ! k)"
    using chunk_free_not_full [OF cv_wf_chunk [OF wf k] pos free] .
  have "fl_ok v4"
  proof (cases "chunk_is_full (chunk_list v3 ! k)")
    case True
    then show ?thesis using k
      by (intro fl_ok_remove [OF fl k cv_wf_pos [OF wf], of v4 "chunk_list v3 ! k"])
        (simp_all add: v4 v3 cv_remove_from_free_list_def)
  next
    case False
    then show ?thesis using k old
      by (intro fl_ok_keep [OF fl k, of v4 "chunk_list v3 ! k"]) (simp_all add: v4 v3)
  qed
  then show "cv_inv v4" using wf3 by (simp add: cv_inv_def v4 cv_remove_from_free_list_def)
qed

section \<open>The operations against the abstract view\<close>

lemma cv_at_view:
  "cv_wf v \<Longrightarrow> cv_at v i =
     (case cv_view v i of
        Some x \<Rightarrow> Inr x
      | None \<Rightarrow> Inl (if i < capacity v then Unknown_id else Index_out_of_range))"
  by (simp add: cv_at_eq cv_view_eq cv_index_bound)

lemma cv_assign_props:
  assumes wf: "cv_wf v" and y: "cv_view v i = Some y"
  shows "cv_wf (cv_assign v i x)" "cv_view (cv_assign v i x) = (cv_view v)(i \<mapsto> x)"
    "capacity (cv_assign v i x) = capacity v" "fl_ok v \<Longrightarrow> fl_ok (cv_assign v i x)"
proof -
  let ?n = "elems_per_chunk v"
  let ?k = "i div ?n" and ?p = "i mod ?n"
  have n: "0 < ?n" using wf by (rule cv_wf_pos)
  have k: "?k < length (chunk_list v)" and used: "ch_slots (chunk_list v ! ?k) ! ?p"
    using y by (auto simp: cv_view_eq split: if_splits)
  let ?ch = "(chunk_list v ! ?k)\<lparr>ch_data := (ch_data (chunk_list v ! ?k))[?p := x]\<rparr>"
  have cl: "chunk_list (cv_assign v i x) = (chunk_list v)[?k := ?ch]"
    and same: "elems_per_chunk (cv_assign v i x) = ?n" "capacity (cv_assign v i x) = capacity v"
      "available_slots (cv_assign v i x) = available_slots v" "free_list (cv_assign v i x) = free_list v"
    by (simp_all add: cv_assign_def Let_def)
  show "capacity (cv_assign v i x) = capacity v" by (rule same)
  show "cv_wf (cv_assign v i x)"
    using cv_wf_chunk [OF wf k]
    by (intro cv_wf_update [OF wf _ k same(1,2) cl]) (simp_all add: same)
  have "(ch_slots (chunk_list v ! ?k))[?p := True] = ch_slots (chunk_list v ! ?k)"
    using used list_update_id [of "ch_slots (chunk_list v ! ?k)" ?p] by simp
  then have "cv_view (cv_assign v i x) = (cv_view v)(?k * ?n + ?p := (if True then Some x else None))"
    using n by (intro cv_view_replace [OF wf k _ same(1) cl]) simp_all
  then show "cv_view (cv_assign v i x) = (cv_view v)(i \<mapsto> x)" by simp
  show "fl_ok (cv_assign v i x)" if "fl_ok v"
    by (rule fl_ok_keep [OF that k same(1,4) cl]) simp
qed

lemma cv_store_tail:
  assumes inv: "cv_inv v" and k: "k < length (chunk_list v)"
    and nf: "\<not> chunk_is_full (chunk_list v ! k)" and idx: "idx = k * elems_per_chunk v"
  shows "\<exists>v' i. cv_fill_first v k idx x = Inr (v', i) \<and>
          cv_inv v' \<and> cv_view v i = None \<and> cv_view v' = (cv_view v)(i \<mapsto> x) \<and>
          capacity v' = capacity v \<and> i div elems_per_chunk v = k"
proof -
  from inv have wf: "cv_wf v" by (simp add: cv_inv_def)
  note ci = cv_wf_chunk [OF wf k]
  obtain pos where pos: "chunk_first_available (chunk_list v ! k) = Some pos"
    using nf chunk_first_available_eq [OF ci] by auto
  note p = chunk_first_available_Some [OF ci pos]
  have "cv_view v (k * elems_per_chunk v + pos) = None"
    using p(2) div_mult_split [OF cv_wf_pos [OF wf] p(1)] by (simp add: cv_view_eq)
  then show ?thesis unfolding idx
    using cv_fill_inv [OF inv k p(1,2) refl refl, of x] div_mult_split(1) [OF cv_wf_pos [OF wf] p(1)]
    by (simp add: cv_fill_first_def pos Let_def split del: if_split)
qed

lemma cv_store_spec:
  assumes inv: "cv_inv v"
  shows "\<exists>v' i. cv_store d v x = Inr (v', i) \<and> cv_inv v' \<and> cv_view v i = None \<and>
          cv_view v' = (cv_view v)(i \<mapsto> x) \<and> capacity v \<le> capacity v'"
proof (cases "free_list v")
  case Nil
  from inv have wf: "cv_wf v" by (simp add: cv_inv_def)
  let ?v = "cv_add_chunk d v" and ?k = "length (chunk_list v)"
  have nf: "\<not> chunk_is_full (chunk_list ?v ! ?k)" by (simp add: chunk_new_not_full cv_wf_pos [OF wf])
  have start: "cv_find_in_free_list ?v = Inr (?k * elems_per_chunk ?v)"
    using Nil by (simp add: cv_find_in_free_list_def)
  from cv_store_tail [OF cv_add_chunk_inv [OF inv, of d], of ?k "?k * elems_per_chunk ?v" x] nf
  show ?thesis
    by (auto simp: cv_store_def Let_def Nil start cv_resize_one [OF wf, unfolded One_nat_def]
        cv_add_chunk_view [OF wf])
next
  case (Cons idx fl)
  from inv have wf: "cv_wf v" and "fl_ok v" by (simp_all add: cv_inv_def)
  then obtain k where k: "idx = k * elems_per_chunk v" "k < length (chunk_list v)"
    "\<not> chunk_is_full (chunk_list v ! k)" using Cons by (force simp: fl_ok_def)
  then have "cv_find_chunk v idx = Inr k" using cv_wf_pos [OF wf] by (simp add: cv_find_chunk_def Let_def)
  then show ?thesis using cv_store_tail [OF inv k(2,3,1), of x] Cons
    by (auto simp: cv_store_def cv_find_in_free_list_def)
qed

lemma cv_fill_first_size:
  assumes "cv_fill_first v k idx x = Inr (v', i)"
  shows "capacity v' = capacity v" "elems_per_chunk v' = elems_per_chunk v"
  using assms by (auto simp: cv_fill_first_def cv_remove_from_free_list_def Let_def
      split: option.splits if_splits)

lemma cv_store_size:
  assumes wf: "cv_wf v" and st: "cv_store d v x = Inr (v', i)"
  shows "capacity v' \<le> capacity v + elems_per_chunk v" "elems_per_chunk v' = elems_per_chunk v"
proof -
  have r: "cv_resize d (Suc 0) v = cv_add_chunk d v" using cv_resize_one [OF wf] by simp
  obtain v2 k idx where f: "cv_fill_first v2 k idx x = Inr (v', i)" "v2 = v \<or> v2 = cv_add_chunk d v"
    using st by (auto simp: cv_store_def r Let_def rbind_eq_Inr_iff split: if_splits)
  from cv_fill_first_size [OF f(1)] f(2)
  show "capacity v' \<le> capacity v + elems_per_chunk v" "elems_per_chunk v' = elems_per_chunk v" by auto
qed

lemma cv_append_spec:
  assumes inv: "cv_inv v"
  shows "\<exists>v' i. cv_append d v x = Inr (v', i) \<and> cv_inv v' \<and> cv_view v i = None \<and>
          cv_view v' = (cv_view v)(i \<mapsto> x) \<and> capacity v \<le> capacity v' \<and>
          capacity v' \<le> i + elems_per_chunk v"
proof -
  let ?v1 = "if cv_is_full v then cv_resize d 1 v else v"
  let ?v2 = "if chunk_is_full (last (chunk_list ?v1)) then cv_resize d 1 ?v1 else ?v1"
  let ?k = "length (chunk_list ?v2) - 1"
  from inv have wf: "cv_wf v" by (simp add: cv_inv_def)
  have v1: "cv_inv ?v1 \<and> chunk_list ?v1 \<noteq> [] \<and> cv_view ?v1 = cv_view v \<and>
      capacity v \<le> capacity ?v1 \<and> elems_per_chunk ?v1 = elems_per_chunk v"
  proof (cases "cv_is_full v")
    case False
    then have "chunk_list v \<noteq> []" using wf by (auto simp: cv_is_full_def cv_wf_def)
    with False inv show ?thesis by simp
  next
    case True
    with cv_add_chunk_inv [OF inv] cv_add_chunk_view [OF wf] cv_resize_one [OF wf, of d]
    show ?thesis by simp
  qed
  then have wf1: "cv_wf ?v1" by (simp add: cv_inv_def)
  have v2: "cv_inv ?v2 \<and> chunk_list ?v2 \<noteq> [] \<and> cv_view ?v2 = cv_view v \<and>
      capacity v \<le> capacity ?v2 \<and> elems_per_chunk ?v2 = elems_per_chunk v \<and>
      \<not> chunk_is_full (last (chunk_list ?v2))"
  proof (cases "chunk_is_full (last (chunk_list ?v1))")
    case False
    then show ?thesis using v1 by simp
  next
    case True
    with v1 cv_add_chunk_inv [of ?v1 d] cv_add_chunk_view [OF wf1, of d] cv_resize_one [OF wf1, of d]
      chunk_new_not_full [OF cv_wf_pos [OF wf], of d]
    show ?thesis by simp
  qed
  then have k: "?k < length (chunk_list ?v2)" "\<not> chunk_is_full (chunk_list ?v2 ! ?k)"
    by (auto simp: last_conv_nth)
  from v2 have inv2: "cv_inv ?v2" by blast
  have len2: "capacity ?v2 = Suc ?k * elems_per_chunk v"
    using inv2 v2 k(1) by (simp add: cv_inv_def cv_wf_def)
  obtain v' i where r: "cv_append d v x = Inr (v', i)" "cv_inv v'" "cv_view ?v2 i = None"
    "cv_view v' = (cv_view ?v2)(i \<mapsto> x)" "capacity v' = capacity ?v2" "i div elems_per_chunk ?v2 = ?k"
    using cv_store_tail [OF inv2 k refl, of x] v1
    by (auto simp: cv_append_def Let_def simp del: One_nat_def)
  have "?k * elems_per_chunk v \<le> i" using r(6) v2 by (metis div_times_less_eq_dividend)
  then have "capacity v' \<le> i + elems_per_chunk v" using r(5) len2 by simp
  then show ?thesis using r v2 by auto
qed

lemma cv_erase_spec:
  assumes wf: "cv_wf v" and i: "i < capacity v"
  shows "\<exists>v'. cv_erase v i = Inr v' \<and> cv_wf v' \<and> cv_view v' = (cv_view v)(i := None) \<and>
     capacity v' = capacity v \<and>
     (fl_ok v \<and> (chunk_is_full (chunk_list v ! (i div elems_per_chunk v)) \<longrightarrow> i mod elems_per_chunk v = 0)
        \<longrightarrow> fl_ok v')"
proof -
  let ?n = "elems_per_chunk v"
  let ?k = "i div ?n" and ?p = "i mod ?n"
  let ?ch = "chunk_list v ! ?k"
  let ?v1 = "if ch_slots ?ch ! ?p then v\<lparr>available_slots := available_slots v + 1\<rparr> else v"
  let ?v2 = "?v1\<lparr>chunk_list := (chunk_list v)[?k := chunk_set ?ch ?p False]\<rparr>"
  let ?v' = "if chunk_is_full ?ch then cv_add_to_free_list i ?v2 else ?v2"
  have n: "0 < ?n" and k: "?k < length (chunk_list v)"
    using wf i by (simp_all add: cv_wf_pos cv_index_bound)
  have p: "?p < ?n" using n by simp
  have e: "cv_erase v i = Inr ?v'"
    using i wf by (auto simp: cv_erase_def cv_find_chunk_eq Let_def chunk_is_used_def)
  note len = cv_chunk_lengths [OF wf k]
  have "available_slots ?v2 + free_count ?ch = available_slots v + free_count (chunk_set ?ch ?p False)"
  proof (cases "ch_slots ?ch ! ?p")
    case True
    then show ?thesis using free_count_set_False [of ?p ?ch] p len by simp
  next
    case False
    then have "(ch_slots ?ch)[?p := False] = ch_slots ?ch" by (metis list_update_id)
    then show ?thesis using False by (simp add: free_count_def)
  qed
  then have "cv_wf ?v2"
    by (intro cv_wf_update [OF wf chunk_set_inv [OF cv_wf_chunk [OF wf k] p] k]) simp_all
  moreover have view2: "cv_view ?v2 = (cv_view v)(?k * ?n + ?p := (if False then Some (ch_data ?ch ! ?p) else None))"
    by (rule cv_view_replace [OF wf k p, where ch = "chunk_set ?ch ?p False"]) simp_all
  moreover have "fl_ok ?v'" if fl: "fl_ok v" and base: "chunk_is_full ?ch \<longrightarrow> ?p = 0"
  proof (cases "chunk_is_full ?ch")
    case True
    have "ch_slots ?ch ! ?p" using True p chunk_full_iff [OF cv_wf_chunk [OF wf k]] by blast
    have "\<not> chunk_is_full (chunk_set ?ch ?p False)"
      using chunk_free_not_full [OF chunk_set_inv [OF cv_wf_chunk [OF wf k] p] p, of False] p len by simp
    then have "{j. j < length (chunk_list v) \<and> \<not> chunk_is_full ((chunk_list v)[?k := chunk_set ?ch ?p False] ! j)}
        = insert ?k {j. j < length (chunk_list v) \<and> \<not> chunk_is_full (chunk_list v ! j)}"
      using k by (auto simp: nth_list_update)
    moreover have "i = ?k * ?n" using base True by (metis add_0_right div_mult_mod_eq)
    moreover have "?k * ?n \<notin> set (free_list v)" using fl n True by (auto simp: fl_ok_def)
    ultimately show ?thesis using fl True
      by (simp add: fl_ok_def cv_add_to_free_list_def)
  next
    case False
    have "\<not> chunk_is_full (chunk_set ?ch ?p False)"
      using chunk_free_not_full [OF chunk_set_inv [OF cv_wf_chunk [OF wf k] p] p, of False] p len by simp
    then show ?thesis using False
      by (intro fl_ok_keep [OF fl k, of ?v' "chunk_set ?ch ?p False"]) simp_all
  qed
  ultimately show ?thesis unfolding e
    by (auto simp: cv_add_to_free_list_def)
qed

lemma cv_store_at_spec:
  assumes wf: "cv_wf v" and i: "i < capacity v"
  shows "\<exists>v'. cv_store_at v i x = Inr v' \<and> cv_wf v' \<and> cv_view v' = (cv_view v)(i \<mapsto> x) \<and>
     capacity v' = capacity v"
proof -
  let ?n = "elems_per_chunk v"
  let ?k = "i div ?n" and ?p = "i mod ?n"
  let ?ch = "chunk_list v ! ?k"
  let ?v1 = "cv_put v ?k ?p x"
  let ?v2 = "if ch_slots ?ch ! ?p then ?v1 else ?v1\<lparr>available_slots := dec64 (available_slots v)\<rparr>"
  let ?v' = "if chunk_is_full (chunk_list ?v2 ! ?k) then cv_remove_from_free_list i ?v2 else ?v2"
  have n: "0 < ?n" and k: "?k < length (chunk_list v)"
    using wf i by (simp_all add: cv_wf_pos cv_index_bound)
  have p: "?p < ?n" using n by simp
  have e: "cv_store_at v i x = Inr ?v'"
    using i wf by (auto simp: cv_store_at_def cv_find_chunk_eq Let_def chunk_is_used_def)
  have "cv_wf ?v2"
  proof (cases "ch_slots ?ch ! ?p")
    case True
    then have "(ch_slots ?ch)[?p := True] = ch_slots ?ch"
      using list_update_id [of "ch_slots ?ch" ?p] by simp
    then have "cv_wf ?v1"
      by (intro cv_wf_update [OF wf chunk_put_inv [OF cv_wf_chunk [OF wf k] p] k])
        (simp_all add: free_count_def)
    with True show ?thesis by simp
  next
    case False
    have eq: "?v1\<lparr>available_slots := dec64 (available_slots v)\<rparr> =
        cv_put (v\<lparr>available_slots := dec64 (available_slots v)\<rparr>) ?k ?p x"
      by (simp add: cv_put_def Let_def)
    have "cv_wf (?v1\<lparr>available_slots := dec64 (available_slots v)\<rparr>)"
      unfolding eq by (rule cv_fill_wf [OF wf k p False])
    with False show ?thesis by simp
  qed
  moreover have "cv_view ?v2 = (cv_view v)(i \<mapsto> x)"
    using cv_put_view [OF wf k p, of x] by simp
  ultimately show ?thesis unfolding e by (auto simp: cv_remove_from_free_list_def)
qed

lemma cv_used_view: "cv_wf v \<Longrightarrow> i < capacity v \<Longrightarrow> cv_used v i \<longleftrightarrow> cv_view v i \<noteq> None"
  by (simp add: cv_used_def chunk_is_used_def cv_view_eq cv_index_bound)

lemma first_free_from_least:
  assumes "\<forall>c\<in>set cs. chunk_inv n c" "\<exists>c\<in>set cs. \<not> chunk_is_full c" "0 < n"
  shows "\<exists>k p. k < length cs \<and> p < n \<and> first_free_from n offs cs = offs + k * n + p \<and>
    \<not> ch_slots (cs ! k) ! p \<and> (\<forall>j<k. chunk_is_full (cs ! j)) \<and> (\<forall>j<p. ch_slots (cs ! k) ! j)"
  using assms
proof (induction cs arbitrary: offs)
  case (Cons c cs)
  have ci: "chunk_inv n c" using Cons.prems by simp
  show ?case
  proof (cases "chunk_first_available c")
    case (Some p)
    with chunk_first_available_Some [OF ci Some] show ?thesis
      by (intro exI [of _ 0] exI [of _ p]) auto
  next
    case None
    then have full: "chunk_is_full c" using chunk_first_available_eq [OF ci] by (auto split: if_splits)
    from full Cons.prems have "\<exists>c\<in>set cs. \<not> chunk_is_full c" by auto
    then obtain k p where *: "k < length cs" "p < n"
      "first_free_from n (offs + n) cs = offs + n + k * n + p" "\<not> ch_slots (cs ! k) ! p"
      "\<forall>j<k. chunk_is_full (cs ! j)" "\<forall>j<p. ch_slots (cs ! k) ! j"
      using Cons.IH [of "offs + n"] Cons.prems by (metis list.set_intros(2))
    then show ?thesis using None full
      by (intro exI [of _ "Suc k"] exI [of _ p]) (auto simp: less_Suc_eq_0_disj)
  qed
qed simp

lemma cv_first_available_spec:
  assumes wf: "cv_wf v" and av: "available_slots v \<noteq> 0"
  shows "cv_first_available v < capacity v" "cv_view v (cv_first_available v) = None"
    "\<And>j. j < cv_first_available v \<Longrightarrow> cv_view v j \<noteq> None"
proof -
  let ?n = "elems_per_chunk v"
  have n: "0 < ?n" using wf by (rule cv_wf_pos)
  have "\<exists>c\<in>set (chunk_list v). \<not> chunk_is_full c"
    using wf av by (auto simp: cv_wf_def chunk_full_count)
  with first_free_from_least [of "chunk_list v" ?n 0] wf n
  obtain k p where k: "k < length (chunk_list v)" "p < ?n" "\<not> ch_slots (chunk_list v ! k) ! p"
    "\<forall>j<k. chunk_is_full (chunk_list v ! j)" "\<forall>j<p. ch_slots (chunk_list v ! k) ! j"
    and eq: "cv_first_available v = k * ?n + p"
    using av by (auto simp: cv_wf_def cv_first_available_def)
  note d = div_mult_split [OF n k(2), of k]
  show "cv_first_available v < capacity v"
    using k(1) d by (simp add: eq flip: cv_index_bound [OF wf])
  show "cv_view v (cv_first_available v) = None"
    using k(3) d by (simp add: eq cv_view_eq)
  fix j assume j: "j < cv_first_available v"
  have jd: "j div ?n < k \<or> j div ?n = k \<and> j mod ?n < p"
  proof (cases "j div ?n < k")
    case False
    moreover have "j div ?n \<le> k" using j d eq by (metis div_le_mono less_imp_le_nat)
    ultimately have "j div ?n = k" by simp
    then show ?thesis using j eq by (metis div_mult_mod_eq nat_add_left_cancel_less)
  qed simp
  then have "ch_slots (chunk_list v ! (j div ?n)) ! (j mod ?n)"
    using k chunk_full_iff [OF cv_wf_chunk [OF wf], of "j div ?n"] n by auto
  moreover have "j div ?n < length (chunk_list v)" using jd k(1) by auto
  ultimately show "cv_view v j \<noteq> None" by (simp add: cv_view_eq)
qed

lemma filter_find_upt:
  "filter P [a..<b] = (case find P [a..<b] of None \<Rightarrow> [] | Some j \<Rightarrow> j # filter P [Suc j..<b])"
proof (induction "b - a" arbitrary: a)
  case (Suc m)
  then have "[a..<b] = a # [Suc a..<b]" by (simp add: upt_conv_Cons)
  moreover have "m = b - Suc a" using Suc.hyps(2) by simp
  ultimately show ?case using Suc.hyps(1) [of "Suc a"] by simp
qed simp

lemma cv_walk_Some: "cv_walk v (Some q) =
    q # filter (cv_used v) [Suc q..<length (chunk_list v) * elems_per_chunk v]"
proof (induction "length (chunk_list v) * elems_per_chunk v - q" arbitrary: q rule: less_induct)
  case less
  show ?case
  proof (cases "cv_iter_next v q")
    case None
    then show ?thesis by (simp add: cv_iter_next_def filter_find_upt [of _ "Suc q"])
  next
    case (Some j)
    then have f: "find (cv_used v) [Suc q..<length (chunk_list v) * elems_per_chunk v] = Some j"
      by (simp add: cv_iter_next_def)
    have "cv_walk v (Some j) = j # filter (cv_used v) [Suc j..<length (chunk_list v) * elems_per_chunk v]"
      using find_upt_Some(1,2) [OF f] by (intro less) simp
    then show ?thesis using Some f by (simp add: filter_find_upt [of _ "Suc q"])
  qed
qed

lemma cv_begin_used:
  assumes "cv_wf v" "chunk_list v = [] \<or> \<not> chunk_is_empty (hd (chunk_list v))"
  shows "cv_begin v = find (cv_used v) [0..<length (chunk_list v) * elems_per_chunk v]"
proof (cases "chunk_list v")
  case (Cons c cs)
  let ?n = "elems_per_chunk v"
  have n: "0 < ?n" and ci: "chunk_inv ?n c" using assms(1) Cons by (auto simp: cv_wf_def)
  obtain i where i: "i < ?n" "ch_slots c ! i"
    using assms(2) Cons ci unfolding chunk_is_empty_def chunk_inv_def
    by (metis in_set_conv_nth list.distinct(1) list.sel(1))
  have u: "cv_used v j = chunk_is_used c j" if "j < ?n" for j
    using that Cons by (simp add: cv_used_def)
  have s: "[0..<?n + length cs * ?n] = [0..<?n] @ [?n..<?n + length cs * ?n]"
    by (rule upt_add_eq_append) simp
  obtain j where "find (chunk_is_used c) [0..<?n] = Some j"
    using i by (cases "find (chunk_is_used c) [0..<?n]") (auto simp: find_upt_None chunk_is_used_def)
  moreover have "find (cv_used v) [0..<?n] = find (chunk_is_used c) [0..<?n]"
    by (rule find_cong) (simp_all add: u)
  moreover have "find P (xs @ ys) = Some y" if "find P xs = Some y" for P and xs ys :: "nat list" and y
    using that by (induction xs) (auto split: if_splits)
  ultimately show ?thesis by (simp add: cv_begin_def Cons s)
qed (simp add: cv_begin_def)

section \<open>Interfaces\<close>

interpretation cv_rd: slot_reader cv_wf cv_view capacity cv_at cv_assign
  by unfold_locales (auto simp: cv_at_view cv_view_dom cv_assign_props)

interpretation cv_er: slot_eraser cv_wf cv_view capacity cv_at cv_assign cv_erase
proof unfold_locales
  fix v :: "'a cvec" and i
  assume "cv_wf v" "i < capacity v"
  then show "\<exists>v'. cv_erase v i = Inr v' \<and> cv_wf v' \<and> cv_view v' = (cv_view v)(i := None) \<and>
      capacity v' = capacity v"
    using cv_erase_spec by blast
qed (simp add: cv_erase_def cv_find_chunk_eq)

interpretation cv_wr: slot_writer cv_inv cv_view capacity cv_at cv_assign "cv_store d" for d
proof unfold_locales
  fix v :: "'a cvec" and i x y
  assume v: "cv_inv v"
  then have wf: "cv_wf v" "fl_ok v" by (simp_all add: cv_inv_def)
  show "cv_at v i = (case cv_view v i of Some x \<Rightarrow> Inr x
      | None \<Rightarrow> Inl (if i < capacity v then Unknown_id else Index_out_of_range))"
    by (rule cv_at_view [OF wf(1)])
  show "i < capacity v" if "cv_view v i = Some x" using cv_view_dom [OF wf(1) that] .
  show "cv_inv (cv_assign v i x) \<and> cv_view (cv_assign v i x) = (cv_view v)(i \<mapsto> x) \<and>
      capacity (cv_assign v i x) = capacity v" if "cv_view v i = Some y"
    using cv_assign_props [OF wf(1) that] wf(2) by (simp add: cv_inv_def)
  show "\<exists>v' i. cv_store d v x = Inr (v', i) \<and> cv_inv v' \<and> cv_view v i = None \<and>
      cv_view v' = (cv_view v)(i \<mapsto> x) \<and> capacity v \<le> capacity v'"
    by (rule cv_store_spec [OF v])
qed

section \<open>Properties\<close>

text \<open>
  C38. \<open>store\<close> never fails on a well-formed vector: it returns a position that was
  free, where the record can be read afterwards, and every record that was stored
  before is still read at its old position.
\<close>

theorem cv_store_fresh:
  assumes "cv_inv v"
  shows "\<exists>v' i. cv_store d v x = Inr (v', i) \<and> cv_inv v' \<and> cv_at v' i = Inr x \<and>
           (\<forall>y. cv_at v i \<noteq> Inr y) \<and> (\<forall>j y. cv_at v j = Inr y \<longrightarrow> cv_at v' j = Inr y)"
proof -
  obtain v' i where *: "cv_store d v x = Inr (v', i)" "cv_inv v'" "cv_view v i = None"
    using cv_wr.storeE [OF assms] by metis
  then show ?thesis
    using cv_wr.store_then_at [OF assms *(1)] cv_wr.at_Inr_iff [OF assms] by auto
qed

definition cv_demo :: "nat cvec" where
  "cv_demo = \<lparr>capacity = 2, available_slots = 0, elems_per_chunk = 2,
     chunk_list = [\<lparr>ch_data = [10, 11], ch_slots = [True, True], ch_first = 2\<rparr>], free_list = []\<rparr>"

lemma cv_demo_inv: "cv_inv cv_demo"
  by (auto simp: cv_inv_def cv_wf_def fl_ok_def cv_demo_def chunk_inv_def free_count_def
      chunk_is_full_def less_Suc_eq numeral_2_eq_2)

theorem cv_store_fresh_witness:
  "\<exists>v' i. cv_store 0 cv_demo 12 = Inr (v', i) \<and> cv_at v' i = Inr 12 \<and> cv_at v' 0 = Inr 10"
proof -
  have "cv_at cv_demo 0 = Inr 10" by (simp add: cv_at_eq cv_demo_def)
  then show ?thesis using cv_store_fresh [OF cv_demo_inv, of 0 12] by blast
qed

text \<open>
  \<open>append\<close> never fails on a well-formed vector: it stores the record in the
  last chunk at a position that was free and keeps every other record.
\<close>

theorem cv_append_at_end:
  assumes "cv_inv v"
  shows "\<exists>v' i. cv_append d v x = Inr (v', i) \<and> cv_inv v' \<and> cv_at v' i = Inr x \<and>
           i < capacity v' \<and> capacity v' \<le> i + elems_per_chunk v \<and>
           (\<forall>y. cv_at v i \<noteq> Inr y) \<and> (\<forall>j y. cv_at v j = Inr y \<longrightarrow> cv_at v' j = Inr y)"
proof -
  obtain v' i where *: "cv_append d v x = Inr (v', i)" "cv_inv v'" "cv_view v i = None"
    "cv_view v' = (cv_view v)(i \<mapsto> x)" "capacity v' \<le> i + elems_per_chunk v"
    using cv_append_spec [OF assms] by blast
  moreover have "i < capacity v'" using *(2,4) cv_wr.view_cap [of v' i] by simp
  ultimately show ?thesis
    using cv_wr.at_Inr_iff [OF assms] cv_wr.at_Inr_iff [OF *(2)] by auto
qed

theorem cv_append_at_end_witness:
  "\<exists>v' i. cv_append 0 cv_demo 12 = Inr (v', i) \<and> cv_at v' i = Inr 12 \<and> i < capacity v'"
  using cv_append_at_end [OF cv_demo_inv, of 0 12] by blast

text \<open>
  \<open>erase\<close> keeps the slot accounting and frees exactly the given position: it
  reads as \<open>unknown_id\<close> afterwards, every other position reads as before; outside
  the capacity \<open>erase\<close> throws \<open>index_out_of_range\<close>.
\<close>

theorem cv_erase_frees_slot:
  assumes "cv_wf v"
  shows "(if i < capacity v
          then \<exists>v'. cv_erase v i = Inr v' \<and> cv_wf v' \<and> cv_at v' i = Inl Unknown_id \<and>
                 (\<forall>j. j \<noteq> i \<longrightarrow> cv_at v' j = cv_at v j)
          else cv_erase v i = Inl Index_out_of_range)"
proof (cases "i < capacity v")
  case True
  with cv_erase_spec [OF assms] obtain v' where v': "cv_erase v i = Inr v'" "cv_wf v'" by blast
  with cv_er.erase_then_at [OF assms v'(1)] True show ?thesis by auto
next
  case False
  then show ?thesis using cv_er.erase_out [OF assms] by simp
qed

theorem cv_erase_frees_slot_witness:
  "\<exists>v'. cv_erase cv_demo 1 = Inr v' \<and> cv_at v' 1 = Inl Unknown_id \<and> cv_at v' 0 = Inr 10"
proof -
  have wf: "cv_wf cv_demo" using cv_demo_inv by (simp add: cv_inv_def)
  have "cv_at cv_demo 0 = Inr 10" "1 < capacity cv_demo" by (simp_all add: cv_at_eq cv_demo_def)
  then show ?thesis using cv_erase_frees_slot [OF wf, of 1] by auto
qed

text \<open>
  The free list is not maintained by element: after erasing slot \<open>p \<noteq> 0\<close> of a
  vector without free slots, the next \<open>store\<close> writes the record to the freed
  position \<open>i\<close> but returns position \<open>i + p\<close>.
\<close>

theorem cv_store_after_erase_position:
  assumes inv: "cv_inv v" and full: "free_list v = []" and i: "i < capacity v"
    and p: "p = i mod elems_per_chunk v" "p \<noteq> 0" and e: "cv_erase v i = Inr v1"
  shows "\<exists>v2. cv_store d v1 x = Inr (v2, i + p) \<and> cv_at v2 i = Inr x"
proof -
  let ?n = "elems_per_chunk v"
  let ?k = "i div ?n"
  let ?ch = "chunk_list v ! ?k"
  from inv have wf: "cv_wf v" and fl: "fl_ok v" by (simp_all add: cv_inv_def)
  have n: "0 < ?n" and k: "?k < length (chunk_list v)"
    using wf i by (simp_all add: cv_wf_pos cv_index_bound)
  have pn: "p < ?n" using n p by simp
  have fullk: "chunk_is_full ?ch" using fl full k by (simp add: fl_ok_def)
  note ci = cv_wf_chunk [OF wf k]
  have used: "ch_slots ?ch ! p" using fullk pn chunk_full_iff [OF ci] by blast
  have first: "ch_first ?ch = ?n" using fullk chunk_full_first [OF ci] by simp
  from e have v1: "v1 = v\<lparr>available_slots := available_slots v + 1,
      chunk_list := (chunk_list v)[?k := chunk_set ?ch p False], free_list := [i]\<rparr>"
    using i wf full fullk used p
    by (simp add: cv_erase_def cv_find_chunk_eq Let_def chunk_is_used_def cv_add_to_free_list_def)
  have wf1: "cv_wf v1" using cv_erase_spec [OF wf i] e by simp
  have k1: "?k < length (chunk_list v1)" and n1: "elems_per_chunk v1 = ?n" using v1 k by simp_all
  have c1: "chunk_list v1 ! ?k = chunk_set ?ch p False" using v1 k by simp
  have "ch_first (chunk_set ?ch p False) = p" using first pn by (simp add: chunk_set_def Let_def)
  moreover have "\<not> chunk_is_full (chunk_set ?ch p False)"
    using chunk_free_not_full [OF chunk_set_inv [OF ci pn] pn, of False] pn
      cv_chunk_lengths [OF wf k] by simp
  ultimately have avail: "chunk_first_available (chunk_list v1 ! ?k) = Some p"
    using chunk_first_available_eq [OF chunk_set_inv [OF ci pn], of False] c1 by simp
  have find: "cv_find_chunk v1 i = Inr ?k" "cv_find_in_free_list v1 = Inr i" "free_list v1 \<noteq> []"
    using k by (simp_all add: v1 cv_find_chunk_def cv_find_in_free_list_def Let_def)
  let ?v3 = "cv_put (v1\<lparr>available_slots := dec64 (available_slots v1)\<rparr>) ?k p x"
  let ?v4 = "if chunk_is_full (chunk_list ?v3 ! ?k) then cv_remove_from_free_list i ?v3 else ?v3"
  have s: "cv_store d v1 x = Inr (?v4, i + p)"
    using find avail by (simp add: cv_store_def cv_fill_first_def Let_def)
  have free1: "\<not> ch_slots (chunk_list v1 ! ?k) ! p"
    using c1 pn cv_chunk_lengths [OF wf k] by simp
  have "cv_view ?v4 i = Some x"
    using cv_view_replace [OF wf1 k1, where b = True and x = x and v' = ?v3 and pos = p] pn n1 p
    by (simp add: cv_remove_from_free_list_def)
  moreover have "cv_wf ?v4"
    using cv_fill_wf [OF wf1 k1 _ free1, of x] pn n1 by (simp add: cv_remove_from_free_list_def)
  ultimately have "cv_at ?v4 i = Inr x" by (simp only: cv_rd.at_Inr_iff)
  then show ?thesis using s by (intro exI [of _ ?v4] conjI)
qed

theorem cv_store_after_erase_position_witness:
  "\<exists>v1 v2. cv_erase cv_demo 1 = Inr v1 \<and> cv_store 0 v1 12 = Inr (v2, 2) \<and> cv_at v2 1 = Inr 12"
proof -
  obtain v1 where v1: "cv_erase cv_demo 1 = Inr v1"
    using cv_erase_spec [of cv_demo 1] cv_demo_inv by (auto simp: cv_inv_def cv_demo_def)
  have "\<exists>v2. cv_store 0 v1 12 = Inr (v2, 1 + 1) \<and> cv_at v2 1 = Inr 12"
    by (rule cv_store_after_erase_position [OF cv_demo_inv _ _ _ _ v1]) (simp_all add: cv_demo_def)
  then show ?thesis using v1 unfolding one_add_one by blast
qed

lemma cv_walk_begin:
  assumes "cv_wf v"
  shows "cv_walk v (cv_begin v) =
           (if chunk_list v \<noteq> [] \<and> chunk_is_empty (hd (chunk_list v)) then []
            else filter (\<lambda>i. cv_view v i \<noteq> None) [0..<capacity v])"
proof (cases "chunk_list v \<noteq> [] \<and> chunk_is_empty (hd (chunk_list v))")
  case True
  then obtain c cs where c: "chunk_list v = c # cs" "chunk_is_empty c" by (cases "chunk_list v") auto
  then have "length (ch_slots c) = elems_per_chunk v" using assms by (auto simp: cv_wf_def chunk_inv_def)
  then have "find (chunk_is_used c) [0..<elems_per_chunk v] = None"
    using c(2) by (simp add: find_upt_None chunk_is_used_def chunk_is_empty_def list_all_nth_iff)
  with True c show ?thesis by (simp add: cv_begin_def)
next
  case False
  let ?N = "length (chunk_list v) * elems_per_chunk v"
  have N: "?N = capacity v" using assms by (simp add: cv_wf_def)
  have "cv_begin v = find (cv_used v) [0..<?N]" using False by (intro cv_begin_used [OF assms]) auto
  then have "cv_walk v (cv_begin v) = filter (cv_used v) [0..<?N]"
    unfolding filter_find_upt [of _ 0]
    by (cases "find (cv_used v) [0..<?N]") (simp_all only: cv_walk_Some cv_walk.simps option.case)
  also have "\<dots> = filter (\<lambda>i. cv_view v i \<noteq> None) [0..<capacity v]"
    unfolding N using cv_used_view [OF assms] by (intro filter_cong) auto
  finally show ?thesis using False by auto
qed

text \<open>
  C39. A loop over the vector from \<open>begin()\<close> to \<open>end()\<close> terminates and visits every used
  position once, in ascending order, unless the first chunk is empty: then
  \<open>begin()\<close> is already \<open>end()\<close> and the loop visits nothing.
\<close>

theorem cv_iteration_complete:
  assumes "cv_wf v"
  shows "cv_walk v (cv_begin v) =
           (if chunk_list v \<noteq> [] \<and> chunk_is_empty (hd (chunk_list v)) then []
            else filter (\<lambda>i. cv_view v i \<noteq> None) [0..<capacity v])"
  by (rule cv_walk_begin [OF assms])

theorem cv_iteration_complete_witness: "cv_walk cv_demo (cv_begin cv_demo) = [0, 1]"
proof -
  have wf: "cv_wf cv_demo" using cv_demo_inv by (simp add: cv_inv_def)
  have "\<not> chunk_is_empty (hd (chunk_list cv_demo))"
    by (auto simp: chunk_is_empty_def cv_demo_def intro: exI [of _ True])
  moreover have "filter (\<lambda>i. cv_view cv_demo i \<noteq> None) [0..<capacity cv_demo] = [0, 1]"
    by (simp add: cv_view_eq cv_demo_def numeral_2_eq_2)
  ultimately show ?thesis using cv_iteration_complete [OF wf] by simp
qed

text \<open>
  \<open>store_at\<close> removes the element's index, not the chunk's, from the free list:
  after it fills the last free slot \<open>p \<noteq> 0\<close> of the only chunk on the free list, the
  next \<open>store\<close> finds that full chunk and fails its assertion.
\<close>

theorem cv_store_at_blocks_store:
  assumes inv: "cv_inv v" and k: "k < length (chunk_list v)"
    and fl: "free_list v = [k * elems_per_chunk v]"
    and p: "p \<noteq> 0" "p < elems_per_chunk v"
    and one: "\<forall>j<elems_per_chunk v. ch_slots (chunk_list v ! k) ! j \<longleftrightarrow> j \<noteq> p"
    and s: "cv_store_at v (k * elems_per_chunk v + p) x = Inr v1"
  shows "cv_store d v1 y = Inl Assertion_failed"
proof -
  let ?n = "elems_per_chunk v" and ?ch = "chunk_list v ! k"
  from inv have wf: "cv_wf v" by (simp add: cv_inv_def)
  have n: "0 < ?n" using wf by (rule cv_wf_pos)
  note d = div_mult_split [OF n p(2), of k] and len = cv_chunk_lengths [OF wf k]
  let ?v1 = "(cv_put v k p x)\<lparr>available_slots := dec64 (available_slots v)\<rparr>"
  have free: "\<not> ch_slots ?ch ! p" using one p by simp
  have full: "chunk_is_full (chunk_list ?v1 ! k)"
  proof -
    have "\<forall>j<?n. (ch_slots ?ch)[p := True] ! j" using one p len by (simp add: nth_list_update)
    then show ?thesis using chunk_full_iff [OF chunk_put_inv [OF cv_wf_chunk [OF wf k] p(2)]] k by simp
  qed
  have find: "cv_find_chunk v (k * ?n + p) = Inr k" using d k by (simp add: cv_find_chunk_def Let_def)
  have v1: "v1 = cv_remove_from_free_list (k * ?n + p) ?v1"
    using s full free p(2) by (simp add: cv_store_at_def find Let_def chunk_is_used_def)
  then have "free_list v1 = [k * ?n]" "chunk_list v1 = chunk_list ?v1" "elems_per_chunk v1 = ?n"
    using fl p(1) by (simp_all add: cv_remove_from_free_list_def)
  moreover have "chunk_first_available (chunk_list ?v1 ! k) = None"
    using full by (simp add: chunk_first_available_def)
  ultimately show ?thesis using k n
    by (simp add: cv_store_def cv_find_in_free_list_def cv_find_chunk_def cv_fill_first_def Let_def)
qed

definition cv_demo2 :: "nat cvec" where
  "cv_demo2 = \<lparr>capacity = 2, available_slots = 1, elems_per_chunk = 2,
     chunk_list = [\<lparr>ch_data = [10, 0], ch_slots = [True, False], ch_first = 1\<rparr>], free_list = [0]\<rparr>"

lemma cv_demo2_inv: "cv_inv cv_demo2"
  by (auto simp: cv_inv_def cv_wf_def fl_ok_def cv_demo2_def chunk_inv_def free_count_def
      chunk_is_full_def less_Suc_eq numeral_2_eq_2)

theorem cv_store_at_blocks_store_witness:
  "\<exists>v1. cv_store_at cv_demo2 1 11 = Inr v1 \<and> cv_store 0 v1 12 = Inl Assertion_failed"
proof -
  obtain v1 where v1: "cv_store_at cv_demo2 1 11 = Inr v1"
    using cv_store_at_spec [of cv_demo2 1 11] cv_demo2_inv by (auto simp: cv_inv_def cv_demo2_def)
  have "cv_store 0 v1 12 = Inl Assertion_failed"
    by (rule cv_store_at_blocks_store [OF cv_demo2_inv, of 0 1 11])
      (use v1 in \<open>simp_all add: cv_demo2_def less_Suc_eq numeral_2_eq_2\<close>)
  with v1 show ?thesis by blast
qed

text \<open>
  \<open>first_available\<close> returns the least free position of the vector, and \<open>UNKNOWN\<close>
  exactly when no slot is counted as available.
\<close>

theorem cv_first_available_least:
  assumes "cv_wf v" "capacity v \<le> UNKNOWN"
  shows "cv_first_available v = (if \<exists>i<capacity v. cv_view v i = None
           then LEAST i. cv_view v i = None else UNKNOWN)"
proof (cases "available_slots v = 0")
  case True
  then have "\<forall>c\<in>set (chunk_list v). chunk_is_full c"
    using assms(1) by (simp add: cv_wf_def chunk_full_count)
  then have "ch_slots (chunk_list v ! (i div elems_per_chunk v)) ! (i mod elems_per_chunk v)"
    if "i < capacity v" for i
    using that assms(1) chunk_full_iff [OF cv_wf_chunk [OF assms(1)], of "i div elems_per_chunk v"]
    by (simp add: cv_index_bound cv_wf_pos)
  then have "\<not> (\<exists>i<capacity v. cv_view v i = None)"
    using assms(1) by (auto simp: cv_view_eq cv_index_bound)
  then show ?thesis using True by (auto simp: cv_first_available_def)
next
  case False
  note f = cv_first_available_spec [OF assms(1) False]
  have "(LEAST i. cv_view v i = None) = cv_first_available v"
  proof (rule Least_equality)
    show "cv_first_available v \<le> y" if "cv_view v y = None" for y
      using that f(3) [of y] by (cases "y < cv_first_available v") auto
  qed (rule f(2))
  then show ?thesis using f(1,2) by auto
qed

theorem cv_first_available_least_witness:
  "cv_first_available cv_demo = UNKNOWN \<and> cv_first_available cv_demo2 = 1"
proof -
  have wf: "cv_wf cv_demo" "cv_wf cv_demo2"
    using cv_demo_inv cv_demo2_inv by (simp_all add: cv_inv_def)
  have c: "capacity cv_demo \<le> UNKNOWN" "capacity cv_demo2 \<le> UNKNOWN"
    by (simp_all add: cv_demo_def cv_demo2_def UNKNOWN_def)
  have "cv_view cv_demo 0 = Some 10" "cv_view cv_demo 1 = Some 11" "capacity cv_demo = 2"
    by (simp_all add: cv_view_eq cv_demo_def)
  then have "\<not> (\<exists>i<capacity cv_demo. cv_view cv_demo i = None)"
    by (auto simp: less_Suc_eq numeral_2_eq_2)
  moreover have "cv_view cv_demo2 1 = None" "cv_view cv_demo2 0 \<noteq> None" "1 < capacity cv_demo2"
    by (simp_all add: cv_view_eq cv_demo2_def)
  moreover from this have "(LEAST i. cv_view cv_demo2 i = None) = 1"
    by (intro Least_equality) (auto simp: Suc_le_eq intro: gr0I)
  ultimately show ?thesis
    using cv_first_available_least [OF wf(1) c(1)] cv_first_available_least [OF wf(2) c(2)] by auto
qed

end
