(* ===== verification/Graph_Objects.thy ===== *)
theory Graph_Objects
  imports Txn Chunked_Vec
begin

text \<open>
  Nodes and relationships, \<^verbatim>\<open>src/src/storage/nodes.hpp\<close> and \<^verbatim>\<open>src/src/storage/relationships.hpp\<close>: the bodies of the
  transactional elements and the two tables that hold them, on the in-memory vector.
\<close>

section \<open>Elements\<close>

record node_body =
  nd_id :: offset_t
  nd_from_rships :: offset_t
  nd_to_rships :: offset_t
  nd_property_list :: offset_t
  nd_label :: dcode_t

record rship_body =
  rs_id :: offset_t
  rs_src_node :: offset_t
  rs_dest_node :: offset_t
  rs_next_src :: offset_t
  rs_next_dest :: offset_t
  rs_property_list :: offset_t
  rs_label :: dcode_t

type_synonym node = "node_body object"
type_synonym rship = "rship_body object"

definition node_body_new :: "dcode_t \<Rightarrow> node_body" where
  "node_body_new label = \<lparr>nd_id = UNKNOWN, nd_from_rships = UNKNOWN, nd_to_rships = UNKNOWN,
     nd_property_list = UNKNOWN, nd_label = label\<rparr>"

definition node_new :: "dcode_t \<Rightarrow> node" where
  "node_new label = object_new (node_body_new label)"

definition rship_body_new :: "dcode_t \<Rightarrow> offset_t \<Rightarrow> offset_t \<Rightarrow> rship_body" where
  "rship_body_new label src dest = \<lparr>rs_id = UNKNOWN, rs_src_node = src, rs_dest_node = dest,
     rs_next_src = UNKNOWN, rs_next_dest = UNKNOWN, rs_property_list = UNKNOWN, rs_label = label\<rparr>"

definition rship_new :: "dcode_t \<Rightarrow> offset_t \<Rightarrow> offset_t \<Rightarrow> rship" where
  "rship_new label src dest = object_new (rship_body_new label src dest)"

text \<open>The elements of a fresh chunk: default constructed.\<close>

definition node_blank :: node where
  "node_blank = node_new 0"

definition rship_blank :: rship where
  "rship_blank = rship_new 0 0 0"

definition node_set_id :: "offset_t \<Rightarrow> node \<Rightarrow> node" where
  "node_set_id i n = n\<lparr>o_elem := (o_elem n)\<lparr>body := (body (o_elem n))\<lparr>nd_id := i\<rparr>\<rparr>\<rparr>"

definition rship_set_id :: "offset_t \<Rightarrow> rship \<Rightarrow> rship" where
  "rship_set_id i r = r\<lparr>o_elem := (o_elem r)\<lparr>body := (body (o_elem r))\<lparr>rs_id := i\<rparr>\<rparr>\<rparr>"

definition lock_owner :: "xid_t \<Rightarrow> 'b object \<Rightarrow> 'b object" where
  "lock_owner owner ob = (if owner \<noteq> 0 then ob\<lparr>o_elem := lock owner (o_elem ob)\<rparr> else ob)"

section \<open>Tables\<close>

text \<open>
  \<open>store\<close> and \<open>append\<close> of the vector return the position and a pointer to the stored record, through which the
  caller completes the record (its id, the lock of the owner). The position does not depend on the record,
  so storing the completed record is the same: \<open>put_completed\<close>.
\<close>

definition put_completed :: "('a \<Rightarrow> ('a cvec \<times> nat) result) \<Rightarrow> (nat \<Rightarrow> 'a \<Rightarrow> 'a) \<Rightarrow> 'a \<Rightarrow> ('a cvec \<times> nat) result" where
  "put_completed put f x = rbind (put x) (\<lambda>(_, i). put (f i x))"

text \<open>\<open>add\<close>: the first available position, after growing a full vector.\<close>

definition table_add :: "'a \<Rightarrow> (nat \<Rightarrow> 'a \<Rightarrow> 'a) \<Rightarrow> 'a \<Rightarrow> 'a cvec \<Rightarrow> ('a cvec \<times> nat) result" where
  "table_add blank f x v =
     (let v1 = (if cv_is_full v then cv_resize blank 1 v else v); i = cv_first_available v1 in
      if i = UNKNOWN then Inl Assertion_failed
      else rbind (cv_store_at v1 i (f i x)) (\<lambda>v2. Inr (v2, i)))"

definition table_get :: "'a cvec \<Rightarrow> offset_t \<Rightarrow> 'a result" where
  "table_get v i = (if capacity v \<le> i then Inl Unknown_id else cv_at v i)"

definition table_remove :: "offset_t \<Rightarrow> 'a cvec \<Rightarrow> 'a cvec result" where
  "table_remove i v = (if capacity v \<le> i then Inl Unknown_id else cv_erase v i)"

definition nl_add :: "node \<Rightarrow> xid_t \<Rightarrow> node cvec \<Rightarrow> (node cvec \<times> nat) result" where
  "nl_add n owner v = table_add node_blank (\<lambda>i n. lock_owner owner (node_set_id i n)) n v"

definition nl_insert :: "node \<Rightarrow> xid_t \<Rightarrow> node cvec \<Rightarrow> (node cvec \<times> nat) result" where
  "nl_insert n owner v = put_completed (cv_store node_blank v) (\<lambda>i n. lock_owner owner (node_set_id i n)) n"

definition nl_append :: "node \<Rightarrow> xid_t \<Rightarrow> node cvec \<Rightarrow> (node cvec \<times> nat) result" where
  "nl_append n owner v = put_completed (cv_append node_blank v) (\<lambda>i n. lock_owner owner (node_set_id i n)) n"

definition rl_add :: "rship \<Rightarrow> xid_t \<Rightarrow> rship cvec \<Rightarrow> (rship cvec \<times> nat) result" where
  "rl_add r owner v = table_add rship_blank (\<lambda>i r. lock_owner owner (rship_set_id i r)) r v"

definition rl_insert :: "rship \<Rightarrow> xid_t \<Rightarrow> rship cvec \<Rightarrow> (rship cvec \<times> nat) result" where
  "rl_insert r owner v = put_completed (cv_store rship_blank v) (\<lambda>i r. lock_owner owner (rship_set_id i r)) r"

definition rl_append :: "rship \<Rightarrow> xid_t \<Rightarrow> rship cvec \<Rightarrow> (rship cvec \<times> nat) result" where
  "rl_append r owner v = put_completed (cv_append rship_blank v) (\<lambda>i r. lock_owner owner (rship_set_id i r)) r"

text \<open>The end of the relationship lists; as for property chains, a longer walk than the table is a cycle.\<close>

fun last_in_list_from :: "nat \<Rightarrow> (rship_body \<Rightarrow> offset_t) \<Rightarrow> rship cvec \<Rightarrow> offset_t \<Rightarrow> offset_t result" where
  "last_in_list_from fuel nxt v i =
     rbind (table_get v i) (\<lambda>r.
     let j = nxt (body (o_elem r)) in
     if j = UNKNOWN then Inr i
     else case fuel of 0 \<Rightarrow> Inl Diverges | Suc n \<Rightarrow> last_in_list_from n nxt v j)"

definition last_in_from_list :: "rship cvec \<Rightarrow> offset_t \<Rightarrow> offset_t result" where
  "last_in_from_list v i = last_in_list_from (capacity v) rs_next_src v i"

definition last_in_to_list :: "rship cvec \<Rightarrow> offset_t \<Rightarrow> offset_t result" where
  "last_in_to_list v i = last_in_list_from (capacity v) rs_next_dest v i"

declare last_in_list_from.simps [simp del]

text \<open>Initialising all records after a restart.\<close>

definition table_runtime_initialize :: "'b object cvec \<Rightarrow> 'b object cvec" where
  "table_runtime_initialize v =
     foldl (\<lambda>u i. case cv_at u i of Inl _ \<Rightarrow> u | Inr ob \<Rightarrow> cv_assign u i (runtime_initialize ob)) v (cv_walk v (cv_begin v))"

section \<open>Lemmas\<close>

lemma cv_fill_first_pos: "cv_fill_first v k idx x = Inr (v1, i) \<Longrightarrow> \<exists>v2. cv_fill_first v k idx y = Inr (v2, i)"
  by (auto simp: cv_fill_first_def Let_def split: option.splits)

lemma cv_store_pos: "cv_store d v x = Inr (v1, i) \<Longrightarrow> \<exists>v2. cv_store d v y = Inr (v2, i)"
  by (auto simp: cv_store_def rbind_eq_Inr_iff Let_def split: if_splits dest: cv_fill_first_pos [where y = y])

lemma put_completed_store:
  assumes "cv_inv v"
  obtains v' i where "put_completed (cv_store d v) f x = Inr (v', i)" "cv_inv v'" "cv_view v i = None"
    "cv_view v' = (cv_view v)(i \<mapsto> f i x)" "capacity v \<le> capacity v'"
proof -
  from cv_store_spec [OF assms, of d x] obtain v1 i where 1: "cv_store d v x = Inr (v1, i)" by blast
  from cv_store_pos [OF 1] obtain v2 where 2: "cv_store d v (f i x) = Inr (v2, i)" by blast
  from cv_store_spec [OF assms, of d "f i x"] 2 have "cv_inv v2" "cv_view v i = None" "cv_view v2 = (cv_view v)(i \<mapsto> f i x)"
    "capacity v \<le> capacity v2" by auto
  with that 1 2 show ?thesis by (simp add: put_completed_def)
qed

lemma table_get_view: "cv_wf v \<Longrightarrow> table_get v i = Inr x \<longleftrightarrow> cv_view v i = Some x"
  using cv_view_dom [of v i x] cv_rd.at_Inr_iff [of v i x] by (auto simp: table_get_def)

end
