(* ===== verification/Walog.thy ===== *)
theory Walog
  imports Graph_Objects
begin

text \<open>
  The write-ahead log of the paged-file configuration, class \<open>wa_log\<close> of \<^verbatim>\<open>src/src/log/walog.cpp\<close>, and the analysis and selection of
  records for recovery, \<^verbatim>\<open>src/src/storage/graph_db_recovery.cpp\<close>.

  The file is the last log sequence number in its header, its length in bytes and the records by the byte offset where they begin;
  the records have the sizes of their C++ structures (16 bytes for the header). Writing at an offset destroys the records it
  overlaps. Reading at an offset where no record begins yields bytes that are no record: undefined in the model. A record that
  ends behind the length of the file is torn, as after a crash. The stream has no buffer, so every write reaches the file, and the
  iterator shares its position with the log. Members of a record that are not initialised are \<open>None\<close>.
\<close>

section \<open>Records\<close>

datatype log_tx_type = Log_bot | Log_commit | Log_abort
datatype log_entry_type = Log_insert | Log_update | Log_delete

record node_image =
  ni_label :: dcode_t
  ni_from_rships :: offset_t
  ni_to_rships :: offset_t
  ni_property_list :: offset_t

record rship_image =
  ri_label :: dcode_t
  ri_src_node :: offset_t
  ri_dest_node :: offset_t
  ri_next_src :: offset_t
  ri_next_dest :: offset_t

datatype log_body =
    Tx_record log_tx_type
  | Node_record log_entry_type offset_t "node_image option" "node_image option"
  | Rship_record log_entry_type offset_t "rship_image option" "rship_image option"
  | Dict_record dcode_t string
  | Chkpt_record

record log_record =
  lr_lsn :: nat
  lr_tx :: xid_t
  lr_prev :: "nat option"
  lr_body :: log_body

definition header_size :: nat where
  "header_size = 16"

fun body_size :: "log_body \<Rightarrow> nat" where
  "body_size (Tx_record _) = 40"
| "body_size (Node_record _ _ _ _) = 104"
| "body_size (Rship_record _ _ _ _) = 120"
| "body_size (Dict_record _ _) = 1064"
| "body_size Chkpt_record = 32"

abbreviation rec_size :: "log_record \<Rightarrow> nat" where
  "rec_size r \<equiv> body_size (lr_body r)"

text \<open>\<open>obj_type\<close> is \<open>log_none\<close> for the records of transactions and checkpoints.\<close>

fun is_object_record :: "log_body \<Rightarrow> bool" where
  "is_object_record (Tx_record _) = False"
| "is_object_record Chkpt_record = False"
| "is_object_record _ = True"

definition node_image_of :: "node_body \<Rightarrow> node_image" where
  "node_image_of b = \<lparr>ni_label = nd_label b, ni_from_rships = nd_from_rships b, ni_to_rships = nd_to_rships b, ni_property_list = nd_property_list b\<rparr>"

definition rship_image_of :: "rship_body \<Rightarrow> rship_image" where
  "rship_image_of b = \<lparr>ri_label = rs_label b, ri_src_node = rs_src_node b, ri_dest_node = rs_dest_node b, ri_next_src = rs_next_src b, ri_next_dest = rs_next_dest b\<rparr>"

definition create_insert_node_record :: "node_body version \<Rightarrow> log_body" where
  "create_insert_node_record dn = Node_record Log_insert (nd_id (body (v_elem dn))) None (Some (node_image_of (body (v_elem dn))))"

definition create_delete_node_record :: "node_body \<Rightarrow> log_body" where
  "create_delete_node_record b = Node_record Log_delete (nd_id b) (Some (node_image_of b)) None"

definition create_update_node_record :: "node_body \<Rightarrow> node_body version \<Rightarrow> log_body" where
  "create_update_node_record b dn = Node_record Log_update (nd_id b) (Some (node_image_of b)) (Some (node_image_of (body (v_elem dn))))"

definition create_insert_rship_record :: "rship_body version \<Rightarrow> log_body" where
  "create_insert_rship_record dr = Rship_record Log_insert (rs_id (body (v_elem dr))) None (Some (rship_image_of (body (v_elem dr))))"

definition create_delete_rship_record :: "rship_body \<Rightarrow> log_body" where
  "create_delete_rship_record b = Rship_record Log_delete (rs_id b) (Some (rship_image_of b)) None"

definition create_update_rship_record :: "rship_body \<Rightarrow> rship_body version \<Rightarrow> log_body" where
  "create_update_rship_record b dr = Rship_record Log_update (rs_id b) (Some (rship_image_of b)) (Some (rship_image_of (body (v_elem dr))))"

text \<open>\<open>strcpy\<close> into a field of 1024 characters; the terminating zero needs one of them.\<close>

definition create_dict_record :: "dcode_t \<Rightarrow> string \<Rightarrow> log_body result" where
  "create_dict_record c s = (if length s < 1024 then Inr (Dict_record c s) else Inl Undefined_behaviour)"

section \<open>The log\<close>

record wal_file =
  wf_magic :: bool
  wf_lsn :: nat
  wf_len :: nat
  wf_recs :: "nat \<Rightarrow> log_record option"

record wa_log =
  wl_file :: wal_file
  wl_fp :: "nat option"
  wl_lsn :: nat
  wl_offsets :: "xid_t \<Rightarrow> nat option"

definition wf_write :: "nat \<Rightarrow> log_record \<Rightarrow> wal_file \<Rightarrow> wal_file" where
  "wf_write p r f = f\<lparr>wf_len := max (wf_len f) (p + rec_size r),
     wf_recs := (\<lambda>q. case wf_recs f q of None \<Rightarrow> None
       | Some r' \<Rightarrow> if q < p + rec_size r \<and> p < q + rec_size r' then None else Some r')(p \<mapsto> r)\<rparr>"

text \<open>Opening: \<open>None\<close> for a file that does not exist. A file without a valid header leaves the stream closed.\<close>

definition wal_open :: "wal_file option \<Rightarrow> wa_log" where
  "wal_open fo =
     (case fo of
        None \<Rightarrow> \<lparr>wl_file = \<lparr>wf_magic = True, wf_lsn = 0, wf_len = header_size, wf_recs = Map.empty\<rparr>,
                 wl_fp = Some header_size, wl_lsn = 0, wl_offsets = Map.empty\<rparr>
      | Some f \<Rightarrow> \<lparr>wl_file = f, wl_fp = (if wf_magic f \<and> header_size \<le> wf_len f then Some (wf_len f) else None),
                   wl_lsn = wf_lsn f, wl_offsets = Map.empty\<rparr>)"

definition wal_close :: "bool \<Rightarrow> wa_log \<Rightarrow> wa_log" where
  "wal_close trunc w =
     (case wl_fp w of
        None \<Rightarrow> w
      | Some _ \<Rightarrow>
          let f = (wl_file w)\<lparr>wf_lsn := wl_lsn w\<rparr> in
          w\<lparr>wl_file := (if trunc then f\<lparr>wf_len := header_size, wf_recs := Map.empty\<rparr> else f), wl_fp := None\<rparr>)"

definition next_lsn :: "wa_log \<Rightarrow> nat \<times> wa_log" where
  "next_lsn w = (let l = Suc (wl_lsn w) mod 2 ^ 64 in (l, w\<lparr>wl_lsn := l\<rparr>))"

definition wal_append_raw :: "log_record \<Rightarrow> wa_log \<Rightarrow> wa_log result" where
  "wal_append_raw r w =
     (case wl_fp w of None \<Rightarrow> Inl Undefined_behaviour
      | Some p \<Rightarrow> Inr (w\<lparr>wl_file := wf_write p r (wl_file w), wl_fp := Some (p + rec_size r)\<rparr>))"

definition wal_tell :: "wa_log \<Rightarrow> nat result" where
  "wal_tell w = (case wl_fp w of None \<Rightarrow> Inl Undefined_behaviour | Some p \<Rightarrow> Inr p)"

definition wal_transaction_begin :: "xid_t \<Rightarrow> wa_log \<Rightarrow> wa_log result" where
  "wal_transaction_begin x w =
     (let (l, w1) = next_lsn w in
      rbind (wal_tell w1) (\<lambda>p.
      let w2 = (if wl_offsets w1 x = None then w1\<lparr>wl_offsets := (wl_offsets w1)(x \<mapsto> p)\<rparr> else w1) in
      wal_append_raw \<lparr>lr_lsn = l, lr_tx = x, lr_prev = Some 0, lr_body = Tx_record Log_bot\<rparr> w2))"

definition wal_transaction_end :: "log_tx_type \<Rightarrow> xid_t \<Rightarrow> wa_log \<Rightarrow> wa_log result" where
  "wal_transaction_end cmd x w =
     (let (l, w1) = next_lsn w in
      rbind (wal_append_raw \<lparr>lr_lsn = l, lr_tx = x,
               lr_prev = Some (case wl_offsets w1 x of None \<Rightarrow> 0 | Some p \<Rightarrow> p), lr_body = Tx_record cmd\<rparr> w1) (\<lambda>w2.
      Inr (w2\<lparr>wl_offsets := (wl_offsets w2)(x := None)\<rparr>)))"

definition wal_transaction_commit :: "xid_t \<Rightarrow> wa_log \<Rightarrow> wa_log result" where
  "wal_transaction_commit = wal_transaction_end Log_commit"

definition wal_transaction_abort :: "xid_t \<Rightarrow> wa_log \<Rightarrow> wa_log result" where
  "wal_transaction_abort = wal_transaction_end Log_abort"

definition wal_append :: "xid_t \<Rightarrow> log_body \<Rightarrow> wa_log \<Rightarrow> wa_log result" where
  "wal_append x b w =
     (let (l, w1) = next_lsn w in
      rbind (wal_tell w1) (\<lambda>p.
      wal_append_raw \<lparr>lr_lsn = l, lr_tx = x, lr_prev = wl_offsets w1 x, lr_body = b\<rparr>
        (w1\<lparr>wl_offsets := (wl_offsets w1)(x \<mapsto> p)\<rparr>)))"

definition wal_checkpoint :: "wa_log \<Rightarrow> wa_log result" where
  "wal_checkpoint w =
     rbind (wal_tell w) (\<lambda>_.
     let w0 = w\<lparr>wl_fp := Some (wf_len (wl_file w))\<rparr>; (l, w1) = next_lsn w0 in
     wal_append_raw \<lparr>lr_lsn = l, lr_tx = 0, lr_prev = Some 0, lr_body = Chkpt_record\<rparr> w1)"

section \<open>Reading\<close>

text \<open>The next entry of the iterator and the position behind it; \<open>None\<close> at the end of the file or at a torn record.\<close>

definition read_log_entry :: "wal_file \<Rightarrow> nat \<Rightarrow> (log_record \<times> nat) option result" where
  "read_log_entry f p =
     (if wf_len f \<le> p then Inr None
      else case wf_recs f p of
        None \<Rightarrow> Inl Undefined_behaviour
      | Some r \<Rightarrow> Inr (if p + rec_size r \<le> wf_len f then Some (r, p + rec_size r) else None))"

function log_entries_from :: "wal_file \<Rightarrow> nat \<Rightarrow> (nat \<times> log_record) list result" where
  "log_entries_from f p =
     rbind (read_log_entry f p) (\<lambda>e.
       case e of None \<Rightarrow> Inr []
       | Some (r, q) \<Rightarrow> if p < q then rbind (log_entries_from f q) (\<lambda>es. Inr ((p, r) # es)) else Inl Diverges)"
  by pat_completeness auto
termination
  by (relation "measure (\<lambda>(f, p). wf_len f - p)") (auto simp: read_log_entry_def split: if_splits option.splits)

declare log_entries_from.simps [simp del]

text \<open>A loop from \<open>log_begin()\<close> to \<open>log_end()\<close>: the entries it sees; the stream is at the end of the file afterwards.\<close>

definition log_entries :: "wa_log \<Rightarrow> ((nat \<times> log_record) list \<times> wa_log) result" where
  "log_entries w =
     rbind (wal_tell w) (\<lambda>_.
     rbind (log_entries_from (wl_file w) header_size) (\<lambda>es. Inr (es, w\<lparr>wl_fp := Some (wf_len (wl_file w))\<rparr>)))"

text \<open>
  \<open>fetch_record\<close> moves the stream and copies a record into a buffer of the size of a relationship record; a dictionary record does
  not fit. A record with \<open>log_none\<close> is taken for one of a transaction. A position behind the end leaves the buffer as it was (\<open>None\<close>).
\<close>

definition get_record :: "nat \<Rightarrow> wa_log \<Rightarrow> (log_record option \<times> wa_log) result" where
  "get_record p w =
     rbind (wal_tell w) (\<lambda>_.
     let len = wf_len (wl_file w) in
     if len \<le> p then Inr (None, w\<lparr>wl_fp := Some p\<rparr>)
     else case wf_recs (wl_file w) p of
       None \<Rightarrow> Inl Undefined_behaviour
     | Some r \<Rightarrow>
         if 120 < rec_size r then Inl Undefined_behaviour
         else Inr (Some r, w\<lparr>wl_fp := Some (min (p + (if is_object_record (lr_body r) then rec_size r else 40)) len)\<rparr>))"

section \<open>Recovery\<close>

text \<open>Analysis: the last position of every transaction without commit, and the sequence number of the last checkpoint.\<close>

fun analyze_entry :: "nat \<times> log_record \<Rightarrow> (xid_t \<Rightarrow> nat option) \<times> nat \<Rightarrow> (xid_t \<Rightarrow> nat option) \<times> nat" where
  "analyze_entry (p, r) (losers, max_lsn) =
     (case lr_body r of
        Tx_record Log_bot \<Rightarrow> (if losers (lr_tx r) = None then losers(lr_tx r \<mapsto> p) else losers, max_lsn)
      | Tx_record Log_commit \<Rightarrow> (losers(lr_tx r := None), max_lsn)
      | Tx_record Log_abort \<Rightarrow> (losers(lr_tx r \<mapsto> p), max_lsn)
      | Chkpt_record \<Rightarrow> (losers, lr_lsn r)
      | _ \<Rightarrow> (losers(lr_tx r \<mapsto> p), max_lsn))"

definition analyze :: "(nat \<times> log_record) list \<Rightarrow> (xid_t \<Rightarrow> nat option) \<times> nat" where
  "analyze es = foldl (\<lambda>a e. analyze_entry e a) (Map.empty, 0) es"

text \<open>The entries that are applied again.\<close>

definition redo_entries :: "(nat \<times> log_record) list \<Rightarrow> (nat \<times> log_record) list" where
  "redo_entries es = filter (\<lambda>(p, r). snd (analyze es) < lr_lsn r \<and> is_object_record (lr_body r)) es"

section \<open>Contents of the log\<close>

text \<open>The records of an intact file follow one another from the header to the end.\<close>

fun tiles :: "nat \<Rightarrow> (nat \<times> log_record) list \<Rightarrow> nat \<Rightarrow> bool" where
  "tiles p [] e \<longleftrightarrow> p = e"
| "tiles p ((q, r) # es) e \<longleftrightarrow> q = p \<and> tiles (p + rec_size r) es e"

definition wf_inv :: "wal_file \<Rightarrow> (nat \<times> log_record) list \<Rightarrow> bool" where
  "wf_inv f es \<longleftrightarrow> wf_magic f \<and> tiles header_size es (wf_len f) \<and> wf_recs f = map_of es"

lemma body_size_pos: "0 < body_size b"
  by (cases b) auto

lemma tiles_le: "tiles p es e \<Longrightarrow> p \<le> e"
proof (induction es arbitrary: p)
  case (Cons a es)
  then show ?case by (cases a) fastforce
qed simp

lemma tiles_bounds: "tiles p es e \<Longrightarrow> (q, r) \<in> set es \<Longrightarrow> p \<le> q \<and> q + rec_size r \<le> e"
proof (induction es arbitrary: p)
  case (Cons a es)
  obtain q' r' where a: "a = (q', r')" by (cases a)
  show ?case
  proof (cases "(q, r) = a")
    case True
    then show ?thesis using Cons.prems tiles_le [of "q' + rec_size r'" es e] a by auto
  next
    case False
    then show ?thesis using Cons.IH [of "q' + rec_size r'"] Cons.prems a by auto
  qed
qed simp

lemma tiles_append: "tiles p (es @ es') e \<longleftrightarrow> (\<exists>m. tiles p es m \<and> tiles m es' e)"
  by (induction es arbitrary: p) auto

lemma tiles_head_fresh: "tiles (p + rec_size r) es e \<Longrightarrow> p \<notin> fst ` set es"
proof
  assume t: "tiles (p + rec_size r) es e" and "p \<in> fst ` set es"
  then obtain r' where "(p, r') \<in> set es" by force
  from tiles_bounds [OF t this] body_size_pos [of "lr_body r"] show False by simp
qed

lemma tiles_distinct: "tiles p es e \<Longrightarrow> distinct (map fst es)"
proof (induction es arbitrary: p)
  case (Cons a es)
  then show ?case using tiles_head_fresh by (cases a) auto
qed simp

text \<open>Reading a file that was cut at some length.\<close>

lemma log_entries_cut:
  assumes "tiles p es e" "\<And>q r. (q, r) \<in> set es \<Longrightarrow> wf_recs f q = Some r" "wf_len f \<le> e"
  shows "log_entries_from f p = Inr (takeWhile (\<lambda>(q, r). q + rec_size r \<le> wf_len f) es)"
  using assms
proof (induction es arbitrary: p)
  case Nil
  then show ?case by (subst log_entries_from.simps) (simp add: read_log_entry_def)
next
  case (Cons a es)
  obtain r where a: "a = (p, r)" and t: "tiles (p + rec_size r) es e" using Cons.prems(1) by (cases a) auto
  have r: "wf_recs f p = Some r" using Cons.prems(2) a by simp
  have IH: "log_entries_from f (p + rec_size r) = Inr (takeWhile (\<lambda>(q, r). q + rec_size r \<le> wf_len f) es)"
    using Cons.IH [OF t] Cons.prems(2,3) by simp
  show ?case
    using r IH a body_size_pos [of "lr_body r"] by (auto simp: log_entries_from.simps [of f p] read_log_entry_def)
qed

lemma takeWhile_all: "(\<And>x. x \<in> set xs \<Longrightarrow> P x) \<Longrightarrow> takeWhile P xs = xs"
  by (simp add: takeWhile_eq_all_conv)

lemma wf_inv_entries: "wf_inv f es \<Longrightarrow> log_entries_from f header_size = Inr es"
  using log_entries_cut [of header_size es "wf_len f" f] tiles_distinct [of header_size es "wf_len f"]
    tiles_bounds [of header_size es "wf_len f"]
  by (auto simp: wf_inv_def map_of_is_SomeI intro!: takeWhile_all)

lemma wf_write_inv: "wf_inv f es \<Longrightarrow> wf_inv (wf_write (wf_len f) r f) (es @ [(wf_len f, r)])"
proof -
  assume f: "wf_inv f es"
  then have t: "tiles header_size es (wf_len f)" and m: "wf_recs f = map_of es" by (simp_all add: wf_inv_def)
  have n: "q < wf_len f" "\<not> wf_len f < q + rec_size r'" if "wf_recs f q = Some r'" for q r'
    using that tiles_bounds [OF t, of q r'] body_size_pos [of "lr_body r'"] m by (auto dest!: map_of_SomeD)
  have "wf_recs (wf_write (wf_len f) r f) = map_of (es @ [(wf_len f, r)])"
    using n m by (auto simp: wf_write_def fun_eq_iff map_add_def split: option.splits)
  then show ?thesis using t f by (auto simp: wf_inv_def tiles_append wf_write_def)
qed

text \<open>A log that is open for appending, with its entries.\<close>

definition wal_inv :: "wa_log \<Rightarrow> (nat \<times> log_record) list \<Rightarrow> bool" where
  "wal_inv w es \<longleftrightarrow> wf_inv (wl_file w) es \<and> wl_fp w = Some (wf_len (wl_file w))"

lemma wal_inv_entries: "wal_inv w es \<Longrightarrow> log_entries w = Inr (es, w)"
  using wf_inv_entries [of "wl_file w" es] by (simp add: wal_inv_def log_entries_def wal_tell_def)

text \<open>What an appending operation writes.\<close>

definition new_entry :: "wa_log \<Rightarrow> xid_t \<Rightarrow> nat option \<Rightarrow> log_body \<Rightarrow> nat \<times> log_record" where
  "new_entry w x prev b = (wf_len (wl_file w), \<lparr>lr_lsn = Suc (wl_lsn w) mod 2 ^ 64, lr_tx = x, lr_prev = prev, lr_body = b\<rparr>)"

lemma wal_append_raw_inv:
  "wal_inv w es \<Longrightarrow> \<exists>w'. wal_append_raw r w = Inr w' \<and> wal_inv w' (es @ [(wf_len (wl_file w), r)]) \<and>
     wl_lsn w' = wl_lsn w \<and> wl_offsets w' = wl_offsets w \<and> wf_lsn (wl_file w') = wf_lsn (wl_file w)"
  using wf_write_inv [of "wl_file w" es r] by (auto simp: wal_inv_def wal_append_raw_def wf_write_def)

text \<open>
  The interface of the operations that write to the log: each appends one record, with the next sequence number, and keeps what
  was there; \<open>offs\<close> is its effect on the positions of the transactions.
\<close>

locale log_writer =
  fixes op :: "wa_log \<Rightarrow> wa_log result" and x :: xid_t and prev :: "(xid_t \<Rightarrow> nat option) \<Rightarrow> nat option" and b :: log_body
    and offs :: "nat \<Rightarrow> (xid_t \<Rightarrow> nat option) \<Rightarrow> xid_t \<Rightarrow> nat option"
  assumes writes: "wal_inv w es \<Longrightarrow> \<exists>w'. op w = Inr w' \<and> wal_inv w' (es @ [new_entry w x (prev (wl_offsets w)) b]) \<and>
     wl_lsn w' = Suc (wl_lsn w) mod 2 ^ 64 \<and> wl_offsets w' = offs (wf_len (wl_file w)) (wl_offsets w) \<and> wf_lsn (wl_file w') = wf_lsn (wl_file w)"
begin

lemma writes_entries:
  "wal_inv w es \<Longrightarrow> \<exists>w'. op w = Inr w' \<and> log_entries w' = Inr (es @ [new_entry w x (prev (wl_offsets w)) b], w')"
  using writes wal_inv_entries by blast

end

lemma next_lsn_inv: "wal_inv (w\<lparr>wl_lsn := l, wl_offsets := m\<rparr>) es \<longleftrightarrow> wal_inv w es" "wal_inv (w\<lparr>wl_offsets := m\<rparr>) es \<longleftrightarrow> wal_inv w es"
  "wal_inv (w\<lparr>wl_lsn := l\<rparr>) es \<longleftrightarrow> wal_inv w es"
  by (simp_all add: wal_inv_def)

interpretation lw_begin: log_writer "wal_transaction_begin x" x "\<lambda>_. Some 0" "Tx_record Log_bot" "\<lambda>p m. if m x = None then m(x \<mapsto> p) else m" for x
proof unfold_locales
  fix w es assume w: "wal_inv w es"
  let ?l = "Suc (wl_lsn w) mod 2 ^ 64" and ?p = "wf_len (wl_file w)"
  let ?m = "if wl_offsets w x = None then (wl_offsets w)(x \<mapsto> ?p) else wl_offsets w"
  let ?r = "\<lparr>lr_lsn = ?l, lr_tx = x, lr_prev = Some 0, lr_body = Tx_record Log_bot\<rparr>"
  have "wal_transaction_begin x w = wal_append_raw ?r (w\<lparr>wl_lsn := ?l, wl_offsets := ?m\<rparr>)"
    using w by (simp add: wal_transaction_begin_def next_lsn_def wal_tell_def wal_inv_def Let_def)
  then show "\<exists>w'. wal_transaction_begin x w = Inr w' \<and> wal_inv w' (es @ [new_entry w x (Some 0) (Tx_record Log_bot)]) \<and>
     wl_lsn w' = Suc (wl_lsn w) mod 2 ^ 64 \<and> wl_offsets w' = ?m \<and> wf_lsn (wl_file w') = wf_lsn (wl_file w)"
    using wal_append_raw_inv [of "w\<lparr>wl_lsn := ?l, wl_offsets := ?m\<rparr>" es ?r] w by (auto simp: next_lsn_inv new_entry_def)
qed

interpretation lw_end: log_writer "wal_transaction_end cmd x" x "\<lambda>m. Some (case m x of None \<Rightarrow> 0 | Some p \<Rightarrow> p)" "Tx_record cmd" "\<lambda>p m. m(x := None)" for cmd x
proof unfold_locales
  fix w es assume w: "wal_inv w es"
  let ?l = "Suc (wl_lsn w) mod 2 ^ 64" and ?q = "Some (case wl_offsets w x of None \<Rightarrow> 0 | Some p \<Rightarrow> p)"
  let ?r = "\<lparr>lr_lsn = ?l, lr_tx = x, lr_prev = ?q, lr_body = Tx_record cmd\<rparr>"
  have "wal_transaction_end cmd x w = rbind (wal_append_raw ?r (w\<lparr>wl_lsn := ?l\<rparr>)) (\<lambda>w2. Inr (w2\<lparr>wl_offsets := (wl_offsets w2)(x := None)\<rparr>))"
    by (simp add: wal_transaction_end_def next_lsn_def Let_def)
  then show "\<exists>w'. wal_transaction_end cmd x w = Inr w' \<and> wal_inv w' (es @ [new_entry w x ?q (Tx_record cmd)]) \<and>
     wl_lsn w' = Suc (wl_lsn w) mod 2 ^ 64 \<and> wl_offsets w' = (wl_offsets w)(x := None) \<and> wf_lsn (wl_file w') = wf_lsn (wl_file w)"
    using wal_append_raw_inv [of "w\<lparr>wl_lsn := ?l\<rparr>" es ?r] w by (auto simp: next_lsn_inv new_entry_def)
qed

interpretation lw_append: log_writer "wal_append x b" x "\<lambda>m. m x" b "\<lambda>p m. m(x \<mapsto> p)" for x b
proof unfold_locales
  fix w es assume w: "wal_inv w es"
  let ?l = "Suc (wl_lsn w) mod 2 ^ 64" and ?p = "wf_len (wl_file w)"
  let ?r = "\<lparr>lr_lsn = ?l, lr_tx = x, lr_prev = wl_offsets w x, lr_body = b\<rparr>" and ?m = "(wl_offsets w)(x \<mapsto> ?p)"
  have "wal_append x b w = wal_append_raw ?r (w\<lparr>wl_lsn := ?l, wl_offsets := ?m\<rparr>)"
    using w by (simp add: wal_append_def next_lsn_def wal_tell_def wal_inv_def Let_def)
  then show "\<exists>w'. wal_append x b w = Inr w' \<and> wal_inv w' (es @ [new_entry w x (wl_offsets w x) b]) \<and>
     wl_lsn w' = Suc (wl_lsn w) mod 2 ^ 64 \<and> wl_offsets w' = ?m \<and> wf_lsn (wl_file w') = wf_lsn (wl_file w)"
    using wal_append_raw_inv [of "w\<lparr>wl_lsn := ?l, wl_offsets := ?m\<rparr>" es ?r] w by (auto simp: next_lsn_inv new_entry_def)
qed

interpretation lw_checkpoint: log_writer wal_checkpoint 0 "\<lambda>_. Some 0" Chkpt_record "\<lambda>p m. m"
proof unfold_locales
  fix w es assume w: "wal_inv w es"
  let ?l = "Suc (wl_lsn w) mod 2 ^ 64"
  let ?r = "\<lparr>lr_lsn = ?l, lr_tx = 0, lr_prev = Some 0, lr_body = Chkpt_record\<rparr>"
  have "wal_checkpoint w = wal_append_raw ?r (w\<lparr>wl_lsn := ?l\<rparr>)"
    using w by (simp add: wal_checkpoint_def next_lsn_def wal_tell_def wal_inv_def Let_def wal_append_raw_def)
  then show "\<exists>w'. wal_checkpoint w = Inr w' \<and> wal_inv w' (es @ [new_entry w 0 (Some 0) Chkpt_record]) \<and>
     wl_lsn w' = Suc (wl_lsn w) mod 2 ^ 64 \<and> wl_offsets w' = wl_offsets w \<and> wf_lsn (wl_file w') = wf_lsn (wl_file w)"
    using wal_append_raw_inv [of "w\<lparr>wl_lsn := ?l\<rparr>" es ?r] w by (auto simp: next_lsn_inv new_entry_def)
qed

text \<open>
  C10. What is appended is read back: after a log record was appended to an open log, the iterator sees all entries that it saw before,
  in order, and then the new one, with the transaction, the record and the position of the previous record of the transaction.
\<close>

theorem wal_append_read:
  assumes "wal_inv w es"
  shows "\<exists>w'. wal_append x b w = Inr w' \<and> log_entries w' = Inr (es @ [new_entry w x (wl_offsets w x) b], w')"
  by (rule lw_append.writes_entries [OF assms])

lemma wal_open_inv: "wal_inv (wal_open None) []"
  by (simp add: wal_inv_def wf_inv_def wal_open_def)

theorem wal_append_read_witness:
  "\<exists>w'. wal_append 7 (Dict_record 3 ''knows'') (wal_open None) = Inr w' \<and>
     log_entries w' = Inr ([(16, \<lparr>lr_lsn = 1, lr_tx = 7, lr_prev = None, lr_body = Dict_record 3 ''knows''\<rparr>)], w')"
  using wal_append_read [OF wal_open_inv, of 7 "Dict_record 3 ''knows''"] by (simp add: new_entry_def wal_open_def header_size_def)

section \<open>Runs of the log\<close>

text \<open>
  The states of a log that was created empty: transactions begin once, write while they are active and end; checkpoints are
  written in between.
\<close>

definition tx_entries :: "xid_t \<Rightarrow> (nat \<times> log_record) list \<Rightarrow> (nat \<times> log_record) list" where
  "tx_entries x es = filter (\<lambda>e. lr_tx (snd e) = x) es"

inductive wal_run :: "wa_log \<Rightarrow> (nat \<times> log_record) list \<Rightarrow> bool" where
  run_open: "wal_run (wal_open None) []"
| run_begin: "wal_run w es \<Longrightarrow> x \<noteq> 0 \<Longrightarrow> tx_entries x es = [] \<Longrightarrow> wal_transaction_begin x w = Inr w' \<Longrightarrow>
    log_entries w' = Inr (es', w'') \<Longrightarrow> wal_run w' es'"
| run_append: "wal_run w es \<Longrightarrow> wl_offsets w x \<noteq> None \<Longrightarrow> wal_append x b w = Inr w' \<Longrightarrow>
    log_entries w' = Inr (es', w'') \<Longrightarrow> wal_run w' es'"
| run_commit: "wal_run w es \<Longrightarrow> wl_offsets w x \<noteq> None \<Longrightarrow> wal_transaction_commit x w = Inr w' \<Longrightarrow>
    log_entries w' = Inr (es', w'') \<Longrightarrow> wal_run w' es'"
| run_abort: "wal_run w es \<Longrightarrow> wl_offsets w x \<noteq> None \<Longrightarrow> wal_transaction_abort x w = Inr w' \<Longrightarrow>
    log_entries w' = Inr (es', w'') \<Longrightarrow> wal_run w' es'"
| run_checkpoint: "wal_run w es \<Longrightarrow> wal_checkpoint w = Inr w' \<Longrightarrow>
    log_entries w' = Inr (es', w'') \<Longrightarrow> wal_run w' es'"

text \<open>The records of a transaction are linked from the last to the first.\<close>

fun linked :: "nat \<Rightarrow> (nat \<times> log_record) list \<Rightarrow> bool" where
  "linked q [] \<longleftrightarrow> True"
| "linked q ((p, r) # es) \<longleftrightarrow> lr_prev r = Some q \<and> linked p es"

definition last_pos :: "nat \<Rightarrow> (nat \<times> log_record) list \<Rightarrow> nat" where
  "last_pos q es = (if es = [] then q else fst (last es))"

text \<open>The sequence numbers count the records, as long as they do not wrap.\<close>

definition lsn_seq :: "wa_log \<Rightarrow> (nat \<times> log_record) list \<Rightarrow> bool" where
  "lsn_seq w es \<longleftrightarrow> (length es < 2 ^ 64 \<longrightarrow> wl_lsn w = length es \<and> map (\<lambda>e. lr_lsn (snd e)) es = [1..<Suc (length es)])"

definition run_inv :: "wa_log \<Rightarrow> (nat \<times> log_record) list \<Rightarrow> bool" where
  "run_inv w es \<longleftrightarrow> wal_inv w es \<and> wf_lsn (wl_file w) = 0 \<and>
     lsn_seq w es \<and> wl_offsets w 0 = None \<and>
     (\<forall>x. x \<noteq> 0 \<longrightarrow> linked 0 (tx_entries x es)) \<and>
     (\<forall>x p. wl_offsets w x = Some p \<longrightarrow> tx_entries x es \<noteq> [] \<and> last_pos 0 (tx_entries x es) = p)"

lemma run_inv_active:
  assumes "run_inv w es" "wl_offsets w x = Some q"
  shows "wal_inv w es \<and> x \<noteq> 0 \<and> tx_entries x es \<noteq> [] \<and> last_pos 0 (tx_entries x es) = q"
  using assms by (cases "x = 0") (auto simp: run_inv_def)

lemma lsn_seq_snoc: "lsn_seq w es \<Longrightarrow> wl_lsn w' = Suc (wl_lsn w) mod 2 ^ 64 \<Longrightarrow> lsn_seq w' (es @ [new_entry w x prev b])"
  by (simp add: lsn_seq_def new_entry_def)

lemma linked_snoc: "linked q (es @ [(p, r)]) \<longleftrightarrow> linked q es \<and> lr_prev r = Some (last_pos q es)"
  by (induction es arbitrary: q) (auto simp: last_pos_def)

lemma last_pos_snoc [simp]: "last_pos q (es @ [(p, r)]) = p"
  by (simp add: last_pos_def)

lemma tx_entries_snoc: "tx_entries x (es @ [e]) = (if lr_tx (snd e) = x then tx_entries x es @ [e] else tx_entries x es)"
  by (simp add: tx_entries_def)

text \<open>One step of a run: a record is written whose link is the last position of its transaction.\<close>

lemma run_inv_step:
  assumes "run_inv w es" "wal_inv w' (es @ [new_entry w x prev b])" "wl_lsn w' = Suc (wl_lsn w) mod 2 ^ 64"
    and "wf_lsn (wl_file w') = wf_lsn (wl_file w)" and "x \<noteq> 0 \<Longrightarrow> prev = Some (last_pos 0 (tx_entries x es))"
    and "\<And>y. y \<noteq> x \<Longrightarrow> wl_offsets w' y = wl_offsets w y" "wl_offsets w' x = None \<or> wl_offsets w' x = Some (wf_len (wl_file w)) \<and> x \<noteq> 0"
  shows "run_inv w' (es @ [new_entry w x prev b])"
proof -
  note inv = assms(1) [unfolded run_inv_def]
  let ?e = "new_entry w x prev b"
  have "lsn_seq w' (es @ [?e])" using inv assms(3) by (simp add: lsn_seq_snoc)
  moreover have "linked 0 (tx_entries y (es @ [?e]))" if "y \<noteq> 0" for y
    using inv that assms(5) by (auto simp: tx_entries_snoc linked_snoc new_entry_def)
  moreover have "tx_entries y (es @ [?e]) \<noteq> [] \<and> last_pos 0 (tx_entries y (es @ [?e])) = p" if "wl_offsets w' y = Some p" for y p
  proof (cases "y = x")
    case True
    then show ?thesis using that assms(7) by (auto simp: tx_entries_snoc new_entry_def)
  next
    case False
    then show ?thesis using that assms(6) inv by (auto simp: tx_entries_snoc new_entry_def)
  qed
  moreover have "wl_offsets w' 0 = None" using inv assms(6) [of 0] assms(7) by (cases "x = 0") auto
  moreover have "wf_lsn (wl_file w') = 0" using inv assms(4) by simp
  ultimately show ?thesis using assms(2) unfolding run_inv_def by simp
qed

lemma wal_inv_read: "wal_inv w es \<Longrightarrow> log_entries w = Inr (es', w') \<Longrightarrow> es' = es"
  using wal_inv_entries [of w es] by simp

lemma run_inv_end:
  assumes "run_inv w es" "wl_offsets w x \<noteq> None" "wal_transaction_end cmd x w = Inr w'" "log_entries w' = Inr (es', w'')"
  shows "run_inv w' es'"
proof -
  from assms(2) obtain q where q: "wl_offsets w x = Some q" by blast
  have w: "wal_inv w es" and x: "x \<noteq> 0" "last_pos 0 (tx_entries x es) = q" using run_inv_active [OF assms(1) q] by auto
  from lw_end.writes [OF w, of cmd x] assms(3) q have s: "wal_inv w' (es @ [new_entry w x (Some q) (Tx_record cmd)])"
    "wl_lsn w' = Suc (wl_lsn w) mod 2 ^ 64" "wf_lsn (wl_file w') = wf_lsn (wl_file w)" "wl_offsets w' = (wl_offsets w)(x := None)"
    by auto
  have "run_inv w' (es @ [new_entry w x (Some q) (Tx_record cmd)])"
    by (rule run_inv_step [OF assms(1) s(1-3)]) (use s(4) x in simp_all)
  then show ?thesis using wal_inv_read [OF s(1) assms(4)] by simp
qed

lemma wal_run_inv: "wal_run w es \<Longrightarrow> run_inv w es"
proof (induction rule: wal_run.induct)
  case run_open
  then show ?case by (simp add: run_inv_def wal_open_inv tx_entries_def lsn_seq_def) (simp add: wal_open_def)
next
  case (run_begin w es x w' es' w'')
  from run_begin.IH have w: "wal_inv w es" by (simp add: run_inv_def)
  have n: "wl_offsets w x = None" using run_inv_active [OF run_begin.IH] run_begin.hyps(3) by (cases "wl_offsets w x") auto
  from lw_begin.writes [OF w, of x] run_begin.hyps(4) have s: "wal_inv w' (es @ [new_entry w x (Some 0) (Tx_record Log_bot)])"
    "wl_lsn w' = Suc (wl_lsn w) mod 2 ^ 64" "wf_lsn (wl_file w') = wf_lsn (wl_file w)" "wl_offsets w' = (wl_offsets w)(x \<mapsto> wf_len (wl_file w))"
    using n by auto
  have "run_inv w' (es @ [new_entry w x (Some 0) (Tx_record Log_bot)])"
    by (rule run_inv_step [OF run_begin.IH s(1-3)]) (use s(4) run_begin.hyps in \<open>simp_all add: last_pos_def\<close>)
  then show ?case using wal_inv_read [OF s(1) run_begin.hyps(5)] by simp
next
  case (run_append w es x b w' es' w'')
  from run_append.IH have w: "wal_inv w es" by (simp add: run_inv_def)
  from run_append.hyps(2) obtain q where q: "wl_offsets w x = Some q" by blast
  from lw_append.writes [OF w, of x b] run_append.hyps(3) have s: "wal_inv w' (es @ [new_entry w x (wl_offsets w x) b])"
    "wl_lsn w' = Suc (wl_lsn w) mod 2 ^ 64" "wf_lsn (wl_file w') = wf_lsn (wl_file w)" "wl_offsets w' = (wl_offsets w)(x \<mapsto> wf_len (wl_file w))"
    by auto
  have "x \<noteq> 0" "last_pos 0 (tx_entries x es) = q" using run_inv_active [OF run_append.IH q] by auto
  then have "run_inv w' (es @ [new_entry w x (wl_offsets w x) b])"
    by (intro run_inv_step [OF run_append.IH s(1-3)]) (use s(4) q in simp_all)
  then show ?case using wal_inv_read [OF s(1) run_append.hyps(4)] by simp
next
  case (run_checkpoint w es w' es' w'')
  from run_checkpoint.IH have w: "wal_inv w es" by (simp add: run_inv_def)
  from lw_checkpoint.writes [OF w] run_checkpoint.hyps(2) have s: "wal_inv w' (es @ [new_entry w 0 (Some 0) Chkpt_record])"
    "wl_lsn w' = Suc (wl_lsn w) mod 2 ^ 64" "wf_lsn (wl_file w') = wf_lsn (wl_file w)" "wl_offsets w' = wl_offsets w"
    by auto
  have "run_inv w' (es @ [new_entry w 0 (Some 0) Chkpt_record])"
    by (rule run_inv_step [OF run_checkpoint.IH s(1-3)]) (use s(4) run_checkpoint.IH in \<open>auto simp: run_inv_def\<close>)
  then show ?case using wal_inv_read [OF s(1) run_checkpoint.hyps(3)] by simp
qed (auto simp: wal_transaction_commit_def wal_transaction_abort_def intro: run_inv_end)

lemma wal_run_begin:
  assumes "wal_run w es" "x \<noteq> 0" "tx_entries x es = []"
  shows "\<exists>w'. wal_transaction_begin x w = Inr w' \<and> wal_run w' (es @ [new_entry w x (Some 0) (Tx_record Log_bot)]) \<and>
    wl_offsets w' x = Some (wf_len (wl_file w))"
proof -
  have inv: "run_inv w es" using wal_run_inv [OF assms(1)] .
  have "wl_offsets w x = None" using run_inv_active [OF inv] assms(3) by (cases "wl_offsets w x") auto
  moreover have "wal_inv w es" using inv by (simp add: run_inv_def)
  ultimately show ?thesis using lw_begin.writes [of w es x] wal_inv_entries run_begin [OF assms] by fastforce
qed

lemma wal_run_append:
  assumes "wal_run w es" "wl_offsets w x \<noteq> None"
  shows "\<exists>w'. wal_append x b w = Inr w' \<and> wal_run w' (es @ [new_entry w x (wl_offsets w x) b]) \<and> wl_offsets w' x = Some (wf_len (wl_file w))"
proof -
  have "wal_inv w es" using wal_run_inv [OF assms(1)] by (simp add: run_inv_def)
  then show ?thesis using lw_append.writes [of w es x b] wal_inv_entries run_append [OF assms] by fastforce
qed

lemma wal_run_len: "wal_run w es \<Longrightarrow> tiles header_size es (wf_len (wl_file w))"
  using wal_run_inv [of w es] by (simp add: run_inv_def wal_inv_def wf_inv_def)

text \<open>A run: transaction 7 begins and adds a string to the dictionary.\<close>

definition bot_demo :: "nat \<times> log_record" where
  "bot_demo = (16, \<lparr>lr_lsn = 1, lr_tx = 7, lr_prev = Some 0, lr_body = Tx_record Log_bot\<rparr>)"

definition dict_rec_demo :: "nat \<times> log_record" where
  "dict_rec_demo = (56, \<lparr>lr_lsn = 2, lr_tx = 7, lr_prev = Some 16, lr_body = Dict_record 3 ''knows''\<rparr>)"

lemma wal_demo: obtains w where "wal_run w [bot_demo, dict_rec_demo]" "wl_offsets w 7 = Some 56"
proof -
  have o: "wf_len (wl_file (wal_open None)) = 16" "wl_lsn (wal_open None) = 0" by (simp_all add: wal_open_def header_size_def)
  from wal_run_begin [OF run_open, of 7] o obtain w1 where w1: "wal_run w1 [bot_demo]" "wl_offsets w1 7 = Some 16"
    by (auto simp: tx_entries_def new_entry_def bot_demo_def)
  have l: "wf_len (wl_file w1) = 56" using wal_run_len [OF w1(1)] by (simp add: bot_demo_def header_size_def)
  have "wl_lsn w1 = 1" using wal_run_inv [OF w1(1)] by (simp add: run_inv_def lsn_seq_def)
  then have "new_entry w1 7 (wl_offsets w1 7) (Dict_record 3 ''knows'') = dict_rec_demo"
    using w1(2) l by (simp add: new_entry_def dict_rec_demo_def)
  with wal_run_append [OF w1(1), of 7 "Dict_record 3 ''knows''"] w1(2) l that show ?thesis by auto
qed

section \<open>Properties of the log\<close>

text \<open>Following the links from a position, at most \<open>n\<close> of them; offset 0 ends the list.\<close>

fun follow :: "nat \<Rightarrow> wal_file \<Rightarrow> nat \<Rightarrow> nat list" where
  "follow 0 f p = []"
| "follow (Suc n) f p =
     (if p = 0 then [] else p # (case wf_recs f p of Some r \<Rightarrow> (case lr_prev r of Some q \<Rightarrow> follow n f q | None \<Rightarrow> []) | None \<Rightarrow> []))"

lemma follow_linked:
  assumes "linked 0 es" "\<And>p r. (p, r) \<in> set es \<Longrightarrow> wf_recs f p = Some r \<and> p \<noteq> 0" "length es \<le> n"
  shows "follow n f (last_pos 0 es) = rev (map fst es)"
  using assms
proof (induction es arbitrary: n rule: rev_induct)
  case Nil
  then show ?case by (cases n) (simp_all add: last_pos_def)
next
  case (snoc e es)
  obtain p r where e: "e = (p, r)" by (cases e)
  obtain m where n: "n = Suc m" using snoc.prems(3) by (cases n) auto
  have "linked 0 es" "lr_prev r = Some (last_pos 0 es)" using snoc.prems(1) by (simp_all add: e linked_snoc)
  moreover have "wf_recs f p = Some r" "p \<noteq> 0" using snoc.prems(2) e by auto
  moreover have "follow m f (last_pos 0 es) = rev (map fst es)"
    by (rule snoc.IH) (use snoc.prems calculation(1) n in auto)
  ultimately show ?case by (simp add: e n)
qed

text \<open>
  C16. The records of a transaction are linked: in every run of a log, following \<open>prev_offset\<close> from the last position that the log keeps for
  an active transaction gives the positions of exactly its records, from the last to its begin, whatever other transactions wrote
  in between.
\<close>

theorem wal_links_complete:
  assumes "wal_run w es" "wl_offsets w x = Some p"
  shows "log_entries w = Inr (es, w) \<and> follow (length es) (wl_file w) p = rev (map fst (tx_entries x es))"
proof -
  have inv: "run_inv w es" using wal_run_inv [OF assms(1)] .
  have act: "wal_inv w es" "x \<noteq> 0" "last_pos 0 (tx_entries x es) = p" using run_inv_active [OF inv assms(2)] by auto
  then have t: "tiles header_size es (wf_len (wl_file w))" "wf_recs (wl_file w) = map_of es" by (simp_all add: wal_inv_def wf_inv_def)
  have r: "wf_recs (wl_file w) q = Some r \<and> q \<noteq> 0" if "(q, r) \<in> set (tx_entries x es)" for q r
    using that t tiles_bounds [OF t(1), of q r] tiles_distinct [OF t(1)] by (auto simp: tx_entries_def header_size_def map_of_is_SomeI)
  have "linked 0 (tx_entries x es)" using inv act(2) by (simp add: run_inv_def)
  from follow_linked [OF this r, of "length es"] act(3) wal_inv_entries [OF act(1)] show ?thesis by (simp add: tx_entries_def)
qed

theorem wal_links_complete_witness:
  "\<exists>w. wal_run w [bot_demo, dict_rec_demo] \<and> wl_offsets w 7 = Some 56 \<and> follow 2 (wl_file w) 56 = [56, 16]"
proof -
  obtain w where w: "wal_run w [bot_demo, dict_rec_demo]" "wl_offsets w 7 = Some 56" by (rule wal_demo)
  from wal_links_complete [OF w] w show ?thesis by (auto simp: tx_entries_def bot_demo_def dict_rec_demo_def numeral_2_eq_2)
qed

text \<open>
  Log sequence numbers are the numbers of the records: in every run of a new log the entries have the consecutive sequence numbers
  1, 2, and so on, as long as there are fewer than 2 to the 64 of them.
\<close>

theorem wal_lsn_consecutive:
  assumes "wal_run w es" "length es < 2 ^ 64"
  shows "map (\<lambda>e. lr_lsn (snd e)) es = [1..<Suc (length es)] \<and> wl_lsn w = length es"
  using wal_run_inv [OF assms(1)] assms(2) by (simp add: run_inv_def lsn_seq_def)

theorem wal_lsn_consecutive_witness: "\<exists>w. wal_run w [bot_demo, dict_rec_demo] \<and> wl_lsn w = 2"
proof -
  obtain w where w: "wal_run w [bot_demo, dict_rec_demo]" by (rule wal_demo)
  from wal_lsn_consecutive [OF w] w show ?thesis by auto
qed

text \<open>
  C13. A torn log is readable: if a crash leaves only the first \<open>k\<close> bytes of the file, opening it gives the entries that lie completely in
  these bytes, and no others.
\<close>

theorem wal_torn_prefix:
  assumes "wal_inv w es" "header_size \<le> k" "k \<le> wf_len (wl_file w)"
  shows "\<exists>w'. log_entries (wal_open (Some ((wl_file w)\<lparr>wf_len := k\<rparr>))) = Inr (takeWhile (\<lambda>(p, r). p + rec_size r \<le> k) es, w')"
proof -
  let ?f = "(wl_file w)\<lparr>wf_len := k\<rparr>"
  have t: "tiles header_size es (wf_len (wl_file w))" "wf_recs (wl_file w) = map_of es" "wf_magic (wl_file w)"
    using assms(1) by (simp_all add: wal_inv_def wf_inv_def)
  have "log_entries_from ?f header_size = Inr (takeWhile (\<lambda>(q, r). q + rec_size r \<le> wf_len ?f) es)"
    by (rule log_entries_cut [OF t(1)]) (use t tiles_distinct [OF t(1)] assms(3) in simp_all)
  then show ?thesis using t(3) assms(2) by (simp add: log_entries_def wal_tell_def wal_open_def)
qed

theorem wal_torn_prefix_witness:
  "\<exists>w w'. wal_run w [bot_demo, dict_rec_demo] \<and> log_entries (wal_open (Some ((wl_file w)\<lparr>wf_len := 500\<rparr>))) = Inr ([bot_demo], w')"
proof -
  obtain w where w: "wal_run w [bot_demo, dict_rec_demo]" by (rule wal_demo)
  have "wal_inv w [bot_demo, dict_rec_demo]" using wal_run_inv [OF w] by (simp add: run_inv_def)
  from wal_torn_prefix [OF this, of 500] wal_run_len [OF w] w show ?thesis by (auto simp: bot_demo_def dict_rec_demo_def header_size_def)
qed

text \<open>
  Sequence numbers are reused after a crash: the last number is written to the header of the file only when the log is closed. When
  a new log that was never closed is opened again, the checkpoint that ends recovery gets number 1, so the next recovery
  applies every record before the checkpoint again, except the very first of the log.
\<close>

theorem wal_lsn_reused:
  assumes "wal_run w es" "length es < 2 ^ 64"
  shows "\<exists>w1 w2 c. wal_checkpoint (wal_open (Some (wl_file w))) = Inr w1 \<and> log_entries w1 = Inr (es @ [c], w2) \<and>
     lr_body (snd c) = Chkpt_record \<and> lr_lsn (snd c) = 1 \<and>
     redo_entries (es @ [c]) = filter (\<lambda>e. is_object_record (lr_body (snd e)) \<and> 1 < lr_lsn (snd e)) es"
proof -
  let ?w = "wal_open (Some (wl_file w))"
  have inv: "run_inv w es" using wal_run_inv [OF assms(1)] .
  then have f: "wf_inv (wl_file w) es" "wf_lsn (wl_file w) = 0" by (simp_all add: run_inv_def wal_inv_def)
  then have "wal_inv ?w es" using tiles_le by (auto simp: wal_inv_def wal_open_def wf_inv_def)
  moreover have l: "wl_lsn ?w = 0" using f(2) by (simp add: wal_open_def)
  ultimately obtain w1 where w1: "wal_checkpoint ?w = Inr w1" "log_entries w1 = Inr (es @ [new_entry ?w 0 (Some 0) Chkpt_record], w1)"
    using lw_checkpoint.writes_entries [of ?w es] by auto
  let ?c = "new_entry ?w 0 (Some 0) Chkpt_record"
  have c: "lr_body (snd ?c) = Chkpt_record" "lr_lsn (snd ?c) = 1" using l by (simp_all add: new_entry_def)
  have "snd (analyze (es @ [?c])) = 1" using c by (cases "foldl (\<lambda>a e. analyze_entry e a) (Map.empty, 0) es"; cases ?c) (simp add: analyze_def)
  then have "redo_entries (es @ [?c]) = filter (\<lambda>e. is_object_record (lr_body (snd e)) \<and> 1 < lr_lsn (snd e)) es"
    using c by (auto simp: redo_entries_def case_prod_beta intro: filter_cong)
  with w1 c show ?thesis by blast
qed

theorem wal_lsn_reused_witness:
  "\<exists>w w1 w2 c. wal_run w [bot_demo, dict_rec_demo] \<and> wal_checkpoint (wal_open (Some (wl_file w))) = Inr w1 \<and>
     log_entries w1 = Inr ([bot_demo, dict_rec_demo, c], w2) \<and> lr_lsn (snd c) = 1 \<and> redo_entries [bot_demo, dict_rec_demo, c] = [dict_rec_demo]"
proof -
  obtain w where w: "wal_run w [bot_demo, dict_rec_demo]" by (rule wal_demo)
  from wal_lsn_reused [OF w] obtain w1 w2 c where c: "wal_checkpoint (wal_open (Some (wl_file w))) = Inr w1"
    "log_entries w1 = Inr ([bot_demo, dict_rec_demo] @ [c], w2)" "lr_lsn (snd c) = 1"
    "redo_entries ([bot_demo, dict_rec_demo] @ [c]) = filter (\<lambda>e. is_object_record (lr_body (snd e)) \<and> 1 < lr_lsn (snd e)) [bot_demo, dict_rec_demo]"
    by auto
  have "filter (\<lambda>e. is_object_record (lr_body (snd e)) \<and> 1 < lr_lsn (snd e)) [bot_demo, dict_rec_demo] = [dict_rec_demo]"
    by (simp add: bot_demo_def dict_rec_demo_def)
  then show ?thesis using w c by (intro exI conjI) simp_all
qed

text \<open>The analysis counts a transaction without a commit record among the losers; its records after the last checkpoint are among those the redo loop applies.\<close>

lemma loser_redone:
  assumes "(p, r) \<in> set es" "is_object_record (lr_body r)" "snd (analyze es) < lr_lsn r"
    and "\<forall>e\<in>set es. lr_tx (snd e) = lr_tx r \<longrightarrow> lr_body (snd e) \<noteq> Tx_record Log_commit"
  shows "fst (analyze es) (lr_tx r) \<noteq> None \<and> (p, r) \<in> set (redo_entries es)"
proof
  have "fst (foldl (\<lambda>a e. analyze_entry e a) (m, l) es) (lr_tx r) \<noteq> None"
    if "(p, r) \<in> set es \<or> m (lr_tx r) \<noteq> None" "\<forall>e\<in>set es. lr_tx (snd e) = lr_tx r \<longrightarrow> lr_body (snd e) \<noteq> Tx_record Log_commit" for m l es
    using that
  proof (induction es arbitrary: m l)
    case (Cons e es)
    obtain q s where e: "e = (q, s)" by (cases e)
    obtain m' l' where a: "analyze_entry e (m, l) = (m', l')" by (cases "analyze_entry e (m, l)")
    have "(p, r) \<in> set es \<or> m' (lr_tx r) \<noteq> None"
      using Cons.prems a assms(2) e by (cases "lr_body s") (auto split: log_tx_type.splits if_splits)
    then show ?case using Cons.IH [of m' l'] Cons.prems(2) a by simp
  qed auto
  then show "fst (analyze es) (lr_tx r) \<noteq> None" using assms(1,4) unfolding analyze_def by blast
  show "(p, r) \<in> set (redo_entries es)" using assms(1-3) by (simp add: redo_entries_def)
qed

end
