(* ===== verification/Lru_List.thy ===== *)
theory Lru_List
  imports Prelude
begin

text \<open>
  The replacement list of the buffer pool, \<^verbatim>\<open>src/src/bp_file/lru_list.cpp\<close>: a doubly
  linked list between two sentinels. Nodes live in a store from addresses to nodes
  (address 0 is the null pointer); \<open>delete\<close> removes a node from the store, and every
  access through a null or dangling pointer is \<open>Undefined_behaviour\<close>.
  The representation predicate \<open>lru_rep\<close> relates the store to the list of node
  addresses from the least to the most recently used; each operation refines a
  list operation on it. \<open>clear\<close> is the exception: it leaves the sentinels pointing
  at deleted nodes.
\<close>

section \<open>Nodes and operations\<close>

record lru_node =
  ln_pid :: page_id
  ln_prev :: nat
  ln_next :: nat

record lru_list =
  lru_heap :: "nat \<Rightarrow> lru_node option"
  lru_alloc :: nat
  lru_head :: nat
  lru_tail :: nat
  lru_size :: nat

definition lru_new :: lru_list where
  "lru_new = \<lparr>lru_heap = [1 \<mapsto> \<lparr>ln_pid = UNKNOWN_PID, ln_prev = 0, ln_next = 2\<rparr>,
                          2 \<mapsto> \<lparr>ln_pid = UNKNOWN_PID, ln_prev = 1, ln_next = 0\<rparr>],
              lru_alloc = 3, lru_head = 1, lru_tail = 2, lru_size = 0\<rparr>"

definition ln_deref :: "lru_list \<Rightarrow> nat \<Rightarrow> lru_node result" where
  "ln_deref l a = (case lru_heap l a of None \<Rightarrow> Inl Undefined_behaviour | Some n \<Rightarrow> Inr n)"

definition ln_set_next :: "nat \<Rightarrow> nat \<Rightarrow> lru_list \<Rightarrow> lru_list result" where
  "ln_set_next a b l = rbind (ln_deref l a) (\<lambda>n.
     Inr (l\<lparr>lru_heap := (lru_heap l)(a \<mapsto> n\<lparr>ln_next := b\<rparr>)\<rparr>))"

definition ln_set_prev :: "nat \<Rightarrow> nat \<Rightarrow> lru_list \<Rightarrow> lru_list result" where
  "ln_set_prev a b l = rbind (ln_deref l a) (\<lambda>n.
     Inr (l\<lparr>lru_heap := (lru_heap l)(a \<mapsto> n\<lparr>ln_prev := b\<rparr>)\<rparr>))"

definition ln_alloc :: "page_id \<Rightarrow> lru_list \<Rightarrow> lru_list \<times> nat" where
  "ln_alloc pid l =
     (l\<lparr>lru_heap := (lru_heap l)(lru_alloc l \<mapsto> \<lparr>ln_pid = pid, ln_prev = 0, ln_next = 0\<rparr>),
        lru_alloc := Suc (lru_alloc l)\<rparr>, lru_alloc l)"

text \<open>The four pointer assignments that put node \<open>n\<close> in front of the tail sentinel.\<close>

definition lru_link_mru :: "nat \<Rightarrow> lru_list \<Rightarrow> lru_list result" where
  "lru_link_mru n l =
     rbind (ln_set_next n (lru_tail l) l) (\<lambda>l1.
     rbind (ln_deref l1 (lru_tail l1)) (\<lambda>t.
     rbind (ln_set_prev n (ln_prev t) l1) (\<lambda>l2.
     rbind (ln_deref l2 (lru_tail l2)) (\<lambda>t2.
     rbind (ln_set_next (ln_prev t2) n l2) (\<lambda>l3.
     ln_set_prev (lru_tail l3) n l3)))))"

definition lru_add_to_mru :: "page_id \<Rightarrow> lru_list \<Rightarrow> (lru_list \<times> nat) result" where
  "lru_add_to_mru pid l =
     (let (l0, n) = ln_alloc pid l in
      rbind (lru_link_mru n l0) (\<lambda>l1. Inr (l1\<lparr>lru_size := lru_size l1 + 1\<rparr>, n)))"

definition lru_add_to_lru :: "page_id \<Rightarrow> lru_list \<Rightarrow> (lru_list \<times> nat) result" where
  "lru_add_to_lru pid l =
     (let (l0, n) = ln_alloc pid l in
      rbind (ln_set_prev n (lru_head l0) l0) (\<lambda>l1.
      rbind (ln_deref l1 (lru_head l1)) (\<lambda>h.
      rbind (ln_set_next n (ln_next h) l1) (\<lambda>l2.
      rbind (ln_deref l2 (lru_head l2)) (\<lambda>h2.
      rbind (ln_set_prev (ln_next h2) n l2) (\<lambda>l3.
      rbind (ln_set_next (lru_head l3) n l3) (\<lambda>l4.
      Inr (l4\<lparr>lru_size := lru_size l4 + 1\<rparr>, n))))))))"

definition lru_lru :: "lru_list \<Rightarrow> nat result" where
  "lru_lru l = rbind (ln_deref l (lru_head l)) (\<lambda>h. Inr (ln_next h))"

text \<open>Taking a node out of the chain: its neighbours are linked to each other.\<close>

definition lru_unlink :: "nat \<Rightarrow> lru_list \<Rightarrow> lru_list result" where
  "lru_unlink n l =
     rbind (ln_deref l n) (\<lambda>nd.
     rbind (ln_set_next (ln_prev nd) (ln_next nd) l) (\<lambda>l1.
     ln_set_prev (ln_next nd) (ln_prev nd) l1))"

definition lru_move_to_mru :: "nat \<Rightarrow> lru_list \<Rightarrow> lru_list result" where
  "lru_move_to_mru n l = rbind (lru_unlink n l) (lru_link_mru n)"

text \<open>\<open>size_\<close> is unsigned: the decrement wraps. The node itself is not deleted.\<close>

definition lru_remove :: "nat \<Rightarrow> lru_list \<Rightarrow> lru_list result" where
  "lru_remove n l = rbind (lru_unlink n l) (\<lambda>l1. Inr (l1\<lparr>lru_size := dec64 (lru_size l1)\<rparr>))"

definition lru_remove_lru_node :: "lru_list \<Rightarrow> (lru_list \<times> page_id) result" where
  "lru_remove_lru_node l =
     (if lru_size l = 0 then Inr (l, UNKNOWN_PID)
      else
        rbind (lru_lru l) (\<lambda>n.
        rbind (ln_deref l n) (\<lambda>nd.
        rbind (ln_set_prev (ln_next nd) (lru_head l) l) (\<lambda>l1.
        rbind (ln_deref l1 n) (\<lambda>nd1.
        rbind (ln_set_next (lru_head l1) (ln_next nd1) l1) (\<lambda>l2.
        Inr (l2\<lparr>lru_heap := (lru_heap l2)(n := None), lru_size := dec64 (lru_size l2)\<rparr>,
             ln_pid nd1)))))))"

text \<open>
  The loop of \<open>clear\<close>, with fuel: each round deletes a node, so the number of
  allocated addresses bounds the rounds.
\<close>

fun lru_clear_loop :: "nat \<Rightarrow> nat \<Rightarrow> lru_list \<Rightarrow> lru_list result" where
  "lru_clear_loop 0 n l = Inl Undefined_behaviour"
| "lru_clear_loop (Suc fuel) n l =
     (if n = lru_tail l then Inr l
      else rbind (ln_deref l n) (\<lambda>nd.
           lru_clear_loop fuel (ln_next nd) (l\<lparr>lru_heap := (lru_heap l)(n := None)\<rparr>)))"

definition lru_clear :: "lru_list \<Rightarrow> lru_list result" where
  "lru_clear l =
     rbind (lru_lru l) (\<lambda>n.
     rbind (lru_clear_loop (lru_alloc l) n l) (\<lambda>l1. Inr (l1\<lparr>lru_size := 0\<rparr>)))"

text \<open>The page ids the iterator of the pool yields, from the LRU to the MRU end.\<close>

fun lru_iter :: "nat \<Rightarrow> nat \<Rightarrow> lru_list \<Rightarrow> page_id list result" where
  "lru_iter 0 n l = Inl Undefined_behaviour"
| "lru_iter (Suc fuel) n l =
     (if n = lru_tail l then Inr []
      else rbind (ln_deref l n) (\<lambda>nd.
           rbind (lru_iter fuel (ln_next nd) l) (\<lambda>ps. Inr (ln_pid nd # ps))))"

definition lru_pids :: "lru_list \<Rightarrow> page_id list result" where
  "lru_pids l = rbind (lru_lru l) (\<lambda>n. lru_iter (lru_alloc l) n l)"

section \<open>Chains\<close>

fun dll :: "(nat \<Rightarrow> lru_node option) \<Rightarrow> nat list \<Rightarrow> bool" where
  "dll h [] = True"
| "dll h [a] = (h a \<noteq> None)"
| "dll h (a # b # xs) =
     (\<exists>na nb. h a = Some na \<and> ln_next na = b \<and> h b = Some nb \<and> ln_prev nb = a \<and> dll h (b # xs))"

lemma dll_append: "dll h (xs @ a # ys) \<longleftrightarrow> dll h (xs @ [a]) \<and> dll h (a # ys)"
  by (induction h xs rule: dll.induct) (auto, (cases ys; auto)+)

lemma dll_Cons_append: "dll h (b # xs @ a # ys) \<longleftrightarrow> dll h (b # xs @ [a]) \<and> dll h (a # ys)"
  using dll_append [of h "b # xs" a ys] by simp

lemma dll_dom: "dll h xs \<Longrightarrow> a \<in> set xs \<Longrightarrow> h a \<noteq> None"
  by (induction h xs rule: dll.induct) auto

lemma dll_cong: "(\<And>a. a \<in> set xs \<Longrightarrow> h a = h' a) \<Longrightarrow> dll h xs = dll h' xs"
  by (induction h xs rule: dll.induct) auto

lemma dll_upd_other: "a \<notin> set xs \<Longrightarrow> dll (h(a := v)) xs = dll h xs"
  by (rule dll_cong) auto

text \<open>Only the forward pointer of the last node and the backward pointer of the first are free.\<close>

lemma dll_upd_last:
  assumes "a \<notin> set xs" "h a = Some na"
  shows "dll (h(a \<mapsto> na\<lparr>ln_next := b\<rparr>)) (xs @ [a]) = dll h (xs @ [a])"
  using assms by (induction h xs rule: dll.induct) auto

lemma dll_upd_first:
  assumes "a \<notin> set xs" "h a = Some na"
  shows "dll (h(a \<mapsto> na\<lparr>ln_prev := b\<rparr>)) (a # xs) = dll h (a # xs)"
  using assms dll_upd_other [of a xs h] by (cases xs) auto

definition link :: "(nat \<Rightarrow> lru_node option) \<Rightarrow> nat \<Rightarrow> nat \<Rightarrow> (nat \<Rightarrow> lru_node option)" where
  "link h p q = (let h1 = h(p \<mapsto> (the (h p))\<lparr>ln_next := q\<rparr>)
                 in h1(q \<mapsto> (the (h1 q))\<lparr>ln_prev := p\<rparr>))"

lemma link_other: "a \<noteq> p \<Longrightarrow> a \<noteq> q \<Longrightarrow> link h p q a = h a"
  by (simp add: link_def Let_def)

lemma link_pid: "map_option ln_pid (link h p q a) =
    (if a = p \<and> h p = None \<or> a = q \<and> h q = None \<or> h a = None
     then map_option ln_pid (link h p q a) else map_option ln_pid (h a))"
  by (auto simp: link_def Let_def)

lemma link_dom: "h p \<noteq> None \<Longrightarrow> h q \<noteq> None \<Longrightarrow> (link h p q a = None) = (h a = None)"
  by (auto simp: link_def Let_def)

lemma link_pid_same:
  "h p \<noteq> None \<Longrightarrow> h q \<noteq> None \<Longrightarrow> map_option ln_pid (link h p q a) = map_option ln_pid (h a)"
  by (auto simp: link_def Let_def)

text \<open>Linking the end of one chain to the start of another gives one chain.\<close>

lemma dll_link:
  assumes xs: "dll h (xs @ [p])" and ys: "dll h (q # ys)" and d: "distinct (xs @ p # q # ys)"
  shows "dll (link h p q) (xs @ p # q # ys)"
proof -
  from dll_dom [OF xs] dll_dom [OF ys] obtain np nq where np: "h p = Some np" and nq: "h q = Some nq"
    by fastforce
  have l: "link h p q = h(p \<mapsto> np\<lparr>ln_next := q\<rparr>, q \<mapsto> nq\<lparr>ln_prev := p\<rparr>)"
    using d np nq by (simp add: link_def Let_def)
  have "dll (link h p q) (xs @ [p])"
    using xs d np by (simp add: l dll_upd_other dll_upd_last)
  moreover have "dll (link h p q) (q # ys)"
    using ys d nq dll_upd_first [of q ys h nq p]
      dll_upd_other [of p "q # ys" "h(q \<mapsto> nq\<lparr>ln_prev := p\<rparr>)"]
    by (simp add: l fun_upd_twist)
  ultimately show ?thesis using l d
    by (simp add: dll_append [of _ xs p "q # ys"])
qed

section \<open>The representation\<close>

definition lru_rep :: "lru_list \<Rightarrow> nat list \<Rightarrow> bool" where
  "lru_rep l xs \<longleftrightarrow>
     distinct (lru_head l # xs @ [lru_tail l]) \<and>
     dll (lru_heap l) (lru_head l # xs @ [lru_tail l]) \<and>
     lru_size l = length xs \<and>
     (\<forall>a. lru_heap l a \<noteq> None \<longrightarrow> a < lru_alloc l)"

definition lru_pid_of :: "lru_list \<Rightarrow> nat \<Rightarrow> page_id" where
  "lru_pid_of l a = ln_pid (the (lru_heap l a))"

lemma lru_new_rep: "lru_rep lru_new []"
  by (simp add: lru_rep_def lru_new_def)

lemma ln_set_next_eq:
  "lru_heap l a = Some n \<Longrightarrow>
     ln_set_next a b l = Inr (l\<lparr>lru_heap := (lru_heap l)(a \<mapsto> n\<lparr>ln_next := b\<rparr>)\<rparr>)"
  by (simp add: ln_set_next_def ln_deref_def)

lemma ln_set_prev_eq:
  "lru_heap l a = Some n \<Longrightarrow>
     ln_set_prev a b l = Inr (l\<lparr>lru_heap := (lru_heap l)(a \<mapsto> n\<lparr>ln_prev := b\<rparr>)\<rparr>)"
  by (simp add: ln_set_prev_def ln_deref_def)

lemmas ln_ops = ln_deref_def ln_set_next_eq ln_set_prev_eq


lemma dll_mid:
  assumes "dll h (xs @ p # q # ys)"
  obtains np nq where "h p = Some np" "ln_next np = q" "h q = Some nq" "ln_prev nq = p"
  using assms dll_append [of h xs p "q # ys"] by auto

text \<open>The two halves of a pointer update, as \<open>link\<close>s of the store.\<close>

lemma lru_unlink_eq:
  assumes "dll (lru_heap l) (us @ p # n # q # vs)" "distinct (us @ p # n # q # vs)"
  shows "lru_unlink n l = Inr (l\<lparr>lru_heap := link (lru_heap l) p q\<rparr>)"
proof -
  from dll_mid [OF assms(1)] obtain np nn where p: "lru_heap l p = Some np" "ln_next np = n"
    and n: "lru_heap l n = Some nn" "ln_prev nn = p" by metis
  from assms(1) have "dll (lru_heap l) ((us @ [p]) @ n # q # vs)" by simp
  from dll_mid [OF this] n obtain nq where q: "ln_next nn = q" "lru_heap l q = Some nq"
    by (metis option.inject)
  show ?thesis using p n q assms(2)
    by (simp add: lru_unlink_def ln_ops link_def Let_def)
qed

lemma lru_link_mru_eq:
  assumes "dll (lru_heap l) (us @ [p, lru_tail l])" "distinct (us @ [p, lru_tail l])"
    and "n \<notin> set (us @ [p, lru_tail l])" "lru_heap l n = Some nn"
  shows "lru_link_mru n l = Inr (l\<lparr>lru_heap := link (link (lru_heap l) p n) n (lru_tail l)\<rparr>)"
proof -
  from dll_mid [of "lru_heap l" us p "lru_tail l" "[]"] assms(1) obtain np nt
    where "lru_heap l p = Some np" "lru_heap l (lru_tail l) = Some nt" "ln_prev nt = p"
    by metis
  then show ?thesis using assms(2-4)
    by (cases nn) (simp add: lru_link_mru_def ln_ops link_def Let_def fun_upd_twist)
qed

lemma dll_unlink:
  assumes "dll h (us @ p # n # q # vs)" "distinct (us @ p # n # q # vs)"
  shows "dll (link h p q) (us @ p # q # vs)"
proof (rule dll_link)
  show "dll h (us @ [p])" using assms(1) dll_append [of h us p "n # q # vs"] by simp
  show "dll h (q # vs)" using assms(1) dll_append [of h "us @ [p, n]" q vs] by simp
  show "distinct (us @ p # q # vs)" using assms(2) by auto
qed

lemma dll_link_end:
  assumes "dll h (us @ [p, t])" "distinct (us @ [p, t])" "n \<notin> set (us @ [p, t])" "h n \<noteq> None"
  shows "dll (link (link h p n) n t) (us @ [p, n, t])"
proof -
  have up: "dll h (us @ [p])" and t: "h t \<noteq> None"
    using assms(1) dll_append [of h us p "[t]"] by auto
  have "dll (link h p n) (us @ p # n # [])"
    using up assms by (intro dll_link) auto
  moreover have "link h p n t \<noteq> None" using t assms by (auto simp: link_other)
  ultimately have "dll (link (link h p n) n t) ((us @ [p]) @ n # t # [])"
    using assms by (intro dll_link) auto
  then show ?thesis by simp
qed

lemma lru_repE:
  assumes "lru_rep l (xs @ n # ys)"
  obtains us p q vs where "lru_head l # xs = us @ [p]" "ys @ [lru_tail l] = q # vs"
    "dll (lru_heap l) (us @ p # n # q # vs)" "distinct (us @ p # n # q # vs)"
proof -
  obtain us p where u: "lru_head l # xs = us @ [p]" by (metis list.distinct(1) rev_exhaust)
  obtain q vs where v: "ys @ [lru_tail l] = q # vs" by (cases "ys @ [lru_tail l]") auto
  have "lru_head l # (xs @ n # ys) @ [lru_tail l] = us @ p # n # q # vs"
    using u v by (metis Cons_eq_append_conv append.assoc append_Cons append_Nil)
  with u v that assms show ?thesis by (metis lru_rep_def)
qed

lemma lru_rep_endE:
  assumes "lru_rep l xs"
  obtains us p where "lru_head l # xs = us @ [p]"
    "dll (lru_heap l) (us @ [p, lru_tail l])" "distinct (us @ [p, lru_tail l])"
proof -
  obtain us p where u: "lru_head l # xs = us @ [p]" by (metis list.distinct(1) rev_exhaust)
  then have "lru_head l # xs @ [lru_tail l] = us @ [p, lru_tail l]" by simp
  with u that assms show ?thesis by (metis lru_rep_def)
qed

section \<open>Refinement\<close>

text \<open>
  \<open>lru_keeps l l'\<close>: the nodes of \<open>l\<close> are nodes of \<open>l'\<close> with the page ids they had, and the
  sentinels are the same.
\<close>

definition lru_keeps :: "lru_list \<Rightarrow> lru_list \<Rightarrow> bool" where
  "lru_keeps l l' \<longleftrightarrow> lru_head l' = lru_head l \<and> lru_tail l' = lru_tail l \<and>
     (\<forall>a. lru_heap l a \<noteq> None \<longrightarrow> map_option ln_pid (lru_heap l' a) = map_option ln_pid (lru_heap l a))"

lemma lru_keeps_pid: "lru_keeps l l' \<Longrightarrow> lru_heap l a \<noteq> None \<Longrightarrow> lru_pid_of l' a = lru_pid_of l a"
  unfolding lru_keeps_def lru_pid_of_def
  by (metis map_option_is_None option.map_sel)

lemma lru_rep_dom: "lru_rep l xs \<Longrightarrow> a \<in> set xs \<Longrightarrow> lru_heap l a \<noteq> None"
  unfolding lru_rep_def by (metis dll_dom in_set_conv_decomp_first list.set_intros(2) Un_iff set_append)

lemma lru_unlink_spec:
  assumes "lru_rep l (xs @ n # ys)"
  obtains l' where "lru_unlink n l = Inr l'" "lru_keeps l l'" "lru_size l' = lru_size l"
    "lru_alloc l' = lru_alloc l" "lru_rep (l'\<lparr>lru_size := length (xs @ ys)\<rparr>) (xs @ ys)"
    "lru_heap l' n \<noteq> None"
proof -
  from lru_repE [OF assms] obtain us p q vs where u: "lru_head l # xs = us @ [p]"
    and v: "ys @ [lru_tail l] = q # vs"
    and d: "dll (lru_heap l) (us @ p # n # q # vs)" and di: "distinct (us @ p # n # q # vs)" .
  let ?l = "l\<lparr>lru_heap := link (lru_heap l) p q\<rparr>"
  have dom: "lru_heap l p \<noteq> None" "lru_heap l q \<noteq> None" "lru_heap l n \<noteq> None"
    using dll_dom [OF d] by auto
  have uv: "us @ p # q # vs = lru_head l # (xs @ ys) @ [lru_tail l]" using u v
    by (metis append.assoc append_Cons append_Nil)
  have "dll (link (lru_heap l) p q) (lru_head l # (xs @ ys) @ [lru_tail l])"
    using dll_unlink [OF d di] unfolding uv .
  moreover have "distinct (lru_head l # (xs @ ys) @ [lru_tail l])"
    unfolding uv [symmetric] using di by auto
  ultimately have "lru_rep (?l\<lparr>lru_size := length (xs @ ys)\<rparr>) (xs @ ys)"
    using assms link_dom [OF dom(1,2)] unfolding lru_rep_def by simp
  then show ?thesis
    using that [of ?l] lru_unlink_eq [OF d di] link_pid_same [OF dom(1,2)] link_dom [OF dom(1,2)] dom(3)
    by (simp add: lru_keeps_def)
qed

lemma lru_link_mru_spec:
  assumes rep: "lru_rep (l\<lparr>lru_size := length xs\<rparr>) xs"
    and n: "n \<notin> set (lru_head l # xs @ [lru_tail l])" "lru_heap l n \<noteq> None"
  obtains l' where "lru_link_mru n l = Inr l'" "lru_keeps l l'" "lru_size l' = lru_size l"
    "lru_alloc l' = lru_alloc l" "lru_rep (l'\<lparr>lru_size := Suc (length xs)\<rparr>) (xs @ [n])"
proof -
  from lru_rep_endE [OF rep] obtain us p where u: "lru_head l # xs = us @ [p]"
    and d: "dll (lru_heap l) (us @ [p, lru_tail l])" and di: "distinct (us @ [p, lru_tail l])"
    by auto
  let ?t = "lru_tail l" and ?h = "link (link (lru_heap l) p n) n (lru_tail l)"
  let ?l = "l\<lparr>lru_heap := ?h\<rparr>"
  have ch: "us @ [p, n, ?t] = lru_head l # (xs @ [n]) @ [?t]"
    using u by (metis append.assoc append_Cons append_Nil)
  have nn: "n \<notin> set (us @ [p, ?t])" using n(1) u by (metis append_Cons append_Nil append.assoc)
  have dom: "lru_heap l p \<noteq> None" "lru_heap l ?t \<noteq> None" using dll_dom [OF d] by auto
  have dom2: "link (lru_heap l) p n n \<noteq> None" "link (lru_heap l) p n ?t \<noteq> None"
    using dom n(2) by (simp_all add: link_dom)
  have "dll ?h (lru_head l # (xs @ [n]) @ [?t])"
    using dll_link_end [OF d di nn n(2)] unfolding ch .
  moreover have "distinct (lru_head l # (xs @ [n]) @ [?t])"
    unfolding ch [symmetric] using di nn by auto
  ultimately have "lru_rep (?l\<lparr>lru_size := Suc (length xs)\<rparr>) (xs @ [n])"
    using rep dom n(2) unfolding lru_rep_def by (simp add: link_dom [OF dom2] link_dom)
  moreover have "lru_link_mru n l = Inr ?l"
    using n(2) lru_link_mru_eq [OF d di nn] by auto
  moreover have "lru_keeps l ?l"
    using link_pid_same [OF dom2] link_pid_same [OF dom(1) n(2)] by (simp add: lru_keeps_def)
  ultimately show ?thesis using that [of ?l] by simp
qed

lemma lru_keeps_refl [simp]: "lru_keeps l l"
  by (simp add: lru_keeps_def)

lemma lru_keeps_trans:
  assumes "lru_keeps l l1" "lru_keeps l1 l2"
  shows "lru_keeps l l2"
proof -
  have "lru_heap l1 a \<noteq> None" if "lru_heap l a \<noteq> None" for a
    using assms(1) that unfolding lru_keeps_def by (metis map_option_is_None)
  then show ?thesis using assms unfolding lru_keeps_def by metis
qed

lemma lru_keeps_size [simp]: "lru_keeps l (l'\<lparr>lru_size := k\<rparr>) = lru_keeps l l'"
  by (simp add: lru_keeps_def)

lemma lru_keeps_pids:
  assumes "lru_keeps l l'" "lru_rep l xs" "set ys \<subseteq> set xs"
  shows "map (lru_pid_of l') ys = map (lru_pid_of l) ys"
  using assms lru_rep_dom lru_keeps_pid by (metis map_eq_conv subset_eq)

lemma lru_move_to_mru_spec:
  assumes "lru_rep l (xs @ n # ys)"
  obtains l' where "lru_move_to_mru n l = Inr l'" "lru_rep l' (xs @ ys @ [n])" "lru_keeps l l'"
proof -
  from lru_unlink_spec [OF assms] obtain l1 where l1: "lru_unlink n l = Inr l1" "lru_keeps l l1"
    "lru_size l1 = lru_size l" "lru_rep (l1\<lparr>lru_size := length (xs @ ys)\<rparr>) (xs @ ys)"
    "lru_heap l1 n \<noteq> None" .
  have "n \<notin> set (lru_head l1 # (xs @ ys) @ [lru_tail l1])"
    using assms l1(2) by (auto simp: lru_rep_def lru_keeps_def)
  from lru_link_mru_spec [OF l1(4) this l1(5)] obtain l2 where l2: "lru_link_mru n l1 = Inr l2"
    "lru_keeps l1 l2" "lru_size l2 = lru_size l1"
    "lru_rep (l2\<lparr>lru_size := Suc (length (xs @ ys))\<rparr>) ((xs @ ys) @ [n])" .
  have "l2\<lparr>lru_size := Suc (length (xs @ ys))\<rparr> = l2"
    using l1(3) l2(3) assms by (simp add: lru_rep_def)
  then show ?thesis using that [of l2] l1 l2 lru_keeps_trans [OF l1(2) l2(2)]
    by (simp add: lru_move_to_mru_def)
qed

lemma lru_remove_spec:
  assumes "lru_rep l (xs @ n # ys)"
  obtains l' where "lru_remove n l = Inr l'" "lru_rep l' (xs @ ys)" "lru_keeps l l'"
proof -
  from lru_unlink_spec [OF assms] obtain l1 where l1: "lru_unlink n l = Inr l1" "lru_keeps l l1"
    "lru_size l1 = lru_size l" "lru_rep (l1\<lparr>lru_size := length (xs @ ys)\<rparr>) (xs @ ys)" .
  have "dec64 (lru_size l1) = length (xs @ ys)"
    using l1(3) assms by (simp add: lru_rep_def dec64_pos)
  then show ?thesis using that [of "l1\<lparr>lru_size := dec64 (lru_size l1)\<rparr>"] l1
    by (simp add: lru_remove_def)
qed

lemma lru_add_to_mru_spec:
  assumes "lru_rep l xs"
  obtains l' n where "lru_add_to_mru pid l = Inr (l', n)" "lru_rep l' (xs @ [n])" "n \<notin> set xs"
    "lru_pid_of l' n = pid" "lru_keeps l l'"
proof -
  define n where "n = lru_alloc l"
  let ?nd = "\<lparr>ln_pid = pid, ln_prev = 0, ln_next = 0\<rparr>"
  define l0 where "l0 = l\<lparr>lru_heap := (lru_heap l)(n \<mapsto> ?nd), lru_alloc := Suc n\<rparr>"
  have fr: "lru_heap l n = None" using assms by (auto simp: lru_rep_def n_def)
  have nin: "n \<notin> set (lru_head l # xs @ [lru_tail l])"
    using fr assms dll_dom unfolding lru_rep_def by metis
  have rep0: "lru_rep (l0\<lparr>lru_size := length xs\<rparr>) xs"
    using assms dll_upd_other [OF nin] unfolding lru_rep_def
    by (auto simp: l0_def n_def less_SucI)
  have k0: "lru_keeps l l0" using fr by (auto simp: lru_keeps_def l0_def)
  have pre: "n \<notin> set (lru_head l0 # xs @ [lru_tail l0])" "lru_heap l0 n \<noteq> None"
    using nin by (auto simp: l0_def)
  from lru_link_mru_spec [OF rep0 pre] obtain l1 where l1: "lru_link_mru n l0 = Inr l1"
    "lru_keeps l0 l1" "lru_size l1 = lru_size l0"
    "lru_rep (l1\<lparr>lru_size := Suc (length xs)\<rparr>) (xs @ [n])" .
  have "lru_size l1 + 1 = Suc (length xs)" using l1(3) assms by (simp add: l0_def lru_rep_def)
  moreover have "lru_pid_of l1 n = pid"
    using lru_keeps_pid [OF l1(2) pre(2)] by (simp add: l0_def lru_pid_of_def)
  moreover have "ln_alloc pid l = (l0, n)" by (simp add: ln_alloc_def l0_def n_def)
  ultimately show ?thesis
    using that [of "l1\<lparr>lru_size := lru_size l1 + 1\<rparr>" n] l1 nin lru_keeps_trans [OF k0 l1(2)]
    by (simp add: lru_add_to_mru_def lru_pid_of_def)
qed

lemma lru_lru_spec: "lru_rep l (n # xs) \<Longrightarrow> lru_lru l = Inr n"
  by (auto simp: lru_rep_def lru_lru_def ln_deref_def)

lemma lru_remove_lru_node_spec:
  assumes "lru_rep l (n # xs)"
  obtains l' where "lru_remove_lru_node l = Inr (l', lru_pid_of l n)" "lru_rep l' xs"
    "\<And>a. a \<in> set xs \<Longrightarrow> lru_pid_of l' a = lru_pid_of l a"
proof -
  obtain q vs where v: "xs @ [lru_tail l] = q # vs" by (cases "xs @ [lru_tail l]") auto
  let ?h = "lru_head l" and ?H = "link (lru_heap l) (lru_head l) q"
  from assms v have d: "dll (lru_heap l) ([] @ ?h # n # q # vs)"
    and di: "distinct ([] @ ?h # n # q # vs)" by (simp_all add: lru_rep_def)
  then obtain nh nn nq where st: "lru_heap l ?h = Some nh" "ln_next nh = n"
    "lru_heap l n = Some nn" "ln_next nn = q" "lru_heap l q = Some nq" by auto
  have di': "?h \<noteq> n" "?h \<noteq> q" "n \<noteq> q" "n \<notin> set (?h # q # vs)" using di by auto
  let ?l = "l\<lparr>lru_heap := ?H(n := None), lru_size := lru_size l - 1\<rparr>"
  have eq: "lru_remove_lru_node l = Inr (?l, lru_pid_of l n)"
    using st di' assms
    by (simp add: lru_remove_lru_node_def lru_lru_def ln_ops link_def Let_def lru_rep_def dec64_pos
        lru_pid_of_def fun_upd_twist)
  have "dll (?H(n := None)) (?h # q # vs)"
    using dll_unlink [OF d di] dll_upd_other [OF di'(4)] by simp
  moreover have dom: "lru_heap l ?h \<noteq> None" "lru_heap l q \<noteq> None" using st by auto
  moreover have "\<forall>a. (?H(n := None)) a \<noteq> None \<longrightarrow> a < lru_alloc l"
    using assms link_dom [OF dom] unfolding lru_rep_def by (metis fun_upd_apply)
  ultimately have "lru_rep ?l xs"
    using assms v di unfolding lru_rep_def by auto
  moreover have "lru_pid_of ?l a = lru_pid_of l a" if "a \<in> set xs" for a
  proof -
    have "a \<noteq> n" "lru_heap l a \<noteq> None"
      using that assms lru_rep_dom [OF assms, of a] by (auto simp: lru_rep_def)
    then have "map_option ln_pid (lru_heap ?l a) = map_option ln_pid (lru_heap l a)"
      using link_pid_same [OF dom, of a] by simp
    then show ?thesis using \<open>lru_heap l a \<noteq> None\<close>
      unfolding lru_pid_of_def by (metis map_option_is_None option.map_sel)
  qed
  ultimately show ?thesis using that eq by blast
qed

lemma lru_remove_lru_node_empty: "lru_rep l [] \<Longrightarrow> lru_remove_lru_node l = Inr (l, UNKNOWN_PID)"
  by (simp add: lru_remove_lru_node_def lru_rep_def)

section \<open>Iteration\<close>

lemma lru_chain_short:
  assumes "lru_rep l xs"
  shows "length xs < lru_alloc l"
proof -
  have "set (xs @ [lru_tail l]) \<subseteq> {..<lru_alloc l}"
    using assms dll_dom [of "lru_heap l" "lru_head l # xs @ [lru_tail l]"] unfolding lru_rep_def
    by (metis lessThan_iff list.set_intros(2) subsetI)
  moreover have "distinct (xs @ [lru_tail l])" using assms by (simp add: lru_rep_def)
  ultimately have "length (xs @ [lru_tail l]) \<le> card {..<lru_alloc l}"
    by (metis card_mono distinct_card finite_lessThan)
  then show ?thesis by simp
qed

lemma lru_iter_chain:
  assumes "dll (lru_heap l) (xs @ [lru_tail l])" "lru_tail l \<notin> set xs" "length xs < fuel"
  shows "lru_iter fuel (hd (xs @ [lru_tail l])) l = Inr (map (lru_pid_of l) xs)"
  using assms
proof (induction xs arbitrary: fuel)
  case Nil
  then show ?case by (cases fuel) auto
next
  case (Cons a xs)
  obtain k where k: "fuel = Suc k" using Cons.prems(3) by (cases fuel) auto
  obtain q vs where v: "xs @ [lru_tail l] = q # vs" by (cases "xs @ [lru_tail l]") auto
  from Cons.prems(1) v obtain na where na: "lru_heap l a = Some na" "ln_next na = q"
    and d: "dll (lru_heap l) (xs @ [lru_tail l])" by auto
  have "lru_iter k q l = Inr (map (lru_pid_of l) xs)"
    using Cons.IH [OF d, of k] Cons.prems k v by auto
  then show ?case using k na Cons.prems(2) by (simp add: ln_deref_def lru_pid_of_def)
qed

lemma lru_pids_spec:
  assumes "lru_rep l xs"
  shows "lru_pids l = Inr (map (lru_pid_of l) xs)"
proof -
  obtain q vs where v: "xs @ [lru_tail l] = q # vs" by (cases "xs @ [lru_tail l]") auto
  have t: "lru_tail l \<notin> set xs" using assms by (simp add: lru_rep_def)
  have d: "dll (lru_heap l) (lru_head l # q # vs)" using assms v by (simp add: lru_rep_def)
  then have "lru_lru l = Inr q" by (auto simp: lru_lru_def ln_deref_def)
  moreover have "dll (lru_heap l) (xs @ [lru_tail l])" using d v by auto
  ultimately show ?thesis
    using lru_iter_chain [OF _ t lru_chain_short [OF assms]] v by (simp add: lru_pids_def)
qed

section \<open>Histories\<close>

text \<open>
  What the pool does with its list: a page is admitted at the MRU end, the page at a
  position is touched, the node at a position is taken out, the LRU page is evicted.
  \<open>lru_run\<close> replays a history on the pointers, holding the handles the operations returned;
  \<open>lru_spec_run\<close> replays it on a list of page ids.
\<close>

datatype lru_op = Admit page_id | Touch nat | Drop nat | Evict

definition list_out :: "nat \<Rightarrow> 'a list \<Rightarrow> 'a list" where
  "list_out i xs = take i xs @ drop (Suc i) xs"

fun lru_step :: "lru_op \<Rightarrow> lru_list \<times> nat list \<Rightarrow> (lru_list \<times> nat list) result" where
  "lru_step (Admit pid) (l, xs) = rbind (lru_add_to_mru pid l) (\<lambda>(l', n). Inr (l', xs @ [n]))"
| "lru_step (Touch i) (l, xs) =
     (if i < length xs
      then rbind (lru_move_to_mru (xs ! i) l) (\<lambda>l'. Inr (l', list_out i xs @ [xs ! i]))
      else Inr (l, xs))"
| "lru_step (Drop i) (l, xs) =
     (if i < length xs then rbind (lru_remove (xs ! i) l) (\<lambda>l'. Inr (l', list_out i xs))
      else Inr (l, xs))"
| "lru_step Evict (l, xs) = rbind (lru_remove_lru_node l) (\<lambda>(l', _). Inr (l', tl xs))"

fun lru_run :: "lru_op list \<Rightarrow> lru_list \<times> nat list \<Rightarrow> (lru_list \<times> nat list) result" where
  "lru_run [] s = Inr s"
| "lru_run (p # ps) s = rbind (lru_step p s) (lru_run ps)"

fun lru_spec_step :: "lru_op \<Rightarrow> page_id list \<Rightarrow> page_id list" where
  "lru_spec_step (Admit pid) ps = ps @ [pid]"
| "lru_spec_step (Touch i) ps = (if i < length ps then list_out i ps @ [ps ! i] else ps)"
| "lru_spec_step (Drop i) ps = (if i < length ps then list_out i ps else ps)"
| "lru_spec_step Evict ps = tl ps"

definition lru_spec_run :: "lru_op list \<Rightarrow> page_id list \<Rightarrow> page_id list" where
  "lru_spec_run ops ps = foldl (\<lambda>qs p. lru_spec_step p qs) ps ops"

lemma map_list_out [simp]: "map f (list_out i xs) = list_out i (map f xs)"
  by (simp add: list_out_def take_map drop_map)

lemma set_list_out: "set (list_out i xs) \<subseteq> set xs"
  by (auto simp: list_out_def dest: in_set_takeD in_set_dropD)

lemma lru_step_refines:
  assumes "lru_rep l xs"
  shows "\<exists>l' xs'. lru_step p (l, xs) = Inr (l', xs') \<and> lru_rep l' xs' \<and>
           map (lru_pid_of l') xs' = lru_spec_step p (map (lru_pid_of l) xs)"
proof (cases p)
  case (Admit pid)
  from lru_add_to_mru_spec [OF assms, of pid] obtain l' n where l':
    "lru_add_to_mru pid l = Inr (l', n)" "lru_rep l' (xs @ [n])" "lru_pid_of l' n = pid"
    "lru_keeps l l'" .
  then show ?thesis using Admit lru_keeps_pids [OF l'(4) assms order_refl] by simp
next
  case (Touch i)
  show ?thesis
  proof (cases "i < length xs")
    case True
    have "lru_rep l (take i xs @ xs ! i # drop (Suc i) xs)"
      by (subst id_take_nth_drop [OF True, symmetric]) (rule assms)
    from lru_move_to_mru_spec [OF this] obtain l' where l': "lru_move_to_mru (xs ! i) l = Inr l'"
      "lru_rep l' (list_out i xs @ [xs ! i])" "lru_keeps l l'"
      unfolding list_out_def append.assoc .
    have "map (lru_pid_of l') (list_out i xs @ [xs ! i]) = map (lru_pid_of l) (list_out i xs @ [xs ! i])"
      by (rule lru_keeps_pids [OF l'(3) assms]) (use True set_list_out [of i xs] in auto)
    then show ?thesis using Touch True l' by simp
  qed (use Touch assms in auto)
next
  case (Drop i)
  show ?thesis
  proof (cases "i < length xs")
    case True
    have "lru_rep l (take i xs @ xs ! i # drop (Suc i) xs)"
      by (subst id_take_nth_drop [OF True, symmetric]) (rule assms)
    from lru_remove_spec [OF this] obtain l' where l': "lru_remove (xs ! i) l = Inr l'"
      "lru_rep l' (list_out i xs)" "lru_keeps l l'"
      unfolding list_out_def .
    then show ?thesis using Drop True lru_keeps_pids [OF l'(3) assms set_list_out] by simp
  qed (use Drop assms in auto)
next
  case Evict
  show ?thesis
  proof (cases xs)
    case (Cons n ys)
    with assms lru_remove_lru_node_spec [of l n ys] obtain l' where
      "lru_remove_lru_node l = Inr (l', lru_pid_of l n)" "lru_rep l' ys"
      "\<And>a. a \<in> set ys \<Longrightarrow> lru_pid_of l' a = lru_pid_of l a" by metis
    then show ?thesis using Evict Cons by simp
  qed (use Evict assms lru_remove_lru_node_empty in auto)
qed

lemma lru_run_refines:
  assumes "lru_rep l xs"
  shows "\<exists>l' xs'. lru_run ops (l, xs) = Inr (l', xs') \<and> lru_rep l' xs' \<and>
           map (lru_pid_of l') xs' = lru_spec_run ops (map (lru_pid_of l) xs)"
  using assms
proof (induction ops arbitrary: l xs)
  case Nil
  then show ?case by (simp add: lru_spec_run_def)
next
  case (Cons p ops)
  from lru_step_refines [OF Cons.prems, of p] obtain l1 xs1 where s: "lru_step p (l, xs) = Inr (l1, xs1)"
    "lru_rep l1 xs1" "map (lru_pid_of l1) xs1 = lru_spec_step p (map (lru_pid_of l) xs)" by blast
  from Cons.IH [OF s(2)] s show ?case by (simp add: lru_spec_run_def)
qed

text \<open>
  C35. Refinement of the replacement list: from the constructor on, every history of
  admissions, touches, removals and evictions runs on the pointers without undefined
  behaviour, and afterwards the iteration from \<open>begin()\<close> to \<open>end()\<close> yields exactly the
  page ids that the list specification gives, from the least to the most recently used,
  and \<open>size()\<close> is their number.
\<close>

theorem lru_list_refines:
  "\<exists>l' xs'. lru_run ops (lru_new, []) = Inr (l', xs') \<and>
     lru_pids l' = Inr (lru_spec_run ops []) \<and> lru_size l' = length (lru_spec_run ops [])"
proof -
  from lru_run_refines [OF lru_new_rep, of ops] obtain l' xs' where
    r: "lru_run ops (lru_new, []) = Inr (l', xs')" "lru_rep l' xs'"
       "map (lru_pid_of l') xs' = lru_spec_run ops []" by auto
  then have "lru_size l' = length (lru_spec_run ops [])"
    unfolding lru_rep_def by (metis length_map)
  then show ?thesis using r lru_pids_spec [OF r(2)] by auto
qed

section \<open>Clearing\<close>

lemma lru_clear_loop_chain:
  assumes "dll (lru_heap l) (xs @ [lru_tail l])" "distinct (xs @ [lru_tail l])" "length xs < fuel"
  shows "lru_clear_loop fuel (hd (xs @ [lru_tail l])) l =
           Inr (l\<lparr>lru_heap := (\<lambda>a. if a \<in> set xs then None else lru_heap l a)\<rparr>)"
  using assms
proof (induction xs arbitrary: fuel l)
  case Nil
  then show ?case by (cases fuel) auto
next
  case (Cons a xs)
  obtain k where k: "fuel = Suc k" using Cons.prems(3) by (cases fuel) auto
  obtain q vs where v: "xs @ [lru_tail l] = q # vs" by (cases "xs @ [lru_tail l]") auto
  let ?l = "l\<lparr>lru_heap := (lru_heap l)(a := None)\<rparr>"
  from Cons.prems(1) v obtain na where na: "lru_heap l a = Some na" "ln_next na = q"
    and d: "dll (lru_heap l) (xs @ [lru_tail l])" by auto
  have "a \<notin> set (xs @ [lru_tail l])" using Cons.prems(2) by auto
  then have "dll (lru_heap ?l) (xs @ [lru_tail ?l])" using d dll_upd_other by simp
  from Cons.IH [OF this, of k] Cons.prems k v
  have "lru_clear_loop k q ?l = Inr (?l\<lparr>lru_heap := (\<lambda>b. if b \<in> set xs then None else lru_heap ?l b)\<rparr>)"
    by auto
  moreover have "(\<lambda>b. if b \<in> set xs then None else lru_heap ?l b) =
                 (\<lambda>b. if b \<in> set (a # xs) then None else lru_heap l b)" by auto
  ultimately show ?case using k na Cons.prems(2) by (simp add: ln_deref_def)
qed

lemma lru_clear_spec:
  assumes "lru_rep l (x # xs)"
  shows "\<exists>l'. lru_clear l = Inr l' \<and> lru_size l' = 0 \<and>
           (\<forall>pid. lru_add_to_mru pid l' = Inl Undefined_behaviour)"
proof -
  let ?ys = "x # xs"
  from assms have d: "dll (lru_heap l) (lru_head l # ?ys @ [lru_tail l])"
    and di: "distinct (lru_head l # ?ys @ [lru_tail l])" by (simp_all add: lru_rep_def)
  let ?l = "l\<lparr>lru_heap := (\<lambda>a. if a \<in> set ?ys then None else lru_heap l a), lru_size := 0\<rparr>"
  have "lru_clear l = Inr ?l"
    using lru_clear_loop_chain [of l ?ys "lru_alloc l"] lru_lru_spec [OF assms] d di
      lru_chain_short [OF assms] by (auto simp: lru_clear_def)
  moreover have "lru_add_to_mru pid ?l = Inl Undefined_behaviour" for pid
  proof -
    from lru_rep_endE [OF assms] obtain us p where u: "lru_head l # ?ys = us @ [p]"
      and d2: "dll (lru_heap l) (us @ [p, lru_tail l])" by metis
    from dll_mid [of "lru_heap l" us p "lru_tail l" "[]"] d2 obtain nt
      where nt: "lru_heap l (lru_tail l) = Some nt" "ln_prev nt = p" by metis
    have p: "p \<in> set ?ys" using u by (metis last.simps last_in_set last_snoc list.distinct(1))
    have "lru_heap l p \<noteq> None" using lru_rep_dom [OF assms p] .
    then have "p < lru_alloc l" "lru_tail l < lru_alloc l" "lru_tail l \<notin> set ?ys"
      using assms nt di by (auto simp: lru_rep_def)
    then show ?thesis using p nt
      by (simp add: lru_add_to_mru_def ln_alloc_def lru_link_mru_def ln_deref_def ln_set_next_def
          ln_set_prev_def)
  qed
  ultimately show ?thesis by simp
qed

text \<open>
  \<open>clear()\<close> deletes the nodes of a non-empty list but leaves \<open>head_->next\<close> and
  \<open>tail_->prev\<close> pointing at them: the call returns with size 0, and the next
  \<open>add_to_mru\<close> writes through the dangling pointer (\<open>bufferpool::purge\<close> is followed by one).
\<close>

theorem lru_clear_dangles:
  assumes "lru_rep l (x # xs)"
  shows "\<exists>l'. lru_clear l = Inr l' \<and> lru_size l' = 0 \<and>
           lru_add_to_mru pid l' = Inl Undefined_behaviour"
  using lru_clear_spec [OF assms] by blast

theorem lru_clear_dangles_witness:
  "\<exists>l n. lru_add_to_mru 7 lru_new = Inr (l, n) \<and>
     (\<exists>l'. lru_clear l = Inr l' \<and> lru_size l' = 0 \<and> lru_add_to_mru 8 l' = Inl Undefined_behaviour)"
proof -
  from lru_add_to_mru_spec [OF lru_new_rep, of 7] obtain l n where
    l: "lru_add_to_mru 7 lru_new = Inr (l, n)" "lru_rep l [n]" by (metis append_Nil)
  from lru_clear_dangles [OF l(2), of 8] l(1) show ?thesis by blast
qed

end
