(* ===== verification/Paged_File.thy ===== *)
theory Paged_File
  imports Prelude
begin

text \<open>
  The disk files of the buffer pool, \<^verbatim>\<open>src/src/bp_file/paged_file.hpp\<close> and
  \<^verbatim>\<open>paged_file.cpp\<close>: a header with a bitset of occupied pages, followed by pages of
  \<open>PF_PAGE_SIZE\<close> bytes. A page is a function from byte positions to bytes. A file is
  the header in memory, the header on disk (written by \<open>open\<close> of a new file and by \<open>close\<close>)
  and the list of its pages; the stream always covers whole pages. \<open>bitset::test\<close> and
  \<open>set\<close> throw \<open>std::out_of_range\<close> past the 65536 bits.

  The locale \<open>page_store\<close> is the contract the buffer pool relies on: reading returns what was
  written last, on valid pages only.
\<close>

section \<open>Data\<close>

type_synonym page = "nat \<Rightarrow> 8 word"

definition zero_page :: page where
  "zero_page = (\<lambda>_. 0)"

definition PF_SLOTS :: nat where
  "PF_SLOTS = 65536"

record file_header =
  fh_fid :: string
  fh_ftype :: nat
  fh_slots :: "nat \<Rightarrow> bool"
  fh_payload :: "8 word list"

definition FHEADER_PAYLOAD_SIZE :: nat where
  "FHEADER_PAYLOAD_SIZE = 9216"

record disk_file =
  df_header :: file_header
  df_pages :: "page list"

record paged_file =
  pf_open :: bool
  pf_npages :: nat
  pf_header :: file_header
  pf_disk :: disk_file

datatype cb_mode = Header_read | Header_write

type_synonym header_cb = "cb_mode \<Rightarrow> 8 word list \<Rightarrow> 8 word list"

definition run_cb :: "header_cb option \<Rightarrow> cb_mode \<Rightarrow> file_header \<Rightarrow> file_header" where
  "run_cb cb mode h =
     (case cb of None \<Rightarrow> h | Some c \<Rightarrow> h\<lparr>fh_payload := c mode (fh_payload h)\<rparr>)"

definition bs_test :: "(nat \<Rightarrow> bool) \<Rightarrow> nat \<Rightarrow> bool result" where
  "bs_test s i = (if i < PF_SLOTS then Inr (s i) else Inl Std_out_of_range)"

section \<open>Opening and closing\<close>

text \<open>The header object has the identifier \<open>PSDN\<close> from its member initialiser; \<open>d\<close> is the file on disk, if any.\<close>

definition pf_open_file :: "header_cb option \<Rightarrow> nat \<Rightarrow> disk_file option \<Rightarrow> paged_file \<Rightarrow> bool \<times> paged_file" where
  "pf_open_file cb file_type d f =
     (case d of
        None \<Rightarrow>
          (let h = (pf_header f)\<lparr>fh_ftype := file_type, fh_slots := (\<lambda>_. False),
                                 fh_payload := replicate FHEADER_PAYLOAD_SIZE 0\<rparr> in
           (True, f\<lparr>pf_open := True, pf_npages := 0, pf_header := run_cb cb Header_read h,
                    pf_disk := \<lparr>df_header = h, df_pages = []\<rparr>\<rparr>))
      | Some df \<Rightarrow>
          (let h = df_header df in
           if fh_fid h \<noteq> ''PSDN'' \<or> fh_ftype h \<noteq> file_type
           then (False, f\<lparr>pf_open := False, pf_header := h, pf_disk := df\<rparr>)
           else (True, f\<lparr>pf_open := True, pf_npages := length (df_pages df),
                         pf_header := run_cb cb Header_read h, pf_disk := df\<rparr>)))"

definition paged_file_new :: paged_file where
  "paged_file_new =
     \<lparr>pf_open = False, pf_npages = 0,
      pf_header = \<lparr>fh_fid = ''PSDN'', fh_ftype = 0, fh_slots = (\<lambda>_. False), fh_payload = []\<rparr>,
      pf_disk = \<lparr>df_header = \<lparr>fh_fid = '''', fh_ftype = 0, fh_slots = (\<lambda>_. False), fh_payload = []\<rparr>,
                 df_pages = []\<rparr>\<rparr>"

definition pf_set_callback :: "header_cb option \<Rightarrow> paged_file \<Rightarrow> paged_file" where
  "pf_set_callback cb f = f\<lparr>pf_header := run_cb cb Header_read (pf_header f)\<rparr>"

definition pf_close :: "header_cb option \<Rightarrow> paged_file \<Rightarrow> paged_file" where
  "pf_close cb f =
     (if \<not> pf_open f then f
      else let h = run_cb cb Header_write (pf_header f) in
           f\<lparr>pf_open := False, pf_header := h, pf_disk := (pf_disk f)\<lparr>df_header := h\<rparr>\<rparr>)"

section \<open>Pages\<close>

definition pf_pages :: "paged_file \<Rightarrow> page list" where
  "pf_pages f = df_pages (pf_disk f)"

definition pf_slots :: "paged_file \<Rightarrow> nat \<Rightarrow> bool" where
  "pf_slots f = fh_slots (pf_header f)"

definition pf_set_slot :: "nat \<Rightarrow> bool \<Rightarrow> paged_file \<Rightarrow> paged_file result" where
  "pf_set_slot i b f =
     (if i < PF_SLOTS
      then Inr (f\<lparr>pf_header := (pf_header f)\<lparr>fh_slots := (pf_slots f)(i := b)\<rparr>\<rparr>)
      else Inl Std_out_of_range)"

text \<open>Writing a page at a page position; a seek past the end leaves a gap of zero bytes.\<close>

definition pf_put :: "nat \<Rightarrow> page \<Rightarrow> paged_file \<Rightarrow> paged_file" where
  "pf_put i p f =
     (let ps = pf_pages f;
          ps' = (if i < length ps then ps[i := p]
                 else ps @ replicate (i - length ps) zero_page @ [p])
      in f\<lparr>pf_disk := (pf_disk f)\<lparr>df_pages := ps'\<rparr>\<rparr>)"

definition pf_find_first_slot :: "paged_file \<Rightarrow> nat result" where
  "pf_find_first_slot f =
     (case find (\<lambda>i. PF_SLOTS \<le> i \<or> \<not> pf_slots f i) [0..<pf_npages f] of
        None \<Rightarrow> Inr UNKNOWN
      | Some i \<Rightarrow> if i < PF_SLOTS then Inr i else Inl Std_out_of_range)"

definition pf_allocate_page :: "paged_file \<Rightarrow> (paged_file \<times> nat) result" where
  "pf_allocate_page f =
     rbind (pf_find_first_slot f) (\<lambda>i.
       let (f1, pid) =
         (if i \<noteq> UNKNOWN then (pf_put i zero_page f, i + 1)
          else let f' = pf_put (length (pf_pages f)) zero_page f\<lparr>pf_npages := pf_npages f + 1\<rparr>
               in (f', length (pf_pages f')))
       in if PF_SLOTS \<le> pid then Inl Assertion_failed
          else rbind (pf_set_slot (pid - 1) True f1) (\<lambda>f2. Inr (f2, pid)))"

fun pf_last_used :: "paged_file \<Rightarrow> nat \<Rightarrow> nat option result" where
  "pf_last_used f 0 = Inr None"
| "pf_last_used f (Suc i) =
     rbind (bs_test (pf_slots f) i) (\<lambda>b. if b then Inr (Some (i + 1)) else pf_last_used f i)"

definition pf_last_valid_page :: "paged_file \<Rightarrow> (paged_file \<times> nat) result" where
  "pf_last_valid_page f =
     rbind (pf_last_used f (pf_npages f)) (\<lambda>r.
       case r of Some pid \<Rightarrow> Inr (f, pid) | None \<Rightarrow> pf_allocate_page f)"

definition pf_free_page :: "nat \<Rightarrow> paged_file \<Rightarrow> (paged_file \<times> bool) result" where
  "pf_free_page pid f =
     (if pid = 0 \<or> pid - 1 > pf_npages f then Inr (f, False)
      else rbind (bs_test (pf_slots f) (pid - 1)) (\<lambda>b.
           if \<not> b then Inr (f, False)
           else rbind (pf_set_slot (pid - 1) False f) (\<lambda>f'. Inr (f', True))))"

text \<open>
  The log message of \<open>read_page\<close> tests the slot once more: for page 0, and for a
  page past the bitset, that test throws before the exception of the function does.
\<close>

definition pf_read_page :: "nat \<Rightarrow> paged_file \<Rightarrow> page result" where
  "pf_read_page pid f =
     (if pid = 0 then Inl Std_out_of_range
      else if pid - 1 > pf_npages f
      then rbind (bs_test (pf_slots f) (pid - 1)) (\<lambda>_. Inl Index_out_of_range)
      else rbind (bs_test (pf_slots f) (pid - 1)) (\<lambda>b.
           if \<not> b then Inl Index_out_of_range
           else if pid - 1 < length (pf_pages f) then Inr (pf_pages f ! (pid - 1))
           else Inl Stream_failed))"

definition pf_write_page :: "nat \<Rightarrow> page \<Rightarrow> paged_file \<Rightarrow> paged_file result" where
  "pf_write_page pid p f =
     (if pid = 0 \<or> pid - 1 > pf_npages f then Inl Index_out_of_range
      else rbind (bs_test (pf_slots f) (pid - 1)) (\<lambda>b.
           if \<not> b then Inl Index_out_of_range else Inr (pf_put (pid - 1) p f)))"

definition pf_is_valid :: "paged_file \<Rightarrow> nat \<Rightarrow> bool result" where
  "pf_is_valid f pid =
     (if pid < 1 \<or> pid > pf_npages f then Inr False else bs_test (pf_slots f) (pid - 1))"

text \<open>
  \<open>scan_pages\<close> reads until the stream reports its end, which happens in the round
  after the last page: that round leaves the page buffer as it was and calls back too if
  the bit behind the last page is set. The result is the sequence of callback arguments
  and the buffer.
\<close>

fun pf_scan_from :: "(nat \<Rightarrow> bool) \<Rightarrow> nat \<Rightarrow> page list \<Rightarrow> page \<Rightarrow> ((page \<times> nat) list \<times> page) result" where
  "pf_scan_from s i [] pg =
     rbind (bs_test s i) (\<lambda>b. Inr (if b then [(pg, i + 1)] else [], pg))"
| "pf_scan_from s i (p # ps) pg =
     rbind (bs_test s i) (\<lambda>b.
     rbind (pf_scan_from s (Suc i) ps p) (\<lambda>(cs, q).
     Inr (if b then (p, i + 1) # cs else cs, q)))"

definition pf_scan_pages :: "paged_file \<Rightarrow> page \<Rightarrow> ((page \<times> nat) list \<times> page) result" where
  "pf_scan_pages f pg = pf_scan_from (pf_slots f) 0 (pf_pages f) pg"

definition pf_truncate :: "paged_file \<Rightarrow> paged_file" where
  "pf_truncate f = f\<lparr>pf_header := (pf_header f)\<lparr>fh_slots := (\<lambda>_. False)\<rparr>\<rparr>"

section \<open>The contract of a page store\<close>

locale page_store =
  fixes inv :: "'f \<Rightarrow> bool"
    and content :: "'f \<Rightarrow> nat \<Rightarrow> 'p option"
    and read :: "nat \<Rightarrow> 'f \<Rightarrow> 'p result"
    and put :: "nat \<Rightarrow> 'p \<Rightarrow> 'f \<Rightarrow> 'f result"
  assumes read_law: "inv f \<Longrightarrow> content f pid = Some p \<Longrightarrow> read pid f = Inr p"
    and read_none: "inv f \<Longrightarrow> content f pid = None \<Longrightarrow> \<exists>e. read pid f = Inl e"
    and put_law: "inv f \<Longrightarrow> content f pid = Some q \<Longrightarrow>
      \<exists>f'. put pid p f = Inr f' \<and> inv f' \<and> content f' = (content f)(pid \<mapsto> p)"
    and put_none: "inv f \<Longrightarrow> content f pid = None \<Longrightarrow> \<exists>e. put pid p f = Inl e"
begin

lemma read_Inr_iff: "inv f \<Longrightarrow> read pid f = Inr p \<longleftrightarrow> content f pid = Some p"
  using read_law [of f pid p] read_law [of f pid] read_none [of f pid]
  by (cases "content f pid") auto

lemma putE:
  assumes "inv f" "put pid p f = Inr f'"
  obtains "inv f'" "content f' = (content f)(pid \<mapsto> p)" "content f pid \<noteq> None"
proof -
  from assms put_none [of f pid p] obtain q where "content f pid = Some q"
    by (cases "content f pid") auto
  with assms put_law [of f pid q p] that show ?thesis by auto
qed

lemma put_then_read:
  assumes "inv f" "put pid p f = Inr f'"
  shows "read pid f' = Inr p" "\<And>j q. j \<noteq> pid \<Longrightarrow> read j f = Inr q \<Longrightarrow> read j f' = Inr q"
  by (rule putE [OF assms]; use assms(1) in \<open>auto simp: read_Inr_iff\<close>)+

end

section \<open>Invariant\<close>

text \<open>
  The page counter is the length of the file, the bits past the file are clear, and the
  last bit of the bitset is never used (the assertion of \<open>allocate_page\<close>).
\<close>

definition pf_inv :: "paged_file \<Rightarrow> bool" where
  "pf_inv f \<longleftrightarrow> pf_npages f = length (pf_pages f) \<and> pf_npages f < PF_SLOTS \<and>
     (\<forall>i. pf_slots f i \<longrightarrow> i < pf_npages f)"

definition pf_content :: "paged_file \<Rightarrow> nat \<Rightarrow> page option" where
  "pf_content f pid =
     (if 0 < pid \<and> pid - 1 < length (pf_pages f) \<and> pf_slots f (pid - 1)
      then Some (pf_pages f ! (pid - 1)) else None)"

named_theorems pf_simps \<open>projections of file updates\<close>

lemma pf_put_simps [pf_simps]:
  "pf_slots (pf_put i p f) = pf_slots f" "pf_npages (pf_put i p f) = pf_npages f"
  "pf_pages (pf_put i p f) = (if i < length (pf_pages f) then (pf_pages f)[i := p]
     else pf_pages f @ replicate (i - length (pf_pages f)) zero_page @ [p])"
  by (simp_all add: pf_put_def pf_slots_def pf_pages_def Let_def)

lemma pf_set_slot_simps [pf_simps]:
  assumes "pf_set_slot i b f = Inr f'"
  shows "pf_slots f' = (pf_slots f)(i := b)" "pf_npages f' = pf_npages f" "pf_pages f' = pf_pages f"
  using assms by (auto simp: pf_set_slot_def pf_slots_def pf_pages_def split: if_splits)

lemma pf_content_valid: "pf_inv f \<Longrightarrow> pf_content f pid \<noteq> None \<longleftrightarrow> pf_is_valid f pid = Inr True"
  by (auto simp: pf_content_def pf_is_valid_def bs_test_def pf_inv_def)

lemma pf_read_law:
  assumes "pf_inv f" "pf_content f pid = Some p"
  shows "pf_read_page pid f = Inr p"
  using assms by (auto simp: pf_read_page_def pf_content_def pf_inv_def bs_test_def split: if_splits)

lemma pf_read_none:
  assumes "pf_inv f" "pf_content f pid = None"
  shows "\<exists>e. pf_read_page pid f = Inl e"
  using assms by (auto simp: pf_read_page_def pf_content_def pf_inv_def bs_test_def split: if_splits)

lemma pf_write_law:
  assumes "pf_inv f" "pf_content f pid = Some q"
  shows "\<exists>f'. pf_write_page pid p f = Inr f' \<and> pf_inv f' \<and> pf_content f' = (pf_content f)(pid \<mapsto> p)"
proof -
  from assms have v: "0 < pid" "pid - 1 < length (pf_pages f)" "pf_slots f (pid - 1)"
    by (auto simp: pf_content_def split: if_splits)
  with assms have "pf_write_page pid p f = Inr (pf_put (pid - 1) p f)"
    by (auto simp: pf_write_page_def bs_test_def pf_inv_def)
  moreover have "pf_inv (pf_put (pid - 1) p f)" using assms v by (auto simp: pf_inv_def pf_simps)
  moreover have "pf_content (pf_put (pid - 1) p f) = (pf_content f)(pid \<mapsto> p)"
  proof
    fix j
    show "pf_content (pf_put (pid - 1) p f) j = ((pf_content f)(pid \<mapsto> p)) j"
      using v by (cases "j = 0") (auto simp: pf_content_def pf_simps nth_list_update)
  qed
  ultimately show ?thesis by blast
qed

lemma pf_write_none:
  assumes "pf_inv f" "pf_content f pid = None"
  shows "\<exists>e. pf_write_page pid p f = Inl e"
  using assms by (auto simp: pf_write_page_def pf_content_def pf_inv_def bs_test_def split: if_splits)

interpretation pf: page_store pf_inv pf_content pf_read_page pf_write_page
  by unfold_locales (simp_all add: pf_read_law pf_read_none pf_write_law pf_write_none)

section \<open>Allocation\<close>

lemma PF_SLOTS_UNKNOWN: "PF_SLOTS < UNKNOWN"
  by (simp add: PF_SLOTS_def UNKNOWN_def)

lemma pf_find_first_slot_cases:
  assumes "pf_inv f"
  obtains (reuse) i where "pf_find_first_slot f = Inr i" "i < pf_npages f" "\<not> pf_slots f i" "i \<noteq> UNKNOWN"
  | (full) "pf_find_first_slot f = Inr UNKNOWN" "\<And>i. i < pf_npages f \<Longrightarrow> pf_slots f i"
proof (cases "find (\<lambda>i. PF_SLOTS \<le> i \<or> \<not> pf_slots f i) [0..<pf_npages f]")
  case None
  then show ?thesis using full unfolding find_upt_None by (simp add: pf_find_first_slot_def None)
next
  case (Some i)
  from find_upt_Some [OF Some] assms have "i < pf_npages f" "i < PF_SLOTS" "\<not> pf_slots f i"
    by (auto simp: pf_inv_def)
  then show ?thesis using reuse [of i] Some PF_SLOTS_UNKNOWN by (simp add: pf_find_first_slot_def)
qed

lemma pf_allocate_eq_reuse:
  assumes "pf_inv f" "pf_find_first_slot f = Inr i" "i < pf_npages f" "i \<noteq> UNKNOWN"
  shows "\<exists>f'. pf_allocate_page f = Inr (f', i + 1) \<and> pf_npages f' = pf_npages f \<and>
     pf_pages f' = (pf_pages f)[i := zero_page] \<and> pf_slots f' = (pf_slots f)(i := True)"
proof -
  have "i + 1 < PF_SLOTS" using assms by (simp add: pf_inv_def)
  then obtain f' where s: "pf_set_slot i True (pf_put i zero_page f) = Inr f'"
    by (simp add: pf_set_slot_def)
  show ?thesis
    using assms s \<open>i + 1 < PF_SLOTS\<close> pf_set_slot_simps [OF s]
    by (simp add: pf_allocate_page_def pf_simps pf_inv_def)
qed

lemma pf_allocate_eq_append:
  assumes "pf_inv f" "pf_find_first_slot f = Inr UNKNOWN" "pf_npages f + 1 < PF_SLOTS"
  shows "\<exists>f'. pf_allocate_page f = Inr (f', pf_npages f + 1) \<and> pf_npages f' = pf_npages f + 1 \<and>
     pf_pages f' = pf_pages f @ [zero_page] \<and> pf_slots f' = (pf_slots f)(pf_npages f := True)"
proof -
  let ?f = "pf_put (length (pf_pages f)) zero_page f\<lparr>pf_npages := pf_npages f + 1\<rparr>"
  have p: "pf_pages ?f = pf_pages f @ [zero_page]" "pf_slots ?f = pf_slots f"
    "pf_npages ?f = pf_npages f + 1"
    by (simp_all add: pf_put_def pf_pages_def pf_slots_def Let_def)
  from assms obtain f' where s: "pf_set_slot (pf_npages f) True ?f = Inr f'"
    by (simp add: pf_set_slot_def)
  have len: "length (pf_pages f) = pf_npages f" using assms by (simp add: pf_inv_def)
  show ?thesis
    using assms(2,3) s pf_set_slot_simps [OF s] p len
    by (simp add: pf_allocate_page_def Let_def)
qed

lemma pf_content_upd:
  assumes "pf_inv f" "pf_slots f' = (pf_slots f)(i := True)" "pf_pages f' ! i = p"
    "i < length (pf_pages f')" "\<And>j. j \<noteq> i \<Longrightarrow> j < length (pf_pages f') \<longleftrightarrow> j < length (pf_pages f)"
    "\<And>j. j \<noteq> i \<Longrightarrow> j < length (pf_pages f) \<Longrightarrow> pf_pages f' ! j = pf_pages f ! j"
  shows "pf_content f' = (pf_content f)(i + 1 \<mapsto> p)"
proof
  fix j
  show "pf_content f' j = ((pf_content f)(i + 1 \<mapsto> p)) j"
  proof (cases j)
    case (Suc k)
    then show ?thesis using assms by (cases "k = i") (auto simp: pf_content_def)
  qed (simp add: pf_content_def)
qed

lemma pf_allocate_spec:
  assumes "pf_inv f" "pf_npages f + 1 < PF_SLOTS \<or> (\<exists>i<pf_npages f. \<not> pf_slots f i)"
  shows "\<exists>f' pid. pf_allocate_page f = Inr (f', pid) \<and> pf_inv f' \<and> 0 < pid \<and> pid < PF_SLOTS \<and>
     pf_content f pid = None \<and> pf_content f' = (pf_content f)(pid \<mapsto> zero_page) \<and>
     (pid \<le> pf_npages f \<or> (\<forall>i<pf_npages f. pf_slots f i))"
proof (rule pf_find_first_slot_cases [OF assms(1)])
  fix i assume i: "pf_find_first_slot f = Inr i" "i < pf_npages f" "\<not> pf_slots f i" "i \<noteq> UNKNOWN"
  from pf_allocate_eq_reuse [OF assms(1) i(1,2,4)] obtain f' where f':
    "pf_allocate_page f = Inr (f', i + 1)" "pf_npages f' = pf_npages f"
    "pf_pages f' = (pf_pages f)[i := zero_page]" "pf_slots f' = (pf_slots f)(i := True)" by blast
  have "pf_content f' = (pf_content f)(i + 1 \<mapsto> zero_page)"
    by (rule pf_content_upd [OF assms(1)]) (use f' i assms(1) in \<open>auto simp: pf_inv_def\<close>)
  moreover have "pf_inv f'" "pf_content f (i + 1) = None" "i + 1 < PF_SLOTS"
    using f' i assms(1) by (auto simp: pf_inv_def pf_content_def)
  ultimately show ?thesis using f' i by auto
next
  assume fu: "pf_find_first_slot f = Inr UNKNOWN" "\<And>i. i < pf_npages f \<Longrightarrow> pf_slots f i"
  with assms have sz: "pf_npages f + 1 < PF_SLOTS" by auto
  from pf_allocate_eq_append [OF assms(1) fu(1) sz] obtain f' where f':
    "pf_allocate_page f = Inr (f', pf_npages f + 1)" "pf_npages f' = pf_npages f + 1"
    "pf_pages f' = pf_pages f @ [zero_page]" "pf_slots f' = (pf_slots f)(pf_npages f := True)" by blast
  have "pf_content f' = (pf_content f)(pf_npages f + 1 \<mapsto> zero_page)"
    by (rule pf_content_upd [OF assms(1)]) (use f' assms(1) in \<open>auto simp: pf_inv_def nth_append\<close>)
  moreover have "pf_inv f'" "pf_content f (pf_npages f + 1) = None"
    using f' sz assms(1) by (auto simp: pf_inv_def pf_content_def less_SucI)
  ultimately show ?thesis using f' fu sz by auto
qed

lemma pf_free_spec:
  assumes "pf_inv f" "pf_content f pid = Some p"
  shows "\<exists>f'. pf_free_page pid f = Inr (f', True) \<and> pf_inv f' \<and> pf_content f' = (pf_content f)(pid := None) \<and>
     pf_npages f' = pf_npages f \<and> \<not> pf_slots f' (pid - 1) \<and> pid - 1 < pf_npages f'"
proof -
  from assms have v: "0 < pid" "pid - 1 < length (pf_pages f)" "pf_slots f (pid - 1)"
    by (auto simp: pf_content_def split: if_splits)
  with assms(1) have sl: "pid - 1 < PF_SLOTS" "pid - 1 < pf_npages f" by (auto simp: pf_inv_def)
  then obtain f' where s: "pf_set_slot (pid - 1) False f = Inr f'" by (simp add: pf_set_slot_def)
  note p = pf_set_slot_simps [OF s]
  have "pf_free_page pid f = Inr (f', True)" using v sl s by (simp add: pf_free_page_def bs_test_def)
  moreover have "pf_content f' = (pf_content f)(pid := None)"
  proof
    fix j show "pf_content f' j = ((pf_content f)(pid := None)) j"
      using v p by (cases j; cases pid) (auto simp: pf_content_def)
  qed
  ultimately show ?thesis using p sl assms(1) by (auto simp: pf_inv_def)
qed

text \<open>
  Allocation of pages: as long as the file has a free slot or fewer than 65535 pages,
  \<open>allocate_page\<close> returns a page id that was not valid, whose page is zeroed; every other page
  keeps its content, the file keeps its invariant, and a freed page is reused before the
  file grows.
\<close>

theorem pf_allocate_page_fresh:
  assumes "pf_inv f" "pf_npages f + 1 < PF_SLOTS \<or> (\<exists>i<pf_npages f. \<not> pf_slots f i)"
  shows "\<exists>f' pid. pf_allocate_page f = Inr (f', pid) \<and> pf_inv f' \<and>
     pf_is_valid f pid = Inr False \<and> pf_read_page pid f' = Inr zero_page \<and>
     (\<forall>j p. pf_read_page j f = Inr p \<longrightarrow> pf_read_page j f' = Inr p) \<and>
     (pid \<le> pf_npages f \<or> (\<forall>i<pf_npages f. pf_slots f i))"
proof -
  from pf_allocate_spec [OF assms] obtain f' pid where a: "pf_allocate_page f = Inr (f', pid)"
    "pf_inv f'" "0 < pid" "pid < PF_SLOTS" "pf_content f pid = None"
    "pf_content f' = (pf_content f)(pid \<mapsto> zero_page)"
    "pid \<le> pf_npages f \<or> (\<forall>i<pf_npages f. pf_slots f i)" by blast
  have "pf_is_valid f pid \<noteq> Inr True" using a(5) pf_content_valid [OF assms(1), of pid] by simp
  then have "pf_is_valid f pid = Inr False"
    using a(4) by (auto simp: pf_is_valid_def bs_test_def split: if_splits)
  moreover have "pf_read_page pid f' = Inr zero_page" using a by (simp add: pf_read_law)
  moreover have "pf_read_page j f' = Inr p" if "pf_read_page j f = Inr p" for j p
    using that a assms(1) by (auto simp: pf.read_Inr_iff)
  ultimately show ?thesis using a by blast
qed

definition pf_demo :: paged_file where
  "pf_demo = snd (pf_open_file None 1 None paged_file_new)"

lemma pf_demo_inv: "pf_inv pf_demo"
  by (simp add: pf_inv_def pf_demo_def pf_open_file_def pf_slots_def pf_pages_def Let_def run_cb_def
      PF_SLOTS_def)

theorem pf_allocate_page_fresh_witness:
  "\<exists>f' pid. pf_allocate_page pf_demo = Inr (f', pid) \<and> pf_read_page pid f' = Inr zero_page"
proof -
  have "pf_npages pf_demo + 1 < PF_SLOTS"
    by (simp add: pf_demo_def pf_open_file_def Let_def PF_SLOTS_def)
  with pf_allocate_page_fresh [OF pf_demo_inv] show ?thesis by blast
qed

section \<open>Persistence\<close>

text \<open>
  Round trip through the disk: a file that is closed and opened again, with the type it
  was written with, has the same pages readable with the same contents, and its invariant.
\<close>

theorem pf_close_open_roundtrip:
  assumes "pf_inv f" "pf_open f" "fh_fid (pf_header f) = ''PSDN''"
  shows "\<exists>f'. pf_open_file None (fh_ftype (pf_header f)) (Some (pf_disk (pf_close None f))) g = (True, f') \<and>
     pf_inv f' \<and> pf_open f' \<and> pf_npages f' = pf_npages f \<and> (\<forall>pid. pf_read_page pid f' = pf_read_page pid f)"
proof -
  let ?d = "(pf_disk f)\<lparr>df_header := pf_header f\<rparr>"
  let ?f = "g\<lparr>pf_open := True, pf_npages := length (df_pages ?d), pf_header := pf_header f, pf_disk := ?d\<rparr>"
  have "pf_disk (pf_close None f) = ?d"
    using assms(2) by (simp add: pf_close_def run_cb_def)
  then have "pf_open_file None (fh_ftype (pf_header f)) (Some (pf_disk (pf_close None f))) g = (True, ?f)"
    using assms(3) by (simp add: pf_open_file_def run_cb_def Let_def)
  moreover have p: "pf_slots ?f = pf_slots f" "pf_pages ?f = pf_pages f" "pf_npages ?f = pf_npages f"
    using assms(1) by (simp_all add: pf_slots_def pf_pages_def pf_inv_def)
  moreover have "pf_inv ?f" unfolding pf_inv_def p using assms(1) unfolding pf_inv_def .
  moreover have "pf_read_page pid ?f = pf_read_page pid f" for pid
    unfolding pf_read_page_def p ..
  ultimately show ?thesis by simp
qed

theorem pf_close_open_roundtrip_witness:
  "\<exists>f'. pf_open_file None 1 (Some (pf_disk (pf_close None pf_demo))) paged_file_new = (True, f') \<and> pf_inv f'"
proof -
  have "pf_open pf_demo" "fh_fid (pf_header pf_demo) = ''PSDN''" "fh_ftype (pf_header pf_demo) = 1"
    by (simp_all add: pf_demo_def pf_open_file_def Let_def run_cb_def paged_file_new_def)
  with pf_close_open_roundtrip [OF pf_demo_inv, of paged_file_new] show ?thesis by auto
qed

text \<open>
  \<open>read_page\<close> documents \<open>index_out_of_range\<close> for an invalid page, and its log message
  tests the slot of page 0 at position \<open>2^64 - 1\<close>: for page 0 the caller gets \<open>std::out_of_range\<close>,
  whereas \<open>write_page\<close> of the same page throws \<open>index_out_of_range\<close>; for the other pages that
  are not valid both throw \<open>index_out_of_range\<close>.
\<close>

theorem pf_invalid_page_errors:
  assumes "pf_inv f"
  shows "pf_read_page 0 f = Inl Std_out_of_range \<and> pf_write_page 0 p f = Inl Index_out_of_range \<and>
    (\<forall>pid. 0 < pid \<and> pid \<le> PF_SLOTS \<and> pf_is_valid f pid = Inr False \<longrightarrow>
       pf_read_page pid f = Inl Index_out_of_range \<and> pf_write_page pid p f = Inl Index_out_of_range)"
  using assms by (auto simp: pf_read_page_def pf_write_page_def pf_is_valid_def bs_test_def pf_inv_def
      split: if_splits)

theorem pf_invalid_page_errors_witness:
  "pf_read_page 5 pf_demo = Inl Index_out_of_range"
proof -
  have "pf_is_valid pf_demo 5 = Inr False"
    by (simp add: pf_is_valid_def pf_demo_def pf_open_file_def Let_def)
  then show ?thesis using pf_invalid_page_errors [OF pf_demo_inv] by (simp add: PF_SLOTS_def)
qed

end
