(* ===== verification/Bufferpool.thy ===== *)
theory Bufferpool
  imports Lru_List Paged_File
begin

unbundle bit_operations_syntax

text \<open>
  The page cache, \<^verbatim>\<open>src/src/bp_file/bufferpool.hpp\<close> and \<^verbatim>\<open>bufferpool.cpp\<close>: the buffer, the
  bitset of free buffer slots, the hash table from page ids to buffer slots, the
  replacement list of \<open>Lru_List\<close> and the registered files of \<open>Paged_File\<close>. A page pointer
  is a position of the buffer. The hash table is an association list, in the order its
  iterator visits the entries. Operations are actions, because a caller that catches
  the exception of a read still sees what the pool did before it.

  The representation invariant \<open>bp_wf\<close> ties the five parts together; \<open>bp_view\<close> is the content a
  page has for the clients of the pool, cached or not.
\<close>

section \<open>Page identifiers\<close>

definition raw_pid :: "page_id \<Rightarrow> nat" where
  "raw_pid pid = unat (pid AND 0xFFFFFFFFFFFFFFF)"

definition file_of :: "page_id \<Rightarrow> nat" where
  "file_of pid = unat (drop_bit 60 (pid AND 0xF000000000000000))"

definition mk_pid :: "nat \<Rightarrow> nat \<Rightarrow> page_id" where
  "mk_pid file_id raw = (of_nat raw OR push_bit 60 (of_nat file_id))"

lemma raw_pid_mod: "raw_pid pid = unat pid mod 2 ^ 60"
proof -
  have m: "(0xFFFFFFFFFFFFFFF :: page_id) = mask 60" by (simp add: mask_eq_exp_minus_1)
  show ?thesis unfolding raw_pid_def m take_bit_eq_mask [symmetric] unsigned_take_bit_eq
    by (rule take_bit_eq_mod)
qed

lemma file_of_div: "file_of pid = unat pid div 2 ^ 60"
proof -
  have dr: "unat (drop_bit 60 pid) = unat pid div 2 ^ 60"
    unfolding unat_drop_bit_eq by (rule drop_bit_eq_div)
  have "unat pid < 2 ^ 64" using unsigned_less [of pid] by simp
  with dr have lt: "unat (drop_bit 60 pid) < 2 ^ 4" by (simp add: div_less_iff_less_mult)
  have "drop_bit 60 (pid AND 0xF000000000000000) = drop_bit 60 pid AND 0xF"
    by (simp add: drop_bit_and)
  also have "(0xF :: page_id) = mask 4" by (simp add: mask_eq_exp_minus_1)
  finally have "file_of pid = take_bit 4 (unat (drop_bit 60 pid))"
    unfolding file_of_def by (simp add: take_bit_eq_mask [symmetric] unsigned_take_bit_eq)
  also have "\<dots> = unat (drop_bit 60 pid)" using lt by (simp add: take_bit_nat_eq_self)
  finally show ?thesis using dr by simp
qed

lemma file_of_less: "file_of pid < 16"
proof -
  have "unat pid < 2 ^ 64" using unsigned_less [of pid] by simp
  then show ?thesis by (simp add: file_of_div div_less_iff_less_mult)
qed

lemma pid_split_inj: "file_of p = file_of q \<Longrightarrow> raw_pid p = raw_pid q \<Longrightarrow> p = q"
  unfolding raw_pid_mod file_of_div by (metis div_mod_decomp unsigned_word_eqI)

lemma unat_mk_pid:
  assumes "raw < 2 ^ 60" "file_id < 16"
  shows "unat (mk_pid file_id raw) = file_id * 2 ^ 60 + raw"
proof -
  have r: "unat (of_nat raw :: page_id) = raw" "unat (of_nat file_id :: page_id) = file_id"
    using assms by (simp_all add: unat_of_nat)
  have p: "unat (push_bit 60 (of_nat file_id :: page_id)) = push_bit 60 file_id"
    using assms unfolding unsigned_push_bit_eq r
    by (simp add: push_bit_eq_mult take_bit_nat_eq_self)
  have t: "take_bit 60 raw = raw" using assms(1) by (simp add: take_bit_nat_eq_self)
  have "n < 60" if "bit raw n" for n using that t by (metis bit_take_bit_iff)
  then have "raw AND push_bit 60 file_id = 0"
    by (intro bit_eqI) (auto simp: bit_simps dest: leD)
  then show ?thesis
    unfolding mk_pid_def unsigned_or_eq r p
    by (simp add: push_bit_eq_mult flip: disjunctive_add_eq_or)
qed

lemma mk_pid_parts:
  assumes "raw < 2 ^ 60" "file_id < 16"
  shows "raw_pid (mk_pid file_id raw) = raw" "file_of (mk_pid file_id raw) = file_id"
  using assms unat_mk_pid [OF assms] by (simp_all add: raw_pid_mod file_of_div)

section \<open>The page table\<close>

declare map_of_eq_Some_iff [simp del]

record buf_slot =
  bs_p :: nat
  bs_dirty :: bool
  bs_pinned :: bool
  bs_pos :: nat
  bs_lru :: nat

type_synonym ptable = "(page_id \<times> buf_slot) list"

definition pt_emplace :: "page_id \<Rightarrow> buf_slot \<Rightarrow> ptable \<Rightarrow> ptable" where
  "pt_emplace pid s t = (if map_of t pid = None then t @ [(pid, s)] else t)"

definition pt_erase :: "page_id \<Rightarrow> ptable \<Rightarrow> ptable" where
  "pt_erase pid t = filter (\<lambda>(k, _). k \<noteq> pid) t"

definition pt_modify :: "page_id \<Rightarrow> (buf_slot \<Rightarrow> buf_slot) \<Rightarrow> ptable \<Rightarrow> ptable" where
  "pt_modify pid f t = map (\<lambda>(k, s). (k, if k = pid then f s else s)) t"

lemma map_of_emplace: "map_of t pid = None \<Longrightarrow> map_of (pt_emplace pid s t) = (map_of t)(pid \<mapsto> s)"
  by (rule ext) (auto simp: pt_emplace_def map_add_def split: option.splits)

lemma map_of_erase: "map_of (pt_erase pid t) = (map_of t)(pid := None)"
  by (induction t) (auto simp: pt_erase_def)

lemma map_of_modify: "map_of (pt_modify pid f t) = (map_of t)(pid := map_option f (map_of t pid))"
  by (induction t) (auto simp: pt_modify_def)

lemma pt_keys:
  "map fst (pt_modify pid f t) = map fst t" "map fst (pt_erase pid t) = filter (\<lambda>k. k \<noteq> pid) (map fst t)"
  "map_of t pid = None \<Longrightarrow> map fst (pt_emplace pid s t) = map fst t @ [pid]"
  by (simp_all add: pt_modify_def pt_erase_def pt_emplace_def filter_map comp_def case_prod_beta')

section \<open>State and operations\<close>

definition MAX_PFILES :: nat where
  "MAX_PFILES = 15"

record bufferpool =
  bp_bsize :: nat
  bp_buffer :: "page list"
  bp_lru :: lru_list
  bp_ptable :: ptable
  bp_slots :: "bool list"
  bp_files :: "nat \<Rightarrow> paged_file option"
  bp_p_reads :: nat
  bp_l_reads :: nat

definition bp_new :: "nat \<Rightarrow> bufferpool" where
  "bp_new bsize = \<lparr>bp_bsize = bsize, bp_buffer = replicate bsize zero_page, bp_lru = lru_new,
     bp_ptable = [], bp_slots = replicate bsize True, bp_files = (\<lambda>_. None),
     bp_p_reads = 0, bp_l_reads = 0\<rparr>"

definition bp_set_pinned :: "bool \<Rightarrow> page_id \<Rightarrow> bufferpool \<Rightarrow> bufferpool" where
  "bp_set_pinned b pid bp = bp\<lparr>bp_ptable := pt_modify pid (\<lambda>s. s\<lparr>bs_pinned := b\<rparr>) (bp_ptable bp)\<rparr>"

definition bp_pin_page :: "page_id \<Rightarrow> bufferpool \<Rightarrow> bufferpool" where
  "bp_pin_page = bp_set_pinned True"

definition bp_unpin_page :: "page_id \<Rightarrow> bufferpool \<Rightarrow> bufferpool" where
  "bp_unpin_page = bp_set_pinned False"

definition bp_register_file :: "nat \<Rightarrow> paged_file \<Rightarrow> bufferpool \<Rightarrow> bufferpool result" where
  "bp_register_file file_id pf bp =
     (if file_id < MAX_PFILES then Inr (bp\<lparr>bp_files := (bp_files bp)(file_id \<mapsto> pf)\<rparr>)
      else Inl Assertion_failed)"

definition bp_get_file :: "nat \<Rightarrow> bufferpool \<Rightarrow> paged_file result" where
  "bp_get_file file_id bp =
     (if file_id < MAX_PFILES then
        (case bp_files bp file_id of None \<Rightarrow> Inl Assertion_failed | Some f \<Rightarrow> Inr f)
      else Inl Assertion_failed)"

definition bp_put_file :: "nat \<Rightarrow> paged_file \<Rightarrow> bufferpool \<Rightarrow> bufferpool" where
  "bp_put_file file_id f bp = bp\<lparr>bp_files := (bp_files bp)(file_id \<mapsto> f)\<rparr>"

definition bp_write_page_to_file :: "page_id \<Rightarrow> nat \<Rightarrow> bufferpool \<Rightarrow> bufferpool result" where
  "bp_write_page_to_file pid p bp =
     rbind (bp_get_file (file_of pid) bp) (\<lambda>f.
     rbind (pf_write_page (raw_pid pid) (bp_buffer bp ! p) f) (\<lambda>f'.
     Inr (bp_put_file (file_of pid) f' bp)))"

definition bp_find_slot :: "bufferpool \<Rightarrow> nat option" where
  "bp_find_slot bp = find (\<lambda>i. bp_slots bp ! i) [0..<length (bp_slots bp)]"

text \<open>The slot is marked occupied before the page is read, and stays so if the read throws.\<close>

definition bp_load_page_from_file :: "page_id \<Rightarrow> (bufferpool, nat) action" where
  "bp_load_page_from_file pid bp =
     (case bp_find_slot bp of
        None \<Rightarrow> (Inl Bufferpool_overrun, bp)
      | Some pos \<Rightarrow>
          (let bp1 = bp\<lparr>bp_slots := (bp_slots bp)[pos := False]\<rparr> in
           case rbind (bp_get_file (file_of pid) bp1) (pf_read_page (raw_pid pid)) of
             Inl e \<Rightarrow> (Inl e, bp1)
           | Inr p \<Rightarrow> (Inr pos, bp1\<lparr>bp_buffer := (bp_buffer bp1)[pos := p]\<rparr>)))"

text \<open>\<open>sizeof(PF_PAGE_SIZE)\<close> is the size of an \<open>int\<close> literal: four bytes are cleared.\<close>

definition memset4 :: "page \<Rightarrow> page" where
  "memset4 p = (\<lambda>i. if i < 4 then 0 else p i)"

definition bp_memset :: "nat \<Rightarrow> bufferpool \<Rightarrow> bufferpool" where
  "bp_memset p bp =
     bp\<lparr>bp_buffer := (bp_buffer bp)[p := memset4 (bp_buffer bp ! p)]\<rparr>"

definition bp_lru_remove :: "nat \<Rightarrow> bufferpool \<Rightarrow> bufferpool result" where
  "bp_lru_remove n bp = rbind (lru_remove n (bp_lru bp)) (\<lambda>l. Inr (bp\<lparr>bp_lru := l\<rparr>))"

definition bp_victim :: "ptable \<Rightarrow> page_id list \<Rightarrow> page_id option" where
  "bp_victim t pids = find (\<lambda>pid. case map_of t pid of None \<Rightarrow> False | Some s \<Rightarrow> \<not> bs_pinned s) pids"

definition bp_evict_page :: "bufferpool \<Rightarrow> (bufferpool \<times> bool) result" where
  "bp_evict_page bp =
     rbind (lru_pids (bp_lru bp)) (\<lambda>pids.
       case bp_victim (bp_ptable bp) pids of
         None \<Rightarrow> Inr (bp, False)
       | Some pid \<Rightarrow>
           (let s = the (map_of (bp_ptable bp) pid) in
            rbind (if bs_dirty s then bp_write_page_to_file pid (bs_p s) bp else Inr bp) (\<lambda>bp1.
            let bp2 = bp_memset (bs_p s) (bp1\<lparr>bp_slots := (bp_slots bp1)[bs_pos s := True]\<rparr>) in
            rbind (bp_lru_remove (bs_lru s) bp2) (\<lambda>bp3.
            Inr (bp3\<lparr>bp_ptable := pt_erase pid (bp_ptable bp3)\<rparr>, True)))))"

text \<open>Making room when the list holds as many pages as the pool, and entering a loaded page.\<close>

definition bp_make_room :: "(bufferpool, unit) action" where
  "bp_make_room = supd (\<lambda>b. if lru_size (bp_lru b) = bp_bsize b
     then rbind (bp_evict_page b) (\<lambda>(b', res). if res then Inr b' else Inl Assertion_failed)
     else Inr b)"

definition bp_admit :: "page_id \<Rightarrow> nat \<Rightarrow> (bufferpool, unit) action" where
  "bp_admit pid pos = supd (\<lambda>b. rbind (lru_add_to_mru pid (bp_lru b)) (\<lambda>(l, n).
     Inr (b\<lparr>bp_lru := l,
            bp_ptable := pt_emplace pid
              \<lparr>bs_p = pos, bs_dirty = False, bs_pinned = False, bs_pos = pos, bs_lru = n\<rparr>
              (bp_ptable b)\<rparr>)))"

definition bp_fetch_page :: "page_id \<Rightarrow> (bufferpool, nat) action" where
  "bp_fetch_page pid bp =
     (let bp0 = bp\<lparr>bp_l_reads := bp_l_reads bp + 1\<rparr> in
      case map_of (bp_ptable bp0) pid of
        Some s \<Rightarrow>
          (case lru_move_to_mru (bs_lru s) (bp_lru bp0) of
             Inl e \<Rightarrow> (Inl e, bp0)
           | Inr l \<Rightarrow> (Inr (bs_p s), bp0\<lparr>bp_lru := l\<rparr>))
      | None \<Rightarrow>
          sbind bp_make_room (\<lambda>_.
          sbind (bp_load_page_from_file pid) (\<lambda>pos.
          sbind (bp_admit pid pos) (\<lambda>_.
          sret pos))) bp0)"

definition bp_allocate_page :: "nat \<Rightarrow> (bufferpool, nat \<times> nat) action" where
  "bp_allocate_page file_id bp =
     (case rbind (bp_get_file file_id bp) pf_allocate_page of
        Inl e \<Rightarrow> (Inl e, bp)
      | Inr (f, pid) \<Rightarrow>
          sbind (bp_fetch_page (mk_pid file_id pid)) (\<lambda>p. sret (p, pid)) (bp_put_file file_id f bp))"

definition bp_last_valid_page :: "nat \<Rightarrow> (bufferpool, nat \<times> nat) action" where
  "bp_last_valid_page file_id bp =
     (case rbind (bp_get_file file_id bp) pf_last_valid_page of
        Inl e \<Rightarrow> (Inl e, bp)
      | Inr (f, pid) \<Rightarrow>
          sbind (bp_fetch_page (mk_pid file_id pid)) (\<lambda>p. sret (p, pid)) (bp_put_file file_id f bp))"

definition bp_free_page :: "page_id \<Rightarrow> bufferpool \<Rightarrow> bufferpool result" where
  "bp_free_page pid bp =
     (case map_of (bp_ptable bp) pid of
        None \<Rightarrow> Inr bp
      | Some s \<Rightarrow>
          rbind (bp_get_file (file_of pid) bp) (\<lambda>f.
          rbind (bp_lru_remove (bs_lru s) (bp_memset (bs_p s) bp)) (\<lambda>bp1.
          let bp2 = bp1\<lparr>bp_ptable := pt_erase pid (bp_ptable bp1)\<rparr> in
          rbind (pf_free_page (raw_pid pid) f) (\<lambda>(f', _). Inr (bp_put_file (file_of pid) f' bp2)))))"

definition bp_mark_dirty :: "page_id \<Rightarrow> bufferpool \<Rightarrow> bufferpool" where
  "bp_mark_dirty pid bp = bp\<lparr>bp_ptable := pt_modify pid (\<lambda>s. s\<lparr>bs_dirty := True\<rparr>) (bp_ptable bp)\<rparr>"

definition bp_flush_entry :: "page_id \<Rightarrow> buf_slot \<Rightarrow> bufferpool \<Rightarrow> bufferpool result" where
  "bp_flush_entry pid s bp =
     (if bs_dirty s then
        rbind (bp_write_page_to_file pid (bs_p s) bp) (\<lambda>bp1.
        Inr (bp1\<lparr>bp_ptable := pt_modify pid (\<lambda>s. s\<lparr>bs_dirty := False\<rparr>) (bp_ptable bp1)\<rparr>))
      else Inr bp)"

fun bp_flush_entries :: "(page_id \<Rightarrow> bool) \<Rightarrow> ptable \<Rightarrow> bufferpool \<Rightarrow> bufferpool result" where
  "bp_flush_entries P [] bp = Inr bp"
| "bp_flush_entries P ((pid, s) # es) bp =
     rbind (if P pid then bp_flush_entry pid s bp else Inr bp) (bp_flush_entries P es)"

definition bp_flush_all :: "bufferpool \<Rightarrow> bufferpool result" where
  "bp_flush_all bp = bp_flush_entries (\<lambda>_. True) (bp_ptable bp) bp"

definition bp_flush_pages :: "nat \<Rightarrow> bufferpool \<Rightarrow> bufferpool result" where
  "bp_flush_pages file_id bp = bp_flush_entries (\<lambda>pid. file_of pid = file_id) (bp_ptable bp) bp"

definition bp_flush_page :: "page_id \<Rightarrow> bool \<Rightarrow> bufferpool \<Rightarrow> bufferpool result" where
  "bp_flush_page pid evict bp =
     (case map_of (bp_ptable bp) pid of
        None \<Rightarrow> Inr bp
      | Some s \<Rightarrow>
          rbind (bp_flush_entry pid s bp) (\<lambda>bp1.
          if evict then
            rbind (bp_lru_remove (bs_lru s) bp1) (\<lambda>bp2.
            let bp3 = bp_memset (bs_p s) (bp2\<lparr>bp_slots := (bp_slots bp2)[bs_pos s := True]\<rparr>) in
            Inr (bp3\<lparr>bp_ptable := pt_erase pid (bp_ptable bp3)\<rparr>))
          else Inr bp1))"

definition bp_purge :: "bufferpool \<Rightarrow> bufferpool result" where
  "bp_purge bp =
     rbind (lru_clear (bp_lru bp)) (\<lambda>l.
     Inr (bp\<lparr>bp_slots := replicate (length (bp_slots bp)) True, bp_lru := l, bp_ptable := [],
             bp_buffer := replicate (bp_bsize bp) zero_page\<rparr>))"

definition bp_has_page :: "bufferpool \<Rightarrow> page_id \<Rightarrow> bool" where
  "bp_has_page bp pid = (map_of (bp_ptable bp) pid \<noteq> None)"

text \<open>
  \<open>scan_file\<close> borrows a free slot as read buffer and returns the pages given to the callback;
  flipping the position \<open>npos\<close> of a full bitset is outside the bitset.
\<close>

definition bp_scan_file :: "nat \<Rightarrow> bufferpool \<Rightarrow> (bufferpool \<times> page list) result" where
  "bp_scan_file file_id bp =
     rbind (bp_get_file file_id bp) (\<lambda>_.
     rbind (if bp_find_slot bp = None then rbind (bp_evict_page bp) (\<lambda>(b, _). Inr b) else Inr bp) (\<lambda>bp1.
     case bp_find_slot bp1 of
       None \<Rightarrow> Inl Undefined_behaviour
     | Some pos \<Rightarrow>
         rbind (bp_get_file file_id bp1) (\<lambda>f.
         rbind (pf_scan_pages f (bp_buffer bp1 ! pos)) (\<lambda>(cs, pg).
         Inr (bp1\<lparr>bp_buffer := (bp_buffer bp1)[pos := pg],
                  bp_l_reads := bp_l_reads bp1 + length cs, bp_p_reads := bp_p_reads bp1 + length cs\<rparr>,
              map fst cs)))))"

text \<open>Numerator and denominator of the hit ratio.\<close>

definition bp_hit_ratio :: "bufferpool \<Rightarrow> int \<times> int" where
  "bp_hit_ratio bp = (int (bp_l_reads bp) - int (bp_p_reads bp), int (bp_l_reads bp))"

text \<open>A client writing through the page pointer that \<open>fetch_page\<close> returned.\<close>

definition bp_poke :: "nat \<Rightarrow> page \<Rightarrow> bufferpool \<Rightarrow> bufferpool" where
  "bp_poke p pg bp = bp\<lparr>bp_buffer := (bp_buffer bp)[p := pg]\<rparr>"

section \<open>Invariant and view\<close>

definition bp_disk :: "bufferpool \<Rightarrow> page_id \<Rightarrow> page option" where
  "bp_disk bp pid = (case bp_files bp (file_of pid) of None \<Rightarrow> None | Some f \<Rightarrow> pf_content f (raw_pid pid))"

definition bp_view :: "bufferpool \<Rightarrow> page_id \<Rightarrow> page option" where
  "bp_view bp pid =
     (case map_of (bp_ptable bp) pid of Some s \<Rightarrow> Some (bp_buffer bp ! bs_p s) | None \<Rightarrow> bp_disk bp pid)"

definition bp_files_ok :: "bufferpool \<Rightarrow> bool" where
  "bp_files_ok bp \<longleftrightarrow> (\<forall>i f. bp_files bp i = Some f \<longrightarrow> i < MAX_PFILES \<and> pf_inv f)"

definition bp_entry_ok :: "bufferpool \<Rightarrow> nat list \<Rightarrow> page_id \<Rightarrow> buf_slot \<Rightarrow> bool" where
  "bp_entry_ok bp xs pid s \<longleftrightarrow>
     bs_p s = bs_pos s \<and> bs_pos s < bp_bsize bp \<and> \<not> bp_slots bp ! bs_pos s \<and>
     bs_lru s \<in> set xs \<and> lru_pid_of (bp_lru bp) (bs_lru s) = pid \<and> bp_disk bp pid \<noteq> None \<and>
     (\<not> bs_dirty s \<longrightarrow> bp_disk bp pid = Some (bp_buffer bp ! bs_p s))"

definition bp_wf :: "bufferpool \<Rightarrow> nat list \<Rightarrow> bool" where
  "bp_wf bp xs \<longleftrightarrow>
     length (bp_buffer bp) = bp_bsize bp \<and> length (bp_slots bp) = bp_bsize bp \<and>
     count_list (bp_slots bp) False = length xs \<and>
     lru_rep (bp_lru bp) xs \<and> bp_files_ok bp \<and> distinct (map fst (bp_ptable bp)) \<and>
     (\<forall>pid s. map_of (bp_ptable bp) pid = Some s \<longrightarrow> bp_entry_ok bp xs pid s) \<and>
     (\<forall>p q s t. map_of (bp_ptable bp) p = Some s \<longrightarrow> map_of (bp_ptable bp) q = Some t \<longrightarrow>
        bs_pos s = bs_pos t \<longrightarrow> p = q) \<and>
     (\<forall>x\<in>set xs. \<exists>s. map_of (bp_ptable bp) (lru_pid_of (bp_lru bp) x) = Some s \<and> bs_lru s = x)"

definition bp_inv :: "bufferpool \<Rightarrow> bool" where
  "bp_inv bp \<longleftrightarrow> (\<exists>xs. bp_wf bp xs)"

lemma bp_wfD:
  assumes "bp_wf bp xs"
  shows "length (bp_buffer bp) = bp_bsize bp" "length (bp_slots bp) = bp_bsize bp"
    "count_list (bp_slots bp) False = length xs" "lru_rep (bp_lru bp) xs" "bp_files_ok bp"
    "distinct (map fst (bp_ptable bp))"
    "\<And>pid s. map_of (bp_ptable bp) pid = Some s \<Longrightarrow> bp_entry_ok bp xs pid s"
    "\<And>p q s t. map_of (bp_ptable bp) p = Some s \<Longrightarrow> map_of (bp_ptable bp) q = Some t \<Longrightarrow>
        bs_pos s = bs_pos t \<Longrightarrow> p = q"
    "\<And>x. x \<in> set xs \<Longrightarrow> \<exists>s. map_of (bp_ptable bp) (lru_pid_of (bp_lru bp) x) = Some s \<and> bs_lru s = x"
  using assms unfolding bp_wf_def by blast+

lemma bp_entryD:
  assumes "bp_wf bp xs" "map_of (bp_ptable bp) pid = Some s"
  shows "bs_p s = bs_pos s" "bs_pos s < bp_bsize bp" "\<not> bp_slots bp ! bs_pos s" "bs_lru s \<in> set xs"
    "lru_pid_of (bp_lru bp) (bs_lru s) = pid" "\<exists>p. bp_disk bp pid = Some p"
    "\<not> bs_dirty s \<Longrightarrow> bp_disk bp pid = Some (bp_buffer bp ! bs_p s)"
  using bp_wfD(7) [OF assms] unfolding bp_entry_ok_def by auto

lemma bp_new_wf: "bp_wf (bp_new n) []"
  by (simp add: bp_wf_def bp_new_def bp_files_ok_def lru_new_rep count_list_0_iff)

section \<open>Disk writes\<close>

lemma bp_disk_put_file:
  assumes "pf_content f' = (pf_content f)(raw_pid pid \<mapsto> p)" "bp_files bp (file_of pid) = Some f"
  shows "bp_disk (bp_put_file (file_of pid) f' bp) = (bp_disk bp)(pid \<mapsto> p)"
proof
  fix q
  show "bp_disk (bp_put_file (file_of pid) f' bp) q = ((bp_disk bp)(pid \<mapsto> p)) q"
    using assms pid_split_inj [of q pid] by (auto simp: bp_disk_def bp_put_file_def)
qed

lemma bp_write_spec:
  assumes "bp_files_ok bp" "bp_disk bp pid = Some q"
  obtains f' where "bp_write_page_to_file pid p bp = Inr (bp_put_file (file_of pid) f' bp)"
    "bp_files_ok (bp_put_file (file_of pid) f' bp)"
    "bp_disk (bp_put_file (file_of pid) f' bp) = (bp_disk bp)(pid \<mapsto> bp_buffer bp ! p)"
proof -
  from assms(2) obtain f where f: "bp_files bp (file_of pid) = Some f"
    "pf_content f (raw_pid pid) = Some q" by (auto simp: bp_disk_def split: option.splits)
  with assms(1) have fi: "file_of pid < MAX_PFILES" "pf_inv f" by (auto simp: bp_files_ok_def)
  from pf_write_law [OF fi(2) f(2), of "bp_buffer bp ! p"] obtain f' where
    f': "pf_write_page (raw_pid pid) (bp_buffer bp ! p) f = Inr f'" "pf_inv f'"
    "pf_content f' = (pf_content f)(raw_pid pid \<mapsto> bp_buffer bp ! p)" by blast
  have "bp_write_page_to_file pid p bp = Inr (bp_put_file (file_of pid) f' bp)"
    using f fi f' by (simp add: bp_write_page_to_file_def bp_get_file_def)
  moreover have "bp_files_ok (bp_put_file (file_of pid) f' bp)"
    using assms(1) fi f' by (simp add: bp_files_ok_def bp_put_file_def)
  ultimately show ?thesis using that bp_disk_put_file [OF f'(3) f(1)] by blast
qed

lemma bp_put_file_simps [simp]:
  "bp_ptable (bp_put_file i f bp) = bp_ptable bp" "bp_buffer (bp_put_file i f bp) = bp_buffer bp"
  "bp_slots (bp_put_file i f bp) = bp_slots bp" "bp_lru (bp_put_file i f bp) = bp_lru bp"
  "bp_bsize (bp_put_file i f bp) = bp_bsize bp"
  by (simp_all add: bp_put_file_def)

text \<open>Writing back the page of an entry keeps the invariant and what the clients see.\<close>

lemma bp_write_entry:
  assumes wf: "bp_wf bp xs" and s: "map_of (bp_ptable bp) pid = Some s"
  obtains bp' where "bp_write_page_to_file pid (bs_p s) bp = Inr bp'" "bp_wf bp' xs"
    "bp_view bp' = bp_view bp" "bp_disk bp' = (bp_disk bp)(pid \<mapsto> bp_buffer bp ! bs_p s)"
    "bp_ptable bp' = bp_ptable bp" "bp_buffer bp' = bp_buffer bp"
    "bp_slots bp' = bp_slots bp" "bp_lru bp' = bp_lru bp" "bp_bsize bp' = bp_bsize bp"
proof -
  from bp_entryD(6) [OF wf s] obtain q where "bp_disk bp pid = Some q" by blast
  from bp_write_spec [OF bp_wfD(5) [OF wf] this, of "bs_p s"] obtain f' where f':
    "bp_write_page_to_file pid (bs_p s) bp = Inr (bp_put_file (file_of pid) f' bp)"
    "bp_files_ok (bp_put_file (file_of pid) f' bp)"
    "bp_disk (bp_put_file (file_of pid) f' bp) = (bp_disk bp)(pid \<mapsto> bp_buffer bp ! bs_p s)" .
  let ?b = "bp_put_file (file_of pid) f' bp"
  have "bp_entry_ok ?b xs k t" if "map_of (bp_ptable bp) k = Some t" for k t
    using bp_wfD(7) [OF wf that] s that by (auto simp: bp_entry_ok_def f'(3))
  then have "bp_wf ?b xs" using wf f'(2) unfolding bp_wf_def by simp
  moreover have "bp_view ?b = bp_view bp"
    using s by (intro ext) (auto simp: bp_view_def f'(3) split: option.splits)
  ultimately show ?thesis using that f'(1,3) by simp
qed

section \<open>Dropping a page from the pool\<close>

definition bp_drop :: "page_id \<Rightarrow> buf_slot \<Rightarrow> bufferpool \<Rightarrow> bufferpool result" where
  "bp_drop pid s bp =
     rbind (bp_lru_remove (bs_lru s)
       (bp_memset (bs_p s) (bp\<lparr>bp_slots := (bp_slots bp)[bs_pos s := True]\<rparr>))) (\<lambda>b.
     Inr (b\<lparr>bp_ptable := pt_erase pid (bp_ptable b)\<rparr>))"

lemma bp_disk_cong: "bp_files b = bp_files b' \<Longrightarrow> bp_disk b = bp_disk b'"
  by (simp add: bp_disk_def fun_eq_iff)

lemma bp_drop_spec:
  assumes wf: "bp_wf bp xs" and s: "map_of (bp_ptable bp) pid = Some s"
    and sync: "bp_disk bp pid = Some (bp_buffer bp ! bs_p s)"
  obtains bp' ys where "bp_drop pid s bp = Inr bp'" "bp_wf bp' ys" "length xs = Suc (length ys)"
    "bp_view bp' = bp_view bp" "bp_disk bp' = bp_disk bp" "bp_bsize bp' = bp_bsize bp"
    "map_of (bp_ptable bp') = (map_of (bp_ptable bp))(pid := None)"
proof -
  note e = bp_entryD [OF wf s]
  from e(4) obtain as bs where xs: "xs = as @ bs_lru s # bs" by (meson split_list)
  with bp_wfD(4) [OF wf] have rep: "lru_rep (bp_lru bp) (as @ bs_lru s # bs)" by simp
  from lru_remove_spec [OF rep] obtain l' where l': "lru_remove (bs_lru s) (bp_lru bp) = Inr l'"
    "lru_rep l' (as @ bs)" "lru_keeps (bp_lru bp) l'" .
  have pids: "lru_pid_of l' x = lru_pid_of (bp_lru bp) x" if "x \<in> set xs" for x
    using lru_keeps_pid [OF l'(3)] lru_rep_dom [OF bp_wfD(4) [OF wf] that] by simp
  have dist: "distinct xs" using bp_wfD(4) [OF wf] by (auto simp: lru_rep_def)
  let ?pos = "bs_pos s" and ?T = "map_of (bp_ptable bp)"
  let ?b = "bp\<lparr>bp_slots := (bp_slots bp)[?pos := True],
     bp_buffer := (bp_buffer bp)[?pos := memset4 (bp_buffer bp ! ?pos)],
     bp_lru := l', bp_ptable := pt_erase pid (bp_ptable bp)\<rparr>"
  have eq: "bp_drop pid s bp = Inr ?b"
    using e(1) l'(1) by (simp add: bp_drop_def bp_lru_remove_def bp_memset_def)
  have disk: "bp_disk ?b = bp_disk bp" by (rule bp_disk_cong) simp
  have T: "map_of (bp_ptable ?b) = ?T(pid := None)" by (simp add: map_of_erase)
  have other: "bs_pos t \<noteq> ?pos" "bs_lru t \<noteq> bs_lru s" if "?T k = Some t" "k \<noteq> pid" for k t
    using bp_wfD(8) [OF wf that(1) s] bp_entryD(5) [OF wf that(1)] e(5) that(2) by auto
  have ent: "bp_entry_ok ?b (as @ bs) k t" if "?T k = Some t" "k \<noteq> pid" for k t
    using bp_wfD(7) [OF wf that(1)] other [OF that] pids [of "bs_lru t"] xs
    unfolding bp_entry_ok_def disk by auto
  have "bp_wf ?b (as @ bs)"
    unfolding bp_wf_def
  proof (intro conjI allI impI ballI)
    show "count_list (bp_slots ?b) False = length (as @ bs)"
      using bp_wfD(2,3) [OF wf] e(2,3) xs
        count_list_set_True [of ?pos "bp_slots bp"]
      by simp
    show "distinct (map fst (bp_ptable ?b))" using bp_wfD(6) [OF wf] by (simp add: pt_keys)
    show "bp_entry_ok ?b (as @ bs) k t" if "map_of (bp_ptable ?b) k = Some t" for k t
      using that ent unfolding T by (auto split: if_splits)
    show "p = q" if "map_of (bp_ptable ?b) p = Some u" "map_of (bp_ptable ?b) q = Some t"
      "bs_pos u = bs_pos t" for p q u t
      using that bp_wfD(8) [OF wf] unfolding T by (auto split: if_splits)
    show "\<exists>t. map_of (bp_ptable ?b) (lru_pid_of (bp_lru ?b) x) = Some t \<and> bs_lru t = x"
      if "x \<in> set (as @ bs)" for x
    proof -
      have x: "x \<in> set xs" "x \<noteq> bs_lru s" using that xs dist by auto
      from bp_wfD(9) [OF wf x(1)] obtain t where t: "?T (lru_pid_of (bp_lru bp) x) = Some t" "bs_lru t = x"
        by blast
      then have "lru_pid_of (bp_lru bp) x \<noteq> pid" using x(2) s by auto
      then show ?thesis using t pids [OF x(1)] unfolding T by simp
    qed
  qed (use wf l' in \<open>simp_all add: bp_wf_def bp_files_ok_def\<close>)
  moreover have "bp_view ?b = bp_view bp"
  proof
    fix k
    have "bp_buffer ?b ! bs_p t = bp_buffer bp ! bs_p t" if "?T k = Some t" "k \<noteq> pid" for t
      using other(1) [OF that] bp_entryD(1) [OF wf that(1)] by simp
    then show "bp_view ?b k = bp_view bp k"
      using sync s unfolding bp_view_def T disk by (auto split: option.splits)
  qed
  ultimately show ?thesis using that [of ?b "as @ bs"] eq xs disk T by simp
qed

section \<open>Eviction\<close>

definition bp_evictable :: "bufferpool \<Rightarrow> bool" where
  "bp_evictable bp \<longleftrightarrow> (\<exists>pid s. map_of (bp_ptable bp) pid = Some s \<and> \<not> bs_pinned s)"

lemma bp_victim_spec:
  assumes wf: "bp_wf bp xs" and ev: "bp_evictable bp"
  obtains pid s where "lru_pids (bp_lru bp) = Inr (map (lru_pid_of (bp_lru bp)) xs)"
    "bp_victim (bp_ptable bp) (map (lru_pid_of (bp_lru bp)) xs) = Some pid"
    "map_of (bp_ptable bp) pid = Some s" "\<not> bs_pinned s"
proof -
  let ?T = "map_of (bp_ptable bp)" and ?pids = "map (lru_pid_of (bp_lru bp)) xs"
  let ?P = "\<lambda>pid. case ?T pid of None \<Rightarrow> False | Some s \<Rightarrow> \<not> bs_pinned s"
  from ev obtain k t where k: "?T k = Some t" "\<not> bs_pinned t" by (auto simp: bp_evictable_def)
  from bp_entryD(4,5) [OF wf k(1)] have "k \<in> set ?pids" by force
  moreover have "?P k" using k by simp
  ultimately have "find ?P ?pids \<noteq> None" unfolding find_None_iff by blast
  then obtain pid where pid: "find ?P ?pids = Some pid" by blast
  then have "?P pid" by (auto simp: find_Some_iff)
  then obtain s where "?T pid = Some s" "\<not> bs_pinned s" by (auto split: option.splits)
  then show ?thesis using that pid lru_pids_spec [OF bp_wfD(4) [OF wf]] by (simp add: bp_victim_def)
qed

lemma bp_evict_drop:
  assumes "lru_pids (bp_lru bp) = Inr pids" "bp_victim (bp_ptable bp) pids = Some pid"
    "map_of (bp_ptable bp) pid = Some s"
  shows "bp_evict_page bp = rbind (if bs_dirty s then bp_write_page_to_file pid (bs_p s) bp else Inr bp)
           (\<lambda>b. rbind (bp_drop pid s b) (\<lambda>b'. Inr (b', True)))"
  using assms by (cases "if bs_dirty s then bp_write_page_to_file pid (bs_p s) bp else Inr bp")
    (simp_all add: bp_evict_page_def bp_drop_def Let_def rbind_def split: sum.splits)

lemma bp_sync_entry:
  assumes wf: "bp_wf bp xs" and s: "map_of (bp_ptable bp) pid = Some s"
  obtains b where "(if bs_dirty s then bp_write_page_to_file pid (bs_p s) bp else Inr bp) = Inr b"
    "bp_wf b xs" "bp_view b = bp_view bp" "bp_disk b pid = Some (bp_buffer b ! bs_p s)"
    "bp_ptable b = bp_ptable bp" "bp_bsize b = bp_bsize bp" "dom (bp_disk b) = dom (bp_disk bp)"
    "\<forall>q. q \<noteq> pid \<longrightarrow> bp_disk b q = bp_disk bp q"
proof (cases "bs_dirty s")
  case True
  from bp_write_entry [OF wf s] obtain b where b: "bp_write_page_to_file pid (bs_p s) bp = Inr b" "bp_wf b xs"
    "bp_view b = bp_view bp" "bp_disk b = (bp_disk bp)(pid \<mapsto> bp_buffer bp ! bs_p s)"
    "bp_ptable b = bp_ptable bp" "bp_buffer b = bp_buffer bp"
    "bp_slots b = bp_slots bp" "bp_lru b = bp_lru bp" "bp_bsize b = bp_bsize bp" .
  moreover have "dom (bp_disk b) = dom (bp_disk bp)"
    using bp_entryD(6) [OF wf s] b(4) by auto
  ultimately show ?thesis using that [of b] True by simp
next
  case False
  then show ?thesis using that [of bp] wf bp_entryD(7) [OF wf s] by simp
qed

lemma bp_evict_spec:
  assumes wf: "bp_wf bp xs" and ev: "bp_evictable bp"
  obtains bp' ys where "bp_evict_page bp = Inr (bp', True)" "bp_wf bp' ys"
    "length xs = Suc (length ys)" "bp_view bp' = bp_view bp" "bp_bsize bp' = bp_bsize bp"
    "map_of (bp_ptable bp') \<subseteq>\<^sub>m map_of (bp_ptable bp)" "dom (bp_disk bp') = dom (bp_disk bp)"
proof -
  from bp_victim_spec [OF wf ev] obtain pid s where v:
    "lru_pids (bp_lru bp) = Inr (map (lru_pid_of (bp_lru bp)) xs)"
    "bp_victim (bp_ptable bp) (map (lru_pid_of (bp_lru bp)) xs) = Some pid"
    "map_of (bp_ptable bp) pid = Some s" .
  from bp_sync_entry [OF wf v(3)] obtain b where b:
    "(if bs_dirty s then bp_write_page_to_file pid (bs_p s) bp else Inr bp) = Inr b"
    "bp_wf b xs" "bp_view b = bp_view bp" "bp_disk b pid = Some (bp_buffer b ! bs_p s)"
    "bp_ptable b = bp_ptable bp" "bp_bsize b = bp_bsize bp" "dom (bp_disk b) = dom (bp_disk bp)" .
  have s: "map_of (bp_ptable b) pid = Some s" using b(5) v(3) by simp
  from bp_drop_spec [OF b(2) s b(4)] obtain b' ys where d: "bp_drop pid s b = Inr b'" "bp_wf b' ys"
    "length xs = Suc (length ys)" "bp_view b' = bp_view b" "bp_disk b' = bp_disk b"
    "bp_bsize b' = bp_bsize b" "map_of (bp_ptable b') = (map_of (bp_ptable b))(pid := None)" .
  have "bp_evict_page bp = Inr (b', True)"
    using bp_evict_drop [OF v] b(1) d(1) by simp
  moreover have "map_of (bp_ptable b') \<subseteq>\<^sub>m map_of (bp_ptable bp)"
    using d(7) b(5) by (auto simp: map_le_def)
  ultimately show ?thesis using that d b by simp
qed

section \<open>Loading\<close>

lemma bp_insert_wf:
  assumes wf: "bp_wf bp xs" and new: "map_of (bp_ptable bp) pid = None"
    and disk: "bp_disk bp pid = Some p" and pos: "pos < bp_bsize bp" "bp_slots bp ! pos"
    and l: "lru_rep l (xs @ [n])" "n \<notin> set xs" "lru_pid_of l n = pid" "lru_keeps (bp_lru bp) l"
  defines "b \<equiv> bp\<lparr>bp_slots := (bp_slots bp)[pos := False], bp_buffer := (bp_buffer bp)[pos := p],
      bp_lru := l, bp_ptable := pt_emplace pid
        \<lparr>bs_p = pos, bs_dirty = False, bs_pinned = False, bs_pos = pos, bs_lru = n\<rparr> (bp_ptable bp)\<rparr>"
  shows "bp_wf b (xs @ [n])" "bp_view b = bp_view bp" "bp_buffer b ! pos = p"
proof -
  let ?s = "\<lparr>bs_p = pos, bs_dirty = False, bs_pinned = False, bs_pos = pos, bs_lru = n\<rparr>"
  let ?T = "map_of (bp_ptable bp)"
  have T: "map_of (bp_ptable b) = ?T(pid \<mapsto> ?s)" using map_of_emplace [OF new] by (simp add: b_def)
  have disk': "bp_disk b = bp_disk bp" by (rule bp_disk_cong) (simp add: b_def)
  have len: "length (bp_buffer bp) = bp_bsize bp" "length (bp_slots bp) = bp_bsize bp"
    using bp_wfD(1,2) [OF wf] .
  have pids: "lru_pid_of l x = lru_pid_of (bp_lru bp) x" if "x \<in> set xs" for x
    using lru_keeps_pid [OF l(4)] lru_rep_dom [OF bp_wfD(4) [OF wf] that] by simp
  have other: "bs_pos t \<noteq> pos" if "?T k = Some t" for k t
    using bp_entryD(3) [OF wf that] pos(2) by auto
  have ent: "bp_entry_ok b (xs @ [n]) k t" if "?T k = Some t" for k t
    using bp_wfD(7) [OF wf that] other [OF that] pids [of "bs_lru t"]
    unfolding bp_entry_ok_def disk' by (auto simp: b_def)
  have ent_new: "bp_entry_ok b (xs @ [n]) pid ?s"
    using pos l(3) disk len unfolding bp_entry_ok_def disk' by (simp add: b_def)
  show "bp_wf b (xs @ [n])"
    unfolding bp_wf_def
  proof (intro conjI allI impI ballI)
    show "count_list (bp_slots b) False = length (xs @ [n])"
      using count_list_set_False [of pos "bp_slots bp"] bp_wfD(3) [OF wf] pos len by (simp add: b_def)
    show "distinct (map fst (bp_ptable b))"
      using bp_wfD(6) [OF wf] new by (simp add: b_def pt_keys map_of_eq_None_iff)
    show "bp_entry_ok b (xs @ [n]) k t" if "map_of (bp_ptable b) k = Some t" for k t
      using that ent ent_new unfolding T by (auto split: if_splits)
    show "u = v" if "map_of (bp_ptable b) u = Some s" "map_of (bp_ptable b) v = Some t"
      "bs_pos s = bs_pos t" for u v s t
      using that bp_wfD(8) [OF wf, of u s v t] other [of u s] other [of v t] unfolding T
      by (auto split: if_splits)
    show "\<exists>t. map_of (bp_ptable b) (lru_pid_of (bp_lru b) x) = Some t \<and> bs_lru t = x"
      if "x \<in> set (xs @ [n])" for x
    proof (cases "x = n")
      case True
      then show ?thesis unfolding T using l(3) by (simp add: b_def)
    next
      case False
      then have x: "x \<in> set xs" using that by simp
      from bp_wfD(9) [OF wf x] new pids [OF x] show ?thesis unfolding T by (auto simp: b_def)
    qed
  qed (use wf l in \<open>simp_all add: bp_wf_def bp_files_ok_def b_def\<close>)
  show "bp_buffer b ! pos = p" using pos len by (simp add: b_def)
  show "bp_view b = bp_view bp"
  proof
    fix k
    have "bp_buffer b ! bs_p t = bp_buffer bp ! bs_p t" if "?T k = Some t" for t
      using other [OF that] bp_entryD(1) [OF wf that] by (simp add: b_def)
    then show "bp_view b k = bp_view bp k"
      using disk new pos len unfolding bp_view_def T disk'
      by (cases "k = pid"; cases "?T k") (auto simp: b_def)
  qed
qed

lemma bp_find_slot_free:
  assumes wf: "bp_wf bp xs" and sz: "length xs < bp_bsize bp"
  obtains pos where "bp_find_slot bp = Some pos" "pos < bp_bsize bp" "bp_slots bp ! pos"
proof (cases "bp_find_slot bp")
  case None
  then have "\<forall>i<length (bp_slots bp). \<not> bp_slots bp ! i"
    unfolding bp_find_slot_def find_upt_None by simp
  then have "count_list (bp_slots bp) False = length (bp_slots bp)"
    by (auto simp: count_list_eq_length_filter list_all_nth_iff [symmetric] intro!: arg_cong [of _ _ length])
  then show ?thesis using bp_wfD(2,3) [OF wf] sz by simp
next
  case (Some pos)
  from find_upt_Some [OF Some [unfolded bp_find_slot_def]] bp_wfD(2) [OF wf] that Some
  show ?thesis by simp
qed

lemma bp_load_spec:
  assumes wf: "bp_wf bp xs" and sz: "length xs < bp_bsize bp" and disk: "bp_disk bp pid = Some p"
  obtains pos where "bp_load_page_from_file pid bp =
      (Inr pos, bp\<lparr>bp_slots := (bp_slots bp)[pos := False], bp_buffer := (bp_buffer bp)[pos := p]\<rparr>)"
    "pos < bp_bsize bp" "bp_slots bp ! pos"
proof -
  from bp_find_slot_free [OF wf sz] obtain pos where pos: "bp_find_slot bp = Some pos"
    "pos < bp_bsize bp" "bp_slots bp ! pos" .
  from disk obtain f where f: "bp_files bp (file_of pid) = Some f" "pf_content f (raw_pid pid) = Some p"
    by (auto simp: bp_disk_def split: option.splits)
  with bp_wfD(5) [OF wf] have "file_of pid < MAX_PFILES" "pf_inv f" by (auto simp: bp_files_ok_def)
  then show ?thesis using that [of pos] pos f pf_read_law [of f "raw_pid pid" p]
    by (simp add: bp_load_page_from_file_def bp_get_file_def Let_def)
qed

lemma bp_wf_l_reads: "bp_wf (bp\<lparr>bp_l_reads := k\<rparr>) xs = bp_wf bp xs"
  "bp_view (bp\<lparr>bp_l_reads := k\<rparr>) = bp_view bp" "bp_disk (bp\<lparr>bp_l_reads := k\<rparr>) = bp_disk bp"
  "bp_evictable (bp\<lparr>bp_l_reads := k\<rparr>) = bp_evictable bp"
proof -
  show d: "bp_disk (bp\<lparr>bp_l_reads := k\<rparr>) = bp_disk bp" by (rule bp_disk_cong) simp
  show "bp_view (bp\<lparr>bp_l_reads := k\<rparr>) = bp_view bp" by (simp add: bp_view_def d fun_eq_iff split: option.split)
  show "bp_wf (bp\<lparr>bp_l_reads := k\<rparr>) xs = bp_wf bp xs"
    unfolding bp_wf_def bp_entry_ok_def bp_files_ok_def d by simp
  show "bp_evictable (bp\<lparr>bp_l_reads := k\<rparr>) = bp_evictable bp" by (simp add: bp_evictable_def)
qed

section \<open>Fetching\<close>

definition bp_unpinned :: "bufferpool \<Rightarrow> bool" where
  "bp_unpinned bp \<longleftrightarrow> (\<forall>pid s. map_of (bp_ptable bp) pid = Some s \<longrightarrow> \<not> bs_pinned s)"

lemma bp_fetch_hit:
  assumes wf: "bp_wf bp xs" and s: "map_of (bp_ptable bp) pid = Some s"
  obtains bp' ys where "bp_fetch_page pid bp = (Inr (bs_p s), bp')" "bp_wf bp' ys"
    "bp_view bp' = bp_view bp" "bp_buffer bp' = bp_buffer bp" "bp_bsize bp' = bp_bsize bp"
    "bp_ptable bp' = bp_ptable bp"
proof -
  from bp_entryD(4) [OF wf s] obtain as bs where xs: "xs = as @ bs_lru s # bs" by (meson split_list)
  with bp_wfD(4) [OF wf] have rep: "lru_rep (bp_lru bp) (as @ bs_lru s # bs)" by simp
  from lru_move_to_mru_spec [OF rep] obtain l' where l': "lru_move_to_mru (bs_lru s) (bp_lru bp) = Inr l'"
    "lru_rep l' (as @ bs @ [bs_lru s])" "lru_keeps (bp_lru bp) l'" .
  let ?ys = "as @ bs @ [bs_lru s]" and ?b = "bp\<lparr>bp_lru := l'\<rparr>"
  have set: "set ?ys = set xs" "length ?ys = length xs" using xs by auto
  have pids: "lru_pid_of l' x = lru_pid_of (bp_lru bp) x" if "x \<in> set xs" for x
    using lru_keeps_pid [OF l'(3)] lru_rep_dom [OF bp_wfD(4) [OF wf] that] by simp
  have d: "bp_disk ?b = bp_disk bp" by (rule bp_disk_cong) simp
  have "bp_entry_ok ?b ?ys k t" if "map_of (bp_ptable bp) k = Some t" for k t
    using bp_wfD(7) [OF wf that] pids [of "bs_lru t"] set(1) unfolding bp_entry_ok_def d by simp
  moreover have "\<exists>t. map_of (bp_ptable bp) (lru_pid_of l' x) = Some t \<and> bs_lru t = x" if "x \<in> set ?ys" for x
    using bp_wfD(9) [OF wf, of x] pids [of x] that unfolding set(1) by simp
  ultimately have "bp_wf ?b ?ys"
    using wf l'(2) set(2) unfolding bp_wf_def bp_files_ok_def by simp
  moreover have "bp_view ?b = bp_view bp" by (simp add: bp_view_def d fun_eq_iff split: option.split)
  ultimately show ?thesis
    using that [of "?b\<lparr>bp_l_reads := bp_l_reads bp + 1\<rparr>" ?ys] s l'(1)
    by (simp add: bp_fetch_page_def Let_def bp_wf_l_reads)
qed

lemma bp_make_room_spec:
  assumes wf: "bp_wf bp xs" and ev: "length xs = bp_bsize bp \<Longrightarrow> bp_evictable bp"
  obtains b ys where
    "bp_make_room bp = (Inr (), b)"
    "bp_wf b ys" "length ys < bp_bsize b" "bp_view b = bp_view bp" "bp_bsize b = bp_bsize bp"
    "map_of (bp_ptable b) \<subseteq>\<^sub>m map_of (bp_ptable bp)" "dom (bp_disk b) = dom (bp_disk bp)"
proof (cases "length xs = bp_bsize bp")
  case True
  from bp_evict_spec [OF wf ev [OF True]] obtain b ys where b: "bp_evict_page bp = Inr (b, True)" "bp_wf b ys"
    "length xs = Suc (length ys)" "bp_view b = bp_view bp" "bp_bsize b = bp_bsize bp"
    "map_of (bp_ptable b) \<subseteq>\<^sub>m map_of (bp_ptable bp)" "dom (bp_disk b) = dom (bp_disk bp)" .
  then show ?thesis using that [of b ys] True bp_wfD(4) [OF wf]
    by (simp add: bp_make_room_def supd_def lru_rep_def)
next
  case False
  have "length xs \<le> bp_bsize bp" using bp_wfD(2,3) [OF wf] count_le_length [of "bp_slots bp" False] by simp
  then show ?thesis using that [of bp xs] wf False bp_wfD(4) [OF wf]
    by (simp add: bp_make_room_def supd_def lru_rep_def)
qed

lemma bp_view_dom: "bp_wf bp xs \<Longrightarrow> dom (bp_view bp) = dom (bp_disk bp)"
  using bp_entryD(6) by (fastforce simp: bp_view_def split: option.splits)

lemma bp_fetch_miss:
  assumes wf: "bp_wf bp xs" and new: "map_of (bp_ptable bp) pid = None"
    and disk: "bp_disk bp pid = Some p" and ev: "length xs = bp_bsize bp \<Longrightarrow> bp_evictable bp"
  obtains bp' pos ys where "bp_fetch_page pid bp = (Inr pos, bp')" "bp_wf bp' ys"
    "bp_view bp' = bp_view bp" "bp_buffer bp' ! pos = p" "bp_bsize bp' = bp_bsize bp"
    "\<exists>s. map_of (bp_ptable bp') pid = Some s \<and> bs_p s = pos"
    "bp_unpinned bp \<longrightarrow> bp_unpinned bp'"
proof -
  let ?bp = "bp\<lparr>bp_l_reads := bp_l_reads bp + 1\<rparr>"
  have wf0: "bp_wf ?bp xs" using wf by (simp add: bp_wf_l_reads)
  have ev0: "length xs = bp_bsize ?bp \<Longrightarrow> bp_evictable ?bp" using ev by (simp add: bp_wf_l_reads)
  from bp_make_room_spec [OF wf0 ev0] obtain b ys where b:
    "bp_make_room ?bp = (Inr (), b)"
    "bp_wf b ys" "length ys < bp_bsize b" "bp_view b = bp_view ?bp" "bp_bsize b = bp_bsize ?bp"
    "map_of (bp_ptable b) \<subseteq>\<^sub>m map_of (bp_ptable ?bp)" .
  have newb: "map_of (bp_ptable b) pid = None"
    using map_le_implies_dom_le [OF b(6)] new by auto
  have diskb: "bp_disk b pid = Some p"
    using b(4) newb new disk unfolding bp_wf_l_reads(2) by (metis bp_view_def option.case(1))
  from bp_load_spec [OF b(2,3) diskb] obtain pos where pos: "bp_load_page_from_file pid b =
      (Inr pos, b\<lparr>bp_slots := (bp_slots b)[pos := False], bp_buffer := (bp_buffer b)[pos := p]\<rparr>)"
    "pos < bp_bsize b" "bp_slots b ! pos" .
  from lru_add_to_mru_spec [OF bp_wfD(4) [OF b(2)], of pid] obtain l n where
    l: "lru_add_to_mru pid (bp_lru b) = Inr (l, n)" "lru_rep l (ys @ [n])" "n \<notin> set ys"
       "lru_pid_of l n = pid" "lru_keeps (bp_lru b) l" .
  note ins = bp_insert_wf [OF b(2) newb diskb pos(2,3) l(2-5)]
  let ?s = "\<lparr>bs_p = pos, bs_dirty = False, bs_pinned = False, bs_pos = pos, bs_lru = n\<rparr>"
  let ?b = "b\<lparr>bp_slots := (bp_slots b)[pos := False], bp_buffer := (bp_buffer b)[pos := p],
      bp_lru := l, bp_ptable := pt_emplace pid ?s (bp_ptable b)\<rparr>"
  have "bp_fetch_page pid bp = (Inr pos, ?b)"
    using new b(1) pos(1) l(1)
    by (simp add: bp_fetch_page_def Let_def sbind_def bp_admit_def supd_def)
  moreover have T: "map_of (bp_ptable ?b) = (map_of (bp_ptable b))(pid \<mapsto> ?s)"
    using map_of_emplace [OF newb] by simp
  moreover have "map_of (bp_ptable bp) k = Some t" if "map_of (bp_ptable b) k = Some t" for k t
    using b(6) that by (auto simp: map_le_def dom_def)
  then have "bp_unpinned bp \<longrightarrow> bp_unpinned ?b" unfolding bp_unpinned_def T by auto
  ultimately show ?thesis using that [of pos ?b "ys @ [n]"] ins b(4,5) by (simp add: bp_wf_l_reads)
qed

section \<open>Updates and flushing\<close>

lemma bp_update_wf:
  assumes wf: "bp_wf bp xs" and s: "map_of (bp_ptable bp) pid = Some s"
  shows "bp_wf (bp_mark_dirty pid (bp_poke (bs_p s) pg bp)) xs"
    "bp_view (bp_mark_dirty pid (bp_poke (bs_p s) pg bp)) = (bp_view bp)(pid \<mapsto> pg)"
proof -
  let ?b = "bp_mark_dirty pid (bp_poke (bs_p s) pg bp)" and ?T = "map_of (bp_ptable bp)"
  note e = bp_entryD [OF wf s]
  have T: "map_of (bp_ptable ?b) = ?T(pid \<mapsto> s\<lparr>bs_dirty := True\<rparr>)"
    using s by (simp add: bp_mark_dirty_def bp_poke_def map_of_modify)
  have d: "bp_disk ?b = bp_disk bp" by (rule bp_disk_cong) (simp add: bp_mark_dirty_def bp_poke_def)
  have p: "bp_buffer ?b = (bp_buffer bp)[bs_p s := pg]" "bp_slots ?b = bp_slots bp" "bp_lru ?b = bp_lru bp"
    "bp_bsize ?b = bp_bsize bp" "bp_files ?b = bp_files bp"
    "map fst (bp_ptable ?b) = map fst (bp_ptable bp)"
    by (simp_all add: bp_mark_dirty_def bp_poke_def pt_keys)
  have other: "bs_p t \<noteq> bs_p s" if "?T k = Some t" "k \<noteq> pid" for k t
    using bp_wfD(8) [OF wf that(1) s] bp_entryD(1) [OF wf that(1)] e(1) that(2) by auto
  have ent: "bp_entry_ok ?b xs k t" if "map_of (bp_ptable ?b) k = Some t" for k t
  proof (cases "k = pid")
    case True
    then show ?thesis using that bp_wfD(7) [OF wf s] unfolding T bp_entry_ok_def d p by auto
  next
    case False
    then have k: "?T k = Some t" using that unfolding T by simp
    show ?thesis using bp_wfD(7) [OF wf k] other [OF k False] unfolding bp_entry_ok_def d p by simp
  qed
  have pos: "k = j" if "map_of (bp_ptable ?b) k = Some t" "map_of (bp_ptable ?b) j = Some u"
    "bs_pos t = bs_pos u" for k j t u
    using that bp_wfD(8) [OF wf, of k t j u] bp_wfD(8) [OF wf s, of j u] bp_wfD(8) [OF wf _ s, of k t]
    unfolding T by (auto split: if_splits)
  have lru: "\<exists>t. map_of (bp_ptable ?b) (lru_pid_of (bp_lru bp) x) = Some t \<and> bs_lru t = x"
    if "x \<in> set xs" for x
    using bp_wfD(9) [OF wf that] s unfolding T by auto
  show "bp_wf ?b xs"
    unfolding bp_wf_def bp_files_ok_def p using wf ent pos lru
    unfolding bp_wf_def bp_files_ok_def by auto
  show "bp_view ?b = (bp_view bp)(pid \<mapsto> pg)"
  proof
    fix k
    have "(bp_buffer bp)[bs_p s := pg] ! bs_p t = bp_buffer bp ! bs_p t"
      if "?T k = Some t" "k \<noteq> pid" for t using other [OF that] by simp
    then show "bp_view ?b k = ((bp_view bp)(pid \<mapsto> pg)) k"
      using e(1,2) bp_wfD(1) [OF wf] unfolding bp_view_def T d p by (auto split: option.splits)
  qed
qed

lemma bp_clean_entry:
  assumes wf: "bp_wf bp xs" and s: "map_of (bp_ptable bp) pid = Some s"
    and sync: "bp_disk bp pid = Some (bp_buffer bp ! bs_p s)"
  defines "b \<equiv> bp\<lparr>bp_ptable := pt_modify pid (\<lambda>s. s\<lparr>bs_dirty := False\<rparr>) (bp_ptable bp)\<rparr>"
  shows "bp_wf b xs" "bp_view b = bp_view bp" "bp_disk b = bp_disk bp"
    "map_of (bp_ptable b) = (map_of (bp_ptable bp))(pid \<mapsto> s\<lparr>bs_dirty := False\<rparr>)"
proof -
  let ?T = "map_of (bp_ptable bp)"
  show T: "map_of (bp_ptable b) = ?T(pid \<mapsto> s\<lparr>bs_dirty := False\<rparr>)"
    using s by (simp add: b_def map_of_modify)
  show d: "bp_disk b = bp_disk bp" by (rule bp_disk_cong) (simp add: b_def)
  have p: "bp_buffer b = bp_buffer bp" "bp_slots b = bp_slots bp" "bp_lru b = bp_lru bp"
    "bp_bsize b = bp_bsize bp" "bp_files b = bp_files bp"
    "map fst (bp_ptable b) = map fst (bp_ptable bp)"
    by (simp_all add: b_def pt_keys)
  have ent: "bp_entry_ok b xs k t" if "map_of (bp_ptable b) k = Some t" for k t
    using that bp_wfD(7) [OF wf, of k] bp_wfD(7) [OF wf s] sync
    unfolding T bp_entry_ok_def d p by (auto split: if_splits)
  have pos: "k = j" if "map_of (bp_ptable b) k = Some t" "map_of (bp_ptable b) j = Some u"
    "bs_pos t = bs_pos u" for k j t u
    using that bp_wfD(8) [OF wf, of k t j u] bp_wfD(8) [OF wf s, of j u] bp_wfD(8) [OF wf _ s, of k t]
    unfolding T by (auto split: if_splits)
  have lru: "\<exists>t. map_of (bp_ptable b) (lru_pid_of (bp_lru bp) x) = Some t \<and> bs_lru t = x"
    if "x \<in> set xs" for x
    using bp_wfD(9) [OF wf that] s unfolding T by auto
  show "bp_wf b xs"
    unfolding bp_wf_def bp_files_ok_def p using wf ent pos lru
    unfolding bp_wf_def bp_files_ok_def by auto
  show "bp_view b = bp_view bp"
    using s unfolding bp_view_def T d p by (auto simp: fun_eq_iff split: option.splits)
qed

lemma bp_flush_entry_spec:
  assumes wf: "bp_wf bp xs" and s: "map_of (bp_ptable bp) pid = Some s"
  obtains b where "bp_flush_entry pid s bp = Inr b" "bp_wf b xs" "bp_view b = bp_view bp"
    "map_of (bp_ptable b) = (map_of (bp_ptable bp))(pid \<mapsto> s\<lparr>bs_dirty := False\<rparr>)"
    "bp_disk b pid = Some (bp_buffer b ! bs_p s)" "\<forall>q. q \<noteq> pid \<longrightarrow> bp_disk b q = bp_disk bp q"
proof (cases "bs_dirty s")
  case True
  from bp_sync_entry [OF wf s] obtain b where b:
    "(if bs_dirty s then bp_write_page_to_file pid (bs_p s) bp else Inr bp) = Inr b"
    "bp_wf b xs" "bp_view b = bp_view bp" "bp_disk b pid = Some (bp_buffer b ! bs_p s)"
    "bp_ptable b = bp_ptable bp" "\<forall>q. q \<noteq> pid \<longrightarrow> bp_disk b q = bp_disk bp q" .
  have sb: "map_of (bp_ptable b) pid = Some s" using b(5) s by simp
  note c = bp_clean_entry [OF b(2) sb b(4)]
  show ?thesis
    by (rule that [OF _ c(1)])
      (use True b c in \<open>simp_all add: bp_flush_entry_def\<close>)
next
  case False
  then have "s\<lparr>bs_dirty := False\<rparr> = s" by simp
  then show ?thesis using that [of bp] wf False s bp_entryD(7) [OF wf s]
    by (simp add: bp_flush_entry_def fun_upd_idem)
qed

lemma bp_flush_entries_spec:
  assumes "bp_wf bp xs" "distinct (map fst es)" "\<And>k s. (k, s) \<in> set es \<Longrightarrow> map_of (bp_ptable bp) k = Some s"
  shows "\<exists>b. bp_flush_entries P es bp = Inr b \<and> bp_wf b xs \<and> bp_view b = bp_view bp \<and>
     dom (map_of (bp_ptable b)) = dom (map_of (bp_ptable bp)) \<and>
     (\<forall>q. (P q \<and> q \<in> fst ` set es \<longrightarrow> bp_disk b q = bp_view bp q) \<and>
          (\<not> (P q \<and> q \<in> fst ` set es) \<longrightarrow> bp_disk b q = bp_disk bp q))"
  using assms
proof (induction P es bp rule: bp_flush_entries.induct)
  case (2 P pid s es bp)
  have s: "map_of (bp_ptable bp) pid = Some s" using "2.prems"(3) by simp
  have nin: "pid \<notin> fst ` set es" "distinct (map fst es)" using "2.prems"(2) by auto
  show ?case
  proof (cases "P pid")
    case True
    from bp_flush_entry_spec [OF "2.prems"(1) s] obtain b where b: "bp_flush_entry pid s bp = Inr b"
      "bp_wf b xs" "bp_view b = bp_view bp"
      "map_of (bp_ptable b) = (map_of (bp_ptable bp))(pid \<mapsto> s\<lparr>bs_dirty := False\<rparr>)"
      "bp_disk b pid = Some (bp_buffer b ! bs_p s)" "\<forall>q. q \<noteq> pid \<longrightarrow> bp_disk b q = bp_disk bp q" .
    have "map_of (bp_ptable b) k = Some t" if "(k, t) \<in> set es" for k t
      using "2.prems"(3) [of k t] that nin(1) b(4) by force
    from "2.IH" [of b, OF _ b(2) nin(2) this] True b(1) obtain c where c: "bp_flush_entries P es b = Inr c"
      "bp_wf c xs" "bp_view c = bp_view b" "dom (map_of (bp_ptable c)) = dom (map_of (bp_ptable b))"
      "\<And>q. P q \<Longrightarrow> q \<in> fst ` set es \<Longrightarrow> bp_disk c q = bp_view b q"
      "\<And>q. \<not> (P q \<and> q \<in> fst ` set es) \<Longrightarrow> bp_disk c q = bp_disk b q" by auto
    have "bp_view b pid = Some (bp_buffer b ! bs_p s)" by (simp add: bp_view_def b(4))
    then have "bp_disk c pid = bp_view bp pid"
      using c(6) [of pid] nin(1) b(3,5) by simp
    then have y: "bp_disk c q = bp_view bp q" if "P q" "q \<in> fst ` set ((pid, s) # es)" for q
      using that c(5) [of q] b(3) by (cases "q = pid") simp_all
    have n: "bp_disk c q = bp_disk bp q" if "\<not> (P q \<and> q \<in> fst ` set ((pid, s) # es))" for q
      using that c(6) [of q] b(6) True by (cases "q = pid") simp_all
    have "dom (map_of (bp_ptable c)) = dom (map_of (bp_ptable bp))"
      using c(4) b(4) s by (simp add: insert_absorb domI)
    moreover have "bp_flush_entries P ((pid, s) # es) bp = Inr c" using True b(1) c(1) by simp
    ultimately show ?thesis using b(3) c(2,3) y n by metis
  next
    case False
    from "2.IH" [of bp, OF _ "2.prems"(1) nin(2)] "2.prems"(3) False obtain c where
      c: "bp_flush_entries P es bp = Inr c" "bp_wf c xs" "bp_view c = bp_view bp"
      "dom (map_of (bp_ptable c)) = dom (map_of (bp_ptable bp))"
      "\<And>q. P q \<Longrightarrow> q \<in> fst ` set es \<Longrightarrow> bp_disk c q = bp_view bp q"
      "\<And>q. \<not> (P q \<and> q \<in> fst ` set es) \<Longrightarrow> bp_disk c q = bp_disk bp q" by auto
    have y: "bp_disk c q = bp_view bp q" if "P q" "q \<in> fst ` set ((pid, s) # es)" for q
      using that c(5) [of q] False by (cases "q = pid") simp_all
    have n: "bp_disk c q = bp_disk bp q" if "\<not> (P q \<and> q \<in> fst ` set ((pid, s) # es))" for q
      using that c(6) [of q] by simp
    have "bp_flush_entries P ((pid, s) # es) bp = Inr c" using False c(1) by simp
    then show ?thesis using c(2-4) y n by metis
  qed
qed simp

lemma bp_view_uncached: "pid \<notin> fst ` set (bp_ptable bp) \<Longrightarrow> bp_view bp pid = bp_disk bp pid"
  using map_of_eq_None_iff [of "bp_ptable bp" pid] unfolding bp_view_def
  by (metis option.case(1))

section \<open>Page identifiers, properties\<close>

text \<open>
  Round trip of page identifiers: a raw page number below \<open>2^60\<close> and a file number that are
  merged into one identifier are recovered by the masks of the pool, and every identifier is
  the merge of its parts.
\<close>

theorem mk_pid_roundtrip:
  "raw < 2 ^ 60 \<Longrightarrow> file_id < 16 \<Longrightarrow>
     raw_pid (mk_pid file_id raw) = raw \<and> file_of (mk_pid file_id raw) = file_id \<and>
     mk_pid (file_of pid) (raw_pid pid) = pid"
proof -
  have "raw_pid pid < 2 ^ 60" by (simp add: raw_pid_mod)
  from mk_pid_parts [OF this file_of_less [of pid]] have "mk_pid (file_of pid) (raw_pid pid) = pid"
    by (intro pid_split_inj)
  then show "raw < 2 ^ 60 \<Longrightarrow> file_id < 16 \<Longrightarrow> ?thesis" using mk_pid_parts by blast
qed

theorem mk_pid_roundtrip_witness:
  "raw_pid (mk_pid 3 77) = 77 \<and> file_of (mk_pid 3 77) = 3 \<and> mk_pid (file_of 5) (raw_pid 5) = 5"
  using mk_pid_roundtrip [of 77 3 5] by simp

section \<open>Cache transparency\<close>

lemma bp_fetch_spec:
  assumes wf: "bp_wf bp xs" and v: "bp_view bp pid = Some p"
    and ev: "length xs = bp_bsize bp \<Longrightarrow> bp_evictable bp"
  obtains bp' pos ys s where "bp_fetch_page pid bp = (Inr pos, bp')" "bp_wf bp' ys"
    "bp_view bp' = bp_view bp" "bp_buffer bp' ! pos = p" "map_of (bp_ptable bp') pid = Some s" "bs_p s = pos"
    "bp_bsize bp' = bp_bsize bp" "bp_unpinned bp \<longrightarrow> bp_unpinned bp'"
proof (cases "map_of (bp_ptable bp) pid")
  case None
  with v have "bp_disk bp pid = Some p" by (simp add: bp_view_def)
  from bp_fetch_miss [OF wf None this ev] that show ?thesis by metis
next
  case (Some s)
  from bp_fetch_hit [OF wf Some] obtain bp' ys where b: "bp_fetch_page pid bp = (Inr (bs_p s), bp')"
    "bp_wf bp' ys" "bp_view bp' = bp_view bp" "bp_buffer bp' = bp_buffer bp" "bp_bsize bp' = bp_bsize bp"
    "bp_ptable bp' = bp_ptable bp" .
  then show ?thesis using that Some v by (simp add: bp_view_def bp_unpinned_def)
qed

text \<open>
  C6. Cache transparency of \<open>fetch_page\<close>: for every valid page, cached or not, and as long as a
  full pool has an unpinned page, the call returns a buffer position that holds the page's current
  content, it makes the page resident at that position, no page of any file changes for the
  clients, whatever was evicted for it, and the pool keeps its invariant.
\<close>

theorem bp_fetch_transparent:
  assumes "bp_inv bp" "bp_view bp pid = Some p" "lru_size (bp_lru bp) = bp_bsize bp \<longrightarrow> bp_evictable bp"
  shows "\<exists>pos bp'. bp_fetch_page pid bp = (Inr pos, bp') \<and> bp_inv bp' \<and> bp_buffer bp' ! pos = p \<and>
     bp_view bp' = bp_view bp \<and> (\<exists>s. map_of (bp_ptable bp') pid = Some s \<and> bs_p s = pos)"
proof -
  from assms(1) obtain xs where wf: "bp_wf bp xs" by (auto simp: bp_inv_def)
  have ev: "length xs = bp_bsize bp \<Longrightarrow> bp_evictable bp"
    using assms(3) bp_wfD(4) [OF wf] by (simp add: lru_rep_def)
  from bp_fetch_spec [OF wf assms(2) ev] show ?thesis unfolding bp_inv_def by metis
qed

definition bp_demo :: bufferpool where
  "bp_demo = (bp_new 1)\<lparr>bp_files := [0 \<mapsto> pf_demo\<lparr>pf_npages := 1,
     pf_header := (pf_header pf_demo)\<lparr>fh_slots := (\<lambda>i. i = 0)\<rparr>,
     pf_disk := (pf_disk pf_demo)\<lparr>df_pages := [zero_page]\<rparr>\<rparr>]\<rparr>"

lemma bp_demo_ok: "bp_wf bp_demo []" "bp_view bp_demo (mk_pid 0 1) = Some zero_page"
proof -
  have "pf_inv (pf_demo\<lparr>pf_npages := 1, pf_header := (pf_header pf_demo)\<lparr>fh_slots := (\<lambda>i. i = 0)\<rparr>,
     pf_disk := (pf_disk pf_demo)\<lparr>df_pages := [zero_page]\<rparr>\<rparr>)"
    by (simp add: pf_inv_def pf_slots_def pf_pages_def PF_SLOTS_def)
  then show "bp_wf bp_demo []"
    by (simp add: bp_wf_def bp_demo_def bp_new_def bp_files_ok_def MAX_PFILES_def lru_new_rep)
  show "bp_view bp_demo (mk_pid 0 1) = Some zero_page"
    using mk_pid_parts [of 1 0]
    by (simp add: bp_view_def bp_demo_def bp_new_def bp_disk_def pf_content_def pf_slots_def pf_pages_def)
qed

theorem bp_fetch_transparent_witness:
  "\<exists>pos bp'. bp_fetch_page (mk_pid 0 1) bp_demo = (Inr pos, bp') \<and> bp_inv bp' \<and>
     bp_buffer bp' ! pos = zero_page"
proof -
  have i: "bp_inv bp_demo" using bp_demo_ok(1) by (auto simp: bp_inv_def)
  have "lru_size (bp_lru bp_demo) \<noteq> bp_bsize bp_demo" by (simp add: bp_demo_def bp_new_def lru_new_def)
  with bp_fetch_transparent [OF i bp_demo_ok(2)] show ?thesis by blast
qed

lemma bp_flush_all_spec:
  assumes wf: "bp_wf bp xs"
  shows "\<exists>bp'. bp_flush_all bp = Inr bp' \<and> bp_inv bp' \<and> bp_view bp' = bp_view bp \<and> bp_disk bp' = bp_view bp"
proof -
  have "map_of (bp_ptable bp) k = Some s" if "(k, s) \<in> set (bp_ptable bp)" for k s
    using that bp_wfD(6) [OF wf] by (rule map_of_is_SomeI [rotated])
  from bp_flush_entries_spec [OF wf bp_wfD(6) [OF wf] this, where P = "\<lambda>_. True"]
  obtain b where b: "bp_flush_all bp = Inr b" "bp_wf b xs" "bp_view b = bp_view bp"
    "\<forall>q. (q \<in> fst ` set (bp_ptable bp) \<longrightarrow> bp_disk b q = bp_view bp q) \<and>
         (q \<notin> fst ` set (bp_ptable bp) \<longrightarrow> bp_disk b q = bp_disk bp q)"
    unfolding bp_flush_all_def by auto
  have "bp_disk b = bp_view bp" using b(4) bp_view_uncached by (intro ext) metis
  with b show ?thesis by (auto simp: bp_inv_def)
qed

text \<open>
  Flushing: \<open>flush_all\<close> writes every dirty page back, so that afterwards the files alone hold
  for every page what the clients saw before, cached or not; nothing the clients see changes.
\<close>

theorem bp_flush_all_durable:
  assumes "bp_inv bp"
  shows "\<exists>bp'. bp_flush_all bp = Inr bp' \<and> bp_inv bp' \<and> bp_view bp' = bp_view bp \<and> bp_disk bp' = bp_view bp"
  using assms bp_flush_all_spec by (auto simp: bp_inv_def)

theorem bp_flush_all_durable_witness:
  "\<exists>bp'. bp_flush_all bp_demo = Inr bp' \<and> bp_disk bp' = bp_view bp_demo"
  using bp_flush_all_durable [of bp_demo] bp_demo_ok(1) by (auto simp: bp_inv_def)

section \<open>The pool as a page memory\<close>

text \<open>
  A client of the pool reads a page, or fetches it, overwrites it and marks it dirty.
  \<open>bp_run\<close> replays a list of such accesses on the pool and collects what is seen;
  \<open>mem_run\<close> replays it on a plain map from page ids to pages.
\<close>

datatype bp_access = Rd page_id | Wr page_id page

fun bp_access_pid :: "bp_access \<Rightarrow> page_id" where
  "bp_access_pid (Rd pid) = pid"
| "bp_access_pid (Wr pid pg) = pid"

fun bp_step :: "bp_access \<Rightarrow> (bufferpool, page) action" where
  "bp_step (Rd pid) bp = sbind (bp_fetch_page pid) (\<lambda>pos b. (Inr (bp_buffer b ! pos), b)) bp"
| "bp_step (Wr pid pg) bp =
     sbind (bp_fetch_page pid) (\<lambda>pos b. (Inr pg, bp_mark_dirty pid (bp_poke pos pg b))) bp"

fun bp_run :: "bp_access list \<Rightarrow> (bufferpool, page list) action" where
  "bp_run [] bp = (Inr [], bp)"
| "bp_run (a # as) bp = sbind (bp_step a) (\<lambda>p. sbind (bp_run as) (\<lambda>ps. sret (p # ps))) bp"

fun mem_step :: "bp_access \<Rightarrow> (page_id \<Rightarrow> page option) \<Rightarrow> page \<times> (page_id \<Rightarrow> page option)" where
  "mem_step (Rd pid) m = (the (m pid), m)"
| "mem_step (Wr pid pg) m = (pg, m(pid \<mapsto> pg))"

fun mem_run :: "bp_access list \<Rightarrow> (page_id \<Rightarrow> page option) \<Rightarrow> page list \<times> (page_id \<Rightarrow> page option)" where
  "mem_run [] m = ([], m)"
| "mem_run (a # as) m = (let (p, m1) = mem_step a m; (ps, m2) = mem_run as m1 in (p # ps, m2))"

lemma bp_evictable_unpinned:
  assumes "bp_wf bp xs" "bp_unpinned bp" "0 < bp_bsize bp" "length xs = bp_bsize bp"
  shows "bp_evictable bp"
proof -
  from assms(3,4) obtain x where "x \<in> set xs" by (cases xs) auto
  from bp_wfD(9) [OF assms(1) this] assms(2) show ?thesis by (auto simp: bp_evictable_def bp_unpinned_def)
qed

lemma bp_step_refines:
  assumes wf: "bp_wf bp xs" and u: "bp_unpinned bp" "0 < bp_bsize bp"
    and dom: "bp_access_pid a \<in> dom (bp_view bp)"
  obtains b ys where "bp_step a bp = (Inr (fst (mem_step a (bp_view bp))), b)" "bp_wf b ys"
    "bp_unpinned b" "bp_bsize b = bp_bsize bp" "bp_view b = snd (mem_step a (bp_view bp))"
proof -
  from dom obtain p where p: "bp_view bp (bp_access_pid a) = Some p" by auto
  from bp_fetch_spec [OF wf p bp_evictable_unpinned [OF wf u]] obtain b pos ys s where
    b: "bp_fetch_page (bp_access_pid a) bp = (Inr pos, b)" "bp_wf b ys" "bp_view b = bp_view bp"
       "bp_buffer b ! pos = p" "map_of (bp_ptable b) (bp_access_pid a) = Some s" "bs_p s = pos"
       "bp_bsize b = bp_bsize bp" "bp_unpinned bp \<longrightarrow> bp_unpinned b" .
  show ?thesis
  proof (cases a)
    case (Rd pid)
    then show ?thesis using that [of b ys] b p u(1) by (simp add: sbind_def)
  next
    case (Wr pid pg)
    let ?b = "bp_mark_dirty pid (bp_poke pos pg b)"
    from bp_update_wf [OF b(2,5), of pg] b(6) Wr have w: "bp_wf ?b ys" "bp_view ?b = (bp_view b)(pid \<mapsto> pg)"
      by simp_all
    have "bp_unpinned ?b" using b(8) u(1)
      by (auto simp: bp_unpinned_def bp_mark_dirty_def bp_poke_def map_of_modify split: if_splits)
    moreover have "bp_bsize ?b = bp_bsize bp" using b(7) by (simp add: bp_mark_dirty_def bp_poke_def)
    ultimately show ?thesis using that [of ?b ys] w b(1,3) Wr by (simp add: sbind_def)
  qed
qed

lemma bp_run_refines:
  assumes "bp_wf bp xs" "bp_unpinned bp" "0 < bp_bsize bp" "bp_access_pid ` set as \<subseteq> dom (bp_view bp)"
  shows "\<exists>b ys. bp_run as bp = (Inr (fst (mem_run as (bp_view bp))), b) \<and> bp_wf b ys \<and>
     bp_view b = snd (mem_run as (bp_view bp))"
  using assms
proof (induction as arbitrary: bp xs)
  case (Cons a as)
  from Cons.prems(4) have "bp_access_pid a \<in> dom (bp_view bp)" by simp
  from bp_step_refines [OF Cons.prems(1-3) this] obtain b ys where
    b: "bp_step a bp = (Inr (fst (mem_step a (bp_view bp))), b)" "bp_wf b ys" "bp_unpinned b"
       "bp_bsize b = bp_bsize bp" "bp_view b = snd (mem_step a (bp_view bp))" .
  have "dom (bp_view bp) \<subseteq> dom (bp_view b)" unfolding b(5) by (cases a) auto
  then have pre: "0 < bp_bsize b" "bp_access_pid ` set as \<subseteq> dom (bp_view b)"
    using Cons.prems(3,4) b(4) by (simp_all add: subset_iff)
  from Cons.IH [OF b(2,3) pre] b show ?case by (auto simp: sbind_def case_prod_beta Let_def)
qed auto

text \<open>
  C4. The pool is a page memory: starting from a pool that satisfies its invariant, has at least one
  buffer slot and no pinned page, every sequence of page reads and page updates over valid pages
  succeeds, shows at every read the page that was written last, whatever the capacity of the pool and
  whatever is evicted in between, and a final \<open>flush_all\<close> leaves exactly that memory in the files.
\<close>

theorem bp_page_memory:
  assumes "bp_inv bp" "bp_unpinned bp" "0 < bp_bsize bp" "bp_access_pid ` set as \<subseteq> dom (bp_view bp)"
  shows "\<exists>b b'. bp_run as bp = (Inr (fst (mem_run as (bp_view bp))), b) \<and>
     bp_flush_all b = Inr b' \<and> bp_disk b' = snd (mem_run as (bp_view bp))"
proof -
  from assms(1) obtain xs where wf: "bp_wf bp xs" by (auto simp: bp_inv_def)
  from bp_run_refines [OF wf assms(2-4)] obtain b ys where
    b: "bp_run as bp = (Inr (fst (mem_run as (bp_view bp))), b)" "bp_wf b ys"
       "bp_view b = snd (mem_run as (bp_view bp))" by blast
  from bp_flush_all_spec [OF b(2)] b show ?thesis by metis
qed

theorem bp_page_memory_witness:
  "\<exists>b b'. bp_run [Wr (mk_pid 0 1) (\<lambda>_. 7), Rd (mk_pid 0 1)] bp_demo = (Inr [\<lambda>_. 7, \<lambda>_. 7], b) \<and>
     bp_flush_all b = Inr b' \<and> bp_disk b' (mk_pid 0 1) = Some (\<lambda>_. 7)"
proof -
  let ?as = "[Wr (mk_pid 0 1) (\<lambda>_. 7), Rd (mk_pid 0 1)]"
  have i: "bp_inv bp_demo" using bp_demo_ok(1) by (auto simp: bp_inv_def)
  have u: "bp_unpinned bp_demo" "0 < bp_bsize bp_demo"
    by (simp_all add: bp_unpinned_def bp_demo_def bp_new_def)
  have d: "bp_access_pid ` set ?as \<subseteq> dom (bp_view bp_demo)" using bp_demo_ok(2) by auto
  from bp_page_memory [OF i u d] show ?thesis by auto
qed

section \<open>Allocation and release\<close>

lemma bp_put_file_fresh:
  assumes wf: "bp_wf bp xs" and f: "bp_files bp i = Some f" "pf_inv f'" "i < 16" "raw < 2 ^ 60"
    and c: "pf_content f raw = None" "pf_content f' = (pf_content f)(raw \<mapsto> p)"
  shows "bp_wf (bp_put_file i f' bp) xs" "bp_view (bp_put_file i f' bp) = (bp_view bp)(mk_pid i raw \<mapsto> p)"
    "map_of (bp_ptable bp) (mk_pid i raw) = None"
proof -
  let ?pid = "mk_pid i raw" and ?b = "bp_put_file i f' bp"
  note parts = mk_pid_parts [OF f(4,3)]
  have d: "bp_disk ?b = (bp_disk bp)(?pid \<mapsto> p)"
    using bp_disk_put_file [of f' f ?pid p bp] c(2) f(1) unfolding parts by simp
  have old: "bp_disk bp ?pid = None" using f(1) c(1) unfolding bp_disk_def parts by simp
  then show new: "map_of (bp_ptable bp) ?pid = None"
    using bp_entryD(6) [OF wf, of ?pid] by (cases "map_of (bp_ptable bp) ?pid") auto
  have "bp_entry_ok ?b xs k t" if "map_of (bp_ptable bp) k = Some t" for k t
    using bp_wfD(7) [OF wf that] new that unfolding bp_entry_ok_def d by auto
  moreover have "bp_files_ok ?b" using bp_wfD(5) [OF wf] f(1,2)
    by (auto simp: bp_files_ok_def bp_put_file_def)
  ultimately show "bp_wf ?b xs" using wf unfolding bp_wf_def by simp
  show "bp_view ?b = (bp_view bp)(?pid \<mapsto> p)"
    using new unfolding bp_view_def d by (auto simp: fun_eq_iff split: option.splits)
qed

text \<open>
  Allocation through the pool: for a registered file that can take another page,
  \<open>allocate_page\<close> returns a page number of that file that was in use nowhere, resident and zeroed, and
  changes no other page.
\<close>

theorem bp_allocate_page_fresh:
  assumes "bp_inv bp" "bp_files bp i = Some f" "pf_npages f + 1 < PF_SLOTS"
    "lru_size (bp_lru bp) = bp_bsize bp \<longrightarrow> bp_evictable bp"
  shows "\<exists>pos pid b. bp_allocate_page i bp = (Inr (pos, pid), b) \<and> bp_inv b \<and>
     bp_view bp (mk_pid i pid) = None \<and> bp_view b = (bp_view bp)(mk_pid i pid \<mapsto> zero_page) \<and>
     bp_buffer b ! pos = zero_page"
proof -
  from assms(1) obtain xs where wf: "bp_wf bp xs" by (auto simp: bp_inv_def)
  from bp_wfD(5) [OF wf] assms(2) have i: "i < MAX_PFILES" "pf_inv f" by (auto simp: bp_files_ok_def)
  from pf_allocate_spec [OF i(2)] assms(3) obtain f' pid where a: "pf_allocate_page f = Inr (f', pid)"
    "pf_inv f'" "pid < PF_SLOTS" "pf_content f pid = None" "pf_content f' = (pf_content f)(pid \<mapsto> zero_page)"
    by blast
  have r: "i < 16" "pid < 2 ^ 60" using i(1) a(3) by (simp_all add: MAX_PFILES_def PF_SLOTS_def)
  note fr = bp_put_file_fresh [OF wf assms(2) a(2) r a(4,5)]
  let ?b = "bp_put_file i f' bp" and ?pid = "mk_pid i pid"
  have ev: "length xs = bp_bsize ?b \<Longrightarrow> bp_evictable ?b"
    using assms(4) bp_wfD(4) [OF wf] by (simp add: lru_rep_def bp_evictable_def)
  have "bp_view ?b ?pid = Some zero_page" using fr(2) by simp
  from bp_fetch_spec [OF fr(1) this ev] obtain b pos ys where
    b: "bp_fetch_page ?pid ?b = (Inr pos, b)" "bp_wf b ys" "bp_view b = bp_view ?b"
       "bp_buffer b ! pos = zero_page" by metis
  have "bp_allocate_page i bp = (Inr (pos, pid), b)"
    using assms(2) i(1) a(1) b(1) by (simp add: bp_allocate_page_def bp_get_file_def sbind_def)
  moreover have "bp_view bp ?pid = None"
    using fr(3) a(4) assms(2) mk_pid_parts [OF r(2,1)] by (simp add: bp_view_def bp_disk_def)
  ultimately show ?thesis using b fr(2) by (auto simp: bp_inv_def)
qed

theorem bp_allocate_page_fresh_witness:
  "\<exists>pos pid b. bp_allocate_page 0 bp_demo = (Inr (pos, pid), b) \<and> bp_inv b \<and> bp_buffer b ! pos = zero_page"
proof -
  have i: "bp_inv bp_demo" using bp_demo_ok(1) by (auto simp: bp_inv_def)
  have "lru_size (bp_lru bp_demo) \<noteq> bp_bsize bp_demo" by (simp add: bp_demo_def bp_new_def lru_new_def)
  moreover obtain f where "bp_files bp_demo 0 = Some f" "pf_npages f + 1 < PF_SLOTS"
    by (simp add: bp_demo_def PF_SLOTS_def)
  ultimately show ?thesis using bp_allocate_page_fresh [OF i, of 0 f] by blast
qed

section \<open>Slots that are lost\<close>

lemma bp_no_free_slot:
  assumes wf: "bp_wf bp xs" and full: "length xs = bp_bsize bp"
  shows "bp_slots bp = replicate (bp_bsize bp) False"
  using count_list_False_full [of "bp_slots bp"] bp_wfD(2,3) [OF wf] full by simp

lemma bp_free_page_eq:
  assumes wf: "bp_wf bp xs" and s: "map_of (bp_ptable bp) pid = Some s"
  obtains b where "bp_free_page pid bp = Inr b" "lru_size (bp_lru b) = length xs - 1"
    "bp_slots b = bp_slots bp" "bp_bsize b = bp_bsize bp" "map_of (bp_ptable b) = (map_of (bp_ptable bp))(pid := None)"
    "bp_disk b pid = None"
proof -
  from bp_entryD(6) [OF wf s] obtain p f where f: "bp_files bp (file_of pid) = Some f"
    "pf_content f (raw_pid pid) = Some p" by (auto simp: bp_disk_def split: option.splits)
  with bp_wfD(5) [OF wf] have fi: "file_of pid < MAX_PFILES" "pf_inv f" by (auto simp: bp_files_ok_def)
  from pf_free_spec [OF fi(2) f(2)] obtain f' where f': "pf_free_page (raw_pid pid) f = Inr (f', True)"
    "pf_content f' = (pf_content f)(raw_pid pid := None)" by blast
  from bp_entryD(4) [OF wf s] obtain as bs where xs: "xs = as @ bs_lru s # bs" by (meson split_list)
  with bp_wfD(4) [OF wf] have rep: "lru_rep (bp_lru bp) (as @ bs_lru s # bs)" by simp
  from lru_remove_spec [OF rep] obtain l' where l': "lru_remove (bs_lru s) (bp_lru bp) = Inr l'"
    "lru_rep l' (as @ bs)" .
  let ?b = "bp_put_file (file_of pid) f' ((bp_memset (bs_p s) bp)\<lparr>bp_lru := l',
      bp_ptable := pt_erase pid (bp_ptable bp)\<rparr>)"
  have "bp_free_page pid bp = Inr ?b"
    using s f fi f' l' by (simp add: bp_free_page_def bp_get_file_def bp_lru_remove_def bp_memset_def Let_def)
  moreover have "bp_disk ?b pid = None" using f'(2) by (simp add: bp_disk_def bp_put_file_def)
  ultimately show ?thesis using that [of ?b] l'(2) xs
    by (simp add: bp_memset_def map_of_erase lru_rep_def)
qed

text \<open>
  \<open>free_page\<close> takes the page out of the hash table and the replacement list but never gives its
  buffer slot back: in a full pool, after a cached page has been freed, fetching any page that is not
  resident throws \<open>bufferpool_overrun\<close>, since the list is one short of the capacity (nothing
  is evicted) and no slot is free.
\<close>

theorem bp_free_page_leaks_slot:
  assumes "bp_inv bp" "lru_size (bp_lru bp) = bp_bsize bp" "map_of (bp_ptable bp) pid = Some s"
  shows "\<exists>b. bp_free_page pid bp = Inr b \<and>
     (\<forall>q. map_of (bp_ptable b) q = None \<longrightarrow> fst (bp_fetch_page q b) = Inl Bufferpool_overrun)"
proof -
  from assms(1) obtain xs where wf: "bp_wf bp xs" by (auto simp: bp_inv_def)
  with assms(2) have full: "length xs = bp_bsize bp" using bp_wfD(4) [OF wf] by (simp add: lru_rep_def)
  from bp_entryD(4) [OF wf assms(3)] have "0 < bp_bsize bp" using full by (cases xs) auto
  from bp_free_page_eq [OF wf assms(3)] obtain b where b: "bp_free_page pid bp = Inr b"
    "lru_size (bp_lru b) = length xs - 1" "bp_slots b = bp_slots bp" "bp_bsize b = bp_bsize bp" by metis
  have ne: "bp_bsize bp - Suc 0 \<noteq> bp_bsize bp" using \<open>0 < bp_bsize bp\<close> by simp
  have "bp_find_slot b = None"
    using bp_no_free_slot [OF wf full] b(3) by (simp add: bp_find_slot_def find_None_iff)
  then have "fst (bp_fetch_page q b) = Inl Bufferpool_overrun" if "map_of (bp_ptable b) q = None" for q
    using that b full ne
    by (simp add: bp_fetch_page_def Let_def sbind_def bp_make_room_def supd_def bp_load_page_from_file_def
        bp_find_slot_def)
  with b(1) show ?thesis by blast
qed

theorem bp_free_page_leaks_slot_witness:
  "\<exists>b b'. snd (bp_fetch_page (mk_pid 0 1) bp_demo) = b \<and> bp_free_page (mk_pid 0 1) b = Inr b' \<and>
     (\<forall>q. map_of (bp_ptable b') q = None \<longrightarrow> fst (bp_fetch_page q b') = Inl Bufferpool_overrun)"
proof -
  have ev: "length [] = bp_bsize bp_demo \<Longrightarrow> bp_evictable bp_demo" by (simp add: bp_demo_def bp_new_def)
  from bp_fetch_spec [OF bp_demo_ok ev] obtain b pos ys s where
    b: "bp_fetch_page (mk_pid 0 1) bp_demo = (Inr pos, b)" "bp_wf b ys"
       "map_of (bp_ptable b) (mk_pid 0 1) = Some s" "bp_bsize b = bp_bsize bp_demo" by metis
  have "length ys \<le> 1" using bp_wfD(2,3) [OF b(2)] count_le_length [of "bp_slots b" False] b(4)
    by (simp add: bp_demo_def bp_new_def)
  moreover have "ys \<noteq> []" using bp_entryD(4) [OF b(2,3)] by auto
  ultimately have "lru_size (bp_lru b) = bp_bsize b"
    using bp_wfD(4) [OF b(2)] b(4) by (cases ys) (auto simp: lru_rep_def bp_demo_def bp_new_def)
  moreover have "bp_inv b" using b(2) by (auto simp: bp_inv_def)
  ultimately show ?thesis using bp_free_page_leaks_slot [OF _ _ b(3)] b(1) by simp
qed

text \<open>
  A failed read loses a slot as well: fetching a page that is not valid in its registered file
  throws \<open>index_out_of_range\<close>, and the buffer slot chosen for it stays marked as occupied
  although no page is resident there.
\<close>

theorem bp_fetch_invalid_leaks_slot:
  assumes "bp_inv bp" "lru_size (bp_lru bp) \<noteq> bp_bsize bp" "bp_files bp (file_of pid) = Some f"
    "0 < raw_pid pid" "raw_pid pid \<le> PF_SLOTS" "pf_is_valid f (raw_pid pid) = Inr False"
  shows "\<exists>b. bp_fetch_page pid bp = (Inl Index_out_of_range, b) \<and> bp_ptable b = bp_ptable bp \<and>
     bp_lru b = bp_lru bp \<and> count_list (bp_slots b) False = Suc (count_list (bp_slots bp) False)"
proof -
  from assms(1) obtain xs where wf: "bp_wf bp xs" by (auto simp: bp_inv_def)
  let ?bp = "bp\<lparr>bp_l_reads := bp_l_reads bp + 1\<rparr>"
  from bp_wfD(5) [OF wf] assms(3) have fi: "file_of pid < MAX_PFILES" "pf_inv f"
    by (auto simp: bp_files_ok_def)
  have c: "pf_content f (raw_pid pid) = None"
    using pf_content_valid [OF fi(2), of "raw_pid pid"] assms(6) by simp
  then have "bp_disk bp pid = None" using assms(3) by (simp add: bp_disk_def)
  then have new: "map_of (bp_ptable bp) pid = None"
    using bp_entryD(6) [OF wf, of pid] by (cases "map_of (bp_ptable bp) pid") auto
  have "length xs \<le> bp_bsize bp" using bp_wfD(2,3) [OF wf] count_le_length [of "bp_slots bp" False] by simp
  then have sz: "length xs < bp_bsize ?bp" using assms(2) bp_wfD(4) [OF wf] by (simp add: lru_rep_def)
  have wf0: "bp_wf ?bp xs" using wf by (simp add: bp_wf_l_reads)
  from bp_find_slot_free [OF wf0 sz] obtain pos where pos: "bp_find_slot ?bp = Some pos"
    "pos < bp_bsize ?bp" "bp_slots ?bp ! pos" .
  have rd: "pf_read_page (raw_pid pid) f = Inl Index_out_of_range"
    using assms(4-6) fi(2) by (auto simp: pf_read_page_def pf_is_valid_def bs_test_def pf_inv_def
        split: if_splits)
  let ?b = "?bp\<lparr>bp_slots := (bp_slots bp)[pos := False]\<rparr>"
  have "bp_fetch_page pid bp = (Inl Index_out_of_range, ?b)"
    using new assms(2,3) fi(1) rd pos(1)
    by (simp add: bp_fetch_page_def Let_def sbind_def bp_make_room_def supd_def bp_load_page_from_file_def
        bp_get_file_def)
  moreover have "count_list (bp_slots ?b) False = Suc (count_list (bp_slots bp) False)"
    using count_list_set_False [of pos "bp_slots bp"] pos(2,3) bp_wfD(2) [OF wf] by simp
  ultimately show ?thesis by simp
qed

theorem bp_fetch_invalid_leaks_slot_witness:
  "\<exists>b. bp_fetch_page (mk_pid 0 2) bp_demo = (Inl Index_out_of_range, b) \<and>
     count_list (bp_slots b) False = Suc (count_list (bp_slots bp_demo) False)"
proof -
  have p: "raw_pid (mk_pid 0 2) = 2" "file_of (mk_pid 0 2) = 0" using mk_pid_parts [of 2 0] by simp_all
  have i: "bp_inv bp_demo" using bp_demo_ok(1) by (auto simp: bp_inv_def)
  have s: "lru_size (bp_lru bp_demo) \<noteq> bp_bsize bp_demo" by (simp add: bp_demo_def bp_new_def lru_new_def)
  obtain f where f: "bp_files bp_demo (file_of (mk_pid 0 2)) = Some f" "pf_is_valid f (raw_pid (mk_pid 0 2)) = Inr False"
    unfolding p by (simp add: bp_demo_def pf_is_valid_def)
  have "0 < raw_pid (mk_pid 0 2)" "raw_pid (mk_pid 0 2) \<le> PF_SLOTS" unfolding p by (simp_all add: PF_SLOTS_def)
  from bp_fetch_invalid_leaks_slot [OF i s f(1) this f(2)] show ?thesis by blast
qed

text \<open>
  \<open>purge\<close> of a pool with cached pages leaves the replacement list with dangling
  pointers: the next fetch of any page that can be read is undefined behaviour.
\<close>

theorem bp_purge_breaks_fetch:
  assumes "bp_inv bp" "bp_ptable bp \<noteq> []" "bp_disk bp pid = Some p"
  shows "\<exists>b. bp_purge bp = Inr b \<and> fst (bp_fetch_page pid b) = Inl Undefined_behaviour"
proof -
  from assms(1) obtain xs where wf: "bp_wf bp xs" by (auto simp: bp_inv_def)
  obtain e es where "bp_ptable bp = e # es" using assms(2) by (cases "bp_ptable bp") auto
  then have "map_of (bp_ptable bp) (fst e) = Some (snd e)" by simp
  from bp_entryD(2,4) [OF wf this] obtain y ys where xs: "xs = y # ys" "0 < bp_bsize bp" by (cases xs) auto
  from lru_clear_spec [of "bp_lru bp" y ys] bp_wfD(4) [OF wf] xs(1) obtain l where
    l: "lru_clear (bp_lru bp) = Inr l" "lru_size l = 0" "\<forall>pid. lru_add_to_mru pid l = Inl Undefined_behaviour"
    by auto
  from assms(3) obtain f where f: "bp_files bp (file_of pid) = Some f" "pf_content f (raw_pid pid) = Some p"
    by (auto simp: bp_disk_def split: option.splits)
  with bp_wfD(5) [OF wf] have fi: "file_of pid < MAX_PFILES" "pf_inv f" by (auto simp: bp_files_ok_def)
  note rd = pf_read_law [OF fi(2) f(2)]
  let ?b = "bp\<lparr>bp_slots := replicate (length (bp_slots bp)) True, bp_lru := l, bp_ptable := [],
             bp_buffer := replicate (bp_bsize bp) zero_page\<rparr>"
  have "find (\<lambda>i. bp_slots ?b ! i) [0..<length (bp_slots ?b)] \<noteq> None"
    unfolding find_upt_None using xs(2) bp_wfD(2) [OF wf] by auto
  then obtain pos where pos: "find (\<lambda>i. bp_slots ?b ! i) [0..<length (bp_slots ?b)] = Some pos" by blast
  have "fst (bp_fetch_page pid ?b) = Inl Undefined_behaviour"
    using l(2,3) xs(2) pos rd f(1) fi(1)
    by (simp add: bp_fetch_page_def Let_def sbind_def bp_make_room_def supd_def bp_load_page_from_file_def
        bp_find_slot_def bp_get_file_def bp_admit_def)
  moreover have "bp_purge bp = Inr ?b" using l(1) by (simp add: bp_purge_def)
  ultimately show ?thesis by blast
qed

theorem bp_purge_breaks_fetch_witness:
  "\<exists>b b'. snd (bp_fetch_page (mk_pid 0 1) bp_demo) = b \<and> bp_purge b = Inr b' \<and>
     fst (bp_fetch_page (mk_pid 0 1) b') = Inl Undefined_behaviour"
proof -
  have ev: "length [] = bp_bsize bp_demo \<Longrightarrow> bp_evictable bp_demo" by (simp add: bp_demo_def bp_new_def)
  from bp_fetch_spec [OF bp_demo_ok ev] obtain b pos ys s where
    b: "bp_fetch_page (mk_pid 0 1) bp_demo = (Inr pos, b)" "bp_wf b ys"
       "map_of (bp_ptable b) (mk_pid 0 1) = Some s" by metis
  from bp_entryD(6) [OF b(2,3)] obtain p where p: "bp_disk b (mk_pid 0 1) = Some p" by blast
  have "bp_inv b" "bp_ptable b \<noteq> []" using b(2,3) by (auto simp: bp_inv_def)
  from bp_purge_breaks_fetch [OF this p] b(1) show ?thesis by simp
qed

text \<open>The physical reads of \<open>fetch_page\<close> are not counted: only \<open>scan_file\<close> changes \<open>p_reads_\<close>.\<close>

lemma bp_fetch_hit_counts:
  assumes "map_of (bp_ptable bp) pid = None" "bp_fetch_page pid bp = (Inr pos, b)"
    "lru_size (bp_lru bp) \<noteq> bp_bsize bp"
  shows "bp_p_reads b = bp_p_reads bp \<and> bp_l_reads b = bp_l_reads bp + 1"
  using assms by (auto simp: bp_fetch_page_def Let_def sbind_def bp_make_room_def supd_def
      bp_load_page_from_file_def bp_admit_def rbind_eq_Inr_iff split: option.splits sum.splits prod.splits)

end
