(* ===== verification/Buffered_Vec.thy ===== *)
theory Buffered_Vec
  imports Bufferpool Chunked_Vec
begin

text \<open>
  The record vector of the paged-file configuration, class \<open>buffered_vec\<close> of \<^verbatim>\<open>src/src/vec/buffered_vec.hpp\<close>: each chunk is the
  content of a page of the buffer pool. The chunk has the fields and operations of the chunk of the in-memory vector. How
  the compiler lays a chunk out in the bytes of a page is a parameter: a pair of functions, to a page and back. A pointer
  to a chunk is a position in the buffer of the pool. The mutexes only exclude concurrent calls.
\<close>

section \<open>State\<close>

type_synonym 'a layout = "('a chunk \<Rightarrow> page) \<times> (page \<Rightarrow> 'a chunk)"

record bvec =
  bv_pool :: bufferpool
  bv_file :: nat
  bv_avail :: nat
  bv_epc :: nat
  bv_capacity :: nat
  bv_free :: "nat \<Rightarrow> bool"

definition bv_lift :: "(bufferpool, 'b) action \<Rightarrow> (bvec, 'b) action" where
  "bv_lift m v = (case m (bv_pool v) of (r, b) \<Rightarrow> (r, v\<lparr>bv_pool := b\<rparr>))"

definition bv_get_file :: "bvec \<Rightarrow> paged_file result" where
  "bv_get_file v = bp_get_file (bv_file v) (bv_pool v)"

definition bv_pid :: "bvec \<Rightarrow> nat \<Rightarrow> page_id" where
  "bv_pid v pid = mk_pid (bv_file v) pid"

definition bv_chunk :: "'a layout \<Rightarrow> nat \<Rightarrow> bvec \<Rightarrow> 'a chunk" where
  "bv_chunk lay p v = snd lay (bp_buffer (bv_pool v) ! p)"

definition bv_set_chunk :: "'a layout \<Rightarrow> nat \<Rightarrow> 'a chunk \<Rightarrow> (bvec, unit) action" where
  "bv_set_chunk lay p c v = (Inr (), v\<lparr>bv_pool := bp_poke p (fst lay c) (bv_pool v)\<rparr>)"

text \<open>The constructor, for a file without a header payload: the counters of an existing file come with the callback of its header.\<close>

definition bv_new :: "nat \<Rightarrow> nat \<Rightarrow> bufferpool \<Rightarrow> bvec result" where
  "bv_new file_id epc b =
     rbind (bp_get_file file_id b) (\<lambda>f.
     Inr \<lparr>bv_pool = b, bv_file = file_id, bv_avail = 0, bv_epc = epc, bv_capacity = pf_npages f * epc, bv_free = (\<lambda>_. False)\<rparr>)"

definition bv_clear :: "bvec \<Rightarrow> bvec result" where
  "bv_clear v =
     rbind (bv_get_file v) (\<lambda>f.
     Inr (v\<lparr>bv_pool := bp_put_file (bv_file v) (pf_truncate f) (bv_pool v), bv_capacity := 0, bv_avail := 0, bv_free := (\<lambda>_. False)\<rparr>))"

definition bv_set_free :: "bool \<Rightarrow> nat \<Rightarrow> (bvec, unit) action" where
  "bv_set_free b idx v =
     (let k = idx div bv_epc v in
      if k < PF_SLOTS then (Inr (), v\<lparr>bv_free := (bv_free v)(k := b)\<rparr>) else (Inl Std_out_of_range, v))"

definition bv_add_to_free_list :: "nat \<Rightarrow> (bvec, unit) action" where
  "bv_add_to_free_list = bv_set_free True"

definition bv_remove_from_free_list :: "nat \<Rightarrow> (bvec, unit) action" where
  "bv_remove_from_free_list = bv_set_free False"

definition bv_find_in_free_list :: "bvec \<Rightarrow> nat" where
  "bv_find_in_free_list v = (case find (bv_free v) [0..<PF_SLOTS] of Some i \<Rightarrow> i + 1 | None \<Rightarrow> 0)"

section \<open>Pages\<close>

definition bv_fetch :: "bool \<Rightarrow> nat \<Rightarrow> (bvec, nat) action" where
  "bv_fetch modify pid v =
     sbind (bv_lift (bp_fetch_page (bv_pid v pid))) (\<lambda>p.
     sbind (if modify then bv_lift (\<lambda>b. (Inr (), bp_mark_dirty (bv_pid v pid) b)) else sret ()) (\<lambda>_. sret p)) v"

definition page_no :: "nat \<Rightarrow> nat \<Rightarrow> nat" where
  "page_no epc idx = idx div epc + 1"

definition bv_find_chunk :: "bool \<Rightarrow> nat \<Rightarrow> (bvec, nat) action" where
  "bv_find_chunk modify idx v = bv_fetch modify (page_no (bv_epc v) idx) v"

definition bv_load_chunk :: "bool \<Rightarrow> nat \<Rightarrow> (bvec, nat option) action" where
  "bv_load_chunk modify pid =
     sbind (slift (\<lambda>v. rbind (bv_get_file v) (\<lambda>f. pf_is_valid f pid))) (\<lambda>ok.
     if ok then sbind (bv_fetch modify pid) (\<lambda>p. sret (Some p)) else sret None)"

definition bv_get_last_chunk :: "bool \<Rightarrow> (bvec, nat \<times> nat) action" where
  "bv_get_last_chunk modify v =
     sbind (bv_lift (bp_last_valid_page (bv_file v))) (\<lambda>(p, pid).
     sbind (if modify then bv_lift (\<lambda>b. (Inr (), bp_mark_dirty (bv_pid v pid) b)) else sret ()) (\<lambda>_. sret (p, pid))) v"

text \<open>The new page is initialised through the pointer and not marked dirty.\<close>

definition bv_resize_one :: "'a layout \<Rightarrow> 'a \<Rightarrow> (bvec, unit) action" where
  "bv_resize_one lay d v =
     sbind (bv_lift (bp_allocate_page (bv_file v))) (\<lambda>(p, pid).
     sbind (bv_set_chunk lay p (chunk_new d (bv_epc v))) (\<lambda>_.
     sbind (bv_add_to_free_list (pid * bv_epc v - 1)) (\<lambda>_.
     supd (\<lambda>v. Inr (v\<lparr>bv_capacity := bv_capacity v + bv_epc v, bv_avail := bv_avail v + bv_epc v\<rparr>))))) v"

fun bv_resize :: "'a layout \<Rightarrow> 'a \<Rightarrow> nat \<Rightarrow> (bvec, unit) action" where
  "bv_resize lay d 0 = sret ()"
| "bv_resize lay d (Suc n) = sbind (bv_resize_one lay d) (\<lambda>_. bv_resize lay d n)"

definition bv_is_full :: "bvec \<Rightarrow> bool" where
  "bv_is_full v = (bv_avail v = 0)"

section \<open>Records\<close>

text \<open>The slot is tested after it was set, so the counter of available slots never changes here.\<close>

definition bv_store_at :: "'a layout \<Rightarrow> nat \<Rightarrow> 'a \<Rightarrow> (bvec, unit) action" where
  "bv_store_at lay idx x =
     sbind (bv_find_chunk True idx) (\<lambda>p.
     sbind (slift (\<lambda>v. Inr (bv_chunk lay p v, idx mod bv_epc v))) (\<lambda>(c, pos).
     let c' = chunk_set (c\<lparr>ch_data := (ch_data c)[pos := x]\<rparr>) pos True in
     sbind (bv_set_chunk lay p c') (\<lambda>_.
     sbind (supd (\<lambda>v. Inr (if chunk_is_used c' pos then v else v\<lparr>bv_avail := dec64 (bv_avail v)\<rparr>))) (\<lambda>_.
     if chunk_is_full c' then bv_remove_from_free_list idx else sret ()))))"

text \<open>The common end of \<open>append\<close> and \<open>store\<close>: the record goes to the first free slot of the chunk; the position is computed with the last page.\<close>

definition bv_put :: "'a layout \<Rightarrow> nat \<Rightarrow> 'a \<Rightarrow> (bvec, nat) action" where
  "bv_put lay p x =
     sbind (slift (\<lambda>v. case chunk_first_available (bv_chunk lay p v) of None \<Rightarrow> Inl Assertion_failed | Some pos \<Rightarrow> Inr pos)) (\<lambda>pos.
     sbind (slift (\<lambda>v. rbind (bv_get_file v) (\<lambda>f. Inr ((pf_npages f - 1) * bv_epc v)))) (\<lambda>offs.
     sbind (supd (\<lambda>v. Inr (v\<lparr>bv_avail := dec64 (bv_avail v)\<rparr>))) (\<lambda>_.
     sbind (slift (\<lambda>v. Inr (bv_chunk lay p v))) (\<lambda>c.
     let c1 = chunk_set c pos True; c2 = c1\<lparr>ch_data := (ch_data c1)[pos := x]\<rparr> in
     sbind (bv_set_chunk lay p c2) (\<lambda>_.
     sbind (if chunk_is_full c2 then bv_remove_from_free_list offs else sret ()) (\<lambda>_. sret (offs + pos)))))))"

definition bv_append :: "'a layout \<Rightarrow> 'a \<Rightarrow> 'a \<Rightarrow> (bvec, nat) action" where
  "bv_append lay d x =
     sbind (slift (\<lambda>v. Inr (bv_is_full v))) (\<lambda>full.
     sbind (if full then bv_resize lay d 1 else sret ()) (\<lambda>_.
     sbind (bv_get_last_chunk True) (\<lambda>(p, _).
     sbind (slift (\<lambda>v. Inr (chunk_is_full (bv_chunk lay p v)))) (\<lambda>tail_full.
     sbind (if tail_full then sbind (bv_resize lay d 1) (\<lambda>_. sbind (bv_get_last_chunk True) (\<lambda>(q, _). sret q)) else sret p) (\<lambda>q.
     bv_put lay q x)))))"

definition bv_store :: "'a layout \<Rightarrow> 'a \<Rightarrow> 'a \<Rightarrow> (bvec, nat) action" where
  "bv_store lay d x =
     sbind (slift (\<lambda>v. Inr (bv_is_full v))) (\<lambda>full.
     sbind (if full then
              sbind (bv_resize lay d 1) (\<lambda>_.
              sbind (bv_get_last_chunk True) (\<lambda>(p, _).
              sbind (slift (\<lambda>v. Inr (chunk_is_full (bv_chunk lay p v)))) (\<lambda>tail_full.
              if tail_full then sbind (bv_resize lay d 1) (\<lambda>_. sbind (bv_get_last_chunk True) (\<lambda>(q, _). sret q)) else sret p)))
            else
              sbind (slift (\<lambda>v. Inr (bv_find_in_free_list v))) (\<lambda>pid.
              sbind (bv_load_chunk True pid) (\<lambda>po.
              case po of None \<Rightarrow> sthrow Assertion_failed | Some p \<Rightarrow> sret p))) (\<lambda>p.
     bv_put lay p x))"

text \<open>Here too the slot is tested after it was cleared, and the chunk after it lost a record.\<close>

definition bv_erase :: "'a layout \<Rightarrow> nat \<Rightarrow> (bvec, unit) action" where
  "bv_erase lay idx =
     sbind (bv_find_chunk True idx) (\<lambda>p.
     sbind (slift (\<lambda>v. Inr (bv_chunk lay p v, idx mod bv_epc v))) (\<lambda>(c, pos).
     let c' = chunk_set c pos False in
     sbind (bv_set_chunk lay p c') (\<lambda>_.
     sbind (supd (\<lambda>v. Inr (if chunk_is_used c' pos then v\<lparr>bv_avail := bv_avail v + 1\<rparr> else v))) (\<lambda>_.
     if chunk_is_full c' then bv_add_to_free_list idx else sret ()))))"

definition bv_at :: "'a layout \<Rightarrow> nat \<Rightarrow> (bvec, 'a) action" where
  "bv_at lay idx =
     sbind (bv_find_chunk False idx) (\<lambda>p.
     slift (\<lambda>v. let c = bv_chunk lay p v; pos = idx mod bv_epc v in
       if chunk_is_used c pos then Inr (ch_data c ! pos) else Inl Unknown_id))"

definition bv_is_used :: "'a layout \<Rightarrow> nat \<Rightarrow> (bvec, bool) action" where
  "bv_is_used lay idx =
     sbind (bv_find_chunk False idx) (\<lambda>p. slift (\<lambda>v. Inr (chunk_is_used (bv_chunk lay p v) (idx mod bv_epc v))))"

definition bv_first_available :: "'a layout \<Rightarrow> (bvec, nat) action" where
  "bv_first_available lay v =
     (if bv_avail v = 0 then (Inr UNKNOWN, v)
      else let pid = bv_find_in_free_list v in
        sbind (bv_load_chunk False pid) (\<lambda>po.
        case po of None \<Rightarrow> sret UNKNOWN
        | Some p \<Rightarrow> slift (\<lambda>v. Inr (case chunk_first_available (bv_chunk lay p v) of
            Some i \<Rightarrow> (pid - 1) * bv_epc v + i | None \<Rightarrow> UNKNOWN))) v)"

definition bv_last_used :: "'a layout \<Rightarrow> (bvec, nat) action" where
  "bv_last_used lay =
     sbind (bv_get_last_chunk False) (\<lambda>(p, pid).
     slift (\<lambda>v. Inr (((pid - 1) * bv_epc v + (case chunk_last_used (bv_chunk lay p v) of Some i \<Rightarrow> i | None \<Rightarrow> UNKNOWN)) mod 2 ^ 64)))"

definition bv_num_chunks :: "bvec \<Rightarrow> nat result" where
  "bv_num_chunks v = rbind (bv_get_file v) (\<lambda>f. Inr (pf_npages f))"

section \<open>Iterators\<close>

text \<open>
  An iterator holds the number of its page, the pointer to the chunk, which is null at the end, and the position in the chunk. It pins the page it is on.
  The loops of \<open>operator++\<close> get fuel: running out of it is the value None.
\<close>

record bv_iter =
  it_pid :: nat
  it_cptr :: "nat option"
  it_pos :: nat

definition bv_pin :: "nat \<Rightarrow> (bvec, unit) action" where
  "bv_pin pid v = (Inr (), v\<lparr>bv_pool := bp_pin_page (bv_pid v pid) (bv_pool v)\<rparr>)"

definition bv_unpin :: "nat \<Rightarrow> (bvec, unit) action" where
  "bv_unpin pid v = (Inr (), v\<lparr>bv_pool := bp_unpin_page (bv_pid v pid) (bv_pool v)\<rparr>)"

definition bv_load_pinned :: "nat \<Rightarrow> (bvec, nat option) action" where
  "bv_load_pinned pid =
     sbind (bv_load_chunk False pid) (\<lambda>po.
     sbind (if po \<noteq> None then bv_pin pid else sret ()) (\<lambda>_. sret po))"

definition bv_iter_new :: "'a layout \<Rightarrow> nat \<Rightarrow> nat \<Rightarrow> (bvec, bv_iter) action" where
  "bv_iter_new lay pid pos =
     (if pid = 0 then sret \<lparr>it_pid = 0, it_cptr = None, it_pos = pos\<rparr>
      else sbind (bv_load_pinned pid) (\<lambda>po.
        case po of None \<Rightarrow> sret \<lparr>it_pid = pid, it_cptr = None, it_pos = pos\<rparr>
        | Some p \<Rightarrow> slift (\<lambda>v. Inr (case find (chunk_is_used (bv_chunk lay p v)) [pos..<bv_epc v] of
            Some i \<Rightarrow> \<lparr>it_pid = pid, it_cptr = Some p, it_pos = i\<rparr>
          | None \<Rightarrow> \<lparr>it_pid = pid, it_cptr = None, it_pos = 0\<rparr>))))"

definition bv_iter_destroy :: "bv_iter \<Rightarrow> (bvec, unit) action" where
  "bv_iter_destroy it = (if it_cptr it \<noteq> None then bv_unpin (it_pid it) else sret ())"

definition bv_begin :: "'a layout \<Rightarrow> (bvec, bv_iter) action" where
  "bv_begin lay = bv_iter_new lay 1 0"

definition bv_end :: "'a layout \<Rightarrow> (bvec, bv_iter) action" where
  "bv_end lay = bv_iter_new lay 0 0"

definition bv_iter_ne :: "bv_iter \<Rightarrow> bv_iter \<Rightarrow> bool" where
  "bv_iter_ne a b \<longleftrightarrow> it_cptr a \<noteq> it_cptr b \<or> it_pos a \<noteq> it_pos b"

text \<open>One round of the loop of \<open>operator++\<close>, the same in both iterators.\<close>

definition bv_iter_round :: "bv_iter \<Rightarrow> (bvec, bv_iter) action" where
  "bv_iter_round it v =
     (if it_pos it + 1 = bv_epc v then
        sbind (bv_unpin (it_pid it)) (\<lambda>_.
        sbind (bv_load_pinned (it_pid it + 1)) (\<lambda>po.
        sret \<lparr>it_pid = it_pid it + 1, it_cptr = po, it_pos = 0\<rparr>)) v
      else (Inr (it\<lparr>it_pos := it_pos it + 1\<rparr>), v))"

fun bv_iter_next :: "'a layout \<Rightarrow> nat \<Rightarrow> bv_iter \<Rightarrow> (bvec, bv_iter option) action" where
  "bv_iter_next lay 0 it = sret None"
| "bv_iter_next lay (Suc n) it =
     sbind (bv_iter_round it) (\<lambda>it'.
     sbind (slift (\<lambda>v. Inr (case it_cptr it' of None \<Rightarrow> False | Some p \<Rightarrow> \<not> chunk_is_used (bv_chunk lay p v) (it_pos it')))) (\<lambda>more.
     if more then bv_iter_next lay n it' else sret (Some it')))"

definition bv_iter_deref :: "'a layout \<Rightarrow> bv_iter \<Rightarrow> (bvec, 'a) action" where
  "bv_iter_deref lay it v =
     (case it_cptr it of None \<Rightarrow> (Inl Assertion_failed, v)
      | Some p \<Rightarrow> if chunk_is_used (bv_chunk lay p v) (it_pos it) then (Inr (ch_data (bv_chunk lay p v) ! it_pos it), v)
                   else (Inl Assertion_failed, v))"

definition bv_range :: "nat \<Rightarrow> nat \<Rightarrow> (bvec, bv_iter) action" where
  "bv_range first_chunk start_pos =
     sbind (bv_load_pinned (first_chunk + 1)) (\<lambda>po. sret \<lparr>it_pid = first_chunk + 1, it_cptr = po, it_pos = start_pos\<rparr>)"

definition bv_range_ok :: "nat \<Rightarrow> bv_iter \<Rightarrow> bool" where
  "bv_range_ok last_chunk it \<longleftrightarrow> it_pid it \<le> last_chunk + 1 \<and> it_cptr it \<noteq> None"

fun bv_range_next :: "'a layout \<Rightarrow> nat \<Rightarrow> nat \<Rightarrow> bv_iter \<Rightarrow> (bvec, bv_iter option) action" where
  "bv_range_next lay last_chunk 0 it = sret None"
| "bv_range_next lay last_chunk (Suc n) it =
     sbind (bv_iter_round it) (\<lambda>it'.
     sbind (slift (\<lambda>v. Inr (bv_range_ok last_chunk it' \<and> \<not> chunk_is_used (bv_chunk lay (the (it_cptr it')) v) (it_pos it')))) (\<lambda>more.
     if more then bv_range_next lay last_chunk n it' else sret (Some it')))"

section \<open>Invariant and view\<close>

text \<open>The page number and the file share a word.\<close>

definition PID_LIMIT :: nat where
  "PID_LIMIT = 2 ^ 60"

text \<open>What the code relies on: reading a chunk back from the bytes of a page gives the chunk.\<close>

definition layout_ok :: "'a layout \<Rightarrow> nat \<Rightarrow> bool" where
  "layout_ok lay n \<longleftrightarrow> (\<forall>c. chunk_inv n c \<longrightarrow> snd lay (fst lay c) = c)"

definition bv_inv :: "'a layout \<Rightarrow> bvec \<Rightarrow> bool" where
  "bv_inv lay v \<longleftrightarrow> (\<exists>xs. bp_wf (bv_pool v) xs) \<and> bp_unpinned (bv_pool v) \<and> 0 < bp_bsize (bv_pool v) \<and> 0 < bv_epc v \<and> bv_file v < 16 \<and>
     (\<forall>k pg. k < PID_LIMIT \<longrightarrow> bp_view (bv_pool v) (bv_pid v k) = Some pg \<longrightarrow> chunk_inv (bv_epc v) (snd lay pg))"

definition slot_view :: "'a chunk \<Rightarrow> nat \<Rightarrow> 'a option" where
  "slot_view c i = (if ch_slots c ! i then Some (ch_data c ! i) else None)"

definition bv_view :: "'a layout \<Rightarrow> bvec \<Rightarrow> nat \<Rightarrow> 'a option" where
  "bv_view lay v idx =
     (if page_no (bv_epc v) idx < PID_LIMIT then
        (case bp_view (bv_pool v) (bv_pid v (page_no (bv_epc v) idx)) of
           None \<Rightarrow> None | Some pg \<Rightarrow> slot_view (snd lay pg) (idx mod bv_epc v))
      else None)"

text \<open>The position lies in a page of the file.\<close>

definition bv_has_page :: "bvec \<Rightarrow> nat \<Rightarrow> bool" where
  "bv_has_page v idx \<longleftrightarrow> page_no (bv_epc v) idx < PID_LIMIT \<and> bp_view (bv_pool v) (bv_pid v (page_no (bv_epc v) idx)) \<noteq> None"

lemma mk_pid_inject: "k < PID_LIMIT \<Longrightarrow> k' < PID_LIMIT \<Longrightarrow> f < 16 \<Longrightarrow> mk_pid f k = mk_pid f k' \<longleftrightarrow> k = k'"
  unfolding PID_LIMIT_def by (metis mk_pid_parts(1))

lemma page_no_mod: "j = idx \<longleftrightarrow> page_no n j = page_no n idx \<and> j mod n = idx mod n"
  unfolding page_no_def by (metis add_right_cancel div_mult_mod_eq)

lemma bv_lift_run: "m (bv_pool v) = (r, b) \<Longrightarrow> bv_lift m v = (r, v\<lparr>bv_pool := b\<rparr>)"
  by (simp add: bv_lift_def)

lemma bv_fetch_run:
  assumes inv: "bv_inv lay v" and pg: "bp_view (bv_pool v) (bv_pid v k) = Some pg"
  obtains p b ys s where
    "bv_fetch md k v = (Inr p, v\<lparr>bv_pool := (if md then bp_mark_dirty (bv_pid v k) b else b)\<rparr>)" "bp_wf b ys"
    "bp_view b = bp_view (bv_pool v)" "bp_buffer b ! p = pg" "map_of (bp_ptable b) (bv_pid v k) = Some s" "bs_p s = p"
    "bp_bsize b = bp_bsize (bv_pool v)" "bp_unpinned b"
proof -
  from inv obtain xs where wf: "bp_wf (bv_pool v) xs" and u: "bp_unpinned (bv_pool v)" "0 < bp_bsize (bv_pool v)" by (auto simp: bv_inv_def)
  from bp_fetch_spec [OF wf pg bp_evictable_unpinned [OF wf u]] obtain b p ys s where
    b: "bp_fetch_page (bv_pid v k) (bv_pool v) = (Inr p, b)" "bp_wf b ys" "bp_view b = bp_view (bv_pool v)" "bp_buffer b ! p = pg"
    "map_of (bp_ptable b) (bv_pid v k) = Some s" "bs_p s = p" "bp_bsize b = bp_bsize (bv_pool v)" "bp_unpinned (bv_pool v) \<longrightarrow> bp_unpinned b" .
  have "bv_fetch md k v = (Inr p, v\<lparr>bv_pool := (if md then bp_mark_dirty (bv_pid v k) b else b)\<rparr>)"
    using b(1) by (simp add: bv_fetch_def sbind_def bv_lift_def sret_def)
  with b u that show ?thesis by blast
qed

text \<open>Changing the chunk of a page through the pointer.\<close>

lemma bv_write_page:
  assumes inv: "bv_inv lay v" and lay: "layout_ok lay (bv_epc v)" and k: "k < PID_LIMIT"
    and b: "bp_wf b ys" "bp_view b = bp_view (bv_pool v)" "map_of (bp_ptable b) (bv_pid v k) = Some s" "bs_p s = p"
      "bp_bsize b = bp_bsize (bv_pool v)" "bp_unpinned b"
    and c: "chunk_inv (bv_epc v) c"
  shows "bv_inv lay (v\<lparr>bv_pool := bp_poke p (fst lay c) (bp_mark_dirty (bv_pid v k) b)\<rparr>)"
    "bp_view (bp_poke p (fst lay c) (bp_mark_dirty (bv_pid v k) b)) = (bp_view (bv_pool v))(bv_pid v k \<mapsto> fst lay c)"
proof -
  let ?b = "bp_poke p (fst lay c) (bp_mark_dirty (bv_pid v k) b)"
  have e: "?b = bp_mark_dirty (bv_pid v k) (bp_poke (bs_p s) (fst lay c) b)" using b(4) by (simp add: bp_mark_dirty_def bp_poke_def)
  from bp_update_wf [OF b(1,3), of "fst lay c"] b(2) show v: "bp_view ?b = (bp_view (bv_pool v))(bv_pid v k \<mapsto> fst lay c)"
    unfolding e by simp
  have "bp_unpinned ?b" using b(6) unfolding e by (auto simp: bp_unpinned_def bp_mark_dirty_def bp_poke_def map_of_modify split: if_splits)
  moreover have "bp_bsize ?b = bp_bsize (bv_pool v)" using b(5) by (simp add: bp_mark_dirty_def bp_poke_def)
  moreover have "\<exists>xs. bp_wf ?b xs" using bp_update_wf(1) [OF b(1,3), of "fst lay c"] unfolding e by blast
  moreover have "snd lay (fst lay c) = c" using lay c by (simp add: layout_ok_def)
  ultimately show "bv_inv lay (v\<lparr>bv_pool := ?b\<rparr>)"
    using inv c v unfolding bv_inv_def by (auto simp: bv_pid_def split: if_splits)
qed

lemma bv_page_file:
  assumes inv: "bv_inv lay v" and h: "bp_view (bv_pool v) (bv_pid v k) \<noteq> None" and k: "k < PID_LIMIT"
  obtains f where "bp_files (bv_pool v) (bv_file v) = Some f" "bp_get_file (bv_file v) (bv_pool v) = Inr f" "pf_inv f"
    "0 < k" "k \<le> pf_npages f" "pf_slots f (k - 1)"
proof -
  from inv obtain xs where wf: "bp_wf (bv_pool v) xs" and f: "bv_file v < 16" by (auto simp: bv_inv_def)
  have "bv_pid v k \<in> dom (bp_disk (bv_pool v))" using h unfolding bp_view_dom [OF wf, symmetric] by blast
  then obtain fl pg where c: "bp_files (bv_pool v) (bv_file v) = Some fl" "pf_content fl k = Some pg"
    using mk_pid_parts [OF k [unfolded PID_LIMIT_def] f] by (auto simp: bp_disk_def bv_pid_def split: option.splits)
  moreover from c(1) have "pf_inv fl" "bv_file v < MAX_PFILES" using bp_wfD(5) [OF wf] by (auto simp: bp_files_ok_def)
  ultimately show ?thesis using that by (auto simp: pf_content_def pf_inv_def bp_get_file_def split: if_splits)
qed

lemma bv_page_bound: "bv_inv lay v \<Longrightarrow> bv_has_page v idx \<Longrightarrow> idx div bv_epc v < PF_SLOTS"
  by (erule bv_page_file [of lay v "page_no (bv_epc v) idx"]) (auto simp: bv_has_page_def page_no_def pf_inv_def)

text \<open>A page fault may write another page to its file, but no file grows.\<close>

definition bp_npages :: "bufferpool \<Rightarrow> nat \<Rightarrow> nat option" where
  "bp_npages b i = map_option pf_npages (bp_files b i)"

lemma bp_npages_file: "bp_files b' = bp_files b \<Longrightarrow> bp_npages b' = bp_npages b"
  by (simp add: bp_npages_def fun_eq_iff)

lemma bp_write_npages: "bp_write_page_to_file pid p b = Inr b' \<Longrightarrow> bp_npages b' = bp_npages b"
  by (auto simp: bp_write_page_to_file_def bp_get_file_def pf_write_page_def bp_put_file_def pf_put_def Let_def bp_npages_def fun_eq_iff
      rbind_eq_Inr_iff split: if_splits option.splits)

lemma bp_evict_npages:
  assumes "bp_evict_page b = Inr (b', r)"
  shows "bp_npages b' = bp_npages b"
proof -
  from assms obtain pids where e: "(case bp_victim (bp_ptable b) pids of None \<Rightarrow> Inr (b, False)
     | Some pid \<Rightarrow> (let s = the (map_of (bp_ptable b) pid) in
          rbind (if bs_dirty s then bp_write_page_to_file pid (bs_p s) b else Inr b) (\<lambda>b1.
          let b2 = bp_memset (bs_p s) (b1\<lparr>bp_slots := (bp_slots b1)[bs_pos s := True]\<rparr>) in
          rbind (bp_lru_remove (bs_lru s) b2) (\<lambda>b3. Inr (b3\<lparr>bp_ptable := pt_erase pid (bp_ptable b3)\<rparr>, True))))) = Inr (b', r)"
    unfolding bp_evict_page_def rbind_eq_Inr_iff by blast
  show ?thesis
  proof (cases "bp_victim (bp_ptable b) pids")
    case (Some pid)
    define s where "s = the (map_of (bp_ptable b) pid)"
    from e [unfolded Some option.case s_def [symmetric] Let_def] obtain b1
      where w: "(if bs_dirty s then bp_write_page_to_file pid (bs_p s) b else Inr b) = Inr b1" and f: "bp_files b' = bp_files b1"
      by (auto simp: bp_lru_remove_def bp_memset_def rbind_eq_Inr_iff)
    from w have "bp_npages b1 = bp_npages b" using bp_write_npages by (simp split: if_splits)
    with f show ?thesis using bp_npages_file by metis
  qed (use e in simp)
qed

lemma bp_room_npages: "bp_make_room b = (r, b') \<Longrightarrow> bp_npages b' = bp_npages b"
  by (auto simp: bp_make_room_def supd_def rbind_eq_Inr_iff dest: bp_evict_npages split: sum.splits if_splits prod.splits)

lemma bp_load_npages: "bp_load_page_from_file pid b = (r, b') \<Longrightarrow> bp_npages b' = bp_npages b"
  by (rule bp_npages_file) (auto simp: bp_load_page_from_file_def Let_def split: option.splits sum.splits)

lemma bp_admit_npages: "bp_admit pid pos b = (r, b') \<Longrightarrow> bp_npages b' = bp_npages b"
  by (rule bp_npages_file) (auto simp: bp_admit_def supd_def rbind_eq_Inr_iff split: sum.splits prod.splits)

lemma bp_fetch_npages: "bp_fetch_page pid b = (r, b') \<Longrightarrow> bp_npages b' = bp_npages b"
  using bp_npages_file [of "b\<lparr>bp_l_reads := bp_l_reads b + 1\<rparr>" b] bp_npages_file [of b' "b\<lparr>bp_l_reads := bp_l_reads b + 1\<rparr>"]
  by (auto simp: bp_fetch_page_def sbind_def Let_def dest!: bp_room_npages bp_load_npages bp_admit_npages split: option.splits sum.splits prod.splits)

lemma bp_mark_dirty_npages [simp]: "bp_npages (bp_mark_dirty pid b) = bp_npages b"
  by (rule bp_npages_file) (simp add: bp_mark_dirty_def)

lemma bv_fetch_npages: "bv_fetch md k v = (r, v') \<Longrightarrow> bp_npages (bv_pool v') = bp_npages (bv_pool v)"
  by (auto simp: bv_fetch_def sbind_def bv_lift_def dest!: bp_fetch_npages split: prod.splits sum.splits if_splits)

lemma bv_view_write:
  assumes "bv_file v < 16" "k < PID_LIMIT" "layout_ok lay (bv_epc v)" "chunk_inv (bv_epc v) c"
    and "bp_view b = (bp_view (bv_pool v))(bv_pid v k \<mapsto> fst lay c)"
  shows "bv_view lay (v\<lparr>bv_pool := b, bv_free := fr\<rparr>) j = (if page_no (bv_epc v) j = k then slot_view c (j mod bv_epc v) else bv_view lay v j)"
proof (cases "page_no (bv_epc v) j < PID_LIMIT")
  case True
  then have "bv_pid v (page_no (bv_epc v) j) = bv_pid v k \<longleftrightarrow> page_no (bv_epc v) j = k"
    using assms(1,2) by (simp add: bv_pid_def mk_pid_inject)
  then show ?thesis using True assms(2-5) by (simp add: bv_view_def bv_pid_def layout_ok_def split: option.split)
next
  case False
  then show ?thesis using assms(2) by (auto simp: bv_view_def)
qed

lemma bv_inv_free: "bv_inv lay (v\<lparr>bv_pool := b, bv_free := fr\<rparr>) \<longleftrightarrow> bv_inv lay (v\<lparr>bv_pool := b\<rparr>)"
  by (simp add: bv_inv_def bv_pid_def)

lemma slot_view_set: "pos < length (ch_slots c) \<Longrightarrow> pos < length (ch_data c) \<Longrightarrow> slot_view (chunk_set (c\<lparr>ch_data := (ch_data c)[pos := x]\<rparr>) pos True) i =
    (if i = pos then Some x else slot_view c i)"
  "pos < length (ch_slots c) \<Longrightarrow> slot_view (chunk_set c pos False) i = (if i = pos then None else slot_view c i)"
  by (auto simp: slot_view_def)

lemma bv_view_other [simp]: "bv_view lay (v\<lparr>bv_avail := a\<rparr>) = bv_view lay v" "bv_view lay (v\<lparr>bv_free := fr\<rparr>) = bv_view lay v"
  by (simp_all add: fun_eq_iff bv_view_def bv_pid_def split: option.split)

lemma bv_inv_other [simp]: "bv_inv lay (v\<lparr>bv_avail := a\<rparr>) = bv_inv lay v" "bv_inv lay (v\<lparr>bv_free := fr\<rparr>) = bv_inv lay v"
  by (simp_all add: bv_inv_def bv_pid_def)

text \<open>
  A page that is fetched to be modified: the pointer shows its chunk, and writing a chunk through the pointer changes the view of
  this page and of no other.
\<close>

lemma bv_modify_page:
  fixes lay :: "'a layout"
  assumes inv: "bv_inv lay v" and lay: "layout_ok lay (bv_epc v)" and k: "k < PID_LIMIT" and pg: "bp_view (bv_pool v) (bv_pid v k) = Some pg"
  obtains p b where "bv_fetch True k v = (Inr p, v\<lparr>bv_pool := b\<rparr>)" "bp_buffer b ! p = pg" "bv_inv lay (v\<lparr>bv_pool := b\<rparr>)" "bp_view b = bp_view (bv_pool v)"
    "\<forall>c. chunk_inv (bv_epc v) c \<longrightarrow> bv_inv lay (v\<lparr>bv_pool := bp_poke p (fst lay c) b\<rparr>)"
    "\<forall>c j. chunk_inv (bv_epc v) c \<longrightarrow> bv_view lay (v\<lparr>bv_pool := bp_poke p (fst lay c) b\<rparr>) j =
       (if page_no (bv_epc v) j = k then slot_view c (j mod bv_epc v) else bv_view lay v j)"
    "\<forall>c. chunk_inv (bv_epc v) c \<longrightarrow> bp_view (bp_poke p (fst lay c) b) = (bp_view (bv_pool v))(bv_pid v k \<mapsto> fst lay c)"
proof -
  obtain p b ys s where f: "bv_fetch True k v = (Inr p, v\<lparr>bv_pool := (if True then bp_mark_dirty (bv_pid v k) b else b)\<rparr>)"
    and b: "bp_wf b ys" "bp_view b = bp_view (bv_pool v)" "bp_buffer b ! p = pg" "map_of (bp_ptable b) (bv_pid v k) = Some s" "bs_p s = p"
      "bp_bsize b = bp_bsize (bv_pool v)" "bp_unpinned b" by (rule bv_fetch_run [OF inv pg, of True])
  let ?b = "bp_mark_dirty (bv_pid v k) b"
  have n: "bv_file v < 16" using inv by (simp add: bv_inv_def)
  have "bp_poke (bs_p s) pg b = b" by (simp add: bp_poke_def b(5) flip: b(3))
  then have m: "bp_wf ?b ys" "bp_view ?b = bp_view (bv_pool v)" using bp_update_wf [OF b(1,4), of pg] b(2) pg by (simp_all add: fun_upd_idem)
  have "bp_unpinned ?b" using b(7) by (auto simp: bp_unpinned_def bp_mark_dirty_def map_of_modify split: if_splits)
  moreover have "bp_bsize ?b = bp_bsize (bv_pool v)" using b(6) by (simp add: bp_mark_dirty_def)
  ultimately have i: "bv_inv lay (v\<lparr>bv_pool := ?b\<rparr>)" using inv m unfolding bv_inv_def by (auto simp: bv_pid_def)
  show ?thesis
  proof (rule that [OF _ _ i m(2)]; (intro allI impI)?)
    fix c :: "'a chunk" assume c: "chunk_inv (bv_epc v) c"
    note w = bv_write_page [OF inv lay k b(1,2,4-7) c]
    show "bv_inv lay (v\<lparr>bv_pool := bp_poke p (fst lay c) ?b\<rparr>)" by (rule w(1))
    show "bv_view lay (v\<lparr>bv_pool := bp_poke p (fst lay c) ?b\<rparr>) j =
       (if page_no (bv_epc v) j = k then slot_view c (j mod bv_epc v) else bv_view lay v j)" for j
      using bv_view_write [OF n k lay c w(2), of "bv_free v" j] by simp
    show "bp_view (bp_poke p (fst lay c) ?b) = (bp_view (bv_pool v))(bv_pid v k \<mapsto> fst lay c)" by (rule w(2))
  qed (use f b(3) in \<open>simp_all add: bp_mark_dirty_def\<close>)
qed

lemma bv_view_page: "page_no (bv_epc v) j < PID_LIMIT \<Longrightarrow> bp_view (bv_pool v) (bv_pid v (page_no (bv_epc v) j)) = Some pg \<Longrightarrow>
    bv_view lay v j = slot_view (snd lay pg) (j mod bv_epc v)"
  by (simp add: bv_view_def)

lemma bv_has_pageE:
  assumes "bv_inv lay v" "bv_has_page v idx"
  obtains pg where "page_no (bv_epc v) idx < PID_LIMIT" "bp_view (bv_pool v) (bv_pid v (page_no (bv_epc v) idx)) = Some pg"
    "chunk_inv (bv_epc v) (snd lay pg)" "idx mod bv_epc v < bv_epc v" "idx div bv_epc v < PF_SLOTS"
  using assms bv_page_bound [OF assms] unfolding bv_has_page_def bv_inv_def by fastforce

text \<open>The other slots of the page are in use.\<close>

definition bv_others_used :: "'a layout \<Rightarrow> bvec \<Rightarrow> nat \<Rightarrow> bool" where
  "bv_others_used lay v idx \<longleftrightarrow> (\<forall>j. page_no (bv_epc v) j = page_no (bv_epc v) idx \<longrightarrow> j \<noteq> idx \<longrightarrow> bv_view lay v j \<noteq> None)"

lemma chunk_full_positions:
  assumes "chunk_inv n c" "0 < n" "0 < k"
  shows "chunk_is_full c \<longleftrightarrow> (\<forall>j. page_no n j = k \<longrightarrow> slot_view c (j mod n) \<noteq> None)"
proof -
  have "ch_slots c ! i" if "\<forall>j. page_no n j = k \<longrightarrow> slot_view c (j mod n) \<noteq> None" "i < n" for i
  proof -
    have "page_no n ((k - 1) * n + i) = k" "((k - 1) * n + i) mod n = i" using that(2) assms(3) by (simp_all add: page_no_def)
    with that(1) have "slot_view c i \<noteq> None" by metis
    then show ?thesis by (simp add: slot_view_def split: if_splits)
  qed
  moreover have "slot_view c (j mod n) \<noteq> None" if "\<forall>i<n. ch_slots c ! i" for j
    using that assms(2) by (simp add: slot_view_def)
  ultimately show ?thesis unfolding chunk_full_iff [OF assms(1)] by blast
qed

text \<open>The result of \<open>store_at\<close>: only the position changes, the counter of available slots does not.\<close>

lemma bv_store_at_spec:
  assumes inv: "bv_inv lay v" and lay: "layout_ok lay (bv_epc v)" and h: "bv_has_page v idx"
  shows "\<exists>v'. bv_store_at lay idx x v = (Inr (), v') \<and> bv_inv lay v' \<and> bv_view lay v' = (bv_view lay v)(idx \<mapsto> x) \<and>
     bv_avail v' = bv_avail v \<and> bv_epc v' = bv_epc v \<and>
     bv_free v' = (if bv_others_used lay v idx then (bv_free v)(idx div bv_epc v := False) else bv_free v) \<and>
     bv_file v' = bv_file v \<and> bv_capacity v' = bv_capacity v \<and> (\<exists>pg. bp_view (bv_pool v') = (bp_view (bv_pool v))(bv_pid v (page_no (bv_epc v) idx) \<mapsto> pg))"
proof -
  let ?n = "bv_epc v" and ?k = "page_no (bv_epc v) idx" and ?pos = "idx mod bv_epc v"
  from inv h obtain pg where k: "?k < PID_LIMIT" "bp_view (bv_pool v) (bv_pid v ?k) = Some pg" "chunk_inv ?n (snd lay pg)"
    and pos: "?pos < ?n" "idx div ?n < PF_SLOTS" by (rule bv_has_pageE)
  obtain p b where f: "bv_fetch True ?k v = (Inr p, v\<lparr>bv_pool := b\<rparr>)" "bp_buffer b ! p = pg"
    and "bv_inv lay (v\<lparr>bv_pool := b\<rparr>)" "bp_view b = bp_view (bv_pool v)" and w: "\<forall>c. chunk_inv ?n c \<longrightarrow> bv_inv lay (v\<lparr>bv_pool := bp_poke p (fst lay c) b\<rparr>)"
    "\<forall>c j. chunk_inv ?n c \<longrightarrow> bv_view lay (v\<lparr>bv_pool := bp_poke p (fst lay c) b\<rparr>) j = (if page_no ?n j = ?k then slot_view c (j mod ?n) else bv_view lay v j)"
    "\<forall>c. chunk_inv ?n c \<longrightarrow> bp_view (bp_poke p (fst lay c) b) = (bp_view (bv_pool v))(bv_pid v ?k \<mapsto> fst lay c)"
    by (rule bv_modify_page [OF inv lay k(1,2)])
  let ?c = "snd lay pg"
  define c' where "c' = chunk_set (?c\<lparr>ch_data := (ch_data ?c)[?pos := x]\<rparr>) ?pos True"
  have c': "chunk_inv ?n c'" using k(3) pos(1) by (simp add: c'_def chunk_set_inv)
  have u: "chunk_is_used c' ?pos" using k(3) pos(1) by (simp add: c'_def chunk_is_used_def chunk_inv_def)
  define fr where "fr = (if chunk_is_full c' then (bv_free v)(idx div ?n := False) else bv_free v)"
  let ?v = "v\<lparr>bv_pool := bp_poke p (fst lay c') b, bv_free := fr\<rparr>"
  have "bv_store_at lay idx x v = (Inr (), ?v)"
    using f u pos(2) by (simp add: bv_store_at_def bv_find_chunk_def sbind_def bv_chunk_def bv_set_chunk_def Let_def supd_def
        bv_remove_from_free_list_def bv_set_free_def fr_def sret_def flip: c'_def)
  moreover have "bv_view lay ?v j = ((bv_view lay v)(idx \<mapsto> x)) j" for j
    using w(2) [rule_format, OF c', of j] page_no_mod [of j idx ?n] bv_view_page [of v j pg lay] k pos(1) slot_view_set(1) [of ?pos ?c x "j mod ?n"]
    by (auto simp: c'_def chunk_inv_def)
  moreover have "chunk_is_full c' \<longleftrightarrow> bv_others_used lay v idx"
  proof -
    have z: "0 < ?n" "0 < ?k" using pos(1) by (simp_all add: page_no_def)
    have "slot_view c' (j mod ?n) = bv_view lay ?v j" if "page_no ?n j = ?k" for j using w(2) [rule_format, OF c', of j] that by simp
    then have "slot_view c' (j mod ?n) = ((bv_view lay v)(idx \<mapsto> x)) j" if "page_no ?n j = ?k" for j using calculation(2) that by simp
    then show ?thesis unfolding chunk_full_positions [OF c' z] bv_others_used_def by (metis fun_upd_apply option.distinct(1))
  qed
  ultimately show ?thesis using w(1,3) [rule_format, OF c'] by (intro exI [of _ ?v]) (auto simp: fun_eq_iff fr_def)
qed

lemma bv_erase_spec:
  assumes inv: "bv_inv lay v" and lay: "layout_ok lay (bv_epc v)" and h: "bv_has_page v idx"
  shows "\<exists>v'. bv_erase lay idx v = (Inr (), v') \<and> bv_inv lay v' \<and> bv_view lay v' = (bv_view lay v)(idx := None) \<and>
     bv_avail v' = bv_avail v \<and> bv_free v' = bv_free v \<and> bv_epc v' = bv_epc v \<and>
     bv_file v' = bv_file v \<and> bv_capacity v' = bv_capacity v \<and> (\<exists>pg. bp_view (bv_pool v') = (bp_view (bv_pool v))(bv_pid v (page_no (bv_epc v) idx) \<mapsto> pg))"
proof -
  let ?n = "bv_epc v" and ?k = "page_no (bv_epc v) idx" and ?pos = "idx mod bv_epc v"
  from inv h obtain pg where k: "?k < PID_LIMIT" "bp_view (bv_pool v) (bv_pid v ?k) = Some pg" "chunk_inv ?n (snd lay pg)"
    and pos: "?pos < ?n" by (rule bv_has_pageE)
  obtain p b where f: "bv_fetch True ?k v = (Inr p, v\<lparr>bv_pool := b\<rparr>)" "bp_buffer b ! p = pg"
    and "bv_inv lay (v\<lparr>bv_pool := b\<rparr>)" "bp_view b = bp_view (bv_pool v)" and w: "\<forall>c. chunk_inv ?n c \<longrightarrow> bv_inv lay (v\<lparr>bv_pool := bp_poke p (fst lay c) b\<rparr>)"
    "\<forall>c j. chunk_inv ?n c \<longrightarrow> bv_view lay (v\<lparr>bv_pool := bp_poke p (fst lay c) b\<rparr>) j = (if page_no ?n j = ?k then slot_view c (j mod ?n) else bv_view lay v j)"
    "\<forall>c. chunk_inv ?n c \<longrightarrow> bp_view (bp_poke p (fst lay c) b) = (bp_view (bv_pool v))(bv_pid v ?k \<mapsto> fst lay c)"
    by (rule bv_modify_page [OF inv lay k(1,2)])
  define c' where "c' = chunk_set (snd lay pg) ?pos False"
  have c': "chunk_inv ?n c'" using k(3) pos by (simp add: c'_def chunk_set_inv)
  have u: "\<not> chunk_is_used c' ?pos" using k(3) pos by (simp add: c'_def chunk_is_used_def chunk_inv_def)
  have "\<not> chunk_is_full c'" using chunk_free_not_full [OF c' pos] u by (simp add: chunk_is_used_def)
  then have "bv_erase lay idx v = (Inr (), v\<lparr>bv_pool := bp_poke p (fst lay c') b\<rparr>)"
    using f u by (simp add: bv_erase_def bv_find_chunk_def sbind_def bv_chunk_def bv_set_chunk_def Let_def supd_def sret_def flip: c'_def)
  moreover have "bv_view lay (v\<lparr>bv_pool := bp_poke p (fst lay c') b\<rparr>) j = ((bv_view lay v)(idx := None)) j" for j
    using w(2) [rule_format, OF c', of j] page_no_mod [of j idx ?n] bv_view_page [of v j pg lay] k pos slot_view_set(2) [of ?pos "snd lay pg" "j mod ?n"]
    by (auto simp: c'_def chunk_inv_def)
  ultimately show ?thesis using w(1,3) [rule_format, OF c'] by (intro exI [of _ "v\<lparr>bv_pool := bp_poke p (fst lay c') b\<rparr>"]) (auto simp: fun_eq_iff)
qed

lemma bv_at_spec:
  assumes inv: "bv_inv lay v" and h: "bv_has_page v idx"
  shows "\<exists>v'. bv_at lay idx v = (case bv_view lay v idx of None \<Rightarrow> Inl Unknown_id | Some x \<Rightarrow> Inr x, v') \<and> bv_inv lay v' \<and> bv_view lay v' = bv_view lay v"
proof -
  let ?k = "page_no (bv_epc v) idx"
  from h obtain pg where k: "?k < PID_LIMIT" and pg: "bp_view (bv_pool v) (bv_pid v ?k) = Some pg" by (auto simp: bv_has_page_def)
  obtain p b ys s where f: "bv_fetch False ?k v = (Inr p, v\<lparr>bv_pool := (if False then bp_mark_dirty (bv_pid v ?k) b else b)\<rparr>)"
    and b: "bp_wf b ys" "bp_view b = bp_view (bv_pool v)" "bp_buffer b ! p = pg" "map_of (bp_ptable b) (bv_pid v ?k) = Some s" "bs_p s = p"
      "bp_bsize b = bp_bsize (bv_pool v)" "bp_unpinned b" by (rule bv_fetch_run [OF inv pg, of False])
  let ?v = "v\<lparr>bv_pool := b\<rparr>"
  have "bv_view lay ?v = bv_view lay v" using b(2) by (simp add: fun_eq_iff bv_view_def bv_pid_def split: option.split)
  moreover have "bv_inv lay ?v" using inv b unfolding bv_inv_def by (auto simp: bv_pid_def)
  moreover have "bv_at lay idx v = (case bv_view lay v idx of None \<Rightarrow> Inl Unknown_id | Some x \<Rightarrow> Inr x, ?v)"
    using f b(3) k pg by (simp add: bv_at_def bv_find_chunk_def sbind_def bv_chunk_def Let_def bv_view_def slot_view_def chunk_is_used_def)
  ultimately show ?thesis by blast
qed

text \<open>The last page of the file, when it is in use.\<close>

lemma pf_last_valid_used: "pf_npages f = Suc m \<Longrightarrow> pf_slots f m \<Longrightarrow> m < PF_SLOTS \<Longrightarrow> pf_last_valid_page f = Inr (f, Suc m)"
  by (simp add: pf_last_valid_page_def bs_test_def)

lemma bv_last_chunk:
  assumes inv: "bv_inv lay v" and k: "k < PID_LIMIT" "bp_view (bv_pool v) (bv_pid v k) = Some pg" "bp_npages (bv_pool v) (bv_file v) = Some k"
    and f: "bv_fetch True k v = (Inr p, v')"
  shows "bv_get_last_chunk True v = (Inr (p, k), v')"
proof -
  obtain fl where fl: "bp_files (bv_pool v) (bv_file v) = Some fl" "bp_get_file (bv_file v) (bv_pool v) = Inr fl" "pf_inv fl" "0 < k" "k \<le> pf_npages fl"
    "pf_slots fl (k - 1)" using k(2) by (auto intro: bv_page_file [OF inv _ k(1)])
  then have "pf_npages fl = k" using k(3) by (simp add: bp_npages_def)
  then have "pf_last_valid_page fl = Inr (fl, k)" using pf_last_valid_used [of fl "k - 1"] fl(3,4,6) by (auto simp: pf_inv_def)
  moreover have "bp_put_file (bv_file v) fl (bv_pool v) = bv_pool v" using fl(1) by (simp add: bp_put_file_def fun_upd_idem)
  ultimately have "bp_last_valid_page (bv_file v) (bv_pool v) = sbind (bp_fetch_page (bv_pid v k)) (\<lambda>p. sret (p, k)) (bv_pool v)"
    using fl(2) by (simp add: bp_last_valid_page_def bv_pid_def)
  with f show ?thesis by (auto simp: bv_get_last_chunk_def bv_fetch_def sbind_def bv_lift_def sret_def split: prod.splits sum.splits if_splits)
qed

lemma bv_append_spec:
  assumes inv: "bv_inv lay v" and lay: "layout_ok lay (bv_epc v)"
    and k: "k < PID_LIMIT" "bp_view (bv_pool v) (bv_pid v k) = Some pg" "bp_npages (bv_pool v) (bv_file v) = Some k"
    and c: "chunk_first_available (snd lay pg) = Some pos" and a: "0 < bv_avail v"
  shows "\<exists>v'. bv_append lay d x v = (Inr ((k - 1) * bv_epc v + pos), v') \<and> bv_inv lay v' \<and>
     bv_view lay v' = (bv_view lay v)((k - 1) * bv_epc v + pos \<mapsto> x) \<and> bv_view lay v ((k - 1) * bv_epc v + pos) = None \<and>
     bv_avail v' = bv_avail v - 1"
proof -
  let ?n = "bv_epc v" and ?offs = "(k - 1) * bv_epc v" and ?c = "snd lay pg"
  have ci: "chunk_inv ?n ?c" and n: "0 < ?n" using inv k(1,2) by (auto simp: bv_inv_def)
  note pos = chunk_first_available_Some [OF ci c]
  obtain p b where f: "bv_fetch True k v = (Inr p, v\<lparr>bv_pool := b\<rparr>)" "bp_buffer b ! p = pg"
    and i: "bv_inv lay (v\<lparr>bv_pool := b\<rparr>)" "bp_view b = bp_view (bv_pool v)"
    and w: "\<forall>c. chunk_inv ?n c \<longrightarrow> bv_inv lay (v\<lparr>bv_pool := bp_poke p (fst lay c) b\<rparr>)"
    "\<forall>c j. chunk_inv ?n c \<longrightarrow> bv_view lay (v\<lparr>bv_pool := bp_poke p (fst lay c) b\<rparr>) j = (if page_no ?n j = k then slot_view c (j mod ?n) else bv_view lay v j)"
    "\<forall>c. chunk_inv ?n c \<longrightarrow> bp_view (bp_poke p (fst lay c) b) = (bp_view (bv_pool v))(bv_pid v k \<mapsto> fst lay c)"
    by (rule bv_modify_page [OF inv lay k(1,2)])
  note last = bv_last_chunk [OF inv k f(1)]
  obtain fl where fl: "bp_get_file (bv_file v) b = Inr fl" "pf_npages fl = k" "0 < k" "k \<le> PF_SLOTS"
  proof -
    have "bp_view b (bv_pid v k) \<noteq> None" using i(2) k(2) by simp
    then obtain fl where "bp_files b (bv_file v) = Some fl" "bp_get_file (bv_file v) b = Inr fl" "pf_inv fl" "0 < k"
      using bv_page_file [OF i(1) _ k(1)] by (auto simp: bv_pid_def)
    moreover have "bp_npages b (bv_file v) = Some k" using bv_fetch_npages [OF f(1)] k(3) by simp
    ultimately show ?thesis using that by (simp add: bp_npages_def pf_inv_def)
  qed
  have full: "\<not> chunk_is_full ?c" using c by (simp add: chunk_first_available_def split: if_splits)
  define c' where "c' = (chunk_set ?c pos True)\<lparr>ch_data := (ch_data ?c)[pos := x]\<rparr>"
  have c': "chunk_inv ?n c'" using chunk_set_inv [OF ci pos(1), of True] by (simp add: c'_def chunk_inv_def)
  have fc: "chunk_is_full (chunk_set ?c pos True) = chunk_is_full c'" by (simp add: c'_def chunk_is_full_def)
  define fr where "fr = (if chunk_is_full c' then (bv_free v)(k - 1 := False) else bv_free v)"
  let ?v = "v\<lparr>bv_pool := bp_poke p (fst lay c') b, bv_avail := bv_avail v - 1, bv_free := fr\<rparr>"
  have "bv_append lay d x v = (Inr (?offs + pos), ?v)"
    using last f(2) full fl a n c fc
    by (auto simp: bv_append_def bv_put_def bv_is_full_def sbind_def slift_def supd_def sret_def bv_chunk_def bv_set_chunk_def Let_def bv_get_file_def
        dec64_def bv_remove_from_free_list_def bv_set_free_def fr_def simp flip: c'_def)
  moreover have at: "page_no ?n (?offs + pos) = k" "(?offs + pos) mod ?n = pos" using pos(1) fl(3) by (simp_all add: page_no_def)
  moreover have "bv_view lay ?v j = ((bv_view lay v)(?offs + pos \<mapsto> x)) j" for j
  proof -
    have "slot_view c' i = (if i = pos then Some x else slot_view ?c i)" for i
      using pos(1) ci by (auto simp: c'_def slot_view_def chunk_inv_def)
    then show ?thesis using w(2) [rule_format, OF c', of j] page_no_mod [of j "?offs + pos" ?n] at bv_view_page [of v j pg lay] k(1,2) by auto
  qed
  moreover have "bv_view lay v (?offs + pos) = None" using bv_view_page [of v "?offs + pos" pg lay] at k(1,2) pos(2) by (simp add: slot_view_def)
  ultimately show ?thesis using w(1) [rule_format, OF c'] by (intro exI [of _ ?v]) (simp add: fun_eq_iff)
qed

lemma bv_view_has_page: "bv_view lay v idx \<noteq> None \<Longrightarrow> bv_has_page v idx"
  by (auto simp: bv_has_page_def bv_view_def split: if_splits option.splits)

lemma bv_at_stored: "bv_inv lay v \<Longrightarrow> bv_view lay v idx = Some x \<Longrightarrow> \<exists>v'. bv_at lay idx v = (Inr x, v') \<and> bv_inv lay v' \<and> bv_view lay v' = bv_view lay v"
  using bv_at_spec [of lay v idx] bv_view_has_page [of lay v idx] by auto

text \<open>Leaving a page and entering the next: the flag of the old page is cleared again.\<close>

lemma bp_unpin_pin:
  assumes "bp_unpinned b" "distinct (map fst (bp_ptable b))"
  shows "bp_unpin_page pid (bp_pin_page pid b) = b"
proof -
  have "s\<lparr>bs_pinned := False\<rparr> = s" if "(k, s) \<in> set (bp_ptable b)" for k s
    using assms that by (auto simp: bp_unpinned_def)
  then have "pt_modify pid (\<lambda>s. s\<lparr>bs_pinned := False\<rparr>) (pt_modify pid (\<lambda>s. s\<lparr>bs_pinned := True\<rparr>) (bp_ptable b)) = bp_ptable b"
    by (auto simp: pt_modify_def intro!: map_idI)
  then show ?thesis by (simp add: bp_unpin_page_def bp_pin_page_def bp_set_pinned_def)
qed

lemma bv_load_pinned_run:
  assumes inv: "bv_inv lay v" and k: "k < PID_LIMIT" "bp_view (bv_pool v) (bv_pid v k) = Some pg"
  shows "\<exists>p v' s. bv_load_pinned k v = (Inr (Some p), v') \<and> map_of (bp_ptable (bv_pool v')) (bv_pid v k) = Some s \<and> bs_pinned s"
proof -
  obtain f where f: "bp_get_file (bv_file v) (bv_pool v) = Inr f" "pf_inv f" "0 < k" "k \<le> pf_npages f" "pf_slots f (k - 1)"
    using k(2) by (auto intro: bv_page_file [OF inv _ k(1)])
  obtain p b ys s where r: "bv_fetch False k v = (Inr p, v\<lparr>bv_pool := (if False then bp_mark_dirty (bv_pid v k) b else b)\<rparr>)"
    and b: "bp_wf b ys" "bp_view b = bp_view (bv_pool v)" "bp_buffer b ! p = pg" "map_of (bp_ptable b) (bv_pid v k) = Some s" "bs_p s = p"
      "bp_bsize b = bp_bsize (bv_pool v)" "bp_unpinned b" by (rule bv_fetch_run [OF inv k(2), of False])
  have "pf_is_valid f k = Inr True" using f(2-5) by (auto simp: pf_is_valid_def bs_test_def pf_inv_def)
  then show ?thesis using f(1) r b(4)
    by (auto simp: bv_load_pinned_def bv_load_chunk_def sbind_def slift_def bv_get_file_def bv_pin_def bp_pin_page_def bp_set_pinned_def map_of_modify bv_pid_def)
qed

section \<open>An example\<close>

text \<open>Chunks of two bytes: the records, their slots and the first free slot in the first five bytes of the page.\<close>

definition lay_demo :: "8 word layout" where
  "lay_demo =
     (\<lambda>c i. if i < 2 then ch_data c ! i else if i < 4 then (if ch_slots c ! (i - 2) then 1 else 0) else if i = 4 then of_nat (ch_first c) else 0,
      \<lambda>p. \<lparr>ch_data = [p 0, p 1], ch_slots = [p 2 \<noteq> 0, p 3 \<noteq> 0], ch_first = unat (p 4)\<rparr>)"

definition bv_demo :: bvec where
  "bv_demo = \<lparr>bv_pool = bp_demo, bv_file = 0, bv_avail = 2, bv_epc = 2, bv_capacity = 2, bv_free = (\<lambda>k. k = 0)\<rparr>"

lemma lay_demo_ok: "layout_ok lay_demo 2"
proof -
  have "snd lay_demo (fst lay_demo c) = c" if c: "chunk_inv 2 c" for c
  proof -
    from c obtain a b s t where l: "ch_data c = [a, b]" "ch_slots c = [s, t]" "ch_first c \<le> 2"
      by (auto simp: chunk_inv_def numeral_2_eq_2 length_Suc_conv)
    then have "ch_first c \<in> {0, 1, 2}" by auto
    then have "unat (of_nat (ch_first c) :: 8 word) = ch_first c" by auto
    with l show ?thesis by (simp add: lay_demo_def)
  qed
  then show ?thesis by (simp add: layout_ok_def)
qed

lemma bv_demo_page: "k < PID_LIMIT \<Longrightarrow> bp_view (bv_pool bv_demo) (bv_pid bv_demo k) = (if k = 1 then Some zero_page else None)"
  using mk_pid_parts [of k 0] by (auto simp: PID_LIMIT_def bv_demo_def bv_pid_def bp_view_def bp_demo_def bp_new_def bp_disk_def pf_content_def pf_slots_def pf_pages_def)

lemma bv_demo_inv: "bv_inv lay_demo bv_demo"
proof -
  have "chunk_inv 2 (snd lay_demo zero_page)" by (simp add: chunk_inv_def lay_demo_def zero_page_def)
  moreover have "bp_unpinned bp_demo" "0 < bp_bsize bp_demo" by (simp_all add: bp_unpinned_def bp_demo_def bp_new_def)
  ultimately show ?thesis using bp_demo_ok(1) bv_demo_page unfolding bv_inv_def by (auto simp: bv_demo_def split: if_splits)
qed

lemma bv_demo_has_page: "idx < 2 \<Longrightarrow> bv_has_page bv_demo idx"
  using bv_demo_page [of 1] by (simp add: bv_has_page_def page_no_def PID_LIMIT_def bv_demo_def)

lemma bv_demo_epc [simp]: "bv_epc bv_demo = 2"
  by (simp add: bv_demo_def)

text \<open>The same with a file of two pages.\<close>

definition bv_demo2 :: bvec where
  "bv_demo2 = bv_demo\<lparr>bv_pool := bp_demo\<lparr>bp_files := [0 \<mapsto> pf_demo\<lparr>pf_npages := 2,
     pf_header := (pf_header pf_demo)\<lparr>fh_slots := (\<lambda>i. i < 2)\<rparr>,
     pf_disk := (pf_disk pf_demo)\<lparr>df_pages := [zero_page, zero_page]\<rparr>\<rparr>]\<rparr>\<rparr>"

lemma bv_demo2_page: "k < PID_LIMIT \<Longrightarrow> bp_view (bv_pool bv_demo2) (bv_pid bv_demo2 k) = (if k = 1 \<or> k = 2 then Some zero_page else None)"
  using mk_pid_parts [of k 0]
  by (auto simp: PID_LIMIT_def bv_demo2_def bv_demo_def bv_pid_def bp_view_def bp_demo_def bp_new_def bp_disk_def pf_content_def pf_slots_def pf_pages_def
      less_Suc_eq numeral_2_eq_2)

lemma bv_demo2_inv: "bv_inv lay_demo bv_demo2"
proof -
  have "chunk_inv 2 (snd lay_demo zero_page)" by (simp add: chunk_inv_def lay_demo_def zero_page_def)
  moreover have "bp_wf (bv_pool bv_demo2) []"
    by (simp add: bv_demo2_def bp_wf_def bp_demo_def bp_new_def bp_files_ok_def MAX_PFILES_def lru_new_rep pf_inv_def pf_slots_def pf_pages_def PF_SLOTS_def)
  moreover have "bp_unpinned (bv_pool bv_demo2)" "0 < bp_bsize (bv_pool bv_demo2)" by (simp_all add: bp_unpinned_def bv_demo2_def bp_demo_def bp_new_def)
  moreover have "bv_epc bv_demo2 = 2" "bv_file bv_demo2 = 0" by (simp_all add: bv_demo2_def bv_demo_def)
  ultimately show ?thesis using bv_demo2_page unfolding bv_inv_def by (auto split: if_splits)
qed

section \<open>Properties\<close>

text \<open>
  Records of the paged vector: what \<open>store_at\<close> puts at a position of an existing page is what \<open>at\<close> reads there, whatever pages the pool evicts,
  all other positions keep their record, and after a flush of the pool the pages of the files hold it.
\<close>

theorem bv_store_at_read:
  assumes "bv_inv lay v" "layout_ok lay (bv_epc v)" "bv_has_page v idx"
  shows "\<exists>v1 v2 b. bv_store_at lay idx x v = (Inr (), v1) \<and> bv_at lay idx v1 = (Inr x, v2) \<and>
     bv_view lay v2 = (bv_view lay v)(idx \<mapsto> x) \<and> bp_flush_all (bv_pool v2) = Inr b \<and> bp_disk b = bp_view (bv_pool v2)"
proof -
  from bv_store_at_spec [OF assms, of x] obtain v1 where v1: "bv_store_at lay idx x v = (Inr (), v1)" "bv_inv lay v1"
    "bv_view lay v1 = (bv_view lay v)(idx \<mapsto> x)" "bv_epc v1 = bv_epc v" by blast
  have "bv_view lay v1 idx = Some x" using v1(3) by simp
  from bv_at_stored [OF v1(2) this] obtain v2 where v2: "bv_at lay idx v1 = (Inr x, v2)" "bv_inv lay v2" "bv_view lay v2 = bv_view lay v1" by auto
  from v2(2) obtain xs where "bp_wf (bv_pool v2) xs" by (auto simp: bv_inv_def)
  from bp_flush_all_spec [OF this] v1 v2 show ?thesis by metis
qed

theorem bv_store_at_read_witness:
  "\<exists>v1 v2. bv_store_at lay_demo 1 7 bv_demo = (Inr (), v1) \<and> bv_at lay_demo 1 v1 = (Inr 7, v2)"
  using bv_store_at_read [OF bv_demo_inv, of 1 7] lay_demo_ok bv_demo_has_page [of 1] by auto

text \<open>
  Appending to the paged vector: as long as the last page of the file has a free slot, \<open>append\<close> returns the position of its first free slot, which held
  no record, \<open>at\<close> reads the record there, all other positions keep theirs, and one slot less is available.
\<close>

theorem bv_append_read:
  assumes "bv_inv lay v" "layout_ok lay (bv_epc v)" "k < PID_LIMIT" "bp_view (bv_pool v) (bv_pid v k) = Some pg"
    "bp_npages (bv_pool v) (bv_file v) = Some k" "chunk_first_available (snd lay pg) = Some pos" "0 < bv_avail v"
  shows "\<exists>v1 v2 idx. bv_append lay d x v = (Inr idx, v1) \<and> idx = (k - 1) * bv_epc v + pos \<and> bv_view lay v idx = None \<and>
     bv_at lay idx v1 = (Inr x, v2) \<and> bv_view lay v2 = (bv_view lay v)(idx \<mapsto> x) \<and> bv_avail v1 = bv_avail v - 1"
proof -
  let ?i = "(k - 1) * bv_epc v + pos"
  from bv_append_spec [OF assms, of d x] obtain v1 where v1: "bv_append lay d x v = (Inr ?i, v1)" "bv_inv lay v1"
    "bv_view lay v1 = (bv_view lay v)(?i \<mapsto> x)" "bv_view lay v ?i = None" "bv_avail v1 = bv_avail v - 1" by blast
  have "bv_view lay v1 ?i = Some x" using v1(3) by simp
  from bv_at_stored [OF v1(2) this] v1 show ?thesis by metis
qed

theorem bv_append_read_witness:
  "\<exists>v1 v2. bv_append lay_demo 0 9 bv_demo = (Inr 0, v1) \<and> bv_at lay_demo 0 v1 = (Inr 9, v2) \<and> bv_avail v1 = 1"
proof -
  have "chunk_first_available (snd lay_demo zero_page) = Some 0"
    by (simp add: chunk_first_available_def chunk_is_full_def lay_demo_def zero_page_def upt_rec)
  moreover have "bp_npages (bv_pool bv_demo) (bv_file bv_demo) = Some 1" by (simp add: bp_npages_def bv_demo_def bp_demo_def)
  moreover have "bv_avail bv_demo = 2" by (simp add: bv_demo_def)
  ultimately show ?thesis
    using bv_append_read [OF bv_demo_inv, of 1 zero_page 0 0 9] lay_demo_ok bv_demo_page [of 1] by (auto simp: PID_LIMIT_def)
qed

text \<open>
  The counter of available slots does not see \<open>store_at\<close>, which tests the slot after setting it: when it fills the last free slot of the
  only page of the free list, the vector still claims not to be full, so nobody enlarges it, while \<open>first_available\<close>
  finds no slot and \<open>store\<close> no chunk. This is the sequence of \<open>add\<close> in the node and relationship lists.
\<close>

theorem bv_store_at_counter:
  assumes "bv_inv lay v" "layout_ok lay (bv_epc v)" "bv_has_page v idx"
    and "bv_avail v \<noteq> 0" "bv_others_used lay v idx" "\<forall>k. bv_free v k \<longrightarrow> k = idx div bv_epc v"
  shows "\<exists>v1. bv_store_at lay idx x v = (Inr (), v1) \<and> \<not> bv_is_full v1 \<and> bv_first_available lay v1 = (Inr UNKNOWN, v1) \<and>
     bv_store lay d y v1 = (Inl Assertion_failed, v1)"
proof -
  from bv_store_at_spec [OF assms(1-3), of x] assms(5) obtain v1 where v1: "bv_store_at lay idx x v = (Inr (), v1)" "bv_inv lay v1"
    "bv_view lay v1 = (bv_view lay v)(idx \<mapsto> x)" "bv_avail v1 = bv_avail v" "bv_epc v1 = bv_epc v" "bv_free v1 = (bv_free v)(idx div bv_epc v := False)" by auto
  have "bv_view lay v1 idx \<noteq> None" using v1(3) by simp
  then have h: "bp_view (bv_pool v1) (bv_pid v1 (page_no (bv_epc v1) idx)) \<noteq> None" "page_no (bv_epc v1) idx < PID_LIMIT"
    by (auto simp: bv_view_def split: if_splits option.splits)
  then obtain f where f: "bp_get_file (bv_file v1) (bv_pool v1) = Inr f" by (auto intro: bv_page_file [OF v1(2)])
  have "find (bv_free v1) [0..<PF_SLOTS] = None" using assms(6) by (auto simp: find_None_iff v1(6))
  then have z: "bv_find_in_free_list v1 = 0" by (simp add: bv_find_in_free_list_def)
  have l: "bv_load_chunk md 0 v1 = (Inr None, v1)" for md using f by (simp add: bv_load_chunk_def sbind_def slift_def bv_get_file_def pf_is_valid_def)
  have "bv_first_available lay v1 = (Inr UNKNOWN, v1)" using z l v1(4) assms(4) by (simp add: bv_first_available_def Let_def sbind_def)
  moreover have "bv_store lay d y v1 = (Inl Assertion_failed, v1)" using z l v1(4) assms(4) by (simp add: bv_store_def bv_is_full_def sbind_def slift_def sthrow_def)
  ultimately show ?thesis using v1(1,4) assms(4) by (simp add: bv_is_full_def)
qed

theorem bv_store_at_counter_witness:
  "\<exists>v v1. bv_store_at lay_demo 0 7 bv_demo = (Inr (), v) \<and> bv_store_at lay_demo 1 7 v = (Inr (), v1) \<and>
     \<not> bv_is_full v1 \<and> bv_first_available lay_demo v1 = (Inr UNKNOWN, v1)"
proof -
  have o: "\<not> bv_others_used lay_demo bv_demo 0"
    using bv_demo_page [of 1] by (auto simp: bv_others_used_def page_no_def PID_LIMIT_def bv_view_def slot_view_def lay_demo_def zero_page_def intro!: exI [of _ 1])
  from bv_store_at_spec [OF bv_demo_inv, of 0 7] lay_demo_ok bv_demo_has_page [of 0] o obtain v where
    v: "bv_store_at lay_demo 0 7 bv_demo = (Inr (), v)" "bv_inv lay_demo v" "bv_view lay_demo v = (bv_view lay_demo bv_demo)(0 \<mapsto> 7)"
    "bv_avail v = 2" "bv_epc v = 2" "bv_free v = (\<lambda>k. k = 0)" by (auto simp: bv_demo_def)
  have "bv_has_page v 0" using bv_view_has_page [of lay_demo v 0] v(3) by simp
  then have "bv_has_page v 1" using v(5) by (simp add: bv_has_page_def page_no_def)
  moreover have "bv_others_used lay_demo v 1" unfolding bv_others_used_def
  proof (intro allI impI)
    fix j :: nat assume "page_no (bv_epc v) j = page_no (bv_epc v) 1" "j \<noteq> 1"
    then have "j = 0" using v(5) by (simp add: page_no_def)
    then show "bv_view lay_demo v j \<noteq> None" using v(3) by simp
  qed
  ultimately show ?thesis using bv_store_at_counter [OF v(2), of 1 7 0 0] lay_demo_ok v(1,4,5,6) by auto
qed

text \<open>
  The end of a range scan: when the iterator leaves the last chunk of its range and the file has a further page, it ends, but it has loaded and pinned
  that page. The destructor does not unpin, so the page stays pinned in the pool.
\<close>

theorem bv_range_end_pins:
  assumes "bv_inv lay w" "v = w\<lparr>bv_pool := bp_pin_page (bv_pid w (last_chunk + 1)) (bv_pool w)\<rparr>"
    and "it_pid it = last_chunk + 1" "it_pos it + 1 = bv_epc w"
    and "last_chunk + 2 < PID_LIMIT" "bp_view (bv_pool w) (bv_pid w (last_chunk + 2)) = Some pg"
  shows "\<exists>it' v' s. bv_range_next lay last_chunk (Suc n) it v = (Inr (Some it'), v') \<and> \<not> bv_range_ok last_chunk it' \<and>
     map_of (bp_ptable (bv_pool v')) (bv_pid w (last_chunk + 2)) = Some s \<and> bs_pinned s"
proof -
  from assms(1) obtain xs where "bp_wf (bv_pool w) xs" "bp_unpinned (bv_pool w)" by (auto simp: bv_inv_def)
  from bp_unpin_pin [OF this(2) bp_wfD(6) [OF this(1)]] have u: "bv_unpin (last_chunk + 1) v = (Inr (), w)"
    by (simp add: bv_unpin_def assms(2) bv_pid_def)
  from bv_load_pinned_run [OF assms(1,5,6)] obtain p v' s where l: "bv_load_pinned (last_chunk + 2) w = (Inr (Some p), v')"
    "map_of (bp_ptable (bv_pool v')) (bv_pid w (last_chunk + 2)) = Some s" "bs_pinned s" by blast
  have "bv_iter_round it v = (Inr \<lparr>it_pid = last_chunk + 2, it_cptr = Some p, it_pos = 0\<rparr>, v')"
    using u l(1) assms(2-4) by (simp add: bv_iter_round_def sbind_def sret_def)
  then show ?thesis using l(2,3) by (simp add: sbind_def slift_def bv_range_ok_def)
qed

theorem bv_range_end_pins_witness:
  "\<exists>it' v' s. bv_range_next lay_demo 0 (Suc 0) \<lparr>it_pid = 1, it_cptr = Some 0, it_pos = 1\<rparr>
       (bv_demo2\<lparr>bv_pool := bp_pin_page (bv_pid bv_demo2 1) (bv_pool bv_demo2)\<rparr>) = (Inr (Some it'), v') \<and> \<not> bv_range_ok 0 it' \<and>
     map_of (bp_ptable (bv_pool v')) (bv_pid bv_demo2 2) = Some s \<and> bs_pinned s"
proof -
  have "bv_epc bv_demo2 = 2" by (simp add: bv_demo2_def bv_demo_def)
  moreover have "(2::nat) < PID_LIMIT" by (simp add: PID_LIMIT_def)
  ultimately show ?thesis
    using bv_range_end_pins [OF bv_demo2_inv, of "bv_demo2\<lparr>bv_pool := bp_pin_page (bv_pid bv_demo2 1) (bv_pool bv_demo2)\<rparr>" 0
        "\<lparr>it_pid = 1, it_cptr = Some 0, it_pos = 1\<rparr>" zero_page 0, unfolded add_0] bv_demo2_page [of 2]
    by (simp del: bv_range_next.simps)
qed

text \<open>
  Erased slots are never used again: \<open>erase\<close> frees the slot, but neither the counter of available slots nor the free list
  changes, because the code tests the slot and the chunk after clearing the slot. A full vector is still full afterwards, so the
  next \<open>store\<close> or \<open>append\<close> enlarges the file.
\<close>

theorem bv_erase_not_reused:
  assumes "bv_inv lay v" "layout_ok lay (bv_epc v)" "bv_has_page v idx"
  shows "\<exists>v'. bv_erase lay idx v = (Inr (), v') \<and> bv_view lay v' = (bv_view lay v)(idx := None) \<and>
     bv_is_full v' = bv_is_full v \<and> bv_find_in_free_list v' = bv_find_in_free_list v"
proof -
  from bv_erase_spec [OF assms] obtain v' where "bv_erase lay idx v = (Inr (), v')" "bv_view lay v' = (bv_view lay v)(idx := None)"
    "bv_avail v' = bv_avail v" "bv_free v' = bv_free v" by blast
  then show ?thesis by (intro exI [of _ v']) (simp add: bv_is_full_def bv_find_in_free_list_def)
qed

theorem bv_erase_not_reused_witness:
  "\<exists>v v'. bv_store_at lay_demo 0 7 bv_demo = (Inr (), v) \<and> bv_view lay_demo v 0 = Some 7 \<and> bv_erase lay_demo 0 v = (Inr (), v') \<and>
     bv_view lay_demo v' 0 = None \<and> bv_is_full v' = bv_is_full v"
proof -
  from bv_store_at_spec [OF bv_demo_inv, of 0 7] lay_demo_ok bv_demo_has_page [of 0] obtain v where
    v: "bv_store_at lay_demo 0 7 bv_demo = (Inr (), v)" "bv_inv lay_demo v" "bv_view lay_demo v 0 = Some 7" "bv_epc v = 2" by auto
  from bv_view_has_page v(3) have "bv_has_page v 0" by fastforce
  then show ?thesis using bv_erase_not_reused [OF v(2), of 0] lay_demo_ok v by auto
qed

end
