(* ===== verification/Paged_Pool.thy ===== *)
theory Paged_Pool
  imports Buffered_Vec Dict
begin

text \<open>
  The string pool of the paged-file configuration, \<^verbatim>\<open>src/src/dict/paged_string_pool.cpp\<close>, and the dictionary on it. The strings lie one after the other, each with a
  zero byte, in the pages of a file; the code of a string is its position over all pages. The first four bytes of the last page have the position behind
  the last string. A page pointer is a position in the buffer of the pool; reading or writing behind the end of a page is
  undefined behaviour. Integers are little-endian and \<open>char\<close> is signed, as on the machines the program is written for.
\<close>

section \<open>Bytes of a page\<close>

definition PF_PAGE_SIZE :: nat where
  "PF_PAGE_SIZE = 1048576"

definition get_u32 :: "page \<Rightarrow> nat" where
  "get_u32 pg = unat (pg 0) + 256 * unat (pg 1) + 65536 * unat (pg 2) + 16777216 * unat (pg 3)"

definition put_u32 :: "nat \<Rightarrow> page \<Rightarrow> page" where
  "put_u32 v pg = (\<lambda>i. if i < 4 then of_nat (v div 256 ^ i) else pg i)"

definition copy_str :: "nat \<Rightarrow> string \<Rightarrow> page \<Rightarrow> page" where
  "copy_str pos s pg = (\<lambda>i. if pos \<le> i \<and> i < pos + length s then of_char (s ! (i - pos)) else pg i)"

text \<open>The zero-terminated string at position \<open>p\<close> of a page that has \<open>n\<close> more bytes.\<close>

fun page_str :: "page \<Rightarrow> nat \<Rightarrow> nat \<Rightarrow> string result" where
  "page_str pg p 0 = Inl Undefined_behaviour"
| "page_str pg p (Suc n) = (if pg p = 0 then Inr [] else rbind (page_str pg (p + 1) n) (\<lambda>s. Inr (char_of (unat (pg p)) # s)))"

section \<open>The pool\<close>

record paged_string_pool =
  pp_bpool :: bufferpool
  pp_file :: nat
  pp_npages :: nat

definition pp_lift :: "(bufferpool, 'b) action \<Rightarrow> (paged_string_pool, 'b) action" where
  "pp_lift m P = (case m (pp_bpool P) of (r, b) \<Rightarrow> (r, P\<lparr>pp_bpool := b\<rparr>))"

definition pp_new :: "nat \<Rightarrow> bufferpool \<Rightarrow> paged_string_pool result" where
  "pp_new fid b =
     rbind (bp_get_file fid b) (\<lambda>f.
     if pf_npages f = 0
     then rbind (fst (bp_allocate_page fid b)) (\<lambda>_. Inr \<lparr>pp_bpool = snd (bp_allocate_page fid b), pp_file = fid, pp_npages = 1\<rparr>)
     else Inr \<lparr>pp_bpool = b, pp_file = fid, pp_npages = pf_npages f\<rparr>)"

text \<open>
  A string is reported at a zero byte, if the byte at which it starts is not zero. The page number is counted in 32 bits.
\<close>

fun scan_bytes :: "page \<Rightarrow> nat \<Rightarrow> nat \<Rightarrow> nat \<Rightarrow> nat \<Rightarrow> nat \<Rightarrow> (string \<times> dcode_t) list result" where
  "scan_bytes pg lastp ppos p spos 0 = Inr []"
| "scan_bytes pg lastp ppos p spos (Suc n) =
     (if pg p = 0 \<and> pg lastp \<noteq> 0
      then rbind (page_str pg lastp (PF_PAGE_SIZE - lastp)) (\<lambda>s.
           rbind (scan_bytes pg (p + 1) (spos + 1) (p + 1) (spos + 1) n) (\<lambda>r. Inr ((s, mod32 ppos) # r)))
      else scan_bytes pg lastp ppos (p + 1) (spos + 1) n)"

definition scan_page :: "nat \<Rightarrow> page \<Rightarrow> (string \<times> dcode_t) list result" where
  "scan_page npage pg = (let spos = mod32 (npage * PF_PAGE_SIZE) + 4 in scan_bytes pg 4 spos 4 spos (PF_PAGE_SIZE - 4))"

fun scan_pages :: "nat \<Rightarrow> page list \<Rightarrow> (string \<times> dcode_t) list result" where
  "scan_pages npage [] = Inr []"
| "scan_pages npage (pg # pgs) = rbind (scan_page npage pg) (\<lambda>r. rbind (scan_pages (npage + 1) pgs) (\<lambda>rs. Inr (r @ rs)))"

definition pp_scan :: "paged_string_pool \<Rightarrow> (paged_string_pool \<times> (string \<times> dcode_t) list \<times> bool) result" where
  "pp_scan P =
     rbind (bp_scan_file (pp_file P) (pp_bpool P)) (\<lambda>(b, pgs).
     rbind (scan_pages 0 pgs) (\<lambda>r. Inr (P\<lparr>pp_bpool := b\<rparr>, r, length pgs = pp_npages P)))"

definition pp_fetch :: "dcode_t \<Rightarrow> (paged_string_pool, page) action" where
  "pp_fetch pos P =
     sbind (pp_lift (bp_fetch_page (mk_pid (pp_file P) (pos div PF_PAGE_SIZE + 1)))) (\<lambda>p.
     slift (\<lambda>P. Inr (bp_buffer (pp_bpool P) ! p))) P"

definition pp_extract :: "dcode_t \<Rightarrow> (paged_string_pool, string) action" where
  "pp_extract pos =
     sbind (pp_fetch pos) (\<lambda>pg. slift (\<lambda>_. page_str pg (pos mod PF_PAGE_SIZE) (PF_PAGE_SIZE - pos mod PF_PAGE_SIZE)))"

text \<open>A byte of the page, which is unsigned, is compared with a \<open>char\<close>, which is signed.\<close>

fun equal_bytes :: "page \<Rightarrow> nat \<Rightarrow> string \<Rightarrow> bool result" where
  "equal_bytes pg q [] = (if q < PF_PAGE_SIZE then Inr (pg q = 0) else Inl Undefined_behaviour)"
| "equal_bytes pg q (c # s) =
     (if PF_PAGE_SIZE \<le> q then Inl Undefined_behaviour
      else if uint (pg q) \<noteq> sint (of_char c :: 8 word) then Inr False
      else equal_bytes pg (q + 1) s)"

definition pp_equal :: "dcode_t \<Rightarrow> string \<Rightarrow> (paged_string_pool, bool) action" where
  "pp_equal pos s = sbind (pp_fetch pos) (\<lambda>pg. slift (\<lambda>_. equal_bytes pg (pos mod PF_PAGE_SIZE) s))"

text \<open>The string, its zero byte and the new position behind it go to the page at \<open>p\<close>.\<close>

definition pp_put :: "string \<Rightarrow> nat \<Rightarrow> nat \<Rightarrow> nat \<Rightarrow> nat \<Rightarrow> (paged_string_pool, dcode_t) action" where
  "pp_put str p pid last_pos page_pos P =
     (if page_pos + length str + 1 \<le> PF_PAGE_SIZE
      then let pg = copy_str page_pos str (bp_buffer (pp_bpool P) ! p);
               pg' = put_u32 (mod32 (last_pos + length str + 1)) (pg(page_pos + length str := 0))
           in (Inr last_pos, P\<lparr>pp_bpool := bp_mark_dirty (mk_pid (pp_file P) pid) (bp_poke p pg' (pp_bpool P))\<rparr>)
      else (Inl Undefined_behaviour, P))"

definition pp_new_page :: "(paged_string_pool, nat \<times> nat) action" where
  "pp_new_page P = sbind (pp_lift (bp_allocate_page (pp_file P))) (\<lambda>r. sbind (supd (\<lambda>P. Inr (P\<lparr>pp_npages := pp_npages P + 1\<rparr>))) (\<lambda>_. sret r)) P"

definition pp_add :: "string \<Rightarrow> (paged_string_pool, dcode_t) action" where
  "pp_add str P =
     sbind (pp_lift (bp_last_valid_page (pp_file P))) (\<lambda>(p, pid).
     sbind (slift (\<lambda>P. Inr (get_u32 (bp_buffer (pp_bpool P) ! p)))) (\<lambda>last.
     let last_pos = (if last = 0 then 4 else last); page_pos = sub64 last_pos ((pp_npages P - 1) * PF_PAGE_SIZE) in
     if PF_PAGE_SIZE \<le> (page_pos + length str + 1) mod 2 ^ 64
     then sbind pp_new_page (\<lambda>(q, new_pid).
          sbind (slift (\<lambda>P. Inr (pp_npages P))) (\<lambda>n. pp_put str q new_pid (mod32 ((n - 1) * PF_PAGE_SIZE + 4)) 4))
     else pp_put str p pid last_pos page_pos)) P"

section \<open>The dictionary on the pool\<close>

record paged_dict =
  pd_pool :: paged_string_pool
  pd_table :: code_table

definition pd_initialize :: "hash \<Rightarrow> paged_string_pool \<Rightarrow> paged_dict result" where
  "pd_initialize h P =
     rbind (pp_scan P) (\<lambda>(P', es, _). Inr \<lparr>pd_pool = P', pd_table = foldl (\<lambda>u (s, c). ct_insert h s c u) [] es\<rparr>)"

definition pd_insert :: "hash \<Rightarrow> string \<Rightarrow> (paged_dict, dcode_t) action" where
  "pd_insert h s D =
     (let pos = ct_find h s (pd_table D) in
      if pos \<noteq> UNKNOWN_CODE then (Inr (ct_get pos), D)
      else case pp_add s (pd_pool D) of
        (Inl e, P) \<Rightarrow> (Inl e, D\<lparr>pd_pool := P\<rparr>)
      | (Inr c, P) \<Rightarrow> (Inr c, D\<lparr>pd_pool := P, pd_table := ct_insert h s c (pd_table D)\<rparr>))"

definition pd_lookup_string :: "hash \<Rightarrow> string \<Rightarrow> paged_dict \<Rightarrow> dcode_t" where
  "pd_lookup_string h s D = (let k = ct_find h s (pd_table D) in if k \<noteq> UNKNOWN_CODE then ct_get k else 0)"

definition pd_lookup_code :: "dcode_t \<Rightarrow> (paged_dict, string) action" where
  "pd_lookup_code c D = (case pp_extract c (pd_pool D) of (r, P) \<Rightarrow> (r, D\<lparr>pd_pool := P\<rparr>))"

definition pd_close_file :: "paged_dict \<Rightarrow> paged_dict result" where
  "pd_close_file D =
     rbind (bp_flush_pages (pp_file (pd_pool D)) (pp_bpool (pd_pool D))) (\<lambda>b.
     rbind (bp_get_file (pp_file (pd_pool D)) b) (\<lambda>f.
     Inr (D\<lparr>pd_pool := (pd_pool D)\<lparr>pp_bpool := bp_put_file (pp_file (pd_pool D)) (pf_close None f) b\<rparr>\<rparr>)))"

section \<open>Layout of a page\<close>

definition page_cells :: "string list \<Rightarrow> 8 word list" where
  "page_cells ss = concat (map (\<lambda>s. map of_char s @ [0]) ss)"

definition page_fill :: "string list \<Rightarrow> nat" where
  "page_fill ss = 4 + length (page_cells ss)"

text \<open>Behind the first four bytes the page has the strings, and behind them zero bytes.\<close>

definition page_holds :: "page \<Rightarrow> string list \<Rightarrow> bool" where
  "page_holds pg ss \<longleftrightarrow> page_fill ss \<le> PF_PAGE_SIZE \<and> (\<forall>s\<in>set ss. nul \<notin> set s) \<and>
     (\<forall>i. i + 4 < PF_PAGE_SIZE \<longrightarrow> pg (i + 4) = (if i < length (page_cells ss) then page_cells ss ! i else 0))"

lemma page_cells_simps [simp]: "page_cells [] = []" "page_cells (s # ss) = map of_char s @ 0 # page_cells ss"
  "page_cells (as @ bs) = page_cells as @ page_cells bs"
  by (simp_all add: page_cells_def)

lemma page_fill_simps [simp]: "page_fill [] = 4" "page_fill (as @ [s]) = page_fill as + length s + 1"
  by (simp_all add: page_fill_def)

lemma byte_char: "unat (of_char c :: 8 word) = of_char c" "(of_char c :: 8 word) = 0 \<longleftrightarrow> c = nul" "char_of (unat (of_char c :: 8 word)) = c"
proof -
  have "unat (of_nat (of_char c :: nat) :: 8 word) = of_char c" by (simp add: unat_of_nat take_bit_eq_mod of_char_mod_256)
  then show u: "unat (of_char c :: 8 word) = of_char c" unfolding of_nat_of_char .
  then show "char_of (unat (of_char c :: 8 word)) = c" by simp
  have "(of_char c :: 8 word) = 0 \<longleftrightarrow> unat (of_char c :: 8 word) = 0" by (simp add: unat_eq_0)
  also have "\<dots> \<longleftrightarrow> (of_char c :: nat) = of_char nul" unfolding u by simp
  finally show "(of_char c :: 8 word) = 0 \<longleftrightarrow> c = nul" unfolding of_char_eq_iff .
qed

lemma get_put_u32: "v < 2 ^ 32 \<Longrightarrow> get_u32 (put_u32 v pg) = v"
proof -
  assume v: "v < 2 ^ 32"
  have m: "unat (of_nat n :: 8 word) = n mod 256" for n by (simp add: unat_of_nat take_bit_eq_mod)
  let ?a = "v div 256"
  let ?b = "?a div 256"
  let ?c = "?b div 256"
  have d: "v div 65536 = ?b" "v div 16777216 = ?c" by (simp_all add: div_mult2_eq [symmetric])
  have "?c < 256" using v by (simp add: d(2) [symmetric] less_mult_imp_div_less)
  then have g: "get_u32 (put_u32 v pg) = v mod 256 + 256 * (?a mod 256) + 65536 * (?b mod 256) + 16777216 * ?c"
    by (simp add: get_u32_def put_u32_def m d)
  have "v = 256 * ?a + v mod 256" "?a = 256 * ?b + ?a mod 256" "?b = 256 * ?c + ?b mod 256" by (simp_all only: mult_div_mod_eq)
  then show ?thesis unfolding g by linarith
qed

lemma page_str_bytes:
  "\<forall>i<length s. pg (p + i) = of_char (s ! i) \<Longrightarrow> pg (p + length s) = 0 \<Longrightarrow> nul \<notin> set s \<Longrightarrow> length s < n \<Longrightarrow> page_str pg p n = Inr s"
proof (induction s arbitrary: p n)
  case Nil
  then show ?case by (cases n) auto
next
  case (Cons c s)
  obtain m where n: "n = Suc m" using Cons.prems(4) by (cases n) auto
  have c: "pg p = of_char c" using Cons.prems(1) [rule_format, of 0] by simp
  have "\<forall>i<length s. pg (p + 1 + i) = of_char (s ! i)" using Cons.prems(1) by fastforce
  moreover have "pg (p + 1 + length s) = 0" using Cons.prems(2) by simp
  ultimately have "page_str pg (p + 1) m = Inr s" using Cons.IH [of "p + 1" m] Cons.prems(3,4) n by simp
  then show ?case using Cons.prems(3) by (auto simp: n c byte_char)
qed

lemma page_holds_at:
  assumes "page_holds pg (as @ s # bs)"
  shows "\<forall>i<length s. pg (page_fill as + i) = of_char (s ! i)" "pg (page_fill as + length s) = 0" "nul \<notin> set s"
    "page_fill as + length s < PF_PAGE_SIZE"
proof -
  let ?n = "length (page_cells as)"
  have f: "page_fill as + length s + 1 \<le> PF_PAGE_SIZE" using assms by (simp add: page_holds_def page_fill_def)
  have b: "pg (page_fill as + i) = (page_cells as @ map of_char s @ 0 # page_cells bs) ! (?n + i)" if "i \<le> length s" for i
  proof -
    have "?n + i + 4 < PF_PAGE_SIZE" using that f by (simp add: page_fill_def)
    then have "pg (?n + i + 4) = (page_cells as @ map of_char s @ 0 # page_cells bs) ! (?n + i)" using assms that by (simp add: page_holds_def)
    then show ?thesis by (simp add: page_fill_def ac_simps)
  qed
  show "\<forall>i<length s. pg (page_fill as + i) = of_char (s ! i)" using b by (simp add: nth_append)
  show "pg (page_fill as + length s) = 0" using b [of "length s"] by (simp add: nth_append)
  show "nul \<notin> set s" "page_fill as + length s < PF_PAGE_SIZE" using assms f by (simp_all add: page_holds_def)
qed

lemma page_holds_str: "page_holds pg (as @ s # bs) \<Longrightarrow> page_str pg (page_fill as) (PF_PAGE_SIZE - page_fill as) = Inr s"
  using page_holds_at [of pg as s bs] by (intro page_str_bytes) auto

lemma page_holds_end: "page_holds pg ss \<Longrightarrow> page_fill ss < PF_PAGE_SIZE \<Longrightarrow> pg (page_fill ss) = 0"
  by (auto simp: page_holds_def page_fill_def add.commute dest: spec [of _ "length (page_cells ss)"])

lemma page_holds_put:
  assumes h: "page_holds pg ss" and s: "nul \<notin> set s" "page_fill ss + length s + 1 \<le> PF_PAGE_SIZE"
  shows "page_holds (put_u32 v ((copy_str (page_fill ss) s pg)(page_fill ss + length s := 0))) (ss @ [s])" (is "page_holds ?pg _")
proof -
  let ?n = "length (page_cells ss)" and ?cs = "page_cells ss @ map of_char s @ [0]"
  have "?pg (i + 4) = (if i < length ?cs then ?cs ! i else 0)" if i: "i + 4 < PF_PAGE_SIZE" for i
  proof -
    have old: "pg (i + 4) = (if i < ?n then page_cells ss ! i else 0)" using h i by (simp add: page_holds_def)
    consider "i < ?n" | "?n \<le> i" "i < ?n + length s" | "i = ?n + length s" | "?n + length s < i" by linarith
    then show ?thesis by cases (use old in \<open>auto simp: put_u32_def copy_str_def page_fill_def nth_append\<close>)
  qed
  then show ?thesis using h s by (auto simp: page_holds_def page_fill_def)
qed

section \<open>Scanning a page\<close>

lemma scan_dead: "pg lastp = 0 \<Longrightarrow> scan_bytes pg lastp ppos p spos n = Inr []"
  by (induction n arbitrary: p spos) simp_all

lemma scan_run: "\<forall>i<m. pg (p + i) \<noteq> 0 \<Longrightarrow> scan_bytes pg lastp ppos p spos (m + n) = scan_bytes pg lastp ppos (p + m) (spos + m) n"
proof (induction m arbitrary: p spos)
  case (Suc m)
  have "\<forall>i<m. pg (p + 1 + i) \<noteq> 0" using Suc.prems by fastforce
  then show ?case using Suc.IH [of "p + 1" "spos + 1"] Suc.prems [rule_format, of 0] by simp
qed simp

lemma scan_strings:
  "page_holds pg (as @ ss) \<Longrightarrow> base + PF_PAGE_SIZE \<le> 2 ^ 32 \<Longrightarrow>
   scan_bytes pg (page_fill as) (base + page_fill as) (page_fill as) (base + page_fill as) (PF_PAGE_SIZE - page_fill as) =
     Inr (sp_codes (base + page_fill as) (takeWhile (\<lambda>s. s \<noteq> []) ss))"
proof (induction ss arbitrary: as)
  case Nil
  show ?case
  proof (cases "page_fill as < PF_PAGE_SIZE")
    case True
    then show ?thesis using page_holds_end [of pg as] Nil by (simp add: scan_dead)
  qed simp
next
  case (Cons s ss)
  note at = page_holds_at [OF Cons.prems(1)]
  show ?case
  proof (cases "s = []")
    case True
    then show ?thesis using at(2) by (simp add: scan_dead)
  next
    case False
    let ?p = "page_fill as" and ?m = "length s" and ?n = "PF_PAGE_SIZE - page_fill (as @ [s])"
    have n: "PF_PAGE_SIZE - ?p = ?m + Suc ?n" using at(4) by simp
    have nz: "\<forall>i<?m. pg (?p + i) \<noteq> 0" using at(1,3) by (auto simp: byte_char in_set_conv_nth)
    have first: "pg ?p \<noteq> 0" using nz False by (auto dest: spec [of _ 0])
    have "scan_bytes pg ?p (base + ?p) ?p (base + ?p) (PF_PAGE_SIZE - ?p) = scan_bytes pg ?p (base + ?p) (?p + ?m) (base + ?p + ?m) (Suc ?n)"
      unfolding n by (rule scan_run [OF nz])
    also have "\<dots> = rbind (scan_bytes pg (?p + ?m + 1) (base + ?p + ?m + 1) (?p + ?m + 1) (base + ?p + ?m + 1) ?n) (\<lambda>r. Inr ((s, mod32 (base + ?p)) # r))"
      using at(2) first page_holds_str [OF Cons.prems(1)] by simp
    also have "scan_bytes pg (?p + ?m + 1) (base + ?p + ?m + 1) (?p + ?m + 1) (base + ?p + ?m + 1) ?n =
        Inr (sp_codes (base + page_fill (as @ [s])) (takeWhile (\<lambda>s. s \<noteq> []) ss))"
      using Cons.IH [of "as @ [s]"] Cons.prems by (simp add: add.assoc)
    finally show ?thesis using False at(4) Cons.prems(2) by (simp add: mod32_small ac_simps)
  qed
qed

text \<open>
  A scan of a page reports the strings of the page with their codes, up to the first empty string: an empty string, which the pool accepts, hides all
  strings behind it in the page.
\<close>

theorem scan_page_strings:
  assumes "page_holds pg ss" "(k + 1) * PF_PAGE_SIZE \<le> 2 ^ 32"
  shows "scan_page k pg = Inr (sp_codes (k * PF_PAGE_SIZE + 4) (takeWhile (\<lambda>s. s \<noteq> []) ss))"
proof -
  have "mod32 (k * PF_PAGE_SIZE) = k * PF_PAGE_SIZE" using assms(2) by (intro mod32_small) (simp add: PF_PAGE_SIZE_def)
  then show ?thesis using scan_strings [of pg "[]" ss "k * PF_PAGE_SIZE"] assms by (simp add: scan_page_def Let_def add.commute)
qed

section \<open>Pages of the pool\<close>

definition pool_ok :: "bufferpool \<Rightarrow> nat \<Rightarrow> bool" where
  "pool_ok b i \<longleftrightarrow> (\<exists>xs. bp_wf b xs) \<and> bp_unpinned b \<and> 0 < bp_bsize b \<and> i < 16"

lemma pool_fetch:
  assumes ok: "pool_ok b i" and pg: "bp_view b pid = Some pg"
  obtains p b' s where "bp_fetch_page pid b = (Inr p, b')" "pool_ok b' i" "bp_view b' = bp_view b" "bp_buffer b' ! p = pg"
    "map_of (bp_ptable b') pid = Some s" "bs_p s = p" "bp_npages b' = bp_npages b"
proof -
  from ok obtain xs where wf: "bp_wf b xs" and u: "bp_unpinned b" "0 < bp_bsize b" by (auto simp: pool_ok_def)
  from bp_fetch_spec [OF wf pg bp_evictable_unpinned [OF wf u]] obtain b' p ys s where
    b: "bp_fetch_page pid b = (Inr p, b')" "bp_wf b' ys" "bp_view b' = bp_view b" "bp_buffer b' ! p = pg"
    "map_of (bp_ptable b') pid = Some s" "bs_p s = p" "bp_bsize b' = bp_bsize b" "bp_unpinned b \<longrightarrow> bp_unpinned b'" .
  with ok u have "pool_ok b' i" by (auto simp: pool_ok_def)
  with that b bp_fetch_npages [OF b(1)] show ?thesis by blast
qed

lemma pool_write:
  assumes ok: "pool_ok b i" and s: "map_of (bp_ptable b) pid = Some s"
  shows "pool_ok (bp_mark_dirty pid (bp_poke (bs_p s) pg b)) i" "bp_view (bp_mark_dirty pid (bp_poke (bs_p s) pg b)) = (bp_view b)(pid \<mapsto> pg)"
    "bp_npages (bp_mark_dirty pid (bp_poke (bs_p s) pg b)) = bp_npages b"
proof -
  let ?b = "bp_mark_dirty pid (bp_poke (bs_p s) pg b)"
  from ok obtain xs where wf: "bp_wf b xs" by (auto simp: pool_ok_def)
  have "bp_unpinned ?b" using ok by (auto simp: pool_ok_def bp_unpinned_def bp_mark_dirty_def bp_poke_def map_of_modify split: if_splits)
  moreover have "bp_bsize ?b = bp_bsize b" by (simp add: bp_mark_dirty_def bp_poke_def)
  ultimately show "pool_ok ?b i" using ok bp_update_wf(1) [OF wf s, of pg] by (auto simp: pool_ok_def)
  show "bp_view ?b = (bp_view b)(pid \<mapsto> pg)" by (rule bp_update_wf(2) [OF wf s])
  show "bp_npages ?b = bp_npages b" by (rule bp_npages_file) (simp add: bp_mark_dirty_def bp_poke_def)
qed

text \<open>Flushing changes neither the number of pages nor the header of a file.\<close>

definition bp_headers :: "bufferpool \<Rightarrow> nat \<Rightarrow> file_header option" where
  "bp_headers b i = map_option pf_header (bp_files b i)"

lemma bp_write_headers: "bp_write_page_to_file pid p b = Inr b' \<Longrightarrow> bp_headers b' = bp_headers b"
  by (auto simp: bp_write_page_to_file_def bp_get_file_def pf_write_page_def bp_put_file_def pf_put_def Let_def bp_headers_def fun_eq_iff
      rbind_eq_Inr_iff split: if_splits option.splits)

lemma bp_flush_entry_frame:
  assumes "bp_flush_entry pid s b = Inr b'"
  shows "bp_npages b' = bp_npages b" "bp_headers b' = bp_headers b" "bp_bsize b' = bp_bsize b" "bp_unpinned b \<Longrightarrow> bp_unpinned b'"
proof -
  show "bp_npages b' = bp_npages b" "bp_headers b' = bp_headers b"
    using assms bp_write_npages [of pid "bs_p s" b] bp_write_headers [of pid "bs_p s" b]
    by (auto simp: bp_flush_entry_def rbind_def bp_npages_def bp_headers_def fun_eq_iff split: sum.splits if_splits)
  show "bp_bsize b' = bp_bsize b" "bp_unpinned b \<Longrightarrow> bp_unpinned b'"
    using assms by (auto simp: bp_flush_entry_def rbind_def bp_unpinned_def map_of_modify bp_write_page_to_file_def bp_put_file_def split: sum.splits if_splits)
qed

lemma bp_flush_entries_frame:
  "bp_flush_entries P es b = Inr b' \<Longrightarrow> bp_npages b' = bp_npages b \<and> bp_headers b' = bp_headers b \<and> bp_bsize b' = bp_bsize b \<and> (bp_unpinned b \<longrightarrow> bp_unpinned b')"
proof (induction P es b rule: bp_flush_entries.induct)
  case (2 P pid s es b)
  obtain b1 where b1: "(if P pid then bp_flush_entry pid s b else Inr b) = Inr b1" "bp_flush_entries P es b1 = Inr b'"
    using 2(2) by (auto simp: rbind_def split: sum.splits)
  have "bp_npages b1 = bp_npages b \<and> bp_headers b1 = bp_headers b \<and> bp_bsize b1 = bp_bsize b \<and> (bp_unpinned b \<longrightarrow> bp_unpinned b1)"
    using b1(1) bp_flush_entry_frame [of pid s b b1] by (auto split: if_splits)
  then show ?case using 2(1) [OF b1] by simp
qed simp

lemma bp_flush_frame:
  "bp_flush_all b = Inr b' \<Longrightarrow> bp_npages b' = bp_npages b \<and> bp_headers b' = bp_headers b \<and> bp_bsize b' = bp_bsize b \<and> (bp_unpinned b \<longrightarrow> bp_unpinned b')"
  unfolding bp_flush_all_def by (rule bp_flush_entries_frame)

text \<open>All pages of file \<open>i\<close> are in use, and there are \<open>n\<close> of them.\<close>

definition pages_used :: "bufferpool \<Rightarrow> nat \<Rightarrow> nat \<Rightarrow> bool" where
  "pages_used b i n \<longleftrightarrow> 0 < n \<and> bp_npages b i = Some n \<and> (\<forall>k<n. bp_view b (mk_pid i (Suc k)) \<noteq> None)"

lemma pages_used_file:
  assumes ok: "pool_ok b i" and u: "pages_used b i n"
  obtains f where "bp_files b i = Some f" "bp_get_file i b = Inr f" "pf_inv f" "pf_npages f = n" "\<forall>k<n. pf_slots f k" "n < PF_SLOTS"
proof -
  from ok obtain xs where wf: "bp_wf b xs" by (auto simp: pool_ok_def)
  from u obtain f where f: "bp_files b i = Some f" "pf_npages f = n" by (auto simp: pages_used_def bp_npages_def)
  then have i: "pf_inv f" "i < MAX_PFILES" using bp_wfD(5) [OF wf] by (auto simp: bp_files_ok_def)
  have n: "n < PF_SLOTS" using i(1) f(2) by (auto simp: pf_inv_def)
  have "pf_slots f k" if "k < n" for k
  proof -
    have "mk_pid i (Suc k) \<in> dom (bp_disk b)" using u that unfolding pages_used_def bp_view_dom [OF wf, symmetric] by blast
    moreover have "Suc k < 2 ^ 60" "i < 16" using that n ok by (simp_all add: PF_SLOTS_def pool_ok_def)
    ultimately show ?thesis using f(1) mk_pid_parts [of "Suc k" i] by (auto simp: bp_disk_def pf_content_def split: if_splits)
  qed
  then show ?thesis using that f i n by (simp add: bp_get_file_def)
qed

lemma pool_last:
  assumes ok: "pool_ok b i" and u: "pages_used b i n"
  shows "bp_last_valid_page i b = sbind (bp_fetch_page (mk_pid i n)) (\<lambda>p. sret (p, n)) b"
proof -
  obtain f where f: "bp_files b i = Some f" "bp_get_file i b = Inr f" "pf_inv f" "pf_npages f = n" "\<forall>k<n. pf_slots f k" "n < PF_SLOTS"
    by (rule pages_used_file [OF ok u])
  obtain m where m: "n = Suc m" using u by (cases n) (auto simp: pages_used_def)
  have "pf_last_valid_page f = Inr (f, n)" using f(4-6) by (simp add: m pf_last_valid_used)
  moreover have "bp_put_file i f b = b" using f(1) by (simp add: bp_put_file_def fun_upd_idem)
  ultimately show ?thesis using f(2) by (simp add: bp_last_valid_page_def)
qed

lemma pool_alloc:
  assumes ok: "pool_ok b i" and u: "pages_used b i n" and room: "n + 1 < PF_SLOTS"
  obtains p b' s where "bp_allocate_page i b = (Inr (p, n + 1), b')" "pool_ok b' i" "bp_view b' = (bp_view b)(mk_pid i (n + 1) \<mapsto> zero_page)"
    "bp_buffer b' ! p = zero_page" "map_of (bp_ptable b') (mk_pid i (n + 1)) = Some s" "bs_p s = p" "bp_npages b' i = Some (n + 1)"
proof -
  from ok obtain xs where wf: "bp_wf b xs" and i: "i < 16" by (auto simp: pool_ok_def)
  obtain f where f: "bp_files b i = Some f" "bp_get_file i b = Inr f" "pf_inv f" "pf_npages f = n" "\<forall>k<n. pf_slots f k" "n < PF_SLOTS"
    by (rule pages_used_file [OF ok u])
  have full: "pf_find_first_slot f = Inr UNKNOWN" using f(4,5) by (auto intro: pf_find_first_slot_cases [OF f(3)])
  from pf_allocate_eq_append [OF f(3) full] room f(4) obtain f' where a: "pf_allocate_page f = Inr (f', n + 1)" "pf_npages f' = n + 1" by auto
  from pf_allocate_spec [OF f(3)] a(1) room f(4) have c: "pf_inv f'" "pf_content f (n + 1) = None" "pf_content f' = (pf_content f)(n + 1 \<mapsto> zero_page)" by auto
  have r: "n + 1 < 2 ^ 60" using room by (simp add: PF_SLOTS_def)
  note fr = bp_put_file_fresh [OF wf f(1) c(1) i r c(2,3)]
  let ?b = "bp_put_file i f' b"
  have ok1: "pool_ok ?b i" using ok fr(1) by (auto simp: pool_ok_def bp_put_file_def bp_unpinned_def)
  have v: "bp_view ?b (mk_pid i (n + 1)) = Some zero_page" using fr(2) by simp
  obtain p b' s where b': "bp_fetch_page (mk_pid i (n + 1)) ?b = (Inr p, b')" "pool_ok b' i" "bp_view b' = bp_view ?b" "bp_buffer b' ! p = zero_page"
    "map_of (bp_ptable b') (mk_pid i (n + 1)) = Some s" "bs_p s = p" "bp_npages b' = bp_npages ?b" by (rule pool_fetch [OF ok1 v])
  have "bp_allocate_page i b = (Inr (p, n + 1), b')" using f(2) a(1) b'(1) by (simp add: bp_allocate_page_def sbind_def sret_def)
  moreover have "bp_npages ?b i = Some (n + 1)" using a(2) by (simp add: bp_npages_def bp_put_file_def)
  ultimately show ?thesis using that b' fr(2) by metis
qed

section \<open>The pool as a list of strings with codes\<close>

text \<open>\<open>pss\<close> has the strings of each page.\<close>

definition pp_rep :: "paged_string_pool \<Rightarrow> string list list \<Rightarrow> bool" where
  "pp_rep P pss \<longleftrightarrow> pool_ok (pp_bpool P) (pp_file P) \<and> pages_used (pp_bpool P) (pp_file P) (length pss) \<and> pp_npages P = length pss \<and>
     (\<forall>k<length pss. \<exists>pg. bp_view (pp_bpool P) (mk_pid (pp_file P) (Suc k)) = Some pg \<and> page_holds pg (pss ! k) \<and>
        (Suc k = length pss \<longrightarrow> get_u32 pg = 0 \<and> pss = [[]] \<or> get_u32 pg = k * PF_PAGE_SIZE + page_fill (pss ! k)))"

definition pp_codes :: "string list list \<Rightarrow> (string \<times> dcode_t) list" where
  "pp_codes pss = concat (map (\<lambda>(k, ss). sp_codes (k * PF_PAGE_SIZE + 4) ss) (List.enumerate 0 pss))"

lemma page_fill_concat: "page_fill ss = 4 + length (concat (map (\<lambda>s. s @ [nul]) ss))"
  by (induction ss) (simp_all add: page_fill_def)

lemma pp_codes_append: "pp_codes (pss @ [ss]) = pp_codes pss @ sp_codes (length pss * PF_PAGE_SIZE + 4) ss"
  by (simp add: pp_codes_def enumerate_append_eq)

lemma sp_codes_add: "sp_codes (k + 4) (ss @ [s]) = sp_codes (k + 4) ss @ [(s, k + page_fill ss)]"
  by (simp add: sp_codes_append page_fill_concat)

lemma mk_pid_Suc_inject: "i < 16 \<Longrightarrow> k < PF_SLOTS \<Longrightarrow> j < PF_SLOTS \<Longrightarrow> mk_pid i (Suc k) = mk_pid i (Suc j) \<longleftrightarrow> k = j"
  using mk_pid_inject [of "Suc k" "Suc j" i] by (simp add: PID_LIMIT_def PF_SLOTS_def)

lemma pp_fetch_page:
  assumes rep: "pp_rep P pss" and k: "k < length pss" "pos div PF_PAGE_SIZE = k"
  obtains pg P' where "pp_fetch pos P = (Inr pg, P')" "pp_rep P' pss" "page_holds pg (pss ! k)"
proof -
  obtain pg where pg: "bp_view (pp_bpool P) (mk_pid (pp_file P) (Suc k)) = Some pg" "page_holds pg (pss ! k)" using rep k(1) by (auto simp: pp_rep_def)
  have ok: "pool_ok (pp_bpool P) (pp_file P)" using rep by (simp add: pp_rep_def)
  obtain p b' s where b: "bp_fetch_page (mk_pid (pp_file P) (Suc k)) (pp_bpool P) = (Inr p, b')" "pool_ok b' (pp_file P)" "bp_view b' = bp_view (pp_bpool P)"
    "bp_buffer b' ! p = pg" "bp_npages b' = bp_npages (pp_bpool P)" by (rule pool_fetch [OF ok pg(1)])
  have "pp_fetch pos P = (Inr pg, P\<lparr>pp_bpool := b'\<rparr>)" using b(1,4) k(2) by (simp add: pp_fetch_def sbind_def pp_lift_def)
  moreover have "pp_rep (P\<lparr>pp_bpool := b'\<rparr>) pss" using rep b(2,3,5) by (simp add: pp_rep_def pages_used_def)
  ultimately show ?thesis using that pg(2) by blast
qed

lemma pp_extract_code:
  assumes rep: "pp_rep P pss" and c: "(s, c) \<in> set (pp_codes pss)"
  obtains P' where "pp_extract c P = (Inr s, P')" "pp_rep P' pss"
proof -
  obtain k where k: "k < length pss" "(s, c) \<in> set (sp_codes (k * PF_PAGE_SIZE + 4) (pss ! k))"
    using c by (auto simp: pp_codes_def in_set_enumerate_eq)
  from sp_codes_split [OF k(2)] obtain us vs where u: "pss ! k = us @ s # vs" "c = k * PF_PAGE_SIZE + page_fill us" by (auto simp: page_fill_concat)
  obtain pg0 where "page_holds pg0 (us @ s # vs)" using rep k(1) u(1) by (fastforce simp: pp_rep_def)
  from page_holds_at(4) [OF this] have l: "page_fill us < PF_PAGE_SIZE" by simp
  then have d: "c div PF_PAGE_SIZE = k" "c mod PF_PAGE_SIZE = page_fill us" using u(2) by simp_all
  obtain pg P' where p: "pp_fetch c P = (Inr pg, P')" "pp_rep P' pss" "page_holds pg (pss ! k)" by (rule pp_fetch_page [OF rep k(1) d(1)])
  have "pp_extract c P = (Inr s, P')" using p(1,3) page_holds_str [of pg us s vs] by (simp add: pp_extract_def sbind_def d(2) u(1))
  with that p(2) show ?thesis by blast
qed

text \<open>The page that gets a string: the pages of the pool afterwards, given the page before.\<close>

lemma pp_put_run:
  assumes ok: "pool_ok (pp_bpool P) (pp_file P)" and p: "map_of (bp_ptable (pp_bpool P)) (mk_pid (pp_file P) pid) = Some sl" "bs_p sl = p"
    and pg: "bp_buffer (pp_bpool P) ! p = pg" "page_holds pg ss" and s: "nul \<notin> set s" "page_fill ss + length s + 1 \<le> PF_PAGE_SIZE"
    and l: "last_pos + length s + 1 < 2 ^ 32"
  obtains b pg' where "pp_put s p pid last_pos (page_fill ss) P = (Inr last_pos, P\<lparr>pp_bpool := b\<rparr>)" "pool_ok b (pp_file P)"
    "bp_view b = (bp_view (pp_bpool P))(mk_pid (pp_file P) pid \<mapsto> pg')" "bp_npages b = bp_npages (pp_bpool P)"
    "page_holds pg' (ss @ [s])" "get_u32 pg' = last_pos + length s + 1"
proof -
  let ?pg = "put_u32 (mod32 (last_pos + length s + 1)) ((copy_str (page_fill ss) s pg)(page_fill ss + length s := 0))"
  note w = pool_write [OF ok p(1), of ?pg, unfolded p(2)]
  have "pp_put s p pid last_pos (page_fill ss) P = (Inr last_pos, P\<lparr>pp_bpool := bp_mark_dirty (mk_pid (pp_file P) pid) (bp_poke p ?pg (pp_bpool P))\<rparr>)"
    using s(2) pg(1) by (simp add: pp_put_def Let_def)
  moreover have "page_holds ?pg (ss @ [s])" by (rule page_holds_put [OF pg(2) s])
  moreover have "get_u32 ?pg = last_pos + length s + 1" using l by (simp add: get_put_u32 mod32_small)
  ultimately show ?thesis using that w by blast
qed

lemma page_holds_zero: "page_holds zero_page []"
  by (simp add: page_holds_def zero_page_def PF_PAGE_SIZE_def)

text \<open>A pool whose last page has been written: the other pages are as before.\<close>

lemma pp_rep_last:
  assumes ok: "pool_ok b i" and n: "bp_npages b i = Some (Suc (length qs))" "Suc (length qs) < PF_SLOTS"
    and v: "bp_view b = (bp_view b0)(mk_pid i (Suc (length qs)) \<mapsto> pg)" "page_holds pg ss" "get_u32 pg = length qs * PF_PAGE_SIZE + page_fill ss"
    and old: "\<forall>k<length qs. \<exists>pg. bp_view b0 (mk_pid i (Suc k)) = Some pg \<and> page_holds pg (qs ! k)"
  shows "pp_rep \<lparr>pp_bpool = b, pp_file = i, pp_npages = Suc (length qs)\<rparr> (qs @ [ss])"
proof -
  have i: "i < 16" using ok by (simp add: pool_ok_def)
  have "\<exists>pg. bp_view b (mk_pid i (Suc k)) = Some pg \<and> page_holds pg ((qs @ [ss]) ! k) \<and>
      (k = length qs \<longrightarrow> get_u32 pg = k * PF_PAGE_SIZE + page_fill ss)" if "k < Suc (length qs)" for k
  proof (cases "k = length qs")
    case True
    then show ?thesis using v by simp
  next
    case False
    then have k: "k < length qs" using that by simp
    then have "mk_pid i (Suc k) \<noteq> mk_pid i (Suc (length qs))" using mk_pid_Suc_inject [OF i, of k "length qs"] n(2) by simp
    then show ?thesis using old k v(1) by (simp add: nth_append)
  qed
  then show ?thesis using ok n(1) by (fastforce simp: pp_rep_def pages_used_def)
qed

lemma pp_rep_pages: "pp_rep P pss \<Longrightarrow> k < length pss \<Longrightarrow> \<exists>pg. bp_view (pp_bpool P) (mk_pid (pp_file P) (Suc k)) = Some pg \<and> page_holds pg (pss ! k)"
  by (auto simp: pp_rep_def)

lemma pp_add_run:
  assumes rep: "pp_rep P (qs @ [ss])" and s: "length s + 5 \<le> PF_PAGE_SIZE"
  defines "i \<equiv> pp_file P" and "n \<equiv> Suc (length qs)" and "l \<equiv> length qs * PF_PAGE_SIZE + page_fill ss"
  obtains p b sl pg where "pool_ok b i" "bp_view b = bp_view (pp_bpool P)" "bp_buffer b ! p = pg" "page_holds pg ss" "map_of (bp_ptable b) (mk_pid i n) = Some sl"
    "bs_p sl = p" "pages_used b i n" "pp_npages P = n"
    "pp_add s P = (if PF_PAGE_SIZE \<le> page_fill ss + length s + 1
      then sbind pp_new_page (\<lambda>(q, new_pid). sbind (slift (\<lambda>P. Inr (pp_npages P))) (\<lambda>n. pp_put s q new_pid (mod32 ((n - 1) * PF_PAGE_SIZE + 4)) 4))
      else pp_put s p n l (page_fill ss)) (P\<lparr>pp_bpool := b\<rparr>)"
proof -
  have ok: "pool_ok (pp_bpool P) i" and u: "pages_used (pp_bpool P) i n" and np: "pp_npages P = n" using rep by (simp_all add: pp_rep_def i_def n_def)
  obtain pg where pg: "bp_view (pp_bpool P) (mk_pid i n) = Some pg" "page_holds pg ss" "get_u32 pg = 0 \<and> qs = [] \<and> ss = [] \<or> get_u32 pg = l"
    using rep unfolding pp_rep_def i_def n_def l_def by (auto dest: spec [of _ "length qs"])
  obtain p b sl where b: "bp_fetch_page (mk_pid i n) (pp_bpool P) = (Inr p, b)" "pool_ok b i" "bp_view b = bp_view (pp_bpool P)" "bp_buffer b ! p = pg"
    "map_of (bp_ptable b) (mk_pid i n) = Some sl" "bs_p sl = p" "bp_npages b = bp_npages (pp_bpool P)" by (rule pool_fetch [OF ok pg(1)])
  have last: "bp_last_valid_page i (pp_bpool P) = (Inr (p, n), b)" using pool_last [OF ok u] b(1) by (simp add: sbind_def sret_def)
  have fill: "page_fill ss \<le> PF_PAGE_SIZE" "4 \<le> page_fill ss" using pg(2) by (simp_all add: page_holds_def page_fill_def)
  have l: "(if get_u32 pg = 0 then 4 else get_u32 pg) = l" using pg(3) fill(2) by (auto simp: l_def)
  have pp: "sub64 l ((pp_npages P - 1) * PF_PAGE_SIZE) = page_fill ss" by (simp add: sub64_def np n_def l_def)
  have md: "(page_fill ss + length s + 1) mod 2 ^ 64 = page_fill ss + length s + 1" using fill(1) s by (intro mod_less) (simp add: PF_PAGE_SIZE_def)
  have "pages_used b i n" using u b(3,7) by (simp add: pages_used_def)
  then show ?thesis using that [OF b(2,3,4) pg(2) b(5,6) _ np] b(4) last l pp md
    by (simp add: pp_add_def i_def sbind_def pp_lift_def Let_def cong: if_cong)
qed

text \<open>The pages of the other files, which share the pool, stay as they are.\<close>

definition others_same :: "nat \<Rightarrow> bufferpool \<Rightarrow> bufferpool \<Rightarrow> bool" where
  "others_same i b b' \<longleftrightarrow> (\<forall>pid. file_of pid \<noteq> i \<longrightarrow> bp_view b' pid = bp_view b pid)"

lemma others_same_upd: "bp_view b' = (bp_view b)(mk_pid i k \<mapsto> pg) \<Longrightarrow> i < 16 \<Longrightarrow> k < PID_LIMIT \<Longrightarrow> others_same i b b'"
  using mk_pid_parts(2) [of k i] by (auto simp: others_same_def PID_LIMIT_def)

lemma others_same_trans: "others_same i a b \<Longrightarrow> others_same i b c \<Longrightarrow> others_same i a c"
  by (simp add: others_same_def)

lemma others_same_view: "bp_view b' = bp_view b \<Longrightarrow> others_same i a b \<Longrightarrow> others_same i a b'" "bp_view a' = bp_view a \<Longrightarrow> others_same i a b \<Longrightarrow> others_same i a' b"
  by (simp_all add: others_same_def)

text \<open>The string fits into the last page, or it goes to a new one.\<close>

lemma pp_add_fits:
  assumes rep: "pp_rep P (qs @ [ss])" and s: "nul \<notin> set s" "page_fill ss + length s + 1 < PF_PAGE_SIZE" and room: "Suc (length qs) * PF_PAGE_SIZE < 2 ^ 32"
  shows "\<exists>P'. pp_add s P = (Inr (length qs * PF_PAGE_SIZE + page_fill ss), P') \<and> pp_rep P' (qs @ [ss @ [s]]) \<and>
    pp_file P' = pp_file P \<and> others_same (pp_file P) (pp_bpool P) (pp_bpool P')"
proof -
  let ?i = "pp_file P" and ?n = "Suc (length qs)" and ?l = "length qs * PF_PAGE_SIZE + page_fill ss"
  have "length s + 5 \<le> PF_PAGE_SIZE" using s(2) by (simp add: page_fill_def)
  then obtain p b sl pg where b: "pool_ok b ?i" "bp_view b = bp_view (pp_bpool P)" "bp_buffer b ! p = pg" "page_holds pg ss"
    "map_of (bp_ptable b) (mk_pid ?i ?n) = Some sl" "bs_p sl = p" "pages_used b ?i ?n" "pp_npages P = ?n" "pp_add s P = pp_put s p ?n ?l (page_fill ss) (P\<lparr>pp_bpool := b\<rparr>)"
    using s(2) by (auto intro: pp_add_run [OF rep])
  have slots: "?n < PF_SLOTS" using room by (simp add: PF_SLOTS_def PF_PAGE_SIZE_def)
  obtain b2 pg' where w: "pp_put s p ?n ?l (page_fill ss) (P\<lparr>pp_bpool := b\<rparr>) = (Inr ?l, P\<lparr>pp_bpool := b2\<rparr>)" "pool_ok b2 ?i"
    "bp_view b2 = (bp_view b)(mk_pid ?i ?n \<mapsto> pg')" "bp_npages b2 = bp_npages b" "page_holds pg' (ss @ [s])" "get_u32 pg' = ?l + length s + 1"
    using pp_put_run [of "P\<lparr>pp_bpool := b\<rparr>" ?n sl p pg ss s ?l] b(1,3-6) s room by auto
  have "\<exists>pg. bp_view b (mk_pid ?i (Suc k)) = Some pg \<and> page_holds pg (qs ! k)" if "k < length qs" for k
    using pp_rep_pages [OF rep, of k] b(2) that by (simp add: nth_append)
  then have "pp_rep \<lparr>pp_bpool = b2, pp_file = ?i, pp_npages = ?n\<rparr> (qs @ [ss @ [s]])"
    using w(2-6) b(7) slots by (intro pp_rep_last [of b2 ?i qs b pg']) (auto simp: pages_used_def)
  moreover have "\<lparr>pp_bpool = b2, pp_file = ?i, pp_npages = ?n\<rparr> = P\<lparr>pp_bpool := b2\<rparr>" using b(8) by simp
  moreover have "others_same ?i b b2" using others_same_upd [OF w(3)] w(2) slots by (simp add: pool_ok_def PID_LIMIT_def PF_SLOTS_def)
  ultimately show ?thesis using b(2,9) w(1) by (auto simp: others_same_def)
qed

lemma pp_add_fresh:
  assumes rep: "pp_rep P (qs @ [ss])" and s: "nul \<notin> set s" "length s + 5 \<le> PF_PAGE_SIZE" "PF_PAGE_SIZE \<le> page_fill ss + length s + 1"
    and room: "Suc (Suc (length qs)) * PF_PAGE_SIZE < 2 ^ 32"
  shows "\<exists>P'. pp_add s P = (Inr (Suc (length qs) * PF_PAGE_SIZE + 4), P') \<and> pp_rep P' (qs @ [ss] @ [[s]]) \<and>
    pp_file P' = pp_file P \<and> others_same (pp_file P) (pp_bpool P) (pp_bpool P')"
proof -
  let ?i = "pp_file P" and ?n = "Suc (length qs)" and ?l = "Suc (length qs) * PF_PAGE_SIZE + 4"
  obtain p b where b: "pool_ok b ?i" "bp_view b = bp_view (pp_bpool P)" "pages_used b ?i ?n" "pp_npages P = ?n"
    "pp_add s P = sbind pp_new_page (\<lambda>(q, new_pid). sbind (slift (\<lambda>P. Inr (pp_npages P))) (\<lambda>n. pp_put s q new_pid (mod32 ((n - 1) * PF_PAGE_SIZE + 4)) 4)) (P\<lparr>pp_bpool := b\<rparr>)"
    using s(3) by (auto intro: pp_add_run [OF rep s(2)])
  have slots: "Suc ?n < PF_SLOTS" using room by (simp add: PF_SLOTS_def PF_PAGE_SIZE_def)
  obtain q b1 t where a: "bp_allocate_page ?i b = (Inr (q, Suc ?n), b1)" "pool_ok b1 ?i" "bp_view b1 = (bp_view b)(mk_pid ?i (Suc ?n) \<mapsto> zero_page)"
    "bp_buffer b1 ! q = zero_page" "map_of (bp_ptable b1) (mk_pid ?i (Suc ?n)) = Some t" "bs_p t = q" "bp_npages b1 ?i = Some (Suc ?n)"
    using slots by (auto intro: pool_alloc [OF b(1,3)])
  let ?P1 = "P\<lparr>pp_bpool := b1, pp_npages := Suc ?n\<rparr>"
  have lt: "?l + length s + 1 < 2 ^ 32" using s(2) room by simp
  have "mod32 ?l = ?l" using lt by (intro mod32_small) simp
  then have run: "pp_add s P = pp_put s q (Suc ?n) ?l 4 ?P1"
    using b(4,5) a(1) by (simp add: pp_new_page_def sbind_def pp_lift_def supd_def sret_def)
  obtain b2 pg' where w: "pp_put s q (Suc ?n) ?l 4 ?P1 = (Inr ?l, ?P1\<lparr>pp_bpool := b2\<rparr>)" "pool_ok b2 ?i"
    "bp_view b2 = (bp_view b1)(mk_pid ?i (Suc ?n) \<mapsto> pg')" "bp_npages b2 = bp_npages b1" "page_holds pg' [s]" "get_u32 pg' = ?l + length s + 1"
    using pp_put_run [of ?P1 "Suc ?n" t q zero_page "[]" s ?l] a(2,4-6) page_holds_zero s(1,2) lt by auto
  have fl: "page_fill [s] = 4 + length s + 1" using page_fill_simps(2) [of "[]" s] by simp
  have v: "bp_view b2 = (bp_view b)(mk_pid ?i (Suc ?n) \<mapsto> pg')" using w(3) a(3) by simp
  have "\<forall>k<?n. \<exists>pg. bp_view b (mk_pid ?i (Suc k)) = Some pg \<and> page_holds pg ((qs @ [ss]) ! k)" using pp_rep_pages [OF rep] b(2) by simp
  then have "pp_rep \<lparr>pp_bpool = b2, pp_file = ?i, pp_npages = Suc ?n\<rparr> ((qs @ [ss]) @ [[s]])"
    using pp_rep_last [of b2 ?i "qs @ [ss]" b pg' "[s]"] a(7) w(2,4-6) v slots fl by simp
  moreover have "\<lparr>pp_bpool = b2, pp_file = ?i, pp_npages = Suc ?n\<rparr> = ?P1\<lparr>pp_bpool := b2\<rparr>" by simp
  moreover have "others_same ?i b b2" using others_same_upd [OF v] w(2) slots by (simp add: pool_ok_def PID_LIMIT_def PF_SLOTS_def)
  ultimately show ?thesis using b(2) run w(1) by (auto simp: others_same_def)
qed

lemma pp_add_spec:
  assumes rep: "pp_rep P pss" and s: "nul \<notin> set s" "length s + 5 \<le> PF_PAGE_SIZE" and room: "(length pss + 1) * PF_PAGE_SIZE < 2 ^ 32"
  shows "\<exists>c P' pss'. pp_add s P = (Inr c, P') \<and> pp_rep P' pss' \<and> pp_codes pss' = pp_codes pss @ [(s, c)] \<and> length pss' \<le> length pss + 1 \<and>
    pp_file P' = pp_file P \<and> others_same (pp_file P) (pp_bpool P) (pp_bpool P')"
proof -
  have "pss \<noteq> []" using rep by (auto simp: pp_rep_def pages_used_def)
  then obtain qs ss where pss: "pss = qs @ [ss]" by (metis append_butlast_last_id)
  show ?thesis
  proof (cases "PF_PAGE_SIZE \<le> page_fill ss + length s + 1")
    case True
    have "pp_codes (pss @ [[s]]) = pp_codes pss @ [(s, length pss * PF_PAGE_SIZE + 4)]" by (simp add: pp_codes_append)
    then show ?thesis using pp_add_fresh [of P qs ss s] True rep s room unfolding pss
      by (intro exI [of _ "Suc (length qs) * PF_PAGE_SIZE + 4"]) fastforce
  next
    case False
    have "pp_codes (qs @ [ss @ [s]]) = pp_codes pss @ [(s, length qs * PF_PAGE_SIZE + page_fill ss)]" by (simp add: pss pp_codes_append sp_codes_add)
    then show ?thesis using pp_add_fits [of P qs ss s] False rep s(1) room unfolding pss
      by (intro exI [of _ "length qs * PF_PAGE_SIZE + page_fill ss"]) fastforce
  qed
qed

section \<open>Adding strings and reading them back\<close>

fun pp_add_all :: "string list \<Rightarrow> (paged_string_pool, dcode_t list) action" where
  "pp_add_all [] = sret []"
| "pp_add_all (s # ss) = sbind (pp_add s) (\<lambda>c. sbind (pp_add_all ss) (\<lambda>cs. sret (c # cs)))"

lemma pp_add_all_spec:
  assumes "pp_rep P pss" "\<forall>s\<in>set ss. nul \<notin> set s \<and> length s + 5 \<le> PF_PAGE_SIZE" "(length pss + length ss) * PF_PAGE_SIZE < 2 ^ 32"
  shows "\<exists>cs P' pss'. pp_add_all ss P = (Inr cs, P') \<and> length cs = length ss \<and> pp_rep P' pss' \<and> pp_codes pss' = pp_codes pss @ zip ss cs"
  using assms
proof (induction ss arbitrary: P pss)
  case Nil
  then show ?case by (auto simp: sret_def)
next
  case (Cons s ss)
  have "(length pss + 1) * PF_PAGE_SIZE \<le> (length pss + length (s # ss)) * PF_PAGE_SIZE" by simp
  with Cons.prems(3) have "(length pss + 1) * PF_PAGE_SIZE < 2 ^ 32" by (rule le_less_trans [rotated])
  with pp_add_spec [OF Cons.prems(1), of s] Cons.prems(2) obtain c P1 qss where
    a: "pp_add s P = (Inr c, P1)" "pp_rep P1 qss" "pp_codes qss = pp_codes pss @ [(s, c)]" "length qss \<le> length pss + 1" by auto
  have "(length qss + length ss) * PF_PAGE_SIZE \<le> (length pss + length (s # ss)) * PF_PAGE_SIZE" using a(4) by (intro mult_le_mono1) simp
  with Cons.prems(3) have "(length qss + length ss) * PF_PAGE_SIZE < 2 ^ 32" by (rule le_less_trans [rotated])
  with Cons.IH [OF a(2)] Cons.prems(2) obtain cs P' pss' where
    "pp_add_all ss P1 = (Inr cs, P')" "length cs = length ss" "pp_rep P' pss'" "pp_codes pss' = pp_codes qss @ zip ss cs" by auto
  then show ?case using a(1,3) by (auto simp: sbind_def sret_def)
qed

text \<open>
  C23. Strings added to the paged pool, one after the other, get codes under which all of them are read back, and the strings that were in the pool before
  are read under their old codes; this holds across page boundaries and whatever pages the buffer pool evicts on the way.
\<close>

theorem paged_pool_roundtrip:
  assumes "pp_rep P pss" "\<forall>s\<in>set ss. nul \<notin> set s \<and> length s + 5 \<le> PF_PAGE_SIZE" "(length pss + length ss) * PF_PAGE_SIZE < 2 ^ 32"
  shows "\<exists>cs P'. pp_add_all ss P = (Inr cs, P') \<and> length cs = length ss \<and> (\<forall>i<length ss. fst (pp_extract (cs ! i) P') = Inr (ss ! i)) \<and>
    (\<forall>s c. (s, c) \<in> set (pp_codes pss) \<longrightarrow> fst (pp_extract c P') = Inr s)"
proof -
  obtain cs P' pss' where r: "pp_add_all ss P = (Inr cs, P')" "length cs = length ss" "pp_rep P' pss'" "pp_codes pss' = pp_codes pss @ zip ss cs"
    using pp_add_all_spec [OF assms] by blast
  have ex: "fst (pp_extract c P') = Inr s" if "(s, c) \<in> set (pp_codes pss @ zip ss cs)" for s c
    by (rule pp_extract_code [OF r(3), unfolded r(4), OF that]) simp
  have "(ss ! i, cs ! i) \<in> set (zip ss cs)" if "i < length ss" for i using that r(2) by (auto simp: set_zip)
  then show ?thesis using r(1,2) ex by auto
qed

definition pp_demo :: paged_string_pool where
  "pp_demo = \<lparr>pp_bpool = bp_demo, pp_file = 0, pp_npages = 1\<rparr>"

lemma pp_demo_rep: "pp_rep pp_demo [[]]"
proof -
  have "pool_ok bp_demo 0" using bp_demo_ok(1) by (auto simp: pool_ok_def bp_unpinned_def bp_demo_def bp_new_def)
  moreover have "bp_npages bp_demo 0 = Some 1" by (simp add: bp_npages_def bp_demo_def)
  moreover have "get_u32 zero_page = 0" by (simp add: get_u32_def zero_page_def)
  ultimately show ?thesis using bp_demo_ok(2) page_holds_zero by (simp add: pp_rep_def pp_demo_def pages_used_def)
qed

theorem paged_pool_roundtrip_witness:
  "\<exists>cs P'. pp_add_all [''Person'', ''knows''] pp_demo = (Inr cs, P') \<and> fst (pp_extract (cs ! 0) P') = Inr ''Person'' \<and> fst (pp_extract (cs ! 1) P') = Inr ''knows''"
proof -
  have "\<exists>cs P'. pp_add_all [''Person'', ''knows''] pp_demo = (Inr cs, P') \<and> length cs = length [''Person'', ''knows''] \<and>
      (\<forall>i<length [''Person'', ''knows'']. fst (pp_extract (cs ! i) P') = Inr ([''Person'', ''knows''] ! i)) \<and>
      (\<forall>s c. (s, c) \<in> set (pp_codes [[]]) \<longrightarrow> fst (pp_extract c P') = Inr s)"
    by (rule paged_pool_roundtrip [OF pp_demo_rep]) (simp_all add: PF_PAGE_SIZE_def)
  then show ?thesis by (auto simp: less_Suc_eq)
qed

theorem scan_page_strings_witness:
  "\<exists>pg. page_holds pg [''a'', [], ''b''] \<and> scan_page 0 pg = Inr [(''a'', 4)]"
proof -
  define add where "add s ss pg = put_u32 0 ((copy_str (page_fill ss) s pg)(page_fill ss + length s := 0))" for s ss pg
  have a: "page_holds (add s ss pg) (ss @ [s])" if "page_holds pg ss" "nul \<notin> set s" "page_fill ss + length s + 1 \<le> PF_PAGE_SIZE" for pg ss s
    unfolding add_def by (rule page_holds_put [OF that])
  have 1: "page_holds (add ''a'' [] zero_page) [''a'']" using a [OF page_holds_zero, of "''a''"] by (simp add: PF_PAGE_SIZE_def)
  have 2: "page_holds (add [] [''a''] (add ''a'' [] zero_page)) [''a'', []]" using a [OF 1, of "[]"] by (simp add: page_fill_def PF_PAGE_SIZE_def)
  define pg where "pg = add ''b'' [''a'', []] (add [] [''a''] (add ''a'' [] zero_page))"
  have 3: "page_holds pg [''a'', [], ''b'']" using a [OF 2, of "''b''"] by (simp add: page_fill_def PF_PAGE_SIZE_def pg_def)
  from scan_page_strings [OF 3, of 0] have "scan_page 0 pg = Inr [(''a'', 4)]" by (simp add: PF_PAGE_SIZE_def)
  with 3 show ?thesis by blast
qed

text \<open>
  A string with a character beyond the ASCII range is never equal to what is in the pool, even if it is the same: the byte of the
  page is unsigned, the character of the string is signed.
\<close>

theorem equal_signed_char:
  assumes "c \<in> set s" "128 \<le> (of_char c :: nat)"
  shows "equal_bytes pg q s \<noteq> Inr True"
  using assms
proof (induction s arbitrary: q)
  case (Cons d s)
  have "sint (of_char c :: 8 word) < 0"
  proof -
    have u: "uint (of_char c :: 8 word) = int (of_char c)" using byte_char(1) [of c] by (metis uint_nat)
    have "(of_char c :: nat) < 256" by (metis of_char_mod_256 mod_less_divisor zero_less_numeral)
    moreover have "sint (of_char c :: 8 word) = (int (of_char c) + 128) mod 256 - 128"
      by (simp add: sint_uint u signed_take_bit_eq_take_bit_shift take_bit_eq_mod)
    moreover have "(k + 128) mod 256 = k - 128" if "128 \<le> k" "k < 256" for k :: int
      using that mod_add_self2 [of "k - 128" 256] mod_pos_pos_trivial [of "k - 128" 256] by (simp add: add.commute)
    ultimately show ?thesis using Cons.prems(2) by simp
  qed
  then have "uint (pg q) \<noteq> sint (of_char d :: 8 word)" if "c = d" using that uint_ge_0 [of "pg q"] by (metis leD)
  then show ?case using Cons by auto
qed simp

theorem equal_signed_char_witness: "equal_bytes (copy_str 4 [CHR 0xE9] zero_page) 4 [CHR 0xE9] \<noteq> Inr True"
  by (rule equal_signed_char [of "CHR 0xE9"]) simp_all

section \<open>The dictionary\<close>

lemma pp_code_bound:
  assumes rep: "pp_rep P pss" and c: "(s, c) \<in> set (pp_codes pss)"
  shows "0 < c" "c < length pss * PF_PAGE_SIZE"
proof -
  obtain k where k: "k < length pss" "(s, c) \<in> set (sp_codes (k * PF_PAGE_SIZE + 4) (pss ! k))" using c by (auto simp: pp_codes_def in_set_enumerate_eq)
  from sp_codes_split [OF k(2)] obtain us vs where u: "pss ! k = us @ s # vs" "c = k * PF_PAGE_SIZE + page_fill us" by (auto simp: page_fill_concat)
  obtain pg where "page_holds pg (us @ s # vs)" using pp_rep_pages [OF rep k(1)] u(1) by auto
  from page_holds_at(4) [OF this] have "c < Suc k * PF_PAGE_SIZE" using u(2) by simp
  also have "\<dots> \<le> length pss * PF_PAGE_SIZE" using k(1) by (intro mult_le_mono1) simp
  finally show "c < length pss * PF_PAGE_SIZE" .
  show "0 < c" using u(2) by (simp add: page_fill_def)
qed

text \<open>
  A string that is new to the dictionary on the paged pool gets a code; afterwards the string leads to the code and the code to the string, and the
  codes given out before still lead to their strings.
\<close>

theorem pd_insert_read:
  assumes "pp_rep (pd_pool D) pss" "map_of (pd_table D) (h s) = None" "nul \<notin> set s" "length s + 5 \<le> PF_PAGE_SIZE" "(length pss + 1) * PF_PAGE_SIZE < 2 ^ 32"
  shows "\<exists>c D'. pd_insert h s D = (Inr c, D') \<and> pd_lookup_string h s D' = c \<and> fst (pd_lookup_code c D') = Inr s \<and>
    (\<forall>t e. (t, e) \<in> set (pp_codes pss) \<longrightarrow> fst (pd_lookup_code e D') = Inr t)"
proof -
  obtain c P' pss' where a: "pp_add s (pd_pool D) = (Inr c, P')" "pp_rep P' pss'" "pp_codes pss' = pp_codes pss @ [(s, c)]" "length pss' \<le> length pss + 1"
    using pp_add_spec [OF assms(1,3-5)] by blast
  let ?D = "D\<lparr>pd_pool := P', pd_table := ct_insert h s c (pd_table D)\<rparr>"
  have ex: "fst (pd_lookup_code e ?D) = Inr t" if "(t, e) \<in> set (pp_codes pss')" for t e
    by (rule pp_extract_code [OF a(2) that]) (simp add: pd_lookup_code_def)
  have "length pss' * PF_PAGE_SIZE \<le> (length pss + 1) * PF_PAGE_SIZE" using a(4) by (intro mult_le_mono1)
  moreover have "(length pss + 1) * PF_PAGE_SIZE \<le> 2 ^ 32 - 2" using assms(5) by (simp add: PF_PAGE_SIZE_def)
  moreover have "c < length pss' * PF_PAGE_SIZE" using pp_code_bound(2) [OF a(2), of s c] a(3) by simp
  ultimately have c: "c \<noteq> UNKNOWN_CODE" by (simp add: UNKNOWN_CODE_def)
  have "pd_insert h s D = (Inr c, ?D)" using a(1) assms(2) by (simp add: pd_insert_def ct_find_def)
  moreover have "pd_lookup_string h s ?D = c" using c assms(2) by (simp add: pd_lookup_string_def ct_find_def ct_insert_def ct_get_def map_add_def)
  ultimately show ?thesis using ex a(3) by (intro exI [of _ c] exI [of _ ?D]) simp
qed

theorem pd_insert_read_witness:
  "\<exists>c D'. pd_insert length ''Person'' \<lparr>pd_pool = pp_demo, pd_table = []\<rparr> = (Inr c, D') \<and> pd_lookup_string length ''Person'' D' = c \<and>
    fst (pd_lookup_code c D') = Inr ''Person''"
  using pd_insert_read [of "\<lparr>pd_pool = pp_demo, pd_table = []\<rparr>" "[[]]" length "''Person''"] pp_demo_rep by (auto simp: PF_PAGE_SIZE_def)

end
