(* ===== verification/Recovery.thy ===== *)
theory Recovery
  imports Walog Paged_Pool "HOL-Library.Countable"
begin

text \<open>
  Recovery of the paged-file configuration from the write-ahead log, the part of \<^verbatim>\<open>src/src/storage/graph_db_recovery.cpp\<close> under
  \<open>USE_PFILES\<close>: \<open>apply_redo\<close> changes the tables of nodes and relationships and the dictionary, \<open>apply_log\<close> reads the log, redoes the records that
  \<open>Walog.redo_entries\<close> selects, flushes the buffer pool and writes a checkpoint.

  The tables and the dictionary share one buffer pool. A vector and a string pool of the model hold their pool themselves, so an operation on
  one of them runs on it with the common pool put in, and the pool it leaves is the common one afterwards. A slot of a table is an element: the
  list of versions behind its pointer is not in the page.
\<close>

section \<open>The database on its files\<close>

record paged_db =
  pg_pool :: bufferpool
  pg_nodes :: bvec
  pg_rships :: bvec
  pg_dict :: paged_dict

definition nodes_vec :: "paged_db \<Rightarrow> bvec" where
  "nodes_vec d = (pg_nodes d)\<lparr>bv_pool := pg_pool d\<rparr>"

definition rships_vec :: "paged_db \<Rightarrow> bvec" where
  "rships_vec d = (pg_rships d)\<lparr>bv_pool := pg_pool d\<rparr>"

definition dict_of :: "paged_db \<Rightarrow> paged_dict" where
  "dict_of d = (pg_dict d)\<lparr>pd_pool := (pd_pool (pg_dict d))\<lparr>pp_bpool := pg_pool d\<rparr>\<rparr>"

definition on_nodes :: "(bvec, 'b) action \<Rightarrow> (paged_db, 'b) action" where
  "on_nodes m d = (case m (nodes_vec d) of (r, v) \<Rightarrow> (r, d\<lparr>pg_nodes := v, pg_pool := bv_pool v\<rparr>))"

definition on_rships :: "(bvec, 'b) action \<Rightarrow> (paged_db, 'b) action" where
  "on_rships m d = (case m (rships_vec d) of (r, v) \<Rightarrow> (r, d\<lparr>pg_rships := v, pg_pool := bv_pool v\<rparr>))"

definition on_dict :: "(paged_dict, 'b) action \<Rightarrow> (paged_db, 'b) action" where
  "on_dict m d = (case m (dict_of d) of (r, D) \<Rightarrow> (r, d\<lparr>pg_dict := D, pg_pool := pp_bpool (pd_pool D)\<rparr>))"

text \<open>\<open>remove\<close> of the node and the relationship list.\<close>

definition tab_remove :: "'a layout \<Rightarrow> nat \<Rightarrow> (bvec, unit) action" where
  "tab_remove lay i =
     sbind (slift (\<lambda>v. Inr (bv_capacity v))) (\<lambda>c. if c \<le> i then sthrow Unknown_id else bv_erase lay i)"

section \<open>Redo\<close>

text \<open>The records that redo puts into the tables; \<open>r0\<close> stands for the members of \<open>relationship r\<close> that are never initialised.\<close>

definition redone_node :: "offset_t \<Rightarrow> node_image \<Rightarrow> node_body elem" where
  "redone_node oid im = elem_new ((node_body_new (ni_label im))\<lparr>nd_id := oid, nd_from_rships := ni_from_rships im,
     nd_to_rships := ni_to_rships im, nd_property_list := ni_property_list im\<rparr>)"

definition redone_rship :: "rship_body \<Rightarrow> rship_image \<Rightarrow> rship_body elem" where
  "redone_rship r0 im = elem_new (r0\<lparr>rs_label := ri_label im, rs_src_node := ri_src_node im, rs_dest_node := ri_dest_node im,
     rs_next_src := ri_next_src im, rs_next_dest := ri_next_dest im\<rparr>)"

text \<open>The page of a node may be missing: the handler prints two properties of the table and tries the same again.\<close>

definition redo_node :: "node_body elem layout \<Rightarrow> offset_t \<Rightarrow> node_image \<Rightarrow> (paged_db, unit) action" where
  "redo_node ln oid im d =
     (case on_nodes (bv_store_at ln oid (redone_node oid im)) d of (r, d1) \<Rightarrow>
        if r = Inl Index_out_of_range then
          sbind (on_nodes (bv_last_used ln)) (\<lambda>_.
          sbind (on_nodes (bv_is_used ln oid)) (\<lambda>_.
          on_nodes (bv_store_at ln oid (redone_node oid im)))) d1
        else (r, d1))"

fun apply_redo :: "hash \<Rightarrow> node_body elem layout \<Rightarrow> rship_body elem layout \<Rightarrow> rship_body \<Rightarrow> log_body \<Rightarrow> (paged_db, unit) action" where
  "apply_redo h ln lr r0 (Tx_record cmd) = sret ()"
| "apply_redo h ln lr r0 (Node_record ty oid before after) =
     (if ty = Log_delete then on_nodes (tab_remove ln oid)
      else case after of None \<Rightarrow> sthrow Undefined_behaviour | Some im \<Rightarrow> redo_node ln oid im)"
| "apply_redo h ln lr r0 (Rship_record ty oid before after) =
     (if ty = Log_delete then on_rships (tab_remove lr oid)
      else case after of None \<Rightarrow> sthrow Undefined_behaviour | Some im \<Rightarrow> on_rships (bv_store_at lr oid (redone_rship r0 im)))"
| "apply_redo h ln lr r0 (Dict_record code s) = sbind (on_dict (pd_insert h s)) (\<lambda>_. sret ())"
| "apply_redo h ln lr r0 Chkpt_record = sret ()"

primrec redo_all :: "hash \<Rightarrow> node_body elem layout \<Rightarrow> rship_body elem layout \<Rightarrow> rship_body \<Rightarrow> (nat \<times> log_record) list \<Rightarrow> (paged_db, unit) action" where
  "redo_all h ln lr r0 [] = sret ()"
| "redo_all h ln lr r0 (e # es) = sbind (apply_redo h ln lr r0 (lr_body (snd e))) (\<lambda>_. redo_all h ln lr r0 es)"

definition db_flush :: "paged_db \<Rightarrow> paged_db result" where
  "db_flush d = rbind (bp_flush_all (pg_pool d)) (\<lambda>b. Inr (d\<lparr>pg_pool := b\<rparr>))"

definition apply_undo :: "xid_t \<Rightarrow> nat \<Rightarrow> (paged_db, unit) action" where
  "apply_undo txid pos = sret ()"

text \<open>The transactions without a commit record, with the position of their last record, in the order of the map.\<close>

definition loser_list :: "(nat \<times> log_record) list \<Rightarrow> (xid_t \<times> nat) list" where
  "loser_list es = List.map_filter (\<lambda>t. map_option (Pair t) (fst (analyze es) t)) (sort (remdups (map (\<lambda>e. lr_tx (snd e)) es)))"

primrec undo_all :: "(xid_t \<times> nat) list \<Rightarrow> (paged_db, unit) action" where
  "undo_all [] = sret ()"
| "undo_all (l # ls) = sbind (apply_undo (fst l) (snd l)) (\<lambda>_. undo_all ls)"

text \<open>The log is read twice, for the analysis and for the redo; it does not change in between. The log object is closed on every way out.\<close>

definition recover_log :: "hash \<Rightarrow> node_body elem layout \<Rightarrow> rship_body elem layout \<Rightarrow> rship_body \<Rightarrow> (paged_db \<times> wa_log, unit) action" where
  "recover_log h ln lr r0 = (\<lambda>(d, w).
     case log_entries w of
       Inl e \<Rightarrow> (Inl e, (d, w))
     | Inr (es, w1) \<Rightarrow>
         let rs = redo_entries es in
         case redo_all h ln lr r0 rs d of
           (Inl e, d1) \<Rightarrow> (Inl e, (d1, w1))
         | (Inr _, d1) \<Rightarrow>
             (case (if rs = [] then (Inr (), (d1, w1))
                    else case db_flush d1 of
                      Inl e \<Rightarrow> (Inl e, (d1, w1))
                    | Inr d2 \<Rightarrow> (case wal_checkpoint w1 of Inl e \<Rightarrow> (Inl e, (d2, w1)) | Inr w2 \<Rightarrow> (Inr (), (d2, w2)))) of
                (Inl e, dw) \<Rightarrow> (Inl e, dw)
              | (Inr _, (d2, w2)) \<Rightarrow> (case undo_all (loser_list es) d2 of (r, d3) \<Rightarrow> (r, (d3, w2)))))"

definition apply_log :: "hash \<Rightarrow> node_body elem layout \<Rightarrow> rship_body elem layout \<Rightarrow> rship_body \<Rightarrow> (paged_db \<times> wal_file option, unit) action" where
  "apply_log h ln lr r0 = (\<lambda>(d, fo).
     case recover_log h ln lr r0 (d, wal_open fo) of (r, (d', w)) \<Rightarrow> (r, (d', Some (wl_file (wal_close False w)))))"

section \<open>Tables that share the pool\<close>

text \<open>What a table keeps when only its records change: its pages stay in the file.\<close>

definition kept_table :: "bvec \<Rightarrow> bvec \<Rightarrow> bool" where
  "kept_table v v' \<longleftrightarrow> bv_file v' = bv_file v \<and> bv_epc v' = bv_epc v \<and> bv_capacity v' = bv_capacity v \<and> (\<forall>i. bv_has_page v i \<longrightarrow> bv_has_page v' i)"

lemma kept_table_trans: "kept_table u v \<Longrightarrow> kept_table v w \<Longrightarrow> kept_table u w"
  by (simp add: kept_table_def)

lemma bv_inv_pool: "bv_inv lay v \<longleftrightarrow> pool_ok (bv_pool v) (bv_file v) \<and> 0 < bv_epc v \<and>
    (\<forall>k pg. k < PID_LIMIT \<longrightarrow> bp_view (bv_pool v) (bv_pid v k) = Some pg \<longrightarrow> chunk_inv (bv_epc v) (snd lay pg))"
  by (auto simp: bv_inv_def pool_ok_def)

lemma others_pid: "others_same i b b' \<Longrightarrow> f \<noteq> i \<Longrightarrow> f < 16 \<Longrightarrow> k < PID_LIMIT \<Longrightarrow> bp_view b' (mk_pid f k) = bp_view b (mk_pid f k)"
  using mk_pid_parts(2) [of k f] by (simp add: others_same_def PID_LIMIT_def)

lemma table_other_file:
  assumes o: "others_same i (bv_pool v) b'" and f: "bv_file v \<noteq> i" and inv: "bv_inv lay v" and ok: "pool_ok b' i"
  shows "bv_inv lay (v\<lparr>bv_pool := b'\<rparr>)" "bv_view lay (v\<lparr>bv_pool := b'\<rparr>) = bv_view lay v" "kept_table v (v\<lparr>bv_pool := b'\<rparr>)"
proof -
  have n: "bv_file v < 16" using inv by (simp add: bv_inv_def)
  have e: "bp_view b' (mk_pid (bv_file v) k) = bp_view (bv_pool v) (mk_pid (bv_file v) k)" if "k < PID_LIMIT" for k by (rule others_pid [OF o f n that])
  have "pool_ok b' (bv_file v)" using ok n by (simp add: pool_ok_def)
  then show "bv_inv lay (v\<lparr>bv_pool := b'\<rparr>)" using inv e by (simp add: bv_inv_pool bv_pid_def)
  show "bv_view lay (v\<lparr>bv_pool := b'\<rparr>) = bv_view lay v" using e by (simp add: bv_view_def bv_pid_def fun_eq_iff split: option.split)
  show "kept_table v (v\<lparr>bv_pool := b'\<rparr>)" using e by (simp add: kept_table_def bv_has_page_def bv_pid_def)
qed

lemma pages_other_file:
  assumes o: "others_same i (pp_bpool P) b'" and f: "pp_file P \<noteq> i" and rep: "pp_rep P pss" and ok: "pool_ok b' i" and n: "bp_npages b' = bp_npages (pp_bpool P)"
  shows "pp_rep (P\<lparr>pp_bpool := b'\<rparr>) pss"
proof -
  have p: "pool_ok (pp_bpool P) (pp_file P)" "pages_used (pp_bpool P) (pp_file P) (length pss)" using rep by (auto simp: pp_rep_def)
  have "length pss < PF_SLOTS" using pages_used_file [OF p] by blast
  then have "bp_view b' (mk_pid (pp_file P) (Suc k)) = bp_view (pp_bpool P) (mk_pid (pp_file P) (Suc k))" if "k < length pss" for k
    using others_pid [OF o f, of "Suc k"] that p(1) by (simp add: pool_ok_def PID_LIMIT_def PF_SLOTS_def)
  then show ?thesis using rep ok n unfolding pp_rep_def pages_used_def pool_ok_def by auto
qed

lemma page_upd_others: "bp_view b' = (bp_view b)(bv_pid v k \<mapsto> pg) \<Longrightarrow> bv_file v < 16 \<Longrightarrow> k < PID_LIMIT \<Longrightarrow> others_same (bv_file v) b b'"
  using others_same_upd by (simp add: bv_pid_def)

lemma kept_table_upd:
  assumes "bv_file v' = bv_file v" "bv_epc v' = bv_epc v" "bv_capacity v' = bv_capacity v" "bp_view (bv_pool v') = (bp_view (bv_pool v))(pid \<mapsto> pg)"
  shows "kept_table v v'"
  using assms by (simp add: kept_table_def bv_has_page_def bv_pid_def)

lemma bv_change_npages:
  "bv_store_at lay i x v = (r, v') \<Longrightarrow> bp_npages (bv_pool v') = bp_npages (bv_pool v)"
  "bv_erase lay i v = (r, v') \<Longrightarrow> bp_npages (bv_pool v') = bp_npages (bv_pool v)"
proof -
  have poke: "bp_npages (bp_poke p pg b) = bp_npages b" for p pg b by (rule bp_npages_file) (simp add: bp_poke_def)
  show "bv_store_at lay i x v = (r, v') \<Longrightarrow> bp_npages (bv_pool v') = bp_npages (bv_pool v)"
    by (auto simp: bv_store_at_def bv_find_chunk_def sbind_def Let_def bv_set_chunk_def supd_def bv_remove_from_free_list_def bv_set_free_def poke
        dest!: bv_fetch_npages split: prod.splits sum.splits if_splits)
  show "bv_erase lay i v = (r, v') \<Longrightarrow> bp_npages (bv_pool v') = bp_npages (bv_pool v)"
    by (auto simp: bv_erase_def bv_find_chunk_def sbind_def Let_def bv_set_chunk_def supd_def bv_add_to_free_list_def bv_set_free_def poke
        dest!: bv_fetch_npages split: prod.splits sum.splits if_splits)
qed

text \<open>Storing and removing a record of a table: the table keeps its pages, and the pages of other files stay as they are.\<close>

lemma tab_store_run:
  assumes inv: "bv_inv lay v" and lay: "layout_ok lay (bv_epc v)" and h: "bv_has_page v i"
  obtains v' where "bv_store_at lay i x v = (Inr (), v')" "bv_inv lay v'" "bv_view lay v' = (bv_view lay v)(i \<mapsto> x)" "kept_table v v'"
    "others_same (bv_file v) (bv_pool v) (bv_pool v')" "bp_npages (bv_pool v') = bp_npages (bv_pool v)"
proof -
  obtain v' pg where s: "bv_store_at lay i x v = (Inr (), v')" "bv_inv lay v'" "bv_view lay v' = (bv_view lay v)(i \<mapsto> x)" "bv_epc v' = bv_epc v"
    "bv_file v' = bv_file v" "bv_capacity v' = bv_capacity v" "bp_view (bv_pool v') = (bp_view (bv_pool v))(bv_pid v (page_no (bv_epc v) i) \<mapsto> pg)"
    using bv_store_at_spec [OF assms, of x] by blast
  have "others_same (bv_file v) (bv_pool v) (bv_pool v')" using page_upd_others [OF s(7)] inv h by (simp add: bv_inv_def bv_has_page_def)
  with s that kept_table_upd [OF s(5,4,6,7)] bv_change_npages(1) [OF s(1)] show ?thesis by blast
qed

lemma tab_remove_run:
  assumes inv: "bv_inv lay v" and lay: "layout_ok lay (bv_epc v)" and h: "bv_has_page v i" and c: "i < bv_capacity v"
  obtains v' where "tab_remove lay i v = (Inr (), v')" "bv_inv lay v'" "bv_view lay v' = (bv_view lay v)(i := None)" "kept_table v v'"
    "others_same (bv_file v) (bv_pool v) (bv_pool v')" "bp_npages (bv_pool v') = bp_npages (bv_pool v)"
proof -
  obtain v' pg where s: "bv_erase lay i v = (Inr (), v')" "bv_inv lay v'" "bv_view lay v' = (bv_view lay v)(i := None)" "bv_epc v' = bv_epc v"
    "bv_file v' = bv_file v" "bv_capacity v' = bv_capacity v" "bp_view (bv_pool v') = (bp_view (bv_pool v))(bv_pid v (page_no (bv_epc v) i) \<mapsto> pg)"
    using bv_erase_spec [OF inv lay h] by blast
  have "tab_remove lay i v = (Inr (), v')" using s(1) c by (simp add: tab_remove_def sbind_def slift_def)
  moreover have "others_same (bv_file v) (bv_pool v) (bv_pool v')" using page_upd_others [OF s(7)] inv h by (simp add: bv_inv_def bv_has_page_def)
  ultimately show ?thesis using s that kept_table_upd [OF s(5,4,6,7)] bv_change_npages(2) [OF s(1)] by blast
qed

section \<open>One table of the database beside the other\<close>

text \<open>The pages of the two tables and of the dictionary are in three files of the pool.\<close>

definition tables_ok :: "'a layout \<Rightarrow> bvec \<Rightarrow> 'b layout \<Rightarrow> bvec \<Rightarrow> paged_string_pool \<Rightarrow> string list list \<Rightarrow> bool" where
  "tables_ok la v lb u P pss \<longleftrightarrow> bv_inv la v \<and> layout_ok la (bv_epc v) \<and> bv_inv lb u \<and> layout_ok lb (bv_epc u) \<and> pp_rep P pss \<and>
     bv_file v \<noteq> bv_file u \<and> bv_file v \<noteq> pp_file P \<and> bv_file u \<noteq> pp_file P"

lemma tables_ok_change:
  assumes ok: "tables_ok la v lb u P pss" and v': "bv_inv la v'" "kept_table v v'" and o: "others_same (bv_file v) (bv_pool v) (bv_pool v')"
    "bp_npages (bv_pool v') = bp_npages (bv_pool v)" and p: "bv_pool u = bv_pool v" "pp_bpool P = bv_pool v"
  shows "tables_ok la v' lb (u\<lparr>bv_pool := bv_pool v'\<rparr>) (P\<lparr>pp_bpool := bv_pool v'\<rparr>) pss"
    "bv_view lb (u\<lparr>bv_pool := bv_pool v'\<rparr>) = bv_view lb u" "kept_table u (u\<lparr>bv_pool := bv_pool v'\<rparr>)"
proof -
  have pk: "pool_ok (bv_pool v') (bv_file v)" using v' by (auto simp: bv_inv_pool kept_table_def)
  note t = table_other_file [of "bv_file v" u "bv_pool v'" lb] and q = pages_other_file [of "bv_file v" P "bv_pool v'" pss]
  show "bv_view lb (u\<lparr>bv_pool := bv_pool v'\<rparr>) = bv_view lb u" "kept_table u (u\<lparr>bv_pool := bv_pool v'\<rparr>)"
    using t(2,3) ok o p pk by (auto simp: tables_ok_def)
  show "tables_ok la v' lb (u\<lparr>bv_pool := bv_pool v'\<rparr>) (P\<lparr>pp_bpool := bv_pool v'\<rparr>) pss"
    using t(1) q ok o p pk v' by (auto simp: tables_ok_def kept_table_def)
qed

text \<open>
  A table of the database: \<open>vec\<close> is its vector on the common pool, \<open>oth\<close> the vector of the other table, \<open>act\<close> runs an operation of the vector on
  the database.
\<close>

locale db_table =
  fixes vec :: "paged_db \<Rightarrow> bvec"
    and oth :: "paged_db \<Rightarrow> bvec"
    and put :: "bvec \<Rightarrow> paged_db \<Rightarrow> paged_db"
    and act :: "(bvec, unit) action \<Rightarrow> (paged_db, unit) action"
  assumes act_law: "act m d = (case m (vec d) of (r, v) \<Rightarrow> (r, put v d))"
    and vec_put: "vec (put v d) = v"
    and oth_put: "oth (put v d) = (oth d)\<lparr>bv_pool := bv_pool v\<rparr>"
    and dict_put: "dict_of (put v d) = (dict_of d)\<lparr>pd_pool := (pd_pool (dict_of d))\<lparr>pp_bpool := bv_pool v\<rparr>\<rparr>"
    and pool_vec: "bv_pool (oth d) = bv_pool (vec d)" "pp_bpool (pd_pool (dict_of d)) = bv_pool (vec d)"
begin

lemma act_change:
  assumes ok: "tables_ok la (vec d) lb (oth d) (pd_pool (dict_of d)) pss"
    and m: "m (vec d) = (Inr (), v')" "bv_inv la v'" "kept_table (vec d) v'" "others_same (bv_file (vec d)) (bv_pool (vec d)) (bv_pool v')"
      "bp_npages (bv_pool v') = bp_npages (bv_pool (vec d))"
  shows "\<exists>d'. act m d = (Inr (), d') \<and> vec d' = v' \<and> tables_ok la (vec d') lb (oth d') (pd_pool (dict_of d')) pss \<and>
    bv_view lb (oth d') = bv_view lb (oth d) \<and> kept_table (vec d) (vec d') \<and> kept_table (oth d) (oth d')"
proof -
  have "act m d = (Inr (), put v' d)" using m(1) by (simp add: act_law)
  moreover note tables_ok_change [OF ok m(2-5) pool_vec]
  ultimately show ?thesis using m(3) by (intro exI [of _ "put v' d"]) (simp add: vec_put oth_put dict_put)
qed

lemma act_store:
  assumes ok: "tables_ok la (vec d) lb (oth d) (pd_pool (dict_of d)) pss" and h: "bv_has_page (vec d) i"
  shows "\<exists>d'. act (bv_store_at la i x) d = (Inr (), d') \<and> bv_view la (vec d') = (bv_view la (vec d))(i \<mapsto> x) \<and>
    tables_ok la (vec d') lb (oth d') (pd_pool (dict_of d')) pss \<and> bv_view lb (oth d') = bv_view lb (oth d) \<and>
    kept_table (vec d) (vec d') \<and> kept_table (oth d) (oth d')"
proof -
  from ok have "bv_inv la (vec d)" "layout_ok la (bv_epc (vec d))" by (auto simp: tables_ok_def)
  then obtain v' where v': "bv_store_at la i x (vec d) = (Inr (), v')" "bv_inv la v'" "bv_view la v' = (bv_view la (vec d))(i \<mapsto> x)" "kept_table (vec d) v'"
    "others_same (bv_file (vec d)) (bv_pool (vec d)) (bv_pool v')" "bp_npages (bv_pool v') = bp_npages (bv_pool (vec d))"
    using h by (rule tab_store_run)
  from act_change [where m = "bv_store_at la i x", OF ok v'(1,2,4-6)] v'(3) show ?thesis by metis
qed

lemma act_remove:
  assumes ok: "tables_ok la (vec d) lb (oth d) (pd_pool (dict_of d)) pss" and h: "bv_has_page (vec d) i" "i < bv_capacity (vec d)"
  shows "\<exists>d'. act (tab_remove la i) d = (Inr (), d') \<and> bv_view la (vec d') = (bv_view la (vec d))(i := None) \<and>
    tables_ok la (vec d') lb (oth d') (pd_pool (dict_of d')) pss \<and> bv_view lb (oth d') = bv_view lb (oth d) \<and>
    kept_table (vec d) (vec d') \<and> kept_table (oth d) (oth d')"
proof -
  from ok have "bv_inv la (vec d)" "layout_ok la (bv_epc (vec d))" by (auto simp: tables_ok_def)
  then obtain v' where v': "tab_remove la i (vec d) = (Inr (), v')" "bv_inv la v'" "bv_view la v' = (bv_view la (vec d))(i := None)" "kept_table (vec d) v'"
    "others_same (bv_file (vec d)) (bv_pool (vec d)) (bv_pool v')" "bp_npages (bv_pool v') = bp_npages (bv_pool (vec d))"
    using h by (rule tab_remove_run)
  from act_change [where m = "tab_remove la i", OF ok v'(1,2,4-6)] v'(3) show ?thesis by metis
qed

end

interpretation nt: db_table nodes_vec rships_vec "\<lambda>v d. d\<lparr>pg_nodes := v, pg_pool := bv_pool v\<rparr>" on_nodes
  by unfold_locales (simp_all add: on_nodes_def nodes_vec_def rships_vec_def dict_of_def)

interpretation rt: db_table rships_vec nodes_vec "\<lambda>v d. d\<lparr>pg_rships := v, pg_pool := bv_pool v\<rparr>" on_rships
  by unfold_locales (simp_all add: on_rships_def nodes_vec_def rships_vec_def dict_of_def)

section \<open>What redo does to the tables\<close>

definition store_ok :: "node_body elem layout \<Rightarrow> rship_body elem layout \<Rightarrow> paged_db \<Rightarrow> string list list \<Rightarrow> bool" where
  "store_ok ln lr d pss \<longleftrightarrow> tables_ok ln (nodes_vec d) lr (rships_vec d) (pd_pool (dict_of d)) pss"

lemma store_ok_swap: "store_ok ln lr d pss \<longleftrightarrow> tables_ok lr (rships_vec d) ln (nodes_vec d) (pd_pool (dict_of d)) pss"
  by (auto simp: store_ok_def tables_ok_def)

text \<open>A record can be redone: its page is in the file, and it has what it needs.\<close>

fun redo_ok :: "paged_db \<Rightarrow> log_body \<Rightarrow> bool" where
  "redo_ok d (Node_record ty i before after) \<longleftrightarrow> bv_has_page (nodes_vec d) i \<and> (if ty = Log_delete then i < bv_capacity (nodes_vec d) else after \<noteq> None)"
| "redo_ok d (Rship_record ty i before after) \<longleftrightarrow> bv_has_page (rships_vec d) i \<and> (if ty = Log_delete then i < bv_capacity (rships_vec d) else after \<noteq> None)"
| "redo_ok d (Dict_record code s) \<longleftrightarrow> nul \<notin> set s \<and> length s + 5 \<le> PF_PAGE_SIZE"
| "redo_ok d b \<longleftrightarrow> True"

text \<open>The position of a table that a record writes, and what it writes there.\<close>

fun node_write :: "log_body \<Rightarrow> (nat \<times> node_body elem option) option" where
  "node_write (Node_record ty i before after) = Some (i, if ty = Log_delete then None else map_option (redone_node i) after)"
| "node_write _ = None"

fun rship_write :: "rship_body \<Rightarrow> log_body \<Rightarrow> (nat \<times> rship_body elem option) option" where
  "rship_write r0 (Rship_record ty i before after) = Some (i, if ty = Log_delete then None else map_option (redone_rship r0) after)"
| "rship_write r0 _ = None"

definition write_to :: "(nat \<times> 'a option) option \<Rightarrow> (nat \<Rightarrow> 'a option) \<Rightarrow> nat \<Rightarrow> 'a option" where
  "write_to w m = (case w of None \<Rightarrow> m | Some (i, x) \<Rightarrow> m(i := x))"

lemma kept_tables_redo_ok:
  "kept_table (nodes_vec d) (nodes_vec d') \<Longrightarrow> kept_table (rships_vec d) (rships_vec d') \<Longrightarrow> redo_ok d b \<Longrightarrow> redo_ok d' b"
  by (cases b) (auto simp: kept_table_def split: if_splits)

fun is_dict_record :: "log_body \<Rightarrow> bool" where
  "is_dict_record (Dict_record code s) \<longleftrightarrow> True"
| "is_dict_record _ \<longleftrightarrow> False"

lemma redo_dict:
  assumes ok: "store_ok ln lr d pss" and b: "redo_ok d (Dict_record code s)" and room: "(length pss + 1) * PF_PAGE_SIZE < 2 ^ 32"
  shows "\<exists>d' pss'. apply_redo h ln lr r0 (Dict_record code s) d = (Inr (), d') \<and> store_ok ln lr d' pss' \<and>
    bv_view ln (nodes_vec d') = bv_view ln (nodes_vec d) \<and> bv_view lr (rships_vec d') = bv_view lr (rships_vec d) \<and>
    kept_table (nodes_vec d) (nodes_vec d') \<and> kept_table (rships_vec d) (rships_vec d') \<and>
    set (pp_codes pss) \<subseteq> set (pp_codes pss') \<and> length pss' \<le> length pss + 1"
proof (cases "ct_find h s (pd_table (dict_of d)) = UNKNOWN_CODE")
  case False
  let ?d = "d\<lparr>pg_dict := dict_of d\<rparr>"
  have "apply_redo h ln lr r0 (Dict_record code s) d = (Inr (), ?d)" using False
    by (simp add: on_dict_def sbind_def pd_insert_def Let_def) (simp add: dict_of_def)
  moreover have "dict_of ?d = dict_of d" "nodes_vec ?d = nodes_vec d" "rships_vec ?d = rships_vec d" by (simp_all add: dict_of_def nodes_vec_def rships_vec_def)
  ultimately show ?thesis using ok by (intro exI [of _ ?d] exI [of _ pss]) (simp add: store_ok_def kept_table_def)
next
  case True
  let ?P = "pd_pool (dict_of d)" and ?n = "nodes_vec d" and ?r = "rships_vec d"
  have t: "bv_inv ln ?n" "layout_ok ln (bv_epc ?n)" "bv_inv lr ?r" "layout_ok lr (bv_epc ?r)" "pp_rep ?P pss" "bv_file ?n \<noteq> bv_file ?r"
    "bv_file ?n \<noteq> pp_file ?P" "bv_file ?r \<noteq> pp_file ?P" using ok by (auto simp: store_ok_def tables_ok_def)
  obtain c P' pss' where a: "pp_add s ?P = (Inr c, P')" "pp_rep P' pss'" "pp_codes pss' = pp_codes pss @ [(s, c)]" "length pss' \<le> length pss + 1"
    "pp_file P' = pp_file ?P" "others_same (pp_file ?P) (pp_bpool ?P) (pp_bpool P')" using pp_add_spec [OF t(5) _ _ room, of s] b by auto
  define D where "D = (dict_of d)\<lparr>pd_pool := P', pd_table := ct_insert h s c (pd_table (dict_of d))\<rparr>"
  define d' where "d' = d\<lparr>pg_dict := D, pg_pool := pp_bpool P'\<rparr>"
  have run: "apply_redo h ln lr r0 (Dict_record code s) d = (Inr (), d')" using True a(1)
    by (simp add: on_dict_def sbind_def pd_insert_def Let_def D_def d'_def)
  have v: "nodes_vec d' = ?n\<lparr>bv_pool := pp_bpool P'\<rparr>" "rships_vec d' = ?r\<lparr>bv_pool := pp_bpool P'\<rparr>" "pd_pool (dict_of d') = P'"
    by (simp_all add: d'_def nodes_vec_def rships_vec_def dict_of_def D_def)
  have pk: "pool_ok (pp_bpool P') (pp_file ?P)" using a(2,5) by (simp add: pp_rep_def)
  have o: "others_same (pp_file ?P) (bv_pool ?n) (pp_bpool P')" "others_same (pp_file ?P) (bv_pool ?r) (pp_bpool P')"
    using a(6) by (simp_all add: nodes_vec_def rships_vec_def dict_of_def)
  note n = table_other_file [OF o(1) t(7,1) pk] and r = table_other_file [OF o(2) t(8,3) pk]
  have "store_ok ln lr d' pss'" using n(1) r(1) t a(2,5) by (simp add: store_ok_def tables_ok_def v)
  then show ?thesis using run n(2,3) r(2,3) a(3,4) by (intro exI [of _ d'] exI [of _ pss']) (auto simp: v)
qed

lemma redo_step:
  assumes ok: "store_ok ln lr d pss" and b: "redo_ok d b" and room: "is_dict_record b \<Longrightarrow> (length pss + 1) * PF_PAGE_SIZE < 2 ^ 32"
  shows "\<exists>d' pss'. apply_redo h ln lr r0 b d = (Inr (), d') \<and> store_ok ln lr d' pss' \<and>
    bv_view ln (nodes_vec d') = write_to (node_write b) (bv_view ln (nodes_vec d)) \<and>
    bv_view lr (rships_vec d') = write_to (rship_write r0 b) (bv_view lr (rships_vec d)) \<and>
    kept_table (nodes_vec d) (nodes_vec d') \<and> kept_table (rships_vec d) (rships_vec d') \<and>
    set (pp_codes pss) \<subseteq> set (pp_codes pss') \<and> length pss' \<le> length pss + (if is_dict_record b then 1 else 0)"
proof (cases b)
  case (Node_record ty i before after)
  note t = ok [unfolded store_ok_def]
  show ?thesis
  proof (cases "ty = Log_delete")
    case True
    then show ?thesis using nt.act_remove [OF t, of i] b Node_record unfolding store_ok_def by (auto simp: write_to_def)
  next
    case False
    then obtain im where im: "after = Some im" using b Node_record by auto
    obtain d' where d': "on_nodes (bv_store_at ln i (redone_node i im)) d = (Inr (), d')"
      "bv_view ln (nodes_vec d') = (bv_view ln (nodes_vec d))(i \<mapsto> redone_node i im)" "store_ok ln lr d' pss"
      "bv_view lr (rships_vec d') = bv_view lr (rships_vec d)" "kept_table (nodes_vec d) (nodes_vec d')" "kept_table (rships_vec d) (rships_vec d')"
      using nt.act_store [OF t, of i "redone_node i im"] b Node_record False unfolding store_ok_def by auto
    then show ?thesis using False Node_record im by (intro exI [of _ d'] exI [of _ pss]) (simp add: write_to_def redo_node_def)
  qed
next
  case (Rship_record ty i before after)
  note t = ok [unfolded store_ok_swap]
  show ?thesis
  proof (cases "ty = Log_delete")
    case True
    then show ?thesis using rt.act_remove [OF t, of i] b Rship_record unfolding store_ok_swap by (auto simp: write_to_def)
  next
    case False
    then obtain im where "after = Some im" using b Rship_record by auto
    then show ?thesis using rt.act_store [OF t, of i "redone_rship r0 im"] b Rship_record False unfolding store_ok_swap by (auto simp: write_to_def)
  qed
next
  case (Dict_record code s)
  show ?thesis using redo_dict [OF ok, of code s h r0] b room Dict_record by (simp add: write_to_def)
qed (use ok in \<open>auto simp: write_to_def kept_table_def intro: exI [of _ pss]\<close>)

text \<open>The last thing that records of the log write to a position.\<close>

definition logged :: "(log_body \<Rightarrow> (nat \<times> 'a option) option) \<Rightarrow> (nat \<times> log_record) list \<Rightarrow> nat \<Rightarrow> 'a option option" where
  "logged f es = map_of (rev (List.map_filter (\<lambda>e. f (lr_body (snd e))) es))"

definition recovered :: "(log_body \<Rightarrow> (nat \<times> 'a option) option) \<Rightarrow> (nat \<times> log_record) list \<Rightarrow> (nat \<Rightarrow> 'a option) \<Rightarrow> nat \<Rightarrow> 'a option" where
  "recovered f es m i = (case logged f es i of None \<Rightarrow> m i | Some x \<Rightarrow> x)"

lemma recovered_simps: "recovered f [] m = m" "recovered f (e # es) m = recovered f es (write_to (f (lr_body (snd e))) m)"
  by (auto simp: recovered_def logged_def write_to_def map_add_def fun_eq_iff List.map_filter_simps split: option.split)

lemma redo_all_spec:
  assumes "store_ok ln lr d pss" "\<forall>e\<in>set es. redo_ok d (lr_body (snd e))" "(length pss + length es) * PF_PAGE_SIZE < 2 ^ 32"
  shows "\<exists>d' pss'. redo_all h ln lr r0 es d = (Inr (), d') \<and> store_ok ln lr d' pss' \<and>
    bv_view ln (nodes_vec d') = recovered node_write es (bv_view ln (nodes_vec d)) \<and>
    bv_view lr (rships_vec d') = recovered (rship_write r0) es (bv_view lr (rships_vec d)) \<and> set (pp_codes pss) \<subseteq> set (pp_codes pss')"
  using assms
proof (induction es arbitrary: d pss)
  case Nil
  then show ?case by (auto simp: recovered_simps)
next
  case (Cons e es)
  let ?b = "lr_body (snd e)"
  have "(length pss + 1) * PF_PAGE_SIZE \<le> (length pss + length (e # es)) * PF_PAGE_SIZE" by simp
  with Cons.prems(3) have "(length pss + 1) * PF_PAGE_SIZE < 2 ^ 32" by (rule le_less_trans [rotated])
  with redo_step [OF Cons.prems(1), of ?b h r0] Cons.prems(2) obtain d1 qss where
    s: "apply_redo h ln lr r0 ?b d = (Inr (), d1)" "store_ok ln lr d1 qss" "bv_view ln (nodes_vec d1) = write_to (node_write ?b) (bv_view ln (nodes_vec d))"
    "bv_view lr (rships_vec d1) = write_to (rship_write r0 ?b) (bv_view lr (rships_vec d))"
    "kept_table (nodes_vec d) (nodes_vec d1)" "kept_table (rships_vec d) (rships_vec d1)" "set (pp_codes pss) \<subseteq> set (pp_codes qss)"
    "length qss \<le> length pss + 1" by (auto split: if_splits)
  have "(length qss + length es) * PF_PAGE_SIZE \<le> (length pss + length (e # es)) * PF_PAGE_SIZE" using s(8) by (intro mult_le_mono1) simp
  with Cons.prems(3) have room: "(length qss + length es) * PF_PAGE_SIZE < 2 ^ 32" by (rule le_less_trans [rotated])
  have "\<forall>e\<in>set es. redo_ok d1 (lr_body (snd e))" using Cons.prems(2) kept_tables_redo_ok [OF s(5,6)] by simp
  from Cons.IH [OF s(2) this room] s show ?case by (auto simp: sbind_def recovered_simps)
qed

section \<open>Flushing\<close>

lemma db_flush_ok:
  assumes ok: "store_ok ln lr d pss"
  shows "\<exists>d'. db_flush d = Inr d' \<and> store_ok ln lr d' pss \<and> bv_view ln (nodes_vec d') = bv_view ln (nodes_vec d) \<and>
    bv_view lr (rships_vec d') = bv_view lr (rships_vec d) \<and> bp_disk (pg_pool d') = bp_view (pg_pool d') \<and> bp_view (pg_pool d') = bp_view (pg_pool d)"
proof -
  have pk: "pool_ok (pg_pool d) (bv_file (pg_nodes d))" using ok by (simp add: store_ok_def tables_ok_def bv_inv_pool nodes_vec_def)
  then obtain xs where "bp_wf (pg_pool d) xs" by (auto simp: pool_ok_def)
  from bp_flush_all_spec [OF this] obtain b where b: "bp_flush_all (pg_pool d) = Inr b" "bp_inv b" "bp_view b = bp_view (pg_pool d)" "bp_disk b = bp_view (pg_pool d)" by auto
  note f = bp_flush_frame [OF b(1)]
  have p: "pool_ok b i" if "pool_ok (pg_pool d) i" for i using that b(2) f by (auto simp: pool_ok_def bp_inv_def)
  let ?d = "d\<lparr>pg_pool := b\<rparr>"
  have "db_flush d = Inr ?d" using b(1) by (simp add: db_flush_def)
  moreover have "store_ok ln lr ?d pss" using ok f p b(3)
    by (simp add: store_ok_def tables_ok_def bv_inv_pool nodes_vec_def rships_vec_def dict_of_def pp_rep_def pages_used_def bv_pid_def)
  moreover have "bv_view ln (nodes_vec ?d) = bv_view ln (nodes_vec d)" "bv_view lr (rships_vec ?d) = bv_view lr (rships_vec d)"
    using b(3) by (simp_all add: fun_eq_iff bv_view_def nodes_vec_def rships_vec_def bv_pid_def split: option.split)
  ultimately show ?thesis using b(3,4) by (intro exI [of _ ?d]) simp
qed

section \<open>Recovery\<close>

lemma wal_close_open:
  assumes "wal_inv w es"
  shows "wal_inv (wal_open (Some (wl_file (wal_close False w)))) es"
proof -
  have "header_size \<le> wf_len (wl_file w)" using tiles_le assms by (auto simp: wal_inv_def wf_inv_def)
  then show ?thesis using assms by (simp add: wal_inv_def wal_close_def wal_open_def Let_def wf_inv_def)
qed

lemma undo_all_nothing [simp]: "undo_all ls d = (Inr (), d)"
  by (induction ls) (simp_all add: apply_undo_def sbind_def)

lemma apply_log_run:
  assumes ok: "store_ok ln lr d pss" and w: "wal_inv (wal_open fo) es" and b: "\<forall>e\<in>set (redo_entries es). redo_ok d (lr_body (snd e))"
    and room: "(length pss + length (redo_entries es)) * PF_PAGE_SIZE < 2 ^ 32"
  shows "\<exists>d' f. apply_log h ln lr r0 (d, fo) = (Inr (), (d', Some f)) \<and>
    (\<forall>i. bv_view ln (nodes_vec d') i = (case logged node_write (redo_entries es) i of None \<Rightarrow> bv_view ln (nodes_vec d) i | Some x \<Rightarrow> x)) \<and>
    (\<forall>i. bv_view lr (rships_vec d') i = (case logged (rship_write r0) (redo_entries es) i of None \<Rightarrow> bv_view lr (rships_vec d) i | Some x \<Rightarrow> x)) \<and>
    (\<forall>s c. (s, c) \<in> set (pp_codes pss) \<longrightarrow> fst (pd_lookup_code c (dict_of d')) = Inr s) \<and>
    (redo_entries es \<noteq> [] \<longrightarrow> bp_disk (pg_pool d') = bp_view (pg_pool d') \<and>
      (\<exists>c. lr_body (snd c) = Chkpt_record \<and> wal_inv (wal_open (Some f)) (es @ [c])))"
proof -
  let ?rs = "redo_entries es" and ?w = "wal_open fo"
  obtain d1 qss where d1: "redo_all h ln lr r0 ?rs d = (Inr (), d1)" "store_ok ln lr d1 qss"
    "bv_view ln (nodes_vec d1) = recovered node_write ?rs (bv_view ln (nodes_vec d))"
    "bv_view lr (rships_vec d1) = recovered (rship_write r0) ?rs (bv_view lr (rships_vec d))" "set (pp_codes pss) \<subseteq> set (pp_codes qss)"
    using redo_all_spec [OF ok b room, of h r0] by blast
  have code: "fst (pd_lookup_code c (dict_of e)) = Inr s" if "store_ok ln lr e qss" "(s, c) \<in> set (pp_codes pss)" for e s c
  proof -
    have "pp_rep (pd_pool (dict_of e)) qss" "(s, c) \<in> set (pp_codes qss)" using that d1(5) by (auto simp: store_ok_def tables_ok_def)
    then show ?thesis by (rule pp_extract_code) (simp add: pd_lookup_code_def)
  qed
  show ?thesis
  proof (cases "?rs = []")
    case True
    then have "apply_log h ln lr r0 (d, fo) = (Inr (), (d1, Some (wl_file (wal_close False ?w))))"
      using d1(1) wal_inv_entries [OF w] by (simp add: apply_log_def recover_log_def Let_def)
    then show ?thesis using d1(2-4) True code by (simp add: recovered_def)
  next
    case False
    obtain d2 where d2: "db_flush d1 = Inr d2" "store_ok ln lr d2 qss" "bv_view ln (nodes_vec d2) = bv_view ln (nodes_vec d1)"
      "bv_view lr (rships_vec d2) = bv_view lr (rships_vec d1)" "bp_disk (pg_pool d2) = bp_view (pg_pool d2)" using db_flush_ok [OF d1(2)] by blast
    obtain w2 where w2: "wal_checkpoint ?w = Inr w2" "wal_inv w2 (es @ [new_entry ?w 0 (Some 0) Chkpt_record])" using lw_checkpoint.writes [OF w] by blast
    have "apply_log h ln lr r0 (d, fo) = (Inr (), (d2, Some (wl_file (wal_close False w2))))"
      using d1(1) d2(1) w2(1) False wal_inv_entries [OF w] by (simp add: apply_log_def recover_log_def Let_def)
    moreover have "\<exists>c. lr_body (snd c) = Chkpt_record \<and> wal_inv (wal_open (Some (wl_file (wal_close False w2)))) (es @ [c])"
      using wal_close_open [OF w2(2)] by (intro exI [of _ "new_entry ?w 0 (Some 0) Chkpt_record"]) (simp add: new_entry_def)
    ultimately show ?thesis using d1(3,4) d2(2-5) code by (simp add: recovered_def)
  qed
qed

text \<open>
  C12. Recovery applies the log: when the log of a crashed database is intact and the pages of the logged records are in the files, \<open>apply_log\<close> ends
  without an error; afterwards a node or a relationship is what the last redone record for it says, and one without such a record is what it was in the
  file; the codes of the dictionary still lead to their strings. When anything was redone, the files hold all of it, and the log ends with a checkpoint.
\<close>

theorem apply_log_recovers:
  assumes ok: "store_ok ln lr d pss" and w: "wal_inv (wal_open fo) es" and b: "\<forall>e\<in>set (redo_entries es). redo_ok d (lr_body (snd e))"
    and room: "(length pss + length (redo_entries es)) * PF_PAGE_SIZE < 2 ^ 32"
  shows "\<exists>d' f. apply_log h ln lr r0 (d, fo) = (Inr (), (d', Some f)) \<and>
    (\<forall>i. bv_view ln (nodes_vec d') i = (case logged node_write (redo_entries es) i of None \<Rightarrow> bv_view ln (nodes_vec d) i | Some x \<Rightarrow> x)) \<and>
    (\<forall>i. bv_view lr (rships_vec d') i = (case logged (rship_write r0) (redo_entries es) i of None \<Rightarrow> bv_view lr (rships_vec d) i | Some x \<Rightarrow> x)) \<and>
    (\<forall>s c. (s, c) \<in> set (pp_codes pss) \<longrightarrow> fst (pd_lookup_code c (dict_of d')) = Inr s) \<and>
    (redo_entries es \<noteq> [] \<longrightarrow> bp_disk (pg_pool d') = bp_view (pg_pool d') \<and>
      (\<exists>c. lr_body (snd c) = Chkpt_record \<and> wal_inv (wal_open (Some f)) (es @ [c])))"
  by (rule apply_log_run [OF assms])

text \<open>
  Recovery can be repeated: when two databases agree on the records that the log does not redo, recovery from this log makes all their records equal.
  So a database whose pages were written only partly before a crash, also a crash during recovery, ends up with the same nodes and relationships.
\<close>

theorem recovery_repeatable:
  assumes "store_ok ln lr d pss" "store_ok ln lr e qss" "wal_inv (wal_open fo) es"
    and "\<forall>x\<in>set (redo_entries es). redo_ok d (lr_body (snd x)) \<and> redo_ok e (lr_body (snd x))"
    and "(length pss + length (redo_entries es)) * PF_PAGE_SIZE < 2 ^ 32" "(length qss + length (redo_entries es)) * PF_PAGE_SIZE < 2 ^ 32"
    and "\<forall>i. logged node_write (redo_entries es) i = None \<longrightarrow> bv_view ln (nodes_vec e) i = bv_view ln (nodes_vec d) i"
    and "\<forall>i. logged (rship_write r0) (redo_entries es) i = None \<longrightarrow> bv_view lr (rships_vec e) i = bv_view lr (rships_vec d) i"
  shows "\<exists>d' e' f g. apply_log h ln lr r0 (d, fo) = (Inr (), (d', f)) \<and> apply_log h ln lr r0 (e, fo) = (Inr (), (e', g)) \<and>
    bv_view ln (nodes_vec e') = bv_view ln (nodes_vec d') \<and> bv_view lr (rships_vec e') = bv_view lr (rships_vec d')"
proof -
  obtain d' f where d': "apply_log h ln lr r0 (d, fo) = (Inr (), (d', f))"
    "\<forall>i. bv_view ln (nodes_vec d') i = (case logged node_write (redo_entries es) i of None \<Rightarrow> bv_view ln (nodes_vec d) i | Some x \<Rightarrow> x)"
    "\<forall>i. bv_view lr (rships_vec d') i = (case logged (rship_write r0) (redo_entries es) i of None \<Rightarrow> bv_view lr (rships_vec d) i | Some x \<Rightarrow> x)"
    using apply_log_run [OF assms(1,3) _ assms(5), of h r0] assms(4) by blast
  obtain e' g where e': "apply_log h ln lr r0 (e, fo) = (Inr (), (e', g))"
    "\<forall>i. bv_view ln (nodes_vec e') i = (case logged node_write (redo_entries es) i of None \<Rightarrow> bv_view ln (nodes_vec e) i | Some x \<Rightarrow> x)"
    "\<forall>i. bv_view lr (rships_vec e') i = (case logged (rship_write r0) (redo_entries es) i of None \<Rightarrow> bv_view lr (rships_vec e) i | Some x \<Rightarrow> x)"
    using apply_log_run [OF assms(2,3) _ assms(6), of h r0] assms(4) by blast
  have "bv_view ln (nodes_vec e') i = bv_view ln (nodes_vec d') i" "bv_view lr (rships_vec e') i = bv_view lr (rships_vec d') i" for i
    using d'(2,3) e'(2,3) assms(7,8) by (auto split: option.split)
  with d'(1) e'(1) show ?thesis by blast
qed

text \<open>
  C36. Changes of transactions that did not commit survive recovery. Take a node record of a transaction without a commit record, written after the last checkpoint, and no
  later record for this node. The analysis counts the transaction among the losers; nevertheless the whole of recovery, with redo, flush, checkpoint and undo, ends with the
  node as this record has it, in the table and in the file.
\<close>

theorem loser_survives_recovery:
  assumes "store_ok ln lr d pss" "wal_inv (wal_open fo) es" "\<forall>e\<in>set (redo_entries es). redo_ok d (lr_body (snd e))"
    and "(length pss + length (redo_entries es)) * PF_PAGE_SIZE < 2 ^ 32"
    and es: "es = as @ (p, r) # bs" and r: "lr_body r = Node_record ty i before (Some im)" "ty \<noteq> Log_delete" "snd (analyze es) < lr_lsn r"
    and lost: "\<forall>e\<in>set es. lr_tx (snd e) = lr_tx r \<longrightarrow> lr_body (snd e) \<noteq> Tx_record Log_commit"
    and last: "\<forall>e\<in>set bs. \<forall>x. node_write (lr_body (snd e)) \<noteq> Some (i, x)"
  shows "lr_tx r \<in> fst ` set (loser_list es) \<and>
    (\<exists>d' f. apply_log h ln lr r0 (d, fo) = (Inr (), (d', Some f)) \<and> bv_view ln (nodes_vec d') i = Some (redone_node i im) \<and>
      bp_disk (pg_pool d') = bp_view (pg_pool d'))"
proof
  have ob: "is_object_record (lr_body r)" using r(1) by simp
  have in_es: "(p, r) \<in> set es" using es by simp
  note loser = loser_redone [OF in_es ob r(3) lost]
  then obtain q where "fst (analyze es) (lr_tx r) = Some q" by blast
  moreover have "lr_tx r \<in> (\<lambda>e. lr_tx (snd e)) ` set es" using in_es by force
  ultimately show "lr_tx r \<in> fst ` set (loser_list es)" by (force simp: loser_list_def List.map_filter_def)
  have ne: "redo_entries es \<noteq> []" using loser by auto
  have "List.map_filter (\<lambda>e. node_write (lr_body (snd e))) (filter P bs) = ys \<Longrightarrow> i \<notin> fst ` set ys" for P ys
    using last by (force simp: List.map_filter_def)
  then have "map_of (rev (List.map_filter (\<lambda>e. node_write (lr_body (snd e))) (filter P bs))) i = None" for P
    by (simp add: map_of_eq_None_iff)
  then have "logged node_write (redo_entries es) i = Some (Some (redone_node i im))"
    using r ob unfolding logged_def redo_entries_def by (simp add: es List.map_filter_def map_add_def)
  with apply_log_run [OF assms(1-4), of h r0] ne
  show "\<exists>d' f. apply_log h ln lr r0 (d, fo) = (Inr (), (d', Some f)) \<and> bv_view ln (nodes_vec d') i = Some (redone_node i im) \<and>
      bp_disk (pg_pool d') = bp_view (pg_pool d')" by (metis option.simps(5))
qed

section \<open>A database on three files\<close>

text \<open>A layout for records that are numbered: a page encodes the number of its chunk.\<close>

definition lay_num :: "('a \<Rightarrow> nat) \<Rightarrow> (nat \<Rightarrow> 'a) \<Rightarrow> 'a layout" where
  "lay_num num rec =
     (\<lambda>c k. if k = to_nat (map num (ch_data c), ch_slots c, ch_first c) then 1 else 0,
      \<lambda>pg. case from_nat (LEAST k. pg k = 1) of (ds, ss, f) \<Rightarrow> \<lparr>ch_data = map rec ds, ch_slots = ss, ch_first = f\<rparr>)"

lemma lay_num_inverse:
  assumes "\<And>x. rec (num x) = x"
  shows "snd (lay_num num rec) (fst (lay_num num rec) c) = c"
proof -
  have "(LEAST k. (if k = n then 1 else 0 :: 8 word) = 1) = n" for n :: nat by (rule Least_equality) (auto split: if_splits)
  moreover have "map rec (map num xs) = xs" for xs using assms by (induction xs) simp_all
  ultimately show ?thesis by (cases c) (simp add: lay_num_def)
qed

definition num_elem :: "('b \<Rightarrow> nat) \<Rightarrow> 'b elem \<Rightarrow> nat" where
  "num_elem nb x = to_nat (txn_id x, bts x, cts x, rts x, vol x, nb (body x))"

definition elem_num :: "(nat \<Rightarrow> 'b) \<Rightarrow> nat \<Rightarrow> 'b elem" where
  "elem_num bn n = (case from_nat n of (t, b, c, r, v, k) \<Rightarrow> \<lparr>txn_id = t, bts = b, cts = c, rts = r, vol = v, body = bn k\<rparr>)"

lemma elem_num_inverse: "(\<And>b. bn (nb b) = b) \<Longrightarrow> elem_num bn (num_elem nb x) = x"
  by (cases x) (simp add: elem_num_def num_elem_def)

definition node_layout :: "node_body elem layout" where
  "node_layout = lay_num (num_elem (\<lambda>b. to_nat (nd_id b, nd_from_rships b, nd_to_rships b, nd_property_list b, nd_label b)))
     (elem_num (\<lambda>n. case from_nat n of (i, f, t, p, l) \<Rightarrow>
        \<lparr>nd_id = i, nd_from_rships = f, nd_to_rships = t, nd_property_list = p, nd_label = l\<rparr>))"

definition rship_layout :: "rship_body elem layout" where
  "rship_layout = lay_num (num_elem (\<lambda>b. to_nat (rs_id b, rs_src_node b, rs_dest_node b, rs_next_src b, rs_next_dest b, rs_property_list b, rs_label b)))
     (elem_num (\<lambda>n. case from_nat n of (i, s, d, ns, nd, p, l) \<Rightarrow>
        \<lparr>rs_id = i, rs_src_node = s, rs_dest_node = d, rs_next_src = ns, rs_next_dest = nd, rs_property_list = p, rs_label = l\<rparr>))"

lemma layouts_inverse: "snd node_layout (fst node_layout c) = c" "snd rship_layout (fst rship_layout c') = c'"
  unfolding node_layout_def rship_layout_def by (rule lay_num_inverse, rule elem_num_inverse, simp)+

lemma layouts_ok: "layout_ok node_layout n" "layout_ok rship_layout n"
  by (simp_all add: layout_ok_def layouts_inverse)

definition one_page :: "page \<Rightarrow> paged_file" where
  "one_page pg = pf_demo\<lparr>pf_npages := 1, pf_header := (pf_header pf_demo)\<lparr>fh_slots := (\<lambda>i. i = 0)\<rparr>,
     pf_disk := (pf_disk pf_demo)\<lparr>df_pages := [pg]\<rparr>\<rparr>"

definition blank_rship :: rship_body where
  "blank_rship = \<lparr>rs_id = 0, rs_src_node = 0, rs_dest_node = 0, rs_next_src = 0, rs_next_dest = 0, rs_property_list = 0, rs_label = 0\<rparr>"

text \<open>Two slots for nodes, two for relationships, an empty dictionary; a buffer with one page.\<close>

definition crash_files_demo :: "nat \<Rightarrow> paged_file option" where
  "crash_files_demo = [0 \<mapsto> one_page zero_page, 1 \<mapsto> one_page (fst node_layout (chunk_new (elem_new (node_body_new 0)) 2)),
     2 \<mapsto> one_page (fst rship_layout (chunk_new (elem_new blank_rship) 2))]"

definition crash_demo :: paged_db where
  "crash_demo = \<lparr>pg_pool = (bp_new 1)\<lparr>bp_files := crash_files_demo\<rparr>,
     pg_nodes = bv_demo\<lparr>bv_file := 1\<rparr>, pg_rships = bv_demo\<lparr>bv_file := 2\<rparr>, pg_dict = \<lparr>pd_pool = pp_demo, pd_table = []\<rparr>\<rparr>"

lemma one_page_inv: "pf_inv (one_page pg)"
  by (simp add: one_page_def pf_inv_def pf_slots_def pf_pages_def PF_SLOTS_def)

lemma one_page_content: "pf_content (one_page pg) k = (if k = 1 then Some pg else None)"
  by (auto simp: one_page_def pf_content_def pf_slots_def pf_pages_def)

lemma crash_demo_view:
  assumes "k < PID_LIMIT" "i < 16"
  shows "bp_view (pg_pool crash_demo) (mk_pid i k) = (if k = 1 then map_option (\<lambda>f. the (pf_content f 1)) (crash_files_demo i) else None)"
proof -
  have "raw_pid (mk_pid i k) = k" "file_of (mk_pid i k) = i" using mk_pid_parts [of k i] assms by (simp_all add: PID_LIMIT_def)
  then have "bp_view (pg_pool crash_demo) (mk_pid i k) = (case crash_files_demo i of None \<Rightarrow> None | Some f \<Rightarrow> pf_content f k)"
    by (simp add: crash_demo_def bp_view_def bp_new_def bp_disk_def split: option.split)
  then show ?thesis by (simp add: crash_files_demo_def one_page_content)
qed

lemma crash_demo_pool: "pool_ok (pg_pool crash_demo) i \<longleftrightarrow> i < 16"
proof -
  have "bp_wf (pg_pool crash_demo) []"
    by (auto simp: crash_demo_def bp_wf_def bp_new_def bp_files_ok_def MAX_PFILES_def lru_new_rep crash_files_demo_def one_page_inv split: if_splits)
  then show ?thesis by (auto simp: pool_ok_def crash_demo_def bp_unpinned_def bp_new_def)
qed

lemma crash_demo_ok: "store_ok node_layout rship_layout crash_demo [[]]"
proof -
  have "bv_inv node_layout (nodes_vec crash_demo)" unfolding bv_inv_pool
    using crash_demo_view crash_demo_pool chunk_new_inv by (auto simp: nodes_vec_def crash_files_demo_def bv_pid_def one_page_content layouts_inverse crash_demo_def bv_demo_def split: if_splits)
  moreover have "bv_inv rship_layout (rships_vec crash_demo)" unfolding bv_inv_pool
    using crash_demo_view crash_demo_pool chunk_new_inv by (auto simp: rships_vec_def crash_files_demo_def bv_pid_def one_page_content layouts_inverse crash_demo_def bv_demo_def split: if_splits)
  moreover have "pp_rep (pd_pool (dict_of crash_demo)) [[]]"
  proof -
    have "bp_view (pg_pool crash_demo) (mk_pid 0 1) = Some zero_page" using crash_demo_view [of 1 0] by (simp add: crash_files_demo_def one_page_content PID_LIMIT_def)
    moreover have "bp_npages (pg_pool crash_demo) 0 = Some 1" by (simp add: bp_npages_def crash_demo_def crash_files_demo_def one_page_def)
    moreover have "get_u32 zero_page = 0" by (simp add: get_u32_def zero_page_def)
    moreover have "pd_pool (dict_of crash_demo) = \<lparr>pp_bpool = pg_pool crash_demo, pp_file = 0, pp_npages = 1\<rparr>" by (simp add: dict_of_def crash_demo_def pp_demo_def)
    ultimately show ?thesis using page_holds_zero crash_demo_pool [of 0] by (simp add: pp_rep_def pages_used_def)
  qed
  ultimately show ?thesis by (simp add: store_ok_def tables_ok_def layouts_ok nodes_vec_def rships_vec_def dict_of_def crash_demo_def bv_demo_def pp_demo_def)
qed

text \<open>The log of a transaction that added a label and a node and was interrupted.\<close>

definition label_entry_demo :: "nat \<times> log_record" where
  "label_entry_demo = (16, \<lparr>lr_lsn = 1, lr_tx = 7, lr_prev = None, lr_body = Dict_record 4 ''Person''\<rparr>)"

definition node_entry_demo :: "nat \<times> log_record" where
  "node_entry_demo = (1080, \<lparr>lr_lsn = 2, lr_tx = 7, lr_prev = Some 16,
     lr_body = Node_record Log_insert 1 None (Some \<lparr>ni_label = 4, ni_from_rships = UNKNOWN, ni_to_rships = UNKNOWN, ni_property_list = UNKNOWN\<rparr>)\<rparr>)"

definition log_demo :: wal_file where
  "log_demo = \<lparr>wf_magic = True, wf_lsn = 0, wf_len = 1080 + rec_size (snd node_entry_demo), wf_recs = map_of [label_entry_demo, node_entry_demo]\<rparr>"

lemma log_demo_inv: "wal_inv (wal_open (Some log_demo)) [label_entry_demo, node_entry_demo]"
  by (simp add: wal_inv_def wal_open_def wf_inv_def log_demo_def label_entry_demo_def node_entry_demo_def header_size_def)

lemma log_demo_redo: "redo_entries [label_entry_demo, node_entry_demo] = [label_entry_demo, node_entry_demo]"
  by (simp add: redo_entries_def analyze_def label_entry_demo_def node_entry_demo_def)

lemma log_demo_redo_ok: "\<forall>e\<in>set [label_entry_demo, node_entry_demo]. redo_ok crash_demo (lr_body (snd e))"
proof -
  have "bv_has_page (nodes_vec crash_demo) 1" using crash_demo_view [of 1 1]
    by (simp add: bv_has_page_def page_no_def PID_LIMIT_def nodes_vec_def bv_pid_def crash_files_demo_def) (simp add: crash_demo_def bv_demo_def)
  then show ?thesis by (simp add: label_entry_demo_def node_entry_demo_def PF_PAGE_SIZE_def)
qed

lemma log_demo_logged:
  "logged node_write [label_entry_demo, node_entry_demo] =
     [1 \<mapsto> Some (redone_node 1 \<lparr>ni_label = 4, ni_from_rships = UNKNOWN, ni_to_rships = UNKNOWN, ni_property_list = UNKNOWN\<rparr>)]"
  by (simp add: logged_def List.map_filter_simps label_entry_demo_def node_entry_demo_def)

theorem apply_log_recovers_witness:
  "\<exists>d' f. apply_log length node_layout rship_layout blank_rship (crash_demo, Some log_demo) = (Inr (), (d', Some f)) \<and>
    bv_view node_layout (nodes_vec d') 1 = Some (redone_node 1 \<lparr>ni_label = 4, ni_from_rships = UNKNOWN, ni_to_rships = UNKNOWN, ni_property_list = UNKNOWN\<rparr>) \<and>
    bp_disk (pg_pool d') = bp_view (pg_pool d')"
  using apply_log_recovers [OF crash_demo_ok log_demo_inv, of length blank_rship] log_demo_redo_ok
  by (auto simp: log_demo_redo log_demo_logged PF_PAGE_SIZE_def)

theorem loser_survives_recovery_witness:
  "7 \<in> fst ` set (loser_list [label_entry_demo, node_entry_demo]) \<and>
   (\<exists>d' f. apply_log length node_layout rship_layout blank_rship (crash_demo, Some log_demo) = (Inr (), (d', Some f)) \<and>
      bv_view node_layout (nodes_vec d') 1 = Some (redone_node 1 \<lparr>ni_label = 4, ni_from_rships = UNKNOWN, ni_to_rships = UNKNOWN, ni_property_list = UNKNOWN\<rparr>) \<and>
      bp_disk (pg_pool d') = bp_view (pg_pool d'))"
proof -
  have "[label_entry_demo, node_entry_demo] = [label_entry_demo] @ (1080, snd node_entry_demo) # []" by (simp add: node_entry_demo_def)
  moreover have "\<forall>e\<in>set (redo_entries [label_entry_demo, node_entry_demo]). redo_ok crash_demo (lr_body (snd e))"
    "(length [[] :: string list] + length (redo_entries [label_entry_demo, node_entry_demo])) * PF_PAGE_SIZE < 2 ^ 32"
    using log_demo_redo_ok by (simp_all add: log_demo_redo PF_PAGE_SIZE_def)
  moreover have "lr_tx (snd node_entry_demo) = 7"
    "lr_body (snd node_entry_demo) = Node_record Log_insert 1 None (Some \<lparr>ni_label = 4, ni_from_rships = UNKNOWN, ni_to_rships = UNKNOWN, ni_property_list = UNKNOWN\<rparr>)"
    "snd (analyze [label_entry_demo, node_entry_demo]) < lr_lsn (snd node_entry_demo)"
    "\<forall>e\<in>set [label_entry_demo, node_entry_demo]. lr_body (snd e) \<noteq> Tx_record Log_commit"
    by (simp_all add: label_entry_demo_def node_entry_demo_def analyze_def)
  ultimately show ?thesis
    using loser_survives_recovery [OF crash_demo_ok log_demo_inv, where r = "snd node_entry_demo" and bs = "[]" and h = length and ?r0.0 = blank_rship]
    by fastforce
qed

theorem recovery_repeatable_witness:
  "\<exists>d' e' f g. apply_log length node_layout rship_layout blank_rship (crash_demo, Some log_demo) = (Inr (), (d', f)) \<and>
    apply_log length node_layout rship_layout blank_rship (crash_demo, Some log_demo) = (Inr (), (e', g)) \<and> bv_view node_layout (nodes_vec e') = bv_view node_layout (nodes_vec d')"
  using recovery_repeatable [OF crash_demo_ok crash_demo_ok log_demo_inv, of blank_rship length] log_demo_redo_ok
  by (auto simp: log_demo_redo PF_PAGE_SIZE_def)

end
