(* ===== verification/BTree.thy ===== *)
theory BTree
  imports Prelude
begin

text \<open>
  The in-memory B+ tree of the indexes, class \<open>BPTree\<close> of \<^verbatim>\<open>src/src/btree/imbtree.hpp\<close>. Leaf and branch
  nodes live in a store; pointers are addresses of it (a \<open>void*\<close> child is the address of a leaf or of a
  branch, depending on the depth). The arrays of a node have their full length, so that the entries
  beyond \<open>numKeys\<close> keep what was written there; a fresh node holds an unspecified value \<open>bt_junk\<close>.
  The template parameters \<open>N\<close> (keys of a branch) and \<open>M\<close> (keys of a leaf) are arguments.
\<close>

section \<open>Array loops\<close>

text \<open>\<open>for (i = hi; i > lo; i--) a[i] = a[i - 1]\<close>\<close>

fun shift_up :: "nat \<Rightarrow> nat \<Rightarrow> 'a list \<Rightarrow> 'a list" where
  "shift_up lo 0 a = a"
| "shift_up lo (Suc i) a = (if lo < Suc i then shift_up lo i (a[Suc i := a ! i]) else a)"

text \<open>\<open>for (i = 0; i < n; i++) d[p + i] = s[q + i]\<close>, for two arrays.\<close>

fun copy_range :: "nat \<Rightarrow> 'a list \<Rightarrow> nat \<Rightarrow> 'a list \<Rightarrow> nat \<Rightarrow> 'a list" where
  "copy_range 0 d p s q = d"
| "copy_range (Suc n) d p s q = copy_range n (d[p := s ! q]) (Suc p) s (Suc q)"

text \<open>\<open>for (i = 0; i < n; i++) a[p + i] = a[p + k + i]\<close>, within one array.\<close>

fun shift_down :: "nat \<Rightarrow> nat \<Rightarrow> nat \<Rightarrow> 'a list \<Rightarrow> 'a list" where
  "shift_down 0 p k a = a"
| "shift_down (Suc n) p k a = shift_down n (Suc p) k (a[p := a ! (p + k)])"

text \<open>\<open>for (i = n; i > 0; i--) a[i + k - 1] = a[i - 1]\<close>\<close>

fun make_room :: "nat \<Rightarrow> nat \<Rightarrow> 'a list \<Rightarrow> 'a list" where
  "make_room 0 k a = a"
| "make_room (Suc i) k a = make_room i k (a[i + k := a ! i])"

section \<open>Nodes\<close>

record leaf =
  lf_num :: nat
  lf_keys :: "nat list"
  lf_values :: "nat list"
  lf_next :: "nat option"
  lf_prev :: "nat option"

record branch =
  br_num :: nat
  br_keys :: "nat list"
  br_children :: "nat list"

record btree =
  bt_leaves :: "nat \<Rightarrow> leaf option"
  bt_branches :: "nat \<Rightarrow> branch option"
  bt_fresh :: nat
  bt_depth :: nat
  bt_root :: nat
  bt_junk :: nat

record split_info =
  si_key :: nat
  si_left :: nat
  si_right :: nat

definition leaf_new :: "nat \<Rightarrow> nat \<Rightarrow> leaf" where
  "leaf_new M u = \<lparr>lf_num = 0, lf_keys = replicate M u, lf_values = replicate M u, lf_next = None, lf_prev = None\<rparr>"

definition branch_new :: "nat \<Rightarrow> nat \<Rightarrow> branch" where
  "branch_new N u = \<lparr>br_num = 0, br_keys = replicate N u, br_children = replicate (N + 1) u\<rparr>"

definition new_leaf :: "nat \<Rightarrow> btree \<Rightarrow> nat \<times> btree" where
  "new_leaf M t =
     (bt_fresh t, t\<lparr>bt_leaves := (bt_leaves t)(bt_fresh t \<mapsto> leaf_new M (bt_junk t)), bt_fresh := Suc (bt_fresh t)\<rparr>)"

definition new_branch :: "nat \<Rightarrow> btree \<Rightarrow> nat \<times> btree" where
  "new_branch N t =
     (bt_fresh t, t\<lparr>bt_branches := (bt_branches t)(bt_fresh t \<mapsto> branch_new N (bt_junk t)), bt_fresh := Suc (bt_fresh t)\<rparr>)"

definition delete_leaf :: "nat \<Rightarrow> btree \<Rightarrow> btree" where
  "delete_leaf p t = t\<lparr>bt_leaves := (bt_leaves t)(p := None)\<rparr>"

definition delete_branch :: "nat \<Rightarrow> btree \<Rightarrow> btree" where
  "delete_branch p t = t\<lparr>bt_branches := (bt_branches t)(p := None)\<rparr>"

definition bt_new :: "nat \<Rightarrow> nat \<Rightarrow> btree" where
  "bt_new M u =
     (let (p, t) = new_leaf M \<lparr>bt_leaves = Map.empty, bt_branches = Map.empty, bt_fresh = 0, bt_depth = 0,
        bt_root = 0, bt_junk = u\<rparr> in t\<lparr>bt_root := p\<rparr>)"

definition get_leaf :: "btree \<Rightarrow> nat \<Rightarrow> leaf result" where
  "get_leaf t p = (case bt_leaves t p of None \<Rightarrow> Inl Undefined_behaviour | Some l \<Rightarrow> Inr l)"

definition get_branch :: "btree \<Rightarrow> nat \<Rightarrow> branch result" where
  "get_branch t p = (case bt_branches t p of None \<Rightarrow> Inl Undefined_behaviour | Some b \<Rightarrow> Inr b)"

definition put_leaf :: "nat \<Rightarrow> leaf \<Rightarrow> btree \<Rightarrow> btree" where
  "put_leaf p l t = t\<lparr>bt_leaves := (bt_leaves t)(p \<mapsto> l)\<rparr>"

definition put_branch :: "nat \<Rightarrow> branch \<Rightarrow> btree \<Rightarrow> btree" where
  "put_branch p b t = t\<lparr>bt_branches := (bt_branches t)(p \<mapsto> b)\<rparr>"

definition deref :: "nat option \<Rightarrow> nat result" where
  "deref q = (case q of None \<Rightarrow> Inl Undefined_behaviour | Some p \<Rightarrow> Inr p)"

section \<open>Lookup\<close>

definition branch_pos :: "branch \<Rightarrow> nat \<Rightarrow> nat" where
  "branch_pos b key = length (takeWhile (\<lambda>k. k \<le> key) (take (br_num b) (br_keys b)))"

definition leaf_pos :: "leaf \<Rightarrow> nat \<Rightarrow> nat" where
  "leaf_pos l key = length (takeWhile (\<lambda>k. k < key) (take (lf_num l) (lf_keys l)))"

fun find_leaf_from :: "btree \<Rightarrow> nat \<Rightarrow> nat \<Rightarrow> nat \<Rightarrow> nat result" where
  "find_leaf_from t 0 p key = Inr p"
| "find_leaf_from t (Suc d) p key =
     rbind (get_branch t p) (\<lambda>b. find_leaf_from t d (br_children b ! branch_pos b key) key)"

definition find_leaf :: "btree \<Rightarrow> nat \<Rightarrow> nat result" where
  "find_leaf t key = find_leaf_from t (bt_depth t) (bt_root t) key"

definition bt_lookup :: "btree \<Rightarrow> nat \<Rightarrow> nat option result" where
  "bt_lookup t key =
     rbind (find_leaf t key) (\<lambda>p.
     rbind (get_leaf t p) (\<lambda>l.
     let pos = leaf_pos l key in
     Inr (if pos < lf_num l \<and> lf_keys l ! pos = key then Some (lf_values l ! pos) else None)))"

section \<open>Insert\<close>

definition leaf_insert_at :: "nat \<Rightarrow> leaf \<Rightarrow> nat \<Rightarrow> nat \<Rightarrow> nat \<Rightarrow> leaf result" where
  "leaf_insert_at M l pos key val =
     (if \<not> pos < M \<or> \<not> pos \<le> lf_num l \<or> \<not> lf_num l < M then Inl Assertion_failed
      else Inr (l\<lparr>lf_keys := (shift_up pos (lf_num l) (lf_keys l))[pos := key],
                  lf_values := (shift_up pos (lf_num l) (lf_values l))[pos := val],
                  lf_num := lf_num l + 1\<rparr>))"

definition insert_leaf :: "nat \<Rightarrow> btree \<Rightarrow> nat \<Rightarrow> nat \<Rightarrow> nat \<Rightarrow> (btree \<times> split_info option) result" where
  "insert_leaf M t p key val =
     rbind (get_leaf t p) (\<lambda>l.
     let pos = leaf_pos l key in
     if pos < lf_num l \<and> lf_keys l ! pos = key
     then Inr (put_leaf p (l\<lparr>lf_values := (lf_values l)[pos := val]\<rparr>) t, None)
     else if lf_num l = M then
       (let middle = (M + 1) div 2; (s, t1) = new_leaf M t in
        rbind (get_leaf t1 s) (\<lambda>sl.
        let n = lf_num l - middle;
            sl1 = sl\<lparr>lf_num := n, lf_keys := copy_range n (lf_keys sl) 0 (lf_keys l) middle,
                     lf_values := copy_range n (lf_values sl) 0 (lf_values l) middle\<rparr>;
            l1 = l\<lparr>lf_num := middle\<rparr>
        in rbind (if pos < middle then rbind (leaf_insert_at M l1 pos key val) (\<lambda>l2. Inr (l2, sl1))
                  else rbind (leaf_insert_at M sl1 (pos - middle) key val) (\<lambda>sl2. Inr (l1, sl2)))
           (\<lambda>(l2, sl2).
            let l3 = l2\<lparr>lf_next := Some s\<rparr>; sl3 = sl2\<lparr>lf_prev := Some p\<rparr> in
            Inr (put_leaf s sl3 (put_leaf p l3 t1),
                 Some \<lparr>si_key = lf_keys sl3 ! 0, si_left = p, si_right = s\<rparr>))))
     else rbind (leaf_insert_at M l pos key val) (\<lambda>l1. Inr (put_leaf p l1 t, None)))"

definition split_branch :: "nat \<Rightarrow> btree \<Rightarrow> nat \<Rightarrow> nat \<Rightarrow> (btree \<times> split_info) result" where
  "split_branch N t p splitKey =
     rbind (get_branch t p) (\<lambda>b.
     let m0 = (N + 1) div 2; middle = (if br_keys b ! m0 < splitKey then m0 + 1 else m0); (s, t1) = new_branch N t in
     rbind (get_branch t1 s) (\<lambda>sb.
     let n = br_num b - middle;
         sb1 = sb\<lparr>br_num := n, br_keys := copy_range n (br_keys sb) 0 (br_keys b) middle,
                  br_children := (copy_range n (br_children sb) 0 (br_children b) middle)[n := br_children b ! br_num b]\<rparr>;
         b1 = b\<lparr>br_num := middle - 1\<rparr>
     in Inr (put_branch s sb1 (put_branch p b1 t1),
             \<lparr>si_key = br_keys b1 ! (middle - 1), si_left = p, si_right = s\<rparr>)))"

text \<open>The entry of a split child is added to its parent.\<close>

definition branch_add :: "branch \<Rightarrow> nat \<Rightarrow> split_info \<Rightarrow> branch" where
  "branch_add b pos ci =
     (let n = br_num b;
          b1 = (if pos < n
                then b\<lparr>br_children := shift_up pos n ((br_children b)[n + 1 := br_children b ! n]),
                       br_keys := shift_up pos n (br_keys b)\<rparr>
                else b)
      in b1\<lparr>br_keys := (br_keys b1)[pos := si_key ci],
            br_children := (br_children b1)[pos := si_left ci, pos + 1 := si_right ci],
            br_num := n + 1\<rparr>)"

fun insert_branch ::
  "nat \<Rightarrow> nat \<Rightarrow> btree \<Rightarrow> nat \<Rightarrow> nat \<Rightarrow> nat \<Rightarrow> nat \<Rightarrow> (btree \<times> split_info option) result" where
  "insert_branch N M t p 0 key val = insert_leaf M t p key val"
| "insert_branch N M t p (Suc d) key val =
     rbind (get_branch t p) (\<lambda>b.
     let pos = branch_pos b key in
     rbind (insert_branch N M t (br_children b ! pos) d key val) (\<lambda>(t1, cs).
     case cs of
       None \<Rightarrow> Inr (t1, None)
     | Some ci \<Rightarrow>
         rbind (get_branch t1 p) (\<lambda>b1.
         if br_num b1 = N then
           rbind (split_branch N t1 p (si_key ci)) (\<lambda>(t2, si).
           let host = (if key < si_key si then si_left si else si_right si) in
           rbind (get_branch t2 host) (\<lambda>hb.
           Inr (put_branch host (branch_add hb (branch_pos hb key) ci) t2, Some si)))
         else Inr (put_branch p (branch_add b1 pos ci) t1, None))))"

definition bt_insert :: "nat \<Rightarrow> nat \<Rightarrow> nat \<Rightarrow> nat \<Rightarrow> btree \<Rightarrow> btree result" where
  "bt_insert N M key val t =
     rbind (insert_branch N M t (bt_root t) (bt_depth t) key val) (\<lambda>(t1, cs).
     case cs of
       None \<Rightarrow> Inr t1
     | Some si \<Rightarrow>
         (let (r, t2) = new_branch N t1 in
          rbind (get_branch t2 r) (\<lambda>b.
          Inr ((put_branch r (b\<lparr>br_keys := (br_keys b)[0 := si_key si],
                  br_children := (br_children b)[0 := si_left si, 1 := si_right si],
                  br_num := br_num b + 1\<rparr>) t2)\<lparr>bt_root := r, bt_depth := bt_depth t2 + 1\<rparr>))))"

section \<open>Scans\<close>

definition leaf_entries :: "leaf \<Rightarrow> (nat \<times> nat) list" where
  "leaf_entries l = zip (take (lf_num l) (lf_keys l)) (take (lf_num l) (lf_values l))"

text \<open>A chain of leaves longer than the number of nodes ever allocated is cyclic.\<close>

fun scan_from :: "nat \<Rightarrow> btree \<Rightarrow> nat option \<Rightarrow> (nat \<times> nat) list result" where
  "scan_from fuel t None = Inr []"
| "scan_from fuel t (Some p) =
     rbind (get_leaf t p) (\<lambda>l.
     case fuel of
       0 \<Rightarrow> Inl Diverges
     | Suc n \<Rightarrow> rbind (scan_from n t (lf_next l)) (\<lambda>r. Inr (leaf_entries l @ r)))"

fun leftmost :: "btree \<Rightarrow> nat \<Rightarrow> nat \<Rightarrow> nat result" where
  "leftmost t 0 p = Inr p"
| "leftmost t (Suc d) p = rbind (get_branch t p) (\<lambda>b. leftmost t d (br_children b ! 0))"

definition bt_scan :: "btree \<Rightarrow> (nat \<times> nat) list result" where
  "bt_scan t = rbind (leftmost t (bt_depth t) (bt_root t)) (\<lambda>p. scan_from (bt_fresh t) t (Some p))"

text \<open>The range scan returns at the first key above the range; a leaf without one continues the scan.\<close>

fun range_from :: "nat \<Rightarrow> btree \<Rightarrow> nat option \<Rightarrow> nat \<Rightarrow> (nat \<times> nat) list result" where
  "range_from fuel t None maxKey = Inr []"
| "range_from fuel t (Some p) maxKey =
     rbind (get_leaf t p) (\<lambda>l.
     let es = leaf_entries l; r = takeWhile (\<lambda>(k, v). k \<le> maxKey) es in
     if length r < length es then Inr r
     else case fuel of
            0 \<Rightarrow> Inl Diverges
          | Suc n \<Rightarrow> rbind (range_from n t (lf_next l) maxKey) (\<lambda>s. Inr (r @ s)))"

definition bt_range_scan :: "btree \<Rightarrow> nat \<Rightarrow> nat \<Rightarrow> (nat \<times> nat) list result" where
  "bt_range_scan t minKey maxKey =
     rbind (find_leaf t minKey) (\<lambda>p. range_from (bt_fresh t) t (Some p) maxKey)"

section \<open>Erase at leaf level\<close>

text \<open>
  The position may be the one behind the last entry, which the code reads without a test: a stale
  entry, or, in a full leaf, memory behind the array. With no entry left \<open>numKeys - 1\<close> wraps and the
  loop leaves the array.
\<close>

definition erase_leaf :: "nat \<Rightarrow> leaf \<Rightarrow> nat \<Rightarrow> (leaf \<times> bool) result" where
  "erase_leaf M l key =
     (let pos = leaf_pos l key in
      if M \<le> pos then Inl Undefined_behaviour
      else if lf_keys l ! pos = key then
        (if lf_num l = 0 then Inl Undefined_behaviour
         else Inr (l\<lparr>lf_keys := shift_down (lf_num l - 1 - pos) pos 1 (lf_keys l),
                     lf_values := shift_down (lf_num l - 1 - pos) pos 1 (lf_values l),
                     lf_num := lf_num l - 1\<rparr>, True))
      else Inr (l, False))"

definition merge_leaves :: "nat \<Rightarrow> btree \<Rightarrow> nat \<Rightarrow> nat \<Rightarrow> btree result" where
  "merge_leaves M t p1 p2 =
     rbind (get_leaf t p1) (\<lambda>l1.
     rbind (get_leaf t p2) (\<lambda>l2.
     if M < lf_num l1 + lf_num l2 then Inl Assertion_failed
     else
       (let l1' = l1\<lparr>lf_keys := copy_range (lf_num l2) (lf_keys l1) (lf_num l1) (lf_keys l2) 0,
                    lf_values := copy_range (lf_num l2) (lf_values l1) (lf_num l1) (lf_values l2) 0,
                    lf_num := lf_num l1 + lf_num l2, lf_next := lf_next l2\<rparr>;
            t1 = put_leaf p2 (l2\<lparr>lf_num := 0\<rparr>) (put_leaf p1 l1' t)
        in case lf_next l2 of
             None \<Rightarrow> Inr t1
           | Some q \<Rightarrow> rbind (get_leaf t1 q) (\<lambda>ql. Inr (put_leaf q (ql\<lparr>lf_prev := Some p1\<rparr>) t1)))))"

definition balance_leaves :: "btree \<Rightarrow> nat \<Rightarrow> nat \<Rightarrow> btree result" where
  "balance_leaves t dp rp =
     rbind (get_leaf t dp) (\<lambda>dl.
     rbind (get_leaf t rp) (\<lambda>rl.
     if \<not> lf_num rl < lf_num dl then Inl Assertion_failed
     else
       (let balanced = (lf_num dl + lf_num rl) div 2; toMove = lf_num dl - balanced in
        if toMove = 0 then Inr t
        else if lf_keys dl ! 0 < lf_keys rl ! 0 then
          Inr (put_leaf dp (dl\<lparr>lf_num := lf_num dl - toMove\<rparr>)
            (put_leaf rp (rl\<lparr>
               lf_keys := copy_range toMove (make_room (lf_num rl) toMove (lf_keys rl)) 0 (lf_keys dl) balanced,
               lf_values := copy_range toMove (make_room (lf_num rl) toMove (lf_values rl)) 0 (lf_values dl) balanced,
               lf_num := lf_num rl + toMove\<rparr>) t))
        else
          Inr (put_leaf dp (dl\<lparr>
               lf_keys := shift_down (lf_num dl - toMove) 0 toMove (lf_keys dl),
               lf_values := shift_down (lf_num dl - toMove) 0 toMove (lf_values dl),
               lf_num := lf_num dl - toMove\<rparr>)
            (put_leaf rp (rl\<lparr>
               lf_keys := copy_range toMove (lf_keys rl) (lf_num rl) (lf_keys dl) 0,
               lf_values := copy_range toMove (lf_values rl) (lf_num rl) (lf_values dl) 0,
               lf_num := lf_num rl + toMove\<rparr>) t)))))"

definition leaf_size :: "btree \<Rightarrow> nat option \<Rightarrow> nat result" where
  "leaf_size t q = rbind (deref q) (\<lambda>p. rbind (get_leaf t p) (\<lambda>l. Inr (lf_num l)))"

text \<open>\<open>keys[pos] = k\<close> in a branch; position \<open>N\<close> is behind the array.\<close>

definition set_branch_key :: "nat \<Rightarrow> nat \<Rightarrow> nat \<Rightarrow> nat \<Rightarrow> btree \<Rightarrow> btree result" where
  "set_branch_key N p pos k t =
     rbind (get_branch t p) (\<lambda>b.
     if N \<le> pos then Inl Undefined_behaviour
     else Inr (put_branch p (b\<lparr>br_keys := (br_keys b)[pos := k]\<rparr>) t))"

definition remove_merged_leaf :: "btree \<Rightarrow> nat \<Rightarrow> nat \<Rightarrow> nat \<Rightarrow> btree result" where
  "remove_merged_leaf t p pos survivor =
     rbind (get_branch t p) (\<lambda>b.
     if 1 < br_num b then
       (let pos' = (if 0 < pos then pos - 1 else pos); n = br_num b - 1 - pos' in
        Inr (put_branch p (b\<lparr>br_keys := shift_down n pos' 1 (br_keys b),
               br_children := (shift_down n (pos' + 1) 1 (br_children b))[pos' := survivor],
               br_num := br_num b - 1\<rparr>) t))
     else Inr (t\<lparr>bt_root := survivor, bt_depth := bt_depth t - 1\<rparr>))"

definition underflow_leaf :: "nat \<Rightarrow> nat \<Rightarrow> btree \<Rightarrow> nat \<Rightarrow> nat \<Rightarrow> nat \<Rightarrow> btree result" where
  "underflow_leaf N M t p pos lp =
     rbind (get_branch t p) (\<lambda>b.
     rbind (get_leaf t lp) (\<lambda>l.
     if br_num b < pos then Inl Assertion_failed
     else
       (let middle = (M + 1) div 2 in
        rbind (if 0 < pos then rbind (leaf_size t (lf_prev l)) (\<lambda>n. Inr (middle < n)) else Inr False) (\<lambda>left_rich.
        if left_rich then
          rbind (deref (lf_prev l)) (\<lambda>q.
          rbind (balance_leaves t q lp) (\<lambda>t1.
          rbind (get_leaf t1 lp) (\<lambda>l1. set_branch_key N p pos (lf_keys l1 ! 0) t1)))
        else
        rbind (if pos < br_num b then rbind (leaf_size t (lf_next l)) (\<lambda>n. Inr (middle < n)) else Inr False) (\<lambda>right_rich.
        if right_rich then
          rbind (deref (lf_next l)) (\<lambda>q.
          rbind (balance_leaves t q lp) (\<lambda>t1.
          rbind (get_leaf t1 q) (\<lambda>l1. set_branch_key N p pos (lf_keys l1 ! 0) t1)))
        else if 0 < pos then
          rbind (deref (lf_prev l)) (\<lambda>q.
          rbind (merge_leaves M t q lp) (\<lambda>t1. remove_merged_leaf (delete_leaf lp t1) p pos q))
        else if pos < br_num b then
          rbind (deref (lf_next l)) (\<lambda>q.
          rbind (merge_leaves M t lp q) (\<lambda>t1. remove_merged_leaf (delete_leaf q t1) p pos lp))
        else Inl Assertion_failed))))) "

section \<open>Erase at branch level\<close>

definition merge_branches :: "btree \<Rightarrow> nat \<Rightarrow> nat \<Rightarrow> nat \<Rightarrow> btree result" where
  "merge_branches t sp key p =
     rbind (get_branch t sp) (\<lambda>sb.
     rbind (get_branch t p) (\<lambda>b.
     if br_num sb = 0 then Inl Undefined_behaviour
     else if \<not> key \<le> br_keys b ! 0 \<or> \<not> br_keys sb ! (br_num sb - 1) < key then Inl Assertion_failed
     else
       (let n = br_num sb; k = br_num b in
        Inr (put_branch sp (sb\<lparr>
          br_keys := copy_range k ((br_keys sb)[n := key]) (n + 1) (br_keys b) 0,
          br_children := copy_range k ((br_children sb)[n + 1 := br_children b ! 0]) (n + 2) (br_children b) 1,
          br_num := n + k + 1\<rparr>) t))))"

definition balance_branches :: "btree \<Rightarrow> nat \<Rightarrow> nat \<Rightarrow> nat \<Rightarrow> nat \<Rightarrow> btree result" where
  "balance_branches t dp rp pp pos =
     rbind (get_branch t dp) (\<lambda>db.
     rbind (get_branch t rp) (\<lambda>rb.
     rbind (get_branch t pp) (\<lambda>pb.
     if \<not> br_num rb < br_num db then Inl Assertion_failed
     else
       (let dn = br_num db; rn = br_num rb; balanced = (dn + rn) div 2; toMove = dn - balanced in
        if toMove = 0 then Inr t
        else if \<not> pos < br_num pb then Inl Assertion_failed
        else if br_keys db ! 0 < br_keys rb ! 0 then
          (let rc = make_room rn toMove ((br_children rb)[rn + toMove := br_children rb ! rn]);
               rb' = rb\<lparr>br_children := copy_range toMove rc 0 (br_children db) (dn - toMove + 1),
                        br_keys := (copy_range (toMove - 1) (make_room rn toMove (br_keys rb)) 0 (br_keys db) (dn - toMove + 1))
                                     [toMove - 1 := br_keys pb ! pos],
                        br_num := rn + toMove\<rparr>;
               pb' = pb\<lparr>br_keys := (br_keys pb)[pos := br_keys db ! (dn - toMove)]\<rparr>
           in Inr (put_branch dp (db\<lparr>br_num := dn - toMove\<rparr>) (put_branch pp pb' (put_branch rp rb' t))))
        else
          (let rb' = rb\<lparr>br_children := copy_range toMove (br_children rb) (rn + 1) (br_children db) 0,
                        br_keys := (copy_range toMove (br_keys rb) (rn + 1) (br_keys db) 0)[rn := br_keys pb ! pos],
                        br_num := rn + toMove\<rparr>;
               db' = db\<lparr>br_keys := shift_down (dn - toMove) 0 toMove (br_keys db),
                        br_children := (shift_down (dn - toMove) 0 toMove (br_children db))[dn - toMove := br_children db ! dn],
                        br_num := dn - toMove\<rparr>;
               pb' = pb\<lparr>br_keys := (br_keys pb)[pos := br_keys db ! (toMove - 1)]\<rparr>
           in Inr (put_branch dp db' (put_branch pp pb' (put_branch rp rb' t))))))))"

text \<open>Removing a key and a child from a branch after its children were merged.\<close>

definition branch_drop :: "branch \<Rightarrow> nat \<Rightarrow> nat \<Rightarrow> branch" where
  "branch_drop b ppos pos =
     (let n = br_num b; pos' = (if pos = 0 then pos + 1 else pos) in
      b\<lparr>br_keys := shift_down (n - 1 - ppos) ppos 1 (br_keys b),
        br_children := shift_down (n - pos') pos' 1 (br_children b),
        br_num := n - 1\<rparr>)"

definition child_size :: "btree \<Rightarrow> branch \<Rightarrow> nat \<Rightarrow> nat result" where
  "child_size t b i = rbind (get_branch t (br_children b ! i)) (\<lambda>c. Inr (br_num c))"

definition underflow_branch :: "nat \<Rightarrow> btree \<Rightarrow> nat \<Rightarrow> nat \<Rightarrow> nat \<Rightarrow> (btree \<times> nat) result" where
  "underflow_branch N t p pos child =
     rbind (get_branch t p) (\<lambda>b.
     let middle = (N + 1) div 2 in
     rbind (if 0 < pos then rbind (child_size t b (pos - 1)) (\<lambda>n. Inr (Some n)) else Inr None) (\<lambda>prevKeys.
     if (case prevKeys of Some n \<Rightarrow> middle < n | None \<Rightarrow> False) then
       rbind (balance_branches t (br_children b ! (pos - 1)) child p (pos - 1)) (\<lambda>t1. Inr (t1, child))
     else
     rbind (if pos < br_num b then rbind (child_size t b (pos + 1)) (\<lambda>n. Inr (Some n)) else Inr None) (\<lambda>nextKeys.
     if (case nextKeys of Some n \<Rightarrow> middle < n | None \<Rightarrow> False) then
       rbind (balance_branches t (br_children b ! (pos + 1)) child p pos) (\<lambda>t1. Inr (t1, child))
     else if (case prevKeys of Some n \<Rightarrow> 0 < n | None \<Rightarrow> False) then
       (let ls = br_children b ! (pos - 1) in
        rbind (merge_branches t ls (br_keys b ! (pos - 1)) child) (\<lambda>t1.
        rbind (get_branch t1 p) (\<lambda>b1.
        Inr (delete_branch child (put_branch p (branch_drop b1 (pos - 1) pos) t1), ls))))
     else if (case nextKeys of Some n \<Rightarrow> 0 < n | None \<Rightarrow> False) then
       (let rs = br_children b ! (pos + 1) in
        rbind (merge_branches t child (br_keys b ! pos) rs) (\<lambda>t1.
        rbind (get_branch t1 p) (\<lambda>b1.
        Inr (delete_branch rs (put_branch p (branch_drop b1 pos pos) t1), child))))
     else Inl Assertion_failed)))"

text \<open>
  Erasing below a branch at level \<open>d + 1\<close>. The underflow test after the leaf was changed reads the
  leaf the key was looked up in; the position is looked up again after the recursive call.
\<close>

fun erase_branch :: "nat \<Rightarrow> nat \<Rightarrow> btree \<Rightarrow> nat \<Rightarrow> nat \<Rightarrow> nat \<Rightarrow> (btree \<times> bool) result" where
  "erase_branch N M t p 0 key = Inl Assertion_failed"
| "erase_branch N M t p (Suc d) key =
     rbind (get_branch t p) (\<lambda>b.
     let pos = branch_pos b key; c = br_children b ! pos in
     if d = 0 then
       rbind (get_leaf t c) (\<lambda>l.
       rbind (erase_leaf M l key) (\<lambda>(l', deleted).
       let t1 = put_leaf c l' t in
       if lf_num l' < (M + 1) div 2 then rbind (underflow_leaf N M t1 p pos c) (\<lambda>t2. Inr (t2, deleted))
       else Inr (t1, deleted)))
     else
       rbind (erase_branch N M t c d key) (\<lambda>(t1, deleted).
       rbind (get_branch t1 p) (\<lambda>b1.
       let pos1 = branch_pos b1 key in
       rbind (get_branch t1 c) (\<lambda>cb.
       if br_num cb < (N + 1) div 2 then
         rbind (underflow_branch N t1 p pos1 c) (\<lambda>(t2, c').
         rbind (get_branch t2 p) (\<lambda>b2.
         if Suc d = bt_depth t2 \<and> br_num b2 = 0 then Inr (t2\<lparr>bt_root := c', bt_depth := bt_depth t2 - 1\<rparr>, deleted)
         else Inr (t2, deleted)))
       else Inr (t1, deleted)))))"

definition bt_erase :: "nat \<Rightarrow> nat \<Rightarrow> nat \<Rightarrow> btree \<Rightarrow> (btree \<times> bool) result" where
  "bt_erase N M key t =
     (if bt_depth t = 0 then
        rbind (get_leaf t (bt_root t)) (\<lambda>l.
        rbind (erase_leaf M l key) (\<lambda>(l', deleted). Inr (put_leaf (bt_root t) l' t, deleted)))
      else erase_branch N M t (bt_root t) (bt_depth t) key)"

section \<open>Array loops, characterised\<close>

lemma shift_up_length [simp]: "length (shift_up lo n a) = length a"
  by (induction lo n a rule: shift_up.induct) auto

lemma shift_up_nth:
  "i < length a \<Longrightarrow> n < length a \<Longrightarrow> shift_up lo n a ! i = (if lo < i \<and> i \<le> n then a ! (i - 1) else a ! i)"
proof (induction lo n a rule: shift_up.induct)
  case (2 lo n a)
  then show ?case by (cases i) (auto simp: nth_list_update le_Suc_eq)
qed simp

lemma copy_range_length [simp]: "length (copy_range n d p s q) = length d"
  by (induction n d p s q rule: copy_range.induct) auto

lemma copy_range_nth:
  "i < length d \<Longrightarrow> copy_range n d p s q ! i = (if p \<le> i \<and> i < p + n then s ! (q + (i - p)) else d ! i)"
proof (induction n d p s q rule: copy_range.induct)
  case (2 n d p s q)
  then show ?case
  proof (cases "Suc p \<le> i")
    case True
    then obtain k where "i = Suc p + k" using le_Suc_ex by blast
    then show ?thesis using 2 by simp
  next
    case False
    then show ?thesis using 2 by (cases "i = p") auto
  qed
qed auto

lemma take_shift_up:
  assumes "pos \<le> n" "n < length a"
  shows "take (Suc n) ((shift_up pos n a)[pos := x]) = take pos (take n a) @ x # drop pos (take n a)"
proof (rule nth_equalityI)
  show "length (take (Suc n) ((shift_up pos n a)[pos := x])) = length (take pos (take n a) @ x # drop pos (take n a))"
    using assms by simp
next
  fix i assume "i < length (take (Suc n) ((shift_up pos n a)[pos := x]))"
  then have i: "i \<le> n" "i < length a" using assms by auto
  then show "take (Suc n) ((shift_up pos n a)[pos := x]) ! i = (take pos (take n a) @ x # drop pos (take n a)) ! i"
    using assms by (cases "i < pos"; cases "i = pos") (auto simp: nth_append shift_up_nth nth_list_update nth_Cons')
qed

lemma take_copy_range:
  assumes "q + n \<le> length s" "n \<le> length d"
  shows "take n (copy_range n d 0 s q) = take n (drop q s)"
  by (rule nth_equalityI) (use assms in \<open>auto simp: copy_range_nth\<close>)

section \<open>Insertion into a sorted association list\<close>

fun ins :: "nat \<Rightarrow> nat \<Rightarrow> (nat \<times> nat) list \<Rightarrow> (nat \<times> nat) list" where
  "ins key val [] = [(key, val)]"
| "ins key val ((k, v) # xs) =
     (if k < key then (k, v) # ins key val xs else if k = key then (key, val) # xs else (key, val) # (k, v) # xs)"

lemma ins_append_left: "(\<forall>k\<in>fst ` set a. k < key) \<Longrightarrow> ins key val (a @ b) = a @ ins key val b"
  by (induction a) auto

lemma ins_append_right: "(\<forall>k\<in>fst ` set b. key < k) \<Longrightarrow> ins key val (a @ b) = ins key val a @ b"
proof (induction a)
  case Nil
  then show ?case by (cases b) auto
qed auto

lemma map_of_ins: "sorted_wrt (<) (map fst xs) \<Longrightarrow> map_of (ins key val xs) = (map_of xs)(key \<mapsto> val)"
  by (induction xs) (auto simp: fun_upd_twist)

lemma ins_take_drop:
  "ins key val xs =
     (let pos = length (takeWhile (\<lambda>k. k < key) (map fst xs)) in
      take pos xs @ (key, val) # (if pos < length xs \<and> fst (xs ! pos) = key then drop (Suc pos) xs else drop pos xs))"
  by (induction xs) (auto simp: Let_def)

section \<open>Leaves\<close>

definition leaf_ok :: "nat \<Rightarrow> leaf \<Rightarrow> bool" where
  "leaf_ok M l = (length (lf_keys l) = M \<and> length (lf_values l) = M \<and> lf_num l \<le> M \<and>
     sorted_wrt (<) (take (lf_num l) (lf_keys l)))"

lemma leaf_entries_keys: "leaf_ok M l \<Longrightarrow> map fst (leaf_entries l) = take (lf_num l) (lf_keys l)"
  by (simp add: leaf_entries_def leaf_ok_def)

lemma leaf_entries_length: "leaf_ok M l \<Longrightarrow> length (leaf_entries l) = lf_num l"
  by (simp add: leaf_entries_def leaf_ok_def)

lemma leaf_entries_nth:
  "leaf_ok M l \<Longrightarrow> i < lf_num l \<Longrightarrow> leaf_entries l ! i = (lf_keys l ! i, lf_values l ! i)"
  by (simp add: leaf_entries_def leaf_ok_def)

lemma leaf_pos_entries: "leaf_ok M l \<Longrightarrow> leaf_pos l key = length (takeWhile (\<lambda>k. k < key) (map fst (leaf_entries l)))"
  by (simp add: leaf_pos_def leaf_entries_keys)

lemma leaf_pos_le: "leaf_ok M l \<Longrightarrow> leaf_pos l key \<le> lf_num l"
  unfolding leaf_pos_def using length_takeWhile_le [of "\<lambda>k. k < key" "take (lf_num l) (lf_keys l)"] by simp

lemma set_ins: "fst ` set (ins key val xs) = insert key (fst ` set xs)"
  by (induction key val xs rule: ins.induct) (simp_all add: insert_commute)

lemma sorted_ins: "sorted_wrt (<) (map fst xs) \<Longrightarrow> sorted_wrt (<) (map fst (ins key val xs))"
proof (induction key val xs rule: ins.induct)
  case (2 key val k v xs)
  have "\<forall>a\<in>fst ` set (ins key val xs). k < a" if "k < key" using 2(2) that by (simp add: set_ins)
  then show ?case using 2 by auto
qed simp

section \<open>Trees\<close>

text \<open>
  A subtree at depth \<open>d\<close> below address \<open>p\<close>: its entries in order, its addresses, and the invariant: every
  key of it lies in \<open>[lo, hi)\<close>, and the keys of a branch separate its children.
\<close>

abbreviation bks :: "branch \<Rightarrow> nat list" where
  "bks b \<equiv> take (br_num b) (br_keys b)"

abbreviation bcs :: "branch \<Rightarrow> nat list" where
  "bcs b \<equiv> take (Suc (br_num b)) (br_children b)"

fun bt_entries :: "btree \<Rightarrow> nat \<Rightarrow> nat \<Rightarrow> (nat \<times> nat) list" where
  "bt_entries t 0 p = (case bt_leaves t p of None \<Rightarrow> [] | Some l \<Rightarrow> leaf_entries l)"
| "bt_entries t (Suc d) p = (case bt_branches t p of None \<Rightarrow> [] | Some b \<Rightarrow> concat (map (\<lambda>c. bt_entries t d c) (bcs b)))"

fun bt_addrs :: "btree \<Rightarrow> nat \<Rightarrow> nat \<Rightarrow> nat list" where
  "bt_addrs t 0 p = [p]"
| "bt_addrs t (Suc d) p = p # (case bt_branches t p of None \<Rightarrow> [] | Some b \<Rightarrow> concat (map (\<lambda>c. bt_addrs t d c) (bcs b)))"

fun segs :: "(nat \<Rightarrow> nat \<Rightarrow> nat \<Rightarrow> bool) \<Rightarrow> nat \<Rightarrow> nat list \<Rightarrow> nat list \<Rightarrow> nat \<Rightarrow> bool" where
  "segs P lo [] [c] hi = P c lo hi"
| "segs P lo (k # ks) (c # cs) hi = (P c lo k \<and> segs P k ks cs hi)"
| "segs P lo ks cs hi = False"

definition branch_ok :: "nat \<Rightarrow> branch \<Rightarrow> bool" where
  "branch_ok N b = (length (br_keys b) = N \<and> length (br_children b) = Suc N \<and> br_num b \<le> N)"

fun bt_ok :: "nat \<Rightarrow> nat \<Rightarrow> btree \<Rightarrow> nat \<Rightarrow> nat \<Rightarrow> nat \<Rightarrow> nat \<Rightarrow> bool" where
  "bt_ok N M t 0 p lo hi = (lo \<le> hi \<and>
     (case bt_leaves t p of None \<Rightarrow> False
      | Some l \<Rightarrow> leaf_ok M l \<and> (\<forall>k\<in>set (take (lf_num l) (lf_keys l)). lo \<le> k \<and> k < hi)))"
| "bt_ok N M t (Suc d) p lo hi = (lo \<le> hi \<and>
     (case bt_branches t p of None \<Rightarrow> False
      | Some b \<Rightarrow> branch_ok N b \<and> segs (\<lambda>c l h. bt_ok N M t d c l h) lo (bks b) (bcs b) hi))"

lemma bt_ok_le: "bt_ok N M t d p lo hi \<Longrightarrow> lo \<le> hi"
  by (cases d) auto

lemma bt_ok_le_all: "\<forall>c l h. bt_ok N M t d c l h \<longrightarrow> l \<le> h"
  using bt_ok_le by blast

lemma segs_length: "segs P lo ks cs hi \<Longrightarrow> length cs = Suc (length ks)"
  by (induction P lo ks cs hi rule: segs.induct) auto

lemma segs_mono:
  "segs P lo ks cs hi \<Longrightarrow> (\<And>c l h. c \<in> set cs \<Longrightarrow> P c l h \<Longrightarrow> Q c l h) \<Longrightarrow> segs Q lo ks cs hi"
  by (induction P lo ks cs hi rule: segs.induct) auto

lemma segs_append:
  "length cs1 = Suc (length ks1) \<Longrightarrow>
   segs P lo (ks1 @ k # ks2) (cs1 @ cs2) hi \<longleftrightarrow> segs P lo ks1 cs1 k \<and> segs P k ks2 cs2 hi"
proof (induction ks1 arbitrary: lo cs1)
  case Nil
  then obtain c where "cs1 = [c]" by (cases cs1) auto
  then show ?case by simp
next
  case (Cons a ks1)
  then obtain c cs where "cs1 = c # cs" by (cases cs1) auto
  then show ?case using Cons by simp
qed

lemma segs_le:
  assumes "segs P lo ks cs hi" "\<forall>c l h. P c l h \<longrightarrow> l \<le> h"
  shows "lo \<le> hi \<and> (\<forall>k\<in>set ks. lo \<le> k \<and> k \<le> hi) \<and> sorted ks"
  using assms
proof (induction P lo ks cs hi rule: segs.induct)
  case (2 P lo k ks c cs hi)
  have IH: "k \<le> hi" "\<forall>a\<in>set ks. k \<le> a \<and> a \<le> hi" "sorted ks" using 2 by auto
  have "lo \<le> k" using 2 by auto
  then show ?case using IH by (auto intro: order_trans [of lo k])
qed auto

lemma segs_lower:
  assumes "segs P lo ks cs hi" "\<forall>c l h. P c l h \<longrightarrow> l \<le> h" "e \<in> set cs"
  shows "\<exists>l h. P e l h \<and> lo \<le> l \<and> h \<le> hi"
  using assms
proof (induction P lo ks cs hi rule: segs.induct)
  case (2 P lo k ks c cs hi)
  have le: "lo \<le> k" "k \<le> hi" using "2.prems" segs_le [of P k ks cs hi] by auto
  show ?case
  proof (cases "e = c")
    case False
    then obtain l h where "P e l h" "k \<le> l" "h \<le> hi" using 2 by auto
    then show ?thesis using le by (meson order_trans)
  qed (use "2.prems" le in auto)
qed auto

text \<open>The child whose range holds the key, and the replacement of it by one or two children.\<close>

lemma segs_focus:
  assumes "segs P lo ks cs hi" "lo \<le> key" "key < hi" "\<forall>c l h. P c l h \<longrightarrow> l \<le> h"
    "pos = length (takeWhile (\<lambda>k. k \<le> key) ks)"
  shows "\<exists>cs1 c cs2 lo' hi'. cs = cs1 @ c # cs2 \<and> length cs1 = pos \<and> lo' \<le> key \<and> key < hi' \<and> P c lo' hi' \<and>
     (\<forall>e\<in>set cs1. \<exists>l h. P e l h \<and> h \<le> key) \<and> (\<forall>e\<in>set cs2. \<exists>l h. P e l h \<and> key < l) \<and>
     (\<forall>Q c'. (\<forall>e l h. e \<in> set (cs1 @ cs2) \<longrightarrow> P e l h \<longrightarrow> Q e l h) \<longrightarrow> Q c' lo' hi' \<longrightarrow> segs Q lo ks (cs1 @ c' # cs2) hi) \<and>
     (\<forall>Q k l r. (\<forall>e l h. e \<in> set (cs1 @ cs2) \<longrightarrow> P e l h \<longrightarrow> Q e l h) \<longrightarrow> Q l lo' k \<longrightarrow> Q r k hi' \<longrightarrow>
        segs Q lo (take pos ks @ k # drop pos ks) (cs1 @ l # r # cs2) hi)"
  using assms(1-3,5)
proof (induction ks arbitrary: lo cs pos)
  case Nil
  then obtain c where "cs = [c]" using segs_length [OF Nil(1)] by (cases cs) auto
  then show ?case using Nil by (intro exI [of _ "[]"] exI [of _ c] exI [of _ "[]"] exI [of _ lo] exI [of _ hi]) simp
next
  case (Cons k ks)
  then obtain c cs' where cs: "cs = c # cs'" using segs_length [OF Cons.prems(1)] by (cases cs) auto
  have P: "P c lo k" and s: "segs P k ks cs' hi" using Cons.prems(1) cs by auto
  show ?case
  proof (cases "k \<le> key")
    case True
    obtain p' where pos: "pos = Suc p'" "p' = length (takeWhile (\<lambda>k. k \<le> key) ks)" using Cons.prems(4) True by simp
    from Cons.IH [OF s True Cons.prems(3) pos(2)] obtain cs1 c1 cs2 lo' hi' where *:
      "cs' = cs1 @ c1 # cs2" "length cs1 = p'" "lo' \<le> key" "key < hi'" "P c1 lo' hi'"
      "\<forall>e\<in>set cs1. \<exists>l h. P e l h \<and> h \<le> key" "\<forall>e\<in>set cs2. \<exists>l h. P e l h \<and> key < l"
      "\<forall>Q c'. (\<forall>e l h. e \<in> set (cs1 @ cs2) \<longrightarrow> P e l h \<longrightarrow> Q e l h) \<longrightarrow> Q c' lo' hi' \<longrightarrow> segs Q k ks (cs1 @ c' # cs2) hi"
      "\<forall>Q k' l r. (\<forall>e l h. e \<in> set (cs1 @ cs2) \<longrightarrow> P e l h \<longrightarrow> Q e l h) \<longrightarrow> Q l lo' k' \<longrightarrow> Q r k' hi' \<longrightarrow>
        segs Q k (take p' ks @ k' # drop p' ks) (cs1 @ l # r # cs2) hi"
      by (elim exE conjE) (rule that)
    show ?thesis
      by (rule exI [of _ "c # cs1"], rule exI [of _ c1], rule exI [of _ cs2], rule exI [of _ lo'], rule exI [of _ hi'])
        (use * P True pos cs in auto)
  next
    case False
    then have pos: "pos = 0" using Cons.prems(4) by simp
    have "\<exists>l h. P e l h \<and> key < l" if e: "e \<in> set cs'" for e
    proof -
      have "\<exists>l h. P e l h \<and> k \<le> l" using segs_lower [OF s assms(4) e] by blast
      then show ?thesis using False by force
    qed
    then show ?thesis using P s False pos Cons.prems(2) cs
      by (intro exI [of _ "[]"] exI [of _ c] exI [of _ cs'] exI [of _ lo] exI [of _ k])
        (auto intro: segs_mono)
  qed
qed

section \<open>Framing\<close>

definition agree :: "nat set \<Rightarrow> btree \<Rightarrow> btree \<Rightarrow> bool" where
  "agree A t t' = (\<forall>a\<in>A. bt_leaves t' a = bt_leaves t a \<and> bt_branches t' a = bt_branches t a)"

lemma bt_frame:
  assumes "agree (set (bt_addrs t d p)) t t'"
  shows "bt_addrs t' d p = bt_addrs t d p \<and> bt_entries t' d p = bt_entries t d p \<and>
     (bt_ok N M t d p lo hi \<longrightarrow> bt_ok N M t' d p lo hi)"
  using assms
proof (induction d arbitrary: p lo hi)
  case 0
  then show ?case by (simp add: agree_def)
next
  case (Suc d)
  have b: "bt_branches t' p = bt_branches t p" using Suc.prems by (simp add: agree_def)
  show ?case
  proof (cases "bt_branches t p")
    case (Some b')
    have IH: "bt_addrs t' d c = bt_addrs t d c \<and> bt_entries t' d c = bt_entries t d c \<and>
        (bt_ok N M t d c l h \<longrightarrow> bt_ok N M t' d c l h)" if "c \<in> set (bcs b')" for c l h
      using that Suc.prems Some by (intro Suc.IH) (auto simp: agree_def)
    then have "map (\<lambda>c. bt_addrs t' d c) (bcs b') = map (\<lambda>c. bt_addrs t d c) (bcs b')"
      "map (\<lambda>c. bt_entries t' d c) (bcs b') = map (\<lambda>c. bt_entries t d c) (bcs b')" by (auto intro: map_cong)
    then have "concat (map (\<lambda>c. bt_addrs t' d c) (bcs b')) = concat (map (\<lambda>c. bt_addrs t d c) (bcs b'))"
      "concat (map (\<lambda>c. bt_entries t' d c) (bcs b')) = concat (map (\<lambda>c. bt_entries t d c) (bcs b'))" by (simp_all only:)
    moreover have "segs (\<lambda>c l h. bt_ok N M t' d c l h) lo (bks b') (bcs b') hi"
      if "segs (\<lambda>c l h. bt_ok N M t d c l h) lo (bks b') (bcs b') hi"
      using that by (rule segs_mono) (use IH in blast)
    ultimately show ?thesis using b Some by simp
  qed (use b in simp)
qed

lemma bt_frame_ok:
  "bt_ok N M t d p lo hi \<Longrightarrow> agree (set (bt_addrs t d p)) t t' \<Longrightarrow> bt_ok N M t' d p lo hi"
  using bt_frame by blast

lemma bt_keys_bounds:
  "bt_ok N M t d p lo hi \<Longrightarrow> (k, v) \<in> set (bt_entries t d p) \<Longrightarrow> lo \<le> k \<and> k < hi"
proof (induction d arbitrary: p lo hi)
  case 0
  then show ?case by (auto simp: leaf_entries_def dest: set_zip_leftD split: option.splits)
next
  case (Suc d)
  then obtain b c where b: "bt_branches t p = Some b" "segs (\<lambda>c l h. bt_ok N M t d c l h) lo (bks b) (bcs b) hi"
    "c \<in> set (bcs b)" "(k, v) \<in> set (bt_entries t d c)" by (auto split: option.splits)
  from segs_lower [OF b(2) bt_ok_le_all b(3)] obtain l h where "bt_ok N M t d c l h" "lo \<le> l" "h \<le> hi" by blast
  then show ?case using Suc.IH [of c l h] b(4) by force
qed

lemma branch_pos_bks: "branch_pos b key = length (takeWhile (\<lambda>k. k \<le> key) (bks b))"
  by (simp add: branch_pos_def)

section \<open>Lookup\<close>

lemma map_of_sorted_pos:
  fixes xs :: "(nat \<times> 'v) list"
  assumes "sorted_wrt (<) (map fst xs)"
  shows "map_of xs key = (let pos = length (takeWhile (\<lambda>k. k < key) (map fst xs)) in
     if pos < length xs \<and> fst (xs ! pos) = key then Some (snd (xs ! pos)) else None)"
  using assms
proof (induction xs)
  case (Cons kv xs)
  have "\<forall>a\<in>fst ` set xs. fst kv < a" using Cons.prems by simp
  then have "key \<notin> fst ` set xs" if "key \<le> fst kv" using that by (meson leD)
  then have "map_of xs key = None" if "key \<le> fst kv" using that by (simp add: map_of_eq_None_iff)
  then show ?case using Cons by (cases kv) (auto simp: Let_def)
qed simp

lemma find_leaf_ok:
  assumes "bt_ok N M t d p lo hi" "lo \<le> key" "key < hi"
  shows "\<exists>q l. find_leaf_from t d p key = Inr q \<and> bt_leaves t q = Some l \<and> leaf_ok M l \<and>
     map_of (leaf_entries l) key = map_of (bt_entries t d p) key"
  using assms
proof (induction d arbitrary: p lo hi)
  case 0
  then show ?case by (auto split: option.splits)
next
  case (Suc d)
  then obtain b where b: "bt_branches t p = Some b" "branch_ok N b"
    "segs (\<lambda>c l h. bt_ok N M t d c l h) lo (bks b) (bcs b) hi" by (auto split: option.splits)
  from segs_focus [OF b(3) Suc.prems(2,3) bt_ok_le_all branch_pos_bks]
  obtain cs1 c cs2 lo' hi' where c: "bcs b = cs1 @ c # cs2" "length cs1 = branch_pos b key" "lo' \<le> key" "key < hi'"
    "bt_ok N M t d c lo' hi'" "\<forall>e\<in>set cs1. \<exists>l h. bt_ok N M t d e l h \<and> h \<le> key"
    "\<forall>e\<in>set cs2. \<exists>l h. bt_ok N M t d e l h \<and> key < l"
    by (elim exE conjE) (rule that)
  have "bcs b ! branch_pos b key = c" using c(1,2) by (metis nth_append_length)
  moreover have "branch_pos b key < length (bcs b)" using c(1,2) by simp
  ultimately have ch: "br_children b ! branch_pos b key = c" by (metis length_take min_less_iff_conj nth_take)
  have "map_of (bt_entries t d e) key = None" if "e \<in> set cs1 \<union> set cs2" for e
    using that c(6,7) bt_keys_bounds [of N M t d e] by (fastforce simp: map_of_eq_None_iff)
  then have "map_of (concat (map (bt_entries t d) cs)) key = None" if "set cs \<subseteq> set cs1 \<union> set cs2" for cs
    using that by (induction cs) auto
  then have "map_of (bt_entries t (Suc d) p) key = map_of (bt_entries t d c) key"
    using b(1) c(1) by (simp add: map_add_def split: option.split)
  then show ?case using Suc.IH [OF c(5,3,4)] b(1) ch by (simp add: get_branch_def)
qed

section \<open>Insertion into a leaf\<close>

lemma leaf_insert_at_ok:
  assumes "length (lf_keys l) = M" "length (lf_values l) = M" "pos \<le> lf_num l" "lf_num l < M"
  shows "\<exists>l'. leaf_insert_at M l pos key val = Inr l' \<and> length (lf_keys l') = M \<and> length (lf_values l') = M \<and>
     lf_num l' = Suc (lf_num l) \<and> lf_next l' = lf_next l \<and>
     leaf_entries l' = take pos (leaf_entries l) @ (key, val) # drop pos (leaf_entries l)"
  using assms by (simp add: leaf_insert_at_def leaf_entries_def take_shift_up take_zip drop_zip)

definition ins_parts :: "nat \<Rightarrow> split_info option \<Rightarrow> nat list" where
  "ins_parts p cs = (case cs of None \<Rightarrow> [p] | Some si \<Rightarrow> [p, si_right si])"

definition ins_post ::
  "nat \<Rightarrow> nat \<Rightarrow> btree \<Rightarrow> nat \<Rightarrow> nat \<Rightarrow> nat \<Rightarrow> nat \<Rightarrow> nat \<Rightarrow> nat \<Rightarrow> btree \<Rightarrow> split_info option \<Rightarrow> bool" where
  "ins_post N M t d p lo hi key val t' cs \<longleftrightarrow>
     agree ({..<bt_fresh t} - set (bt_addrs t d p)) t t' \<and> bt_fresh t \<le> bt_fresh t' \<and>
     bt_root t' = bt_root t \<and> bt_depth t' = bt_depth t \<and>
     distinct (concat (map (bt_addrs t' d) (ins_parts p cs))) \<and>
     set (concat (map (bt_addrs t' d) (ins_parts p cs))) \<subseteq> set (bt_addrs t d p) \<union> {bt_fresh t..<bt_fresh t'} \<and>
     concat (map (bt_entries t' d) (ins_parts p cs)) = ins key val (bt_entries t d p) \<and>
     (case cs of None \<Rightarrow> bt_ok N M t' d p lo hi
      | Some si \<Rightarrow> si_left si = p \<and> bt_ok N M t' d p lo (si_key si) \<and> bt_ok N M t' d (si_right si) (si_key si) hi)"

lemma leaf_ok_entries:
  "leaf_ok M l \<longleftrightarrow> length (lf_keys l) = M \<and> length (lf_values l) = M \<and> lf_num l \<le> M \<and> sorted_wrt (<) (map fst (leaf_entries l))"
  by (auto simp: leaf_ok_def leaf_entries_def)

lemma bt_ok_leaf:
  "bt_leaves t p = Some l \<Longrightarrow> leaf_ok M l \<Longrightarrow>
   bt_ok N M t 0 p lo hi \<longleftrightarrow> lo \<le> hi \<and> (\<forall>k\<in>fst ` set (leaf_entries l). lo \<le> k \<and> k < hi)"
  using leaf_entries_keys [of M l] by (auto simp flip: list.set_map)

lemma put_leaf_simps [simp]:
  "bt_leaves (put_leaf p l t) = (bt_leaves t)(p \<mapsto> l)" "bt_branches (put_leaf p l t) = bt_branches t"
  "bt_fresh (put_leaf p l t) = bt_fresh t" "bt_root (put_leaf p l t) = bt_root t" "bt_depth (put_leaf p l t) = bt_depth t"
  by (simp_all add: put_leaf_def)

lemma put_branch_simps [simp]:
  "bt_branches (put_branch p b t) = (bt_branches t)(p \<mapsto> b)" "bt_leaves (put_branch p b t) = bt_leaves t"
  "bt_fresh (put_branch p b t) = bt_fresh t" "bt_root (put_branch p b t) = bt_root t" "bt_depth (put_branch p b t) = bt_depth t"
  by (simp_all add: put_branch_def)

lemma get_leaf_eq: "bt_leaves t p = Some l \<Longrightarrow> get_leaf t p = Inr l"
  by (simp add: get_leaf_def)

lemma get_branch_eq: "bt_branches t p = Some b \<Longrightarrow> get_branch t p = Inr b"
  by (simp add: get_branch_def)

lemma insert_leaf_keep:
  assumes "bt_leaves t p = Some l" "leaf_ok M l'" "\<forall>k\<in>fst ` set (leaf_entries l). lo \<le> k \<and> k < hi" "lo \<le> key" "key < hi"
    "leaf_entries l' = ins key val (leaf_entries l)"
  shows "ins_post N M t 0 p lo hi key val (put_leaf p l' t) None"
proof -
  have "bt_ok N M (put_leaf p l' t) 0 p lo hi"
    using bt_ok_leaf [of "put_leaf p l' t" p l' M N lo hi] assms(2-6) by (simp add: set_ins)
  then show ?thesis using assms(1,6) by (auto simp: ins_post_def ins_parts_def agree_def)
qed

lemma split_lists:
  assumes "m \<le> length xs" "pos \<le> length xs"
  shows "pos < m \<Longrightarrow> (take pos (take m xs) @ x # drop pos (take m xs)) @ drop m xs = take pos xs @ x # drop pos xs"
    "m \<le> pos \<Longrightarrow> take m xs @ take (pos - m) (drop m xs) @ x # drop (pos - m) (drop m xs) = take pos xs @ x # drop pos xs"
proof -
  assume "pos < m"
  then show "(take pos (take m xs) @ x # drop pos (take m xs)) @ drop m xs = take pos xs @ x # drop pos xs"
    by (simp add: min_def drop_take) (metis append_take_drop_id drop_drop le_add_diff_inverse2 less_imp_le_nat)
next
  assume "m \<le> pos"
  then have "take pos xs = take m xs @ take (pos - m) (drop m xs)" by (metis le_add_diff_inverse take_add)
  then show "take m xs @ take (pos - m) (drop m xs) @ x # drop (pos - m) (drop m xs) = take pos xs @ x # drop pos xs"
    using \<open>m \<le> pos\<close> by simp
qed

lemma insert_leaf_split:
  assumes l: "bt_leaves t p = Some l" and pf: "p < bt_fresh t" and "lo \<le> key" "key < hi"
    and bnd: "\<forall>k\<in>fst ` set (leaf_entries l). lo \<le> k \<and> k < hi"
    and t': "bt_leaves t' = (bt_leaves t)(p \<mapsto> l3, bt_fresh t \<mapsto> sl3)" "bt_branches t' = bt_branches t"
      "bt_fresh t' = Suc (bt_fresh t)" "bt_root t' = bt_root t" "bt_depth t' = bt_depth t"
    and ok: "length (lf_keys l3) = M" "length (lf_values l3) = M" "lf_num l3 \<le> M"
      "length (lf_keys sl3) = M" "length (lf_values sl3) = M" "lf_num sl3 \<le> M"
    and e: "leaf_entries l3 @ leaf_entries sl3 = ins key val (leaf_entries l)" "leaf_ok M l" "0 < lf_num sl3" "leaf_entries l3 \<noteq> []"
  shows "ins_post N M t 0 p lo hi key val t' (Some \<lparr>si_key = lf_keys sl3 ! 0, si_left = p, si_right = bt_fresh t\<rparr>)"
proof -
  let ?k = "lf_keys sl3 ! 0" and ?s = "bt_fresh t"
  have so: "sorted_wrt (<) (map fst (leaf_entries l3 @ leaf_entries sl3))"
    using e(2) sorted_ins [of "leaf_entries l"] unfolding e(1) by (simp add: leaf_ok_entries)
  then have lk: "leaf_ok M l3" "leaf_ok M sl3" using ok by (auto simp: leaf_ok_entries sorted_wrt_append)
  have hd: "leaf_entries sl3 ! 0 = (?k, lf_values sl3 ! 0)" using leaf_entries_nth [OF lk(2) e(3)] .
  have ln: "length (leaf_entries sl3) = lf_num sl3" using leaf_entries_length [OF lk(2)] .
  then obtain rest where sl: "leaf_entries sl3 = (?k, lf_values sl3 ! 0) # rest"
    using hd e(3) by (cases "leaf_entries sl3") auto
  have so': "\<forall>a\<in>fst ` set (leaf_entries l3). a < ?k" "\<forall>a\<in>fst ` set (leaf_entries sl3). ?k \<le> a"
    using so unfolding sl by (auto simp: sorted_wrt_append)
  have "fst ` set (leaf_entries l3 @ leaf_entries sl3) = insert key (fst ` set (leaf_entries l))"
    unfolding e(1) by (rule set_ins)
  then have b2: "\<forall>a\<in>fst ` set (leaf_entries l3) \<union> fst ` set (leaf_entries sl3). lo \<le> a \<and> a < hi"
    using bnd assms(3,4) by (simp add: image_Un)
  have ks: "?k \<in> fst ` set (leaf_entries sl3)" unfolding sl by simp
  obtain a where a: "a \<in> fst ` set (leaf_entries l3)" using e(4) by (cases "leaf_entries l3") auto
  have lo: "lo \<le> ?k" "?k \<le> hi" using ks b2 by (auto intro: less_imp_le)
  have ne: "p \<noteq> ?s" using pf by simp
  have lv: "bt_leaves t' p = Some l3" "bt_leaves t' ?s = Some sl3" using t'(1) ne by simp_all
  have "bt_ok N M t' 0 p lo ?k" using bt_ok_leaf [OF lv(1) lk(1)] so'(1) b2 lo by blast
  moreover have "bt_ok N M t' 0 ?s ?k hi" using bt_ok_leaf [OF lv(2) lk(2)] so'(2) b2 lo by blast
  ultimately show ?thesis using t' l e(1) lv ne
    by (auto simp: ins_post_def ins_parts_def agree_def simp del: bt_ok.simps)
qed

lemma insert_leaf_ok:
  assumes "bt_ok N M t 0 p lo hi" "lo \<le> key" "key < hi" "p < bt_fresh t" "2 \<le> M"
  shows "\<exists>t' cs. insert_leaf M t p key val = Inr (t', cs) \<and> ins_post N M t 0 p lo hi key val t' cs"
proof -
  from assms(1) obtain l where l: "bt_leaves t p = Some l" "leaf_ok M l" by (auto split: option.splits)
  have bnd: "\<forall>k\<in>fst ` set (leaf_entries l). lo \<le> k \<and> k < hi" using assms(1) bt_ok_leaf [OF l] by blast
  let ?es = "leaf_entries l" and ?pos = "leaf_pos l key"
  have len: "length ?es = lf_num l" using leaf_entries_length [OF l(2)] .
  have pos: "?pos \<le> lf_num l" using leaf_pos_le [OF l(2)] .
  have lm: "length (lf_keys l) = M" "length (lf_values l) = M" "lf_num l \<le> M" using l(2) by (simp_all add: leaf_ok_def)
  have ins: "ins key val ?es = take ?pos ?es @ (key, val) #
      (if ?pos < lf_num l \<and> lf_keys l ! ?pos = key then drop (Suc ?pos) ?es else drop ?pos ?es)"
    using ins_take_drop [of key val ?es] leaf_entries_nth [OF l(2), of ?pos]
    unfolding leaf_pos_entries [OF l(2), symmetric] Let_def len by (simp cong: conj_cong)
  consider (dup) "?pos < lf_num l \<and> lf_keys l ! ?pos = key"
    | (full) "\<not> (?pos < lf_num l \<and> lf_keys l ! ?pos = key)" "lf_num l = M"
    | (room) "\<not> (?pos < lf_num l \<and> lf_keys l ! ?pos = key)" "lf_num l < M" using lm by linarith
  then show ?thesis
  proof cases
    case dup
    let ?l = "l\<lparr>lf_values := (lf_values l)[?pos := val]\<rparr>"
    have "leaf_entries ?l = ?es[?pos := (key, val)]" using dup lm
      by (simp add: leaf_entries_def take_update_swap flip: zip_update) (metis list_update_id nth_take)
    then have e: "leaf_entries ?l = ins key val ?es" using dup ins len by (simp add: upd_conv_take_nth_drop)
    moreover have "leaf_ok M ?l" using l(2) by (simp add: leaf_ok_def)
    ultimately have "ins_post N M t 0 p lo hi key val (put_leaf p ?l t) None"
      using insert_leaf_keep [OF l(1) _ bnd assms(2,3)] by blast
    then show ?thesis using dup get_leaf_eq [OF l(1)] by (auto simp: insert_leaf_def Let_def)
  next
    case room
    from leaf_insert_at_ok [OF lm(1,2) pos room(2), of key val] obtain l' where l': "leaf_insert_at M l ?pos key val = Inr l'"
      "length (lf_keys l') = M" "length (lf_values l') = M" "lf_num l' = Suc (lf_num l)"
      "leaf_entries l' = take ?pos ?es @ (key, val) # drop ?pos ?es" by blast
    have e: "leaf_entries l' = ins key val ?es" using l'(5) ins room(1) by simp
    have "sorted_wrt (<) (map fst (leaf_entries l'))" unfolding e using l(2) sorted_ins by (simp add: leaf_ok_entries)
    then have "leaf_ok M l'" using l' room(2) by (simp add: leaf_ok_entries)
    then have "ins_post N M t 0 p lo hi key val (put_leaf p l' t) None"
      using insert_leaf_keep [OF l(1) _ bnd assms(2,3) e] by blast
    then show ?thesis using room l'(1) get_leaf_eq [OF l(1)] by (auto simp: insert_leaf_def Let_def)
  next
    case full
    have ins': "ins key val ?es = take ?pos ?es @ (key, val) # drop ?pos ?es" using ins unfolding if_not_P [OF full(1)] .
    let ?m = "(M + 1) div 2"
    let ?n = "lf_num l - ?m" and ?s = "bt_fresh t"
    have m: "1 \<le> ?m" "?m < M" "lf_num l - ?m < M" "0 < lf_num l - ?m" using assms(5) full(2) by auto
    define sl where "sl = leaf_new M (bt_junk t)"
    define t1 where "t1 = snd (new_leaf M t)"
    have t1: "new_leaf M t = (?s, t1)" "bt_leaves t1 = (bt_leaves t)(?s \<mapsto> sl)" "bt_branches t1 = bt_branches t"
      "bt_fresh t1 = Suc ?s" "bt_root t1 = bt_root t" "bt_depth t1 = bt_depth t"
      by (simp_all add: t1_def new_leaf_def sl_def)
    define sl1 where "sl1 = sl\<lparr>lf_num := ?n, lf_keys := copy_range ?n (lf_keys sl) 0 (lf_keys l) ?m,
        lf_values := copy_range ?n (lf_values sl) 0 (lf_values l) ?m\<rparr>"
    define l1 where "l1 = l\<lparr>lf_num := ?m\<rparr>"
    have sl1: "length (lf_keys sl1) = M" "length (lf_values sl1) = M" "lf_num sl1 = ?n" "leaf_entries sl1 = drop ?m ?es"
      using full(2) lm m by (simp_all add: sl1_def sl_def leaf_new_def leaf_entries_def take_copy_range drop_zip)
    have l1: "length (lf_keys l1) = M" "length (lf_values l1) = M" "lf_num l1 = ?m" "leaf_entries l1 = take ?m ?es"
      using full(2) lm m by (simp_all add: l1_def leaf_entries_def take_zip)
    have "\<exists>l2 sl2. (if ?pos < ?m then rbind (leaf_insert_at M l1 ?pos key val) (\<lambda>l2. Inr (l2, sl1))
          else rbind (leaf_insert_at M sl1 (?pos - ?m) key val) (\<lambda>sl2. Inr (l1, sl2))) = Inr (l2, sl2) \<and>
        length (lf_keys l2) = M \<and> length (lf_values l2) = M \<and> lf_num l2 \<le> M \<and>
        length (lf_keys sl2) = M \<and> length (lf_values sl2) = M \<and> lf_num sl2 \<le> M \<and> 0 < lf_num sl2 \<and>
        leaf_entries l2 \<noteq> [] \<and> leaf_entries l2 @ leaf_entries sl2 = ins key val ?es"
    proof (cases "?pos < ?m")
      case True
      with leaf_insert_at_ok [OF l1(1,2), of ?pos key val] l1(3) m obtain l2 where
        l2: "leaf_insert_at M l1 ?pos key val = Inr l2" "length (lf_keys l2) = M" "length (lf_values l2) = M"
        "lf_num l2 = Suc ?m" "leaf_entries l2 = take ?pos (take ?m ?es) @ (key, val) # drop ?pos (take ?m ?es)"
        unfolding l1(4) by auto
      have "leaf_entries l2 @ leaf_entries sl1 = ins key val ?es"
        unfolding l2(5) sl1(4) ins' by (rule split_lists(1)) (use True m(2) full(2) len pos in simp_all)
      then show ?thesis using True l2 sl1 m full(2) by auto
    next
      case False
      have "?pos - ?m \<le> lf_num sl1" "lf_num sl1 < M" using diff_le_mono [OF pos] m sl1(3) by auto
      from leaf_insert_at_ok [OF sl1(1,2) this, of key val] obtain sl2 where
        sl2: "leaf_insert_at M sl1 (?pos - ?m) key val = Inr sl2" "length (lf_keys sl2) = M" "length (lf_values sl2) = M"
        "lf_num sl2 = Suc ?n" "leaf_entries sl2 = take (?pos - ?m) (drop ?m ?es) @ (key, val) # drop (?pos - ?m) (drop ?m ?es)"
        unfolding sl1(3,4) by blast
      have "leaf_entries l1 @ leaf_entries sl2 = ins key val ?es"
        unfolding sl2(5) l1(4) ins' by (rule split_lists(2)) (use False m(2) full(2) len pos in simp_all)
      moreover have "leaf_entries l1 \<noteq> []" using l1(4) m len full(2) by (metis One_nat_def leD le_zero_eq length_take list.size(3) min.absorb2 nat_less_le zero_less_one)
      ultimately show ?thesis using False l1 sl2 m full(2) by auto
    qed
    then obtain l2 sl2 where s2: "(if ?pos < ?m then rbind (leaf_insert_at M l1 ?pos key val) (\<lambda>l2. Inr (l2, sl1))
          else rbind (leaf_insert_at M sl1 (?pos - ?m) key val) (\<lambda>sl2. Inr (l1, sl2))) = Inr (l2, sl2)"
        "length (lf_keys l2) = M" "length (lf_values l2) = M" "lf_num l2 \<le> M"
        "length (lf_keys sl2) = M" "length (lf_values sl2) = M" "lf_num sl2 \<le> M" "0 < lf_num sl2"
        "leaf_entries l2 \<noteq> []" "leaf_entries l2 @ leaf_entries sl2 = ins key val ?es" by blast
    let ?l3 = "l2\<lparr>lf_next := Some ?s\<rparr>" and ?sl3 = "sl2\<lparr>lf_prev := Some p\<rparr>"
    let ?t' = "put_leaf ?s ?sl3 (put_leaf p ?l3 t1)"
    have gs: "get_leaf t1 ?s = Inr sl" using t1(2) by (simp add: get_leaf_def)
    have res: "insert_leaf M t p key val = Inr (?t', Some \<lparr>si_key = lf_keys ?sl3 ! 0, si_left = p, si_right = ?s\<rparr>)"
      unfolding insert_leaf_def get_leaf_eq [OF l(1)] rbind_Inr Let_def if_not_P [OF full(1)] if_P [OF full(2)] t1(1)
        prod.case gs sl1_def [symmetric] l1_def [symmetric] s2(1) by simp
    have e3: "leaf_entries ?l3 = leaf_entries l2" "leaf_entries ?sl3 = leaf_entries sl2" by (simp_all add: leaf_entries_def)
    have "p \<noteq> ?s" using assms(4) by simp
    then have "bt_leaves ?t' = (bt_leaves t)(p \<mapsto> ?l3, ?s \<mapsto> ?sl3)" by (auto simp: t1(2) fun_eq_iff)
    then have "ins_post N M t 0 p lo hi key val ?t' (Some \<lparr>si_key = lf_keys ?sl3 ! 0, si_left = p, si_right = ?s\<rparr>)"
      by (rule insert_leaf_split [OF l(1) assms(4,2,3) bnd]) (use s2(2-10) t1 l(2) e3 in simp_all)
    then show ?thesis using res by blast
  qed
qed

section \<open>Insertion into a branch\<close>

lemma branch_add_ok:
  assumes "branch_ok N b" "br_num b < N" "pos \<le> br_num b"
  shows "branch_ok N (branch_add b pos ci)"
    "bks (branch_add b pos ci) = take pos (bks b) @ si_key ci # drop pos (bks b)"
    "bcs (branch_add b pos ci) = take pos (bcs b) @ si_left ci # si_right ci # drop (Suc pos) (bcs b)"
proof -
  let ?n = "br_num b" and ?ch = "br_children b"
  have len: "length (br_keys b) = N" "length ?ch = Suc N" using assms(1) by (simp_all add: branch_ok_def)
  show "branch_ok N (branch_add b pos ci)" using assms(1,2) by (simp add: branch_add_def branch_ok_def Let_def)
  have id: "shift_up ?n ?n a = a" for a :: "nat list" by (cases ?n) auto
  have keys: "br_keys (branch_add b pos ci) = (shift_up pos ?n (br_keys b))[pos := si_key ci]"
    using assms(3) id by (auto simp: branch_add_def Let_def)
  show "bks (branch_add b pos ci) = take pos (bks b) @ si_key ci # drop pos (bks b)"
    using take_shift_up [OF assms(3), of "br_keys b" "si_key ci"] len assms(2) keys by (simp add: branch_add_def Let_def)
  define ch where "ch = br_children (branch_add b pos ci)"
  have chl: "length ch = Suc N" using len by (simp add: ch_def branch_add_def Let_def)
  have nth: "ch ! i = (if i < pos then ?ch ! i else if i = pos then si_left ci else if i = Suc pos then si_right ci else ?ch ! (i - 1))"
    if "i \<le> Suc ?n" for i
    using that len assms(2,3)
    by (cases "i = Suc ?n") (auto simp: ch_def branch_add_def Let_def shift_up_nth nth_list_update)
  have "take (Suc (Suc ?n)) ch = take pos (bcs b) @ si_left ci # si_right ci # drop (Suc pos) (bcs b)"
  proof (rule nth_equalityI)
    show "length (take (Suc (Suc ?n)) ch) = length (take pos (bcs b) @ si_left ci # si_right ci # drop (Suc pos) (bcs b))"
      using chl len assms(2,3) by simp
    fix i assume "i < length (take (Suc (Suc ?n)) ch)"
    then have i: "i \<le> Suc ?n" by simp
    consider "i < pos" | "i = pos" | "i = Suc pos" | j where "i = Suc (Suc pos) + j"
      by (metis less_Suc_eq less_iff_Suc_add linorder_cases not_less_eq add_Suc)
    then show "take (Suc (Suc ?n)) ch ! i = (take pos (bcs b) @ si_left ci # si_right ci # drop (Suc pos) (bcs b)) ! i"
      using i nth [OF i] len assms(2,3) by cases (simp_all add: nth_append)
  qed
  then show "bcs (branch_add b pos ci) = take pos (bcs b) @ si_left ci # si_right ci # drop (Suc pos) (bcs b)"
    by (simp add: ch_def branch_add_def Let_def)
qed

lemma split_branch_ok:
  assumes "bt_branches t p = Some b" "branch_ok N b" "br_num b = N" "2 < N" "p < bt_fresh t"
  shows "\<exists>t' m sb lb. split_branch N t p k = Inr (t', \<lparr>si_key = br_keys b ! (m - 1), si_left = p, si_right = bt_fresh t\<rparr>) \<and>
     1 \<le> m \<and> m \<le> N \<and> bt_branches t' = (bt_branches t)(p \<mapsto> lb, bt_fresh t \<mapsto> sb) \<and> bt_leaves t' = bt_leaves t \<and>
     bt_fresh t' = Suc (bt_fresh t) \<and> bt_root t' = bt_root t \<and> bt_depth t' = bt_depth t \<and>
     branch_ok N lb \<and> br_num lb = m - 1 \<and> bks lb = take (m - 1) (bks b) \<and> bcs lb = take m (bcs b) \<and>
     branch_ok N sb \<and> br_num sb = N - m \<and> bks sb = drop m (bks b) \<and> bcs sb = drop m (bcs b)"
proof -
  let ?s = "bt_fresh t"
  define m where "m = (if br_keys b ! ((N + 1) div 2) < k then (N + 1) div 2 + 1 else (N + 1) div 2)"
  have m: "1 \<le> m" "m \<le> N" using assms(4) by (auto simp: m_def)
  have len: "length (br_keys b) = N" "length (br_children b) = Suc N" using assms(2) by (simp_all add: branch_ok_def)
  define t1 where "t1 = snd (new_branch N t)"
  define nb where "nb = branch_new N (bt_junk t)"
  have t1: "new_branch N t = (?s, t1)" "bt_branches t1 = (bt_branches t)(?s \<mapsto> nb)" "bt_leaves t1 = bt_leaves t"
    "bt_fresh t1 = Suc ?s" "bt_root t1 = bt_root t" "bt_depth t1 = bt_depth t"
    by (simp_all add: t1_def new_branch_def nb_def)
  have gs: "get_branch t1 ?s = Inr nb" using t1(2) by (simp add: get_branch_def)
  define sb where "sb = nb\<lparr>br_num := N - m, br_keys := copy_range (N - m) (br_keys nb) 0 (br_keys b) m,
      br_children := (copy_range (N - m) (br_children nb) 0 (br_children b) m)[N - m := br_children b ! N]\<rparr>"
  define lb where "lb = b\<lparr>br_num := m - 1\<rparr>"
  have res: "split_branch N t p k = Inr (put_branch ?s sb (put_branch p lb t1),
      \<lparr>si_key = br_keys b ! (m - 1), si_left = p, si_right = ?s\<rparr>)"
    unfolding split_branch_def get_branch_eq [OF assms(1)] rbind_Inr Let_def t1(1) prod.case gs m_def [symmetric] assms(3)
    by (simp add: sb_def lb_def)
  have "bks sb = drop m (bks b)" using m len assms(3)
    by (simp add: sb_def nb_def branch_new_def take_copy_range)
  moreover have "bcs sb = drop m (bcs b)"
    by (rule nth_equalityI) (use m len assms(3) in \<open>auto simp: sb_def nb_def branch_new_def copy_range_nth nth_list_update\<close>)
  moreover have "bks lb = take (m - 1) (bks b)" "bcs lb = take m (bcs b)" using m assms(3) by (simp_all add: lb_def)
  moreover have "branch_ok N lb" "branch_ok N sb" using len m by (simp_all add: lb_def sb_def nb_def branch_new_def branch_ok_def)
  moreover have "p \<noteq> ?s" using assms(5) by simp
  then have "bt_branches (put_branch ?s sb (put_branch p lb t1)) = (bt_branches t)(p \<mapsto> lb, ?s \<mapsto> sb)"
    by (auto simp: t1(2) fun_eq_iff)
  ultimately show ?thesis using res m t1
    by (intro exI [of _ "put_branch ?s sb (put_branch p lb t1)"] exI [of _ m] exI [of _ sb] exI [of _ lb]) (simp add: lb_def sb_def)
qed

abbreviation kid_addrs :: "btree \<Rightarrow> nat \<Rightarrow> nat list \<Rightarrow> nat list" where
  "kid_addrs t d cs \<equiv> concat (map (\<lambda>c. bt_addrs t d c) cs)"

abbreviation kid_entries :: "btree \<Rightarrow> nat \<Rightarrow> nat list \<Rightarrow> (nat \<times> nat) list" where
  "kid_entries t d cs \<equiv> concat (map (\<lambda>c. bt_entries t d c) cs)"

lemma kids_frame:
  assumes "agree (set (kid_addrs t d cs)) t t'"
  shows "kid_addrs t' d cs = kid_addrs t d cs" "kid_entries t' d cs = kid_entries t d cs"
    "segs (\<lambda>c l h. bt_ok N M t d c l h) lo ks cs hi \<Longrightarrow> segs (\<lambda>c l h. bt_ok N M t' d c l h) lo ks cs hi"
proof -
  have fr: "agree (set (bt_addrs t d c)) t t'" if "c \<in> set cs" for c
    using assms that by (auto simp: agree_def)
  then have "map (\<lambda>c. bt_addrs t' d c) cs = map (\<lambda>c. bt_addrs t d c) cs"
    "map (\<lambda>c. bt_entries t' d c) cs = map (\<lambda>c. bt_entries t d c) cs" using bt_frame by (auto intro: map_cong)
  then show "kid_addrs t' d cs = kid_addrs t d cs" "kid_entries t' d cs = kid_entries t d cs" by (simp_all only:)
  show "segs (\<lambda>c l h. bt_ok N M t' d c l h) lo ks cs hi" if "segs (\<lambda>c l h. bt_ok N M t d c l h) lo ks cs hi"
    using that by (rule segs_mono) (use bt_frame_ok fr in blast)
qed

lemma insert_kids:
  assumes f1: "\<forall>Q c'. (\<forall>e l h. e \<in> set (cs1 @ cs2) \<longrightarrow> bt_ok N M t d e l h \<longrightarrow> Q e l h) \<longrightarrow> Q c' lo' hi' \<longrightarrow>
        segs Q lo ks (cs1 @ c' # cs2) hi"
    and f2: "\<forall>Q k l r. (\<forall>e l h. e \<in> set (cs1 @ cs2) \<longrightarrow> bt_ok N M t d e l h \<longrightarrow> Q e l h) \<longrightarrow> Q l lo' k \<longrightarrow> Q r k hi' \<longrightarrow>
        segs Q lo (take pos ks @ k # drop pos ks) (cs1 @ l # r # cs2) hi"
    and post: "ins_post N M t d c lo' hi' key val t1 res"
    and dist: "distinct (kid_addrs t d (cs1 @ c # cs2))" and bnd: "set (kid_addrs t d (cs1 @ c # cs2)) \<subseteq> {..<bt_fresh t}"
    and left: "\<forall>e\<in>set cs1. \<exists>l h. bt_ok N M t d e l h \<and> h \<le> key"
    and right: "\<forall>e\<in>set cs2. \<exists>l h. bt_ok N M t d e l h \<and> key < l"
  defines "kids \<equiv> cs1 @ ins_parts c res @ cs2"
  shows "segs (\<lambda>c l h. bt_ok N M t1 d c l h) lo
      (case res of None \<Rightarrow> ks | Some si \<Rightarrow> take pos ks @ si_key si # drop pos ks) kids hi"
    "distinct (kid_addrs t1 d kids)"
    "set (kid_addrs t1 d kids) \<subseteq> set (kid_addrs t d (cs1 @ c # cs2)) \<union> {bt_fresh t..<bt_fresh t1}"
    "kid_entries t1 d kids = ins key val (kid_entries t d (cs1 @ c # cs2))"
proof -
  let ?A = "set (bt_addrs t d c)" and ?P = "ins_parts c res"
  note p = post [unfolded ins_post_def]
  have o: "\<forall>e\<in>set (cs1 @ cs2). agree (set (bt_addrs t d e)) t t1"
  proof
    fix e assume e: "e \<in> set (cs1 @ cs2)"
    then have "set (bt_addrs t d e) \<subseteq> {..<bt_fresh t}" using bnd by auto
    moreover have "set (bt_addrs t d e) \<inter> ?A = {}" using e dist by auto
    ultimately show "agree (set (bt_addrs t d e)) t t1" using p by (auto simp: agree_def)
  qed
  then have "agree (set (kid_addrs t d cs1)) t t1" "agree (set (kid_addrs t d cs2)) t t1" by (auto simp: agree_def)
  then have cs: "kid_addrs t1 d cs1 = kid_addrs t d cs1" "kid_addrs t1 d cs2 = kid_addrs t d cs2"
    "kid_entries t1 d cs1 = kid_entries t d cs1" "kid_entries t1 d cs2 = kid_entries t d cs2"
    by (simp_all add: kids_frame)
  have fr: "\<forall>e l h. e \<in> set (cs1 @ cs2) \<longrightarrow> bt_ok N M t d e l h \<longrightarrow> bt_ok N M t1 d e l h"
    using bt_frame_ok o by blast
  show "segs (\<lambda>c l h. bt_ok N M t1 d c l h) lo
      (case res of None \<Rightarrow> ks | Some si \<Rightarrow> take pos ks @ si_key si # drop pos ks) kids hi"
  proof (cases res)
    case None
    then show ?thesis using f1 [rule_format, of "bt_ok N M t1 d" c] fr p by (simp add: kids_def ins_parts_def)
  next
    case (Some si)
    then show ?thesis using f2 [rule_format, of "bt_ok N M t1 d" c "si_key si" "si_right si"] fr p
      by (simp add: kids_def ins_parts_def)
  qed
  have ps: "set (kid_addrs t1 d ?P) \<subseteq> ?A \<union> {bt_fresh t..<bt_fresh t1}" "distinct (kid_addrs t1 d ?P)"
    "kid_entries t1 d ?P = ins key val (bt_entries t d c)" using p by simp_all
  have k: "kid_addrs t1 d kids = kid_addrs t d cs1 @ kid_addrs t1 d ?P @ kid_addrs t d cs2" using cs by (simp add: kids_def)
  have ds: "distinct (kid_addrs t d cs1)" "distinct (kid_addrs t d cs2)" "set (kid_addrs t d cs1) \<inter> set (kid_addrs t d cs2) = {}"
    "?A \<inter> set (kid_addrs t d cs1) = {}" "?A \<inter> set (kid_addrs t d cs2) = {}" using dist by auto
  have bs: "set (kid_addrs t d cs1) \<subseteq> {..<bt_fresh t}" "set (kid_addrs t d cs2) \<subseteq> {..<bt_fresh t}" using bnd by auto
  have lt: "{..<bt_fresh t} \<inter> {bt_fresh t..<bt_fresh t1} = {}" by auto
  have "set (kid_addrs t1 d ?P) \<inter> set (kid_addrs t d cs1) = {}" "set (kid_addrs t1 d ?P) \<inter> set (kid_addrs t d cs2) = {}"
    using ps(1) ds(4,5) bs lt by blast+
  then show "distinct (kid_addrs t1 d kids)" unfolding k distinct_append set_append using ds(1-3) ps(2) by blast
  show "set (kid_addrs t1 d kids) \<subseteq> set (kid_addrs t d (cs1 @ c # cs2)) \<union> {bt_fresh t..<bt_fresh t1}"
    unfolding k set_append using ps(1) by auto
  have "\<forall>k\<in>fst ` set (kid_entries t d cs1). k < key" using left bt_keys_bounds [of N M t d] by fastforce
  moreover have "\<forall>k\<in>fst ` set (kid_entries t d cs2). key < k" using right bt_keys_bounds [of N M t d] by fastforce
  ultimately have "ins key val (kid_entries t d cs1 @ bt_entries t d c @ kid_entries t d cs2) =
      kid_entries t d cs1 @ ins key val (bt_entries t d c) @ kid_entries t d cs2"
    by (simp add: ins_append_left ins_append_right)
  then show "kid_entries t1 d kids = ins key val (kid_entries t d (cs1 @ c # cs2))"
    using cs ps(3) by (simp add: kids_def)
qed

text \<open>A branch whose children are as described, in the new tree.\<close>

lemma branch_entries:
  "bt_branches t p = Some b \<Longrightarrow> bt_entries t (Suc d) p = kid_entries t d (bcs b)"
  by simp

lemma branch_addrs:
  "bt_branches t p = Some b \<Longrightarrow> bt_addrs t (Suc d) p = p # kid_addrs t d (bcs b)"
  by simp

lemma branch_bt_ok:
  "bt_branches t p = Some b \<Longrightarrow> branch_ok N b \<Longrightarrow> segs (\<lambda>c l h. bt_ok N M t d c l h) lo (bks b) (bcs b) hi \<Longrightarrow>
   bt_ok N M t (Suc d) p lo hi"
  using segs_le [of "\<lambda>c l h. bt_ok N M t d c l h" lo "bks b" "bcs b" hi] bt_ok_le_all [of N M t d] by simp

text \<open>
  The new children, described by \<open>insert_kids\<close>, put into the branch itself, or into the branch and its new
  sibling.
\<close>

lemma ins_post_one:
  assumes p: "p < bt_fresh t" "bt_branches t p = Some b"
    and dp: "distinct (bt_addrs t (Suc d) p)"
    and ag: "agree ({..<bt_fresh t} - set (bt_addrs t (Suc d) p)) t t'" "bt_fresh t \<le> bt_fresh t'"
      "bt_root t' = bt_root t" "bt_depth t' = bt_depth t"
    and b': "bt_branches t' p = Some b'" "branch_ok N b'" "bcs b' = kids"
      "segs (\<lambda>c l h. bt_ok N M t' d c l h) lo (bks b') kids hi"
    and k: "distinct (kid_addrs t' d kids)" "set (kid_addrs t' d kids) \<subseteq> set (kid_addrs t d (bcs b)) \<union> {bt_fresh t..<bt_fresh t'}"
      "kid_entries t' d kids = ins key val (kid_entries t d (bcs b))"
  shows "ins_post N M t (Suc d) p lo hi key val t' None"
proof -
  have "bt_ok N M t' (Suc d) p lo hi" using branch_bt_ok [OF b'(1,2)] b'(3,4) by simp
  moreover have "p \<notin> set (kid_addrs t d (bcs b))" using dp unfolding branch_addrs [OF p(2)] by simp
  then have "p \<notin> set (kid_addrs t' d kids)" using k(2) p(1) by auto
  ultimately show ?thesis
    using ag k unfolding ins_post_def ins_parts_def
    by (simp only: list.map concat.simps branch_entries [OF p(2)] branch_entries [OF b'(1)] branch_addrs [OF p(2)]
        branch_addrs [OF b'(1)] b'(3) option.case) auto
qed

lemma ins_post_two:
  assumes p: "p < bt_fresh t" "bt_branches t p = Some b"
    and dp: "distinct (bt_addrs t (Suc d) p)" "set (bt_addrs t (Suc d) p) \<subseteq> {..<bt_fresh t}"
    and ag: "agree ({..<bt_fresh t} - set (bt_addrs t (Suc d) p)) t t'" "bt_fresh t \<le> s" "s < bt_fresh t'"
      "bt_root t' = bt_root t" "bt_depth t' = bt_depth t"
    and b1: "bt_branches t' p = Some b1" "branch_ok N b1" "bt_branches t' s = Some b2" "branch_ok N b2"
      "bcs b1 @ bcs b2 = kids" "length (bcs b1) = Suc (length (bks b1))"
    and sg: "segs (\<lambda>c l h. bt_ok N M t' d c l h) lo (bks b1 @ k # bks b2) kids hi"
    and k: "distinct (kid_addrs t' d kids)" "set (kid_addrs t' d kids) \<subseteq> set (kid_addrs t d (bcs b)) \<union> {bt_fresh t..<s}"
      "kid_entries t' d kids = ins key val (kid_entries t d (bcs b))"
  shows "ins_post N M t (Suc d) p lo hi key val t' (Some \<lparr>si_key = k, si_left = p, si_right = s\<rparr>)"
proof -
  have sg': "segs (\<lambda>c l h. bt_ok N M t' d c l h) lo (bks b1) (bcs b1) k \<and> segs (\<lambda>c l h. bt_ok N M t' d c l h) k (bks b2) (bcs b2) hi"
    using sg segs_append [OF b1(6)] b1(5) by metis
  have ok: "bt_ok N M t' (Suc d) p lo k" "bt_ok N M t' (Suc d) s k hi"
    using branch_bt_ok [OF b1(1,2)] branch_bt_ok [OF b1(3,4)] sg' by blast+
  have "p \<notin> set (kid_addrs t d (bcs b))" using dp(1) unfolding branch_addrs [OF p(2)] by simp
  then have np: "p \<notin> set (kid_addrs t' d kids)" "p \<noteq> s" using k(2) p(1) ag(2) by auto
  have bb: "set (kid_addrs t d (bcs b)) \<subseteq> set (bt_addrs t (Suc d) p)" unfolding branch_addrs [OF p(2)] by auto
  have ks: "kid_addrs t' d kids = kid_addrs t' d (bcs b1) @ kid_addrs t' d (bcs b2)"
    "kid_entries t' d kids = kid_entries t' d (bcs b1) @ kid_entries t' d (bcs b2)" unfolding b1(5) [symmetric] by simp_all
  have a: "concat (map (bt_addrs t' (Suc d)) [p, s]) = p # kid_addrs t' d (bcs b1) @ s # kid_addrs t' d (bcs b2)"
    by (simp only: list.map concat.simps branch_addrs [OF b1(1)] branch_addrs [OF b1(3)]) simp
  have e: "concat (map (bt_entries t' (Suc d)) [p, s]) = kid_entries t' d kids"
    unfolding ks(2) by (simp only: list.map concat.simps branch_entries [OF b1(1)] branch_entries [OF b1(3)]) simp
  have "s \<notin> set (kid_addrs t d (bcs b))" using bb dp(2) ag(2) by (meson lessThan_iff linorder_not_less subsetD)
  then have ns: "s \<notin> set (kid_addrs t' d kids)" using k(2) by auto
  have "distinct (concat (map (bt_addrs t' (Suc d)) [p, s]))" unfolding a using k(1) np ns unfolding ks(1) by auto
  moreover have "set (concat (map (bt_addrs t' (Suc d)) [p, s])) \<subseteq> set (bt_addrs t (Suc d) p) \<union> {bt_fresh t..<bt_fresh t'}"
    unfolding a branch_addrs [OF p(2)] using k(2) ag(2,3) unfolding ks(1) by auto
  moreover have "concat (map (bt_entries t' (Suc d)) [p, s]) = ins key val (bt_entries t (Suc d) p)"
    unfolding e branch_entries [OF p(2)] by (rule k(3))
  ultimately show ?thesis using ag ok unfolding ins_post_def ins_parts_def by (simp del: bt_addrs.simps bt_entries.simps bt_ok.simps)
qed

lemma length_takeWhile_take: "length (takeWhile P (take n xs)) = min n (length (takeWhile P xs))"
proof (induction xs arbitrary: n)
  case (Cons x xs)
  then show ?case by (cases n) auto
qed simp

lemma length_takeWhile_drop:
  "n \<le> length (takeWhile P xs) \<Longrightarrow> length (takeWhile P (drop n xs)) = length (takeWhile P xs) - n"
proof (induction xs arbitrary: n)
  case (Cons x xs)
  then show ?case by (cases n) (auto split: if_splits)
qed simp

lemma sorted_takeWhile_pos:
  fixes ks :: "nat list"
  assumes "sorted ks" "j < length ks"
  shows "key < ks ! j \<longleftrightarrow> length (takeWhile (\<lambda>k. k \<le> key) ks) \<le> j"
proof
  let ?n = "length (takeWhile (\<lambda>k. k \<le> key) ks)"
  assume "key < ks ! j"
  then show "?n \<le> j" using takeWhile_nth [of j "\<lambda>k. k \<le> key" ks] set_takeWhileD [of "ks ! j"]
    by (metis linorder_not_less nth_mem)
next
  let ?n = "length (takeWhile (\<lambda>k. k \<le> key) ks)"
  assume n: "?n \<le> j"
  then have "\<not> ks ! ?n \<le> key" using nth_length_takeWhile [of "\<lambda>k. k \<le> key" ks] assms(2) by simp
  moreover have "ks ! ?n \<le> ks ! j" using sorted_nth_mono [OF assms(1) n assms(2)] .
  ultimately show "key < ks ! j" by simp
qed

lemma split_insert_left:
  assumes "pos < m" "m \<le> length ks" "m \<le> length cs"
  shows "(take pos (take (m - 1) ks) @ x # drop pos (take (m - 1) ks)) @ ks ! (m - 1) # drop m ks = take pos ks @ x # drop pos ks"
    "(take pos (take m cs) @ l # r # drop (Suc pos) (take m cs)) @ drop m cs = take pos cs @ l # r # drop (Suc pos) cs"
proof -
  have "m - 1 < length ks" using assms by simp
  then have "ks = take (m - 1) ks @ ks ! (m - 1) # drop m ks" using id_take_nth_drop [of "m - 1" ks] assms(1) by simp
  then obtain A k B where ks: "ks = A @ k # B" "length A = m - 1" using assms by (metis length_take min.absorb2 less_imp_le_nat \<open>m - 1 < length ks\<close>)
  then show "(take pos (take (m - 1) ks) @ x # drop pos (take (m - 1) ks)) @ ks ! (m - 1) # drop m ks = take pos ks @ x # drop pos ks"
    using assms(1) by (cases m) (auto simp: nth_append)
  obtain C D where cs: "cs = C @ D" "length C = m" using assms(3) by (metis append_take_drop_id length_take min.absorb2)
  then show "(take pos (take m cs) @ l # r # drop (Suc pos) (take m cs)) @ drop m cs = take pos cs @ l # r # drop (Suc pos) cs"
    using assms(1) by simp
qed

lemma split_insert_right:
  assumes "m \<le> pos" "1 \<le> m" "m \<le> length ks" "m \<le> length cs"
  shows "take (m - 1) ks @ ks ! (m - 1) # (take (pos - m) (drop m ks) @ x # drop (pos - m) (drop m ks)) = take pos ks @ x # drop pos ks"
    "take m cs @ take (pos - m) (drop m cs) @ l # r # drop (Suc (pos - m)) (drop m cs) = take pos cs @ l # r # drop (Suc pos) cs"
proof -
  have "take m ks = take (m - 1) ks @ [ks ! (m - 1)]" using take_Suc_conv_app_nth [of "m - 1" ks] assms by simp
  moreover have "take pos ks = take m ks @ take (pos - m) (drop m ks)" using assms(1) by (metis le_add_diff_inverse take_add)
  ultimately show "take (m - 1) ks @ ks ! (m - 1) # (take (pos - m) (drop m ks) @ x # drop (pos - m) (drop m ks)) = take pos ks @ x # drop pos ks"
    using assms(1) by simp
  have "take pos cs = take m cs @ take (pos - m) (drop m cs)" using assms(1) by (metis le_add_diff_inverse take_add)
  then show "take m cs @ take (pos - m) (drop m cs) @ l # r # drop (Suc (pos - m)) (drop m cs) = take pos cs @ l # r # drop (Suc pos) cs"
    using assms(1) by simp
qed

lemma branch_split_add:
  fixes key :: nat
  assumes t: "bt_branches t p = Some b" "branch_ok N b" "br_num b = N" "2 < N" "p < bt_fresh t" "sorted (bks b)"
  defines "pos \<equiv> branch_pos b key"
  shows "\<exists>t' k b1 b2. rbind (split_branch N t p (si_key ci)) (\<lambda>(t2, si).
         let host = (if key < si_key si then si_left si else si_right si) in
         rbind (get_branch t2 host) (\<lambda>hb. Inr (put_branch host (branch_add hb (branch_pos hb key) ci) t2, Some si))) =
       Inr (t', Some \<lparr>si_key = k, si_left = p, si_right = bt_fresh t\<rparr>) \<and>
     bt_leaves t' = bt_leaves t \<and> bt_branches t' = (bt_branches t)(p \<mapsto> b1, bt_fresh t \<mapsto> b2) \<and>
     bt_fresh t' = Suc (bt_fresh t) \<and> bt_root t' = bt_root t \<and> bt_depth t' = bt_depth t \<and>
     branch_ok N b1 \<and> branch_ok N b2 \<and> length (bcs b1) = Suc (length (bks b1)) \<and>
     bks b1 @ k # bks b2 = take pos (bks b) @ si_key ci # drop pos (bks b) \<and>
     bcs b1 @ bcs b2 = take pos (bcs b) @ si_left ci # si_right ci # drop (Suc pos) (bcs b)"
proof -
  let ?s = "bt_fresh t"
  from split_branch_ok [OF t(1-5), of "si_key ci"] obtain t2 m sb lb where
    sp: "split_branch N t p (si_key ci) = Inr (t2, \<lparr>si_key = br_keys b ! (m - 1), si_left = p, si_right = ?s\<rparr>)"
    "1 \<le> m" "m \<le> N" "bt_branches t2 = (bt_branches t)(p \<mapsto> lb, ?s \<mapsto> sb)" "bt_leaves t2 = bt_leaves t"
    "bt_fresh t2 = Suc ?s" "bt_root t2 = bt_root t" "bt_depth t2 = bt_depth t"
    "branch_ok N lb" "br_num lb = m - 1" "bks lb = take (m - 1) (bks b)" "bcs lb = take m (bcs b)"
    "branch_ok N sb" "br_num sb = N - m" "bks sb = drop m (bks b)" "bcs sb = drop m (bcs b)" by (elim exE conjE) (rule that)
  have len: "length (bks b) = N" "length (bcs b) = Suc N" using t(2,3) by (simp_all add: branch_ok_def)
  have lm: "m \<le> length (bks b)" "m \<le> length (bcs b)" unfolding len using sp(3) by simp_all
  have posN: "pos \<le> N" unfolding pos_def branch_pos_bks using length_takeWhile_le [of "\<lambda>k. k \<le> key" "bks b"] t(3) by simp
  have ne: "p \<noteq> ?s" using t(5) by simp
  have sk: "br_keys b ! (m - 1) = bks b ! (m - 1)" using sp(2,3) t(3) by simp
  have le: "key < bks b ! (m - 1) \<longleftrightarrow> pos \<le> m - 1"
    unfolding pos_def branch_pos_bks by (rule sorted_takeWhile_pos) (use t(6) len sp(2,3) in auto)
  let ?k = "br_keys b ! (m - 1)"
  show ?thesis
  proof (cases "key < ?k")
    case True
    then have pm: "pos < m" using le sk sp(2) by simp
    have "branch_pos lb key = min (m - 1) pos" unfolding pos_def branch_pos_bks sp(11) by (rule length_takeWhile_take)
    then have pl: "branch_pos lb key = pos" using pm by simp
    have "br_num lb < N" "pos \<le> br_num lb" using sp(2,3,10) pm by auto
    note ad = branch_add_ok [OF sp(9) this, of ci]
    let ?b1 = "branch_add lb pos ci" and ?t' = "put_branch p (branch_add lb pos ci) t2"
    have "get_branch t2 p = Inr lb" using sp(4) ne by (simp add: get_branch_def)
    then have res: "rbind (split_branch N t p (si_key ci)) (\<lambda>(t2, si).
         let host = (if key < si_key si then si_left si else si_right si) in
         rbind (get_branch t2 host) (\<lambda>hb. Inr (put_branch host (branch_add hb (branch_pos hb key) ci) t2, Some si))) =
       Inr (?t', Some \<lparr>si_key = ?k, si_left = p, si_right = ?s\<rparr>)" using sp(1) True pl by (simp add: Let_def)
    have br: "bt_branches ?t' = (bt_branches t)(p \<mapsto> ?b1, ?s \<mapsto> sb)" using sp(4) ne by (auto simp: fun_eq_iff)
    have l1: "bks ?b1 @ ?k # bks sb = take pos (bks b) @ si_key ci # drop pos (bks b)"
      unfolding ad(2) sp(11,15) sk by (rule split_insert_left(1) [OF pm lm])
    have l2: "bcs ?b1 @ bcs sb = take pos (bcs b) @ si_left ci # si_right ci # drop (Suc pos) (bcs b)"
      unfolding ad(3) sp(12,16) by (rule split_insert_left(2) [OF pm lm])
    have l3: "length (bcs ?b1) = Suc (length (bks ?b1))" using ad(1) by (simp add: branch_ok_def)
    show ?thesis by (rule exI [of _ ?t'], rule exI [of _ ?k], rule exI [of _ ?b1], rule exI [of _ sb], intro conjI)
        (fact res br ad(1) sp(13) l1 l2 l3 | simp add: sp)+
  next
    case False
    then have pm: "m \<le> pos" using le sk by simp
    have pl: "branch_pos sb key = pos - m" unfolding branch_pos_bks sp(15)
      using length_takeWhile_drop [of m "\<lambda>k. k \<le> key" "bks b"] pm unfolding pos_def branch_pos_bks by simp
    have "br_num sb < N" "pos - m \<le> br_num sb" using sp(2,3,14) pm posN by auto
    note ad = branch_add_ok [OF sp(13) this, of ci]
    let ?b2 = "branch_add sb (pos - m) ci" and ?t' = "put_branch ?s (branch_add sb (pos - m) ci) t2"
    have "get_branch t2 ?s = Inr sb" using sp(4) ne by (simp add: get_branch_def)
    then have res: "rbind (split_branch N t p (si_key ci)) (\<lambda>(t2, si).
         let host = (if key < si_key si then si_left si else si_right si) in
         rbind (get_branch t2 host) (\<lambda>hb. Inr (put_branch host (branch_add hb (branch_pos hb key) ci) t2, Some si))) =
       Inr (?t', Some \<lparr>si_key = ?k, si_left = p, si_right = ?s\<rparr>)" using sp(1) False pl by (simp add: Let_def)
    have br: "bt_branches ?t' = (bt_branches t)(p \<mapsto> lb, ?s \<mapsto> ?b2)" using sp(4) ne by (auto simp: fun_eq_iff)
    have l1: "bks lb @ ?k # bks ?b2 = take pos (bks b) @ si_key ci # drop pos (bks b)"
      unfolding ad(2) sp(11,15) sk by (rule split_insert_right(1) [OF pm sp(2) lm])
    have l2: "bcs lb @ bcs ?b2 = take pos (bcs b) @ si_left ci # si_right ci # drop (Suc pos) (bcs b)"
      unfolding ad(3) sp(12,16) by (rule split_insert_right(2) [OF pm sp(2) lm])
    have l3: "length (bcs lb) = Suc (length (bks lb))" using sp(9) by (simp add: branch_ok_def)
    show ?thesis by (rule exI [of _ ?t'], rule exI [of _ ?k], rule exI [of _ lb], rule exI [of _ ?b2], intro conjI)
        (fact res br ad(1) sp(9) l1 l2 l3 | simp add: sp)+
  qed
qed

lemma insert_branch_ok:
  assumes "bt_ok N M t d p lo hi" "lo \<le> key" "key < hi" "distinct (bt_addrs t d p)"
    "set (bt_addrs t d p) \<subseteq> {..<bt_fresh t}" "2 < N" "2 \<le> M"
  shows "\<exists>t' cs. insert_branch N M t p d key val = Inr (t', cs) \<and> ins_post N M t d p lo hi key val t' cs"
  using assms
proof (induction d arbitrary: p lo hi)
  case 0
  then show ?case using insert_leaf_ok [of N M t p lo hi key val] by simp
next
  case (Suc d)
  from Suc.prems(1) obtain b where b: "bt_branches t p = Some b" "branch_ok N b"
    "segs (\<lambda>c l h. bt_ok N M t d c l h) lo (bks b) (bcs b) hi" by (auto split: option.splits)
  let ?pos = "branch_pos b key"
  from segs_focus [OF b(3) Suc.prems(2,3) bt_ok_le_all branch_pos_bks]
  obtain cs1 c cs2 lo' hi' where c: "bcs b = cs1 @ c # cs2" "length cs1 = ?pos" "lo' \<le> key" "key < hi'"
    "bt_ok N M t d c lo' hi'" "\<forall>e\<in>set cs1. \<exists>l h. bt_ok N M t d e l h \<and> h \<le> key"
    "\<forall>e\<in>set cs2. \<exists>l h. bt_ok N M t d e l h \<and> key < l"
    "\<forall>Q c'. (\<forall>e l h. e \<in> set (cs1 @ cs2) \<longrightarrow> bt_ok N M t d e l h \<longrightarrow> Q e l h) \<longrightarrow> Q c' lo' hi' \<longrightarrow>
        segs Q lo (bks b) (cs1 @ c' # cs2) hi"
    "\<forall>Q k l r. (\<forall>e l h. e \<in> set (cs1 @ cs2) \<longrightarrow> bt_ok N M t d e l h \<longrightarrow> Q e l h) \<longrightarrow> Q l lo' k \<longrightarrow> Q r k hi' \<longrightarrow>
        segs Q lo (take ?pos (bks b) @ k # drop ?pos (bks b)) (cs1 @ l # r # cs2) hi"
    by (elim exE conjE) (rule that)
  have "bcs b ! ?pos = c" using c(1,2) by (metis nth_append_length)
  moreover have pl: "?pos < length (bcs b)" using c(1,2) by simp
  ultimately have ch: "br_children b ! ?pos = c" by (metis length_take min_less_iff_conj nth_take)
  have ad: "bt_addrs t (Suc d) p = p # kid_addrs t d (cs1 @ c # cs2)" using branch_addrs [OF b(1)] c(1) by simp
  have dk: "distinct (kid_addrs t d (cs1 @ c # cs2))" "p \<notin> set (kid_addrs t d (cs1 @ c # cs2))"
    "set (kid_addrs t d (cs1 @ c # cs2)) \<subseteq> {..<bt_fresh t}" "p < bt_fresh t"
    using Suc.prems(4,5) unfolding ad by simp_all
  have dc: "distinct (bt_addrs t d c)" "set (bt_addrs t d c) \<subseteq> {..<bt_fresh t}" using dk(1,3) by simp_all
  from Suc.IH [OF c(5,3,4) dc Suc.prems(6,7)] obtain t1 res where
    r: "insert_branch N M t c d key val = Inr (t1, res)" "ins_post N M t d c lo' hi' key val t1 res" by blast
  define kids where "kids = cs1 @ ins_parts c res @ cs2"
  define ks where "ks = (case res of None \<Rightarrow> bks b | Some si \<Rightarrow> take ?pos (bks b) @ si_key si # drop ?pos (bks b))"
  note k = insert_kids [OF c(8,9) r(2) dk(1,3) c(6,7), folded kids_def, folded ks_def]
  have p1: "agree ({..<bt_fresh t} - set (bt_addrs t d c)) t t1" "bt_fresh t \<le> bt_fresh t1" "bt_root t1 = bt_root t"
    "bt_depth t1 = bt_depth t" using r(2) by (auto simp: ins_post_def)
  have pc: "p \<notin> set (bt_addrs t d c)" using dk(2) by simp
  then have bp: "bt_branches t1 p = Some b" using p1(1) dk(4) b(1) by (simp add: agree_def)
  have pk: "p \<notin> set (kid_addrs t1 d kids)" using k(3) dk(2,4) by auto
  have ks1: "set (kid_addrs t1 d kids) \<subseteq> {..<bt_fresh t1}" using k(3) dk(3) p1(2) by fastforce
  have ag1: "agree ({..<bt_fresh t} - set (bt_addrs t (Suc d) p)) t t1" using p1(1) unfolding ad by (auto simp: agree_def)
  show ?case
  proof (cases res)
    case None
    then have "kids = bcs b" "ks = bks b" using c(1) by (simp_all add: kids_def ks_def ins_parts_def)
    then have "ins_post N M t (Suc d) p lo hi key val t1 None"
      using ins_post_one [OF dk(4) b(1) Suc.prems(4) ag1 p1(2-4) bp b(2), of kids M lo hi key val] k c(1) by simp
    then show ?thesis using get_branch_eq [OF b(1)] ch r(1) None by (simp add: Let_def)
  next
    case (Some ci)
    have lc: "si_left ci = c" using r(2) Some by (simp add: ins_post_def)
    have kids: "kids = take ?pos (bcs b) @ si_left ci # si_right ci # drop (Suc ?pos) (bcs b)"
      using c(1,2) lc Some by (simp add: kids_def ins_parts_def)
    have ks: "ks = take ?pos (bks b) @ si_key ci # drop ?pos (bks b)" using Some by (simp add: ks_def)
    have run: "insert_branch N M t p (Suc d) key val =
       (if br_num b = N then rbind (split_branch N t1 p (si_key ci)) (\<lambda>(t2, si).
           let host = (if key < si_key si then si_left si else si_right si) in
           rbind (get_branch t2 host) (\<lambda>hb. Inr (put_branch host (branch_add hb (branch_pos hb key) ci) t2, Some si)))
        else Inr (put_branch p (branch_add b ?pos ci) t1, None))"
      using get_branch_eq [OF b(1)] get_branch_eq [OF bp] ch r(1) Some by (simp add: Let_def)
    show ?thesis
    proof (cases "br_num b = N")
      case False
      then have "br_num b < N" "?pos \<le> br_num b" using b(2) pl by (auto simp: branch_ok_def)
      note ba = branch_add_ok [OF b(2) this, of ci]
      let ?t' = "put_branch p (branch_add b ?pos ci) t1"
      have "agree (set (kid_addrs t1 d kids)) t1 ?t'" using pk by (auto simp: agree_def)
      note fr = kids_frame [OF this]
      have ag': "agree ({..<bt_fresh t} - set (bt_addrs t (Suc d) p)) t ?t'" using ag1 unfolding ad by (auto simp: agree_def)
      have bk: "bks (branch_add b ?pos ci) = ks" "bcs (branch_add b ?pos ci) = kids" unfolding ks kids by (rule ba(2), rule ba(3))
      have x: "segs (\<lambda>c l h. bt_ok N M ?t' d c l h) lo (bks (branch_add b ?pos ci)) kids hi" unfolding bk by (rule fr(3) [OF k(1)])
      have y: "distinct (kid_addrs ?t' d kids)" unfolding fr(1) by (rule k(2))
      have z: "set (kid_addrs ?t' d kids) \<subseteq> set (kid_addrs t d (bcs b)) \<union> {bt_fresh t..<bt_fresh ?t'}"
        unfolding fr(1) c(1) put_branch_simps by (rule k(3))
      have w: "kid_entries ?t' d kids = ins key val (kid_entries t d (bcs b))" unfolding fr(2) c(1) by (rule k(4))
      have "ins_post N M t (Suc d) p lo hi key val ?t' None"
        by (rule ins_post_one [OF dk(4) b(1) Suc.prems(4) ag' _ _ _ _ ba(1) bk(2) x y z w]) (use p1 in simp_all)
      then show ?thesis using run False by simp
    next
      case True
      have "sorted (bks b)" using segs_le [OF b(3) bt_ok_le_all] by simp
      with branch_split_add [OF bp b(2) True Suc.prems(6), where key = key and ci = ci] dk(4) p1(2) obtain t' kk b1 b2 where
        t': "insert_branch N M t p (Suc d) key val = Inr (t', Some \<lparr>si_key = kk, si_left = p, si_right = bt_fresh t1\<rparr>)"
        "bt_leaves t' = bt_leaves t1" "bt_branches t' = (bt_branches t1)(p \<mapsto> b1, bt_fresh t1 \<mapsto> b2)"
        "bt_fresh t' = Suc (bt_fresh t1)" "bt_root t' = bt_root t1" "bt_depth t' = bt_depth t1"
        "branch_ok N b1" "branch_ok N b2" "length (bcs b1) = Suc (length (bks b1))"
        "bks b1 @ kk # bks b2 = ks" "bcs b1 @ bcs b2 = kids"
        unfolding run if_P [OF True] ks kids by auto
      have "bt_fresh t1 \<notin> set (kid_addrs t1 d kids)" using ks1 by auto
      then have "agree (set (kid_addrs t1 d kids)) t1 t'" using pk t'(2,3) by (auto simp: agree_def)
      note fr = kids_frame [OF this]
      have ag': "agree ({..<bt_fresh t} - set (bt_addrs t (Suc d) p)) t t'"
        using ag1 t'(2,3) p1(2) unfolding ad by (auto simp: agree_def)
      have ne: "p \<noteq> bt_fresh t1" using dk(4) p1(2) by simp
      have x: "segs (\<lambda>c l h. bt_ok N M t' d c l h) lo (bks b1 @ kk # bks b2) kids hi" unfolding t'(10) by (rule fr(3) [OF k(1)])
      have y: "distinct (kid_addrs t' d kids)" unfolding fr(1) by (rule k(2))
      have z: "set (kid_addrs t' d kids) \<subseteq> set (kid_addrs t d (bcs b)) \<union> {bt_fresh t..<bt_fresh t1}"
        unfolding fr(1) c(1) by (rule k(3))
      have w: "kid_entries t' d kids = ins key val (kid_entries t d (bcs b))" unfolding fr(2) c(1) by (rule k(4))
      have "ins_post N M t (Suc d) p lo hi key val t' (Some \<lparr>si_key = kk, si_left = p, si_right = bt_fresh t1\<rparr>)"
        by (rule ins_post_two [OF dk(4) b(1) Suc.prems(4,5) ag' p1(2) _ _ _ _ t'(7) _ t'(8) t'(11) t'(9) x y z w])
          (use t'(3-6) p1 ne in simp_all)
      then show ?thesis using t'(1) by blast
    qed
  qed
qed

section \<open>The tree as an index\<close>

definition bt_inv :: "nat \<Rightarrow> nat \<Rightarrow> btree \<Rightarrow> bool" where
  "bt_inv N M t = (bt_ok N M t (bt_depth t) (bt_root t) 0 (2 ^ 64) \<and> distinct (bt_addrs t (bt_depth t) (bt_root t)) \<and>
     set (bt_addrs t (bt_depth t) (bt_root t)) \<subseteq> {..<bt_fresh t})"

definition bt_view :: "btree \<Rightarrow> nat \<Rightarrow> nat option" where
  "bt_view t = map_of (bt_entries t (bt_depth t) (bt_root t))"

lemma bt_new_inv: "bt_inv N M (bt_new M u)" "bt_view (bt_new M u) = Map.empty"
  by (simp_all add: bt_inv_def bt_view_def bt_new_def new_leaf_def leaf_new_def leaf_ok_def leaf_entries_def)

lemma segs_sorted:
  assumes "segs (\<lambda>c l h. bt_ok N M t d c l h) lo ks cs hi"
    "\<forall>c l h. bt_ok N M t d c l h \<longrightarrow> sorted_wrt (<) (map fst (bt_entries t d c))"
  shows "sorted_wrt (<) (map fst (kid_entries t d cs))"
  using assms
proof (induction "\<lambda>c l h. bt_ok N M t d c l h" lo ks cs hi rule: segs.induct)
  case (2 lo k ks c cs hi)
  have c: "bt_ok N M t d c lo k" "segs (\<lambda>c l h. bt_ok N M t d c l h) k ks cs hi" using 2(2) by simp_all
  have "k \<le> a" if "(a, v) \<in> set (kid_entries t d cs)" for a v
  proof -
    from that obtain e where e: "e \<in> set cs" "(a, v) \<in> set (bt_entries t d e)" by auto
    from segs_lower [OF c(2) bt_ok_le_all e(1)] obtain l h where "bt_ok N M t d e l h" "k \<le> l" by blast
    then show ?thesis using bt_keys_bounds e(2) order_trans by blast
  qed
  moreover have "a < k" if "(a, v) \<in> set (bt_entries t d c)" for a v using bt_keys_bounds [OF c(1) that] by simp
  ultimately have "\<forall>x\<in>set (bt_entries t d c). \<forall>y\<in>set (kid_entries t d cs). fst x < fst y"
    by (metis order_less_le_trans prod.collapse)
  moreover have "sorted_wrt (<) (map fst (bt_entries t d c))" using 2(3) c(1) by blast
  ultimately show ?case using 2(1) [OF c(2) 2(3)] by (simp add: sorted_wrt_append)
qed auto

lemma bt_entries_sorted: "bt_ok N M t d p lo hi \<Longrightarrow> sorted_wrt (<) (map fst (bt_entries t d p))"
proof (induction d arbitrary: p lo hi)
  case 0
  then show ?case by (auto simp: leaf_ok_entries split: option.splits)
next
  case (Suc d)
  then show ?case using segs_sorted [of N M t d lo _ _ hi] by (auto split: option.splits)
qed

lemma bt_lookup_spec:
  assumes "bt_inv N M t" "key < 2 ^ 64"
  shows "bt_lookup t key = Inr (bt_view t key)"
proof -
  from find_leaf_ok [of N M t "bt_depth t" "bt_root t" 0 "2 ^ 64" key] assms obtain q l where
    q: "find_leaf t key = Inr q" "bt_leaves t q = Some l" "leaf_ok M l" "map_of (leaf_entries l) key = bt_view t key"
    by (auto simp: bt_inv_def bt_view_def find_leaf_def)
  have "sorted_wrt (<) (map fst (leaf_entries l))" using q(3) by (simp add: leaf_ok_entries)
  from map_of_sorted_pos [OF this, of key] show ?thesis
    using q leaf_entries_nth [OF q(3), of "leaf_pos l key"]
    unfolding leaf_pos_entries [OF q(3), symmetric] Let_def leaf_entries_length [OF q(3)]
    by (simp add: bt_lookup_def get_leaf_eq Let_def split: if_splits)
qed

lemma bt_insert_spec:
  assumes "bt_inv N M t" "key < 2 ^ 64" "2 < N" "2 \<le> M"
  shows "\<exists>t'. bt_insert N M key val t = Inr t' \<and> bt_inv N M t' \<and> bt_view t' = (bt_view t)(key \<mapsto> val)"
proof -
  let ?d = "bt_depth t" and ?p = "bt_root t" and ?hi = "2 ^ 64 :: nat"
  have ok: "bt_ok N M t ?d ?p 0 ?hi" "distinct (bt_addrs t ?d ?p)" "set (bt_addrs t ?d ?p) \<subseteq> {..<bt_fresh t}"
    using assms(1) by (simp_all add: bt_inv_def)
  from insert_branch_ok [OF ok(1) le0 assms(2) ok(2,3) assms(3,4), of val] obtain t1 cs where
    r: "insert_branch N M t ?p ?d key val = Inr (t1, cs)" "ins_post N M t ?d ?p 0 ?hi key val t1 cs" by blast
  note post = r(2) [unfolded ins_post_def]
  have rt: "bt_root t1 = ?p" "bt_depth t1 = ?d" using post by simp_all
  have vw: "map_of (ins key val (bt_entries t ?d ?p)) = (bt_view t)(key \<mapsto> val)"
    using map_of_ins [OF bt_entries_sorted [OF ok(1)]] by (simp add: bt_view_def)
  have sub: "set (kid_addrs t1 ?d (ins_parts ?p cs)) \<subseteq> {..<bt_fresh t1}" using post ok(3) by fastforce
  show ?thesis
  proof (cases cs)
    case None
    then have "bt_inv N M t1" "bt_view t1 = (bt_view t)(key \<mapsto> val)"
      using post rt vw sub by (simp_all add: bt_inv_def bt_view_def ins_parts_def)
    then show ?thesis using r(1) None by (auto simp: bt_insert_def)
  next
    case (Some si)
    define t2 where "t2 = snd (new_branch N t1)"
    let ?r = "bt_fresh t1"
    have t2: "new_branch N t1 = (?r, t2)" "bt_branches t2 = (bt_branches t1)(?r \<mapsto> branch_new N (bt_junk t1))"
      "bt_leaves t2 = bt_leaves t1" "bt_fresh t2 = Suc ?r" "bt_depth t2 = ?d" using rt by (simp_all add: t2_def new_branch_def)
    define b where "b = (branch_new N (bt_junk t1))\<lparr>br_keys := (br_keys (branch_new N (bt_junk t1)))[0 := si_key si],
        br_children := (br_children (branch_new N (bt_junk t1)))[0 := si_left si, 1 := si_right si], br_num := 1\<rparr>"
    let ?t' = "(put_branch ?r b t2)\<lparr>bt_root := ?r, bt_depth := ?d + 1\<rparr>"
    have res: "bt_insert N M key val t = Inr ?t'"
      using r(1) Some t2 by (simp add: bt_insert_def get_branch_def b_def branch_new_def)
    obtain n where n: "N = Suc (Suc (Suc n))" using assms(3) by (auto dest: less_imp_Suc_add simp: numeral_2_eq_2)
    have b: "branch_ok N b" "bks b = [si_key si]" "bcs b = [?p, si_right si]"
      using post Some by (simp_all add: b_def branch_new_def branch_ok_def n)
    have parts: "ins_parts ?p cs = bcs b" using Some b(3) by (simp add: ins_parts_def)
    have "agree (set (kid_addrs t1 ?d (bcs b))) t1 ?t'" using sub t2 unfolding parts by (auto simp: agree_def)
    note fr = kids_frame [OF this]
    have br: "bt_branches ?t' ?r = Some b" by simp
    have "segs (\<lambda>c l h. bt_ok N M t1 ?d c l h) 0 (bks b) (bcs b) ?hi" using post Some b by simp
    from branch_bt_ok [OF br b(1) fr(3) [OF this]] have o: "bt_ok N M ?t' (Suc ?d) ?r 0 ?hi" .
    have a: "bt_addrs ?t' (Suc ?d) ?r = ?r # kid_addrs t1 ?d (bcs b)" unfolding branch_addrs [OF br] fr(1) ..
    have e: "bt_entries ?t' (Suc ?d) ?r = ins key val (bt_entries t ?d ?p)"
      unfolding branch_entries [OF br] fr(2) using post unfolding parts by simp
    have "distinct (bt_addrs ?t' (Suc ?d) ?r)" "set (bt_addrs ?t' (Suc ?d) ?r) \<subseteq> {..<bt_fresh ?t'}"
      unfolding a using post sub t2(4) unfolding parts by auto
    then have "bt_inv N M ?t'" using o unfolding bt_inv_def by (simp del: bt_ok.simps bt_addrs.simps)
    moreover have "bt_view ?t' = (bt_view t)(key \<mapsto> val)" using e vw unfolding bt_view_def by (simp del: bt_entries.simps)
    ultimately show ?thesis using res by blast
  qed
qed

text \<open>
  The interface the index code relies on, and what follows from it for filling an index.
\<close>

fun insert_all :: "(nat \<Rightarrow> nat \<Rightarrow> 't \<Rightarrow> 't result) \<Rightarrow> (nat \<times> nat) list \<Rightarrow> 't \<Rightarrow> 't result" where
  "insert_all f [] t = Inr t"
| "insert_all f ((k, v) # kvs) t = rbind (f k v t) (insert_all f kvs)"

locale key_index =
  fixes inv :: "'t \<Rightarrow> bool" and view :: "'t \<Rightarrow> nat \<Rightarrow> nat option"
    and insert :: "nat \<Rightarrow> nat \<Rightarrow> 't \<Rightarrow> 't result" and lookup :: "'t \<Rightarrow> nat \<Rightarrow> nat option result"
    and bound :: nat
  assumes insert_law: "inv t \<Longrightarrow> k < bound \<Longrightarrow>
      \<exists>t'. insert k v t = Inr t' \<and> inv t' \<and> view t' = (view t)(k \<mapsto> v)"
    and lookup_law: "inv t \<Longrightarrow> k < bound \<Longrightarrow> lookup t k = Inr (view t k)"
begin

lemma insert_all_view:
  "inv t \<Longrightarrow> \<forall>k\<in>fst ` set kvs. k < bound \<Longrightarrow>
   \<exists>t'. insert_all insert kvs t = Inr t' \<and> inv t' \<and> view t' = view t ++ map_of (rev kvs)"
proof (induction kvs arbitrary: t)
  case (Cons kv kvs)
  obtain k v where kv: "kv = (k, v)" by (cases kv)
  from insert_law [OF Cons.prems(1), of k v] Cons.prems(2) kv obtain t1 where
    t1: "insert k v t = Inr t1" "inv t1" "view t1 = (view t)(k \<mapsto> v)" by auto
  from Cons.IH [OF t1(2)] Cons.prems(2) obtain t' where
    "insert_all insert kvs t1 = Inr t'" "inv t'" "view t' = view t1 ++ map_of (rev kvs)" by auto
  then show ?case using kv t1 by (auto simp: map_add_def fun_eq_iff split: option.splits)
qed simp

lemma insert_all_lookup:
  assumes "inv t" "\<forall>k\<in>fst ` set kvs. k < bound" "distinct (map fst kvs)" "(k, v) \<in> set kvs"
  shows "\<exists>t'. insert_all insert kvs t = Inr t' \<and> lookup t' k = Inr (Some v)"
proof -
  from insert_all_view [OF assms(1,2)] obtain t' where
    t': "insert_all insert kvs t = Inr t'" "inv t'" "view t' = view t ++ map_of (rev kvs)" by blast
  have "k < bound" using assms(2,4) by force
  moreover have "map_of (rev kvs) k = Some v" 
    by (rule map_of_is_SomeI) (use assms(3,4) in \<open>simp_all flip: rev_map\<close>)
  ultimately show ?thesis using lookup_law [OF t'(2)] t'(1,3) by simp
qed

end

text \<open>The trees of the indexes: \<open>BPTree<uint64_t, offset_t, 126, 10>\<close>.\<close>

interpretation im_btree: key_index "bt_inv 126 10" bt_view "bt_insert 126 10" bt_lookup "2 ^ 64"
  by unfold_locales (auto intro!: bt_insert_spec bt_lookup_spec)

section \<open>Properties\<close>

text \<open>
  C9. Insert and lookup: on a well-formed tree \<open>insert\<close> always succeeds, keeps the tree well-formed
  through all splits, and afterwards \<open>lookup\<close> returns the new value for the key and the old result for
  every other key; for branch nodes of more than two and leaves of at least two keys.
\<close>

theorem bt_insert_lookup:
  assumes "bt_inv N M t" "key < 2 ^ 64" "k < 2 ^ 64" "2 < N" "2 \<le> M"
  shows "\<exists>t'. bt_insert N M key val t = Inr t' \<and> bt_inv N M t' \<and>
     bt_lookup t' k = (if k = key then Inr (Some val) else bt_lookup t k)"
proof -
  from bt_insert_spec [OF assms(1,2,4,5), of val] obtain t' where
    "bt_insert N M key val t = Inr t'" "bt_inv N M t'" "bt_view t' = (bt_view t)(key \<mapsto> val)" by blast
  then show ?thesis using bt_lookup_spec [OF _ assms(3)] assms(1) by auto
qed

theorem bt_insert_lookup_witness:
  "\<exists>t. bt_insert 126 10 5 50 (bt_new 10 0) = Inr t \<and> bt_inv 126 10 t \<and> bt_lookup t 5 = Inr (Some 50)"
  using bt_insert_lookup [OF bt_new_inv(1) [of 126 10 0], of 5 5 50] by simp

text \<open>
  Filling an index: the tree of an index filled with pairs of distinct keys contains every one of them.
\<close>

theorem bt_fill_lookup:
  assumes "\<forall>k\<in>fst ` set kvs. k < 2 ^ 64" "distinct (map fst kvs)" "(k, v) \<in> set kvs"
  shows "\<exists>t. insert_all (bt_insert 126 10) kvs (bt_new 10 u) = Inr t \<and> bt_lookup t k = Inr (Some v)"
  by (rule im_btree.insert_all_lookup [OF bt_new_inv(1) assms])

theorem bt_fill_lookup_witness:
  "\<exists>t. insert_all (bt_insert 126 10) [(3, 30), (1, 10), (2, 20)] (bt_new 10 7) = Inr t \<and> bt_lookup t 1 = Inr (Some 10)"
  by (rule bt_fill_lookup) simp_all

text \<open>Erasing the last of at least two entries of a leaf.\<close>

lemma leaf_pos_last:
  assumes "leaf_ok M l" "lf_num l = Suc n" "lf_keys l ! n = k"
  shows "leaf_pos l k = n" "leaf_pos (l\<lparr>lf_num := n\<rparr>) k = n"
proof -
  have n: "n < length (lf_keys l)" using assms(1,2) by (simp add: leaf_ok_def)
  have tk: "take (Suc n) (lf_keys l) = take n (lf_keys l) @ [k]" using take_Suc_conv_app_nth [OF n] assms(3) by simp
  have lt: "\<forall>a\<in>set (take n (lf_keys l)). a < k" using assms(1,2) tk by (simp add: leaf_ok_def sorted_wrt_append)
  then have tw: "takeWhile (\<lambda>a. a < k) (take n (lf_keys l)) = take n (lf_keys l)" by (simp add: takeWhile_eq_all_conv)
  show "leaf_pos (l\<lparr>lf_num := n\<rparr>) k = n" using n by (simp add: leaf_pos_def tw)
  show "leaf_pos l k = n" using n assms(2) tk lt by (simp add: leaf_pos_def takeWhile_append2)
qed

lemma erase_leaf_last:
  assumes "leaf_ok M l" "lf_num l = Suc n" "lf_keys l ! n = k"
  shows "erase_leaf M l k = Inr (l\<lparr>lf_num := n\<rparr>, True)"
proof -
  have "n < M" using assms(1,2) by (simp add: leaf_ok_def)
  then show ?thesis using leaf_pos_last(1) [OF assms] assms(2,3) by (simp add: erase_leaf_def)
qed

lemma erase_leaf_stale:
  assumes "leaf_ok M l" "lf_num l = Suc (Suc n)" "lf_keys l ! Suc n = k"
  shows "erase_leaf M (l\<lparr>lf_num := Suc n\<rparr>) k = Inr (l\<lparr>lf_num := n\<rparr>, True)"
proof -
  have "Suc n < M" using assms(1,2) by (simp add: leaf_ok_def)
  then show ?thesis using leaf_pos_last(2) [OF assms] assms(3) by (simp add: erase_leaf_def)
qed

text \<open>
  Erasing twice: the position of an absent key is not tested against the number of keys, and a
  deleted entry stays in its array slot. After the largest key of a tree of one leaf was erased, a
  second \<open>erase\<close> of the same key reports success again and deletes the entry before it.
\<close>

theorem bt_erase_twice_loses_entry:
  assumes "bt_depth t = 0" "bt_leaves t (bt_root t) = Some l" "leaf_ok M l" "lf_num l = Suc (Suc n)"
    "lf_keys l ! Suc n = k"
  shows "\<exists>t1 t2. bt_erase N M k t = Inr (t1, True) \<and> bt_entries t1 0 (bt_root t) = take (Suc n) (leaf_entries l) \<and>
     bt_erase N M k t1 = Inr (t2, True) \<and> bt_entries t2 0 (bt_root t) = take n (leaf_entries l)"
proof -
  let ?l1 = "l\<lparr>lf_num := Suc n\<rparr>" and ?l2 = "l\<lparr>lf_num := n\<rparr>" and ?p = "bt_root t"
  have e: "leaf_entries ?l1 = take (Suc n) (leaf_entries l)" "leaf_entries ?l2 = take n (leaf_entries l)"
    using assms(4) by (simp_all add: leaf_entries_def take_zip)
  have "bt_erase N M k t = Inr (put_leaf ?p ?l1 t, True)"
    using assms(1,2) erase_leaf_last [OF assms(3-5)] by (simp add: bt_erase_def get_leaf_def)
  moreover have "bt_erase N M k (put_leaf ?p ?l1 t) = Inr (put_leaf ?p ?l2 (put_leaf ?p ?l1 t), True)"
    using assms(1) erase_leaf_stale [OF assms(3-5)] by (simp add: bt_erase_def get_leaf_def)
  ultimately show ?thesis using e by auto
qed

definition bt_demo :: btree where
  "bt_demo = \<lparr>bt_leaves = [0 \<mapsto> \<lparr>lf_num = 2, lf_keys = 3 # 8 # replicate 8 0, lf_values = 30 # 80 # replicate 8 0,
     lf_next = None, lf_prev = None\<rparr>], bt_branches = Map.empty, bt_fresh = 1, bt_depth = 0, bt_root = 0, bt_junk = 0\<rparr>"

theorem bt_erase_twice_loses_entry_witness:
  "\<exists>t1 t2. bt_erase 126 10 8 bt_demo = Inr (t1, True) \<and> bt_entries t1 0 0 = [(3, 30)] \<and>
     bt_erase 126 10 8 t1 = Inr (t2, True) \<and> bt_entries t2 0 0 = []"
  using bt_erase_twice_loses_entry [of bt_demo "the (bt_leaves bt_demo 0)" 10 0 8 126]
  by (simp add: bt_demo_def leaf_ok_def leaf_entries_def numeral_2_eq_2)

lemma leaf_insert_at_next: "leaf_insert_at M l pos key val = Inr l' \<Longrightarrow> lf_next l' = lf_next l"
  by (auto simp: leaf_insert_at_def split: if_splits)

lemma insert_leaf_split_links:
  assumes r: "insert_leaf M t p key val = Inr (t', cs)" and l: "bt_leaves t p = Some l"
    and d: "\<not> (leaf_pos l key < lf_num l \<and> lf_keys l ! leaf_pos l key = key)" and f: "lf_num l = M" and p: "p < bt_fresh t"
  shows "\<exists>l2 sl2. cs = Some \<lparr>si_key = lf_keys sl2 ! 0, si_left = p, si_right = bt_fresh t\<rparr> \<and>
     bt_leaves t' p = Some l2 \<and> lf_next l2 = Some (bt_fresh t) \<and> bt_leaves t' (bt_fresh t) = Some sl2 \<and> lf_next sl2 = None"
proof -
  let ?s = "bt_fresh t" and ?m = "(M + 1) div 2" and ?pos = "leaf_pos l key"
  define t1 where "t1 = snd (new_leaf M t)"
  have t1: "new_leaf M t = (?s, t1)" "bt_leaves t1 = (bt_leaves t)(?s \<mapsto> leaf_new M (bt_junk t))"
    by (simp_all add: t1_def new_leaf_def)
  then have gs: "get_leaf t1 ?s = Inr (leaf_new M (bt_junk t))" by (simp add: get_leaf_def)
  define l1 where "l1 = l\<lparr>lf_num := ?m\<rparr>"
  define sl1 where "sl1 = (leaf_new M (bt_junk t))\<lparr>lf_num := lf_num l - ?m,
      lf_keys := copy_range (lf_num l - ?m) (lf_keys (leaf_new M (bt_junk t))) 0 (lf_keys l) ?m,
      lf_values := copy_range (lf_num l - ?m) (lf_values (leaf_new M (bt_junk t))) 0 (lf_values l) ?m\<rparr>"
  have n: "lf_next sl1 = None" by (simp add: sl1_def leaf_new_def)
  from r obtain l2 sl2 where x: "(if ?pos < ?m then rbind (leaf_insert_at M l1 ?pos key val) (\<lambda>l2. Inr (l2, sl1))
        else rbind (leaf_insert_at M sl1 (?pos - ?m) key val) (\<lambda>sl2. Inr (l1, sl2))) = Inr (l2, sl2)"
    "t' = put_leaf ?s (sl2\<lparr>lf_prev := Some p\<rparr>) (put_leaf p (l2\<lparr>lf_next := Some ?s\<rparr>) t1)"
    "cs = Some \<lparr>si_key = lf_keys sl2 ! 0, si_left = p, si_right = ?s\<rparr>"
    unfolding insert_leaf_def get_leaf_eq [OF l] rbind_Inr Let_def if_not_P [OF d] if_P [OF f] t1(1)
      prod.case gs sl1_def [symmetric] l1_def [symmetric] by (auto simp: rbind_eq_Inr_iff)
  have "lf_next sl2 = None" using x(1) n leaf_insert_at_next by (auto simp: rbind_eq_Inr_iff split: if_splits)
  then show ?thesis using x(2,3) p by auto
qed

text \<open>
  Leaf chain: splitting a leaf sets the \<open>nextLeaf\<close> of the old leaf to the new one, but leaves the
  \<open>nextLeaf\<close> of the new one empty. A scan that starts at a split leaf ends behind its entries: the leaves
  that followed are no longer reached.
\<close>

theorem bt_split_cuts_chain:
  assumes "bt_leaves t p = Some l" "leaf_ok M l" "lf_num l = M" "2 \<le> M" "p < bt_fresh t"
    "key \<notin> set (lf_keys l)" "lf_next l = Some q"
  shows "\<exists>t' si. insert_leaf M t p key val = Inr (t', Some si) \<and> scan_from (Suc (Suc n)) t' (Some p) = Inr (ins key val (leaf_entries l))"
proof -
  let ?hi = "Suc (Max (insert key (set (lf_keys l))))"
  have tk: "take M (lf_keys l) = lf_keys l" using assms(2) by (simp add: leaf_ok_def)
  have m: "k < ?hi" if "k \<in> insert key (set (lf_keys l))" for k by (rule le_imp_less_Suc, rule Max_ge) (use that in simp_all)
  then have "bt_ok 3 M t 0 p 0 ?hi" using assms(1-3) tk by simp
  from insert_leaf_ok [OF this le0 m assms(5,4), of key val] obtain t' cs where
    r: "insert_leaf M t p key val = Inr (t', cs)" "ins_post 3 M t 0 p 0 ?hi key val t' cs" by auto
  have "\<not> (leaf_pos l key < lf_num l \<and> lf_keys l ! leaf_pos l key = key)"
    using assms(2,3,6) by (metis leaf_ok_def nth_mem)
  from insert_leaf_split_links [OF r(1) assms(1) this assms(3,5)] obtain l2 sl2 where
    c: "cs = Some \<lparr>si_key = lf_keys sl2 ! 0, si_left = p, si_right = bt_fresh t\<rparr>"
    "bt_leaves t' p = Some l2" "lf_next l2 = Some (bt_fresh t)" "bt_leaves t' (bt_fresh t) = Some sl2" "lf_next sl2 = None"
    by blast
  have "leaf_entries l2 @ leaf_entries sl2 = ins key val (leaf_entries l)"
    using r(2) c assms(1) by (simp add: ins_post_def ins_parts_def)
  then show ?thesis using r(1) c by (auto simp: get_leaf_def)
qed

definition bt_chain_demo :: btree where
  "bt_chain_demo = \<lparr>bt_leaves =
     [0 \<mapsto> \<lparr>lf_num = 2, lf_keys = [10, 20], lf_values = [1, 2], lf_next = Some 1, lf_prev = None\<rparr>,
      1 \<mapsto> \<lparr>lf_num = 1, lf_keys = [30, 0], lf_values = [3, 0], lf_next = None, lf_prev = Some 0\<rparr>],
     bt_branches = [2 \<mapsto> \<lparr>br_num = 1, br_keys = [30, 0, 0], br_children = [0, 1, 0, 0]\<rparr>],
     bt_fresh = 3, bt_depth = 1, bt_root = 2, bt_junk = 0\<rparr>"

theorem bt_split_cuts_chain_witness:
  "scan_from 2 bt_chain_demo (Some 0) = Inr [(10, 1), (20, 2), (30, 3)] \<and>
   (\<exists>t si. insert_leaf 2 bt_chain_demo 0 15 5 = Inr (t, Some si) \<and> scan_from 2 t (Some 0) = Inr [(10, 1), (15, 5), (20, 2)])"
proof
  show "scan_from 2 bt_chain_demo (Some 0) = Inr [(10, 1), (20, 2), (30, 3)]"
    by (simp add: bt_chain_demo_def get_leaf_def leaf_entries_def numeral_2_eq_2)
  show "\<exists>t si. insert_leaf 2 bt_chain_demo 0 15 5 = Inr (t, Some si) \<and> scan_from 2 t (Some 0) = Inr [(10, 1), (15, 5), (20, 2)]"
    using bt_split_cuts_chain [of bt_chain_demo 0 "the (bt_leaves bt_chain_demo 0)" 2 15 1 5 0]
    by (simp add: bt_chain_demo_def leaf_ok_def leaf_entries_def numeral_2_eq_2)
qed

text \<open>
  Range scans start with the first entry of the leaf that may hold the lower bound: entries
  below the bound are delivered too.
\<close>

lemma bt_range_scan_one_leaf:
  assumes "bt_depth t = 0" "bt_leaves t (bt_root t) = Some l" "lf_next l = None" "0 < bt_fresh t"
  shows "bt_range_scan t minKey maxKey = Inr (takeWhile (\<lambda>(k, v). k \<le> maxKey) (leaf_entries l))"
  using assms by (cases "bt_fresh t") (auto simp: bt_range_scan_def find_leaf_def get_leaf_def Let_def)

end
