(* ===== verification/Paged_BTree.thy ===== *)
theory Paged_BTree
  imports BTree Paged_Pool "HOL-Library.Countable"
begin

text \<open>
  The B+ tree of the paged configuration, class \<open>BPTree\<close> of \<^verbatim>\<open>src/src/btree/pfbtree.hpp\<close>: opening, searching, scanning, inserting and erasing. The nodes are those of the in-memory
  tree with the number of their page; children and siblings are page numbers, the sibling \<open>0\<close> is \<open>None\<close>. How a node is laid out in a page is a parameter, as for the paged vector.

  A pointer to a node is the position of its page in the buffer together with the number of the page. Nodes are not pinned: using a pointer after the page was evicted is
  undefined behaviour in the model, since its memory may belong to another page. The root pointer is loaded again by every operation and not kept here. The range scan assigns a member in a function that is declared constant, which no compiler accepts once it is used, and is left out.
\<close>

section \<open>Nodes in pages\<close>

datatype pnode = Leaf_node nat leaf | Branch_node nat branch

type_synonym pnode_layout = "(pnode \<Rightarrow> page) \<times> (page \<Rightarrow> pnode)"
type_synonym node_ptr = "(nat \<times> nat) option"

record pbtree =
  pt_pool :: bufferpool
  pt_file :: nat
  pt_depth :: nat
  pt_root :: nat
  pt_junk :: nat

definition pt_res :: "'b result \<Rightarrow> (pbtree, 'b) action" where
  "pt_res r = slift (\<lambda>_. r)"

definition pt_lift :: "(bufferpool, 'b) action \<Rightarrow> (pbtree, 'b) action" where
  "pt_lift m T = (case m (pt_pool T) of (r, b) \<Rightarrow> (r, T\<lparr>pt_pool := b\<rparr>))"

definition load_node :: "nat \<Rightarrow> (pbtree, node_ptr) action" where
  "load_node pid T =
     sbind (pt_res (rbind (bp_get_file (pt_file T) (pt_pool T)) (\<lambda>f. pf_is_valid f pid))) (\<lambda>ok.
     if ok then sbind (pt_lift (bp_fetch_page (mk_pid (pt_file T) pid))) (\<lambda>p. sret (Some (p, pid))) else sret None) T"

definition resident :: "nat \<times> nat \<Rightarrow> pbtree \<Rightarrow> bool" where
  "resident q T = (case map_of (bp_ptable (pt_pool T)) (mk_pid (pt_file T) (snd q)) of None \<Rightarrow> False | Some s \<Rightarrow> bs_p s = fst q)"

definition pt_deref :: "node_ptr \<Rightarrow> (pbtree, nat \<times> nat) action" where
  "pt_deref n = slift (\<lambda>T. case n of None \<Rightarrow> Inl Undefined_behaviour | Some q \<Rightarrow> if resident q T then Inr q else Inl Undefined_behaviour)"

definition pt_read :: "pnode_layout \<Rightarrow> node_ptr \<Rightarrow> (pbtree, pnode) action" where
  "pt_read lay n = sbind (pt_deref n) (\<lambda>q. slift (\<lambda>T. Inr (snd lay (bp_buffer (pt_pool T) ! fst q))))"

definition pt_write :: "pnode_layout \<Rightarrow> node_ptr \<Rightarrow> pnode \<Rightarrow> (pbtree, unit) action" where
  "pt_write lay n x = sbind (pt_deref n) (\<lambda>q. supd (\<lambda>T. Inr (T\<lparr>pt_pool := bp_poke (fst q) (fst lay x) (pt_pool T)\<rparr>)))"

definition pt_mark :: "nat \<Rightarrow> (pbtree, unit) action" where
  "pt_mark pid = supd (\<lambda>T. Inr (T\<lparr>pt_pool := bp_mark_dirty (mk_pid (pt_file T) pid) (pt_pool T)\<rparr>))"

text \<open>The node type is asserted.\<close>

definition pt_leaf :: "pnode_layout \<Rightarrow> node_ptr \<Rightarrow> (pbtree, nat \<times> leaf) action" where
  "pt_leaf lay n = sbind (pt_read lay n) (\<lambda>x. pt_res (case x of Leaf_node pid l \<Rightarrow> Inr (pid, l) | Branch_node _ _ \<Rightarrow> Inl Assertion_failed))"

definition pt_branch :: "pnode_layout \<Rightarrow> node_ptr \<Rightarrow> (pbtree, nat \<times> branch) action" where
  "pt_branch lay n = sbind (pt_read lay n) (\<lambda>x. pt_res (case x of Branch_node pid b \<Rightarrow> Inr (pid, b) | Leaf_node _ _ \<Rightarrow> Inl Assertion_failed))"

definition load_root :: "(pbtree, node_ptr) action" where
  "load_root T = load_node (pt_root T) T"

section \<open>Opening and closing\<close>

text \<open>Depth and root are kept in the payload of the file header, in four and eight bytes.\<close>

definition le_bytes :: "nat \<Rightarrow> nat \<Rightarrow> 8 word list" where
  "le_bytes n v = map (\<lambda>i. of_nat (v div 256 ^ i)) [0..<n]"

definition le_value :: "8 word list \<Rightarrow> nat" where
  "le_value bs = (\<Sum>i<length bs. unat (bs ! i) * 256 ^ i)"

definition pt_new_leaf :: "pnode_layout \<Rightarrow> nat \<Rightarrow> (pbtree, node_ptr) action" where
  "pt_new_leaf lay M T =
     sbind (pt_lift (bp_allocate_page (pt_file T))) (\<lambda>(p, pid).
     sbind (pt_write lay (Some (p, pid)) (Leaf_node pid (leaf_new M (pt_junk T)))) (\<lambda>_. sret (Some (p, pid)))) T"

definition pt_new_branch :: "pnode_layout \<Rightarrow> nat \<Rightarrow> (pbtree, node_ptr) action" where
  "pt_new_branch lay N T =
     sbind (pt_lift (bp_allocate_page (pt_file T))) (\<lambda>(p, pid).
     sbind (pt_write lay (Some (p, pid)) (Branch_node pid (branch_new N (pt_junk T)))) (\<lambda>_. sret (Some (p, pid)))) T"

text \<open>A new root leaf is written to its page, which is not marked dirty; it gets the page number 1, whatever page was allocated.\<close>

definition pt_open :: "pnode_layout \<Rightarrow> nat \<Rightarrow> nat \<Rightarrow> bufferpool \<Rightarrow> nat \<Rightarrow> unit result \<times> pbtree" where
  "pt_open lay M file_id pool junk =
     (let T0 = \<lparr>pt_pool = pool, pt_file = file_id, pt_depth = 0, pt_root = 1, pt_junk = junk\<rparr> in
      sbind (pt_res (bp_get_file file_id pool)) (\<lambda>f.
      let data = fh_payload (pf_header f) in
      sbind (supd (\<lambda>T. Inr (T\<lparr>pt_depth := le_value (take 4 data), pt_root := le_value (take 8 (drop 4 data))\<rparr>))) (\<lambda>_.
      if pf_npages f = 0 then
        sbind (pt_lift (bp_allocate_page file_id)) (\<lambda>(p, pid).
        sbind (supd (\<lambda>T. Inr (T\<lparr>pt_root := 1\<rparr>))) (\<lambda>_.
        pt_write lay (Some (p, pid)) (Leaf_node 1 (leaf_new M junk))))
      else sbind load_root (\<lambda>_. sret ()))) T0)"

definition pt_sync :: "pbtree \<Rightarrow> pbtree result" where
  "pt_sync T =
     rbind (bp_get_file (pt_file T) (pt_pool T)) (\<lambda>f.
     let data = fh_payload (pf_header f);
         f' = f\<lparr>pf_header := (pf_header f)\<lparr>fh_payload := le_bytes 4 (pt_depth T) @ le_bytes 8 (pt_root T) @ drop 12 data\<rparr>\<rparr>
     in Inr (T\<lparr>pt_pool := bp_put_file (pt_file T) f' (pt_pool T)\<rparr>))"

definition pt_close :: "pbtree \<Rightarrow> pbtree result" where
  "pt_close T = rbind (pt_sync T) (\<lambda>T1. rbind (bp_flush_all (pt_pool T1)) (\<lambda>b. Inr (T1\<lparr>pt_pool := b\<rparr>)))"

section \<open>Search\<close>

fun pt_find_leaf :: "pnode_layout \<Rightarrow> nat \<Rightarrow> node_ptr \<Rightarrow> nat \<Rightarrow> (pbtree, node_ptr) action" where
  "pt_find_leaf lay 0 n key = sret n"
| "pt_find_leaf lay (Suc d) n key =
     sbind (pt_branch lay n) (\<lambda>(_, b).
     let pid = br_children b ! branch_pos b key in
     if pid = 0 then sthrow Assertion_failed else sbind (load_node pid) (\<lambda>c. pt_find_leaf lay d c key))"

definition pt_lookup :: "pnode_layout \<Rightarrow> nat \<Rightarrow> (pbtree, nat option) action" where
  "pt_lookup lay key T =
     sbind load_root (\<lambda>n.
     sbind (pt_find_leaf lay (pt_depth T) n key) (\<lambda>c.
     sbind (pt_leaf lay c) (\<lambda>(_, l).
     let pos = leaf_pos l key in
     sret (if pos < lf_num l \<and> lf_keys l ! pos = key then Some (lf_values l ! pos) else None)))) T"

fun pt_leftmost :: "pnode_layout \<Rightarrow> nat \<Rightarrow> node_ptr \<Rightarrow> (pbtree, node_ptr) action" where
  "pt_leftmost lay 0 n = sret n"
| "pt_leftmost lay (Suc d) n = sbind (pt_branch lay n) (\<lambda>(_, b). sbind (load_node (br_children b ! 0)) (pt_leftmost lay d))"

definition sibling_pid :: "nat option \<Rightarrow> nat" where
  "sibling_pid q = (case q of None \<Rightarrow> 0 | Some p \<Rightarrow> p)"

text \<open>The pairs that a scan hands to its function, in order; a chain of leaves that does not end runs out of fuel.\<close>

fun pt_scan_from :: "nat \<Rightarrow> pnode_layout \<Rightarrow> node_ptr \<Rightarrow> (pbtree, (nat \<times> nat) list) action" where
  "pt_scan_from fuel lay None = sret []"
| "pt_scan_from fuel lay (Some q) =
     sbind (pt_leaf lay (Some q)) (\<lambda>(_, l).
     case fuel of
       0 \<Rightarrow> sthrow Diverges
     | Suc k \<Rightarrow> sbind (load_node (sibling_pid (lf_next l))) (\<lambda>n. sbind (pt_scan_from k lay n) (\<lambda>es. sret (leaf_entries l @ es))))"

definition pt_scan :: "nat \<Rightarrow> pnode_layout \<Rightarrow> (pbtree, (nat \<times> nat) list) action" where
  "pt_scan fuel lay T = sbind load_root (\<lambda>n. sbind (pt_leftmost lay (pt_depth T) n) (pt_scan_from fuel lay)) T"

section \<open>Insert\<close>

definition pt_insert_at :: "pnode_layout \<Rightarrow> nat \<Rightarrow> node_ptr \<Rightarrow> nat \<Rightarrow> nat \<Rightarrow> nat \<Rightarrow> (pbtree, unit) action" where
  "pt_insert_at lay M n pos key val =
     sbind (pt_leaf lay n) (\<lambda>(pid, l).
     sbind (pt_res (leaf_insert_at M l pos key val)) (\<lambda>l'.
     sbind (pt_write lay n (Leaf_node pid l')) (\<lambda>_. pt_mark pid)))"

definition pt_insert_leaf :: "pnode_layout \<Rightarrow> nat \<Rightarrow> node_ptr \<Rightarrow> nat \<Rightarrow> nat \<Rightarrow> (pbtree, split_info option) action" where
  "pt_insert_leaf lay M n key val =
     sbind (pt_leaf lay n) (\<lambda>(pid, l).
     let pos = leaf_pos l key in
     if pos < lf_num l \<and> lf_keys l ! pos = key
     then sbind (pt_write lay n (Leaf_node pid (l\<lparr>lf_values := (lf_values l)[pos := val]\<rparr>))) (\<lambda>_. sbind (pt_mark pid) (\<lambda>_. sret None))
     else if lf_num l = M then
       let middle = (M + 1) div 2 in
       sbind (pt_new_leaf lay M) (\<lambda>s.
       sbind (pt_leaf lay s) (\<lambda>(spid, sl).
       sbind (pt_mark spid) (\<lambda>_.
       sbind (pt_leaf lay n) (\<lambda>(pid, l).
       let k = lf_num l - middle;
           sl1 = sl\<lparr>lf_num := k, lf_keys := copy_range k (lf_keys sl) 0 (lf_keys l) middle,
                    lf_values := copy_range k (lf_values sl) 0 (lf_values l) middle\<rparr> in
       sbind (pt_write lay s (Leaf_node spid sl1)) (\<lambda>_.
       sbind (pt_write lay n (Leaf_node pid (l\<lparr>lf_num := middle\<rparr>))) (\<lambda>_.
       sbind (if pos < middle then pt_insert_at lay M n pos key val else pt_insert_at lay M s (pos - middle) key val) (\<lambda>_.
       sbind (pt_leaf lay n) (\<lambda>(pid, l2).
       sbind (pt_write lay n (Leaf_node pid (l2\<lparr>lf_next := Some spid\<rparr>))) (\<lambda>_.
       sbind (pt_leaf lay s) (\<lambda>(spid, sl2).
       sbind (pt_write lay s (Leaf_node spid (sl2\<lparr>lf_prev := Some pid\<rparr>))) (\<lambda>_.
       sbind (pt_mark pid) (\<lambda>_.
       sret (Some \<lparr>si_key = lf_keys sl2 ! 0, si_left = pid, si_right = spid\<rparr>)))))))))))))
     else sbind (pt_insert_at lay M n pos key val) (\<lambda>_. sret None))"

definition pt_split_branch :: "pnode_layout \<Rightarrow> nat \<Rightarrow> node_ptr \<Rightarrow> nat \<Rightarrow> (pbtree, split_info) action" where
  "pt_split_branch lay N n splitKey =
     sbind (pt_branch lay n) (\<lambda>(_, b).
     let m0 = (N + 1) div 2; middle = (if br_keys b ! m0 < splitKey then m0 + 1 else m0) in
     sbind (pt_new_branch lay N) (\<lambda>s.
     sbind (pt_branch lay n) (\<lambda>(pid, b).
     sbind (pt_branch lay s) (\<lambda>(spid, sb).
     let k = br_num b - middle;
         sb1 = sb\<lparr>br_num := k, br_keys := copy_range k (br_keys sb) 0 (br_keys b) middle,
                  br_children := (copy_range k (br_children sb) 0 (br_children b) middle)[k := br_children b ! br_num b]\<rparr> in
     sbind (pt_write lay s (Branch_node spid sb1)) (\<lambda>_.
     sbind (pt_mark spid) (\<lambda>_.
     sbind (pt_write lay n (Branch_node pid (b\<lparr>br_num := middle - 1\<rparr>))) (\<lambda>_.
     sbind (pt_mark pid) (\<lambda>_.
     sret \<lparr>si_key = br_keys b ! (middle - 1), si_left = pid, si_right = spid\<rparr>))))))))"

fun pt_insert_branch :: "pnode_layout \<Rightarrow> nat \<Rightarrow> nat \<Rightarrow> node_ptr \<Rightarrow> nat \<Rightarrow> nat \<Rightarrow> nat \<Rightarrow> (pbtree, split_info option) action" where
  "pt_insert_branch lay N M n 0 key val = pt_insert_leaf lay M n key val"
| "pt_insert_branch lay N M n (Suc d) key val =
     sbind (pt_branch lay n) (\<lambda>(_, b).
     let pos = branch_pos b key in
     sbind (load_node (br_children b ! pos)) (\<lambda>c.
     sbind (pt_insert_branch lay N M c d key val) (\<lambda>cs.
     case cs of
       None \<Rightarrow> sret None
     | Some ci \<Rightarrow>
         sbind (pt_branch lay n) (\<lambda>(_, b1).
         sbind (if br_num b1 = N
                then sbind (pt_split_branch lay N n (si_key ci)) (\<lambda>si.
                     sbind (load_node (if key < si_key si then si_left si else si_right si)) (\<lambda>host.
                     sbind (pt_branch lay host) (\<lambda>(_, hb). sret (host, branch_pos hb key, Some si))))
                else sret (n, pos, None)) (\<lambda>(host, hpos, res).
         sbind (pt_branch lay host) (\<lambda>(hpid, hb).
         sbind (pt_write lay host (Branch_node hpid (branch_add hb hpos ci))) (\<lambda>_.
         sbind (pt_mark hpid) (\<lambda>_. sret res))))))))"

definition pt_insert :: "pnode_layout \<Rightarrow> nat \<Rightarrow> nat \<Rightarrow> nat \<Rightarrow> nat \<Rightarrow> (pbtree, unit) action" where
  "pt_insert lay N M key val T =
     sbind load_root (\<lambda>n.
     sbind (pt_insert_branch lay N M n (pt_depth T) key val) (\<lambda>cs.
     case cs of
       None \<Rightarrow> sret ()
     | Some si \<Rightarrow>
         sbind (pt_new_branch lay N) (\<lambda>r.
         sbind (pt_branch lay r) (\<lambda>(rpid, b).
         sbind (pt_write lay r (Branch_node rpid (b\<lparr>br_keys := (br_keys b)[0 := si_key si],
             br_children := (br_children b)[0 := si_left si, 1 := si_right si], br_num := br_num b + 1\<rparr>))) (\<lambda>_.
         sbind (supd (\<lambda>T. Inr (T\<lparr>pt_root := rpid, pt_depth := pt_depth T + 1\<rparr>))) (\<lambda>_.
         pt_mark rpid)))))) T"

section \<open>Erase\<close>

text \<open>The type of the node is not asserted.\<close>

definition pt_as_leaf :: "pnode_layout \<Rightarrow> node_ptr \<Rightarrow> (pbtree, nat \<times> leaf) action" where
  "pt_as_leaf lay n = sbind (pt_read lay n) (\<lambda>x. pt_res (case x of Leaf_node pid l \<Rightarrow> Inr (pid, l) | Branch_node _ _ \<Rightarrow> Inl Undefined_behaviour))"

definition pt_as_branch :: "pnode_layout \<Rightarrow> node_ptr \<Rightarrow> (pbtree, nat \<times> branch) action" where
  "pt_as_branch lay n = sbind (pt_read lay n) (\<lambda>x. pt_res (case x of Branch_node pid b \<Rightarrow> Inr (pid, b) | Leaf_node _ _ \<Rightarrow> Inl Undefined_behaviour))"

definition pt_delete_node :: "nat \<Rightarrow> (pbtree, unit) action" where
  "pt_delete_node pid = supd (\<lambda>T. rbind (bp_free_page (mk_pid (pt_file T) pid) (pt_pool T)) (\<lambda>b. Inr (T\<lparr>pt_pool := b\<rparr>)))"

definition pt_erase_leaf :: "pnode_layout \<Rightarrow> nat \<Rightarrow> node_ptr \<Rightarrow> nat \<Rightarrow> (pbtree, bool) action" where
  "pt_erase_leaf lay M n key =
     sbind (pt_as_leaf lay n) (\<lambda>(pid, l).
     sbind (pt_res (erase_leaf M l key)) (\<lambda>(l', deleted).
     if deleted then sbind (pt_write lay n (Leaf_node pid l')) (\<lambda>_. sbind (pt_mark pid) (\<lambda>_. sret True)) else sret False))"

definition pt_balance_leaves :: "pnode_layout \<Rightarrow> node_ptr \<Rightarrow> node_ptr \<Rightarrow> (pbtree, unit) action" where
  "pt_balance_leaves lay donor receiver =
     sbind (pt_as_leaf lay donor) (\<lambda>(dpid, dl).
     sbind (pt_as_leaf lay receiver) (\<lambda>(rpid, rl).
     if \<not> lf_num rl < lf_num dl then sthrow Assertion_failed
     else
       let balanced = (lf_num dl + lf_num rl) div 2; toMove = lf_num dl - balanced in
       if toMove = 0 then sret ()
       else
         let (dl', rl') =
           (if lf_keys dl ! 0 < lf_keys rl ! 0 then
              (dl\<lparr>lf_num := lf_num dl - toMove\<rparr>,
               rl\<lparr>lf_keys := copy_range toMove (make_room (lf_num rl) toMove (lf_keys rl)) 0 (lf_keys dl) balanced,
                  lf_values := copy_range toMove (make_room (lf_num rl) toMove (lf_values rl)) 0 (lf_values dl) balanced,
                  lf_num := lf_num rl + toMove\<rparr>)
            else
              (dl\<lparr>lf_keys := shift_down (lf_num dl - toMove) 0 toMove (lf_keys dl),
                  lf_values := shift_down (lf_num dl - toMove) 0 toMove (lf_values dl),
                  lf_num := lf_num dl - toMove\<rparr>,
               rl\<lparr>lf_keys := copy_range toMove (lf_keys rl) (lf_num rl) (lf_keys dl) 0,
                  lf_values := copy_range toMove (lf_values rl) (lf_num rl) (lf_values dl) 0,
                  lf_num := lf_num rl + toMove\<rparr>)) in
         sbind (pt_write lay receiver (Leaf_node rpid rl')) (\<lambda>_.
         sbind (pt_write lay donor (Leaf_node dpid dl')) (\<lambda>_.
         sbind (pt_mark dpid) (\<lambda>_. pt_mark rpid)))))"

text \<open>The leaf behind the two gets its new predecessor in the buffer only: its page is not marked dirty.\<close>

definition pt_merge_leaves :: "pnode_layout \<Rightarrow> nat \<Rightarrow> node_ptr \<Rightarrow> node_ptr \<Rightarrow> (pbtree, unit) action" where
  "pt_merge_leaves lay M n1 n2 =
     sbind (pt_as_leaf lay n1) (\<lambda>(pid1, l1).
     sbind (pt_as_leaf lay n2) (\<lambda>(pid2, l2).
     if M < lf_num l1 + lf_num l2 then sthrow Assertion_failed
     else
       sbind (pt_write lay n1 (Leaf_node pid1 (l1\<lparr>lf_keys := copy_range (lf_num l2) (lf_keys l1) (lf_num l1) (lf_keys l2) 0,
           lf_values := copy_range (lf_num l2) (lf_values l1) (lf_num l1) (lf_values l2) 0,
           lf_num := lf_num l1 + lf_num l2, lf_next := lf_next l2\<rparr>))) (\<lambda>_.
       sbind (pt_write lay n2 (Leaf_node pid2 (l2\<lparr>lf_num := 0\<rparr>))) (\<lambda>_.
       sbind (if sibling_pid (lf_next l2) \<noteq> 0
              then sbind (load_node (sibling_pid (lf_next l2))) (\<lambda>q.
                   sbind (pt_leaf lay q) (\<lambda>(qpid, ql).
                   sbind (pt_as_leaf lay n1) (\<lambda>(pid1, _).
                   pt_write lay q (Leaf_node qpid (ql\<lparr>lf_prev := Some pid1\<rparr>)))))
              else sret ()) (\<lambda>_.
       sbind (pt_as_leaf lay n1) (\<lambda>(pid1, _). pt_mark pid1))))))"

text \<open>\<open>keys[pos] = k\<close> in a branch, and the removal of a merged child; the page of the branch is not marked dirty in either.\<close>

definition pt_set_key :: "pnode_layout \<Rightarrow> nat \<Rightarrow> node_ptr \<Rightarrow> nat \<Rightarrow> nat \<Rightarrow> (pbtree, unit) action" where
  "pt_set_key lay N n pos k =
     sbind (pt_as_branch lay n) (\<lambda>(pid, b).
     if N \<le> pos then sthrow Undefined_behaviour else pt_write lay n (Branch_node pid (b\<lparr>br_keys := (br_keys b)[pos := k]\<rparr>)))"

definition pt_remove_merged :: "pnode_layout \<Rightarrow> node_ptr \<Rightarrow> nat \<Rightarrow> node_ptr \<Rightarrow> (pbtree, unit) action" where
  "pt_remove_merged lay n pos survivor =
     sbind (pt_as_branch lay n) (\<lambda>(pid, b).
     sbind (pt_as_leaf lay survivor) (\<lambda>(spid, _).
     if 1 < br_num b then
       let pos' = (if 0 < pos then pos - 1 else pos); k = br_num b - 1 - pos' in
       pt_write lay n (Branch_node pid (b\<lparr>br_keys := shift_down k pos' 1 (br_keys b),
         br_children := (shift_down k (pos' + 1) 1 (br_children b))[pos' := spid], br_num := br_num b - 1\<rparr>))
     else supd (\<lambda>T. Inr (T\<lparr>pt_root := spid, pt_depth := pt_depth T - 1\<rparr>))))"

text \<open>Both siblings are loaded and their types asserted, also when there is only one.\<close>

definition pt_underflow_leaf :: "pnode_layout \<Rightarrow> nat \<Rightarrow> nat \<Rightarrow> node_ptr \<Rightarrow> nat \<Rightarrow> node_ptr \<Rightarrow> (pbtree, unit) action" where
  "pt_underflow_leaf lay N M n pos c =
     sbind (pt_as_branch lay n) (\<lambda>(_, b).
     if br_num b < pos then sthrow Assertion_failed
     else
       let middle = (M + 1) div 2 in
       sbind (pt_as_leaf lay c) (\<lambda>(_, l).
       sbind (load_node (sibling_pid (lf_prev l))) (\<lambda>prev.
       sbind (pt_leaf lay prev) (\<lambda>_.
       sbind (pt_as_leaf lay c) (\<lambda>(_, l).
       sbind (load_node (sibling_pid (lf_next l))) (\<lambda>next.
       sbind (pt_leaf lay next) (\<lambda>_.
       sbind (if 0 < pos then sbind (pt_as_leaf lay prev) (\<lambda>(_, pl). sret (middle < lf_num pl)) else sret False) (\<lambda>left_rich.
       if left_rich then
         sbind (pt_balance_leaves lay prev c) (\<lambda>_. sbind (pt_as_leaf lay c) (\<lambda>(_, l). pt_set_key lay N n pos (lf_keys l ! 0)))
       else
       sbind (pt_as_branch lay n) (\<lambda>(_, b).
       sbind (if pos < br_num b then sbind (pt_as_leaf lay next) (\<lambda>(_, nl). sret (middle < lf_num nl)) else sret False) (\<lambda>right_rich.
       if right_rich then
         sbind (pt_balance_leaves lay next c) (\<lambda>_. sbind (pt_as_leaf lay next) (\<lambda>(_, nl). pt_set_key lay N n pos (lf_keys nl ! 0)))
       else if 0 < pos then
         sbind (pt_merge_leaves lay M prev c) (\<lambda>_.
         sbind (pt_as_leaf lay c) (\<lambda>(cpid, _). sbind (pt_delete_node cpid) (\<lambda>_. pt_remove_merged lay n pos prev)))
       else if pos < br_num b then
         sbind (pt_merge_leaves lay M c next) (\<lambda>_.
         sbind (pt_as_leaf lay next) (\<lambda>(npid, _). sbind (pt_delete_node npid) (\<lambda>_. pt_remove_merged lay n pos c)))
       else sthrow Assertion_failed))))))))))"

text \<open>At branch level the page numbers of the siblings are cast to pointers. Without siblings an assertion fails, so that neither merging nor balancing of branches is reached.\<close>

definition pt_underflow_branch :: "pnode_layout \<Rightarrow> node_ptr \<Rightarrow> nat \<Rightarrow> node_ptr \<Rightarrow> (pbtree, node_ptr) action" where
  "pt_underflow_branch lay n pos c =
     sbind (pt_as_branch lay n) (\<lambda>(_, b). if 0 < pos \<or> pos < br_num b then sthrow Undefined_behaviour else sthrow Assertion_failed)"

fun pt_erase_branch :: "pnode_layout \<Rightarrow> nat \<Rightarrow> nat \<Rightarrow> node_ptr \<Rightarrow> nat \<Rightarrow> nat \<Rightarrow> (pbtree, bool) action" where
  "pt_erase_branch lay N M n 0 key = sthrow Assertion_failed"
| "pt_erase_branch lay N M n (Suc d) key =
     sbind (pt_as_branch lay n) (\<lambda>(_, b).
     let pos = branch_pos b key in
     sbind (load_node (br_children b ! pos)) (\<lambda>c.
     if d = 0 then
       sbind (pt_leaf lay c) (\<lambda>_.
       sbind (pt_erase_leaf lay M c key) (\<lambda>deleted.
       sbind (pt_as_leaf lay c) (\<lambda>(_, l).
       sbind (if lf_num l < (M + 1) div 2 then pt_underflow_leaf lay N M n pos c else sret ()) (\<lambda>_. sret deleted))))
     else
       sbind (pt_branch lay c) (\<lambda>_.
       sbind (pt_erase_branch lay N M c d key) (\<lambda>deleted.
       sbind (pt_as_branch lay n) (\<lambda>(_, b1).
       sbind (pt_as_branch lay c) (\<lambda>(_, cb).
       if br_num cb < (N + 1) div 2 then
         sbind (pt_underflow_branch lay n (branch_pos b1 key) c) (\<lambda>c'.
         sbind (pt_as_branch lay n) (\<lambda>(_, b2).
         sbind (slift (\<lambda>T. Inr (pt_depth T))) (\<lambda>depth.
         if Suc d = depth \<and> br_num b2 = 0
         then sbind (pt_as_branch lay c') (\<lambda>(cpid, _). sbind (supd (\<lambda>T. Inr (T\<lparr>pt_root := cpid, pt_depth := pt_depth T - 1\<rparr>))) (\<lambda>_. sret deleted))
         else sret deleted)))
       else sret deleted))))))"

definition ptree_erase :: "pnode_layout \<Rightarrow> nat \<Rightarrow> nat \<Rightarrow> nat \<Rightarrow> (pbtree, bool) action" where
  "ptree_erase lay N M key T =
     sbind load_root (\<lambda>n.
     if n = None then sthrow Assertion_failed
     else if pt_depth T = 0 then pt_erase_leaf lay M n key
     else pt_erase_branch lay N M n (pt_depth T) key) T"

section \<open>The tree in the pages\<close>

definition node_of :: "pnode_layout \<Rightarrow> pbtree \<Rightarrow> nat \<Rightarrow> pnode option" where
  "node_of lay T k = (if k < PID_LIMIT then map_option (snd lay) (bp_view (pt_pool T) (mk_pid (pt_file T) k)) else None)"

text \<open>The pages as an in-memory tree; the addresses are the page numbers.\<close>

definition tree_of :: "pnode_layout \<Rightarrow> pbtree \<Rightarrow> btree" where
  "tree_of lay T =
     \<lparr>bt_leaves = (\<lambda>k. case node_of lay T k of Some (Leaf_node _ l) \<Rightarrow> Some l | _ \<Rightarrow> None),
      bt_branches = (\<lambda>k. case node_of lay T k of Some (Branch_node _ b) \<Rightarrow> Some b | _ \<Rightarrow> None),
      bt_fresh = (case bp_npages (pt_pool T) (pt_file T) of None \<Rightarrow> 0 | Some n \<Rightarrow> Suc n),
      bt_depth = pt_depth T, bt_root = pt_root T, bt_junk = pt_junk T\<rparr>"

definition pt_ok :: "pbtree \<Rightarrow> bool" where
  "pt_ok T \<longleftrightarrow> pool_ok (pt_pool T) (pt_file T)"

text \<open>States that differ only in which pages are in the buffer.\<close>

definition same_pages :: "pbtree \<Rightarrow> pbtree \<Rightarrow> bool" where
  "same_pages T T' \<longleftrightarrow> T' = T\<lparr>pt_pool := pt_pool T'\<rparr> \<and> pt_ok T' \<and> bp_view (pt_pool T') = bp_view (pt_pool T) \<and> bp_npages (pt_pool T') = bp_npages (pt_pool T)"

definition holds_page :: "node_ptr \<Rightarrow> nat \<Rightarrow> pbtree \<Rightarrow> bool" where
  "holds_page n k T \<longleftrightarrow> k < PID_LIMIT \<and> (\<exists>p. n = Some (p, k) \<and> resident (p, k) T)"

lemma same_pages_fields: "same_pages T T' \<Longrightarrow> pt_file T' = pt_file T \<and> pt_depth T' = pt_depth T \<and> pt_root T' = pt_root T \<and> pt_junk T' = pt_junk T"
  by (cases T, cases T') (auto simp: same_pages_def)

lemma same_pages_trans: "same_pages T U \<Longrightarrow> same_pages U V \<Longrightarrow> same_pages T V"
  by (cases T, cases U, cases V) (auto simp: same_pages_def)

lemma same_pages_refl: "pt_ok T \<Longrightarrow> same_pages T T"
  by (simp add: same_pages_def)

lemma same_pages_tree: "same_pages T T' \<Longrightarrow> tree_of lay T' = tree_of lay T" "same_pages T T' \<Longrightarrow> node_of lay T' = node_of lay T"
  using same_pages_fields [of T T'] by (simp_all add: same_pages_def tree_of_def node_of_def fun_eq_iff)

lemma tree_node: "bt_leaves (tree_of lay T) k = Some l \<longleftrightarrow> (\<exists>pid. node_of lay T k = Some (Leaf_node pid l))"
  "bt_branches (tree_of lay T) k = Some b \<longleftrightarrow> (\<exists>pid. node_of lay T k = Some (Branch_node pid b))"
  by (auto simp: tree_of_def split: option.splits pnode.splits)

lemma node_page:
  assumes "pt_ok T" "node_of lay T k = Some x"
  obtains f pg where "k < PID_LIMIT" "bp_view (pt_pool T) (mk_pid (pt_file T) k) = Some pg" "x = snd lay pg"
    "bp_get_file (pt_file T) (pt_pool T) = Inr f" "pf_is_valid f k = Inr True" "0 < k"
proof -
  from assms(2) obtain pg where k: "k < PID_LIMIT" "bp_view (pt_pool T) (mk_pid (pt_file T) k) = Some pg" "x = snd lay pg"
    by (auto simp: node_of_def split: if_splits)
  from assms(1) obtain xs where wf: "bp_wf (pt_pool T) xs" and f: "pt_file T < 16" by (auto simp: pt_ok_def pool_ok_def)
  have "mk_pid (pt_file T) k \<in> dom (bp_disk (pt_pool T))" using k(2) unfolding bp_view_dom [OF wf, symmetric] by blast
  then obtain fl pg' where c: "bp_files (pt_pool T) (pt_file T) = Some fl" "pf_content fl k = Some pg'"
    using mk_pid_parts [OF k(1) [unfolded PID_LIMIT_def] f] by (auto simp: bp_disk_def split: option.splits)
  from c(1) have i: "pf_inv fl" "pt_file T < MAX_PFILES" using bp_wfD(5) [OF wf] by (auto simp: bp_files_ok_def)
  have "pf_is_valid fl k = Inr True" using pf_content_valid [OF i(1), of k] c(2) by simp
  moreover have "0 < k" using c(2) by (auto simp: pf_content_def split: if_splits)
  ultimately show ?thesis using that k c(1) i(2) by (simp add: bp_get_file_def)
qed

lemma load_node_run:
  assumes ok: "pt_ok T" and x: "node_of lay T k = Some x"
  obtains n T' where "load_node k T = (Inr n, T')" "same_pages T T'" "holds_page n k T'"
proof -
  from assms obtain f pg where k: "k < PID_LIMIT" "bp_view (pt_pool T) (mk_pid (pt_file T) k) = Some pg"
    and f: "bp_get_file (pt_file T) (pt_pool T) = Inr f" "pf_is_valid f k = Inr True" by (rule node_page)
  obtain p b s where b: "bp_fetch_page (mk_pid (pt_file T) k) (pt_pool T) = (Inr p, b)" "pool_ok b (pt_file T)" "bp_view b = bp_view (pt_pool T)"
    "map_of (bp_ptable b) (mk_pid (pt_file T) k) = Some s" "bs_p s = p" "bp_npages b = bp_npages (pt_pool T)"
    using pool_fetch [OF ok [unfolded pt_ok_def] k(2)] by metis
  have "load_node k T = (Inr (Some (p, k)), T\<lparr>pt_pool := b\<rparr>)" using f b(1) by (simp add: load_node_def sbind_def pt_res_def slift_def pt_lift_def)
  moreover have "same_pages T (T\<lparr>pt_pool := b\<rparr>)" using b by (simp add: same_pages_def pt_ok_def)
  moreover have "holds_page (Some (p, k)) k (T\<lparr>pt_pool := b\<rparr>)" using b k(1) by (simp add: holds_page_def resident_def)
  ultimately show ?thesis using that by blast
qed

lemma holds_pageE:
  assumes "holds_page n k T" "node_of lay T k = Some x"
  obtains p s where "n = Some (p, k)" "k < PID_LIMIT" "resident (p, k) T" "map_of (bp_ptable (pt_pool T)) (mk_pid (pt_file T) k) = Some s" "bs_p s = p"
    "snd lay (bp_buffer (pt_pool T) ! p) = x"
proof -
  from assms(1) obtain p where p: "n = Some (p, k)" "k < PID_LIMIT" "resident (p, k) T" by (auto simp: holds_page_def)
  from p(3) obtain s where s: "map_of (bp_ptable (pt_pool T)) (mk_pid (pt_file T) k) = Some s" "bs_p s = p" by (auto simp: resident_def split: option.splits)
  have "bp_view (pt_pool T) (mk_pid (pt_file T) k) = Some (bp_buffer (pt_pool T) ! p)" using s by (simp add: bp_view_def)
  with assms(2) p(2) have "snd lay (bp_buffer (pt_pool T) ! p) = x" by (simp add: node_of_def)
  with p s that show ?thesis by blast
qed

lemma pt_read_run:
  assumes "holds_page n k T" "node_of lay T k = Some x"
  shows "pt_read lay n T = (Inr x, T)"
  using assms by (rule holds_pageE) (simp add: pt_read_def pt_deref_def sbind_def slift_def)

lemma pt_leaf_run: "holds_page n k T \<Longrightarrow> node_of lay T k = Some (Leaf_node pid l) \<Longrightarrow> pt_leaf lay n T = (Inr (pid, l), T)"
  by (simp add: pt_leaf_def sbind_def pt_read_run pt_res_def slift_def)

lemma pt_branch_run: "holds_page n k T \<Longrightarrow> node_of lay T k = Some (Branch_node pid b) \<Longrightarrow> pt_branch lay n T = (Inr (pid, b), T)"
  by (simp add: pt_branch_def sbind_def pt_read_run pt_res_def slift_def)

section \<open>Search refines the search of the in-memory tree\<close>

lemma find_leaf_step:
  assumes "find_leaf_from (tree_of lay T) (Suc d) k key = Inr q"
  obtains pid b where "node_of lay T k = Some (Branch_node pid b)" "find_leaf_from (tree_of lay T) d (br_children b ! branch_pos b key) key = Inr q"
  using assms by (auto simp: rbind_def get_branch_def tree_node split: sum.splits option.splits)

lemma find_leaf_node:
  assumes "find_leaf_from (tree_of lay T) d k key = Inr q" "node_of lay T q \<noteq> None"
  shows "node_of lay T k \<noteq> None"
proof (cases d)
  case (Suc d')
  with assms(1) show ?thesis by (metis find_leaf_step option.distinct(1))
qed (use assms in simp)

lemma pt_find_leaf_run:
  assumes "pt_ok T" "holds_page n k T" "find_leaf_from (tree_of lay T) d k key = Inr q" "node_of lay T q \<noteq> None"
  shows "\<exists>n' T'. pt_find_leaf lay d n key T = (Inr n', T') \<and> same_pages T T' \<and> holds_page n' q T'"
  using assms
proof (induction d arbitrary: n k T)
  case 0
  then show ?case by (auto intro: same_pages_refl)
next
  case (Suc d)
  from Suc.prems(3) obtain pid b where b: "node_of lay T k = Some (Branch_node pid b)"
    "find_leaf_from (tree_of lay T) d (br_children b ! branch_pos b key) key = Inr q" by (rule find_leaf_step)
  let ?c = "br_children b ! branch_pos b key"
  obtain x where x: "node_of lay T ?c = Some x" using find_leaf_node [OF b(2) Suc.prems(4)] by blast
  obtain c T1 where l: "load_node ?c T = (Inr c, T1)" "same_pages T T1" "holds_page c ?c T1" by (rule load_node_run [OF Suc.prems(1) x])
  have "0 < ?c" using node_page [OF Suc.prems(1) x] by metis
  then have r: "pt_find_leaf lay (Suc d) n key T = pt_find_leaf lay d c key T1"
    using pt_branch_run [OF Suc.prems(2) b(1)] l(1) by (simp add: sbind_def Let_def)
  have "pt_ok T1" using l(2) by (simp add: same_pages_def)
  with Suc.IH [of T1 c ?c] l(3) b(2) Suc.prems(4) show ?case
    unfolding r same_pages_tree [OF l(2)] using same_pages_trans [OF l(2)] by blast
qed

lemma pt_lookup_run:
  assumes ok: "pt_ok T" and r: "bt_lookup (tree_of lay T) key = Inr r"
  shows "\<exists>T'. pt_lookup lay key T = (Inr r, T') \<and> same_pages T T'"
proof -
  from r obtain q l where q: "find_leaf_from (tree_of lay T) (pt_depth T) (pt_root T) key = Inr q" "bt_leaves (tree_of lay T) q = Some l"
    "r = (let pos = leaf_pos l key in if pos < lf_num l \<and> lf_keys l ! pos = key then Some (lf_values l ! pos) else None)"
    by (auto simp: bt_lookup_def find_leaf_def get_leaf_def rbind_def Let_def tree_of_def split: sum.splits option.splits)
  from q(2) obtain pid where n: "node_of lay T q = Some (Leaf_node pid l)" by (auto simp: tree_node)
  obtain x where x: "node_of lay T (pt_root T) = Some x" using find_leaf_node [OF q(1)] n by auto
  obtain n0 T1 where l1: "load_node (pt_root T) T = (Inr n0, T1)" "same_pages T T1" "holds_page n0 (pt_root T) T1" by (rule load_node_run [OF ok x])
  have "pt_ok T1" using l1(2) by (simp add: same_pages_def)
  with pt_find_leaf_run [of T1 n0 "pt_root T" lay "pt_depth T" key q] l1(3) q(1) n obtain n' T' where
    f: "pt_find_leaf lay (pt_depth T) n0 key T1 = (Inr n', T')" "same_pages T1 T'" "holds_page n' q T'" unfolding same_pages_tree [OF l1(2)] by blast
  have s: "same_pages T T'" by (rule same_pages_trans [OF l1(2) f(2)])
  have "pt_leaf lay n' T' = (Inr (pid, l), T')" using pt_leaf_run [OF f(3)] n unfolding same_pages_tree [OF s] by simp
  then have "pt_lookup lay key T = (Inr r, T')" using l1(1) f(1) q(3) by (simp add: pt_lookup_def load_root_def sbind_def Let_def)
  with s show ?thesis by blast
qed

section \<open>Inserting into a leaf with room\<close>

lemma pt_store_run:
  assumes ok: "pt_ok T" and n: "holds_page n k T" and old: "node_of lay T k = Some y" and x: "snd lay (fst lay x) = x"
  obtains T' where "\<forall>r :: split_info option. sbind (pt_write lay n x) (\<lambda>_. sbind (pt_mark k) (\<lambda>_. sret r)) T = (Inr r, T')" "sbind (pt_write lay n x) (\<lambda>_. pt_mark k) T = (Inr (), T')"
    "pt_ok T'" "node_of lay T' = (node_of lay T)(k \<mapsto> x)" "T' = T\<lparr>pt_pool := pt_pool T'\<rparr>" "bp_npages (pt_pool T') = bp_npages (pt_pool T)" "holds_page n k T'"
proof -
  from n old obtain p s where p: "n = Some (p, k)" "k < PID_LIMIT" "resident (p, k) T" and
    s: "map_of (bp_ptable (pt_pool T)) (mk_pid (pt_file T) k) = Some s" "bs_p s = p" by (rule holds_pageE)
  let ?b = "bp_mark_dirty (mk_pid (pt_file T) k) (bp_poke p (fst lay x) (pt_pool T))"
  let ?T = "T\<lparr>pt_pool := ?b\<rparr>"
  note w = pool_write [OF ok [unfolded pt_ok_def] s(1), of "fst lay x", unfolded s(2)]
  have f: "pt_file T < 16" using ok by (simp add: pt_ok_def pool_ok_def)
  have "mk_pid (pt_file T) j = mk_pid (pt_file T) k \<longleftrightarrow> j = k" if "j < PID_LIMIT" for j
    using mk_pid_parts [OF that [unfolded PID_LIMIT_def] f] mk_pid_parts [OF p(2) [unfolded PID_LIMIT_def] f] by metis
  then have v: "node_of lay ?T = (node_of lay T)(k \<mapsto> x)" using w(2) x p(2) by (auto simp: node_of_def fun_eq_iff)
  have r: "sbind (pt_write lay n x) (\<lambda>_. pt_mark k) T = (Inr (), ?T)"
    "\<forall>r :: split_info option. sbind (pt_write lay n x) (\<lambda>_. sbind (pt_mark k) (\<lambda>_. sret r)) T = (Inr r, ?T)"
    using p by (simp_all add: sbind_def pt_write_def pt_deref_def slift_def supd_def pt_mark_def sret_def)
  have "pt_ok ?T" using w(1) by (simp add: pt_ok_def)
  moreover have "holds_page n k ?T" using p s by (simp add: holds_page_def resident_def bp_mark_dirty_def bp_poke_def map_of_modify)
  ultimately show ?thesis using r v w(3) by (intro that [of ?T]) simp_all
qed

definition leaf_put :: "nat \<Rightarrow> leaf \<Rightarrow> nat \<Rightarrow> nat \<Rightarrow> leaf result" where
  "leaf_put M l key val =
     (let pos = leaf_pos l key in
      if pos < lf_num l \<and> lf_keys l ! pos = key then Inr (l\<lparr>lf_values := (lf_values l)[pos := val]\<rparr>) else leaf_insert_at M l pos key val)"

lemma leaf_put_room: "leaf_ok M l \<Longrightarrow> lf_num l < M \<Longrightarrow> \<exists>l'. leaf_put M l key val = Inr l'"
  using leaf_pos_le [of M l key] by (auto simp: leaf_put_def Let_def leaf_insert_at_def)

lemma insert_branch_room:
  assumes "find_leaf_from t d p key = Inr q" "bt_leaves t q = Some l" "lf_num l < M" "leaf_put M l key val = Inr l'"
  shows "insert_branch N M t p d key val = Inr (put_leaf q l' t, None)"
  using assms(1)
proof (induction d arbitrary: p)
  case 0
  then show ?case using assms(2-4) by (auto simp: insert_leaf_def get_leaf_eq leaf_put_def Let_def split: if_splits)
next
  case (Suc d)
  then show ?case by (auto simp: rbind_def Let_def split: sum.splits)
qed

lemma pt_insert_leaf_room:
  assumes ok: "pt_ok T" and n: "holds_page n q T" and l: "node_of lay T q = Some (Leaf_node q l)" "lf_num l < M" "leaf_put M l key val = Inr l'"
    and x: "\<And>x. snd lay (fst lay x) = x"
  obtains T' where "pt_insert_leaf lay M n key val T = (Inr None, T')" "pt_ok T'" "node_of lay T' = (node_of lay T)(q \<mapsto> Leaf_node q l')"
    "T' = T\<lparr>pt_pool := pt_pool T'\<rparr>" "bp_npages (pt_pool T') = bp_npages (pt_pool T)"
proof -
  obtain T' where T': "\<forall>r :: split_info option. sbind (pt_write lay n (Leaf_node q l')) (\<lambda>_. sbind (pt_mark q) (\<lambda>_. sret r)) T = (Inr r, T')"
    "sbind (pt_write lay n (Leaf_node q l')) (\<lambda>_. pt_mark q) T = (Inr (), T')"
    "pt_ok T'" "node_of lay T' = (node_of lay T)(q \<mapsto> Leaf_node q l')" "T' = T\<lparr>pt_pool := pt_pool T'\<rparr>" "bp_npages (pt_pool T') = bp_npages (pt_pool T)" "holds_page n q T'"
    by (rule pt_store_run [where x = "Leaf_node q l'", OF ok n l(1) x])
  note r = pt_leaf_run [OF n l(1)]
  have "pt_insert_leaf lay M n key val T = (Inr None, T')"
  proof (cases "leaf_pos l key < lf_num l \<and> lf_keys l ! leaf_pos l key = key")
    case True
    then show ?thesis using r l(3) T'(1) [THEN spec, of None] by (simp add: pt_insert_leaf_def sbind_def Let_def leaf_put_def)
  next
    case False
    then have "leaf_insert_at M l (leaf_pos l key) key val = Inr l'" using l(3) by (simp add: leaf_put_def Let_def split: if_splits)
    then have "pt_insert_at lay M n (leaf_pos l key) key val T = (Inr (), T')" using r T'(2) by (simp add: pt_insert_at_def sbind_def pt_res_def slift_def)
    then show ?thesis using False r l(2) unfolding pt_insert_leaf_def by (auto simp: sbind_def Let_def sret_def)
  qed
  then show ?thesis using that T'(3-6) by blast
qed

lemma pt_insert_branch_room:
  assumes "pt_ok T" "holds_page n k T" "find_leaf_from (tree_of lay T) d k key = Inr q" "node_of lay T q = Some (Leaf_node q l)" "lf_num l < M"
    "leaf_put M l key val = Inr l'" "\<And>x. snd lay (fst lay x) = x"
  shows "\<exists>T'. pt_insert_branch lay N M n d key val T = (Inr None, T') \<and> pt_ok T' \<and> node_of lay T' = (node_of lay T)(q \<mapsto> Leaf_node q l') \<and>
    T' = T\<lparr>pt_pool := pt_pool T'\<rparr> \<and> bp_npages (pt_pool T') = bp_npages (pt_pool T)"
  using assms(1-4)
proof (induction d arbitrary: n k T)
  case 0
  then have "k = q" by simp
  with 0 pt_insert_leaf_room [of T n q lay l M key val l'] assms(5-7) show ?case by (metis pt_insert_branch.simps(1))
next
  case (Suc d)
  from Suc.prems(3) obtain pid b where b: "node_of lay T k = Some (Branch_node pid b)"
    "find_leaf_from (tree_of lay T) d (br_children b ! branch_pos b key) key = Inr q" by (rule find_leaf_step)
  let ?c = "br_children b ! branch_pos b key"
  obtain x where x: "node_of lay T ?c = Some x" using find_leaf_node [OF b(2)] Suc.prems(4) by auto
  obtain c T1 where l: "load_node ?c T = (Inr c, T1)" "same_pages T T1" "holds_page c ?c T1" by (rule load_node_run [OF Suc.prems(1) x])
  have "pt_ok T1" using l(2) by (simp add: same_pages_def)
  with Suc.IH [of T1 c ?c] l(3) b(2) Suc.prems(4) obtain T' where
    T': "pt_insert_branch lay N M c d key val T1 = (Inr None, T')" "pt_ok T'" "node_of lay T' = (node_of lay T)(q \<mapsto> Leaf_node q l')"
    "T' = T1\<lparr>pt_pool := pt_pool T'\<rparr>" "bp_npages (pt_pool T') = bp_npages (pt_pool T1)"
    unfolding same_pages_tree [OF l(2)] by blast
  have "T' = T\<lparr>pt_pool := pt_pool T'\<rparr>" using T'(4) l(2) unfolding same_pages_def by (metis pbtree.surjective pbtree.update_convs(1))
  moreover have "bp_npages (pt_pool T') = bp_npages (pt_pool T)" using T'(5) l(2) by (simp add: same_pages_def)
  moreover have "pt_insert_branch lay N M n (Suc d) key val T = (Inr None, T')"
    using pt_branch_run [OF Suc.prems(2) b(1)] l(1) T'(1) by (simp add: sbind_def Let_def sret_def)
  ultimately show ?case using T'(2,3) by blast
qed

text \<open>The invariant: pages hold a search tree, and every node has the number of its page.\<close>

definition pnode_pid :: "pnode \<Rightarrow> nat" where
  "pnode_pid x = (case x of Leaf_node pid _ \<Rightarrow> pid | Branch_node pid _ \<Rightarrow> pid)"

definition pt_inv :: "pnode_layout \<Rightarrow> nat \<Rightarrow> nat \<Rightarrow> pbtree \<Rightarrow> bool" where
  "pt_inv lay N M T \<longleftrightarrow> pt_ok T \<and> bt_inv N M (tree_of lay T) \<and> (\<forall>k x. node_of lay T k = Some x \<longrightarrow> pnode_pid x = k)"

definition pt_room :: "pnode_layout \<Rightarrow> nat \<Rightarrow> nat \<Rightarrow> pbtree \<Rightarrow> bool" where
  "pt_room lay M key T \<longleftrightarrow> (\<exists>q l. find_leaf (tree_of lay T) key = Inr q \<and> bt_leaves (tree_of lay T) q = Some l \<and> lf_num l < M)"

lemma tree_of_put_leaf:
  assumes "node_of lay T' = (node_of lay T)(q \<mapsto> Leaf_node q l')" "node_of lay T q = Some (Leaf_node q l)" "T' = T\<lparr>pt_pool := pt_pool T'\<rparr>"
    "bp_npages (pt_pool T') = bp_npages (pt_pool T)"
  shows "tree_of lay T' = put_leaf q l' (tree_of lay T)"
proof -
  have "pt_file T' = pt_file T" "pt_depth T' = pt_depth T" "pt_root T' = pt_root T" "pt_junk T' = pt_junk T" by (subst assms(3), simp)+
  then show ?thesis unfolding tree_of_def put_leaf_def assms(1,4) using assms(2) by (simp add: fun_eq_iff)
qed

lemma pt_insert_run:
  assumes x: "\<And>x. snd lay (fst lay x) = x" and inv: "pt_inv lay N M T" and key: "key < 2 ^ 64" and room: "pt_room lay M key T"
  shows "\<exists>T'. pt_insert lay N M key val T = (Inr (), T') \<and> pt_ok T' \<and> bt_insert N M key val (tree_of lay T) = Inr (tree_of lay T') \<and>
    (\<forall>k x. node_of lay T' k = Some x \<longrightarrow> pnode_pid x = k)"
proof -
  let ?t = "tree_of lay T"
  have t: "bt_depth ?t = pt_depth T" "bt_root ?t = pt_root T" by (simp_all add: tree_of_def)
  have ok: "pt_ok T" and pids: "\<And>k x. node_of lay T k = Some x \<Longrightarrow> pnode_pid x = k" using inv by (auto simp: pt_inv_def)
  from room obtain q l where q: "find_leaf_from ?t (pt_depth T) (pt_root T) key = Inr q" "bt_leaves ?t q = Some l" "lf_num l < M"
    by (auto simp: pt_room_def find_leaf_def t)
  have n: "node_of lay T q = Some (Leaf_node q l)" using q(2) pids [of q] by (auto simp: tree_node pnode_pid_def)
  have "leaf_ok M l" using find_leaf_ok [of N M ?t "pt_depth T" "pt_root T" 0 "2 ^ 64" key] inv key q(1,2) by (auto simp: pt_inv_def bt_inv_def t)
  then obtain l' where l': "leaf_put M l key val = Inr l'" using leaf_put_room q(3) by blast
  obtain y where y: "node_of lay T (pt_root T) = Some y" using find_leaf_node [OF q(1)] n by auto
  obtain n0 T1 where l1: "load_node (pt_root T) T = (Inr n0, T1)" "same_pages T T1" "holds_page n0 (pt_root T) T1" by (rule load_node_run [OF ok y])
  have "pt_ok T1" using l1(2) by (simp add: same_pages_def)
  with pt_insert_branch_room [of T1 n0 "pt_root T" lay "pt_depth T" key q l M val l' N] l1(3) q(1,3) n l' x obtain T' where
    T': "pt_insert_branch lay N M n0 (pt_depth T) key val T1 = (Inr None, T')" "pt_ok T'" "node_of lay T' = (node_of lay T)(q \<mapsto> Leaf_node q l')"
    "T' = T1\<lparr>pt_pool := pt_pool T'\<rparr>" "bp_npages (pt_pool T') = bp_npages (pt_pool T1)"
    unfolding same_pages_tree [OF l1(2)] by blast
  have "T' = T\<lparr>pt_pool := pt_pool T'\<rparr>" "bp_npages (pt_pool T') = bp_npages (pt_pool T)"
    using T'(4,5) l1(2) unfolding same_pages_def by (metis pbtree.surjective pbtree.update_convs(1))+
  with T'(3) n have "tree_of lay T' = put_leaf q l' ?t" by (intro tree_of_put_leaf)
  moreover have "pt_insert lay N M key val T = (Inr (), T')" using l1(1) T'(1) by (simp add: pt_insert_def load_root_def sbind_def sret_def)
  moreover have "insert_branch N M ?t (pt_root T) (pt_depth T) key val = Inr (put_leaf q l' ?t, None)" by (rule insert_branch_room [OF q l'])
  moreover have "pnode_pid x = k" if "node_of lay T' k = Some x" for k x using that T'(3) pids [of k x] by (auto simp: pnode_pid_def split: if_splits)
  ultimately show ?thesis using T'(2) by (auto simp: bt_insert_def t)
qed

text \<open>
  C15. A tree in pages of the buffer pool implements the in-memory tree and, with it, a finite map: a lookup finds what the map has, whatever pages are evicted on the way, and
  inserting into a leaf with room does in the pages what the in-memory tree does in its nodes, so that a later lookup finds the new value under its key and the old value
  under every other. The layout of nodes in pages is a parameter; what is written is read back.
\<close>

theorem pt_insert_lookup:
  assumes "\<And>x. snd lay (fst lay x) = x" "pt_inv lay N M T" "key < 2 ^ 64" "2 < N" "2 \<le> M" "pt_room lay M key T"
  shows "\<exists>T'. pt_insert lay N M key val T = (Inr (), T') \<and> pt_inv lay N M T' \<and> bt_insert N M key val (tree_of lay T) = Inr (tree_of lay T') \<and>
    (\<forall>k<2 ^ 64. fst (pt_lookup lay k T) = Inr (bt_view (tree_of lay T) k) \<and>
      fst (pt_lookup lay k T') = Inr (if k = key then Some val else bt_view (tree_of lay T) k))"
proof -
  have look: "fst (pt_lookup lay k S) = Inr (bt_view (tree_of lay S) k)" if "pt_inv lay N M S" "k < 2 ^ 64" for k S
    using pt_lookup_run [of S lay k] bt_lookup_spec [of N M "tree_of lay S" k] that by (auto simp: pt_inv_def)
  from pt_insert_run [OF assms(1,2,3,6), of val] obtain T' where
    T': "pt_insert lay N M key val T = (Inr (), T')" "pt_ok T'" "bt_insert N M key val (tree_of lay T) = Inr (tree_of lay T')"
    "\<forall>k x. node_of lay T' k = Some x \<longrightarrow> pnode_pid x = k" by blast
  have "bt_inv N M (tree_of lay T)" using assms(2) by (simp add: pt_inv_def)
  from bt_insert_spec [OF this assms(3-5), of val] T'(3)
  have i: "bt_inv N M (tree_of lay T')" "bt_view (tree_of lay T') = (bt_view (tree_of lay T))(key \<mapsto> val)" by auto
  then have "pt_inv lay N M T'" using T'(2,4) by (simp add: pt_inv_def)
  with T' i(2) look assms(2) show ?thesis by auto
qed

section \<open>Erasing at an end of the tree\<close>

lemma load_zero:
  assumes "pt_ok T" "bp_get_file (pt_file T) (pt_pool T) = Inr f"
  shows "load_node 0 T = (Inr None, T)"
  using assms by (simp add: load_node_def pt_res_def slift_def sbind_def sret_def pf_is_valid_def)

lemma pt_as_branch_cases:
  assumes "n = Some (p, k)" "node_of lay T k = Some (Branch_node pid b)" "k < PID_LIMIT"
  shows "pt_as_branch lay n T = (Inr (pid, b), T) \<or> pt_as_branch lay n T = (Inl Undefined_behaviour, T)"
proof (cases "resident (p, k) T")
  case True
  with assms have "holds_page n k T" by (simp add: holds_page_def)
  with assms(2) show ?thesis by (simp add: pt_as_branch_def sbind_def pt_read_run pt_res_def slift_def)
qed (use assms in \<open>simp add: pt_as_branch_def pt_read_def pt_deref_def sbind_def slift_def\<close>)

lemma pt_underflow_first:
  assumes ok: "pt_ok T" and c: "holds_page c q T" "node_of lay T q = Some (Leaf_node pid l)" "lf_prev l = None"
    and n: "n = Some (p, k)" "node_of lay T k = Some (Branch_node bpid b)" "k < PID_LIMIT" "pos \<le> br_num b"
  shows "fst (pt_underflow_leaf lay N M n pos c T) = Inl Undefined_behaviour"
proof -
  obtain f where "bp_get_file (pt_file T) (pt_pool T) = Inr f" using node_page [OF ok c(2)] by metis
  note z = load_zero [OF ok this]
  have "pt_as_leaf lay c T = (Inr (pid, l), T)" using c(1,2) by (simp add: pt_as_leaf_def sbind_def pt_read_run pt_res_def slift_def)
  moreover have "pt_leaf lay None T = (Inl Undefined_behaviour, T)" by (simp add: pt_leaf_def pt_read_def pt_deref_def sbind_def slift_def)
  ultimately show ?thesis using pt_as_branch_cases [OF n(1-3)] n(4) z c(3) unfolding pt_underflow_leaf_def
    by (auto simp: sbind_def Let_def sibling_pid_def)
qed

lemma pt_erase_leaf_run:
  assumes ok: "pt_ok T" and x: "\<And>x. snd lay (fst lay x) = x" and n: "holds_page n q T" "node_of lay T q = Some (Leaf_node q l)" and e: "erase_leaf M l key = Inr (l', deleted)"
  obtains T' where "pt_erase_leaf lay M n key T = (Inr deleted, T')" "pt_ok T'" "node_of lay T' = (node_of lay T)(q \<mapsto> Leaf_node q l')" "holds_page n q T'"
proof (cases deleted)
  case True
  obtain T' where T': "pt_write lay n (Leaf_node q l') T = (Inr (), fst T') \<and> pt_mark q (fst T') = (Inr (), snd T')"
    "pt_ok (snd T')" "node_of lay (snd T') = (node_of lay T)(q \<mapsto> Leaf_node q l')" "holds_page n q (snd T')"
  proof -
    obtain S where S: "sbind (pt_write lay n (Leaf_node q l')) (\<lambda>_. pt_mark q) T = (Inr (), S)" "pt_ok S"
      "node_of lay S = (node_of lay T)(q \<mapsto> Leaf_node q l')" "holds_page n q S" by (rule pt_store_run [where x = "Leaf_node q l'", OF ok n x])
    from S(1) obtain S1 where "pt_write lay n (Leaf_node q l') T = (Inr (), S1)" "pt_mark q S1 = (Inr (), S)"
      by (auto simp: sbind_def split: prod.splits sum.splits)
    with S that [of "(S1, S)"] show ?thesis by simp
  qed
  have "pt_erase_leaf lay M n key T = (Inr True, snd T')"
    using T'(1) n e True by (simp add: pt_erase_leaf_def pt_as_leaf_def sbind_def pt_read_run pt_res_def slift_def sret_def)
  with True T'(2-4) that show ?thesis by simp
next
  case False
  then have "l' = l" using e by (auto simp: erase_leaf_def Let_def split: if_splits)
  moreover have "pt_erase_leaf lay M n key T = (Inr False, T)"
    using n e False by (simp add: pt_erase_leaf_def pt_as_leaf_def sbind_def pt_read_run pt_res_def slift_def sret_def)
  ultimately show ?thesis using that [of T] False ok n by (simp add: fun_upd_idem)
qed

text \<open>
  Erasing fails at the ends of a tree with two levels: when the leaf has no predecessor and too few entries are left in it, the code loads a sibling that does not exist and
  reads its type through a null pointer.
\<close>

theorem pt_erase_first_leaf:
  assumes x: "\<And>x. snd lay (fst lay x) = x" and inv: "pt_inv lay N M T" and d: "pt_depth T = 1"
    and q: "find_leaf (tree_of lay T) key = Inr q" "bt_leaves (tree_of lay T) q = Some l" "lf_prev l = None"
    and e: "erase_leaf M l key = Inr (l', deleted)" "lf_num l' < (M + 1) div 2"
  shows "fst (ptree_erase lay N M key T) = Inl Undefined_behaviour"
proof -
  have ok: "pt_ok T" and pids: "\<And>k x. node_of lay T k = Some x \<Longrightarrow> pnode_pid x = k" using inv by (auto simp: pt_inv_def)
  have nq: "node_of lay T q = Some (Leaf_node q l)" using q(2) pids [of q] by (auto simp: tree_node pnode_pid_def)
  from q(1) obtain pid b where b: "node_of lay T (pt_root T) = Some (Branch_node pid b)" "br_children b ! branch_pos b key = q"
    using find_leaf_step [of lay T 0 "pt_root T" key q] by (auto simp: find_leaf_def tree_of_def d)
  have "branch_pos b key \<le> br_num b" using length_takeWhile_le [of "\<lambda>k. k \<le> key" "take (br_num b) (br_keys b)"] by (simp add: branch_pos_def)
  moreover obtain n0 T1 where l1: "load_node (pt_root T) T = (Inr n0, T1)" "same_pages T T1" "holds_page n0 (pt_root T) T1" by (rule load_node_run [OF ok b(1)])
  moreover obtain p where p: "n0 = Some (p, pt_root T)" "pt_root T < PID_LIMIT" using l1(3) by (auto simp: holds_page_def)
  moreover have ok1: "pt_ok T1" and nq1: "node_of lay T1 q = Some (Leaf_node q l)" and b1: "node_of lay T1 (pt_root T) = Some (Branch_node pid b)"
    using l1(2) nq b(1) same_pages_tree(2) [OF l1(2), of lay] by (simp_all add: same_pages_def)
  moreover obtain c T2 where l2: "load_node q T1 = (Inr c, T2)" "same_pages T1 T2" "holds_page c q T2" by (rule load_node_run [OF ok1 nq1])
  moreover have ok2: "pt_ok T2" and nq2: "node_of lay T2 q = Some (Leaf_node q l)" and b2: "node_of lay T2 (pt_root T) = Some (Branch_node pid b)"
    using l2(2) nq1 b1 same_pages_tree(2) [OF l2(2), of lay] by (simp_all add: same_pages_def)
  moreover obtain T3 where e3: "pt_erase_leaf lay M c key T2 = (Inr deleted, T3)" "pt_ok T3" "node_of lay T3 = (node_of lay T2)(q \<mapsto> Leaf_node q l')" "holds_page c q T3"
    by (rule pt_erase_leaf_run [OF ok2 x l2(3) nq2 e(1)])
  moreover have "pt_root T \<noteq> q" using b(1) nq by auto
  moreover have "lf_prev l' = None" using e(1) q(3) by (auto simp: erase_leaf_def Let_def split: if_splits)
  ultimately have u: "fst (pt_underflow_leaf lay N M n0 (branch_pos b key) c T3) = Inl Undefined_behaviour"
    by (intro pt_underflow_first [of T3 c q lay q l' n0 p "pt_root T" pid b]) simp_all
  have "pt_as_branch lay n0 T1 = (Inr (pid, b), T1)" using l1(3) b1 by (simp add: pt_as_branch_def sbind_def pt_read_run pt_res_def slift_def)
  moreover have "pt_as_leaf lay c T3 = (Inr (q, l'), T3)" using e3(3,4) by (simp add: pt_as_leaf_def sbind_def pt_read_run pt_res_def slift_def)
  ultimately show ?thesis using u l1(1) l2(1) pt_leaf_run [OF l2(3) nq2] e3(1) e(2) p(1) b(2)
    by (auto simp: ptree_erase_def load_root_def d sbind_def Let_def split: prod.splits sum.splits)
qed

section \<open>Reopening\<close>

lemma le_value_bytes: "le_value (le_bytes n v) = v mod 256 ^ n"
proof (induction n)
  case (Suc n)
  have "le_value (le_bytes (Suc n) v) = le_value (le_bytes n v) + (v div 256 ^ n) mod 256 * 256 ^ n"
    by (simp add: le_value_def le_bytes_def nth_append unat_of_nat)
  also have "\<dots> = v mod 256 ^ Suc n" unfolding Suc.IH using mod_mult2_eq [of v "256 ^ n" 256] by (simp add: mult.commute)
  finally show ?case .
qed (simp add: le_value_def le_bytes_def)

lemma pool_put_payload:
  fixes data
  assumes ok: "pool_ok b i" and f: "bp_files b i = Some f"
  defines "b' \<equiv> bp_put_file i (f\<lparr>pf_header := (pf_header f)\<lparr>fh_payload := data\<rparr>\<rparr>) b"
  shows "pool_ok b' i" "bp_view b' = bp_view b" "bp_npages b' = bp_npages b" "map_option fh_payload (bp_headers b' i) = Some data"
proof -
  let ?f = "f\<lparr>pf_header := (pf_header f)\<lparr>fh_payload := data\<rparr>\<rparr>"
  from ok obtain xs where wf: "bp_wf b xs" by (auto simp: pool_ok_def)
  have c: "pf_content ?f = pf_content f" "pf_inv ?f = pf_inv f" "pf_npages ?f = pf_npages f"
    by (simp_all add: pf_content_def pf_inv_def pf_slots_def pf_pages_def fun_eq_iff)
  have d: "bp_disk b' = bp_disk b" using f c(1) by (auto simp: bp_disk_def b'_def bp_put_file_def fun_eq_iff)
  have "bp_files_ok b'" using bp_wfD(5) [OF wf] f c(2) by (auto simp: bp_files_ok_def b'_def bp_put_file_def)
  moreover have "bp_entry_ok b' xs k t" if "map_of (bp_ptable b) k = Some t" for k t
    using bp_wfD(7) [OF wf that] unfolding bp_entry_ok_def d by (simp add: b'_def)
  moreover have "bp_ptable b' = bp_ptable b" "bp_buffer b' = bp_buffer b" "bp_slots b' = bp_slots b" "bp_lru b' = bp_lru b" "bp_bsize b' = bp_bsize b" by (simp_all add: b'_def)
  ultimately have "bp_wf b' xs" using wf by (simp add: bp_wf_def del: map_of_eq_Some_iff)
  then show "pool_ok b' i" using ok by (auto simp: pool_ok_def b'_def bp_unpinned_def)
  show "bp_view b' = bp_view b" unfolding bp_view_def d by (simp add: b'_def cong: option.case_cong)
  show "bp_npages b' = bp_npages b" "map_option fh_payload (bp_headers b' i) = Some data"
    using f c(3) by (auto simp: bp_npages_def bp_headers_def b'_def bp_put_file_def fun_eq_iff)
qed

lemma bt_inv_root: "bt_inv N M (tree_of lay T) \<Longrightarrow> node_of lay T (pt_root T) \<noteq> None"
  by (cases "pt_depth T") (auto simp: bt_inv_def tree_of_def split: option.splits)

lemma pt_open_run:
  assumes ok: "pool_ok b i" and h: "bp_headers b i = Some hdr" "fh_payload hdr = le_bytes 4 d @ le_bytes 8 r @ rest" and bits: "d < 2 ^ 32" "r < 2 ^ 64"
    and node: "node_of lay \<lparr>pt_pool = b, pt_file = i, pt_depth = d, pt_root = r, pt_junk = u\<rparr> r = Some y"
  obtains T where "pt_open lay M i b u = (Inr (), T)" "same_pages \<lparr>pt_pool = b, pt_file = i, pt_depth = d, pt_root = r, pt_junk = u\<rparr> T"
proof -
  let ?T = "\<lparr>pt_pool = b, pt_file = i, pt_depth = d, pt_root = r, pt_junk = u\<rparr>"
  have "pt_ok ?T" using ok by (simp add: pt_ok_def)
  note run = load_node_run [OF this node] and page = node_page [OF this node]
  obtain n T where T: "load_node r ?T = (Inr n, T)" "same_pages ?T T" by (rule run)
  obtain f where f: "bp_get_file i b = Inr f" "pf_is_valid f r = Inr True" "0 < r" by (rule page) simp
  have hf: "pf_header f = hdr" using f(1) h(1) by (auto simp: bp_get_file_def bp_headers_def split: if_splits option.splits)
  have "pf_npages f \<noteq> 0" using f(2,3) by (auto simp: pf_is_valid_def split: if_splits)
  moreover have "length (le_bytes n v) = n" for n v by (simp add: le_bytes_def)
  then have "le_value (take 4 (fh_payload hdr)) = d" "le_value (take 8 (drop 4 (fh_payload hdr))) = r"
    using bits by (simp_all add: h(2) le_value_bytes)
  ultimately have "pt_open lay M i b u = (Inr (), T)" using f(1) T(1)
    by (simp add: pt_open_def Let_def sbind_def pt_res_def slift_def supd_def load_root_def hf sret_def)
  with T(2) that show ?thesis by blast
qed

text \<open>
  Reopening a tree: \<open>close\<close> writes all pages to the file, and a tree that is then opened on the file is the old one, with its depth and its root, if the depth has 32 bits.
\<close>

theorem pt_close_open:
  assumes inv: "pt_inv lay N M T" and bits: "pt_depth T < 2 ^ 32"
  shows "\<exists>T1 T2. pt_close T = Inr T1 \<and> bp_disk (pt_pool T1) = bp_view (pt_pool T) \<and>
    pt_open lay M (pt_file T) (pt_pool T1) (pt_junk T) = (Inr (), T2) \<and> tree_of lay T2 = tree_of lay T \<and> pt_inv lay N M T2"
proof -
  let ?i = "pt_file T" and ?d = "le_bytes 4 (pt_depth T) @ le_bytes 8 (pt_root T)"
  have ok: "pt_ok T" using inv by (simp add: pt_inv_def)
  obtain y where y: "node_of lay T (pt_root T) = Some y" using inv bt_inv_root [of N M lay T] by (auto simp: pt_inv_def)
  obtain f where f: "bp_get_file ?i (pt_pool T) = Inr f" "pt_root T < PID_LIMIT" by (rule node_page [OF ok y])
  have ff: "bp_files (pt_pool T) ?i = Some f" using f(1) by (auto simp: bp_get_file_def split: if_splits option.splits)
  let ?data = "?d @ drop 12 (fh_payload (pf_header f))"
  let ?b = "bp_put_file ?i (f\<lparr>pf_header := (pf_header f)\<lparr>fh_payload := ?data\<rparr>\<rparr>) (pt_pool T)"
  note put = pool_put_payload [OF ok [unfolded pt_ok_def] ff, of ?data]
  from put(1) obtain xs where wf: "bp_wf ?b xs" by (auto simp: pool_ok_def)
  from bp_flush_all_spec [OF wf] obtain b where b: "bp_flush_all ?b = Inr b" "bp_inv b" "bp_view b = bp_view ?b" "bp_disk b = bp_view ?b" by auto
  note fr = bp_flush_frame [OF b(1)]
  have close: "pt_close T = Inr (T\<lparr>pt_pool := b\<rparr>)" using f(1) b(1) by (simp add: pt_close_def pt_sync_def Let_def)
  have pok: "pool_ok b ?i" using put(1) b(2) fr by (auto simp: pool_ok_def bp_inv_def)
  obtain hdr where hdr: "bp_headers b ?i = Some hdr" "fh_payload hdr = le_bytes 4 (pt_depth T) @ le_bytes 8 (pt_root T) @ drop 12 (fh_payload (pf_header f))"
    using put(4) fr by auto
  have same: "same_pages T (T\<lparr>pt_pool := b\<rparr>)" using pok b(3) fr put(2,3) by (simp add: same_pages_def pt_ok_def)
  have eq: "T\<lparr>pt_pool := b\<rparr> = \<lparr>pt_pool = b, pt_file = ?i, pt_depth = pt_depth T, pt_root = pt_root T, pt_junk = pt_junk T\<rparr>" by (cases T) simp
  have nd: "node_of lay \<lparr>pt_pool = b, pt_file = ?i, pt_depth = pt_depth T, pt_root = pt_root T, pt_junk = pt_junk T\<rparr> (pt_root T) = Some y"
    using y same_pages_tree(2) [OF same, of lay] by (simp add: eq)
  have "pt_root T < 2 ^ 64" using f(2) by (simp add: PID_LIMIT_def)
  then obtain T2 where T2: "pt_open lay M ?i b (pt_junk T) = (Inr (), T2)" "same_pages (T\<lparr>pt_pool := b\<rparr>) T2"
    using pt_open_run [OF pok hdr bits _ nd] unfolding eq by metis
  have s: "same_pages T T2" by (rule same_pages_trans [OF same T2(2)])
  have "pt_inv lay N M T2" using inv s unfolding pt_inv_def same_pages_tree [OF s] by (simp add: same_pages_def)
  with close T2(1) b(4) put(2) same_pages_tree(1) [OF s] show ?thesis by (intro exI [of _ "T\<lparr>pt_pool := b\<rparr>"] exI [of _ T2]) simp
qed

section \<open>A tree in three pages\<close>

type_synonym node_code = "(nat \<times> nat \<times> nat list \<times> nat list \<times> nat option \<times> nat option) + (nat \<times> nat \<times> nat list \<times> nat list)"

definition node_fields :: "pnode \<Rightarrow> node_code" where
  "node_fields x = (case x of Leaf_node p l \<Rightarrow> Inl (p, lf_num l, lf_keys l, lf_values l, lf_next l, lf_prev l)
     | Branch_node p b \<Rightarrow> Inr (p, br_num b, br_keys b, br_children b))"

definition node_num :: "pnode \<Rightarrow> nat" where
  "node_num x = to_nat (node_fields x)"

definition num_node :: "nat \<Rightarrow> pnode" where
  "num_node n = (case (from_nat n :: node_code) of
     Inl (p, k, ks, vs, nx, pv) \<Rightarrow> Leaf_node p \<lparr>lf_num = k, lf_keys = ks, lf_values = vs, lf_next = nx, lf_prev = pv\<rparr>
   | Inr (p, k, ks, cs) \<Rightarrow> Branch_node p \<lparr>br_num = k, br_keys = ks, br_children = cs\<rparr>)"

text \<open>A page encodes the number of its node.\<close>

definition lay_node :: pnode_layout where
  "lay_node = (\<lambda>x k. if k = node_num x then 1 else 0, \<lambda>pg. num_node (LEAST k. pg k = 1))"

lemma lay_node_inverse: "snd lay_node (fst lay_node x) = x"
proof -
  have "(LEAST k. (if k = n then 1 else 0 :: 8 word) = 1) = n" for n :: nat by (rule Least_equality) (auto split: if_splits)
  moreover have "num_node (node_num x) = x" by (cases x) (simp_all add: num_node_def node_num_def node_fields_def)
  ultimately show ?thesis by (simp add: lay_node_def)
qed

definition ptree_nodes_demo :: "pnode list" where
  "ptree_nodes_demo =
     [Leaf_node 1 \<lparr>lf_num = 1, lf_keys = [1, 0], lf_values = [11, 0], lf_next = Some 2, lf_prev = None\<rparr>,
      Leaf_node 2 \<lparr>lf_num = 1, lf_keys = [5, 0], lf_values = [55, 0], lf_next = None, lf_prev = Some 1\<rparr>,
      Branch_node 3 \<lparr>br_num = 1, br_keys = [5, 0, 0], br_children = [1, 2, 0, 0]\<rparr>]"

definition ptree_file_demo :: paged_file where
  "ptree_file_demo = pf_demo\<lparr>pf_npages := 3, pf_header := (pf_header pf_demo)\<lparr>fh_slots := (\<lambda>i. i < 3)\<rparr>,
     pf_disk := (pf_disk pf_demo)\<lparr>df_pages := map (fst lay_node) ptree_nodes_demo\<rparr>\<rparr>"

definition ptree_demo :: pbtree where
  "ptree_demo = \<lparr>pt_pool = (bp_new 1)\<lparr>bp_files := [0 \<mapsto> ptree_file_demo]\<rparr>, pt_file = 0, pt_depth = 1, pt_root = 3, pt_junk = 0\<rparr>"

lemma ptree_demo_sel: "pt_file ptree_demo = 0" "pt_depth ptree_demo = 1" "pt_root ptree_demo = 3" "pt_junk ptree_demo = 0"
  "bp_npages (pt_pool ptree_demo) 0 = Some 3"
  by (simp_all add: ptree_demo_def bp_npages_def ptree_file_demo_def)

lemma ptree_file_content: "pf_content ptree_file_demo k = (if 0 < k \<and> k \<le> 3 then Some (fst lay_node (ptree_nodes_demo ! (k - 1))) else None)"
proof -
  have "pf_pages ptree_file_demo = map (fst lay_node) ptree_nodes_demo" "pf_slots ptree_file_demo = (\<lambda>i. i < 3)" "length ptree_nodes_demo = 3"
    by (simp_all add: ptree_file_demo_def pf_pages_def pf_slots_def ptree_nodes_demo_def)
  then show ?thesis by (auto simp: pf_content_def)
qed

lemma ptree_demo_nodes: "node_of lay_node ptree_demo k = (if 0 < k \<and> k \<le> 3 then Some (ptree_nodes_demo ! (k - 1)) else None)"
proof (cases "k < PID_LIMIT")
  case True
  then have "raw_pid (mk_pid 0 k) = k" "file_of (mk_pid 0 k) = 0" using mk_pid_parts [of k 0] by (simp_all add: PID_LIMIT_def)
  then have "bp_view (pt_pool ptree_demo) (mk_pid 0 k) = pf_content ptree_file_demo k" by (simp add: ptree_demo_def bp_view_def bp_new_def bp_disk_def)
  then show ?thesis using True by (simp add: node_of_def ptree_demo_sel ptree_file_content lay_node_inverse)
qed (auto simp: node_of_def PID_LIMIT_def)

lemma ptree_demo_tree:
  "bt_leaves (tree_of lay_node ptree_demo) k =
     (if k = 1 then Some \<lparr>lf_num = 1, lf_keys = [1, 0], lf_values = [11, 0], lf_next = Some 2, lf_prev = None\<rparr>
      else if k = 2 then Some \<lparr>lf_num = 1, lf_keys = [5, 0], lf_values = [55, 0], lf_next = None, lf_prev = Some 1\<rparr> else None)"
  "bt_branches (tree_of lay_node ptree_demo) k = (if k = 3 then Some \<lparr>br_num = 1, br_keys = [5, 0, 0], br_children = [1, 2, 0, 0]\<rparr> else None)"
  "bt_depth (tree_of lay_node ptree_demo) = Suc 0" "bt_root (tree_of lay_node ptree_demo) = 3" "bt_fresh (tree_of lay_node ptree_demo) = 4"
proof -
  have "0 < k \<and> k \<le> 3 \<longleftrightarrow> k = 1 \<or> k = 2 \<or> k = 3" by arith
  then have n: "node_of lay_node ptree_demo k = (if k = 1 then Some (ptree_nodes_demo ! 0) else if k = 2 then Some (ptree_nodes_demo ! 1)
    else if k = 3 then Some (ptree_nodes_demo ! 2) else None)" unfolding ptree_demo_nodes by auto
  show "bt_leaves (tree_of lay_node ptree_demo) k =
     (if k = 1 then Some \<lparr>lf_num = 1, lf_keys = [1, 0], lf_values = [11, 0], lf_next = Some 2, lf_prev = None\<rparr>
      else if k = 2 then Some \<lparr>lf_num = 1, lf_keys = [5, 0], lf_values = [55, 0], lf_next = None, lf_prev = Some 1\<rparr> else None)"
    "bt_branches (tree_of lay_node ptree_demo) k = (if k = 3 then Some \<lparr>br_num = 1, br_keys = [5, 0, 0], br_children = [1, 2, 0, 0]\<rparr> else None)"
    by (simp_all add: tree_of_def n ptree_nodes_demo_def)
qed (simp_all add: tree_of_def ptree_demo_sel)

lemma ptree_demo_inv: "pt_inv lay_node 3 2 ptree_demo"
proof -
  have "pf_inv ptree_file_demo" by (simp add: ptree_file_demo_def pf_inv_def pf_slots_def pf_pages_def PF_SLOTS_def ptree_nodes_demo_def)
  then have "bp_wf (pt_pool ptree_demo) []"
    by (simp add: ptree_demo_def bp_wf_def bp_new_def bp_files_ok_def MAX_PFILES_def lru_new_rep)
  then have "pt_ok ptree_demo" by (auto simp: pt_ok_def pool_ok_def ptree_demo_def bp_unpinned_def bp_new_def)
  moreover have "bt_inv 3 2 (tree_of lay_node ptree_demo)"
    by (simp add: bt_inv_def ptree_demo_tree leaf_ok_def branch_ok_def leaf_entries_def)
  moreover have "pnode_pid x = k" if "node_of lay_node ptree_demo k = Some x" for k x
  proof -
    from that have "k = 1 \<or> k = 2 \<or> k = 3" "x = ptree_nodes_demo ! (k - 1)" by (auto simp: ptree_demo_nodes split: if_splits)
    then show ?thesis by (auto simp: ptree_nodes_demo_def pnode_pid_def)
  qed
  ultimately show ?thesis by (simp add: pt_inv_def)
qed

theorem pt_insert_lookup_witness:
  "\<exists>T'. pt_insert lay_node 3 2 7 77 ptree_demo = (Inr (), T') \<and> fst (pt_lookup lay_node 7 T') = Inr (Some 77) \<and> fst (pt_lookup lay_node 1 T') = Inr (Some 11)"
proof -
  have "pt_room lay_node 2 7 ptree_demo" by (simp add: pt_room_def find_leaf_def ptree_demo_tree get_branch_def branch_pos_def)
  moreover have "bt_view (tree_of lay_node ptree_demo) 1 = Some 11" by (simp add: bt_view_def ptree_demo_tree leaf_entries_def)
  ultimately show ?thesis using pt_insert_lookup [of lay_node 3 2 ptree_demo 7 77, OF lay_node_inverse ptree_demo_inv] by auto
qed

theorem pt_erase_first_leaf_witness:
  "fst (ptree_erase lay_node 3 2 1 ptree_demo) = Inl Undefined_behaviour"
proof -
  let ?l = "\<lparr>lf_num = 1, lf_keys = [1, 0], lf_values = [11, 0], lf_next = Some 2, lf_prev = None\<rparr>"
  have "find_leaf (tree_of lay_node ptree_demo) 1 = Inr 1" "bt_leaves (tree_of lay_node ptree_demo) 1 = Some ?l"
    by (simp_all add: find_leaf_def ptree_demo_tree get_branch_def branch_pos_def)
  moreover have "erase_leaf 2 ?l 1 = Inr (?l\<lparr>lf_num := 0\<rparr>, True)" by (simp add: erase_leaf_def leaf_pos_def Let_def)
  ultimately show ?thesis
    using pt_erase_first_leaf [OF lay_node_inverse ptree_demo_inv, of 1 1 ?l "?l\<lparr>lf_num := 0\<rparr>" True] by (simp add: ptree_demo_sel)
qed

theorem pt_close_open_witness:
  "\<exists>T1 T2. pt_close ptree_demo = Inr T1 \<and> pt_open lay_node 2 0 (pt_pool T1) 0 = (Inr (), T2) \<and> tree_of lay_node T2 = tree_of lay_node ptree_demo"
  using pt_close_open [OF ptree_demo_inv] by (auto simp: ptree_demo_sel)

end
