(* ===== verification/Property_List.thy ===== *)
theory Property_List
  imports Property_Value Chunked_Vec "HOL-Library.Multiset"
begin

text \<open>
  The property table, class \<open>property_list\<close> of \<^verbatim>\<open>src/src/storage/properties.hpp\<close>, on the in-memory
  vector: the properties of one object are a chain of property sets of three items each, linked by
  their \<open>next\<close> positions. Walking a chain has the capacity of the vector as fuel: a chain that is
  longer visits a position twice, so the loop of the source does not end (\<open>Diverges\<close>).
\<close>

section \<open>Data\<close>

record property_set =
  ps_next :: offset_t
  ps_owner :: offset_t
  ps_items :: "p_item list"

type_synonym plist = "property_set cvec"

definition ps_blank :: property_set where
  "ps_blank = \<lparr>ps_next = UNKNOWN, ps_owner = UNKNOWN, ps_items = replicate 3 pi_unused\<rparr>"

definition ps_fill :: "p_item list \<Rightarrow> p_item list" where
  "ps_fill pil = pil @ replicate (3 - length pil) pi_unused"

definition ps_make :: "offset_t \<Rightarrow> p_item list \<Rightarrow> offset_t \<Rightarrow> property_set" where
  "ps_make owner pil next = \<lparr>ps_next = next, ps_owner = owner, ps_items = ps_fill pil\<rparr>"

type_synonym properties_t = "(string \<times> any_val) list"

section \<open>Adding\<close>

text \<open>The first free position, after growing a full vector.\<close>

definition pl_store_first :: "plist \<Rightarrow> property_set \<Rightarrow> (plist \<times> nat) result" where
  "pl_store_first v x =
     (let v1 = (if cv_is_full v then cv_resize ps_blank 1 v else v); i = cv_first_available v1 in
      if i = UNKNOWN then Inl Assertion_failed
      else rbind (cv_store_at v1 i x) (\<lambda>v2. Inr (v2, i)))"

fun pl_add_properties_loop ::
  "conv \<Rightarrow> hash \<Rightarrow> offset_t \<Rightarrow> offset_t \<Rightarrow> p_item list \<Rightarrow> properties_t \<Rightarrow> dict \<Rightarrow> plist \<Rightarrow>
   (dict \<times> plist \<times> offset_t) result" where
  "pl_add_properties_loop cv h nid next_id pil [] d v = Inr (d, v, next_id)"
| "pl_add_properties_loop cv h nid next_id pil ((k, a) # kvs) d v =
     rbind (pi_of_kv cv h k a d) (\<lambda>(d1, p).
     let pil' = pil @ [p] in
     if kvs = [] \<or> length pil' = 3
     then rbind (pl_store_first v (ps_make nid pil' next_id)) (\<lambda>(v', i).
          pl_add_properties_loop cv h nid i [] kvs d1 v')
     else pl_add_properties_loop cv h nid next_id pil' kvs d1 v)"

definition pl_add_properties ::
  "conv \<Rightarrow> hash \<Rightarrow> offset_t \<Rightarrow> properties_t \<Rightarrow> dict \<Rightarrow> plist \<Rightarrow> (dict \<times> plist \<times> offset_t) result" where
  "pl_add_properties cv h nid props d v = pl_add_properties_loop cv h nid UNKNOWN [] props d v"

fun pl_add_pitems_loop ::
  "offset_t \<Rightarrow> offset_t \<Rightarrow> p_item list \<Rightarrow> p_item list \<Rightarrow> plist \<Rightarrow> (plist \<times> offset_t) result" where
  "pl_add_pitems_loop nid next_id pil [] v = Inr (v, next_id)"
| "pl_add_pitems_loop nid next_id pil (p # ps) v =
     (let pil' = pil @ [p] in
      if ps = [] \<or> length pil' = 3
      then rbind (cv_store ps_blank v (ps_make nid pil' next_id)) (\<lambda>(v', i).
           pl_add_pitems_loop nid i [] ps v')
      else pl_add_pitems_loop nid next_id pil' ps v)"

definition pl_add_pitems :: "offset_t \<Rightarrow> p_item list \<Rightarrow> plist \<Rightarrow> (plist \<times> offset_t) result" where
  "pl_add_pitems nid props v = pl_add_pitems_loop nid UNKNOWN [] props v"

fun pl_append_properties_loop ::
  "conv \<Rightarrow> hash \<Rightarrow> offset_t \<Rightarrow> offset_t \<Rightarrow> p_item list \<Rightarrow> properties_t \<Rightarrow> dict \<Rightarrow> plist \<Rightarrow>
   (dict \<times> plist \<times> offset_t) result" where
  "pl_append_properties_loop cv h nid next_id pil [] d v = Inr (d, v, next_id)"
| "pl_append_properties_loop cv h nid next_id pil ((k, a) # kvs) d v =
     rbind (pi_of_kv cv h k a d) (\<lambda>(d1, p).
     let pil' = pil @ [p] in
     if kvs = [] \<or> length pil' = 3
     then rbind (cv_append ps_blank v (ps_make nid pil' next_id)) (\<lambda>(v', i).
          pl_append_properties_loop cv h nid i [] kvs d1 v')
     else pl_append_properties_loop cv h nid next_id pil' kvs d1 v)"

definition pl_append_properties ::
  "conv \<Rightarrow> hash \<Rightarrow> offset_t \<Rightarrow> properties_t \<Rightarrow> dict \<Rightarrow> plist \<Rightarrow> (dict \<times> plist \<times> offset_t) result" where
  "pl_append_properties cv h nid props d v = pl_append_properties_loop cv h nid UNKNOWN [] props d v"

text \<open>
  The import appends typed columns; an absent value (\<open>None\<close>) is skipped, and with it the test
  whether this was the last column.
\<close>

fun pl_append_typed_loop ::
  "offset_t \<Rightarrow> offset_t \<Rightarrow> p_item list \<Rightarrow> (dcode_t \<times> p_typecode \<times> any_val option) list \<Rightarrow> plist \<Rightarrow>
   (plist \<times> offset_t) result" where
  "pl_append_typed_loop nid next_id pil [] v = Inr (v, next_id)"
| "pl_append_typed_loop nid next_id pil ((k, tc, None) # cs) v = pl_append_typed_loop nid next_id pil cs v"
| "pl_append_typed_loop nid next_id pil ((k, tc, Some a) # cs) v =
     rbind (pi_typed k tc a) (\<lambda>p.
     let pil' = pil @ [p] in
     if cs = [] \<or> length pil' = 3
     then rbind (cv_append ps_blank v (ps_make nid pil' next_id)) (\<lambda>(v', i).
          pl_append_typed_loop nid i [] cs v')
     else pl_append_typed_loop nid next_id pil' cs v)"

definition pl_append_typed_properties ::
  "offset_t \<Rightarrow> (dcode_t \<times> p_typecode \<times> any_val option) list \<Rightarrow> plist \<Rightarrow> (plist \<times> offset_t) result" where
  "pl_append_typed_properties nid cs v = pl_append_typed_loop nid UNKNOWN [] cs v"

section \<open>Reading\<close>

fun pl_property_value_from :: "nat \<Rightarrow> plist \<Rightarrow> offset_t \<Rightarrow> dcode_t \<Rightarrow> p_item result" where
  "pl_property_value_from fuel v i pkey =
     (if i = UNKNOWN then Inr \<lparr>pi_value = 0, pi_key = 0, pi_type = P_none\<rparr>
      else case cv_at v i of
        Inl Unknown_id \<Rightarrow> Inr \<lparr>pi_value = 0, pi_key = 0, pi_type = P_none\<rparr>
      | Inl e \<Rightarrow> Inl e
      | Inr p \<Rightarrow>
          (case find (\<lambda>it. pi_key it = pkey) (ps_items p) of
             Some it \<Rightarrow> Inr it
           | None \<Rightarrow> (case fuel of 0 \<Rightarrow> Inl Diverges
                       | Suc n \<Rightarrow> pl_property_value_from n v (ps_next p) pkey)))"

definition pl_property_value :: "plist \<Rightarrow> offset_t \<Rightarrow> dcode_t \<Rightarrow> p_item result" where
  "pl_property_value v i pkey = pl_property_value_from (capacity v) v i pkey"

text \<open>The chain of property sets from a position, in the order the loops visit it.\<close>

fun pl_chain :: "nat \<Rightarrow> plist \<Rightarrow> offset_t \<Rightarrow> (offset_t \<times> property_set) list result" where
  "pl_chain 0 v i = (if i = UNKNOWN then Inr [] else rbind (cv_at v i) (\<lambda>_. Inl Diverges))"
| "pl_chain (Suc n) v i =
     (if i = UNKNOWN then Inr []
      else rbind (cv_at v i) (\<lambda>p. rbind (pl_chain n v (ps_next p)) (\<lambda>r. Inr ((i, p) # r))))"

definition pl_foreach :: "plist \<Rightarrow> dcode_t \<Rightarrow> (p_item \<Rightarrow> bool) \<Rightarrow> offset_t list" where
  "pl_foreach v pkey pred =
     concat (map (\<lambda>i. case cv_at v i of Inl _ \<Rightarrow> []
       | Inr p \<Rightarrow> map (\<lambda>_. ps_owner p) (filter (\<lambda>it. pi_key it = pkey \<and> pred it) (ps_items p)))
       (cv_walk v (cv_begin v)))"

definition pl_foreach_property :: "plist \<Rightarrow> p_item list" where
  "pl_foreach_property v =
     concat (map (\<lambda>i. case cv_at v i of Inl _ \<Rightarrow> [] | Inr p \<Rightarrow> filter (\<lambda>it. pi_type it \<noteq> P_unused) (ps_items p))
       (cv_walk v (cv_begin v)))"

definition pmap_insert :: "string \<Rightarrow> any_val \<Rightarrow> (string \<Rightarrow> any_val option) \<Rightarrow> (string \<Rightarrow> any_val option)" where
  "pmap_insert k a m = (if m k = None then m(k \<mapsto> a) else m)"

fun pl_pitems_map :: "dict \<Rightarrow> p_item list \<Rightarrow> (string \<Rightarrow> any_val option) \<Rightarrow> (string \<Rightarrow> any_val option) result" where
  "pl_pitems_map d [] m = Inr m"
| "pl_pitems_map d (p # ps) m =
     rbind (dict_lookup_code (pi_key p) d) (\<lambda>s.
     rbind (pi_to_any p d) (\<lambda>a.
     pl_pitems_map d ps (case a of None \<Rightarrow> m | Some x \<Rightarrow> pmap_insert s x m)))"

definition pl_all_properties :: "plist \<Rightarrow> offset_t \<Rightarrow> dict \<Rightarrow> (string \<Rightarrow> any_val option) result" where
  "pl_all_properties v i d =
     (if capacity v \<le> i then Inr Map.empty
      else rbind (pl_chain (capacity v) v i) (\<lambda>r.
           pl_pitems_map d (concat (map (\<lambda>jp. ps_items (snd jp)) r)) Map.empty))"

definition pl_foreach_property_set :: "plist \<Rightarrow> offset_t \<Rightarrow> (offset_t \<times> p_item list \<times> offset_t) list result" where
  "pl_foreach_property_set v i =
     (case pl_chain (capacity v) v i of
        Inl Unknown_id \<Rightarrow> Inl Unknown_property
      | Inl e \<Rightarrow> Inl e
      | Inr r \<Rightarrow> Inr (map (\<lambda>(j, p). (j, ps_items p, ps_next p)) r))"

definition pl_get :: "plist \<Rightarrow> offset_t \<Rightarrow> property_set result" where
  "pl_get v i = (if capacity v \<le> i then Inl Unknown_id else cv_at v i)"

section \<open>Updating and removing\<close>

fun pl_update_loop ::
  "offset_t \<Rightarrow> offset_t \<Rightarrow> offset_t \<Rightarrow> p_item list \<Rightarrow> p_item list \<Rightarrow> plist \<Rightarrow> (plist \<times> offset_t) result" where
  "pl_update_loop nid i head_id pil [] v = Inr (v, head_id)"
| "pl_update_loop nid i head_id pil (p # ps) v =
     (let pil' = pil @ [p] in
      if ps = [] \<or> length pil' = 3 then
        (if i \<noteq> UNKNOWN then
           rbind (cv_at v i) (\<lambda>old.
           pl_update_loop nid (ps_next old) head_id [] ps
             (cv_assign v i (old\<lparr>ps_items := ps_fill pil'\<rparr>)))
         else
           rbind (pl_store_first v (ps_make nid pil' head_id)) (\<lambda>(v', new_id).
           pl_update_loop nid i new_id [] ps v'))
      else pl_update_loop nid i head_id pil' ps v)"

definition pl_update_pitems :: "offset_t \<Rightarrow> offset_t \<Rightarrow> p_item list \<Rightarrow> plist \<Rightarrow> (plist \<times> offset_t) result" where
  "pl_update_pitems nid i props v = pl_update_loop nid i i [] props v"

definition pl_remove :: "plist \<Rightarrow> offset_t \<Rightarrow> plist result" where
  "pl_remove v i = (if capacity v \<le> i then Inl Unknown_id else cv_erase v i)"

fun pl_remove_loop :: "nat \<Rightarrow> plist \<Rightarrow> offset_t \<Rightarrow> plist result" where
  "pl_remove_loop fuel v i =
     (if i = UNKNOWN then Inr v
      else rbind (cv_at v i) (\<lambda>p.
           rbind (cv_erase v i) (\<lambda>v'.
           case fuel of 0 \<Rightarrow> Inl Diverges | Suc n \<Rightarrow> pl_remove_loop n v' (ps_next p))))"

definition pl_remove_properties :: "plist \<Rightarrow> offset_t \<Rightarrow> plist result" where
  "pl_remove_properties v i =
     (if i = UNKNOWN then Inr v
      else if capacity v \<le> i then Inl Unknown_property
      else pl_remove_loop (capacity v) v i)"

section \<open>Lists of items\<close>

fun pl_build_dirty_props :: "conv \<Rightarrow> hash \<Rightarrow> properties_t \<Rightarrow> dict \<Rightarrow> (dict \<times> p_item list) result" where
  "pl_build_dirty_props cv h [] d = Inr (d, [])"
| "pl_build_dirty_props cv h ((k, a) # kvs) d =
     rbind (pi_of_kv cv h k a d) (\<lambda>(d1, p).
     rbind (pl_build_dirty_props cv h kvs d1) (\<lambda>(d2, ps). Inr (d2, p # ps)))"

definition pl_build_dirty :: "plist \<Rightarrow> offset_t \<Rightarrow> p_item list result" where
  "pl_build_dirty v i =
     rbind (pl_chain (capacity v) v i) (\<lambda>r.
     Inr (filter (\<lambda>it. pi_key it \<noteq> 0) (concat (map (\<lambda>jp. ps_items (snd jp)) r))))"

text \<open>The first item with the key of the new one is replaced.\<close>

fun replace_item :: "p_item \<Rightarrow> p_item list \<Rightarrow> p_item list" where
  "replace_item q [] = []"
| "replace_item q (p # ps) = (if pi_key p = pi_key q then q # ps else p # replace_item q ps)"

fun pl_apply_loop :: "conv \<Rightarrow> hash \<Rightarrow> properties_t \<Rightarrow> p_item list \<Rightarrow> p_item list \<Rightarrow> dict \<Rightarrow>
   (dict \<times> p_item list) result" where
  "pl_apply_loop cv h [] pitems todo d = Inr (d, pitems @ todo)"
| "pl_apply_loop cv h ((k, a) # kvs) pitems todo d =
     rbind (pi_of_kv cv h k a d) (\<lambda>(d1, pnew).
     if pi_key pnew \<in> pi_key ` set pitems
     then pl_apply_loop cv h kvs (replace_item pnew pitems) todo d1
     else pl_apply_loop cv h kvs pitems (todo @ [pnew]) d1)"

definition pl_apply_updates :: "conv \<Rightarrow> hash \<Rightarrow> p_item list \<Rightarrow> properties_t \<Rightarrow> dict \<Rightarrow> (dict \<times> p_item list) result" where
  "pl_apply_updates cv h pitems props d = pl_apply_loop cv h props pitems [] d"

definition pl_properties_from_pitems :: "p_item list \<Rightarrow> dict \<Rightarrow> (string \<Rightarrow> any_val option) result" where
  "pl_properties_from_pitems ps d = pl_pitems_map d ps Map.empty"

section \<open>Chains\<close>

declare pl_property_value_from.simps [simp del] pl_remove_loop.simps [simp del]

fun pl_linked :: "(nat \<Rightarrow> property_set option) \<Rightarrow> offset_t \<Rightarrow> (offset_t \<times> property_set) list \<Rightarrow> bool" where
  "pl_linked m i [] = (i = UNKNOWN)"
| "pl_linked m i ((j, p) # r) = (i = j \<and> j \<noteq> UNKNOWN \<and> m j = Some p \<and> pl_linked m (ps_next p) r)"

lemma pl_linked_dom: "pl_linked m i r \<Longrightarrow> (j, p) \<in> set r \<Longrightarrow> m j = Some p"
  by (induction m i r rule: pl_linked.induct) auto

lemma pl_linked_cong: "(\<And>j. j \<in> fst ` set r \<Longrightarrow> m j = m' j) \<Longrightarrow> pl_linked m i r = pl_linked m' i r"
  by (induction m i r rule: pl_linked.induct) auto

lemma pl_linked_upd: "pl_linked m i r \<Longrightarrow> m j = None \<Longrightarrow> pl_linked (m(j \<mapsto> x)) i r"
  using pl_linked_dom [of m i r] by (subst pl_linked_cong [of r _ m]) force+

lemma pl_linked_short:
  assumes wf: "cv_wf v" and l: "pl_linked (cv_view v) i r" and d: "distinct (map fst r)"
  shows "length r \<le> capacity v"
proof -
  have "j < capacity v" if "j \<in> fst ` set r" for j
    using that pl_linked_dom [OF l] cv_view_dom [OF wf] by force
  then have "set (map fst r) \<subseteq> {..<capacity v}" by auto
  from card_mono [OF _ this] distinct_card [OF d] show ?thesis by simp
qed

lemma pl_chain_linked:
  assumes "cv_wf v" "pl_linked (cv_view v) i r" "length r \<le> n"
  shows "pl_chain n v i = Inr r"
  using assms
proof (induction r arbitrary: i n)
  case Nil
  then show ?case by (cases n) auto
next
  case (Cons jp r)
  obtain j p where jp: "jp = (j, p)" by (cases jp)
  obtain k where n: "n = Suc k" using Cons.prems(3) by (cases n) auto
  have "cv_at v j = Inr p" using Cons.prems(1,2) jp by (simp add: cv_rd.at_Inr_iff)
  then show ?case using Cons n jp by simp
qed

lemma pl_build_linked:
  assumes "cv_wf v" "pl_linked (cv_view v) i r" "distinct (map fst r)"
  shows "pl_build_dirty v i = Inr (filter (\<lambda>it. pi_key it \<noteq> 0) (concat (map (\<lambda>jp. ps_items (snd jp)) r)))"
  using pl_chain_linked [OF assms(1,2) pl_linked_short [OF assms]] by (simp add: pl_build_dirty_def)

lemma pl_property_value_linked:
  assumes "cv_wf v" "pl_linked (cv_view v) i r" "length r \<le> n"
    "find (\<lambda>it. pi_key it = k) (concat (map (\<lambda>jp. ps_items (snd jp)) r)) = Some it"
  shows "pl_property_value_from n v i k = Inr it"
  using assms
proof (induction r arbitrary: i n)
  case (Cons jp r)
  obtain j p where jp: "jp = (j, p)" by (cases jp)
  obtain m where n: "n = Suc m" using Cons.prems(3) by (cases n) auto
  have at: "i = j" "j \<noteq> UNKNOWN" "cv_at v j = Inr p"
    using Cons.prems(1,2) jp by (simp_all add: cv_rd.at_Inr_iff)
  show ?case
  proof (cases "find (\<lambda>it. pi_key it = k) (ps_items p)")
    case None
    then have "find (\<lambda>it. pi_key it = k) (concat (map (\<lambda>jp. ps_items (snd jp)) r)) = Some it"
      using Cons.prems(4) jp by (simp add: find_append)
    then have "pl_property_value_from m v (ps_next p) k = Inr it"
      using Cons.IH [of "ps_next p" m] Cons.prems jp n by simp
    then show ?thesis using at n None by (subst pl_property_value_from.simps) simp
  next
    case (Some x)
    then have "x = it" using Cons.prems(4) jp by (simp add: find_append)
    then show ?thesis using at Some by (subst pl_property_value_from.simps) simp
  qed
qed simp

section \<open>Grouping\<close>

fun pl_groups :: "p_item list \<Rightarrow> p_item list \<Rightarrow> p_item list list" where
  "pl_groups pil [] = []"
| "pl_groups pil (p # ps) =
     (let pil' = pil @ [p] in
      if ps = [] \<or> length pil' = 3 then ps_fill pil' # pl_groups [] ps else pl_groups pil' ps)"

lemma filter_ps_fill: "(\<forall>p\<in>set pil. pi_key p \<noteq> 0) \<Longrightarrow> filter (\<lambda>it. pi_key it \<noteq> 0) (ps_fill pil) = pil"
  by (auto simp: ps_fill_def pi_unused_def filter_True)

lemma pl_groups_items:
  assumes "\<forall>p\<in>set (pil @ ps). pi_key p \<noteq> 0" "ps = [] \<longrightarrow> pil = []"
  shows "filter (\<lambda>it. pi_key it \<noteq> 0) (concat (pl_groups pil ps)) = pil @ ps"
  using assms
proof (induction pil ps rule: pl_groups.induct)
  case (2 pil p ps)
  have k: "\<forall>q\<in>set (pil @ [p]). pi_key q \<noteq> 0" using "2.prems" by auto
  show ?case
  proof (cases "ps = [] \<or> length (pil @ [p]) = 3")
    case True
    moreover have "filter (\<lambda>it. pi_key it \<noteq> 0) (concat (pl_groups [] ps)) = ps"
      using "2.IH"(1) [OF refl True] "2.prems" by auto
    ultimately show ?thesis using filter_ps_fill [OF k] by (simp add: Let_def)
  next
    case False
    then show ?thesis using "2.IH"(2) [OF refl False] "2.prems" by (auto simp: Let_def)
  qed
qed simp

lemma mset_concat_rev: "mset (concat (rev xs)) = mset (concat xs)"
  by (induction xs) (auto simp: ac_simps)

lemma mset_filter_concat_rev: "mset (filter P (concat (rev xs))) = mset (filter P (concat xs))"
  using mset_concat_rev [of xs] by (metis mset_filter)

lemma pl_add_loop_spec:
  assumes "cv_inv v" "pl_linked (cv_view v) next_id r" "distinct (map fst r)"
    "capacity v + length (pl_groups pil ps) * elems_per_chunk v \<le> UNKNOWN"
  shows "\<exists>v' i r'. pl_add_pitems_loop nid next_id pil ps v = Inr (v', i) \<and> cv_inv v' \<and>
     pl_linked (cv_view v') i (r' @ r) \<and> distinct (map fst (r' @ r)) \<and>
     map (\<lambda>jp. ps_items (snd jp)) r' = rev (pl_groups pil ps) \<and>
     (\<forall>j x. cv_view v j = Some x \<longrightarrow> cv_view v' j = Some x)"
  using assms
proof (induction pil ps arbitrary: v next_id r rule: pl_groups.induct)
  case (1 pil)
  then show ?case by (intro exI [of _ v] exI [of _ next_id] exI [of _ "[]"]) simp
next
  case (2 pil p ps)
  let ?pil = "pil @ [p]" and ?x = "ps_make nid (pil @ [p]) next_id"
  show ?case
  proof (cases "ps = [] \<or> length ?pil = 3")
    case False
    have "capacity v + length (pl_groups ?pil ps) * elems_per_chunk v \<le> UNKNOWN"
      using "2.prems"(4) False by (simp add: Let_def)
    from "2.IH"(2) [OF refl False "2.prems"(1-3) this] False show ?thesis by (simp add: Let_def)
  next
    case True
    from cv_store_spec [OF "2.prems"(1), of ps_blank ?x] obtain v1 j where
      st: "cv_store ps_blank v ?x = Inr (v1, j)" "cv_inv v1" "cv_view v j = None"
      "cv_view v1 = (cv_view v)(j \<mapsto> ?x)" by blast
    have wf: "cv_wf v" "cv_wf v1" using "2.prems"(1) st(2) by (simp_all add: cv_inv_def)
    note sz = cv_store_size [OF wf(1) st(1)]
    let ?G = "length (pl_groups [] ps)"
    have g: "capacity v + (Suc ?G) * elems_per_chunk v \<le> UNKNOWN"
      using "2.prems"(4) True by (simp add: Let_def)
    then have cap: "capacity v1 + ?G * elems_per_chunk v1 \<le> UNKNOWN" using sz by simp
    have "j < capacity v1" using cv_view_dom [OF wf(2), of j ?x] st(4) by simp
    then have ju: "j \<noteq> UNKNOWN" using cap by simp
    have lk: "pl_linked (cv_view v1) j ((j, ?x) # r)"
      using pl_linked_upd [OF "2.prems"(2) st(3)] st(4) ju by (simp add: ps_make_def)
    have "j \<notin> fst ` set r" using pl_linked_dom [OF "2.prems"(2)] st(3) by force
    then have di: "distinct (map fst ((j, ?x) # r))" using "2.prems"(3) by simp
    from "2.IH"(1) [OF refl True st(2) lk di cap] obtain v' i r' where
      r': "pl_add_pitems_loop nid j [] ps v1 = Inr (v', i)" "cv_inv v'"
      "pl_linked (cv_view v') i (r' @ (j, ?x) # r)" "distinct (map fst (r' @ (j, ?x) # r))"
      "map (\<lambda>jp. ps_items (snd jp)) r' = rev (pl_groups [] ps)"
      "\<forall>k y. cv_view v1 k = Some y \<longrightarrow> cv_view v' k = Some y" by blast
    have "pl_add_pitems_loop nid next_id pil (p # ps) v = Inr (v', i)"
      using True st(1) r'(1) by (simp add: Let_def)
    moreover have "map (\<lambda>jp. ps_items (snd jp)) (r' @ [(j, ?x)]) = rev (pl_groups pil (p # ps))"
      using r'(5) True by (simp add: Let_def ps_make_def)
    moreover have "cv_view v' k = Some y" if "cv_view v k = Some y" for k y
      using r'(6) st(3,4) that by (metis fun_upd_apply option.distinct(1))
    ultimately show ?thesis using r'(2-4)
      by (intro exI [of _ v'] exI [of _ i] exI [of _ "r' @ [(j, ?x)]"]) simp
  qed
qed

section \<open>Updating\<close>

lemma cv_store_at_size:
  "cv_store_at v i x = Inr v' \<Longrightarrow> elems_per_chunk v' = elems_per_chunk v"
  by (auto simp: cv_store_at_def cv_remove_from_free_list_def Let_def rbind_eq_Inr_iff split: if_splits)

lemma pl_store_first_spec:
  assumes wf: "cv_wf v" and cap: "capacity v + elems_per_chunk v \<le> UNKNOWN"
  obtains v' i where "pl_store_first v x = Inr (v', i)" "cv_wf v'" "cv_view v i = None"
    "cv_view v' = (cv_view v)(i \<mapsto> x)" "capacity v' \<le> capacity v + elems_per_chunk v"
    "elems_per_chunk v' = elems_per_chunk v" "i \<noteq> UNKNOWN"
proof -
  define v1 where "v1 = (if cv_is_full v then cv_resize ps_blank 1 v else v)"
  have v1: "cv_wf v1" "cv_view v1 = cv_view v" "capacity v1 \<le> capacity v + elems_per_chunk v"
    "elems_per_chunk v1 = elems_per_chunk v" "available_slots v1 \<noteq> 0"
    using wf cv_add_chunk_wf [OF wf] cv_add_chunk_view [OF wf] cv_wf_pos [OF wf] cv_resize_one [OF wf]
    by (auto simp: v1_def cv_is_full_def)
  let ?i = "cv_first_available v1"
  note fa = cv_first_available_spec [OF v1(1,5)]
  from cv_store_at_spec [OF v1(1) fa(1), of x] obtain v' where
    v': "cv_store_at v1 ?i x = Inr v'" "cv_wf v'" "cv_view v' = (cv_view v1)(?i \<mapsto> x)"
    "capacity v' = capacity v1" by blast
  have u: "?i \<noteq> UNKNOWN" using fa(1) v1(3) cap by linarith
  then have "pl_store_first v x = Inr (v', ?i)"
    using v'(1) unfolding pl_store_first_def Let_def v1_def [symmetric] by simp
  then show ?thesis using that v' v1 fa(2) u cv_store_at_size [OF v'(1)] by simp
qed

definition pl_start :: "(offset_t \<times> property_set) list \<Rightarrow> offset_t" where
  "pl_start r = (case r of [] \<Rightarrow> UNKNOWN | (j, _) # _ \<Rightarrow> j)"

lemma pl_linked_start: "pl_linked m i r \<Longrightarrow> i = pl_start r"
  by (cases r) (auto simp: pl_start_def)

lemma pl_linked_append: "pl_linked m i (a @ b) \<Longrightarrow> pl_linked m (pl_start b) b"
proof (induction a arbitrary: i)
  case Nil
  then show ?case using pl_linked_start [of m i b] by simp
next
  case (Cons jp a)
  then show ?case by (cases jp) auto
qed

lemma pl_linked_assign:
  assumes "pl_linked m i (a @ (j, p) # b)" "distinct (map fst (a @ (j, p) # b))" "ps_next p' = ps_next p"
  shows "pl_linked (m(j \<mapsto> p')) i (a @ (j, p') # b)"
  using assms
proof (induction a arbitrary: i)
  case Nil
  then have b: "pl_linked m (ps_next p) b" "j \<notin> fst ` set b" "i = j" "j \<noteq> UNKNOWN" by auto
  have "pl_linked (m(j \<mapsto> p')) (ps_next p) b = pl_linked m (ps_next p) b"
    using b(2) by (intro pl_linked_cong) (simp, blast)
  then show ?case using b Nil.prems(3) by (simp del: fun_upd_apply add: fun_upd_same)
next
  case (Cons kq a)
  then show ?case by (cases kq) auto
qed

abbreviation pl_items :: "(offset_t \<times> property_set) list \<Rightarrow> p_item list" where
  "pl_items r \<equiv> concat (map (\<lambda>jp. ps_items (snd jp)) r)"

lemma pl_update_loop_spec:
  assumes "cv_wf v" "pl_linked (cv_view v) head_id (a @ b)" "distinct (map fst (a @ b))" "i = pl_start b"
    "capacity v + length (pl_groups pil ps) * elems_per_chunk v \<le> UNKNOWN"
  shows "\<exists>v' k r'. pl_update_loop nid i head_id pil ps v = Inr (v', k) \<and> cv_wf v' \<and>
     pl_linked (cv_view v') k r' \<and> distinct (map fst r') \<and>
     mset (pl_items r') = mset (pl_items a) + mset (concat (pl_groups pil ps)) +
        mset (pl_items (drop (length (pl_groups pil ps)) b))"
  using assms
proof (induction pil ps arbitrary: v head_id a b i rule: pl_groups.induct)
  case (1 pil)
  then show ?case by (intro exI [of _ v] exI [of _ head_id] exI [of _ "a @ b"]) simp
next
  case (2 pil p ps)
  let ?pil = "pil @ [p]"
  show ?case
  proof (cases "ps = [] \<or> length ?pil = 3")
    case False
    then have g: "pl_groups pil (p # ps) = pl_groups ?pil ps" by (simp add: Let_def)
    have "capacity v + length (pl_groups ?pil ps) * elems_per_chunk v \<le> UNKNOWN"
      using "2.prems"(5) unfolding g .
    from "2.IH"(2) [OF refl False "2.prems"(1-4) this] False show ?thesis unfolding g by (simp add: Let_def)
  next
    case True
    let ?G = "pl_groups [] ps"
    have g: "pl_groups pil (p # ps) = ps_fill ?pil # ?G" using True by (simp add: Let_def)
    have cap: "capacity v + (Suc (length ?G)) * elems_per_chunk v \<le> UNKNOWN"
      using "2.prems"(5) unfolding g by simp
    show ?thesis
    proof (cases b)
      case (Cons jq b')
      obtain j q where jq: "jq = (j, q)" by (cases jq)
      let ?q = "q\<lparr>ps_items := ps_fill ?pil\<rparr>"
      have lk: "pl_linked (cv_view v) j ((j, q) # b')"
        using pl_linked_append [OF "2.prems"(2)] Cons jq by (simp add: pl_start_def)
      then have at: "j \<noteq> UNKNOWN" "cv_view v j = Some q" "cv_at v j = Inr q" "ps_next q = pl_start b'"
        using "2.prems"(1) pl_linked_start by (auto simp: cv_rd.at_Inr_iff)
      have i: "i = j" using "2.prems"(4) Cons jq by (simp add: pl_start_def)
      note w = cv_assign_props [OF "2.prems"(1) at(2), of ?q]
      have el: "elems_per_chunk (cv_assign v j ?q) = elems_per_chunk v" by (simp add: cv_assign_def Let_def)
      have l2: "pl_linked (cv_view (cv_assign v j ?q)) head_id ((a @ [(j, ?q)]) @ b')"
        using pl_linked_assign [of "cv_view v" head_id a j q b' ?q] "2.prems"(2,3) unfolding Cons jq w(2) append_assoc append_Cons append_Nil by simp
      have d2: "distinct (map fst ((a @ [(j, ?q)]) @ b'))" using "2.prems"(3) Cons jq by simp
      have c2: "capacity (cv_assign v j ?q) + length ?G * elems_per_chunk (cv_assign v j ?q) \<le> UNKNOWN"
        using cap w(3) el by simp
      from "2.IH"(1) [OF refl True w(1) l2 d2 refl c2] obtain v' k r' where
        r': "pl_update_loop nid (pl_start b') head_id [] ps (cv_assign v j ?q) = Inr (v', k)" "cv_wf v'"
        "pl_linked (cv_view v') k r'" "distinct (map fst r')"
        "mset (pl_items r') = mset (pl_items (a @ [(j, ?q)])) + mset (concat ?G) + mset (pl_items (drop (length ?G) b'))"
        by blast
      have "pl_update_loop nid i head_id pil (p # ps) v = Inr (v', k)"
        using True i at r'(1) by (simp add: Let_def)
      moreover have "mset (pl_items r') = mset (pl_items a) + mset (concat (ps_fill ?pil # ?G)) +
          mset (pl_items (drop (length (ps_fill ?pil # ?G)) b))"
        using r'(5) Cons by simp
      ultimately show ?thesis using r'(2-4) unfolding g by blast
    next
      case Nil
      have i: "i = UNKNOWN" using "2.prems"(4) Nil by (simp add: pl_start_def)
      let ?x = "ps_make nid ?pil head_id"
      have c1: "capacity v + elems_per_chunk v \<le> UNKNOWN" using cap by simp
      from pl_store_first_spec [OF "2.prems"(1) c1, of ?x] obtain v1 j where
        st: "pl_store_first v ?x = Inr (v1, j)" "cv_wf v1" "cv_view v j = None"
        "cv_view v1 = (cv_view v)(j \<mapsto> ?x)" "capacity v1 \<le> capacity v + elems_per_chunk v"
        "elems_per_chunk v1 = elems_per_chunk v" "j \<noteq> UNKNOWN" .
      have l2: "pl_linked (cv_view v1) j (((j, ?x) # a) @ [])"
        using pl_linked_upd [OF "2.prems"(2) st(3)] st(4,7) Nil by (simp add: ps_make_def)
      have "j \<notin> fst ` set a" using pl_linked_dom [OF "2.prems"(2)] st(3) by force
      then have d2: "distinct (map fst (((j, ?x) # a) @ []))" using "2.prems"(3) by simp
      have i2: "i = pl_start []" using i by (simp add: pl_start_def)
      have c2: "capacity v1 + length ?G * elems_per_chunk v1 \<le> UNKNOWN" using cap st(5,6) by simp
      from "2.IH"(1) [OF refl True st(2) l2 d2 i2 c2] obtain v' k r' where
        r': "pl_update_loop nid i j [] ps v1 = Inr (v', k)" "cv_wf v'"
        "pl_linked (cv_view v') k r'" "distinct (map fst r')"
        "mset (pl_items r') = mset (pl_items ((j, ?x) # a)) + mset (concat ?G) + mset (pl_items (drop (length ?G) []))"
        by blast
      have "pl_update_loop nid i head_id pil (p # ps) v = Inr (v', k)"
        using True i st(1) r'(1) by (simp add: Let_def)
      moreover have "mset (pl_items r') = mset (pl_items a) + mset (concat (ps_fill ?pil # ?G)) +
          mset (pl_items (drop (length (ps_fill ?pil # ?G)) b))"
        using r'(5) Nil by (simp add: ps_make_def)
      ultimately show ?thesis using r'(2-4) unfolding g by blast
    qed
  qed
qed

section \<open>Removing\<close>

lemma pl_remove_loop_linked:
  assumes "cv_wf v" "pl_linked (cv_view v) i r" "distinct (map fst r)" "length r \<le> n"
  shows "\<exists>v'. pl_remove_loop n v i = Inr v' \<and> cv_wf v' \<and> cv_view v' = cv_view v |` (- fst ` set r)"
  using assms
proof (induction r arbitrary: v i n)
  case Nil
  then show ?case by (subst pl_remove_loop.simps) (simp add: restrict_map_def)
next
  case (Cons jp r)
  obtain j p where jp: "jp = (j, p)" by (cases jp)
  obtain m where n: "n = Suc m" using Cons.prems(4) by (cases n) auto
  have at: "i = j" "j \<noteq> UNKNOWN" "cv_at v j = Inr p" "cv_view v j = Some p"
    using Cons.prems(1,2) jp by (simp_all add: cv_rd.at_Inr_iff)
  from cv_erase_spec [OF Cons.prems(1) cv_view_dom [OF Cons.prems(1) at(4)]] obtain v1 where
    v1: "cv_erase v j = Inr v1" "cv_wf v1" "cv_view v1 = (cv_view v)(j := None)" by blast
  have "j \<notin> fst ` set r" using Cons.prems(3) jp by simp
  then have "pl_linked (cv_view v1) (ps_next p) r = pl_linked (cv_view v) (ps_next p) r"
    unfolding v1(3) by (intro pl_linked_cong) (simp, blast)
  then have "pl_linked (cv_view v1) (ps_next p) r" using Cons.prems(2) jp by simp
  from Cons.IH [OF v1(2) this, of m] Cons.prems(3,4) n obtain v' where
    v': "pl_remove_loop m v1 (ps_next p) = Inr v'" "cv_wf v'" "cv_view v' = cv_view v1 |` (- fst ` set r)" by auto
  have "pl_remove_loop n v i = Inr v'" using at v1(1) v'(1) n by (subst pl_remove_loop.simps) simp
  moreover have "cv_view v' = cv_view v |` (- fst ` set (jp # r))"
    unfolding v'(3) v1(3) jp by (auto simp: restrict_map_def fun_eq_iff)
  ultimately show ?case using v'(2) by blast
qed

lemma pl_remove_linked:
  assumes "cv_wf v" "pl_linked (cv_view v) i r" "distinct (map fst r)"
  shows "\<exists>v'. pl_remove_properties v i = Inr v' \<and> cv_wf v' \<and> cv_view v' = cv_view v |` (- fst ` set r)"
proof (cases r)
  case Nil
  then show ?thesis using assms by (simp add: pl_remove_properties_def restrict_map_def)
next
  case (Cons jp r')
  obtain j p where "jp = (j, p)" by (cases jp)
  then have "i \<noteq> UNKNOWN" "i < capacity v" using assms(1,2) Cons cv_view_dom by auto
  then show ?thesis using pl_remove_loop_linked [OF assms pl_linked_short [OF assms]]
    by (simp add: pl_remove_properties_def)
qed

section \<open>Applying updates\<close>

definition pl_override :: "p_item list \<Rightarrow> p_item \<Rightarrow> p_item" where
  "pl_override qs p = (case find (\<lambda>q. pi_key q = pi_key p) qs of Some q \<Rightarrow> q | None \<Rightarrow> p)"

lemma replace_item_map:
  "distinct (map pi_key ps) \<Longrightarrow> replace_item q ps = map (\<lambda>p. if pi_key p = pi_key q then q else p) ps"
proof (induction ps)
  case (Cons p ps)
  have "map (\<lambda>p. if pi_key p = pi_key q then q else p) ps = ps" if "pi_key p = pi_key q"
    using Cons.prems that by (intro map_idI) (metis distinct.simps(2) imageI list.set_map list.simps(9))
  then show ?case using Cons by auto
qed simp

lemma pi_key_override: "pi_key (pl_override qs p) = pi_key p"
  by (auto simp: pl_override_def find_Some_iff split: option.splits)

lemma pl_apply_loop_spec:
  assumes "pl_build_dirty_props cv h kvs d = Inr (d', qs)" "distinct (map pi_key qs)" "distinct (map pi_key ps)"
  shows "pl_apply_loop cv h kvs ps todo d =
     Inr (d', map (pl_override qs) ps @ todo @ filter (\<lambda>q. pi_key q \<notin> pi_key ` set ps) qs)"
  using assms
proof (induction kvs arbitrary: d qs ps todo)
  case Nil
  then show ?case by (simp add: pl_override_def map_idI)
next
  case (Cons ka kvs)
  obtain k a where ka: "ka = (k, a)" by (cases ka)
  from Cons.prems(1) ka obtain d1 q qs' where
    q: "pi_of_kv cv h k a d = Inr (d1, q)" "pl_build_dirty_props cv h kvs d1 = Inr (d', qs')" "qs = q # qs'"
    by (auto simp: rbind_eq_Inr_iff)
  let ?ps = "map (\<lambda>p. if pi_key p = pi_key q then q else p) ps"
  have k: "map pi_key ?ps = map pi_key ps" by simp
  have ks: "pi_key ` set ?ps = pi_key ` set ps" using k by (metis list.set_map)
  have nq: "find (\<lambda>q'. pi_key q' = pi_key q) qs' = None"
    using Cons.prems(2) q(3) by (auto simp: find_None_iff) (metis imageI)
  have ov: "map (pl_override qs') ?ps = map (pl_override qs) ps"
    using nq by (auto simp: pl_override_def q(3))
  show ?case
  proof (cases "pi_key q \<in> pi_key ` set ps")
    case True
    have "pl_apply_loop cv h kvs ?ps todo d1 =
        Inr (d', map (pl_override qs') ?ps @ todo @ filter (\<lambda>q. pi_key q \<notin> pi_key ` set ?ps) qs')"
      by (rule Cons.IH [OF q(2)], use Cons.prems(2) q(3) in simp) (use Cons.prems(3) k in argo)
    then show ?thesis unfolding ov ks using True ka q(1,3) Cons.prems(3) by (simp add: replace_item_map)
  next
    case False
    then have "map (pl_override qs') ps = map (pl_override qs) ps" by (auto simp: pl_override_def q(3))
    then show ?thesis using Cons.IH [OF q(2)] Cons.prems(2,3) False ka q(1,3) by simp
  qed
qed

section \<open>Properties\<close>

lemma pl_groups_length_le: "length (pl_groups pil ps) \<le> length ps"
proof (induction pil ps rule: pl_groups.induct)
  case (2 pil p ps)
  then show ?case by (cases "ps = [] \<or> length (pil @ [p]) = 3") (auto simp: Let_def)
qed simp

lemma pl_add_pitems_spec:
  assumes "cv_inv v" "\<forall>p\<in>set ps. pi_key p \<noteq> 0" "capacity v + length ps * elems_per_chunk v \<le> UNKNOWN"
  shows "\<exists>v' i r. pl_add_pitems nid ps v = Inr (v', i) \<and> cv_inv v' \<and> pl_linked (cv_view v') i r \<and>
     distinct (map fst r) \<and> mset (filter (\<lambda>it. pi_key it \<noteq> 0) (pl_items r)) = mset ps \<and>
     (\<forall>j x. cv_view v j = Some x \<longrightarrow> cv_view v' j = Some x)"
proof -
  have "capacity v + length (pl_groups [] ps) * elems_per_chunk v \<le> UNKNOWN"
    using assms(3) mult_le_mono1 [OF pl_groups_length_le [of "[]" ps], of "elems_per_chunk v"] by linarith
  from pl_add_loop_spec [OF assms(1) _ _ this, of UNKNOWN "[]" nid] obtain v' i r where
    r: "pl_add_pitems nid ps v = Inr (v', i)" "cv_inv v'" "pl_linked (cv_view v') i r" "distinct (map fst r)"
    "map (\<lambda>jp. ps_items (snd jp)) r = rev (pl_groups [] ps)"
    "\<forall>j x. cv_view v j = Some x \<longrightarrow> cv_view v' j = Some x"
    unfolding pl_add_pitems_def by auto
  have "mset (filter (\<lambda>it. pi_key it \<noteq> 0) (pl_items r)) = mset ps"
    unfolding r(5) mset_filter_concat_rev using pl_groups_items [of "[]" ps] assms(2) by simp
  with r show ?thesis by blast
qed

lemma find_key_mset:
  assumes "mset (filter (\<lambda>it. pi_key it \<noteq> 0) xs) = mset ps" "distinct (map pi_key ps)" "p \<in> set ps" "pi_key p \<noteq> 0"
  shows "find (\<lambda>it. pi_key it = pi_key p) xs = Some p"
proof -
  let ?f = "filter (\<lambda>it. pi_key it \<noteq> 0) xs"
  have d: "inj_on pi_key (set ?f)" and s: "set ?f = set ps"
    using assms(2) mset_eq_setD [OF assms(1)] by (auto simp: distinct_map)
  have "find (\<lambda>it. pi_key it = pi_key p) xs \<noteq> None" using assms(3,4) s by (auto simp: find_None_iff)
  then obtain q where q: "find (\<lambda>it. pi_key it = pi_key p) xs = Some q" by blast
  then have "q \<in> set xs" "pi_key q = pi_key p" by (auto simp: find_Some_iff)
  then have "q \<in> set ?f" using assms(4) by simp
  then have "q = p" using inj_onD [OF d \<open>pi_key q = pi_key p\<close>] s assms(3) by blast
  with q show ?thesis by simp
qed

lemma pl_add_reads_spec:
  assumes "cv_inv v" "\<forall>p\<in>set ps. pi_key p \<noteq> 0" "capacity v + length ps * elems_per_chunk v \<le> UNKNOWN"
    "distinct (map pi_key ps)"
  shows "\<exists>v' i qs. pl_add_pitems nid ps v = Inr (v', i) \<and> cv_inv v' \<and> pl_build_dirty v' i = Inr qs \<and> mset qs = mset ps \<and>
     (\<forall>p\<in>set ps. pl_property_value v' i (pi_key p) = Inr p) \<and>
     (\<forall>j x. cv_at v j = Inr x \<longrightarrow> cv_at v' j = Inr x)"
proof -
  from pl_add_pitems_spec [OF assms(1-3)] obtain v' i r where
    r: "pl_add_pitems nid ps v = Inr (v', i)" "cv_inv v'" "pl_linked (cv_view v') i r" "distinct (map fst r)"
    "mset (filter (\<lambda>it. pi_key it \<noteq> 0) (pl_items r)) = mset ps"
    "\<forall>j x. cv_view v j = Some x \<longrightarrow> cv_view v' j = Some x" by blast
  have wf: "cv_wf v" "cv_wf v'" using assms(1) r(2) by (simp_all add: cv_inv_def)
  have "pl_property_value v' i (pi_key p) = Inr p" if p: "p \<in> set ps" for p
    unfolding pl_property_value_def
    by (rule pl_property_value_linked [OF wf(2) r(3) pl_linked_short [OF wf(2) r(3,4)]])
      (rule find_key_mset [OF r(5) assms(4) p], use assms(2) p in blast)
  then show ?thesis using r(1,2,5,6) pl_build_linked [OF wf(2) r(3,4)] wf by (auto simp: cv_rd.at_Inr_iff)
qed

text \<open>
  C32. Round trip of the property table: the items added for an object are chained in property sets
  from which \<open>build_dirty_property_list\<close> reads exactly these items, \<open>property_value\<close> finds the item of
  each key, and the property sets of other objects are kept.
\<close>

theorem pl_add_read_roundtrip:
  assumes "cv_inv v" "\<forall>p\<in>set ps. pi_key p \<noteq> 0" "capacity v + length ps * elems_per_chunk v \<le> UNKNOWN"
    "distinct (map pi_key ps)"
  shows "\<exists>v' i qs. pl_add_pitems nid ps v = Inr (v', i) \<and> cv_inv v' \<and> pl_build_dirty v' i = Inr qs \<and> mset qs = mset ps \<and>
     (\<forall>p\<in>set ps. pl_property_value v' i (pi_key p) = Inr p) \<and>
     (\<forall>j x. cv_at v j = Inr x \<longrightarrow> cv_at v' j = Inr x)"
  by (rule pl_add_reads_spec [OF assms])

definition pl_demo :: plist where
  "pl_demo = \<lparr>capacity = 2, available_slots = 2, elems_per_chunk = 2,
     chunk_list = [\<lparr>ch_data = [ps_blank, ps_blank], ch_slots = [False, False], ch_first = 0\<rparr>], free_list = [0]\<rparr>"

lemma pl_demo_inv: "cv_inv pl_demo"
  by (auto simp: cv_inv_def cv_wf_def fl_ok_def pl_demo_def chunk_inv_def free_count_def
      chunk_is_full_def less_Suc_eq numeral_2_eq_2)

definition pi_demo :: "nat \<Rightarrow> p_item" where
  "pi_demo k = \<lparr>pi_value = of_nat (10 * k), pi_key = k, pi_type = P_int\<rparr>"

theorem pl_add_read_roundtrip_witness:
  "\<exists>v i. pl_add_pitems 7 (map pi_demo [1, 2, 3, 4, 5]) pl_demo = Inr (v, i) \<and>
     pl_property_value v i 4 = Inr (pi_demo 4)"
proof -
  have "\<forall>p\<in>set (map pi_demo [1, 2, 3, 4, 5]). pi_key p \<noteq> 0" by (simp add: pi_demo_def)
  from pl_add_read_roundtrip [OF pl_demo_inv this, of 7] show ?thesis
    by (simp add: pi_demo_def pl_demo_def UNKNOWN_def) blast
qed

text \<open>
  Update of a property chain: \<open>update_pitems\<close> writes the given items over the chain of the object,
  set by set, adds sets at the front when the chain is too short, and leaves the sets beyond the last
  one it wrote as they were; with at least as many groups of items as sets, exactly the given items
  are read afterwards.
\<close>

theorem pl_update_reads_back:
  assumes "cv_wf v" "pl_linked (cv_view v) i r" "distinct (map fst r)" "\<forall>p\<in>set ps. pi_key p \<noteq> 0"
    "capacity v + length ps * elems_per_chunk v \<le> UNKNOWN"
  shows "\<exists>v' k qs. pl_update_pitems nid i ps v = Inr (v', k) \<and> cv_wf v' \<and> pl_build_dirty v' k = Inr qs \<and>
     mset qs = mset ps + mset (filter (\<lambda>it. pi_key it \<noteq> 0) (pl_items (drop (length (pl_groups [] ps)) r)))"
proof -
  have c: "capacity v + length (pl_groups [] ps) * elems_per_chunk v \<le> UNKNOWN"
    using assms(5) mult_le_mono1 [OF pl_groups_length_le [of "[]" ps], of "elems_per_chunk v"] by linarith
  from pl_update_loop_spec [OF assms(1) _ _ pl_linked_start [OF assms(2)] c, of i "[]" nid] assms(2,3)
  obtain v' k r' where r': "pl_update_pitems nid i ps v = Inr (v', k)" "cv_wf v'" "pl_linked (cv_view v') k r'"
    "distinct (map fst r')"
    "mset (pl_items r') = mset (concat (pl_groups [] ps)) + mset (pl_items (drop (length (pl_groups [] ps)) r))"
    unfolding pl_update_pitems_def by auto
  have "mset (filter (\<lambda>it. pi_key it \<noteq> 0) (pl_items r')) =
      mset (filter (\<lambda>it. pi_key it \<noteq> 0) (concat (pl_groups [] ps))) +
      mset (filter (\<lambda>it. pi_key it \<noteq> 0) (pl_items (drop (length (pl_groups [] ps)) r)))"
    using arg_cong [OF r'(5), of "filter_mset (\<lambda>it. pi_key it \<noteq> 0)"] by simp
  moreover have "filter (\<lambda>it. pi_key it \<noteq> 0) (concat (pl_groups [] ps)) = ps"
    using pl_groups_items [of "[]" ps] assms(4) by simp
  ultimately have "mset (filter (\<lambda>it. pi_key it \<noteq> 0) (pl_items r')) =
      mset ps + mset (filter (\<lambda>it. pi_key it \<noteq> 0) (pl_items (drop (length (pl_groups [] ps)) r)))" by argo
  then show ?thesis using r'(1,2) pl_build_linked [OF r'(2-4)] by blast
qed

theorem pl_update_reads_back_witness:
  "\<exists>v k qs. pl_update_pitems 7 UNKNOWN (map pi_demo [1, 2, 3, 4]) pl_demo = Inr (v, k) \<and>
     pl_build_dirty v k = Inr qs \<and> mset qs = mset (map pi_demo [1, 2, 3, 4])"
proof -
  have "\<forall>p\<in>set (map pi_demo [1, 2, 3, 4]). pi_key p \<noteq> 0" by (simp add: pi_demo_def)
  moreover have "cv_wf pl_demo" using pl_demo_inv by (simp add: cv_inv_def)
  ultimately show ?thesis
    using pl_update_reads_back [of pl_demo UNKNOWN "[]" "map pi_demo [1, 2, 3, 4]" 7]
    by (simp add: pl_demo_def UNKNOWN_def) blast
qed

text \<open>
  Removal: \<open>remove_properties\<close> frees exactly the property sets of the chain it is given.
\<close>

lemma pl_remove_frees_chain:
  assumes "cv_wf v" "pl_linked (cv_view v) i r" "distinct (map fst r)"
  shows "\<exists>v'. pl_remove_properties v i = Inr v' \<and> cv_wf v' \<and>
     (\<forall>j\<in>fst ` set r. \<exists>e. cv_at v' j = Inl e) \<and> (\<forall>j x. j \<notin> fst ` set r \<and> cv_at v j = Inr x \<longrightarrow> cv_at v' j = Inr x)"
proof -
  from pl_remove_linked [OF assms] obtain v' where
    v': "pl_remove_properties v i = Inr v'" "cv_wf v'" "cv_view v' = cv_view v |` (- fst ` set r)" by blast
  have "\<exists>e. cv_at v' j = Inl e" if "j \<in> fst ` set r" for j
    using that cv_rd.at_Inr_iff [OF v'(2), of j] v'(3) by (cases "cv_at v' j") (auto simp: restrict_map_def)
  then show ?thesis using v' assms(1) by (auto simp: cv_rd.at_Inr_iff restrict_map_def)
qed

text \<open>
  Changing properties: the update list replaces the value of every property the object has and the
  update names, keeps the others in their order, and adds the properties the object does not have.
\<close>

theorem pl_apply_updates_overrides:
  assumes "pl_build_dirty_props cv h kvs d = Inr (d', qs)" "distinct (map pi_key qs)" "distinct (map pi_key ps)"
  shows "pl_apply_updates cv h ps kvs d =
     Inr (d', map (pl_override qs) ps @ filter (\<lambda>q. pi_key q \<notin> pi_key ` set ps) qs)"
  using pl_apply_loop_spec [OF assms, of "[]"] by (simp add: pl_apply_updates_def)

theorem pl_apply_updates_overrides_witness:
  "\<exists>d q. pl_build_dirty_props conv_demo length [(''ab'', Any_int 5)] dict_demo = Inr (d, [q]) \<and>
     pl_apply_updates conv_demo length [pi_demo 1, pi_demo 2] [(''ab'', Any_int 5)] dict_demo = Inr (d, [q, pi_demo 2])"
proof -
  have "sp_fits ''ab'' (d_pool dict_demo)" by (simp add: sp_fits_def dict_demo_def)
  from dict_insert_new [OF dict_demo_inv, of "''ab''"] this obtain d where
    "dict_insert length ''ab'' dict_demo = Inr (d, sp_last (d_pool dict_demo))" by auto
  then have "dict_insert length ''ab'' dict_demo = Inr (d, 1)" by (simp add: dict_demo_def)
  then have b: "pl_build_dirty_props conv_demo length [(''ab'', Any_int 5)] dict_demo =
      Inr (d, [(pi_set_int 5 pi_unused)\<lparr>pi_key := 1\<rparr>])"
    by (simp add: pi_of_kv_def pi_of_any_def)
  from pl_apply_updates_overrides [OF b, of "[pi_demo 1, pi_demo 2]"] b show ?thesis
    by (simp add: pi_demo_def pl_override_def)
qed

text \<open>
  Import with a missing last value: the typed columns are written to the table when the last column
  is reached, but an absent value is skipped before this test. When the last columns of a row are
  absent and at most two values are pending, these values are not stored at all.
\<close>

theorem pl_append_typed_loses_pending:
  assumes "pi_typed k1 t1 a1 = Inr p1" "pi_typed k2 t2 a2 = Inr p2"
  shows "pl_append_typed_properties nid [(k1, t1, Some a1), (k2, t2, Some a2), (k3, t3, None)] v = Inr (v, UNKNOWN)"
  using assms by (simp add: pl_append_typed_properties_def)

theorem pl_append_typed_loses_pending_witness:
  "pl_append_typed_properties 0 [(1, P_int, Some (Any_int 5)), (2, P_int, Some (Any_int 6)), (3, P_int, None)] pl_demo =
     Inr (pl_demo, UNKNOWN)"
  by (rule pl_append_typed_loses_pending) (simp_all add: pi_typed_def)

end
