(* ===== verification/Index_Map.thy ===== *)
theory Index_Map
  imports BTree Property_List
begin

text \<open>
  The registry of indexes, class \<open>index_map\<close> of \<^verbatim>\<open>src/src/btree/index_map.cpp\<close>, and the maintenance of an index
  for the properties of an object, \<^verbatim>\<open>src/src/storage/graph_db_index.cpp\<close>, for in-memory trees. An \<open>index_id\<close> is the
  name under which the tree is registered (\<open>label:property\<close>), \<open>None\<close> for \<open>boost::blank\<close>.
\<close>

section \<open>Registry\<close>

type_synonym index_map = "(string \<times> btree) list"
type_synonym index_id = "string option"

definition im_register :: "string \<Rightarrow> btree \<Rightarrow> index_map \<Rightarrow> index_map" where
  "im_register name t m = (if map_of m name = None then m @ [(name, t)] else m)"

definition im_unregister :: "string \<Rightarrow> index_map \<Rightarrow> index_map result" where
  "im_unregister name m =
     (if map_of m name = None then Inl Unknown_index else Inr (filter (\<lambda>(n, _). n \<noteq> name) m))"

definition im_get_index :: "string \<Rightarrow> index_map \<Rightarrow> index_id result" where
  "im_get_index name m = (if map_of m name = None then Inl Unknown_index else Inr (Some name))"

definition im_get_index_id :: "string \<Rightarrow> index_map \<Rightarrow> index_id" where
  "im_get_index_id name m = (if map_of m name = None then None else Some name)"

definition im_has_index :: "string \<Rightarrow> index_map \<Rightarrow> bool" where
  "im_has_index name m = (map_of m name \<noteq> None)"

definition im_set_tree :: "string \<Rightarrow> btree \<Rightarrow> index_map \<Rightarrow> index_map" where
  "im_set_tree name t m = map (\<lambda>(n, u). if n = name then (n, t) else (n, u)) m"

definition im_tree :: "string \<Rightarrow> index_map \<Rightarrow> btree result" where
  "im_tree name m = (case map_of m name of None \<Rightarrow> Inl Undefined_behaviour | Some t \<Rightarrow> Inr t)"

section \<open>Index of an object\<close>

text \<open>The first property of the object for which an index exists, with its position.\<close>

fun get_index_from :: "string \<Rightarrow> nat \<Rightarrow> p_item list \<Rightarrow> dict \<Rightarrow> index_map \<Rightarrow> (string \<times> nat) option result" where
  "get_index_from label pos [] d m = Inr None"
| "get_index_from label pos (p # ps) d m =
     rbind (dict_lookup_code (pi_key p) d) (\<lambda>pname.
     case im_get_index_id (label @ '':'' @ pname) m of
       Some name \<Rightarrow> Inr (Some (name, pos))
     | None \<Rightarrow> get_index_from label (Suc pos) ps d m)"

definition get_index_of :: "dcode_t \<Rightarrow> p_item list \<Rightarrow> dict \<Rightarrow> index_map \<Rightarrow> (string \<times> nat) option result" where
  "get_index_of label props d m = rbind (dict_lookup_code label d) (\<lambda>l. get_index_from l 0 props d m)"

text \<open>\<open>advance\<close> to a position behind the last item is undefined.\<close>

definition item_at :: "nat \<Rightarrow> p_item list \<Rightarrow> p_item result" where
  "item_at pos ps = (if pos < length ps then Inr (ps ! pos) else Inl Undefined_behaviour)"

definition item_key :: "p_item \<Rightarrow> nat" where
  "item_key p = unat (pi_get_raw p)"

definition index_insert :: "string \<times> nat \<Rightarrow> offset_t \<Rightarrow> p_item list \<Rightarrow> index_map \<Rightarrow> index_map result" where
  "index_insert idx i ps m =
     rbind (item_at (snd idx) ps) (\<lambda>p.
     rbind (im_tree (fst idx) m) (\<lambda>t.
     rbind (bt_insert 126 10 (item_key p) i t) (\<lambda>t'. Inr (im_set_tree (fst idx) t' m))))"

definition index_delete :: "string \<times> nat \<Rightarrow> p_item list \<Rightarrow> index_map \<Rightarrow> index_map result" where
  "index_delete idx ps m =
     rbind (item_at (snd idx) ps) (\<lambda>p.
     rbind (im_tree (fst idx) m) (\<lambda>t.
     rbind (bt_erase 126 10 (item_key p) t) (\<lambda>(t', _). Inr (im_set_tree (fst idx) t' m))))"

definition index_update :: "string \<times> nat \<Rightarrow> offset_t \<Rightarrow> p_item list \<Rightarrow> p_item list \<Rightarrow> index_map \<Rightarrow> index_map result" where
  "index_update idx i old_props new_props m =
     rbind (index_delete idx old_props m) (\<lambda>m1. index_insert idx i new_props m1)"

text \<open>What \<open>index_lookup\<close> finds in the tree of an index.\<close>

definition index_find :: "index_id \<Rightarrow> nat \<Rightarrow> index_map \<Rightarrow> offset_t option result" where
  "index_find idx key m =
     (case idx of None \<Rightarrow> Inr None | Some name \<Rightarrow> rbind (im_tree name m) (\<lambda>t. bt_lookup t key))"

section \<open>Properties\<close>

definition im_inv :: "index_map \<Rightarrow> bool" where
  "im_inv m = (distinct (map fst m) \<and> (\<forall>(n, t)\<in>set m. bt_inv 126 10 t))"

lemma im_set_tree_get: "map_of (im_set_tree name t m) n = (if n = name \<and> map_of m name \<noteq> None then Some t else map_of m n)"
  by (induction m) (auto simp: im_set_tree_def)

lemma im_set_tree_keys: "map fst (im_set_tree name t m) = map fst m"
  by (induction m) (auto simp: im_set_tree_def)

lemma im_set_tree_cases: "(n, u) \<in> set (im_set_tree name t m) \<Longrightarrow> u = t \<or> (n, u) \<in> set m"
  by (auto simp: im_set_tree_def split: if_splits)

lemma im_set_tree_inv: "im_inv m \<Longrightarrow> bt_inv 126 10 t \<Longrightarrow> im_inv (im_set_tree name t m)"
  unfolding im_inv_def im_set_tree_keys by (auto dest: im_set_tree_cases)

lemma im_inv_tree: "im_inv m \<Longrightarrow> map_of m name = Some t \<Longrightarrow> bt_inv 126 10 t"
  by (auto simp: im_inv_def dest: map_of_SomeD)

lemma item_key_bound: "item_key p < 2 ^ 64"
  using unsigned_less [of "pi_get_raw p"] by (simp add: item_key_def)

lemma index_insert_spec:
  assumes "im_inv m" "im_has_index name m" "pos < length ps"
  shows "\<exists>m'. index_insert (name, pos) i ps m = Inr m' \<and> im_inv m' \<and>
     index_find (Some name) (item_key (ps ! pos)) m' = Inr (Some i) \<and>
     (\<forall>n k. k < 2 ^ 64 \<and> (n \<noteq> name \<or> k \<noteq> item_key (ps ! pos)) \<longrightarrow> index_find (Some n) k m' = index_find (Some n) k m)"
proof -
  let ?k = "item_key (ps ! pos)"
  obtain t where t: "map_of m name = Some t" using assms(2) by (auto simp: im_has_index_def)
  note inv = im_inv_tree [OF assms(1) t]
  from im_btree.insert_law [OF inv item_key_bound, of "ps ! pos" i] obtain t' where
    t': "bt_insert 126 10 ?k i t = Inr t'" "bt_inv 126 10 t'" "bt_view t' = (bt_view t)(?k \<mapsto> i)" by blast
  let ?m = "im_set_tree name t' m"
  have "index_insert (name, pos) i ps m = Inr ?m" using t t'(1) assms(3) by (simp add: index_insert_def item_at_def im_tree_def)
  moreover have f: "index_find (Some name) k ?m = Inr (bt_view t' k)" if "k < 2 ^ 64" for k
    using that t im_btree.lookup_law [OF t'(2)] by (simp add: index_find_def im_tree_def im_set_tree_get)
  moreover have "index_find (Some n) k ?m = index_find (Some n) k m" if k: "k < 2 ^ 64" "n \<noteq> name \<or> k \<noteq> ?k" for n k
  proof (cases "n = name")
    case True
    then show ?thesis using f [OF k(1)] k t t'(3) im_btree.lookup_law [OF inv k(1)] by (simp add: index_find_def im_tree_def)
  qed (simp add: index_find_def im_tree_def im_set_tree_get)
  ultimately show ?thesis using im_set_tree_inv [OF assms(1) t'(2)] item_key_bound t'(3) by auto
qed

text \<open>
  Index maintenance: inserting an object into the index of its property makes \<open>index_lookup\<close> with the
  value of the property find the object; lookups with other values and in other indexes are unchanged.
\<close>

theorem index_insert_find:
  assumes "im_inv m" "im_has_index name m" "pos < length ps"
  shows "\<exists>m'. index_insert (name, pos) i ps m = Inr m' \<and> im_inv m' \<and>
     index_find (Some name) (item_key (ps ! pos)) m' = Inr (Some i) \<and>
     (\<forall>n k. k < 2 ^ 64 \<and> (n \<noteq> name \<or> k \<noteq> item_key (ps ! pos)) \<longrightarrow> index_find (Some n) k m' = index_find (Some n) k m)"
  by (rule index_insert_spec [OF assms])

theorem index_insert_find_witness:
  "\<exists>m. index_insert (''Person:age'', 0) 7 [pi_demo 4] [(''Person:age'', bt_new 10 0)] = Inr m \<and>
     index_find (Some ''Person:age'') 40 m = Inr (Some 7)"
proof -
  have "im_inv [(''Person:age'', bt_new 10 0)]" using bt_new_inv by (simp add: im_inv_def)
  from index_insert_find [OF this, of "''Person:age''" 0 "[pi_demo 4]" 7] show ?thesis
    by (auto simp: im_has_index_def item_key_def pi_get_raw_def pi_demo_def)
qed

end
