(* ===== verification/Graph_Db.thy ===== *)
theory Graph_Db
  imports Graph_Objects Index_Map
begin

text \<open>
  The graph store, class \<open>graph_db\<close> of \<^verbatim>\<open>src/src/storage/graph_db.cpp\<close> in its in-memory configuration: the node,
  relationship and property tables, the dictionary, the indexes, and the transactions. Operations are actions that
  return a result and the state, also when they throw. \<open>current_transaction_\<close> is thread local: the
  state maps each thread to its transaction, and every operation has the calling thread as its first
  argument. Threads interleave at the granularity of operations. A reference to a node or relationship is
  the position of its object and a reference into it (theory Txn).
\<close>

section \<open>State\<close>

datatype gc_type = Gc_node | Gc_rship

record gc_item =
  gc_txid :: xid_t
  gc_oid :: offset_t
  gc_itype :: gc_type

record graph_db =
  g_nodes :: "node cvec"
  g_rships :: "rship cvec"
  g_nprops :: plist
  g_rprops :: plist
  g_dict :: dict
  g_index :: index_map
  g_current :: "nat \<Rightarrow> transaction option"
  g_active :: "xid_t list"
  g_oldest :: xid_t
  g_garbage :: "gc_item list"

type_synonym ('q, 'a) gact = "('q graph_db_scheme, 'a) action"

definition get_node :: "offset_t \<Rightarrow> ('q, node) gact" where
  "get_node i = slift (\<lambda>g. table_get (g_nodes g) i)"

definition set_node :: "offset_t \<Rightarrow> node \<Rightarrow> ('q, unit) gact" where
  "set_node i n g = (Inr (), g\<lparr>g_nodes := cv_assign (g_nodes g) i n\<rparr>)"

definition get_rship :: "offset_t \<Rightarrow> ('q, rship) gact" where
  "get_rship i = slift (\<lambda>g. table_get (g_rships g) i)"

definition set_rship :: "offset_t \<Rightarrow> rship \<Rightarrow> ('q, unit) gact" where
  "set_rship i r g = (Inr (), g\<lparr>g_rships := cv_assign (g_rships g) i r\<rparr>)"

definition check_tx_context :: "nat \<Rightarrow> ('q, transaction) gact" where
  "check_tx_context th = slift (\<lambda>g. case g_current g th of None \<Rightarrow> Inl Out_of_transaction_scope | Some tx \<Rightarrow> Inr tx)"

definition modify_tx :: "nat \<Rightarrow> (transaction \<Rightarrow> transaction) \<Rightarrow> ('q, unit) gact" where
  "modify_tx th f g = (Inr (), g\<lparr>g_current := (g_current g)(th := map_option f (g_current g th))\<rparr>)"

definition dict_act :: "(dict \<Rightarrow> (dict \<times> 'a) result) \<Rightarrow> ('q, 'a) gact" where
  "dict_act f g = (case f (g_dict g) of Inl e \<Rightarrow> (Inl e, g) | Inr (d, x) \<Rightarrow> (Inr x, g\<lparr>g_dict := d\<rparr>))"

definition srun :: "'a result \<Rightarrow> ('s, 'a) action" where
  "srun r = slift (\<lambda>_. r)"

section \<open>Property items of a dirty version\<close>

fun build_items :: "conv \<Rightarrow> hash \<Rightarrow> properties_t \<Rightarrow> ('q, p_item list) gact" where
  "build_items cv h [] = sret []"
| "build_items cv h ((k, a) # kvs) =
     sbind (dict_act (pi_of_kv cv h k a)) (\<lambda>p.
     sbind (build_items cv h kvs) (\<lambda>ps. sret (p # ps)))"

text \<open>
  \<open>apply_updates\<close> changes the list it is given while it reads the new properties; \<open>put\<close> is the effect of a
  change (none for a local list).
\<close>

fun apply_items :: "conv \<Rightarrow> hash \<Rightarrow> (p_item list \<Rightarrow> ('q, unit) gact) \<Rightarrow> properties_t \<Rightarrow> p_item list \<Rightarrow> p_item list \<Rightarrow> ('q, p_item list) gact" where
  "apply_items cv h put [] items todo = sbind (put (items @ todo)) (\<lambda>_. sret (items @ todo))"
| "apply_items cv h put ((k, a) # kvs) items todo =
     sbind (dict_act (pi_of_kv cv h k a)) (\<lambda>pnew.
     if pi_key pnew \<in> pi_key ` set items
     then sbind (put (replace_item pnew items)) (\<lambda>_. apply_items cv h put kvs (replace_item pnew items) todo)
     else apply_items cv h put kvs items (todo @ [pnew]))"

section \<open>Versions of an object\<close>

text \<open>The timestamp and lock protocol before an object is changed.\<close>

definition acquire :: "xid_t \<Rightarrow> 'b elem \<Rightarrow> 'b elem result" where
  "acquire txid e =
     (if txid < rts e then Inl Transaction_abort
      else if is_locked_by txid e then Inr e
      else case try_lock txid e of (True, e') \<Rightarrow> Inr e' | (False, _) \<Rightarrow> Inl Transaction_abort)"

text \<open>A copy of the element as the old version: valid until \<open>txid\<close>, dirty, and unlocked for readers.\<close>

definition push_old :: "xid_t \<Rightarrow> vref \<Rightarrow> p_item list \<Rightarrow> 'b object \<Rightarrow> 'b object result" where
  "push_old txid r items ob =
     rbind (o_get ob r) (\<lambda>e.
     let (v, ob1) = add_dirty_version \<lparr>v_updated = True, v_elem = e, v_props = items\<rparr> ob in
     rbind (o_get ob1 v) (\<lambda>e1.
     rbind (set_dirty (set_timestamps (bts e) txid e1)) (\<lambda>e2. Inr (o_set v (unlock e2) ob1))))"

text \<open>A copy of the element as the new version, valid from \<open>txid\<close> to \<open>c\<close>.\<close>

definition push_new :: "xid_t \<Rightarrow> nat \<Rightarrow> vref \<Rightarrow> p_item list \<Rightarrow> 'b object \<Rightarrow> (vref \<times> 'b object) result" where
  "push_new txid c r items ob =
     rbind (o_get ob r) (\<lambda>e.
     let (v, ob1) = add_dirty_version \<lparr>v_updated = True, v_elem = e, v_props = items\<rparr> ob in
     rbind (o_get ob1 v) (\<lambda>e1.
     rbind (set_dirty (set_timestamps txid c e1)) (\<lambda>e2. Inr (v, o_set v e2 ob1))))"

text \<open>The version of an inserted object.\<close>

definition push_insert :: "p_item list \<Rightarrow> 'b object \<Rightarrow> (vref \<times> 'b object) result" where
  "push_insert items ob =
     (let (v, ob1) = add_dirty_version \<lparr>v_updated = False, v_elem = o_elem ob, v_props = items\<rparr> ob in
      rbind (o_get ob1 v) (\<lambda>e1. rbind (set_dirty e1) (\<lambda>e2. Inr (v, o_set v e2 ob1))))"

section \<open>Reading\<close>

definition get_valid_node_version :: "xid_t \<Rightarrow> node \<Rightarrow> vref result" where
  "get_valid_node_version x n =
     (if is_locked_by x (o_elem n) then
        (if has_dirty_versions n then find_valid_version x n else Inl Assertion_failed)
      else if \<not> is_locked (o_elem n) then
        (if is_valid_for x (o_elem n) then Inr Main else find_valid_version x n)
      else rbind (find_valid_version x n) (\<lambda>r. rbind (o_get n r) (\<lambda>e.
           if \<not> is_locked e \<or> is_locked_by x e then Inr r else Inl Transaction_abort)))"

definition get_valid_rship_version :: "xid_t \<Rightarrow> rship \<Rightarrow> vref result" where
  "get_valid_rship_version x r =
     (if is_locked_by x (o_elem r) then
        (if has_dirty_versions r then find_valid_version x r else Inl Assertion_failed)
      else if \<not> is_locked (o_elem r) then
        (if is_valid_for x (o_elem r) then Inr Main else find_valid_version x r)
      else rbind (find_valid_version x r) (\<lambda>v. rbind (o_get r v) (\<lambda>e.
           if \<not> is_locked e \<or> is_locked_by x e then Inr v else Inl Transaction_abort)))"

definition touch :: "xid_t \<Rightarrow> 'b object \<Rightarrow> 'b object" where
  "touch x ob = ob\<lparr>o_elem := set_rts x (prepare (o_elem ob))\<rparr>"

definition node_by_id :: "nat \<Rightarrow> offset_t \<Rightarrow> ('q, vref) gact" where
  "node_by_id th i =
     sbind (check_tx_context th) (\<lambda>tx.
     sbind (get_node i) (\<lambda>n.
     sbind (set_node i (touch (xid tx) n)) (\<lambda>_.
     srun (get_valid_node_version (xid tx) (touch (xid tx) n)))))"

definition rship_by_id :: "nat \<Rightarrow> offset_t \<Rightarrow> ('q, vref) gact" where
  "rship_by_id th i =
     sbind (check_tx_context th) (\<lambda>tx.
     sbind (get_rship i) (\<lambda>r.
     sbind (set_rship i (touch (xid tx) r)) (\<lambda>_.
     srun (get_valid_rship_version (xid tx) (touch (xid tx) r)))))"

record node_description =
  ndesc_id :: offset_t
  ndesc_label :: string
  ndesc_props :: "string \<Rightarrow> any_val option"

record rship_description =
  rdesc_id :: offset_t
  rdesc_from :: offset_t
  rdesc_to :: offset_t
  rdesc_label :: string
  rdesc_props :: "string \<Rightarrow> any_val option"

text \<open>Label and properties from the tables, or from the valid version in the dirty list.\<close>

definition node_data_table :: "node_body \<Rightarrow> ('q, string \<times> (string \<Rightarrow> any_val option)) gact" where
  "node_data_table b =
     slift (\<lambda>g. rbind (pl_all_properties (g_nprops g) (nd_property_list b) (g_dict g)) (\<lambda>ps.
                rbind (dict_lookup_code (nd_label b) (g_dict g)) (\<lambda>l. Inr (l, ps))))"

definition node_data_version :: "xid_t \<Rightarrow> node \<Rightarrow> ('q, string \<times> (string \<Rightarrow> any_val option)) gact" where
  "node_data_version x n =
     slift (\<lambda>g. rbind (find_valid_version x n) (\<lambda>r.
                rbind (o_version n r) (\<lambda>v.
                rbind (pl_properties_from_pitems (v_props v) (g_dict g)) (\<lambda>ps.
                rbind (dict_lookup_code (nd_label (body (v_elem v))) (g_dict g)) (\<lambda>l. Inr (l, ps))))))"

definition get_node_description :: "nat \<Rightarrow> offset_t \<Rightarrow> ('q, node_description) gact" where
  "get_node_description th i =
     sbind (node_by_id th i) (\<lambda>r.
     sbind (check_tx_context th) (\<lambda>tx.
     sbind (get_node i) (\<lambda>n.
     sbind (srun (o_get n r)) (\<lambda>e.
     sbind (if \<not> has_dirty_versions n then node_data_table (body e)
            else if \<not> is_dirty e \<and> is_valid_for (xid tx) e then
              (if cts e = INF_TS then node_data_table (body e) else node_data_version (xid tx) n)
            else node_data_version (xid tx) n) (\<lambda>(l, ps).
     sret \<lparr>ndesc_id = nd_id (body e), ndesc_label = l, ndesc_props = ps\<rparr>)))))"

definition rship_data_table :: "rship_body \<Rightarrow> ('q, string \<times> (string \<Rightarrow> any_val option)) gact" where
  "rship_data_table b =
     slift (\<lambda>g. rbind (pl_all_properties (g_rprops g) (rs_property_list b) (g_dict g)) (\<lambda>ps.
                rbind (dict_lookup_code (rs_label b) (g_dict g)) (\<lambda>l. Inr (l, ps))))"

definition rship_data_version :: "xid_t \<Rightarrow> rship \<Rightarrow> ('q, string \<times> (string \<Rightarrow> any_val option)) gact" where
  "rship_data_version x r =
     slift (\<lambda>g. rbind (find_valid_version x r) (\<lambda>q.
                rbind (o_version r q) (\<lambda>v.
                rbind (pl_properties_from_pitems (v_props v) (g_dict g)) (\<lambda>ps.
                rbind (dict_lookup_code (rs_label (body (v_elem v))) (g_dict g)) (\<lambda>l. Inr (l, ps))))))"

definition get_rship_description :: "nat \<Rightarrow> offset_t \<Rightarrow> ('q, rship_description) gact" where
  "get_rship_description th i =
     sbind (rship_by_id th i) (\<lambda>q.
     sbind (check_tx_context th) (\<lambda>tx.
     sbind (get_rship i) (\<lambda>r.
     sbind (srun (o_get r q)) (\<lambda>e.
     sbind (if \<not> has_dirty_versions r then rship_data_table (body e)
            else if \<not> is_dirty e \<and> is_valid_for (xid tx) e then rship_data_table (body e)
            else rship_data_version (xid tx) r) (\<lambda>(l, ps).
     sret \<lparr>rdesc_id = rs_id (body e), rdesc_from = rs_src_node (body e), rdesc_to = rs_dest_node (body e),
           rdesc_label = l, rdesc_props = ps\<rparr>)))))"

definition get_relationship_label :: "rship_body \<Rightarrow> ('q, string) gact" where
  "get_relationship_label b = slift (\<lambda>g. dict_lookup_code (rs_label b) (g_dict g))"

definition get_string :: "dcode_t \<Rightarrow> ('q, string) gact" where
  "get_string c = slift (\<lambda>g. dict_lookup_code c (g_dict g))"

definition get_code :: "hash \<Rightarrow> string \<Rightarrow> ('q, dcode_t) gact" where
  "get_code h s = slift (\<lambda>g. Inr (dict_lookup_string h s (g_dict g)))"

definition get_node_property_value :: "node_body \<Rightarrow> dcode_t \<Rightarrow> ('q, p_item) gact" where
  "get_node_property_value b c = slift (\<lambda>g. pl_property_value (g_nprops g) (nd_property_list b) c)"

definition get_node_property_named :: "hash \<Rightarrow> node_body \<Rightarrow> string \<Rightarrow> ('q, p_item) gact" where
  "get_node_property_named h b k = sbind (get_code h k) (get_node_property_value b)"

definition get_rship_property_value :: "rship_body \<Rightarrow> dcode_t \<Rightarrow> ('q, p_item) gact" where
  "get_rship_property_value b c = slift (\<lambda>g. pl_property_value (g_rprops g) (rs_property_list b) c)"

definition get_rship_property_named :: "hash \<Rightarrow> rship_body \<Rightarrow> string \<Rightarrow> ('q, p_item) gact" where
  "get_rship_property_named h b k = sbind (get_code h k) (get_rship_property_value b)"

section \<open>Adding and updating\<close>

definition label_code :: "hash \<Rightarrow> string \<Rightarrow> ('q, dcode_t) gact" where
  "label_code h label = sbind (get_code h label) (\<lambda>c. if c = 0 then dict_act (dict_insert h label) else sret c)"

definition put_new_node :: "bool \<Rightarrow> node \<Rightarrow> xid_t \<Rightarrow> ('q, offset_t) gact" where
  "put_new_node append_only n owner g =
     (case (if append_only then nl_append n owner (g_nodes g) else nl_insert n owner (g_nodes g)) of
        Inl e \<Rightarrow> (Inl e, g) | Inr (v, i) \<Rightarrow> (Inr i, g\<lparr>g_nodes := v\<rparr>))"

definition put_new_rship :: "bool \<Rightarrow> rship \<Rightarrow> xid_t \<Rightarrow> ('q, offset_t) gact" where
  "put_new_rship append_only r owner g =
     (case (if append_only then rl_append r owner (g_rships g) else rl_insert r owner (g_rships g)) of
        Inl e \<Rightarrow> (Inl e, g) | Inr (v, i) \<Rightarrow> (Inr i, g\<lparr>g_rships := v\<rparr>))"

definition add_node :: "conv \<Rightarrow> hash \<Rightarrow> nat \<Rightarrow> string \<Rightarrow> properties_t \<Rightarrow> bool \<Rightarrow> ('q, offset_t) gact" where
  "add_node cv h th label props append_only =
     sbind (check_tx_context th) (\<lambda>tx.
     sbind (label_code h label) (\<lambda>c.
     sbind (put_new_node append_only (node_new c) (xid tx)) (\<lambda>i.
     sbind (get_node i) (\<lambda>_.
     sbind (build_items cv h props) (\<lambda>items.
     sbind (get_node i) (\<lambda>n.
     sbind (srun (push_insert items n)) (\<lambda>(_, n').
     sbind (set_node i n') (\<lambda>_.
     sbind (modify_tx th (add_dirty_node i)) (\<lambda>_. sret i)))))))))"

definition node_acquire :: "xid_t \<Rightarrow> offset_t \<Rightarrow> vref \<Rightarrow> ('q, unit) gact" where
  "node_acquire txid i r =
     sbind (get_node i) (\<lambda>n.
     sbind (srun (rbind (o_get n r) (acquire txid))) (\<lambda>e. set_node i (o_set r e n)))"

definition rship_acquire :: "xid_t \<Rightarrow> offset_t \<Rightarrow> vref \<Rightarrow> ('q, unit) gact" where
  "rship_acquire txid i q =
     sbind (get_rship i) (\<lambda>r.
     sbind (srun (rbind (o_get r q) (acquire txid))) (\<lambda>e. set_rship i (o_set q e r)))"

text \<open>Writing the property list or the body of a version through a reference to it.\<close>

definition put_node_props :: "offset_t \<Rightarrow> vref \<Rightarrow> p_item list \<Rightarrow> ('q, unit) gact" where
  "put_node_props i r items =
     sbind (get_node i) (\<lambda>n.
     sbind (srun (o_version n r)) (\<lambda>v. set_node i (o_set_version r (v\<lparr>v_props := items\<rparr>) n)))"

definition put_rship_props :: "offset_t \<Rightarrow> vref \<Rightarrow> p_item list \<Rightarrow> ('q, unit) gact" where
  "put_rship_props i q items =
     sbind (get_rship i) (\<lambda>r.
     sbind (srun (o_version r q)) (\<lambda>v. set_rship i (o_set_version q (v\<lparr>v_props := items\<rparr>) r)))"

definition upd_node_body :: "offset_t \<Rightarrow> vref \<Rightarrow> (node_body \<Rightarrow> node_body) \<Rightarrow> ('q, unit) gact" where
  "upd_node_body i r f =
     sbind (get_node i) (\<lambda>n.
     sbind (srun (o_get n r)) (\<lambda>e. set_node i (o_set r (e\<lparr>body := f (body e)\<rparr>) n)))"

definition upd_rship_body :: "offset_t \<Rightarrow> vref \<Rightarrow> (rship_body \<Rightarrow> rship_body) \<Rightarrow> ('q, unit) gact" where
  "upd_rship_body i q f =
     sbind (get_rship i) (\<lambda>r.
     sbind (srun (o_get r q)) (\<lambda>e. set_rship i (o_set q (e\<lparr>body := f (body e)\<rparr>) r)))"

text \<open>The property items of the table that belong to an element.\<close>

definition node_items :: "offset_t \<Rightarrow> vref \<Rightarrow> ('q, p_item list) gact" where
  "node_items i r =
     sbind (get_node i) (\<lambda>n.
     sbind (srun (o_get n r)) (\<lambda>e. slift (\<lambda>g. pl_build_dirty (g_nprops g) (nd_property_list (body e)))))"

definition rship_items :: "offset_t \<Rightarrow> vref \<Rightarrow> ('q, p_item list) gact" where
  "rship_items i q =
     sbind (get_rship i) (\<lambda>r.
     sbind (srun (o_get r q)) (\<lambda>e. slift (\<lambda>g. pl_build_dirty (g_rprops g) (rs_property_list (body e)))))"

definition node_push_old :: "xid_t \<Rightarrow> offset_t \<Rightarrow> vref \<Rightarrow> p_item list \<Rightarrow> ('q, unit) gact" where
  "node_push_old txid i r items = sbind (get_node i) (\<lambda>n. sbind (srun (push_old txid r items n)) (set_node i))"

definition node_push_new :: "xid_t \<Rightarrow> nat \<Rightarrow> offset_t \<Rightarrow> vref \<Rightarrow> p_item list \<Rightarrow> ('q, vref) gact" where
  "node_push_new txid c i r items =
     sbind (get_node i) (\<lambda>n. sbind (srun (push_new txid c r items n)) (\<lambda>(v, n'). sbind (set_node i n') (\<lambda>_. sret v)))"

definition rship_push_old :: "xid_t \<Rightarrow> offset_t \<Rightarrow> vref \<Rightarrow> p_item list \<Rightarrow> ('q, unit) gact" where
  "rship_push_old txid i q items = sbind (get_rship i) (\<lambda>r. sbind (srun (push_old txid q items r)) (set_rship i))"

definition rship_push_new :: "xid_t \<Rightarrow> nat \<Rightarrow> offset_t \<Rightarrow> vref \<Rightarrow> p_item list \<Rightarrow> ('q, vref) gact" where
  "rship_push_new txid c i q items =
     sbind (get_rship i) (\<lambda>r. sbind (srun (push_new txid c q items r)) (\<lambda>(v, r'). sbind (set_rship i r') (\<lambda>_. sret v)))"

definition node_elem_id :: "offset_t \<Rightarrow> vref \<Rightarrow> ('q, offset_t) gact" where
  "node_elem_id i r = sbind (get_node i) (\<lambda>n. sbind (srun (o_get n r)) (\<lambda>e. sret (nd_id (body e))))"

definition rship_elem_id :: "offset_t \<Rightarrow> vref \<Rightarrow> ('q, offset_t) gact" where
  "rship_elem_id i q = sbind (get_rship i) (\<lambda>r. sbind (srun (o_get r q)) (\<lambda>e. sret (rs_id (body e))))"

text \<open>The version this transaction has already created, if any: \<open>get_dirty_version\<close> with \<open>unknown_id\<close> caught.\<close>

definition own_node_version :: "xid_t \<Rightarrow> offset_t \<Rightarrow> ('q, vref option) gact" where
  "own_node_version txid i =
     sbind (get_node i) (\<lambda>n. case get_dirty_version txid n of Inl Unknown_id \<Rightarrow> sret None | Inl e \<Rightarrow> sthrow e | Inr v \<Rightarrow> sret (Some v))"

definition own_rship_version :: "xid_t \<Rightarrow> offset_t \<Rightarrow> ('q, vref option) gact" where
  "own_rship_version txid i =
     sbind (get_rship i) (\<lambda>r. case get_dirty_version txid r of Inl Unknown_id \<Rightarrow> sret None | Inl e \<Rightarrow> sthrow e | Inr v \<Rightarrow> sret (Some v))"

definition set_label :: "dcode_t \<Rightarrow> node_body \<Rightarrow> node_body" where
  "set_label lc b = (if 0 < lc then b\<lparr>nd_label := lc\<rparr> else b)"

definition set_rlabel :: "dcode_t \<Rightarrow> rship_body \<Rightarrow> rship_body" where
  "set_rlabel lc b = (if 0 < lc then b\<lparr>rs_label := lc\<rparr> else b)"

definition update_node :: "conv \<Rightarrow> hash \<Rightarrow> nat \<Rightarrow> offset_t \<Rightarrow> vref \<Rightarrow> properties_t \<Rightarrow> string \<Rightarrow> ('q, unit) gact" where
  "update_node cv h th i r props label =
     sbind (if label = [] then sret 0 else dict_act (dict_insert h label)) (\<lambda>lc.
     sbind (check_tx_context th) (\<lambda>tx.
     sbind (node_acquire (xid tx) i r) (\<lambda>_.
     sbind (own_node_version (xid tx) i) (\<lambda>own.
     case own of
       Some v \<Rightarrow>
         sbind (get_node i) (\<lambda>n.
         sbind (srun (o_version n v)) (\<lambda>dn.
         sbind (apply_items cv h (put_node_props i v) props (v_props dn) []) (\<lambda>_.
         upd_node_body i v (set_label lc))))
     | None \<Rightarrow>
         sbind (node_items i r) (\<lambda>items.
         sbind (node_push_old (xid tx) i r items) (\<lambda>_.
         sbind (apply_items cv h (\<lambda>_. sret ()) props items []) (\<lambda>items'.
         sbind (node_push_new (xid tx) INF_TS i r items') (\<lambda>v.
         sbind (upd_node_body i v (set_label lc)) (\<lambda>_.
         sbind (node_elem_id i r) (\<lambda>k. modify_tx th (add_dirty_node k))))))))))) "

definition update_relationship :: "conv \<Rightarrow> hash \<Rightarrow> nat \<Rightarrow> offset_t \<Rightarrow> vref \<Rightarrow> properties_t \<Rightarrow> string \<Rightarrow> ('q, unit) gact" where
  "update_relationship cv h th i q props label =
     sbind (if label = [] then sret 0 else dict_act (dict_insert h label)) (\<lambda>lc.
     sbind (check_tx_context th) (\<lambda>tx.
     sbind (rship_acquire (xid tx) i q) (\<lambda>_.
     sbind (own_rship_version (xid tx) i) (\<lambda>own.
     case own of
       Some v \<Rightarrow>
         sbind (get_rship i) (\<lambda>r.
         sbind (srun (o_version r v)) (\<lambda>dr.
         sbind (apply_items cv h (put_rship_props i v) props (v_props dr) []) (\<lambda>_.
         upd_rship_body i v (set_rlabel lc))))
     | None \<Rightarrow>
         sbind (rship_items i q) (\<lambda>items.
         sbind (rship_push_old (xid tx) i q items) (\<lambda>_.
         sbind (apply_items cv h (\<lambda>_. sret ()) props items []) (\<lambda>items'.
         sbind (rship_push_new (xid tx) INF_TS i q items') (\<lambda>v.
         sbind (upd_rship_body i v (set_rlabel lc)) (\<lambda>_.
         sbind (rship_elem_id i q) (\<lambda>k. modify_tx th (add_dirty_relationship k)))))))))))"

text \<open>
  A new relationship becomes the head of the list of its node: the version \<open>v\<close> of the node points to it, and the
  table element of the relationship to the former head.
\<close>

definition link_from :: "offset_t \<Rightarrow> vref \<Rightarrow> offset_t \<Rightarrow> ('q, unit) gact" where
  "link_from i v rid =
     sbind (get_node i) (\<lambda>n.
     sbind (srun (o_get n v)) (\<lambda>e.
     sbind (rship_elem_id rid Main) (\<lambda>k.
     sbind (if nd_from_rships (body e) = UNKNOWN then sret ()
            else upd_rship_body rid Main (\<lambda>b. b\<lparr>rs_next_src := nd_from_rships (body e)\<rparr>)) (\<lambda>_.
     upd_node_body i v (\<lambda>b. b\<lparr>nd_from_rships := k\<rparr>)))))"

definition link_to :: "offset_t \<Rightarrow> vref \<Rightarrow> offset_t \<Rightarrow> ('q, unit) gact" where
  "link_to i v rid =
     sbind (get_node i) (\<lambda>n.
     sbind (srun (o_get n v)) (\<lambda>e.
     sbind (rship_elem_id rid Main) (\<lambda>k.
     sbind (if nd_to_rships (body e) = UNKNOWN then sret ()
            else upd_rship_body rid Main (\<lambda>b. b\<lparr>rs_next_dest := nd_to_rships (body e)\<rparr>)) (\<lambda>_.
     upd_node_body i v (\<lambda>b. b\<lparr>nd_to_rships := k\<rparr>)))))"

definition update_from_node :: "nat \<Rightarrow> xid_t \<Rightarrow> offset_t \<Rightarrow> vref \<Rightarrow> offset_t \<Rightarrow> ('q, unit) gact" where
  "update_from_node th txid i r rid =
     sbind (node_acquire txid i r) (\<lambda>_.
     sbind (own_node_version txid i) (\<lambda>own.
     case own of
       Some v \<Rightarrow> link_from i v rid
     | None \<Rightarrow>
         sbind (node_items i r) (\<lambda>items.
         sbind (node_push_old txid i r items) (\<lambda>_.
         sbind (node_push_new txid INF_TS i r items) (\<lambda>v.
         sbind (link_from i v rid) (\<lambda>_.
         sbind (node_elem_id i r) (\<lambda>k. modify_tx th (add_dirty_node k))))))))"

definition update_to_node :: "nat \<Rightarrow> xid_t \<Rightarrow> offset_t \<Rightarrow> vref \<Rightarrow> offset_t \<Rightarrow> ('q, unit) gact" where
  "update_to_node th txid i r rid =
     sbind (node_acquire txid i r) (\<lambda>_.
     sbind (own_node_version txid i) (\<lambda>own.
     case own of
       Some v \<Rightarrow> link_to i v rid
     | None \<Rightarrow>
         sbind (node_items i r) (\<lambda>items.
         sbind (node_push_old txid i r items) (\<lambda>_.
         sbind (node_push_new txid INF_TS i r items) (\<lambda>v.
         sbind (link_to i v rid) (\<lambda>_.
         sbind (node_elem_id i r) (\<lambda>k. modify_tx th (add_dirty_node k))))))))"

definition add_relationship ::
  "conv \<Rightarrow> hash \<Rightarrow> nat \<Rightarrow> offset_t \<Rightarrow> offset_t \<Rightarrow> string \<Rightarrow> properties_t \<Rightarrow> bool \<Rightarrow> ('q, offset_t) gact" where
  "add_relationship cv h th from_id to_id label props append_only =
     sbind (check_tx_context th) (\<lambda>tx.
     sbind (node_by_id th from_id) (\<lambda>from_node.
     sbind (node_by_id th to_id) (\<lambda>to_node.
     sbind (dict_act (dict_insert h label)) (\<lambda>c.
     sbind (put_new_rship append_only (rship_new c from_id to_id) (xid tx)) (\<lambda>i.
     sbind (get_rship i) (\<lambda>_.
     sbind (build_items cv h props) (\<lambda>items.
     sbind (get_rship i) (\<lambda>r.
     sbind (srun (push_insert items r)) (\<lambda>(_, r').
     sbind (set_rship i r') (\<lambda>_.
     sbind (modify_tx th (add_dirty_relationship i)) (\<lambda>_.
     sbind (update_from_node th (xid tx) from_id from_node i) (\<lambda>_.
     sbind (update_to_node th (xid tx) to_id to_node i) (\<lambda>_. sret i)))))))))))))"

section \<open>Deleting\<close>

text \<open>
  The walks over the relationship lists of a node follow the table elements; the number of relationships
  bounds the walk over a list without a cycle.
\<close>

fun has_valid_rships_from :: "nat \<Rightarrow> (rship_body \<Rightarrow> offset_t) \<Rightarrow> rship cvec \<Rightarrow> xid_t \<Rightarrow> offset_t \<Rightarrow> bool result" where
  "has_valid_rships_from fuel nxt v x i =
     (if i = UNKNOWN then Inr False
      else rbind (table_get v i) (\<lambda>r.
        if is_locked_by x (o_elem r) then
          (if \<not> has_dirty_versions r then Inl Assertion_failed
           else if has_valid_version x r then Inr True
           else case fuel of 0 \<Rightarrow> Inl Diverges | Suc n \<Rightarrow> has_valid_rships_from n nxt v x (nxt (body (o_elem r))))
        else Inr (is_valid_for x (o_elem r))))"

definition has_valid_from_rships :: "node_body \<Rightarrow> xid_t \<Rightarrow> ('q, bool) gact" where
  "has_valid_from_rships b x = slift (\<lambda>g. has_valid_rships_from (capacity (g_rships g)) rs_next_src (g_rships g) x (nd_from_rships b))"

definition has_valid_to_rships :: "node_body \<Rightarrow> xid_t \<Rightarrow> ('q, bool) gact" where
  "has_valid_to_rships b x = slift (\<lambda>g. has_valid_rships_from (capacity (g_rships g)) rs_next_dest (g_rships g) x (nd_to_rships b))"

definition delete_node :: "nat \<Rightarrow> offset_t \<Rightarrow> ('q, unit) gact" where
  "delete_node th i =
     sbind (check_tx_context th) (\<lambda>tx.
     sbind (node_by_id th i) (\<lambda>r.
     sbind (node_acquire (xid tx) i r) (\<lambda>_.
     sbind (get_node i) (\<lambda>n.
     sbind (srun (o_get n r)) (\<lambda>e.
     sbind (if nd_from_rships (body e) \<noteq> UNKNOWN \<or> nd_to_rships (body e) \<noteq> UNKNOWN then
              sbind (has_valid_from_rships (body e) (xid tx)) (\<lambda>f.
              if f then sret True else has_valid_to_rships (body e) (xid tx))
            else sret False) (\<lambda>orphans.
     if orphans then sbind (set_node i (o_set r (unlock e) n)) (\<lambda>_. sthrow Orphaned_relationship)
     else
       sbind (node_items i r) (\<lambda>items.
       sbind (node_push_old (xid tx) i r items) (\<lambda>_.
       sbind (node_push_new (xid tx) (xid tx) i r []) (\<lambda>_.
       sbind (node_elem_id i r) (\<lambda>k. modify_tx th (add_dirty_node k)))))))))))"

definition delete_relationship :: "nat \<Rightarrow> offset_t \<Rightarrow> ('q, unit) gact" where
  "delete_relationship th i =
     sbind (check_tx_context th) (\<lambda>tx.
     sbind (rship_by_id th i) (\<lambda>q.
     sbind (rship_acquire (xid tx) i q) (\<lambda>_.
     sbind (get_rship i) (\<lambda>r.
     sbind (if \<not> has_dirty_versions r then sbind (rship_items i q) (rship_push_old (xid tx) i q) else sret ()) (\<lambda>_.
     sbind (rship_push_new (xid tx) (xid tx) i q []) (\<lambda>_.
     sbind (rship_elem_id i q) (\<lambda>k. modify_tx th (add_dirty_relationship k))))))))"

fun find_rship_from :: "nat \<Rightarrow> rship cvec \<Rightarrow> xid_t \<Rightarrow> offset_t \<Rightarrow> offset_t \<Rightarrow> offset_t option result" where
  "find_rship_from fuel v x dest i =
     (if i = UNKNOWN then Inr None
      else rbind (table_get v i) (\<lambda>r.
        if is_locked_by x (o_elem r) \<and> \<not> has_dirty_versions r then Inl Assertion_failed
        else if (if is_locked_by x (o_elem r) then has_valid_version x r else is_valid_for x (o_elem r)) \<and>
                rs_dest_node (body (o_elem r)) = dest then Inr (Some i)
        else case fuel of 0 \<Rightarrow> Inl Diverges | Suc n \<Rightarrow> find_rship_from n v x dest (rs_next_src (body (o_elem r)))))"

definition delete_relationship_between :: "nat \<Rightarrow> offset_t \<Rightarrow> offset_t \<Rightarrow> ('q, unit) gact" where
  "delete_relationship_between th src dest =
     sbind (check_tx_context th) (\<lambda>tx.
     sbind (node_by_id th src) (\<lambda>r.
     sbind (get_node src) (\<lambda>n.
     sbind (srun (o_get n r)) (\<lambda>e.
     sbind (slift (\<lambda>g. find_rship_from (capacity (g_rships g)) (g_rships g) (xid tx) dest (nd_from_rships (body e)))) (\<lambda>q.
     case q of None \<Rightarrow> sret () | Some i \<Rightarrow> delete_relationship th i)))))"

fun collect_rships_from :: "nat \<Rightarrow> (rship_body \<Rightarrow> offset_t) \<Rightarrow> rship cvec \<Rightarrow> xid_t \<Rightarrow> offset_t \<Rightarrow> offset_t list result" where
  "collect_rships_from fuel nxt v x i =
     (if i = UNKNOWN then Inr []
      else rbind (table_get v i) (\<lambda>r.
        if is_locked_by x (o_elem r) \<and> \<not> has_dirty_versions r then Inl Assertion_failed
        else rbind (case fuel of 0 \<Rightarrow> Inl Diverges | Suc n \<Rightarrow> collect_rships_from n nxt v x (nxt (body (o_elem r)))) (\<lambda>is.
          Inr (if (if is_locked_by x (o_elem r) then has_valid_version x r else is_valid_for x (o_elem r)) then i # is else is))))"

fun delete_rships :: "nat \<Rightarrow> offset_t list \<Rightarrow> ('q, unit) gact" where
  "delete_rships th [] = sret ()"
| "delete_rships th (i # is) = sbind (delete_relationship th i) (\<lambda>_. delete_rships th is)"

definition detach_delete_node :: "nat \<Rightarrow> offset_t \<Rightarrow> ('q, unit) gact" where
  "detach_delete_node th i =
     sbind (check_tx_context th) (\<lambda>tx.
     sbind (node_by_id th i) (\<lambda>r.
     sbind (node_acquire (xid tx) i r) (\<lambda>_.
     sbind (get_node i) (\<lambda>n.
     sbind (srun (o_get n r)) (\<lambda>e.
     sbind (slift (\<lambda>g. collect_rships_from (capacity (g_rships g)) rs_next_src (g_rships g) (xid tx) (nd_from_rships (body e)))) (\<lambda>from_rs.
     sbind (slift (\<lambda>g. collect_rships_from (capacity (g_rships g)) rs_next_dest (g_rships g) (xid tx) (nd_to_rships (body e)))) (\<lambda>to_rs.
     sbind (delete_rships th (from_rs @ to_rs)) (\<lambda>_.
     sbind (get_node i) (\<lambda>n1.
     sbind (if \<not> has_dirty_versions n1 then sbind (node_items i r) (node_push_old (xid tx) i r) else sret ()) (\<lambda>_.
     sbind (node_push_new (xid tx) (xid tx) i r []) (\<lambda>_.
     sbind (node_elem_id i r) (\<lambda>k. modify_tx th (add_dirty_node k)))))))))))))"

declare has_valid_rships_from.simps [simp del] find_rship_from.simps [simp del] collect_rships_from.simps [simp del]

end
