(* ===== verification/Graph_Tx.thy ===== *)
theory Graph_Tx
  imports Graph_Db
begin

text \<open>
  Transactions of the graph store: \<open>begin_transaction\<close>, \<open>commit_transaction\<close>, \<open>abort_transaction\<close> and what they
  call, of \<^verbatim>\<open>src/src/storage/graph_db.cpp\<close>, and the garbage collector of \<^verbatim>\<open>src/src/storage/graph_db_gc.cpp\<close>. Without the
  persistent-memory and paged-file options there is no log, and the callback \<open>UNDO_CB\<close> is null. The transaction id
  is the clock value read by \<open>now2Xid\<close>, an argument of \<open>begin_transaction\<close>. The map \<open>active_tx_\<close> is the list of its
  keys. An operation of the property tables or of an index that throws leaves its table as it was before the call.
\<close>

section \<open>Auxiliary actions\<close>

definition mod_node :: "offset_t \<Rightarrow> (node \<Rightarrow> node result) \<Rightarrow> ('q, unit) gact" where
  "mod_node i f = sbind (get_node i) (\<lambda>n. sbind (srun (f n)) (set_node i))"

definition mod_rship :: "offset_t \<Rightarrow> (rship \<Rightarrow> rship result) \<Rightarrow> ('q, unit) gact" where
  "mod_rship i f = sbind (get_rship i) (\<lambda>r. sbind (srun (f r)) (set_rship i))"

definition on_elem :: "('b elem \<Rightarrow> 'b elem) \<Rightarrow> 'b object \<Rightarrow> 'b object result" where
  "on_elem f ob = Inr (ob\<lparr>o_elem := f (o_elem ob)\<rparr>)"

definition on_body :: "('b \<Rightarrow> 'b) \<Rightarrow> 'b elem \<Rightarrow> 'b elem" where
  "on_body f e = e\<lparr>body := f (body e)\<rparr>"

text \<open>The table of property sets: \<open>f\<close> returns the new table and a position in it.\<close>

definition nprops_act :: "(plist \<Rightarrow> (plist \<times> 'a) result) \<Rightarrow> ('q, 'a) gact" where
  "nprops_act f g = (case f (g_nprops g) of Inl e \<Rightarrow> (Inl e, g) | Inr (v, x) \<Rightarrow> (Inr x, g\<lparr>g_nprops := v\<rparr>))"

definition rprops_act :: "(plist \<Rightarrow> (plist \<times> 'a) result) \<Rightarrow> ('q, 'a) gact" where
  "rprops_act f g = (case f (g_rprops g) of Inl e \<Rightarrow> (Inl e, g) | Inr (v, x) \<Rightarrow> (Inr x, g\<lparr>g_rprops := v\<rparr>))"

definition without_result :: "(plist \<Rightarrow> plist result) \<Rightarrow> plist \<Rightarrow> (plist \<times> unit) result" where
  "without_result f v = rbind (f v) (\<lambda>v'. Inr (v', ()))"

text \<open>Maintenance of the index an object belongs to, if there is one.\<close>

definition with_index :: "dcode_t \<Rightarrow> p_item list \<Rightarrow> (string \<times> nat \<Rightarrow> index_map \<Rightarrow> index_map result) \<Rightarrow> ('q, unit) gact" where
  "with_index label props f =
     sbind (slift (\<lambda>g. get_index_of label props (g_dict g) (g_index g))) (\<lambda>idx.
     case idx of None \<Rightarrow> sret ()
     | Some ix \<Rightarrow> supd (\<lambda>g. rbind (f ix (g_index g)) (\<lambda>m. Inr (g\<lparr>g_index := m\<rparr>))))"

definition pop_front :: "'b object \<Rightarrow> 'b object" where
  "pop_front ob = ob\<lparr>o_list := Some (tl (versions ob))\<rparr>"

text \<open>\<open>front()\<close> of an empty list is undefined.\<close>

definition unlock_front :: "'b object \<Rightarrow> 'b object result" where
  "unlock_front ob =
     (case versions ob of [] \<Rightarrow> Inl Undefined_behaviour
      | v # vs \<Rightarrow> Inr (ob\<lparr>o_list := Some (v\<lparr>v_elem := unlock (v_elem v)\<rparr> # vs)\<rparr>))"

definition drop_new :: "'b object \<Rightarrow> 'b object result" where
  "drop_new ob = unlock_front (pop_front ob)"

definition push_garbage :: "gc_item \<Rightarrow> ('q, unit) gact" where
  "push_garbage it g = (Inr (), g\<lparr>g_garbage := g_garbage g @ [it]\<rparr>)"

section \<open>Commit of one object\<close>

definition copy_node_properties :: "offset_t \<Rightarrow> node_body version \<Rightarrow> ('q, unit) gact" where
  "copy_node_properties i dn =
     (if v_props dn = [] then sret ()
      else sbind (get_node i) (\<lambda>n.
        let b = body (o_elem n) in
        sbind (if v_updated dn
               then sbind (slift (\<lambda>g. pl_foreach_property_set (g_nprops g) (nd_property_list b))) (\<lambda>_.
                    nprops_act (pl_update_pitems (nd_id b) (nd_property_list b) (v_props dn)))
               else nprops_act (pl_add_pitems (nd_id b) (v_props dn))) (\<lambda>pid.
        upd_node_body i Main (\<lambda>b. b\<lparr>nd_property_list := pid\<rparr>))))"

definition copy_rship_properties :: "offset_t \<Rightarrow> rship_body version \<Rightarrow> ('q, unit) gact" where
  "copy_rship_properties i dr =
     (if v_props dr = [] then sret ()
      else sbind (get_rship i) (\<lambda>r.
        let b = body (o_elem r) in
        sbind (if v_updated dr
               then sbind (slift (\<lambda>g. pl_foreach_property_set (g_rprops g) (rs_property_list b))) (\<lambda>_.
                    rprops_act (pl_update_pitems (rs_id b) (rs_property_list b) (v_props dr)))
               else rprops_act (pl_add_pitems (rs_id b) (v_props dr))) (\<lambda>pid.
        upd_rship_body i Main (\<lambda>b. b\<lparr>rs_property_list := pid\<rparr>))))"

definition take_node_links :: "node_body \<Rightarrow> node_body \<Rightarrow> node_body" where
  "take_node_links d b = b\<lparr>nd_label := nd_label d, nd_from_rships := nd_from_rships d, nd_to_rships := nd_to_rships d\<rparr>"

definition commit_node_insert :: "xid_t \<Rightarrow> offset_t \<Rightarrow> node_body version \<Rightarrow> ('q, unit) gact" where
  "commit_node_insert x i dn =
     (let d = body (v_elem dn) in
      sbind (copy_node_properties i dn) (\<lambda>_.
      sbind (upd_node_body i Main (take_node_links d)) (\<lambda>_.
      sbind (mod_node i (on_elem (set_timestamps x INF_TS))) (\<lambda>_.
      sbind (with_index (nd_label d) (v_props dn) (\<lambda>ix. index_insert ix (nd_id d) (v_props dn))) (\<lambda>_.
      mod_node i (\<lambda>n. Inr (pop_front n)))))))"

definition commit_node_delete :: "xid_t \<Rightarrow> offset_t \<Rightarrow> node_body version \<Rightarrow> ('q, unit) gact" where
  "commit_node_delete x i dn =
     sbind (get_node i) (\<lambda>n.
     let p = nd_property_list (body (o_elem n)) in
     sbind (slift (\<lambda>g. pl_foreach_property_set (g_nprops g) p)) (\<lambda>_.
     sbind (push_garbage \<lparr>gc_txid = x, gc_oid = i, gc_itype = Gc_node\<rparr>) (\<lambda>_.
     sbind (mod_node i (on_elem (set_cts x))) (\<lambda>_.
     sbind (slift (\<lambda>g. pl_build_dirty (g_nprops g) p)) (\<lambda>props.
     sbind (with_index (nd_label (body (v_elem dn))) props (\<lambda>ix. index_delete ix props)) (\<lambda>_.
     sbind (mod_node i drop_new) (\<lambda>_.
     sbind (nprops_act (without_result (\<lambda>v. pl_remove_properties v p))) (\<lambda>_.
     upd_node_body i Main (\<lambda>b. b\<lparr>nd_property_list := UNKNOWN\<rparr>)))))))))"

definition commit_node_update :: "xid_t \<Rightarrow> offset_t \<Rightarrow> node_body version \<Rightarrow> ('q, unit) gact" where
  "commit_node_update x i dn =
     (let d = body (v_elem dn) in
      sbind (upd_node_body i Main (take_node_links d)) (\<lambda>_.
      sbind (mod_node i (on_elem (set_timestamps x INF_TS))) (\<lambda>_.
      sbind (copy_node_properties i dn) (\<lambda>_.
      sbind (get_node i) (\<lambda>n.
      case versions n of
        _ # old # _ \<Rightarrow>
          sbind (with_index (nd_label d) (v_props dn) (\<lambda>ix. index_update ix (nd_id d) (v_props old) (v_props dn))) (\<lambda>_.
          mod_node i drop_new)
      | _ \<Rightarrow> sthrow Assertion_failed)))))"

definition commit_dirty_node :: "xid_t \<Rightarrow> offset_t \<Rightarrow> ('q, unit) gact" where
  "commit_dirty_node x i =
     sbind (get_node i) (\<lambda>n.
     if cts (o_elem n) \<noteq> INF_TS then set_node i (remove_dirty_version 0 n)
     else if \<not> has_dirty_versions n then sthrow Transaction_abort
     else
       let dn = hd (versions n) in
       sbind (if \<not> v_updated dn then commit_node_insert x i dn
              else if bts (v_elem dn) = cts (v_elem dn) then commit_node_delete x i dn
              else commit_node_update x i dn) (\<lambda>_.
       sbind (mod_node i (on_elem unlock)) (\<lambda>_.
       sbind (slift (\<lambda>g. Inr (g_oldest g))) (\<lambda>oldest. mod_node i (gc oldest)))))"

definition commit_rship_insert :: "xid_t \<Rightarrow> offset_t \<Rightarrow> rship_body version \<Rightarrow> ('q, unit) gact" where
  "commit_rship_insert x i dr =
     (let d = body (v_elem dr) in
      sbind (mod_rship i (on_elem (set_timestamps x INF_TS))) (\<lambda>_.
      sbind (copy_rship_properties i dr) (\<lambda>_.
      sbind (with_index (rs_label d) (v_props dr) (\<lambda>ix. index_insert ix (rs_id d) (v_props dr))) (\<lambda>_.
      mod_rship i (\<lambda>r. Inr (pop_front r))))))"

definition commit_rship_delete :: "xid_t \<Rightarrow> offset_t \<Rightarrow> rship_body version \<Rightarrow> ('q, unit) gact" where
  "commit_rship_delete x i dr =
     sbind (get_rship i) (\<lambda>r.
     let p = rs_property_list (body (o_elem r)) in
     sbind (slift (\<lambda>g. pl_foreach_property_set (g_rprops g) p)) (\<lambda>_.
     sbind (push_garbage \<lparr>gc_txid = x, gc_oid = i, gc_itype = Gc_rship\<rparr>) (\<lambda>_.
     sbind (mod_rship i (on_elem (set_cts x))) (\<lambda>_.
     sbind (slift (\<lambda>g. pl_build_dirty (g_rprops g) p)) (\<lambda>props.
     sbind (with_index (rs_label (body (v_elem dr))) props (\<lambda>ix. index_delete ix props)) (\<lambda>_.
     sbind (mod_rship i drop_new) (\<lambda>_.
     rprops_act (without_result (\<lambda>v. pl_remove_properties v p)))))))))"

definition commit_rship_update :: "xid_t \<Rightarrow> offset_t \<Rightarrow> rship_body version \<Rightarrow> ('q, unit) gact" where
  "commit_rship_update x i dr =
     (let d = body (v_elem dr) in
      sbind (mod_rship i (on_elem (set_timestamps x INF_TS))) (\<lambda>_.
      sbind (upd_rship_body i Main (\<lambda>b. b\<lparr>rs_label := rs_label d\<rparr>)) (\<lambda>_.
      sbind (copy_rship_properties i dr) (\<lambda>_.
      sbind (get_rship i) (\<lambda>r.
      case versions r of
        _ # old # _ \<Rightarrow>
          sbind (with_index (rs_label d) (v_props dr) (\<lambda>ix. index_update ix (rs_id d) (v_props old) (v_props dr))) (\<lambda>_.
          mod_rship i drop_new)
      | _ \<Rightarrow> sthrow Assertion_failed)))))"

definition commit_dirty_relationship :: "xid_t \<Rightarrow> offset_t \<Rightarrow> ('q, unit) gact" where
  "commit_dirty_relationship x i =
     sbind (get_rship i) (\<lambda>r.
     if cts (o_elem r) \<noteq> INF_TS then set_rship i (remove_dirty_version 0 r)
     else if \<not> has_dirty_versions r then sthrow Transaction_abort
     else
       let dr = hd (versions r) in
       sbind (if \<not> v_updated dr then commit_rship_insert x i dr
              else if bts (v_elem dr) = cts (v_elem dr) then commit_rship_delete x i dr
              else commit_rship_update x i dr) (\<lambda>_.
       sbind (mod_rship i (on_elem unlock)) (\<lambda>_.
       sbind (slift (\<lambda>g. Inr (g_oldest g))) (\<lambda>oldest. mod_rship i (gc oldest)))))"

section \<open>Garbage collection\<close>

definition remove_node :: "offset_t \<Rightarrow> ('q, unit) gact" where
  "remove_node i = supd (\<lambda>g. rbind (table_remove i (g_nodes g)) (\<lambda>v. Inr (g\<lparr>g_nodes := v\<rparr>)))"

definition remove_rship :: "offset_t \<Rightarrow> ('q, unit) gact" where
  "remove_rship i = supd (\<lambda>g. rbind (table_remove i (g_rships g)) (\<lambda>v. Inr (g\<lparr>g_rships := v\<rparr>)))"

text \<open>The relationship of a list whose next one is \<open>oid\<close>, if any.\<close>

fun prev_rship_from :: "nat \<Rightarrow> (rship_body \<Rightarrow> offset_t) \<Rightarrow> rship cvec \<Rightarrow> offset_t \<Rightarrow> offset_t \<Rightarrow> offset_t option result" where
  "prev_rship_from fuel nxt v oid i =
     (if i = UNKNOWN then Inr None
      else rbind (table_get v i) (\<lambda>p.
        let j = nxt (body (o_elem p)) in
        if j = oid then Inr (Some i)
        else case fuel of 0 \<Rightarrow> Inl Diverges | Suc k \<Rightarrow> prev_rship_from k nxt v oid j))"

definition prev_rship :: "(rship_body \<Rightarrow> offset_t) \<Rightarrow> offset_t \<Rightarrow> offset_t \<Rightarrow> ('q, offset_t option) gact" where
  "prev_rship nxt oid i = slift (\<lambda>g. prev_rship_from (capacity (g_rships g)) nxt (g_rships g) oid i)"

definition unlink_from :: "offset_t \<Rightarrow> rship_body \<Rightarrow> ('q, unit) gact" where
  "unlink_from oid b =
     sbind (get_node (rs_src_node b)) (\<lambda>n.
     let h = nd_from_rships (body (o_elem n)) in
     if h = oid then upd_node_body (rs_src_node b) Main (\<lambda>c. c\<lparr>nd_from_rships := rs_next_src b\<rparr>)
     else sbind (prev_rship rs_next_src oid h) (\<lambda>p.
          case p of None \<Rightarrow> sret () | Some k \<Rightarrow> upd_rship_body k Main (\<lambda>c. c\<lparr>rs_next_src := rs_next_src b\<rparr>)))"

definition unlink_to :: "offset_t \<Rightarrow> rship_body \<Rightarrow> ('q, unit) gact" where
  "unlink_to oid b =
     sbind (get_node (rs_dest_node b)) (\<lambda>n.
     let h = nd_to_rships (body (o_elem n)) in
     if h = oid then upd_node_body (rs_dest_node b) Main (\<lambda>c. c\<lparr>nd_to_rships := rs_next_dest b\<rparr>)
     else sbind (prev_rship rs_next_dest oid h) (\<lambda>p.
          case p of None \<Rightarrow> sret () | Some k \<Rightarrow> upd_rship_body k Main (\<lambda>c. c\<lparr>rs_next_dest := rs_next_dest b\<rparr>)))"

text \<open>One item of the garbage list; the result says whether it was erased.\<close>

definition vacuum_item :: "gc_item \<Rightarrow> ('q, bool) gact" where
  "vacuum_item it =
     sbind (slift (\<lambda>g. Inr (g_oldest g))) (\<lambda>oldest.
     let oid = gc_oid it in
     case gc_itype it of
       Gc_node \<Rightarrow>
         sbind (mod_node oid (gc oldest)) (\<lambda>_.
         sbind (get_node oid) (\<lambda>n.
         if has_dirty_versions n then sret False else sbind (remove_node oid) (\<lambda>_. sret True)))
     | Gc_rship \<Rightarrow>
         sbind (mod_rship oid (gc oldest)) (\<lambda>_.
         sbind (get_rship oid) (\<lambda>r.
         if has_dirty_versions r then sret False
         else
           sbind (unlink_from oid (body (o_elem r))) (\<lambda>_.
           sbind (get_rship oid) (\<lambda>r.
           sbind (unlink_to oid (body (o_elem r))) (\<lambda>_.
           sbind (remove_rship oid) (\<lambda>_. sret True)))))))"

definition set_garbage :: "gc_item list \<Rightarrow> ('q, unit) gact" where
  "set_garbage its g = (Inr (), g\<lparr>g_garbage := its\<rparr>)"

fun vacuum_loop :: "gc_item list \<Rightarrow> gc_item list \<Rightarrow> ('q, unit) gact" where
  "vacuum_loop keep [] = sret ()"
| "vacuum_loop keep (it # its) =
     sbind (vacuum_item it) (\<lambda>erased.
     if erased then sbind (set_garbage (keep @ its)) (\<lambda>_. vacuum_loop keep its)
     else vacuum_loop (keep @ [it]) its)"

definition vacuum :: "('q, unit) gact" where
  "vacuum g = vacuum_loop [] (g_garbage g) g"

section \<open>Transactions\<close>

definition begin_transaction :: "nat \<Rightarrow> xid_t \<Rightarrow> ('q, unit) gact" where
  "begin_transaction th now g =
     (if g_current g th \<noteq> None then (Inl Invalid_nested_transaction, g)
      else (Inr (), g\<lparr>g_current := (g_current g)(th \<mapsto> transaction_new now), g_active := List.insert now (g_active g)\<rparr>))"

definition leave_active :: "xid_t \<Rightarrow> ('q, unit) gact" where
  "leave_active x g =
     (let a = removeAll x (g_active g) in
      (Inr (), g\<lparr>g_active := a, g_oldest := (if a = [] then x else Min (set a))\<rparr>))"

definition clear_current :: "nat \<Rightarrow> ('q, unit) gact" where
  "clear_current th g = (Inr (), g\<lparr>g_current := (g_current g)(th := None)\<rparr>)"

fun for_each :: "('a \<Rightarrow> ('q, unit) gact) \<Rightarrow> 'a list \<Rightarrow> ('q, unit) gact" where
  "for_each f [] = sret ()"
| "for_each f (x # xs) = sbind (f x) (\<lambda>_. for_each f xs)"

definition commit_transaction :: "nat \<Rightarrow> ('q, bool) gact" where
  "commit_transaction th =
     sbind (check_tx_context th) (\<lambda>tx.
     sbind (leave_active (xid tx)) (\<lambda>_.
     sbind (for_each (commit_dirty_relationship (xid tx)) (dirty_rships tx)) (\<lambda>_.
     sbind (for_each (commit_dirty_node (xid tx)) (dirty_nodes tx)) (\<lambda>_.
     sbind (clear_current th) (\<lambda>_.
     sbind vacuum (\<lambda>_. sret True))))))"

definition abort_node :: "xid_t \<Rightarrow> offset_t \<Rightarrow> ('q, unit) gact" where
  "abort_node x i =
     sbind (get_node i) (\<lambda>n.
     sbind (srun (updated_in_version x n)) (\<lambda>was_updated.
     sbind (set_node i (remove_dirty_version x n)) (\<lambda>_.
     sbind (mod_node i (on_elem unlock)) (\<lambda>_.
     if was_updated then sret () else remove_node i))))"

definition abort_rship :: "xid_t \<Rightarrow> offset_t \<Rightarrow> ('q, unit) gact" where
  "abort_rship x i =
     sbind (get_rship i) (\<lambda>r.
     sbind (srun (updated_in_version x r)) (\<lambda>was_updated.
     sbind (set_rship i (remove_dirty_version x r)) (\<lambda>_.
     sbind (mod_rship i (on_elem unlock)) (\<lambda>_.
     if was_updated then sret () else remove_rship i))))"

definition abort_transaction :: "nat \<Rightarrow> ('q, bool) gact" where
  "abort_transaction th g =
     (case g_current g th of
        None \<Rightarrow> (Inr False, g)
      | Some tx \<Rightarrow>
          sbind (leave_active (xid tx)) (\<lambda>_.
          sbind (for_each (abort_node (xid tx)) (dirty_nodes tx)) (\<lambda>_.
          sbind (for_each (abort_rship (xid tx)) (dirty_rships tx)) (\<lambda>_.
          sbind vacuum (\<lambda>_.
          sbind (clear_current th) (\<lambda>_. sret True))))) g)"

definition run_transaction :: "nat \<Rightarrow> xid_t \<Rightarrow> ('q, bool) gact \<Rightarrow> ('q, bool) gact" where
  "run_transaction th now act =
     sbind (begin_transaction th now) (\<lambda>_.
     sbind act (\<lambda>b. if b then commit_transaction th else abort_transaction th))"

section \<open>Search by property\<close>

text \<open>
  The conversion of a double, given by its bit pattern, to an unsigned integer truncates; it is undefined for values
  out of range.
\<close>

definition double_to_u64 :: "64 word \<Rightarrow> 64 word result" where
  "double_to_u64 w =
     (let e = unat (take_bit 11 (drop_bit 52 w)); m = 2 ^ 52 + unat (take_bit 52 w);
          t = (if e < 1023 then 0 else if e < 1075 then m div 2 ^ (1075 - e) else m * 2 ^ (e - 1075))
      in if e = 2047 \<or> 2 ^ 64 \<le> t \<or> bit w 63 \<and> 0 < t then Inl Undefined_behaviour else Inr (of_nat t))"

definition match_value :: "p_item \<Rightarrow> 64 word result" where
  "match_value p =
     (case pi_type p of
        P_int \<Rightarrow> rbind (pi_get_int p) (\<lambda>i. Inr (word_of_int i))
      | P_double \<Rightarrow> rbind (pi_get_double p) double_to_u64
      | P_uint64 \<Rightarrow> pi_get_uint64 p
      | _ \<Rightarrow> Inr 0)"

fun find_node_by_property :: "dcode_t \<Rightarrow> dcode_t \<Rightarrow> 64 word \<Rightarrow> nat list \<Rightarrow> 'q graph_db_scheme \<Rightarrow> offset_t result" where
  "find_node_by_property label c val [] g = Inr UNKNOWN"
| "find_node_by_property label c val (i # is) g =
     rbind (cv_at (g_nodes g) i) (\<lambda>n.
     let e = o_elem n in
     if is_valid e \<and> nd_label (body e) = label then
       rbind (pl_property_value (g_nprops g) (nd_property_list (body e)) c) (\<lambda>p.
       rbind (match_value p) (\<lambda>result.
       if val = result then Inr (nd_id (body e)) else find_node_by_property label c val is g))
     else find_node_by_property label c val is g)"

definition get_node_id_for_property :: "dcode_t \<Rightarrow> dcode_t \<Rightarrow> 64 word \<Rightarrow> ('q, offset_t) gact" where
  "get_node_id_for_property label c val =
     slift (\<lambda>g. find_node_by_property label c val (cv_walk (g_nodes g) (cv_begin (g_nodes g))) g)"

declare prev_rship_from.simps [simp del]

end
