(* ===== verification/Mvto.thy ===== *)
theory Mvto
  imports Graph_Tx
begin

text \<open>
  Correctness of the multiversion protocol on one object: the lock and timestamp test before a change
  (\<open>acquire\<close>), the two versions an update pushes, the version of an insertion, and what commit and abort make of
  them. Everything here is generic in the body of the element, so it holds for nodes and relationships.
\<close>

section \<open>Shape of the version list\<close>

lemma versions_Some [simp]: "versions (ob\<lparr>o_list := Some vs\<rparr>) = vs"
  by (simp add: versions_def)

lemma versions_o_elem [simp]: "versions (ob\<lparr>o_elem := e\<rparr>) = versions ob"
  by (simp add: versions_def)

lemma version_at_front: "versions ob = v # vs \<Longrightarrow> version_at ob (length vs) = Some v"
  by (simp add: version_at_def nth_append)

lemma set_version_front: "versions ob = v # vs \<Longrightarrow> set_version (length vs) w ob = ob\<lparr>o_list := Some (w # vs)\<rparr>"
  by (simp add: set_version_def list_update_append)

lemma vol_prepare [simp]: "vol (prepare e) \<noteq> None"
  by (auto simp: prepare_def)

lemma prepare_eq: "prepare e = e\<lparr>vol := Some (vol e = Some True)\<rparr>"
  by (cases "vol e") (auto simp: prepare_def)

definition old_version :: "xid_t \<Rightarrow> p_item list \<Rightarrow> 'b elem \<Rightarrow> 'b version" where
  "old_version x items e = \<lparr>v_updated = True, v_elem = e\<lparr>txn_id := 0, cts := x, vol := Some True\<rparr>, v_props = items\<rparr>"

definition new_version :: "xid_t \<Rightarrow> nat \<Rightarrow> p_item list \<Rightarrow> 'b elem \<Rightarrow> 'b version" where
  "new_version x c items e = \<lparr>v_updated = True, v_elem = e\<lparr>bts := x, cts := c, vol := Some True\<rparr>, v_props = items\<rparr>"

definition insert_version :: "p_item list \<Rightarrow> 'b elem \<Rightarrow> 'b version" where
  "insert_version items e = \<lparr>v_updated = False, v_elem = e\<lparr>vol := Some True\<rparr>, v_props = items\<rparr>"

definition with_versions :: "'b object \<Rightarrow> 'b version list \<Rightarrow> 'b object" where
  "with_versions ob vs = \<lparr>o_elem = prepare (o_elem ob), o_list = Some vs\<rparr>"

lemma push_old_main: "push_old x Main items ob = Inr (with_versions ob (old_version x items (o_elem ob) # versions ob))"
  by (simp add: push_old_def o_get_def add_dirty_version_def version_at_front set_dirty_def set_timestamps_def prepare_eq o_set_def
      set_version_front unlock_def old_version_def with_versions_def)

lemma push_new_main: "push_new x c Main items ob =
   Inr (Version (length (versions ob)), with_versions ob (new_version x c items (o_elem ob) # versions ob))"
  by (simp add: push_new_def o_get_def add_dirty_version_def version_at_front set_dirty_def set_timestamps_def prepare_eq o_set_def
      set_version_front new_version_def with_versions_def)

lemma push_insert_eq: "push_insert items ob =
   Inr (Version (length (versions ob)), with_versions ob (insert_version items (o_elem ob) # versions ob))"
  by (simp add: push_insert_def o_get_def add_dirty_version_def version_at_front set_dirty_def prepare_eq o_set_def
      set_version_front insert_version_def with_versions_def)

lemma with_versions_simps [simp]:
  "versions (with_versions ob vs) = vs" "o_elem (with_versions ob vs) = prepare (o_elem ob)"
  "with_versions (with_versions ob us) vs = with_versions ob vs"
  by (simp_all add: with_versions_def versions_def prepare_eq)

section \<open>Acquiring an object\<close>

lemma acquire_Inr: "acquire x e = Inr e' \<longleftrightarrow> rts e \<le> x \<and> (txn_id e = 0 \<or> txn_id e = x) \<and> e' = e\<lparr>txn_id := x\<rparr>"
  by (auto simp: acquire_def is_locked_by_def try_lock_def)

lemma acquire_Inl: "acquire x e = Inl err \<longleftrightarrow> err = Transaction_abort \<and> (x < rts e \<or> txn_id e \<noteq> 0 \<and> txn_id e \<noteq> x)"
  by (auto simp: acquire_def is_locked_by_def try_lock_def)

section \<open>Isolation of an update\<close>

lemma readable_old: "readable y (old_version x items e) \<longleftrightarrow> bts e \<le> y \<and> y < x"
  by (auto simp: readable_def old_version_def is_locked_def is_valid_for_def)

lemma deleted_old: "y \<noteq> 0 \<Longrightarrow> \<not> deleted_by y (old_version x items e)"
  by (simp add: deleted_by_def old_version_def is_locked_by_def)

lemma readable_new: "readable y (new_version x c items e) \<longleftrightarrow> (txn_id e = 0 \<or> txn_id e = y) \<and> x \<le> y \<and> y < c"
  by (auto simp: readable_def new_version_def is_locked_def is_locked_by_def is_valid_for_def)

lemma deleted_new: "deleted_by y (new_version x c items e) \<longleftrightarrow> txn_id e = y \<and> \<not> (x \<le> y \<and> y < c) \<and> x = c"
  by (auto simp: deleted_by_def new_version_def is_locked_by_def is_valid_for_def)

text \<open>
  C2. Isolation of an update: when transaction \<open>x\<close> holds the lock of an object and pushes the old and the new version,
  \<open>x\<close> itself reads the new one; every other transaction in the interval of validity before \<open>x\<close> reads the old element with its
  old properties; and for every other timestamp the version list answers as before the update.
\<close>

theorem update_isolated:
  assumes "txn_id (o_elem ob) = x" "0 < x" "x < INF_TS"
  shows "\<exists>ob1 r ob2. push_old x Main items ob = Inr ob1 \<and> push_new x INF_TS Main items' ob1 = Inr (r, ob2) \<and>
     (\<exists>v. snapshot x (versions ob2) = Some v \<and> o_version ob2 r = Inr v \<and> v_props v = items' \<and> body (v_elem v) = body (o_elem ob)) \<and>
     (\<forall>y. y \<noteq> x \<and> 0 < y \<longrightarrow>
        (if bts (o_elem ob) \<le> y \<and> y < x
         then \<exists>v. snapshot y (versions ob2) = Some v \<and> v_props v = items \<and> body (v_elem v) = body (o_elem ob)
         else snapshot y (versions ob2) = snapshot y (versions ob)))"
proof -
  let ?e = "o_elem ob"
  let ?old = "old_version x items ?e" and ?new = "new_version x INF_TS items' (prepare ?e)"
  let ?ob2 = "with_versions ob (?new # ?old # versions ob)"
  have x: "x \<noteq> INF_TS" using assms(3) by simp
  have new: "readable x ?new" "\<And>y. y \<noteq> x \<Longrightarrow> \<not> readable y ?new \<and> \<not> deleted_by y ?new"
    using assms x by (auto simp: readable_new deleted_new prepare_eq)
  have "o_version ?ob2 (Version (length (?old # versions ob))) = Inr ?new"
    unfolding o_version_def by (simp add: version_at_front [of ?ob2 ?new "?old # versions ob", simplified])
  moreover have "body (v_elem ?new) = body ?e" "v_props ?new = items'" "body (v_elem ?old) = body ?e" "v_props ?old = items"
    by (simp_all add: new_version_def old_version_def prepare_eq)
  ultimately show ?thesis
    using new by (auto simp: push_old_main push_new_main readable_old deleted_old)
qed

theorem update_isolated_witness:
  "\<exists>ob1 r ob2. push_old 9 Main [] (object_demo\<lparr>o_elem := (o_elem object_demo)\<lparr>txn_id := 9\<rparr>\<rparr>) = Inr ob1 \<and>
     push_new 9 INF_TS Main [pi_demo 1] ob1 = Inr (r, ob2) \<and> map_option v_props (snapshot 9 (versions ob2)) = Some [pi_demo 1] \<and>
     map_option v_props (snapshot 8 (versions ob2)) = Some []"
proof -
  let ?ob = "object_demo\<lparr>o_elem := (o_elem object_demo)\<lparr>txn_id := 9\<rparr>\<rparr>"
  have "(9::nat) < INF_TS" by (simp add: INF_TS_def)
  from update_isolated [of ?ob 9 "[]" "[pi_demo 1]", OF _ _ this] obtain ob1 r ob2 v where
    o: "push_old 9 Main [] ?ob = Inr ob1" "push_new 9 INF_TS Main [pi_demo 1] ob1 = Inr (r, ob2)"
    "snapshot 9 (versions ob2) = Some v" "v_props v = [pi_demo 1]" and
    y: "\<forall>y. y \<noteq> 9 \<and> 0 < y \<longrightarrow> (if bts (o_elem ?ob) \<le> y \<and> y < 9 then \<exists>v. snapshot y (versions ob2) = Some v \<and> v_props v = [] \<and>
      body (v_elem v) = body (o_elem ?ob) else snapshot y (versions ob2) = snapshot y (versions ?ob))" by auto
  from spec [OF y, of 8] have "map_option v_props (snapshot 8 (versions ob2)) = Some []" by (auto simp: object_demo_def)
  with o show ?thesis by auto
qed

end
