(* ===== verification/Graph_Inv.thy ===== *)
theory Graph_Inv
  imports Mvto
begin

text \<open>
  Well-formedness of the graph store. A calculus for invariants of actions (the locale \<open>action_invariant\<close>, interpreted on
  the invariant of the store) shows that every operation keeps the four tables well-formed, whatever it returns or throws, and
  with the step relation \<open>db_step\<close> that every state the threads can reach from an empty store is well-formed.
\<close>

section \<open>Vectors\<close>

lemma cv_wf_assign: "cv_wf v \<Longrightarrow> cv_wf (cv_assign v i x)"
proof (cases "i div elems_per_chunk v < length (chunk_list v)")
  case True
  let ?k = "i div elems_per_chunk v" and ?p = "i mod elems_per_chunk v"
  let ?c = "chunk_list v ! ?k"
  let ?ch = "?c\<lparr>ch_data := (ch_data ?c)[?p := x]\<rparr>"
  assume wf: "cv_wf v"
  have "chunk_inv (elems_per_chunk v) ?ch" using cv_wf_chunk [OF wf True] by (simp add: chunk_inv_def)
  from cv_wf_update [OF wf this True, of "cv_assign v i x"] show ?thesis by (simp add: cv_assign_def Let_def)
qed (simp add: cv_assign_def Let_def list_update_beyond)

lemma cv_wf_fill_first:
  assumes "cv_wf v" "k < length (chunk_list v)" "cv_fill_first v k idx x = Inr (v', i)"
  shows "cv_wf v'"
proof -
  from assms(3) obtain pos where pos: "chunk_first_available (chunk_list v ! k) = Some pos"
    by (auto simp: cv_fill_first_def split: option.splits)
  note p = chunk_first_available_Some [OF cv_wf_chunk [OF assms(1,2)] pos]
  from cv_fill_wf [OF assms(1,2) p(1,2), of x] assms(3) show ?thesis
    by (auto simp: cv_fill_first_def pos Let_def cv_remove_from_free_list_def split: if_splits)
qed

lemma cv_wf_resize: "cv_wf v \<Longrightarrow> cv_wf (cv_resize d (Suc 0) v) \<and> chunk_list (cv_resize d (Suc 0) v) \<noteq> []"
  using cv_resize_one [of v d] cv_add_chunk_wf [of v d] by simp

lemma cv_wf_store:
  assumes "cv_wf v" "cv_store d v x = Inr (v', i)"
  shows "cv_wf v'"
proof -
  have "\<exists>v2 k idx. cv_fill_first v2 k idx x = Inr (v', i) \<and> cv_wf v2 \<and> k < length (chunk_list v2)"
  proof (cases "free_list v = []")
    case True
    let ?u = "cv_resize d (Suc 0) v"
    obtain idx where "cv_fill_first ?u (length (chunk_list ?u) - Suc 0) idx x = Inr (v', i)"
      using assms(2) True by (auto simp: cv_store_def rbind_eq_Inr_iff Let_def)
    moreover have "length (chunk_list ?u) - Suc 0 < length (chunk_list ?u)" using cv_wf_resize [OF assms(1), of d] by simp
    ultimately show ?thesis using cv_wf_resize [OF assms(1), of d] by blast
  next
    case False
    then obtain idx k where "cv_fill_first v k idx x = Inr (v', i)" "cv_find_chunk v idx = Inr k"
      using assms(2) by (auto simp: cv_store_def rbind_eq_Inr_iff)
    moreover then have "k < length (chunk_list v)" by (auto simp: cv_find_chunk_def Let_def split: if_splits)
    ultimately show ?thesis using assms(1) by blast
  qed
  then show ?thesis by (elim exE conjE) (rule cv_wf_fill_first)
qed

lemma cv_wf_append:
  assumes "cv_wf v" "cv_append d v x = Inr (v', i)"
  shows "cv_wf v'"
proof -
  let ?v1 = "if cv_is_full v then cv_resize d 1 v else v"
  let ?v2 = "if chunk_is_full (last (chunk_list ?v1)) then cv_resize d 1 ?v1 else ?v1"
  let ?k = "length (chunk_list ?v2) - 1"
  have 1: "cv_wf ?v1" using assms(1) cv_wf_resize [OF assms(1)] by simp
  from assms(2) have ne: "chunk_list ?v1 \<noteq> []" by (auto simp: cv_append_def Let_def split: if_splits)
  with 1 have 2: "cv_wf ?v2 \<and> chunk_list ?v2 \<noteq> []" using cv_wf_resize [OF 1] by simp
  from assms(2) ne have f: "cv_fill_first ?v2 ?k (?k * elems_per_chunk ?v2) x = Inr (v', i)"
    unfolding cv_append_def Let_def by (simp only: if_False split: if_split_asm)
  have "?k < length (chunk_list ?v2)" using 2 by (metis diff_less length_greater_0_conv zero_less_one)
  from cv_wf_fill_first [OF _ this f] 2 show ?thesis by blast
qed

lemma cv_wf_erase: "cv_wf v \<Longrightarrow> cv_erase v i = Inr v' \<Longrightarrow> cv_wf v'"
  using cv_erase_spec [of v i] cv_er.erase_out [of v i] by (cases "i < capacity v") auto

lemma cv_wf_put_completed:
  "cv_wf v \<Longrightarrow> put_completed (cv_store d v) f x = Inr (v', i) \<Longrightarrow> cv_wf v'"
  "cv_wf v \<Longrightarrow> put_completed (cv_append d v) f x = Inr (v', i) \<Longrightarrow> cv_wf v'"
  by (auto simp: put_completed_def rbind_eq_Inr_iff intro: cv_wf_store cv_wf_append)

lemma cv_wf_table_remove: "cv_wf v \<Longrightarrow> table_remove i v = Inr v' \<Longrightarrow> cv_wf v'"
  by (auto simp: table_remove_def intro: cv_wf_erase split: if_splits)

lemma cv_wf_add_pitems: "cv_wf v \<Longrightarrow> pl_add_pitems_loop nid next_id pil ps v = Inr (v', i) \<Longrightarrow> cv_wf v'"
proof (induction nid next_id pil ps v rule: pl_add_pitems_loop.induct)
  case (2 nid next_id pil p ps v)
  show ?case
  proof (cases "ps = [] \<or> length (pil @ [p]) = 3")
    case True
    with 2 obtain u j where u: "cv_store ps_blank v (ps_make nid (pil @ [p]) next_id) = Inr (u, j)"
      "pl_add_pitems_loop nid j [] ps u = Inr (v', i)" by (auto simp: Let_def rbind_eq_Inr_iff split: if_splits)
    from 2(1) [OF refl True u(1) refl cv_wf_store [OF 2(3) u(1)] u(2)] show ?thesis .
  qed (use 2 in \<open>auto simp: Let_def\<close>)
qed simp

lemma cv_wf_store_first: "cv_wf v \<Longrightarrow> pl_store_first v x = Inr (v', i) \<Longrightarrow> cv_wf v'"
proof -
  assume wf: "cv_wf v" and st: "pl_store_first v x = Inr (v', i)"
  let ?u = "if cv_is_full v then cv_resize ps_blank 1 v else v"
  have u: "cv_wf ?u" using wf cv_wf_resize [OF wf] by simp
  from st have a: "cv_store_at ?u i x = Inr v'" by (auto simp: pl_store_first_def Let_def rbind_eq_Inr_iff split: if_splits)
  then have "i < capacity ?u" using cv_find_chunk_eq [OF u, of i] by (cases "i < capacity ?u") (simp_all add: cv_store_at_def)
  with a cv_store_at_spec [OF u this, of x] show ?thesis by auto
qed

lemma cv_wf_update_pitems: "cv_wf v \<Longrightarrow> pl_update_loop nid i hid pil ps v = Inr (v', j) \<Longrightarrow> cv_wf v'"
proof (induction nid i hid pil ps v rule: pl_update_loop.induct)
  case (2 nid i hid pil p ps v)
  show ?case
  proof (cases "ps = [] \<or> length (pil @ [p]) = 3")
    case True
    show ?thesis
    proof (cases "i = UNKNOWN")
      case False
      with True 2(5) obtain old where old: "cv_at v i = Inr old" "pl_update_loop nid (ps_next old) hid [] ps
          (cv_assign v i (old\<lparr>ps_items := ps_fill (pil @ [p])\<rparr>)) = Inr (v', j)"
        by (auto simp: Let_def rbind_eq_Inr_iff split: if_splits)
      from 2(1) [OF refl True False old(1) cv_wf_assign [OF 2(4)] old(2)] show ?thesis .
    next
      case i: True
      with True 2(5) obtain u k where u: "pl_store_first v (ps_make nid (pil @ [p]) hid) = Inr (u, k)"
        "pl_update_loop nid i k [] ps u = Inr (v', j)" by (auto simp: Let_def rbind_eq_Inr_iff split: if_splits)
      from 2(2) [OF refl True _ u(1) refl cv_wf_store_first [OF 2(4) u(1)] u(2)] i show ?thesis by simp
    qed
  qed (use 2 in \<open>auto simp: Let_def\<close>)
qed simp

lemma cv_wf_remove_properties: "cv_wf v \<Longrightarrow> pl_remove_loop fuel v i = Inr v' \<Longrightarrow> cv_wf v'"
proof (induction fuel v i rule: pl_remove_loop.induct)
  case (1 fuel v i)
  show ?case
  proof (cases "i = UNKNOWN")
    case True
    with 1 show ?thesis by (simp add: pl_remove_loop.simps)
  next
    case False
    obtain p u n where "cv_at v i = Inr p" "cv_erase v i = Inr u" "fuel = Suc n" "pl_remove_loop n u (ps_next p) = Inr v'"
      using False 1(3) [unfolded pl_remove_loop.simps [of fuel v i]] by (cases fuel) (auto simp: rbind_eq_Inr_iff)
    with 1(1) [OF False _ _ \<open>fuel = Suc n\<close>] cv_wf_erase [OF 1(2)] show ?thesis by blast
  qed
qed

section \<open>Invariants of the operations\<close>

text \<open>
  The contract an invariant of the store has to meet: it survives the primitive changes of the tables and does not depend on the
  dictionary, the indexes, the garbage list and the objects a transaction has noted. Then every operation but those that start and end
  transactions keeps it, proved once for all such invariants; and these too, if it does not depend on the list of active transactions.
\<close>

locale store_changes =
  fixes inv :: "'q graph_db_scheme \<Rightarrow> bool"
  assumes node_assign: "inv g \<Longrightarrow> inv (g\<lparr>g_nodes := cv_assign (g_nodes g) i n\<rparr>)"
    and node_store: "inv g \<Longrightarrow> (if b then nl_append n x (g_nodes g) else nl_insert n x (g_nodes g)) = Inr (v, i) \<Longrightarrow> inv (g\<lparr>g_nodes := v\<rparr>)"
    and node_remove: "inv g \<Longrightarrow> table_remove i (g_nodes g) = Inr v \<Longrightarrow> inv (g\<lparr>g_nodes := v\<rparr>)"
    and rship_assign: "inv g \<Longrightarrow> inv (g\<lparr>g_rships := cv_assign (g_rships g) i r\<rparr>)"
    and rship_store: "inv g \<Longrightarrow> (if b then rl_append r x (g_rships g) else rl_insert r x (g_rships g)) = Inr (w, i) \<Longrightarrow> inv (g\<lparr>g_rships := w\<rparr>)"
    and rship_remove: "inv g \<Longrightarrow> table_remove i (g_rships g) = Inr w \<Longrightarrow> inv (g\<lparr>g_rships := w\<rparr>)"
    and nprops_add: "inv g \<Longrightarrow> pl_add_pitems k ps (g_nprops g) = Inr (p, j) \<Longrightarrow> inv (g\<lparr>g_nprops := p\<rparr>)"
    and nprops_update: "inv g \<Longrightarrow> pl_update_pitems k i ps (g_nprops g) = Inr (p, j) \<Longrightarrow> inv (g\<lparr>g_nprops := p\<rparr>)"
    and nprops_remove: "inv g \<Longrightarrow> pl_remove_properties (g_nprops g) i = Inr p \<Longrightarrow> inv (g\<lparr>g_nprops := p\<rparr>)"
    and rprops_add: "inv g \<Longrightarrow> pl_add_pitems k ps (g_rprops g) = Inr (p, j) \<Longrightarrow> inv (g\<lparr>g_rprops := p\<rparr>)"
    and rprops_update: "inv g \<Longrightarrow> pl_update_pitems k i ps (g_rprops g) = Inr (p, j) \<Longrightarrow> inv (g\<lparr>g_rprops := p\<rparr>)"
    and rprops_remove: "inv g \<Longrightarrow> pl_remove_properties (g_rprops g) i = Inr p \<Longrightarrow> inv (g\<lparr>g_rprops := p\<rparr>)"
    and bookkeeping: "inv g \<Longrightarrow> inv (g\<lparr>g_dict := d\<rparr>)" "inv g \<Longrightarrow> inv (g\<lparr>g_index := m\<rparr>)" "inv g \<Longrightarrow> inv (g\<lparr>g_garbage := gl\<rparr>)"
    and noted: "inv g \<Longrightarrow> inv (g\<lparr>g_current := (g_current g)(th := map_option (add_dirty_node i) (g_current g th))\<rparr>)"
      "inv g \<Longrightarrow> inv (g\<lparr>g_current := (g_current g)(th := map_option (add_dirty_relationship i) (g_current g th))\<rparr>)"
    and ended: "inv g \<Longrightarrow> inv (g\<lparr>g_current := (g_current g)(th := None)\<rparr>)"
begin

definition keeps :: "('q, 'a) gact \<Rightarrow> bool" where
  "keeps m = (\<forall>g. inv g \<longrightarrow> inv (snd (m g)))"

lemma keepsI: "(\<And>g. inv g \<Longrightarrow> inv (snd (m g))) \<Longrightarrow> keeps m"
  by (simp add: keeps_def)

lemma keepsD: "keeps m \<Longrightarrow> inv g \<Longrightarrow> inv (snd (m g))"
  by (simp add: keeps_def)

lemma keeps_pure: "keeps (sret x)" "keeps (sthrow e)" "keeps (slift f)" "keeps (srun r)"
  by (simp_all add: keeps_def srun_def)

lemma keeps_sbind: "keeps m \<Longrightarrow> (\<And>x. keeps (f x)) \<Longrightarrow> keeps (sbind m f)"
  by (auto simp: keeps_def sbind_def split: prod.splits sum.splits)

lemma keeps_if: "keeps m \<Longrightarrow> keeps n \<Longrightarrow> keeps (if b then m else n)"
  by simp

lemma keeps_case_option: "keeps m \<Longrightarrow> (\<And>x. keeps (f x)) \<Longrightarrow> keeps (case q of None \<Rightarrow> m | Some x \<Rightarrow> f x)"
  by (cases q) simp_all

lemma keeps_case_list: "keeps m \<Longrightarrow> (\<And>x xs. keeps (f x xs)) \<Longrightarrow> keeps (case q of [] \<Rightarrow> m | x # xs \<Rightarrow> f x xs)"
  by (cases q) simp_all

lemma keeps_case_prod: "(\<And>x y. keeps (f x y)) \<Longrightarrow> keeps (case q of (x, y) \<Rightarrow> f x y)"
  by (cases q) simp

lemma keeps_case_gc: "keeps m \<Longrightarrow> keeps n \<Longrightarrow> keeps (case q of Gc_node \<Rightarrow> m | Gc_rship \<Rightarrow> n)"
  by (cases q) simp_all

lemma keeps_let: "(\<And>x. keeps (f x)) \<Longrightarrow> keeps (Let y f)"
  by simp

lemma keeps_for_each: "(\<And>x. keeps (f x)) \<Longrightarrow> keeps (for_each f xs)"
  by (induction xs) (simp_all add: keeps_pure keeps_sbind)

lemma keeps_get: "keeps (get_node i)" "keeps (get_rship i)" "keeps (check_tx_context th)"
  by (simp_all add: get_node_def get_rship_def check_tx_context_def keeps_pure)

lemma keeps_set: "keeps (set_node i n)" "keeps (set_rship i r)" "keeps (modify_tx th (add_dirty_node i))" "keeps (modify_tx th (add_dirty_relationship i))"
  "keeps (push_garbage it)" "keeps (set_garbage its)" "keeps (clear_current th)"
  by (simp_all add: keeps_def set_node_def set_rship_def modify_tx_def push_garbage_def set_garbage_def
      clear_current_def Let_def node_assign rship_assign bookkeeping noted ended)

lemma keeps_dict: "keeps (dict_act f)"
  by (auto simp: keeps_def dict_act_def bookkeeping split: sum.splits)

lemma keeps_put_new: "keeps (put_new_node b n x)" "keeps (put_new_rship b r x)"
  using node_store [of _ b n x] rship_store [of _ b r x]
  by (cases b; auto simp: keeps_def put_new_node_def put_new_rship_def split: sum.splits)+

lemma keeps_remove: "keeps (remove_node i)" "keeps (remove_rship i)"
  by (auto simp: keeps_def remove_node_def remove_rship_def supd_def rbind_def node_remove rship_remove split: sum.splits)

lemma keeps_props:
  "keeps (nprops_act (pl_add_pitems k ps))" "keeps (nprops_act (pl_update_pitems k i ps))"
  "keeps (nprops_act (without_result (\<lambda>v. pl_remove_properties v i)))"
  "keeps (rprops_act (pl_add_pitems k ps))" "keeps (rprops_act (pl_update_pitems k i ps))"
  "keeps (rprops_act (without_result (\<lambda>v. pl_remove_properties v i)))"
  by (auto simp: keeps_def nprops_act_def rprops_act_def without_result_def rbind_def split: sum.splits
      intro: nprops_add nprops_update nprops_remove rprops_add rprops_update rprops_remove)

lemma keeps_index: "keeps (supd (\<lambda>g. rbind (f (g_index g)) (\<lambda>m. Inr (g\<lparr>g_index := m\<rparr>))))"
  by (auto simp: keeps_def supd_def rbind_def bookkeeping split: sum.splits)

lemmas keeps_intros = keeps_pure keeps_sbind keeps_if keeps_case_option keeps_case_list keeps_case_prod keeps_case_gc keeps_let
  keeps_for_each keeps_get keeps_set keeps_dict keeps_put_new keeps_remove keeps_props keeps_index

end

context store_changes
begin

lemma keeps_build_items: "keeps (build_items cv h props)"
proof (induction props)
  case (Cons kv props)
  then show ?case by (cases kv) (simp only: build_items.simps, intro keeps_intros)
qed (simp only: build_items.simps, intro keeps_intros)

lemma keeps_apply_items: "(\<And>ps. keeps (put ps)) \<Longrightarrow> keeps (apply_items cv h put props items todo)"
proof (induction props arbitrary: items todo)
  case (Cons kv props)
  obtain k a where kv: "kv = (k, a)" by (cases kv)
  show ?case unfolding kv apply_items.simps by (intro keeps_intros Cons)
qed (simp only: apply_items.simps, intro keeps_intros)

lemma keeps_reads: "keeps (node_by_id th i)" "keeps (rship_by_id th i)" "keeps (node_items i r)" "keeps (rship_items i r)"
  "keeps (node_elem_id i r)" "keeps (rship_elem_id i r)" "keeps (has_valid_from_rships b x)" "keeps (has_valid_to_rships b x)"
  by (simp_all add: node_by_id_def rship_by_id_def node_items_def rship_items_def node_elem_id_def rship_elem_id_def
      has_valid_from_rships_def has_valid_to_rships_def keeps_intros)

lemma keeps_own: "keeps (own_node_version x i)" "keeps (own_rship_version x i)"
  unfolding own_node_version_def own_rship_version_def
  by (auto intro!: keeps_intros split: sum.splits exn.splits)

lemma keeps_writes: "keeps (node_acquire x i r)" "keeps (rship_acquire x i r)" "keeps (put_node_props i r ps)" "keeps (put_rship_props i r ps)"
  "keeps (upd_node_body i r f)" "keeps (upd_rship_body i r f')" "keeps (node_push_old x i r ps)" "keeps (node_push_new x c i r ps)"
  "keeps (rship_push_old x i r ps)" "keeps (rship_push_new x c i r ps)" "keeps (mod_node i fn)" "keeps (mod_rship i fr)"
  unfolding node_acquire_def rship_acquire_def put_node_props_def put_rship_props_def upd_node_body_def upd_rship_body_def
    node_push_old_def node_push_new_def rship_push_old_def rship_push_new_def mod_node_def mod_rship_def
  by (intro keeps_intros)+

lemmas keeps_ops = keeps_intros keeps_build_items keeps_apply_items keeps_reads keeps_own keeps_writes

lemma keeps_link: "keeps (link_from i v k)" "keeps (link_to i v k)" "keeps (update_from_node th x i r k)" "keeps (update_to_node th x i r k)"
  unfolding link_from_def link_to_def update_from_node_def update_to_node_def
  by (intro keeps_ops)+

lemma keeps_add_node: "keeps (add_node cv h th label props b)"
  unfolding add_node_def label_code_def get_code_def by (intro keeps_ops)

lemma keeps_add_relationship: "keeps (add_relationship cv h th i j label props b)"
  unfolding add_relationship_def by (intro keeps_ops keeps_link)

lemma keeps_update: "keeps (update_node cv h th i r props label)" "keeps (update_relationship cv h th i r props label)"
  unfolding update_node_def update_relationship_def by (intro keeps_ops)+

lemma keeps_delete: "keeps (delete_node th i)" "keeps (delete_relationship th i)"
  unfolding delete_node_def delete_relationship_def by (intro keeps_ops)+

lemma keeps_delete_rships: "keeps (delete_rships th is)"
proof (induction "is")
  case (Cons i "is")
  then show ?case unfolding delete_rships.simps by (intro keeps_ops keeps_delete)
qed (simp only: delete_rships.simps, intro keeps_ops)

lemma keeps_delete_more: "keeps (delete_relationship_between th i j)" "keeps (detach_delete_node th i)"
  unfolding delete_relationship_between_def detach_delete_node_def by (intro keeps_ops keeps_delete keeps_delete_rships)+

lemma keeps_with_index: "keeps (with_index label props f)"
  unfolding with_index_def by (intro keeps_intros)

lemma keeps_copy: "keeps (copy_node_properties i dn)" "keeps (copy_rship_properties i dr)"
  unfolding copy_node_properties_def copy_rship_properties_def by (intro keeps_ops)+

lemma keeps_commit_node: "keeps (commit_dirty_node x i)"
  unfolding commit_dirty_node_def commit_node_insert_def commit_node_delete_def commit_node_update_def
  by (intro keeps_ops keeps_with_index keeps_copy)

lemma keeps_commit_rship: "keeps (commit_dirty_relationship x i)"
  unfolding commit_dirty_relationship_def commit_rship_insert_def commit_rship_delete_def commit_rship_update_def
  by (intro keeps_ops keeps_with_index keeps_copy)

lemma keeps_vacuum_item: "keeps (vacuum_item it)"
  unfolding vacuum_item_def unlink_from_def unlink_to_def prev_rship_def by (intro keeps_ops)

lemma keeps_vacuum_loop: "keeps (vacuum_loop ks its)"
proof (induction its arbitrary: ks)
  case (Cons it its)
  then show ?case unfolding vacuum_loop.simps by (intro keeps_ops keeps_vacuum_item)
qed (simp only: vacuum_loop.simps, intro keeps_ops)

lemma keeps_vacuum: "keeps vacuum"
  using keeps_vacuum_loop by (auto simp: keeps_def vacuum_def)

text \<open>What commit and abort do after the transaction has left the list of active ones.\<close>

definition commit_rest :: "nat \<Rightarrow> transaction \<Rightarrow> ('q, bool) gact" where
  "commit_rest th tx = sbind (for_each (commit_dirty_relationship (xid tx)) (dirty_rships tx)) (\<lambda>_.
     sbind (for_each (commit_dirty_node (xid tx)) (dirty_nodes tx)) (\<lambda>_. sbind (clear_current th) (\<lambda>_. sbind vacuum (\<lambda>_. sret True))))"

definition abort_rest :: "nat \<Rightarrow> transaction \<Rightarrow> ('q, bool) gact" where
  "abort_rest th tx = sbind (for_each (abort_node (xid tx)) (dirty_nodes tx)) (\<lambda>_.
     sbind (for_each (abort_rship (xid tx)) (dirty_rships tx)) (\<lambda>_. sbind vacuum (\<lambda>_. sbind (clear_current th) (\<lambda>_. sret True))))"

lemma keeps_commit_rest: "keeps (commit_rest th tx)"
  unfolding commit_rest_def by (intro keeps_ops keeps_commit_node keeps_commit_rship keeps_vacuum)

lemma keeps_abort_rest: "keeps (abort_rest th tx)"
proof -
  have "keeps (abort_node x i)" "keeps (abort_rship x i)" for x i
    unfolding abort_node_def abort_rship_def by (intro keeps_ops)+
  then show ?thesis unfolding abort_rest_def by (intro keeps_ops keeps_vacuum)
qed

lemma commit_kept:
  assumes "inv g" "\<And>tx. g_current g th = Some tx \<Longrightarrow> inv (snd (leave_active (xid tx) g))"
  shows "inv (snd (commit_transaction th g))"
proof (cases "g_current g th")
  case (Some tx)
  then have "commit_transaction th g = commit_rest th tx (snd (leave_active (xid tx) g))"
    by (simp add: commit_transaction_def commit_rest_def check_tx_context_def leave_active_def sbind_def Let_def)
  then show ?thesis using assms(2) [OF Some] keepsD [OF keeps_commit_rest] by simp
qed (use assms(1) in \<open>simp add: commit_transaction_def check_tx_context_def sbind_def\<close>)

lemma abort_kept:
  assumes "inv g" "\<And>tx. g_current g th = Some tx \<Longrightarrow> inv (snd (leave_active (xid tx) g))"
  shows "inv (snd (abort_transaction th g))"
proof (cases "g_current g th")
  case (Some tx)
  then have "abort_transaction th g = abort_rest th tx (snd (leave_active (xid tx) g))"
    by (simp add: abort_transaction_def abort_rest_def leave_active_def sbind_def Let_def)
  then show ?thesis using assms(2) [OF Some] keepsD [OF keeps_abort_rest] by simp
qed (use assms(1) in \<open>simp add: abort_transaction_def\<close>)

end

locale store_invariant = store_changes inv for inv :: "'q graph_db_scheme \<Rightarrow> bool" +
  assumes left: "inv g \<Longrightarrow> inv (g\<lparr>g_active := a, g_oldest := x\<rparr>)" and started: "inv g \<Longrightarrow> inv (g\<lparr>g_current := c, g_active := a\<rparr>)"
begin

lemma keeps_begin: "keeps (begin_transaction th now)"
  by (simp add: keeps_def begin_transaction_def started)

lemma keeps_ends: "keeps (commit_transaction th)" "keeps (abort_transaction th)"
  by (auto intro!: keepsI commit_kept abort_kept simp: leave_active_def Let_def left)

end

section \<open>Well-formed stores\<close>

definition db_wf :: "'q graph_db_scheme \<Rightarrow> bool" where
  "db_wf g = (cv_wf (g_nodes g) \<and> cv_wf (g_rships g) \<and> cv_wf (g_nprops g) \<and> cv_wf (g_rprops g))"

interpretation wf: store_invariant db_wf
proof unfold_locales
  fix g :: "'q graph_db_scheme"
  assume g: "db_wf g"
  show "db_wf (g\<lparr>g_nodes := v\<rparr>)" if "(if b then nl_append n x (g_nodes g) else nl_insert n x (g_nodes g)) = Inr (v, i)" for b n x v i
    using g that by (cases b) (auto simp: db_wf_def nl_append_def nl_insert_def intro: cv_wf_put_completed)
  show "db_wf (g\<lparr>g_rships := w\<rparr>)" if "(if b then rl_append r x (g_rships g) else rl_insert r x (g_rships g)) = Inr (w, i)" for b r x w i
    using g that by (cases b) (auto simp: db_wf_def rl_append_def rl_insert_def intro: cv_wf_put_completed)
  show "db_wf (g\<lparr>g_nprops := p\<rparr>)" if "pl_remove_properties (g_nprops g) i = Inr p" for i p
    using g that by (auto simp: db_wf_def pl_remove_properties_def split: if_splits intro: cv_wf_remove_properties)
  show "db_wf (g\<lparr>g_rprops := p\<rparr>)" if "pl_remove_properties (g_rprops g) i = Inr p" for i p
    using g that by (auto simp: db_wf_def pl_remove_properties_def split: if_splits intro: cv_wf_remove_properties)
qed (auto simp: db_wf_def pl_add_pitems_def pl_update_pitems_def
    intro: cv_wf_assign cv_wf_table_remove cv_wf_add_pitems cv_wf_update_pitems)

text \<open>
  A step of the system: some thread runs one operation of the interface, to its end or to the exception it throws. The clock value of
  \<open>begin_transaction\<close>, the arguments, and the conversions of the environment are arbitrary.
\<close>

inductive db_op :: "graph_db \<Rightarrow> graph_db \<Rightarrow> bool" where
  op_commit: "db_op g (snd (commit_transaction th g))"
| op_abort: "db_op g (snd (abort_transaction th g))"
| op_read_node: "db_op g (snd (node_by_id th i g))"
| op_read_rship: "db_op g (snd (rship_by_id th i g))"
| op_add_node: "db_op g (snd (add_node cv h th label props b g))"
| op_add_rship: "db_op g (snd (add_relationship cv h th i j label props b g))"
| op_update_node: "db_op g (snd (update_node cv h th i r props label g))"
| op_update_rship: "db_op g (snd (update_relationship cv h th i r props label g))"
| op_delete_node: "db_op g (snd (delete_node th i g))"
| op_detach_delete: "db_op g (snd (detach_delete_node th i g))"
| op_delete_rship: "db_op g (snd (delete_relationship th i g))"
| op_delete_between: "db_op g (snd (delete_relationship_between th i j g))"

inductive db_step :: "graph_db \<Rightarrow> graph_db \<Rightarrow> bool" where
  step_begin: "db_step g (snd (begin_transaction th now g))"
| step_op: "db_op g g' \<Longrightarrow> db_step g g'"

inductive_cases db_stepE: "db_step g g'"

text \<open>The constructor of the in-memory store, with the numbers of records per chunk as arguments.\<close>

definition graph_db_new :: "nat \<Rightarrow> nat \<Rightarrow> nat \<Rightarrow> dict \<Rightarrow> graph_db" where
  "graph_db_new nn nr np d =
     \<lparr>g_nodes = cv_empty nn, g_rships = cv_empty nr, g_nprops = cv_empty np, g_rprops = cv_empty np, g_dict = d, g_index = [],
      g_current = (\<lambda>_. None), g_active = [], g_oldest = 0, g_garbage = []\<rparr>"

inductive reachable :: "graph_db \<Rightarrow> graph_db \<Rightarrow> bool" for g0 where
  reach_init: "reachable g0 g0"
| reach_step: "reachable g0 g \<Longrightarrow> db_step g g' \<Longrightarrow> reachable g0 g'"

lemma db_op_wf: "db_op g g' \<Longrightarrow> db_wf g \<Longrightarrow> db_wf g'"
  by (induction rule: db_op.induct)
    (erule wf.keepsD [rotated], rule wf.keeps_ends wf.keeps_reads wf.keeps_add_node wf.keeps_add_relationship wf.keeps_update wf.keeps_delete wf.keeps_delete_more)+

lemma db_step_wf: "db_step g g' \<Longrightarrow> db_wf g \<Longrightarrow> db_wf g'"
  by (induction rule: db_step.induct) (simp add: wf.keepsD [OF wf.keeps_begin], rule db_op_wf)

lemma graph_db_new_wf: "0 < nn \<Longrightarrow> 0 < nr \<Longrightarrow> 0 < np \<Longrightarrow> db_wf (graph_db_new nn nr np d)"
  by (simp add: db_wf_def graph_db_new_def cv_wf_def cv_empty_def)

text \<open>
  C3. Type invariant of the store: whatever operations the threads run on a new store, in any interleaving and including the
  operations that throw, the four tables stay well-formed: slot bitmaps, chunk sizes, capacity and free-slot counts agree.
\<close>

theorem reachable_well_formed:
  assumes "0 < nn" "0 < nr" "0 < np" "reachable (graph_db_new nn nr np d) g"
  shows "db_wf g"
  using assms(4) graph_db_new_wf [OF assms(1-3)] by (induction rule: reachable.induct) (auto intro: db_step_wf)

theorem reachable_well_formed_witness:
  "db_wf (snd (add_node conv_demo length 1 ''Person'' [] False
     (snd (begin_transaction 1 5 (graph_db_new 4 4 4 dict_demo)))))"
  by (rule reachable_well_formed [of 4 4 4 dict_demo, OF _ _ _ reach_step [OF reach_step [OF reach_init step_begin] step_op [OF op_add_node]]]) simp_all

section \<open>The bound of garbage collection\<close>

text \<open>
  Runs of the system with a clock that does not go back: \<open>c\<close> is the last value that a transaction took as its timestamp. All other operations run as before.
\<close>

inductive clocked :: "graph_db \<Rightarrow> xid_t \<Rightarrow> graph_db \<Rightarrow> bool" for g0 where
  clocked_init: "clocked g0 0 g0"
| clocked_begin: "clocked g0 c g \<Longrightarrow> c \<le> now \<Longrightarrow> clocked g0 now (snd (begin_transaction th now g))"
| clocked_op: "clocked g0 c g \<Longrightarrow> db_op g g' \<Longrightarrow> clocked g0 c g'"

definition tx_bounded :: "xid_t \<Rightarrow> 'q graph_db_scheme \<Rightarrow> bool" where
  "tx_bounded c g = (g_oldest g \<le> c \<and> (\<forall>y\<in>set (g_active g). g_oldest g \<le> y \<and> y \<le> c) \<and> (\<forall>th tx. g_current g th = Some tx \<longrightarrow> xid tx \<le> c))"

interpretation bounded: store_changes "tx_bounded c" for c
  by unfold_locales (auto simp: tx_bounded_def add_dirty_node_def add_dirty_relationship_def split: if_splits)

lemma leave_active_bounded:
  assumes "tx_bounded c g" "g_current g th = Some tx"
  shows "tx_bounded c (snd (leave_active (xid tx) g))"
proof -
  let ?a = "removeAll (xid tx) (g_active g)"
  have "Min (set ?a) \<le> y \<and> y \<le> c" if "y \<in> set ?a" for y using that assms(1) by (auto simp: tx_bounded_def intro: Min_le)
  moreover from this have "Min (set ?a) \<le> c" if "?a \<noteq> []" using that by (meson List.finite_set Min_in set_empty)
  moreover have "snd (leave_active (xid tx) g) = g\<lparr>g_active := ?a, g_oldest := (if ?a = [] then xid tx else Min (set ?a))\<rparr>" by (simp add: leave_active_def Let_def)
  ultimately show ?thesis using assms by (cases "?a = []") (simp_all add: tx_bounded_def)
qed

lemma db_op_bounded: "db_op g g' \<Longrightarrow> tx_bounded c g \<Longrightarrow> tx_bounded c g'"
proof (induction rule: db_op.induct)
  case (op_commit g th)
  then show ?case using leave_active_bounded bounded.commit_kept by blast
next
  case (op_abort g th)
  then show ?case using leave_active_bounded bounded.abort_kept by blast
qed (erule bounded.keepsD [rotated], rule bounded.keeps_reads bounded.keeps_add_node bounded.keeps_add_relationship bounded.keeps_update bounded.keeps_delete
    bounded.keeps_delete_more)+

lemma begin_bounded: "tx_bounded c g \<Longrightarrow> c \<le> now \<Longrightarrow> tx_bounded now (snd (begin_transaction th now g))"
  by (fastforce simp: tx_bounded_def begin_transaction_def transaction_new_def)

text \<open>
  C28. The bound of garbage collection is never too high: after any operations of any threads on a new store, including those that throw in the middle of a commit,
  \<open>oldest_xid_\<close> is at most the timestamp of every active transaction, if the clock does not go back.
\<close>

theorem oldest_never_exceeds:
  assumes "clocked (graph_db_new nn nr np d) c g" "y \<in> set (g_active g)"
  shows "g_oldest g \<le> y"
proof -
  have "tx_bounded c g" using assms(1)
  proof (induction rule: clocked.induct)
    case clocked_init
    show ?case by (simp add: tx_bounded_def graph_db_new_def)
  qed (simp_all add: begin_bounded db_op_bounded)
  then show ?thesis using assms(2) by (simp add: tx_bounded_def)
qed

theorem oldest_never_exceeds_witness:
  "let g = snd (commit_transaction 1 (snd (begin_transaction 2 7 (snd (begin_transaction 1 5 (graph_db_new 4 4 4 dict_demo)))))) in
   g_active g = [7] \<and> g_oldest g \<le> 7"
proof -
  let ?g = "snd (commit_transaction 1 (snd (begin_transaction 2 7 (snd (begin_transaction 1 5 (graph_db_new 4 4 4 dict_demo))))))"
  have "clocked (graph_db_new 4 4 4 dict_demo) 7 ?g"
    by (rule clocked_op [OF clocked_begin [OF clocked_begin [OF clocked_init]] op_commit]) simp_all
  moreover have "g_active ?g = [7]"
    by (simp add: begin_transaction_def graph_db_new_def commit_transaction_def check_tx_context_def leave_active_def clear_current_def vacuum_def sbind_def
        transaction_new_def Let_def List.insert_def)
  ultimately show ?thesis using oldest_never_exceeds [of 4 4 4 dict_demo 7 ?g 7] by simp
qed

end
