(* ===== verification/Graph_Run.thy ===== *)
theory Graph_Run
  imports Graph_Inv
begin

text \<open>
  Behaviour of the operations of the graph store: the write-write conflict, what an insertion shows to its own and to
  other transactions, commit and abort, and the cases where the code does not do what it means to.
\<close>

section \<open>Running the primitive actions\<close>

definition holds :: "'a cvec \<Rightarrow> nat \<Rightarrow> 'a \<Rightarrow> bool" where
  "holds v i x = (cv_wf v \<and> cv_view v i = Some x)"

lemma holds_get: "holds v i x \<Longrightarrow> table_get v i = Inr x"
  by (simp add: holds_def table_get_view)

lemma holds_assign: "holds v i x \<Longrightarrow> holds (cv_assign v i y) i y"
  by (simp add: holds_def cv_assign_props)

lemma holds_assign_other: "holds v i x \<Longrightarrow> holds v j z \<Longrightarrow> i \<noteq> j \<Longrightarrow> holds (cv_assign v i y) j z"
  by (simp add: holds_def cv_assign_props)

lemma cv_assign_twice: "cv_assign (cv_assign v i x) i y = cv_assign v i y"
proof (cases "i div elems_per_chunk v < length (chunk_list v)")
  case False
  then show ?thesis by (simp add: cv_assign_def Let_def list_update_beyond)
qed (simp add: cv_assign_def Let_def)

lemma srun_apply [simp]: "srun r s = (r, s)"
  by (simp add: srun_def)

lemma for_each_append: "for_each f (xs @ ys) g = sbind (for_each f xs) (\<lambda>_. for_each f ys) g"
  by (induction xs arbitrary: g) (auto simp: sbind_def sret_def split: sum.splits prod.splits)

text \<open>
  What the property table holds for an object: the items of the property sets that are linked from its \<open>property_list\<close>. A property that is not among them is read as an
  item with all fields zero.
\<close>

definition props_hold :: "plist \<Rightarrow> offset_t \<Rightarrow> p_item list \<Rightarrow> bool" where
  "props_hold v i its \<longleftrightarrow> cv_wf v \<and> (\<exists>r. pl_linked (cv_view v) i r \<and> distinct (map fst r) \<and> its = pl_items r)"

definition p_item_zero :: p_item where
  "p_item_zero = \<lparr>pi_value = 0, pi_key = 0, pi_type = P_none\<rparr>"

lemma pl_property_value_missing:
  assumes "cv_wf v" "pl_linked (cv_view v) i r" "length r \<le> n" "find (\<lambda>it. pi_key it = k) (pl_items r) = None"
  shows "pl_property_value_from n v i k = Inr p_item_zero"
  using assms
proof (induction r arbitrary: i n)
  case Nil
  then show ?case by (subst pl_property_value_from.simps) (simp add: p_item_zero_def)
next
  case (Cons jp r)
  obtain j p where jp: "jp = (j, p)" by (cases jp)
  obtain m where n: "n = Suc m" using Cons.prems(3) by (cases n) auto
  have at: "i = j" "j \<noteq> UNKNOWN" "cv_at v j = Inr p" using Cons.prems(1,2) jp by (simp_all add: cv_rd.at_Inr_iff)
  have none: "find (\<lambda>it. pi_key it = k) (ps_items p) = None" "find (\<lambda>it. pi_key it = k) (pl_items r) = None"
    using Cons.prems(4) jp by (simp_all add: find_append split: option.splits)
  then have "pl_property_value_from m v (ps_next p) k = Inr p_item_zero" using Cons.IH [of "ps_next p" m] Cons.prems jp n by simp
  then show ?case using at n none(1) by (subst pl_property_value_from.simps) simp
qed

lemma props_hold_value:
  assumes "props_hold v i its"
  shows "pl_property_value v i k = Inr (case find (\<lambda>it. pi_key it = k) its of Some it \<Rightarrow> it | None \<Rightarrow> p_item_zero)"
proof -
  obtain r where r: "cv_wf v" "pl_linked (cv_view v) i r" "distinct (map fst r)" "its = pl_items r" using assms by (auto simp: props_hold_def)
  note short = pl_linked_short [OF r(1-3)]
  show ?thesis unfolding pl_property_value_def
    using pl_property_value_missing [OF r(1,2) short, of k] pl_property_value_linked [OF r(1,2) short, of k] r(4)
    by (cases "find (\<lambda>it. pi_key it = k) its") simp_all
qed

lemma get_node_run: "holds (g_nodes g) i n \<Longrightarrow> get_node i g = (Inr n, g)"
  by (simp add: get_node_def holds_get)

lemma get_rship_run: "holds (g_rships g) i r \<Longrightarrow> get_rship i g = (Inr r, g)"
  by (simp add: get_rship_def holds_get)

lemma check_run: "g_current g th = Some tx \<Longrightarrow> check_tx_context th g = (Inr tx, g)"
  by (simp add: check_tx_context_def)

lemma mod_node_run: "holds (g_nodes g) i n \<Longrightarrow> f n = Inr n' \<Longrightarrow> mod_node i f g = (Inr (), g\<lparr>g_nodes := cv_assign (g_nodes g) i n'\<rparr>)"
  by (simp add: mod_node_def sbind_def get_node_run set_node_def)

lemma upd_node_body_run:
  "holds (g_nodes g) i n \<Longrightarrow> o_get n r = Inr e \<Longrightarrow>
   upd_node_body i r f g = (Inr (), g\<lparr>g_nodes := cv_assign (g_nodes g) i (o_set r (e\<lparr>body := f (body e)\<rparr>) n)\<rparr>)"
  by (simp add: upd_node_body_def sbind_def get_node_run set_node_def)

lemma node_acquire_run:
  "holds (g_nodes g) i n \<Longrightarrow> o_get n r = Inr e \<Longrightarrow>
   node_acquire x i r g = (case acquire x e of Inl err \<Rightarrow> (Inl err, g)
     | Inr e' \<Rightarrow> (Inr (), g\<lparr>g_nodes := cv_assign (g_nodes g) i (o_set r e' n)\<rparr>))"
  by (simp add: node_acquire_def sbind_def get_node_run set_node_def split: sum.splits)

lemma rship_acquire_run:
  "holds (g_rships g) i n \<Longrightarrow> o_get n r = Inr e \<Longrightarrow>
   rship_acquire x i r g = (case acquire x e of Inl err \<Rightarrow> (Inl err, g)
     | Inr e' \<Rightarrow> (Inr (), g\<lparr>g_rships := cv_assign (g_rships g) i (o_set r e' n)\<rparr>))"
  by (simp add: rship_acquire_def sbind_def get_rship_run set_rship_def split: sum.splits)

section \<open>Write-write conflicts\<close>

lemma update_label_run:
  "(if label = [] then Inr (g_dict g, 0) else dict_insert h label (g_dict g)) = Inr (d, lc) \<Longrightarrow>
   (if label = [] then sret 0 else dict_act (dict_insert h label)) g = (Inr lc, g\<lparr>g_dict := d\<rparr>)"
  by (cases "label = []") (auto simp: dict_act_def)

text \<open>
  C25. First updater wins: updating a node that another transaction has locked, or that a more recent transaction has read, throws
  \<open>transaction_abort\<close>; the tables, the indexes and the transaction are as before, only the label may be new in the dictionary.
\<close>

theorem update_conflict_aborts:
  assumes "holds (g_nodes g) i n" "o_get n r = Inr e" "g_current g th = Some tx"
    and "xid tx < rts e \<or> txn_id e \<noteq> 0 \<and> txn_id e \<noteq> xid tx"
    and "(if label = [] then Inr (g_dict g, 0) else dict_insert h label (g_dict g)) = Inr (d, lc)"
  shows "update_node cv h th i r props label g = (Inl Transaction_abort, g\<lparr>g_dict := d\<rparr>)"
proof -
  have "acquire (xid tx) e = Inl Transaction_abort" using assms(4) by (simp add: acquire_Inl)
  with assms show ?thesis
    by (simp add: update_node_def sbind_def update_label_run check_run node_acquire_run)
qed

definition node_body_demo :: node_body where
  "node_body_demo = \<lparr>nd_id = 0, nd_from_rships = UNKNOWN, nd_to_rships = UNKNOWN, nd_property_list = UNKNOWN, nd_label = 1\<rparr>"

definition node_elem_demo :: "xid_t \<Rightarrow> nat \<Rightarrow> nat \<Rightarrow> bool \<Rightarrow> node_body elem" where
  "node_elem_demo l b c dirty = \<lparr>txn_id = l, bts = b, cts = c, rts = 0, vol = Some dirty, body = node_body_demo\<rparr>"

definition node_version_demo :: "xid_t \<Rightarrow> nat \<Rightarrow> nat \<Rightarrow> node_body version" where
  "node_version_demo l b c = \<lparr>v_updated = True, v_elem = node_elem_demo l b c True, v_props = []\<rparr>"

text \<open>A store with one node; thread 1 runs transaction 5.\<close>

definition nodes_demo :: "node \<Rightarrow> node cvec" where
  "nodes_demo n = \<lparr>capacity = 2, available_slots = 1, elems_per_chunk = 2,
     chunk_list = [\<lparr>ch_data = [n, node_blank], ch_slots = [True, False], ch_first = 1\<rparr>], free_list = [0]\<rparr>"

definition db_demo :: "node \<Rightarrow> graph_db" where
  "db_demo n = (graph_db_new 2 2 2 dict_demo)\<lparr>g_nodes := nodes_demo n, g_current := (\<lambda>_. None)(1 \<mapsto> transaction_new 5), g_active := [5]\<rparr>"

lemma nodes_demo_inv: "cv_inv (nodes_demo n)"
  by (auto simp: cv_inv_def cv_wf_def fl_ok_def nodes_demo_def chunk_inv_def free_count_def chunk_is_full_def less_Suc_eq
      numeral_2_eq_2)

lemma db_demo_holds: "holds (g_nodes (db_demo n)) 0 n"
  using nodes_demo_inv [of n] by (simp add: holds_def cv_inv_def db_demo_def cv_view_eq) (simp add: nodes_demo_def)

lemma db_demo_simps [simp]: "g_current (db_demo n) 1 = Some (transaction_new 5)" "g_current (db_demo n) (Suc 0) = Some (transaction_new 5)"
  "g_dict (db_demo n) = dict_demo" "xid (transaction_new x) = x"
  by (simp_all add: db_demo_def graph_db_new_def transaction_new_def)

text \<open>The same store when the node has a property: key 4 with the integer 42.\<close>

definition person_node :: node where
  "person_node = \<lparr>o_elem = (node_elem_demo 0 3 INF_TS False)\<lparr>body := node_body_demo\<lparr>nd_property_list := 0\<rparr>\<rparr>, o_list = None\<rparr>"

definition person_items :: "p_item list" where
  "person_items = [\<lparr>pi_value = 42, pi_key = 4, pi_type = P_int\<rparr>, p_item_zero, p_item_zero]"

definition person_props :: plist where
  "person_props = \<lparr>capacity = 2, available_slots = 1, elems_per_chunk = 2,
     chunk_list = [\<lparr>ch_data = [\<lparr>ps_next = UNKNOWN, ps_owner = 0, ps_items = person_items\<rparr>, \<lparr>ps_next = 0, ps_owner = 0, ps_items = []\<rparr>],
       ch_slots = [True, False], ch_first = 1\<rparr>], free_list = [0]\<rparr>"

definition person_demo :: graph_db where
  "person_demo = (db_demo person_node)\<lparr>g_nprops := person_props\<rparr>"

lemma person_props_inv: "cv_inv person_props"
  by (auto simp: cv_inv_def cv_wf_def fl_ok_def person_props_def chunk_inv_def free_count_def chunk_is_full_def less_Suc_eq numeral_2_eq_2)

lemma person_demo_holds: "holds (g_nodes person_demo) 0 person_node" "props_hold (g_nprops person_demo) 0 person_items"
proof -
  show "holds (g_nodes person_demo) 0 person_node" using db_demo_holds by (simp add: person_demo_def)
  have wf: "cv_wf person_props" using person_props_inv by (simp add: cv_inv_def)
  have "pl_linked (cv_view person_props) 0 [(0, \<lparr>ps_next = UNKNOWN, ps_owner = 0, ps_items = person_items\<rparr>)]"
    using wf by (simp add: cv_view_eq) (simp add: person_props_def UNKNOWN_def)
  with wf show "props_hold (g_nprops person_demo) 0 person_items"
    unfolding props_hold_def by (intro conjI exI [of _ "[(0, \<lparr>ps_next = UNKNOWN, ps_owner = 0, ps_items = person_items\<rparr>)]"]) (simp_all add: person_demo_def)
qed

lemma person_demo_simps [simp]: "g_current person_demo = g_current (db_demo person_node)" "g_dict person_demo = dict_demo" "g_index person_demo = []"
  by (simp_all add: person_demo_def) (simp add: db_demo_def graph_db_new_def)

theorem update_conflict_aborts_witness:
  "update_node conv_demo length 1 0 Main [] [] (db_demo \<lparr>o_elem = node_elem_demo 7 3 INF_TS False, o_list = None\<rparr>) =
     (Inl Transaction_abort, db_demo \<lparr>o_elem = node_elem_demo 7 3 INF_TS False, o_list = None\<rparr>)"
  using update_conflict_aborts [OF db_demo_holds, where r = Main and e = "node_elem_demo 7 3 INF_TS False" and tx = "transaction_new 5" and label = "[]" and d = dict_demo and lc = 0]
  by (simp add: o_get_def node_elem_demo_def)

section \<open>Updates through an old version\<close>

lemma apply_items_keeps:
  assumes "\<And>ps g. P g \<Longrightarrow> P (snd (put ps g))" "\<And>d g. P g \<Longrightarrow> P (g\<lparr>g_dict := d\<rparr>)" "P g"
  shows "P (snd (apply_items cv h put props items todo g))"
  using assms(3)
proof (induction props arbitrary: items todo g)
  case Nil
  then show ?case using assms(1) [of g "items @ todo"] by (auto simp: sbind_def split: prod.splits sum.splits)
next
  case (Cons kv props)
  obtain k a where kv: "kv = (k, a)" by (cases kv)
  show ?case
  proof (cases "pi_of_kv cv h k a (g_dict g)")
    case (Inl e)
    then show ?thesis using Cons.prems by (simp add: kv sbind_def dict_act_def)
  next
    case (Inr dp)
    obtain d p where dp: "dp = (d, p)" by (cases dp)
    let ?g = "g\<lparr>g_dict := d\<rparr>"
    have g: "P ?g" using assms(2) Cons.prems by simp
    show ?thesis
    proof (cases "pi_key p \<in> pi_key ` set items")
      case True
      obtain q g' where q: "put (replace_item p items) ?g = (q, g')" by (cases "put (replace_item p items) ?g")
      then have "P g'" using assms(1) [OF g, of "replace_item p items"] by simp
      with Cons.IH [OF this] True q show ?thesis
        by (cases q) (simp_all add: kv sbind_def dict_act_def Inr dp)
    next
      case False
      with Cons.IH [OF g] show ?thesis by (simp add: kv sbind_def dict_act_def Inr dp)
    qed
  qed
qed

lemma o_elem_set_version [simp]: "o_elem (set_version k v ob) = o_elem ob" "o_elem (o_set_version (Version k) v ob) = o_elem ob"
  by (simp_all add: set_version_def o_set_version_def)

lemma o_elem_o_set [simp]: "o_elem (o_set (Version k) e ob) = o_elem ob"
  by (simp add: o_set_def split: option.splits)

text \<open>The table element of node \<open>i\<close> and the transactions are as given.\<close>

definition frozen :: "(nat \<Rightarrow> transaction option) \<Rightarrow> nat \<Rightarrow> node_body elem \<Rightarrow> 'q graph_db_scheme \<Rightarrow> bool" where
  "frozen c i e g = (g_current g = c \<and> (\<exists>n. holds (g_nodes g) i n \<and> o_elem n = e))"

lemma frozen_assign: "frozen c i e g \<Longrightarrow> o_elem n = e \<Longrightarrow> frozen c i e (g\<lparr>g_nodes := cv_assign (g_nodes g) i n\<rparr>)"
  by (auto simp: frozen_def intro: holds_assign)

lemma frozen_put_props: "frozen c i e g \<Longrightarrow> frozen c i e (snd (put_node_props i (Version k) ps g))"
proof -
  assume f: "frozen c i e g"
  then obtain n where n: "holds (g_nodes g) i n" "o_elem n = e" by (auto simp: frozen_def)
  show ?thesis using n f
    by (auto simp: put_node_props_def sbind_def get_node_run [OF n(1)] set_node_def o_version_def intro!: frozen_assign split: option.splits)
qed

lemma frozen_upd_body: "frozen c i e g \<Longrightarrow> frozen c i e (snd (upd_node_body i (Version k) f g))"
proof -
  assume f: "frozen c i e g"
  then obtain n where n: "holds (g_nodes g) i n" "o_elem n = e" by (auto simp: frozen_def)
  show ?thesis using n f
    by (auto simp: upd_node_body_def sbind_def get_node_run [OF n(1)] set_node_def o_get_def intro!: frozen_assign split: option.splits)
qed

lemma dirty_pos_ex: "v \<in> set vs \<Longrightarrow> txn_id (v_elem v) = x \<Longrightarrow> \<exists>j. dirty_pos x i vs = Some j"
  by (induction vs arbitrary: i) auto

text \<open>
  An update through an old version is lost: when the version a transaction has read is not the table element but an entry of the
  version list, \<open>update_node\<close> locks that entry, takes it for the version the transaction has created before, and changes it in
  place. Neither the transaction records the node as dirty nor does the table element change, so no commit installs the update.
\<close>

theorem update_old_version_lost:
  assumes "holds (g_nodes g) i n" "version_at n k = Some v" "vol (o_elem n) \<noteq> None" "g_current g th = Some tx"
    and "rts (v_elem v) \<le> xid tx" "txn_id (v_elem v) = 0"
  shows "\<exists>n'. g_current (snd (update_node cv h th i (Version k) props [] g)) = g_current g \<and>
     holds (g_nodes (snd (update_node cv h th i (Version k) props [] g))) i n' \<and> o_elem n' = o_elem n"
proof -
  let ?x = "xid tx" and ?e = "v_elem v"
  let ?e' = "?e\<lparr>txn_id := ?x\<rparr>"
  let ?n = "o_set (Version k) ?e' n"
  let ?g = "g\<lparr>g_nodes := cv_assign (g_nodes g) i ?n\<rparr>"
  have acq: "node_acquire ?x i (Version k) g = (Inr (), ?g)"
    using assms acquire_Inr [of ?x ?e ?e'] by (simp add: node_acquire_run [where e = ?e] o_get_def)
  have k: "k < length (versions n)" using assms(2) by (auto simp: version_at_def split: if_splits)
  have h: "holds (g_nodes ?g) i ?n" using holds_assign [OF assms(1)] by simp
  have vs: "versions ?n = rev ((rev (versions n))[k := v\<lparr>v_elem := ?e'\<rparr>])"
    using assms(2) by (simp add: o_set_def set_version_def)
  have "v\<lparr>v_elem := ?e'\<rparr> \<in> set (versions ?n)" unfolding vs using k by (simp add: set_update_memI)
  with dirty_pos_ex [of _ "versions ?n" ?x 0] obtain j where j: "dirty_pos ?x 0 (versions ?n) = Some j" by fastforce
  have d: "has_dirty_versions ?n" using assms(3) vs k by (auto simp: has_dirty_versions_def)
  obtain l where l: "get_dirty_version ?x ?n = Inr (Version l)"
    using j d by (simp add: get_dirty_version_def version_ref_def)
  have fz: "frozen (g_current g) i (o_elem n) ?g" using h by (auto simp: frozen_def)
  have upd: "update_node cv h th i (Version k) props [] g =
     (case o_version ?n (Version l) of Inl e \<Rightarrow> (Inl e, ?g)
      | Inr dn \<Rightarrow> sbind (apply_items cv h (put_node_props i (Version l)) props (v_props dn) []) (\<lambda>_. upd_node_body i (Version l) (set_label 0)) ?g)"
    using assms(4) h by (simp add: update_node_def sbind_def check_run acq own_node_version_def get_node_run l split: sum.splits)
  have "frozen (g_current g) i (o_elem n) (snd (update_node cv h th i (Version k) props [] g))"
  proof (cases "o_version ?n (Version l)")
    case (Inr dn)
    have "frozen (g_current g) i (o_elem n) (snd (apply_items cv h (put_node_props i (Version l)) props (v_props dn) [] ?g))"
      by (rule apply_items_keeps [OF frozen_put_props _ fz]) (auto simp: frozen_def)
    then show ?thesis unfolding upd Inr by (auto simp: sbind_def split: prod.splits sum.splits dest: frozen_upd_body)
  qed (simp add: upd fz)
  then show ?thesis by (auto simp: frozen_def)
qed

theorem update_old_version_lost_witness:
  "\<exists>n'. let n = \<lparr>o_elem = node_elem_demo 0 7 INF_TS False, o_list = Some [node_version_demo 0 3 7]\<rparr>;
            g' = snd (update_node conv_demo length 1 0 (Version 0) [(''age'', Any_int 5)] [] (db_demo n))
        in g_current g' = g_current (db_demo n) \<and> holds (g_nodes g') 0 n' \<and> o_elem n' = node_elem_demo 0 7 INF_TS False"
  unfolding Let_def
  using update_old_version_lost [OF db_demo_holds, of "\<lparr>o_elem = node_elem_demo 0 7 INF_TS False, o_list = Some [node_version_demo 0 3 7]\<rparr>"
      0 "node_version_demo 0 3 7" 1 "transaction_new 5" conv_demo length "[(''age'', Any_int 5)]"]
  by (simp add: version_at_def versions_def node_version_demo_def node_elem_demo_def)

section \<open>Insertion\<close>

lemma cv_append_pos: "cv_append d v x = Inr (v1, i) \<Longrightarrow> \<exists>v2. cv_append d v y = Inr (v2, i)"
  unfolding cv_append_def Let_def by (auto split: if_splits dest: cv_fill_first_pos [where y = y])

lemma put_completed_append:
  assumes "cv_inv v"
  obtains v' i where "put_completed (cv_append d v) f x = Inr (v', i)" "cv_inv v'" "cv_view v i = None"
    "cv_view v' = (cv_view v)(i \<mapsto> f i x)"
proof -
  from cv_append_spec [OF assms, of d x] obtain v1 i where 1: "cv_append d v x = Inr (v1, i)" by blast
  from cv_append_pos [OF 1] obtain v2 where 2: "cv_append d v (f i x) = Inr (v2, i)" by blast
  from cv_append_spec [OF assms, of d "f i x"] 2 have "cv_inv v2" "cv_view v i = None" "cv_view v2 = (cv_view v)(i \<mapsto> f i x)" by auto
  with that 1 2 show ?thesis by (simp add: put_completed_def)
qed

lemma nl_put_spec:
  assumes "cv_inv v"
  shows "\<exists>v' i. (if b then nl_append n x v else nl_insert n x v) = Inr (v', i) \<and> cv_inv v' \<and> cv_view v i = None \<and>
     cv_view v' = (cv_view v)(i \<mapsto> lock_owner x (node_set_id i n))"
proof (cases b)
  case True
  then show ?thesis using put_completed_append [OF assms, where f = "\<lambda>i n. lock_owner x (node_set_id i n)" and x = n and d = node_blank]
    by (metis nl_append_def)
next
  case False
  then show ?thesis using put_completed_store [OF assms, where f = "\<lambda>i n. lock_owner x (node_set_id i n)" and x = n and d = node_blank]
    by (metis nl_insert_def)
qed

lemma build_items_run: "pl_build_dirty_props cv h props (g_dict g) = Inr (d, items) \<Longrightarrow> build_items cv h props g = (Inr items, g\<lparr>g_dict := d\<rparr>)"
proof (induction props arbitrary: g d items)
  case (Cons kv props)
  obtain k a where kv: "kv = (k, a)" by (cases kv)
  from Cons.prems obtain d1 p ps where p: "pi_of_kv cv h k a (g_dict g) = Inr (d1, p)"
    "pl_build_dirty_props cv h props d1 = Inr (d, ps)" "items = p # ps" by (auto simp: kv rbind_eq_Inr_iff)
  from Cons.IH [of "g\<lparr>g_dict := d1\<rparr>" d ps] p show ?case by (simp add: kv sbind_def dict_act_def)
qed simp

definition label_result :: "hash \<Rightarrow> string \<Rightarrow> dict \<Rightarrow> (dict \<times> dcode_t) result" where
  "label_result h label d =
     (if dict_lookup_string h label d = 0 then dict_insert h label d else Inr (d, dict_lookup_string h label d))"

lemma label_code_run: "label_result h label (g_dict g) = Inr (d, c) \<Longrightarrow> label_code h label g = (Inr c, g\<lparr>g_dict := d\<rparr>)"
  by (auto simp: label_code_def get_code_def label_result_def sbind_def dict_act_def split: if_splits)

text \<open>The node that an insertion by transaction \<open>x\<close> leaves in the table at position \<open>i\<close>.\<close>

definition inserted_elem :: "xid_t \<Rightarrow> nat \<Rightarrow> dcode_t \<Rightarrow> node_body elem" where
  "inserted_elem x i c = \<lparr>txn_id = x, bts = 0, cts = INF_TS, rts = 0, vol = Some False, body = (node_body_new c)\<lparr>nd_id := i\<rparr>\<rparr>"

definition inserted_node :: "xid_t \<Rightarrow> nat \<Rightarrow> dcode_t \<Rightarrow> p_item list \<Rightarrow> node" where
  "inserted_node x i c items = \<lparr>o_elem = inserted_elem x i c, o_list = Some [insert_version items (inserted_elem x i c)]\<rparr>"

lemma lock_owner_new: "x \<noteq> 0 \<Longrightarrow> lock_owner x (node_set_id i (node_new c)) = \<lparr>o_elem = (inserted_elem x i c)\<lparr>vol := None\<rparr>, o_list = None\<rparr>"
  by (simp add: lock_owner_def node_set_id_def node_new_def object_new_def elem_new_def inserted_elem_def lock_takes_over)

lemma push_insert_new: "push_insert items \<lparr>o_elem = (inserted_elem x i c)\<lparr>vol := None\<rparr>, o_list = None\<rparr> = Inr (Version 0, inserted_node x i c items)"
  by (simp add: push_insert_eq with_versions_def versions_def prepare_def inserted_node_def insert_version_def inserted_elem_def)

lemma add_node_spec:
  assumes inv: "cv_inv (g_nodes g)" and tx: "g_current g th = Some tx" "xid tx \<noteq> 0"
    and lab: "label_result h label (g_dict g) = Inr (d1, c)" and items: "pl_build_dirty_props cv h props d1 = Inr (d2, items)"
  shows "\<exists>i v. cv_view (g_nodes g) i = None \<and> cv_inv v \<and> cv_view v = (cv_view (g_nodes g))(i \<mapsto> inserted_node (xid tx) i c items) \<and>
     add_node cv h th label props b g = (Inr i, g\<lparr>g_nodes := v, g_dict := d2, g_current := (g_current g)(th \<mapsto> add_dirty_node i tx)\<rparr>)"
proof -
  let ?x = "xid tx"
  from nl_put_spec [OF inv, of b "node_new c" ?x] obtain u i where
    u: "(if b then nl_append (node_new c) ?x (g_nodes g) else nl_insert (node_new c) ?x (g_nodes g)) = Inr (u, i)" "cv_inv u"
    "cv_view (g_nodes g) i = None" "cv_view u = (cv_view (g_nodes g))(i \<mapsto> lock_owner ?x (node_set_id i (node_new c)))" by blast
  let ?n0 = "\<lparr>o_elem = (inserted_elem ?x i c)\<lparr>vol := None\<rparr>, o_list = None\<rparr>"
  let ?v = "cv_assign u i (inserted_node ?x i c items)"
  have h: "holds u i ?n0" using u(2,4) tx(2) by (simp add: holds_def cv_inv_def lock_owner_new)
  have v: "cv_inv ?v \<and> cv_view ?v = (cv_view (g_nodes g))(i \<mapsto> inserted_node ?x i c items)"
    using cv_wr.assign_law [OF u(2), of i ?n0 "inserted_node ?x i c items"] h u(4) by (simp add: holds_def)
  let ?g1 = "g\<lparr>g_dict := d1, g_nodes := u\<rparr>"
  have put: "put_new_node b (node_new c) ?x (g\<lparr>g_dict := d1\<rparr>) = (Inr i, ?g1)"
    using u(1) by (cases b) (simp_all add: put_new_node_def)
  have gn: "get_node i g' = (Inr ?n0, g')" if "g_nodes g' = u" for g'
    using h that by (simp add: get_node_run)
  have "add_node cv h th label props b g = (Inr i, g\<lparr>g_nodes := ?v, g_dict := d2, g_current := (g_current g)(th \<mapsto> add_dirty_node i tx)\<rparr>)"
    unfolding add_node_def
    by (simp add: sbind_def check_run tx(1) label_code_run [OF lab] put gn build_items_run items push_insert_new set_node_def modify_tx_def)
  with v u(3) show ?thesis by blast
qed

lemma inserted_versions: "versions (inserted_node x i c items) = [insert_version items (inserted_elem x i c)]"
  by (simp add: inserted_node_def versions_def)

lemma readable_inserted: "readable y (insert_version items (inserted_elem x i c)) \<longleftrightarrow> (x = 0 \<or> x = y) \<and> y < INF_TS"
  by (auto simp: readable_def insert_version_def inserted_elem_def is_locked_def is_locked_by_def is_valid_for_def)

text \<open>
  C26. Insertion of a node: \<open>add_node\<close> takes a free position, keeps every other node, records the position in the transaction, and
  stores the label and the property items in a version that the transaction itself reads; every other transaction that looks at
  the position gets an exception. The node table satisfies its representation invariant \<open>cv_inv\<close>, with an intact free list.
\<close>

theorem add_node_own_write:
  assumes "cv_inv (g_nodes g)" "g_current g th = Some tx" "0 < xid tx" "xid tx < INF_TS"
    and "label_result h label (g_dict g) = Inr (d1, c)" "pl_build_dirty_props cv h props d1 = Inr (d2, items)"
  shows "\<exists>i g' n v. add_node cv h th label props b g = (Inr i, g') \<and> cv_inv (g_nodes g') \<and> cv_view (g_nodes g) i = None \<and>
     cv_view (g_nodes g') = (cv_view (g_nodes g))(i \<mapsto> n) \<and> g_current g' th = Some (add_dirty_node i tx) \<and>
     get_valid_node_version (xid tx) n = Inr (Version 0) \<and> o_version n (Version 0) = Inr v \<and> v_props v = items \<and>
     nd_label (body (v_elem v)) = c \<and> (\<forall>y r. y \<noteq> xid tx \<longrightarrow> get_valid_node_version y n \<noteq> Inr r)"
proof -
  let ?x = "xid tx"
  from add_node_spec [OF assms(1,2) _ assms(5,6), of b] assms(3) obtain i v where
    a: "cv_view (g_nodes g) i = None" "cv_inv v" "cv_view v = (cv_view (g_nodes g))(i \<mapsto> inserted_node ?x i c items)"
    "add_node cv h th label props b g = (Inr i, g\<lparr>g_nodes := v, g_dict := d2, g_current := (g_current g)(th \<mapsto> add_dirty_node i tx)\<rparr>)" by auto
  let ?n = "inserted_node ?x i c items" and ?v = "insert_version items (inserted_elem ?x i c)"
  have own: "get_valid_node_version ?x ?n = Inr (Version 0)"
    using assms(4) by (simp add: get_valid_node_version_def is_locked_by_def inserted_node_def inserted_elem_def txn_eval insert_version_def)
  have other: "get_valid_node_version y ?n \<noteq> Inr r" if "y \<noteq> ?x" for y r
    using that assms(3) by (simp add: get_valid_node_version_def inserted_node_def inserted_elem_def txn_eval insert_version_def Let_def)
  have "o_version ?n (Version 0) = Inr ?v" by (simp add: inserted_node_def txn_eval)
  moreover have "v_props ?v = items" "nd_label (body (v_elem ?v)) = c"
    by (simp_all add: insert_version_def inserted_elem_def node_body_new_def)
  ultimately show ?thesis using a own other by fastforce
qed

lemma dict_demo_label:
  obtains d where "label_result length ''age'' dict_demo = Inr (d, 1)" "dict_lookup_code 1 d = Inr ''age''"
    "pl_build_dirty_props conv_demo length [(''age'', Any_int 5)] d = Inr (d, [(pi_set_int 5 pi_unused)\<lparr>pi_key := 1\<rparr>])"
proof -
  have "sp_fits ''age'' (d_pool dict_demo)" by (simp add: sp_fits_def dict_demo_def)
  from dict_insert_new [OF dict_demo_inv _ _ _ this] obtain d where
    "dict_insert length ''age'' dict_demo = Inr (d, sp_last (d_pool dict_demo))" "dict_inv length d ([] @ [''age''])" by auto
  then have d: "dict_insert length ''age'' dict_demo = Inr (d, 1)" "dict_inv length d [''age'']" by (simp_all add: dict_demo_def)
  have "dict_lookup_string length ''age'' d = 1" using dict_lookup_string_eq [OF d(2), of "''age''"] by simp
  with dict_insert_old [OF d(2), of "''age''"] have c: "dict_insert length ''age'' d = Inr (d, 1)" "dict_lookup_code 1 d = Inr ''age''" by simp_all
  have "dict_lookup_string length ''age'' dict_demo = 0" by (simp add: dict_demo_def dict_lookup_string_def ct_find_def)
  then have "label_result length ''age'' dict_demo = Inr (d, 1)" using d(1) by (simp add: label_result_def)
  with that c show ?thesis by (simp add: pi_of_kv_def pi_of_any_def)
qed

theorem add_node_own_write_witness:
  "\<exists>i g' n v. add_node conv_demo length 1 ''age'' [(''age'', Any_int 5)] False (db_demo node_blank) = (Inr i, g') \<and>
     cv_view (g_nodes g') i = Some n \<and> get_valid_node_version 5 n = Inr (Version 0) \<and> o_version n (Version 0) = Inr v \<and>
     v_props v = [(pi_set_int 5 pi_unused)\<lparr>pi_key := 1\<rparr>] \<and> (\<forall>r. get_valid_node_version 6 n \<noteq> Inr r)"
proof -
  have inv: "cv_inv (g_nodes (db_demo node_blank))" using nodes_demo_inv by (simp add: db_demo_def)
  obtain d where d: "label_result length ''age'' (g_dict (db_demo node_blank)) = Inr (d, 1)"
    "pl_build_dirty_props conv_demo length [(''age'', Any_int 5)] d = Inr (d, [(pi_set_int 5 pi_unused)\<lparr>pi_key := 1\<rparr>])"
    using dict_demo_label by (auto simp: db_demo_simps)
  from add_node_own_write [OF inv _ _ _ d, of 1 "transaction_new 5" False] obtain i g' n v where
    r: "add_node conv_demo length 1 ''age'' [(''age'', Any_int 5)] False (db_demo node_blank) = (Inr i, g')"
    "cv_view (g_nodes g') = (cv_view (g_nodes (db_demo node_blank)))(i \<mapsto> n)" "get_valid_node_version 5 n = Inr (Version 0)"
    "o_version n (Version 0) = Inr v" "v_props v = [(pi_set_int 5 pi_unused)\<lparr>pi_key := 1\<rparr>]"
    "\<forall>y r. y \<noteq> 5 \<longrightarrow> get_valid_node_version y n \<noteq> Inr r" by (auto simp: INF_TS_def)
  moreover have "(6::nat) \<noteq> 5" by simp
  ultimately show ?thesis by (metis fun_upd_same)
qed

section \<open>Commit of an insertion\<close>

lemma o_get_Main [simp]: "o_get n Main = Inr (o_elem n)" "o_set Main e n = n\<lparr>o_elem := e\<rparr>"
  by (simp_all add: o_get_def o_set_def)

definition committed_elem :: "xid_t \<Rightarrow> offset_t \<Rightarrow> node_body \<Rightarrow> node_body elem \<Rightarrow> node_body elem" where
  "committed_elem x pid d e = e\<lparr>txn_id := 0, bts := x, cts := INF_TS, body := take_node_links d ((body e)\<lparr>nd_property_list := pid\<rparr>)\<rparr>"

definition insert_props :: "node_body elem \<Rightarrow> p_item list \<Rightarrow> plist \<Rightarrow> (plist \<times> offset_t) result" where
  "insert_props e items v = (if items = [] then Inr (v, nd_property_list (body e)) else pl_add_pitems (nd_id (body e)) items v)"

definition insert_index :: "(string \<times> nat) option \<Rightarrow> offset_t \<Rightarrow> p_item list \<Rightarrow> index_map \<Rightarrow> index_map result" where
  "insert_index idx i items m = (case idx of None \<Rightarrow> Inr m | Some ix \<Rightarrow> index_insert ix i items m)"

lemma copy_insert_run:
  assumes h: "holds (g_nodes g) i n" and p: "insert_props (o_elem n) (v_props dv) (g_nprops g) = Inr (p, pid)" and u: "\<not> v_updated dv"
  shows "\<exists>v. copy_node_properties i dv g = (Inr (), g\<lparr>g_nodes := v, g_nprops := p\<rparr>) \<and>
     holds v i (n\<lparr>o_elem := on_body (\<lambda>b. b\<lparr>nd_property_list := pid\<rparr>) (o_elem n)\<rparr>) \<and>
     (\<forall>j m. j \<noteq> i \<and> holds (g_nodes g) j m \<longrightarrow> holds v j m)"
proof (cases "v_props dv = []")
  case True
  then have "p = g_nprops g" "pid = nd_property_list (body (o_elem n))" using p by (auto simp: insert_props_def)
  then show ?thesis using True h by (intro exI [of _ "g_nodes g"]) (simp add: copy_node_properties_def on_body_def)
next
  case False
  then have q: "pl_add_pitems (nd_id (body (o_elem n))) (v_props dv) (g_nprops g) = Inr (p, pid)" using p by (simp add: insert_props_def)
  let ?n = "n\<lparr>o_elem := on_body (\<lambda>b. b\<lparr>nd_property_list := pid\<rparr>) (o_elem n)\<rparr>"
  have "holds (g_nodes (g\<lparr>g_nprops := p\<rparr>)) i n" using h by simp
  from upd_node_body_run [OF this o_get_Main(1)]
  have "copy_node_properties i dv g = (Inr (), g\<lparr>g_nodes := cv_assign (g_nodes g) i ?n, g_nprops := p\<rparr>)"
    using False u q by (simp add: copy_node_properties_def sbind_def get_node_run [OF h] nprops_act_def Let_def on_body_def)
  with h show ?thesis using holds_assign [OF h, of ?n] holds_assign_other [OF h, where y = ?n] by (intro exI conjI) auto
qed

lemma commit_insert_spec:
  assumes h: "holds (g_nodes g) i \<lparr>o_elem = e, o_list = Some [dv]\<rparr>" and e: "cts e = INF_TS" "vol e \<noteq> None" and u: "\<not> v_updated dv"
    and p: "insert_props e (v_props dv) (g_nprops g) = Inr (p, pid)"
    and ix: "get_index_of (nd_label (body (v_elem dv))) (v_props dv) (g_dict g) (g_index g) = Inr idx"
    and m: "insert_index idx (nd_id (body (v_elem dv))) (v_props dv) (g_index g) = Inr m"
  shows "\<exists>v. commit_dirty_node x i g = (Inr (), g\<lparr>g_nodes := v, g_nprops := p, g_index := m\<rparr>) \<and>
     holds v i \<lparr>o_elem = committed_elem x pid (body (v_elem dv)) e, o_list = None\<rparr> \<and>
     (\<forall>j m. j \<noteq> i \<and> holds (g_nodes g) j m \<longrightarrow> holds v j m)"
proof -
  let ?d = "body (v_elem dv)" and ?n = "\<lparr>o_elem = e, o_list = Some [dv]\<rparr>"
  let ?n1 = "?n\<lparr>o_elem := on_body (\<lambda>b. b\<lparr>nd_property_list := pid\<rparr>) e\<rparr>"
  from copy_insert_run [OF h _ u, of p pid] p obtain v1 where
    v1: "copy_node_properties i dv g = (Inr (), g\<lparr>g_nodes := v1, g_nprops := p\<rparr>)" "holds v1 i ?n1"
    "\<forall>j m. j \<noteq> i \<and> holds (g_nodes g) j m \<longrightarrow> holds v1 j m" by auto
  define e1 where "e1 = on_body (\<lambda>b. b\<lparr>nd_property_list := pid\<rparr>) e"
  define e2 where "e2 = on_body (take_node_links ?d) e1"
  define e3 where "e3 = set_timestamps x INF_TS e2"
  let ?e = "committed_elem x pid ?d e"
  let ?n5 = "\<lparr>o_elem = ?e, o_list = None\<rparr>"
  have h1: "holds v1 i \<lparr>o_elem = e1, o_list = Some [dv]\<rparr>" using v1(2) by (simp add: e1_def)
  have h2: "holds (cv_assign v1 i y) i y" for y by (rule holds_assign [OF h1])
  let ?g = "\<lambda>w. g\<lparr>g_nodes := w, g_nprops := p\<rparr>"
  let ?gm = "\<lambda>w. g\<lparr>g_nodes := w, g_nprops := p, g_index := m\<rparr>"
  let ?n = "\<lambda>e vs. \<lparr>o_elem = e, o_list = Some vs\<rparr>"
  have s2: "upd_node_body i Main (take_node_links ?d) (?g v1) = (Inr (), ?g (cv_assign v1 i (?n e2 [dv])))"
    using upd_node_body_run [of "?g v1" i _ Main e1] h1 by (simp add: e2_def on_body_def)
  have s3: "mod_node i (on_elem (set_timestamps x INF_TS)) (?g (cv_assign v1 i (?n e2 [dv]))) = (Inr (), ?g (cv_assign v1 i (?n e3 [dv])))"
    using mod_node_run [of "?g (cv_assign v1 i (?n e2 [dv]))" i "?n e2 [dv]" _ "?n e3 [dv]"] h2 by (simp add: on_elem_def e3_def cv_assign_twice)
  have s4: "with_index (nd_label ?d) (v_props dv) (\<lambda>ix. index_insert ix (nd_id ?d) (v_props dv)) (?g w) = (Inr (), ?gm w)" for w
    using ix m by (cases idx) (auto simp: with_index_def sbind_def supd_def insert_index_def)
  have s5: "mod_node i (\<lambda>n. Inr (pop_front n)) (?gm (cv_assign v1 i (?n e3 [dv]))) = (Inr (), ?gm (cv_assign v1 i (?n e3 [])))"
    using mod_node_run [of "?gm (cv_assign v1 i (?n e3 [dv]))" i "?n e3 [dv]" _ "?n e3 []"] h2 by (simp add: pop_front_def versions_def cv_assign_twice)
  have s6: "mod_node i (on_elem unlock) (?gm (cv_assign v1 i (?n e3 []))) = (Inr (), ?gm (cv_assign v1 i (?n ?e [])))"
    using mod_node_run [of "?gm (cv_assign v1 i (?n e3 []))" i "?n e3 []" _ "?n ?e []"] h2
    by (simp add: on_elem_def unlock_def cv_assign_twice e1_def e2_def e3_def committed_elem_def on_body_def set_timestamps_def)
  have "gc oldest (?n ?e []) = Inr ?n5" for oldest
    using e(2) by (simp add: gc_def has_dirty_versions_def versions_def delete_dirty_list_def committed_elem_def)
  then have s7: "mod_node i (gc (g_oldest g)) (?gm (cv_assign v1 i (?n ?e []))) = (Inr (), ?gm (cv_assign v1 i ?n5))"
    using mod_node_run [of "?gm (cv_assign v1 i (?n ?e []))" i "?n ?e []" _ ?n5] h2 by (simp add: cv_assign_twice)
  have run: "commit_dirty_node x i g = (Inr (), ?gm (cv_assign v1 i ?n5))"
    using e u by (simp add: commit_dirty_node_def commit_node_insert_def Let_def sbind_def get_node_run [OF h] has_dirty_versions_def versions_def
        v1(1) s2 s3 s4 s5 s6 s7)
  show ?thesis
  proof (intro exI conjI)
    show "commit_dirty_node x i g = (Inr (), g\<lparr>g_nodes := cv_assign v1 i ?n5, g_nprops := p, g_index := m\<rparr>)" by (rule run)
    show "holds (cv_assign v1 i ?n5) i ?n5" by (rule h2)
    show "\<forall>j m. j \<noteq> i \<and> holds (g_nodes g) j m \<longrightarrow> holds (cv_assign v1 i ?n5) j m"
      using v1(3) holds_assign_other [OF h1, where y = ?n5] by auto
  qed
qed

text \<open>What later transactions find at a committed node.\<close>

lemma committed_valid: "vol e \<noteq> None \<Longrightarrow> x \<le> y \<Longrightarrow> y < INF_TS \<Longrightarrow> 0 < y \<Longrightarrow>
   get_valid_node_version y (touch y \<lparr>o_elem = committed_elem x pid d e, o_list = None\<rparr>) = Inr Main"
  by (auto simp: get_valid_node_version_def touch_def committed_elem_def set_rts_def prepare_def is_locked_by_def is_locked_def is_valid_for_def)

lemma run_insert_spec:
  assumes inv: "cv_inv (g_nodes g)" and cur: "g_current g th = None" "g_garbage g = []" and x: "0 < x"
    and lab: "label_result h label (g_dict g) = Inr (d1, c)" and items: "pl_build_dirty_props cv h props d1 = Inr (d2, items)"
    and p: "\<And>i. insert_props (inserted_elem x i c) items (g_nprops g) = Inr (p i, pid i)"
    and ix: "get_index_of c items d2 (g_index g) = Inr idx" and m: "\<And>i. insert_index idx i items (g_index g) = Inr (m i)"
  shows "\<exists>i v a. run_transaction th x (sbind (add_node cv h th label props b) (\<lambda>_. sret True)) g =
     (Inr True, g\<lparr>g_nodes := v, g_nprops := p i, g_dict := d2, g_index := m i, g_active := a, g_oldest := (if a = [] then x else Min (set a))\<rparr>) \<and>
     a = removeAll x (g_active g) \<and> cv_view (g_nodes g) i = None \<and>
     holds v i \<lparr>o_elem = committed_elem x (pid i) (body (inserted_elem x i c)) (inserted_elem x i c), o_list = None\<rparr> \<and>
     (\<forall>j n. holds (g_nodes g) j n \<longrightarrow> holds v j n)"
proof -
  let ?g0 = "g\<lparr>g_current := (g_current g)(th \<mapsto> transaction_new x), g_active := List.insert x (g_active g)\<rparr>"
  have bt: "begin_transaction th x g = (Inr (), ?g0)" using cur by (simp add: begin_transaction_def)
  have "\<exists>i v. cv_view (g_nodes ?g0) i = None \<and> cv_inv v \<and> cv_view v = (cv_view (g_nodes ?g0))(i \<mapsto> inserted_node x i c items) \<and>
     add_node cv h th label props b ?g0 =
       (Inr i, ?g0\<lparr>g_nodes := v, g_dict := d2, g_current := (g_current ?g0)(th \<mapsto> add_dirty_node i (transaction_new x))\<rparr>)"
    using add_node_spec [of ?g0 th "transaction_new x" h label d1 c cv props d2 items b] inv lab items x by (simp add: transaction_new_def)
  then obtain i v where
    a: "cv_view (g_nodes g) i = None" "cv_inv v" "cv_view v = (cv_view (g_nodes g))(i \<mapsto> inserted_node x i c items)"
    "add_node cv h th label props b ?g0 =
       (Inr i, ?g0\<lparr>g_nodes := v, g_dict := d2, g_current := (g_current ?g0)(th \<mapsto> add_dirty_node i (transaction_new x))\<rparr>)" by auto
  let ?tx = "add_dirty_node i (transaction_new x)" and ?e = "inserted_elem x i c" and ?a = "removeAll x (g_active g)"
  let ?g1 = "?g0\<lparr>g_nodes := v, g_dict := d2, g_current := (g_current ?g0)(th \<mapsto> ?tx)\<rparr>"
  let ?g2 = "?g1\<lparr>g_active := ?a, g_oldest := (if ?a = [] then x else Min (set ?a))\<rparr>"
  have tx: "xid ?tx = x" "dirty_nodes ?tx = [i]" "dirty_rships ?tx = []" by (simp_all add: add_dirty_node_def transaction_new_def)
  have h: "holds (g_nodes ?g2) i \<lparr>o_elem = ?e, o_list = Some [insert_version items ?e]\<rparr>"
    using a(2,3) by (simp add: holds_def cv_inv_def inserted_node_def)
  have iv: "body (v_elem (insert_version items ?e)) = body ?e" "v_props (insert_version items ?e) = items" "\<not> v_updated (insert_version items ?e)"
    by (simp_all add: insert_version_def)
  have ie: "cts ?e = INF_TS" "vol ?e \<noteq> None" "nd_label (body ?e) = c" "nd_id (body ?e) = i" by (simp_all add: inserted_elem_def node_body_new_def)
  from commit_insert_spec [OF h ie(1,2) iv(3), of "p i" "pid i" idx "m i" x] obtain w where
    w: "commit_dirty_node x i ?g2 = (Inr (), ?g2\<lparr>g_nodes := w, g_nprops := p i, g_index := m i\<rparr>)"
    "holds w i \<lparr>o_elem = committed_elem x (pid i) (body ?e) ?e, o_list = None\<rparr>" "\<forall>j n. j \<noteq> i \<and> holds v j n \<longrightarrow> holds w j n"
    using p ix m by (auto simp: iv ie)
  have "leave_active x ?g1 = (Inr (), ?g2)"
    by (simp add: leave_active_def Let_def List.insert_def split del: if_split) (simp split: if_split)
  then have "commit_transaction th ?g1 = (Inr True, ?g2\<lparr>g_nodes := w, g_nprops := p i, g_index := m i, g_current := (g_current g)(th := None)\<rparr>)"
    using w(1) tx cur by (simp add: commit_transaction_def sbind_def check_run clear_current_def vacuum_def)
  moreover have "(g_current g)(th := None) = g_current g" using cur by auto
  ultimately have r: "run_transaction th x (sbind (add_node cv h th label props b) (\<lambda>_. sret True)) g =
     (Inr True, g\<lparr>g_nodes := w, g_nprops := p i, g_dict := d2, g_index := m i, g_active := ?a, g_oldest := (if ?a = [] then x else Min (set ?a))\<rparr>)"
    unfolding run_transaction_def by (simp add: sbind_def bt a(4) split del: if_split)
  have "holds w j n" if "holds (g_nodes g) j n" for j n
  proof -
    have "j \<noteq> i" using that a(1) by (auto simp: holds_def)
    with that a(2,3) have "holds v j n" by (simp add: holds_def cv_inv_def)
    with \<open>j \<noteq> i\<close> w(3) show ?thesis by blast
  qed
  with r a(1) w(2) show ?thesis by (intro exI [of _ i] exI [of _ w] exI [of _ ?a] conjI allI impI) simp_all
qed

lemma get_index_from_Some:
  "get_index_from l pos ps d m = Inr (Some (name, k)) \<Longrightarrow> pos \<le> k \<and> k < pos + length ps \<and> im_has_index name m"
proof (induction ps arbitrary: pos)
  case (Cons p ps)
  from Cons.prems obtain s where s: "dict_lookup_code (pi_key p) d = Inr s" by (auto simp: rbind_eq_Inr_iff)
  show ?case
  proof (cases "im_get_index_id (l @ '':'' @ s) m")
    case None
    with Cons.prems s Cons.IH [of "Suc pos"] show ?thesis by simp
  next
    case (Some n)
    with Cons.prems s show ?thesis by (auto simp: im_get_index_id_def im_has_index_def split: if_splits)
  qed
qed simp

lemma insert_index_ok:
  assumes "im_inv m" "get_index_of c items d m = Inr idx"
  shows "\<exists>m'. insert_index idx i items m = Inr m' \<and>
     (case idx of None \<Rightarrow> m' = m | Some (name, pos) \<Rightarrow> index_find (Some name) (item_key (items ! pos)) m' = Inr (Some i))"
proof (cases idx)
  case (Some np)
  obtain name pos where np: "np = (name, pos)" by (cases np)
  from assms(2) Some np have "pos < length items" "im_has_index name m"
    by (auto simp: get_index_of_def rbind_eq_Inr_iff dest: get_index_from_Some)
  from index_insert_spec [OF assms(1) this(2,1), of i] Some np show ?thesis by (auto simp: insert_index_def)
qed (simp add: insert_index_def)

lemma insert_props_ok:
  assumes "cv_inv v" "\<forall>p\<in>set items. pi_key p \<noteq> 0" "distinct (map pi_key items)"
    "capacity v + length items * elems_per_chunk v \<le> UNKNOWN"
  shows "\<exists>p pid. insert_props e items v = Inr (p, pid) \<and> (\<forall>q\<in>set items. pl_property_value p pid (pi_key q) = Inr q)"
  using pl_add_reads_spec [OF assms(1,2,4,3)] by (cases "items = []") (auto simp: insert_props_def, blast)

text \<open>
  C1. A committed insertion can be read: a transaction that adds a node and commits returns true; the node is at a position that was free,
  with its label; every property value is found in the property table; the index of the first indexed property finds the node; all
  other nodes are kept; and every later transaction reads the table element. The tables satisfy \<open>cv_inv\<close>, with an intact free list, and nothing waits
  for garbage collection.
\<close>

theorem insert_commit_read:
  assumes "cv_inv (g_nodes g)" "cv_inv (g_nprops g)" "im_inv (g_index g)" "g_current g th = None" "g_garbage g = []" "0 < x"
    and "label_result h label (g_dict g) = Inr (d1, c)" "pl_build_dirty_props cv h props d1 = Inr (d2, items)"
    and "\<forall>p\<in>set items. pi_key p \<noteq> 0" "distinct (map pi_key items)"
    and "capacity (g_nprops g) + length items * elems_per_chunk (g_nprops g) \<le> UNKNOWN"
    and "get_index_of c items d2 (g_index g) = Inr idx"
  shows "\<exists>i g' n. run_transaction th x (sbind (add_node cv h th label props b) (\<lambda>_. sret True)) g = (Inr True, g') \<and>
     cv_view (g_nodes g) i = None \<and> (\<forall>j m. holds (g_nodes g) j m \<longrightarrow> holds (g_nodes g') j m) \<and>
     holds (g_nodes g') i n \<and> nd_label (body (o_elem n)) = c \<and>
     (\<forall>p\<in>set items. get_node_property_value (body (o_elem n)) (pi_key p) g' = (Inr p, g')) \<and>
     (case idx of None \<Rightarrow> g_index g' = g_index g
      | Some (name, pos) \<Rightarrow> index_find (Some name) (item_key (items ! pos)) (g_index g') = Inr (Some i)) \<and>
     (\<forall>y. x \<le> y \<and> y < INF_TS \<longrightarrow> fst (node_by_id th i (snd (begin_transaction th y g'))) = Inr Main)"
proof -
  have "\<forall>i. \<exists>p pid. insert_props (inserted_elem x i c) items (g_nprops g) = Inr (p, pid) \<and> (\<forall>q\<in>set items. pl_property_value p pid (pi_key q) = Inr q)"
    using insert_props_ok [OF assms(2,9-11)] by blast
  then obtain p pid where p: "\<And>i. insert_props (inserted_elem x i c) items (g_nprops g) = Inr (p i, pid i)"
    "\<And>i q. q \<in> set items \<Longrightarrow> pl_property_value (p i) (pid i) (pi_key q) = Inr q" by metis
  have "\<forall>i. \<exists>m'. insert_index idx i items (g_index g) = Inr m' \<and>
     (case idx of None \<Rightarrow> m' = g_index g | Some (name, pos) \<Rightarrow> index_find (Some name) (item_key (items ! pos)) m' = Inr (Some i))"
    using insert_index_ok [OF assms(3,12)] by blast
  then obtain m where m: "\<And>i. insert_index idx i items (g_index g) = Inr (m i)"
    "\<And>i. (case idx of None \<Rightarrow> m i = g_index g | Some (name, pos) \<Rightarrow> index_find (Some name) (item_key (items ! pos)) (m i) = Inr (Some i))" by metis
  from run_insert_spec [OF assms(1,4-8) p(1) assms(12) m(1), of b] obtain i v a where
    r: "run_transaction th x (sbind (add_node cv h th label props b) (\<lambda>_. sret True)) g =
     (Inr True, g\<lparr>g_nodes := v, g_nprops := p i, g_dict := d2, g_index := m i, g_active := a, g_oldest := (if a = [] then x else Min (set a))\<rparr>)"
    and i: "cv_view (g_nodes g) i = None" and v: "\<forall>j n. holds (g_nodes g) j n \<longrightarrow> holds v j n"
    and n: "holds v i \<lparr>o_elem = committed_elem x (pid i) (body (inserted_elem x i c)) (inserted_elem x i c), o_list = None\<rparr>" by blast
  let ?e = "committed_elem x (pid i) (body (inserted_elem x i c)) (inserted_elem x i c)"
  let ?n = "\<lparr>o_elem = ?e, o_list = None\<rparr>"
  let ?g = "g\<lparr>g_nodes := v, g_nprops := p i, g_dict := d2, g_index := m i, g_active := a, g_oldest := (if a = [] then x else Min (set a))\<rparr>"
  have e: "nd_property_list (body ?e) = pid i" "nd_label (body ?e) = c"
    by (simp_all add: committed_elem_def take_node_links_def inserted_elem_def node_body_new_def)
  have props: "get_node_property_value (body ?e) (pi_key q) ?g = (Inr q, ?g)" if "q \<in> set items" for q
    using p(2) [OF that, of i] by (simp add: get_node_property_value_def e)
  have read: "fst (node_by_id th i (snd (begin_transaction th y ?g))) = Inr Main" if y: "x \<le> y" "y < INF_TS" for y
  proof -
    let ?h = "snd (begin_transaction th y ?g)"
    have c: "g_current ?h th = Some (transaction_new y)" "g_nodes ?h = v" using assms(4) by (simp_all add: begin_transaction_def)
    have "vol (inserted_elem x i c) \<noteq> None" by (simp add: inserted_elem_def)
    from committed_valid [OF this y] y assms(6) have "get_valid_node_version y (touch y ?n) = Inr Main" by simp
    then show ?thesis using n
      by (simp add: node_by_id_def sbind_def check_run [OF c(1)] get_node_def holds_get c(2) set_node_def)
  qed
  have found: "case idx of None \<Rightarrow> g_index ?g = g_index g
      | Some (name, pos) \<Rightarrow> index_find (Some name) (item_key (items ! pos)) (g_index ?g) = Inr (Some i)"
    using m(2) [of i] by (cases idx) auto
  have "\<forall>j m. holds (g_nodes g) j m \<longrightarrow> holds (g_nodes ?g) j m" "holds (g_nodes ?g) i ?n" "nd_label (body (o_elem ?n)) = c"
    "\<forall>q\<in>set items. get_node_property_value (body (o_elem ?n)) (pi_key q) ?g = (Inr q, ?g)"
    using v n e(2) props by simp_all
  with r i found read show ?thesis by blast
qed

lemma cv_empty_inv: "0 < n \<Longrightarrow> cv_inv (cv_empty n)"
  by (simp add: cv_inv_def cv_wf_def fl_ok_def cv_empty_def)

theorem insert_commit_read_witness:
  "\<exists>i g'. run_transaction 1 5 (sbind (add_node conv_demo length 1 ''age'' [(''age'', Any_int 5)] False) (\<lambda>_. sret True))
      ((graph_db_new 2 2 2 dict_demo)\<lparr>g_index := [(''age:age'', bt_new 10 0)]\<rparr>) = (Inr True, g') \<and>
     index_find (Some ''age:age'') 5 (g_index g') = Inr (Some i) \<and>
     fst (node_by_id 1 i (snd (begin_transaction 1 6 g'))) = Inr Main"
proof -
  let ?g = "(graph_db_new 2 2 2 dict_demo)\<lparr>g_index := [(''age:age'', bt_new 10 0)]\<rparr>"
  let ?p = "(pi_set_int 5 pi_unused)\<lparr>pi_key := 1\<rparr>"
  obtain d where d: "label_result length ''age'' dict_demo = Inr (d, 1)" "dict_lookup_code 1 d = Inr ''age''"
    "pl_build_dirty_props conv_demo length [(''age'', Any_int 5)] d = Inr (d, [?p])" by (rule dict_demo_label)
  have ix: "get_index_of 1 [?p] d (g_index ?g) = Inr (Some (''age:age'', 0))"
    using d(2) by (simp add: get_index_of_def im_get_index_id_def)
  have inv: "cv_inv (g_nodes ?g)" "cv_inv (g_nprops ?g)" by (simp_all add: graph_db_new_def cv_empty_inv)
  have im: "im_inv (g_index ?g)" using bt_new_inv by (simp add: im_inv_def)
  have cur: "g_current ?g 1 = None" "g_garbage ?g = []" "(0::nat) < 5" "label_result length ''age'' (g_dict ?g) = Inr (d, 1)"
    using d(1) by (simp_all add: graph_db_new_def)
  have cap: "capacity (g_nprops ?g) + length [?p] * elems_per_chunk (g_nprops ?g) \<le> UNKNOWN"
    by (simp add: graph_db_new_def cv_empty_def UNKNOWN_def)
  have keys: "\<forall>p\<in>set [?p]. pi_key p \<noteq> 0" "distinct (map pi_key [?p])" by simp_all
  from insert_commit_read [OF inv im cur d(3) keys cap ix, of False] obtain i g' where
    r: "run_transaction 1 5 (sbind (add_node conv_demo length 1 ''age'' [(''age'', Any_int 5)] False) (\<lambda>_. sret True)) ?g = (Inr True, g')"
    "index_find (Some ''age:age'') (item_key ?p) (g_index g') = Inr (Some i)"
    "\<forall>y. 5 \<le> y \<and> y < INF_TS \<longrightarrow> fst (node_by_id 1 i (snd (begin_transaction 1 y g'))) = Inr Main" by auto
  have "item_key ?p = 5" by (simp add: item_key_def pi_get_raw_def pi_set_int_def)
  moreover have "(5::nat) \<le> 6 \<and> 6 < INF_TS" by (simp add: INF_TS_def)
  ultimately show ?thesis using r by metis
qed

end
