(* ===== verification/Graph_Abort.thy ===== *)
theory Graph_Abort
  imports Graph_Run
begin

text \<open>
  Abort and deletion in the graph store: what \<open>abort_transaction\<close> restores, and where the treatment of deletions goes wrong.
\<close>

section \<open>Abort\<close>

lemma abort_node_run:
  assumes h: "holds (g_nodes g) i n" and vol: "vol (o_elem n) \<noteq> None" and v: "find (\<lambda>v. txn_id (v_elem v) = x) (versions n) = Some v" "v_updated v"
  shows "abort_node x i g = (Inr (), g\<lparr>g_nodes := cv_assign (g_nodes g) i
     \<lparr>o_elem = (o_elem n)\<lparr>txn_id := 0\<rparr>, o_list = Some (filter (\<lambda>v. \<not> (txn_id (v_elem v) = x \<and> cts (v_elem v) = INF_TS)) (versions n))\<rparr>\<rparr>)"
proof -
  have "versions n \<noteq> []" using v(1) by auto
  then have r: "remove_dirty_version x n =
      n\<lparr>o_list := Some (filter (\<lambda>v. \<not> (txn_id (v_elem v) = x \<and> cts (v_elem v) = INF_TS)) (versions n))\<rparr>"
    using vol by (simp add: remove_dirty_version_def has_dirty_versions_def)
  have eq: "n\<lparr>o_list := a, o_elem := e\<rparr> = \<lparr>o_elem = e, o_list = a\<rparr>" for a e by (cases n) simp
  have u: "updated_in_version x n = Inr True" using vol v by (auto simp: updated_in_version_def)
  let ?n = "remove_dirty_version x n"
  let ?g = "g\<lparr>g_nodes := cv_assign (g_nodes g) i ?n\<rparr>"
  have "holds (g_nodes ?g) i ?n" using holds_assign [OF h] by simp
  from mod_node_run [OF this, of "on_elem unlock"] show ?thesis
    by (simp add: abort_node_def sbind_def get_node_run [OF h] u set_node_def on_elem_def unlock_def cv_assign_twice r eq)
qed

text \<open>
  C27. Abort undoes an update: a transaction whose only change is an update of a node leaves, when it aborts, the table element as it
  was, unlocked, without the new version; older versions, all other nodes, the properties, the dictionary and the indexes are not touched. Nothing waits for garbage collection.
\<close>

theorem abort_update_restores:
  assumes "holds (g_nodes g) i n" "versions n = nv # vs" "vol (o_elem n) \<noteq> None" "g_current g th = Some tx"
    and "dirty_nodes tx = [i]" "dirty_rships tx = []" "g_garbage g = []"
    and "txn_id (v_elem nv) = xid tx" "v_updated nv" "cts (v_elem nv) = INF_TS" "\<forall>v\<in>set vs. txn_id (v_elem v) \<noteq> xid tx"
  shows "\<exists>v a o'. abort_transaction th g = (Inr True, g\<lparr>g_nodes := v, g_current := (g_current g)(th := None), g_active := a, g_oldest := o'\<rparr>) \<and>
     holds v i \<lparr>o_elem = (o_elem n)\<lparr>txn_id := 0\<rparr>, o_list = Some vs\<rparr> \<and> (\<forall>j m. j \<noteq> i \<and> holds (g_nodes g) j m \<longrightarrow> holds v j m)"
proof -
  let ?x = "xid tx" and ?n = "\<lparr>o_elem = (o_elem n)\<lparr>txn_id := 0\<rparr>, o_list = Some vs\<rparr>"
  obtain a o' where l: "leave_active ?x g = (Inr (), g\<lparr>g_active := a, g_oldest := o'\<rparr>)" by (simp add: leave_active_def Let_def)
  let ?g = "g\<lparr>g_active := a, g_oldest := o'\<rparr>"
  have "filter (\<lambda>v. \<not> (txn_id (v_elem v) = ?x \<and> cts (v_elem v) = INF_TS)) (versions n) = vs"
    using assms by (auto simp: filter_id_conv)
  moreover have "holds (g_nodes ?g) i n" using assms(1) by simp
  from abort_node_run [OF this assms(3), of ?x nv] assms have "abort_node ?x i ?g =
    (Inr (), ?g\<lparr>g_nodes := cv_assign (g_nodes g) i \<lparr>o_elem = (o_elem n)\<lparr>txn_id := 0\<rparr>,
      o_list = Some (filter (\<lambda>v. \<not> (txn_id (v_elem v) = ?x \<and> cts (v_elem v) = INF_TS)) (versions n))\<rparr>\<rparr>)" by simp
  ultimately have an: "abort_node ?x i ?g = (Inr (), ?g\<lparr>g_nodes := cv_assign (g_nodes g) i ?n\<rparr>)" by simp
  then have "abort_transaction th g =
     (Inr True, g\<lparr>g_nodes := cv_assign (g_nodes g) i ?n, g_current := (g_current g)(th := None), g_active := a, g_oldest := o'\<rparr>)"
    using assms by (simp add: abort_transaction_def sbind_def l vacuum_def clear_current_def)
  then show ?thesis using holds_assign [OF assms(1), of ?n] holds_assign_other [OF assms(1), where y = ?n] by (intro exI conjI) auto
qed

theorem abort_update_restores_witness:
  "\<exists>v a o' (g :: graph_db). abort_transaction 1 g = (Inr True, g\<lparr>g_nodes := v, g_current := (g_current g)(1 := None), g_active := a, g_oldest := o'\<rparr>) \<and>
     holds v 0 \<lparr>o_elem = node_elem_demo 0 3 INF_TS False, o_list = Some [node_version_demo 0 3 5]\<rparr>"
proof -
  let ?n = "\<lparr>o_elem = node_elem_demo 5 3 INF_TS False, o_list = Some [node_version_demo 5 5 INF_TS, node_version_demo 0 3 5]\<rparr>"
  let ?g = "(db_demo ?n)\<lparr>g_current := (\<lambda>_. None)(1 \<mapsto> add_dirty_node 0 (transaction_new 5))\<rparr>"
  have h: "holds (g_nodes ?g) 0 ?n" using db_demo_holds [of ?n] by simp
  have eq: "(o_elem ?n)\<lparr>txn_id := 0\<rparr> = node_elem_demo 0 3 INF_TS False" by (simp add: node_elem_demo_def)
  have "\<exists>v a o'. abort_transaction 1 ?g = (Inr True, ?g\<lparr>g_nodes := v, g_current := (g_current ?g)(1 := None), g_active := a, g_oldest := o'\<rparr>) \<and>
     holds v 0 \<lparr>o_elem = (o_elem ?n)\<lparr>txn_id := 0\<rparr>, o_list = Some [node_version_demo 0 3 5]\<rparr> \<and> (\<forall>j m. j \<noteq> 0 \<and> holds (g_nodes ?g) j m \<longrightarrow> holds v j m)"
    by (rule abort_update_restores [OF h, where tx = "add_dirty_node 0 (transaction_new 5)"])
      (auto simp: versions_def node_elem_demo_def node_version_demo_def add_dirty_node_def transaction_new_def db_demo_def graph_db_new_def)
  then show ?thesis unfolding eq by blast
qed

section \<open>Insertion and deletion in one transaction\<close>

lemma push_old_ref: "o_get ob r = Inr e \<Longrightarrow> push_old x r items ob = Inr (with_versions ob (old_version x items e # versions ob))"
  by (simp add: push_old_def o_get_def add_dirty_version_def version_at_front set_dirty_def set_timestamps_def prepare_eq o_set_def
      set_version_front unlock_def old_version_def with_versions_def)

lemma push_new_ref: "o_get ob r = Inr e \<Longrightarrow> push_new x c r items ob =
   Inr (Version (length (versions ob)), with_versions ob (new_version x c items e # versions ob))"
  by (simp add: push_new_def o_get_def add_dirty_version_def version_at_front set_dirty_def set_timestamps_def prepare_eq o_set_def
      set_version_front new_version_def with_versions_def)

lemma o_get_with_versions: "vol (o_elem ob) \<noteq> None \<Longrightarrow> o_get ob r = Inr e \<Longrightarrow> o_get (with_versions ob (v # versions ob)) r = Inr e"
  by (auto simp: o_get_def with_versions_def prepare_def version_at_def versions_def nth_append split: vref.splits option.splits if_splits)

lemma node_items_none: "holds (g_nodes g) i n \<Longrightarrow> o_get n r = Inr e \<Longrightarrow> nd_property_list (body e) = UNKNOWN \<Longrightarrow> node_items i r g = (Inr [], g)"
  by (cases "capacity (g_nprops g)") (simp_all add: node_items_def sbind_def get_node_run pl_build_dirty_def)

text \<open>The run of \<open>delete_node\<close> on a node without relationships and without stored properties.\<close>

lemma delete_node_run:
  assumes h: "holds (g_nodes g) i n" and cur: "g_current g th = Some tx"
    and r: "get_valid_node_version (xid tx) (touch (xid tx) n) = Inr r" "o_get (touch (xid tx) n) r = Inr e" "acquire (xid tx) e = Inr e"
    and e: "nd_from_rships (body e) = UNKNOWN" "nd_to_rships (body e) = UNKNOWN" "nd_property_list (body e) = UNKNOWN"
  shows "delete_node th i g = (Inr (), g\<lparr>g_nodes := cv_assign (g_nodes g) i (with_versions (touch (xid tx) n)
      (new_version (xid tx) (xid tx) [] e # old_version (xid tx) [] e # versions n)),
     g_current := (g_current g)(th \<mapsto> add_dirty_node (nd_id (body e)) tx)\<rparr>)"
proof -
  let ?x = "xid tx" and ?n = "touch (xid tx) n"
  let ?g = "\<lambda>m. g\<lparr>g_nodes := cv_assign (g_nodes g) i m\<rparr>"
  have hm: "holds (g_nodes (?g m)) i m" for m using holds_assign [OF h] by simp
  have gm: "get_node i (?g m) = (Inr m, ?g m)" for m by (rule get_node_run [OF hm])
  have vs: "versions ?n = versions n" by (simp add: touch_def)
  have vol: "vol (o_elem ?n) \<noteq> None" by (cases "vol (o_elem n)") (auto simp: touch_def set_rts_def prepare_def)
  have same: "o_set r e ?n = ?n" using r(2)
    by (cases r) (auto simp: o_get_def o_set_def version_at_def set_version_def versions_def list_update_id split: option.splits if_splits)
  have 1: "node_by_id th i g = (Inr r, ?g ?n)" using r(1) by (simp add: node_by_id_def sbind_def check_run [OF cur] get_node_run [OF h] set_node_def)
  have 2: "node_acquire ?x i r (?g ?n) = (Inr (), ?g ?n)"
    using r same by (simp add: node_acquire_run [OF hm r(2)] cv_assign_twice)
  let ?n1 = "with_versions ?n (old_version ?x [] e # versions n)"
  have 3: "node_push_old ?x i r [] (?g ?n) = (Inr (), ?g ?n1)"
    by (simp add: node_push_old_def sbind_def gm push_old_ref [OF r(2)] set_node_def cv_assign_twice vs)
  have r1: "o_get ?n1 r = Inr e" using o_get_with_versions [OF vol r(2), of "old_version ?x [] e"] by (simp add: vs)
  let ?n2 = "with_versions ?n (new_version ?x ?x [] e # old_version ?x [] e # versions n)"
  have 4: "node_push_new ?x ?x i r [] (?g ?n1) = (Inr (Version (Suc (length (versions n)))), ?g ?n2)"
    by (simp add: node_push_new_def sbind_def gm push_new_ref [OF r1] set_node_def cv_assign_twice)
  have "vol (o_elem ?n1) \<noteq> None" by simp
  from o_get_with_versions [OF this r1, of "new_version ?x ?x [] e"] have r2: "o_get ?n2 r = Inr e" by simp
  have 5: "node_items i r (?g ?n) = (Inr [], ?g ?n)" by (rule node_items_none [OF hm r(2) e(3)])
  show ?thesis using cur
    by (simp add: delete_node_def sbind_def check_run [OF cur] 1 2 3 4 5 gm r(2) e(1,2) node_elem_id_def r2 modify_tx_def)
qed

text \<open>
  C37. An aborted insertion can become visible: a transaction that adds a node, deletes it again and aborts leaves the node in the
  table, unlocked and valid from timestamp 0 on, because \<open>abort_transaction\<close> asks the newest version of the transaction, which is the
  deletion, whether the node was only updated. Every other transaction then reads it.
\<close>

theorem insert_delete_abort_visible:
  assumes inv: "cv_inv (g_nodes g)" and cur: "g_current g th = None" "g_garbage g = []" and x: "0 < x" "x < INF_TS"
    and lab: "label_result h label (g_dict g) = Inr (d1, c)" and items: "pl_build_dirty_props cv h props d1 = Inr (d2, items)"
  shows "\<exists>i g' n. run_transaction th x (sbind (add_node cv h th label props b) (\<lambda>i. sbind (delete_node th i) (\<lambda>_. sret False))) g = (Inr True, g') \<and>
     cv_view (g_nodes g) i = None \<and> holds (g_nodes g') i n \<and> (\<forall>y. 0 < y \<and> y < INF_TS \<longrightarrow> get_valid_node_version y n = Inr Main)"
proof -
  let ?tx0 = "transaction_new x"
  let ?g0 = "g\<lparr>g_current := (g_current g)(th \<mapsto> ?tx0), g_active := List.insert x (g_active g)\<rparr>"
  have bt: "begin_transaction th x g = (Inr (), ?g0)" using cur by (simp add: begin_transaction_def)
  have "\<exists>i v. cv_view (g_nodes ?g0) i = None \<and> cv_inv v \<and> cv_view v = (cv_view (g_nodes ?g0))(i \<mapsto> inserted_node x i c items) \<and>
     add_node cv h th label props b ?g0 = (Inr i, ?g0\<lparr>g_nodes := v, g_dict := d2, g_current := (g_current ?g0)(th \<mapsto> add_dirty_node i ?tx0)\<rparr>)"
    using add_node_spec [of ?g0 th ?tx0 h label d1 c cv props d2 items b] inv lab items x by (simp add: transaction_new_def)
  then obtain i v where a: "cv_view (g_nodes g) i = None" "cv_inv v" "cv_view v = (cv_view (g_nodes g))(i \<mapsto> inserted_node x i c items)"
    "add_node cv h th label props b ?g0 = (Inr i, ?g0\<lparr>g_nodes := v, g_dict := d2, g_current := (g_current ?g0)(th \<mapsto> add_dirty_node i ?tx0)\<rparr>)" by auto
  let ?n = "inserted_node x i c items" and ?iv = "insert_version items (inserted_elem x i c)" and ?tx1 = "add_dirty_node i ?tx0"
  let ?g1 = "?g0\<lparr>g_nodes := v, g_dict := d2, g_current := (g_current ?g0)(th \<mapsto> ?tx1)\<rparr>"
  have h1: "holds (g_nodes ?g1) i ?n" using a(2,3) by (simp add: holds_def cv_inv_def)
  have tx1: "g_current ?g1 th = Some ?tx1" "xid ?tx1 = x" by (simp_all add: add_dirty_node_def transaction_new_def)
  let ?e = "v_elem ?iv" and ?t = "touch x ?n"
  have valid: "get_valid_node_version (xid ?tx1) (touch (xid ?tx1) ?n) = Inr (Version 0)" "o_get (touch (xid ?tx1) ?n) (Version 0) = Inr ?e"
    using x by (simp_all add: tx1(2) get_valid_node_version_def touch_def inserted_node_def inserted_elem_def set_rts_def prepare_def txn_eval insert_version_def)
  have e: "acquire (xid ?tx1) ?e = Inr ?e" "nd_from_rships (body ?e) = UNKNOWN" "nd_to_rships (body ?e) = UNKNOWN"
    "nd_property_list (body ?e) = UNKNOWN" "nd_id (body ?e) = i"
    by (simp_all add: acquire_Inr tx1(2) insert_version_def inserted_elem_def node_body_new_def)
  let ?tx2 = "add_dirty_node i ?tx1" and ?dv = "new_version x x [] ?e" and ?ov = "old_version x [] ?e"
  let ?m = "with_versions ?t [?dv, ?ov, ?iv]"
  define g2 where "g2 = ?g1\<lparr>g_nodes := cv_assign v i ?m, g_current := (g_current ?g1)(th \<mapsto> ?tx2)\<rparr>"
  have del: "delete_node th i ?g1 = (Inr (), g2)"
    using delete_node_run [OF h1 tx1(1) valid e(1-4)] by (simp add: tx1(2) e(5) inserted_versions g2_def)
  have f2: "g_current g2 th = Some ?tx2" "g_nodes g2 = cv_assign v i ?m" "g_garbage g2 = []" using cur by (simp_all add: g2_def)
  have tx2: "xid ?tx2 = x" "dirty_nodes ?tx2 = [i, i]" "dirty_rships ?tx2 = []" by (simp_all add: add_dirty_node_def transaction_new_def)
  define g3 where "g3 = snd (leave_active x g2)"
  have la: "leave_active x g2 = (Inr (), g3)" "g_nodes g3 = cv_assign v i ?m" "g_garbage g3 = []"
    using f2 by (simp_all add: g3_def leave_active_def Let_def)
  have hm: "holds (cv_assign v i m) i m" for m using holds_assign [of v i ?n m] h1 by simp
  let ?w = "\<lparr>o_elem = (o_elem ?m)\<lparr>txn_id := 0\<rparr>, o_list = Some [?dv, ?ov]\<rparr>"
  let ?g4 = "g3\<lparr>g_nodes := cv_assign v i ?w\<rparr>"
  have dv: "txn_id (v_elem ?dv) = x" "v_updated ?dv" "cts (v_elem ?dv) = x" "txn_id (v_elem ?ov) = 0" "txn_id (v_elem ?iv) = x" "cts (v_elem ?iv) = INF_TS"
    by (simp_all add: new_version_def old_version_def insert_version_def inserted_elem_def)
  have vm: "versions ?m = [?dv, ?ov, ?iv]" "versions ?w = [?dv, ?ov]" by (simp, simp add: versions_def)
  have volm: "vol (o_elem ?m) \<noteq> None" "vol (o_elem ?w) \<noteq> None" by simp_all
  have ab1: "abort_node x i g3 = (Inr (), ?g4)"
    using abort_node_run [of g3 i ?m x ?dv] hm volm(1) x dv vm la(2) by (simp add: cv_assign_twice)
  have ab2: "abort_node x i ?g4 = (Inr (), ?g4)"
    using abort_node_run [of ?g4 i ?w x ?dv] hm volm(2) x dv vm by (simp add: cv_assign_twice)
  let ?g5 = "?g4\<lparr>g_current := (g_current g3)(th := None)\<rparr>"
  have ab: "abort_transaction th g2 = (Inr True, ?g5)"
    using ab1 ab2 la(3) by (simp add: abort_transaction_def sbind_def tx2 f2(1) la(1) vacuum_def clear_current_def)
  have run: "run_transaction th x (sbind (add_node cv h th label props b) (\<lambda>i. sbind (delete_node th i) (\<lambda>_. sret False))) g = (Inr True, ?g5)"
    using del unfolding run_transaction_def by (simp add: sbind_def bt a(4) ab)
  have "get_valid_node_version y ?w = Inr Main" if "0 < y" "y < INF_TS" for y
    using that by (simp add: get_valid_node_version_def is_locked_by_def is_locked_def is_valid_for_def touch_def set_rts_def prepare_def
        inserted_node_def inserted_elem_def)
  then show ?thesis using run a(1) hm [of ?w] by (intro exI [of _ i] exI [of _ ?g5] exI [of _ ?w]) simp
qed

theorem insert_delete_abort_visible_witness:
  "\<exists>i g' n. run_transaction 1 5 (sbind (add_node conv_demo length 1 ''age'' [] False) (\<lambda>i. sbind (delete_node 1 i) (\<lambda>_. sret False)))
       (graph_db_new 2 2 2 dict_demo) = (Inr True, g') \<and> holds (g_nodes g') i n \<and> get_valid_node_version 3 n = Inr Main"
proof -
  obtain d where d: "label_result length ''age'' (g_dict (graph_db_new 2 2 2 dict_demo)) = Inr (d, 1)"
    using dict_demo_label by (auto simp: graph_db_new_def)
  have g: "cv_inv (g_nodes (graph_db_new 2 2 2 dict_demo))" "g_current (graph_db_new 2 2 2 dict_demo) 1 = None" "g_garbage (graph_db_new 2 2 2 dict_demo) = []"
    by (simp_all add: graph_db_new_def cv_empty_inv)
  have x: "(0::nat) < 5" "5 < INF_TS" "0 < (3::nat) \<and> 3 < INF_TS" by (simp_all add: INF_TS_def)
  have "pl_build_dirty_props conv_demo length [] d = Inr (d, [])" by simp
  from insert_delete_abort_visible [OF g x(1,2) d this, of False] x(3) show ?thesis by blast
qed

section \<open>Deletion of a connected node\<close>

text \<open>The run of \<open>delete_node\<close> on a node that is read from the table, once the check for relationships has passed.\<close>

lemma delete_node_main_run:
  assumes h: "holds (g_nodes g) i n" and cur: "g_current g th = Some tx"
    and e: "txn_id (o_elem n) = 0" "rts (o_elem n) \<le> xid tx" "bts (o_elem n) \<le> xid tx" "xid tx < cts (o_elem n)" "0 < xid tx"
    and b: "body (o_elem n) = b" "nd_property_list b = UNKNOWN"
    and rs: "fst (has_valid_from_rships b (xid tx) g) = Inr False" "fst (has_valid_to_rships b (xid tx) g) = Inr False"
  shows "\<exists>m. delete_node th i g = (Inr (), g\<lparr>g_nodes := cv_assign (g_nodes g) i m, g_current := (g_current g)(th \<mapsto> add_dirty_node (nd_id b) tx)\<rparr>) \<and>
     (\<exists>v vs. versions m = v # vs \<and> txn_id (v_elem v) = xid tx \<and> bts (v_elem v) = xid tx \<and> cts (v_elem v) = xid tx)"
proof -
  let ?x = "xid tx" and ?n = "touch (xid tx) n"
  let ?e = "(o_elem ?n)\<lparr>txn_id := ?x\<rparr>"
  let ?m = "?n\<lparr>o_elem := ?e\<rparr>"
  let ?g = "\<lambda>m. g\<lparr>g_nodes := cv_assign (g_nodes g) i m\<rparr>"
  have hm: "holds (g_nodes (?g m)) i m" for m using holds_assign [OF h] by simp
  have gm: "get_node i (?g m) = (Inr m, ?g m)" for m by (rule get_node_run [OF hm])
  have en: "txn_id (o_elem ?n) = 0" "rts (o_elem ?n) = ?x" "bts (o_elem ?n) \<le> ?x" "?x < cts (o_elem ?n)" "body (o_elem ?n) = b"
    using e b by (auto simp: touch_def set_rts_def prepare_def)
  have "get_valid_node_version ?x ?n = Inr Main" using en e(5) by (simp add: get_valid_node_version_def is_locked_by_def is_locked_def is_valid_for_def)
  then have 1: "node_by_id th i g = (Inr Main, ?g ?n)" by (simp add: node_by_id_def sbind_def check_run [OF cur] get_node_run [OF h] set_node_def)
  have "acquire ?x (o_elem ?n) = Inr ?e" using en by (simp add: acquire_Inr)
  then have 2: "node_acquire ?x i Main (?g ?n) = (Inr (), ?g ?m)" by (simp add: node_acquire_run [OF hm o_get_Main(1)] cv_assign_twice)
  have bm: "body ?e = b" using en by simp
  have 3: "node_items i Main (?g ?m) = (Inr [], ?g ?m)" by (rule node_items_none [OF hm o_get_Main(1)]) (simp add: bm b(2))
  have chk: "has_valid_from_rships b ?x (?g ?m) = (Inr False, ?g ?m)" "has_valid_to_rships b ?x (?g ?m) = (Inr False, ?g ?m)"
    using rs by (simp_all add: has_valid_from_rships_def has_valid_to_rships_def)
  define m1 where "m1 = with_versions ?m (old_version ?x [] ?e # versions ?m)"
  define m2 where "m2 = with_versions m1 (new_version ?x ?x [] (o_elem m1) # versions m1)"
  have 4: "node_push_old ?x i Main [] (?g ?m) = (Inr (), ?g m1)"
    by (simp add: node_push_old_def sbind_def gm push_old_main set_node_def cv_assign_twice m1_def)
  have 5: "node_push_new ?x ?x i Main [] (?g m1) = (Inr (Version (length (versions m1))), ?g m2)"
    by (simp add: node_push_new_def sbind_def gm push_new_main set_node_def cv_assign_twice m2_def)
  have 6: "node_elem_id i Main (?g m2) = (Inr (nd_id b), ?g m2)"
    using bm by (simp add: node_elem_id_def sbind_def gm prepare_eq m1_def m2_def)
  have "delete_node th i g = (Inr (), g\<lparr>g_nodes := cv_assign (g_nodes g) i m2, g_current := (g_current g)(th \<mapsto> add_dirty_node (nd_id b) tx)\<rparr>)"
    using cur by (simp add: delete_node_def sbind_def check_run [OF cur] 1 2 3 4 5 6 gm bm en chk modify_tx_def)
  moreover have "versions m2 = new_version ?x ?x [] (o_elem m1) # versions m1" by (simp add: m2_def)
  moreover have "txn_id (v_elem (new_version ?x ?x [] (o_elem m1))) = ?x" "bts (v_elem (new_version ?x ?x [] (o_elem m1))) = ?x"
    "cts (v_elem (new_version ?x ?x [] (o_elem m1))) = ?x" by (simp_all add: new_version_def prepare_eq m1_def)
  ultimately show ?thesis by blast
qed

text \<open>
  The check against orphaned relationships looks at the first relationship only: when the head of a node's list was deleted by
  another committed transaction but not yet collected, \<open>delete_node\<close> succeeds although the next relationship of the list is valid; that
  relationship keeps pointing to the deleted node.
\<close>

theorem delete_node_orphans:
  assumes "holds (g_nodes g) i n" "g_current g th = Some tx"
    and "txn_id (o_elem n) = 0" "rts (o_elem n) \<le> xid tx" "bts (o_elem n) \<le> xid tx" "xid tx < cts (o_elem n)" "0 < xid tx"
    and "nd_property_list (body (o_elem n)) = UNKNOWN" "nd_to_rships (body (o_elem n)) = UNKNOWN" "nd_from_rships (body (o_elem n)) = j"
    and "holds (g_rships g) j r" "j \<noteq> UNKNOWN" "txn_id (o_elem r) \<noteq> xid tx" "\<not> is_valid_for (xid tx) (o_elem r)"
    and "rs_next_src (body (o_elem r)) = k" "holds (g_rships g) k s" "rs_src_node (body (o_elem s)) = i"
      "txn_id (o_elem s) = 0" "is_valid_for (xid tx) (o_elem s)"
  shows "\<exists>g' n' v vs. delete_node th i g = (Inr (), g') \<and> holds (g_nodes g') i n' \<and> versions n' = v # vs \<and>
     txn_id (v_elem v) = xid tx \<and> bts (v_elem v) = xid tx \<and> cts (v_elem v) = xid tx \<and>
     rs_next_src (body (o_elem r)) = k \<and> holds (g_rships g') k s \<and> is_valid_for (xid tx) (o_elem s) \<and> rs_src_node (body (o_elem s)) = i"
proof -
  have f: "fst (has_valid_from_rships (body (o_elem n)) (xid tx) g) = Inr False"
    using assms by (simp add: has_valid_from_rships_def has_valid_rships_from.simps holds_get is_locked_by_def)
  have t: "fst (has_valid_to_rships (body (o_elem n)) (xid tx) g) = Inr False"
    using assms by (simp add: has_valid_to_rships_def has_valid_rships_from.simps)
  from delete_node_main_run [OF assms(1-7) refl assms(8) f t] obtain m v vs where
    m: "delete_node th i g = (Inr (), g\<lparr>g_nodes := cv_assign (g_nodes g) i m,
       g_current := (g_current g)(th \<mapsto> add_dirty_node (nd_id (body (o_elem n))) tx)\<rparr>)"
    "versions m = v # vs" "txn_id (v_elem v) = xid tx" "bts (v_elem v) = xid tx" "cts (v_elem v) = xid tx" by blast
  let ?g = "g\<lparr>g_nodes := cv_assign (g_nodes g) i m, g_current := (g_current g)(th \<mapsto> add_dirty_node (nd_id (body (o_elem n))) tx)\<rparr>"
  have "holds (g_nodes ?g) i m" "holds (g_rships ?g) k s" using holds_assign [OF assms(1), of m] assms(16) by simp_all
  with m assms(15,17,19) show ?thesis by (intro exI [of _ ?g] exI [of _ m]) auto
qed

definition rship_demo :: "nat \<Rightarrow> nat \<Rightarrow> offset_t \<Rightarrow> rship" where
  "rship_demo i c nxt = \<lparr>o_elem = \<lparr>txn_id = 0, bts = 2, cts = c, rts = 0, vol = Some False,
     body = \<lparr>rs_id = i, rs_src_node = 0, rs_dest_node = 1, rs_next_src = nxt, rs_next_dest = UNKNOWN, rs_property_list = UNKNOWN, rs_label = 1\<rparr>\<rparr>,
     o_list = None\<rparr>"

definition rships_demo :: "rship cvec" where
  "rships_demo = \<lparr>capacity = 2, available_slots = 0, elems_per_chunk = 2,
     chunk_list = [\<lparr>ch_data = [rship_demo 0 4 1, rship_demo 1 INF_TS UNKNOWN], ch_slots = [True, True], ch_first = 2\<rparr>], free_list = []\<rparr>"

lemma rships_demo_holds: "holds rships_demo 0 (rship_demo 0 4 1)" "holds rships_demo 1 (rship_demo 1 INF_TS UNKNOWN)"
  by (auto simp: holds_def cv_wf_def cv_view_eq rships_demo_def chunk_inv_def free_count_def less_Suc_eq numeral_2_eq_2)

theorem delete_node_orphans_witness:
  "\<exists>(g :: graph_db) g' n' v vs. holds (g_rships g) 1 (rship_demo 1 INF_TS UNKNOWN) \<and> delete_node 1 0 g = (Inr (), g') \<and> holds (g_nodes g') 0 n' \<and>
     versions n' = v # vs \<and> bts (v_elem v) = 5 \<and> cts (v_elem v) = 5 \<and> holds (g_rships g') 1 (rship_demo 1 INF_TS UNKNOWN)"
proof -
  let ?n = "\<lparr>o_elem = (node_elem_demo 0 3 INF_TS False)\<lparr>body := node_body_demo\<lparr>nd_from_rships := 0\<rparr>\<rparr>, o_list = None\<rparr>"
  let ?g = "(db_demo ?n)\<lparr>g_rships := rships_demo\<rparr>"
  have h: "holds (g_nodes ?g) 0 ?n" using db_demo_holds [of ?n] by simp
  have r: "holds (g_rships ?g) 0 (rship_demo 0 4 1)" "holds (g_rships ?g) 1 (rship_demo 1 INF_TS UNKNOWN)" using rships_demo_holds by simp_all
  have c: "g_current ?g 1 = Some (transaction_new 5)" by (simp add: db_demo_def)
  have "\<exists>g' n' v vs. delete_node 1 0 ?g = (Inr (), g') \<and> holds (g_nodes g') 0 n' \<and> versions n' = v # vs \<and>
     txn_id (v_elem v) = xid (transaction_new 5) \<and> bts (v_elem v) = xid (transaction_new 5) \<and> cts (v_elem v) = xid (transaction_new 5) \<and>
     rs_next_src (body (o_elem (rship_demo 0 4 1))) = 1 \<and> holds (g_rships g') 1 (rship_demo 1 INF_TS UNKNOWN) \<and>
     is_valid_for (xid (transaction_new 5)) (o_elem (rship_demo 1 INF_TS UNKNOWN)) \<and> rs_src_node (body (o_elem (rship_demo 1 INF_TS UNKNOWN))) = 0"
    by (rule delete_node_orphans [OF h c, of 0 "rship_demo 0 4 1" 1])
      (use r in \<open>simp_all add: node_elem_demo_def node_body_demo_def rship_demo_def is_valid_for_def INF_TS_def UNKNOWN_def\<close>)
  then show ?thesis using r(2) unfolding db_demo_simps by blast
qed

end
