(* ===== verification/Query_Ctx.thy ===== *)
theory Query_Ctx
  imports Graph_Run
begin

text \<open>
  The query context, \<^verbatim>\<open>src/src/query/interp/query_ctx.cpp\<close>: scans of the tables, traversals of the relationship lists of a
  node, tests of properties. A consumer
  is an action on the reference it is given (position and version), so it can change the store while the loop runs.
  A scan of a table visits records that its consumer appends; \<open>fuel\<close> bounds the number of records visited, and \<open>Diverges\<close> stands
  for a loop that visits more; in a traversal it bounds the relationships taken from the list or the queue.
\<close>

type_synonym 'q node_consumer = "offset_t \<Rightarrow> vref \<Rightarrow> ('q, unit) gact"
type_synonym 'q rship_consumer = "offset_t \<Rightarrow> vref \<Rightarrow> ('q, unit) gact"

section \<open>Scans\<close>

text \<open>A range-based loop over a vector: \<open>next\<close> is the iterator of the current state.\<close>

fun vec_loop :: "nat \<Rightarrow> ('q graph_db_scheme \<Rightarrow> nat \<Rightarrow> nat option) \<Rightarrow> (nat \<Rightarrow> ('q, unit) gact) \<Rightarrow> nat option \<Rightarrow> ('q, unit) gact" where
  "vec_loop fuel nxt visit None = sret ()"
| "vec_loop 0 nxt visit (Some q) = sthrow Diverges"
| "vec_loop (Suc fuel) nxt visit (Some q) =
     sbind (visit q) (\<lambda>_. sbind (slift (\<lambda>g. Inr (nxt g q))) (\<lambda>it. vec_loop fuel nxt visit it))"

definition for_nodes :: "nat \<Rightarrow> (nat \<Rightarrow> ('q, unit) gact) \<Rightarrow> ('q, unit) gact" where
  "for_nodes fuel visit = sbind (slift (\<lambda>g. Inr (cv_begin (g_nodes g)))) (vec_loop fuel (\<lambda>g. cv_iter_next (g_nodes g)) visit)"

definition for_rships :: "nat \<Rightarrow> (nat \<Rightarrow> ('q, unit) gact) \<Rightarrow> ('q, unit) gact" where
  "for_rships fuel visit = sbind (slift (\<lambda>g. Inr (cv_begin (g_rships g)))) (vec_loop fuel (\<lambda>g. cv_iter_next (g_rships g)) visit)"

text \<open>\<open>try ... catch (unknown_id&) {}\<close>\<close>

definition ignore_unknown :: "('q, unit) gact \<Rightarrow> ('q, unit) gact" where
  "ignore_unknown act g = (case act g of (Inl Unknown_id, g') \<Rightarrow> (Inr (), g') | r \<Rightarrow> r)"

definition at_node :: "nat \<Rightarrow> ('q, node) gact" where
  "at_node q = slift (\<lambda>g. cv_at (g_nodes g) q)"

definition at_rship :: "nat \<Rightarrow> ('q, rship) gact" where
  "at_rship q = slift (\<lambda>g. cv_at (g_rships g) q)"

definition nodes_by_label :: "nat \<Rightarrow> hash \<Rightarrow> nat \<Rightarrow> string \<Rightarrow> 'q node_consumer \<Rightarrow> ('q, unit) gact" where
  "nodes_by_label fuel h th label consumer =
     sbind (check_tx_context th) (\<lambda>tx.
     sbind (get_code h label) (\<lambda>lc.
     for_nodes fuel (\<lambda>q.
       sbind (at_node q) (\<lambda>n.
       if is_valid (o_elem n) then
         sbind (srun (get_valid_node_version (xid tx) n)) (\<lambda>r.
         sbind (srun (o_get n r)) (\<lambda>e.
         if nd_label (body e) = lc then consumer q r else sret ()))
       else sret ()))))"

definition nodes_by_labels :: "nat \<Rightarrow> hash \<Rightarrow> nat \<Rightarrow> string list \<Rightarrow> 'q node_consumer \<Rightarrow> ('q, unit) gact" where
  "nodes_by_labels fuel h th labels consumer =
     sbind (check_tx_context th) (\<lambda>tx.
     sbind (slift (\<lambda>g. Inr (map (\<lambda>l. dict_lookup_string h l (g_dict g)) labels))) (\<lambda>codes.
     for_nodes fuel (\<lambda>q.
       sbind (at_node q) (\<lambda>n.
       if is_valid (o_elem n) then
         sbind (srun (get_valid_node_version (xid tx) n)) (\<lambda>r.
         sbind (srun (o_get n r)) (\<lambda>e.
         if nd_label (body e) \<in> set codes then consumer q r else sret ()))
       else sret ()))))"

definition nodes :: "nat \<Rightarrow> nat \<Rightarrow> 'q node_consumer \<Rightarrow> ('q, unit) gact" where
  "nodes fuel th consumer =
     sbind (check_tx_context th) (\<lambda>tx.
     for_nodes fuel (\<lambda>q.
       sbind (at_node q) (\<lambda>n.
       if is_valid (o_elem n) then
         ignore_unknown (sbind (srun (get_valid_node_version (xid tx) n)) (\<lambda>r. consumer q r))
       else sret ())))"

text \<open>The properties with key and predicate, in a loop over the property table; the owner of each is read.\<close>

fun visit_items :: "nat \<Rightarrow> dcode_t \<Rightarrow> (p_item \<Rightarrow> bool) \<Rightarrow> 'q node_consumer \<Rightarrow> nat \<Rightarrow> nat \<Rightarrow> ('q, unit) gact" where
  "visit_items th pc pred consumer q 0 = sret ()"
| "visit_items th pc pred consumer q (Suc k) =
     sbind (slift (\<lambda>g. cv_at (g_nprops g) q)) (\<lambda>p.
     let it = ps_items p ! (length (ps_items p) - Suc k) in
     sbind (if pi_key it = pc \<and> pred it then sbind (node_by_id th (ps_owner p)) (\<lambda>r. consumer (ps_owner p) r) else sret ()) (\<lambda>_.
     visit_items th pc pred consumer q k))"

definition nodes_where :: "nat \<Rightarrow> hash \<Rightarrow> nat \<Rightarrow> string \<Rightarrow> (p_item \<Rightarrow> bool) \<Rightarrow> 'q node_consumer \<Rightarrow> ('q, unit) gact" where
  "nodes_where fuel h th pkey pred consumer =
     sbind (get_code h pkey) (\<lambda>pc.
     sbind (slift (\<lambda>g. Inr (cv_begin (g_nprops g)))) (\<lambda>it.
     vec_loop fuel (\<lambda>g. cv_iter_next (g_nprops g)) (\<lambda>q. visit_items th pc pred consumer q 3) it))"

definition relationships_by_labels :: "nat \<Rightarrow> hash \<Rightarrow> nat \<Rightarrow> string list \<Rightarrow> 'q rship_consumer \<Rightarrow> ('q, unit) gact" where
  "relationships_by_labels fuel h th labels consumer =
     sbind (check_tx_context th) (\<lambda>tx.
     sbind (slift (\<lambda>g. Inr (map (\<lambda>l. dict_lookup_string h l (g_dict g)) labels))) (\<lambda>codes.
     for_rships fuel (\<lambda>q.
       sbind (at_rship q) (\<lambda>r.
       if is_valid (o_elem r) then
         sbind (srun (get_valid_rship_version (xid tx) r)) (\<lambda>v.
         sbind (srun (o_get r v)) (\<lambda>e.
         if rs_label (body e) \<in> set codes then consumer q v else sret ()))
       else sret ()))))"

text \<open>This variant does not test \<open>is_valid\<close>.\<close>

definition relationships_by_label :: "nat \<Rightarrow> hash \<Rightarrow> nat \<Rightarrow> string \<Rightarrow> 'q rship_consumer \<Rightarrow> ('q, unit) gact" where
  "relationships_by_label fuel h th label consumer =
     sbind (check_tx_context th) (\<lambda>tx.
     sbind (get_code h label) (\<lambda>lc.
     for_rships fuel (\<lambda>q.
       sbind (at_rship q) (\<lambda>r.
       sbind (srun (get_valid_rship_version (xid tx) r)) (\<lambda>v.
       sbind (srun (o_get r v)) (\<lambda>e.
       if rs_label (body e) = lc then consumer q v else sret ()))))))"

section \<open>Parallel scans\<close>

text \<open>
  A parallel scan submits one task per \<open>CHUNKS_PER_THREAD\<close> chunks; \<open>scan_ranges\<close> gives their chunk ranges. A task runs in a thread
  of the pool, sets the transaction of this thread and visits its range. The start slot of a range is visited without a test whether it
  is used: the record there is read as it is.
\<close>

definition CHUNKS_PER_THREAD :: nat where
  "CHUNKS_PER_THREAD = 50"

function scan_ranges_from :: "nat \<Rightarrow> nat \<Rightarrow> (nat \<times> nat) list" where
  "scan_ranges_from num start =
     (if start < num then (start, start + CHUNKS_PER_THREAD - 1) # scan_ranges_from num (start + CHUNKS_PER_THREAD) else [])"
  by pat_completeness auto
termination by (relation "measure (\<lambda>(num, start). num - start)") (auto simp: CHUNKS_PER_THREAD_def)

definition scan_ranges :: "nat \<Rightarrow> (nat \<times> nat) list" where
  "scan_ranges num = scan_ranges_from num 0"

declare scan_ranges_from.simps [simp del]

definition raw_at :: "'a cvec \<Rightarrow> nat \<Rightarrow> 'a" where
  "raw_at v q = ch_data (chunk_list v ! (q div elems_per_chunk v)) ! (q mod elems_per_chunk v)"

definition enter_task :: "nat \<Rightarrow> transaction option \<Rightarrow> ('q, xid_t) gact" where
  "enter_task th tx g =
     (case tx of None \<Rightarrow> (Inr 0, g) | Some t \<Rightarrow> (Inr (xid t), g\<lparr>g_current := (g_current g)(th \<mapsto> t)\<rparr>))"

text \<open>The range iterator: its start, and the next used slot up to the end of chunk \<open>hi\<close>.\<close>

definition range_begin :: "'a cvec \<Rightarrow> nat \<Rightarrow> nat \<Rightarrow> nat option result" where
  "range_begin v lo hi =
     (if chunk_list v = [] then Inr None
      else if length (chunk_list v) \<le> lo then Inl Undefined_behaviour
      else Inr (if lo \<le> hi then Some (lo * elems_per_chunk v) else None))"

definition range_next :: "'a cvec \<Rightarrow> nat \<Rightarrow> nat \<Rightarrow> nat option" where
  "range_next v hi q = find (cv_used v) [Suc q..<min (Suc hi) (length (chunk_list v)) * elems_per_chunk v]"

definition for_node_range :: "nat \<Rightarrow> nat \<Rightarrow> nat \<Rightarrow> (nat \<Rightarrow> ('q, unit) gact) \<Rightarrow> ('q, unit) gact" where
  "for_node_range fuel lo hi visit =
     sbind (slift (\<lambda>g. range_begin (g_nodes g) lo hi)) (vec_loop fuel (\<lambda>g. range_next (g_nodes g) hi) visit)"

definition for_rship_range :: "nat \<Rightarrow> nat \<Rightarrow> nat \<Rightarrow> (nat \<Rightarrow> ('q, unit) gact) \<Rightarrow> ('q, unit) gact" where
  "for_rship_range fuel lo hi visit =
     sbind (slift (\<lambda>g. range_begin (g_rships g) lo hi)) (vec_loop fuel (\<lambda>g. range_next (g_rships g) hi) visit)"

definition node_scan :: "nat \<Rightarrow> nat \<Rightarrow> transaction option \<Rightarrow> nat \<Rightarrow> nat \<Rightarrow> 'q node_consumer \<Rightarrow> ('q, unit) gact" where
  "node_scan fuel th tx first lst consumer =
     sbind (enter_task th tx) (\<lambda>x.
     for_node_range fuel first lst (\<lambda>q.
       sbind (slift (\<lambda>g. Inr (raw_at (g_nodes g) q))) (\<lambda>n.
       if is_valid (o_elem n) then
         sbind (srun (get_valid_node_version x n)) (\<lambda>r. consumer q r)
       else sret ())))"

definition node_scan_with_label :: "nat \<Rightarrow> nat \<Rightarrow> transaction option \<Rightarrow> nat \<Rightarrow> nat \<Rightarrow> dcode_t \<Rightarrow> 'q node_consumer \<Rightarrow> ('q, unit) gact" where
  "node_scan_with_label fuel th tx first lst label consumer =
     sbind (enter_task th tx) (\<lambda>x.
     for_node_range fuel first lst (\<lambda>q.
       sbind (slift (\<lambda>g. Inr (raw_at (g_nodes g) q))) (\<lambda>n.
       if is_valid (o_elem n) then
         sbind (srun (get_valid_node_version x n)) (\<lambda>r.
         sbind (srun (o_get n r)) (\<lambda>e. if nd_label (body e) = label then consumer q r else sret ()))
       else sret ())))"

definition rship_scan :: "nat \<Rightarrow> nat \<Rightarrow> transaction option \<Rightarrow> nat \<Rightarrow> nat \<Rightarrow> 'q rship_consumer \<Rightarrow> ('q, unit) gact" where
  "rship_scan fuel th tx first lst consumer =
     sbind (enter_task th tx) (\<lambda>x.
     for_rship_range fuel first lst (\<lambda>q.
       sbind (slift (\<lambda>g. Inr (raw_at (g_rships g) q))) (\<lambda>n.
       if is_valid (o_elem n) then
         sbind (srun (get_valid_rship_version x n)) (\<lambda>r. consumer q r)
       else sret ())))"

definition rship_scan_with_label :: "nat \<Rightarrow> nat \<Rightarrow> transaction option \<Rightarrow> nat \<Rightarrow> nat \<Rightarrow> dcode_t \<Rightarrow> 'q rship_consumer \<Rightarrow> ('q, unit) gact" where
  "rship_scan_with_label fuel th tx first lst label consumer =
     sbind (enter_task th tx) (\<lambda>x.
     for_rship_range fuel first lst (\<lambda>q.
       sbind (slift (\<lambda>g. Inr (raw_at (g_rships g) q))) (\<lambda>n.
       if is_valid (o_elem n) then
         sbind (srun (get_valid_rship_version x n)) (\<lambda>r.
         sbind (srun (o_get n r)) (\<lambda>e. if rs_label (body e) = label then consumer q r else sret ()))
       else sret ())))"

text \<open>The tasks of a parallel scan, run one after the other by one thread of the pool.\<close>

definition parallel_nodes :: "nat \<Rightarrow> nat \<Rightarrow> nat \<Rightarrow> 'q node_consumer \<Rightarrow> ('q, unit) gact" where
  "parallel_nodes fuel th worker consumer =
     sbind (check_tx_context th) (\<lambda>tx.
     sbind (slift (\<lambda>g. Inr (scan_ranges (length (chunk_list (g_nodes g)))))) (\<lambda>rs.
     for_each (\<lambda>(first, lst). node_scan fuel worker (Some tx) first lst consumer) rs))"

definition parallel_nodes_with_label :: "nat \<Rightarrow> hash \<Rightarrow> nat \<Rightarrow> nat \<Rightarrow> string \<Rightarrow> 'q node_consumer \<Rightarrow> ('q, unit) gact" where
  "parallel_nodes_with_label fuel h th worker label consumer =
     sbind (check_tx_context th) (\<lambda>tx.
     sbind (get_code h label) (\<lambda>lc.
     sbind (slift (\<lambda>g. Inr (scan_ranges (length (chunk_list (g_nodes g)))))) (\<lambda>rs.
     for_each (\<lambda>(first, lst). node_scan_with_label fuel worker (Some tx) first lst lc consumer) rs)))"

definition parallel_relationships :: "nat \<Rightarrow> nat \<Rightarrow> nat \<Rightarrow> 'q rship_consumer \<Rightarrow> ('q, unit) gact" where
  "parallel_relationships fuel th worker consumer =
     sbind (check_tx_context th) (\<lambda>tx.
     sbind (slift (\<lambda>g. Inr (scan_ranges (length (chunk_list (g_rships g)))))) (\<lambda>rs.
     for_each (\<lambda>(first, lst). rship_scan fuel worker (Some tx) first lst consumer) rs))"

definition parallel_relationships_with_label :: "nat \<Rightarrow> hash \<Rightarrow> nat \<Rightarrow> nat \<Rightarrow> string \<Rightarrow> 'q rship_consumer \<Rightarrow> ('q, unit) gact" where
  "parallel_relationships_with_label fuel h th worker label consumer =
     sbind (check_tx_context th) (\<lambda>tx.
     sbind (get_code h label) (\<lambda>lc.
     sbind (slift (\<lambda>g. Inr (scan_ranges (length (chunk_list (g_rships g)))))) (\<lambda>rs.
     for_each (\<lambda>(first, lst). rship_scan_with_label fuel worker (Some tx) first lst lc consumer) rs)))"

section \<open>Relationships of a node\<close>

definition rship_at :: "offset_t \<Rightarrow> vref \<Rightarrow> ('q, rship_body elem) gact" where
  "rship_at i q = sbind (get_rship i) (\<lambda>r. srun (o_get r q))"

definition node_at :: "offset_t \<Rightarrow> vref \<Rightarrow> ('q, node_body elem) gact" where
  "node_at i r = sbind (get_node i) (\<lambda>n. srun (o_get n r))"

text \<open>The loop over a relationship list: \<open>nxt\<close> is the link it follows, read after the consumer has run.\<close>

fun rship_walk :: "nat \<Rightarrow> nat \<Rightarrow> (rship_body \<Rightarrow> offset_t) \<Rightarrow> (rship_body elem \<Rightarrow> bool) \<Rightarrow> 'q rship_consumer \<Rightarrow> offset_t \<Rightarrow> ('q, unit) gact" where
  "rship_walk 0 th nxt sel consumer i = (if i = UNKNOWN then sret () else sthrow Diverges)"
| "rship_walk (Suc fuel) th nxt sel consumer i =
     (if i = UNKNOWN then sret ()
      else sbind (rship_by_id th i) (\<lambda>q.
           sbind (rship_at i q) (\<lambda>e.
           sbind (if sel e then consumer i q else sret ()) (\<lambda>_.
           sbind (rship_at i q) (\<lambda>e. rship_walk fuel th nxt sel consumer (nxt (body e)))))))"

definition foreach_from_relationship_of_node :: "nat \<Rightarrow> nat \<Rightarrow> node_body \<Rightarrow> 'q rship_consumer \<Rightarrow> ('q, unit) gact" where
  "foreach_from_relationship_of_node fuel th b consumer = rship_walk fuel th rs_next_src is_valid consumer (nd_from_rships b)"

definition foreach_from_relationship_with_code :: "nat \<Rightarrow> nat \<Rightarrow> node_body \<Rightarrow> dcode_t \<Rightarrow> 'q rship_consumer \<Rightarrow> ('q, unit) gact" where
  "foreach_from_relationship_with_code fuel th b lc consumer =
     rship_walk fuel th rs_next_src (\<lambda>e. rs_label (body e) = lc) consumer (nd_from_rships b)"

definition foreach_from_relationship_with_label :: "nat \<Rightarrow> hash \<Rightarrow> nat \<Rightarrow> node_body \<Rightarrow> string \<Rightarrow> 'q rship_consumer \<Rightarrow> ('q, unit) gact" where
  "foreach_from_relationship_with_label fuel h th b label consumer =
     sbind (get_code h label) (\<lambda>lc. foreach_from_relationship_with_code fuel th b lc consumer)"

definition foreach_to_relationship_of_node :: "nat \<Rightarrow> nat \<Rightarrow> node_body \<Rightarrow> 'q rship_consumer \<Rightarrow> ('q, unit) gact" where
  "foreach_to_relationship_of_node fuel th b consumer = rship_walk fuel th rs_next_dest is_valid consumer (nd_to_rships b)"

definition foreach_to_relationship_with_code :: "nat \<Rightarrow> nat \<Rightarrow> node_body \<Rightarrow> dcode_t \<Rightarrow> 'q rship_consumer \<Rightarrow> ('q, unit) gact" where
  "foreach_to_relationship_with_code fuel th b lc consumer =
     rship_walk fuel th rs_next_dest (\<lambda>e. rs_label (body e) = lc) consumer (nd_to_rships b)"

definition foreach_to_relationship_with_label :: "nat \<Rightarrow> hash \<Rightarrow> nat \<Rightarrow> node_body \<Rightarrow> string \<Rightarrow> 'q rship_consumer \<Rightarrow> ('q, unit) gact" where
  "foreach_to_relationship_with_label fuel h th b label consumer =
     sbind (get_code h label) (\<lambda>lc. foreach_to_relationship_with_code fuel th b lc consumer)"

section \<open>Paths of variable length\<close>

text \<open>
  A queue holds relationships with the number of hops to them. \<open>nxt\<close> is the next relationship of the list, \<open>far\<close> the node
  at the other end and \<open>hd_of\<close> the head of its list. The number of hops never exceeds \<open>max + 1\<close>; it is unbounded in the model.
\<close>

type_synonym hop_queue = "(offset_t \<times> nat) list"

fun var_walk ::
  "nat \<Rightarrow> nat \<Rightarrow> (rship_body \<Rightarrow> offset_t) \<Rightarrow> (rship_body \<Rightarrow> offset_t) \<Rightarrow> (node_body \<Rightarrow> offset_t) \<Rightarrow> nat \<Rightarrow> nat \<Rightarrow>
   'q rship_consumer \<Rightarrow> hop_queue \<Rightarrow> ('q, unit) gact" where
  "var_walk fuel th nxt far hd_of mn mx consumer [] = sret ()"
| "var_walk 0 th nxt far hd_of mn mx consumer (p # queue) = sthrow Diverges"
| "var_walk (Suc fuel) th nxt far hd_of mn mx consumer ((rid, hops) # queue) =
     (if rid = UNKNOWN \<or> mx < hops then var_walk fuel th nxt far hd_of mn mx consumer queue
      else sbind (rship_by_id th rid) (\<lambda>q.
           sbind (if mn \<le> hops then consumer rid q else sret ()) (\<lambda>_.
           sbind (rship_at rid q) (\<lambda>e.
           sbind (node_by_id th (far (body e))) (\<lambda>r.
           sbind (node_at (far (body e)) r) (\<lambda>d.
           var_walk fuel th nxt far hd_of mn mx consumer (queue @ [(nxt (body e), hops), (hd_of (body d), Suc hops)])))))))"

definition foreach_variable_from_relationship_of_node ::
  "nat \<Rightarrow> nat \<Rightarrow> node_body \<Rightarrow> nat \<Rightarrow> nat \<Rightarrow> 'q rship_consumer \<Rightarrow> ('q, unit) gact" where
  "foreach_variable_from_relationship_of_node fuel th b mn mx consumer =
     var_walk fuel th rs_next_src rs_dest_node nd_from_rships mn mx consumer [(nd_from_rships b, 1)]"

definition foreach_variable_to_relationship_of_node ::
  "nat \<Rightarrow> nat \<Rightarrow> node_body \<Rightarrow> nat \<Rightarrow> nat \<Rightarrow> 'q rship_consumer \<Rightarrow> ('q, unit) gact" where
  "foreach_variable_to_relationship_of_node fuel th b mn mx consumer =
     var_walk fuel th rs_next_dest rs_src_node nd_to_rships mn mx consumer [(nd_to_rships b, 1)]"

text \<open>The relationships that follow in a list, up to the end mark.\<close>

fun next_ids :: "nat \<Rightarrow> nat \<Rightarrow> (rship_body \<Rightarrow> offset_t) \<Rightarrow> offset_t \<Rightarrow> ('q, offset_t list) gact" where
  "next_ids 0 th nxt i = (if i = UNKNOWN then sret [] else sthrow Diverges)"
| "next_ids (Suc fuel) th nxt i =
     (if i = UNKNOWN then sret []
      else sbind (rship_by_id th i) (\<lambda>q.
           sbind (rship_at i q) (\<lambda>e.
           sbind (next_ids fuel th nxt (nxt (body e))) (\<lambda>js. sret (nxt (body e) # js)))))"

text \<open>
  With a label. \<open>S\<close> is the set of relationships already consumed; \<open>cnt\<close> counts the possible matches at \<open>mrh\<close> hops that are
  left, \<open>mrid\<close> is the last one looked at.
\<close>

fun var_label_walk ::
  "nat \<Rightarrow> nat \<Rightarrow> (rship_body \<Rightarrow> offset_t) \<Rightarrow> (rship_body \<Rightarrow> offset_t) \<Rightarrow> (node_body \<Rightarrow> offset_t) \<Rightarrow> dcode_t \<Rightarrow> nat \<Rightarrow> nat \<Rightarrow>
   'q rship_consumer \<Rightarrow> offset_t list \<Rightarrow> int \<Rightarrow> nat \<Rightarrow> offset_t \<Rightarrow> hop_queue \<Rightarrow> ('q, unit) gact" where
  "var_label_walk fuel th nxt far hd_of lc mn mx consumer S cnt mrh mrid [] = sret ()"
| "var_label_walk 0 th nxt far hd_of lc mn mx consumer S cnt mrh mrid (p # queue) = sthrow Diverges"
| "var_label_walk (Suc fuel) th nxt far hd_of lc mn mx consumer S cnt mrh mrid ((rid, hops) # queue) =
     (let cnt1 = (if hops = mrh then cnt - 1 else cnt); mrid1 = (if hops = mrh then rid else mrid) in
      if rid = UNKNOWN \<or> mx < hops then var_label_walk fuel th nxt far hd_of lc mn mx consumer S cnt1 mrh mrid1 queue
      else
        sbind (rship_by_id th rid) (\<lambda>q.
        sbind (rship_at rid q) (\<lambda>e.
        if queue = [] \<and> rs_label (body e) \<noteq> lc then
          (if 0 < cnt1 then
             sbind (rship_by_id th mrid1) (\<lambda>q2.
             sbind (rship_at mrid1 q2) (\<lambda>e2.
             var_label_walk fuel th nxt far hd_of lc mn mx consumer S cnt1 mrh (nxt (body e2)) [(nxt (body e2), mrh)]))
           else if nxt (body e) \<noteq> UNKNOWN then
             sbind (next_ids fuel th nxt (nxt (body e))) (\<lambda>js.
             var_label_walk fuel th nxt far hd_of lc mn mx consumer S (int (length js)) hops (nxt (body e)) [(nxt (body e), hops)])
           else var_label_walk fuel th nxt far hd_of lc mn mx consumer S cnt1 mrh mrid1 [])
        else if rs_label (body e) \<noteq> lc \<or> mn \<le> hops \<and> rs_id (body e) \<in> set S then
          var_label_walk fuel th nxt far hd_of lc mn mx consumer S cnt1 mrh mrid1 queue
        else
          sbind (if mn \<le> hops then consumer rid q else sret ()) (\<lambda>_.
          sbind (rship_at rid q) (\<lambda>e'.
          sbind (node_by_id th (far (body e'))) (\<lambda>r.
          sbind (node_at (far (body e')) r) (\<lambda>d.
          sbind (next_ids fuel th nxt (hd_of (body d))) (\<lambda>js.
          var_label_walk fuel th nxt far hd_of lc mn mx consumer (if mn \<le> hops then rs_id (body e) # S else S) cnt1 mrh mrid1
            (queue @ (nxt (body e'), hops) # map (\<lambda>i. (i, Suc hops)) (hd_of (body d) # js))))))))))"

definition var_label_start ::
  "nat \<Rightarrow> nat \<Rightarrow> (rship_body \<Rightarrow> offset_t) \<Rightarrow> (rship_body \<Rightarrow> offset_t) \<Rightarrow> (node_body \<Rightarrow> offset_t) \<Rightarrow> node_body \<Rightarrow> dcode_t \<Rightarrow> nat \<Rightarrow> nat \<Rightarrow>
   'q rship_consumer \<Rightarrow> ('q, unit) gact" where
  "var_label_start fuel th nxt far hd_of b lc mn mx consumer =
     sbind (next_ids fuel th nxt (hd_of b)) (\<lambda>js.
     var_label_walk fuel th nxt far hd_of lc mn mx consumer [] (int (length js)) 1 (hd_of b) [(hd_of b, 1)])"

definition foreach_variable_from_relationship_with_code ::
  "nat \<Rightarrow> nat \<Rightarrow> node_body \<Rightarrow> dcode_t \<Rightarrow> nat \<Rightarrow> nat \<Rightarrow> 'q rship_consumer \<Rightarrow> ('q, unit) gact" where
  "foreach_variable_from_relationship_with_code fuel th = var_label_start fuel th rs_next_src rs_dest_node nd_from_rships"

definition foreach_variable_to_relationship_with_code ::
  "nat \<Rightarrow> nat \<Rightarrow> node_body \<Rightarrow> dcode_t \<Rightarrow> nat \<Rightarrow> nat \<Rightarrow> 'q rship_consumer \<Rightarrow> ('q, unit) gact" where
  "foreach_variable_to_relationship_with_code fuel th = var_label_start fuel th rs_next_dest rs_src_node nd_to_rships"

section \<open>Properties\<close>

definition pi_empty :: "p_item \<Rightarrow> bool" where
  "pi_empty p = (pi_type p = P_unused)"

definition is_node_property_code :: "node_body \<Rightarrow> dcode_t \<Rightarrow> (p_item \<Rightarrow> bool) \<Rightarrow> ('q, bool) gact" where
  "is_node_property_code b pc pred =
     sbind (slift (\<lambda>g. pl_property_value (g_nprops g) (nd_property_list b) pc)) (\<lambda>val. sret (\<not> pi_empty val \<and> pred val))"

definition is_node_property :: "hash \<Rightarrow> node_body \<Rightarrow> string \<Rightarrow> (p_item \<Rightarrow> bool) \<Rightarrow> ('q, bool) gact" where
  "is_node_property h b pkey pred = sbind (get_code h pkey) (\<lambda>pc. is_node_property_code b pc pred)"

text \<open>The position is the id of the relationship, not its property list.\<close>

definition is_relationship_property_code :: "rship_body \<Rightarrow> dcode_t \<Rightarrow> (p_item \<Rightarrow> bool) \<Rightarrow> ('q, bool) gact" where
  "is_relationship_property_code b pc pred =
     sbind (slift (\<lambda>g. pl_property_value (g_rprops g) (rs_id b) pc)) (\<lambda>val. sret (\<not> pi_empty val \<and> pred val))"

definition is_relationship_property :: "hash \<Rightarrow> rship_body \<Rightarrow> string \<Rightarrow> (p_item \<Rightarrow> bool) \<Rightarrow> ('q, bool) gact" where
  "is_relationship_property h b pkey pred = sbind (get_code h pkey) (\<lambda>pc. is_relationship_property_code b pc pred)"

text \<open>
  The value a transaction sees: from the property table, or from the valid version. The local \<open>p_item res\<close> is not initialised; it is
  returned as it is when no item of the version has the key.
\<close>

definition current_xid :: "nat \<Rightarrow> ('q, xid_t) gact" where
  "current_xid th = slift (\<lambda>g. case g_current g th of None \<Rightarrow> Inl Undefined_behaviour | Some tx \<Rightarrow> Inr (xid tx))"

definition find_item :: "dcode_t \<Rightarrow> p_item list \<Rightarrow> p_item result" where
  "find_item pc ps = (case find (\<lambda>p. pi_key p = pc) ps of None \<Rightarrow> Inl Undefined_behaviour | Some p \<Rightarrow> Inr p)"

definition get_valid_node_property_value :: "nat \<Rightarrow> offset_t \<Rightarrow> vref \<Rightarrow> dcode_t \<Rightarrow> ('q, p_item) gact" where
  "get_valid_node_property_value th i r pc =
     sbind (get_node i) (\<lambda>n.
     if \<not> has_dirty_versions n then sbind (srun (o_get n r)) (\<lambda>e. get_node_property_value (body e) pc)
     else sbind (current_xid th) (\<lambda>x.
          sbind (srun (find_valid_version x n)) (\<lambda>v.
          sbind (srun (o_version n v)) (\<lambda>dn. srun (find_item pc (v_props dn))))))"

definition get_valid_rship_property_value :: "nat \<Rightarrow> offset_t \<Rightarrow> vref \<Rightarrow> dcode_t \<Rightarrow> ('q, p_item) gact" where
  "get_valid_rship_property_value th i q pc =
     sbind (get_rship i) (\<lambda>r.
     if \<not> has_dirty_versions r then sbind (srun (o_get r q)) (\<lambda>e. get_rship_property_value (body e) pc)
     else sbind (current_xid th) (\<lambda>x.
          sbind (srun (find_valid_version x r)) (\<lambda>v.
          sbind (srun (o_version r v)) (\<lambda>dr. srun (find_item pc (v_props dr))))))"

end
