(* ===== verification/Query_Scan.thy ===== *)
theory Query_Scan
  imports Query_Ctx
begin

text \<open>
  Scans of the tables: what the sequential loops and the tasks of a parallel scan visit.
\<close>

section \<open>Loops that leave the table as it is\<close>

locale scan_visitor =
  fixes tab :: "'q graph_db_scheme \<Rightarrow> 'a cvec" and v :: "'a cvec" and visit :: "nat \<Rightarrow> ('q, unit) gact"
  assumes keeps: "tab g = v \<Longrightarrow> tab (snd (visit q g)) = v"
begin

lemma loop_visits:
  assumes "tab g = v" "length (filter (cv_used v) [a..<stop]) \<le> fuel"
    and nxt: "\<And>g q. tab g = v \<Longrightarrow> nxt g q = find (cv_used v) [Suc q..<stop]"
  shows "vec_loop fuel nxt visit (find (cv_used v) [a..<stop]) g = for_each visit (filter (cv_used v) [a..<stop]) g"
  using assms(1,2)
proof (induction fuel arbitrary: a g)
  case 0
  then have "filter (cv_used v) [a..<stop] = []" by simp
  then show ?case by (cases "find (cv_used v) [a..<stop]") (simp_all add: filter_find_upt [of _ a])
next
  case (Suc fuel)
  show ?case
  proof (cases "find (cv_used v) [a..<stop]")
    case (Some q)
    then have f: "filter (cv_used v) [a..<stop] = q # filter (cv_used v) [Suc q..<stop]" by (simp add: filter_find_upt [of _ a])
    have k: "tab (snd (visit q g)) = v" using keeps Suc.prems(1) by blast
    have "vec_loop fuel nxt visit (find (cv_used v) [Suc q..<stop]) (snd (visit q g)) = for_each visit (filter (cv_used v) [Suc q..<stop]) (snd (visit q g))"
      using Suc.IH [OF k] Suc.prems(2) f by simp
    then show ?thesis unfolding f Some using nxt [OF k]
      by (cases "visit q g"; cases "fst (visit q g)") (simp_all add: sbind_def)
  qed (simp add: filter_find_upt [of _ a])
qed

text \<open>From a position that is visited whether it is used or not.\<close>

lemma loop_visits_from:
  assumes "tab g = v" "length (filter (cv_used v) [Suc q..<stop]) < fuel"
    and nxt: "\<And>g q. tab g = v \<Longrightarrow> nxt g q = find (cv_used v) [Suc q..<stop]"
  shows "vec_loop fuel nxt visit (Some q) g = for_each visit (q # filter (cv_used v) [Suc q..<stop]) g"
proof -
  obtain k where k: "fuel = Suc k" using assms(2) by (cases fuel) auto
  have t: "tab (snd (visit q g)) = v" using keeps assms(1) by blast
  have "vec_loop k nxt visit (find (cv_used v) [Suc q..<stop]) (snd (visit q g)) = for_each visit (filter (cv_used v) [Suc q..<stop]) (snd (visit q g))"
    by (rule loop_visits [OF t _ nxt]) (use assms(2) k in simp_all)
  then show ?thesis using nxt [OF t] unfolding k
    by (cases "visit q g"; cases "fst (visit q g)") (simp_all add: sbind_def)
qed

end

section \<open>Ranges of chunks\<close>

lemma for_each_keeps:
  assumes "\<And>q h. P h \<Longrightarrow> P (snd (f q h))"
  shows "P h \<Longrightarrow> P (snd (for_each f qs h))"
proof (induction qs arbitrary: h)
  case (Cons q qs)
  then show ?case using assms [of h q] by (cases "f q h"; cases "fst (f q h)") (auto simp: sbind_def)
qed (simp add: sret_def)

definition range_positions :: "'a cvec \<Rightarrow> nat \<times> nat \<Rightarrow> nat list" where
  "range_positions v = (\<lambda>(lo, hi). filter (cv_used v) [lo * elems_per_chunk v..<min (Suc hi) (length (chunk_list v)) * elems_per_chunk v])"

text \<open>The ranges of the tasks cut the table into consecutive pieces.\<close>

lemma scan_ranges_from_positions:
  "concat (map (range_positions v) (scan_ranges_from (length (chunk_list v)) start)) =
   filter (cv_used v) [start * elems_per_chunk v..<length (chunk_list v) * elems_per_chunk v]"
proof (induction "length (chunk_list v)" start rule: scan_ranges_from.induct)
  case (1 start)
  let ?n = "elems_per_chunk v" and ?N = "length (chunk_list v)" and ?e = "start + CHUNKS_PER_THREAD"
  show ?case
  proof (cases "start < ?N")
    case True
    have e: "Suc (?e - Suc 0) = ?e" by (simp add: CHUNKS_PER_THREAD_def)
    have "concat (map (range_positions v) (scan_ranges_from ?N start)) =
        filter (cv_used v) [start * ?n..<min ?e ?N * ?n] @ filter (cv_used v) [?e * ?n..<?N * ?n]"
      using True 1 by (simp add: scan_ranges_from.simps [of _ start] range_positions_def e)
    also have "filter (cv_used v) [?e * ?n..<?N * ?n] = filter (cv_used v) [min ?e ?N * ?n..<?N * ?n]"
      by (cases "?e \<le> ?N") (simp_all add: min_def)
    also have "filter (cv_used v) [start * ?n..<min ?e ?N * ?n] @ \<dots> = filter (cv_used v) ([start * ?n..<min ?e ?N * ?n] @ [min ?e ?N * ?n..<?N * ?n])"
      by simp
    also have "[start * ?n..<min ?e ?N * ?n] @ [min ?e ?N * ?n..<?N * ?n] = [start * ?n..<?N * ?n]"
      using True upt_add_eq_append [of "start * ?n" "min ?e ?N * ?n" "?N * ?n - min ?e ?N * ?n"] by simp
    finally show ?thesis .
  qed (simp add: scan_ranges_from.simps [of _ start])
qed

lemma scan_ranges_from_bounds: "(lo, hi) \<in> set (scan_ranges_from n start) \<Longrightarrow> lo < n \<and> lo \<le> hi"
proof (induction n start rule: scan_ranges_from.induct)
  case (1 n start)
  from 1(2) have "start < n" "(lo, hi) = (start, start + CHUNKS_PER_THREAD - 1) \<or> (lo, hi) \<in> set (scan_ranges_from n (start + CHUNKS_PER_THREAD))"
    by (subst (asm) scan_ranges_from.simps, simp split: if_splits)+
  with 1(1) show ?case by (auto simp: CHUNKS_PER_THREAD_def)
qed

section \<open>Parallel and sequential scans\<close>

text \<open>
  What a task does at a used position of the node table: the body of the loop of \<open>node_scan_task::scan\<close>, which lets the exception of an unreadable node
  through. The loop of \<open>nodes\<close> has the same body inside a handler for \<open>unknown_id\<close>.
\<close>

definition node_visit :: "xid_t \<Rightarrow> 'q node_consumer \<Rightarrow> nat \<Rightarrow> ('q, unit) gact" where
  "node_visit x c q =
     sbind (at_node q) (\<lambda>n. if is_valid (o_elem n) then sbind (srun (get_valid_node_version x n)) (\<lambda>r. c q r) else sret ())"

lemma at_node_used:
  assumes "cv_wf (g_nodes g)" "cv_used (g_nodes g) q" "q < capacity (g_nodes g)"
  shows "at_node q g = (Inr (raw_at (g_nodes g) q), g)"
  using assms cv_index_bound [of "g_nodes g" q]
  by (auto simp: at_node_def cv_at_def cv_find_chunk_eq cv_used_def raw_at_def Let_def)

lemma sbind_snd_keeps: "P (snd (m g)) \<Longrightarrow> (\<And>y h. m g = (Inr y, h) \<Longrightarrow> P (snd (f y h))) \<Longrightarrow> P (snd (sbind m f g))"
  by (cases "m g"; cases "fst (m g)") (auto simp: sbind_def)

lemma node_visit_keeps:
  assumes "\<And>q r. P (snd (c q r g))" "P g"
  shows "P (snd (node_visit x c q g))"
  using assms by (auto simp: node_visit_def at_node_def slift_def srun_def sret_def sbind_def split: sum.splits)

lemma for_each_cong_inv:
  assumes "\<And>q h. q \<in> set qs \<Longrightarrow> P h \<Longrightarrow> f q h = f' q h" "\<And>q h. P h \<Longrightarrow> P (snd (f' q h))" "P h"
  shows "for_each f qs h = for_each f' qs h"
  using assms(1,3)
proof (induction qs arbitrary: h)
  case (Cons q qs)
  have "f q h = f' q h" "P (snd (f' q h))" using Cons.prems assms(2) by simp_all
  then show ?case using Cons.IH [of "snd (f' q h)"] Cons.prems(1)
    by (cases "f' q h"; cases "fst (f' q h)") (simp_all add: sbind_def)
qed simp

text \<open>A task visits the used positions of its range.\<close>

lemma node_scan_visits:
  assumes wf: "cv_wf v" and fst: "\<forall>c\<in>set (chunk_list v). ch_slots c ! 0"
    and keeps: "\<And>h q r. g_nodes h = v \<Longrightarrow> g_nodes (snd (c q r h)) = v"
    and g: "g_nodes g = v" "g_current g w = Some tx" and lo: "lo < length (chunk_list v)" "lo \<le> hi" and fuel: "capacity v \<le> fuel"
  shows "node_scan fuel w (Some tx) lo hi c g = for_each (node_visit (xid tx) c) (range_positions v (lo, hi)) g"
proof -
  let ?n = "elems_per_chunk v" and ?x = "xid tx"
  let ?stop = "min (Suc hi) (length (chunk_list v)) * ?n"
  let ?raw = "\<lambda>q. sbind (slift (\<lambda>g. Inr (raw_at (g_nodes g) q))) (\<lambda>n.
       if is_valid (o_elem n) then sbind (srun (get_valid_node_version ?x n)) (\<lambda>r. c q r) else sret ())"
  have n: "0 < ?n" "capacity v = length (chunk_list v) * ?n" using wf by (simp_all add: cv_wf_def)
  have stop: "lo * ?n < ?stop" "?stop \<le> capacity v" using lo n by (auto simp: min_def)
  have "cv_used v (lo * ?n)" using fst lo n by (simp add: cv_used_def chunk_is_used_def)
  then have ps: "range_positions v (lo, hi) = lo * ?n # filter (cv_used v) [Suc (lo * ?n)..<?stop]"
    using stop(1) by (simp add: range_positions_def upt_conv_Cons)
  have "length (filter (cv_used v) [Suc (lo * ?n)..<?stop]) \<le> ?stop - Suc (lo * ?n)" by (rule le_trans [OF length_filter_le]) simp
  then have len: "length (filter (cv_used v) [Suc (lo * ?n)..<?stop]) < fuel" using stop fuel by linarith
  have raw: "?raw q h = node_visit ?x c q h" if "q \<in> set (range_positions v (lo, hi))" "g_nodes h = v" for q h
    using that at_node_used [of h q] wf stop(2) by (auto simp: range_positions_def node_visit_def sbind_def)
  have kv: "g_nodes (snd (node_visit ?x c q h)) = v" if "g_nodes h = v" for q h
    by (rule node_visit_keeps) (use that keeps in simp_all)
  have "scan_visitor g_nodes v ?raw"
    by unfold_locales (use keeps in \<open>auto simp: sbind_def slift_def srun_def sret_def split: sum.splits\<close>)
  from scan_visitor.loop_visits_from [OF this g(1), of "lo * ?n" ?stop fuel "\<lambda>g. range_next (g_nodes g) hi"]
  have "vec_loop fuel (\<lambda>g. range_next (g_nodes g) hi) ?raw (Some (lo * ?n)) g = for_each ?raw (range_positions v (lo, hi)) g"
    unfolding ps using len by (simp add: range_next_def)
  moreover have "enter_task w (Some tx) g = (Inr ?x, g)" using g(2) by (simp add: enter_task_def fun_upd_idem)
  moreover have "range_begin v lo hi = Inr (Some (lo * ?n))" using lo by (auto simp: range_begin_def)
  ultimately
  have "node_scan fuel w (Some tx) lo hi c g = for_each ?raw (range_positions v (lo, hi)) g"
    using g(1) by (simp add: node_scan_def for_node_range_def sbind_def [of "enter_task w (Some tx)"] sbind_def [of "slift (\<lambda>g. range_begin (g_nodes g) lo hi)"])
  also have "\<dots> = for_each (node_visit ?x c) (range_positions v (lo, hi)) g"
    by (rule for_each_cong_inv [where P = "\<lambda>h. g_nodes h = v"]) (use raw kv g in simp_all)
  finally show ?thesis .
qed

lemma for_nodes_visits:
  assumes wf: "cv_wf v" and ne: "chunk_list v = [] \<or> \<not> chunk_is_empty (hd (chunk_list v))"
    and keeps: "\<And>h q. g_nodes h = v \<Longrightarrow> g_nodes (snd (visit q h)) = v" and g: "g_nodes g = v" and fuel: "capacity v \<le> fuel"
  shows "for_nodes fuel visit g = for_each visit (filter (cv_used v) [0..<length (chunk_list v) * elems_per_chunk v]) g"
proof -
  let ?N = "length (chunk_list v) * elems_per_chunk v"
  have "scan_visitor g_nodes v visit" by unfold_locales (use keeps in blast)
  from scan_visitor.loop_visits [OF this g, of 0 ?N fuel "\<lambda>g. cv_iter_next (g_nodes g)"]
  have "vec_loop fuel (\<lambda>g. cv_iter_next (g_nodes g)) visit (find (cv_used v) [0..<?N]) g = for_each visit (filter (cv_used v) [0..<?N]) g"
    using fuel wf length_filter_le [of "cv_used v" "[0..<?N]"] by (simp add: cv_iter_next_def cv_wf_def)
  then show ?thesis using g by (simp add: for_nodes_def sbind_def cv_begin_used [OF wf ne])
qed

lemma first_chunk_used:
  assumes "cv_wf v" "chunk_list v \<noteq> []" "\<forall>ch\<in>set (chunk_list v). ch_slots ch ! 0"
  shows "\<not> chunk_is_empty (hd (chunk_list v))"
proof -
  have "chunk_inv (elems_per_chunk v) (hd (chunk_list v))" "ch_slots (hd (chunk_list v)) ! 0" "0 < elems_per_chunk v" using assms by (simp_all add: cv_wf_def)
  moreover from this have "ch_slots (hd (chunk_list v)) ! 0 \<in> set (ch_slots (hd (chunk_list v)))" by (intro nth_mem) (simp add: chunk_inv_def)
  ultimately show ?thesis by (auto simp: chunk_is_empty_def)
qed

lemma tasks_visit:
  assumes wf: "cv_wf v" and fst: "\<forall>c\<in>set (chunk_list v). ch_slots c ! 0"
    and keeps: "\<And>h q r. g_nodes h = v \<Longrightarrow> g_nodes (snd (c q r h)) = v" and tx: "\<And>h q r. g_current (snd (c q r h)) = g_current h"
    and fuel: "capacity v \<le> fuel"
  shows "g_nodes g = v \<Longrightarrow> g_current g w = Some t \<Longrightarrow> \<forall>(lo, hi)\<in>set rs. lo < length (chunk_list v) \<and> lo \<le> hi \<Longrightarrow>
    for_each (\<lambda>(lo, hi). node_scan fuel w (Some t) lo hi c) rs g = for_each (node_visit (xid t) c) (concat (map (range_positions v) rs)) g"
proof (induction rs arbitrary: g)
  case (Cons r rs)
  obtain lo hi where r: "r = (lo, hi)" by (cases r)
  let ?f = "for_each (node_visit (xid t) c) (range_positions v r)"
  have "node_scan fuel w (Some t) lo hi c g = ?f g"
    unfolding r by (rule node_scan_visits [OF wf fst keeps]) (use Cons.prems fuel r in auto)
  moreover have "g_nodes (snd (?f g)) = v \<and> g_current (snd (?f g)) w = Some t"
    by (rule for_each_keeps [where P = "\<lambda>h. g_nodes h = v \<and> g_current h w = Some t"], rule node_visit_keeps)
      (use keeps tx Cons.prems in simp_all)
  ultimately show ?case using Cons
    by (cases "?f g"; cases "fst (?f g)") (simp_all add: r for_each_append sbind_def)
qed simp

lemma parallel_nodes_visits:
  assumes "cv_wf (g_nodes g)" "chunk_list (g_nodes g) \<noteq> []" "\<forall>ch\<in>set (chunk_list (g_nodes g)). ch_slots ch ! 0"
    and "\<And>h q r. g_nodes h = g_nodes g \<Longrightarrow> g_nodes (snd (c q r h)) = g_nodes g" "\<And>h q r. g_current (snd (c q r h)) = g_current h"
    and "g_current g th = Some tx" "capacity (g_nodes g) \<le> fuel"
  shows "parallel_nodes fuel th worker c g = for_nodes fuel (node_visit (xid tx) c) (g\<lparr>g_current := (g_current g)(worker \<mapsto> tx)\<rparr>)"
proof -
  let ?v = "g_nodes g" and ?w = "g\<lparr>g_current := (g_current g)(worker \<mapsto> tx)\<rparr>"
  let ?task = "\<lambda>(lo, hi). node_scan fuel worker (Some tx) lo hi c"
  let ?rs = "scan_ranges (length (chunk_list ?v))"
  have n: "0 < length (chunk_list ?v)" "0 < elems_per_chunk ?v" using assms(1,2) by (simp_all add: cv_wf_def)
  have "\<exists>r rs. ?rs = r # rs" using n(1) by (simp add: scan_ranges_def scan_ranges_from.simps)
  then have enter: "for_each ?task ?rs g = for_each ?task ?rs ?w"
    by (auto simp: node_scan_def sbind_def enter_task_def split: prod.splits)
  have "parallel_nodes fuel th worker c g = for_each ?task ?rs g"
    by (simp add: parallel_nodes_def sbind_def check_run [OF assms(6)])
  also have "\<dots> = for_each (node_visit (xid tx) c) (concat (map (range_positions ?v) ?rs)) ?w"
    unfolding enter by (rule tasks_visit [OF assms(1,3,4,5,7)]) (auto simp: scan_ranges_def dest: scan_ranges_from_bounds)
  also have "concat (map (range_positions ?v) ?rs) = filter (cv_used ?v) [0..<length (chunk_list ?v) * elems_per_chunk ?v]"
    by (simp add: scan_ranges_def scan_ranges_from_positions)
  also have "for_each (node_visit (xid tx) c) \<dots> ?w = for_nodes fuel (node_visit (xid tx) c) ?w"
    by (rule for_nodes_visits [OF assms(1), symmetric]) (use assms(4,7) first_chunk_used [OF assms(1-3)] in \<open>auto intro: node_visit_keeps\<close>)
  finally show ?thesis .
qed


text \<open>The consumer of a query that reads a property of each node.\<close>

definition read_property :: "nat \<Rightarrow> dcode_t \<Rightarrow> 'q node_consumer" where
  "read_property th pc i r = sbind (get_valid_node_property_value th i r pc) (\<lambda>_. sret ())"

lemma read_property_keeps: "snd (read_property th pc i r g) = g"
  by (auto simp: read_property_def get_valid_node_property_value_def get_node_property_value_def get_node_def current_xid_def sbind_def slift_def srun_def
      sret_def split: sum.splits prod.splits option.splits)

interpretation property_scan: scan_visitor g_nodes v "node_visit x (read_property th pc)" for v x th pc
  by unfold_locales (rule node_visit_keeps, simp_all add: read_property_keeps)


text \<open>
  A parallel scan delivers removed nodes: the first slot of a range is visited without a test whether it is in use. In a table of one
  chunk from which all nodes were removed, the sequential scan visits nothing, and the parallel scan calls the consumer with the record
  that was left in the first slot.
\<close>

theorem parallel_scan_unused:
  assumes "chunk_list (g_nodes g) = [ch]" "cv_wf (g_nodes g)" "chunk_is_empty ch"
    and "is_valid (o_elem (ch_data ch ! 0))" "get_valid_node_version (xid tx) (ch_data ch ! 0) = Inr r"
    and "g_current g th = Some tx" "0 < fuel"
    and "g_nodes (snd (c 0 r (g\<lparr>g_current := (g_current g)(worker \<mapsto> tx)\<rparr>))) = g_nodes g"
  shows "nodes fuel th c g = (Inr (), g) \<and> parallel_nodes fuel th worker c g = c 0 r (g\<lparr>g_current := (g_current g)(worker \<mapsto> tx)\<rparr>)"
proof
  let ?v = "g_nodes g" and ?w = "g\<lparr>g_current := (g_current g)(worker \<mapsto> tx)\<rparr>"
  have n: "0 < elems_per_chunk ?v" "length (ch_slots ch) = elems_per_chunk ?v" using assms(1,2) by (auto simp: cv_wf_def chunk_inv_def)
  have u: "\<not> chunk_is_used ch i" if "i < elems_per_chunk ?v" for i
    using assms(3) nth_mem [of i "ch_slots ch"] that unfolding n(2) chunk_is_empty_def chunk_is_used_def by blast
  then have "find (chunk_is_used ch) [0..<elems_per_chunk ?v] = None" by (simp add: find_None_iff)
  then show "nodes fuel th c g = (Inr (), g)"
    using assms(1,6) by (simp add: nodes_def for_nodes_def sbind_def check_run cv_begin_def sret_def)
  have f: "range_next ?v hi 0 = None" for hi
    using assms(1) u by (auto simp: range_next_def find_upt_None cv_used_def)
  obtain k where k: "fuel = Suc k" using assms(7) by (cases fuel) auto
  have rs: "scan_ranges (Suc 0) = [(0, 49)]"
    by (simp add: scan_ranges_def scan_ranges_from.simps [of "Suc 0" 0] scan_ranges_from.simps [of "Suc 0" 50] CHUNKS_PER_THREAD_def)
  have "raw_at ?v 0 = ch_data ch ! 0" using assms(1) by (simp add: raw_at_def)
  moreover have "range_begin ?v 0 49 = Inr (Some 0)" using assms(1) by (simp add: range_begin_def)
  ultimately show "parallel_nodes fuel th worker c g = c 0 r ?w"
    using assms(1,4,5,6,8) f rs k
    by (cases "c 0 r ?w"; cases "fst (c 0 r ?w)")
      (simp_all add: parallel_nodes_def node_scan_def for_node_range_def sbind_def check_run enter_task_def sret_def)
qed

definition removed_demo :: graph_db where
  "removed_demo = snd (remove_node 0 (db_demo \<lparr>o_elem = node_elem_demo 0 3 INF_TS False, o_list = None\<rparr>))"

lemma removed_demo_nodes:
  "g_nodes removed_demo = \<lparr>capacity = 2, available_slots = 2, elems_per_chunk = 2,
     chunk_list = [\<lparr>ch_data = [\<lparr>o_elem = node_elem_demo 0 3 INF_TS False, o_list = None\<rparr>, node_blank], ch_slots = [False, False], ch_first = 0\<rparr>],
     free_list = [0]\<rparr>" "g_current removed_demo 1 = Some (transaction_new 5)"
  by (simp_all add: removed_demo_def remove_node_def supd_def table_remove_def cv_erase_def cv_find_chunk_def db_demo_def nodes_demo_def chunk_is_full_def
      chunk_is_used_def chunk_set_def Let_def)

theorem parallel_scan_unused_witness:
  "nodes 1 1 (\<lambda>_ _. sthrow Assertion_failed) removed_demo = (Inr (), removed_demo) \<and>
   fst (parallel_nodes 1 1 3 (\<lambda>_ _. sthrow Assertion_failed) removed_demo) = Inl Assertion_failed"
proof -
  let ?ch = "\<lparr>ch_data = [\<lparr>o_elem = node_elem_demo 0 3 INF_TS False, o_list = None\<rparr>, node_blank], ch_slots = [False, False], ch_first = 0\<rparr>"
  have "cv_wf (g_nodes removed_demo)" by (simp add: removed_demo_nodes cv_wf_def chunk_inv_def free_count_def)
  then have "nodes 1 1 (\<lambda>_ _. sthrow Assertion_failed) removed_demo = (Inr (), removed_demo) \<and>
      parallel_nodes 1 1 3 (\<lambda>_ _. sthrow Assertion_failed) removed_demo =
      sthrow Assertion_failed (removed_demo\<lparr>g_current := (g_current removed_demo)(3 \<mapsto> transaction_new 5)\<rparr>)"
    by (intro parallel_scan_unused [where ch = ?ch and r = Main])
      (use removed_demo_nodes in \<open>simp_all add: sthrow_def chunk_is_empty_def is_valid_def node_elem_demo_def get_valid_node_version_def is_locked_by_def
        is_locked_def is_valid_for_def INF_TS_def\<close>)
  then show ?thesis by (simp add: sthrow_def)
qed

end
