(* ===== verification/Query_Walk.thy ===== *)
theory Query_Walk
  imports Query_Ctx Graph_Abort
begin

text \<open>
  Properties of the query context: what the loops over a relationship list visit, how the tasks of a parallel scan divide a table,
  and the values a transaction reads.
\<close>

section \<open>Walks over a relationship list\<close>

text \<open>
  Reading a relationship records the read timestamp in it. Two tables are the same for transaction \<open>x\<close> if they differ
  only in what reading by \<open>x\<close> changes.
\<close>

definition same_table :: "xid_t \<Rightarrow> 'b object cvec \<Rightarrow> 'b object cvec \<Rightarrow> bool" where
  "same_table x v v' \<longleftrightarrow> (\<forall>i r. holds v i r \<longrightarrow> (\<exists>r'. holds v' i r' \<and> touch x r' = touch x r))"

text \<open>The relationships of a list as transaction \<open>x\<close> sees them: position, version and element of each.\<close>

fun rship_chain :: "xid_t \<Rightarrow> (rship_body \<Rightarrow> offset_t) \<Rightarrow> rship cvec \<Rightarrow> offset_t \<Rightarrow> (offset_t \<times> vref \<times> rship_body elem) list \<Rightarrow> bool" where
  "rship_chain x nxt v i [] \<longleftrightarrow> i = UNKNOWN"
| "rship_chain x nxt v i ((j, q, e) # cs) \<longleftrightarrow>
     i = j \<and> i \<noteq> UNKNOWN \<and>
     (\<exists>r. holds v i r \<and> get_valid_rship_version x (touch x r) = Inr q \<and> o_get (touch x r) q = Inr e) \<and>
     rship_chain x nxt v (nxt (body e)) cs"

lemma rship_chain_ConsE:
  assumes "rship_chain x nxt v i ((j, q, e) # cs)"
  obtains r where "i = j" "j \<noteq> UNKNOWN" "holds v j r" "get_valid_rship_version x (touch x r) = Inr q" "o_get (touch x r) q = Inr e"
    "rship_chain x nxt v (nxt (body e)) cs"
  using assms by auto

lemma set_rts_idem [simp]: "set_rts x (prepare (set_rts x (prepare e))) = set_rts x (prepare e)"
  by (auto simp: set_rts_def prepare_def)

lemma touch_idem [simp]: "touch x (touch x r) = touch x r"
  by (simp add: touch_def)

lemma same_table_refl [intro, simp]: "same_table x v v"
  by (auto simp: same_table_def)

lemma same_table_trans: "same_table x u v \<Longrightarrow> same_table x v w \<Longrightarrow> same_table x u w"
  unfolding same_table_def by metis

lemma same_table_touch: "holds v i r \<Longrightarrow> same_table x v (cv_assign v i (touch x r))"
  unfolding same_table_def
proof (intro allI impI)
  fix j s assume "holds v i r" "holds v j s"
  then show "\<exists>r'. holds (cv_assign v i (touch x r)) j r' \<and> touch x r' = touch x s"
    by (cases "i = j") (auto simp: holds_assign_other holds_def cv_assign_props)
qed

lemma rship_chain_same: "rship_chain x nxt v i cs \<Longrightarrow> same_table x v v' \<Longrightarrow> rship_chain x nxt v' i cs"
proof (induction cs arbitrary: i)
  case (Cons c cs)
  obtain j q e where c: "c = (j, q, e)" by (cases c)
  from Cons show ?case unfolding c rship_chain.simps same_table_def by metis
qed simp

lemma versions_touch [simp]: "versions (touch x r) = versions r"
  by (simp add: touch_def)

lemma body_touch [simp]: "body (o_elem (touch x r)) = body (o_elem r)"
  by (simp add: touch_def set_rts_def prepare_def)

lemma o_get_touch: "o_get (touch x r) q = Inr e \<Longrightarrow> \<exists>e'. o_get r q = Inr e' \<and> body e' = body e"
  by (cases q) (auto simp: o_get_def version_at_def split: option.splits if_splits)

lemma rship_by_id_run:
  "holds (g_rships g) i r \<Longrightarrow> g_current g th = Some tx \<Longrightarrow>
   rship_by_id th i g = (get_valid_rship_version (xid tx) (touch (xid tx) r), g\<lparr>g_rships := cv_assign (g_rships g) i (touch (xid tx) r)\<rparr>)"
  by (simp add: rship_by_id_def sbind_def get_rship_run check_run set_rship_def)

lemma rship_at_run: "holds (g_rships g) i r \<Longrightarrow> rship_at i q g = (o_get r q, g)"
  by (simp add: rship_at_def sbind_def get_rship_run)

text \<open>One relationship of the list.\<close>

definition walk_step :: "nat \<Rightarrow> (rship_body elem \<Rightarrow> bool) \<Rightarrow> 'q rship_consumer \<Rightarrow> offset_t \<times> vref \<times> rship_body elem \<Rightarrow> ('q, unit) gact" where
  "walk_step th sel c = (\<lambda>(j, q, e). sbind (rship_by_id th j) (\<lambda>_. if sel e then c j q else sret ()))"

text \<open>The interface of a traversal: a consumer that leaves the relationships and the transaction as they are, except for reading.\<close>

locale reading_consumer =
  fixes th :: nat and x :: xid_t and c :: "'q rship_consumer"
  assumes keeps_rships: "same_table x (g_rships g) (g_rships (snd (c j q g)))"
    and keeps_tx: "g_current (snd (c j q g)) th = g_current g th"
begin

lemma walk_visits:
  assumes "rship_chain x nxt (g_rships g) i cs" "g_current g th = Some tx" "xid tx = x" "length cs \<le> fuel"
  shows "rship_walk fuel th nxt sel c i g = for_each (walk_step th sel c) cs g"
  using assms
proof (induction cs arbitrary: fuel i g)
  case Nil
  then show ?case by (cases fuel) simp_all
next
  case (Cons a cs)
  obtain j q e where a: "a = (j, q, e)" by (cases a)
  obtain k where k: "fuel = Suc k" using Cons.prems(4) by (cases fuel) auto
  from Cons.prems(1) obtain r where i: "i = j" "i \<noteq> UNKNOWN" and r: "holds (g_rships g) i r"
    and q: "get_valid_rship_version x (touch x r) = Inr q" "o_get (touch x r) q = Inr e"
    and tl: "rship_chain x nxt (g_rships g) (nxt (body e)) cs" by (auto simp: a)
  define g1 where "g1 = g\<lparr>g_rships := cv_assign (g_rships g) i (touch x r)\<rparr>"
  have h1: "holds (g_rships g1) i (touch x r)" using holds_assign [OF r] by (simp add: g1_def)
  have s1: "same_table x (g_rships g) (g_rships g1)" using same_table_touch [OF r] by (simp add: g1_def)
  have b: "rship_by_id th i g = (Inr q, g1)" using rship_by_id_run [OF r Cons.prems(2)] Cons.prems(3) q(1) by (simp add: g1_def)
  define m where "m = (if sel e then c i q else sret ())"
  have s2: "same_table x (g_rships g1) (g_rships (snd (m g1)))" "g_current (snd (m g1)) th = Some tx"
    using keeps_rships [of g1 i q] keeps_tx [of i q g1] Cons.prems(2) by (simp_all add: m_def g1_def sret_def)
  from s2(1) h1 obtain r' where r': "holds (g_rships (snd (m g1))) i r'" "touch x r' = touch x r"
    unfolding same_table_def by fastforce
  from o_get_touch [of x r' q e] r'(2) q(2) obtain e' where e': "o_get r' q = Inr e'" "body e' = body e" by auto
  note tl' = rship_chain_same [OF tl same_table_trans [OF s1 s2(1)]]
  have IH: "rship_walk k th nxt sel c (nxt (body e)) (snd (m g1)) = for_each (walk_step th sel c) cs (snd (m g1))"
    using Cons.IH [OF tl' s2(2) Cons.prems(3)] Cons.prems(4) k by simp
  have L: "rship_walk fuel th nxt sel c i g = sbind m (\<lambda>_. sbind (rship_at i q) (\<lambda>e. rship_walk k th nxt sel c (nxt (body e)))) g1"
    using i(2) b rship_at_run [OF h1, of q] q(2) unfolding k m_def by (subst rship_walk.simps) (simp add: sbind_def [of "rship_by_id th i"] sbind_def [of "rship_at i q" _ g1])
  have R: "for_each (walk_step th sel c) (a # cs) g = sbind m (\<lambda>_. for_each (walk_step th sel c) cs) g1"
    using b i(1) by (simp add: a walk_step_def sbind_def m_def)
  show ?case unfolding L R
  proof (cases "m g1")
    case (Pair res g2)
    then show "sbind m (\<lambda>_. sbind (rship_at i q) (\<lambda>e. rship_walk k th nxt sel c (nxt (body e)))) g1 =
        sbind m (\<lambda>_. for_each (walk_step th sel c) cs) g1"
      using r'(1) e' IH by (cases res) (simp_all add: sbind_def rship_at_run)
  qed
qed

end

lemma node_by_id_run:
  "holds (g_nodes g) i n \<Longrightarrow> g_current g th = Some tx \<Longrightarrow>
   node_by_id th i g = (get_valid_node_version (xid tx) (touch (xid tx) n), g\<lparr>g_nodes := cv_assign (g_nodes g) i (touch (xid tx) n)\<rparr>)"
  by (simp add: node_by_id_def sbind_def get_node_run check_run set_node_def)

lemma node_at_run: "holds (g_nodes g) i n \<Longrightarrow> node_at i r g = (o_get n r, g)"
  by (simp add: node_at_def sbind_def get_node_run)

text \<open>A consumer that reads the node at the end of the relationship.\<close>

definition expand_dest :: "nat \<Rightarrow> 'q rship_consumer" where
  "expand_dest th j q = sbind (rship_at j q) (\<lambda>e. sbind (node_by_id th (rs_dest_node (body e))) (\<lambda>_. sret ()))"

lemma expand_dest_keeps:
  "g_rships (snd (expand_dest th j q g)) = g_rships g" "g_current (snd (expand_dest th j q g)) = g_current g"
  by (auto simp: expand_dest_def rship_at_def node_by_id_def get_rship_def get_node_def set_node_def check_tx_context_def sbind_def slift_def
      srun_def sret_def split: sum.splits prod.splits option.splits)

interpretation expand: reading_consumer th x "expand_dest th" for th x
  by unfold_locales (simp_all add: expand_dest_keeps)

text \<open>
  C29. The loops over the outgoing relationships of a node visit exactly the relationships of its list that the transaction sees, in the
  order of the list and each once, and call the consumer for the valid ones or for those with the label; they end when the list does.
  The consumer may read the store in any way.
\<close>

theorem foreach_from_visits:
  assumes "\<And>g j q. same_table (xid tx) (g_rships g) (g_rships (snd (c j q g)))"
    and "\<And>g j q. g_current (snd (c j q g)) th = g_current g th"
    and "g_current g th = Some tx" and "rship_chain (xid tx) rs_next_src (g_rships g) (nd_from_rships b) cs" and "length cs \<le> fuel"
  shows "foreach_from_relationship_of_node fuel th b c g = for_each (walk_step th is_valid c) cs g \<and>
    foreach_from_relationship_with_code fuel th b lc c g = for_each (walk_step th (\<lambda>e. rs_label (body e) = lc) c) cs g"
proof -
  have "reading_consumer th (xid tx) c" using assms(1,2) by unfold_locales
  from reading_consumer.walk_visits [OF this assms(4,3) refl assms(5)]
  show ?thesis
    by (simp add: foreach_from_relationship_of_node_def foreach_from_relationship_with_code_def)
qed

text \<open>A table with three relationships of the node at position 0, in one list.\<close>

definition rship_item :: "nat \<Rightarrow> offset_t \<Rightarrow> dcode_t \<Rightarrow> rship" where
  "rship_item i nxt l = \<lparr>o_elem = \<lparr>txn_id = 0, bts = 2, cts = INF_TS, rts = 5, vol = Some False,
     body = \<lparr>rs_id = i, rs_src_node = 0, rs_dest_node = 0, rs_next_src = nxt, rs_next_dest = UNKNOWN, rs_property_list = UNKNOWN, rs_label = l\<rparr>\<rparr>,
     o_list = None\<rparr>"

definition rships_three :: "rship cvec" where
  "rships_three = \<lparr>capacity = 3, available_slots = 0, elems_per_chunk = 3,
     chunk_list = [\<lparr>ch_data = [rship_item 0 1 7, rship_item 1 2 8, rship_item 2 UNKNOWN 7], ch_slots = [True, True, True], ch_first = 3\<rparr>], free_list = []\<rparr>"

lemma rships_three_holds: "holds rships_three 0 (rship_item 0 1 7)" "holds rships_three 1 (rship_item 1 2 8)" "holds rships_three 2 (rship_item 2 UNKNOWN 7)"
proof -
  have "cv_wf rships_three" by (auto simp: cv_wf_def rships_three_def chunk_inv_def free_count_def less_Suc_eq nth_Cons')
  then show "holds rships_three 0 (rship_item 0 1 7)" "holds rships_three 1 (rship_item 1 2 8)" "holds rships_three 2 (rship_item 2 UNKNOWN 7)"
    by (simp_all add: holds_def cv_view_eq) (simp_all add: rships_three_def)
qed

lemma rship_item_read: "get_valid_rship_version 5 (touch 5 (rship_item i nxt l)) = Inr Main" "touch 5 (rship_item i nxt l) = rship_item i nxt l"
  by (simp_all add: get_valid_rship_version_def touch_def rship_item_def set_rts_def prepare_def is_locked_by_def is_locked_def is_valid_for_def INF_TS_def)

lemma rship_item_next [simp]: "rs_next_src (body (o_elem (rship_item i nxt l))) = nxt" "rs_label (body (o_elem (rship_item i nxt l))) = l"
  "rs_dest_node (body (o_elem (rship_item i nxt l))) = 0"
  by (simp_all add: rship_item_def)

lemma rship_chain_item:
  "holds v i (rship_item i nxt l) \<Longrightarrow> i \<noteq> UNKNOWN \<Longrightarrow> rship_chain 5 rs_next_src v nxt cs \<Longrightarrow>
   rship_chain 5 rs_next_src v i ((i, Main, o_elem (rship_item i nxt l)) # cs)"
  using rship_item_read [of i nxt l] by auto

lemma rships_three_chain:
  "rship_chain 5 rs_next_src rships_three 0
     [(0, Main, o_elem (rship_item 0 1 7)), (1, Main, o_elem (rship_item 1 2 8)), (2, Main, o_elem (rship_item 2 UNKNOWN 7))]"
  by (intro rship_chain_item rships_three_holds) (simp_all add: UNKNOWN_def)

definition walk_demo :: "graph_db" where
  "walk_demo = (db_demo \<lparr>o_elem = node_elem_demo 0 3 INF_TS False, o_list = None\<rparr>)\<lparr>g_rships := rships_three\<rparr>"

lemma walk_demo_simps: "g_current walk_demo 1 = Some (transaction_new 5)" "g_rships walk_demo = rships_three"
  "holds (g_nodes walk_demo) 0 \<lparr>o_elem = node_elem_demo 0 3 INF_TS False, o_list = None\<rparr>"
  using db_demo_holds by (simp_all add: walk_demo_def)

theorem foreach_from_visits_witness:
  "foreach_from_relationship_with_code 3 1 (node_body_demo\<lparr>nd_from_rships := 0\<rparr>) 7 (expand_dest 1) walk_demo =
     for_each (walk_step 1 (\<lambda>e. rs_label (body e) = 7) (expand_dest 1))
       [(0, Main, o_elem (rship_item 0 1 7)), (1, Main, o_elem (rship_item 1 2 8)), (2, Main, o_elem (rship_item 2 UNKNOWN 7))] walk_demo"
  by (rule foreach_from_visits [where tx = "transaction_new 5", THEN conjunct2])
    (use walk_demo_simps rships_three_chain in \<open>simp_all add: expand_dest_keeps del: rship_chain.simps\<close>)

section \<open>Paths of variable length\<close>

lemma next_ids_end: "next_ids fuel th nxt UNKNOWN = sret []"
  by (cases fuel) simp_all

lemma next_ids_run:
  assumes "rship_chain x nxt (g_rships g) i cs" "g_current g th = Some tx" "xid tx = x" "length cs \<le> fuel"
  shows "\<exists>js v. next_ids fuel th nxt i g = (Inr js, g\<lparr>g_rships := v\<rparr>) \<and> length js = length cs \<and> same_table x (g_rships g) v"
  using assms
proof (induction cs arbitrary: fuel i g)
  case Nil
  then show ?case by (cases fuel) (auto simp: sret_def intro!: exI [of _ "g_rships g"])
next
  case (Cons a cs)
  obtain j q e where a: "a = (j, q, e)" by (cases a)
  obtain k where k: "fuel = Suc k" using Cons.prems(4) by (cases fuel) auto
  from Cons.prems(1) obtain r where i: "i \<noteq> UNKNOWN" and r: "holds (g_rships g) i r"
    and q: "get_valid_rship_version x (touch x r) = Inr q" "o_get (touch x r) q = Inr e"
    and tl: "rship_chain x nxt (g_rships g) (nxt (body e)) cs" by (auto simp: a)
  let ?v = "cv_assign (g_rships g) i (touch x r)"
  define g1 where "g1 = g\<lparr>g_rships := ?v\<rparr>"
  have s1: "same_table x (g_rships g) (g_rships g1)" using same_table_touch [OF r] by (simp add: g1_def)
  have b: "rship_by_id th i g = (Inr q, g1)" using rship_by_id_run [OF r Cons.prems(2)] Cons.prems(3) q(1) by (simp add: g1_def)
  have at: "rship_at i q g1 = (Inr e, g1)" using rship_at_run [of g1 i "touch x r" q] holds_assign [OF r] q(2) by (simp add: g1_def)
  have "\<exists>js v. next_ids k th nxt (nxt (body e)) g1 = (Inr js, g1\<lparr>g_rships := v\<rparr>) \<and> length js = length cs \<and> same_table x (g_rships g1) v"
    by (rule Cons.IH [OF rship_chain_same [OF tl s1]]) (use Cons.prems k in \<open>simp_all add: g1_def\<close>)
  then obtain js v where "next_ids k th nxt (nxt (body e)) g1 = (Inr js, g1\<lparr>g_rships := v\<rparr>)" "length js = length cs" "same_table x (g_rships g1) v"
    by (elim exE conjE) (rule that)
  then show ?case using i b at same_table_trans [OF s1]
    by (intro exI [of _ "nxt (body e) # js"] exI [of _ v]) (simp add: k sbind_def sret_def, simp add: g1_def)
qed

text \<open>
  The traversal of variable length with a label loses matches: with one hop, when the second relationship of the list has another
  label and the node at the end of the first has no relationships, the consumer is called for the first relationship only, whatever
  the labels of the others are (it can do anything for them and the traversal still returns).
\<close>

theorem variable_label_misses:
  assumes "g_current g th = Some tx"
    and "rship_chain (xid tx) rs_next_src (g_rships g) (nd_from_rships b) ((i, q, e) # (i1, q1, e1) # cs)"
    and "rs_label (body e) = lc" and "rs_label (body e1) \<noteq> lc"
    and "holds (g_nodes g) (rs_dest_node (body e)) n" and "get_valid_node_version (xid tx) (touch (xid tx) n) = Inr r"
    and "o_get (touch (xid tx) n) r = Inr d" and "nd_from_rships (body d) = UNKNOWN"
    and "c i q = sret ()" and "length cs + 6 \<le> fuel"
  shows "\<exists>g'. foreach_variable_from_relationship_with_code fuel th b lc 1 1 c g = (Inr (), g')"
proof -
  let ?x = "xid tx"
  obtain k where k: "fuel = Suc (Suc (Suc (Suc k)))" using assms(10) by (intro that [of "fuel - 4"]) simp
  have "\<exists>js v. next_ids fuel th rs_next_src (nd_from_rships b) g = (Inr js, g\<lparr>g_rships := v\<rparr>) \<and>
      length js = length ((i, q, e) # (i1, q1, e1) # cs) \<and> same_table ?x (g_rships g) v"
    using assms(10) by (intro next_ids_run [OF assms(2,1)]) simp_all
  then obtain js v where js: "next_ids fuel th rs_next_src (nd_from_rships b) g = (Inr js, g\<lparr>g_rships := v\<rparr>)"
    and v: "same_table ?x (g_rships g) v" by (elim exE conjE) (rule that)
  define g1 where "g1 = g\<lparr>g_rships := v\<rparr>"
  have "same_table ?x (g_rships g) (g_rships g1)" using v by (simp add: g1_def)
  from rship_chain_same [OF assms(2) this] obtain s where b: "nd_from_rships b = i" "i \<noteq> UNKNOWN" and s: "holds (g_rships g1) i s"
    and q: "get_valid_rship_version ?x (touch ?x s) = Inr q" "o_get (touch ?x s) q = Inr e"
    and tl: "rship_chain ?x rs_next_src (g_rships g1) (rs_next_src (body e)) ((i1, q1, e1) # cs)" by (rule rship_chain_ConsE)
  define g2 where "g2 = g1\<lparr>g_rships := cv_assign (g_rships g1) i (touch ?x s)\<rparr>"
  have c1: "g_current g1 th = Some tx" "g_current g2 th = Some tx" using assms(1) by (simp_all add: g1_def g2_def)
  have r2: "rship_by_id th i g1 = (Inr q, g2)" using rship_by_id_run [OF s c1(1)] q(1) by (simp add: g2_def)
  have h2: "holds (g_rships g2) i (touch ?x s)" using holds_assign [OF s] by (simp add: g2_def)
  have at2: "rship_at i q g2 = (Inr e, g2)" using rship_at_run [OF h2, of q] q(2) by simp
  let ?d = "rs_dest_node (body e)"
  have n2: "holds (g_nodes g2) ?d n" using assms(5) by (simp add: g1_def g2_def)
  define g3 where "g3 = g2\<lparr>g_nodes := cv_assign (g_nodes g2) ?d (touch ?x n)\<rparr>"
  have n3: "node_by_id th ?d g2 = (Inr r, g3)" using node_by_id_run [OF n2 c1(2)] assms(6) by (simp add: g3_def)
  have "holds (g_nodes g3) ?d (touch ?x n)" using holds_assign [OF n2] by (simp add: g3_def)
  then have d3: "node_at ?d r g3 = (Inr d, g3)" using node_at_run [of g3] assms(7) by simp
  have c3: "g_current g3 th = Some tx" using c1 by (simp add: g3_def)
  have "same_table ?x (g_rships g1) (g_rships g3)" using same_table_touch [OF s] by (simp add: g2_def g3_def)
  from rship_chain_same [OF tl this] obtain s1 where i1: "rs_next_src (body e) = i1" "i1 \<noteq> UNKNOWN" and s1: "holds (g_rships g3) i1 s1"
    and q1: "get_valid_rship_version ?x (touch ?x s1) = Inr q1" "o_get (touch ?x s1) q1 = Inr e1" by (rule rship_chain_ConsE)
  define g4 where "g4 = g3\<lparr>g_rships := cv_assign (g_rships g3) i1 (touch ?x s1)\<rparr>"
  have r4: "rship_by_id th i1 g3 = (Inr q1, g4)" using rship_by_id_run [OF s1 c3] q1(1) by (simp add: g4_def)
  have at4: "rship_at i1 q1 g4 = (Inr e1, g4)" using rship_at_run [of g4 i1 "touch ?x s1" q1] holds_assign [OF s1] q1(2) by (simp add: g4_def)
  show ?thesis
    unfolding foreach_variable_from_relationship_with_code_def var_label_start_def
    using js b i1 r2 at2 n3 d3 r4 at4 assms(3,4,8,9)
    by (simp add: sbind_def sret_def k Let_def next_ids_end flip: g1_def del: next_ids.simps)
qed

theorem variable_label_misses_witness:
  "rs_label (body (o_elem (rship_item 2 UNKNOWN 7))) = 7 \<and>
   (\<exists>g'. foreach_variable_from_relationship_with_code 7 1 (node_body_demo\<lparr>nd_from_rships := 0\<rparr>) 7 1 1
     (\<lambda>j q. if j = 0 then sret () else sthrow Assertion_failed) walk_demo = (Inr (), g'))"
proof -
  let ?n = "\<lparr>o_elem = node_elem_demo 0 3 INF_TS False, o_list = None\<rparr> :: node"
  have "get_valid_node_version 5 (touch 5 ?n) = Inr Main" "nd_from_rships (body (o_elem (touch 5 ?n))) = UNKNOWN"
    by (simp_all add: get_valid_node_version_def node_elem_demo_def node_body_demo_def touch_def set_rts_def prepare_def is_locked_by_def
        is_locked_def is_valid_for_def INF_TS_def)
  then have "\<exists>g'. foreach_variable_from_relationship_with_code 7 1 (node_body_demo\<lparr>nd_from_rships := 0\<rparr>) 7 1 1
     (\<lambda>j q. if j = 0 then sret () else sthrow Assertion_failed) walk_demo = (Inr (), g')"
    using rships_three_chain walk_demo_simps
    by (intro variable_label_misses [where tx = "transaction_new 5" and i = 0 and q = Main and e = "o_elem (rship_item 0 1 7)" and n = ?n
          and r = Main and d = "o_elem (touch 5 ?n)" and ?i1.0 = 1 and ?q1.0 = Main and ?e1.0 = "o_elem (rship_item 1 2 8)" and cs = "[(2, Main, o_elem (rship_item 2 UNKNOWN 7))]"])
      (simp_all del: rship_chain.simps)
  then show ?thesis by simp
qed

section \<open>Values of properties\<close>

lemma find_valid_from_ended:
  "\<forall>v\<in>set vs. \<not> is_locked (v_elem v) \<and> vol (v_elem v) \<noteq> None \<and> cts (v_elem v) \<le> x \<Longrightarrow> x \<noteq> 0 \<Longrightarrow> vs \<noteq> [] \<or> abort \<Longrightarrow>
   find_valid_from x abort k vs = Inl Transaction_abort"
  by (induction vs arbitrary: k abort) (auto simp: Let_def is_locked_def is_locked_by_def is_valid_for_def)

text \<open>
  Reading a property of a node fails although the node is visible: when old versions are kept for older transactions and the current
  one is the element of the table, \<open>get_valid_node_version\<close> returns that element, but \<open>get_valid_node_property_value\<close> searches the list of
  old versions only and throws \<open>transaction_abort\<close>.
\<close>

theorem valid_property_throws:
  assumes "holds (g_nodes g) i n" "g_current g th = Some tx" "xid tx \<noteq> 0"
    and "\<not> is_locked (o_elem n)" "vol (o_elem n) \<noteq> None" "is_valid_for (xid tx) (o_elem n)" "versions n \<noteq> []"
    and "\<forall>v\<in>set (versions n). \<not> is_locked (v_elem v) \<and> vol (v_elem v) \<noteq> None \<and> cts (v_elem v) \<le> xid tx"
  shows "get_valid_node_version (xid tx) n = Inr Main \<and> get_valid_node_property_value th i Main pc g = (Inl Transaction_abort, g)"
proof
  show "get_valid_node_version (xid tx) n = Inr Main"
    using assms(3,4,6) by (auto simp: get_valid_node_version_def is_locked_def is_locked_by_def)
  have "find_valid_version (xid tx) n = Inl Transaction_abort"
    using find_valid_from_ended [OF assms(8,3)] assms(5,7) by (simp add: find_valid_version_def has_dirty_versions_def)
  then show "get_valid_node_property_value th i Main pc g = (Inl Transaction_abort, g)"
    using assms(1,2,5,7) by (auto simp: get_valid_node_property_value_def sbind_def get_node_run has_dirty_versions_def current_xid_def)
qed

theorem valid_property_throws_witness:
  "\<exists>g :: graph_db. get_valid_node_version 5 \<lparr>o_elem = node_elem_demo 0 3 INF_TS False, o_list = Some [node_version_demo 0 1 3]\<rparr> = Inr Main \<and>
     get_valid_node_property_value 1 0 Main 4 g = (Inl Transaction_abort, g)"
proof -
  let ?n = "\<lparr>o_elem = node_elem_demo 0 3 INF_TS False, o_list = Some [node_version_demo 0 1 3]\<rparr>"
  have "get_valid_node_version (xid (transaction_new 5)) ?n = Inr Main \<and>
     get_valid_node_property_value 1 0 Main 4 (db_demo ?n) = (Inl Transaction_abort, db_demo ?n)"
    by (rule valid_property_throws [OF db_demo_holds])
      (auto simp: node_elem_demo_def node_version_demo_def is_locked_def is_valid_for_def versions_def INF_TS_def)
  then show ?thesis by (auto simp: intro: exI [of _ "db_demo ?n"])
qed

end
