(* ===== verification/Local_State.thy ===== *)
theory Local_State
  imports Query_Walk
begin

text \<open>
  Local variables of functions that run the loops of the query context. The lambda expressions of the source capture the local variables
  of the function around them: in the model the state of the store is extended by a pair of these variables and the state of
  the callers. The lemma on loops with such a consumer is what the graph algorithms and the query operators use.
\<close>

section \<open>Extending the state\<close>

definition with_more :: "'w \<Rightarrow> 'v graph_db_scheme \<Rightarrow> 'w graph_db_scheme" where
  "with_more x g = graph_db.extend (graph_db.truncate g) x"

text \<open>A block with local variables, initially \<open>l\<close>; and code of the caller (a callback) inside the block, which does not see them.\<close>

definition with_local :: "'l \<Rightarrow> ('l \<times> 'v, 'a) gact \<Rightarrow> ('v, 'a) gact" where
  "with_local l act g = (case act (with_more (l, graph_db.more g) g) of (r, g') \<Rightarrow> (r, with_more (snd (graph_db.more g')) g'))"

definition outer :: "('v, 'a) gact \<Rightarrow> ('l \<times> 'v, 'a) gact" where
  "outer act g = (case act (with_more (snd (graph_db.more g)) g) of (r, g') \<Rightarrow> (r, with_more (fst (graph_db.more g), graph_db.more g') g'))"

definition get_local :: "('l \<times> 'v, 'l) gact" where
  "get_local = slift (\<lambda>g. Inr (fst (graph_db.more g)))"

definition upd_local :: "('l \<Rightarrow> 'l) \<Rightarrow> ('l \<times> 'v, unit) gact" where
  "upd_local f g = (Inr (), with_more (map_prod f id (graph_db.more g)) g)"

named_theorems local_simps \<open>local variables\<close>

lemma with_more_sel [simp]:
  "graph_db.more (with_more x g) = x" "g_nodes (with_more x g) = g_nodes g" "g_rships (with_more x g) = g_rships g"
  "g_nprops (with_more x g) = g_nprops g" "g_rprops (with_more x g) = g_rprops g" "g_dict (with_more x g) = g_dict g"
  "g_index (with_more x g) = g_index g" "g_current (with_more x g) = g_current g" "g_active (with_more x g) = g_active g"
  "g_oldest (with_more x g) = g_oldest g" "g_garbage (with_more x g) = g_garbage g"
  by (simp_all add: with_more_def graph_db.defs)

lemma with_more_upd [simp]:
  "(with_more x g)\<lparr>g_nodes := n\<rparr> = with_more x (g\<lparr>g_nodes := n\<rparr>)" "(with_more x g)\<lparr>g_rships := r\<rparr> = with_more x (g\<lparr>g_rships := r\<rparr>)"
  by (simp_all add: with_more_def graph_db.defs)

lemma with_more_twice [simp]: "with_more x (with_more y g) = with_more x g"
  by (simp add: with_more_def graph_db.defs)

lemma with_more_id [simp]: "with_more (graph_db.more g) g = g"
  by (cases g) (simp add: with_more_def graph_db.defs)

lemma get_local_run [local_simps]: "get_local g = (Inr (fst (graph_db.more g)), g)"
  by (simp add: get_local_def)

lemma upd_local_run [local_simps]: "upd_local f g = (Inr (), with_more (f (fst (graph_db.more g)), snd (graph_db.more g)) g)"
  by (cases "graph_db.more g") (simp add: upd_local_def)

section \<open>Loops that change local variables only\<close>

text \<open>
  \<open>f\<close> is what the consumer does with the local variables for the relationship \<open>e\<close>; it may rely on \<open>P\<close>. The loop applies it to the
  selected relationships of the list in their order, and only reads the store.
\<close>

definition chain_elems :: "(offset_t \<times> vref \<times> rship_body elem) list \<Rightarrow> rship_body elem list" where
  "chain_elems cs = map (\<lambda>(j, q, e). e) cs"

lemma chain_elems_simps [simp]: "chain_elems [] = []" "chain_elems ((j, q, e) # cs) = e # chain_elems cs"
  by (simp_all add: chain_elems_def)

lemma local_walk:
  assumes "rship_chain x nxt (g_rships g) i cs" "g_current g th = Some tx" "xid tx = x" "length cs \<le> fuel" "P (graph_db.more g)"
    and c: "\<And>j q e h. (j, q, e) \<in> set cs \<Longrightarrow> sel e \<Longrightarrow> rship_at j q h = (Inr e, h) \<Longrightarrow> P (graph_db.more h) \<Longrightarrow>
      c j q h = (Inr (), with_more (f e (graph_db.more h)) h) \<and> P (f e (graph_db.more h))"
  shows "\<exists>v. rship_walk fuel th nxt sel c i g =
      (Inr (), with_more (fold f (filter sel (chain_elems cs)) (graph_db.more g)) (g\<lparr>g_rships := v\<rparr>)) \<and>
    same_table x (g_rships g) v \<and> P (fold f (filter sel (chain_elems cs)) (graph_db.more g))"
  using assms
proof (induction cs arbitrary: fuel i g)
  case Nil
  then show ?case by (cases fuel) (auto intro!: exI [of _ "g_rships g"])
next
  case (Cons a cs)
  obtain j q e where a: "a = (j, q, e)" by (cases a)
  obtain k where k: "fuel = Suc k" using Cons.prems(4) by (cases fuel) auto
  from Cons.prems(1) obtain r where i: "i = j" "i \<noteq> UNKNOWN" and r: "holds (g_rships g) i r"
    and q: "get_valid_rship_version x (touch x r) = Inr q" "o_get (touch x r) q = Inr e"
    and tl: "rship_chain x nxt (g_rships g) (nxt (body e)) cs" by (auto simp: a)
  define g1 where "g1 = g\<lparr>g_rships := cv_assign (g_rships g) i (touch x r)\<rparr>"
  define m1 where "m1 = (if sel e then f e (graph_db.more g) else graph_db.more g)"
  have s1: "same_table x (g_rships g) (g_rships g1)" using same_table_touch [OF r] by (simp add: g1_def)
  have b: "rship_by_id th i g = (Inr q, g1)" using rship_by_id_run [OF r Cons.prems(2)] Cons.prems(3) q(1) by (simp add: g1_def)
  have h1: "holds (g_rships g1) i (touch x r)" using holds_assign [OF r] by (simp add: g1_def)
  then have at: "rship_at i q g1 = (Inr e, g1)" "rship_at i q (with_more m1 g1) = (Inr e, with_more m1 g1)"
    using rship_at_run [of g1 i "touch x r" q] rship_at_run [of "with_more m1 g1" i "touch x r" q] q(2) by simp_all
  have m: "(if sel e then c i q else sret ()) g1 = (Inr (), with_more m1 g1)" "P m1"
    using Cons.prems(6) [of j q e g1] at(1) Cons.prems(5) i(1) by (auto simp: a m1_def g1_def)
  have "\<exists>v. rship_walk k th nxt sel c (nxt (body e)) (with_more m1 g1) =
      (Inr (), with_more (fold f (filter sel (chain_elems cs)) (graph_db.more (with_more m1 g1))) ((with_more m1 g1)\<lparr>g_rships := v\<rparr>)) \<and>
    same_table x (g_rships (with_more m1 g1)) v \<and> P (fold f (filter sel (chain_elems cs)) (graph_db.more (with_more m1 g1)))"
    by (rule Cons.IH) (use Cons.prems k m(2) rship_chain_same [OF tl s1] in \<open>auto simp: g1_def\<close>)
  then obtain v where v: "rship_walk k th nxt sel c (nxt (body e)) (with_more m1 g1) =
      (Inr (), with_more (fold f (filter sel (chain_elems cs)) m1) (g1\<lparr>g_rships := v\<rparr>))"
    "same_table x (g_rships g1) v" "P (fold f (filter sel (chain_elems cs)) m1)" by auto
  have "rship_walk fuel th nxt sel c i g = (Inr (), with_more (fold f (filter sel (chain_elems cs)) m1) (g\<lparr>g_rships := v\<rparr>))"
    using i(2) b at m(1) v(1) unfolding k by (subst rship_walk.simps) (simp add: sbind_def g1_def)
  moreover have "fold f (filter sel (chain_elems (a # cs))) (graph_db.more g) = fold f (filter sel (chain_elems cs)) m1" by (simp add: a m1_def)
  ultimately show ?case using same_table_trans [OF s1 v(2)] v(3) by metis
qed

section \<open>A node and its relationships\<close>

text \<open>
  Node \<open>u\<close> as transaction \<open>x\<close> sees it: the valid relationships \<open>es\<close> of its outgoing and \<open>fs\<close> of its incoming list, each list with at most \<open>wk\<close>
  entries.
\<close>

definition lists_at :: "xid_t \<Rightarrow> nat \<Rightarrow> 'q graph_db_scheme \<Rightarrow> node_body \<Rightarrow> rship_body elem list \<Rightarrow> rship_body elem list \<Rightarrow> bool" where
  "lists_at x wk g b es fs \<longleftrightarrow> (\<exists>cs ds. rship_chain x rs_next_src (g_rships g) (nd_from_rships b) cs \<and>
     rship_chain x rs_next_dest (g_rships g) (nd_to_rships b) ds \<and> es = filter is_valid (chain_elems cs) \<and> fs = filter is_valid (chain_elems ds) \<and>
     length cs \<le> wk \<and> length ds \<le> wk)"

definition links :: "xid_t \<Rightarrow> nat \<Rightarrow> 'q graph_db_scheme \<Rightarrow> offset_t \<Rightarrow> rship_body elem list \<Rightarrow> rship_body elem list \<Rightarrow> bool" where
  "links x wk g u es fs \<longleftrightarrow> (\<exists>n r d. holds (g_nodes g) u n \<and> get_valid_node_version x (touch x n) = Inr r \<and> o_get (touch x n) r = Inr d \<and>
     lists_at x wk g (body d) es fs)"

text \<open>The same with a reference \<open>r\<close> that was taken before.\<close>

definition links_via :: "xid_t \<Rightarrow> nat \<Rightarrow> 'q graph_db_scheme \<Rightarrow> offset_t \<Rightarrow> vref \<Rightarrow> rship_body elem list \<Rightarrow> rship_body elem list \<Rightarrow> bool" where
  "links_via x wk g u r es fs \<longleftrightarrow> (\<exists>n d. holds (g_nodes g) u n \<and> o_get (touch x n) r = Inr d \<and> lists_at x wk g (body d) es fs)"

text \<open>States that differ, for transaction \<open>x\<close> of thread \<open>th\<close>, only in local variables and in what reading changes.\<close>

definition same_db :: "xid_t \<Rightarrow> nat \<Rightarrow> 'v graph_db_scheme \<Rightarrow> 'w graph_db_scheme \<Rightarrow> bool" where
  "same_db x th g g' \<longleftrightarrow> same_table x (g_nodes g) (g_nodes g') \<and> same_table x (g_rships g) (g_rships g') \<and> g_current g' th = g_current g th"

lemma same_db_refl [intro, simp]: "same_db x th g g"
  by (simp add: same_db_def)

lemma same_db_trans [trans]: "same_db x th f g \<Longrightarrow> same_db x th g h \<Longrightarrow> same_db x th f h"
  by (auto simp: same_db_def intro: same_table_trans)

lemma same_db_more [simp]: "same_db x th (with_more l g) h = same_db x th g h" "same_db x th h (with_more l g) = same_db x th h g"
  by (simp_all add: same_db_def)

lemma lists_at_same: "lists_at x wk g b es fs \<Longrightarrow> same_db x th g g' \<Longrightarrow> lists_at x wk g' b es fs"
  unfolding lists_at_def same_db_def using rship_chain_same by metis

lemma links_same: "links x wk g u es fs \<Longrightarrow> same_db x th g g' \<Longrightarrow> links x wk g' u es fs"
  unfolding links_def using lists_at_same [of x wk g _ es fs th g'] unfolding same_db_def same_table_def by metis

lemma links_via_same: "links_via x wk g u r es fs \<Longrightarrow> same_db x th g g' \<Longrightarrow> links_via x wk g' u r es fs"
  unfolding links_via_def using lists_at_same [of x wk g _ es fs th g'] unfolding same_db_def same_table_def by metis

lemma links_node_by_id:
  assumes "links x wk g u es fs" "g_current g th = Some tx" "xid tx = x"
  shows "\<exists>r v. node_by_id th u g = (Inr r, g\<lparr>g_nodes := v\<rparr>) \<and> same_db x th g (g\<lparr>g_nodes := v\<rparr>) \<and> links_via x wk (g\<lparr>g_nodes := v\<rparr>) u r es fs"
proof -
  from assms(1) obtain n r d where n: "holds (g_nodes g) u n" "get_valid_node_version x (touch x n) = Inr r" "o_get (touch x n) r = Inr d"
    "lists_at x wk g (body d) es fs" by (auto simp: links_def)
  let ?v = "cv_assign (g_nodes g) u (touch x n)"
  have s: "same_db x th g (g\<lparr>g_nodes := ?v\<rparr>)" using same_table_touch [OF n(1)] by (simp add: same_db_def)
  have "holds ?v u (touch x n)" using holds_assign [OF n(1)] by simp
  then have "links_via x wk (g\<lparr>g_nodes := ?v\<rparr>) u r es fs"
    using lists_at_same [OF n(4) s] n(3) unfolding links_via_def by (intro exI [of _ "touch x n"] exI [of _ d]) simp
  then show ?thesis using node_by_id_run [OF n(1) assms(2)] assms(3) n(2) s by auto
qed

end
