(* ===== verification/Double_Round.thy ===== *)
theory Double_Round
  imports Complex_Main "HOL-Library.Word"
begin

unbundle bit_operations_syntax

text \<open>
  The numbers of type \<^verbatim>\<open>double\<close> and their arithmetic: a result is rounded to the nearest number with a significand of 53 bits, ties to even, with gradual
  underflow. The graph algorithms calculate with real numbers, where a result above \<open>DBL_MAX\<close> stands for infinity; they use three laws of rounding, stated as an
  interface. Query expressions use all values, with both infinities, NaN and the sign of zero.
\<close>

definition DBL_MAX :: real where
  "DBL_MAX = (2 - 1 / 2 ^ 52) * 2 ^ 1023"

definition rne :: "real \<Rightarrow> int" where
  "rne y = (let k = \<lfloor>y\<rfloor>; f = y - of_int k in if f < 1 / 2 \<or> f = 1 / 2 \<and> even k then k else k + 1)"

definition expo :: "real \<Rightarrow> int" where
  "expo x = max \<lfloor>log 2 \<bar>x\<bar>\<rfloor> (- 1022)"

definition rnd64 :: "real \<Rightarrow> real" where
  "rnd64 x = of_int (rne (x / 2 powr of_int (expo x - 52))) * 2 powr of_int (expo x - 52)"

lemma rne_int [simp]: "rne (of_int k) = k"
  by (simp add: rne_def)

lemma rne_mono:
  assumes "x \<le> y"
  shows "rne x \<le> rne y"
proof (cases "\<lfloor>x\<rfloor> = \<lfloor>y\<rfloor>")
  case True
  then show ?thesis using assms by (auto simp: rne_def Let_def)
next
  case False
  then have "\<lfloor>x\<rfloor> + 1 \<le> \<lfloor>y\<rfloor>" using floor_mono [OF assms] by linarith
  then show ?thesis by (auto simp: rne_def Let_def)
qed

lemma rnd64_zero [simp]: "rnd64 0 = 0"
  using rne_int [of 0] by (simp add: rnd64_def)

lemma expo_ge: "- 1022 \<le> expo x"
  by (simp add: expo_def)

lemma expo_mono: "0 < x \<Longrightarrow> x \<le> y \<Longrightarrow> expo x \<le> expo y"
proof -
  assume "0 < x" "x \<le> y"
  then have "\<lfloor>log 2 \<bar>x\<bar>\<rfloor> \<le> \<lfloor>log 2 \<bar>y\<bar>\<rfloor>" by (intro floor_mono) simp
  then show ?thesis by (simp add: expo_def)
qed

lemma expo_upper: "0 < x \<Longrightarrow> x < 2 powr of_int (expo x + 1)"
proof -
  assume x: "0 < x"
  have "log 2 x < of_int (expo x + 1)" using x by (simp add: expo_def) linarith
  then show ?thesis using x by (simp add: log_less_iff)
qed

lemma expo_lower: "0 < x \<Longrightarrow> expo x \<noteq> - 1022 \<Longrightarrow> 2 powr of_int (expo x) \<le> x"
proof -
  assume x: "0 < x" "expo x \<noteq> - 1022"
  then have "of_int (expo x) \<le> log 2 x" by (auto simp: expo_def max_def split: if_splits)
  then show ?thesis using x(1) by (simp add: le_log_iff)
qed

lemma expo_less: "0 < x \<Longrightarrow> x \<le> 2 powr of_int e \<Longrightarrow> - 1022 \<le> e \<Longrightarrow> expo x \<le> e"
proof -
  assume x: "0 < x" "x \<le> 2 powr of_int e" "- 1022 \<le> e"
  then have "log 2 x \<le> of_int e" by (simp add: log_le_iff)
  then show ?thesis using x by (auto simp: expo_def) linarith
qed

lemma ulp_shift: "(2::real) ^ 53 * 2 powr of_int (e - 52) = 2 powr of_int (e + 1)"
proof -
  have "(2::real) ^ 53 * 2 powr of_int (e - 52) = 2 powr 53 * 2 powr of_int (e - 52)" by simp
  also have "\<dots> = 2 powr of_int (e + 1)" unfolding powr_add [symmetric] by (simp add: algebra_simps)
  finally show ?thesis .
qed

text \<open>Numbers with at most 53 significant bits are not changed.\<close>

lemma rnd64_fixed:
  assumes "x = of_int k * 2 powr of_int (e - 52)" "0 \<le> k" "k \<le> 2 ^ 53" "- 1022 \<le> e"
  shows "rnd64 x = x"
proof (cases "k = 0")
  case False
  have x: "0 < x" using assms(1,2) False by simp
  have b: "(2::real) ^ 53 * 2 powr of_int (e - 52) = 2 powr of_int (e + 1)" by (rule ulp_shift)
  have "x \<le> 2 ^ 53 * 2 powr of_int (e - 52)" unfolding assms(1) using assms(3) by (intro mult_right_mono) (simp_all flip: of_int_le_iff)
  then have le: "x \<le> 2 powr of_int (e + 1)" using b by simp
  have le': "expo x \<le> e + 1" by (rule expo_less [OF x le]) (use assms(4) in simp)
  have "\<exists>j. x / 2 powr of_int (expo x - 52) = of_int j"
  proof (cases "expo x = e + 1")
    case True
    then have "x = 2 powr of_int (e + 1)" using expo_lower [OF x] le assms(4) by simp
    then have "x / 2 powr of_int (expo x - 52) = 2 powr 52" using True by (simp flip: powr_diff)
    then show ?thesis by (intro exI [of _ "2 ^ 52"]) simp
  next
    case False
    then have "expo x \<le> e" using le' by simp
    then have "2 powr of_int (e - expo x) = (2::real) ^ nat (e - expo x)" by (subst powr_real_of_int) simp_all
    moreover have "x / 2 powr of_int (expo x - 52) = of_int k * 2 powr of_int (e - expo x)"
      unfolding assms(1) by (simp add: field_simps flip: powr_add powr_diff)
    ultimately show ?thesis by (intro exI [of _ "k * 2 ^ nat (e - expo x)"]) simp
  qed
  then obtain j where j: "x / 2 powr of_int (expo x - 52) = of_int j" by blast
  then have "x = of_int j * 2 powr of_int (expo x - 52)" by (simp add: nonzero_divide_eq_eq)
  then show ?thesis unfolding rnd64_def j rne_int by simp
qed (use assms(1) in simp)

lemma rnd64_bounds:
  assumes "0 < x"
  shows "rnd64 x \<le> 2 powr of_int (expo x + 1)" "0 \<le> rne (x / 2 powr of_int (expo x - 52))" "rne (x / 2 powr of_int (expo x - 52)) \<le> 2 ^ 53"
proof -
  let ?u = "2 powr of_int (expo x - 52) :: real"
  have "x / ?u \<le> of_int (2 ^ 53)" using expo_upper [OF assms] ulp_shift [of "expo x"] by (simp add: pos_divide_le_eq)
  then show "rne (x / ?u) \<le> 2 ^ 53" using rne_mono [of "x / ?u" "of_int (2 ^ 53)"] unfolding rne_int by blast
  then have "of_int (rne (x / ?u)) \<le> (2::real) ^ 53" by (simp flip: of_int_le_iff)
  then show "rnd64 x \<le> 2 powr of_int (expo x + 1)" unfolding rnd64_def ulp_shift [symmetric] by (intro mult_right_mono) simp_all
  show "0 \<le> rne (x / ?u)" using rne_mono [of 0 "x / ?u"] rne_int [of 0] assms by simp
qed

lemma rnd64_idem: "0 \<le> x \<Longrightarrow> rnd64 (rnd64 x) = rnd64 x"
  using rnd64_fixed [OF rnd64_def, of x] rnd64_bounds [of x] expo_ge [of x] by (cases "x = 0") auto

lemma rnd64_lower:
  assumes "0 < x" "expo x \<noteq> - 1022"
  shows "2 powr of_int (expo x) \<le> rnd64 x"
proof -
  let ?u = "2 powr of_int (expo x - 52) :: real"
  have u: "2 powr of_int (expo x) = of_int (2 ^ 52) * ?u" using ulp_shift [of "expo x - 1"] by (simp add: powr_diff)
  have "of_int (2 ^ 52) \<le> x / ?u" using expo_lower [OF assms] unfolding u by (simp add: pos_le_divide_eq)
  then have "2 ^ 52 \<le> rne (x / ?u)" using rne_mono [of "of_int (2 ^ 52)" "x / ?u"] unfolding rne_int by blast
  then have "(of_int (2 ^ 52) :: real) \<le> of_int (rne (x / ?u))" unfolding of_int_le_iff .
  then show ?thesis unfolding u rnd64_def by (intro mult_right_mono) simp_all
qed

lemma rnd64_mono:
  assumes "0 \<le> x" "x \<le> y"
  shows "rnd64 x \<le> rnd64 y"
proof (cases "x = 0")
  case True
  then show ?thesis using rnd64_bounds(2) [of y] assms by (cases "y = 0") (auto simp: rnd64_def [of y])
next
  case False
  then have x: "0 < x" "0 < y" using assms by auto
  show ?thesis
  proof (cases "expo x = expo y")
    case True
    then show ?thesis unfolding rnd64_def True using assms(2) by (intro mult_right_mono) (auto intro!: rne_mono divide_right_mono)
  next
    case False
    then have e: "expo x + 1 \<le> expo y" using expo_mono [OF x(1) assms(2)] by simp
    have "rnd64 x \<le> 2 powr of_int (expo x + 1)" by (rule rnd64_bounds(1) [OF x(1)])
    also have "\<dots> \<le> 2 powr of_int (expo y)" using e by (simp flip: of_int_add)
    also have "\<dots> \<le> rnd64 y" using e expo_ge [of x] by (intro rnd64_lower [OF x(2)]) simp
    finally show ?thesis .
  qed
qed

section \<open>The laws the algorithms rely on\<close>

locale rounding =
  fixes rnd :: "real \<Rightarrow> real"
  assumes rnd_zero: "rnd 0 = 0" and rnd_mono: "0 \<le> x \<Longrightarrow> x \<le> y \<Longrightarrow> rnd x \<le> rnd y" and rnd_idem: "0 \<le> x \<Longrightarrow> rnd (rnd x) = rnd x"
begin

lemma rnd_nonneg: "0 \<le> x \<Longrightarrow> 0 \<le> rnd x"
  using rnd_mono [of 0 x] rnd_zero by simp

text \<open>Adding a weight to a rounded number does not make it smaller.\<close>

lemma rnd_grows: "0 \<le> c \<Longrightarrow> rnd c = c \<Longrightarrow> 0 \<le> w \<Longrightarrow> c \<le> rnd (c + w)"
  using rnd_mono [of c "c + w"] by simp

lemma rnd_fixed_sum: "0 \<le> c \<Longrightarrow> 0 \<le> w \<Longrightarrow> rnd (rnd (c + w)) = rnd (c + w)"
  by (simp add: rnd_idem)

end

interpretation rnd64: rounding rnd64
  by unfold_locales (simp_all add: rnd64_mono rnd64_idem)

section \<open>Values and operations\<close>

text \<open>\<open>Finite s x\<close> is the number with magnitude \<open>x\<close>, negative if \<open>s\<close>.\<close>

datatype double = NaN | Infinity bool | Finite bool real

definition dval :: "bool \<Rightarrow> real \<Rightarrow> real" where
  "dval s x = (if s then - x else x)"

text \<open>Rounding a result; \<open>z\<close> is the sign of an exact zero.\<close>

definition d_round :: "bool \<Rightarrow> real \<Rightarrow> double" where
  "d_round z x = (let m = rnd64 \<bar>x\<bar> in if DBL_MAX < m then Infinity (x < 0) else Finite (if x = 0 then z else x < 0) m)"

definition d_of_int :: "int \<Rightarrow> double" where
  "d_of_int i = d_round False (of_int i)"

definition d_of_bits :: "64 word \<Rightarrow> double" where
  "d_of_bits w =
     (let s = bit w 63; e = unat (take_bit 11 (drop_bit 52 w)); m = unat (take_bit 52 w) in
      if e = 2047 then (if m = 0 then Infinity s else NaN)
      else if e = 0 then Finite s (real m / 2 ^ 1074)
      else Finite s (real (2 ^ 52 + m) * 2 ^ e / 2 ^ 1075))"

fun d_to_bits :: "double \<Rightarrow> 64 word" where
  "d_to_bits NaN = 0x7FF8000000000000"
| "d_to_bits (Infinity s) = (if s then 0xFFF0000000000000 else 0x7FF0000000000000)"
| "d_to_bits (Finite s x) =
     (let k = nat \<lfloor>x / 2 powr of_int (expo x - 52)\<rfloor>; e = (if k < 2 ^ 52 then 0 else nat (expo x + 1023)) in
      word_of_int (int (k mod 2 ^ 52) + int e * 2 ^ 52 + (if s then 2 ^ 63 else 0)))"

fun d_eq :: "double \<Rightarrow> double \<Rightarrow> bool" where
  "d_eq (Infinity a) (Infinity b) = (a = b)"
| "d_eq (Finite a x) (Finite b y) = (dval a x = dval b y)"
| "d_eq _ _ = False"

fun d_less :: "double \<Rightarrow> double \<Rightarrow> bool" where
  "d_less (Infinity a) (Infinity b) = (a \<and> \<not> b)"
| "d_less (Infinity a) (Finite b y) = a"
| "d_less (Finite a x) (Infinity b) = (\<not> b)"
| "d_less (Finite a x) (Finite b y) = (dval a x < dval b y)"
| "d_less _ _ = False"

fun d_neg :: "double \<Rightarrow> double" where
  "d_neg NaN = NaN"
| "d_neg (Infinity s) = Infinity (\<not> s)"
| "d_neg (Finite s x) = Finite (\<not> s) x"

fun d_plus :: "double \<Rightarrow> double \<Rightarrow> double" where
  "d_plus (Infinity a) (Infinity b) = (if a = b then Infinity a else NaN)"
| "d_plus (Infinity a) (Finite b y) = Infinity a"
| "d_plus (Finite a x) (Infinity b) = Infinity b"
| "d_plus (Finite a x) (Finite b y) = d_round (a \<and> b) (dval a x + dval b y)"
| "d_plus _ _ = NaN"

definition d_minus :: "double \<Rightarrow> double \<Rightarrow> double" where
  "d_minus x y = d_plus x (d_neg y)"

fun d_mult :: "double \<Rightarrow> double \<Rightarrow> double" where
  "d_mult (Infinity a) (Infinity b) = Infinity (a \<noteq> b)"
| "d_mult (Infinity a) (Finite b y) = (if y = 0 then NaN else Infinity (a \<noteq> b))"
| "d_mult (Finite a x) (Infinity b) = (if x = 0 then NaN else Infinity (a \<noteq> b))"
| "d_mult (Finite a x) (Finite b y) = d_round (a \<noteq> b) (dval a x * dval b y)"
| "d_mult _ _ = NaN"

fun d_div :: "double \<Rightarrow> double \<Rightarrow> double" where
  "d_div (Infinity a) (Finite b y) = Infinity (a \<noteq> b)"
| "d_div (Finite a x) (Infinity b) = Finite (a \<noteq> b) 0"
| "d_div (Finite a x) (Finite b y) =
     (if y = 0 then (if x = 0 then NaN else Infinity (a \<noteq> b)) else d_round (a \<noteq> b) (dval a x / dval b y))"
| "d_div _ _ = NaN"

text \<open>Integers of up to 53 bits are exact.\<close>

lemma d_of_int_exact:
  assumes "\<bar>i\<bar> \<le> 2 ^ 53"
  shows "d_of_int i = Finite (i < 0) (of_int \<bar>i\<bar>)"
proof -
  have "rnd64 (of_int \<bar>i\<bar>) = of_int \<bar>i\<bar>" by (rule rnd64_fixed [where k = "\<bar>i\<bar>" and e = 52]) (use assms in simp_all)
  moreover have "of_int \<bar>i\<bar> \<le> DBL_MAX"
  proof -
    have "real_of_int \<bar>i\<bar> \<le> of_int (2 ^ 53)" using assms by (simp only: of_int_le_iff)
    also have "\<dots> \<le> (2::real) ^ 1023" by simp
    also have "\<dots> \<le> DBL_MAX" by (simp add: DBL_MAX_def)
    finally show ?thesis .
  qed
  ultimately show ?thesis by (simp add: d_of_int_def d_round_def Let_def)
qed

lemma d_less_trans: "d_less x y \<Longrightarrow> d_less y z \<Longrightarrow> d_less x z"
  by (cases x; cases y; cases z) auto

lemma d_less_irrefl [simp]: "\<not> d_less x x"
  by (cases x) auto

end
