(* ===== verification/Graph_Search.thy ===== *)
theory Graph_Search
  imports Local_State Double_Round
begin

text \<open>
  Breadth-first search and shortest paths on the graph, \<^verbatim>\<open>src/src/analytics/bfs.cpp\<close> and \<^verbatim>\<open>src/src/analytics/shortest_path.cpp\<close>. The
  variables of a function are a record of local variables. A relationship predicate and a weight function are functions of the relationship they are
  given; a visitor is an action of the caller. Loops on a queue have \<open>fuel\<close>, walks over relationship lists the fuel \<open>wk\<close>. A weight is a real number, and the
  addition of two weights rounds their sum to a double (\<open>rnd64\<close>, where the function \<open>rnd\<close> is a parameter of the loops). Reading a vector or a bitset past its end is undefined.
\<close>

type_synonym rship_predicate = "rship_body elem \<Rightarrow> bool"
type_synonym rship_weight = "rship_body elem \<Rightarrow> real"
type_synonym 'v node_visitor = "offset_t \<Rightarrow> vref \<Rightarrow> ('v, unit) gact"
type_synonym 'v path_visitor = "offset_t \<Rightarrow> vref \<Rightarrow> offset_t list \<Rightarrow> ('v, unit) gact"

definition vec_get :: "'a list \<Rightarrow> nat \<Rightarrow> 'a result" where
  "vec_get xs i = (if i < length xs then Inr (xs ! i) else Inl Undefined_behaviour)"

definition vec_set :: "'a list \<Rightarrow> nat \<Rightarrow> 'a \<Rightarrow> 'a list result" where
  "vec_set xs i x = (if i < length xs then Inr (xs[i := x]) else Inl Undefined_behaviour)"

definition node_capacity :: "('q, nat) gact" where
  "node_capacity = slift (\<lambda>g. Inr (capacity (g_nodes g)))"

text \<open>The loops over the relationships of node \<open>u\<close>, whose version is \<open>r\<close>: outgoing, and in the second case incoming ones.\<close>

definition both_relationships :: "nat \<Rightarrow> nat \<Rightarrow> offset_t \<Rightarrow> vref \<Rightarrow> bool \<Rightarrow> 'q rship_consumer \<Rightarrow> 'q rship_consumer \<Rightarrow> ('q, unit) gact" where
  "both_relationships wk th u r bidirectional c_out c_in =
     sbind (node_at u r) (\<lambda>e.
     sbind (foreach_from_relationship_of_node wk th (body e) c_out) (\<lambda>_.
     if bidirectional then sbind (node_at u r) (\<lambda>e. foreach_to_relationship_of_node wk th (body e) c_in) else sret ()))"

section \<open>Breadth-first search\<close>

record 'p bfs_vars =
  frontier :: "'p list"
  visited :: "bool list"

definition push_if :: "rship_predicate \<Rightarrow> (rship_body \<Rightarrow> offset_t) \<Rightarrow> (offset_t \<Rightarrow> 'p) \<Rightarrow> ('p bfs_vars \<times> 'v) rship_consumer" where
  "push_if rpred far mk i q =
     sbind (rship_at i q) (\<lambda>e. if rpred e then upd_local (\<lambda>s. s\<lparr>frontier := frontier s @ [mk (far (body e))]\<rparr>) else sret ())"

fun bfs_loop :: "nat \<Rightarrow> nat \<Rightarrow> nat \<Rightarrow> bool \<Rightarrow> rship_predicate \<Rightarrow> 'v node_visitor \<Rightarrow> (offset_t bfs_vars \<times> 'v, unit) gact" where
  "bfs_loop fuel wk th unidirectional rpred visit =
     sbind get_local (\<lambda>s.
     case frontier s of [] \<Rightarrow> sret ()
     | v # fr \<Rightarrow> (case fuel of 0 \<Rightarrow> sthrow Diverges | Suc n \<Rightarrow>
         sbind (upd_local (\<lambda>s. s\<lparr>frontier := fr\<rparr>)) (\<lambda>_.
         sbind (srun (vec_get (visited s) v)) (\<lambda>b.
         if b then bfs_loop n wk th unidirectional rpred visit
         else
           sbind (upd_local (\<lambda>s. s\<lparr>visited := (visited s)[v := True]\<rparr>)) (\<lambda>_.
           sbind (node_by_id th v) (\<lambda>r.
           sbind (outer (visit v r)) (\<lambda>_.
           sbind (both_relationships wk th v r unidirectional (push_if rpred rs_dest_node id) (push_if rpred rs_src_node id)) (\<lambda>_.
           bfs_loop n wk th unidirectional rpred visit))))))))"

declare bfs_loop.simps [simp del]

definition bfs :: "nat \<Rightarrow> nat \<Rightarrow> nat \<Rightarrow> offset_t \<Rightarrow> bool \<Rightarrow> rship_predicate \<Rightarrow> 'v node_visitor \<Rightarrow> ('v, unit) gact" where
  "bfs fuel wk th start unidirectional rpred visit =
     sbind node_capacity (\<lambda>n.
     with_local \<lparr>frontier = [start], visited = replicate n False\<rparr> (bfs_loop fuel wk th unidirectional rpred visit))"

text \<open>The variant whose queue holds paths; a path is never empty.\<close>

fun path_bfs_loop :: "nat \<Rightarrow> nat \<Rightarrow> nat \<Rightarrow> bool \<Rightarrow> rship_predicate \<Rightarrow> 'v path_visitor \<Rightarrow> (offset_t list bfs_vars \<times> 'v, unit) gact" where
  "path_bfs_loop fuel wk th unidirectional rpred visit =
     sbind get_local (\<lambda>s.
     case frontier s of [] \<Rightarrow> sret ()
     | v # fr \<Rightarrow> (case fuel of 0 \<Rightarrow> sthrow Diverges | Suc n \<Rightarrow>
         let vid = last v in
         sbind (upd_local (\<lambda>s. s\<lparr>frontier := fr\<rparr>)) (\<lambda>_.
         sbind (srun (vec_get (visited s) vid)) (\<lambda>b.
         if b then path_bfs_loop n wk th unidirectional rpred visit
         else
           sbind (upd_local (\<lambda>s. s\<lparr>visited := (visited s)[vid := True]\<rparr>)) (\<lambda>_.
           sbind (node_by_id th vid) (\<lambda>r.
           sbind (outer (visit vid r v)) (\<lambda>_.
           sbind (both_relationships wk th vid r unidirectional
             (push_if rpred rs_dest_node (\<lambda>i. v @ [i])) (push_if rpred rs_src_node (\<lambda>i. v @ [i]))) (\<lambda>_.
           path_bfs_loop n wk th unidirectional rpred visit))))))))"

declare path_bfs_loop.simps [simp del]

definition path_bfs :: "nat \<Rightarrow> nat \<Rightarrow> nat \<Rightarrow> offset_t \<Rightarrow> bool \<Rightarrow> rship_predicate \<Rightarrow> 'v path_visitor \<Rightarrow> ('v, unit) gact" where
  "path_bfs fuel wk th start unidirectional rpred visit =
     sbind node_capacity (\<lambda>n.
     with_local \<lparr>frontier = [[start]], visited = replicate n False\<rparr> (path_bfs_loop fuel wk th unidirectional rpred visit))"

section \<open>Paths with the fewest relationships\<close>

record path_item =
  pth_path :: "offset_t list"
  pth_hops :: nat
  pth_weight :: real

definition path_item_new :: path_item where
  "path_item_new = \<lparr>pth_path = [], pth_hops = 0, pth_weight = 0\<rparr>"

record uw_vars =
  uw_found :: bool
  uw_frontier :: "offset_t list list"
  uw_visited :: "bool list"
  uw_distance :: "nat list"
  uw_spath :: path_item

definition uw_vars_new :: "nat \<Rightarrow> offset_t \<Rightarrow> path_item \<Rightarrow> uw_vars result" where
  "uw_vars_new n start sp =
     rbind (vec_set (replicate n UNKNOWN) start 0) (\<lambda>dist.
     rbind (vec_set (replicate n False) start True) (\<lambda>vis.
     Inr \<lparr>uw_found = False, uw_frontier = [[start]], uw_visited = vis, uw_distance = dist, uw_spath = sp\<rparr>))"

text \<open>What the consumer does for the node \<open>vid\<close> at the other end, with the path \<open>u\<close> to the node that is expanded.\<close>

definition uw_reach :: "offset_t \<Rightarrow> offset_t list \<Rightarrow> offset_t \<Rightarrow> uw_vars \<Rightarrow> uw_vars" where
  "uw_reach stop u vid s =
     (let d = (uw_distance s ! last u + 1) mod 2 ^ 64; u2 = u @ [vid];
          s1 = s\<lparr>uw_visited := (uw_visited s)[vid := True], uw_distance := (uw_distance s)[vid := d], uw_frontier := uw_frontier s @ [u2]\<rparr> in
      if vid = stop then s1\<lparr>uw_found := True, uw_spath := (uw_spath s1)\<lparr>pth_path := u2, pth_hops := d\<rparr>\<rparr> else s1)"

definition uw_consumer :: "rship_predicate \<Rightarrow> offset_t \<Rightarrow> (rship_body \<Rightarrow> offset_t) \<Rightarrow> offset_t list \<Rightarrow> (uw_vars \<times> 'v) rship_consumer" where
  "uw_consumer rpred stop far u i q =
     sbind (rship_at i q) (\<lambda>e. let vid = far (body e) in
     if \<not> rpred e then sret ()
     else sbind get_local (\<lambda>s. sbind (srun (vec_get (uw_visited s) vid)) (\<lambda>b.
          if b then sret () else upd_local (uw_reach stop u vid))))"

fun uw_loop :: "nat \<Rightarrow> nat \<Rightarrow> nat \<Rightarrow> offset_t \<Rightarrow> bool \<Rightarrow> rship_predicate \<Rightarrow> 'v path_visitor \<Rightarrow> (uw_vars \<times> 'v, bool \<times> path_item) gact" where
  "uw_loop fuel wk th stop bidirectional rpred visit =
     sbind get_local (\<lambda>s.
     case uw_frontier s of [] \<Rightarrow> sret (False, uw_spath s)
     | u # fr \<Rightarrow> (case fuel of 0 \<Rightarrow> sthrow Diverges | Suc n \<Rightarrow>
         let uid = last u in
         sbind (upd_local (\<lambda>s. s\<lparr>uw_frontier := fr\<rparr>)) (\<lambda>_.
         sbind (node_by_id th uid) (\<lambda>r.
         sbind (outer (visit uid r u)) (\<lambda>_.
         sbind (both_relationships wk th uid r bidirectional (uw_consumer rpred stop rs_dest_node u) (uw_consumer rpred stop rs_src_node u)) (\<lambda>_.
         sbind get_local (\<lambda>s.
         if uw_found s then sret (True, uw_spath s) else uw_loop n wk th stop bidirectional rpred visit)))))))"

declare uw_loop.simps [simp del]

definition unweighted_shortest_path ::
  "nat \<Rightarrow> nat \<Rightarrow> nat \<Rightarrow> offset_t \<Rightarrow> offset_t \<Rightarrow> bool \<Rightarrow> rship_predicate \<Rightarrow> 'v path_visitor \<Rightarrow> path_item \<Rightarrow> ('v, bool \<times> path_item) gact" where
  "unweighted_shortest_path fuel wk th start stop bidirectional rpred visit sp =
     sbind node_capacity (\<lambda>n.
     sbind (srun (uw_vars_new n start sp)) (\<lambda>s. with_local s (uw_loop fuel wk th stop bidirectional rpred visit)))"

text \<open>All paths: a node other than the target is still visited once.\<close>

record auw_vars = uw_vars +
  auw_spaths :: "path_item list"

definition auw_reach :: "offset_t \<Rightarrow> offset_t list \<Rightarrow> offset_t \<Rightarrow> auw_vars \<Rightarrow> auw_vars" where
  "auw_reach stop u vid s =
     (let d = (uw_distance s ! last u + 1) mod 2 ^ 64; u2 = u @ [vid];
          s1 = s\<lparr>uw_visited := (uw_visited s)[vid := True], uw_distance := (uw_distance s)[vid := d], uw_frontier := uw_frontier s @ [u2]\<rparr> in
      if vid = stop then s1\<lparr>uw_found := True, auw_spaths := auw_spaths s1 @ [path_item_new\<lparr>pth_path := u2, pth_hops := d\<rparr>]\<rparr> else s1)"

definition auw_consumer :: "rship_predicate \<Rightarrow> offset_t \<Rightarrow> (rship_body \<Rightarrow> offset_t) \<Rightarrow> offset_t list \<Rightarrow> (auw_vars \<times> 'v) rship_consumer" where
  "auw_consumer rpred stop far u i q =
     sbind (rship_at i q) (\<lambda>e. let vid = far (body e) in
     if \<not> rpred e then sret ()
     else sbind get_local (\<lambda>s. sbind (srun (vec_get (uw_visited s) vid)) (\<lambda>b.
          if \<not> b \<or> vid = stop \<and> uw_distance s ! last u < uw_distance s ! stop then upd_local (auw_reach stop u vid) else sret ())))"

fun auw_loop :: "nat \<Rightarrow> nat \<Rightarrow> nat \<Rightarrow> offset_t \<Rightarrow> bool \<Rightarrow> rship_predicate \<Rightarrow> 'v path_visitor \<Rightarrow> (auw_vars \<times> 'v, bool \<times> path_item list) gact" where
  "auw_loop fuel wk th stop bidirectional rpred visit =
     sbind get_local (\<lambda>s.
     case uw_frontier s of [] \<Rightarrow> sret (uw_found s, auw_spaths s)
     | u # fr \<Rightarrow> (case fuel of 0 \<Rightarrow> sthrow Diverges | Suc n \<Rightarrow>
         let uid = last u in
         sbind (upd_local (\<lambda>s. s\<lparr>uw_frontier := fr\<rparr>)) (\<lambda>_.
         sbind (node_by_id th uid) (\<lambda>r.
         sbind (outer (visit uid r u)) (\<lambda>_.
         sbind (both_relationships wk th uid r bidirectional (auw_consumer rpred stop rs_dest_node u) (auw_consumer rpred stop rs_src_node u)) (\<lambda>_.
         auw_loop n wk th stop bidirectional rpred visit))))))"

declare auw_loop.simps [simp del]

definition all_unweighted_shortest_paths ::
  "nat \<Rightarrow> nat \<Rightarrow> nat \<Rightarrow> offset_t \<Rightarrow> offset_t \<Rightarrow> bool \<Rightarrow> rship_predicate \<Rightarrow> 'v path_visitor \<Rightarrow> path_item list \<Rightarrow> ('v, bool \<times> path_item list) gact" where
  "all_unweighted_shortest_paths fuel wk th start stop bidirectional rpred visit sps =
     sbind node_capacity (\<lambda>n.
     sbind (srun (uw_vars_new n start path_item_new)) (\<lambda>s.
     with_local (uw_vars.extend s \<lparr>auw_spaths = sps\<rparr>) (auw_loop fuel wk th stop bidirectional rpred visit)))"

section \<open>Paths with the least weight\<close>

text \<open>
  \<open>trace_path\<close> follows the parents back to the start, which has the parent UNKNOWN; the path gets the nodes in forward order. A cycle of parents
  would not end; more steps than there are nodes are needed for nothing else.
\<close>

fun trace_path :: "nat \<Rightarrow> nat list \<Rightarrow> nat \<Rightarrow> offset_t list \<Rightarrow> offset_t list result" where
  "trace_path 0 parent v p = Inl Diverges"
| "trace_path (Suc n) parent v p =
     rbind (vec_get parent v) (\<lambda>u.
     if u = UNKNOWN then Inr (p @ [v]) else rbind (trace_path n parent u p) (\<lambda>p'. Inr (p' @ [v])))"

definition path_item_trace :: "nat list \<Rightarrow> nat \<Rightarrow> path_item \<Rightarrow> path_item result" where
  "path_item_trace parent v sp = rbind (trace_path (length parent) parent v (pth_path sp)) (\<lambda>p. Inr (sp\<lparr>pth_path := p\<rparr>))"

record w_vars =
  w_visited :: "bool list"
  w_parent :: "nat list"
  w_weight :: "real list"

definition w_vars_new :: "nat \<Rightarrow> offset_t \<Rightarrow> w_vars result" where
  "w_vars_new n start =
     rbind (vec_set (replicate n DBL_MAX) start 0) (\<lambda>w.
     rbind (vec_set (replicate n (UNKNOWN - 1)) start UNKNOWN) (\<lambda>p.
     Inr \<lparr>w_visited = replicate n False, w_parent = p, w_weight = w\<rparr>))"

text \<open>The search for the next node with minimum weight.\<close>

definition min_node :: "bool list \<Rightarrow> real list \<Rightarrow> nat \<times> real" where
  "min_node vis w =
     fold (\<lambda>nid (m, mw). if \<not> vis ! nid \<and> w ! nid < mw then (nid, w ! nid) else (m, mw)) [0..<length w] (UNKNOWN, DBL_MAX)"

definition relax :: "(real \<Rightarrow> real) \<Rightarrow> nat \<Rightarrow> nat \<Rightarrow> real \<Rightarrow> 'r w_vars_scheme \<Rightarrow> 'r w_vars_scheme" where
  "relax rnd u vid vw s =
     (if \<not> w_visited s ! vid \<and> rnd (w_weight s ! u + vw) < w_weight s ! vid
      then s\<lparr>w_weight := (w_weight s)[vid := rnd (w_weight s ! u + vw)], w_parent := (w_parent s)[vid := u]\<rparr> else s)"

definition relax_consumer ::
  "(real \<Rightarrow> real) \<Rightarrow> rship_predicate \<Rightarrow> rship_weight \<Rightarrow> (rship_body \<Rightarrow> offset_t) \<Rightarrow> nat \<Rightarrow> (w_vars \<times> 'v) rship_consumer" where
  "relax_consumer rnd rpred weight_func far u i q =
     sbind (rship_at i q) (\<lambda>e. let vid = far (body e) in
     if \<not> rpred e then sret ()
     else sbind get_local (\<lambda>s. sbind (srun (vec_get (w_visited s) vid)) (\<lambda>_. upd_local (relax rnd u vid (weight_func e)))))"

fun w_loop ::
  "nat \<Rightarrow> nat \<Rightarrow> nat \<Rightarrow> (real \<Rightarrow> real) \<Rightarrow> offset_t \<Rightarrow> bool \<Rightarrow> rship_predicate \<Rightarrow> rship_weight \<Rightarrow> path_item \<Rightarrow> (w_vars \<times> 'v, bool \<times> path_item) gact" where
  "w_loop 0 wk th rnd stop bidirectional rpred weight_func sp = sret (False, sp)"
| "w_loop (Suc n) wk th rnd stop bidirectional rpred weight_func sp =
     sbind get_local (\<lambda>s.
     let (min_nid, min_weight) = min_node (w_visited s) (w_weight s) in
     if min_nid = stop then
       sbind (srun (path_item_trace (w_parent s) stop sp)) (\<lambda>sp'.
       sbind (srun (vec_get (w_weight s) stop)) (\<lambda>w. sret (True, sp'\<lparr>pth_weight := w\<rparr>)))
     else if min_weight = DBL_MAX then sret (False, sp)
     else
       sbind (upd_local (\<lambda>s. s\<lparr>w_visited := (w_visited s)[min_nid := True]\<rparr>)) (\<lambda>_.
       sbind (node_by_id th min_nid) (\<lambda>r.
       sbind (both_relationships wk th min_nid r bidirectional
         (relax_consumer rnd rpred weight_func rs_dest_node min_nid) (relax_consumer rnd rpred weight_func rs_src_node min_nid)) (\<lambda>_.
       w_loop n wk th rnd stop bidirectional rpred weight_func sp))))"

text \<open>The visitor is not called.\<close>

definition weighted_shortest_path ::
  "nat \<Rightarrow> nat \<Rightarrow> offset_t \<Rightarrow> offset_t \<Rightarrow> bool \<Rightarrow> rship_predicate \<Rightarrow> rship_weight \<Rightarrow> path_item \<Rightarrow> ('v, bool \<times> path_item) gact" where
  "weighted_shortest_path wk th start stop bidirectional rpred weight_func sp =
     sbind node_capacity (\<lambda>n.
     sbind (srun (w_vars_new n start)) (\<lambda>s. with_local s (w_loop n wk th rnd64 stop bidirectional rpred weight_func sp)))"

text \<open>
  All paths with the least weight. When the target is reached a second time with the same weight, the path is traced with the parents as
  they are: the parent of the target is not the node that is expanded.
\<close>

record aw_vars = w_vars +
  aw_spaths :: "path_item list"

definition aw_add :: "offset_t \<Rightarrow> aw_vars \<Rightarrow> aw_vars result" where
  "aw_add stop s =
     rbind (path_item_trace (w_parent s) stop path_item_new) (\<lambda>sp.
     rbind (vec_get (w_weight s) stop) (\<lambda>w. Inr (s\<lparr>aw_spaths := aw_spaths s @ [sp\<lparr>pth_weight := w\<rparr>]\<rparr>)))"

definition upd_local_res :: "('l \<Rightarrow> 'l result) \<Rightarrow> ('l \<times> 'v, unit) gact" where
  "upd_local_res f = sbind get_local (\<lambda>s. sbind (srun (f s)) (\<lambda>s'. upd_local (\<lambda>_. s')))"

definition aw_consumer ::
  "(real \<Rightarrow> real) \<Rightarrow> rship_predicate \<Rightarrow> rship_weight \<Rightarrow> offset_t \<Rightarrow> (rship_body \<Rightarrow> offset_t) \<Rightarrow> nat \<Rightarrow> (aw_vars \<times> 'v) rship_consumer" where
  "aw_consumer rnd rpred weight_func stop far u i q =
     sbind (rship_at i q) (\<lambda>e. let vid = far (body e) in
     if \<not> rpred e then sret ()
     else sbind get_local (\<lambda>s. sbind (srun (vec_get (w_visited s) vid)) (\<lambda>b.
          let nw = rnd (w_weight s ! u + weight_func e) in
          if \<not> b \<and> nw < w_weight s ! vid then upd_local (relax rnd u vid (weight_func e))
          else if vid = stop \<and> nw = w_weight s ! vid then upd_local_res (aw_add stop)
          else sret ())))"

fun aw_loop ::
  "nat \<Rightarrow> nat \<Rightarrow> nat \<Rightarrow> (real \<Rightarrow> real) \<Rightarrow> offset_t \<Rightarrow> bool \<Rightarrow> rship_predicate \<Rightarrow> rship_weight \<Rightarrow> bool \<Rightarrow> (aw_vars \<times> 'v, bool \<times> path_item list) gact" where
  "aw_loop 0 wk th rnd stop bidirectional rpred weight_func found = sbind get_local (\<lambda>s. sret (found, aw_spaths s))"
| "aw_loop (Suc n) wk th rnd stop bidirectional rpred weight_func found =
     sbind get_local (\<lambda>s.
     let (min_nid, min_weight) = min_node (w_visited s) (w_weight s) in
     if min_nid \<noteq> stop \<and> min_weight = DBL_MAX then sret (found, aw_spaths s)
     else
       sbind (if min_nid = stop then upd_local_res (aw_add stop) else sret ()) (\<lambda>_.
       sbind (upd_local_res (\<lambda>s. rbind (vec_set (w_visited s) min_nid True) (\<lambda>v. Inr (s\<lparr>w_visited := v\<rparr>)))) (\<lambda>_.
       sbind (node_by_id th min_nid) (\<lambda>r.
       sbind (both_relationships wk th min_nid r bidirectional
         (aw_consumer rnd rpred weight_func stop rs_dest_node min_nid) (aw_consumer rnd rpred weight_func stop rs_src_node min_nid)) (\<lambda>_.
       aw_loop n wk th rnd stop bidirectional rpred weight_func (found \<or> min_nid = stop))))))"

definition all_weighted_shortest_paths ::
  "nat \<Rightarrow> nat \<Rightarrow> offset_t \<Rightarrow> offset_t \<Rightarrow> bool \<Rightarrow> rship_predicate \<Rightarrow> rship_weight \<Rightarrow> path_item list \<Rightarrow> ('v, bool \<times> path_item list) gact" where
  "all_weighted_shortest_paths wk th start stop bidirectional rpred weight_func sps =
     sbind node_capacity (\<lambda>n.
     sbind (srun (w_vars_new n start)) (\<lambda>s.
     with_local (w_vars.extend s \<lparr>aw_spaths = sps\<rparr>) (aw_loop n wk th rnd64 stop bidirectional rpred weight_func False)))"

section \<open>The search used for k shortest paths\<close>

text \<open>
  This variant follows the lists itself: it looks at the element in the table, also where the transaction has its own version, and does not record
  reads. The weight of the path is the sum of the weights of all nodes taken from the set of unvisited nodes.
\<close>

record d_vars = w_vars +
  d_path_weight :: real

definition del_relax ::
  "(real \<Rightarrow> real) \<Rightarrow> rship_predicate \<Rightarrow> rship_weight \<Rightarrow> (rship_body \<Rightarrow> offset_t) \<Rightarrow> nat \<Rightarrow> rship_body elem \<Rightarrow> (d_vars \<times> 'v, unit) gact" where
  "del_relax rnd rpred weight_func far u e =
     (let vid = far (body e) in
      if \<not> rpred e then sret ()
      else sbind get_local (\<lambda>s. sbind (srun (vec_get (w_visited s) vid)) (\<lambda>_. upd_local (relax rnd u vid (weight_func e)))))"

fun del_walk ::
  "nat \<Rightarrow> xid_t \<Rightarrow> (real \<Rightarrow> real) \<Rightarrow> rship_predicate \<Rightarrow> rship_weight \<Rightarrow> (rship_body \<Rightarrow> offset_t) \<Rightarrow> (rship_body \<Rightarrow> offset_t) \<Rightarrow> nat \<Rightarrow> offset_t \<Rightarrow>
   (d_vars \<times> 'v, unit) gact" where
  "del_walk 0 x rnd rpred weight_func nxt far u rid = (if rid = UNKNOWN then sret () else sthrow Diverges)"
| "del_walk (Suc n) x rnd rpred weight_func nxt far u rid =
     (if rid = UNKNOWN then sret ()
      else
        sbind (get_rship rid) (\<lambda>r.
        sbind (if is_locked_by x (o_elem r) then
                 (if \<not> has_dirty_versions r then sthrow Assertion_failed
                  else if has_valid_version x r then del_relax rnd rpred weight_func far u (o_elem r) else sret ())
               else if is_valid_for x (o_elem r) then del_relax rnd rpred weight_func far u (o_elem r) else sret ()) (\<lambda>_.
        del_walk n x rnd rpred weight_func nxt far u (nxt (body (o_elem r))))))"

fun d_loop ::
  "nat \<Rightarrow> nat \<Rightarrow> nat \<Rightarrow> (real \<Rightarrow> real) \<Rightarrow> offset_t \<Rightarrow> bool \<Rightarrow> rship_predicate \<Rightarrow> rship_weight \<Rightarrow> path_item \<Rightarrow> (d_vars \<times> 'v, bool \<times> path_item) gact" where
  "d_loop 0 wk th rnd stop bidirectional rpred weight_func sp = sret (False, sp)"
| "d_loop (Suc n) wk th rnd stop bidirectional rpred weight_func sp =
     sbind get_local (\<lambda>s.
     let (min_nid, min_weight) = min_node (w_visited s) (w_weight s) in
     if min_weight = DBL_MAX then sret (False, sp)
     else
       let pw = rnd (d_path_weight s + min_weight) in
       sbind (upd_local (\<lambda>s. s\<lparr>w_visited := (w_visited s)[min_nid := True], d_path_weight := pw\<rparr>)) (\<lambda>_.
       if min_nid = stop then sbind (srun (path_item_trace (w_parent s) stop (sp\<lparr>pth_weight := pw\<rparr>))) (\<lambda>sp'. sret (True, sp'))
       else
         sbind (current_xid th) (\<lambda>x.
         sbind (node_by_id th min_nid) (\<lambda>r.
         sbind (node_at min_nid r) (\<lambda>e.
         sbind (del_walk wk x rnd rpred weight_func rs_next_src rs_dest_node min_nid (nd_from_rships (body e))) (\<lambda>_.
         sbind (if bidirectional then sbind (node_at min_nid r) (\<lambda>e.
             del_walk wk x rnd rpred weight_func rs_next_dest rs_src_node min_nid (nd_to_rships (body e))) else sret ()) (\<lambda>_.
         d_loop n wk th rnd stop bidirectional rpred weight_func sp)))))))"

definition w_spath_with_del_rship ::
  "nat \<Rightarrow> nat \<Rightarrow> offset_t \<Rightarrow> offset_t \<Rightarrow> bool \<Rightarrow> rship_predicate \<Rightarrow> rship_weight \<Rightarrow> path_item \<Rightarrow> ('v, bool \<times> path_item) gact" where
  "w_spath_with_del_rship wk th start stop bidirectional rpred weight_func sp =
     sbind node_capacity (\<lambda>n.
     sbind (srun (w_vars_new n start)) (\<lambda>s.
     with_local (w_vars.extend s \<lparr>d_path_weight = 0\<rparr>) (d_loop n wk th rnd64 stop bidirectional rpred weight_func sp)))"

end
