(* ===== verification/Graph_Reach.thy ===== *)
theory Graph_Reach
  imports Graph_Search
begin

text \<open>
  Correctness of the searches without weights. A search reads the graph that its transaction sees; the theorems compare it with the
  reachability relation and the lengths of paths of this graph.
\<close>

section \<open>The graph a transaction sees\<close>

definition succs :: "rship_predicate \<Rightarrow> bool \<Rightarrow> rship_body elem list \<Rightarrow> rship_body elem list \<Rightarrow> offset_t list" where
  "succs rpred bi es fs =
     map (\<lambda>e. rs_dest_node (body e)) (filter rpred es) @ (if bi then map (\<lambda>e. rs_src_node (body e)) (filter rpred fs) else [])"

text \<open>The nodes \<open>V\<close> are closed under the relationships that the search follows, and \<open>adj\<close> gives their neighbours in the order of the lists.\<close>

definition snapshot :: "xid_t \<Rightarrow> nat \<Rightarrow> rship_predicate \<Rightarrow> bool \<Rightarrow> 'q graph_db_scheme \<Rightarrow> nat set \<Rightarrow> (nat \<Rightarrow> nat list) \<Rightarrow> bool" where
  "snapshot x wk rpred bi g V adj \<longleftrightarrow>
     (\<forall>u\<in>V. (\<exists>es fs. links x wk g u es fs \<and> adj u = succs rpred bi es fs) \<and> set (adj u) \<subseteq> V)"

lemma snapshot_same: "snapshot x wk rpred bi g V adj \<Longrightarrow> same_db x th g g' \<Longrightarrow> snapshot x wk rpred bi g' V adj"
  unfolding snapshot_def using links_same by metis

definition edges :: "(nat \<Rightarrow> nat list) \<Rightarrow> (nat \<times> nat) set" where
  "edges adj = {(u, v). v \<in> set (adj u)}"

section \<open>One node of a search\<close>

lemma lists_at_chains:
  assumes "lists_at x wk g b es fs"
  obtains cs ds where "rship_chain x rs_next_src (g_rships g) (nd_from_rships b) cs" "rship_chain x rs_next_dest (g_rships g) (nd_to_rships b) ds"
    "es = filter is_valid (chain_elems cs)" "fs = filter is_valid (chain_elems ds)" "length cs \<le> wk" "length ds \<le> wk"
  using assms by (auto simp: lists_at_def)

lemma chain_elems_mem: "(j, q, e) \<in> set cs \<Longrightarrow> is_valid e \<Longrightarrow> e \<in> set (filter is_valid (chain_elems cs))"
  by (force simp: chain_elems_def)

lemma links_via_at:
  assumes "links_via x wk g u r es fs"
  obtains d where "node_at u r g = (Inr d, g)" "lists_at x wk g (body d) es fs"
proof -
  from assms obtain n d where n: "holds (g_nodes g) u n" "o_get (touch x n) r = Inr d" "lists_at x wk g (body d) es fs" by (auto simp: links_via_def)
  from o_get_touch [OF n(2)] obtain d' where "o_get n r = Inr d'" "body d' = body d" by auto
  then show ?thesis using that [of d'] node_at_run [OF n(1), of r] n(3) by simp
qed

text \<open>The effect of the loops on the local variables: \<open>f\<close> for the outgoing relationships, then \<open>f'\<close> for the incoming ones.\<close>

lemma both_run:
  assumes l: "links_via x wk g u r es fs" and tx: "g_current g th = Some tx" "xid tx = x" and P: "P (graph_db.more g)"
    and c: "\<And>j q e h. e \<in> set es \<Longrightarrow> rship_at j q h = (Inr e, h) \<Longrightarrow> P (graph_db.more h) \<Longrightarrow>
      c j q h = (Inr (), with_more (f e (graph_db.more h)) h) \<and> P (f e (graph_db.more h))"
    and c': "\<And>j q e h. bi \<Longrightarrow> e \<in> set fs \<Longrightarrow> rship_at j q h = (Inr e, h) \<Longrightarrow> P (graph_db.more h) \<Longrightarrow>
      c' j q h = (Inr (), with_more (f' e (graph_db.more h)) h) \<and> P (f' e (graph_db.more h))"
  shows "\<exists>g'. both_relationships wk th u r bi c c' g = (Inr (), g') \<and> same_db x th g g' \<and>
    graph_db.more g' = (if bi then fold f' fs (fold f es (graph_db.more g)) else fold f es (graph_db.more g)) \<and> P (graph_db.more g')"
proof -
  from links_via_at [OF l] obtain d where d: "node_at u r g = (Inr d, g)" "lists_at x wk g (body d) es fs" .
  from lists_at_chains [OF d(2)] obtain cs ds where
    cs: "rship_chain x rs_next_src (g_rships g) (nd_from_rships (body d)) cs" "es = filter is_valid (chain_elems cs)" "length cs \<le> wk" by metis
  let ?m = "fold f es (graph_db.more g)"
  have "\<exists>v. rship_walk wk th rs_next_src is_valid c (nd_from_rships (body d)) g = (Inr (), with_more ?m (g\<lparr>g_rships := v\<rparr>)) \<and>
      same_table x (g_rships g) v \<and> P ?m"
    unfolding cs(2) by (rule local_walk [where P = P, OF cs(1) tx cs(3) P]) (use c cs(2) chain_elems_mem in blast)
  then obtain v where v: "foreach_from_relationship_of_node wk th (body d) c g = (Inr (), with_more ?m (g\<lparr>g_rships := v\<rparr>))"
    "same_table x (g_rships g) v" "P ?m" by (auto simp: foreach_from_relationship_of_node_def)
  define g1 where "g1 = with_more ?m (g\<lparr>g_rships := v\<rparr>)"
  have s1: "same_db x th g g1" using v(2) by (simp add: g1_def same_db_def)
  show ?thesis
  proof (cases bi)
    case False
    then have "both_relationships wk th u r bi c c' g = (Inr (), g1)" using d(1) v(1) by (simp add: both_relationships_def sbind_def g1_def)
    then show ?thesis using s1 v(3) False by (simp add: g1_def)
  next
    case True
    from links_via_at [OF links_via_same [OF l s1]] obtain d1 where d1: "node_at u r g1 = (Inr d1, g1)" "lists_at x wk g1 (body d1) es fs" .
    from lists_at_chains [OF d1(2)] obtain ds where
      ds: "rship_chain x rs_next_dest (g_rships g1) (nd_to_rships (body d1)) ds" "fs = filter is_valid (chain_elems ds)" "length ds \<le> wk" by metis
    have tx1: "g_current g1 th = Some tx" using tx(1) by (simp add: g1_def)
    let ?m1 = "fold f' fs (graph_db.more g1)"
    have P1: "P (graph_db.more g1)" using v(3) by (simp add: g1_def)
    have "\<exists>w. rship_walk wk th rs_next_dest is_valid c' (nd_to_rships (body d1)) g1 = (Inr (), with_more ?m1 (g1\<lparr>g_rships := w\<rparr>)) \<and>
        same_table x (g_rships g1) w \<and> P ?m1"
      unfolding ds(2) by (rule local_walk [where P = P, OF ds(1) tx1 tx(2) ds(3) P1]) (use c' [OF True] ds(2) chain_elems_mem in blast)
    then obtain w where w: "foreach_to_relationship_of_node wk th (body d1) c' g1 = (Inr (), with_more ?m1 (g1\<lparr>g_rships := w\<rparr>))"
      "same_table x (g_rships g1) w" "P ?m1" by (auto simp: foreach_to_relationship_of_node_def)
    have "both_relationships wk th u r bi c c' g = (Inr (), with_more ?m1 (g1\<lparr>g_rships := w\<rparr>))"
      using d(1) v(1) d1(1) w(1) True by (simp add: both_relationships_def sbind_def flip: g1_def)
    moreover have "same_db x th g1 (with_more ?m1 (g1\<lparr>g_rships := w\<rparr>))" using w(2) by (simp add: same_db_def)
    ultimately show ?thesis using same_db_trans [OF s1] w(3) True by (auto simp: g1_def)
  qed
qed

section \<open>Breadth-first search\<close>

text \<open>The interface of a search to its visitor: it may read the store; \<open>vlog\<close> is the list of the nodes it was called for.\<close>

locale logging_visitor =
  fixes x :: xid_t and th :: nat and visit :: "'v node_visitor" and vlog :: "'v \<Rightarrow> offset_t list"
  assumes visit_run: "\<exists>g'. visit i r g = (Inr (), g') \<and> same_db x th g g' \<and> vlog (graph_db.more g') = vlog (graph_db.more g) @ [i]"
begin

lemma outer_visit:
  "\<exists>g'. outer (visit i r) g = (Inr (), g') \<and> same_db x th g g' \<and> fst (graph_db.more g') = fst (graph_db.more g) \<and>
     vlog (snd (graph_db.more g')) = vlog (snd (graph_db.more g)) @ [i]"
proof -
  let ?h = "with_more (snd (graph_db.more g)) g"
  from visit_run [of i r ?h] obtain g' where "visit i r ?h = (Inr (), g')" "same_db x th g g'"
    "vlog (graph_db.more g') = vlog (snd (graph_db.more g)) @ [i]" by auto
  then show ?thesis by (simp add: outer_def)
qed

end

text \<open>The search on a graph given by its neighbour function: \<open>acc\<close> are the nodes visited so far, in order.\<close>

fun bfs_ref :: "(nat \<Rightarrow> nat list) \<Rightarrow> nat \<Rightarrow> nat list \<Rightarrow> nat list \<Rightarrow> nat list option" where
  "bfs_ref adj fuel [] acc = Some acc"
| "bfs_ref adj 0 (v # fr) acc = None"
| "bfs_ref adj (Suc n) (v # fr) acc = (if v \<in> set acc then bfs_ref adj n fr acc else bfs_ref adj n (fr @ adj v) (acc @ [v]))"

definition push_effect :: "rship_predicate \<Rightarrow> (rship_body \<Rightarrow> offset_t) \<Rightarrow> (offset_t \<Rightarrow> 'p) \<Rightarrow> rship_body elem \<Rightarrow> 'p bfs_vars \<times> 'v \<Rightarrow> 'p bfs_vars \<times> 'v" where
  "push_effect rpred far mk e m = (if rpred e then (fst m)\<lparr>frontier := frontier (fst m) @ [mk (far (body e))]\<rparr> else fst m, snd m)"

lemma push_if_run: "rship_at j q h = (Inr e, h) \<Longrightarrow> push_if rpred far mk j q h = (Inr (), with_more (push_effect rpred far mk e (graph_db.more h)) h)"
  by (simp add: push_if_def sbind_def upd_local_run push_effect_def)

lemma push_fold:
  "fold (push_effect rpred far mk) es m = ((fst m)\<lparr>frontier := frontier (fst m) @ map (\<lambda>e. mk (far (body e))) (filter rpred es)\<rparr>, snd m)"
  by (induction es arbitrary: m) (auto simp: push_effect_def)

lemma push_both:
  assumes "links_via x wk g u r es fs" "g_current g th = Some tx" "xid tx = x"
  shows "\<exists>g'. both_relationships wk th u r bi (push_if rpred rs_dest_node mk) (push_if rpred rs_src_node mk) g = (Inr (), g') \<and> same_db x th g g' \<and>
    graph_db.more g' = ((fst (graph_db.more g))\<lparr>frontier := frontier (fst (graph_db.more g)) @ map mk (succs rpred bi es fs)\<rparr>, snd (graph_db.more g))"
proof -
  have "\<exists>g'. both_relationships wk th u r bi (push_if rpred rs_dest_node mk) (push_if rpred rs_src_node mk) g = (Inr (), g') \<and> same_db x th g g' \<and>
    graph_db.more g' = (if bi then fold (push_effect rpred rs_src_node mk) fs (fold (push_effect rpred rs_dest_node mk) es (graph_db.more g))
      else fold (push_effect rpred rs_dest_node mk) es (graph_db.more g)) \<and> True"
    by (rule both_run [where P = "\<lambda>_. True", OF assms]) (simp_all add: push_if_run)
  then show ?thesis by (auto simp: push_fold succs_def comp_def)
qed

context logging_visitor begin

lemma bfs_loop_refines:
  assumes "snapshot x wk rpred bi g V adj" "g_current g th = Some tx" "xid tx = x" "bfs_ref adj fuel fr acc = Some os"
    and "graph_db.more g = (\<lparr>frontier = fr, visited = bits\<rparr>, w)" "set fr \<subseteq> V" "V \<subseteq> {..<length bits}" "\<forall>i<length bits. bits ! i = (i \<in> set acc)"
    and "vlog w = l0 @ acc"
  shows "\<exists>g'. bfs_loop fuel wk th bi rpred visit g = (Inr (), g') \<and> same_db x th g g' \<and> vlog (snd (graph_db.more g')) = l0 @ os"
  using assms
proof (induction adj fuel fr acc arbitrary: g bits w rule: bfs_ref.induct)
  case (1 adj fuel acc)
  then show ?case by (subst bfs_loop.simps) (auto simp: sbind_def get_local_run)
next
  case (2 adj v fr acc)
  then show ?case by simp
next
  case (3 adj n v fr acc)
  have v: "v \<in> V" "v < length bits" using "3.prems" by auto
  define g1 where "g1 = with_more (\<lparr>frontier = fr, visited = bits\<rparr>, w) g"
  have start: "bfs_loop (Suc n) wk th bi rpred visit g = (if v \<in> set acc then bfs_loop n wk th bi rpred visit g1
     else sbind (upd_local (\<lambda>s. s\<lparr>visited := (visited s)[v := True]\<rparr>)) (\<lambda>_.
           sbind (node_by_id th v) (\<lambda>r.
           sbind (outer (visit v r)) (\<lambda>_.
           sbind (both_relationships wk th v r bi (push_if rpred rs_dest_node id) (push_if rpred rs_src_node id)) (\<lambda>_.
           bfs_loop n wk th bi rpred visit)))) g1)"
    using "3.prems"(5,8) v(2) by (subst bfs_loop.simps) (simp add: sbind_def get_local_run upd_local_run srun_def vec_get_def g1_def)
  have s1: "same_db x th g g1" "snapshot x wk rpred bi g1 V adj" using snapshot_same [OF "3.prems"(1), of th g1] by (simp_all add: g1_def)
  show ?case
  proof (cases "v \<in> set acc")
    case True
    have "\<exists>g'. bfs_loop n wk th bi rpred visit g1 = (Inr (), g') \<and> same_db x th g1 g' \<and> vlog (snd (graph_db.more g')) = l0 @ os"
      by (rule "3.IH"(1) [OF True s1(2)]) (use "3.prems" True in \<open>auto simp: g1_def\<close>)
    then show ?thesis using start True by (auto simp: g1_def)
  next
    case False
    let ?bits = "bits[v := True]"
    define g2 where "g2 = with_more (\<lparr>frontier = fr, visited = ?bits\<rparr>, w) g"
    have s2: "same_db x th g g2" by (simp add: g2_def)
    from snapshot_same [OF "3.prems"(1) s2] v(1) obtain es fs where e: "links x wk g2 v es fs" "adj v = succs rpred bi es fs" "set (adj v) \<subseteq> V"
      by (auto simp: snapshot_def)
    have tx2: "g_current g2 th = Some tx" using "3.prems"(2) by (simp add: g2_def)
    from links_node_by_id [OF e(1) tx2 "3.prems"(3)] obtain r nv where r: "node_by_id th v g2 = (Inr r, g2\<lparr>g_nodes := nv\<rparr>)"
      "same_db x th g2 (g2\<lparr>g_nodes := nv\<rparr>)" "links_via x wk (g2\<lparr>g_nodes := nv\<rparr>) v r es fs" by blast
    define g3 where "g3 = g2\<lparr>g_nodes := nv\<rparr>"
    from outer_visit [of v r g3] obtain g4 where g4: "outer (visit v r) g3 = (Inr (), g4)" "same_db x th g3 g4"
      "fst (graph_db.more g4) = \<lparr>frontier = fr, visited = ?bits\<rparr>" "vlog (snd (graph_db.more g4)) = vlog w @ [v]" by (auto simp: g3_def g2_def)
    have s4: "same_db x th g g4" using same_db_trans [OF same_db_trans [OF s2 r(2)]] g4(2) by (simp add: g3_def)
    have tx4: "g_current g4 th = Some tx" using s4 "3.prems"(2) by (simp add: same_db_def)
    have "links_via x wk g4 v r es fs" using links_via_same [OF r(3)] g4(2) by (simp add: g3_def)
    from push_both [OF this tx4 "3.prems"(3), of bi rpred id] obtain g5 where
      g5: "both_relationships wk th v r bi (push_if rpred rs_dest_node id) (push_if rpred rs_src_node id) g4 = (Inr (), g5)" "same_db x th g4 g5"
        "graph_db.more g5 = (\<lparr>frontier = fr @ adj v, visited = ?bits\<rparr>, snd (graph_db.more g4))" using g4(3) e(2) by (auto simp: id_def)
    have s5: "same_db x th g g5" by (rule same_db_trans [OF s4 g5(2)])
    have "\<exists>g'. bfs_loop n wk th bi rpred visit g5 = (Inr (), g') \<and> same_db x th g5 g' \<and> vlog (snd (graph_db.more g')) = l0 @ os"
    proof (rule "3.IH"(2) [OF False snapshot_same [OF "3.prems"(1) s5] _ "3.prems"(3) _ g5(3)])
      show "g_current g5 th = Some tx" using s5 "3.prems"(2) by (simp add: same_db_def)
      show "bfs_ref adj n (fr @ adj v) (acc @ [v]) = Some os" using "3.prems"(4) False by simp
      show "\<forall>i<length ?bits. ?bits ! i = (i \<in> set (acc @ [v]))" using "3.prems"(8) v(2) by (auto simp: nth_list_update)
    qed (use "3.prems"(6,7,9) e(3) g4(4) in auto)
    moreover have "bfs_loop (Suc n) wk th bi rpred visit g = bfs_loop n wk th bi rpred visit g5"
      using start False r(1) g4(1) g5(1) unfolding g3_def by (simp add: sbind_def upd_local_run g1_def flip: g2_def)
    ultimately show ?thesis using same_db_trans [OF s5] by metis
  qed
qed

end

lemma bfs_ref_total:
  assumes "finite V" "\<forall>u\<in>V. set (adj u) \<subseteq> V" "set fr \<subseteq> V" "length fr + (\<Sum>u\<in>V - set acc. length (adj u)) \<le> fuel"
  shows "\<exists>os. bfs_ref adj fuel fr acc = Some os"
  using assms
proof (induction adj fuel fr acc rule: bfs_ref.induct)
  case (3 adj n v fr acc)
  show ?case
  proof (cases "v \<in> set acc")
    case False
    have "V - set acc = insert v (V - set (acc @ [v]))" "v \<notin> V - set (acc @ [v])" using "3.prems"(3) False by auto
    then have "(\<Sum>u\<in>V - set acc. length (adj u)) = length (adj v) + (\<Sum>u\<in>V - set (acc @ [v]). length (adj u))"
      using "3.prems"(1) by (metis finite_Diff sum.insert)
    then have "\<exists>os. bfs_ref adj n (fr @ adj v) (acc @ [v]) = Some os" using "3.prems" False by (intro "3.IH"(2)) auto
    then show ?thesis using False by simp
  qed (use 3 in simp)
qed simp_all

lemma bfs_ref_visits:
  assumes "bfs_ref adj fuel fr acc = Some os" "distinct acc" "\<forall>u\<in>set acc. set (adj u) \<subseteq> set acc \<union> set fr"
    and "s \<in> set acc \<union> set fr" "set acc \<union> set fr \<subseteq> (edges adj)\<^sup>* `` {s}"
  shows "distinct os \<and> set os = (edges adj)\<^sup>* `` {s}"
  using assms
proof (induction adj fuel fr acc rule: bfs_ref.induct)
  case (1 adj fuel acc)
  have "v \<in> set acc" if "(s, v) \<in> (edges adj)\<^sup>*" for v
    using that by (induction rule: rtrancl_induct) (use 1 in \<open>auto simp: edges_def\<close>)
  with 1 show ?case by auto
next
  case (3 adj n v fr acc)
  show ?case
  proof (cases "v \<in> set acc")
    case False
    have "set (adj v) \<subseteq> (edges adj)\<^sup>* `` {s}" using "3.prems"(5) by (auto simp: edges_def intro: rtrancl_into_rtrancl)
    then show ?thesis using "3.prems" False by (intro "3.IH"(2)) auto
  qed (use 3 in auto)
qed simp

text \<open>
  C14. Breadth-first search: the search from a node visits every node that is reachable through relationships with the predicate exactly once, and no
  other; it ends after at most one step for the start and one for each relationship of the graph. The graph is the one the transaction sees; the
  visitor may read it.
\<close>

theorem bfs_visits_reachable:
  assumes "\<And>i r g. \<exists>g'. visit i r g = (Inr (), g') \<and> same_db (xid tx) th g g' \<and> vlog (graph_db.more g') = vlog (graph_db.more g) @ [i]"
    and "g_current g th = Some tx" "snapshot (xid tx) wk rpred bi g V adj" "finite V" "start \<in> V" "V \<subseteq> {..<capacity (g_nodes g)}"
    and "1 + (\<Sum>u\<in>V. length (adj u)) \<le> fuel"
  shows "\<exists>g' os. bfs fuel wk th start bi rpred visit g = (Inr (), g') \<and> same_db (xid tx) th g g' \<and>
    vlog (graph_db.more g') = vlog (graph_db.more g) @ os \<and> distinct os \<and> set os = {v. (start, v) \<in> (edges adj)\<^sup>*}"
proof -
  have L: "logging_visitor (xid tx) th visit vlog" using assms(1) by unfold_locales
  have "\<forall>u\<in>V. set (adj u) \<subseteq> V" using assms(3) by (simp add: snapshot_def)
  then obtain os where os: "bfs_ref adj fuel [start] [] = Some os" using bfs_ref_total [of V adj "[start]" "[]" fuel] assms(4,5,7) by auto
  let ?s = "\<lparr>frontier = [start], visited = replicate (capacity (g_nodes g)) False\<rparr>"
  have "snapshot (xid tx) wk rpred bi (with_more (?s, graph_db.more g) g) V adj" by (rule snapshot_same [OF assms(3), of th]) simp
  from logging_visitor.bfs_loop_refines [OF L this _ refl os, where ?l0.0 = "vlog (graph_db.more g)"] assms(2,5,6) obtain g' where
    "bfs_loop fuel wk th bi rpred visit (with_more (?s, graph_db.more g) g) = (Inr (), g')" "same_db (xid tx) th g g'"
    "vlog (snd (graph_db.more g')) = vlog (graph_db.more g) @ os" by auto
  moreover have "distinct os \<and> set os = (edges adj)\<^sup>* `` {start}" by (rule bfs_ref_visits [OF os]) auto
  ultimately show ?thesis by (auto simp: bfs_def node_capacity_def sbind_def with_local_def Image_def)
qed

text \<open>A visitor that collects the nodes, as the callers of the search have it.\<close>

definition collect_visit :: "offset_t list node_visitor" where
  "collect_visit i r g = (Inr (), with_more (graph_db.more g @ [i]) g)"

interpretation collecting: logging_visitor x th collect_visit id for x th
  by unfold_locales (simp add: collect_visit_def)

section \<open>A store with two nodes and a relationship from the first to the second\<close>

definition pair_node :: "offset_t \<Rightarrow> offset_t \<Rightarrow> offset_t \<Rightarrow> node" where
  "pair_node i fr to = \<lparr>o_elem = (node_elem_demo 0 3 INF_TS False)\<lparr>rts := 5, body := node_body_demo\<lparr>nd_id := i, nd_from_rships := fr, nd_to_rships := to\<rparr>\<rparr>, o_list = None\<rparr>"

definition pair_rship :: rship where
  "pair_rship = \<lparr>o_elem = (o_elem (rship_item 0 UNKNOWN 7))\<lparr>body := (body (o_elem (rship_item 0 UNKNOWN 7)))\<lparr>rs_dest_node := 1\<rparr>\<rparr>, o_list = None\<rparr>"

definition pair_nodes :: "node cvec" where
  "pair_nodes = \<lparr>capacity = 2, available_slots = 0, elems_per_chunk = 2,
     chunk_list = [\<lparr>ch_data = [pair_node 0 0 UNKNOWN, pair_node 1 UNKNOWN 0], ch_slots = [True, True], ch_first = 2\<rparr>], free_list = []\<rparr>"

definition pair_rships :: "rship cvec" where
  "pair_rships = \<lparr>capacity = 1, available_slots = 0, elems_per_chunk = 1,
     chunk_list = [\<lparr>ch_data = [pair_rship], ch_slots = [True], ch_first = 1\<rparr>], free_list = []\<rparr>"

definition pair_demo :: graph_db where
  "pair_demo = (db_demo node_blank)\<lparr>g_nodes := pair_nodes, g_rships := pair_rships\<rparr>"

abbreviation pair_adj :: "nat \<Rightarrow> nat list" where
  "pair_adj u \<equiv> if u = 0 then [1] else []"

lemma pair_holds: "holds pair_nodes 0 (pair_node 0 0 UNKNOWN)" "holds pair_nodes 1 (pair_node 1 UNKNOWN 0)" "holds pair_rships 0 pair_rship"
proof -
  have "cv_wf pair_nodes" "cv_wf pair_rships" by (auto simp: cv_wf_def pair_nodes_def pair_rships_def chunk_inv_def free_count_def less_Suc_eq nth_Cons')
  then show "holds pair_nodes 0 (pair_node 0 0 UNKNOWN)" "holds pair_nodes 1 (pair_node 1 UNKNOWN 0)" "holds pair_rships 0 pair_rship"
    by (simp_all add: holds_def cv_view_eq) (simp_all add: pair_nodes_def pair_rships_def)
qed

lemma pair_read: "touch 5 (pair_node i fr to) = pair_node i fr to" "get_valid_node_version 5 (pair_node i fr to) = Inr Main"
  "touch 5 pair_rship = pair_rship" "get_valid_rship_version 5 pair_rship = Inr Main" "is_valid (o_elem pair_rship)"
  by (simp_all add: pair_node_def pair_rship_def rship_item_def node_elem_demo_def get_valid_node_version_def get_valid_rship_version_def touch_def set_rts_def
      prepare_def is_locked_by_def is_locked_def is_valid_for_def is_valid_def INF_TS_def)

lemma pair_sel [simp]: "nd_from_rships (body (o_elem (pair_node i fr to))) = fr" "nd_to_rships (body (o_elem (pair_node i fr to))) = to"
  "rs_next_src (body (o_elem pair_rship)) = UNKNOWN" "rs_next_dest (body (o_elem pair_rship)) = UNKNOWN" "rs_dest_node (body (o_elem pair_rship)) = 1"
  "rs_src_node (body (o_elem pair_rship)) = 0"
  by (simp_all add: pair_node_def pair_rship_def rship_item_def)

lemma pair_chain: "rship_chain 5 rs_next_src pair_rships 0 [(0, Main, o_elem pair_rship)]" "rship_chain 5 rs_next_dest pair_rships 0 [(0, Main, o_elem pair_rship)]"
  using pair_holds(3) by (auto simp: pair_read UNKNOWN_def)

lemma pair_links: "links 5 1 (with_more m pair_demo) 0 [o_elem pair_rship] []" "links 5 1 (with_more m pair_demo) 1 [] [o_elem pair_rship]"
proof -
  have "lists_at 5 1 (with_more m pair_demo) (body (o_elem (pair_node 0 0 UNKNOWN))) [o_elem pair_rship] []"
    unfolding lists_at_def by (rule exI [of _ "[(0, Main, o_elem pair_rship)]"], rule exI [of _ "[]"])
      (use pair_chain in \<open>simp_all add: pair_demo_def pair_read\<close>)
  moreover have "lists_at 5 1 (with_more m pair_demo) (body (o_elem (pair_node 1 UNKNOWN 0))) [] [o_elem pair_rship]"
    unfolding lists_at_def by (rule exI [of _ "[]"], rule exI [of _ "[(0, Main, o_elem pair_rship)]"])
      (use pair_chain in \<open>simp_all add: pair_demo_def pair_read\<close>)
  ultimately show "links 5 1 (with_more m pair_demo) 0 [o_elem pair_rship] []" "links 5 1 (with_more m pair_demo) 1 [] [o_elem pair_rship]"
    unfolding links_def using pair_holds(1,2)
    by (intro exI [of _ "pair_node 0 0 UNKNOWN"] exI [of _ "pair_node 1 UNKNOWN 0"] exI [of _ Main] exI; simp add: pair_demo_def pair_read)+
qed

lemma pair_snapshot: "snapshot 5 1 (\<lambda>_. True) False (with_more m pair_demo) {0, 1} pair_adj"
  unfolding snapshot_def using pair_links [of m] by (force simp: succs_def)

lemma pair_demo_sel: "capacity (g_nodes pair_demo) = 2" "g_current pair_demo 1 = Some (transaction_new 5)" "xid (transaction_new 5) = 5"
  by (simp_all add: pair_demo_def pair_nodes_def db_demo_def transaction_new_def)

theorem bfs_visits_reachable_witness:
  "\<exists>g' os. bfs 2 1 1 0 False (\<lambda>_. True) collect_visit (with_more [] pair_demo) = (Inr (), g') \<and> graph_db.more g' = os \<and> distinct os \<and>
     set os = {v. (0, v) \<in> (edges pair_adj)\<^sup>*}"
proof -
  from bfs_visits_reachable [where tx = "transaction_new 5" and vlog = id and V = "{0, 1}" and adj = pair_adj and g = "with_more [] pair_demo" and fuel = 2
      and visit = collect_visit, of 1 1 "\<lambda>_. True" False 0]
  have "\<exists>g' os. bfs 2 1 1 0 False (\<lambda>_. True) collect_visit (with_more [] pair_demo) = (Inr (), g') \<and>
      id (graph_db.more g') = id (graph_db.more (with_more [] pair_demo)) @ os \<and> distinct os \<and> set os = {v. (0, v) \<in> (edges pair_adj)\<^sup>*}"
    using pair_demo_sel pair_snapshot [of "[] :: offset_t list"] by (auto simp: collect_visit_def)
  then show ?thesis by simp
qed

end
