(* ===== verification/Graph_Paths.thy ===== *)
theory Graph_Paths
  imports Graph_Reach
begin

text \<open>
  The search for a path with the fewest relationships: the loop on the store does what the same loop does on the neighbour function of the graph the
  transaction sees, and that loop finds a shortest path.
\<close>

section \<open>The loop on a neighbour function\<close>

definition uw_try :: "offset_t \<Rightarrow> offset_t list \<Rightarrow> offset_t \<Rightarrow> uw_vars \<Rightarrow> uw_vars" where
  "uw_try stop u v s = (if uw_visited s ! v then s else uw_reach stop u v s)"

fun uw_ref :: "(nat \<Rightarrow> nat list) \<Rightarrow> offset_t \<Rightarrow> nat \<Rightarrow> uw_vars \<Rightarrow> (bool \<times> path_item) option" where
  "uw_ref adj stop fuel s =
     (case uw_frontier s of [] \<Rightarrow> Some (False, uw_spath s)
      | u # fr \<Rightarrow> (case fuel of 0 \<Rightarrow> None | Suc n \<Rightarrow>
          (let s' = fold (uw_try stop u) (adj (last u)) (s\<lparr>uw_frontier := fr\<rparr>) in
           if uw_found s' then Some (True, uw_spath s') else uw_ref adj stop n s')))"

declare uw_ref.simps [simp del]

lemma uw_reach_sel [simp]:
  "uw_visited (uw_reach stop u v s) = (uw_visited s)[v := True]" "uw_frontier (uw_reach stop u v s) = uw_frontier s @ [u @ [v]]"
  "uw_distance (uw_reach stop u v s) = (uw_distance s)[v := (uw_distance s ! last u + 1) mod 2 ^ 64]"
  "uw_found (uw_reach stop u v s) = (v = stop \<or> uw_found s)"
  "uw_spath (uw_reach stop u v s) =
     (if v = stop then (uw_spath s)\<lparr>pth_path := u @ [v], pth_hops := (uw_distance s ! last u + 1) mod 2 ^ 64\<rparr> else uw_spath s)"
  by (simp_all add: uw_reach_def Let_def)

lemma uw_try_length [simp]: "length (uw_visited (uw_try stop u v s)) = length (uw_visited s)"
  by (simp add: uw_try_def)

lemma uw_try_fold_length [simp]: "length (uw_visited (fold (uw_try stop u) vs s)) = length (uw_visited s)"
  by (induction vs arbitrary: s) auto

lemma uw_try_frontier: "set (uw_frontier (fold (uw_try stop u) vs s)) \<subseteq> set (uw_frontier s) \<union> (\<lambda>v. u @ [v]) ` set vs"
proof (induction vs arbitrary: s)
  case (Cons a vs)
  show ?case using Cons [of "uw_try stop u a s"] by (auto simp: uw_try_def split: if_splits)
qed simp

section \<open>The interface to the visitor\<close>

locale reading_visitor =
  fixes x :: xid_t and th :: nat and visit :: "'v path_visitor"
  assumes visit_run: "\<exists>g'. visit i r p g = (Inr (), g') \<and> same_db x th g g'"
begin

lemma outer_visit: "\<exists>g'. outer (visit i r p) g = (Inr (), g') \<and> same_db x th g g' \<and> fst (graph_db.more g') = fst (graph_db.more g)"
proof -
  let ?h = "with_more (snd (graph_db.more g)) g"
  from visit_run [of i r p ?h] obtain g' where "visit i r p ?h = (Inr (), g')" "same_db x th g g'" by auto
  then show ?thesis by (simp add: outer_def)
qed

end

definition uw_effect :: "rship_predicate \<Rightarrow> offset_t \<Rightarrow> (rship_body \<Rightarrow> offset_t) \<Rightarrow> offset_t list \<Rightarrow> rship_body elem \<Rightarrow> uw_vars \<times> 'v \<Rightarrow> uw_vars \<times> 'v" where
  "uw_effect rpred stop far u e m = (if rpred e then uw_try stop u (far (body e)) (fst m) else fst m, snd m)"

lemma uw_consumer_run:
  assumes "rship_at j q h = (Inr e, h)" "rpred e \<longrightarrow> far (body e) < length (uw_visited (fst (graph_db.more h)))"
  shows "uw_consumer rpred stop far u j q h = (Inr (), with_more (uw_effect rpred stop far u e (graph_db.more h)) h)"
proof -
  have "with_more (fst (graph_db.more h), snd (graph_db.more h)) h = h" by simp
  then show ?thesis using assms
    by (auto simp: uw_consumer_def sbind_def get_local_run upd_local_run srun_def vec_get_def uw_effect_def uw_try_def Let_def)
qed

lemma uw_fold: "fold (uw_effect rpred stop far u) es m = (fold (uw_try stop u) (map (\<lambda>e. far (body e)) (filter rpred es)) (fst m), snd m)"
  by (induction es arbitrary: m) (auto simp: uw_effect_def)

lemma uw_both:
  assumes "links_via x wk g u r es fs" "g_current g th = Some tx" "xid tx = x"
    and "set (succs rpred bi es fs) \<subseteq> {..<length (uw_visited (fst (graph_db.more g)))}"
  shows "\<exists>g'. both_relationships wk th u r bi (uw_consumer rpred stop rs_dest_node p) (uw_consumer rpred stop rs_src_node p) g = (Inr (), g') \<and>
    same_db x th g g' \<and> graph_db.more g' = (fold (uw_try stop p) (succs rpred bi es fs) (fst (graph_db.more g)), snd (graph_db.more g))"
proof -
  let ?n = "length (uw_visited (fst (graph_db.more g)))"
  have "\<exists>g'. both_relationships wk th u r bi (uw_consumer rpred stop rs_dest_node p) (uw_consumer rpred stop rs_src_node p) g = (Inr (), g') \<and> same_db x th g g' \<and>
    graph_db.more g' = (if bi then fold (uw_effect rpred stop rs_src_node p) fs (fold (uw_effect rpred stop rs_dest_node p) es (graph_db.more g))
      else fold (uw_effect rpred stop rs_dest_node p) es (graph_db.more g)) \<and> length (uw_visited (fst (graph_db.more g'))) = ?n"
  proof (rule both_run [where P = "\<lambda>m. length (uw_visited (fst m)) = ?n", OF assms(1-3) refl]; rule conjI)
    fix j q e and h :: "(uw_vars \<times> 'a) graph_db_scheme"
    assume h: "rship_at j q h = (Inr e, h)" "length (uw_visited (fst (graph_db.more h))) = ?n"
    show "uw_consumer rpred stop rs_dest_node p j q h = (Inr (), with_more (uw_effect rpred stop rs_dest_node p e (graph_db.more h)) h)" if "e \<in> set es"
      using assms(4) that h(2) by (intro uw_consumer_run [OF h(1)]) (auto simp: succs_def)
    show "uw_consumer rpred stop rs_src_node p j q h = (Inr (), with_more (uw_effect rpred stop rs_src_node p e (graph_db.more h)) h)" if bi "e \<in> set fs"
      using assms(4) that h(2) by (intro uw_consumer_run [OF h(1)]) (auto simp: succs_def)
  qed (simp_all add: uw_effect_def)
  then show ?thesis by (auto simp: uw_fold succs_def)
qed

context reading_visitor begin

lemma uw_loop_refines:
  assumes "snapshot x wk rpred bi g V adj" "g_current g th = Some tx" "xid tx = x" "uw_ref adj stop fuel s = Some res"
    and "graph_db.more g = (s, w)" "\<forall>p\<in>set (uw_frontier s). last p \<in> V" "V \<subseteq> {..<length (uw_visited s)}"
  shows "\<exists>g'. uw_loop fuel wk th stop bi rpred visit g = (Inr res, g') \<and> same_db x th g g'"
  using assms
proof (induction fuel arbitrary: g s w)
  case 0
  then show ?case by (subst uw_loop.simps) (auto simp: sbind_def get_local_run uw_ref.simps [of _ _ 0] split: list.splits)
next
  case (Suc n)
  show ?case
  proof (cases "uw_frontier s")
    case Nil
    then show ?thesis using Suc.prems(4,5) by (subst uw_loop.simps) (simp add: sbind_def get_local_run uw_ref.simps [of _ _ "Suc n"])
  next
    case (Cons u fr)
    let ?v = "last u" and ?s1 = "s\<lparr>uw_frontier := fr\<rparr>"
    define g1 where "g1 = with_more (?s1, w) g"
    define s2 where "s2 = fold (uw_try stop u) (adj ?v) ?s1"
    have s1: "same_db x th g g1" by (simp add: g1_def)
    have v: "?v \<in> V" using Suc.prems(6) Cons by simp
    with snapshot_same [OF Suc.prems(1) s1] obtain es fs where e: "links x wk g1 ?v es fs" "adj ?v = succs rpred bi es fs" "set (adj ?v) \<subseteq> V"
      by (auto simp: snapshot_def)
    have tx1: "g_current g1 th = Some tx" using Suc.prems(2) by (simp add: g1_def)
    from links_node_by_id [OF e(1) tx1 Suc.prems(3)] obtain r nv where r: "node_by_id th ?v g1 = (Inr r, g1\<lparr>g_nodes := nv\<rparr>)"
      "same_db x th g1 (g1\<lparr>g_nodes := nv\<rparr>)" "links_via x wk (g1\<lparr>g_nodes := nv\<rparr>) ?v r es fs" by blast
    define g2 where "g2 = g1\<lparr>g_nodes := nv\<rparr>"
    from outer_visit [of ?v r u g2] obtain g3 where g3: "outer (visit ?v r u) g2 = (Inr (), g3)" "same_db x th g2 g3" "fst (graph_db.more g3) = ?s1"
      by (auto simp: g2_def g1_def)
    have s3: "same_db x th g g3" using same_db_trans [OF same_db_trans [OF s1 r(2)]] g3(2) by (simp add: g2_def)
    have tx3: "g_current g3 th = Some tx" using s3 Suc.prems(2) by (simp add: same_db_def)
    have l3: "links_via x wk g3 ?v r es fs" using links_via_same [OF r(3)] g3(2) by (simp add: g2_def)
    have b3: "set (succs rpred bi es fs) \<subseteq> {..<length (uw_visited (fst (graph_db.more g3)))}" using e(2,3) g3(3) Suc.prems(7) by auto
    from uw_both [OF l3 tx3 Suc.prems(3) b3, of stop u] obtain g4 where
      g4: "both_relationships wk th ?v r bi (uw_consumer rpred stop rs_dest_node u) (uw_consumer rpred stop rs_src_node u) g3 = (Inr (), g4)"
        "same_db x th g3 g4" "graph_db.more g4 = (s2, snd (graph_db.more g3))" using g3(3) e(2) by (auto simp: s2_def)
    have s4: "same_db x th g g4" by (rule same_db_trans [OF s3 g4(2)])
    have L: "uw_loop (Suc n) wk th stop bi rpred visit g = (if uw_found s2 then (Inr (True, uw_spath s2), g4) else uw_loop n wk th stop bi rpred visit g4)"
      using Suc.prems(5) Cons r(1) g3(1) g4(1,3) unfolding g2_def
      by (subst uw_loop.simps) (simp add: sbind_def get_local_run upd_local_run Let_def flip: g1_def)
    have R: "uw_ref adj stop (Suc n) s = (if uw_found s2 then Some (True, uw_spath s2) else uw_ref adj stop n s2)"
      using Cons by (subst uw_ref.simps) (simp add: s2_def Let_def)
    show ?thesis
    proof (cases "uw_found s2")
      case True
      then show ?thesis using L R Suc.prems(4) s4 by simp
    next
      case False
      have f: "set (uw_frontier s2) \<subseteq> set fr \<union> (\<lambda>v. u @ [v]) ` set (adj ?v)" "length (uw_visited s2) = length (uw_visited s)"
        using uw_try_frontier [of stop u "adj ?v" ?s1] by (simp_all add: s2_def)
      have "\<exists>g'. uw_loop n wk th stop bi rpred visit g4 = (Inr res, g') \<and> same_db x th g4 g'"
      proof (rule Suc.IH [OF snapshot_same [OF Suc.prems(1) s4] _ Suc.prems(3) _ g4(3)])
        show "g_current g4 th = Some tx" using s4 Suc.prems(2) by (simp add: same_db_def)
        show "uw_ref adj stop n s2 = Some res" using R False Suc.prems(4) by simp
        show "\<forall>p\<in>set (uw_frontier s2). last p \<in> V" using f(1) e(3) Suc.prems(6) Cons by fastforce
        show "V \<subseteq> {..<length (uw_visited s2)}" using f(2) Suc.prems(7) by simp
      qed
      then show ?thesis using L False same_db_trans [OF s4] by auto
    qed
  qed
qed

end

section \<open>The loop finds a shortest path\<close>

abbreviation is_path :: "(nat \<Rightarrow> nat list) \<Rightarrow> nat list \<Rightarrow> bool" where
  "is_path adj p \<equiv> p \<noteq> [] \<and> successively (\<lambda>u v. v \<in> set (adj u)) p"

definition vis :: "uw_vars \<Rightarrow> nat set" where
  "vis s = {v. v < length (uw_visited s) \<and> uw_visited s ! v}"

text \<open>The nodes with a path of at most \<open>k\<close> relationships.\<close>

definition near :: "(nat \<Rightarrow> nat list) \<Rightarrow> nat \<Rightarrow> nat \<Rightarrow> nat set" where
  "near adj a k = {last p |p. is_path adj p \<and> hd p = a \<and> length p \<le> k + 1}"

lemma is_path_snoc: "is_path adj p \<Longrightarrow> v \<in> set (adj (last p)) \<Longrightarrow> is_path adj (p @ [v])"
  by (simp add: successively_append_iff)

lemma is_path_butlast:
  assumes "is_path adj p" "length p \<noteq> 1"
  obtains "is_path adj (butlast p)" "hd (butlast p) = hd p" "last p \<in> set (adj (last (butlast p)))"
proof -
  obtain q v where p: "p = q @ [v]" using assms(1) by (metis append_butlast_last_id)
  then have "q \<noteq> []" using assms(2) by auto
  then show ?thesis using assms(1) that by (simp add: p successively_append_iff)
qed

lemma path_reachable: "(a, v) \<in> (edges adj)\<^sup>* \<longleftrightarrow> (\<exists>p. is_path adj p \<and> hd p = a \<and> last p = v)"
proof
  assume "(a, v) \<in> (edges adj)\<^sup>*"
  then show "\<exists>p. is_path adj p \<and> hd p = a \<and> last p = v"
  proof (induction rule: rtrancl_induct)
    case base
    show ?case by (rule exI [of _ "[a]"]) simp
  next
    case (step u v)
    then obtain p where "is_path adj p" "hd p = a" "last p = u" by blast
    then show ?case using step(2) is_path_snoc [of p adj v] by (intro exI [of _ "p @ [v]"]) (simp add: edges_def)
  qed
next
  assume "\<exists>p. is_path adj p \<and> hd p = a \<and> last p = v"
  then obtain p where "is_path adj p" "hd p = a" "last p = v" by blast
  then show "(a, v) \<in> (edges adj)\<^sup>*"
  proof (induction p arbitrary: v rule: rev_induct)
    case (snoc w p)
    show ?case
    proof (cases "p = []")
      case False
      then show ?thesis using snoc by (auto simp: successively_append_iff edges_def intro: rtrancl_into_rtrancl)
    qed (use snoc in simp)
  qed simp
qed

lemma near_zero: "near adj a 0 = {a}"
  by (force simp: near_def le_Suc_eq length_Suc_conv)

lemma near_mono: "k \<le> k' \<Longrightarrow> near adj a k \<subseteq> near adj a k'"
  by (force simp: near_def)

lemma near_step: "near adj a (Suc k) \<subseteq> near adj a k \<union> {v. \<exists>u\<in>near adj a k. v \<in> set (adj u)}"
proof
  fix v assume "v \<in> near adj a (Suc k)"
  then obtain p where p: "is_path adj p" "hd p = a" "last p = v" "length p \<le> k + 2" by (auto simp: near_def)
  show "v \<in> near adj a k \<union> {v. \<exists>u\<in>near adj a k. v \<in> set (adj u)}"
  proof (cases "length p = 1")
    case True
    then show ?thesis using p by (force simp: near_def)
  next
    case False
    from is_path_butlast [OF p(1) False] have b: "is_path adj (butlast p)" "hd (butlast p) = a" "v \<in> set (adj (last (butlast p)))"
      using p(2,3) by blast+
    have "last (butlast p) \<in> near adj a k" unfolding near_def using b(1,2) p(4) by (intro CollectI exI [of _ "butlast p"]) simp
    then show ?thesis using b(3) by blast
  qed
qed

text \<open>What the loop over the neighbours \<open>vs\<close> of the last node of \<open>u\<close> does: \<open>ns\<close> are the nodes reached for the first time.\<close>

definition uw_tried :: "offset_t \<Rightarrow> offset_t list \<Rightarrow> offset_t list \<Rightarrow> uw_vars \<Rightarrow> offset_t list \<Rightarrow> uw_vars \<Rightarrow> bool" where
  "uw_tried stop u vs s ns t \<longleftrightarrow> distinct ns \<and> set ns = set vs - vis s \<and> vis t = vis s \<union> set ns \<and>
    uw_frontier t = uw_frontier s @ map (\<lambda>v. u @ [v]) ns \<and> length (uw_distance t) = length (uw_distance s) \<and>
    (\<forall>v. uw_distance t ! v = (if v \<in> set ns then (uw_distance s ! last u + 1) mod 2 ^ 64 else uw_distance s ! v)) \<and>
    uw_found t = (uw_found s \<or> stop \<in> set ns) \<and>
    uw_spath t = (if stop \<in> set ns then (uw_spath s)\<lparr>pth_path := u @ [stop], pth_hops := (uw_distance s ! last u + 1) mod 2 ^ 64\<rparr> else uw_spath s)"

lemma uw_tried_reach:
  assumes "uw_tried stop u vs (uw_reach stop u a s) ns t" "a < length (uw_visited s)" "length (uw_distance s) = length (uw_visited s)"
    and "a \<notin> vis s" "last u \<in> vis s"
  shows "uw_tried stop u (a # vs) s (a # ns) t"
proof -
  have v: "vis (uw_reach stop u a s) = insert a (vis s)" using assms(2) by (auto simp: vis_def nth_list_update)
  have n: "a \<notin> set ns" "set ns = set vs - insert a (vis s)" using assms(1) by (auto simp: uw_tried_def v)
  have l: "last u \<noteq> a" using assms(4,5) by auto
  show ?thesis unfolding uw_tried_def
  proof (intro conjI allI)
    show "uw_distance t ! v = (if v \<in> set (a # ns) then (uw_distance s ! last u + 1) mod 2 ^ 64 else uw_distance s ! v)" for v
      using assms(1-3) l by (simp add: uw_tried_def nth_list_update)
    show "uw_spath t = (if stop \<in> set (a # ns) then (uw_spath s)\<lparr>pth_path := u @ [stop], pth_hops := (uw_distance s ! last u + 1) mod 2 ^ 64\<rparr> else uw_spath s)"
      using assms(1) l by (auto simp: uw_tried_def)
  qed (use assms n v in \<open>auto simp: uw_tried_def\<close>)
qed

lemma uw_try_effect:
  assumes "last u \<in> vis s" "\<forall>v\<in>set vs. v < length (uw_visited s)" "length (uw_distance s) = length (uw_visited s)"
  shows "\<exists>ns. uw_tried stop u vs s ns (fold (uw_try stop u) vs s)"
  using assms
proof (induction vs arbitrary: s)
  case Nil
  then show ?case by (intro exI [of _ "[]"]) (simp add: uw_tried_def)
next
  case (Cons a vs)
  show ?case
  proof (cases "a \<in> vis s")
    case True
    then have "uw_try stop u a s = s" by (simp add: uw_try_def vis_def)
    then show ?thesis using Cons.IH [of s] Cons.prems True by (simp add: uw_tried_def insert_Diff_if)
  next
    case False
    let ?s = "uw_reach stop u a s"
    have t: "uw_try stop u a s = ?s" using False Cons.prems(2) by (simp add: uw_try_def vis_def)
    have "last u \<in> vis ?s" using Cons.prems(1,2) by (auto simp: vis_def nth_list_update)
    then obtain ns where "uw_tried stop u vs ?s ns (fold (uw_try stop u) vs ?s)" using Cons.IH [of ?s] Cons.prems by auto
    then show ?thesis unfolding fold_simps comp_def t using uw_tried_reach Cons.prems False by fastforce
  qed
qed

text \<open>
  The invariant of the search from \<open>a\<close>: the queue holds shortest paths, in the order of their lengths, which differ by at most one; the nodes nearer
  than the first of them are visited, and so are the neighbours of visited nodes that are not in the queue.
\<close>

definition uw_inv :: "(nat \<Rightarrow> nat list) \<Rightarrow> nat set \<Rightarrow> nat \<Rightarrow> uw_vars \<Rightarrow> bool" where
  "uw_inv adj V a s \<longleftrightarrow> length (uw_distance s) = length (uw_visited s) \<and> a \<in> vis s \<and> vis s \<subseteq> V \<and>
     sorted (map length (uw_frontier s)) \<and>
     (\<forall>p\<in>set (uw_frontier s). is_path adj p \<and> hd p = a \<and> distinct p \<and> set p \<subseteq> vis s \<and> length p \<le> Suc (length (hd (uw_frontier s))) \<and>
        uw_distance s ! last p = length p - 1 \<and> (\<forall>k. last p \<in> near adj a k \<longrightarrow> length p \<le> Suc k)) \<and>
     (\<forall>u\<in>vis s - last ` set (uw_frontier s). set (adj u) \<subseteq> vis s) \<and>
     (uw_frontier s \<noteq> [] \<longrightarrow> near adj a (length (hd (uw_frontier s)) - 1) \<subseteq> vis s)"

lemma near_not_queued:
  assumes "sorted (map length F)" "length (hd F) = Suc n" "\<And>p. p \<in> set F \<Longrightarrow> P p \<and> (\<forall>k. last p \<in> near adj a k \<longrightarrow> length p \<le> Suc k)"
    and "w \<in> near adj a (n - 1)" "0 < n"
  shows "w \<notin> last ` set F"
proof
  assume "w \<in> last ` set F"
  then obtain p where p: "p \<in> set F" "last p = w" by blast
  then have "Suc n \<le> length p" using assms(1,2) by (cases F) auto
  moreover have "length p \<le> n" using assms(3) [OF p(1)] p(2) assms(4,5) by fastforce
  ultimately show False by simp
qed

lemma uw_inv_step:
  assumes inv: "uw_inv adj V a s" and F: "uw_frontier s = u # fr" and t: "uw_tried stop u (adj (last u)) (s\<lparr>uw_frontier := fr\<rparr>) ns t"
    and len: "length (uw_visited t) = length (uw_visited s)" "V \<subseteq> {..<length (uw_visited s)}" "length (uw_visited s) < 2 ^ 64"
    and V: "\<forall>u\<in>V. set (adj u) \<subseteq> V"
  shows "uw_inv adj V a t" "\<forall>v\<in>set ns. is_path adj (u @ [v]) \<and> uw_distance t ! v = length u \<and> (\<forall>k. v \<in> near adj a k \<longrightarrow> length u \<le> k)" "hd u = a"
proof -
  have vs [simp]: "vis (s\<lparr>uw_frontier := fr\<rparr>) = vis s" by (simp add: vis_def)
  from inv F have u: "is_path adj u" "hd u = a" "distinct u" "set u \<subseteq> vis s" "uw_distance s ! last u = length u - 1" and VS: "vis s \<subseteq> V"
    and near: "near adj a (length u - 1) \<subseteq> vis s" and srt: "\<forall>p\<in>set fr. length u \<le> length p" "sorted (map length fr)"
    by (simp_all add: uw_inv_def)
  have "set u \<subseteq> {..<length (uw_visited s)}" using u(4) VS len(2) by blast
  then have "card (set u) \<le> length (uw_visited s)" by (metis card_lessThan card_mono finite_lessThan)
  then have lu: "length u < 2 ^ 64" "0 < length u" using len(3) u(1,3) by (simp_all add: distinct_card)
  from t have ns: "set ns = set (adj (last u)) - vis s" "vis t = vis s \<union> set ns" "uw_frontier t = fr @ map (\<lambda>v. u @ [v]) ns"
    "length (uw_distance t) = length (uw_distance s)" "\<And>v. uw_distance t ! v = (if v \<in> set ns then length u else uw_distance s ! v)"
    using lu u(5) by (simp_all add: uw_tried_def)
  have far: "length u \<le> k" if "v \<in> set ns" "v \<in> near adj a k" for v k
  proof (rule ccontr)
    assume "\<not> length u \<le> k"
    then have "near adj a k \<subseteq> vis s" using near near_mono [of k "length u - 1" adj a] by fastforce
    then show False using that ns(1) by blast
  qed
  show new: "\<forall>v\<in>set ns. is_path adj (u @ [v]) \<and> uw_distance t ! v = length u \<and> (\<forall>k. v \<in> near adj a k \<longrightarrow> length u \<le> k)"
    using is_path_snoc [OF u(1)] ns(1,5) far by auto
  show "hd u = a" by (rule u(2))
  have old: "is_path adj p \<and> hd p = a \<and> distinct p \<and> set p \<subseteq> vis s \<and> length p \<le> Suc (length u) \<and> uw_distance t ! last p = length p - 1 \<and>
      (\<forall>k. last p \<in> near adj a k \<longrightarrow> length p \<le> Suc k)" if "p \<in> set fr" for p
  proof -
    from inv F that have p: "is_path adj p" "hd p = a" "distinct p" "set p \<subseteq> vis s" "length p \<le> Suc (length u)" "uw_distance s ! last p = length p - 1"
      "\<forall>k. last p \<in> near adj a k \<longrightarrow> length p \<le> Suc k" by (simp_all add: uw_inv_def)
    then have "last p \<in> vis s" by (metis last_in_set subsetD)
    then show ?thesis using p ns(1,5) by auto
  qed
  have hd: "length u \<le> length (hd (uw_frontier t)) \<and> length (hd (uw_frontier t)) \<le> Suc (length u)" if "uw_frontier t \<noteq> []"
    using that old srt(1) ns(3) by (cases fr; cases ns) auto
  have lv: "last u \<in> V" using u(1,4) VS last_in_set by blast
  have sorted: "sorted (map length (uw_frontier t))" using srt(2) old by (auto simp: ns(3) sorted_append comp_def map_replicate_const)
  have closed: "set (adj w) \<subseteq> vis t" if "w \<in> vis t - last ` set (uw_frontier t)" for w
  proof (cases "w = last u")
    case False
    then have "w \<in> vis s - last ` set (uw_frontier s)" using that F ns(2,3) by (auto simp: image_Un image_image)
    then show ?thesis using inv ns(2) unfolding uw_inv_def by blast
  qed (use ns(1,2) in auto)
  have front: "is_path adj p \<and> hd p = a \<and> distinct p \<and> set p \<subseteq> vis t \<and> length p \<le> Suc (length (hd (uw_frontier t))) \<and>
      uw_distance t ! last p = length p - 1 \<and> (\<forall>k. last p \<in> near adj a k \<longrightarrow> length p \<le> Suc k)" if p: "p \<in> set (uw_frontier t)" for p
  proof -
    have h: "length u \<le> length (hd (uw_frontier t))" using hd p by (cases "uw_frontier t") auto
    show ?thesis
    proof (cases "p \<in> set fr")
      case True
      then show ?thesis using old [OF True] ns(2) h by auto
    next
      case False
      then obtain v where v: "v \<in> set ns" "p = u @ [v]" using p ns(3) by auto
      then have "v \<notin> set u" "v \<in> vis t" "set u \<subseteq> vis t" using u(4) ns(1,2) by auto
      then show ?thesis using v u(1,2,3) new h by auto
    qed
  qed
  have nt: "near adj a (length (hd (uw_frontier t)) - 1) \<subseteq> vis t" if "uw_frontier t \<noteq> []"
  proof (cases "length (hd (uw_frontier t)) = length u")
    case False
    then have h: "length (hd (uw_frontier t)) = Suc (length u)" using hd [OF that] by simp
    have "w \<in> vis t - last ` set (uw_frontier t)" if "w \<in> near adj a (length u - 1)" for w
      using near_not_queued [OF sorted h, of "\<lambda>_. True" adj a w] front lu(2) near ns(2) that by blast
    then have "near adj a (Suc (length u - 1)) \<subseteq> vis t" using near_step [of adj a "length u - 1"] closed by blast
    then show ?thesis using h lu(2) by simp
  qed (use near ns(2) in auto)
  have "length (uw_distance t) = length (uw_visited t)" "a \<in> vis t" "vis t \<subseteq> V" using inv ns len(1) lv V VS by (auto simp: uw_inv_def)
  then show "uw_inv adj V a t" unfolding uw_inv_def using sorted closed front nt by blast
qed

text \<open>The result of a search from \<open>a\<close> for \<open>stop\<close> whose path argument was \<open>sp\<close>.\<close>

definition shortest_result :: "(nat \<Rightarrow> nat list) \<Rightarrow> nat \<Rightarrow> nat \<Rightarrow> path_item \<Rightarrow> bool \<times> path_item \<Rightarrow> bool" where
  "shortest_result adj a stop sp = (\<lambda>(found, sp').
     (found \<longleftrightarrow> stop \<noteq> a \<and> (a, stop) \<in> (edges adj)\<^sup>*) \<and>
     (if found then is_path adj (pth_path sp') \<and> hd (pth_path sp') = a \<and> last (pth_path sp') = stop \<and>
        (\<forall>q. is_path adj q \<and> hd q = a \<and> last q = stop \<longrightarrow> length (pth_path sp') \<le> length q) \<and>
        pth_hops sp' = length (pth_path sp') - 1 \<and> pth_weight sp' = pth_weight sp
      else sp' = sp))"

lemma uw_ref_shortest:
  assumes "uw_inv adj V a s" "\<not> uw_found s" "stop \<noteq> a \<longrightarrow> stop \<notin> vis s" "uw_spath s = sp" "finite V" "length (uw_frontier s) + card (V - vis s) \<le> fuel"
    and "V \<subseteq> {..<length (uw_visited s)}" "length (uw_visited s) < 2 ^ 64" "\<forall>u\<in>V. set (adj u) \<subseteq> V"
  shows "\<exists>res. uw_ref adj stop fuel s = Some res \<and> shortest_result adj a stop sp res"
  using assms
proof (induction fuel arbitrary: s)
  case 0
  then have F: "uw_frontier s = []" by simp
  have "v \<in> vis s" if "(a, v) \<in> (edges adj)\<^sup>*" for v
    using that by (induction rule: rtrancl_induct) (use 0(1) F in \<open>auto simp: uw_inv_def edges_def\<close>)
  then show ?case using F 0(3,4) by (subst uw_ref.simps) (auto simp: shortest_result_def)
next
  case (Suc n)
  show ?case
  proof (cases "uw_frontier s")
    case Nil
    have "v \<in> vis s" if "(a, v) \<in> (edges adj)\<^sup>*" for v
      using that by (induction rule: rtrancl_induct) (use Suc.prems(1) Nil in \<open>auto simp: uw_inv_def edges_def\<close>)
    then show ?thesis using Nil Suc.prems(3,4) by (subst uw_ref.simps) (auto simp: shortest_result_def)
  next
    case (Cons u fr)
    let ?s = "s\<lparr>uw_frontier := fr\<rparr>"
    define t where "t = fold (uw_try stop u) (adj (last u)) ?s"
    have vs [simp]: "vis ?s = vis s" by (simp add: vis_def)
    have u: "u \<noteq> []" "set u \<subseteq> vis s" "vis s \<subseteq> V" using Suc.prems(1) Cons by (auto simp: uw_inv_def)
    then have lu: "last u \<in> vis s" "last u \<in> V" using last_in_set by blast+
    have "\<forall>v\<in>set (adj (last u)). v < length (uw_visited ?s)" using Suc.prems(7,9) lu(2) by auto
    then obtain ns where ns: "uw_tried stop u (adj (last u)) ?s ns t"
      using uw_try_effect [of u ?s "adj (last u)" stop] lu(1) Suc.prems(1) by (auto simp: t_def uw_inv_def)
    have lt: "length (uw_visited t) = length (uw_visited s)" by (simp add: t_def)
    note step = uw_inv_step [OF Suc.prems(1) Cons ns lt Suc.prems(7,8,9)]
    have R: "uw_ref adj stop (Suc n) s = (if uw_found t then Some (True, uw_spath t) else uw_ref adj stop n t)"
      using Cons by (subst uw_ref.simps) (simp add: t_def Let_def)
    show ?thesis
    proof (cases "stop \<in> set ns")
      case True
      have st: "stop \<noteq> a" using True ns Suc.prems(1) by (auto simp: uw_tried_def uw_inv_def)
      have p: "is_path adj (u @ [stop])" "hd (u @ [stop]) = a" using step(2,3) True u(1) by auto
      have m: "length u < length q" if "is_path adj q" "hd q = a" "last q = stop" for q
      proof -
        have "stop \<in> near adj a (length q - 1)" using that by (force simp: near_def)
        then have "length u \<le> length q - 1" using step(2) True by auto
        then show ?thesis using that(1) by (cases q) auto
      qed
      have "uw_distance t ! stop = (uw_distance s ! last u + 1) mod 2 ^ 64" using ns True by (simp add: uw_tried_def)
      then have h: "(uw_distance s ! last u + 1) mod 2 ^ 64 = length u" using step(2) True by simp
      have r: "(a, stop) \<in> (edges adj)\<^sup>*" unfolding path_reachable using p by (intro exI [of _ "u @ [stop]"]) simp
      have "uw_found t" "uw_spath t = sp\<lparr>pth_path := u @ [stop], pth_hops := length u\<rparr>" using ns True Suc.prems(4) h by (simp_all add: uw_tried_def)
      then show ?thesis using R p st r m by (auto simp: shortest_result_def Suc_le_eq)
    next
      case False
      have t: "\<not> uw_found t" "uw_spath t = sp" "stop \<noteq> a \<longrightarrow> stop \<notin> vis t" using False ns Suc.prems(2,3,4) by (auto simp: uw_tried_def)
      have f: "uw_frontier t = fr @ map (\<lambda>v. u @ [v]) ns" "vis t = vis s \<union> set ns" "distinct ns" "set ns \<inter> vis s = {}" using ns by (auto simp: uw_tried_def)
      have "set ns \<subseteq> V" using step(1) f(2) by (auto simp: uw_inv_def)
      then have "card (V - vis s) = card (set ns) + card (V - vis t)"
        using f(2,4) Suc.prems(5) by (subst card_Un_disjoint [symmetric]) (auto intro: arg_cong [where f = card] finite_subset)
      then have "length (uw_frontier t) + card (V - vis t) \<le> n" using Suc.prems(6) Cons f(1) distinct_card [OF f(3)] by simp
      then have "\<exists>res. uw_ref adj stop n t = Some res \<and> shortest_result adj a stop sp res"
        using Suc.IH [of t] step(1) t lt Suc.prems(5,7-9) by simp
      then show ?thesis using R t(1) by simp
    qed
  qed
qed

lemma uw_vars_new_vis: "uw_vars_new n a sp = Inr s \<Longrightarrow> a < n \<Longrightarrow> vis s = {a}"
  by (auto simp: uw_vars_new_def vec_set_def vis_def nth_list_update split: if_splits)

lemma unweighted_path_run:
  assumes "\<And>i r p g. \<exists>g'. visit i r p g = (Inr (), g') \<and> same_db (xid tx) th g g'"
    and "g_current g th = Some tx" "snapshot (xid tx) wk rpred bi g V adj" "finite V" "start \<in> V" "V \<subseteq> {..<capacity (g_nodes g)}"
    and "capacity (g_nodes g) < 2 ^ 64" "card V \<le> fuel"
  shows "\<exists>g' res. unweighted_shortest_path fuel wk th start stop bi rpred visit sp g = (Inr res, g') \<and> same_db (xid tx) th g g' \<and>
    shortest_result adj start stop sp res"
proof -
  let ?n = "capacity (g_nodes g)"
  have R: "reading_visitor (xid tx) th visit" using assms(1) by unfold_locales
  have V: "\<forall>u\<in>V. set (adj u) \<subseteq> V" using assms(3) by (simp add: snapshot_def)
  have st: "start < ?n" using assms(5,6) by auto
  then obtain s where s: "uw_vars_new ?n start sp = Inr s" "uw_frontier s = [[start]]" "\<not> uw_found s" "uw_spath s = sp" "length (uw_visited s) = ?n"
    "length (uw_distance s) = ?n" "uw_distance s ! start = 0" by (auto simp: uw_vars_new_def vec_set_def)
  have "vis s = {start}" using uw_vars_new_vis [OF s(1) st] .
  note s = s this
  have "uw_inv adj V start s" using s assms(5) by (auto simp: uw_inv_def near_zero)
  moreover have "length (uw_frontier s) + card (V - vis s) \<le> fuel" using s(2,8) assms(4,5,8) card_Suc_Diff1 [OF assms(4,5)] by simp
  ultimately have "\<exists>res. uw_ref adj stop fuel s = Some res \<and> shortest_result adj start stop sp res"
    using s assms(4,6,7) V by (intro uw_ref_shortest) simp_all
  then obtain res where res: "uw_ref adj stop fuel s = Some res" "shortest_result adj start stop sp res" by blast
  have "snapshot (xid tx) wk rpred bi (with_more (s, graph_db.more g) g) V adj" by (rule snapshot_same [OF assms(3), of th]) simp
  from reading_visitor.uw_loop_refines [OF R this _ refl res(1), of "graph_db.more g"] assms(2,5,6) s(2,5) obtain g' where
    "uw_loop fuel wk th stop bi rpred visit (with_more (s, graph_db.more g) g) = (Inr res, g')" "same_db (xid tx) th g g'" by auto
  then show ?thesis using s(1) res(2) by (auto simp: unweighted_shortest_path_def node_capacity_def sbind_def with_local_def srun_def)
qed

text \<open>
  C11. The search for a path with the fewest relationships: with a step for every node of the graph the search returns. It reports success exactly
  for targets other than the start that are reachable; the path it then gives goes from the start to the target along relationships with
  the predicate, no other such path is shorter, and its number of hops is the number of its relationships. Otherwise the path argument is unchanged.
\<close>

theorem unweighted_shortest_path_correct:
  assumes "\<And>i r p g. \<exists>g'. visit i r p g = (Inr (), g') \<and> same_db (xid tx) th g g'"
    and "g_current g th = Some tx" "snapshot (xid tx) wk rpred bi g V adj" "finite V" "start \<in> V" "V \<subseteq> {..<capacity (g_nodes g)}"
    and "capacity (g_nodes g) < 2 ^ 64" "card V \<le> fuel"
  shows "\<exists>g' res. unweighted_shortest_path fuel wk th start stop bi rpred visit sp g = (Inr res, g') \<and> same_db (xid tx) th g g' \<and>
    shortest_result adj start stop sp res"
  by (rule unweighted_path_run [OF assms])

text \<open>The visitor that the query operators pass.\<close>

definition pv :: "'v path_visitor" where
  "pv i r p = sret ()"

interpretation pv: reading_visitor x th pv for x th
  by unfold_locales (simp add: pv_def sret_def)

lemmas pair_demo_snapshot = pair_snapshot [of "graph_db.more pair_demo", unfolded with_more_id]

theorem unweighted_shortest_path_correct_witness:
  "\<exists>g' res. unweighted_shortest_path 2 1 1 0 1 False (\<lambda>_. True) pv path_item_new pair_demo = (Inr res, g') \<and>
     shortest_result pair_adj 0 1 path_item_new res"
proof -
  from unweighted_shortest_path_correct [where tx = "transaction_new 5" and V = "{0, 1}" and adj = pair_adj and g = pair_demo and fuel = 2
      and visit = pv, of 1 1 "\<lambda>_. True" False 0 1 path_item_new]
  show ?thesis using pair_demo_sel pair_demo_snapshot by (auto simp: pv_def)
qed

end
