(* ===== verification/Graph_Dijkstra.thy ===== *)
theory Graph_Dijkstra
  imports Graph_Paths
begin

text \<open>
  The search for a path with the least weight: the loop on the store does what the same loop does on the weighted neighbour function of the graph the
  transaction sees, and that loop finds a path whose weight, added up from the start with the rounding of each sum, is minimal.
\<close>

section \<open>The next node\<close>

definition min_spec :: "bool list \<Rightarrow> real list \<Rightarrow> nat \<Rightarrow> nat \<times> real \<Rightarrow> bool" where
  "min_spec vs w n = (\<lambda>(m, mw).
     if mw < DBL_MAX then m < n \<and> \<not> vs ! m \<and> mw = w ! m \<and> (\<forall>i<n. \<not> vs ! i \<longrightarrow> mw \<le> w ! i)
     else m = UNKNOWN \<and> mw = DBL_MAX \<and> (\<forall>i<n. \<not> vs ! i \<longrightarrow> DBL_MAX \<le> w ! i))"

lemma min_node_spec: "min_spec vs w (length w) (min_node vs w)"
proof -
  have "min_spec vs w n (fold (\<lambda>i (m, mw). if \<not> vs ! i \<and> w ! i < mw then (i, w ! i) else (m, mw)) [0..<n] (UNKNOWN, DBL_MAX))" for n
  proof (induction n)
    case (Suc n)
    then show ?case by (fastforce simp: min_spec_def less_Suc_eq split: prod.splits if_splits)
  qed (simp add: min_spec_def)
  then show ?thesis by (simp add: min_node_def)
qed

section \<open>The loop on a neighbour function\<close>

definition wsuccs :: "rship_predicate \<Rightarrow> rship_weight \<Rightarrow> bool \<Rightarrow> rship_body elem list \<Rightarrow> rship_body elem list \<Rightarrow> (offset_t \<times> real) list" where
  "wsuccs rpred wt bi es fs = map (\<lambda>e. (rs_dest_node (body e), wt e)) (filter rpred es) @
     (if bi then map (\<lambda>e. (rs_src_node (body e), wt e)) (filter rpred fs) else [])"

definition wsnapshot ::
  "xid_t \<Rightarrow> nat \<Rightarrow> rship_predicate \<Rightarrow> rship_weight \<Rightarrow> bool \<Rightarrow> 'q graph_db_scheme \<Rightarrow> nat set \<Rightarrow> (nat \<Rightarrow> (nat \<times> real) list) \<Rightarrow> bool" where
  "wsnapshot x wk rpred wt bi g V adj \<longleftrightarrow>
     (\<forall>u\<in>V. (\<exists>es fs. links x wk g u es fs \<and> adj u = wsuccs rpred wt bi es fs) \<and> fst ` set (adj u) \<subseteq> V)"

lemma wsnapshot_same: "wsnapshot x wk rpred wt bi g V adj \<Longrightarrow> same_db x th g g' \<Longrightarrow> wsnapshot x wk rpred wt bi g' V adj"
  unfolding wsnapshot_def using links_same by metis

abbreviation relax_all :: "(real \<Rightarrow> real) \<Rightarrow> nat \<Rightarrow> (nat \<times> real) list \<Rightarrow> w_vars \<Rightarrow> w_vars" where
  "relax_all rnd u \<equiv> fold (\<lambda>(v, w). relax rnd u v w)"

fun w_ref :: "(real \<Rightarrow> real) \<Rightarrow> (nat \<Rightarrow> (nat \<times> real) list) \<Rightarrow> offset_t \<Rightarrow> path_item \<Rightarrow> nat \<Rightarrow> w_vars \<Rightarrow> (bool \<times> path_item) result" where
  "w_ref rnd adj stop sp 0 s = Inr (False, sp)"
| "w_ref rnd adj stop sp (Suc n) s =
     (let (m, mw) = min_node (w_visited s) (w_weight s) in
      if m = stop then rbind (path_item_trace (w_parent s) stop sp) (\<lambda>sp'. rbind (vec_get (w_weight s) stop) (\<lambda>w. Inr (True, sp'\<lparr>pth_weight := w\<rparr>)))
      else if mw = DBL_MAX then Inr (False, sp)
      else w_ref rnd adj stop sp n (relax_all rnd m (adj m) (s\<lparr>w_visited := (w_visited s)[m := True]\<rparr>)))"

lemma relax_sel [simp]: "w_visited (relax rnd u v w s) = w_visited s" "length (w_weight (relax rnd u v w s)) = length (w_weight s)"
  "length (w_parent (relax rnd u v w s)) = length (w_parent s)"
  by (simp_all add: relax_def)

lemma relax_all_sel [simp]: "w_visited (relax_all rnd u es s) = w_visited s" "length (w_weight (relax_all rnd u es s)) = length (w_weight s)"
  "length (w_parent (relax_all rnd u es s)) = length (w_parent s)"
  by (induction es arbitrary: s) auto

lemma relax_weight: "v \<noteq> a \<Longrightarrow> w_weight (relax rnd u a w s) ! v = w_weight s ! v"
  by (simp add: relax_def)

lemma relax_all_weight: "v \<notin> fst ` set es \<Longrightarrow> w_weight (relax_all rnd u es s) ! v = w_weight s ! v"
  by (induction es arbitrary: s) (auto simp: relax_weight)

definition relax_effect ::
  "(real \<Rightarrow> real) \<Rightarrow> rship_predicate \<Rightarrow> rship_weight \<Rightarrow> (rship_body \<Rightarrow> offset_t) \<Rightarrow> nat \<Rightarrow> rship_body elem \<Rightarrow> w_vars \<times> 'v \<Rightarrow> w_vars \<times> 'v" where
  "relax_effect rnd rpred wt far u e m = (if rpred e then relax rnd u (far (body e)) (wt e) (fst m) else fst m, snd m)"

lemma relax_consumer_run:
  assumes "rship_at j q h = (Inr e, h)" "rpred e \<longrightarrow> far (body e) < length (w_visited (fst (graph_db.more h)))"
  shows "relax_consumer rnd rpred wt far u j q h = (Inr (), with_more (relax_effect rnd rpred wt far u e (graph_db.more h)) h)"
proof -
  have "with_more (fst (graph_db.more h), snd (graph_db.more h)) h = h" by simp
  then show ?thesis using assms
    by (auto simp: relax_consumer_def sbind_def get_local_run upd_local_run srun_def vec_get_def relax_effect_def Let_def)
qed

lemma relax_fold: "fold (relax_effect rnd rpred wt far u) es m = (relax_all rnd u (map (\<lambda>e. (far (body e), wt e)) (filter rpred es)) (fst m), snd m)"
  by (induction es arbitrary: m) (auto simp: relax_effect_def)

lemma relax_both:
  assumes "links_via x wk g u r es fs" "g_current g th = Some tx" "xid tx = x"
    and "fst ` set (wsuccs rpred wt bi es fs) \<subseteq> {..<length (w_visited (fst (graph_db.more g)))}"
  shows "\<exists>g'. both_relationships wk th u r bi (relax_consumer rnd rpred wt rs_dest_node p) (relax_consumer rnd rpred wt rs_src_node p) g = (Inr (), g') \<and>
    same_db x th g g' \<and> graph_db.more g' = (relax_all rnd p (wsuccs rpred wt bi es fs) (fst (graph_db.more g)), snd (graph_db.more g))"
proof -
  let ?n = "length (w_visited (fst (graph_db.more g)))"
  have "\<exists>g'. both_relationships wk th u r bi (relax_consumer rnd rpred wt rs_dest_node p) (relax_consumer rnd rpred wt rs_src_node p) g = (Inr (), g') \<and> same_db x th g g' \<and>
    graph_db.more g' = (if bi then fold (relax_effect rnd rpred wt rs_src_node p) fs (fold (relax_effect rnd rpred wt rs_dest_node p) es (graph_db.more g))
      else fold (relax_effect rnd rpred wt rs_dest_node p) es (graph_db.more g)) \<and> length (w_visited (fst (graph_db.more g'))) = ?n"
  proof (rule both_run [where P = "\<lambda>m. length (w_visited (fst m)) = ?n", OF assms(1-3) refl]; rule conjI)
    fix j q e and h :: "(w_vars \<times> 'a) graph_db_scheme"
    assume h: "rship_at j q h = (Inr e, h)" "length (w_visited (fst (graph_db.more h))) = ?n"
    show "relax_consumer rnd rpred wt rs_dest_node p j q h = (Inr (), with_more (relax_effect rnd rpred wt rs_dest_node p e (graph_db.more h)) h)" if "e \<in> set es"
      using assms(4) that h(2) by (intro relax_consumer_run [OF h(1)]) (auto simp: wsuccs_def image_Un image_image)
    show "relax_consumer rnd rpred wt rs_src_node p j q h = (Inr (), with_more (relax_effect rnd rpred wt rs_src_node p e (graph_db.more h)) h)" if bi "e \<in> set fs"
      using assms(4) that h(2) by (intro relax_consumer_run [OF h(1)]) (auto simp: wsuccs_def image_Un image_image)
  qed (simp_all add: relax_effect_def)
  then show ?thesis by (auto simp: relax_fold wsuccs_def)
qed

lemma w_loop_refines:
  assumes "wsnapshot x wk rpred wt bi g V adj" "g_current g th = Some tx" "xid tx = x" "graph_db.more g = (s, w)"
    and "\<forall>v<length (w_weight s). w_weight s ! v < DBL_MAX \<longrightarrow> v \<in> V" "V \<subseteq> {..<length (w_visited s)}"
  shows "\<exists>g'. w_loop n wk th rnd stop bi rpred wt sp g = (w_ref rnd adj stop sp n s, g') \<and> same_db x th g g'"
  using assms
proof (induction n arbitrary: g s w)
  case (Suc n)
  obtain m mw where m: "min_node (w_visited s) (w_weight s) = (m, mw)" by fastforce
  show ?case
  proof (cases "m = stop \<or> mw = DBL_MAX")
    case True
    then show ?thesis using Suc.prems(4) m by (auto simp: sbind_def get_local_run srun_def rbind_def Let_def split: sum.splits)
  next
    case False
    let ?s = "s\<lparr>w_visited := (w_visited s)[m := True]\<rparr>"
    define g1 where "g1 = with_more (?s, w) g"
    define s2 where "s2 = relax_all rnd m (adj m) ?s"
    have s1: "same_db x th g g1" by (simp add: g1_def)
    have mV: "m \<in> V" using min_node_spec [of "w_visited s" "w_weight s"] m False Suc.prems(5) by (auto simp: min_spec_def split: if_splits)
    with wsnapshot_same [OF Suc.prems(1) s1] obtain es fs where e: "links x wk g1 m es fs" "adj m = wsuccs rpred wt bi es fs" "fst ` set (adj m) \<subseteq> V"
      by (auto simp: wsnapshot_def)
    have tx1: "g_current g1 th = Some tx" using Suc.prems(2) by (simp add: g1_def)
    from links_node_by_id [OF e(1) tx1 Suc.prems(3)] obtain r nv where r: "node_by_id th m g1 = (Inr r, g1\<lparr>g_nodes := nv\<rparr>)"
      "same_db x th g1 (g1\<lparr>g_nodes := nv\<rparr>)" "links_via x wk (g1\<lparr>g_nodes := nv\<rparr>) m r es fs" by blast
    define g2 where "g2 = g1\<lparr>g_nodes := nv\<rparr>"
    have m2: "graph_db.more g2 = (?s, w)" "g_current g2 th = Some tx" using tx1 by (simp_all add: g2_def g1_def)
    have "fst ` set (wsuccs rpred wt bi es fs) \<subseteq> {..<length (w_visited (fst (graph_db.more g2)))}" using e(2,3) Suc.prems(6) m2(1) by auto
    from relax_both [OF r(3) [folded g2_def] m2(2) Suc.prems(3) this, of rnd m] obtain g3 where
      g3: "both_relationships wk th m r bi (relax_consumer rnd rpred wt rs_dest_node m) (relax_consumer rnd rpred wt rs_src_node m) g2 = (Inr (), g3)"
        "same_db x th g2 g3" "graph_db.more g3 = (s2, w)" using m2(1) e(2) by (auto simp: s2_def)
    have s3: "same_db x th g g3" using same_db_trans [OF same_db_trans [OF s1 r(2)]] g3(2) by (simp add: g2_def)
    have "\<exists>g'. w_loop n wk th rnd stop bi rpred wt sp g3 = (w_ref rnd adj stop sp n s2, g') \<and> same_db x th g3 g'"
    proof (rule Suc.IH [OF wsnapshot_same [OF Suc.prems(1) s3] _ Suc.prems(3) g3(3)])
      show "g_current g3 th = Some tx" using s3 Suc.prems(2) by (simp add: same_db_def)
      show "\<forall>v<length (w_weight s2). w_weight s2 ! v < DBL_MAX \<longrightarrow> v \<in> V"
      proof (intro allI impI)
        fix v assume v: "v < length (w_weight s2)" "w_weight s2 ! v < DBL_MAX"
        show "v \<in> V"
        proof (cases "v \<in> fst ` set (adj m)")
          case False
          then have "w_weight s2 ! v = w_weight s ! v" using relax_all_weight [OF False, of rnd m ?s] by (simp add: s2_def)
          then show ?thesis using v Suc.prems(5) by (simp add: s2_def)
        qed (use e(3) in blast)
      qed
      show "V \<subseteq> {..<length (w_visited s2)}" using Suc.prems(6) by (simp add: s2_def)
    qed
    moreover have "w_loop (Suc n) wk th rnd stop bi rpred wt sp g = w_loop n wk th rnd stop bi rpred wt sp g3"
      using Suc.prems(4) m False r(1) g3(1) unfolding g2_def by (simp add: sbind_def get_local_run upd_local_run flip: g1_def)
    ultimately show ?thesis using m False same_db_trans [OF s3] by (auto simp: s2_def)
  qed
qed auto

section \<open>Paths and their weights\<close>

text \<open>A path from \<open>a\<close> and its weight: the weights of its relationships are added from the start, each sum is rounded.\<close>

inductive wpath :: "(real \<Rightarrow> real) \<Rightarrow> (nat \<Rightarrow> (nat \<times> real) list) \<Rightarrow> nat \<Rightarrow> nat list \<Rightarrow> real \<Rightarrow> bool" for rnd adj a where
  wpath_start: "wpath rnd adj a [a] 0"
| wpath_step: "wpath rnd adj a p c \<Longrightarrow> (v, w) \<in> set (adj (last p)) \<Longrightarrow> wpath rnd adj a (p @ [v]) (rnd (c + w))"

text \<open>The path that the parents give for a node, and what tracing it back returns.\<close>

definition traced :: "nat list \<Rightarrow> nat list \<Rightarrow> bool" where
  "traced parent p \<longleftrightarrow> p \<noteq> [] \<and> parent ! hd p = UNKNOWN \<and> successively (\<lambda>u v. parent ! v = u) p"

lemma trace_path_traced:
  assumes "traced parent p" "set p \<subseteq> {..<length parent}" "length parent \<le> UNKNOWN" "length p \<le> n"
  shows "trace_path n parent (last p) q = Inr (q @ p)"
  using assms
proof (induction p arbitrary: n rule: rev_induct)
  case (snoc v p)
  then obtain k where n: "n = Suc k" by (cases n) auto
  show ?case
  proof (cases "p = []")
    case True
    then show ?thesis using snoc.prems n by (simp add: traced_def vec_get_def)
  next
    case False
    then have t: "traced parent p" "parent ! v = last p" using snoc.prems(1) by (auto simp: traced_def successively_append_iff)
    have "last p < length parent" using snoc.prems(2) last_in_set [OF False] by auto
    then have "last p \<noteq> UNKNOWN" using snoc.prems(3) by simp
    then show ?thesis using snoc.IH [OF t(1), of k] snoc.prems n t(2) by (simp add: vec_get_def)
  qed
qed (simp add: traced_def)

definition settled :: "w_vars \<Rightarrow> nat set" where
  "settled s = {v. v < length (w_visited s) \<and> w_visited s ! v}"

text \<open>
  The invariant of the search from \<open>a\<close>, where \<open>P\<close> are the relationships that were looked at: a weight below the maximum is the weight of a path through
  settled nodes that the parents give, the weights of settled nodes are minimal, and the weight of another node is not more than through a relationship of \<open>P\<close>.
\<close>

definition w_tree :: "(real \<Rightarrow> real) \<Rightarrow> (nat \<Rightarrow> (nat \<times> real) list) \<Rightarrow> nat set \<Rightarrow> nat \<Rightarrow> w_vars \<Rightarrow> bool" where
  "w_tree rnd adj V a s \<longleftrightarrow> (\<forall>v<length (w_visited s). w_weight s ! v < DBL_MAX \<longrightarrow> (\<exists>p. wpath rnd adj a p (w_weight s ! v) \<and> last p = v \<and>
     distinct p \<and> set p \<subseteq> V \<and> set (butlast p) \<subseteq> settled s \<and> traced (w_parent s) p))"

definition w_bounds :: "(real \<Rightarrow> real) \<Rightarrow> (nat \<Rightarrow> (nat \<times> real) list) \<Rightarrow> nat \<Rightarrow> (nat \<times> nat \<times> real) set \<Rightarrow> w_vars \<Rightarrow> bool" where
  "w_bounds rnd adj a P s \<longleftrightarrow> w_weight s ! a = 0 \<and>
     (\<forall>v\<in>settled s. \<forall>p c. wpath rnd adj a p c \<and> last p = v \<longrightarrow> w_weight s ! v \<le> c) \<and>
     (\<forall>(u, v, w)\<in>P. u \<in> settled s \<and> v \<notin> settled s \<longrightarrow> w_weight s ! v \<le> rnd (w_weight s ! u + w))"

definition w_inv :: "(real \<Rightarrow> real) \<Rightarrow> (nat \<Rightarrow> (nat \<times> real) list) \<Rightarrow> nat set \<Rightarrow> nat \<Rightarrow> (nat \<times> nat \<times> real) set \<Rightarrow> w_vars \<Rightarrow> bool" where
  "w_inv rnd adj V a P s \<longleftrightarrow> length (w_weight s) = length (w_visited s) \<and> length (w_parent s) = length (w_visited s) \<and>
     settled s \<subseteq> V \<and> (\<forall>v\<in>settled s. w_weight s ! v < DBL_MAX) \<and> w_tree rnd adj V a s \<and> w_bounds rnd adj a P s"

abbreviation rship_set :: "(nat \<Rightarrow> (nat \<times> real) list) \<Rightarrow> nat set \<Rightarrow> (nat \<times> nat \<times> real) set" where
  "rship_set adj S \<equiv> {(u, v, w). u \<in> S \<and> (v, w) \<in> set (adj u)}"

context rounding begin

lemma wpath_weight: "wpath rnd adj a p c \<Longrightarrow> \<forall>u. \<forall>(v, w)\<in>set (adj u). 0 \<le> w \<Longrightarrow> 0 \<le> c \<and> rnd c = c"
proof (induction rule: wpath.induct)
  case (wpath_step p c v w)
  then have "0 \<le> c" "rnd c = c" "0 \<le> w" by auto
  then show ?case using rnd_nonneg [of "c + w"] rnd_idem [of "c + w"] by simp
qed (simp add: rnd_zero)

text \<open>A path that leaves the settled nodes has at least the weight of one of the other nodes.\<close>

lemma wpath_leaves:
  assumes "wpath rnd adj a p c" "w_bounds rnd adj a (rship_set adj (settled s)) s" "\<forall>u. \<forall>(v, w)\<in>set (adj u). 0 \<le> w" "last p \<notin> settled s"
    "\<forall>u\<in>V. fst ` set (adj u) \<subseteq> V" "a \<in> V" "\<forall>v\<in>settled s. 0 \<le> w_weight s ! v"
  shows "last p \<in> V \<and> (\<exists>y\<in>V - settled s. w_weight s ! y \<le> c)"
proof -
  have V: "last p \<in> V" if "wpath rnd adj a p c" for p c
    using that by (induction rule: wpath.induct) (use assms(5,6) in force)+
  show ?thesis using assms(1,4)
  proof (induction rule: wpath.induct)
    case wpath_start
    then show ?case using assms(2,6) by (intro conjI bexI [of _ a]) (auto simp: w_bounds_def)
  next
    case (wpath_step p c v w)
    have c: "0 \<le> c" "rnd c = c" "0 \<le> w" using wpath_weight [OF wpath_step(1) assms(3)] assms(3) wpath_step(2) by auto
    have v: "v \<in> V" "v \<notin> settled s" using V [OF wpath.wpath_step [OF wpath_step(1,2)]] wpath_step.prems by auto
    show ?case
    proof (cases "last p \<in> settled s")
      case True
      then have "w_weight s ! last p \<le> c" "w_weight s ! v \<le> rnd (w_weight s ! last p + w)"
        using assms(2) wpath_step(1,2) v(2) unfolding w_bounds_def by fastforce+
      moreover have "rnd (w_weight s ! last p + w) \<le> rnd (c + w)" using calculation(1) assms(7) True c(3) by (intro rnd_mono) auto
      ultimately show ?thesis using v by (intro conjI bexI [of _ v]) auto
    next
      case False
      then obtain y where "y \<in> V - settled s" "w_weight s ! y \<le> c" using wpath_step.IH by blast
      then show ?thesis using rnd_grows [OF c] v by (intro conjI bexI [of _ y]) auto
    qed
  qed
qed

lemma settled_weight:
  assumes "w_inv rnd adj V a P s" "\<forall>u. \<forall>(v, w)\<in>set (adj u). 0 \<le> w"
  shows "\<forall>v\<in>settled s. 0 \<le> w_weight s ! v"
proof
  fix v assume "v \<in> settled s"
  then obtain p where "wpath rnd adj a p (w_weight s ! v)" using assms(1) by (auto simp: w_inv_def w_tree_def settled_def)
  then show "0 \<le> w_weight s ! v" using wpath_weight assms(2) by blast
qed

lemma settle_inv:
  assumes inv: "w_inv rnd adj V a (rship_set adj (settled s)) s" and w: "\<forall>u. \<forall>(v, w)\<in>set (adj u). 0 \<le> w"
    and V: "\<forall>u\<in>V. fst ` set (adj u) \<subseteq> V" "a \<in> V" "V \<subseteq> {..<length (w_visited s)}"
    and m: "m < length (w_visited s)" "m \<notin> settled s" "w_weight s ! m < DBL_MAX" "\<forall>i<length (w_visited s). i \<notin> settled s \<longrightarrow> w_weight s ! m \<le> w_weight s ! i"
  defines "t \<equiv> s\<lparr>w_visited := (w_visited s)[m := True]\<rparr>"
  shows "settled t = insert m (settled s)" "w_inv rnd adj V a (rship_set adj (settled s)) t" "m \<in> V"
    "\<And>p c. wpath rnd adj a p c \<Longrightarrow> last p = m \<Longrightarrow> w_weight s ! m \<le> c"
proof -
  show t: "settled t = insert m (settled s)" using m(1) by (auto simp: settled_def t_def nth_list_update)
  have sel: "w_weight t = w_weight s" "w_parent t = w_parent s" "length (w_visited t) = length (w_visited s)" by (simp_all add: t_def)
  show opt: "w_weight s ! m \<le> c" if "wpath rnd adj a p c" "last p = m" for p c
  proof -
    have "\<exists>y\<in>V - settled s. w_weight s ! y \<le> c"
      using wpath_leaves [OF that(1) _ w _ V(1,2) settled_weight [OF inv w]] inv m(2) that(2) by (simp add: w_inv_def)
    then show ?thesis using m(4) V(3) by fastforce
  qed
  obtain p where p: "last p = m" "set p \<subseteq> V" "traced (w_parent s) p" using inv m(1,3) by (fastforce simp: w_inv_def w_tree_def)
  then show "m \<in> V" using last_in_set [of p] by (auto simp: traced_def)
  moreover have "w_tree rnd adj V a t" using inv unfolding w_inv_def w_tree_def t sel by (meson subset_insertI order_trans)
  moreover have "w_bounds rnd adj a (rship_set adj (settled s)) t" using inv opt unfolding w_inv_def w_bounds_def t sel by auto
  ultimately show "w_inv rnd adj V a (rship_set adj (settled s)) t" using inv m(3) by (simp add: w_inv_def t sel)
qed

lemma relax_inv:
  assumes inv: "w_inv rnd adj V a P s" and w: "\<forall>u. \<forall>(v, w)\<in>set (adj u). 0 \<le> w" and V: "V \<subseteq> {..<length (w_visited s)}"
    and e: "u \<in> settled s" "(v, c) \<in> set (adj u)" "v \<in> V"
  shows "w_inv rnd adj V a (insert (u, v, c) P) (relax rnd u v c s)"
proof (cases "v \<notin> settled s \<and> rnd (w_weight s ! u + c) < w_weight s ! v")
  case False
  then have "relax rnd u v c s = s" using V e(3) by (auto simp: relax_def settled_def)
  moreover have "w_bounds rnd adj a (insert (u, v, c) P) s" using inv False unfolding w_inv_def w_bounds_def by auto
  ultimately show ?thesis using inv by (simp add: w_inv_def)
next
  case True
  define t where "t = relax rnd u v c s"
  let ?w = "rnd (w_weight s ! u + c)"
  have lens: "length (w_weight s) = length (w_visited s)" "length (w_parent s) = length (w_visited s)" "v < length (w_visited s)"
    using inv V e(3) by (auto simp: w_inv_def)
  have t: "settled t = settled s" "w_visited t = w_visited s" "w_weight t = (w_weight s)[v := ?w]" "w_parent t = (w_parent s)[v := u]"
    using True lens(3) by (auto simp: t_def relax_def settled_def)
  have u: "0 \<le> w_weight s ! u" "u \<noteq> v" "w_weight s ! u < DBL_MAX" using settled_weight [OF inv w] e(1) True inv by (auto simp: w_inv_def)
  have "0 \<le> c" using w e(2) by auto
  then have "0 \<le> ?w" using rnd_nonneg [of "w_weight s ! u + c"] u(1) by simp
  then have va: "v \<noteq> a" using True inv by (auto simp: w_inv_def w_bounds_def)
  have keep: "traced (w_parent t) p \<longleftrightarrow> traced (w_parent s) p" if "v \<notin> set p" for p
    using that successively_cong [of p "\<lambda>u v. w_parent t ! v = u" "\<lambda>u v. w_parent s ! v = u" p] unfolding traced_def t(4)
    by (metis hd_in_set nth_list_update_neq)
  have "w_tree rnd adj V a t" unfolding w_tree_def t(2)
  proof (intro allI impI)
    fix y assume y: "y < length (w_visited s)" "w_weight t ! y < DBL_MAX"
    show "\<exists>p. wpath rnd adj a p (w_weight t ! y) \<and> last p = y \<and> distinct p \<and> set p \<subseteq> V \<and> set (butlast p) \<subseteq> settled t \<and> traced (w_parent t) p"
    proof (cases "y = v")
      case False
      then obtain p where p: "wpath rnd adj a p (w_weight s ! y)" "last p = y" "distinct p" "set p \<subseteq> V" "set (butlast p) \<subseteq> settled s" "traced (w_parent s) p"
        using y inv t(3) by (auto simp: w_inv_def w_tree_def)
      have "v \<notin> set p" using p(2,5) False True by (cases p rule: rev_cases) auto
      then show ?thesis using p keep False t(1,3) by auto
    next
      case True
      from e(1) u(3) inv obtain p where p: "wpath rnd adj a p (w_weight s ! u)" "last p = u" "distinct p" "set p \<subseteq> V" "set (butlast p) \<subseteq> settled s" "traced (w_parent s) p"
        by (auto simp: w_inv_def w_tree_def settled_def)
      have sp: "set p \<subseteq> settled s" "p \<noteq> []" using p(2,5,6) e(1) by (cases p rule: rev_cases; auto simp: traced_def)+
      then have "v \<notin> set p" using \<open>v \<notin> settled s \<and> _\<close> by auto
      then have "traced (w_parent t) (p @ [v])" using keep p(6) t(4) lens p(2) sp(2) by (auto simp: traced_def successively_append_iff)
      moreover have "wpath rnd adj a (p @ [v]) (w_weight t ! y)" using wpath_step [OF p(1)] e(2) p(2) True t(3) lens by simp
      ultimately show ?thesis using p(3,4) sp e(3) \<open>v \<notin> set p\<close> True t(1) by (intro exI [of _ "p @ [v]"]) simp
    qed
  qed
  moreover have "w_bounds rnd adj a (insert (u, v, c) P) t"
    using inv True va u(2) lens unfolding w_inv_def w_bounds_def t(1,3) by (auto simp: nth_list_update split: prod.splits; fastforce)
  moreover have "\<forall>y\<in>settled t. w_weight t ! y < DBL_MAX" using inv True t(1,3) by (metis nth_list_update_neq w_inv_def)
  ultimately show ?thesis using inv t by (simp add: w_inv_def flip: t_def)
qed

lemma relax_all_inv:
  assumes "w_inv rnd adj V a P s" "\<forall>u. \<forall>(v, w)\<in>set (adj u). 0 \<le> w" "V \<subseteq> {..<length (w_visited s)}" "u \<in> settled s" "set es \<subseteq> set (adj u)" "fst ` set es \<subseteq> V"
  shows "w_inv rnd adj V a ({u} \<times> set es \<union> P) (relax_all rnd u es s)"
  using assms
proof (induction es arbitrary: s P)
  case (Cons e es)
  obtain v c where e: "e = (v, c)" by (cases e)
  have "w_inv rnd adj V a (insert (u, v, c) P) (relax rnd u v c s)"
    by (rule relax_inv) (use Cons.prems e in auto)
  then have "w_inv rnd adj V a ({u} \<times> set es \<union> insert (u, v, c) P) (relax_all rnd u es (relax rnd u v c s))"
    by (rule Cons.IH) (use Cons.prems in \<open>auto simp: settled_def\<close>)
  moreover have "{u} \<times> set es \<union> insert (u, v, c) P = {u} \<times> set (e # es) \<union> P" by (auto simp: e)
  ultimately show ?case by (simp add: e)
qed simp

end

text \<open>The result of a search from \<open>a\<close> for \<open>stop\<close> whose path argument was \<open>sp\<close>; tracing appends to the path of the argument.\<close>

definition lightest_result :: "(real \<Rightarrow> real) \<Rightarrow> (nat \<Rightarrow> (nat \<times> real) list) \<Rightarrow> nat \<Rightarrow> nat \<Rightarrow> path_item \<Rightarrow> bool \<times> path_item \<Rightarrow> bool" where
  "lightest_result rnd adj a stop sp = (\<lambda>(found, sp').
     (found \<longleftrightarrow> (\<exists>p c. wpath rnd adj a p c \<and> last p = stop \<and> c < DBL_MAX)) \<and>
     (if found then \<exists>p. pth_path sp' = pth_path sp @ p \<and> wpath rnd adj a p (pth_weight sp') \<and> last p = stop \<and>
        (\<forall>q c. wpath rnd adj a q c \<and> last q = stop \<longrightarrow> pth_weight sp' \<le> c) \<and> pth_hops sp' = pth_hops sp
      else sp' = sp))"

context rounding begin

lemma w_ref_found:
  assumes inv: "w_inv rnd adj V a P s" and min: "\<And>p c. wpath rnd adj a p c \<Longrightarrow> last p = stop \<Longrightarrow> w_weight s ! stop \<le> c"
    and stop: "stop < length (w_visited s)" "w_weight s ! stop < DBL_MAX" and V: "V \<subseteq> {..<length (w_visited s)}" "length (w_visited s) \<le> UNKNOWN"
  shows "\<exists>res. rbind (path_item_trace (w_parent s) stop sp) (\<lambda>sp'. rbind (vec_get (w_weight s) stop) (\<lambda>w. Inr (True, sp'\<lparr>pth_weight := w\<rparr>))) = Inr res \<and>
    lightest_result rnd adj a stop sp res"
proof -
  from inv stop obtain p where p: "wpath rnd adj a p (w_weight s ! stop)" "last p = stop" "distinct p" "set p \<subseteq> V" "traced (w_parent s) p"
    by (auto simp: w_inv_def w_tree_def)
  have l: "length (w_parent s) = length (w_visited s)" "length (w_weight s) = length (w_visited s)" using inv by (simp_all add: w_inv_def)
  have s: "set p \<subseteq> {..<length (w_parent s)}" using p(4) V(1) unfolding l by blast
  then have "card (set p) \<le> length (w_parent s)" by (metis card_lessThan card_mono finite_lessThan)
  then have "trace_path (length (w_parent s)) (w_parent s) stop (pth_path sp) = Inr (pth_path sp @ p)"
    using trace_path_traced [OF p(5) s] V(2) l p(2,3) by (simp add: distinct_card)
  then have "rbind (path_item_trace (w_parent s) stop sp) (\<lambda>sp'. rbind (vec_get (w_weight s) stop) (\<lambda>w. Inr (True, sp'\<lparr>pth_weight := w\<rparr>))) =
      Inr (True, sp\<lparr>pth_path := pth_path sp @ p, pth_weight := w_weight s ! stop\<rparr>)"
    using stop(1) l(2) by (simp add: path_item_trace_def vec_get_def)
  moreover have "lightest_result rnd adj a stop sp (True, sp\<lparr>pth_path := pth_path sp @ p, pth_weight := w_weight s ! stop\<rparr>)"
    using p(1,2) min stop(2) unfolding lightest_result_def by auto
  ultimately show ?thesis by blast
qed

lemma w_ref_lightest:
  assumes "w_inv rnd adj V a (rship_set adj (settled s)) s" "\<forall>u. \<forall>(v, w)\<in>set (adj u). 0 \<le> w" "\<forall>u\<in>V. fst ` set (adj u) \<subseteq> V" "a \<in> V"
    and "V \<subseteq> {..<length (w_visited s)}" "length (w_visited s) \<le> UNKNOWN" "stop < length (w_visited s)" "stop \<notin> settled s"
    and "n + card (settled s) = length (w_visited s)"
  shows "\<exists>res. w_ref rnd adj stop sp n s = Inr res \<and> lightest_result rnd adj a stop sp res"
  using assms
proof (induction n arbitrary: s)
  case 0
  have "settled s = {..<length (w_visited s)}" using 0(9) by (intro card_subset_eq) (auto simp: settled_def)
  then show ?case using 0(7,8) by simp
next
  case (Suc n)
  obtain m mw where m: "min_node (w_visited s) (w_weight s) = (m, mw)" by fastforce
  have l: "length (w_weight s) = length (w_visited s)" using Suc.prems(1) by (simp add: w_inv_def)
  have ms: "min_spec (w_visited s) (w_weight s) (length (w_visited s)) (m, mw)" using min_node_spec [of "w_visited s" "w_weight s"] m l by simp
  show ?case
  proof (cases "mw < DBL_MAX")
    case False
    then have mw: "m = UNKNOWN" "mw = DBL_MAX" "\<forall>i<length (w_visited s). i \<notin> settled s \<longrightarrow> DBL_MAX \<le> w_weight s ! i"
      using ms by (auto simp: min_spec_def settled_def)
    have "\<not> c < DBL_MAX" if c: "wpath rnd adj a p c" "last p = stop" for p c
    proof -
      obtain y where "y \<in> V - settled s" "w_weight s ! y \<le> c"
        using wpath_leaves [OF c(1) _ Suc.prems(2) _ Suc.prems(3,4) settled_weight [OF Suc.prems(1,2)]] Suc.prems(1,8) c(2) by (auto simp: w_inv_def)
      then show ?thesis using mw(3) Suc.prems(5) by fastforce
    qed
    moreover have "m \<noteq> stop" using mw(1) Suc.prems(6,7) by simp
    ultimately show ?thesis using m mw(2) by (auto simp: lightest_result_def)
  next
    case True
    then have mw: "m < length (w_visited s)" "m \<notin> settled s" "w_weight s ! m < DBL_MAX"
      "\<forall>i<length (w_visited s). i \<notin> settled s \<longrightarrow> w_weight s ! m \<le> w_weight s ! i" using ms by (auto simp: min_spec_def settled_def)
    note st = settle_inv [OF Suc.prems(1-5) mw]
    show ?thesis
    proof (cases "m = stop")
      case True
      then show ?thesis using w_ref_found [OF Suc.prems(1) st(4) [unfolded True] Suc.prems(7) mw(3) [unfolded True] Suc.prems(5,6)] m by simp
    next
      case False
      let ?s = "s\<lparr>w_visited := (w_visited s)[m := True]\<rparr>"
      define t where "t = relax_all rnd m (adj m) ?s"
      have t: "settled t = insert m (settled s)" "length (w_visited t) = length (w_visited s)" using st(1) by (simp_all add: t_def settled_def)
      have "w_inv rnd adj V a ({m} \<times> set (adj m) \<union> rship_set adj (settled s)) t" unfolding t_def
        by (rule relax_all_inv [OF st(2)]) (use Suc.prems(2,3,5) st(1,3) in auto)
      moreover have "{m} \<times> set (adj m) \<union> rship_set adj (settled s) = rship_set adj (settled t)" using t(1) by auto
      moreover have "finite (settled s)" by (auto simp: settled_def)
      ultimately have "\<exists>res. w_ref rnd adj stop sp n t = Inr res \<and> lightest_result rnd adj a stop sp res"
        using Suc.prems t mw(2) False by (intro Suc.IH) auto
      then show ?thesis using m True False by (simp add: t_def)
    qed
  qed
qed

end

lemma weighted_path_run:
  assumes "g_current g th = Some tx" "wsnapshot (xid tx) wk rpred weight_func bi g V adj" "start \<in> V" "V \<subseteq> {..<capacity (g_nodes g)}"
    and "capacity (g_nodes g) \<le> UNKNOWN" "stop < capacity (g_nodes g)" "\<forall>u. \<forall>(v, w)\<in>set (adj u). 0 \<le> w"
  shows "\<exists>g' res. weighted_shortest_path wk th start stop bi rpred weight_func sp g = (Inr res, g') \<and> same_db (xid tx) th g g' \<and>
    lightest_result rnd64 adj start stop sp res"
proof -
  let ?n = "capacity (g_nodes g)"
  have st: "start < ?n" using assms(3,4) by auto
  then obtain s where s: "w_vars_new ?n start = Inr s" "w_weight s = (replicate ?n DBL_MAX)[start := 0]" "w_parent s ! start = UNKNOWN"
    "w_visited s = replicate ?n False" "length (w_parent s) = ?n" by (auto simp: w_vars_new_def vec_set_def rbind_def)
  have "settled s = {}" by (auto simp: settled_def s(4))
  moreover have w: "start = v" if "v < ?n" "w_weight s ! v < DBL_MAX" for v using that st by (auto simp: s(2) nth_list_update split: if_splits)
  have "w_tree rnd64 adj V start s" unfolding w_tree_def
    by (auto dest!: w simp: s(4)) (use s(2,3) st assms(3) in \<open>auto simp: traced_def intro!: exI [of _ "[start]"] wpath_start\<close>)
  ultimately have inv: "w_inv rnd64 adj V start (rship_set adj (settled s)) s" using s st by (simp add: w_inv_def w_bounds_def)
  have "\<forall>u\<in>V. fst ` set (adj u) \<subseteq> V" using assms(2) by (simp add: wsnapshot_def)
  from rnd64.w_ref_lightest [OF inv assms(7) this assms(3), of stop ?n sp] obtain res where
    res: "w_ref rnd64 adj stop sp ?n s = Inr res" "lightest_result rnd64 adj start stop sp res" using assms(4-6) s(4) \<open>settled s = {}\<close> by auto
  have "wsnapshot (xid tx) wk rpred weight_func bi (with_more (s, graph_db.more g) g) V adj" by (rule wsnapshot_same [OF assms(2), of th]) simp
  then have "\<exists>g'. w_loop ?n wk th rnd64 stop bi rpred weight_func sp (with_more (s, graph_db.more g) g) = (w_ref rnd64 adj stop sp ?n s, g') \<and>
      same_db (xid tx) th (with_more (s, graph_db.more g) g) g'"
  proof (rule w_loop_refines [OF _ _ refl with_more_sel(1)])
    show "\<forall>v<length (w_weight s). w_weight s ! v < DBL_MAX \<longrightarrow> v \<in> V" using w assms(3) s(2) by auto
  qed (use assms(1,4) s(4) in simp_all)
  then obtain g' where "w_loop ?n wk th rnd64 stop bi rpred weight_func sp (with_more (s, graph_db.more g) g) = (Inr res, g')" "same_db (xid tx) th g g'"
    using res(1) by auto
  then show ?thesis using s(1) res(2) by (auto simp: weighted_shortest_path_def node_capacity_def sbind_def with_local_def srun_def)
qed

text \<open>
  C8. The search for a path with the least weight: if no relationship has a negative weight, the search returns, within one round for every slot of the
  node table. It reports success exactly if some path to the target has a weight below \<open>DBL_MAX\<close>. The nodes it then appends to the path argument are a path
  from the start to the target, its weight is the weight of this path with the rounding of double arithmetic, and no path is lighter.
\<close>

theorem weighted_shortest_path_correct:
  assumes "g_current g th = Some tx" "wsnapshot (xid tx) wk rpred weight_func bi g V adj" "start \<in> V" "V \<subseteq> {..<capacity (g_nodes g)}"
    and "capacity (g_nodes g) \<le> UNKNOWN" "stop < capacity (g_nodes g)" "\<forall>u. \<forall>(v, w)\<in>set (adj u). 0 \<le> w"
  shows "\<exists>g' res. weighted_shortest_path wk th start stop bi rpred weight_func sp g = (Inr res, g') \<and> same_db (xid tx) th g g' \<and>
    lightest_result rnd64 adj start stop sp res"
  by (rule weighted_path_run [OF assms])

lemma pair_wsnapshot: "wsnapshot 5 1 (\<lambda>_. True) (\<lambda>_. 2) False pair_demo {0, 1} (\<lambda>u. if u = 0 then [(1, 2)] else [])"
  unfolding wsnapshot_def using pair_links [of "graph_db.more pair_demo", unfolded with_more_id] by (force simp: wsuccs_def)

theorem weighted_shortest_path_correct_witness:
  "\<exists>g' res. weighted_shortest_path 1 1 0 1 False (\<lambda>_. True) (\<lambda>_. 2) path_item_new pair_demo = (Inr res, g') \<and>
     lightest_result rnd64 (\<lambda>u. if u = 0 then [(1, 2)] else []) 0 1 path_item_new res"
proof -
  from weighted_shortest_path_correct [where tx = "transaction_new 5" and V = "{0, 1}" and g = pair_demo and adj = "\<lambda>u. if u = 0 then [(1, 2)] else []",
      of 1 1 "\<lambda>_. True" "\<lambda>_. 2" False 0 1 path_item_new]
  show ?thesis using pair_demo_sel pair_wsnapshot by (auto simp: UNKNOWN_def)
qed

end
