(* ===== verification/Query_Value.thy ===== *)
theory Query_Value
  imports Graph_Db Double_Round
begin

text \<open>
  The values of queries, \<^verbatim>\<open>src/src/query/utils/qresult.hpp\<close> and \<^verbatim>\<open>qresult.cpp\<close>: the variant type \<open>query_result\<close>, its comparisons and its
  conversions, and the functions on node and relationship descriptions of \<^verbatim>\<open>src/src/query/plan_op/qop_builtins.cpp\<close>. A pointer to a node or relationship is
  a position and a version, or null. An \<open>int\<close> is an integer of 32 bits. A time stamp is its 64-bit counter; what the code takes from Boost and from the
  regular expressions of the library is the record parameter \<open>qlib\<close>.
\<close>

datatype query_result =
    Q_node "(offset_t \<times> vref) option"
  | Q_rship "(offset_t \<times> vref) option"
  | Q_int int
  | Q_double double
  | Q_string string
  | Q_uint64 "64 word"
  | Q_ptime "64 word"
  | Q_array "64 word list"
  | Q_null
  | Q_node_descr node_description
  | Q_rship_descr rship_description

type_synonym qr_tuple = "query_result list"

text \<open>The default value of the variant is the default value of its first type.\<close>

definition qv_default :: query_result where
  "qv_default = Q_node None"

record qlib =
  ql_ptime_lt :: "64 word \<Rightarrow> 64 word \<Rightarrow> bool"
  ql_regex :: "string \<Rightarrow> string \<Rightarrow> bool"
  ql_iso :: "64 word \<Rightarrow> string"
  ql_iso_date :: "64 word \<Rightarrow> string"
  ql_fixed :: "double \<Rightarrow> string"
  ql_time_from_string :: "string \<Rightarrow> 64 word"
  ql_now :: "64 word"

section \<open>Access\<close>

fun qv_get_node :: "query_result \<Rightarrow> (offset_t \<times> vref) option result" where
  "qv_get_node (Q_node p) = Inr p"
| "qv_get_node _ = Inl Bad_get"

fun qv_get_relationship :: "query_result \<Rightarrow> (offset_t \<times> vref) option result" where
  "qv_get_relationship (Q_rship p) = Inr p"
| "qv_get_relationship _ = Inl Bad_get"

fun qv_get_int :: "query_result \<Rightarrow> int result" where
  "qv_get_int (Q_int i) = Inr i"
| "qv_get_int _ = Inl Bad_get"

fun qv_get_uint64 :: "query_result \<Rightarrow> 64 word result" where
  "qv_get_uint64 (Q_uint64 u) = Inr u"
| "qv_get_uint64 _ = Inl Bad_get"

fun qv_get_double :: "query_result \<Rightarrow> double result" where
  "qv_get_double (Q_double d) = Inr d"
| "qv_get_double _ = Inl Bad_get"

fun qv_get_ptime :: "query_result \<Rightarrow> 64 word result" where
  "qv_get_ptime (Q_ptime t) = Inr t"
| "qv_get_ptime _ = Inl Bad_get"

fun qv_get_string :: "query_result \<Rightarrow> string result" where
  "qv_get_string (Q_string s) = Inr s"
| "qv_get_string _ = Inl Bad_get"

section \<open>Conversions\<close>

definition qv_from_pitem :: "p_item \<Rightarrow> query_result" where
  "qv_from_pitem p =
     (case pi_type p of
        P_int \<Rightarrow> Q_int (sint (ucast (pi_value p) :: 32 word))
      | P_double \<Rightarrow> Q_double (d_of_bits (pi_value p))
      | P_dcode \<Rightarrow> Q_int (sint (ucast (pi_value p) :: 32 word))
      | P_uint64 \<Rightarrow> Q_uint64 (pi_value p)
      | P_ptime \<Rightarrow> Q_ptime (pi_value p)
      | _ \<Rightarrow> qv_default)"

fun qv_to_any :: "query_result \<Rightarrow> any_val option" where
  "qv_to_any (Q_int i) = Some (Any_int i)"
| "qv_to_any (Q_double d) = Some (Any_double (d_to_bits d))"
| "qv_to_any (Q_string s) = Some (Any_string s)"
| "qv_to_any (Q_uint64 u) = Some (Any_uint64 u)"
| "qv_to_any (Q_ptime t) = Some (Any_ptime t)"
| "qv_to_any _ = None"

section \<open>Comparisons\<close>

text \<open>Strings are compared by the codes of their characters.\<close>

fun string_less :: "string \<Rightarrow> string \<Rightarrow> bool" where
  "string_less s [] = False"
| "string_less [] (c # t) = True"
| "string_less (b # s) (c # t) = ((of_char b :: nat) < of_char c \<or> b = c \<and> string_less s t)"

definition u_of_int :: "int \<Rightarrow> 64 word" where
  "u_of_int i = word_of_int i"

definition d_of_uint64 :: "64 word \<Rightarrow> double" where
  "d_of_uint64 u = d_of_int (uint u)"

definition qv_equal :: "query_result \<Rightarrow> query_result \<Rightarrow> bool" where
  "qv_equal v w =
     (case v of
        Q_node p \<Rightarrow> (case w of Q_node q \<Rightarrow> (p = q) | _ \<Rightarrow> False)
      | Q_rship p \<Rightarrow> (case w of Q_rship q \<Rightarrow> (p = q) | _ \<Rightarrow> False)
      | Q_int i \<Rightarrow> (case w of Q_int j \<Rightarrow> (i = j) | Q_uint64 u \<Rightarrow> (u_of_int i = u) | Q_double d \<Rightarrow> d_eq (d_of_int i) d | _ \<Rightarrow> False)
      | Q_double d \<Rightarrow> (case w of Q_double e \<Rightarrow> d_eq d e | Q_uint64 u \<Rightarrow> d_eq d (d_of_uint64 u) | Q_int i \<Rightarrow> d_eq d (d_of_int i) | _ \<Rightarrow> False)
      | Q_string s \<Rightarrow> (case w of Q_string t \<Rightarrow> (s = t) | _ \<Rightarrow> False)
      | Q_uint64 u \<Rightarrow> (case w of Q_uint64 v \<Rightarrow> (u = v) | Q_int i \<Rightarrow> (u = u_of_int i) | Q_double d \<Rightarrow> d_eq (d_of_uint64 u) d | _ \<Rightarrow> False)
      | Q_ptime u \<Rightarrow> (case w of Q_ptime v \<Rightarrow> (u = v) | _ \<Rightarrow> False)
      | Q_null \<Rightarrow> (case w of Q_null \<Rightarrow> True | _ \<Rightarrow> False)
      | _ \<Rightarrow> False)"

definition less_than :: "qlib \<Rightarrow> query_result \<Rightarrow> query_result \<Rightarrow> bool" where
  "less_than l v w =
     (case v of
        Q_int i \<Rightarrow> (case w of Q_int j \<Rightarrow> (i < j) | Q_uint64 u \<Rightarrow> (u_of_int i < u) | Q_double d \<Rightarrow> d_less (d_of_int i) d | _ \<Rightarrow> False)
      | Q_double d \<Rightarrow> (case w of Q_double e \<Rightarrow> d_less d e | Q_uint64 u \<Rightarrow> d_less d (d_of_uint64 u) | Q_int i \<Rightarrow> d_less d (d_of_int i) | _ \<Rightarrow> False)
      | Q_string s \<Rightarrow> (case w of Q_string t \<Rightarrow> string_less s t | _ \<Rightarrow> False)
      | Q_uint64 u \<Rightarrow> (case w of Q_uint64 v \<Rightarrow> (u < v) | Q_int i \<Rightarrow> (u < u_of_int i) | Q_double d \<Rightarrow> d_less (d_of_uint64 u) d | _ \<Rightarrow> False)
      | Q_ptime u \<Rightarrow> (case w of Q_ptime v \<Rightarrow> ql_ptime_lt l u v | _ \<Rightarrow> False)
      | _ \<Rightarrow> False)"

definition greater_than :: "qlib \<Rightarrow> query_result \<Rightarrow> query_result \<Rightarrow> bool" where
  "greater_than l v w =
     (case v of
        Q_int i \<Rightarrow> (case w of Q_int j \<Rightarrow> (i > j) | Q_uint64 u \<Rightarrow> (u_of_int i > u) | Q_double d \<Rightarrow> d_less d (d_of_int i) | _ \<Rightarrow> False)
      | Q_double d \<Rightarrow> (case w of Q_double e \<Rightarrow> d_less e d | Q_uint64 u \<Rightarrow> d_less (d_of_uint64 u) d | Q_int i \<Rightarrow> d_less (d_of_int i) d | _ \<Rightarrow> False)
      | Q_string s \<Rightarrow> (case w of Q_string t \<Rightarrow> string_less t s | _ \<Rightarrow> False)
      | Q_uint64 u \<Rightarrow> (case w of Q_uint64 v \<Rightarrow> (u > v) | Q_int i \<Rightarrow> (u > u_of_int i) | Q_double d \<Rightarrow> d_less d (d_of_uint64 u) | _ \<Rightarrow> False)
      | Q_ptime u \<Rightarrow> (case w of Q_ptime v \<Rightarrow> ql_ptime_lt l v u | _ \<Rightarrow> False)
      | _ \<Rightarrow> False)"

definition less_or_equal :: "qlib \<Rightarrow> query_result \<Rightarrow> query_result \<Rightarrow> bool" where
  "less_or_equal l v w = (less_than l v w \<or> qv_equal v w)"

definition greater_or_equal :: "qlib \<Rightarrow> query_result \<Rightarrow> query_result \<Rightarrow> bool" where
  "greater_or_equal l v w = (greater_than l v w \<or> qv_equal v w)"

text \<open>Tuples, and the comparison that the variant type itself defines.\<close>

fun tuple_equal :: "qr_tuple \<Rightarrow> qr_tuple \<Rightarrow> bool" where
  "tuple_equal [] [] = True"
| "tuple_equal (v # vs) (w # ws) = (qv_equal v w \<and> tuple_equal vs ws)"
| "tuple_equal _ _ = False"

definition node_descr_equal :: "node_description \<Rightarrow> node_description \<Rightarrow> bool" where
  "node_descr_equal m n = (ndesc_id m = ndesc_id n \<and> ndesc_label m = ndesc_label n)"

definition rship_descr_equal :: "rship_description \<Rightarrow> rship_description \<Rightarrow> bool" where
  "rship_descr_equal q r = (rdesc_id q = rdesc_id r \<and> rdesc_from q = rdesc_from r \<and> rdesc_to q = rdesc_to r \<and> rdesc_label q = rdesc_label r)"

definition variant_equal :: "query_result \<Rightarrow> query_result \<Rightarrow> bool" where
  "variant_equal v w =
     (case v of
        Q_node p \<Rightarrow> (case w of Q_node q \<Rightarrow> (p = q) | _ \<Rightarrow> False)
      | Q_rship p \<Rightarrow> (case w of Q_rship q \<Rightarrow> (p = q) | _ \<Rightarrow> False)
      | Q_int i \<Rightarrow> (case w of Q_int j \<Rightarrow> (i = j) | _ \<Rightarrow> False)
      | Q_double d \<Rightarrow> (case w of Q_double e \<Rightarrow> d_eq d e | _ \<Rightarrow> False)
      | Q_string s \<Rightarrow> (case w of Q_string t \<Rightarrow> (s = t) | _ \<Rightarrow> False)
      | Q_uint64 u \<Rightarrow> (case w of Q_uint64 v \<Rightarrow> (u = v) | _ \<Rightarrow> False)
      | Q_ptime u \<Rightarrow> (case w of Q_ptime v \<Rightarrow> (u = v) | _ \<Rightarrow> False)
      | Q_array a \<Rightarrow> (case w of Q_array b \<Rightarrow> (a = b) | _ \<Rightarrow> False)
      | Q_null \<Rightarrow> (case w of Q_null \<Rightarrow> True | _ \<Rightarrow> False)
      | Q_node_descr m \<Rightarrow> (case w of Q_node_descr n \<Rightarrow> node_descr_equal m n | _ \<Rightarrow> False)
      | Q_rship_descr q \<Rightarrow> (case w of Q_rship_descr r \<Rightarrow> rship_descr_equal q r | _ \<Rightarrow> False))"

section \<open>Functions on descriptions\<close>

definition descr_props :: "query_result \<Rightarrow> (string \<Rightarrow> any_val option) option" where
  "descr_props v = (case v of Q_node_descr n \<Rightarrow> Some (ndesc_props n) | Q_rship_descr r \<Rightarrow> Some (rdesc_props r) | _ \<Rightarrow> None)"

definition descr_label :: "query_result \<Rightarrow> string option" where
  "descr_label v = (case v of Q_node_descr n \<Rightarrow> Some (ndesc_label n) | Q_rship_descr r \<Rightarrow> Some (rdesc_label r) | _ \<Rightarrow> None)"

definition has_property :: "query_result \<Rightarrow> string \<Rightarrow> bool" where
  "has_property v key = (case descr_props v of Some ps \<Rightarrow> ps key \<noteq> None | None \<Rightarrow> False)"

definition has_label :: "query_result \<Rightarrow> string \<Rightarrow> bool" where
  "has_label v l = (descr_label v = Some l)"

definition get_label :: "query_result \<Rightarrow> query_result" where
  "get_label v = (case descr_label v of Some l \<Rightarrow> Q_string l | None \<Rightarrow> Q_null)"

text \<open>The variant with a query context also takes pointers.\<close>

definition get_label_ctx :: "query_result \<Rightarrow> ('q, query_result) gact" where
  "get_label_ctx v =
     (case v of
        Q_node (Some (i, r)) \<Rightarrow>
          sbind (get_node i) (\<lambda>n. sbind (srun (o_get n r)) (\<lambda>e. sbind (get_string (nd_label (body e))) (\<lambda>s. sret (Q_string s))))
      | Q_rship (Some (i, q)) \<Rightarrow>
          sbind (get_rship i) (\<lambda>r. sbind (srun (o_get r q)) (\<lambda>e. sbind (get_string (rs_label (body e))) (\<lambda>s. sret (Q_string s))))
      | Q_node None \<Rightarrow> sthrow Undefined_behaviour
      | Q_rship None \<Rightarrow> sthrow Undefined_behaviour
      | _ \<Rightarrow> sret (get_label v))"

text \<open>\<open>get_property\<close>: no value for an unknown key, an exception for a value of another type.\<close>

definition get_property :: "(any_val \<Rightarrow> query_result option) \<Rightarrow> (string \<Rightarrow> any_val option) \<Rightarrow> string \<Rightarrow> query_result option result" where
  "get_property cast ps key =
     (case ps key of None \<Rightarrow> Inr None
      | Some a \<Rightarrow> (case cast a of Some v \<Rightarrow> Inr (Some v) | None \<Rightarrow> Inl Query_processing_error))"

fun any_int :: "any_val \<Rightarrow> query_result option" where
  "any_int (Any_int i) = Some (Q_int i)"
| "any_int _ = None"

fun any_double :: "any_val \<Rightarrow> query_result option" where
  "any_double (Any_double d) = Some (Q_double (d_of_bits d))"
| "any_double _ = None"

fun any_string :: "any_val \<Rightarrow> query_result option" where
  "any_string (Any_string s) = Some (Q_string s)"
| "any_string _ = None"

fun any_uint64 :: "any_val \<Rightarrow> query_result option" where
  "any_uint64 (Any_uint64 u) = Some (Q_uint64 u)"
| "any_uint64 _ = None"

fun any_ptime :: "any_val \<Rightarrow> query_result option" where
  "any_ptime (Any_ptime t) = Some (Q_ptime t)"
| "any_ptime _ = None"

definition typed_property :: "(any_val \<Rightarrow> query_result option) \<Rightarrow> query_result \<Rightarrow> string \<Rightarrow> query_result result" where
  "typed_property cast v key =
     (case descr_props v of
        Some ps \<Rightarrow> rbind (get_property cast ps key) (\<lambda>o'. Inr (case o' of Some w \<Rightarrow> w | None \<Rightarrow> Q_null))
      | None \<Rightarrow> Inr Q_null)"

definition int_property :: "query_result \<Rightarrow> string \<Rightarrow> query_result result" where
  "int_property = typed_property any_int"

definition double_property :: "query_result \<Rightarrow> string \<Rightarrow> query_result result" where
  "double_property = typed_property any_double"

definition string_property :: "query_result \<Rightarrow> string \<Rightarrow> query_result result" where
  "string_property = typed_property any_string"

definition uint64_property :: "query_result \<Rightarrow> string \<Rightarrow> query_result result" where
  "uint64_property = typed_property any_uint64"

definition ptime_property :: "query_result \<Rightarrow> string \<Rightarrow> query_result result" where
  "ptime_property = typed_property any_ptime"

definition pr_date :: "qlib \<Rightarrow> query_result \<Rightarrow> string \<Rightarrow> query_result result" where
  "pr_date l v key = rbind (ptime_property v key) (\<lambda>w. Inr (case w of Q_ptime t \<Rightarrow> Q_string (ql_iso_date l t) | _ \<Rightarrow> Q_null))"

definition pr_year :: "qlib \<Rightarrow> query_result \<Rightarrow> string \<Rightarrow> query_result result" where
  "pr_year l v key = rbind (ptime_property v key) (\<lambda>w. case w of
     Q_ptime t \<Rightarrow> rbind (stoi (takeWhile (\<lambda>c. c \<noteq> CHR ''-'') (ql_iso l t))) (\<lambda>i. Inr (Q_int i)) | _ \<Rightarrow> Inr Q_null)"

definition pr_month :: "qlib \<Rightarrow> query_result \<Rightarrow> string \<Rightarrow> query_result result" where
  "pr_month l v key = rbind (ptime_property v key) (\<lambda>w. case w of
     Q_ptime t \<Rightarrow> (if length (ql_iso l t) < 5 then Inl Std_out_of_range
                    else rbind (stoi (take 2 (drop 5 (ql_iso l t)))) (\<lambda>i. Inr (Q_int i))) | _ \<Rightarrow> Inr Q_null)"

definition substr :: "string \<Rightarrow> nat \<Rightarrow> nat \<Rightarrow> string result" where
  "substr s start len = (if length s < start then Inl Std_out_of_range else Inr (take len (drop start s)))"

definition substring :: "query_result \<Rightarrow> string \<Rightarrow> nat \<Rightarrow> nat \<Rightarrow> query_result result" where
  "substring v key start len =
     (case v of
        Q_string s \<Rightarrow> if key = [] then rbind (substr s start len) (\<lambda>r. Inr (Q_string r)) else Inr Q_null
      | _ \<Rightarrow> rbind (string_property v key) (\<lambda>w. case w of Q_string s \<Rightarrow> rbind (substr s start len) (\<lambda>r. Inr (Q_string r)) | _ \<Rightarrow> Inr Q_null))"

definition is_null :: "query_result \<Rightarrow> bool" where
  "is_null v = (case v of Q_null \<Rightarrow> True | _ \<Rightarrow> False)"

section \<open>Numbers\<close>

lemma greater_than_less: "greater_than l v w = less_than l w v"
  by (simp add: greater_than_def less_than_def split: query_result.split)

text \<open>The real number that a value stands for; values are comparable if no conversion in a comparison changes them.\<close>

fun num :: "query_result \<Rightarrow> real option" where
  "num (Q_int i) = Some (of_int i)"
| "num (Q_uint64 u) = Some (of_int (uint u))"
| "num (Q_double (Finite s x)) = Some (dval s x)"
| "num _ = None"

definition exact_pair :: "query_result \<Rightarrow> query_result \<Rightarrow> bool" where
  "exact_pair v w =
     (case v of
        Q_int i \<Rightarrow> (case w of Q_uint64 u \<Rightarrow> (0 \<le> i) | _ \<Rightarrow> True)
      | Q_uint64 u \<Rightarrow> (case w of Q_int i \<Rightarrow> (0 \<le> i) | Q_double d \<Rightarrow> (uint u \<le> 2 ^ 53) | _ \<Rightarrow> True)
      | Q_double d \<Rightarrow> (case w of Q_uint64 u \<Rightarrow> (uint u \<le> 2 ^ 53) | _ \<Rightarrow> True)
      | _ \<Rightarrow> True)"

fun int32 :: "query_result \<Rightarrow> bool" where
  "int32 (Q_int i) = (- (2 ^ 31) \<le> i \<and> i < 2 ^ 31)"
| "int32 v = True"

lemma u_of_int_uint: "0 \<le> i \<Longrightarrow> i < 2 ^ 31 \<Longrightarrow> uint (u_of_int i) = i"
  by (simp add: u_of_int_def uint_word_of_int)

lemma d_of_uint64_exact: "uint u \<le> 2 ^ 53 \<Longrightarrow> d_of_uint64 u = Finite False (of_int (uint u))"
  using d_of_int_exact [of "uint u"] by (simp add: d_of_uint64_def)

lemma d_of_int32: "- (2 ^ 31) \<le> i \<Longrightarrow> i < 2 ^ 31 \<Longrightarrow> d_of_int i = Finite (i < 0) (of_int \<bar>i\<bar>)"
  by (rule d_of_int_exact) (simp add: abs_if)

lemmas compare_defs = less_than_def qv_equal_def exact_pair_def

text \<open>
  The comparisons of numbers compare the numbers: for two numbers of any of the types \<open>int\<close>, \<open>uint64_t\<close> and \<open>double\<close>, neither of them NaN or
  infinite, the tests for less, greater and equal give the order of the real numbers, provided that an \<open>int\<close> compared with a \<open>uint64_t\<close> is not negative and
  a \<open>uint64_t\<close> compared with a \<open>double\<close> has at most 53 bits.
\<close>

theorem compare_numbers:
  assumes "num v = Some x" "num w = Some y" "int32 v" "int32 w" "exact_pair v w"
  shows "(less_than l v w \<longleftrightarrow> x < y) \<and> (greater_than l v w \<longleftrightarrow> x > y) \<and> (qv_equal v w \<longleftrightarrow> x = y)"
proof (intro conjI)
  show "less_than l v w \<longleftrightarrow> x < y"
    using assms by (cases v rule: num.cases; cases w rule: num.cases)
      (auto simp: compare_defs word_less_def u_of_int_uint d_of_uint64_exact d_of_int32 dval_def simp del: of_int_uint)
  show "qv_equal v w \<longleftrightarrow> x = y"
    using assms by (cases v rule: num.cases; cases w rule: num.cases)
      (auto simp: compare_defs word_uint_eq_iff u_of_int_uint d_of_uint64_exact d_of_int32 dval_def simp del: of_int_uint)
  show "greater_than l v w \<longleftrightarrow> x > y" unfolding greater_than_less
    using assms by (cases v rule: num.cases; cases w rule: num.cases)
      (auto simp: compare_defs word_less_def u_of_int_uint d_of_uint64_exact d_of_int32 dval_def simp del: of_int_uint)
qed

definition qlib_demo :: qlib where
  "qlib_demo = \<lparr>ql_ptime_lt = (<), ql_regex = (=), ql_iso = (\<lambda>_. ''2024-01-02T00:00:00''), ql_iso_date = (\<lambda>_. ''2024-01-02''), ql_fixed = (\<lambda>_. ''0.000000''),
     ql_time_from_string = (\<lambda>_. 0), ql_now = 0\<rparr>"

theorem compare_numbers_witness:
  "less_than qlib_demo (Q_int 3) (Q_uint64 7) \<and> \<not> greater_than qlib_demo (Q_int 3) (Q_uint64 7) \<and> \<not> qv_equal (Q_int 3) (Q_uint64 7)"
  using compare_numbers [of "Q_int 3" 3 "Q_uint64 7" 7 qlib_demo] by (simp add: exact_pair_def)

text \<open>
  A negative \<open>int\<close> is converted before it is compared with a \<open>uint64_t\<close>: it is greater than every value below \<open>2 ^ 63\<close>.
\<close>

theorem negative_int_greater:
  assumes "- (2 ^ 31) \<le> i" "i < 0" "uint u < 2 ^ 63"
  shows "greater_than l (Q_int i) (Q_uint64 u) \<and> \<not> less_than l (Q_int i) (Q_uint64 u)"
proof -
  have "i mod 2 ^ 64 = (i + 2 ^ 64) mod 2 ^ 64" by simp
  also have "\<dots> = i + 2 ^ 64" using assms(1,2) by (intro mod_pos_pos_trivial) simp_all
  finally have "uint (u_of_int i) = i + 2 ^ 64" by (simp add: u_of_int_def uint_word_of_int)
  then have "u < u_of_int i" using assms(1,3) by (simp add: word_less_def)
  then show ?thesis by (auto simp: greater_than_def less_than_def)
qed

theorem negative_int_greater_witness: "greater_than qlib_demo (Q_int (- 1)) (Q_uint64 5)"
  using negative_int_greater [of "- 1" 5 qlib_demo] by simp

end
