(* ===== verification/Query_Expr.thy ===== *)
theory Query_Expr
  imports Query_Value Query_Ctx
begin

text \<open>
  Expressions of queries and their interpreter: \<^verbatim>\<open>src/src/query/expr\<close>, \<^verbatim>\<open>src/src/query/interp/expr_interpreter.cpp\<close> and the preparation of function calls in
  \<^verbatim>\<open>src/src/query/plan_visitors/prepare_expr_visitor.cpp\<close>. The interpreter visits the expression and keeps intermediate values on a stack; the
  model has the stack as a list, its top first. Functions that a call refers to are actions of the store. \<open>Null_expr\<close> is a null pointer.
\<close>

datatype expr_op = OP_UNKNOWN | OP_EQ | OP_NEQ | OP_LE | OP_LT | OP_GE | OP_GT | OP_AND | OP_OR | OP_NOT | OP_PLUS | OP_MINUS | OP_MULT | OP_DIV | OP_MOD |
  OP_REGEX | OP_CALL | OP_VARIABLE | OP_LITERAL

datatype expr_type = ET_UNKNOWN | ET_INT | ET_UINT64 | ET_DOUBLE | ET_STRING | ET_DATETIME | ET_BOOLEAN | ET_NODE | ET_RELATIONSHIP | ET_OP

text \<open>The classes derived from \<open>binary_predicate\<close>, but for the regular expressions.\<close>

datatype predicate = P_eq | P_neq | P_le | P_lt | P_ge | P_gt | P_and | P_or

datatype 'q expr =
    Number_int int
  | Number_uint64 "64 word"
  | Number_double double
  | Variable nat string dcode_t expr_type
  | String_literal string
  | Time_literal "64 word"
  | Qparam_token string
  | Func_call string string "'q expr list" "(query_result \<Rightarrow> ('q, query_result) gact) option"
      "(query_result \<Rightarrow> query_result \<Rightarrow> ('q, query_result) gact) option" bool
  | Predicate predicate "'q expr" "'q expr"
  | Regex_predicate "'q expr" "'q expr" string
  | Math_expression expr_op "'q expr" "'q expr"
  | Null_expr

section \<open>Arithmetic\<close>

text \<open>A result outside the range of \<open>int\<close> and a division by zero are undefined; integer division truncates.\<close>

definition int_range :: "int \<Rightarrow> int result" where
  "int_range i = (if - (2 ^ 31) \<le> i \<and> i < 2 ^ 31 then Inr i else Inl Undefined_behaviour)"

definition int_math_op :: "expr_op \<Rightarrow> int \<Rightarrow> int \<Rightarrow> int result" where
  "int_math_op op i j =
     (case op of
        OP_PLUS \<Rightarrow> int_range (i + j) | OP_MINUS \<Rightarrow> int_range (i - j) | OP_MULT \<Rightarrow> int_range (i * j)
      | OP_DIV \<Rightarrow> if j = 0 then Inl Undefined_behaviour else int_range (sgn i * sgn j * (\<bar>i\<bar> div \<bar>j\<bar>))
      | OP_MOD \<Rightarrow> if j = 0 then Inl Undefined_behaviour else rbind (int_range (sgn i * sgn j * (\<bar>i\<bar> div \<bar>j\<bar>))) (\<lambda>_. Inr (sgn i * (\<bar>i\<bar> mod \<bar>j\<bar>)))
      | _ \<Rightarrow> Inr 0)"

definition uint64_math_op :: "expr_op \<Rightarrow> 64 word \<Rightarrow> 64 word \<Rightarrow> 64 word result" where
  "uint64_math_op op u v =
     (case op of
        OP_PLUS \<Rightarrow> Inr (u + v) | OP_MINUS \<Rightarrow> Inr (u - v) | OP_MULT \<Rightarrow> Inr (u * v)
      | OP_DIV \<Rightarrow> if v = 0 then Inl Undefined_behaviour else Inr (u div v)
      | OP_MOD \<Rightarrow> if v = 0 then Inl Undefined_behaviour else Inr (u mod v)
      | _ \<Rightarrow> Inr 0)"

definition double_math_op :: "expr_op \<Rightarrow> double \<Rightarrow> double \<Rightarrow> double" where
  "double_math_op op d e =
     (case op of OP_PLUS \<Rightarrow> d_plus d e | OP_MINUS \<Rightarrow> d_minus d e | OP_MULT \<Rightarrow> d_mult d e | OP_DIV \<Rightarrow> d_div d e | _ \<Rightarrow> Finite False 0)"

abbreviation qint :: "int result \<Rightarrow> query_result result" where
  "qint r \<equiv> rbind r (\<lambda>i. Inr (Q_int i))"

abbreviation quint64 :: "64 word result \<Rightarrow> query_result result" where
  "quint64 r \<equiv> rbind r (\<lambda>u. Inr (Q_uint64 u))"

definition math_apply :: "expr_op \<Rightarrow> query_result \<Rightarrow> query_result \<Rightarrow> query_result result" where
  "math_apply op v w =
     (case v of
        Q_int i \<Rightarrow> (case w of
            Q_int j \<Rightarrow> qint (int_math_op op i j)
          | Q_uint64 u \<Rightarrow> quint64 (uint64_math_op op (u_of_int i) u)
          | Q_double d \<Rightarrow> Inr (Q_double (double_math_op op (d_of_int i) d))
          | _ \<Rightarrow> Inr qv_default)
      | Q_uint64 u \<Rightarrow> (case w of
            Q_uint64 u' \<Rightarrow> quint64 (uint64_math_op op u u')
          | Q_int j \<Rightarrow> quint64 (uint64_math_op op u (u_of_int j))
          | Q_double d \<Rightarrow> Inr (Q_double (double_math_op op (d_of_uint64 u) d))
          | _ \<Rightarrow> Inr qv_default)
      | Q_double d \<Rightarrow> (case w of
            Q_double e \<Rightarrow> Inr (Q_double (double_math_op op d e))
          | Q_int j \<Rightarrow> Inr (Q_double (double_math_op op d (d_of_int j)))
          | Q_uint64 u \<Rightarrow> Inr (Q_double (double_math_op op d (d_of_uint64 u)))
          | _ \<Rightarrow> Inr qv_default)
      | _ \<Rightarrow> Inr qv_default)"

definition pred_apply :: "qlib \<Rightarrow> predicate \<Rightarrow> query_result \<Rightarrow> query_result \<Rightarrow> bool result" where
  "pred_apply l p v w =
     (case p of
        P_eq \<Rightarrow> Inr (qv_equal v w) | P_neq \<Rightarrow> Inr (\<not> qv_equal v w)
      | P_le \<Rightarrow> Inr (less_or_equal l v w) | P_lt \<Rightarrow> Inr (less_than l v w)
      | P_ge \<Rightarrow> Inr (greater_or_equal l v w) | P_gt \<Rightarrow> Inr (greater_than l v w)
      | P_and \<Rightarrow> rbind (qv_get_int v) (\<lambda>i. if i = 0 then Inr False else rbind (qv_get_int w) (\<lambda>j. Inr (j \<noteq> 0)))
      | P_or \<Rightarrow> rbind (qv_get_int v) (\<lambda>i. if i \<noteq> 0 then Inr True else rbind (qv_get_int w) (\<lambda>j. Inr (j \<noteq> 0))))"

section \<open>The interpreter\<close>

abbreviation qbool :: "bool \<Rightarrow> query_result" where
  "qbool b \<equiv> Q_int (if b then 1 else 0)"

text \<open>The value of a property, or nothing if the node or relationship has no such property.\<close>

definition item_value :: "p_item \<Rightarrow> ('q, query_result option) gact" where
  "item_value p =
     (case pi_type p of
        P_int \<Rightarrow> sbind (srun (pi_get_int p)) (\<lambda>i. sret (Some (Q_int i)))
      | P_double \<Rightarrow> sbind (srun (pi_get_double p)) (\<lambda>d. sret (Some (Q_double (d_of_bits d))))
      | P_uint64 \<Rightarrow> sbind (srun (pi_get_uint64 p)) (\<lambda>u. sret (Some (Q_uint64 u)))
      | P_ptime \<Rightarrow> sbind (srun (pi_get_ptime p)) (\<lambda>t. sret (Some (Q_ptime t)))
      | P_dcode \<Rightarrow> sbind (srun (pi_get_dcode p)) (\<lambda>c. sbind (get_string c) (\<lambda>s. sret (Some (Q_string s))))
      | _ \<Rightarrow> sret None)"

definition descr_value :: "query_result \<Rightarrow> (string \<Rightarrow> any_val option) \<Rightarrow> string \<Rightarrow> dcode_t \<Rightarrow> expr_type \<Rightarrow> query_result option result" where
  "descr_value v ps pname pcode ty =
     (let get = (\<lambda>cast. rbind (get_property cast ps pname) (\<lambda>o'. case o' of Some w \<Rightarrow> Inr (Some w) | None \<Rightarrow> Inl Bad_optional_access)) in
      if pname = [] \<and> pcode = UNKNOWN_CODE then Inr (Some v)
      else (case ty of
          ET_INT \<Rightarrow> get any_int | ET_UINT64 \<Rightarrow> get any_uint64 | ET_DOUBLE \<Rightarrow> get any_double
        | ET_STRING \<Rightarrow> get any_string | ET_DATETIME \<Rightarrow> get any_ptime | _ \<Rightarrow> Inr None))"

definition var_value :: "qr_tuple \<Rightarrow> nat \<Rightarrow> string \<Rightarrow> dcode_t \<Rightarrow> expr_type \<Rightarrow> ('q, query_result option) gact" where
  "var_value tup i pname pcode ty =
     (if length tup \<le> i then sthrow Query_processing_error
      else case tup ! i of
        Q_node p \<Rightarrow> (if pcode = UNKNOWN_CODE then sret (Some (Q_node p))
           else (case p of None \<Rightarrow> sthrow Undefined_behaviour
             | Some (n, r) \<Rightarrow> sbind (node_at n r) (\<lambda>e. sbind (get_node_property_value (body e) pcode) item_value)))
      | Q_rship p \<Rightarrow> (if pcode = UNKNOWN_CODE then sret (Some (Q_rship p))
           else (case p of None \<Rightarrow> sthrow Undefined_behaviour
             | Some (n, r) \<Rightarrow> sbind (rship_at n r) (\<lambda>e. sbind (get_rship_property_value (body e) pcode) item_value)))
      | Q_node_descr d \<Rightarrow> srun (descr_value (Q_node_descr d) (ndesc_props d) pname pcode ty)
      | Q_rship_descr d \<Rightarrow> srun (descr_value (Q_rship_descr d) (rdesc_props d) pname pcode ty)
      | Q_uint64 u \<Rightarrow> sret (Some (Q_uint64 u)) | Q_int j \<Rightarrow> sret (Some (Q_int j))
      | Q_double d \<Rightarrow> sret (Some (Q_double d)) | Q_string s \<Rightarrow> sret (Some (Q_string s))
      | _ \<Rightarrow> sret None)"

text \<open>\<open>valid_operands\<close> only tests the size of the stack.\<close>

definition binary :: "(query_result \<Rightarrow> query_result \<Rightarrow> query_result result) \<Rightarrow> (query_result list \<Rightarrow> ('q, query_result list) gact) \<Rightarrow>
    query_result list \<Rightarrow> ('q, query_result list) gact" where
  "binary f short st =
     (case st of
        [] \<Rightarrow> sthrow Undefined_behaviour
      | [v] \<Rightarrow> short [Q_int 0]
      | w # v # s \<Rightarrow> sbind (srun (f v w)) (\<lambda>r. sret (r # s)))"

definition call_func :: "nat \<Rightarrow> (query_result \<Rightarrow> ('q, query_result) gact) option \<Rightarrow> (query_result \<Rightarrow> query_result \<Rightarrow> ('q, query_result) gact) option \<Rightarrow>
    query_result list \<Rightarrow> ('q, query_result list) gact" where
  "call_func n f1 f2 st =
     (if n = 0 then (case f1 of None \<Rightarrow> sthrow Assertion_failed | Some f \<Rightarrow> sbind (f qv_default) (\<lambda>r. sret (r # st)))
      else if n = 1 then (case st of [] \<Rightarrow> sthrow Undefined_behaviour
        | v # s \<Rightarrow> (case f1 of None \<Rightarrow> sthrow Assertion_failed | Some f \<Rightarrow> sbind (f v) (\<lambda>r. sret (r # s))))
      else if n = 2 then (case st of w # v # s \<Rightarrow> (case f2 of None \<Rightarrow> sthrow Assertion_failed | Some f \<Rightarrow> sbind (f v w) (\<lambda>r. sret (r # s)))
        | _ \<Rightarrow> sthrow Undefined_behaviour)
      else sret st)"

fun eval :: "qlib \<Rightarrow> qr_tuple \<Rightarrow> 'q expr \<Rightarrow> query_result list \<Rightarrow> ('q, query_result list) gact" and
    eval_params :: "qlib \<Rightarrow> qr_tuple \<Rightarrow> 'q expr list \<Rightarrow> query_result list \<Rightarrow> ('q, query_result list) gact" where
  "eval l tup (Number_int i) st = sret (Q_int i # st)"
| "eval l tup (Number_uint64 u) st = sret (Q_uint64 u # st)"
| "eval l tup (Number_double d) st = sret (Q_double d # st)"
| "eval l tup (Variable i pname pcode ty) st =
     sbind (var_value tup i pname pcode ty) (\<lambda>o'. sret (case o' of Some v \<Rightarrow> v # st | None \<Rightarrow> st))"
| "eval l tup (String_literal s) st = sret (Q_string s # st)"
| "eval l tup (Time_literal t) st = sret (Q_ptime t # st)"
| "eval l tup (Qparam_token s) st = sret st"
| "eval l tup (Func_call pfx fn ps f1 f2 det) st = sbind (eval_params l tup ps st) (call_func (length ps) f1 f2)"
| "eval l tup (Predicate p a b) st =
     sbind (eval l tup a st) (\<lambda>st1. sbind (eval l tup b st1)
       (binary (\<lambda>v w. rbind (pred_apply l p v w) (\<lambda>r. Inr (qbool r))) (if p = P_neq then (\<lambda>_. sthrow Query_processing_error) else sret)))"
| "eval l tup (Regex_predicate a b re) st =
     sbind (eval l tup a st) (\<lambda>st1. case st1 of [] \<Rightarrow> sthrow Query_processing_error
       | v # s \<Rightarrow> sbind (srun (qv_get_string v)) (\<lambda>t. sret (qbool (ql_regex l re t) # s)))"
| "eval l tup (Math_expression op a b) st =
     sbind (eval l tup a st) (\<lambda>st1. sbind (eval l tup b st1) (binary (math_apply op) sret))"
| "eval l tup Null_expr st = sthrow Undefined_behaviour"
| "eval_params l tup [] st = sret st"
| "eval_params l tup (p # ps) st = sbind (eval l tup p st) (eval_params l tup ps)"

definition interpret_expression :: "qlib \<Rightarrow> 'q expr \<Rightarrow> qr_tuple \<Rightarrow> ('q, query_result) gact" where
  "interpret_expression l ex tup =
     sbind (eval l tup ex []) (\<lambda>st. case st of [] \<Rightarrow> sthrow Undefined_behaviour | v # _ \<Rightarrow> sret v)"

definition interpret_bool_expression :: "qlib \<Rightarrow> 'q expr \<Rightarrow> qr_tuple \<Rightarrow> ('q, bool) gact" where
  "interpret_bool_expression l ex tup =
     sbind (interpret_expression l ex tup) (\<lambda>v. sbind (srun (qv_get_int v)) (\<lambda>i. sret (i \<noteq> 0)))"

section \<open>Preparing function calls\<close>

text \<open>
  The member \<open>fop_\<close> of the base class: the class of binary expressions declares a member of the same name, so that the one of the base class keeps its initial value.
\<close>

fun base_fop :: "'q expr \<Rightarrow> expr_op" where
  "base_fop (Variable i pname pcode ty) = OP_VARIABLE"
| "base_fop (Func_call pfx fn ps f1 f2 det) = OP_CALL"
| "base_fop e = OP_LITERAL"

fun is_constant :: "'q expr \<Rightarrow> bool" where
  "is_constant (Func_call pfx fn ps f1 f2 det) = (det \<and> list_all (\<lambda>p. base_fop p = OP_LITERAL) ps)"
| "is_constant e = False"

text \<open>The visitor keeps the last literal it meets.\<close>

fun literal_visitor :: "'q expr \<Rightarrow> query_result \<Rightarrow> query_result" where
  "literal_visitor (Number_int i) r = Q_int i"
| "literal_visitor (Number_uint64 u) r = Q_uint64 u"
| "literal_visitor (Number_double d) r = Q_double d"
| "literal_visitor (String_literal s) r = Q_string s"
| "literal_visitor (Time_literal t) r = Q_ptime t"
| "literal_visitor (Func_call pfx fn ps f1 f2 det) r = fold literal_visitor ps r"
| "literal_visitor (Predicate p a b) r = literal_visitor b (literal_visitor a r)"
| "literal_visitor (Regex_predicate a b re) r = literal_visitor b (literal_visitor a r)"
| "literal_visitor (Math_expression op a b) r = literal_visitor b (literal_visitor a r)"
| "literal_visitor e r = r"

definition literal_expr_to_qresult :: "'q expr \<Rightarrow> query_result" where
  "literal_expr_to_qresult e = literal_visitor e qv_default"

fun qresult_to_expr :: "query_result \<Rightarrow> 'q expr" where
  "qresult_to_expr (Q_int i) = Number_int i"
| "qresult_to_expr (Q_double d) = Number_double d"
| "qresult_to_expr (Q_uint64 u) = Number_double (d_of_uint64 u)"
| "qresult_to_expr (Q_ptime t) = Time_literal t"
| "qresult_to_expr (Q_string s) = String_literal s"
| "qresult_to_expr v = Null_expr"

fun replace_by_literal :: "'q expr \<Rightarrow> ('q, 'q expr) gact" where
  "replace_by_literal (Func_call pfx fn ps f1 f2 det) =
     (case ps of [] \<Rightarrow> sthrow Undefined_behaviour
      | p # qs \<Rightarrow>
          (case f1 of Some f \<Rightarrow> sbind (f (literal_expr_to_qresult p)) (\<lambda>r. sret (qresult_to_expr r))
           | None \<Rightarrow> (case f2 of
               Some f \<Rightarrow> (case qs of [] \<Rightarrow> sthrow Undefined_behaviour
                 | q # _ \<Rightarrow> sbind (f (literal_expr_to_qresult p) (literal_expr_to_qresult q)) (\<lambda>r. sret (qresult_to_expr r)))
             | None \<Rightarrow> sret Null_expr)))"
| "replace_by_literal e = sret Null_expr"

text \<open>The functions of the prefix \<open>pb\<close>; other functions come from a shared library \<open>udf\<close>, by name and number of parameters.\<close>

definition builtin_func :: "qlib \<Rightarrow> string \<Rightarrow> (query_result \<Rightarrow> ('q, query_result) gact) option" where
  "builtin_func l fn =
     (if fn = ''label'' then Some get_label_ctx
      else if fn = ''to_datetime'' then Some (\<lambda>v. sbind (srun (qv_get_string v)) (\<lambda>s. sret (Q_ptime (ql_time_from_string l s))))
      else if fn = ''ptime_to_dtimestring'' then Some (\<lambda>v. sbind (srun (qv_get_ptime v)) (\<lambda>t. sret (Q_string (ql_iso l t))))
      else if fn = ''now'' then Some (\<lambda>v. sret (Q_ptime (ql_now l)))
      else None)"

type_synonym 'q udf_lib = "(string \<Rightarrow> (query_result \<Rightarrow> ('q, query_result) gact) result) \<times>
  (string \<Rightarrow> (query_result \<Rightarrow> query_result \<Rightarrow> ('q, query_result) gact) result)"

definition fold_call :: "'q expr \<Rightarrow> ('q, 'q expr) gact" where
  "fold_call e = (if is_constant e then replace_by_literal e else sret e)"

fun prepare_expr :: "qlib \<Rightarrow> 'q udf_lib \<Rightarrow> 'q expr \<Rightarrow> ('q, 'q expr) gact" and
    prepare_params :: "qlib \<Rightarrow> 'q udf_lib \<Rightarrow> 'q expr list \<Rightarrow> ('q, 'q expr list) gact" where
  "prepare_expr l udf (Func_call pfx fn ps f1 f2 det) =
     sbind (prepare_params l udf ps) (\<lambda>ps'.
     if pfx = ''pb'' then (case builtin_func l fn of Some f \<Rightarrow> sret (Func_call pfx fn ps' (Some f) f2 det) | None \<Rightarrow> sthrow Udf_not_found)
     else if length ps = 1 then sbind (srun (fst udf fn)) (\<lambda>f. sret (Func_call pfx fn ps' (Some f) f2 det))
     else if length ps = 2 then sbind (srun (snd udf fn)) (\<lambda>f. sret (Func_call pfx fn ps' f1 (Some f) det))
     else sret (Func_call pfx fn ps' f1 f2 det))"
| "prepare_expr l udf (Predicate p a b) =
     sbind (prepare_expr l udf a) (\<lambda>a1. sbind (prepare_expr l udf b) (\<lambda>b1.
     sbind (fold_call a1) (\<lambda>a2. sbind (fold_call b1) (\<lambda>b2. sret (Predicate p a2 b2)))))"
| "prepare_expr l udf (Regex_predicate a b re) =
     sbind (prepare_expr l udf a) (\<lambda>a1. sbind (prepare_expr l udf b) (\<lambda>b1.
     sbind (fold_call a1) (\<lambda>a2. sbind (fold_call b1) (\<lambda>b2. sret (Regex_predicate a2 b2 re)))))"
| "prepare_expr l udf (Math_expression op a b) =
     sbind (prepare_expr l udf a) (\<lambda>a1. sbind (prepare_expr l udf b) (\<lambda>b1.
     sbind (fold_call a1) (\<lambda>a2. sbind (fold_call b1) (\<lambda>b2. sret (Math_expression op a2 b2)))))"
| "prepare_expr l udf Null_expr = sthrow Undefined_behaviour"
| "prepare_expr l udf e = sret e"
| "prepare_params l udf [] = sret []"
| "prepare_params l udf (p # ps) = sbind (prepare_expr l udf p) (\<lambda>p'. sbind (prepare_params l udf ps) (\<lambda>ps'. sret (p' # ps')))"

end
