(* ===== verification/Graph_Index.thy ===== *)
theory Graph_Index
  imports Query_Ctx
begin

text \<open>
  Creation of, and lookups in, the indexes of the graph store, \<^verbatim>\<open>src/src/storage/graph_db_index.cpp\<close> with in-memory trees. The
  maintenance of an index by transactions is in theory Index_Map.
\<close>

section \<open>Indexes\<close>

text \<open>
  The tree is filled by a scan before it is registered. The consumer inserts into the tree, so the tree is threaded through the
  loop; the scan itself changes nothing in the store.
\<close>

definition index_name :: "string \<Rightarrow> string \<Rightarrow> string" where
  "index_name label pname = label @ '':'' @ pname"

definition index_entry :: "dcode_t \<Rightarrow> node_body \<Rightarrow> btree \<Rightarrow> ('q, btree) gact" where
  "index_entry pc b t =
     slift (\<lambda>g. rbind (pl_property_value (g_nprops g) (nd_property_list b) pc) (\<lambda>val.
            if pi_empty val then Inr t else bt_insert 126 10 (item_key val) (nd_id b) t))"

fun fill_index :: "xid_t \<Rightarrow> dcode_t \<Rightarrow> dcode_t \<Rightarrow> nat list \<Rightarrow> btree \<Rightarrow> ('q, btree) gact" where
  "fill_index x lc pc [] t = sret t"
| "fill_index x lc pc (q # qs) t =
     sbind (at_node q) (\<lambda>n.
     sbind (if is_valid (o_elem n) then
              sbind (srun (get_valid_node_version x n)) (\<lambda>r.
              sbind (srun (o_get n r)) (\<lambda>e. if nd_label (body e) = lc then index_entry pc (body e) t else sret t))
            else sret t) (\<lambda>t'. fill_index x lc pc qs t'))"

definition create_index :: "hash \<Rightarrow> nat \<Rightarrow> string \<Rightarrow> string \<Rightarrow> ('q, btree) gact" where
  "create_index h th label pname =
     sbind (get_code h pname) (\<lambda>pc.
     sbind (check_tx_context th) (\<lambda>tx.
     sbind (get_code h label) (\<lambda>lc.
     sbind (slift (\<lambda>g. Inr (cv_walk (g_nodes g) (cv_begin (g_nodes g))))) (\<lambda>qs.
     sbind (fill_index (xid tx) lc pc qs (bt_new 10 0)) (\<lambda>t.
     sbind (supd (\<lambda>g. Inr (g\<lparr>g_index := im_register (index_name label pname) t (g_index g)\<rparr>))) (\<lambda>_. sret t))))))"

definition get_index :: "string \<Rightarrow> string \<Rightarrow> ('q, index_id) gact" where
  "get_index label pname = slift (\<lambda>g. im_get_index (index_name label pname) (g_index g))"

definition has_index :: "string \<Rightarrow> string \<Rightarrow> ('q, bool) gact" where
  "has_index label pname = slift (\<lambda>g. Inr (im_has_index (index_name label pname) (g_index g)))"

definition drop_index :: "string \<Rightarrow> string \<Rightarrow> ('q, unit) gact" where
  "drop_index label pname =
     sbind (get_index label pname) (\<lambda>_.
     supd (\<lambda>g. rbind (im_unregister (index_name label pname) (g_index g)) (\<lambda>m. Inr (g\<lparr>g_index := m\<rparr>))))"

definition index_lookup :: "nat \<Rightarrow> index_id \<Rightarrow> nat \<Rightarrow> 'q node_consumer \<Rightarrow> ('q, unit) gact" where
  "index_lookup th idx key consumer =
     sbind (slift (\<lambda>g. index_find idx key (g_index g))) (\<lambda>val.
     case val of None \<Rightarrow> sret () | Some i \<Rightarrow> sbind (node_by_id th i) (\<lambda>r. consumer i r))"

definition node_id_from_index :: "index_id \<Rightarrow> nat \<Rightarrow> ('q, offset_t) gact" where
  "node_id_from_index idx key =
     sbind (slift (\<lambda>g. index_find idx key (g_index g))) (\<lambda>val.
     case val of None \<Rightarrow> sret UNKNOWN | Some i \<Rightarrow> sbind (get_node i) (\<lambda>n. sret (nd_id (body (o_elem n)))))"

fun index_lookup_list :: "nat \<Rightarrow> index_id list \<Rightarrow> nat \<Rightarrow> 'q node_consumer \<Rightarrow> ('q, unit) gact" where
  "index_lookup_list th [] key consumer = sret ()"
| "index_lookup_list th (idx # idxs) key consumer =
     sbind (slift (\<lambda>g. index_find idx key (g_index g))) (\<lambda>val.
     case val of None \<Rightarrow> index_lookup_list th idxs key consumer | Some i \<Rightarrow> sbind (node_by_id th i) (\<lambda>r. consumer i r))"

section \<open>Contents of a new index\<close>

text \<open>What the body of the loop inserts for the node at a position, for the proofs: a key and a node id, or nothing.\<close>

definition node_entry :: "xid_t \<Rightarrow> dcode_t \<Rightarrow> dcode_t \<Rightarrow> 'q graph_db_scheme \<Rightarrow> nat \<Rightarrow> (nat \<times> offset_t) option result" where
  "node_entry x lc pc g q =
     rbind (cv_at (g_nodes g) q) (\<lambda>n.
     if \<not> is_valid (o_elem n) then Inr None
     else rbind (get_valid_node_version x n) (\<lambda>r. rbind (o_get n r) (\<lambda>e.
       if nd_label (body e) \<noteq> lc then Inr None
       else rbind (pl_property_value (g_nprops g) (nd_property_list (body e)) pc) (\<lambda>val.
            Inr (if pi_empty val then None else Some (item_key val, nd_id (body e)))))))"

lemma fill_index_cons:
  "node_entry x lc pc g q = Inr ent \<Longrightarrow>
   fill_index x lc pc (q # qs) t g =
     (case ent of None \<Rightarrow> fill_index x lc pc qs t g
      | Some (k, i) \<Rightarrow> (case bt_insert 126 10 k i t of Inl err \<Rightarrow> (Inl err, g) | Inr t' \<Rightarrow> fill_index x lc pc qs t' g))"
  by (auto simp: node_entry_def at_node_def index_entry_def sbind_def slift_def srun_def sret_def rbind_eq_Inr_iff split: if_splits sum.splits)

lemma node_entry_bound: "node_entry x lc pc g q = Inr (Some (k, i)) \<Longrightarrow> k < 2 ^ 64"
  using item_key_bound by (auto simp: node_entry_def rbind_eq_Inr_iff split: if_splits)

lemma fill_index_spec:
  assumes "\<forall>q\<in>set qs. node_entry x lc pc g q = Inr (ent q)" "bt_inv 126 10 t"
  shows "\<exists>t'. fill_index x lc pc qs t g = (Inr t', g) \<and> bt_inv 126 10 t' \<and> bt_view t' = bt_view t ++ map_of (rev (List.map_filter ent qs))"
  using assms
proof (induction qs arbitrary: t)
  case (Cons q qs)
  have e: "node_entry x lc pc g q = Inr (ent q)" using Cons.prems(1) by simp
  show ?case
  proof (cases "ent q")
    case None
    then show ?thesis using Cons.IH [OF _ Cons.prems(2)] Cons.prems(1) fill_index_cons [OF e] by (simp add: List.map_filter_simps)
  next
    case (Some p)
    obtain k i where p: "p = (k, i)" by (cases p)
    have k: "k < 2 ^ 64" using node_entry_bound e Some p by simp
    from im_btree.insert_law [OF Cons.prems(2) k, of i] obtain t1 where
      t1: "bt_insert 126 10 k i t = Inr t1" "bt_inv 126 10 t1" "bt_view t1 = (bt_view t)(k \<mapsto> i)" by blast
    from Cons.IH [OF _ t1(2)] Cons.prems(1) obtain t' where t': "fill_index x lc pc qs t1 g = (Inr t', g)" "bt_inv 126 10 t'"
      "bt_view t' = bt_view t1 ++ map_of (rev (List.map_filter ent qs))" by auto
    then show ?thesis using fill_index_cons [OF e] Some p t1 by (simp add: List.map_filter_simps)
  qed
qed (simp add: sret_def List.map_filter_simps)

lemma im_register_find:
  "map_of m name = None \<Longrightarrow> bt_inv 126 10 t \<Longrightarrow> k < 2 ^ 64 \<Longrightarrow> index_find (Some name) k (im_register name t m) = Inr (bt_view t k)"
  "n \<noteq> name \<Longrightarrow> index_find (Some n) k (im_register name t m) = index_find (Some n) k m"
  using im_btree.lookup_law [of t k]
  by (auto simp: index_find_def im_tree_def im_register_def map_add_def map_of_append split: option.splits)

lemma im_register_inv: "im_inv m \<Longrightarrow> bt_inv 126 10 t \<Longrightarrow> im_inv (im_register name t m)"
  by (auto simp: im_inv_def im_register_def map_of_eq_None_iff)

lemma create_index_spec:
  assumes "g_current g th = Some tx" "im_inv (g_index g)" "map_of (g_index g) (index_name label pname) = None"
    and "\<forall>q\<in>set (cv_walk (g_nodes g) (cv_begin (g_nodes g))).
      node_entry (xid tx) (dict_lookup_string h label (g_dict g)) (dict_lookup_string h pname (g_dict g)) g q = Inr (ent q)"
  shows "\<exists>t m. create_index h th label pname g = (Inr t, g\<lparr>g_index := m\<rparr>) \<and> im_inv m \<and>
     (\<forall>k<2 ^ 64. index_find (Some (index_name label pname)) k m =
        Inr (map_of (rev (List.map_filter ent (cv_walk (g_nodes g) (cv_begin (g_nodes g))))) k)) \<and>
     (\<forall>n k. n \<noteq> index_name label pname \<longrightarrow> index_find (Some n) k m = index_find (Some n) k (g_index g))"
proof -
  let ?n = "index_name label pname" and ?qs = "cv_walk (g_nodes g) (cv_begin (g_nodes g))"
  from fill_index_spec [OF assms(4) bt_new_inv(1) [of 126 10 0]] bt_new_inv(2) [of 10 0] obtain t where t:
    "fill_index (xid tx) (dict_lookup_string h label (g_dict g)) (dict_lookup_string h pname (g_dict g)) ?qs (bt_new 10 0) g = (Inr t, g)"
    "bt_inv 126 10 t" "bt_view t = map_of (rev (List.map_filter ent ?qs))" by auto
  let ?m = "im_register ?n t (g_index g)"
  have "create_index h th label pname g = (Inr t, g\<lparr>g_index := ?m\<rparr>)"
    using t(1) by (simp add: create_index_def sbind_def get_code_def check_run [OF assms(1)] supd_def sret_def)
  then show ?thesis using im_register_inv [OF assms(2) t(2)] im_register_find(1) [OF assms(3) t(2)] im_register_find(2) [of _ ?n] t(3)
    by (intro exI [of _ t] exI [of _ ?m]) auto
qed

text \<open>
  The view of a reader: the node at a position that the transaction can see, with its properties. The index is keyed by the raw bits of the property; a node without the
  property counts with key 0, since the lookup of a missing property returns a zeroed item, which is not empty.
\<close>

definition visible :: "xid_t \<Rightarrow> 'q graph_db_scheme \<Rightarrow> nat \<Rightarrow> node_body \<Rightarrow> p_item list \<Rightarrow> bool" where
  "visible x g q b its \<longleftrightarrow> (\<exists>n r e. holds (g_nodes g) q n \<and> is_valid (o_elem n) \<and> get_valid_node_version x n = Inr r \<and> o_get n r = Inr e \<and> b = body e \<and>
     props_hold (g_nprops g) (nd_property_list b) its)"

definition raw_key :: "dcode_t \<Rightarrow> p_item list \<Rightarrow> nat option" where
  "raw_key pc its =
     (case find (\<lambda>it. pi_key it = pc) its of None \<Rightarrow> Some 0 | Some p \<Rightarrow> if pi_type p = P_unused then None else Some (unat (pi_value p)))"

definition index_hit :: "xid_t \<Rightarrow> dcode_t \<Rightarrow> dcode_t \<Rightarrow> 'q graph_db_scheme \<Rightarrow> nat \<Rightarrow> nat \<Rightarrow> offset_t \<Rightarrow> bool" where
  "index_hit x lc pc g k q i \<longleftrightarrow> (\<exists>b its. visible x g q b its \<and> nd_label b = lc \<and> raw_key pc its = Some k \<and> i = nd_id b)"

lemma node_entry_visible:
  assumes "visible x g q b its"
  shows "node_entry x lc pc g q = Inr (if nd_label b = lc then map_option (\<lambda>k. (k, nd_id b)) (raw_key pc its) else None)"
proof -
  obtain n r e where v: "cv_at (g_nodes g) q = Inr n" "is_valid (o_elem n)" "get_valid_node_version x n = Inr r" "o_get n r = Inr e" "b = body e"
    "props_hold (g_nprops g) (nd_property_list b) its" using assms by (auto simp: visible_def holds_def cv_rd.at_Inr_iff)
  show ?thesis using v(1-5) props_hold_value [OF v(6), of pc]
    by (auto simp: node_entry_def raw_key_def pi_empty_def item_key_def pi_get_raw_def p_item_zero_def split: option.split)
qed

lemma node_entry_hit:
  assumes "cv_wf (g_nodes g)" "\<forall>q n. holds (g_nodes g) q n \<longrightarrow> is_valid (o_elem n) \<longrightarrow> (\<exists>b its. visible x g q b its)" "cv_view (g_nodes g) q \<noteq> None"
  obtains ent where "node_entry x lc pc g q = Inr ent" "\<And>k i. index_hit x lc pc g k q i \<longleftrightarrow> ent = Some (k, i)"
proof -
  obtain n where n: "holds (g_nodes g) q n" using assms(1,3) by (auto simp: holds_def)
  show thesis
  proof (cases "is_valid (o_elem n)")
    case True
    then obtain b its where v: "visible x g q b its" using assms(2) n by blast
    let ?ent = "if nd_label b = lc then map_option (\<lambda>k. (k, nd_id b)) (raw_key pc its) else None"
    have "index_hit x lc pc g k q i \<longleftrightarrow> ?ent = Some (k, i)" for k i
    proof
      assume "index_hit x lc pc g k q i"
      then obtain b' its' where "visible x g q b' its'" "nd_label b' = lc" "raw_key pc its' = Some k" "i = nd_id b'" unfolding index_hit_def by blast
      then show "?ent = Some (k, i)" using node_entry_visible [of x g q b' its' lc pc] node_entry_visible [OF v, of lc pc] by simp
    next
      assume "?ent = Some (k, i)"
      then show "index_hit x lc pc g k q i" using v unfolding index_hit_def by (auto split: if_splits)
    qed
    then show ?thesis using that node_entry_visible [OF v] by blast
  next
    case False
    then have "\<not> index_hit x lc pc g k q i" for k i using n by (auto simp: index_hit_def visible_def holds_def)
    moreover have "cv_at (g_nodes g) q = Inr n" using n by (simp add: holds_def cv_rd.at_Inr_iff)
    then have "node_entry x lc pc g q = Inr None" using False by (simp add: node_entry_def)
    ultimately show ?thesis using that by auto
  qed
qed

text \<open>The last entry of a list with a key is the one that a later insertion leaves.\<close>

lemma map_of_last_entry:
  fixes qs :: "nat list"
  assumes "sorted_wrt (<) qs" "q \<in> set qs" "ent q = Some (k, i)" "\<forall>p\<in>set qs. \<forall>j. ent p = Some (k, j) \<longrightarrow> p \<le> q"
  shows "map_of (rev (List.map_filter ent qs)) k = Some i"
  using assms
proof (induction qs rule: rev_induct)
  case (snoc z qs)
  show ?case
  proof (cases "q = z")
    case False
    then have "q < z" using snoc.prems(1,2) by (auto simp: sorted_wrt_append)
    then have "\<forall>j. ent z \<noteq> Some (k, j)" using snoc.prems(4) by fastforce
    then show ?thesis using snoc False by (cases "ent z") (auto simp: List.map_filter_def sorted_wrt_append)
  qed (use snoc.prems(3) in \<open>simp add: List.map_filter_def\<close>)
qed simp

lemma map_of_no_entry: "\<forall>p\<in>set qs. \<forall>j. ent p \<noteq> Some (k, j) \<Longrightarrow> map_of (rev (List.map_filter ent qs)) k = None"
  by (force simp: map_of_eq_None_iff List.map_filter_def)

text \<open>
  C31. A new index holds what a transaction sees: \<open>create_index\<close> registers a tree in which a lookup of a key finds the node at the highest position among the nodes that the
  transaction sees, that have the label, and whose property has this key, where a node without the property counts with key 0; a key without such a node is not found. The
  other indexes and the rest of the store are unchanged. The first chunk of the node table has a used slot, as the iterator needs, and the transaction can see every valid node:
  the scan of \<open>create_index\<close> ends with the exception for a node it cannot read.
\<close>

theorem create_index_contents:
  assumes "g_current g th = Some tx" "im_inv (g_index g)" "map_of (g_index g) (index_name label pname) = None"
    and wf: "cv_wf (g_nodes g)" "chunk_list (g_nodes g) = [] \<or> \<not> chunk_is_empty (hd (chunk_list (g_nodes g)))"
    and sees: "\<forall>q n. holds (g_nodes g) q n \<longrightarrow> is_valid (o_elem n) \<longrightarrow> (\<exists>b its. visible (xid tx) g q b its)"
    and hit: "hit = index_hit (xid tx) (dict_lookup_string h label (g_dict g)) (dict_lookup_string h pname (g_dict g)) g"
  shows "\<exists>t m. create_index h th label pname g = (Inr t, g\<lparr>g_index := m\<rparr>) \<and> im_inv m \<and>
     (\<forall>k<2 ^ 64. \<forall>q i. hit k q i \<longrightarrow> (\<forall>p j. hit k p j \<longrightarrow> p \<le> q) \<longrightarrow> index_find (Some (index_name label pname)) k m = Inr (Some i)) \<and>
     (\<forall>k<2 ^ 64. (\<forall>q i. \<not> hit k q i) \<longrightarrow> index_find (Some (index_name label pname)) k m = Inr None) \<and>
     (\<forall>n k. n \<noteq> index_name label pname \<longrightarrow> index_find (Some n) k m = index_find (Some n) k (g_index g))"
proof -
  let ?qs = "cv_walk (g_nodes g) (cv_begin (g_nodes g))"
  let ?entry = "node_entry (xid tx) (dict_lookup_string h label (g_dict g)) (dict_lookup_string h pname (g_dict g)) g"
  have qs: "?qs = filter (\<lambda>i. cv_view (g_nodes g) i \<noteq> None) [0..<capacity (g_nodes g)]" using cv_walk_begin [OF wf(1)] wf(2) by auto
  then have sorted: "sorted_wrt (<) ?qs" by (simp add: sorted_wrt_filter)
  define ent where "ent q = (case ?entry q of Inr en \<Rightarrow> en | Inl _ \<Rightarrow> None)" for q
  have ent: "?entry q = Inr (ent q) \<and> (\<forall>k i. hit k q i \<longleftrightarrow> ent q = Some (k, i))" if "q \<in> set ?qs" for q
  proof -
    have "cv_view (g_nodes g) q \<noteq> None" using that unfolding qs by simp
    from node_entry_hit [OF wf(1) sees this, of "dict_lookup_string h label (g_dict g)" "dict_lookup_string h pname (g_dict g)"]
    obtain en where "?entry q = Inr en" "\<And>k i. hit k q i \<longleftrightarrow> en = Some (k, i)" unfolding hit by blast
    then show ?thesis by (simp add: ent_def)
  qed
  have in_qs: "q \<in> set ?qs" if "hit k q i" for k q i
    using that cv_view_dom [OF wf(1), of q] unfolding qs hit by (auto simp: index_hit_def visible_def holds_def)
  from create_index_spec [OF assms(1-3), of h ent] ent obtain t m where
    m: "create_index h th label pname g = (Inr t, g\<lparr>g_index := m\<rparr>)" "im_inv m"
      "\<forall>k<2 ^ 64. index_find (Some (index_name label pname)) k m = Inr (map_of (rev (List.map_filter ent ?qs)) k)"
      "\<forall>n k. n \<noteq> index_name label pname \<longrightarrow> index_find (Some n) k m = index_find (Some n) k (g_index g)" by blast
  moreover have "map_of (rev (List.map_filter ent ?qs)) k = Some i" if "hit k q i" "\<forall>p j. hit k p j \<longrightarrow> p \<le> q" for k q i
    by (rule map_of_last_entry [OF sorted in_qs [OF that(1)]]) (use that ent in_qs in blast)+
  moreover have "map_of (rev (List.map_filter ent ?qs)) k = None" if "\<forall>q i. \<not> hit k q i" for k
    by (rule map_of_no_entry) (use that ent in blast)
  ultimately show ?thesis by (intro exI [of _ t] exI [of _ m]) simp
qed

text \<open>A store with one node that has the label \<open>age\<close> and no properties.\<close>

definition labelled_demo :: "dict \<Rightarrow> graph_db" where
  "labelled_demo d = (db_demo \<lparr>o_elem = node_elem_demo 0 3 INF_TS False, o_list = None\<rparr>)\<lparr>g_dict := d\<rparr>"

lemma labelled_demo_simps:
  "g_current (labelled_demo d) 1 = Some (transaction_new 5)" "g_dict (labelled_demo d) = d" "g_index (labelled_demo d) = []"
  "cv_walk (g_nodes (labelled_demo d)) (cv_begin (g_nodes (labelled_demo d))) = [0]"
  "cv_at (g_nodes (labelled_demo d)) 0 = Inr \<lparr>o_elem = node_elem_demo 0 3 INF_TS False, o_list = None\<rparr>"
  by (simp_all add: labelled_demo_def) (simp_all add: db_demo_def graph_db_new_def nodes_demo_def cv_begin_def cv_iter_next_def cv_used_def
      chunk_is_used_def numeral_2_eq_2 cv_at_def cv_find_chunk_def)

lemma labelled_demo_node:
  "is_valid (node_elem_demo 0 3 INF_TS False)" "nd_label (body (node_elem_demo 0 3 INF_TS False)) = 1"
  "nd_id (body (node_elem_demo 0 3 INF_TS False)) = 0" "nd_property_list (body (node_elem_demo 0 3 INF_TS False)) = UNKNOWN"
  "get_valid_node_version 5 \<lparr>o_elem = node_elem_demo 0 3 INF_TS False, o_list = None\<rparr> = Inr Main"
  by (simp_all add: node_elem_demo_def node_body_demo_def is_valid_def get_valid_node_version_def is_locked_by_def is_locked_def is_valid_for_def INF_TS_def)

lemma dict_age: "\<exists>d. dict_lookup_string length ''age'' d = 1"
proof -
  have "sp_fits ''age'' (d_pool dict_demo)" by (simp add: sp_fits_def dict_demo_def)
  from dict_insert_new [OF dict_demo_inv _ _ _ this] obtain d where "dict_inv length d ([] @ [''age''])" by auto
  from dict_lookup_string_eq [OF this, of "''age''"] show ?thesis by auto
qed

theorem create_index_contents_witness:
  "\<exists>d t m. create_index length 1 ''age'' ''size'' (labelled_demo d) = (Inr t, (labelled_demo d)\<lparr>g_index := m\<rparr>) \<and>
     index_find (Some ''age:size'') 0 m = Inr (Some 0) \<and> index_find (Some ''age:size'') 7 m = Inr None"
proof -
  from dict_age obtain d where d: "dict_lookup_string length ''age'' d = 1" by blast
  let ?g = "labelled_demo d" and ?n = "\<lparr>o_elem = node_elem_demo 0 3 INF_TS False, o_list = None\<rparr> :: node" and ?pc = "dict_lookup_string length ''size'' d"
  have nodes: "g_nodes ?g = nodes_demo ?n" by (simp add: labelled_demo_def db_demo_def)
  have wf: "cv_wf (g_nodes ?g)" using nodes_demo_inv by (simp add: nodes cv_inv_def)
  have h: "holds (g_nodes ?g) q n \<longleftrightarrow> q = 0 \<and> n = ?n" for q n
  proof
    assume "holds (g_nodes ?g) q n"
    then show "q = 0 \<and> n = ?n" using wf cv_view_dom [OF wf, of q] by (auto simp: holds_def cv_view_eq nodes nodes_demo_def less_2_cases_iff split: if_splits)
  qed (use db_demo_holds [of ?n] in \<open>simp add: labelled_demo_def\<close>)
  have props: "props_hold (g_nprops ?g) UNKNOWN its \<longleftrightarrow> its = []" for its
  proof
    assume "props_hold (g_nprops ?g) UNKNOWN its"
    then obtain r where "pl_linked (cv_view (g_nprops ?g)) UNKNOWN r" "its = pl_items r" unfolding props_hold_def by blast
    then show "its = []" by (cases r) auto
  next
    have "cv_wf (g_nprops ?g)" by (simp add: labelled_demo_def db_demo_def graph_db_new_def cv_wf_def cv_empty_def)
    then show "its = [] \<Longrightarrow> props_hold (g_nprops ?g) UNKNOWN its" unfolding props_hold_def by (auto intro: exI [of _ "[]"])
  qed
  have vis: "visible 5 ?g q b its \<longleftrightarrow> q = 0 \<and> b = node_body_demo \<and> its = []" for q b its
  proof -
    have g: "o_get ?n Main = Inr (node_elem_demo 0 3 INF_TS False)" "body (node_elem_demo 0 3 INF_TS False) = node_body_demo" "nd_property_list node_body_demo = UNKNOWN"
      by (simp_all add: o_get_def node_elem_demo_def node_body_demo_def)
    have "visible 5 ?g q b its \<longleftrightarrow> q = 0 \<and> b = node_body_demo \<and> props_hold (g_nprops ?g) (nd_property_list b) its"
      unfolding visible_def h using labelled_demo_node(1,5) g(1,2) by (metis (no_types, opaque_lifting) object.select_convs(1) sum.inject(2))
    then show ?thesis using g(3) props [of its] by metis
  qed
  have hit: "index_hit 5 1 ?pc ?g k q i \<longleftrightarrow> k = 0 \<and> q = 0 \<and> i = 0" for k q i by (auto simp: index_hit_def vis raw_key_def node_body_demo_def)
  have "chunk_list (g_nodes ?g) = [] \<or> \<not> chunk_is_empty (hd (chunk_list (g_nodes ?g)))" by (simp add: nodes nodes_demo_def chunk_is_empty_def)
  moreover have "\<forall>q n. holds (g_nodes ?g) q n \<longrightarrow> is_valid (o_elem n) \<longrightarrow> (\<exists>b its. visible 5 ?g q b its)" using h vis by blast
  ultimately obtain t m where m: "create_index length 1 ''age'' ''size'' ?g = (Inr t, ?g\<lparr>g_index := m\<rparr>)"
    "\<forall>k<2 ^ 64. \<forall>q i. index_hit 5 1 ?pc ?g k q i \<longrightarrow> (\<forall>p j. index_hit 5 1 ?pc ?g k p j \<longrightarrow> p \<le> q) \<longrightarrow> index_find (Some (index_name ''age'' ''size'')) k m = Inr (Some i)"
    "\<forall>k<2 ^ 64. (\<forall>q i. \<not> index_hit 5 1 ?pc ?g k q i) \<longrightarrow> index_find (Some (index_name ''age'' ''size'')) k m = Inr None"
    using create_index_contents [of ?g 1 "transaction_new 5" "''age''" "''size''" "index_hit 5 1 ?pc ?g" length] wf d labelled_demo_simps by (auto simp: im_inv_def)
  have n: "index_name ''age'' ''size'' = ''age:size''" by (simp add: index_name_def)
  have "index_find (Some ''age:size'') 0 m = Inr (Some 0)" "index_find (Some ''age:size'') 7 m = Inr None" using m(2,3) unfolding hit n by simp_all
  then show ?thesis using m(1) by blast
qed

text \<open>
  Nodes without the property are indexed under key 0: the lookup of a missing property returns a zeroed item whose type is not
  \<open>unused\<close>, so \<open>empty()\<close> does not hold of it. In a store with one node, which has the label and no properties, looking up 0 in the new
  index finds the node.
\<close>

theorem create_index_zero_key:
  assumes "g_current g th = Some tx" "im_inv (g_index g)" "map_of (g_index g) (index_name label pname) = None"
    and "cv_walk (g_nodes g) (cv_begin (g_nodes g)) = [q]" "cv_at (g_nodes g) q = Inr n" "is_valid (o_elem n)"
    and "get_valid_node_version (xid tx) n = Inr r" "o_get n r = Inr e" "nd_label (body e) = dict_lookup_string h label (g_dict g)"
    and "nd_property_list (body e) = UNKNOWN"
  shows "\<exists>t m. create_index h th label pname g = (Inr t, g\<lparr>g_index := m\<rparr>) \<and>
     index_find (Some (index_name label pname)) 0 m = Inr (Some (nd_id (body e)))"
proof -
  let ?ent = "\<lambda>_. Some (0, nd_id (body e))"
  have "node_entry (xid tx) (dict_lookup_string h label (g_dict g)) (dict_lookup_string h pname (g_dict g)) g q = Inr (?ent q)"
    using assms(5-10) by (simp add: node_entry_def pl_property_value_def pl_property_value_from.simps pi_empty_def item_key_def pi_get_raw_def)
  then have "\<forall>q\<in>set (cv_walk (g_nodes g) (cv_begin (g_nodes g))).
      node_entry (xid tx) (dict_lookup_string h label (g_dict g)) (dict_lookup_string h pname (g_dict g)) g q = Inr (?ent q)" using assms(4) by simp
  from create_index_spec [OF assms(1-3) this] show ?thesis using assms(4) by (force simp: List.map_filter_simps)
qed

theorem create_index_zero_key_witness:
  "\<exists>d t m. create_index length 1 ''age'' ''size'' (labelled_demo d) = (Inr t, (labelled_demo d)\<lparr>g_index := m\<rparr>) \<and>
     index_find (Some ''age:size'') 0 m = Inr (Some 0)"
proof -
  from dict_age obtain d where d: "dict_lookup_string length ''age'' d = 1" by blast
  have n: "index_name ''age'' ''size'' = ''age:size''" by (simp add: index_name_def)
  have "\<exists>t m. create_index length 1 ''age'' ''size'' (labelled_demo d) = (Inr t, (labelled_demo d)\<lparr>g_index := m\<rparr>) \<and>
     index_find (Some (index_name ''age'' ''size'')) 0 m = Inr (Some (nd_id (body (node_elem_demo 0 3 INF_TS False))))"
    by (rule create_index_zero_key [where tx = "transaction_new 5" and r = Main and n = "\<lparr>o_elem = node_elem_demo 0 3 INF_TS False, o_list = None\<rparr>"])
      (use d labelled_demo_node labelled_demo_simps in \<open>simp_all add: im_inv_def\<close>)
  then show ?thesis unfolding n labelled_demo_node by blast
qed

end
