(* ===== verification/Query_Ops.thy ===== *)
theory Query_Ops
  imports Query_Expr Local_State Graph_Index
begin

text \<open>
  The operators of the push-based query engine, \<^verbatim>\<open>src/src/query/plan_op\<close>: an operator processes a tuple and passes its results to the operator behind it by
  calling \<open>consume\<close>; when the input is complete, \<open>finish\<close> is called. The members of an operator are its local variables; what
  is behind it is code of the caller. Profiling, locks and printing are left out. Parameters: the thread \<open>th\<close>, the hash function \<open>h\<close> of the dictionary, fuel \<open>wk\<close> for walks
  over relationship lists, the record \<open>l\<close> of library functions.
\<close>

type_synonym 'q consume_func = "qr_tuple \<Rightarrow> ('q, unit) gact"

section \<open>Text\<close>

text \<open>\<open>std::to_string\<close> of integers.\<close>

fun dec :: "nat \<Rightarrow> string" where
  "dec n = (if n < 10 then [char_of (48 + n)] else dec (n div 10) @ [char_of (48 + n mod 10)])"

declare dec.simps [simp del]

definition dec_int :: "int \<Rightarrow> string" where
  "dec_int i = (if i < 0 then CHR ''-'' # dec (nat (- i)) else dec (nat i))"

definition dec_uint64 :: "64 word \<Rightarrow> string" where
  "dec_uint64 u = dec (unat u)"

section \<open>Values of variables\<close>

text \<open>Access to an element of a tuple: past the end it is undefined.\<close>

definition tup_at :: "qr_tuple \<Rightarrow> nat \<Rightarrow> query_result result" where
  "tup_at v i = (if i < length v then Inr (v ! i) else Inl Undefined_behaviour)"

definition tup_back :: "qr_tuple \<Rightarrow> query_result result" where
  "tup_back v = (if v = [] then Inl Undefined_behaviour else Inr (last v))"

definition deref :: "(offset_t \<times> vref) option \<Rightarrow> (offset_t \<times> vref) result" where
  "deref p = (case p of None \<Rightarrow> Inl Undefined_behaviour | Some q \<Rightarrow> Inr q)"

definition get_property_value :: "nat \<Rightarrow> qr_tuple \<Rightarrow> nat \<Rightarrow> dcode_t \<Rightarrow> ('q, p_item) gact" where
  "get_property_value th v var pkey =
     sbind (srun (tup_at v var)) (\<lambda>qv. case qv of
       Q_node p \<Rightarrow> sbind (srun (deref p)) (\<lambda>(i, r). get_valid_node_property_value th i r pkey)
     | Q_rship p \<Rightarrow> sbind (srun (deref p)) (\<lambda>(i, r). get_valid_rship_property_value th i r pkey)
     | _ \<Rightarrow> sret pi_unused)"

definition get_property_named :: "nat \<Rightarrow> hash \<Rightarrow> qr_tuple \<Rightarrow> nat \<Rightarrow> string \<Rightarrow> ('q, p_item) gact" where
  "get_property_named th h v var prop = sbind (get_code h prop) (get_property_value th v var)"

text \<open>Conversion of a \<open>double\<close> to an integer truncates; a value out of range is undefined.\<close>

definition d_trunc :: "int \<Rightarrow> int \<Rightarrow> double \<Rightarrow> int result" where
  "d_trunc lo hi d = (case d of
     Finite s x \<Rightarrow> let i = (if s then - \<lfloor>x\<rfloor> else \<lfloor>x\<rfloor>) in if lo \<le> i \<and> i < hi then Inr i else Inl Undefined_behaviour
   | _ \<Rightarrow> Inl Undefined_behaviour)"

definition item_int :: "p_item \<Rightarrow> int result" where
  "item_int p = (case pi_type p of
     P_int \<Rightarrow> pi_get_int p
   | P_double \<Rightarrow> rbind (pi_get_double p) (\<lambda>d. d_trunc (- (2 ^ 31)) (2 ^ 31) (d_of_bits d))
   | P_uint64 \<Rightarrow> rbind (pi_get_uint64 p) (\<lambda>u. Inr (sint (ucast u :: 32 word)))
   | _ \<Rightarrow> Inr 0)"

definition item_uint64 :: "p_item \<Rightarrow> 64 word result" where
  "item_uint64 p = (case pi_type p of
     P_int \<Rightarrow> rbind (pi_get_int p) (\<lambda>i. Inr (u_of_int i))
   | P_double \<Rightarrow> rbind (pi_get_double p) (\<lambda>d. rbind (d_trunc 0 (2 ^ 64) (d_of_bits d)) (\<lambda>i. Inr (word_of_int i)))
   | P_uint64 \<Rightarrow> pi_get_uint64 p
   | _ \<Rightarrow> Inr 0)"

definition item_double :: "p_item \<Rightarrow> double result" where
  "item_double p = (case pi_type p of
     P_int \<Rightarrow> rbind (pi_get_int p) (\<lambda>i. Inr (d_of_int i))
   | P_double \<Rightarrow> rbind (pi_get_double p) (\<lambda>d. Inr (d_of_bits d))
   | P_uint64 \<Rightarrow> rbind (pi_get_uint64 p) (\<lambda>u. Inr (d_of_uint64 u))
   | _ \<Rightarrow> Inr (Finite False 0))"

definition item_string :: "qlib \<Rightarrow> p_item \<Rightarrow> ('q, string) gact" where
  "item_string l p = (case pi_type p of
     P_dcode \<Rightarrow> sbind (srun (pi_get_dcode p)) get_string
   | P_int \<Rightarrow> srun (rbind (pi_get_int p) (\<lambda>i. Inr (dec_int i)))
   | P_double \<Rightarrow> srun (rbind (pi_get_double p) (\<lambda>d. Inr (ql_fixed l (d_of_bits d))))
   | P_uint64 \<Rightarrow> srun (rbind (pi_get_uint64 p) (\<lambda>u. Inr (dec_uint64 u)))
   | _ \<Rightarrow> sret [])"

text \<open>The instances of \<open>get_property_value\<close> for the types, with a code; the instances with a name only look up the code first.\<close>

definition get_property_int :: "nat \<Rightarrow> qr_tuple \<Rightarrow> nat \<Rightarrow> dcode_t \<Rightarrow> ('q, int) gact" where
  "get_property_int th v var k = sbind (get_property_value th v var k) (\<lambda>p. srun (item_int p))"

definition get_property_uint64 :: "nat \<Rightarrow> qr_tuple \<Rightarrow> nat \<Rightarrow> dcode_t \<Rightarrow> ('q, 64 word) gact" where
  "get_property_uint64 th v var k = sbind (get_property_value th v var k) (\<lambda>p. srun (item_uint64 p))"

definition get_property_ptime :: "nat \<Rightarrow> qr_tuple \<Rightarrow> nat \<Rightarrow> dcode_t \<Rightarrow> ('q, 64 word) gact" where
  "get_property_ptime th v var k = sbind (get_property_value th v var k) (\<lambda>p. srun (pi_get_ptime p))"

definition get_property_double :: "nat \<Rightarrow> qr_tuple \<Rightarrow> nat \<Rightarrow> dcode_t \<Rightarrow> ('q, double) gact" where
  "get_property_double th v var k = sbind (get_property_value th v var k) (\<lambda>p. srun (item_double p))"

definition get_property_string :: "qlib \<Rightarrow> nat \<Rightarrow> qr_tuple \<Rightarrow> nat \<Rightarrow> dcode_t \<Rightarrow> ('q, string) gact" where
  "get_property_string l th v var k = sbind (get_property_value th v var k) (item_string l)"

definition get_var_value :: "qlib \<Rightarrow> nat \<Rightarrow> qr_tuple \<Rightarrow> nat \<Rightarrow> dcode_t \<Rightarrow> expr_type \<Rightarrow> ('q, query_result) gact" where
  "get_var_value l th v i pcode ty =
     sbind (srun (tup_at v i)) (\<lambda>inp.
     if (case inp of Q_node _ \<Rightarrow> True | Q_rship _ \<Rightarrow> True | _ \<Rightarrow> False) then
       (case ty of
          ET_INT \<Rightarrow> sbind (get_property_int th v i pcode) (\<lambda>x. sret (Q_int x))
        | ET_UINT64 \<Rightarrow> sbind (get_property_uint64 th v i pcode) (\<lambda>x. sret (Q_uint64 x))
        | ET_DOUBLE \<Rightarrow> sbind (get_property_double th v i pcode) (\<lambda>x. sret (Q_double x))
        | ET_STRING \<Rightarrow> sbind (get_property_string l th v i pcode) (\<lambda>x. sret (Q_string x))
        | ET_DATETIME \<Rightarrow> sbind (get_property_ptime th v i pcode) (\<lambda>x. sret (Q_ptime x))
        | _ \<Rightarrow> sret qv_default)
     else sret inp)"

section \<open>Filters and nodes of relationships\<close>

text \<open>A code that is looked up at the first tuple and kept.\<close>

definition cached_code :: "hash \<Rightarrow> string \<Rightarrow> (dcode_t \<times> 'v, dcode_t) gact" where
  "cached_code h s = sbind get_local (\<lambda>c. if c = 0 then sbind (get_code h s) (\<lambda>d. sbind (upd_local (\<lambda>_. d)) (\<lambda>_. sret d)) else sret c)"

definition is_property_process :: "hash \<Rightarrow> string \<Rightarrow> (p_item \<Rightarrow> bool) \<Rightarrow> 'v consume_func \<Rightarrow> (dcode_t \<times> 'v) consume_func" where
  "is_property_process h property pred consume v =
     sbind (srun (tup_back v)) (\<lambda>n.
     sbind (cached_code h property) (\<lambda>pcode.
     case n of
       Q_node p \<Rightarrow> sbind (srun (deref p)) (\<lambda>(i, r). sbind (node_at i r) (\<lambda>e. sbind (is_node_property_code (body e) pcode pred) (\<lambda>b.
         if b then outer (consume v) else sret ())))
     | Q_rship p \<Rightarrow> sbind (srun (deref p)) (\<lambda>(i, r). sbind (rship_at i r) (\<lambda>e. sbind (is_relationship_property_code (body e) pcode pred) (\<lambda>b.
         if b then outer (consume v) else sret ())))
     | _ \<Rightarrow> sret ()))"

fun first_label :: "hash \<Rightarrow> dcode_t \<Rightarrow> string list \<Rightarrow> (dcode_t \<times> 'v, bool) gact" where
  "first_label h c [] = sret False"
| "first_label h c (s # ss) = sbind (get_code h s) (\<lambda>d. sbind (upd_local (\<lambda>_. d)) (\<lambda>_. if c = d then sret True else first_label h c ss))"

definition node_has_label_process :: "hash \<Rightarrow> string \<Rightarrow> string list \<Rightarrow> 'v consume_func \<Rightarrow> (dcode_t \<times> 'v) consume_func" where
  "node_has_label_process h label labels consume v =
     sbind (srun (rbind (tup_back v) qv_get_node)) (\<lambda>p.
     sbind (srun (deref p)) (\<lambda>(i, r).
     sbind (node_at i r) (\<lambda>e.
     sbind (if labels = [] then sbind (cached_code h label) (\<lambda>c. sret (nd_label (body e) = c)) else first_label h (nd_label (body e)) labels) (\<lambda>b.
     if b then outer (consume v) else sret ()))))"

definition append_node :: "nat \<Rightarrow> (rship_body \<Rightarrow> offset_t) \<Rightarrow> 'q consume_func \<Rightarrow> 'q consume_func" where
  "append_node th far consume v =
     sbind (srun (rbind (tup_back v) qv_get_relationship)) (\<lambda>p.
     sbind (srun (deref p)) (\<lambda>(i, q).
     sbind (rship_at i q) (\<lambda>e.
     sbind (node_by_id th (far (body e))) (\<lambda>r. consume (v @ [Q_node (Some (far (body e), r))])))))"

definition get_from_node_process :: "nat \<Rightarrow> 'q consume_func \<Rightarrow> 'q consume_func" where
  "get_from_node_process th = append_node th rs_src_node"

definition get_to_node_process :: "nat \<Rightarrow> 'q consume_func \<Rightarrow> 'q consume_func" where
  "get_to_node_process th = append_node th rs_dest_node"

definition filter_process :: "qlib \<Rightarrow> 'q expr option \<Rightarrow> (qr_tuple \<Rightarrow> bool) \<Rightarrow> 'q consume_func \<Rightarrow> 'q consume_func" where
  "filter_process l ex pred consume v =
     sbind (case ex of Some e \<Rightarrow> interpret_bool_expression l e v | None \<Rightarrow> sret (pred v)) (\<lambda>b. if b then consume v else sret ())"

section \<open>Limit, distinct, order\<close>

definition limit_process :: "nat \<Rightarrow> 'v consume_func \<Rightarrow> (nat \<times> 'v) consume_func" where
  "limit_process n consume v =
     sbind get_local (\<lambda>processed. if processed < n then sbind (upd_local Suc) (\<lambda>_. outer (consume v)) else sret ())"

text \<open>The text of a value in the key of a tuple; there is none for descriptions.\<close>

fun key_text :: "qlib \<Rightarrow> query_result \<Rightarrow> ('q, string) gact" where
  "key_text l (Q_string s) = sret s"
| "key_text l (Q_uint64 u) = sret (dec_uint64 u)"
| "key_text l (Q_ptime t) = sret (ql_iso l t)"
| "key_text l (Q_node p) = sbind (srun (deref p)) (\<lambda>(i, r). sbind (node_at i r) (\<lambda>e. sret (dec (nd_id (body e)))))"
| "key_text l (Q_rship p) = sbind (srun (deref p)) (\<lambda>(i, r). sbind (rship_at i r) (\<lambda>e. sret (dec (rs_id (body e)))))"
| "key_text l (Q_int i) = sret (dec_int i)"
| "key_text l (Q_double d) = sret (ql_fixed l d)"
| "key_text l Q_null = sret ''NULL''"
| "key_text l (Q_array a) = sret (concat (map dec_uint64 a))"
| "key_text l v = sret []"

fun tuple_key :: "qlib \<Rightarrow> qr_tuple \<Rightarrow> ('q, string) gact" where
  "tuple_key l [] = sret []"
| "tuple_key l (x # v) = sbind (key_text l x) (\<lambda>s. sbind (tuple_key l v) (\<lambda>t. sret (s @ t)))"

definition distinct_process :: "qlib \<Rightarrow> 'v consume_func \<Rightarrow> (string list \<times> 'v) consume_func" where
  "distinct_process l consume v =
     sbind (tuple_key l v) (\<lambda>key.
     sbind get_local (\<lambda>keys. if key \<in> set keys then sret () else sbind (upd_local (\<lambda>ks. key # ks)) (\<lambda>_. outer (consume v))))"

datatype sort_order = SO_None | SO_Asc | SO_Desc

datatype qr_type = T_node_ptr | T_rship_ptr | T_int | T_double | T_string | T_uint64 | T_ptime | T_array | T_null | T_node_descr | T_rship_descr

record sort_spec =
  ss_order :: sort_order
  ss_vidx :: nat
  ss_pcode :: dcode_t
  ss_cmp_type :: qr_type

definition three_way :: "('a \<Rightarrow> 'a \<Rightarrow> bool) \<Rightarrow> ('a \<Rightarrow> 'a \<Rightarrow> bool) \<Rightarrow> 'a result \<Rightarrow> 'a result \<Rightarrow> int result" where
  "three_way eq lt r1 r2 =
     (case rbind r1 (\<lambda>x. rbind r2 (\<lambda>y. Inr (if eq x y then 0 else if lt x y then - 1 else 1))) of Inr i \<Rightarrow> Inr i | Inl e \<Rightarrow> Inl Query_processing_error)"

definition cmp_values :: "qlib \<Rightarrow> qr_type \<Rightarrow> query_result \<Rightarrow> query_result \<Rightarrow> int result" where
  "cmp_values l ty v w =
     (case ty of
        T_uint64 \<Rightarrow> three_way (=) (<) (qv_get_uint64 v) (qv_get_uint64 w)
      | T_string \<Rightarrow> three_way (=) string_less (qv_get_string v) (qv_get_string w)
      | T_int \<Rightarrow> three_way (=) (<) (qv_get_int v) (qv_get_int w)
      | T_double \<Rightarrow> three_way d_eq d_less (qv_get_double v) (qv_get_double w)
      | T_ptime \<Rightarrow> three_way (=) (ql_ptime_lt l) (qv_get_ptime v) (qv_get_ptime w)
      | _ \<Rightarrow> Inr 1)"

definition sort_value :: "dcode_t \<Rightarrow> query_result \<Rightarrow> ('q, query_result) gact" where
  "sort_value pcode v =
     sbind (srun (rbind (qv_get_node v) deref)) (\<lambda>(i, r). sbind (node_at i r) (\<lambda>e. sbind (get_node_property_value (body e) pcode) (\<lambda>p. sret (qv_from_pitem p))))"

definition qr_less :: "qlib \<Rightarrow> sort_spec \<Rightarrow> qr_tuple \<Rightarrow> qr_tuple \<Rightarrow> ('q, int) gact" where
  "qr_less l sp t1 t2 =
     (if length t1 \<le> ss_vidx sp \<or> length t2 \<le> ss_vidx sp then sthrow Assertion_failed
      else
        let v = t1 ! ss_vidx sp; w = t2 ! ss_vidx sp in
        if 0 < ss_pcode sp \<and> (case v of Q_node _ \<Rightarrow> True | _ \<Rightarrow> False)
        then sbind (sort_value (ss_pcode sp) v) (\<lambda>v'. sbind (sort_value (ss_pcode sp) w) (\<lambda>w'. srun (cmp_values l (ss_cmp_type sp) v' w')))
        else srun (cmp_values l (ss_cmp_type sp) v w))"

fun qr_compare :: "qlib \<Rightarrow> sort_spec list \<Rightarrow> qr_tuple \<Rightarrow> qr_tuple \<Rightarrow> ('q, bool) gact" where
  "qr_compare l [] t1 t2 = sret False"
| "qr_compare l (sp # spec) t1 t2 =
     sbind (qr_less l sp t1 t2) (\<lambda>res.
     if ss_order sp = SO_Asc \<and> res < 0 \<or> ss_order sp = SO_Desc \<and> 0 < res then sret True
     else if res = 0 then qr_compare l spec t1 t2 else sret False)"

text \<open>\<open>std::list::sort\<close> is stable, and for a strict weak order that determines its result.\<close>

fun insert_by :: "('a \<Rightarrow> 'a \<Rightarrow> ('q, bool) gact) \<Rightarrow> 'a \<Rightarrow> 'a list \<Rightarrow> ('q, 'a list) gact" where
  "insert_by lt x [] = sret [x]"
| "insert_by lt x (y # ys) = sbind (lt y x) (\<lambda>b. if b then sbind (insert_by lt x ys) (\<lambda>zs. sret (y # zs)) else sret (x # y # ys))"

fun sort_by :: "('a \<Rightarrow> 'a \<Rightarrow> ('q, bool) gact) \<Rightarrow> 'a list \<Rightarrow> ('q, 'a list) gact" where
  "sort_by lt [] = sret []"
| "sort_by lt (x # xs) = sbind (sort_by lt xs) (insert_by lt x)"

text \<open>
  The sort specification and the comparison function are global variables, shared by all operators: the constructors assign them.
\<close>

record sort_globals =
  sg_spec :: "sort_spec list"
  sg_cmp :: "(qr_tuple \<Rightarrow> qr_tuple \<Rightarrow> bool) option"

definition order_by_new :: "sort_spec list \<Rightarrow> sort_globals \<Rightarrow> sort_globals" where
  "order_by_new spec gl = gl\<lparr>sg_spec := spec\<rparr>"

definition order_by_new_func :: "(qr_tuple \<Rightarrow> qr_tuple \<Rightarrow> bool) \<Rightarrow> sort_globals \<Rightarrow> sort_globals" where
  "order_by_new_func f gl = gl\<lparr>sg_cmp := Some f\<rparr>"

definition result_sort :: "qlib \<Rightarrow> sort_globals \<Rightarrow> qr_tuple list \<Rightarrow> ('q, qr_tuple list) gact" where
  "result_sort l gl = sort_by (case sg_cmp gl of Some f \<Rightarrow> (\<lambda>x y. sret (f x y)) | None \<Rightarrow> qr_compare l (sg_spec gl))"

definition order_by_process :: "(qr_tuple list \<times> 'v) consume_func" where
  "order_by_process v = upd_local (\<lambda>rs. rs @ [v])"

definition order_by_finish :: "qlib \<Rightarrow> sort_globals \<Rightarrow> 'v consume_func \<Rightarrow> ('v, unit) gact \<Rightarrow> (qr_tuple list \<times> 'v, unit) gact" where
  "order_by_finish l gl consume fin =
     sbind get_local (\<lambda>rs.
     sbind (result_sort l gl rs) (\<lambda>rs'.
     sbind (upd_local (\<lambda>_. rs')) (\<lambda>_. sbind (for_each (\<lambda>v. outer (consume v)) rs') (\<lambda>_. outer fin))))"

text \<open>The operator that collects the results, without their conversion to text.\<close>

definition collect_process :: "qr_tuple list consume_func" where
  "collect_process v g = (Inr (), with_more (graph_db.more g @ [v]) g)"

end
