(* ===== verification/Query_Joins.thy ===== *)
theory Query_Joins
  imports Query_Ops
begin

text \<open>
  Operators with two inputs, the scans that start a pipeline, and the operators that follow relationships: \<^verbatim>\<open>qop_joins.cpp\<close>, \<^verbatim>\<open>qop_set.cpp\<close>, \<^verbatim>\<open>qop_scans.cpp\<close> and
  \<^verbatim>\<open>qop_relationships.cpp\<close> of \<^verbatim>\<open>src/src/query/plan_op\<close>.
\<close>

section \<open>Joins\<close>

record 'i join_vars =
  jn_input :: 'i
  jn_phases :: nat

definition join_vars_new :: "'i \<Rightarrow> 'i join_vars" where
  "join_vars_new x = \<lparr>jn_input = x, jn_phases = 0\<rparr>"

text \<open>The operator behind is told that the input is complete when both inputs are.\<close>

definition binary_finish :: "('v, unit) gact \<Rightarrow> ('i join_vars \<times> 'v, unit) gact" where
  "binary_finish fin =
     sbind (upd_local (\<lambda>s. s\<lparr>jn_phases := Suc (jn_phases s)\<rparr>)) (\<lambda>_.
     sbind get_local (\<lambda>s. if 1 < jn_phases s then outer fin else sret ()))"

definition push_input :: "(qr_tuple list join_vars \<times> 'v) consume_func" where
  "push_input v = upd_local (\<lambda>s. s\<lparr>jn_input := jn_input s @ [v]\<rparr>)"

definition cross_join_left :: "'v consume_func \<Rightarrow> (qr_tuple list join_vars \<times> 'v) consume_func" where
  "cross_join_left consume v = sbind get_local (\<lambda>s. for_each (\<lambda>inp. outer (consume (inp @ v))) (jn_input s))"

definition cross_join_right :: "(qr_tuple list join_vars \<times> 'v) consume_func" where
  "cross_join_right = push_input"

text \<open>The nested loop join compares the identifiers of two nodes.\<close>

definition node_id_at :: "qr_tuple \<Rightarrow> nat \<Rightarrow> ('q, offset_t) gact" where
  "node_id_at v pos =
     sbind (srun (rbind (rbind (tup_at v pos) qv_get_node) deref)) (\<lambda>(i, r). sbind (node_at i r) (\<lambda>e. sret (nd_id (body e))))"

definition nested_loop_join_left :: "nat \<Rightarrow> 'v consume_func \<Rightarrow> ((offset_t \<times> qr_tuple) list \<times> 'v) consume_func" where
  "nested_loop_join_left pos consume v =
     sbind (node_id_at v pos) (\<lambda>nid.
     sbind get_local (\<lambda>s. for_each (\<lambda>(i, inp). if i = nid then outer (consume (v @ inp)) else sret ()) s))"

definition nested_loop_join_right :: "nat \<Rightarrow> ((offset_t \<times> qr_tuple) list \<times> 'v) consume_func" where
  "nested_loop_join_right pos v = sbind (node_id_at v pos) (\<lambda>nid. upd_local (\<lambda>s. s @ [(nid, v)]))"

text \<open>Hashing of values, \<open>boost::hash\<close> for the types of the variant; the functions of the types are a parameter.\<close>

record qhash =
  qh_int :: "int \<Rightarrow> 64 word"
  qh_double :: "double \<Rightarrow> 64 word"
  qh_string :: "string \<Rightarrow> 64 word"
  qh_uint64 :: "64 word \<Rightarrow> 64 word"
  qh_ptime :: "64 word \<Rightarrow> 64 word"

definition hasher :: "qhash \<Rightarrow> query_result \<Rightarrow> 64 word" where
  "hasher qh v = (case v of Q_int i \<Rightarrow> qh_int qh i | Q_double d \<Rightarrow> qh_double qh d | Q_string s \<Rightarrow> qh_string qh s | Q_uint64 u \<Rightarrow> qh_uint64 qh u
     | Q_ptime t \<Rightarrow> qh_ptime qh t | _ \<Rightarrow> 0)"

type_synonym htable = "64 word \<Rightarrow> (query_result \<times> qr_tuple) list option"

record var_ref =
  vr_id :: nat
  vr_pcode :: dcode_t
  vr_type :: expr_type

abbreviation var_ref_value :: "qlib \<Rightarrow> nat \<Rightarrow> qr_tuple \<Rightarrow> var_ref \<Rightarrow> ('q, query_result) gact" where
  "var_ref_value l th v x \<equiv> get_var_value l th v (vr_id x) (vr_pcode x) (vr_type x)"

definition hash_join_build :: "qlib \<Rightarrow> qhash \<Rightarrow> nat \<Rightarrow> var_ref \<Rightarrow> (htable join_vars \<times> 'v) consume_func" where
  "hash_join_build l qh th lhs v =
     sbind (var_ref_value l th v lhs) (\<lambda>jval.
     let key = hasher qh jval in
     upd_local (\<lambda>s. case jn_input s key of
         Some vec \<Rightarrow> s\<lparr>jn_input := (jn_input s)(key \<mapsto> vec @ [(jval, v)])\<rparr>
       | None \<Rightarrow> s\<lparr>jn_input := (jn_input s)(key \<mapsto> [(jval, v)])\<rparr>))"

definition hash_join_probe :: "qlib \<Rightarrow> qhash \<Rightarrow> nat \<Rightarrow> var_ref \<Rightarrow> 'v consume_func \<Rightarrow> (htable join_vars \<times> 'v) consume_func" where
  "hash_join_probe l qh th rhs consume v =
     sbind (var_ref_value l th v rhs) (\<lambda>jval.
     sbind get_local (\<lambda>s. case jn_input s (hasher qh jval) of
         None \<Rightarrow> sret ()
       | Some vec \<Rightarrow> for_each (\<lambda>(j, inp). if variant_equal jval j then outer (consume (inp @ v)) else sret ()) vec))"

definition outer_pred :: "qlib \<Rightarrow> 'v expr option \<Rightarrow> (qr_tuple \<Rightarrow> qr_tuple \<Rightarrow> bool) \<Rightarrow> qr_tuple \<Rightarrow> qr_tuple \<Rightarrow> ('v, bool) gact" where
  "outer_pred l ex pred v t = (case ex of Some e \<Rightarrow> interpret_bool_expression l e (v @ t) | None \<Rightarrow> sret (pred v t))"

fun outer_matches :: "qlib \<Rightarrow> 'v expr option \<Rightarrow> (qr_tuple \<Rightarrow> qr_tuple \<Rightarrow> bool) \<Rightarrow> 'v consume_func \<Rightarrow> qr_tuple \<Rightarrow> qr_tuple list \<Rightarrow> bool \<Rightarrow> ('v, bool) gact" where
  "outer_matches l ex pred consume v [] dangling = sret dangling"
| "outer_matches l ex pred consume v (t # ts) dangling =
     sbind (outer_pred l ex pred v t) (\<lambda>tp.
     if tp then sbind (consume (v @ t)) (\<lambda>_. outer_matches l ex pred consume v ts False) else outer_matches l ex pred consume v ts dangling)"

definition left_outer_join_left ::
  "qlib \<Rightarrow> 'v expr option \<Rightarrow> (qr_tuple \<Rightarrow> qr_tuple \<Rightarrow> bool) \<Rightarrow> 'v consume_func \<Rightarrow> (qr_tuple list join_vars \<times> 'v) consume_func" where
  "left_outer_join_left l ex pred consume v =
     sbind get_local (\<lambda>s.
     sbind (outer (outer_matches l ex pred consume v (jn_input s) True)) (\<lambda>dangling.
     if dangling then
       let space = (if jn_input s = [] then 1 else length (hd (jn_input s))) in outer (consume (v @ replicate space Q_null))
     else sret ()))"

definition left_outer_join_right :: "(qr_tuple list join_vars \<times> 'v) consume_func" where
  "left_outer_join_right = push_input"

section \<open>Set operators\<close>

definition union_all_process :: "'q consume_func \<Rightarrow> 'q consume_func" where
  "union_all_process consume v = consume v"

text \<open>
  \<open>std::set\<close> of values: two values are the same element if neither is less than the other; values of different types are never the same. A NaN has no place in it.
\<close>

definition is_nan :: "query_result \<Rightarrow> bool" where
  "is_nan v = (case v of Q_double NaN \<Rightarrow> True | _ \<Rightarrow> False)"

definition same_element :: "query_result \<Rightarrow> query_result \<Rightarrow> bool" where
  "same_element v w = (case v of
     Q_node_descr m \<Rightarrow> (case w of Q_node_descr n \<Rightarrow> ndesc_id m = ndesc_id n | _ \<Rightarrow> False)
   | Q_rship_descr q \<Rightarrow> (case w of Q_rship_descr r \<Rightarrow> rdesc_id q = rdesc_id r | _ \<Rightarrow> False)
   | _ \<Rightarrow> variant_equal v w)"

definition except_left :: "qlib \<Rightarrow> nat \<Rightarrow> var_ref \<Rightarrow> 'v consume_func \<Rightarrow> (query_result list join_vars \<times> 'v) consume_func" where
  "except_left l th lhs consume v =
     sbind (var_ref_value l th v lhs) (\<lambda>minuend.
     if is_nan minuend then sthrow Undefined_behaviour
     else sbind get_local (\<lambda>s. if list_ex (same_element minuend) (jn_input s) then sret () else outer (consume v)))"

definition except_right :: "qlib \<Rightarrow> nat \<Rightarrow> var_ref \<Rightarrow> (query_result list join_vars \<times> 'v) consume_func" where
  "except_right l th rhs v =
     sbind (var_ref_value l th v rhs) (\<lambda>x.
     if is_nan x then sthrow Undefined_behaviour
     else upd_local (\<lambda>s. if list_ex (same_element x) (jn_input s) then s else s\<lparr>jn_input := x # jn_input s\<rparr>))"

text \<open>The subquery is a pipeline; its last operator calls \<open>sub_query_processed\<close>.\<close>

definition sub_query_processed :: "(nat \<times> 'v) consume_func" where
  "sub_query_processed v = upd_local Suc"

definition exists_process :: "((nat \<times> 'v) consume_func \<Rightarrow> (nat \<times> 'v) consume_func) \<Rightarrow> bool \<Rightarrow> 'v consume_func \<Rightarrow> (nat \<times> 'v) consume_func" where
  "exists_process subquery is_not consume v =
     sbind (upd_local (\<lambda>_. 0)) (\<lambda>_.
     sbind (subquery sub_query_processed v) (\<lambda>_.
     sbind get_local (\<lambda>counter. if is_not \<and> counter = 0 \<or> \<not> is_not \<and> 0 < counter then outer (consume v) else sret ())))"

section \<open>Scans\<close>

abbreviation node_tuple :: "'q consume_func \<Rightarrow> 'q node_consumer" where
  "node_tuple consume \<equiv> \<lambda>i r. consume [Q_node (Some (i, r))]"

abbreviation rship_tuple :: "'q consume_func \<Rightarrow> 'q rship_consumer" where
  "rship_tuple consume \<equiv> \<lambda>i r. consume [Q_rship (Some (i, r))]"

definition node_scan_start :: "nat \<Rightarrow> hash \<Rightarrow> nat \<Rightarrow> nat \<Rightarrow> string \<Rightarrow> string list \<Rightarrow> 'q consume_func \<Rightarrow> ('q, unit) gact \<Rightarrow> ('q, unit) gact" where
  "node_scan_start fuel h th worker label labels consume fin =
     sbind (if label = [] \<and> labels = [] then parallel_nodes fuel th worker (node_tuple consume)
            else if label \<noteq> [] then parallel_nodes_with_label fuel h th worker label (node_tuple consume)
            else nodes_by_labels fuel h th labels (node_tuple consume)) (\<lambda>_. fin)"

definition relationship_scan_start :: "nat \<Rightarrow> hash \<Rightarrow> nat \<Rightarrow> nat \<Rightarrow> string \<Rightarrow> string list \<Rightarrow> 'q consume_func \<Rightarrow> ('q, unit) gact \<Rightarrow> ('q, unit) gact" where
  "relationship_scan_start fuel h th worker label labels consume fin =
     sbind (if label = [] \<and> labels = [] then parallel_relationships fuel th worker (rship_tuple consume)
            else if label \<noteq> [] then parallel_relationships_with_label fuel h th worker label (rship_tuple consume)
            else relationships_by_labels fuel h th labels (rship_tuple consume)) (\<lambda>_. fin)"

definition index_scan_start :: "nat \<Rightarrow> index_id \<Rightarrow> index_id list \<Rightarrow> nat \<Rightarrow> 'q consume_func \<Rightarrow> ('q, unit) gact \<Rightarrow> ('q, unit) gact" where
  "index_scan_start th idx idxs key consume fin =
     sbind (if idxs = [] then index_lookup th idx key (node_tuple consume) else index_lookup_list th idxs key (node_tuple consume)) (\<lambda>_. fin)"

definition start_pipeline_start :: "'q consume_func \<Rightarrow> 'q consume_func" where
  "start_pipeline_start consume v = consume v"

definition node_by_id_start :: "nat \<Rightarrow> offset_t \<Rightarrow> 'q consume_func \<Rightarrow> ('q, unit) gact \<Rightarrow> ('q, unit) gact" where
  "node_by_id_start th i consume fin = sbind (node_by_id th i) (\<lambda>r. sbind (consume [Q_node (Some (i, r))]) (\<lambda>_. fin))"

section \<open>Following relationships\<close>

definition NPOS_MAX :: nat where
  "NPOS_MAX = 2 ^ 31 - 1"

definition node_operand :: "nat \<Rightarrow> qr_tuple \<Rightarrow> ('q, node_body) gact" where
  "node_operand npos v =
     sbind (srun (rbind (rbind (if npos = NPOS_MAX then tup_back v else tup_at v npos) qv_get_node) deref)) (\<lambda>(i, r).
     sbind (node_at i r) (\<lambda>e. sret (body e)))"

definition push_rship :: "'v consume_func \<Rightarrow> qr_tuple \<Rightarrow> ('c \<times> 'v) rship_consumer" where
  "push_rship consume v i q = outer (consume (v @ [Q_rship (Some (i, q))]))"

definition push_rship_node :: "nat \<Rightarrow> (rship_body \<Rightarrow> offset_t) \<Rightarrow> 'v consume_func \<Rightarrow> qr_tuple \<Rightarrow> ('c \<times> 'v) rship_consumer" where
  "push_rship_node th far consume v i q =
     sbind (rship_at i q) (\<lambda>e. sbind (node_by_id th (far (body e))) (\<lambda>r.
     outer (consume (v @ [Q_rship (Some (i, q)), Q_node (Some (far (body e), r))]))))"

definition foreach_from_relationship_process :: "nat \<Rightarrow> hash \<Rightarrow> nat \<Rightarrow> string \<Rightarrow> nat \<Rightarrow> 'v consume_func \<Rightarrow> (dcode_t \<times> 'v) consume_func" where
  "foreach_from_relationship_process wk h th label npos consume v =
     sbind (node_operand npos v) (\<lambda>b. sbind (cached_code h label) (\<lambda>lc. foreach_from_relationship_with_code wk th b lc (push_rship consume v)))"

definition foreach_to_relationship_process :: "nat \<Rightarrow> hash \<Rightarrow> nat \<Rightarrow> string \<Rightarrow> nat \<Rightarrow> 'v consume_func \<Rightarrow> (dcode_t \<times> 'v) consume_func" where
  "foreach_to_relationship_process wk h th label npos consume v =
     sbind (node_operand npos v) (\<lambda>b. sbind (cached_code h label) (\<lambda>lc. foreach_to_relationship_with_code wk th b lc (push_rship consume v)))"

definition foreach_variable_from_relationship_process ::
  "nat \<Rightarrow> hash \<Rightarrow> nat \<Rightarrow> string \<Rightarrow> nat \<Rightarrow> nat \<Rightarrow> nat \<Rightarrow> 'v consume_func \<Rightarrow> (dcode_t \<times> 'v) consume_func" where
  "foreach_variable_from_relationship_process wk h th label mn mx npos consume v =
     sbind (node_operand npos v) (\<lambda>b. sbind (cached_code h label) (\<lambda>lc.
       foreach_variable_from_relationship_with_code wk th b lc mn mx (push_rship consume v)))"

definition foreach_variable_to_relationship_process ::
  "nat \<Rightarrow> hash \<Rightarrow> nat \<Rightarrow> string \<Rightarrow> nat \<Rightarrow> nat \<Rightarrow> nat \<Rightarrow> 'v consume_func \<Rightarrow> (dcode_t \<times> 'v) consume_func" where
  "foreach_variable_to_relationship_process wk h th label mn mx npos consume v =
     sbind (node_operand npos v) (\<lambda>b. sbind (cached_code h label) (\<lambda>lc.
       foreach_variable_to_relationship_with_code wk th b lc mn mx (push_rship consume v)))"

definition foreach_all_relationship_process :: "nat \<Rightarrow> hash \<Rightarrow> nat \<Rightarrow> string \<Rightarrow> nat \<Rightarrow> 'v consume_func \<Rightarrow> (dcode_t \<times> 'v) consume_func" where
  "foreach_all_relationship_process wk h th label npos consume v =
     sbind (node_operand npos v) (\<lambda>b. sbind (cached_code h label) (\<lambda>lc.
     sbind (foreach_from_relationship_with_code wk th b lc (push_rship_node th rs_dest_node consume v)) (\<lambda>_.
     sbind (node_operand npos v) (\<lambda>b. foreach_to_relationship_with_code wk th b lc (push_rship_node th rs_src_node consume v)))))"

definition foreach_variable_all_relationship_process ::
  "nat \<Rightarrow> hash \<Rightarrow> nat \<Rightarrow> string \<Rightarrow> nat \<Rightarrow> nat \<Rightarrow> nat \<Rightarrow> 'v consume_func \<Rightarrow> (dcode_t \<times> 'v) consume_func" where
  "foreach_variable_all_relationship_process wk h th label mn mx npos consume v =
     sbind (node_operand npos v) (\<lambda>b. sbind (cached_code h label) (\<lambda>lc.
     sbind (foreach_variable_from_relationship_with_code wk th b lc mn mx (push_rship_node th rs_dest_node consume v)) (\<lambda>_.
     sbind (node_operand npos v) (\<lambda>b. foreach_variable_to_relationship_with_code wk th b lc mn mx (push_rship_node th rs_src_node consume v)))))"

end
