(* ===== verification/Query_Analytics.thy ===== *)
theory Query_Analytics
  imports Graph_Dijkstra Query_Joins "HOL-Library.Char_ord" "HOL-Library.List_Lexorder"
begin

text \<open>
  The operators of the query engine that search for paths, \<^verbatim>\<open>src/src/query/plan_op/qop_analytics.cpp\<close>, and the search for \<open>k\<close> paths,
  \<open>k_weighted_shortest_path\<close> of \<^verbatim>\<open>src/src/analytics/shortest_path.cpp\<close>. It removes relationships of the graph, searches again and adds new
  relationships in their place. The path visitors of the operators do nothing. The operators for a graphics processor are not modelled.
\<close>

section \<open>The search for k paths\<close>

text \<open>A map of properties as the list of its entries in the order of the keys.\<close>

definition props_list :: "(string \<Rightarrow> any_val option) \<Rightarrow> properties_t" where
  "props_list m = map (\<lambda>k. (k, the (m k))) (sorted_list_of_set (dom m))"

text \<open>Deleting the relationships to \<open>des\<close> in a list; \<open>del_rships\<close> has the descriptions of those deleted so far.\<close>

definition cut_rship :: "nat \<Rightarrow> rship_body \<Rightarrow> rship_description list \<Rightarrow> ('q, rship_description list) gact" where
  "cut_rship th b del_rships =
     sbind (get_rship_description th (rs_id b)) (\<lambda>rd. sbind (delete_relationship th (rs_id b)) (\<lambda>_. sret (del_rships @ [rd])))"

fun cut_walk ::
  "nat \<Rightarrow> nat \<Rightarrow> xid_t \<Rightarrow> (rship_body \<Rightarrow> offset_t) \<Rightarrow> (rship_body \<Rightarrow> offset_t) \<Rightarrow> offset_t \<Rightarrow> offset_t \<Rightarrow> rship_description list \<Rightarrow> ('q, rship_description list) gact" where
  "cut_walk 0 th x nxt far des rid ds = (if rid = UNKNOWN then sret ds else sthrow Diverges)"
| "cut_walk (Suc n) th x nxt far des rid ds =
     (if rid = UNKNOWN then sret ds
      else
        sbind (get_rship rid) (\<lambda>r.
        sbind (if is_locked_by x (o_elem r) \<and> \<not> has_dirty_versions r then sthrow Assertion_failed
               else if (if is_locked_by x (o_elem r) then has_valid_version x r else is_valid_for x (o_elem r)) \<and> far (body (o_elem r)) = des
               then cut_rship th (body (o_elem r)) ds else sret ds) (\<lambda>ds'.
        sbind (get_rship rid) (\<lambda>r'. cut_walk n th x nxt far des (nxt (body (o_elem r'))) ds'))))"

text \<open>A path found before that begins with the root: its next relationship is deleted, with all parallel ones.\<close>

definition cut_common :: "nat \<Rightarrow> nat \<Rightarrow> bool \<Rightarrow> nat \<Rightarrow> offset_t list \<Rightarrow> path_item \<Rightarrow> rship_description list \<Rightarrow> ('q, rship_description list) gact" where
  "cut_common wk th bidirectional j root_path p ds =
     (let pp = pth_path p in
      if length pp < Suc j then sthrow Undefined_behaviour
      else if take (Suc j) pp \<noteq> root_path then sret ds
      else if length pp \<le> Suc j then sthrow Std_out_of_range
      else
        let src = pp ! j; des = pp ! Suc j in
        sbind (node_by_id th src) (\<lambda>q.
        sbind (current_xid th) (\<lambda>x.
        sbind (node_at src q) (\<lambda>e.
        sbind (cut_walk wk th x rs_next_src rs_dest_node des (nd_from_rships (body e)) ds) (\<lambda>ds1.
        if bidirectional
        then sbind (node_at src q) (\<lambda>e. cut_walk wk th x rs_next_dest rs_src_node des (nd_to_rships (body e)) ds1)
        else sret ds1)))))"

fun cut_all :: "nat \<Rightarrow> nat \<Rightarrow> bool \<Rightarrow> nat \<Rightarrow> offset_t list \<Rightarrow> path_item list \<Rightarrow> rship_description list \<Rightarrow> ('q, rship_description list) gact" where
  "cut_all wk th bidirectional j root_path [] ds = sret ds"
| "cut_all wk th bidirectional j root_path (p # ps) ds =
     sbind (cut_common wk th bidirectional j root_path p ds) (cut_all wk th bidirectional j root_path ps)"

definition restore_rship :: "conv \<Rightarrow> hash \<Rightarrow> nat \<Rightarrow> rship_description \<Rightarrow> ('q, unit) gact" where
  "restore_rship cv h th rd =
     sbind (add_relationship cv h th (rdesc_from rd) (rdesc_to rd) (rdesc_label rd) (props_list (rdesc_props rd)) True) (\<lambda>_. sret ())"

text \<open>A candidate is kept once; its weight is never set.\<close>

definition add_candidate :: "offset_t list \<Rightarrow> path_item list \<Rightarrow> path_item list" where
  "add_candidate p cands = (if p \<in> pth_path ` set cands then cands else cands @ [path_item_new\<lparr>pth_path := p\<rparr>])"

text \<open>The deviation at position \<open>j\<close> of the last path; \<open>None\<close> when there is no path from the spur node, and the search ends at once.\<close>

definition deviate ::
  "conv \<Rightarrow> hash \<Rightarrow> nat \<Rightarrow> nat \<Rightarrow> offset_t \<Rightarrow> bool \<Rightarrow> rship_predicate \<Rightarrow> rship_weight \<Rightarrow> path_item list \<Rightarrow> offset_t list \<Rightarrow> nat \<Rightarrow> path_item list \<Rightarrow>
   ('v, path_item list option) gact" where
  "deviate cv h wk th stop bidirectional rpred weight_func spaths prev j cands =
     (let spur = prev ! j; root_path = take (Suc j) prev in
      sbind (cut_all wk th bidirectional j root_path spaths []) (\<lambda>ds.
      sbind (w_spath_with_del_rship wk th spur stop bidirectional rpred weight_func path_item_new) (\<lambda>(found, sp).
      if \<not> found then sret None
      else if pth_path sp = [] then sthrow Undefined_behaviour
      else sbind (for_each (restore_rship cv h th) ds) (\<lambda>_. sret (Some (add_candidate (root_path @ tl (pth_path sp)) cands))))))"

fun deviations ::
  "conv \<Rightarrow> hash \<Rightarrow> nat \<Rightarrow> nat \<Rightarrow> offset_t \<Rightarrow> bool \<Rightarrow> rship_predicate \<Rightarrow> rship_weight \<Rightarrow> path_item list \<Rightarrow> offset_t list \<Rightarrow> nat list \<Rightarrow> path_item list \<Rightarrow>
   ('v, path_item list option) gact" where
  "deviations cv h wk th stop bidirectional rpred weight_func spaths prev [] cands = sret (Some cands)"
| "deviations cv h wk th stop bidirectional rpred weight_func spaths prev (j # js) cands =
     sbind (deviate cv h wk th stop bidirectional rpred weight_func spaths prev j cands) (\<lambda>r.
     case r of None \<Rightarrow> sret None | Some cands' \<Rightarrow> deviations cv h wk th stop bidirectional rpred weight_func spaths prev js cands')"

fun min_candidate :: "path_item list \<Rightarrow> nat \<Rightarrow> nat \<Rightarrow> real \<Rightarrow> nat" where
  "min_candidate [] idx min_idx min_weight = min_idx"
| "min_candidate (c # cs) idx min_idx min_weight =
     (if pth_weight c < min_weight then min_candidate cs (Suc idx) idx (pth_weight c) else min_candidate cs (Suc idx) min_idx min_weight)"

fun k_rounds ::
  "conv \<Rightarrow> hash \<Rightarrow> nat \<Rightarrow> nat \<Rightarrow> offset_t \<Rightarrow> bool \<Rightarrow> rship_predicate \<Rightarrow> rship_weight \<Rightarrow> nat \<Rightarrow> nat \<Rightarrow> path_item list \<Rightarrow> path_item list \<Rightarrow>
   ('v, bool \<times> path_item list) gact" where
  "k_rounds cv h wk th stop bidirectional rpred weight_func 0 i spaths cands = sret (True, spaths)"
| "k_rounds cv h wk th stop bidirectional rpred weight_func (Suc n) i spaths cands =
     sbind (srun (vec_get spaths (i - 1))) (\<lambda>prev_item.
     let prev = pth_path prev_item in
     sbind (deviations cv h wk th stop bidirectional rpred weight_func spaths prev [0..<length prev - 2] cands) (\<lambda>r.
     case r of
       None \<Rightarrow> sret (False, spaths)
     | Some cs \<Rightarrow>
         if cs = [] then sret (False, spaths)
         else
           let m = min_candidate cs 0 0 DBL_MAX in
           k_rounds cv h wk th stop bidirectional rpred weight_func n (Suc i) (spaths @ [cs ! m]) (take m cs @ drop (Suc m) cs)))"

definition k_weighted_shortest_path ::
  "conv \<Rightarrow> hash \<Rightarrow> nat \<Rightarrow> nat \<Rightarrow> offset_t \<Rightarrow> offset_t \<Rightarrow> nat \<Rightarrow> bool \<Rightarrow> rship_predicate \<Rightarrow> rship_weight \<Rightarrow> path_item list \<Rightarrow> ('v, bool \<times> path_item list) gact" where
  "k_weighted_shortest_path cv h wk th start stop k bidirectional rpred weight_func spaths =
     sbind (weighted_shortest_path wk th start stop bidirectional rpred weight_func path_item_new) (\<lambda>(found, sp).
     if \<not> found then sret (False, spaths)
     else k_rounds cv h wk th stop bidirectional rpred weight_func (k - 1) 1 (spaths @ [sp]) [])"

section \<open>Operators\<close>

definition no_visit :: "'v path_visitor" where
  "no_visit i r p = sret ()"

definition double_of_real :: "real \<Rightarrow> double" where
  "double_of_real w = Finite (w < 0) \<bar>w\<bar>"

definition path_array :: "path_item \<Rightarrow> query_result" where
  "path_array p = Q_array (map of_nat (pth_path p))"

definition path_weight :: "path_item \<Rightarrow> query_result" where
  "path_weight p = Q_double (double_of_real (pth_weight p))"

definition shortest_path_process :: "nat \<Rightarrow> nat \<Rightarrow> nat \<Rightarrow> nat \<times> nat \<Rightarrow> rship_predicate \<Rightarrow> bool \<Rightarrow> bool \<Rightarrow> 'v consume_func \<Rightarrow> 'v consume_func" where
  "shortest_path_process fuel wk th start_stop rpred bidirectional all_spaths consume v =
     sbind (node_id_at v (fst start_stop)) (\<lambda>start.
     sbind (node_id_at v (snd start_stop)) (\<lambda>stop.
     if all_spaths
     then sbind (all_unweighted_shortest_paths fuel wk th start stop bidirectional rpred no_visit []) (\<lambda>(_, spaths).
          for_each (\<lambda>p. consume (v @ [path_array p])) spaths)
     else sbind (unweighted_shortest_path fuel wk th start stop bidirectional rpred no_visit path_item_new) (\<lambda>(found, sp).
          if found then consume (v @ [path_array sp]) else sret ())))"

definition weighted_shortest_path_process ::
  "nat \<Rightarrow> nat \<Rightarrow> nat \<times> nat \<Rightarrow> rship_predicate \<Rightarrow> rship_weight \<Rightarrow> bool \<Rightarrow> bool \<Rightarrow> 'v consume_func \<Rightarrow> 'v consume_func" where
  "weighted_shortest_path_process wk th start_stop rpred rweight bidirectional all_spaths consume v =
     sbind (node_id_at v (fst start_stop)) (\<lambda>start.
     sbind (node_id_at v (snd start_stop)) (\<lambda>stop.
     if all_spaths
     then sbind (all_weighted_shortest_paths wk th start stop bidirectional rpred rweight []) (\<lambda>(_, spaths).
          for_each (\<lambda>p. consume (v @ [path_weight p])) spaths)
     else sbind (weighted_shortest_path wk th start stop bidirectional rpred rweight path_item_new) (\<lambda>(found, sp).
          if found then consume (v @ [path_weight sp]) else sret ())))"

definition k_weighted_shortest_path_process ::
  "conv \<Rightarrow> hash \<Rightarrow> nat \<Rightarrow> nat \<Rightarrow> nat \<times> nat \<Rightarrow> nat \<Rightarrow> rship_predicate \<Rightarrow> rship_weight \<Rightarrow> bool \<Rightarrow> 'v consume_func \<Rightarrow> 'v consume_func" where
  "k_weighted_shortest_path_process cv h wk th start_stop k rpred rweight bidirectional consume v =
     sbind (node_id_at v (fst start_stop)) (\<lambda>start.
     sbind (node_id_at v (snd start_stop)) (\<lambda>stop.
     sbind (k_weighted_shortest_path cv h wk th start stop k bidirectional rpred rweight []) (\<lambda>(_, spaths).
     for_each (\<lambda>p. consume (v @ [path_weight p])) spaths)))"

text \<open>The neighbours of a node with the weights of the relationships to them, appended to the tuple.\<close>

definition csr_collect :: "rship_weight \<Rightarrow> (rship_body \<Rightarrow> offset_t) \<Rightarrow> ((offset_t \<times> real) list \<times> 'v) rship_consumer" where
  "csr_collect weight_func far i q = sbind (rship_at i q) (\<lambda>e. upd_local (\<lambda>s. s @ [(far (body e), weight_func e)]))"

definition csr_tuple :: "offset_t \<Rightarrow> (offset_t \<times> real) list \<Rightarrow> qr_tuple" where
  "csr_tuple nid s = Q_uint64 (of_nat nid) # Q_int (int (length s)) # concat (map (\<lambda>(n, w). [Q_uint64 (of_nat n), Q_double (double_of_real w)]) s)"

definition csr_data_process :: "nat \<Rightarrow> nat \<Rightarrow> rship_weight \<Rightarrow> bool \<Rightarrow> nat \<Rightarrow> 'v consume_func \<Rightarrow> 'v consume_func" where
  "csr_data_process wk th weight_func bidirectional pos consume v =
     sbind (srun (rbind (rbind (if pos = NPOS_MAX then tup_back v else tup_at v pos) qv_get_node) deref)) (\<lambda>(i, r).
     sbind (with_local [] (
       sbind (both_relationships wk th i r bidirectional (csr_collect weight_func rs_dest_node) (csr_collect weight_func rs_src_node)) (\<lambda>_. get_local))) (\<lambda>s.
     sbind (node_at i r) (\<lambda>e. consume (v @ csr_tuple (nd_id (body e)) s))))"

section \<open>Algorithms called by name\<close>

text \<open>
  \<^verbatim>\<open>algorithms.cpp\<close> and \<^verbatim>\<open>qop_algorithm.cpp\<close>: functions from a tuple to a list of tuples. The weighted search is left out, since its weights read the store.
  Counters of type \<open>int\<close> are unbounded here.
\<close>

type_synonym 'v tuple_algorithm = "qr_tuple \<Rightarrow> any_val list \<Rightarrow> ('v, qr_tuple list) gact"
type_synonym 'v set_algorithm = "qr_tuple list \<Rightarrow> any_val list \<Rightarrow> ('v, qr_tuple list) gact"

definition arg_string :: "any_val list \<Rightarrow> nat \<Rightarrow> string result" where
  "arg_string args n = rbind (vec_get args n) (\<lambda>a. case a of Any_string s \<Rightarrow> Inr s | _ \<Rightarrow> Inl Bad_any_cast)"

definition arg_flag :: "any_val list \<Rightarrow> nat \<Rightarrow> bool result" where
  "arg_flag args n = (if n < length args then (case args ! n of Any_int i \<Rightarrow> Inr (i = 1) | _ \<Rightarrow> Inl Bad_any_cast) else Inr False)"

definition shortest_path_algorithm :: "nat \<Rightarrow> nat \<Rightarrow> hash \<Rightarrow> nat \<Rightarrow> 'v tuple_algorithm" where
  "shortest_path_algorithm fuel wk h th v args =
     (if length v < 2 then sret []
      else
        sbind (node_id_at v (length v - 2)) (\<lambda>start.
        sbind (node_id_at v (length v - 1)) (\<lambda>stop.
        sbind (srun (arg_string args 0)) (\<lambda>label.
        sbind (get_code h label) (\<lambda>lc.
        sbind (srun (arg_flag args 1)) (\<lambda>bidirectional.
        sbind (srun (arg_flag args 2)) (\<lambda>all_spaths.
        let rpred = (\<lambda>e. rs_label (body e) = lc) in
        if all_spaths
        then sbind (all_unweighted_shortest_paths fuel wk th start stop bidirectional rpred no_visit []) (\<lambda>(_, spaths). sret (map (\<lambda>p. [path_array p]) spaths))
        else sbind (unweighted_shortest_path fuel wk th start stop bidirectional rpred no_visit path_item_new) (\<lambda>(found, sp).
             sret (if found then [[path_array sp]] else [])))))))))"

definition num_links :: "nat \<Rightarrow> nat \<Rightarrow> 'v tuple_algorithm" where
  "num_links wk th v args =
     sbind (srun (rbind (rbind (tup_back v) qv_get_node) deref)) (\<lambda>(i, r).
     sbind (with_local (0, 0) (
       sbind (both_relationships wk th i r True (\<lambda>_ _. upd_local (\<lambda>(n_in, n_out). (n_in, n_out + 1))) (\<lambda>_ _. upd_local (\<lambda>(n_in, n_out). (n_in + 1, n_out)))) (\<lambda>_.
       get_local))) (\<lambda>(n_in, n_out).
     sret [[Q_int n_in, Q_int n_out]]))"

definition tweet_consumer :: "nat \<Rightarrow> dcode_t \<Rightarrow> dcode_t \<Rightarrow> ((string \<times> (offset_t \<times> vref) option) \<times> 'v) rship_consumer" where
  "tweet_consumer th tweet_label creation_label i q =
     sbind (rship_at i q) (\<lambda>e. let t = rs_src_node (body e) in
     sbind (node_by_id th t) (\<lambda>r.
     sbind (node_at t r) (\<lambda>tw.
     if nd_label (body tw) \<noteq> tweet_label then sret ()
     else
       sbind (get_node_property_value (body tw) creation_label) (\<lambda>pval.
       sbind (srun (pi_get_dcode pval)) (\<lambda>c.
       sbind (slift (\<lambda>g. dict_lookup_code c (g_dict g))) (\<lambda>date.
       upd_local (\<lambda>(oldest, tweet). if date < oldest then (date, Some (t, r)) else (oldest, tweet))))))))"

definition oldest_tweet :: "nat \<Rightarrow> hash \<Rightarrow> nat \<Rightarrow> 'v tuple_algorithm" where
  "oldest_tweet wk h th v args =
     sbind (srun (rbind (rbind (tup_back v) qv_get_node) deref)) (\<lambda>(i, r).
     sbind (get_code h ''Tweet'') (\<lambda>tl.
     sbind (get_code h ''created_at'') (\<lambda>cl.
     sbind (with_local (''ZZZZZZZZZZZZ'', None) (
       sbind (node_at i r) (\<lambda>e.
       sbind (foreach_to_relationship_of_node wk th (body e) (tweet_consumer th tl cl)) (\<lambda>_. get_local)))) (\<lambda>(_, tweet).
     sret (case tweet of None \<Rightarrow> [] | Some t \<Rightarrow> [[Q_node (Some t)]])))))"

text \<open>The registered algorithms; the weighted search is a parameter.\<close>

definition tuple_algorithms :: "nat \<Rightarrow> nat \<Rightarrow> hash \<Rightarrow> nat \<Rightarrow> 'v tuple_algorithm \<Rightarrow> string \<Rightarrow> 'v tuple_algorithm option" where
  "tuple_algorithms fuel wk h th weighted =
     [''OldestTweet'' \<mapsto> oldest_tweet wk h th, ''NumLinks'' \<mapsto> num_links wk th, ''ShortestPath'' \<mapsto> shortest_path_algorithm fuel wk h th,
      ''WeightedShortestPath'' \<mapsto> weighted]"

text \<open>The operator has a function for the mode it is called in, if the name is registered for this mode.\<close>

record 'v algorithm_op =
  al_set :: bool
  al_args :: "any_val list"
  al_tuple_func :: "'v tuple_algorithm option"
  al_set_func :: "'v set_algorithm option"

definition algorithm_op_new :: "(string \<Rightarrow> 'v tuple_algorithm option) \<Rightarrow> (string \<Rightarrow> 'v set_algorithm option) \<Rightarrow> string \<Rightarrow> bool \<Rightarrow> any_val list \<Rightarrow> 'v algorithm_op" where
  "algorithm_op_new tuple_algs set_algs name m_set args =
     \<lparr>al_set = m_set, al_args = args, al_tuple_func = (if m_set then None else tuple_algs name), al_set_func = (if m_set then set_algs name else None)\<rparr>"

definition algorithm_process :: "'v algorithm_op \<Rightarrow> 'v consume_func \<Rightarrow> (qr_tuple list \<times> 'v) consume_func" where
  "algorithm_process a consume v =
     (if al_tuple_func a = None \<and> al_set_func a = None then sthrow Assertion_failed
      else if al_set a then upd_local (\<lambda>input. input @ [v])
      else case al_tuple_func a of
        None \<Rightarrow> sthrow Bad_function_call
      | Some f \<Rightarrow> sbind (outer (f v (al_args a))) (\<lambda>res. for_each (\<lambda>tup. outer (consume (v @ tup))) res))"

definition algorithm_finish :: "'v algorithm_op \<Rightarrow> 'v consume_func \<Rightarrow> ('v, unit) gact \<Rightarrow> (qr_tuple list \<times> 'v, unit) gact" where
  "algorithm_finish a consume fin =
     sbind (if al_set a then
              (case al_set_func a of
                 None \<Rightarrow> sthrow Bad_function_call
               | Some f \<Rightarrow> sbind get_local (\<lambda>input. sbind (outer (f input (al_args a))) (\<lambda>res. for_each (\<lambda>tup. outer (consume tup)) res)))
            else sret ()) (\<lambda>_. outer fin)"

section \<open>Properties\<close>

text \<open>The candidates of the search for \<open>k\<close> paths have the weight of a new item.\<close>

abbreviation weightless :: "path_item list \<Rightarrow> bool" where
  "weightless ps \<equiv> list_all (\<lambda>p. pth_weight p = 0) ps"

lemma deviations_weightless:
  "deviations cv h wk th stop bi rpred rw spaths prev js cands g = (Inr (Some cs), g') \<Longrightarrow> weightless cands \<Longrightarrow> weightless cs"
proof (induction js arbitrary: cands g)
  case (Cons j js)
  from Cons.prems(1) obtain r g1 where d: "deviate cv h wk th stop bi rpred rw spaths prev j cands g = (Inr r, g1)"
    "(case r of None \<Rightarrow> sret None | Some cs' \<Rightarrow> deviations cv h wk th stop bi rpred rw spaths prev js cs') g1 = (Inr (Some cs), g')"
    by (auto simp: sbind_def split: prod.splits sum.splits)
  then obtain cands' where r: "r = Some cands'" by (cases r) auto
  have "weightless cands'" using d(1) r Cons.prems(2)
    by (auto simp: deviate_def Let_def sbind_def add_candidate_def path_item_new_def split: prod.splits sum.splits if_splits)
  then show ?case using Cons.IH [of cands' g1] d(2) r by simp
qed simp

lemma k_rounds_weightless:
  "k_rounds cv h wk th stop bi rpred rw n i (p # ps) cands g = (Inr (b, sps), g') \<Longrightarrow> weightless ps \<Longrightarrow> weightless cands \<Longrightarrow>
   \<exists>qs. sps = p # qs \<and> weightless qs"
proof (induction n arbitrary: i ps cands g)
  case (Suc n)
  from Suc.prems(1) obtain prev r g1 where d: "deviations cv h wk th stop bi rpred rw (p # ps) prev [0..<length prev - 2] cands g = (Inr r, g1)"
    "(case r of None \<Rightarrow> sret (False, p # ps)
     | Some cs \<Rightarrow> if cs = [] then sret (False, p # ps) else let m = min_candidate cs 0 0 DBL_MAX in
         k_rounds cv h wk th stop bi rpred rw n (Suc i) ((p # ps) @ [cs ! m]) (take m cs @ drop (Suc m) cs)) g1 = (Inr (b, sps), g')"
    by (auto simp: sbind_def srun_def Let_def split: prod.splits sum.splits)
  show ?case
  proof (cases "r = None \<or> r = Some []")
    case True
    then show ?thesis using d(2) Suc.prems(2) by auto
  next
    case False
    then obtain cs where cs: "r = Some cs" "cs \<noteq> []" by auto
    have z: "weightless cs" using deviations_weightless [of cv h wk th stop bi rpred rw "p # ps" prev] d(1) cs(1) Suc.prems(3) by blast
    have "min_candidate cs k m w < length cs + k \<or> min_candidate cs k m w = m" for k m w by (induction cs k m w rule: min_candidate.induct) auto
    then have m: "min_candidate cs 0 0 DBL_MAX < length cs" using cs(2) by (metis add_0_right length_greater_0_conv)
    let ?m = "min_candidate cs 0 0 DBL_MAX"
    have "weightless (ps @ [cs ! ?m])" "weightless (take ?m cs @ drop (Suc ?m) cs)"
      using z m Suc.prems(2) by (auto simp: list_all_iff dest: in_set_takeD in_set_dropD)
    moreover have "k_rounds cv h wk th stop bi rpred rw n (Suc i) (p # (ps @ [cs ! ?m])) (take ?m cs @ drop (Suc ?m) cs) g1 = (Inr (b, sps), g')"
      using d(2) cs by (simp add: Let_def)
    ultimately show ?thesis using Suc.IH by blast
  qed
qed auto

text \<open>
  The search for \<open>k\<close> paths reports the weight of the first path only: all further paths it returns have the weight zero, which is also what the choice of the
  next path compares.
\<close>

theorem k_paths_weight_zero:
  "case k_weighted_shortest_path cv h wk th start stop k bi rpred rw [] g of (Inr (b, sps), g') \<Rightarrow> list_all (\<lambda>p. pth_weight p = 0) (tl sps) | _ \<Rightarrow> True"
proof -
  have "weightless (tl sps)" if k: "k_weighted_shortest_path cv h wk th start stop k bi rpred rw [] g = (Inr (b, sps), g')" for b sps g'
  proof -
    from k obtain found sp g1 where w: "(if \<not> found then sret (False, []) else k_rounds cv h wk th stop bi rpred rw (k - 1) 1 ([] @ [sp]) []) g1 = (Inr (b, sps), g')"
      by (auto simp: k_weighted_shortest_path_def sbind_def split: prod.splits sum.splits)
    then show ?thesis using k_rounds_weightless [of cv h wk th stop bi rpred rw "k - 1" 1 sp "[]" "[]" g1] by (auto split: if_splits)
  qed
  then show ?thesis by (auto split: prod.split sum.split)
qed

text \<open>
  The shortest path operator: for a tuple with two nodes it searches a path with the fewest relationships between them and passes on the tuple with
  the identifiers of the nodes of the path, exactly when there is a path to another node; otherwise it passes on nothing.
\<close>

theorem shortest_path_operator:
  assumes "node_id_at v p g = (Inr start, g)" "node_id_at v q g = (Inr stop, g)"
    and "g_current g th = Some tx" "Graph_Reach.snapshot (xid tx) wk rpred bi g V adj" "finite V" "start \<in> V" "V \<subseteq> {..<capacity (g_nodes g)}"
    and "capacity (g_nodes g) < 2 ^ 64" "card V \<le> fuel"
  shows "\<exists>g' found sp. same_db (xid tx) th g g' \<and> shortest_result adj start stop path_item_new (found, sp) \<and>
    shortest_path_process fuel wk th (p, q) rpred bi False consume v g = (if found then consume (v @ [Q_array (map of_nat (pth_path sp))]) g' else (Inr (), g'))"
proof -
  have "\<exists>g'. no_visit i r p g = (Inr (), g') \<and> same_db (xid tx) th g g'" for i r p and g :: "'a graph_db_scheme" by (simp add: no_visit_def)
  from unweighted_path_run [where visit = no_visit and stop = stop and sp = path_item_new, OF this assms(3-9)] obtain g' found sp where
    "unweighted_shortest_path fuel wk th start stop bi rpred no_visit path_item_new g = (Inr (found, sp), g')" "same_db (xid tx) th g g'"
    "shortest_result adj start stop path_item_new (found, sp)" by auto
  then show ?thesis using assms(1,2)
    by (intro exI [of _ g'] exI [of _ found] exI [of _ sp]) (simp add: shortest_path_process_def sbind_def path_array_def)
qed

text \<open>
  The weighted shortest path operator passes on the tuple with the least weight of a path between the two nodes, rounded as \<open>double\<close>
  arithmetic rounds, when there is one, and nothing otherwise.
\<close>

theorem weighted_path_operator:
  assumes "node_id_at v p g = (Inr start, g)" "node_id_at v q g = (Inr stop, g)"
    and "g_current g th = Some tx" "wsnapshot (xid tx) wk rpred weight_func bi g V adj" "start \<in> V" "V \<subseteq> {..<capacity (g_nodes g)}"
    and "capacity (g_nodes g) \<le> UNKNOWN" "stop < capacity (g_nodes g)" "\<forall>u. \<forall>(v, w)\<in>set (adj u). 0 \<le> w"
  shows "\<exists>g' found sp. same_db (xid tx) th g g' \<and> lightest_result rnd64 adj start stop path_item_new (found, sp) \<and>
    weighted_shortest_path_process wk th (p, q) rpred weight_func bi False consume v g =
      (if found then consume (v @ [Q_double (double_of_real (pth_weight sp))]) g' else (Inr (), g'))"
proof -
  from weighted_path_run [OF assms(3-9), where sp = path_item_new] obtain g' found sp where
    "weighted_shortest_path wk th start stop bi rpred weight_func path_item_new g = (Inr (found, sp), g')" "same_db (xid tx) th g g'"
    "lightest_result rnd64 adj start stop path_item_new (found, sp)" by auto
  then show ?thesis using assms(1,2)
    by (intro exI [of _ g'] exI [of _ found] exI [of _ sp]) (simp add: weighted_shortest_path_process_def sbind_def path_weight_def)
qed

lemma fold_collect: "fold (\<lambda>e (s, m). (s @ [f e], m)) xs (s, m) = (s @ map f xs, m)"
  by (induction xs arbitrary: s) simp_all

text \<open>
  The operator for the neighbours of a node passes on the tuple with the identifier of the node, the number of its visible relationships, and for each of
  them the node at the other end and the weight, first the outgoing and then, if wanted, the incoming ones, in the order of the lists.
\<close>

theorem csr_data_neighbours:
  assumes "(if pos = NPOS_MAX then tup_back v else tup_at v pos) = Inr (Q_node (Some (i, r)))"
    and "links_via (xid tx) wk g i r es fs" "g_current g th = Some tx"
  shows "\<exists>g' d. same_db (xid tx) th g g' \<and> node_at i r g' = (Inr d, g') \<and>
    csr_data_process wk th weight_func bi pos consume v g =
      consume (v @ csr_tuple (nd_id (body d)) (map (\<lambda>e. (rs_dest_node (body e), weight_func e)) es @
        (if bi then map (\<lambda>e. (rs_src_node (body e), weight_func e)) fs else []))) g'"
proof -
  let ?g = "with_more ([], graph_db.more g) g"
  let ?f = "\<lambda>far e (s, m). (s @ [(far (body e), weight_func e)], m)"
  have l: "links_via (xid tx) wk ?g i r es fs" using assms(2) by (simp add: links_via_def lists_at_def)
  have step: "csr_collect weight_func far j q h = (Inr (), with_more (?f far e (graph_db.more h)) h)" if "rship_at j q h = (Inr e, h)" for far j q e and h :: "((offset_t \<times> real) list \<times> 'a) graph_db_scheme"
    using that by (simp add: csr_collect_def sbind_def upd_local_def map_prod_def split_beta)
  obtain g1 where g1: "both_relationships wk th i r bi (csr_collect weight_func rs_dest_node) (csr_collect weight_func rs_src_node) ?g = (Inr (), g1)"
    "same_db (xid tx) th ?g g1" "graph_db.more g1 = (if bi then fold (?f rs_src_node) fs (fold (?f rs_dest_node) es ([], graph_db.more g)) else fold (?f rs_dest_node) es ([], graph_db.more g))"
    using both_run [OF l, where c = "csr_collect weight_func rs_dest_node" and c' = "csr_collect weight_func rs_src_node" and f = "?f rs_dest_node" and f' = "?f rs_src_node"
        and P = "\<lambda>_. True" and bi = bi and th = th and tx = tx] assms(3) step by auto
  define g' where "g' = with_more (graph_db.more g) g1"
  have s: "same_db (xid tx) th g g'" using g1(2) by (simp add: g'_def same_db_def)
  from links_via_at [OF links_via_same [OF assms(2) s]] obtain d where d: "node_at i r g' = (Inr d, g')" by metis
  define L where "L = map (\<lambda>e. (rs_dest_node (body e), weight_func e)) es @ (if bi then map (\<lambda>e. (rs_src_node (body e), weight_func e)) fs else [])"
  have m: "graph_db.more g1 = (L, graph_db.more g)" using g1(3) by (cases bi) (simp_all add: L_def fold_collect)
  have "csr_data_process wk th weight_func bi pos consume v g = consume (v @ csr_tuple (nd_id (body d)) L) g'"
    using d g1(1) m assms(1) by (simp add: csr_data_process_def sbind_def with_local_def get_local_def slift_def Query_Ops.deref_def g'_def)
  then show ?thesis using s d unfolding L_def by blast
qed

lemma fold_count:
  "fold (\<lambda>_. map_prod (\<lambda>(a, b). (a, b + 1)) id) xs ((a, b), m) = ((a, b + int (length xs)), m)"
  "fold (\<lambda>_. map_prod (\<lambda>(a, b). (a + 1, b)) id) xs ((a, b), m) = ((a + int (length xs), b), m)"
  by (induction xs arbitrary: a b) simp_all

text \<open>
  The algorithm that counts the relationships of a node gives the numbers of its visible incoming and outgoing relationships.
\<close>

theorem num_links_counts:
  assumes "tup_back v = Inr (Q_node (Some (i, r)))" "links_via (xid tx) wk g i r es fs" "g_current g th = Some tx"
  shows "\<exists>g'. same_db (xid tx) th g g' \<and> num_links wk th v args g = (Inr [[Q_int (int (length fs)), Q_int (int (length es))]], g')"
proof -
  let ?g = "with_more ((0, 0), graph_db.more g) g"
  let ?out = "\<lambda>_ :: rship_body elem. map_prod (\<lambda>(n_in, n_out). (n_in, n_out + 1)) id"
  let ?in = "\<lambda>_ :: rship_body elem. map_prod (\<lambda>(n_in, n_out). (n_in + 1, n_out)) id"
  have l: "links_via (xid tx) wk ?g i r es fs" using assms(2) by (simp add: links_via_def lists_at_def)
  obtain g1 where g1: "both_relationships wk th i r True (\<lambda>_ _. upd_local (\<lambda>(n_in, n_out). (n_in, n_out + 1))) (\<lambda>_ _. upd_local (\<lambda>(n_in, n_out). (n_in + 1, n_out))) ?g = (Inr (), g1)"
    "same_db (xid tx) th ?g g1" "graph_db.more g1 = fold ?in fs (fold ?out es ((0 :: int, 0 :: int), graph_db.more g))"
    using both_run [OF l, where c = "\<lambda>_ _. upd_local (\<lambda>(n_in, n_out). (n_in, n_out + 1))" and c' = "\<lambda>_ _. upd_local (\<lambda>(n_in, n_out). (n_in + 1, n_out))"
        and f = ?out and f' = ?in and P = "\<lambda>_. True" and bi = True and th = th and tx = tx] assms(3) by (auto simp: upd_local_def)
  have m: "graph_db.more g1 = ((int (length fs), int (length es)), graph_db.more g)" using g1(3) by (simp add: fold_count)
  define g' where "g' = with_more (graph_db.more g) g1"
  have "same_db (xid tx) th g g'" using g1(2) by (simp add: g'_def same_db_def)
  moreover have "num_links wk th v args g = (Inr [[Q_int (int (length fs)), Q_int (int (length es))]], g')"
    using g1(1) m assms(1) by (simp add: num_links_def sbind_def with_local_def get_local_def slift_def Query_Ops.deref_def g'_def)
  ultimately show ?thesis by blast
qed

section \<open>Witnesses\<close>

definition pair_tuple :: qr_tuple where
  "pair_tuple = [Q_node (Some (0, Main)), Q_node (Some (1, Main))]"

lemma pair_tuple_ids: "node_id_at pair_tuple 0 pair_demo = (Inr 0, pair_demo)" "node_id_at pair_tuple 1 pair_demo = (Inr 1, pair_demo)"
proof -
  have "node_at 0 Main pair_demo = (Inr (o_elem (pair_node 0 0 UNKNOWN)), pair_demo)" "node_at 1 Main pair_demo = (Inr (o_elem (pair_node 1 UNKNOWN 0)), pair_demo)"
    using node_at_run [of pair_demo 0 "pair_node 0 0 UNKNOWN" Main] node_at_run [of pair_demo 1 "pair_node 1 UNKNOWN 0" Main] pair_holds(1,2)
    by (simp_all add: pair_demo_def)
  then show "node_id_at pair_tuple 0 pair_demo = (Inr 0, pair_demo)" "node_id_at pair_tuple 1 pair_demo = (Inr 1, pair_demo)"
    by (simp_all add: node_id_at_def pair_tuple_def sbind_def tup_at_def Query_Ops.deref_def pair_node_def)
qed

theorem k_paths_weight_zero_witness:
  "\<exists>b sps g'. k_weighted_shortest_path conv_demo length 1 1 0 1 1 False (\<lambda>_. True) (\<lambda>_. 2) [] pair_demo = (Inr (b, sps), g') \<and> list_all (\<lambda>p. pth_weight p = 0) (tl sps)"
proof -
  from weighted_path_run [where tx = "transaction_new 5" and V = "{0, 1}" and adj = "\<lambda>u. if u = 0 then [(1, 2)] else []" and g = pair_demo,
      of 1 1 "\<lambda>_. True" "\<lambda>_. 2" False 0 1 path_item_new]
  obtain found sp g' where "weighted_shortest_path 1 1 0 1 False (\<lambda>_. True) (\<lambda>_. 2) path_item_new pair_demo = (Inr (found, sp), g')"
    using pair_demo_sel pair_wsnapshot by (auto simp: UNKNOWN_def)
  then obtain b sps where "k_weighted_shortest_path conv_demo length 1 1 0 1 1 False (\<lambda>_. True) (\<lambda>_. 2) [] pair_demo = (Inr (b, sps), g')"
    by (cases found) (auto simp: k_weighted_shortest_path_def sbind_def)
  with k_paths_weight_zero [of conv_demo length 1 1 0 1 1 False "\<lambda>_. True" "\<lambda>_. 2" pair_demo] show ?thesis by auto
qed

theorem shortest_path_operator_witness:
  "\<exists>g' found sp. shortest_result pair_adj 0 1 path_item_new (found, sp) \<and>
    shortest_path_process 2 1 1 (0, 1) (\<lambda>_. True) False False (\<lambda>_. sret ()) pair_tuple pair_demo = (Inr (), g')"
proof -
  from shortest_path_operator [where tx = "transaction_new 5" and V = "{0, 1}" and adj = pair_adj and fuel = 2 and consume = "\<lambda>_. sret ()", OF pair_tuple_ids, of 1 1 "\<lambda>_. True" False]
  show ?thesis using pair_demo_sel pair_demo_snapshot by (auto split: if_splits)
qed

theorem weighted_path_operator_witness:
  "\<exists>g' found sp. lightest_result rnd64 (\<lambda>u. if u = 0 then [(1, 2)] else []) 0 1 path_item_new (found, sp) \<and>
    weighted_shortest_path_process 1 1 (0, 1) (\<lambda>_. True) (\<lambda>_. 2) False False (\<lambda>_. sret ()) pair_tuple pair_demo = (Inr (), g')"
proof -
  from weighted_path_operator [where tx = "transaction_new 5" and V = "{0, 1}" and adj = "\<lambda>u. if u = 0 then [(1, 2)] else []" and consume = "\<lambda>_. sret ()",
      OF pair_tuple_ids, of 1 1 "\<lambda>_. True" "\<lambda>_. 2" False]
  show ?thesis using pair_demo_sel pair_wsnapshot by (auto simp: UNKNOWN_def split: if_splits)
qed

lemma pair_links_via: "links_via 5 1 (with_more ([] :: qr_tuple) pair_demo) 0 Main [o_elem pair_rship] []"
proof -
  have "lists_at 5 1 (with_more ([] :: qr_tuple) pair_demo) (body (o_elem (pair_node 0 0 UNKNOWN))) [o_elem pair_rship] []"
    unfolding lists_at_def by (rule exI [of _ "[(0, Main, o_elem pair_rship)]"], rule exI [of _ "[]"])
      (use pair_chain in \<open>simp_all add: pair_demo_def pair_read\<close>)
  then show ?thesis
    unfolding links_via_def using pair_holds(1) by (intro exI [of _ "pair_node 0 0 UNKNOWN"] exI [of _ "o_elem (pair_node 0 0 UNKNOWN)"]) (simp add: pair_demo_def pair_read)
qed

theorem csr_data_neighbours_witness:
  "\<exists>(g' :: qr_tuple graph_db_scheme) d. node_at 0 Main g' = (Inr d, g') \<and> csr_data_process 1 1 (\<lambda>_. 2) True 0 (\<lambda>t g. (Inr (), with_more t g)) pair_tuple (with_more [] pair_demo) =
     (Inr (), with_more (pair_tuple @ csr_tuple (nd_id (body d)) [(1, 2)]) g')"
proof -
  from pair_links_via csr_data_neighbours [where tx = "transaction_new 5" and g = "with_more [] pair_demo" and v = pair_tuple and pos = 0 and i = 0 and r = Main and es = "[o_elem pair_rship]" and fs = "[]",
      where wk = 1 and th = 1 and weight_func = "\<lambda>_. 2" and bi = True and consume = "\<lambda>t g. (Inr (), with_more t g)"]
  show ?thesis using pair_demo_sel by (auto simp: pair_tuple_def tup_at_def NPOS_MAX_def)
qed

theorem num_links_counts_witness:
  "\<exists>g'. num_links 1 1 [Q_node (Some (0, Main))] [] (with_more ([] :: qr_tuple) pair_demo) = (Inr [[Q_int 0, Q_int 1]], g')"
proof -
  from pair_links_via num_links_counts [where tx = "transaction_new 5" and g = "with_more ([] :: qr_tuple) pair_demo" and v = "[Q_node (Some (0, Main))]" and i = 0 and r = Main
      and es = "[o_elem pair_rship]" and fs = "[]" and wk = 1 and th = 1 and args = "[]"]
  show ?thesis using pair_demo_sel by (auto simp: tup_back_def)
qed

end
