(* ===== verification/Query_Eval.thy ===== *)
theory Query_Eval
  imports Query_Expr Graph_Reach
begin

text \<open>
  Correctness of the interpreter of expressions and of the replacement of calls with constant arguments.
\<close>

section \<open>Values of expressions\<close>

text \<open>
  The value of an expression, without a stack; \<open>Unknown_property\<close> marks an expression without a value: a variable whose node has no such
  property, a parameter that was not replaced, a call with more than two parameters.
\<close>

fun val :: "qlib \<Rightarrow> qr_tuple \<Rightarrow> 'q expr \<Rightarrow> ('q, query_result) gact" and
    vals :: "qlib \<Rightarrow> qr_tuple \<Rightarrow> 'q expr list \<Rightarrow> ('q, query_result list) gact" where
  "val l tup (Number_int i) = sret (Q_int i)"
| "val l tup (Number_uint64 u) = sret (Q_uint64 u)"
| "val l tup (Number_double d) = sret (Q_double d)"
| "val l tup (Variable i pname pcode ty) = sbind (var_value tup i pname pcode ty) (\<lambda>o'. case o' of Some v \<Rightarrow> sret v | None \<Rightarrow> sthrow Unknown_property)"
| "val l tup (String_literal s) = sret (Q_string s)"
| "val l tup (Time_literal t) = sret (Q_ptime t)"
| "val l tup (Qparam_token s) = sthrow Unknown_property"
| "val l tup (Func_call pfx fn ps f1 f2 det) = sbind (vals l tup ps) (\<lambda>vs.
     case vs of [] \<Rightarrow> (case f1 of Some f \<Rightarrow> f qv_default | None \<Rightarrow> sthrow Assertion_failed)
     | [v] \<Rightarrow> (case f1 of Some f \<Rightarrow> f v | None \<Rightarrow> sthrow Assertion_failed)
     | [v, w] \<Rightarrow> (case f2 of Some f \<Rightarrow> f v w | None \<Rightarrow> sthrow Assertion_failed)
     | _ \<Rightarrow> sthrow Unknown_property)"
| "val l tup (Predicate p a b) = sbind (val l tup a) (\<lambda>v. sbind (val l tup b) (\<lambda>w. sbind (srun (pred_apply l p v w)) (\<lambda>r. sret (qbool r))))"
| "val l tup (Regex_predicate a b re) = sbind (val l tup a) (\<lambda>v. sbind (srun (qv_get_string v)) (\<lambda>t. sret (qbool (ql_regex l re t))))"
| "val l tup (Math_expression op a b) = sbind (val l tup a) (\<lambda>v. sbind (val l tup b) (\<lambda>w. srun (math_apply op v w)))"
| "val l tup Null_expr = sthrow Undefined_behaviour"
| "vals l tup [] = sret []"
| "vals l tup (p # ps) = sbind (val l tup p) (\<lambda>v. sbind (vals l tup ps) (\<lambda>vs. sret (v # vs)))"

text \<open>Running \<open>act\<close> and putting its result, transformed by \<open>f\<close>, in place of a value; nothing is said if the expression has no value.\<close>

definition agrees :: "('q, 'a) gact \<Rightarrow> ('q, 'b) gact \<Rightarrow> ('a \<Rightarrow> 'b) \<Rightarrow> bool" where
  "agrees m n f \<longleftrightarrow> (\<forall>g. fst (m g) \<noteq> Inl Unknown_property \<longrightarrow> n g = map_prod (map_sum id f) id (m g))"

lemma agrees_sret [simp]: "agrees (sret x) (sret y) f \<longleftrightarrow> y = f x"
  by (simp add: agrees_def sret_def)

lemma agrees_throw [simp]: "agrees (sthrow e) n f \<longleftrightarrow> e = Unknown_property \<or> n = sthrow e"
  by (auto simp: agrees_def sthrow_def)

lemma agrees_bind_val:
  assumes "agrees m n f" "\<And>x g g'. m g = (Inr x, g') \<Longrightarrow> agrees (k x) (k' (f x)) h"
  shows "agrees (sbind m k) (sbind n k') h"
  unfolding agrees_def
proof (intro allI impI)
  fix g assume u: "fst (sbind m k g) \<noteq> Inl Unknown_property"
  obtain r g1 where m: "m g = (r, g1)" by (cases "m g")
  then have n: "n g = (map_sum id f r, g1)" using assms(1) u by (cases r) (auto simp: agrees_def sbind_def)
  then show "sbind n k' g = map_prod (map_sum id h) id (sbind m k g)"
    using assms(2) [of g _ g1] u m by (cases r) (auto simp: agrees_def sbind_def)
qed

lemma agrees_bind: "agrees m n f \<Longrightarrow> (\<And>x. agrees (k x) (k' (f x)) h) \<Longrightarrow> agrees (sbind m k) (sbind n k') h"
  by (rule agrees_bind_val)

lemma agrees_id: "agrees m m id"
  by (simp add: agrees_def sum.map_id0 prod.map_id0)

lemma sret_bind [simp]: "sbind (sret x) k = k x"
  by (rule ext) (simp add: sbind_def sret_def)

lemma agrees_refl: "agrees m (sbind m (\<lambda>x. sret (f x))) f"
  unfolding agrees_def by (auto simp: sbind_def sret_def split: prod.split sum.split)

lemma agrees_srun: "r' = map_sum id f r \<Longrightarrow> agrees (srun r) (srun r') f"
  by (simp add: agrees_def srun_def)

lemma list_of_three_cases:
  obtains "xs = []" | v where "xs = [v]" | v w where "xs = [v, w]" | v w u us where "xs = v # w # u # us"
  by (metis list.exhaust)

lemma vals_length: "vals l tup ps g = (Inr vs, g') \<Longrightarrow> length vs = length ps"
  by (induction ps arbitrary: vs g) (auto simp: sbind_def sret_def split: prod.splits sum.splits)

lemma call_agrees:
  assumes "length vs = n"
  shows "agrees (case vs of [] \<Rightarrow> (case f1 of Some f \<Rightarrow> f qv_default | None \<Rightarrow> sthrow Assertion_failed)
     | [v] \<Rightarrow> (case f1 of Some f \<Rightarrow> f v | None \<Rightarrow> sthrow Assertion_failed)
     | [v, w] \<Rightarrow> (case f2 of Some f \<Rightarrow> f v w | None \<Rightarrow> sthrow Assertion_failed)
     | _ \<Rightarrow> sthrow Unknown_property) (call_func n f1 f2 (rev vs @ st)) (\<lambda>v. v # st)"
  using assms by (cases vs rule: list_of_three_cases) (auto simp: call_func_def agrees_refl split: option.split)

lemma eval_agrees:
  fixes e :: "'q expr" and ps :: "'q expr list"
  shows "agrees (val l tup e) (eval l tup e st) (\<lambda>v. v # st)"
  "agrees (vals l tup ps) (eval_params l tup ps st) (\<lambda>vs. rev vs @ st)"
proof (induction l tup e and l tup ps arbitrary: st and st rule: val_vals.induct)
  case (4 l tup i pname pcode ty)
  show ?case unfolding val.simps eval.simps
    by (rule agrees_bind [OF agrees_id]) (auto split: option.split)
next
  case (8 l tup pfx fn ps f1 f2 det)
  show ?case unfolding val.simps eval.simps
    by (rule agrees_bind_val [OF "8.IH"]) (use vals_length call_agrees in blast)
next
  case (9 l tup p a b)
  show ?case unfolding val.simps eval.simps
    by (rule agrees_bind [OF "9.IH"(1)], rule agrees_bind [OF "9.IH"(2)])
      (auto simp: binary_def srun_def agrees_def sbind_def sret_def rbind_def split: sum.split)
next
  case (10 l tup a b re)
  show ?case unfolding val.simps eval.simps
    by (rule agrees_bind [OF "10.IH"]) (auto simp: srun_def agrees_def sbind_def sret_def split: sum.split)
next
  case (11 l tup op a b)
  show ?case unfolding val.simps eval.simps
    by (rule agrees_bind [OF "11.IH"(1)], rule agrees_bind [OF "11.IH"(2)])
      (auto simp: binary_def srun_def agrees_def sbind_def sret_def split: sum.split)
next
  case (14 l tup p ps)
  show ?case unfolding vals.simps eval_params.simps
    by (rule agrees_bind [OF "14.IH"(1)]) (use "14.IH"(2) in \<open>auto simp: agrees_def sbind_def sret_def split: prod.splits sum.splits\<close>)
qed simp_all

text \<open>
  The interpreter with its stack agrees with the values above, whenever no variable is without a value: this is the part of its correctness that concerns the stack.
\<close>

lemma interpret_expression_value:
  assumes "fst (val l tup e g) \<noteq> Inl Unknown_property"
  shows "interpret_expression l e tup g = val l tup e g"
proof -
  have "eval l tup e [] g = map_prod (map_sum id (\<lambda>v. [v])) id (val l tup e g)"
    using eval_agrees(1) [of l tup e "[]"] assms unfolding agrees_def by blast
  then show ?thesis by (cases "val l tup e g"; cases "fst (val l tup e g)") (auto simp: interpret_expression_def sbind_def sret_def)
qed

section \<open>The mathematical meaning of expressions\<close>

text \<open>
  A semantics that does not mention the interpreter: values are integers, natural numbers, real numbers and strings; operators are those of mathematics. It is a relation,
  so that expressions without a meaning need no value: results outside the range of \<open>int\<close>, divisions by zero, comparisons of a negative \<open>int\<close> with a \<open>uint64_t\<close> or
  between kinds of values that the code does not compare. Not included are arithmetic on doubles, calls, regular expressions, times and descriptions.
\<close>

datatype mvalue = V_int int | V_nat nat | V_real real | V_str string

fun meaning :: "query_result \<Rightarrow> mvalue option" where
  "meaning (Q_int i) = Some (V_int i)"
| "meaning (Q_uint64 u) = Some (V_nat (unat u))"
| "meaning (Q_double (Finite neg x)) = Some (V_real (if neg then - x else x))"
| "meaning (Q_string s) = Some (V_str s)"
| "meaning _ = None"

text \<open>An operand of type \<open>int\<close> beside one of type \<open>uint64_t\<close> counts as a natural number.\<close>

fun promote :: "mvalue \<Rightarrow> mvalue \<Rightarrow> (mvalue \<times> mvalue) option" where
  "promote (V_int i) (V_nat n) = (if 0 \<le> i \<and> i < 2 ^ 31 then Some (V_nat (nat i), V_nat n) else None)"
| "promote (V_nat n) (V_int i) = (if 0 \<le> i \<and> i < 2 ^ 31 then Some (V_nat n, V_nat (nat i)) else None)"
| "promote (V_int i) (V_int j) = Some (V_int i, V_int j)"
| "promote (V_nat m) (V_nat n) = Some (V_nat m, V_nat n)"
| "promote (V_real x) (V_real y) = Some (V_real x, V_real y)"
| "promote (V_str s) (V_str t) = Some (V_str s, V_str t)"
| "promote _ _ = None"

fun compares :: "predicate \<Rightarrow> ('a \<Rightarrow> 'a \<Rightarrow> bool) \<Rightarrow> 'a \<Rightarrow> 'a \<Rightarrow> bool option" where
  "compares P_eq lt x y = Some (x = y)"
| "compares P_neq lt x y = Some (x \<noteq> y)"
| "compares P_lt lt x y = Some (lt x y)"
| "compares P_le lt x y = Some (\<not> lt y x)"
| "compares P_gt lt x y = Some (lt y x)"
| "compares P_ge lt x y = Some (\<not> lt x y)"
| "compares _ lt x y = None"

definition str_lt :: "string \<Rightarrow> string \<Rightarrow> bool" where
  "str_lt s t \<longleftrightarrow> (map of_char s, map of_char t) \<in> lexord {(a, b :: nat). a < b}"

definition int_truth :: "predicate \<Rightarrow> int \<Rightarrow> int \<Rightarrow> bool option" where
  "int_truth p i j = (case p of P_and \<Rightarrow> Some (i \<noteq> 0 \<and> j \<noteq> 0) | P_or \<Rightarrow> Some (i \<noteq> 0 \<or> j \<noteq> 0) | _ \<Rightarrow> compares p (<) i j)"

definition truth :: "predicate \<Rightarrow> mvalue \<Rightarrow> mvalue \<Rightarrow> bool option" where
  "truth p v w =
     (case (v, w) of
        (V_int i, V_int j) \<Rightarrow> int_truth p i j
      | (V_nat m, V_nat n) \<Rightarrow> compares p (<) m n
      | (V_real x, V_real y) \<Rightarrow> compares p (<) x y
      | (V_str s, V_str t) \<Rightarrow> compares p str_lt s t
      | _ \<Rightarrow> None)"

text \<open>Division of integers rounds the quotient towards zero; the remainder belongs to this quotient. Natural numbers are computed modulo \<open>2 ^ 64\<close>.\<close>

definition quot :: "int \<Rightarrow> int \<Rightarrow> int" where
  "quot i j = (let q = real_of_int i / real_of_int j in if 0 \<le> q then \<lfloor>q\<rfloor> else \<lceil>q\<rceil>)"

definition in_int :: "int \<Rightarrow> mvalue option" where
  "in_int i = (if - (2 ^ 31) \<le> i \<and> i \<le> 2 ^ 31 - 1 then Some (V_int i) else None)"

definition int_arith :: "expr_op \<Rightarrow> int \<Rightarrow> int \<Rightarrow> mvalue option" where
  "int_arith op i j =
     (case op of
        OP_PLUS \<Rightarrow> in_int (i + j) | OP_MINUS \<Rightarrow> in_int (i - j) | OP_MULT \<Rightarrow> in_int (i * j)
      | OP_DIV \<Rightarrow> if j = 0 then None else in_int (quot i j)
      | OP_MOD \<Rightarrow> if j = 0 \<or> in_int (quot i j) = None then None else Some (V_int (i - j * quot i j))
      | _ \<Rightarrow> None)"

definition nat_arith :: "expr_op \<Rightarrow> nat \<Rightarrow> nat \<Rightarrow> mvalue option" where
  "nat_arith op m n =
     (case op of
        OP_PLUS \<Rightarrow> Some (V_nat ((m + n) mod 2 ^ 64)) | OP_MINUS \<Rightarrow> Some (V_nat (nat ((int m - int n) mod 2 ^ 64))) | OP_MULT \<Rightarrow> Some (V_nat (m * n mod 2 ^ 64))
      | OP_DIV \<Rightarrow> if n = 0 then None else Some (V_nat (m div n))
      | OP_MOD \<Rightarrow> if n = 0 then None else Some (V_nat (m mod n))
      | _ \<Rightarrow> None)"

definition arith :: "expr_op \<Rightarrow> mvalue \<Rightarrow> mvalue \<Rightarrow> mvalue option" where
  "arith op v w = (case (v, w) of (V_int i, V_int j) \<Rightarrow> int_arith op i j | (V_nat m, V_nat n) \<Rightarrow> nat_arith op m n | _ \<Rightarrow> None)"

text \<open>The meaning of a property: the value of the first item with the key in the linked list of the object.\<close>

fun item_meaning :: "dict \<Rightarrow> p_item option \<Rightarrow> mvalue option" where
  "item_meaning d None = None"
| "item_meaning d (Some p) =
     (case pi_type p of
        P_int \<Rightarrow> Some (V_int (sint (ucast (pi_value p) :: 32 word)))
      | P_uint64 \<Rightarrow> Some (V_nat (unat (pi_value p)))
      | P_double \<Rightarrow> meaning (Q_double (d_of_bits (pi_value p)))
      | P_dcode \<Rightarrow> map_option V_str (ok (dict_lookup_code (unat (pi_value p) mod 2 ^ 32) d))
      | _ \<Rightarrow> None)"

inductive denotes :: "'q graph_db_scheme \<Rightarrow> qr_tuple \<Rightarrow> 'q expr \<Rightarrow> mvalue \<Rightarrow> bool" for g tup where
  den_int: "denotes g tup (Number_int i) (V_int i)"
| den_uint64: "denotes g tup (Number_uint64 u) (V_nat (unat u))"
| den_double: "denotes g tup (Number_double (Finite neg x)) (V_real (if neg then - x else x))"
| den_string: "denotes g tup (String_literal s) (V_str s)"
| den_var: "i < length tup \<Longrightarrow> meaning (tup ! i) = Some v \<Longrightarrow> denotes g tup (Variable i pname pcode ty) v"
| den_node: "i < length tup \<Longrightarrow> tup ! i = Q_node (Some (n, r)) \<Longrightarrow> pcode \<noteq> UNKNOWN_CODE \<Longrightarrow> holds (g_nodes g) n ob \<Longrightarrow> o_get ob r = Inr e \<Longrightarrow>
    props_hold (g_nprops g) (nd_property_list (body e)) its \<Longrightarrow> item_meaning (g_dict g) (find (\<lambda>it. pi_key it = pcode) its) = Some v \<Longrightarrow>
    denotes g tup (Variable i pname pcode ty) v"
| den_rship: "i < length tup \<Longrightarrow> tup ! i = Q_rship (Some (n, r)) \<Longrightarrow> pcode \<noteq> UNKNOWN_CODE \<Longrightarrow> holds (g_rships g) n ob' \<Longrightarrow> o_get ob' r = Inr e' \<Longrightarrow>
    props_hold (g_rprops g) (rs_property_list (body e')) its \<Longrightarrow> item_meaning (g_dict g) (find (\<lambda>it. pi_key it = pcode) its) = Some v \<Longrightarrow>
    denotes g tup (Variable i pname pcode ty) v"
| den_pred: "denotes g tup a v \<Longrightarrow> denotes g tup b w \<Longrightarrow> promote v w = Some (v', w') \<Longrightarrow> truth p v' w' = Some t \<Longrightarrow>
    denotes g tup (Predicate p a b) (V_int (if t then 1 else 0))"
| den_math: "denotes g tup a v \<Longrightarrow> denotes g tup b w \<Longrightarrow> promote v w = Some (v', w') \<Longrightarrow> arith op v' w' = Some x \<Longrightarrow>
    denotes g tup (Math_expression op a b) x"

text \<open>The operators of the code compute those of mathematics.\<close>

lemma meaning_cases:
  assumes "meaning q = Some v"
  obtains (int) i where "q = Q_int i" "v = V_int i" | (nat) u where "q = Q_uint64 u" "v = V_nat (unat u)"
    | (real) neg x where "q = Q_double (Finite neg x)" "v = V_real (dval neg x)" | (str) s where "q = Q_string s" "v = V_str s"
  using assms by (cases q rule: meaning.cases) (auto simp: dval_def)

lemma string_less_lexord: "string_less s t \<longleftrightarrow> str_lt s t"
  unfolding str_lt_def by (induction s t rule: string_less.induct) auto

lemma str_lt_total: "str_lt s t \<or> s = t \<or> str_lt t s"
proof -
  have "\<forall>a b. (a, b) \<in> {(a, b :: nat). a < b} \<or> a = b \<or> (b, a) \<in> {(a, b). a < b}" by auto
  from lexord_linear [OF this, of "map of_char s" "map of_char t"] show ?thesis by (auto simp: str_lt_def inj_map_eq_map inj_def)
qed

lemma str_lt_irrefl: "str_lt s t \<Longrightarrow> \<not> str_lt t s \<and> s \<noteq> t"
  unfolding str_lt_def using lexord_asymmetric [of "{(a, b :: nat). a < b}"] by (auto simp: asym_on_def asymp_on_def dest: lexord_irreflexive)

lemma quot_code: "j \<noteq> 0 \<Longrightarrow> sgn i * sgn j * (\<bar>i\<bar> div \<bar>j\<bar>) = quot i j"
proof -
  assume j: "j \<noteq> 0"
  have *: "\<lfloor>real_of_int a / real_of_int b\<rfloor> = a div b" for a b by (rule floor_divide_of_int_eq)
  have "\<lceil>real_of_int i / real_of_int j\<rceil> = - ((- i) div j)" using * [of "- i" j] by (simp add: ceiling_def)
  with * [of i j] j show ?thesis
    by (cases i "0 :: int" rule: linorder_cases; cases j "0 :: int" rule: linorder_cases) (auto simp: quot_def Let_def zero_le_divide_iff div_minus_right)
qed

lemma rem_code: "j \<noteq> 0 \<Longrightarrow> sgn i * (\<bar>i\<bar> mod \<bar>j\<bar>) = i - j * quot i j"
proof -
  have "sgn i * (\<bar>i\<bar> mod \<bar>j\<bar>) = sgn i * \<bar>i\<bar> - j * (sgn i * sgn j * (\<bar>i\<bar> div \<bar>j\<bar>))"
    by (simp add: minus_div_mult_eq_mod [symmetric] algebra_simps abs_sgn [of j])
  then show "j \<noteq> 0 \<Longrightarrow> ?thesis" by (simp add: quot_code sgn_mult_abs)
qed

lemma u_of_int_unat: "0 \<le> i \<Longrightarrow> i < 2 ^ 31 \<Longrightarrow> unat (u_of_int i) = nat i"
  by (simp add: u_of_int_def unat_eq_nat_uint uint_word_of_int)

lemmas code_comparisons = pred_apply_def less_than_def greater_than_def less_or_equal_def greater_or_equal_def qv_equal_def

lemma pred_int: "truth p (V_int i) (V_int j) = Some t \<Longrightarrow> pred_apply l p (Q_int i) (Q_int j) = Inr t"
  by (cases p) (auto simp: truth_def int_truth_def code_comparisons)

lemma pred_nat: "truth p (V_nat (unat u)) (V_nat (unat u')) = Some t \<Longrightarrow> pred_apply l p (Q_uint64 u) (Q_uint64 u') = Inr t"
  by (cases p) (auto simp: truth_def code_comparisons word_less_nat_alt word_unat_eq_iff)

lemma pred_mixed:
  assumes "p \<noteq> P_and" "p \<noteq> P_or"
  shows "pred_apply l p (Q_int i) (Q_uint64 u) = pred_apply l p (Q_uint64 (u_of_int i)) (Q_uint64 u)"
    "pred_apply l p (Q_uint64 u) (Q_int i) = pred_apply l p (Q_uint64 u) (Q_uint64 (u_of_int i))"
  using assms by (cases p; simp add: code_comparisons)+

lemma pred_real: "truth p (V_real (dval a x)) (V_real (dval b y)) = Some t \<Longrightarrow> pred_apply l p (Q_double (Finite a x)) (Q_double (Finite b y)) = Inr t"
  by (cases p) (auto simp: truth_def code_comparisons)

lemma pred_str: "truth p (V_str s) (V_str s') = Some t \<Longrightarrow> pred_apply l p (Q_string s) (Q_string s') = Inr t"
  using str_lt_total [of s s'] by (cases p) (auto simp: truth_def code_comparisons string_less_lexord dest: str_lt_irrefl)

lemma pred_promoted:
  "truth p (V_nat (unat (u_of_int i))) (V_nat (unat u)) = Some t \<Longrightarrow> pred_apply l p (Q_int i) (Q_uint64 u) = Inr t"
  "truth p (V_nat (unat u)) (V_nat (unat (u_of_int i))) = Some t \<Longrightarrow> pred_apply l p (Q_uint64 u) (Q_int i) = Inr t"
proof -
  have p: "p \<noteq> P_and \<and> p \<noteq> P_or" if "truth p (V_nat m) (V_nat n) = Some t" for m n using that by (cases p) (auto simp: truth_def)
  then show "truth p (V_nat (unat (u_of_int i))) (V_nat (unat u)) = Some t \<Longrightarrow> pred_apply l p (Q_int i) (Q_uint64 u) = Inr t"
    by (simp add: pred_mixed pred_nat)
  show "truth p (V_nat (unat u)) (V_nat (unat (u_of_int i))) = Some t \<Longrightarrow> pred_apply l p (Q_uint64 u) (Q_int i) = Inr t"
    using p by (simp add: pred_mixed pred_nat)
qed

lemma pred_meaning:
  assumes "meaning q = Some v" "meaning r = Some w" "promote v w = Some (v', w')" "truth p v' w' = Some t"
  shows "pred_apply l p q r = Inr t"
  by (rule meaning_cases [OF assms(1)]; rule meaning_cases [OF assms(2)])
    (use assms(3,4) in \<open>auto simp: u_of_int_unat [symmetric] split: if_splits intro: pred_int pred_nat pred_promoted pred_real pred_str\<close>)

lemma math_int: "arith op (V_int i) (V_int j) = Some x \<Longrightarrow> \<exists>s. math_apply op (Q_int i) (Q_int j) = Inr s \<and> meaning s = Some x"
  by (cases op) (auto simp: arith_def int_arith_def math_apply_def int_math_op_def int_range_def in_int_def quot_code rem_code split: if_splits)

lemma unat_minus_mod: "unat (u - u' :: 64 word) = nat ((int (unat u) - int (unat u')) mod 2 ^ 64)"
proof -
  have "unat (u - u') = nat (uint (u - u'))" "int (unat u) = uint u" "int (unat u') = uint u'" by simp_all
  moreover have "uint (u - u') = (uint u - uint u') mod 2 ^ 64" using uint_word_ariths(2) [of u u'] by simp
  ultimately show ?thesis by simp
qed

lemma math_nat:
  assumes "arith op (V_nat (unat u)) (V_nat (unat u')) = Some x"
  shows "\<exists>s. math_apply op (Q_uint64 u) (Q_uint64 u') = Inr s \<and> meaning s = Some x"
proof -
  have [simp]: "unat (u + u') = (unat u + unat u') mod 2 ^ 64" "unat (u * u') = unat u * unat u' mod 2 ^ 64" by (simp_all add: unat_word_ariths)
  have [simp]: "unat (u div u') = unat u div unat u'" "unat (u mod u') = unat u mod unat u'" "unat u' = 0 \<longleftrightarrow> u' = 0" by (simp_all add: unat_div unat_mod unat_eq_0)
  show ?thesis using assms by (cases op) (auto simp: arith_def nat_arith_def math_apply_def uint64_math_op_def unat_minus_mod split: if_splits)
qed

lemma math_mixed:
  "math_apply op (Q_int i) (Q_uint64 u) = math_apply op (Q_uint64 (u_of_int i)) (Q_uint64 u)"
  "math_apply op (Q_uint64 u) (Q_int i) = math_apply op (Q_uint64 u) (Q_uint64 (u_of_int i))"
  by (simp_all add: math_apply_def)

lemma math_meaning:
  assumes "meaning q = Some v" "meaning r = Some w" "promote v w = Some (v', w')" "arith op v' w' = Some x"
  shows "\<exists>s. math_apply op q r = Inr s \<and> meaning s = Some x"
  by (rule meaning_cases [OF assms(1)]; rule meaning_cases [OF assms(2)])
    (use assms(3,4) in \<open>auto simp: math_mixed u_of_int_unat [symmetric] arith_def [of op "V_real _"] arith_def [of op "V_str _"] split: if_splits intro: math_int math_nat\<close>)

text \<open>A variable: a plain value, or a property of the node or relationship of the tuple.\<close>

lemma unat_ucast_mod: "unat (ucast (u :: 64 word) :: 32 word) = unat u mod 2 ^ 32"
  by (transfer, simp add: take_bit_eq_mod nat_mod_distrib)

lemma item_value_meaning: "item_meaning (g_dict g) (Some p) = Some v \<Longrightarrow> \<exists>q. item_value p g = (Inr (Some q), g) \<and> meaning q = Some v"
  by (auto simp: item_value_def pi_get_int_def pi_get_uint64_def pi_get_double_def pi_get_dcode_def get_string_def sbind_def unat_ucast_mod ok_def
      split: p_typecode.splits sum.splits)

lemma var_value_plain: "i < length tup \<Longrightarrow> meaning (tup ! i) = Some v \<Longrightarrow> var_value tup i pname pcode ty = sret (Some (tup ! i))"
  by (erule meaning_cases) (simp_all add: var_value_def)

lemma var_value_node:
  assumes "i < length tup" "tup ! i = Q_node (Some (n, r))" "pcode \<noteq> UNKNOWN_CODE" "holds (g_nodes g) n ob" "o_get ob r = Inr e"
    "props_hold (g_nprops g) (nd_property_list (body e)) its" "item_meaning (g_dict g) (find (\<lambda>it. pi_key it = pcode) its) = Some v"
  shows "\<exists>q. var_value tup i pname pcode ty g = (Inr (Some q), g) \<and> meaning q = Some v"
proof -
  obtain p where p: "find (\<lambda>it. pi_key it = pcode) its = Some p" using assms(7) by (cases "find (\<lambda>it. pi_key it = pcode) its") auto
  then show ?thesis using assms(1-5) item_value_meaning [of g p v] assms(7) props_hold_value [OF assms(6), of pcode]
    by (simp add: var_value_def sbind_def node_at_def get_node_run get_node_property_value_def)
qed

lemma var_value_rship:
  assumes "i < length tup" "tup ! i = Q_rship (Some (n, r))" "pcode \<noteq> UNKNOWN_CODE" "holds (g_rships g) n ob" "o_get ob r = Inr e"
    "props_hold (g_rprops g) (rs_property_list (body e)) its" "item_meaning (g_dict g) (find (\<lambda>it. pi_key it = pcode) its) = Some v"
  shows "\<exists>q. var_value tup i pname pcode ty g = (Inr (Some q), g) \<and> meaning q = Some v"
proof -
  obtain p where p: "find (\<lambda>it. pi_key it = pcode) its = Some p" using assms(7) by (cases "find (\<lambda>it. pi_key it = pcode) its") auto
  then show ?thesis using assms(1-5) item_value_meaning [of g p v] assms(7) props_hold_value [OF assms(6), of pcode]
    by (simp add: var_value_def sbind_def rship_at_def get_rship_run get_rship_property_value_def)
qed

lemma denotes_val: "denotes g tup e v \<Longrightarrow> \<exists>q. val l tup e g = (Inr q, g) \<and> meaning q = Some v"
proof (induction rule: denotes.induct)
  case (den_node i n r pcode ob e its v pname ty)
  then show ?case using var_value_node [of i tup n r pcode g ob e its v pname ty] by (auto simp: sbind_def)
next
  case (den_rship i n r pcode ob' e' its v pname ty)
  then show ?case using var_value_rship [of i tup n r pcode g ob' e' its v pname ty] by (auto simp: sbind_def)
next
  case (den_pred a v b w v' w' p t)
  then obtain q r where "val l tup a g = (Inr q, g)" "meaning q = Some v" "val l tup b g = (Inr r, g)" "meaning r = Some w" by blast
  then show ?case using pred_meaning [OF _ _ den_pred.hyps(3,4), of q r l] by (simp add: sbind_def)
next
  case (den_math a v b w v' w' op x)
  then obtain q r where "val l tup a g = (Inr q, g)" "meaning q = Some v" "val l tup b g = (Inr r, g)" "meaning r = Some w" by blast
  then show ?case using math_meaning [OF _ _ den_math.hyps(3,4), of q r] by (auto simp: sbind_def)
qed (auto simp: sbind_def var_value_plain)

text \<open>
  C17. The interpreter computes the mathematical meaning of an expression and only reads the store: if an expression of literals, variables, comparisons, conjunctions,
  disjunctions and arithmetic denotes a value, in the store and for the tuple, then the interpreter returns a representation of this value, and the store is as before.
  Comparisons are those of integers, natural numbers, real numbers and strings, in lexicographic order; integer results are those that fit into 32 bits, unsigned
  ones are taken modulo \<open>2 ^ 64\<close>, division rounds towards zero. A variable denotes the value in the tuple or the property of its node or relationship.
  Arithmetic on doubles, calls, regular expressions, times and descriptions denote nothing here.
\<close>

theorem interpret_expression_denotes:
  assumes "denotes g tup e v"
  shows "\<exists>q. interpret_expression l e tup g = (Inr q, g) \<and> meaning q = Some v"
proof -
  obtain q where q: "val l tup e g = (Inr q, g)" "meaning q = Some v" using denotes_val [OF assms] by blast
  then have "interpret_expression l e tup g = val l tup e g" by (intro interpret_expression_value) simp
  then show ?thesis using q by simp
qed

text \<open>A filter on the property 4 of a node, with a division of a negative number.\<close>

theorem interpret_expression_denotes_witness:
  "interpret_expression qlib_demo (Predicate P_and (Predicate P_gt (Variable 0 [] 4 ET_INT) (Number_int 40))
     (Predicate P_eq (Math_expression OP_DIV (Number_int (- 7)) (Number_int 2)) (Number_int (- 3)))) [Q_node (Some (0, Main))] person_demo = (Inr (Q_int 1), person_demo)"
proof -
  let ?tup = "[Q_node (Some (0, Main))]"
  have age: "denotes person_demo ?tup (Variable 0 [] 4 ET_INT) (V_int 42)"
    by (rule den_node [where n = 0 and r = Main and ob = person_node and e = "o_elem person_node" and its = person_items])
      (use person_demo_holds in \<open>simp_all add: UNKNOWN_CODE_def o_get_def person_node_def person_items_def\<close>)
  have left: "denotes person_demo ?tup (Predicate P_gt (Variable 0 [] 4 ET_INT) (Number_int 40)) (V_int (if True then 1 else 0))"
    by (rule den_pred [OF age den_int promote.simps(3)]) (simp add: truth_def int_truth_def)
  have "quot (- 7) 2 = - 3" by (simp add: quot_code [symmetric])
  then have quot: "denotes person_demo ?tup (Math_expression OP_DIV (Number_int (- 7)) (Number_int 2)) (V_int (- 3))"
    by (intro den_math [OF den_int den_int promote.simps(3)]) (simp add: arith_def int_arith_def in_int_def)
  have right: "denotes person_demo ?tup (Predicate P_eq (Math_expression OP_DIV (Number_int (- 7)) (Number_int 2)) (Number_int (- 3))) (V_int (if True then 1 else 0))"
    by (rule den_pred [OF quot den_int promote.simps(3)]) (simp add: truth_def int_truth_def)
  have "denotes person_demo ?tup (Predicate P_and (Predicate P_gt (Variable 0 [] 4 ET_INT) (Number_int 40))
     (Predicate P_eq (Math_expression OP_DIV (Number_int (- 7)) (Number_int 2)) (Number_int (- 3)))) (V_int (if True then 1 else 0))"
    by (rule den_pred [OF left right promote.simps(3)]) (simp add: truth_def int_truth_def)
  from interpret_expression_denotes [OF this, of qlib_demo] show ?thesis by (auto elim: meaning_cases)
qed

section \<open>Missing properties\<close>

text \<open>
  A property that a node does not have: the comparison takes the operand below it on the stack, which belongs to the surrounding expression. A disjunction
  whose second part compares a missing property is false even if its first part is true.
\<close>

theorem missing_property_disjunction:
  assumes "val l tup a g = (Inr v, g1)" "var_value tup i pname pcode ty g1 = (Inr None, g2)"
  shows "interpret_bool_expression l (Predicate P_or a (Predicate P_eq (Variable i pname pcode ty) (Number_int k))) tup g = (Inr False, g2)"
proof -
  have "eval l tup a [] g = (Inr [v], g1)" using eval_agrees(1) [of l tup a "[]"] assms(1) unfolding agrees_def by (metis fst_conv id_apply map_prod_simp map_sum.simps(2) sum.distinct(1))
  then show ?thesis using assms(2)
    by (simp add: interpret_bool_expression_def interpret_expression_def sbind_def sret_def srun_def binary_def pred_apply_def)
qed

theorem missing_property_disjunction_witness:
  "interpret_bool_expression qlib_demo (Predicate P_or (Predicate P_eq (Number_int 1) (Number_int 1))
     (Predicate P_eq (Variable 0 [] UNKNOWN_CODE ET_INT) (Number_int 3))) [Q_null] pair_demo = (Inr False, pair_demo)"
  by (rule missing_property_disjunction [where v = "Q_int 1"]) (simp_all add: sbind_def sret_def srun_def pred_apply_def qv_equal_def var_value_def)

section \<open>Calls with constant arguments\<close>

fun lit_value :: "'q expr \<Rightarrow> query_result option" where
  "lit_value (Number_int i) = Some (Q_int i)"
| "lit_value (Number_uint64 u) = Some (Q_uint64 u)"
| "lit_value (Number_double d) = Some (Q_double d)"
| "lit_value (String_literal s) = Some (Q_string s)"
| "lit_value (Time_literal t) = Some (Q_ptime t)"
| "lit_value e = None"

fun foldable :: "query_result \<Rightarrow> bool" where
  "foldable (Q_int i) = True" | "foldable (Q_double d) = True" | "foldable (Q_string s) = True" | "foldable (Q_ptime t) = True" | "foldable v = False"

lemma lit_value_expr: "lit_value e = Some v \<Longrightarrow> literal_expr_to_qresult e = v \<and> base_fop e = OP_LITERAL \<and> eval l tup e st = sret (v # st)"
  by (cases e) (auto simp: literal_expr_to_qresult_def)

lemma eval_qresult: "foldable v \<Longrightarrow> eval l tup (qresult_to_expr v) st g = (Inr (v # st), g)"
  by (cases v) auto

text \<open>
  Replacing a call with constant arguments: for a function that does not depend on the store and yields an \<open>int\<close>, a \<open>double\<close>, a string or a time
  stamp, a call with one or two literals is recognised as constant, and the literal that replaces it has the value of the call.
\<close>

theorem fold_call_preserves:
  assumes "list_all2 (\<lambda>p v. lit_value p = Some v) ps vs" "ps \<noteq> []" "foldable r"
    and "f1 = Some f \<and> vs = [v] \<and> f v = sret r \<or> f1 = None \<and> f2 = Some h \<and> vs = [v, w] \<and> h v w = sret r"
  shows "\<exists>e. fold_call (Func_call pfx fn ps f1 f2 True) g = (Inr e, g) \<and> eval l tup e st g = eval l tup (Func_call pfx fn ps f1 f2 True) st g"
proof -
  let ?c = "Func_call pfx fn ps f1 f2 True"
  have c: "is_constant ?c"
    using assms(1) by (simp add: list_all2_conv_all_nth list_all_length) (metis lit_value_expr)
  have "replace_by_literal ?c g = (Inr (qresult_to_expr r), g) \<and> eval l tup ?c st g = (Inr (r # st), g)"
    using assms(4)
  proof (elim disjE conjE)
    assume f: "f1 = Some f" "vs = [v]" "f v = sret r"
    then obtain p where "ps = [p]" "lit_value p = Some v" using assms(1) by (auto simp: list_all2_Cons2)
    then show ?thesis using f lit_value_expr [of p v] by (simp add: call_func_def sbind_def)
  next
    assume f: "f1 = None" "f2 = Some h" "vs = [v, w]" "h v w = sret r"
    then obtain p q where "ps = [p, q]" "lit_value p = Some v" "lit_value q = Some w" using assms(1) by (auto simp: list_all2_Cons2)
    then show ?thesis using f lit_value_expr [of p v] lit_value_expr [of q w] by (simp add: call_func_def sbind_def)
  qed
  then show ?thesis using c by (intro exI [of _ "qresult_to_expr r"]) (simp only: fold_call_def if_True eval_qresult [OF assms(3)])
qed

definition succ_udf :: "query_result \<Rightarrow> ('q, query_result) gact" where
  "succ_udf v = (case v of Q_int i \<Rightarrow> sret (Q_int (i + 1)) | _ \<Rightarrow> sthrow Bad_get)"

theorem fold_call_preserves_witness:
  "\<exists>e. fold_call (Func_call [] ''succ'' [Number_int 4] (Some succ_udf) None True) pair_demo = (Inr e, pair_demo) \<and>
     eval qlib_demo [] e [] pair_demo = eval qlib_demo [] (Func_call [] ''succ'' [Number_int 4] (Some succ_udf) None True) [] pair_demo"
  by (rule fold_call_preserves [where vs = "[Q_int 4]" and f = succ_udf and v = "Q_int 4" and r = "Q_int 5"]) (simp_all add: succ_udf_def)

text \<open>
  A call whose argument is a compound expression is taken for constant as well: its argument is replaced by the last literal in it, whatever the
  variables are.
\<close>

theorem fold_call_compound:
  "fold_call (Func_call pfx fn [Math_expression op (Variable i pname pcode ty) (Number_int k)] (Some f) f2 True) =
     sbind (f (Q_int k)) (\<lambda>r. sret (qresult_to_expr r))"
  by (simp add: fold_call_def literal_expr_to_qresult_def)

end
