(* ===== verification/Query_Push.thy ===== *)
theory Query_Push
  imports Query_Joins Query_Scan "HOL-Library.Sublist"
begin

text \<open>
  Correctness of the query operators. An operator that processes a list of tuples passes a list of tuples to the operator behind it: each theorem gives this
  list, for every operator behind, whatever it does. The contract is a locale; its lemma on whole inputs is proved once.
\<close>

section \<open>The contract of an operator\<close>

text \<open>
  For a tuple with \<open>P\<close>, the operator in state \<open>s\<close> passes on the tuples \<open>out s v\<close> and changes its state to \<open>step s v\<close>.
\<close>

fun push_outs :: "('s \<Rightarrow> 't \<Rightarrow> 's) \<Rightarrow> ('s \<Rightarrow> 't \<Rightarrow> 'u list) \<Rightarrow> 's \<Rightarrow> 't list \<Rightarrow> 'u list" where
  "push_outs step out s [] = []"
| "push_outs step out s (v # vs) = out s v @ push_outs step out (step s v) vs"

lemma sret_left [simp]: "sbind (sret x) k = k x" "sbind (Pair (Inr x)) k = k x"
  by (rule ext, simp add: sbind_def)+

lemma sret_right [simp]: "sbind m (\<lambda>_. sret ()) = m" "sbind m (\<lambda>_. Pair (Inr ())) = m" "sbind m sret = m"
  by (rule ext, auto simp: sbind_def split: prod.split sum.split)+

lemma sbind_assoc: "sbind (sbind m f) k = sbind m (\<lambda>x. sbind (f x) k)"
  by (rule ext) (auto simp: sbind_def split: prod.split sum.split)

lemma outer_sret [simp]: "outer (sret x) = sret x" "outer (Pair (Inr x)) = Pair (Inr x)"
  by (rule ext, simp add: outer_def)+

lemma outer_bind: "outer (sbind m k) = sbind (outer m) (\<lambda>x. outer (k x))"
  by (rule ext) (auto simp: outer_def sbind_def split: prod.split sum.split)

lemma for_each_outer: "for_each (\<lambda>x. outer (f x)) xs = outer (for_each f xs)"
  by (induction xs) (simp_all add: outer_bind)

lemma for_each_map: "for_each f (map g xs) = for_each (\<lambda>x. f (g x)) xs"
  by (induction xs) simp_all

lemma for_each_filter: "for_each (\<lambda>x. if p x then f x else sret ()) xs = for_each f (filter p xs)"
  by (induction xs) simp_all

lemma for_each_select:
  "for_each (\<lambda>(j, x). if p j x then outer (f (h j x)) else sret ()) xs = outer (for_each f (map (\<lambda>(j, x). h j x) (filter (\<lambda>(j, x). p j x) xs)))"
  by (induction xs) (auto simp: outer_bind)

text \<open>One step of an operator, in a block with its variables.\<close>

definition emit :: "('s \<Rightarrow> 's) \<Rightarrow> ('s \<Rightarrow> ('v, unit) gact) \<Rightarrow> ('s \<times> 'v, unit) gact" where
  "emit f act = sbind get_local (\<lambda>s. sbind (upd_local f) (\<lambda>_. outer (act s)))"

lemma with_local_emit: "with_local s (sbind (emit f act) (\<lambda>_. k)) = sbind (act s) (\<lambda>_. with_local (f s) k)"
  by (rule ext) (auto simp: emit_def with_local_def sbind_def get_local_run upd_local_run outer_def split: prod.split sum.split)

lemma with_local_sret [simp]: "with_local s (sret x) = sret x" "with_local s (Pair (Inr x)) = Pair (Inr x)"
  by (rule ext, simp add: with_local_def)+

lemma with_local_outer [simp]: "with_local s (outer m) = m"
  by (rule ext) (auto simp: with_local_def outer_def split: prod.split)

lemma with_local_get [simp]: "with_local s (sbind get_local k) = with_local s (k s)"
  by (rule ext) (simp add: with_local_def sbind_def get_local_run)

lemma with_local_upd [simp]: "with_local s (sbind (upd_local f) k) = with_local (f s) (k ())"
  by (rule ext) (simp add: with_local_def sbind_def upd_local_run)

text \<open>An operator that reads its variables and goes on with \<open>k\<close> takes such a step.\<close>

lemma emit_eqI:
  assumes "\<And>s g. fst (graph_db.more g) = s \<Longrightarrow> k s g = sbind (upd_local f) (\<lambda>_. outer (act s)) g"
  shows "sbind get_local k = emit f act"
proof (rule ext)
  fix g
  show "sbind get_local k g = emit f act g" using assms [of g "fst (graph_db.more g)"] by (simp add: emit_def sbind_def get_local_run)
qed

lemma upd_local_same: "f (fst (graph_db.more g)) = fst (graph_db.more g) \<Longrightarrow> sbind (upd_local f) k g = k () g"
  by (simp add: sbind_def upd_local_run)

lemma upd_local_cong: "f (fst (graph_db.more g)) = f' (fst (graph_db.more g)) \<Longrightarrow> sbind (upd_local f) k g = sbind (upd_local f') k g"
  by (simp add: sbind_def upd_local_run)

locale push_operator =
  fixes process :: "'v consume_func \<Rightarrow> ('s \<times> 'v) consume_func" and P :: "qr_tuple \<Rightarrow> bool" and step :: "'s \<Rightarrow> qr_tuple \<Rightarrow> 's"
    and out :: "'s \<Rightarrow> qr_tuple \<Rightarrow> qr_tuple list"
  assumes process_run: "P v \<Longrightarrow> process consume v = emit (\<lambda>s. step s v) (\<lambda>s. for_each consume (out s v))"
begin

lemma feed_then:
  assumes "list_all P vs"
  shows "with_local s (sbind (for_each (process consume) vs) (\<lambda>_. k)) =
    sbind (for_each consume (push_outs step out s vs)) (\<lambda>_. with_local (foldl step s vs) k)"
  using assms
proof (induction vs arbitrary: s)
  case (Cons v vs)
  then show ?case by (simp add: process_run sbind_assoc with_local_emit for_each_append)
qed simp

lemma feed: "list_all P vs \<Longrightarrow> with_local s (for_each (process consume) vs) = for_each consume (push_outs step out s vs)"
  using feed_then [of vs s consume "sret ()"] by simp

end

section \<open>Limit\<close>

definition limit_step :: "nat \<Rightarrow> nat \<Rightarrow> qr_tuple \<Rightarrow> nat" where
  "limit_step n k v = (if k < n then Suc k else k)"

definition limit_out :: "nat \<Rightarrow> nat \<Rightarrow> qr_tuple \<Rightarrow> qr_tuple list" where
  "limit_out n k v = (if k < n then [v] else [])"

interpretation limit: push_operator "limit_process n" "\<lambda>_. True" "limit_step n" "limit_out n" for n
proof
  fix v :: qr_tuple and consume :: "'v consume_func"
  show "limit_process n consume v = emit (\<lambda>s. limit_step n s v) (\<lambda>s. for_each consume (limit_out n s v))"
    unfolding limit_process_def
    by (rule emit_eqI) (auto simp: limit_step_def limit_out_def upd_local_run intro: upd_local_cong)
qed

lemma limit_outs: "push_outs (limit_step n) (limit_out n) k vs = take (n - k) vs"
  by (induction vs arbitrary: k) (auto simp: limit_step_def limit_out_def take_Cons' split: nat_diff_split)

text \<open>\<open>limit\<close> passes on exactly the first \<open>n\<close> tuples of its input, whatever the operator behind it does.\<close>

theorem limit_takes: "with_local 0 (for_each (limit_process n consume) vs) = for_each consume (take n vs)"
  by (simp add: limit.feed list_all_iff limit_outs)

section \<open>Distinct\<close>

text \<open>Values that are not references to the store, and their text.\<close>

definition plain :: "query_result \<Rightarrow> bool" where
  "plain v = (case v of Q_node _ \<Rightarrow> False | Q_rship _ \<Rightarrow> False | _ \<Rightarrow> True)"

fun value_text :: "qlib \<Rightarrow> query_result \<Rightarrow> string" where
  "value_text l (Q_string s) = s"
| "value_text l (Q_uint64 u) = dec_uint64 u"
| "value_text l (Q_ptime t) = ql_iso l t"
| "value_text l (Q_int i) = dec_int i"
| "value_text l (Q_double d) = ql_fixed l d"
| "value_text l Q_null = ''NULL''"
| "value_text l (Q_array a) = concat (map dec_uint64 a)"
| "value_text l v = []"

definition tuple_text :: "qlib \<Rightarrow> qr_tuple \<Rightarrow> string" where
  "tuple_text l v = concat (map (value_text l) v)"

lemma key_text_plain: "plain x \<Longrightarrow> key_text l x = sret (value_text l x)"
  by (cases x) (simp_all add: plain_def)

lemma tuple_key_plain: "list_all plain v \<Longrightarrow> tuple_key l v = sret (tuple_text l v)"
  by (induction v) (simp_all add: tuple_text_def key_text_plain del: sret_apply)

definition distinct_step :: "qlib \<Rightarrow> string list \<Rightarrow> qr_tuple \<Rightarrow> string list" where
  "distinct_step l ks v = (if tuple_text l v \<in> set ks then ks else tuple_text l v # ks)"

definition distinct_out :: "qlib \<Rightarrow> string list \<Rightarrow> qr_tuple \<Rightarrow> qr_tuple list" where
  "distinct_out l ks v = (if tuple_text l v \<in> set ks then [] else [v])"

interpretation dist: push_operator "distinct_process l" "list_all plain" "distinct_step l" "distinct_out l" for l
proof
  fix v :: qr_tuple and consume :: "'v consume_func"
  assume "list_all plain v"
  then have "distinct_process l consume v = sbind get_local (\<lambda>keys. if tuple_text l v \<in> set keys then sret ()
      else sbind (upd_local (\<lambda>ks. tuple_text l v # ks)) (\<lambda>_. outer (consume v)))"
    by (simp add: distinct_process_def tuple_key_plain del: sret_apply)
  also have "\<dots> = emit (\<lambda>s. distinct_step l s v) (\<lambda>s. for_each consume (distinct_out l s v))"
    by (rule emit_eqI) (auto simp: distinct_step_def distinct_out_def upd_local_run intro: upd_local_cong)
  finally show "distinct_process l consume v = \<dots>" .
qed

text \<open>The tuples with a text that none of the tuples before them has.\<close>

fun first_per :: "('a \<Rightarrow> 'k) \<Rightarrow> 'k set \<Rightarrow> 'a list \<Rightarrow> 'a list" where
  "first_per f K [] = []"
| "first_per f K (x # xs) = (if f x \<in> K then first_per f K xs else x # first_per f (insert (f x) K) xs)"

lemma distinct_outs: "push_outs (distinct_step l) (distinct_out l) ks vs = first_per (tuple_text l) (set ks) vs"
  by (induction vs arbitrary: ks) (auto simp: distinct_step_def distinct_out_def)

lemma first_per_subseq: "subseq (first_per f K xs) xs"
  by (induction xs arbitrary: K) auto

lemma first_per_set: "f ` set (first_per f K xs) = f ` set xs - K"
  by (induction xs arbitrary: K) auto

lemma first_per_distinct: "distinct (map f (first_per f K xs))"
  by (induction xs arbitrary: K) (auto simp flip: set_map simp: first_per_set [simplified image_set])

text \<open>
  \<open>distinct\<close> on tuples without references to the store: the operator behind gets some of the tuples in their order, no two of
  them with the same text, and every text of an input tuple is among them.
\<close>

theorem distinct_first:
  assumes "list_all (list_all plain) vs"
  shows "\<exists>out. with_local [] (for_each (distinct_process l consume) vs) = for_each consume out \<and> subseq out vs \<and>
    distinct (map (tuple_text l) out) \<and> tuple_text l ` set out = tuple_text l ` set vs"
  using dist.feed [OF assms, of "[]" l consume] first_per_subseq first_per_distinct first_per_set [of "tuple_text l" "{}"]
  by (metis distinct_outs Diff_empty list.set(1))

theorem distinct_first_witness:
  "list_all (list_all plain) [[Q_int 1], [Q_int 2], [Q_int 1]] \<and>
   (\<exists>out. with_local [] (for_each (distinct_process qlib_demo collect_process) [[Q_int 1], [Q_int 2], [Q_int 1]]) = for_each collect_process out \<and>
      subseq out [[Q_int 1], [Q_int 2], [Q_int 1]] \<and> distinct (map (tuple_text qlib_demo) out) \<and>
      tuple_text qlib_demo ` set out = tuple_text qlib_demo ` set [[Q_int 1], [Q_int 2], [Q_int 1]])"
proof -
  have "list_all (list_all plain) [[Q_int 1], [Q_int 2], [Q_int 1]]" by (simp add: plain_def)
  then show ?thesis using distinct_first by blast
qed

text \<open>The text of a tuple is the concatenation of the texts of its values: of two tuples with different values \<open>distinct\<close> may drop one.\<close>

theorem distinct_conflates:
  "with_local [] (for_each (distinct_process l consume) [[Q_string ''1'', Q_string ''23''], [Q_string ''12'', Q_string ''3'']]) =
   consume [Q_string ''1'', Q_string ''23'']"
  by (subst dist.feed) (simp_all add: plain_def distinct_step_def distinct_out_def tuple_text_def)

section \<open>Joins\<close>

text \<open>An operator that only stores the tuple, and one that does not change its variables.\<close>

lemma emit_store: "emit f (\<lambda>s. for_each consume []) = upd_local f"
  by (rule ext) (simp add: emit_def sbind_def get_local_run upd_local_run)

lemma emit_probe: "sbind get_local (\<lambda>s. outer (act s)) = emit (\<lambda>s. s) act"
  by (rule emit_eqI) (simp add: upd_local_same)

lemma store_outs: "push_outs step (\<lambda>s v. []) s vs = []"
  by (induction vs arbitrary: s) simp_all

lemma probe_outs: "push_outs (\<lambda>s v. s) out s vs = concat (map (out s) vs)"
  by (induction vs) simp_all

text \<open>The contract of an operator that keeps its input for later.\<close>

locale store_operator = push_operator "\<lambda>consume. process_input" P step "\<lambda>s v. []"
  for process_input :: "('s \<times> 'v) consume_func" and P :: "qr_tuple \<Rightarrow> bool" and step :: "'s \<Rightarrow> qr_tuple \<Rightarrow> 's"
begin

lemma store_then:
  "list_all P vs \<Longrightarrow> with_local s (sbind (for_each process_input vs) (\<lambda>_. k)) = with_local (foldl step s vs) k"
  using feed_then [of vs s k "\<lambda>_. sret ()"] by (simp add: store_outs)

end

definition input_step :: "qr_tuple list join_vars \<Rightarrow> qr_tuple \<Rightarrow> qr_tuple list join_vars" where
  "input_step s v = s\<lparr>jn_input := jn_input s @ [v]\<rparr>"

lemma input_steps: "jn_input (foldl input_step s vs) = jn_input s @ vs"
  by (induction vs arbitrary: s) (simp_all add: input_step_def)

interpretation stored: store_operator push_input "\<lambda>_. True" input_step
  by unfold_locales (simp add: push_input_def input_step_def emit_store [simplified])

interpretation cross: push_operator cross_join_left "\<lambda>_. True" "\<lambda>s v. s" "\<lambda>s v. map (\<lambda>inp. inp @ v) (jn_input s)"
proof
  fix v :: qr_tuple and consume :: "'v consume_func"
  have "cross_join_left consume v = sbind get_local (\<lambda>s. outer (for_each consume (map (\<lambda>inp. inp @ v) (jn_input s))))"
    by (simp add: cross_join_left_def for_each_outer for_each_map)
  then show "cross_join_left consume v = emit (\<lambda>s. s) (\<lambda>s. for_each consume (map (\<lambda>inp. inp @ v) (jn_input s)))"
    by (simp add: emit_probe)
qed

text \<open>
  The cross join: when the right input was stored before the left input arrives, the operator behind gets, for every left tuple, every right tuple
  followed by the left tuple, in the order of the inputs.
\<close>

theorem cross_join_product:
  "with_local (join_vars_new []) (sbind (for_each cross_join_right rs) (\<lambda>_. for_each (cross_join_left consume) ls)) =
   for_each consume (concat (map (\<lambda>v. map (\<lambda>inp. inp @ v) rs) ls))"
  by (simp add: cross_join_right_def list_all_iff stored.store_then cross.feed probe_outs input_steps join_vars_new_def)

section \<open>Reading a column\<close>

text \<open>
  An action that only reads the store, and reads the same inside a block with local variables: the two instances of the action differ in the type of the variables.
\<close>

definition reads :: "('q, 'a) gact \<Rightarrow> ('r, 'a) gact \<Rightarrow> bool" where
  "reads m m' \<longleftrightarrow> (\<forall>g w. snd (m g) = g \<and> m' (with_more w g) = (fst (m g), with_more w g))"

lemma reads_basic: "reads (sret x) (sret x)" "reads (sthrow e) (sthrow e)" "reads (srun r) (srun r)"
  by (simp_all add: reads_def sthrow_def)

lemma reads_slift: "(\<And>g w. f' (with_more w g) = f g) \<Longrightarrow> reads (slift f) (slift f')"
  by (simp add: reads_def)

lemma reads_bind: "reads m m' \<Longrightarrow> (\<And>x. reads (k x) (k' x)) \<Longrightarrow> reads (sbind m k) (sbind m' k')"
  unfolding reads_def sbind_def by (auto split: prod.split sum.split) (metis fst_conv snd_conv)+

lemma reads_item:
  "reads (get_valid_node_property_value th i r pc) (get_valid_node_property_value th i r pc)"
  "reads (get_valid_rship_property_value th i r pc) (get_valid_rship_property_value th i r pc)"
  by (auto simp: get_valid_node_property_value_def get_valid_rship_property_value_def get_node_def get_rship_def get_node_property_value_def get_rship_property_value_def
      current_xid_def intro!: reads_bind reads_basic reads_slift)

lemma reads_property: "reads (get_property_value th v i pc) (get_property_value th v i pc)"
  unfolding get_property_value_def
  by (intro reads_bind reads_basic; simp split: query_result.split) (auto intro!: reads_bind reads_basic reads_item)

lemma reads_var: "reads (get_var_value l th v i pc ty) (get_var_value l th v i pc ty)"
proof -
  have "reads (item_string l p) (item_string l p)" for p
    by (cases "pi_type p") (auto simp: item_string_def get_string_def intro!: reads_bind reads_basic reads_slift)
  then show ?thesis unfolding get_var_value_def
    by (cases ty) (auto simp: get_property_int_def get_property_uint64_def get_property_double_def get_property_string_def get_property_ptime_def
      intro!: reads_bind reads_basic reads_property)
qed

lemma var_ref_inside: "fst (var_ref_value l th v x g) = Inr c \<Longrightarrow> var_ref_value l th v x (with_more w g) = (Inr c, with_more w g)"
  using reads_var unfolding reads_def by (metis (no_types))

text \<open>The state inside the block of an operator with variables \<open>s\<close>, when \<open>g\<close> is the state outside.\<close>

abbreviation inside :: "'s \<Rightarrow> 'v graph_db_scheme \<Rightarrow> ('s \<times> 'v) graph_db_scheme" where
  "inside s g \<equiv> with_more (s, graph_db.more g) g"

lemma outer_inside: "outer m (inside s g) = (case m g of (r, h) \<Rightarrow> (r, inside s h))"
  by (simp add: outer_def)

lemma with_local_inside: "act (inside s g) = (r, inside s' h) \<Longrightarrow> with_local s act g = (r, h)"
  by (simp add: with_local_def)

section \<open>The hash join\<close>

definition build_step :: "qhash \<Rightarrow> (qr_tuple \<Rightarrow> query_result) \<Rightarrow> htable join_vars \<Rightarrow> qr_tuple \<Rightarrow> htable join_vars" where
  "build_step qh val s v = (let jval = val v; key = hasher qh jval in case jn_input s key of
       Some vec \<Rightarrow> s\<lparr>jn_input := (jn_input s)(key \<mapsto> vec @ [(jval, v)])\<rparr>
     | None \<Rightarrow> s\<lparr>jn_input := (jn_input s)(key \<mapsto> [(jval, v)])\<rparr>)"

definition probe_out :: "qhash \<Rightarrow> (qr_tuple \<Rightarrow> query_result) \<Rightarrow> htable join_vars \<Rightarrow> qr_tuple \<Rightarrow> qr_tuple list" where
  "probe_out qh val s v = (case jn_input s (hasher qh (val v)) of None \<Rightarrow> []
     | Some vec \<Rightarrow> map (\<lambda>(j, inp). inp @ v) (filter (\<lambda>(j, inp). variant_equal (val v) j) vec))"

lemma build_run:
  "\<forall>v\<in>set vs. fst (var_ref_value l th v x g) = Inr (val v) \<Longrightarrow>
   for_each (hash_join_build l qh th x) vs (inside s g) = (Inr (), inside (foldl (build_step qh val) s vs) g)"
proof (induction vs arbitrary: s)
  case (Cons v vs)
  have "hash_join_build l qh th x v (inside s g) = (Inr (), inside (build_step qh val s v) g)"
    using Cons.prems by (simp add: hash_join_build_def sbind_def var_ref_inside upd_local_run build_step_def Let_def split: option.split)
  then show ?case using Cons by (simp add: sbind_def)
qed simp

lemma probe_run:
  assumes "fst (var_ref_value l th v y h) = Inr (val v)"
  shows "hash_join_probe l qh th y consume v (inside s h) = outer (for_each consume (probe_out qh val s v)) (inside s h)"
  using assms
  by (simp add: hash_join_probe_def sbind_def var_ref_inside get_local_run probe_out_def
      for_each_select [of "\<lambda>j _. variant_equal (val v) j" consume "\<lambda>_ inp. inp @ v"] split: option.split)

lemma probes_run:
  assumes keeps: "\<And>h w. P h \<Longrightarrow> P (snd (consume w h))"
    and val: "\<And>h v. P h \<Longrightarrow> v \<in> set vs \<Longrightarrow> fst (var_ref_value l th v y h) = Inr (val v)" and "P h"
  shows "for_each (hash_join_probe l qh th y consume) vs (inside s h) = outer (for_each consume (concat (map (probe_out qh val s) vs))) (inside s h)"
  using val \<open>P h\<close>
proof (induction vs arbitrary: h)
  case (Cons v vs)
  let ?ws = "probe_out qh val s v"
  have "P (snd (for_each consume ?ws h))" by (rule for_each_keeps [where P = P]) (use keeps Cons.prems(2) in simp_all)
  then show ?case using Cons.IH Cons.prems probe_run [of l th v y h val qh consume s]
    by (auto simp: sbind_def outer_inside for_each_append split: prod.split sum.split)
qed simp

text \<open>The table holds the tuples of the build side under the hash of their value, in the order they came.\<close>

lemma build_steps:
  "jn_input (foldl (build_step qh val) s vs) k = (case jn_input s k of
     None \<Rightarrow> (case filter (\<lambda>v. hasher qh (val v) = k) vs of [] \<Rightarrow> None | ws \<Rightarrow> Some (map (\<lambda>v. (val v, v)) ws))
   | Some vec \<Rightarrow> Some (vec @ map (\<lambda>v. (val v, v)) (filter (\<lambda>v. hasher qh (val v) = k) vs)))"
  by (induction vs arbitrary: s) (auto simp: build_step_def Let_def split: option.split list.split)

lemma variant_equal_hasher:
  assumes "\<And>d e. d_eq d e \<Longrightarrow> qh_double qh d = qh_double qh e" "variant_equal v w"
  shows "hasher qh v = hasher qh w"
  using assms by (cases v; cases w) (auto simp: variant_equal_def hasher_def)

lemma probe_out_built:
  assumes "\<And>d e. d_eq d e \<Longrightarrow> qh_double qh d = qh_double qh e"
  shows "probe_out qh rv (foldl (build_step qh lv) (join_vars_new Map.empty) ls) v = map (\<lambda>inp. inp @ v) (filter (\<lambda>inp. variant_equal (rv v) (lv inp)) ls)"
proof -
  have "filter (\<lambda>inp. variant_equal (rv v) (lv inp)) (filter (\<lambda>inp. hasher qh (lv inp) = hasher qh (rv v)) ls) = filter (\<lambda>inp. variant_equal (rv v) (lv inp)) ls"
    using variant_equal_hasher [OF assms] by (auto intro!: filter_cong)
  moreover have "probe_out qh rv (foldl (build_step qh lv) (join_vars_new Map.empty) ls) v =
      map (\<lambda>inp. inp @ v) (filter (\<lambda>inp. variant_equal (rv v) (lv inp)) (filter (\<lambda>inp. hasher qh (lv inp) = hasher qh (rv v)) ls))"
    by (auto simp: probe_out_def build_steps join_vars_new_def filter_map o_def simp del: filter_filter split: list.split)
  ultimately show ?thesis by simp
qed

text \<open>
  C19. The hash join is the nested loop over both inputs with the equality of values: for every tuple of the probe side, the tuples of the build side with an equal value,
  in their order, each followed by the tuple of the probe side. The value of a tuple in a join column is what the access to the column gives, a plain value of the tuple or a
  property of its node or relationship; the access succeeds for every tuple, and the operators behind do not change what it gives: they keep a property \<open>P\<close> of the
  state under which the columns have these values. Equal doubles have equal hashes, which \<open>boost::hash\<close> promises.
\<close>

theorem hash_join_nested_loop:
  assumes "P g" and keeps: "\<And>h w. P h \<Longrightarrow> P (snd (consume w h))"
    and left: "\<And>h v. P h \<Longrightarrow> v \<in> set ls \<Longrightarrow> fst (var_ref_value l th v x h) = Inr (lv v)"
    and right: "\<And>h v. P h \<Longrightarrow> v \<in> set rs \<Longrightarrow> fst (var_ref_value l th v y h) = Inr (rv v)"
    and hash: "\<And>d e. d_eq d e \<Longrightarrow> qh_double qh d = qh_double qh e"
  shows "with_local (join_vars_new Map.empty)
      (sbind (for_each (hash_join_build l qh th x) ls) (\<lambda>_. for_each (hash_join_probe l qh th y consume) rs)) g =
    for_each consume (concat (map (\<lambda>v. map (\<lambda>inp. inp @ v) (filter (\<lambda>inp. variant_equal (rv v) (lv inp)) ls)) rs)) g"
proof -
  let ?s = "join_vars_new Map.empty" and ?t = "foldl (build_step qh lv) (join_vars_new Map.empty) ls"
  have "sbind (for_each (hash_join_build l qh th x) ls) (\<lambda>_. for_each (hash_join_probe l qh th y consume) rs) (inside ?s g) =
      outer (for_each consume (concat (map (probe_out qh rv ?t) rs))) (inside ?t g)"
    using build_run [of ls l th x g lv qh ?s] left [OF assms(1)] probes_run [OF keeps right assms(1)] by (simp add: sbind_def)
  moreover obtain r h where rh: "for_each consume (concat (map (probe_out qh rv ?t) rs)) g = (r, h)" by fastforce
  ultimately have "with_local ?s (sbind (for_each (hash_join_build l qh th x) ls) (\<lambda>_. for_each (hash_join_probe l qh th y consume) rs)) g = (r, h)"
    by (intro with_local_inside) (simp add: outer_inside)
  moreover have "probe_out qh rv ?t = (\<lambda>v. map (\<lambda>inp. inp @ v) (filter (\<lambda>inp. variant_equal (rv v) (lv inp)) ls))"
    by (rule ext) (rule probe_out_built [OF hash])
  ultimately show ?thesis using rh by simp
qed

text \<open>The access to a property of a node that has no dirty versions.\<close>

lemma var_ref_node_int:
  assumes "vr_id x < length v" "v ! vr_id x = Q_node (Some (n, Main))" "vr_type x = ET_INT"
    and "holds (g_nodes g) n ob" "\<not> has_dirty_versions ob" "props_hold (g_nprops g) (nd_property_list (body (o_elem ob))) its"
    and "find (\<lambda>it. pi_key it = vr_pcode x) its = Some p" "pi_type p = P_int"
  shows "fst (var_ref_value l th v x g) = Inr (Q_int (sint (ucast (pi_value p) :: 32 word)))"
  using assms props_hold_value [OF assms(6), of "vr_pcode x"]
  by (simp add: get_var_value_def tup_at_def sbind_def get_property_int_def get_property_value_def deref_def get_valid_node_property_value_def get_node_run
      o_get_def get_node_property_value_def item_int_def pi_get_int_def)

definition qhash_demo :: qhash where
  "qhash_demo = \<lparr>qh_int = word_of_int, qh_double = (\<lambda>_. 0), qh_string = (\<lambda>s. of_nat (length s)), qh_uint64 = id, qh_ptime = id\<rparr>"

text \<open>A join of the property 4 of a node with a column of integers, with \<open>collect\<close> behind it.\<close>

theorem hash_join_nested_loop_witness:
  "with_local (join_vars_new Map.empty)
     (sbind (for_each (hash_join_build qlib_demo qhash_demo 1 \<lparr>vr_id = 0, vr_pcode = 4, vr_type = ET_INT\<rparr>) [[Q_node (Some (0, Main))]])
       (\<lambda>_. for_each (hash_join_probe qlib_demo qhash_demo 1 \<lparr>vr_id = 0, vr_pcode = 0, vr_type = ET_INT\<rparr> collect_process) [[Q_int 7], [Q_int 42]]))
     (with_more [] person_demo) =
   collect_process [Q_node (Some (0, Main)), Q_int 42] (with_more [] person_demo)"
proof -
  let ?P = "\<lambda>h :: qr_tuple list graph_db_scheme. g_nodes h = g_nodes person_demo \<and> g_nprops h = g_nprops person_demo"
  let ?x = "\<lparr>vr_id = 0, vr_pcode = 4, vr_type = ET_INT\<rparr>" and ?y = "\<lparr>vr_id = 0, vr_pcode = 0, vr_type = ET_INT\<rparr>"
  have left: "fst (var_ref_value qlib_demo 1 v ?x h) = Inr (Q_int 42)" if "?P h" "v \<in> set [[Q_node (Some (0, Main))]]" for h :: "qr_tuple list graph_db_scheme" and v
    using var_ref_node_int [of ?x v 0 h person_node person_items "\<lparr>pi_value = 42, pi_key = 4, pi_type = P_int\<rparr>" qlib_demo 1] that person_demo_holds
    by (simp add: person_node_def has_dirty_versions_def versions_def person_items_def)
  have right: "fst (var_ref_value qlib_demo 1 v ?y h) = Inr (v ! 0)" if "v \<in> set [[Q_int 7], [Q_int 42]]" for h :: "qr_tuple list graph_db_scheme" and v
    using that by (auto simp: get_var_value_def tup_at_def sbind_def)
  have "with_local (join_vars_new Map.empty)
     (sbind (for_each (hash_join_build qlib_demo qhash_demo 1 ?x) [[Q_node (Some (0, Main))]]) (\<lambda>_. for_each (hash_join_probe qlib_demo qhash_demo 1 ?y collect_process) [[Q_int 7], [Q_int 42]]))
       (with_more [] person_demo) =
    for_each collect_process (concat (map (\<lambda>v. map (\<lambda>inp. inp @ v) (filter (\<lambda>inp. variant_equal (v ! 0) (Q_int 42)) [[Q_node (Some (0, Main))]])) [[Q_int 7], [Q_int 42]]))
       (with_more [] person_demo)"
    by (rule hash_join_nested_loop [where P = ?P]) (use left right in \<open>simp_all add: collect_process_def qhash_demo_def\<close>)
  then show ?thesis by (simp add: variant_equal_def)
qed

end
