(* ===== verification/Query_Aggr.thy ===== *)
theory Query_Aggr
  imports Query_Push "HOL-Library.AList"
begin

text \<open>
  Aggregation and grouping, \<^verbatim>\<open>src/src/query/plan_op/qop_aggregates.cpp\<close>, in interpreted mode: the buffer for compiled code is absent. The iteration order of the hash table of groups is
  unspecified and is the parameter \<open>iter\<close>; the hash functions of the library are the parameter \<open>qh\<close>.
\<close>

section \<open>Aggregate expressions\<close>

datatype aggr_func = F_count | F_sum | F_min | F_max | F_avg

record aggr_expr =
  ae_func :: aggr_func
  ae_var :: nat
  ae_property :: string
  ae_pkey :: dcode_t
  ae_type :: qr_type

datatype aggr_val = A_double double | A_int int | A_uint64 "64 word" | A_string string | A_pair double int

definition get_int_value :: "nat \<Rightarrow> qr_tuple \<Rightarrow> nat \<Rightarrow> dcode_t \<Rightarrow> ('q, int) gact" where
  "get_int_value th v var pkey = (if pkey = UNKNOWN_CODE then srun (rbind (tup_at v var) qv_get_int) else get_property_int th v var pkey)"

definition get_ptime_value :: "nat \<Rightarrow> qr_tuple \<Rightarrow> nat \<Rightarrow> dcode_t \<Rightarrow> ('q, 64 word) gact" where
  "get_ptime_value th v var pkey = (if pkey = UNKNOWN_CODE then srun (rbind (tup_at v var) qv_get_ptime) else get_property_ptime th v var pkey)"

definition get_double_value :: "nat \<Rightarrow> qr_tuple \<Rightarrow> nat \<Rightarrow> dcode_t \<Rightarrow> ('q, double) gact" where
  "get_double_value th v var pkey =
     (if pkey \<noteq> UNKNOWN_CODE then get_property_double th v var pkey
      else srun (rbind (tup_at v var) (\<lambda>qv. case qv of Q_int i \<Rightarrow> Inr (d_of_int i) | _ \<Rightarrow> qv_get_double qv)))"

definition get_string_value :: "qlib \<Rightarrow> nat \<Rightarrow> qr_tuple \<Rightarrow> nat \<Rightarrow> dcode_t \<Rightarrow> ('q, string) gact" where
  "get_string_value l th v var pkey = (if pkey = UNKNOWN_CODE then srun (rbind (tup_at v var) qv_get_string) else get_property_string l th v var pkey)"

definition get_uint64_value :: "nat \<Rightarrow> qr_tuple \<Rightarrow> nat \<Rightarrow> dcode_t \<Rightarrow> ('q, 64 word) gact" where
  "get_uint64_value th v var pkey = (if pkey = UNKNOWN_CODE then srun (rbind (tup_at v var) qv_get_uint64) else get_property_uint64 th v var pkey)"

text \<open>\<open>boost::get\<close> on the values of aggregates.\<close>

fun a_int :: "aggr_val \<Rightarrow> int result" where
  "a_int (A_int i) = Inr i"
| "a_int _ = Inl Bad_get"

fun a_double :: "aggr_val \<Rightarrow> double result" where
  "a_double (A_double d) = Inr d"
| "a_double _ = Inl Bad_get"

fun a_uint64 :: "aggr_val \<Rightarrow> 64 word result" where
  "a_uint64 (A_uint64 u) = Inr u"
| "a_uint64 _ = Inl Bad_get"

fun a_string :: "aggr_val \<Rightarrow> string result" where
  "a_string (A_string s) = Inr s"
| "a_string _ = Inl Bad_get"

fun a_pair :: "aggr_val \<Rightarrow> (double \<times> int) result" where
  "a_pair (A_pair d n) = Inr (d, n)"
| "a_pair _ = Inl Bad_get"

text \<open>The numeric limits of the C++ library; \<open>numeric_limits<double>::min()\<close> is the least positive normalized number.\<close>

definition INT_MAX :: int where
  "INT_MAX = 2 ^ 31 - 1"

definition INT_MIN :: int where
  "INT_MIN = - (2 ^ 31)"

definition DBL_MIN :: double where
  "DBL_MIN = Finite False (1 / 2 ^ 1022)"

definition min_start :: "aggr_val \<Rightarrow> qr_type \<Rightarrow> aggr_val" where
  "min_start a ty = (case ty of T_int \<Rightarrow> A_int INT_MAX | T_double \<Rightarrow> A_double (Finite False DBL_MAX) | T_string \<Rightarrow> A_string ''~~~~~~~~~~~~~~~''
     | T_uint64 \<Rightarrow> A_uint64 (- 1) | _ \<Rightarrow> a)"

definition max_start :: "aggr_val \<Rightarrow> qr_type \<Rightarrow> aggr_val" where
  "max_start a ty = (case ty of T_int \<Rightarrow> A_int INT_MIN | T_double \<Rightarrow> A_double DBL_MIN | T_string \<Rightarrow> A_string ''                ''
     | T_uint64 \<Rightarrow> A_uint64 0 | _ \<Rightarrow> a)"

text \<open>The first value of an aggregate of \<open>aggregate\<close>; \<open>a\<close> is the value of the variant before.\<close>

definition init_value :: "aggr_val \<Rightarrow> aggr_expr \<Rightarrow> aggr_val" where
  "init_value a ex = (case ae_func ex of
     F_count \<Rightarrow> A_int 0
   | F_avg \<Rightarrow> A_pair (Finite False 0) 0
   | F_sum \<Rightarrow> (case ae_type ex of T_int \<Rightarrow> A_int 0 | T_double \<Rightarrow> A_double (Finite False 0) | T_uint64 \<Rightarrow> A_uint64 0 | _ \<Rightarrow> a)
   | F_min \<Rightarrow> min_start a (ae_type ex)
   | F_max \<Rightarrow> max_start a (ae_type ex))"

definition aggr_code :: "hash \<Rightarrow> string \<Rightarrow> ('q, dcode_t) gact" where
  "aggr_code h property = (if property = [] then sret UNKNOWN_CODE else get_code h property)"

fun init_codes :: "hash \<Rightarrow> aggr_expr list \<Rightarrow> ('q, aggr_expr list) gact" where
  "init_codes h [] = sret []"
| "init_codes h (ex # exs) = sbind (aggr_code h (ae_property ex)) (\<lambda>c. sbind (init_codes h exs) (\<lambda>exs'. sret (ex\<lparr>ae_pkey := c\<rparr> # exs')))"

text \<open>The constructor: the expressions with their codes, and the first values.\<close>

definition aggregate_new :: "hash \<Rightarrow> aggr_expr list \<Rightarrow> ('q, aggr_expr list \<times> aggr_val list) gact" where
  "aggregate_new h exs = sbind (init_codes h exs) (\<lambda>exs'. sret (exs', map (init_value (A_double (Finite False 0))) exs'))"

section \<open>One more tuple\<close>

definition std_min :: "('a \<Rightarrow> 'a \<Rightarrow> bool) \<Rightarrow> 'a \<Rightarrow> 'a \<Rightarrow> 'a" where
  "std_min lt a b = (if lt b a then b else a)"

definition std_max :: "('a \<Rightarrow> 'a \<Rightarrow> bool) \<Rightarrow> 'a \<Rightarrow> 'a \<Rightarrow> 'a" where
  "std_max lt a b = (if lt a b then b else a)"

text \<open>A value is combined with the value of the tuple.\<close>

definition combine :: "'a result \<Rightarrow> ('q, 'a) gact \<Rightarrow> ('a \<Rightarrow> 'a \<Rightarrow> 'b result) \<Rightarrow> ('q, 'b) gact" where
  "combine a x f = sbind (srun a) (\<lambda>y. sbind x (\<lambda>z. srun (f y z)))"

text \<open>\<open>pick\<close> is \<open>std::min\<close> or \<open>std::max\<close>; it gets the order of the type.\<close>

definition update_extreme ::
  "qlib \<Rightarrow> nat \<Rightarrow> aggr_expr \<Rightarrow> ((int \<Rightarrow> int \<Rightarrow> bool) \<Rightarrow> int \<Rightarrow> int \<Rightarrow> int) \<Rightarrow> ((double \<Rightarrow> double \<Rightarrow> bool) \<Rightarrow> double \<Rightarrow> double \<Rightarrow> double) \<Rightarrow>
   ((string \<Rightarrow> string \<Rightarrow> bool) \<Rightarrow> string \<Rightarrow> string \<Rightarrow> string) \<Rightarrow> ((64 word \<Rightarrow> 64 word \<Rightarrow> bool) \<Rightarrow> 64 word \<Rightarrow> 64 word \<Rightarrow> 64 word) \<Rightarrow>
   aggr_val \<Rightarrow> qr_tuple \<Rightarrow> ('q, aggr_val) gact" where
  "update_extreme l th ex mi md ms mu a v = (case ae_type ex of
     T_int \<Rightarrow> combine (a_int a) (get_int_value th v (ae_var ex) (ae_pkey ex)) (\<lambda>x y. Inr (A_int (mi (<) x y)))
   | T_double \<Rightarrow> combine (a_double a) (get_double_value th v (ae_var ex) (ae_pkey ex)) (\<lambda>x y. Inr (A_double (md d_less x y)))
   | T_string \<Rightarrow> combine (a_string a) (get_string_value l th v (ae_var ex) (ae_pkey ex)) (\<lambda>x y. Inr (A_string (ms string_less x y)))
   | T_uint64 \<Rightarrow> combine (a_uint64 a) (get_uint64_value th v (ae_var ex) (ae_pkey ex)) (\<lambda>x y. Inr (A_uint64 (mu (<) x y)))
   | _ \<Rightarrow> sret a)"

definition update_value :: "qlib \<Rightarrow> nat \<Rightarrow> aggr_expr \<Rightarrow> aggr_val \<Rightarrow> qr_tuple \<Rightarrow> ('q, aggr_val) gact" where
  "update_value l th ex a v = (case ae_func ex of
     F_count \<Rightarrow> srun (rbind (a_int a) (\<lambda>i. rbind (int_range (i + 1)) (\<lambda>j. Inr (A_int j))))
   | F_sum \<Rightarrow> (case ae_type ex of
       T_int \<Rightarrow> combine (a_int a) (get_int_value th v (ae_var ex) (ae_pkey ex)) (\<lambda>x y. rbind (int_range (x + y)) (\<lambda>j. Inr (A_int j)))
     | T_double \<Rightarrow> combine (a_double a) (get_double_value th v (ae_var ex) (ae_pkey ex)) (\<lambda>x y. Inr (A_double (d_plus x y)))
     | _ \<Rightarrow> sret a)
   | F_min \<Rightarrow> update_extreme l th ex std_min std_min std_min std_min a v
   | F_max \<Rightarrow> update_extreme l th ex std_max std_max std_max std_max a v
   | F_avg \<Rightarrow> sbind (srun (a_pair a)) (\<lambda>(d, n).
       sbind (get_double_value th v (ae_var ex) (ae_pkey ex)) (\<lambda>x. srun (rbind (int_range (n + 1)) (\<lambda>m. Inr (A_pair (d_plus d x) m))))))"

text \<open>\<open>aggregate\<close> changes its values one by one: what was changed before an exception remains.\<close>

definition aggregate_process :: "qlib \<Rightarrow> nat \<Rightarrow> aggr_expr list \<Rightarrow> (aggr_val list \<times> 'v) consume_func" where
  "aggregate_process l th exs v = for_each (\<lambda>i. sbind get_local (\<lambda>vals. sbind (update_value l th (exs ! i) (vals ! i) v)
     (\<lambda>a. upd_local (\<lambda>vals. vals[i := a])))) [0..<length exs]"

section \<open>Results\<close>

definition extreme_result :: "aggr_expr \<Rightarrow> aggr_val \<Rightarrow> query_result list result" where
  "extreme_result ex a = (case ae_type ex of
     T_int \<Rightarrow> rbind (a_int a) (\<lambda>i. Inr [Q_int i])
   | T_double \<Rightarrow> rbind (a_double a) (\<lambda>d. Inr [Q_double d])
   | T_string \<Rightarrow> rbind (a_string a) (\<lambda>s. Inr [Q_string s])
   | T_uint64 \<Rightarrow> rbind (a_uint64 a) (\<lambda>u. Inr [Q_uint64 u])
   | _ \<Rightarrow> Inr [])"

text \<open>The result of an aggregate; for some combinations of function and type the code has none.\<close>

definition aggr_result :: "aggr_expr \<Rightarrow> aggr_val \<Rightarrow> query_result list result" where
  "aggr_result ex a = (case ae_func ex of
     F_count \<Rightarrow> rbind (a_int a) (\<lambda>i. Inr [Q_int i])
   | F_sum \<Rightarrow> (case ae_type ex of
       T_int \<Rightarrow> rbind (a_int a) (\<lambda>i. Inr [Q_int i])
     | T_double \<Rightarrow> rbind (a_double a) (\<lambda>d. Inr [Q_double d])
     | _ \<Rightarrow> Inr [])
   | F_avg \<Rightarrow> rbind (a_pair a) (\<lambda>(d, n). Inr [Q_double (d_div d (d_of_int n))])
   | F_min \<Rightarrow> extreme_result ex a
   | F_max \<Rightarrow> extreme_result ex a)"

fun rmap :: "('a \<Rightarrow> 'b result) \<Rightarrow> 'a list \<Rightarrow> 'b list result" where
  "rmap f [] = Inr []"
| "rmap f (x # xs) = rbind (f x) (\<lambda>y. rbind (rmap f xs) (\<lambda>ys. Inr (y # ys)))"

text \<open>In the result tuple of \<open>aggregate\<close> an aggregate without result keeps the default value.\<close>

definition or_default :: "query_result list \<Rightarrow> query_result" where
  "or_default qs = (case qs of [] \<Rightarrow> qv_default | q # _ \<Rightarrow> q)"

definition aggregate_finish :: "aggr_expr list \<Rightarrow> 'v consume_func \<Rightarrow> ('v, unit) gact \<Rightarrow> (aggr_val list \<times> 'v, unit) gact" where
  "aggregate_finish exs consume fin =
     sbind get_local (\<lambda>vals.
     sbind (srun (rmap (\<lambda>(ex, a). rbind (aggr_result ex a) (\<lambda>qs. Inr (or_default qs))) (zip exs vals))) (\<lambda>v.
     sbind (outer (consume v)) (\<lambda>_. outer fin)))"

section \<open>Grouping\<close>

record group_expr =
  gb_var :: nat
  gb_property :: string
  gb_pkey :: dcode_t
  gb_type :: qr_type

fun group_codes :: "hash \<Rightarrow> group_expr list \<Rightarrow> ('q, group_expr list) gact" where
  "group_codes h [] = sret []"
| "group_codes h (gr # grs) = sbind (aggr_code h (gb_property gr)) (\<lambda>c. sbind (group_codes h grs) (\<lambda>grs'. sret (gr\<lparr>gb_pkey := c\<rparr> # grs')))"

definition group_by_new :: "hash \<Rightarrow> group_expr list \<Rightarrow> aggr_expr list \<Rightarrow> ('q, group_expr list \<times> aggr_expr list) gact" where
  "group_by_new h grs exs = sbind (init_codes h exs) (\<lambda>exs'. sbind (group_codes h grs) (\<lambda>grs'. sret (grs', exs')))"

text \<open>The mixing step of the hash; \<open>0x9e3779b9\<close> is a 32-bit constant, and an \<open>int\<close> is added to it in 32 bits.\<close>

unbundle bit_operations_syntax

definition mix :: "64 word \<Rightarrow> 64 word \<Rightarrow> 64 word" where
  "mix h x = h XOR (x + push_bit 6 h + drop_bit 2 h)"

definition GOLDEN :: "64 word" where
  "GOLDEN = 0x9e3779b9"

definition group_value :: "qlib \<Rightarrow> nat \<Rightarrow> qr_tuple \<Rightarrow> group_expr \<Rightarrow> ('q, query_result list) gact" where
  "group_value l th v gr = (case gb_type gr of
     T_int \<Rightarrow> sbind (get_int_value th v (gb_var gr) (gb_pkey gr)) (\<lambda>x. sret [Q_int x])
   | T_uint64 \<Rightarrow> sbind (get_uint64_value th v (gb_var gr) (gb_pkey gr)) (\<lambda>x. sret [Q_uint64 x])
   | T_string \<Rightarrow> sbind (get_string_value l th v (gb_var gr) (gb_pkey gr)) (\<lambda>x. sret [Q_string x])
   | T_double \<Rightarrow> sbind (get_double_value th v (gb_var gr) (gb_pkey gr)) (\<lambda>x. sret [Q_double x])
   | T_ptime \<Rightarrow> sbind (get_ptime_value th v (gb_var gr) (gb_pkey gr)) (\<lambda>x. sret [Q_ptime x])
   | _ \<Rightarrow> sret [])"

text \<open>A value of a group with a property is read with its code, otherwise the element itself is taken.\<close>

definition group_operand :: "('q, 'a) gact \<Rightarrow> (query_result \<Rightarrow> 'a result) \<Rightarrow> qr_tuple \<Rightarrow> group_expr \<Rightarrow> ('q, 'a) gact" where
  "group_operand read get v gr = (if gb_property gr \<noteq> [] then read else srun (rbind (tup_at v (gb_var gr)) get))"

definition group_mix :: "qlib \<Rightarrow> qhash \<Rightarrow> nat \<Rightarrow> qr_tuple \<Rightarrow> group_expr \<Rightarrow> 64 word \<Rightarrow> ('q, 64 word) gact" where
  "group_mix l qh th v gr h = (case gb_type gr of
     T_node_ptr \<Rightarrow> sbind (srun (rbind (rbind (tup_at v (gb_var gr)) qv_get_node) deref)) (\<lambda>(i, r). sbind (node_at i r) (\<lambda>e. sret (h XOR of_nat (nd_id (body e)))))
   | T_rship_ptr \<Rightarrow> sbind (srun (rbind (rbind (tup_at v (gb_var gr)) qv_get_relationship) deref)) (\<lambda>(i, r). sbind (rship_at i r) (\<lambda>e. sret (h XOR of_nat (rs_id (body e)))))
   | T_int \<Rightarrow> sbind (group_operand (get_int_value th v (gb_var gr) (gb_pkey gr)) qv_get_int v gr) (\<lambda>i. sret (mix h (ucast (word_of_int i + 0x9e3779b9 :: 32 word))))
   | T_uint64 \<Rightarrow> sbind (group_operand (get_uint64_value th v (gb_var gr) (gb_pkey gr)) qv_get_uint64 v gr) (\<lambda>u. sret (mix h (u + GOLDEN)))
   | T_double \<Rightarrow> sbind (group_operand (get_double_value th v (gb_var gr) (gb_pkey gr)) qv_get_double v gr) (\<lambda>d. sret (mix h (qh_double qh d + GOLDEN)))
   | T_string \<Rightarrow> sbind (group_operand (get_string_value l th v (gb_var gr) (gb_pkey gr)) qv_get_string v gr) (\<lambda>s. sret (mix h (qh_string qh s + GOLDEN)))
   | T_ptime \<Rightarrow> sbind (group_operand (get_ptime_value th v (gb_var gr) (gb_pkey gr)) qv_get_ptime v gr) (\<lambda>p. sret (h XOR qh_ptime qh p))
   | _ \<Rightarrow> sret h)"

fun group_hasher :: "qlib \<Rightarrow> qhash \<Rightarrow> nat \<Rightarrow> qr_tuple \<Rightarrow> group_expr list \<Rightarrow> 64 word \<Rightarrow> ('q, 64 word) gact" where
  "group_hasher l qh th v [] h = sret h"
| "group_hasher l qh th v (gr # grs) h =
     (if length v \<le> gb_var gr then sthrow Undefined_behaviour else sbind (group_mix l qh th v gr h) (group_hasher l qh th v grs))"

text \<open>The first value of an aggregate of \<open>group_by\<close>.\<close>

definition group_init_value :: "aggr_expr \<Rightarrow> aggr_val" where
  "group_init_value ex = (case ae_func ex of
     F_count \<Rightarrow> A_int 0
   | F_avg \<Rightarrow> A_pair (Finite False 0) 0
   | F_sum \<Rightarrow> (case ae_type ex of T_double \<Rightarrow> A_double (Finite False 0) | _ \<Rightarrow> A_int 0)
   | F_min \<Rightarrow> min_start (A_double (Finite False 0)) (ae_type ex)
   | F_max \<Rightarrow> max_start (A_double (Finite False 0)) (ae_type ex))"

fun update_aggregates :: "qlib \<Rightarrow> nat \<Rightarrow> aggr_expr list \<Rightarrow> aggr_val list \<Rightarrow> qr_tuple \<Rightarrow> ('q, aggr_val list) gact" where
  "update_aggregates l th (ex # exs) (a # as) v =
     sbind (update_value l th ex a v) (\<lambda>b. sbind (update_aggregates l th exs as v) (\<lambda>bs. sret (b # bs)))"
| "update_aggregates l th exs as v = sret []"

record group_vars =
  gv_keys :: "64 word \<Rightarrow> qr_tuple option"
  gv_vals :: "(64 word \<times> aggr_val list) list"

definition group_vars_new :: group_vars where
  "group_vars_new = \<lparr>gv_keys = Map.empty, gv_vals = []\<rparr>"

fun group_key :: "qlib \<Rightarrow> nat \<Rightarrow> qr_tuple \<Rightarrow> group_expr list \<Rightarrow> ('q, qr_tuple) gact" where
  "group_key l th v [] = sret []"
| "group_key l th v (gr # grs) = sbind (group_value l th v gr) (\<lambda>x. sbind (group_key l th v grs) (\<lambda>xs. sret (x @ xs)))"

text \<open>\<open>emplace\<close> keeps an entry that is there.\<close>

definition emplace :: "'k \<Rightarrow> 'a \<Rightarrow> ('k \<Rightarrow> 'a option) \<Rightarrow> ('k \<Rightarrow> 'a option)" where
  "emplace k x m = (if m k = None then m(k \<mapsto> x) else m)"

definition group_by_process :: "qlib \<Rightarrow> qhash \<Rightarrow> nat \<Rightarrow> group_expr list \<Rightarrow> aggr_expr list \<Rightarrow> (group_vars \<times> 'v) consume_func" where
  "group_by_process l qh th grs exs v =
     sbind (group_hasher l qh th v grs 0) (\<lambda>key.
     sbind get_local (\<lambda>s.
     sbind (case map_of (gv_vals s) key of
         None \<Rightarrow> sbind (group_key l th v grs) (\<lambda>v2. sbind (upd_local (\<lambda>s. s\<lparr>gv_keys := emplace key v2 (gv_keys s)\<rparr>)) (\<lambda>_. sret (map group_init_value exs)))
       | Some aval \<Rightarrow> sret aval) (\<lambda>aval.
     sbind (update_aggregates l th exs aval v) (\<lambda>aval'. upd_local (\<lambda>s. s\<lparr>gv_vals := AList.update key aval' (gv_vals s)\<rparr>)))))"

text \<open>The values of the key in the result: those of groups with a property are checked for the type of the group at the same position.\<close>

definition key_column :: "group_expr \<Rightarrow> query_result \<Rightarrow> query_result list result" where
  "key_column gr q = (if gb_pkey gr \<noteq> UNKNOWN_CODE then (case gb_type gr of
       T_int \<Rightarrow> rbind (qv_get_int q) (\<lambda>x. Inr [Q_int x])
     | T_double \<Rightarrow> rbind (qv_get_double q) (\<lambda>x. Inr [Q_double x])
     | T_string \<Rightarrow> rbind (qv_get_string q) (\<lambda>x. Inr [Q_string x])
     | T_uint64 \<Rightarrow> rbind (qv_get_uint64 q) (\<lambda>x. Inr [Q_uint64 x])
     | T_ptime \<Rightarrow> rbind (qv_get_ptime q) (\<lambda>x. Inr [Q_ptime x])
     | _ \<Rightarrow> Inr [])
   else Inr [q])"

definition group_row :: "group_expr list \<Rightarrow> aggr_expr list \<Rightarrow> (64 word \<Rightarrow> qr_tuple option) \<Rightarrow> 64 word \<times> aggr_val list \<Rightarrow> qr_tuple result" where
  "group_row grs exs keys e = (case keys (fst e) of
     None \<Rightarrow> Inl Assertion_failed
   | Some tup \<Rightarrow>
       rbind (rmap (\<lambda>(gr, q). key_column gr q) (zip grs tup)) (\<lambda>ks.
       rbind (rmap (\<lambda>(ex, a). aggr_result ex a) (zip exs (snd e))) (\<lambda>as. Inr (concat ks @ concat as))))"

definition group_by_finish ::
  "((64 word \<times> aggr_val list) list \<Rightarrow> (64 word \<times> aggr_val list) list) \<Rightarrow> group_expr list \<Rightarrow> aggr_expr list \<Rightarrow> 'v consume_func \<Rightarrow> ('v, unit) gact \<Rightarrow>
   (group_vars \<times> 'v, unit) gact" where
  "group_by_finish iter grs exs consume fin =
     sbind get_local (\<lambda>s.
     sbind (for_each (\<lambda>e. sbind (srun (group_row grs exs (gv_keys s) e)) (\<lambda>v. outer (consume v))) (iter (gv_vals s))) (\<lambda>_. outer fin))"

end
