(* ===== verification/Query_Sort.thy ===== *)
theory Query_Sort
  imports Query_Push "HOL-Library.Multiset"
begin

text \<open>
  The order of tuples, and correctness of \<open>order_by\<close>: the operator behind it gets a sorted permutation of the input in which tuples that compare equal keep
  their order. The comparison of a sort specification is lexicographic over its entries, each ascending or descending.
\<close>

section \<open>Comparisons\<close>

text \<open>A comparison returns a negative number, zero or a positive number; its laws hold for the elements with \<open>P\<close>.\<close>

locale comparison =
  fixes cmp :: "'a \<Rightarrow> 'a \<Rightarrow> int" and P :: "'a \<Rightarrow> bool"
  assumes swap: "P x \<Longrightarrow> P y \<Longrightarrow> cmp y x = - cmp x y"
    and le_trans: "P x \<Longrightarrow> P y \<Longrightarrow> P z \<Longrightarrow> cmp x y \<le> 0 \<Longrightarrow> cmp y z \<le> 0 \<Longrightarrow> cmp x z \<le> 0"
begin

lemma refl: "P x \<Longrightarrow> cmp x x = 0"
  using swap [of x x] by simp

lemma less_le_trans: "P x \<Longrightarrow> P y \<Longrightarrow> P z \<Longrightarrow> cmp x y < 0 \<Longrightarrow> cmp y z \<le> 0 \<Longrightarrow> cmp x z < 0"
  using le_trans [of x y z] le_trans [of y z x] swap [of x y] swap [of x z] by linarith

lemma le_less_trans: "P x \<Longrightarrow> P y \<Longrightarrow> P z \<Longrightarrow> cmp x y \<le> 0 \<Longrightarrow> cmp y z < 0 \<Longrightarrow> cmp x z < 0"
  using le_trans [of x y z] le_trans [of z x y] swap [of y z] swap [of x z] by linarith

lemma eq_eq: "P x \<Longrightarrow> P y \<Longrightarrow> P z \<Longrightarrow> cmp x y = 0 \<Longrightarrow> (cmp x z = 0) = (cmp y z = 0)"
  using le_trans [of x y z] le_trans [of y x z] le_trans [of z y x] le_trans [of z x y] swap [of x y] swap [of x z] swap [of y z] by linarith

end

text \<open>Insertion sort with such a comparison, without effects.\<close>

fun insert_cmp :: "('a \<Rightarrow> 'a \<Rightarrow> int) \<Rightarrow> 'a \<Rightarrow> 'a list \<Rightarrow> 'a list" where
  "insert_cmp c x [] = [x]"
| "insert_cmp c x (y # ys) = (if c y x < 0 then y # insert_cmp c x ys else x # y # ys)"

definition sort_cmp :: "('a \<Rightarrow> 'a \<Rightarrow> int) \<Rightarrow> 'a list \<Rightarrow> 'a list" where
  "sort_cmp c xs = foldr (insert_cmp c) xs []"

lemma insert_cmp_mset [simp]: "mset (insert_cmp c x ys) = add_mset x (mset ys)"
  by (induction ys) auto

lemma insert_cmp_set [simp]: "set (insert_cmp c x ys) = insert x (set ys)"
  by (metis insert_cmp_mset set_mset_add_mset_insert set_mset_mset)

lemma sort_cmp_simps [simp]: "sort_cmp c [] = []" "sort_cmp c (x # xs) = insert_cmp c x (sort_cmp c xs)"
  by (simp_all add: sort_cmp_def)

lemma sort_cmp_mset [simp]: "mset (sort_cmp c xs) = mset xs"
  by (induction xs) simp_all

lemma sort_cmp_set [simp]: "set (sort_cmp c xs) = set xs"
  by (metis sort_cmp_mset set_mset_mset)

context comparison
begin

lemma insert_sorted:
  assumes "P x" "list_all P ys" "sorted_wrt (\<lambda>a b. cmp a b \<le> 0) ys"
  shows "sorted_wrt (\<lambda>a b. cmp a b \<le> 0) (insert_cmp cmp x ys)"
  using assms
proof (induction ys)
  case (Cons y ys)
  then have y: "P y" "\<forall>z\<in>set ys. P z" by (auto simp: list_all_iff)
  show ?case
  proof (cases "cmp y x < 0")
    case True
    then show ?thesis using Cons by simp
  next
    case False
    then have "cmp x y \<le> 0" using swap [OF Cons.prems(1) y(1)] by simp
    then show ?thesis using False Cons.prems y le_trans [of x y] by auto
  qed
qed simp

lemma insert_stable:
  assumes "P x" "list_all P ys" "P z"
  shows "filter (\<lambda>a. cmp z a = 0) (insert_cmp cmp x ys) = filter (\<lambda>a. cmp z a = 0) (x # ys)"
  using assms
proof (induction ys)
  case (Cons y ys)
  then have y: "P y" "list_all P ys" by auto
  have "\<not> (cmp z x = 0 \<and> cmp z y = 0)" if "cmp y x < 0"
    using that less_le_trans [of y x z] swap [of z x] swap [of z y] Cons.prems y by auto
  then show ?case using Cons by auto
qed simp

lemma sort_sorted: "list_all P xs \<Longrightarrow> sorted_wrt (\<lambda>a b. cmp a b \<le> 0) (sort_cmp cmp xs)"
  by (induction xs) (auto simp: list_all_iff intro!: insert_sorted)

lemma sort_stable: "list_all P xs \<Longrightarrow> P z \<Longrightarrow> filter (\<lambda>a. cmp z a = 0) (sort_cmp cmp xs) = filter (\<lambda>a. cmp z a = 0) xs"
  by (induction xs) (auto simp: list_all_iff insert_stable)

text \<open>The result of the code's sort with a comparison function that agrees with \<open>cmp\<close>.\<close>

lemma insert_by_run:
  assumes "P x" "list_all P ys" "\<And>a b. P a \<Longrightarrow> P b \<Longrightarrow> lt a b = sret (cmp a b < 0)"
  shows "insert_by lt x ys = sret (insert_cmp cmp x ys)"
  using assms by (induction ys) (simp_all del: sret_apply)

lemma sort_by_run:
  assumes "list_all P xs" "\<And>a b. P a \<Longrightarrow> P b \<Longrightarrow> lt a b = sret (cmp a b < 0)"
  shows "sort_by lt xs = sret (sort_cmp cmp xs)"
  using assms
proof (induction xs)
  case (Cons x xs)
  then show ?case using insert_by_run [of x "sort_cmp cmp xs" lt] by (simp add: list_all_iff del: sret_apply)
qed (simp del: sret_apply)

end

section \<open>Comparison of values and of tuples\<close>

lemma string_less_irrefl [simp]: "\<not> string_less s s"
  by (induction s) auto

lemma string_less_trans: "string_less s t \<Longrightarrow> string_less t u \<Longrightarrow> string_less s u"
proof (induction s t arbitrary: u rule: string_less.induct)
  case (2 c t)
  then show ?case by (cases u) auto
next
  case (3 b s c t)
  then show ?case by (cases u) auto
qed simp

lemma string_less_total: "s \<noteq> t \<Longrightarrow> string_less s t \<or> string_less t s"
  by (induction s t rule: string_less.induct) (auto simp: neq_Nil_conv dest: linorder_neqE_nat)

lemma d_less_total: "x \<noteq> NaN \<Longrightarrow> y \<noteq> NaN \<Longrightarrow> d_less x y \<or> d_eq x y \<or> d_less y x"
  by (cases x; cases y) auto

lemma d_eq_less: "d_eq x y \<Longrightarrow> d_less x z = d_less y z" "d_eq x y \<Longrightarrow> d_less z x = d_less z y"
  by (cases x; cases y; cases z; auto)+

lemma d_eq_sym: "d_eq x y = d_eq y x"
  by (cases x; cases y) auto

lemma d_less_neq: "d_less x y \<Longrightarrow> \<not> d_eq x y"
  by (cases x; cases y) auto

text \<open>The order of time points is linear.\<close>

definition ptime_linear :: "qlib \<Rightarrow> bool" where
  "ptime_linear l \<longleftrightarrow> (\<forall>s. \<not> ql_ptime_lt l s s) \<and> (\<forall>s t. s \<noteq> t \<longrightarrow> ql_ptime_lt l s t \<or> ql_ptime_lt l t s) \<and>
     (\<forall>s t u. ql_ptime_lt l s t \<longrightarrow> ql_ptime_lt l t u \<longrightarrow> ql_ptime_lt l s u)"

definition has_type :: "qr_type \<Rightarrow> query_result \<Rightarrow> bool" where
  "has_type ty v = (case v of Q_int _ \<Rightarrow> ty = T_int | Q_double d \<Rightarrow> ty = T_double \<and> d \<noteq> NaN | Q_string _ \<Rightarrow> ty = T_string | Q_uint64 _ \<Rightarrow> ty = T_uint64
     | Q_ptime _ \<Rightarrow> ty = T_ptime | _ \<Rightarrow> False)"

definition value_cmp :: "qlib \<Rightarrow> qr_type \<Rightarrow> query_result \<Rightarrow> query_result \<Rightarrow> int" where
  "value_cmp l ty v w = projr (cmp_values l ty v w)"

lemma cmp_values_run: "has_type ty v \<Longrightarrow> has_type ty w \<Longrightarrow> cmp_values l ty v w = Inr (value_cmp l ty v w)"
  by (cases v; cases w) (auto simp: has_type_def value_cmp_def cmp_values_def three_way_def)

definition sign3 :: "('a \<Rightarrow> 'a \<Rightarrow> bool) \<Rightarrow> ('a \<Rightarrow> 'a \<Rightarrow> bool) \<Rightarrow> 'a \<Rightarrow> 'a \<Rightarrow> int" where
  "sign3 eq lt x y = (if eq x y then 0 else if lt x y then - 1 else 1)"

lemma value_cmp_simps:
  "value_cmp l T_int (Q_int i) (Q_int j) = sign3 (=) (<) i j"
  "value_cmp l T_uint64 (Q_uint64 u) (Q_uint64 w) = sign3 (=) (<) u w"
  "value_cmp l T_string (Q_string s) (Q_string t) = sign3 (=) string_less s t"
  "value_cmp l T_double (Q_double d) (Q_double e) = sign3 d_eq d_less d e"
  "value_cmp l T_ptime (Q_ptime p) (Q_ptime q) = sign3 (=) (ql_ptime_lt l) p q"
  by (simp_all add: value_cmp_def cmp_values_def three_way_def sign3_def)

lemma sign3_le: "sign3 eq lt x y \<le> 0 \<longleftrightarrow> eq x y \<or> lt x y"
  by (simp add: sign3_def)

lemma sign3_swap:
  assumes "eq x y = eq y x" "\<not> eq x y \<Longrightarrow> lt x y = (\<not> lt y x)"
  shows "sign3 eq lt y x = - sign3 eq lt x y"
  using assms by (simp add: sign3_def)

lemma string_less_asym: "s \<noteq> t \<Longrightarrow> string_less s t = (\<not> string_less t s)"
  using string_less_total [of s t] string_less_trans [of s t s] by auto

lemma ptime_asym: "ptime_linear l \<Longrightarrow> s \<noteq> t \<Longrightarrow> ql_ptime_lt l s t = (\<not> ql_ptime_lt l t s)"
  unfolding ptime_linear_def by blast

lemma d_less_asym: "x \<noteq> NaN \<Longrightarrow> y \<noteq> NaN \<Longrightarrow> \<not> d_eq x y \<Longrightarrow> d_less x y = (\<not> d_less y x)"
  using d_less_total [of x y] d_less_trans [of x y x] by auto

lemma d_le_trans: "d_eq x y \<or> d_less x y \<Longrightarrow> d_eq y z \<or> d_less y z \<Longrightarrow> d_eq x z \<or> d_less x z"
  by (cases x; cases y; cases z) auto

lemma has_type_cases:
  assumes "has_type ty v" "has_type ty w"
  obtains i j where "ty = T_int" "v = Q_int i" "w = Q_int j"
  | d e where "ty = T_double" "v = Q_double d" "w = Q_double e" "d \<noteq> NaN" "e \<noteq> NaN"
  | s t where "ty = T_string" "v = Q_string s" "w = Q_string t"
  | x y where "ty = T_uint64" "v = Q_uint64 x" "w = Q_uint64 y"
  | p q where "ty = T_ptime" "v = Q_ptime p" "w = Q_ptime q"
  using assms by (cases v; cases w) (auto simp: has_type_def)

lemma value_cmp_swap:
  assumes "ptime_linear l" "has_type ty v" "has_type ty w"
  shows "value_cmp l ty w v = - value_cmp l ty v w"
  using assms(2,3)
proof (cases rule: has_type_cases)
  case (2 d e)
  then show ?thesis using d_less_asym [of d e] by (auto simp: value_cmp_simps d_eq_sym intro!: sign3_swap)
next
  case (3 s t)
  then show ?thesis using string_less_asym [of s t] by (auto simp: value_cmp_simps intro!: sign3_swap)
next
  case (5 p q)
  then show ?thesis using ptime_asym [OF assms(1), of p q] by (auto simp: value_cmp_simps intro!: sign3_swap)
qed (auto simp: value_cmp_simps intro!: sign3_swap)

lemma value_cmp_trans:
  assumes "ptime_linear l" "has_type ty u" "has_type ty v" "has_type ty w" "value_cmp l ty u v \<le> 0" "value_cmp l ty v w \<le> 0"
  shows "value_cmp l ty u w \<le> 0"
  using assms(2,3)
proof (cases rule: has_type_cases)
  case (1 i j)
  then show ?thesis using assms(4-6) by (cases w) (auto simp: has_type_def value_cmp_simps sign3_le)
next
  case (2 d e)
  then show ?thesis using assms(4-6) d_le_trans [of d e] by (cases w) (auto simp: has_type_def value_cmp_simps sign3_le)
next
  case (3 s t)
  then show ?thesis using assms(4-6) string_less_trans [of s t] by (cases w) (auto simp: has_type_def value_cmp_simps sign3_le)
next
  case (4 x y)
  then show ?thesis using assms(4-6) by (cases w) (auto simp: has_type_def value_cmp_simps sign3_le)
next
  case (5 p q)
  then have "ql_ptime_lt l q r \<Longrightarrow> ql_ptime_lt l p q \<Longrightarrow> ql_ptime_lt l p r" for r using assms(1) unfolding ptime_linear_def by blast
  with 5 show ?thesis using assms(4-6) by (cases w) (auto simp: has_type_def value_cmp_simps sign3_le)
qed

text \<open>One entry of a sort specification, and a specification.\<close>

definition spec_cmp :: "qlib \<Rightarrow> sort_spec \<Rightarrow> qr_tuple \<Rightarrow> qr_tuple \<Rightarrow> int" where
  "spec_cmp l sp t u = (let r = value_cmp l (ss_cmp_type sp) (t ! ss_vidx sp) (u ! ss_vidx sp) in if ss_order sp = SO_Asc then r else - r)"

definition entry_ok :: "qlib \<Rightarrow> sort_spec \<Rightarrow> qr_tuple \<Rightarrow> bool" where
  "entry_ok l sp t \<longleftrightarrow> ptime_linear l \<and> ss_order sp \<noteq> SO_None \<and> ss_vidx sp < length t \<and> has_type (ss_cmp_type sp) (t ! ss_vidx sp)"

interpretation entry: comparison "spec_cmp l sp" "entry_ok l sp" for l sp
proof
  fix x y
  assume "entry_ok l sp x" "entry_ok l sp y"
  then show "spec_cmp l sp y x = - spec_cmp l sp x y"
    using value_cmp_swap [of l "ss_cmp_type sp" "x ! ss_vidx sp" "y ! ss_vidx sp"] by (simp add: entry_ok_def spec_cmp_def Let_def)
next
  fix x y z
  assume ok: "entry_ok l sp x" "entry_ok l sp y" "entry_ok l sp z" and le: "spec_cmp l sp x y \<le> 0" "spec_cmp l sp y z \<le> 0"
  let ?c = "\<lambda>a b. value_cmp l (ss_cmp_type sp) (a ! ss_vidx sp) (b ! ss_vidx sp)"
  have sw: "?c b a = - ?c a b" if "entry_ok l sp a" "entry_ok l sp b" for a b
    using that value_cmp_swap [of l "ss_cmp_type sp" "a ! ss_vidx sp" "b ! ss_vidx sp"] by (simp add: entry_ok_def)
  show "spec_cmp l sp x z \<le> 0"
  proof (cases "ss_order sp = SO_Asc")
    case True
    then show ?thesis using ok le value_cmp_trans [of l "ss_cmp_type sp" "x ! ss_vidx sp" "y ! ss_vidx sp" "z ! ss_vidx sp"]
      by (simp add: entry_ok_def spec_cmp_def)
  next
    case False
    then show ?thesis using ok le value_cmp_trans [of l "ss_cmp_type sp" "z ! ss_vidx sp" "y ! ss_vidx sp" "x ! ss_vidx sp"]
        sw [OF ok(1,2)] sw [OF ok(2,3)] sw [OF ok(1,3)] by (simp add: entry_ok_def spec_cmp_def)
  qed
qed

fun tuple_cmp :: "qlib \<Rightarrow> sort_spec list \<Rightarrow> qr_tuple \<Rightarrow> qr_tuple \<Rightarrow> int" where
  "tuple_cmp l [] t u = 0"
| "tuple_cmp l (sp # spec) t u = (if spec_cmp l sp t u = 0 then tuple_cmp l spec t u else spec_cmp l sp t u)"

definition sortable :: "qlib \<Rightarrow> sort_spec list \<Rightarrow> qr_tuple \<Rightarrow> bool" where
  "sortable l spec t = list_all (\<lambda>sp. entry_ok l sp t) spec"

interpretation tup: comparison "tuple_cmp l spec" "sortable l spec" for l spec
proof
  show "sortable l spec x \<Longrightarrow> sortable l spec y \<Longrightarrow> tuple_cmp l spec y x = - tuple_cmp l spec x y" for x y
  proof (induction spec)
    case (Cons sp spec)
    then show ?case using entry.swap [of l sp x y] by (simp add: sortable_def)
  qed simp
next
  show "sortable l spec x \<Longrightarrow> sortable l spec y \<Longrightarrow> sortable l spec z \<Longrightarrow> tuple_cmp l spec x y \<le> 0 \<Longrightarrow> tuple_cmp l spec y z \<le> 0 \<Longrightarrow>
      tuple_cmp l spec x z \<le> 0" for x y z
  proof (induction spec)
    case (Cons sp spec)
    then have e: "entry_ok l sp x" "entry_ok l sp y" "entry_ok l sp z" by (auto simp: sortable_def)
    have le: "spec_cmp l sp x y \<le> 0" "spec_cmp l sp y z \<le> 0" using Cons.prems(4,5) by (auto split: if_splits)
    show ?case
    proof (cases "spec_cmp l sp x z = 0")
      case True
      then have "spec_cmp l sp x y = 0" "spec_cmp l sp y z = 0"
        using le entry.less_le_trans [OF e] entry.le_less_trans [OF e] by linarith+
      then show ?thesis using Cons True by (simp add: sortable_def)
    next
      case False
      then show ?thesis using entry.le_trans [OF e le] by simp
    qed
  qed simp
qed

section \<open>Order by\<close>

lemma qr_less_run:
  assumes "entry_ok l sp t" "entry_ok l sp u"
  shows "qr_less l sp t u = sret (value_cmp l (ss_cmp_type sp) (t ! ss_vidx sp) (u ! ss_vidx sp))"
proof -
  have "(case t ! ss_vidx sp of Q_node _ \<Rightarrow> True | _ \<Rightarrow> False) = False"
    using assms(1) by (cases "t ! ss_vidx sp") (auto simp: entry_ok_def has_type_def)
  then show ?thesis using assms by (simp add: qr_less_def entry_ok_def cmp_values_run Let_def fun_eq_iff)
qed

lemma qr_compare_run:
  assumes "sortable l spec t" "sortable l spec u"
  shows "qr_compare l spec t u = sret (tuple_cmp l spec t u < 0)"
  using assms
proof (induction spec)
  case (Cons sp spec)
  then have e: "entry_ok l sp t" "entry_ok l sp u" by (simp_all add: sortable_def)
  have o: "ss_order sp = SO_Asc \<or> ss_order sp = SO_Desc" using e(1) by (cases "ss_order sp") (auto simp: entry_ok_def)
  show ?case using Cons o by (auto simp: sortable_def qr_less_run [OF e] spec_cmp_def Let_def simp del: sret_apply)
qed (simp del: sret_apply)

definition append_step :: "qr_tuple list \<Rightarrow> qr_tuple \<Rightarrow> qr_tuple list" where
  "append_step rs v = rs @ [v]"

lemma append_steps: "foldl append_step rs vs = rs @ vs"
  by (induction vs arbitrary: rs) (simp_all add: append_step_def)

interpretation ordered: store_operator order_by_process "\<lambda>_. True" append_step
  by unfold_locales (simp add: order_by_process_def append_step_def emit_store [simplified])

lemma result_sort_run:
  assumes "list_all (sortable l spec) vs" "sg_spec gl = spec" "sg_cmp gl = None"
  shows "result_sort l gl vs = sret (sort_cmp (tuple_cmp l spec) vs)"
  using assms(2,3) by (simp add: result_sort_def tup.sort_by_run [OF assms(1) qr_compare_run] del: sret_apply)

text \<open>
  C21. \<open>order_by\<close> with its sort specification as the global one and values of the types that the specification names (no NaN, no
  null): the operator behind gets a permutation of the input that is sorted by the specification, tuples that compare equal in the order of the input, and is then told that the
  input is complete.
\<close>

theorem order_by_sorts:
  assumes "list_all (sortable l spec) vs" "sg_cmp gl = None"
  shows "\<exists>out. with_local [] (sbind (for_each order_by_process vs) (\<lambda>_. order_by_finish l (order_by_new spec gl) consume fin)) =
      sbind (for_each consume out) (\<lambda>_. fin) \<and>
    mset out = mset vs \<and> sorted_wrt (\<lambda>t u. tuple_cmp l spec t u \<le> 0) out \<and>
    (\<forall>t\<in>set vs. filter (\<lambda>u. tuple_cmp l spec t u = 0) out = filter (\<lambda>u. tuple_cmp l spec t u = 0) vs)"
proof (intro exI conjI)
  let ?out = "sort_cmp (tuple_cmp l spec) vs"
  show "with_local [] (sbind (for_each order_by_process vs) (\<lambda>_. order_by_finish l (order_by_new spec gl) consume fin)) =
      sbind (for_each consume ?out) (\<lambda>_. fin)"
    using assms(2) by (simp add: ordered.store_then [simplified list_all_iff] append_steps order_by_finish_def order_by_new_def
        result_sort_run [OF assms(1)] for_each_outer flip: outer_bind)
  show "mset ?out = mset vs" by simp
  show "sorted_wrt (\<lambda>t u. tuple_cmp l spec t u \<le> 0) ?out" using tup.sort_sorted [OF assms(1)] .
  show "\<forall>t\<in>set vs. filter (\<lambda>u. tuple_cmp l spec t u = 0) ?out = filter (\<lambda>u. tuple_cmp l spec t u = 0) vs"
    using tup.sort_stable [OF assms(1)] assms(1) by (auto simp: list_all_iff)
qed

theorem order_by_sorts_witness:
  "\<exists>out. with_local [] (sbind (for_each order_by_process [[Q_int 2, Q_string ''a''], [Q_int 1, Q_string ''b''], [Q_int 2, Q_string ''c'']])
      (\<lambda>_. order_by_finish qlib_demo (order_by_new [\<lparr>ss_order = SO_Desc, ss_vidx = 0, ss_pcode = 0, ss_cmp_type = T_int\<rparr>]
          \<lparr>sg_spec = [], sg_cmp = None\<rparr>) collect_process (sret ()))) =
      sbind (for_each collect_process out) (\<lambda>_. sret ()) \<and>
    mset out = mset [[Q_int 2, Q_string ''a''], [Q_int 1, Q_string ''b''], [Q_int 2, Q_string ''c'']]"
proof -
  let ?vs = "[[Q_int 2, Q_string ''a''], [Q_int 1, Q_string ''b''], [Q_int 2, Q_string ''c'']]"
  let ?spec = "[\<lparr>ss_order = SO_Desc, ss_vidx = 0, ss_pcode = 0, ss_cmp_type = T_int\<rparr>]"
  have "ptime_linear qlib_demo" by (auto simp: ptime_linear_def qlib_demo_def)
  then have "list_all (sortable qlib_demo ?spec) ?vs" by (simp add: sortable_def entry_ok_def has_type_def)
  from order_by_sorts [OF this, of "\<lparr>sg_spec = [], sg_cmp = None\<rparr>" collect_process "sret ()"] show ?thesis by auto
qed

text \<open>
  The sort specification is one global variable: when a second \<open>order_by\<close> operator is constructed before the first one finishes, the first one sorts by the
  specification of the second.
\<close>

theorem order_by_shares_spec:
  "order_by_finish l (order_by_new spec2 (order_by_new spec1 gl)) consume fin = order_by_finish l (order_by_new spec2 gl) consume fin"
  by (simp add: order_by_finish_def order_by_new_def)

end
