(* ===== verification/Query_Group.thy ===== *)
theory Query_Group
  imports Query_Aggr Query_Sort
begin

text \<open>
  Correctness of aggregation and grouping on tuples of plain values: the values that the operators keep are the aggregates of the tuples so far.
\<close>

section \<open>Reference aggregates\<close>

definition is_int32 :: "query_result \<Rightarrow> bool" where
  "is_int32 q = (case q of Q_int i \<Rightarrow> INT_MIN \<le> i \<and> i \<le> INT_MAX | _ \<Rightarrow> False)"

definition is_uint64 :: "query_result \<Rightarrow> bool" where
  "is_uint64 q = (case q of Q_uint64 _ \<Rightarrow> True | _ \<Rightarrow> False)"

definition is_number :: "query_result \<Rightarrow> bool" where
  "is_number q = (case q of Q_int _ \<Rightarrow> True | Q_double _ \<Rightarrow> True | _ \<Rightarrow> False)"

definition int_of :: "query_result \<Rightarrow> int" where
  "int_of q = (case q of Q_int i \<Rightarrow> i | _ \<Rightarrow> 0)"

definition uint64_of :: "query_result \<Rightarrow> 64 word" where
  "uint64_of q = (case q of Q_uint64 u \<Rightarrow> u | _ \<Rightarrow> 0)"

definition double_of :: "query_result \<Rightarrow> double" where
  "double_of q = (case q of Q_int i \<Rightarrow> d_of_int i | Q_double d \<Rightarrow> d | _ \<Rightarrow> NaN)"

definition col :: "nat \<Rightarrow> qr_tuple list \<Rightarrow> query_result list" where
  "col i vs = map (\<lambda>v. v ! i) vs"

definition d_sum :: "double list \<Rightarrow> double" where
  "d_sum ds = foldl d_plus (Finite False 0) ds"

text \<open>What an aggregate over \<open>vs\<close> is, and when it is computed: no overflow, values of the type of the aggregate.\<close>

definition aggr_spec :: "aggr_expr \<Rightarrow> qr_tuple list \<Rightarrow> query_result" where
  "aggr_spec ex vs = (let qs = col (ae_var ex) vs in case ae_func ex of
     F_count \<Rightarrow> Q_int (int (length vs))
   | F_sum \<Rightarrow> (if ae_type ex = T_int then Q_int (sum_list (map int_of qs)) else Q_double (d_sum (map double_of qs)))
   | F_min \<Rightarrow> (if ae_type ex = T_int then Q_int (Min (set (map int_of qs))) else Q_uint64 (Min (set (map uint64_of qs))))
   | F_max \<Rightarrow> (if ae_type ex = T_int then Q_int (Max (set (map int_of qs))) else Q_uint64 (Max (set (map uint64_of qs))))
   | F_avg \<Rightarrow> Q_double (d_div (d_sum (map double_of qs)) (d_of_int (int (length vs)))))"

definition aggr_ok :: "aggr_expr \<Rightarrow> qr_tuple list \<Rightarrow> bool" where
  "aggr_ok ex vs = (let qs = col (ae_var ex) vs in
     ae_pkey ex = UNKNOWN_CODE \<and> int (length vs) \<le> INT_MAX \<and> (ae_func ex = F_count \<or> list_all (\<lambda>v. ae_var ex < length v) vs) \<and>
     (case ae_func ex of
       F_count \<Rightarrow> True
     | F_sum \<Rightarrow> ae_type ex = T_int \<and> list_all is_int32 qs \<and> sum_list (map (\<lambda>q. \<bar>int_of q\<bar>) qs) \<le> INT_MAX \<or> ae_type ex = T_double \<and> list_all is_number qs
     | F_avg \<Rightarrow> list_all is_number qs
     | _ \<Rightarrow> ae_type ex = T_int \<and> list_all is_int32 qs \<or> ae_type ex = T_uint64 \<and> list_all is_uint64 qs))"

text \<open>The value that is kept for it.\<close>

definition aggr_state :: "aggr_expr \<Rightarrow> qr_tuple list \<Rightarrow> aggr_val" where
  "aggr_state ex vs = (let qs = col (ae_var ex) vs in case ae_func ex of
     F_count \<Rightarrow> A_int (int (length vs))
   | F_sum \<Rightarrow> (if ae_type ex = T_int then A_int (sum_list (map int_of qs)) else A_double (d_sum (map double_of qs)))
   | F_min \<Rightarrow> (if ae_type ex = T_int then A_int (foldl min INT_MAX (map int_of qs)) else A_uint64 (foldl min (- 1) (map uint64_of qs)))
   | F_max \<Rightarrow> (if ae_type ex = T_int then A_int (foldl max INT_MIN (map int_of qs)) else A_uint64 (foldl max 0 (map uint64_of qs)))
   | F_avg \<Rightarrow> A_pair (d_sum (map double_of qs)) (int (length vs)))"

lemma col_simps [simp]: "col i [] = []" "col i (v # vs) = v ! i # col i vs" "col i (vs @ ws) = col i vs @ col i ws" "length (col i vs) = length vs"
  by (simp_all add: col_def)

lemma aggr_state_init:
  assumes "aggr_ok ex []"
  shows "init_value a ex = aggr_state ex []" "group_init_value ex = aggr_state ex []"
  using assms
  by (auto simp: aggr_ok_def aggr_state_def init_value_def group_init_value_def min_start_def max_start_def d_sum_def Let_def split: aggr_func.splits)

lemma std_min_less [simp]: "std_min (<) (a :: 'a :: linorder) b = min a b"
  by (auto simp: std_min_def min_def)

lemma std_max_less [simp]: "std_max (<) (a :: 'a :: linorder) b = max a b"
  by (auto simp: std_max_def max_def)

lemma srun_Inr: "srun (Inr x) = sret x"
  by (simp add: srun_def fun_eq_iff)

lemma combine_sret: "combine (Inr a) (sret x) f = srun (f a x)"
  by (rule ext) (simp add: combine_def sbind_def)

lemma value_plain:
  "ae < length v \<Longrightarrow> is_int32 (v ! ae) \<Longrightarrow> get_int_value th v ae UNKNOWN_CODE = sret (int_of (v ! ae))"
  "ae < length v \<Longrightarrow> is_uint64 (v ! ae) \<Longrightarrow> get_uint64_value th v ae UNKNOWN_CODE = sret (uint64_of (v ! ae))"
  "ae < length v \<Longrightarrow> is_number (v ! ae) \<Longrightarrow> get_double_value th v ae UNKNOWN_CODE = sret (double_of (v ! ae))"
  by (cases "v ! ae"; simp add: is_int32_def is_uint64_def is_number_def int_of_def uint64_of_def double_of_def get_int_value_def get_uint64_value_def
      get_double_value_def tup_at_def srun_Inr)+

lemma int_range_le: "\<bar>i\<bar> \<le> INT_MAX \<Longrightarrow> int_range i = Inr i"
  by (auto simp: int_range_def INT_MAX_def)

lemma sum_le_abs: "\<bar>sum_list (map f xs)\<bar> \<le> sum_list (map (\<lambda>x. \<bar>f x\<bar> :: int) xs)"
  by (induction xs) auto

lemma sum_step: "\<bar>sum_list (map f xs) + f x\<bar> \<le> sum_list (map (\<lambda>x. \<bar>f x\<bar> :: int) xs) + \<bar>f x\<bar>"
  using sum_le_abs [of f xs] by linarith

lemma aggr_state_snoc:
  assumes "aggr_ok ex (vs @ [v])"
  shows "update_value l th ex (aggr_state ex vs) v = sret (aggr_state ex (vs @ [v]))"
proof (cases "ae_func ex")
  case F_count
  then show ?thesis using assms by (simp add: aggr_ok_def aggr_state_def update_value_def int_range_le srun_Inr Let_def add.commute del: sret_apply)
next
  case F_sum
  then show ?thesis using assms sum_step [of int_of "col (ae_var ex) vs" "v ! ae_var ex"]
    by (auto simp: aggr_ok_def aggr_state_def update_value_def int_range_le value_plain combine_sret srun_Inr d_sum_def Let_def simp del: sret_apply)
next
  case F_min
  then show ?thesis using assms
    by (auto simp: aggr_ok_def aggr_state_def update_value_def update_extreme_def value_plain combine_sret srun_Inr Let_def simp del: sret_apply)
next
  case F_max
  then show ?thesis using assms
    by (auto simp: aggr_ok_def aggr_state_def update_value_def update_extreme_def value_plain combine_sret srun_Inr Let_def simp del: sret_apply)
next
  case F_avg
  then show ?thesis using assms
    by (simp add: aggr_ok_def aggr_state_def update_value_def int_range_le value_plain srun_Inr d_sum_def Let_def add.commute fun_eq_iff)
qed

lemma foldl_min: "foldl min (c :: 'a :: linorder) xs = Min (insert c (set xs))"
proof -
  have "(\<lambda>x y :: 'a. min y x) = min" by (auto simp: fun_eq_iff min.commute)
  then show ?thesis using Min.set_eq_fold [of c xs] by (simp add: foldl_conv_fold)
qed

lemma foldl_max: "foldl max (c :: 'a :: linorder) xs = Max (insert c (set xs))"
proof -
  have "(\<lambda>x y :: 'a. max y x) = max" by (auto simp: fun_eq_iff max.commute)
  then show ?thesis using Max.set_eq_fold [of c xs] by (simp add: foldl_conv_fold)
qed

lemma foldl_min_top: "xs \<noteq> [] \<Longrightarrow> \<forall>x\<in>set xs. x \<le> c \<Longrightarrow> foldl min (c :: 'a :: linorder) xs = Min (set xs)"
  by (cases xs) (auto simp: foldl_min intro!: min_absorb2)

lemma foldl_max_bot: "xs \<noteq> [] \<Longrightarrow> \<forall>x\<in>set xs. c \<le> x \<Longrightarrow> foldl max (c :: 'a :: linorder) xs = Max (set xs)"
  by (cases xs) (auto simp: foldl_max intro!: max_absorb2)

lemma int32_bounds: "list_all is_int32 qs \<Longrightarrow> \<forall>x\<in>int_of ` set qs. x \<le> INT_MAX" "list_all is_int32 qs \<Longrightarrow> \<forall>x\<in>int_of ` set qs. INT_MIN \<le> x"
  by (auto simp: list_all_iff is_int32_def int_of_def split: query_result.splits)

lemma aggr_state_result:
  assumes "aggr_ok ex vs" "vs \<noteq> []"
  shows "aggr_result ex (aggr_state ex vs) = Inr [aggr_spec ex vs]"
proof -
  have "col (ae_var ex) vs \<noteq> []" using assms(2) by (simp add: col_def)
  then show ?thesis using assms(1)
    by (cases "ae_func ex") (auto simp: aggr_ok_def aggr_state_def aggr_result_def aggr_spec_def extreme_result_def Let_def
        foldl_min_top foldl_max_bot int32_bounds)
qed

lemma aggr_ok_prefix: "aggr_ok ex (vs @ ws) \<Longrightarrow> aggr_ok ex vs"
proof -
  have "0 \<le> sum_list (map (\<lambda>q. \<bar>int_of q\<bar>) qs)" for qs by (induction qs) auto
  then show "aggr_ok ex (vs @ ws) \<Longrightarrow> aggr_ok ex vs"
    by (cases "ae_func ex") (auto simp: aggr_ok_def Let_def intro: order_trans [rotated])
qed

lemma aggr_ok_filter: "aggr_ok ex vs \<Longrightarrow> aggr_ok ex (filter p vs)"
proof -
  have "sum_list (map (\<lambda>q. \<bar>int_of q\<bar>) (col i (filter p vs))) \<le> sum_list (map (\<lambda>q. \<bar>int_of q\<bar>) (col i vs))" for i by (induction vs) auto
  then have le: "sum_list (map (\<lambda>q. \<bar>int_of q\<bar>) (col i vs)) \<le> m \<Longrightarrow> sum_list (map (\<lambda>q. \<bar>int_of q\<bar>) (col i (filter p vs))) \<le> m" for i m
    by (rule order_trans)
  have "int (length vs) \<le> m \<Longrightarrow> int (length (filter p vs)) \<le> m" for m using length_filter_le [of p vs] by linarith
  moreover have "list_all f (col i vs) \<Longrightarrow> list_all f (col i (filter p vs))" for f i by (auto simp: col_def list_all_iff)
  moreover have "list_all f vs \<Longrightarrow> list_all f (filter p vs)" for f by (auto simp: list_all_iff)
  ultimately show "aggr_ok ex vs \<Longrightarrow> aggr_ok ex (filter p vs)"
    using le by (cases "ae_func ex") (auto simp: aggr_ok_def Let_def)
qed

section \<open>Aggregate\<close>

lemma aggregate_loop:
  assumes "list_all (\<lambda>ex. aggr_ok ex (us @ [v])) exs" "m \<le> length exs"
    and old: "old = map (\<lambda>ex. aggr_state ex us) exs" and new: "new = map (\<lambda>ex. aggr_state ex (us @ [v])) exs"
  shows "with_local (take m new @ drop m old) (sbind (for_each (\<lambda>i. sbind get_local (\<lambda>vals. sbind (update_value l th (exs ! i) (vals ! i) v)
      (\<lambda>a. upd_local (\<lambda>vals. vals[i := a])))) [m..<length exs]) (\<lambda>_. k)) = with_local new k"
  using assms(1,2)
proof (induction "length exs - m" arbitrary: m)
  case 0
  then show ?case by (simp add: old new)
next
  case (Suc n)
  have len: "length old = length exs" "length new = length exs" by (simp_all add: old new)
  have m: "m < length exs" "length (take m new) = m" using Suc.hyps(2) len by auto
  have nth: "(take m new @ drop m old) ! m = aggr_state (exs ! m) us" using m len by (simp add: nth_append) (simp add: old)
  have upd: "(take m new @ drop m old)[m := aggr_state (exs ! m) (us @ [v])] = take (Suc m) new @ drop (Suc m) old"
    using m len by (simp add: take_Suc_conv_app_nth list_update_append Cons_nth_drop_Suc [symmetric]) (simp add: new)
  have "aggr_ok (exs ! m) (us @ [v])" using m(1) Suc.prems(1) by (simp add: list_all_length)
  then show ?case using Suc.hyps Suc.prems m(1) nth upd by (simp add: upt_conv_Cons sbind_assoc aggr_state_snoc del: sret_apply)
qed

lemma aggregate_step:
  assumes "list_all (\<lambda>ex. aggr_ok ex (us @ [v])) exs"
  shows "with_local (map (\<lambda>ex. aggr_state ex us) exs) (sbind (aggregate_process l th exs v) (\<lambda>_. k)) =
    with_local (map (\<lambda>ex. aggr_state ex (us @ [v])) exs) k"
  using aggregate_loop [OF assms le0 refl refl] by (simp add: aggregate_process_def)

lemma aggregate_run:
  assumes "list_all (\<lambda>ex. aggr_ok ex (us @ vs)) exs"
  shows "with_local (map (\<lambda>ex. aggr_state ex us) exs) (sbind (for_each (aggregate_process l th exs) vs) (\<lambda>_. k)) =
    with_local (map (\<lambda>ex. aggr_state ex (us @ vs)) exs) k"
  using assms
proof (induction vs arbitrary: us)
  case (Cons v vs)
  have "list_all (\<lambda>ex. aggr_ok ex (us @ [v])) exs" using Cons.prems aggr_ok_prefix [of _ "us @ [v]" vs] by (auto simp: list_all_iff)
  then show ?case using Cons.IH [of "us @ [v]"] Cons.prems by (simp add: sbind_assoc aggregate_step)
qed simp

lemma zip_map_self: "zip xs (map f xs) = map (\<lambda>x. (x, f x)) xs"
  by (induction xs) simp_all

lemma rmap_map: "rmap f (map g xs) = rmap (\<lambda>x. f (g x)) xs"
  by (induction xs) simp_all

lemma rmap_Inr: "list_all (\<lambda>x. f x = Inr (g x)) xs \<Longrightarrow> rmap f xs = Inr (map g xs)"
  by (induction xs) simp_all

text \<open>
  C33. \<open>aggregate\<close> on a non-empty input: one tuple with the aggregates over all tuples of the input, and then the end of the input. The columns hold plain values, not properties of nodes.
  The aggregates are the count; the sum of a column of integers, when the absolute values add up to an \<open>int\<close>, or of numbers as doubles, added in the order of the input; the average of
  numbers; the minimum and maximum of a column of \<open>int\<close> or of \<open>uint64_t\<close> values. Minimum and maximum of doubles and strings, for which the initial values are wrong
  (see \<open>max_of_negative_double\<close>), and sums of \<open>uint64_t\<close> values, which the code does not handle, are not included.
\<close>

theorem aggregate_values:
  assumes "list_all (\<lambda>ex. aggr_ok ex vs) exs" "vs \<noteq> []"
  shows "with_local (map (init_value a) exs) (sbind (for_each (aggregate_process l th exs) vs) (\<lambda>_. aggregate_finish exs consume fin)) =
    sbind (consume (map (\<lambda>ex. aggr_spec ex vs) exs)) (\<lambda>_. fin)"
proof -
  have i: "map (init_value a) exs = map (\<lambda>ex. aggr_state ex []) exs"
    using assms(1) aggr_ok_prefix [of _ "[]" vs] by (auto simp: list_all_iff aggr_state_init)
  have r: "rmap (\<lambda>(ex, a). rbind (aggr_result ex a) (\<lambda>qs. Inr (or_default qs))) (zip exs (map (\<lambda>ex. aggr_state ex vs) exs)) =
      Inr (map (\<lambda>ex. aggr_spec ex vs) exs)"
    unfolding zip_map_self rmap_map by (rule rmap_Inr) (use assms in \<open>auto simp: list_all_iff aggr_state_result or_default_def\<close>)
  show ?thesis unfolding i using assms(1) r by (simp add: aggregate_run [of "[]", simplified] aggregate_finish_def srun_Inr flip: outer_bind)
qed

text \<open>The maximum of doubles starts at the least positive normalized number: the maximum of negative numbers is this number.\<close>

theorem max_of_negative_double:
  assumes "d_less d (Finite False 0)" "vs \<noteq> []" "\<forall>v\<in>set vs. v = [Q_double d]" "ex = \<lparr>ae_func = F_max, ae_var = 0, ae_property = [], ae_pkey = UNKNOWN_CODE, ae_type = T_double\<rparr>"
  shows "with_local [init_value a ex] (sbind (for_each (aggregate_process l th [ex]) vs) (\<lambda>_. aggregate_finish [ex] consume fin)) =
    sbind (consume [Q_double DBL_MIN]) (\<lambda>_. fin)"
proof -
  have less: "\<not> d_less DBL_MIN d" using assms(1) by (cases d) (auto simp: DBL_MIN_def dval_def)
  have s: "update_value l th ex (A_double DBL_MIN) [Q_double d] = sret (A_double DBL_MIN)" for l th
    using less by (simp add: assms(4) update_value_def update_extreme_def get_double_value_def tup_at_def combine_def std_max_def fun_eq_iff sbind_def)
  have "with_local [A_double DBL_MIN] (sbind (for_each (aggregate_process l th [ex]) vs) (\<lambda>_. k)) = with_local [A_double DBL_MIN] k" for k :: "(aggr_val list \<times> 'a, unit) gact"
    using assms(3) by (induction vs) (simp_all add: aggregate_process_def s sbind_assoc)
  then show ?thesis using assms(4)
    by (simp add: init_value_def max_start_def aggregate_finish_def aggr_result_def extreme_result_def or_default_def srun_Inr flip: outer_bind)
qed

section \<open>Group by\<close>

text \<open>Grouping by plain values, without properties: the key of a tuple and its hash.\<close>

definition key_of :: "group_expr list \<Rightarrow> qr_tuple \<Rightarrow> qr_tuple" where
  "key_of grs v = map (\<lambda>gr. v ! gb_var gr) grs"

definition mix_value :: "qhash \<Rightarrow> query_result \<Rightarrow> 64 word \<Rightarrow> 64 word" where
  "mix_value qh q h = (case q of
     Q_int i \<Rightarrow> mix h (ucast (word_of_int i + 0x9e3779b9 :: 32 word))
   | Q_uint64 u \<Rightarrow> mix h (u + GOLDEN)
   | Q_double d \<Rightarrow> mix h (qh_double qh d + GOLDEN)
   | Q_string s \<Rightarrow> mix h (qh_string qh s + GOLDEN)
   | Q_ptime p \<Rightarrow> h XOR qh_ptime qh p
   | _ \<Rightarrow> h)"

definition key_hash :: "qhash \<Rightarrow> qr_tuple \<Rightarrow> 64 word" where
  "key_hash qh k = fold (mix_value qh) k 0"

definition group_ok :: "group_expr \<Rightarrow> qr_tuple \<Rightarrow> bool" where
  "group_ok gr v \<longleftrightarrow> gb_property gr = [] \<and> gb_pkey gr = UNKNOWN_CODE \<and> gb_var gr < length v \<and> has_type (gb_type gr) (v ! gb_var gr)"

lemma group_mix_run: "group_ok gr v \<Longrightarrow> group_mix l qh th v gr h = sret (mix_value qh (v ! gb_var gr) h)"
  by (cases "v ! gb_var gr") (auto simp: group_ok_def has_type_def group_mix_def mix_value_def group_operand_def tup_at_def fun_eq_iff sbind_def)

lemma group_hasher_run:
  "list_all (\<lambda>gr. group_ok gr v) grs \<Longrightarrow> group_hasher l qh th v grs h = sret (fold (mix_value qh) (key_of grs v) h)"
  by (induction grs arbitrary: h) (auto simp: key_of_def group_mix_run group_ok_def simp del: sret_apply)

lemma group_key_run: "list_all (\<lambda>gr. group_ok gr v) grs \<Longrightarrow> group_key l th v grs = sret (key_of grs v)"
proof (induction grs)
  case (Cons gr grs)
  have g: "group_value l th v gr = sret [v ! gb_var gr]" for l th
    using Cons.prems by (cases "v ! gb_var gr") (auto simp: group_ok_def has_type_def group_value_def get_int_value_def get_uint64_value_def
      get_double_value_def get_string_value_def get_ptime_value_def tup_at_def fun_eq_iff sbind_def)
  show ?case using Cons by (simp add: key_of_def g del: sret_apply)
qed (simp add: key_of_def)

text \<open>The hashes of the tuples in the order of their first occurrence.\<close>

definition hashes :: "('a \<Rightarrow> 'k) \<Rightarrow> 'a list \<Rightarrow> 'k list" where
  "hashes H vs = foldl (\<lambda>ks v. if H v \<in> set ks then ks else ks @ [H v]) [] vs"

lemma hashes_snoc [simp]: "hashes H [] = []" "hashes H (vs @ [v]) = (if H v \<in> set (hashes H vs) then hashes H vs else hashes H vs @ [H v])"
  by (simp_all add: hashes_def)

lemma hashes_set [simp]: "set (hashes H vs) = H ` set vs"
  by (induction vs rule: rev_induct) auto

lemma hashes_distinct [simp]: "distinct (hashes H vs)"
  by (induction vs rule: rev_induct) (auto simp del: hashes_set simp: hashes_set [symmetric])

lemma AList_update_graph:
  "distinct ks \<Longrightarrow> AList.update k x (map (\<lambda>j. (j, f j)) ks) = map (\<lambda>j. (j, (f(k := x)) j)) (if k \<in> set ks then ks else ks @ [k])"
  by (induction ks) auto

text \<open>The state of the operator after the tuples \<open>vs\<close>.\<close>

definition group_state :: "qhash \<Rightarrow> group_expr list \<Rightarrow> aggr_expr list \<Rightarrow> qr_tuple list \<Rightarrow> group_vars" where
  "group_state qh grs exs vs = (let H = \<lambda>v. key_hash qh (key_of grs v) in
     \<lparr>gv_keys = (\<lambda>k. map_option (key_of grs) (find (\<lambda>v. H v = k) vs)),
      gv_vals = map (\<lambda>k. (k, map (\<lambda>ex. aggr_state ex (filter (\<lambda>v. H v = k) vs)) exs)) (hashes H vs)\<rparr>)"

lemma update_aggregates_run:
  "list_all (\<lambda>ex. aggr_ok ex (us @ [v])) exs \<Longrightarrow>
   update_aggregates l th exs (map (\<lambda>ex. aggr_state ex us) exs) v = sret (map (\<lambda>ex. aggr_state ex (us @ [v])) exs)"
  by (induction exs) (simp_all add: aggr_state_snoc del: sret_apply)

lemma find_snoc: "find p (xs @ [x]) = (case find p xs of None \<Rightarrow> if p x then Some x else None | Some y \<Rightarrow> Some y)"
  by (induction xs) auto

lemma map_of_graph: "map_of (map (\<lambda>j. (j, f j)) ks) k = (if k \<in> set ks then Some (f k) else None)"
  by (induction ks) auto

lemma group_step:
  assumes ok: "list_all (\<lambda>gr. group_ok gr v) grs" "list_all (\<lambda>ex. aggr_ok ex (vs @ [v])) exs"
  shows "with_local (group_state qh grs exs vs) (sbind (group_by_process l qh th grs exs v) (\<lambda>_. k)) = with_local (group_state qh grs exs (vs @ [v])) k"
proof -
  let ?H = "\<lambda>v. key_hash qh (key_of grs v)"
  let ?f = "\<lambda>vs k. map (\<lambda>ex. aggr_state ex (filter (\<lambda>u. ?H u = k) vs)) exs"
  have hash: "group_hasher l qh th v grs 0 = sret (?H v)" for l th using group_hasher_run [OF ok(1)] by (simp add: key_hash_def)
  have "list_all (\<lambda>ex. aggr_ok ex (filter (\<lambda>u. ?H u = ?H v) vs @ [v])) exs"
    using ok(2) aggr_ok_filter [of _ "vs @ [v]" "\<lambda>u. ?H u = ?H v"] by (auto simp: list_all_iff)
  then have upd: "update_aggregates l th exs (?f vs (?H v)) v = sret (?f (vs @ [v]) (?H v))" for l th
    by (subst update_aggregates_run) simp_all
  have new: "?f vs (?H v) = map group_init_value exs" if "?H v \<notin> ?H ` set vs"
  proof -
    have "filter (\<lambda>u. ?H u = ?H v) vs = []" using that by (auto simp: filter_empty_conv image_iff)
    then show ?thesis using ok(2) aggr_ok_prefix [of _ "[]" "vs @ [v]"] by (auto simp: list_all_iff aggr_state_init)
  qed
  have vals: "AList.update (?H v) (?f (vs @ [v]) (?H v)) (gv_vals (group_state qh grs exs vs)) = gv_vals (group_state qh grs exs (vs @ [v]))"
    by (auto simp: group_state_def Let_def AList_update_graph)
  have nf: "find (\<lambda>u. ?H u = k) vs = None \<longleftrightarrow> k \<notin> ?H ` set vs" for k by (auto simp: find_None_iff)
  have keys: "gv_keys (group_state qh grs exs (vs @ [v])) = (if ?H v \<in> ?H ` set vs then gv_keys (group_state qh grs exs vs)
      else emplace (?H v) (key_of grs v) (gv_keys (group_state qh grs exs vs)))"
    using nf [of "?H v"] by (auto simp: group_state_def Let_def find_snoc emplace_def fun_eq_iff split: option.split)
  show ?thesis
  proof (cases "?H v \<in> ?H ` set vs")
    case True
    then have "map_of (gv_vals (group_state qh grs exs vs)) (?H v) = Some (?f vs (?H v))" by (simp add: group_state_def Let_def map_of_graph)
    moreover have "(group_state qh grs exs vs)\<lparr>gv_vals := gv_vals (group_state qh grs exs (vs @ [v]))\<rparr> = group_state qh grs exs (vs @ [v])"
      using True keys by (intro group_vars.equality) simp_all
    ultimately show ?thesis using vals by (simp add: group_by_process_def hash upd sbind_assoc del: sret_apply)
  next
    case False
    then have "map_of (gv_vals (group_state qh grs exs vs)) (?H v) = None" by (simp add: group_state_def Let_def map_of_graph)
    moreover have "(group_state qh grs exs vs)\<lparr>gv_keys := emplace (?H v) (key_of grs v) (gv_keys (group_state qh grs exs vs)),
        gv_vals := gv_vals (group_state qh grs exs (vs @ [v]))\<rparr> = group_state qh grs exs (vs @ [v])"
      using False keys by (intro group_vars.equality) simp_all
    ultimately show ?thesis using vals by (simp add: group_by_process_def hash sbind_assoc group_key_run [OF ok(1)] upd [unfolded new [OF False]] del: sret_apply)
  qed
qed

lemma group_run:
  assumes "list_all (\<lambda>v. list_all (\<lambda>gr. group_ok gr v) grs) vs" "list_all (\<lambda>ex. aggr_ok ex (us @ vs)) exs"
  shows "with_local (group_state qh grs exs us) (sbind (for_each (group_by_process l qh th grs exs) vs) (\<lambda>_. k)) =
    with_local (group_state qh grs exs (us @ vs)) k"
  using assms
proof (induction vs arbitrary: us)
  case (Cons v vs)
  have "list_all (\<lambda>ex. aggr_ok ex (us @ [v])) exs" using Cons.prems(2) aggr_ok_prefix [of _ "us @ [v]" vs] by (auto simp: list_all_iff)
  then show ?case using Cons.IH [of "us @ [v]"] Cons.prems by (simp add: sbind_assoc group_step)
qed simp

lemma find_same:
  assumes "v \<in> set vs"
  obtains u where "find (\<lambda>u. H u = H v) vs = Some u" "u \<in> set vs" "H u = H v"
proof (cases "find (\<lambda>u. H u = H v) vs")
  case None
  then show ?thesis using assms by (auto simp: find_None_iff)
next
  case (Some u)
  then have "u \<in> set vs" "H u = H v" by (auto simp: find_Some_iff)
  with Some show ?thesis by (rule that)
qed

lemma group_row_run:
  assumes ok: "list_all (\<lambda>v. list_all (\<lambda>gr. group_ok gr v) grs) vs" "list_all (\<lambda>ex. aggr_ok ex vs) exs" and v: "v \<in> set vs"
    and inj: "\<And>u. u \<in> set vs \<Longrightarrow> key_hash qh (key_of grs u) = key_hash qh (key_of grs v) \<Longrightarrow> key_of grs u = key_of grs v"
  shows "group_row grs exs (gv_keys (group_state qh grs exs vs))
      (key_hash qh (key_of grs v), map (\<lambda>ex. aggr_state ex (filter (\<lambda>u. key_hash qh (key_of grs u) = key_hash qh (key_of grs v)) vs)) exs) =
    Inr (key_of grs v @ map (\<lambda>ex. aggr_spec ex (filter (\<lambda>u. key_of grs u = key_of grs v) vs)) exs)"
proof -
  let ?H = "\<lambda>v. key_hash qh (key_of grs v)"
  have k: "gv_keys (group_state qh grs exs vs) (?H v) = Some (key_of grs v)" using find_same [OF v, of ?H] inj by (auto simp: group_state_def)
  have f: "filter (\<lambda>u. ?H u = ?H v) vs = filter (\<lambda>u. key_of grs u = key_of grs v) vs" using inj by (auto intro: filter_cong)
  have ne: "filter (\<lambda>u. key_of grs u = key_of grs v) vs \<noteq> []" using v by (auto simp: filter_empty_conv)
  have "rmap (\<lambda>(gr, q). key_column gr q) (zip grs (key_of grs v)) = Inr (map (\<lambda>gr. [v ! gb_var gr]) grs)"
    unfolding key_of_def zip_map_self rmap_map by (rule rmap_Inr) (use ok(1) v in \<open>auto simp: list_all_iff key_column_def group_ok_def\<close>)
  moreover have "rmap (\<lambda>(ex, a). aggr_result ex a) (zip exs (map (\<lambda>ex. aggr_state ex (filter (\<lambda>u. key_of grs u = key_of grs v) vs)) exs)) =
      Inr (map (\<lambda>ex. [aggr_spec ex (filter (\<lambda>u. key_of grs u = key_of grs v) vs)]) exs)"
    unfolding zip_map_self rmap_map by (rule rmap_Inr) (use ok(2) ne in \<open>auto simp: list_all_iff aggr_state_result aggr_ok_filter\<close>)
  moreover have "concat (map (\<lambda>x. [h x]) xs) = map h xs" for h :: "'z \<Rightarrow> query_result" and xs by (induction xs) auto
  ultimately show ?thesis by (simp add: group_row_def k f) (simp add: key_of_def)
qed

lemma group_vars_new_state: "group_vars_new = group_state qh grs exs []"
  by (simp add: group_vars_new_def group_state_def)

lemma for_each_rows:
  assumes "\<And>e. e \<in> set es \<Longrightarrow> row e = Inr (out e)"
  shows "for_each (\<lambda>e. sbind (srun (row e)) (\<lambda>v. outer (consume v))) es = outer (for_each consume (map out es))"
  using assms by (induction es) (simp_all add: srun_Inr outer_bind)

text \<open>
  C22. \<open>group_by\<close> on plain values: one tuple per key that occurs, with the key and the aggregates of exactly the tuples with this key, in the unspecified order of
  the hash table, and then the end of the input; provided no two keys of the input have the same hash. The aggregates
  are those of the theorem above on \<open>aggregate\<close>: minimum and maximum of \<open>int\<close> and \<open>uint64_t\<close> values only.
\<close>

theorem group_by_groups:
  assumes ok: "list_all (\<lambda>v. list_all (\<lambda>gr. group_ok gr v) grs) vs" "list_all (\<lambda>ex. aggr_ok ex vs) exs"
    and inj: "\<And>u v. u \<in> set vs \<Longrightarrow> v \<in> set vs \<Longrightarrow> key_hash qh (key_of grs u) = key_hash qh (key_of grs v) \<Longrightarrow> key_of grs u = key_of grs v"
    and iter: "\<And>xs. mset (iter xs) = mset xs"
  shows "\<exists>ks. distinct ks \<and> set ks = key_of grs ` set vs \<and>
    with_local group_vars_new (sbind (for_each (group_by_process l qh th grs exs) vs) (\<lambda>_. group_by_finish iter grs exs consume fin)) =
    sbind (for_each consume (map (\<lambda>k. k @ map (\<lambda>ex. aggr_spec ex (filter (\<lambda>v. key_of grs v = k) vs)) exs) ks)) (\<lambda>_. fin)"
proof -
  let ?H = "\<lambda>v. key_hash qh (key_of grs v)"
  let ?st = "group_state qh grs exs vs" and ?e = "\<lambda>h. (h, map (\<lambda>ex. aggr_state ex (filter (\<lambda>u. ?H u = h) vs)) exs)"
  let ?row = "\<lambda>k. k @ map (\<lambda>ex. aggr_spec ex (filter (\<lambda>v. key_of grs v = k) vs)) exs"
  define es where "es = iter (gv_vals ?st)"
  have vals: "gv_vals ?st = map ?e (hashes ?H vs)" by (simp add: group_state_def Let_def)
  have m: "mset es = mset (gv_vals ?st)" by (simp add: es_def iter)
  have "mset (map fst es) = mset (hashes ?H vs)" by (simp add: m vals multiset.map_comp o_def)
  then have "distinct (map fst es)" using mset_eq_imp_distinct_iff hashes_distinct by blast
  have mem: "\<exists>v\<in>set vs. e = ?e (?H v)" if "e \<in> set es" for e
    using that vals mset_eq_setD [OF m] by auto
  define kf where "kf = (\<lambda>h. key_of grs (the (find (\<lambda>u. ?H u = h) vs)))"
  have kf: "kf (?H v) = key_of grs v" if "v \<in> set vs" for v
    by (rule find_same [OF that, of ?H]) (simp add: kf_def inj [OF _ that])
  have rows: "group_row grs exs (gv_keys ?st) e = Inr (?row (kf (fst e)))" if e: "e \<in> set es" for e
  proof -
    obtain v where v: "v \<in> set vs" "e = ?e (?H v)" using mem [OF e] by blast
    show ?thesis using group_row_run [OF ok v(1) inj [OF _ v(1)]] kf [OF v(1)] by (simp add: v(2))
  qed
  have "set (map (\<lambda>e. kf (fst e)) es) = key_of grs ` set vs"
    using mset_eq_setD [OF m] by (simp add: vals image_image kf cong: image_cong)
  moreover have "inj_on (\<lambda>e. kf (fst e)) (set es)" using mem kf by (intro inj_onI) (metis fst_conv)
  then have "distinct (map (\<lambda>e. kf (fst e)) es)" using \<open>distinct (map fst es)\<close> by (simp add: distinct_map)
  moreover have "with_local group_vars_new (sbind (for_each (group_by_process l qh th grs exs) vs) (\<lambda>_. group_by_finish iter grs exs consume fin)) =
      with_local ?st (group_by_finish iter grs exs consume fin)"
    using ok by (simp add: group_vars_new_state [of qh grs exs] group_run [of _ _ "[]", simplified])
  moreover have "with_local ?st (group_by_finish iter grs exs consume fin) =
      sbind (for_each consume (map ?row (map (\<lambda>e. kf (fst e)) es))) (\<lambda>_. fin)"
    using es_def by (simp add: group_by_finish_def for_each_rows [OF rows] o_def flip: outer_bind)
  ultimately show ?thesis by (intro exI [of _ "map (\<lambda>e. kf (fst e)) es"]) simp
qed

definition grs_demo :: "group_expr list" where
  "grs_demo = [\<lparr>gb_var = 0, gb_property = [], gb_pkey = UNKNOWN_CODE, gb_type = T_int\<rparr>]"

definition exs_demo :: "aggr_expr list" where
  "exs_demo = [\<lparr>ae_func = F_count, ae_var = 0, ae_property = [], ae_pkey = UNKNOWN_CODE, ae_type = T_int\<rparr>,
     \<lparr>ae_func = F_max, ae_var = 1, ae_property = [], ae_pkey = UNKNOWN_CODE, ae_type = T_int\<rparr>]"

definition rows_demo :: "qr_tuple list" where
  "rows_demo = [[Q_int 1, Q_int 10], [Q_int 2, Q_int 20], [Q_int 1, Q_int (- 30)]]"

lemma demo_ok: "list_all (\<lambda>ex. aggr_ok ex rows_demo) exs_demo" "list_all (\<lambda>v. list_all (\<lambda>gr. group_ok gr v) grs_demo) rows_demo"
  by (simp_all add: exs_demo_def rows_demo_def grs_demo_def aggr_ok_def is_int32_def INT_MAX_def INT_MIN_def group_ok_def has_type_def)

theorem aggregate_values_witness:
  "list_all (\<lambda>ex. aggr_ok ex rows_demo) exs_demo \<and>
   with_local (map (init_value (A_int 0)) exs_demo)
     (sbind (for_each (aggregate_process qlib_demo 0 exs_demo) rows_demo) (\<lambda>_. aggregate_finish exs_demo collect_process (sret ()))) =
   collect_process [Q_int 3, Q_int 20]"
  using aggregate_values [OF demo_ok(1), of "A_int 0" qlib_demo 0 collect_process "sret ()"] demo_ok(1)
  by (simp add: exs_demo_def aggr_spec_def rows_demo_def int_of_def)

theorem max_of_negative_double_witness:
  "with_local [init_value (A_int 0) \<lparr>ae_func = F_max, ae_var = 0, ae_property = [], ae_pkey = UNKNOWN_CODE, ae_type = T_double\<rparr>]
     (sbind (for_each (aggregate_process qlib_demo 0 [\<lparr>ae_func = F_max, ae_var = 0, ae_property = [], ae_pkey = UNKNOWN_CODE, ae_type = T_double\<rparr>])
        [[Q_double (Finite True 5)]])
      (\<lambda>_. aggregate_finish [\<lparr>ae_func = F_max, ae_var = 0, ae_property = [], ae_pkey = UNKNOWN_CODE, ae_type = T_double\<rparr>] collect_process (sret ()))) =
   collect_process [Q_double DBL_MIN]"
  using max_of_negative_double [of "Finite True 5" "[[Q_double (Finite True 5)]]" _ "A_int 0" qlib_demo 0 collect_process "sret ()"] by (simp add: dval_def)

lemma key_hash_demo: "key_hash qhash_demo [Q_int 1] \<noteq> key_hash qhash_demo [Q_int 2]"
  by (simp add: key_hash_def mix_value_def mix_def) 

theorem group_by_groups_witness:
  "\<exists>ks. distinct ks \<and> set ks = {[Q_int 1], [Q_int 2]} \<and>
     with_local group_vars_new (sbind (for_each (group_by_process qlib_demo qhash_demo 0 grs_demo exs_demo) rows_demo)
       (\<lambda>_. group_by_finish rev grs_demo exs_demo collect_process (sret ()))) =
     sbind (for_each collect_process (map (\<lambda>k. k @ map (\<lambda>ex. aggr_spec ex (filter (\<lambda>v. key_of grs_demo v = k) rows_demo)) exs_demo) ks)) (\<lambda>_. sret ())"
proof -
  have "key_of grs_demo u = key_of grs_demo v"
    if "u \<in> set rows_demo" "v \<in> set rows_demo" "key_hash qhash_demo (key_of grs_demo u) = key_hash qhash_demo (key_of grs_demo v)" for u v
    using that key_hash_demo by (auto simp: rows_demo_def grs_demo_def key_of_def)
  note g = group_by_groups [OF demo_ok(2,1) this, where iter = rev and l = qlib_demo and th = 0 and consume = collect_process and fin = "sret ()"]
  have "key_of grs_demo ` set rows_demo = {[Q_int 1], [Q_int 2]}" by (auto simp: rows_demo_def grs_demo_def key_of_def)
  then show ?thesis using g by simp
qed

text \<open>
  The hash of a group of two nodes or two relationships is the exclusive or of their identifiers: the tuples of \<open>(m, n)\<close> and \<open>(n, m)\<close> go into
  one group, and so do all tuples \<open>(n, n)\<close>.
\<close>

theorem group_hash_symmetric:
  assumes "node_at i r g = (Inr e, g)" "node_at j q g = (Inr f, g)"
    "gr1 = \<lparr>gb_var = 0, gb_property = [], gb_pkey = UNKNOWN_CODE, gb_type = T_node_ptr\<rparr>" "gr2 = \<lparr>gb_var = 1, gb_property = [], gb_pkey = UNKNOWN_CODE, gb_type = T_node_ptr\<rparr>"
  shows "group_hasher l qh th [Q_node (Some (i, r)), Q_node (Some (j, q))] [gr1, gr2] 0 g =
    group_hasher l qh th [Q_node (Some (j, q)), Q_node (Some (i, r))] [gr1, gr2] 0 g"
  using assms by (simp add: group_mix_def tup_at_def deref_def sbind_def xor.commute)

end
