(* ===== verification/Query_Update.thy ===== *)
theory Query_Update
  imports Query_Push Graph_Run
begin

text \<open>
  Projection (\<^verbatim>\<open>qop_projection.cpp\<close>) and the operators that change the store (\<^verbatim>\<open>qop_updates.cpp\<close>) of \<^verbatim>\<open>src/src/query/plan_op\<close>. The formatting of dates is a
  parameter.
\<close>

section \<open>Projection\<close>

datatype prj = Prj_unknown | Prj_forward | Prj_int_property | Prj_uint64_property | Prj_string_property | Prj_double_property | Prj_ptime_property
  | Prj_date_property | Prj_arithmetic_expr | Prj_case_expr | Prj_int_property_as_datestring | Prj_int_property_as_datetimestring | Prj_label | Prj_function

text \<open>A projection expression. A user defined function of one parameter is part of its expression here; in the code it is the next one of the list of functions.\<close>

record 'q pexpr =
  px_idx :: nat
  px_pname :: string
  px_func :: prj
  px_ex :: "'q expr"
  px_ex1 :: "'q expr"
  px_ex2 :: "'q expr"
  px_udf :: "(query_result \<Rightarrow> ('q, query_result) gact) option"

record date_format =
  df_date :: "int \<Rightarrow> string"
  df_dtime :: "int \<Rightarrow> string"

definition int_to_string :: "(int \<Rightarrow> string) \<Rightarrow> query_result \<Rightarrow> query_result result" where
  "int_to_string f v = (case v of Q_int i \<Rightarrow> Inr (Q_string (f i)) | _ \<Rightarrow> Inl Assertion_failed)"

text \<open>The function of a projection expression, on the tuple with descriptions; an expression without a function is an empty \<open>std::function\<close>.\<close>

definition prj_func :: "qlib \<Rightarrow> date_format \<Rightarrow> 'q pexpr \<Rightarrow> qr_tuple \<Rightarrow> ('q, query_result) gact" where
  "prj_func l df ex v = (let qa = tup_at v (px_idx ex) in case px_func ex of
     Prj_forward \<Rightarrow> srun qa
   | Prj_int_property \<Rightarrow> srun (rbind qa (\<lambda>q. int_property q (px_pname ex)))
   | Prj_int_property_as_datestring \<Rightarrow> srun (rbind qa (\<lambda>q. rbind (int_property q (px_pname ex)) (int_to_string (df_date df))))
   | Prj_int_property_as_datetimestring \<Rightarrow> srun (rbind qa (\<lambda>q. rbind (int_property q (px_pname ex)) (int_to_string (df_dtime df))))
   | Prj_uint64_property \<Rightarrow> srun (rbind qa (\<lambda>q. uint64_property q (px_pname ex)))
   | Prj_double_property \<Rightarrow> srun (rbind qa (\<lambda>q. double_property q (px_pname ex)))
   | Prj_string_property \<Rightarrow> srun (rbind qa (\<lambda>q. string_property q (px_pname ex)))
   | Prj_ptime_property \<Rightarrow> srun (rbind qa (\<lambda>q. ptime_property q (px_pname ex)))
   | Prj_date_property \<Rightarrow> srun (rbind qa (\<lambda>q. ptime_property q (px_pname ex)))
   | Prj_case_expr \<Rightarrow> sbind (interpret_bool_expression l (px_ex ex) v) (\<lambda>b. interpret_expression l (if b then px_ex1 ex else px_ex2 ex) v)
   | Prj_arithmetic_expr \<Rightarrow> interpret_expression l (px_ex ex) v
   | Prj_label \<Rightarrow> srun (rbind qa (\<lambda>q. Inr (get_label q)))
   | Prj_function \<Rightarrow> (case px_udf ex of Some f \<Rightarrow> sbind (srun qa) f | None \<Rightarrow> sthrow Bad_function_call)
   | Prj_unknown \<Rightarrow> sthrow Bad_function_call)"

text \<open>The descriptions of the nodes and relationships at the positions of the expressions, fetched once per tuple in the order of the positions.\<close>

definition describe :: "nat \<Rightarrow> query_result \<Rightarrow> ('q, query_result) gact" where
  "describe th q = (case q of
     Q_node p \<Rightarrow> sbind (srun (deref p)) (\<lambda>(i, r). sbind (node_at i r) (\<lambda>e. sbind (get_node_description th (nd_id (body e))) (\<lambda>d. sret (Q_node_descr d))))
   | Q_rship p \<Rightarrow> sbind (srun (deref p)) (\<lambda>(i, r). sbind (rship_at i r) (\<lambda>e. sbind (get_rship_description th (rs_id (body e))) (\<lambda>d. sret (Q_rship_descr d))))
   | _ \<Rightarrow> sret q)"

definition accessed :: "'q pexpr list \<Rightarrow> nat list" where
  "accessed exs = sorted_list_of_set (set (map px_idx exs))"

fun cache_tuple :: "nat \<Rightarrow> qr_tuple \<Rightarrow> nat list \<Rightarrow> qr_tuple \<Rightarrow> ('q, qr_tuple) gact" where
  "cache_tuple th v [] c = sret c"
| "cache_tuple th v (i # is) c = sbind (srun (tup_at v i)) (\<lambda>q. sbind (describe th q) (\<lambda>d. cache_tuple th v is (c[i := d])))"

text \<open>The exception \<open>unknown_property\<close> leaves the default value in the result.\<close>

definition catch_unknown :: "('q, query_result) gact \<Rightarrow> ('q, query_result) gact" where
  "catch_unknown act g = (case act g of (Inl Unknown_property, g') \<Rightarrow> (Inr qv_default, g') | r \<Rightarrow> r)"

fun project_all :: "qlib \<Rightarrow> date_format \<Rightarrow> 'q pexpr list \<Rightarrow> qr_tuple \<Rightarrow> ('q, qr_tuple) gact" where
  "project_all l df [] c = sret []"
| "project_all l df (ex # exs) c = sbind (catch_unknown (prj_func l df ex c)) (\<lambda>q. sbind (project_all l df exs c) (\<lambda>qs. sret (q # qs)))"

definition projection_process :: "qlib \<Rightarrow> date_format \<Rightarrow> nat \<Rightarrow> 'q pexpr list \<Rightarrow> 'q consume_func \<Rightarrow> 'q consume_func" where
  "projection_process l df th exs consume v =
     sbind (cache_tuple th v (accessed exs) v) (\<lambda>c. sbind (project_all l df exs c) (\<lambda>res. consume res))"

section \<open>Properties with expressions\<close>

datatype 'q prop_val = Prop_any any_val | Prop_expr "'q expr"

type_synonym 'q qprops = "(string \<times> 'q prop_val) list"

definition check_for_expr_in_properties :: "'q qprops \<Rightarrow> bool" where
  "check_for_expr_in_properties props = list_ex (\<lambda>(k, a). case a of Prop_expr _ \<Rightarrow> True | _ \<Rightarrow> False) props"

fun eval_properties :: "qlib \<Rightarrow> qr_tuple \<Rightarrow> 'q qprops \<Rightarrow> ('q, properties_t) gact" where
  "eval_properties l v [] = sret []"
| "eval_properties l v ((k, Prop_any a) # ps) = sbind (eval_properties l v ps) (\<lambda>qs. sret ((k, a) # qs))"
| "eval_properties l v ((k, Prop_expr ex) # ps) =
     sbind (interpret_expression l ex v) (\<lambda>x. sbind (eval_properties l v ps) (\<lambda>qs. sret ((k, case qv_to_any x of Some a \<Rightarrow> a | None \<Rightarrow> Any_other) # qs)))"

text \<open>The properties as the store gets them when they are not evaluated: an expression is a value of no known type.\<close>

definition raw_properties :: "'q qprops \<Rightarrow> properties_t" where
  "raw_properties = map (\<lambda>(k, a). (k, case a of Prop_any x \<Rightarrow> x | Prop_expr _ \<Rightarrow> Any_other))"

section \<open>Creating and updating\<close>

definition new_node_ref :: "conv \<Rightarrow> hash \<Rightarrow> nat \<Rightarrow> string \<Rightarrow> properties_t \<Rightarrow> ('q, query_result) gact" where
  "new_node_ref cv h th label props = sbind (add_node cv h th label props True) (\<lambda>i. sbind (node_by_id th i) (\<lambda>r. sret (Q_node (Some (i, r)))))"

definition create_node_start :: "qlib \<Rightarrow> conv \<Rightarrow> hash \<Rightarrow> nat \<Rightarrow> string \<Rightarrow> 'q qprops \<Rightarrow> 'q consume_func \<Rightarrow> ('q, unit) gact" where
  "create_node_start l cv h th label props consume =
     (if check_for_expr_in_properties props
      then sbind (eval_properties l [] props) (\<lambda>new_props. sbind (new_node_ref cv h th label new_props) (\<lambda>n. consume [n]))
      else sbind (new_node_ref cv h th label (raw_properties props)) (\<lambda>n. consume [n]))"

definition create_node_process :: "qlib \<Rightarrow> conv \<Rightarrow> hash \<Rightarrow> nat \<Rightarrow> string \<Rightarrow> 'q qprops \<Rightarrow> 'q consume_func \<Rightarrow> 'q consume_func" where
  "create_node_process l cv h th label props consume v =
     (if check_for_expr_in_properties props
      then sbind (eval_properties l v props) (\<lambda>new_props. sbind (new_node_ref cv h th label (raw_properties props)) (\<lambda>n. consume (v @ [n])))
      else sbind (new_node_ref cv h th label (raw_properties props)) (\<lambda>n. consume (v @ [n])))"

definition node_ptr_at :: "qr_tuple \<Rightarrow> nat \<Rightarrow> ('q, offset_t \<times> vref) gact" where
  "node_ptr_at v pos = srun (rbind (tup_at v pos) (\<lambda>q. case q of Q_node p \<Rightarrow> deref p | _ \<Rightarrow> Inl Assertion_failed))"

definition create_relationship_process ::
  "qlib \<Rightarrow> conv \<Rightarrow> hash \<Rightarrow> nat \<Rightarrow> string \<Rightarrow> 'q qprops \<Rightarrow> nat \<times> nat \<Rightarrow> 'q consume_func \<Rightarrow> 'q consume_func" where
  "create_relationship_process l cv h th label props ends consume v =
     sbind (node_ptr_at v (fst ends)) (\<lambda>(i1, r1).
     sbind (node_ptr_at v (snd ends)) (\<lambda>(i2, r2).
     sbind (if check_for_expr_in_properties props then eval_properties l v props else sret (raw_properties props)) (\<lambda>new_props.
     sbind (node_at i1 r1) (\<lambda>n1.
     sbind (node_at i2 r2) (\<lambda>n2.
     sbind (add_relationship cv h th (nd_id (body n1)) (nd_id (body n2)) label new_props True) (\<lambda>rid.
     sbind (rship_by_id th rid) (\<lambda>q. consume (v @ [Q_rship (Some (rid, q))]))))))))"

definition update_node_process :: "conv \<Rightarrow> hash \<Rightarrow> nat \<Rightarrow> nat \<Rightarrow> properties_t \<Rightarrow> 'q consume_func \<Rightarrow> 'q consume_func" where
  "update_node_process cv h th var_no props consume v =
     sbind (node_ptr_at v var_no) (\<lambda>(i, r). sbind (update_node cv h th i r props []) (\<lambda>_. consume v))"

section \<open>Removing\<close>

text \<open>The position of the element that is removed: the last one, if no position is given.\<close>

definition element_pos :: "nat option \<Rightarrow> qr_tuple \<Rightarrow> nat result" where
  "element_pos pos v = (case pos of None \<Rightarrow> if v = [] then Inl Undefined_behaviour else Inr (length v - 1)
     | Some p \<Rightarrow> if p < length v then Inr p else Inl Undefined_behaviour)"

definition node_to_remove :: "nat option \<Rightarrow> qr_tuple \<Rightarrow> ('q, nat \<times> offset_t \<times> vref) gact" where
  "node_to_remove pos v = srun (rbind (element_pos pos v) (\<lambda>p. rbind (rbind (qv_get_node (v ! p)) deref) (\<lambda>ir. Inr (p, ir))))"

definition collect_id :: "(offset_t list \<times> 'v) rship_consumer" where
  "collect_id i q = sbind (rship_at i q) (\<lambda>e. upd_local (\<lambda>ids. ids @ [rs_id (body e)]))"

definition detach_node_process :: "nat \<Rightarrow> nat \<Rightarrow> nat option \<Rightarrow> 'q consume_func \<Rightarrow> 'q consume_func" where
  "detach_node_process wk th pos consume v =
     sbind (node_to_remove pos v) (\<lambda>(p, i, r).
     sbind (with_local [] (
       sbind (node_at i r) (\<lambda>e.
       sbind (foreach_from_relationship_of_node wk th (body e) collect_id) (\<lambda>_.
       sbind (node_at i r) (\<lambda>e'.
       sbind (foreach_to_relationship_of_node wk th (body e') collect_id) (\<lambda>_. get_local)))))) (\<lambda>rships.
     sbind (for_each (delete_relationship th) rships) (\<lambda>_.
     sbind (node_at i r) (\<lambda>e.
     sbind (delete_node th (nd_id (body e))) (\<lambda>_. consume (v[p := Q_null]))))))"

definition remove_node_process :: "nat \<Rightarrow> nat option \<Rightarrow> 'q consume_func \<Rightarrow> 'q consume_func" where
  "remove_node_process th pos consume v =
     sbind (node_to_remove pos v) (\<lambda>(p, i, r).
     sbind (node_at i r) (\<lambda>e.
     sbind (delete_node th (nd_id (body e))) (\<lambda>_. consume (v[p := Q_null]))))"

definition rship_id_of :: "query_result \<Rightarrow> ('q, offset_t) gact" where
  "rship_id_of q = (case q of
     Q_rship p \<Rightarrow> sbind (srun (deref p)) (\<lambda>(i, r). sbind (rship_at i r) (\<lambda>e. sret (rs_id (body e))))
   | Q_rship_descr d \<Rightarrow> sret (rdesc_id d)
   | _ \<Rightarrow> sthrow Bad_get)"

definition remove_relationship_process :: "nat \<Rightarrow> nat option \<Rightarrow> 'q consume_func \<Rightarrow> 'q consume_func" where
  "remove_relationship_process th pos consume v =
     sbind (srun (element_pos pos v)) (\<lambda>p.
     sbind (rship_id_of (v ! p)) (\<lambda>rid.
     sbind (delete_relationship th rid) (\<lambda>_. consume (v[p := Q_null]))))"

section \<open>Creating nodes\<close>

lemma touch_inserted:
  assumes "0 < x" "x < INF_TS"
  shows "get_valid_node_version x (touch x (inserted_node x i c items)) = Inr (Version 0)"
    "o_version (touch x (inserted_node x i c items)) (Version 0) = Inr (insert_version items (inserted_elem x i c))"
  using assms by (simp_all add: touch_def get_valid_node_version_def is_locked_by_def inserted_node_def inserted_elem_def txn_eval insert_version_def
      set_rts_def prepare_def)

lemma new_node_ref_run:
  assumes "cv_inv (g_nodes g)" "g_current g th = Some tx" "0 < xid tx" "xid tx < INF_TS"
    and "label_result h label (g_dict g) = Inr (d1, c)" "pl_build_dirty_props cv h props d1 = Inr (d2, items)"
  shows "\<exists>i g' n v. new_node_ref cv h th label props g = (Inr (Q_node (Some (i, Version 0))), g') \<and>
    cv_view (g_nodes g) i = None \<and> cv_view (g_nodes g') = (cv_view (g_nodes g))(i \<mapsto> n) \<and>
    o_version n (Version 0) = Inr v \<and> v_props v = items \<and> nd_label (body (v_elem v)) = c"
proof -
  let ?x = "xid tx"
  from add_node_spec [OF assms(1,2) _ assms(5,6), of True] assms(3) obtain i v where
    a: "cv_view (g_nodes g) i = None" "cv_inv v" "cv_view v = (cv_view (g_nodes g))(i \<mapsto> inserted_node ?x i c items)"
    "add_node cv h th label props True g = (Inr i, g\<lparr>g_nodes := v, g_dict := d2, g_current := (g_current g)(th \<mapsto> add_dirty_node i tx)\<rparr>)" by auto
  let ?n = "inserted_node ?x i c items"
  have h: "holds v i ?n" using a(2,3) by (simp add: holds_def cv_inv_def)
  have x: "xid (add_dirty_node i tx) = ?x" by (simp add: add_dirty_node_def)
  have w: "cv_view (cv_assign v i (touch ?x ?n)) = (cv_view (g_nodes g))(i \<mapsto> touch ?x ?n)" using h a(3) by (auto simp: holds_def cv_assign_props fun_eq_iff)
  have "v_props (insert_version items (inserted_elem ?x i c)) = items" "nd_label (body (v_elem (insert_version items (inserted_elem ?x i c)))) = c"
    by (simp_all add: insert_version_def inserted_elem_def node_body_new_def)
  moreover have "new_node_ref cv h th label props g = (Inr (Q_node (Some (i, Version 0))),
      g\<lparr>g_nodes := cv_assign v i (touch ?x ?n), g_dict := d2, g_current := (g_current g)(th \<mapsto> add_dirty_node i tx)\<rparr>)"
    using a(4) h x touch_inserted(1) [OF assms(3,4)] by (simp add: new_node_ref_def sbind_def node_by_id_run)
  ultimately show ?thesis using a(1) w touch_inserted(2) [OF assms(3,4)]
    by (intro exI [of _ i] exI exI [of _ "touch ?x ?n"] exI [of _ "insert_version items (inserted_elem ?x i c)"] conjI) (assumption | simp)+
qed

text \<open>
  C34. \<open>create_node\<close> at the start of a pipeline: the expressions among the properties are evaluated, and the operator behind gets one tuple with a reference to a new
  node that has the label and the items of the evaluated properties; no other node changes.
\<close>

theorem create_node_start_creates:
  assumes "cv_inv (g_nodes g)" "g_current g th = Some tx" "0 < xid tx" "xid tx < INF_TS"
    and ev: "eval_properties l [] props g = (Inr ps, g)"
    and "label_result h label (g_dict g) = Inr (d1, c)" "pl_build_dirty_props cv h ps d1 = Inr (d2, items)"
  shows "\<exists>i g' n v. create_node_start l cv h th label props consume g = consume [Q_node (Some (i, Version 0))] g' \<and>
    cv_view (g_nodes g) i = None \<and> cv_view (g_nodes g') = (cv_view (g_nodes g))(i \<mapsto> n) \<and>
    o_version n (Version 0) = Inr v \<and> v_props v = items \<and> nd_label (body (v_elem v)) = c"
proof -
  have "\<not> check_for_expr_in_properties props \<Longrightarrow> eval_properties l [] props = sret (raw_properties props)"
    by (induction props) (auto simp: check_for_expr_in_properties_def raw_properties_def fun_eq_iff sbind_def split: prop_val.splits)
  then have "\<not> check_for_expr_in_properties props \<Longrightarrow> raw_properties props = ps" using ev by simp
  then have "create_node_start l cv h th label props consume g = sbind (new_node_ref cv h th label ps) (\<lambda>n. consume [n]) g"
    using ev by (simp add: create_node_start_def sbind_def)
  moreover obtain i g' n v where "new_node_ref cv h th label ps g = (Inr (Q_node (Some (i, Version 0))), g')"
    "cv_view (g_nodes g) i = None" "cv_view (g_nodes g') = (cv_view (g_nodes g))(i \<mapsto> n)"
    "o_version n (Version 0) = Inr v" "v_props v = items" "nd_label (body (v_elem v)) = c"
    using new_node_ref_run [OF assms(1-4,6,7)] by blast
  ultimately show ?thesis by (auto simp: sbind_def)
qed

text \<open>
  \<open>create_node\<close> behind another operator evaluates the expressions among the properties but then passes the properties without their values: the node is the same
  whatever the expressions are, with unused items in their place.
\<close>

theorem create_node_process_loses:
  assumes "eval_properties l v props g = (Inr ps, g)" "eval_properties l v props' g = (Inr ps', g)" "raw_properties props = raw_properties props'"
  shows "create_node_process l cv h th label props consume v g = create_node_process l cv h th label props' consume v g"
  using assms by (simp add: create_node_process_def sbind_def)

theorem create_node_start_creates_witness:
  "\<exists>i g' n v. create_node_start qlib_demo conv_demo length 1 ''age'' [(''age'', Prop_expr (Number_int 5))] (\<lambda>_. sret ()) (db_demo node_blank) = (Inr (), g') \<and>
     cv_view (g_nodes g') i = Some n \<and> o_version n (Version 0) = Inr v \<and> v_props v = [(pi_set_int 5 pi_unused)\<lparr>pi_key := 1\<rparr>]"
proof -
  have inv: "cv_inv (g_nodes (db_demo node_blank))" using nodes_demo_inv by (simp add: db_demo_def)
  obtain d where d: "label_result length ''age'' (g_dict (db_demo node_blank)) = Inr (d, 1)"
    "pl_build_dirty_props conv_demo length [(''age'', Any_int 5)] d = Inr (d, [(pi_set_int 5 pi_unused)\<lparr>pi_key := 1\<rparr>])"
    using dict_demo_label by (auto simp: db_demo_simps)
  have e: "eval_properties qlib_demo [] [(''age'', Prop_expr (Number_int 5))] (db_demo node_blank) = (Inr [(''age'', Any_int 5)], db_demo node_blank)"
    by (simp add: interpret_expression_def sbind_def)
  from create_node_start_creates [OF inv _ _ _ e d, of 1 "transaction_new 5" "\<lambda>_. sret ()"] show ?thesis
    by (auto simp: INF_TS_def db_demo_simps)
qed

theorem create_node_process_loses_witness:
  "create_node_process qlib_demo conv_demo length 1 ''age'' [(''age'', Prop_expr (Number_int 5))] (\<lambda>_. sret ()) [] (db_demo node_blank) =
   create_node_process qlib_demo conv_demo length 1 ''age'' [(''age'', Prop_expr (Number_int 6))] (\<lambda>_. sret ()) [] (db_demo node_blank)"
  by (rule create_node_process_loses) (simp_all add: interpret_expression_def sbind_def raw_properties_def)

end
