(* ===== verification/Csr_Delta.thy ===== *)
theory Csr_Delta
  imports Graph_Search
begin

text \<open>
  The delta store for CSR copies of the graph, \<^verbatim>\<open>src/src/storage/csr_delta\<close>, and the ids a transaction collects for it
  (\<^verbatim>\<open>src/src/tx/transaction\<close>). Two build options are modelled: \<open>ADJ_DELTA\<close>, the default of \<^verbatim>\<open>analytics.hpp\<close>, stores the neighbours a node has after a transaction, \<open>DIFF_DELTA\<close> the inserted and
  deleted ones. Delta records are in the in-memory vector, so \<open>VOLATILE_DELTA\<close> is fixed. The arrays of a delta are slices of vectors of
  the store; a slice outside the vector is undefined. A \<open>std::map\<close> is the list of its entries in the order of the keys.
\<close>

section \<open>Arithmetic and containers\<close>

text \<open>A weight of type \<open>double\<close> stored as a \<open>float\<close>: rounded to 24 significant bits, ties to even. Values beyond the largest \<open>float\<close>, which
  become infinite in the code, are not distinguished.\<close>

definition rnd32 :: "real \<Rightarrow> real" where
  "rnd32 x = (let u = 2 powr of_int (max \<lfloor>log 2 \<bar>x\<bar>\<rfloor> (- 126) - 23) in of_int (rne (x / u)) * u)"

text \<open>The conversion of a size to \<open>int\<close>.\<close>

definition int32 :: "nat \<Rightarrow> int" where
  "int32 n = (int n + 2 ^ 31) mod 2 ^ 32 - 2 ^ 31"

text \<open>The elements between \<open>begin() + pos\<close> and \<open>cnt\<close> places further.\<close>

definition vec_slice :: "'a list \<Rightarrow> nat \<Rightarrow> int \<Rightarrow> 'a list result" where
  "vec_slice xs pos cnt =
     (if 0 \<le> cnt \<and> pos + nat cnt \<le> length xs then Inr (take (nat cnt) (drop pos xs)) else Inl Undefined_behaviour)"

fun rfold :: "('a \<Rightarrow> 's \<Rightarrow> 's result) \<Rightarrow> 'a list \<Rightarrow> 's \<Rightarrow> 's result" where
  "rfold f [] s = Inr s"
| "rfold f (x # xs) s = rbind (f x s) (rfold f xs)"

type_synonym 'b omap = "(nat \<times> 'b) list"

fun om_put :: "nat \<Rightarrow> 'b \<Rightarrow> 'b omap \<Rightarrow> 'b omap" where
  "om_put k v [] = [(k, v)]"
| "om_put k v ((l, w) # m) = (if k < l then (k, v) # (l, w) # m else if k = l then (k, v) # m else (l, w) # om_put k v m)"

definition om_get :: "'b \<Rightarrow> nat \<Rightarrow> 'b omap \<Rightarrow> 'b" where
  "om_get d k m = (case map_of m k of None \<Rightarrow> d | Some v \<Rightarrow> v)"

section \<open>Records and stores\<close>

record delta_rec =
  dr_txid :: xid_t
  dr_node_id :: offset_t
  dr_merged :: bool

record adj_rec = delta_rec +
  ar_pos :: offset_t
  ar_count :: int

record diff_rec = delta_rec +
  fr_deleted :: bool
  fr_deletes_pos :: offset_t
  fr_deletes_count :: int
  fr_inserts_pos :: offset_t
  fr_inserts_count :: int

record 'r delta_store =
  ds_bidirectional :: bool
  ds_weight_func :: rship_weight
  ds_last_node_id :: offset_t
  ds_last_txn_id :: xid_t
  ds_delta_mode :: bool
  ds_num_delta_recs :: nat
  ds_max_delta_recs :: nat
  ds_delta_recs :: "'r cvec"
  ds_row_offsets :: "offset_t list"
  ds_col_indices :: "offset_t list"
  ds_edge_values :: "real list"

record adj_store = "adj_rec delta_store" +
  as_ids :: "nat list"
  as_weights :: "real list"
  as_next_pos :: offset_t

record diff_store = "diff_rec delta_store" +
  fs_deletes :: "nat list"
  fs_inserts :: "nat list"
  fs_weights :: "real list"
  fs_next_deletes_pos :: offset_t
  fs_next_inserts_pos :: offset_t

text \<open>The initial values of the members; \<open>n\<close> is the number of records in a chunk.\<close>

definition delta_store_new :: "nat \<Rightarrow> 'r delta_store" where
  "delta_store_new n =
     \<lparr>ds_bidirectional = False, ds_weight_func = (\<lambda>r. 13 / 10), ds_last_node_id = UNKNOWN, ds_last_txn_id = UNKNOWN,
      ds_delta_mode = True, ds_num_delta_recs = 0, ds_max_delta_recs = 18174889, ds_delta_recs = cv_empty n,
      ds_row_offsets = [], ds_col_indices = [], ds_edge_values = []\<rparr>"

definition adj_store_new :: "nat \<Rightarrow> adj_store" where
  "adj_store_new n = delta_store.extend (delta_store_new n) (adj_store.fields [] [] 0)"

definition diff_store_new :: "nat \<Rightarrow> diff_store" where
  "diff_store_new n = delta_store.extend (delta_store_new n) (diff_store.fields [] [] [] 0 0)"

text \<open>The positions a slice has not been assigned yet are 0 in the model; their count is 0.\<close>

definition adj_rec_new :: "xid_t \<Rightarrow> offset_t \<Rightarrow> offset_t \<Rightarrow> int \<Rightarrow> adj_rec" where
  "adj_rec_new txid nid pos cnt = \<lparr>dr_txid = txid, dr_node_id = nid, dr_merged = False, ar_pos = pos, ar_count = cnt\<rparr>"

definition diff_rec_new :: "xid_t \<Rightarrow> offset_t \<Rightarrow> bool \<Rightarrow> diff_rec" where
  "diff_rec_new txid nid d =
     \<lparr>dr_txid = txid, dr_node_id = nid, dr_merged = False, fr_deleted = d, fr_deletes_pos = 0, fr_deletes_count = 0,
      fr_inserts_pos = 0, fr_inserts_count = 0\<rparr>"

definition clear_deltas :: "('r, 's) delta_store_scheme \<Rightarrow> ('r, 's) delta_store_scheme" where
  "clear_deltas s = s\<lparr>ds_delta_recs := cv_clear (ds_delta_recs s), ds_num_delta_recs := 0, ds_delta_mode := True\<rparr>"

text \<open>Storing a record; the result has its position in the vector.\<close>

definition put_rec :: "'r \<Rightarrow> 'r \<Rightarrow> ('r, 's) delta_store_scheme \<Rightarrow> (('r, 's) delta_store_scheme \<times> offset_t) result" where
  "put_rec d r s =
     rbind (cv_store d (ds_delta_recs s) r) (\<lambda>(v, i).
     Inr (s\<lparr>ds_delta_recs := v, ds_num_delta_recs := ds_num_delta_recs s + 1\<rparr>, i))"

definition rec_positions :: "('r, 's) delta_store_scheme \<Rightarrow> nat list" where
  "rec_positions s = cv_walk (ds_delta_recs s) (cv_begin (ds_delta_recs s))"

definition mark_merged :: "nat \<Rightarrow> 'e delta_rec_scheme \<Rightarrow> ('e delta_rec_scheme, 's) delta_store_scheme \<Rightarrow> ('e delta_rec_scheme, 's) delta_store_scheme" where
  "mark_merged p r s = s\<lparr>ds_delta_recs := cv_assign (ds_delta_recs s) p (r\<lparr>dr_merged := True\<rparr>)\<rparr>"

section \<open>Neighbour lists\<close>

definition store_delta :: "xid_t \<Rightarrow> offset_t \<Rightarrow> nat list \<Rightarrow> real list \<Rightarrow> adj_store \<Rightarrow> adj_store result" where
  "store_delta txid nid ids weights s =
     (let r = adj_rec_new txid nid (as_next_pos s) (int32 (length ids));
          s1 = s\<lparr>as_next_pos := as_next_pos s + length ids, as_ids := as_ids s @ ids, as_weights := as_weights s @ weights\<rparr> in
      rbind (put_rec (adj_rec_new 0 0 0 0) r s1) (\<lambda>(s2, _). Inr s2))"

record adj_delta =
  ad_ids :: "nat list"
  ad_weights :: "real list"

definition adj_delta_new :: adj_delta where
  "adj_delta_new = \<lparr>ad_ids = [], ad_weights = []\<rparr>"

text \<open>
  The local variables of \<open>merge_deltas\<close>: whether the records can be cleared, the transaction whose record was taken for a node, the
  merged deltas, and the store, in which records are marked.
\<close>

record ('b, 's) merge_vars =
  mv_clear :: bool
  mv_txid :: "nat \<Rightarrow> xid_t option"
  mv_deltas :: "'b omap"
  mv_store :: 's

text \<open>Whether a record is skipped: merged before and not cleared.\<close>

definition rec_skipped :: "('r, 's) delta_store_scheme \<Rightarrow> 'e delta_rec_scheme \<Rightarrow> bool" where
  "rec_skipped s r = (dr_txid r < ds_last_txn_id s \<and> dr_merged r)"

definition adj_take :: "nat \<Rightarrow> adj_rec \<Rightarrow> adj_delta \<Rightarrow> (adj_delta, adj_store) merge_vars \<Rightarrow> (adj_delta, adj_store) merge_vars result" where
  "adj_take p r d m =
     (let s = mv_store m in
      rbind (vec_slice (as_ids s) (ar_pos r) (ar_count r)) (\<lambda>ids.
      rbind (vec_slice (as_weights s) (ar_pos r) (ar_count r)) (\<lambda>ws.
      Inr (m\<lparr>mv_deltas := om_put (dr_node_id r) (d\<lparr>ad_ids := ad_ids d @ ids, ad_weights := ad_weights d @ ws\<rparr>) (mv_deltas m),
             mv_txid := (mv_txid m)(dr_node_id r \<mapsto> dr_txid r), mv_store := mark_merged p r s\<rparr>))))"

definition adj_merge_rec :: "xid_t \<Rightarrow> nat \<Rightarrow> (adj_delta, adj_store) merge_vars \<Rightarrow> (adj_delta, adj_store) merge_vars result" where
  "adj_merge_rec txid p m =
     rbind (cv_at (ds_delta_recs (mv_store m)) p) (\<lambda>r.
     if txid < dr_txid r then Inr (m\<lparr>mv_clear := False\<rparr>)
     else if rec_skipped (mv_store m) r then Inr m
     else case mv_txid m (dr_node_id r) of
       None \<Rightarrow> adj_take p r (om_get adj_delta_new (dr_node_id r) (mv_deltas m)) m
     | Some t \<Rightarrow> if t < dr_txid r then adj_take p r adj_delta_new m else Inr m)"

definition merge_start :: "'b omap \<Rightarrow> 's \<Rightarrow> ('b, 's) merge_vars" where
  "merge_start deltas s = \<lparr>mv_clear = True, mv_txid = Map.empty, mv_deltas = deltas, mv_store = s\<rparr>"

definition adj_merge_deltas :: "adj_delta omap \<Rightarrow> xid_t \<Rightarrow> adj_store \<Rightarrow> (adj_delta omap \<times> adj_store) result" where
  "adj_merge_deltas deltas txid s =
     rbind (rfold (adj_merge_rec txid) (rec_positions s) (merge_start deltas s)) (\<lambda>m.
     Inr (mv_deltas m, if mv_clear m then clear_deltas (mv_store m) else mv_store m))"

section \<open>Inserted and deleted neighbours\<close>

text \<open>What a transaction has collected.\<close>

record diff_delta_ids =
  fi_deleted_nodes :: "nat list"
  fi_deleted_neighbours :: "nat list omap"
  fi_inserted_neighbours :: "(nat list \<times> real list) omap"

definition diff_add_deleted_node :: "offset_t \<Rightarrow> diff_delta_ids \<Rightarrow> diff_delta_ids" where
  "diff_add_deleted_node nid t =
     t\<lparr>fi_deleted_nodes := fi_deleted_nodes t @ [nid], fi_deleted_neighbours := filter (\<lambda>(k, _). k \<noteq> nid) (fi_deleted_neighbours t)\<rparr>"

definition diff_add_deleted_neighbour :: "offset_t \<Rightarrow> offset_t \<Rightarrow> diff_delta_ids \<Rightarrow> diff_delta_ids" where
  "diff_add_deleted_neighbour nid i t =
     t\<lparr>fi_deleted_neighbours := om_put nid (om_get [] nid (fi_deleted_neighbours t) @ [i]) (fi_deleted_neighbours t)\<rparr>"

definition diff_add_inserted_node :: "offset_t \<Rightarrow> diff_delta_ids \<Rightarrow> diff_delta_ids" where
  "diff_add_inserted_node nid t =
     t\<lparr>fi_inserted_neighbours := om_put nid (om_get ([], []) nid (fi_inserted_neighbours t)) (fi_inserted_neighbours t)\<rparr>"

definition diff_add_inserted_neighbour :: "offset_t \<Rightarrow> offset_t \<Rightarrow> real \<Rightarrow> diff_delta_ids \<Rightarrow> diff_delta_ids" where
  "diff_add_inserted_neighbour nid i w t =
     (let (is, ws) = om_get ([], []) nid (fi_inserted_neighbours t) in
      t\<lparr>fi_inserted_neighbours := om_put nid (is @ [i], ws @ [w]) (fi_inserted_neighbours t)\<rparr>)"

text \<open>\<open>store_deltas\<close>: the map from nodes to the positions of their records is \<open>pos_of\<close>.\<close>

definition diff_store_deleted :: "xid_t \<Rightarrow> offset_t \<Rightarrow> diff_store \<Rightarrow> diff_store result" where
  "diff_store_deleted txid nid s =
     rbind (put_rec (diff_rec_new 0 0 False) (diff_rec_new txid nid True) s) (\<lambda>(s1, _). Inr s1)"

definition diff_store_deletes :: "xid_t \<Rightarrow> nat \<times> nat list \<Rightarrow> diff_store \<times> (nat \<Rightarrow> offset_t option) \<Rightarrow> (diff_store \<times> (nat \<Rightarrow> offset_t option)) result" where
  "diff_store_deletes txid = (\<lambda>(nid, deletes) (s, pos_of).
     let r = (diff_rec_new txid nid False)\<lparr>fr_deletes_pos := fs_next_deletes_pos s, fr_deletes_count := int32 (length deletes)\<rparr>;
         s1 = s\<lparr>fs_next_deletes_pos := fs_next_deletes_pos s + length deletes, fs_deletes := fs_deletes s @ deletes\<rparr> in
     rbind (put_rec (diff_rec_new 0 0 False) r s1) (\<lambda>(s2, i). Inr (s2, pos_of(nid \<mapsto> i))))"

definition diff_with_inserts :: "diff_store \<Rightarrow> nat list \<Rightarrow> diff_rec \<Rightarrow> diff_rec" where
  "diff_with_inserts s news r = r\<lparr>fr_inserts_pos := fs_next_inserts_pos s, fr_inserts_count := int32 (length news)\<rparr>"

definition diff_store_inserts :: "xid_t \<Rightarrow> nat \<times> nat list \<times> real list \<Rightarrow> diff_store \<times> (nat \<Rightarrow> offset_t option) \<Rightarrow> (diff_store \<times> (nat \<Rightarrow> offset_t option)) result" where
  "diff_store_inserts txid = (\<lambda>(nid, news, ws) (s, pos_of).
     let s1 = s\<lparr>fs_next_inserts_pos := fs_next_inserts_pos s + length news, fs_inserts := fs_inserts s @ news, fs_weights := fs_weights s @ ws\<rparr> in
     case pos_of nid of
       Some i \<Rightarrow>
         rbind (cv_at (ds_delta_recs s1) i) (\<lambda>r.
         Inr (s1\<lparr>ds_delta_recs := cv_assign (ds_delta_recs s1) i (diff_with_inserts s news r)\<rparr>, pos_of))
     | None \<Rightarrow>
         rbind (put_rec (diff_rec_new 0 0 False) (diff_with_inserts s news (diff_rec_new txid nid False)) s1) (\<lambda>(s2, i).
         Inr (s2, pos_of(nid \<mapsto> i))))"

definition store_deltas :: "xid_t \<Rightarrow> diff_delta_ids \<Rightarrow> diff_store \<Rightarrow> diff_store result" where
  "store_deltas txid t s =
     rbind (rfold (diff_store_deleted txid) (fi_deleted_nodes t) s) (\<lambda>s1.
     rbind (rfold (diff_store_deletes txid) (fi_deleted_neighbours t) (s1, Map.empty)) (\<lambda>(s2, pos_of).
     rbind (rfold (diff_store_inserts txid) (fi_inserted_neighbours t) (s2, pos_of)) (\<lambda>(s3, _). Inr s3)))"

record diff_delta =
  fd_deleted :: bool
  fd_deletes :: "nat list"
  fd_inserts :: "nat list"
  fd_weights :: "real list"

definition diff_delta_new :: "bool \<Rightarrow> diff_delta" where
  "diff_delta_new d = \<lparr>fd_deleted = d, fd_deletes = [], fd_inserts = [], fd_weights = []\<rparr>"

text \<open>The slices of a record appended to a delta.\<close>

definition diff_extend :: "diff_store \<Rightarrow> diff_rec \<Rightarrow> diff_delta \<Rightarrow> diff_delta result" where
  "diff_extend s r d =
     rbind (vec_slice (fs_deletes s) (fr_deletes_pos r) (fr_deletes_count r)) (\<lambda>dels.
     rbind (vec_slice (fs_inserts s) (fr_inserts_pos r) (fr_inserts_count r)) (\<lambda>news.
     rbind (vec_slice (fs_weights s) (fr_inserts_pos r) (fr_inserts_count r)) (\<lambda>ws.
     Inr (d\<lparr>fd_deletes := fd_deletes d @ dels, fd_inserts := fd_inserts d @ news, fd_weights := fd_weights d @ ws\<rparr>))))"

definition diff_first :: "diff_rec \<Rightarrow> (diff_delta, diff_store) merge_vars \<Rightarrow> diff_delta result" where
  "diff_first r m =
     (let d = om_get (diff_delta_new (fr_deleted r)) (dr_node_id r) (mv_deltas m) in
      if fd_deleted d then Inr d else diff_extend (mv_store m) r d)"

definition diff_more :: "diff_rec \<Rightarrow> (diff_delta, diff_store) merge_vars \<Rightarrow> diff_delta result" where
  "diff_more r m =
     (let d = om_get (diff_delta_new False) (dr_node_id r) (mv_deltas m) in
      if fr_deleted r then Inr (d\<lparr>fd_deleted := True\<rparr>) else diff_extend (mv_store m) r d)"

definition diff_keep :: "nat \<Rightarrow> diff_rec \<Rightarrow> diff_delta \<Rightarrow> (diff_delta, diff_store) merge_vars \<Rightarrow> (diff_delta, diff_store) merge_vars" where
  "diff_keep p r d m = m\<lparr>mv_deltas := om_put (dr_node_id r) d (mv_deltas m), mv_store := mark_merged p r (mv_store m)\<rparr>"

definition diff_merge_rec :: "xid_t \<Rightarrow> nat \<Rightarrow> (diff_delta, diff_store) merge_vars \<Rightarrow> (diff_delta, diff_store) merge_vars result" where
  "diff_merge_rec txid p m =
     rbind (cv_at (ds_delta_recs (mv_store m)) p) (\<lambda>r.
     let newest = m\<lparr>mv_txid := (mv_txid m)(dr_node_id r \<mapsto> dr_txid r)\<rparr> in
     if txid < dr_txid r then Inr (m\<lparr>mv_clear := False\<rparr>)
     else if rec_skipped (mv_store m) r then Inr m
     else case mv_txid m (dr_node_id r) of
       None \<Rightarrow> rbind (diff_first r m) (\<lambda>d. Inr (diff_keep p r d newest))
     | Some t \<Rightarrow>
         if t < dr_txid r then rbind (diff_more r m) (\<lambda>d. Inr (diff_keep p r d newest))
         else if dr_txid r < t then rbind (diff_more r m) (\<lambda>d. Inr (diff_keep p r d m))
         else Inr m)"

definition diff_merge_deltas :: "diff_delta omap \<Rightarrow> xid_t \<Rightarrow> diff_store \<Rightarrow> (diff_delta omap \<times> diff_store) result" where
  "diff_merge_deltas deltas txid s =
     rbind (rfold (diff_merge_rec txid) (rec_positions s) (merge_start deltas s)) (\<lambda>m.
     Inr (mv_deltas m, if mv_clear m then clear_deltas (mv_store m) else mv_store m))"

end
