(* ===== verification/Csr_Build.thy ===== *)
theory Csr_Build
  imports Csr_Delta
begin

text \<open>
  CSR copies of the graph, \<^verbatim>\<open>src/src/analytics/graph_db_analytics.cpp\<close>: building them from the tables, bringing them up to date with
  the delta store, and coordinate lists. The reserved sizes of the vectors are left out. The function parameter \<open>csr\<close>, which the source
  changes through a reference, is an argument and the result; when an exception is thrown it is lost.
  With the option \<open>CSR_DELTA\<close> the state of the store is extended by the delta store and the ids each running transaction (each thread) has collected
  for it; the code that this option adds to the operations of the graph store is here too.
\<close>

section \<open>Building\<close>

record csr_arrays =
  row_offsets :: "offset_t list"
  col_indices :: "offset_t list"
  edge_values :: "real list"

definition csr_empty :: csr_arrays where
  "csr_empty = \<lparr>row_offsets = [], col_indices = [], edge_values = []\<rparr>"

record csr_vars = csr_arrays +
  csr_edges :: nat

definition push_edge :: "rship_weight \<Rightarrow> (rship_body \<Rightarrow> offset_t) \<Rightarrow> (csr_vars \<times> 'v) rship_consumer" where
  "push_edge weight far i q =
     sbind (rship_at i q) (\<lambda>e.
     upd_local (\<lambda>s. s\<lparr>col_indices := col_indices s @ [far (body e)], edge_values := edge_values s @ [rnd32 (weight e)], csr_edges := csr_edges s + 1\<rparr>))"

definition csr_node :: "nat \<Rightarrow> nat \<Rightarrow> xid_t \<Rightarrow> rship_weight \<Rightarrow> bool \<Rightarrow> offset_t \<Rightarrow> (csr_vars \<times> 'v, unit) gact" where
  "csr_node wk th x weight bidirectional nid =
     sbind (slift (\<lambda>g. cv_is_used (g_nodes g) nid)) (\<lambda>used.
     sbind (if used then
              sbind (node_by_id th nid) (\<lambda>r.
              sbind (node_at nid r) (\<lambda>e.
              sbind (rship_walk wk th rs_next_src (is_valid_for x) (push_edge weight rs_dest_node) (nd_from_rships (body e))) (\<lambda>_.
              if bidirectional
              then sbind (node_at nid r) (\<lambda>e.
                   rship_walk wk th rs_next_dest (is_valid_for x) (push_edge weight rs_src_node) (nd_to_rships (body e)))
              else sret ())))
            else sret ()) (\<lambda>_.
     upd_local (\<lambda>s. s\<lparr>row_offsets := row_offsets s @ [csr_edges s]\<rparr>)))"

definition max_num_nodes :: "('q, nat) gact" where
  "max_num_nodes = slift (\<lambda>g. Inr ((cv_last_used (g_nodes g) + 1) mod 2 ^ 64))"

text \<open>\<open>host_csr_build\<close> without the option \<open>CSR_DELTA\<close>.\<close>

definition host_csr_build :: "nat \<Rightarrow> nat \<Rightarrow> csr_arrays \<Rightarrow> rship_weight \<Rightarrow> bool \<Rightarrow> ('v, csr_arrays) gact" where
  "host_csr_build wk th csr weight bidirectional =
     sbind (current_xid th) (\<lambda>x.
     sbind max_num_nodes (\<lambda>n.
     with_local (csr_arrays.extend (csr\<lparr>row_offsets := row_offsets csr @ [0]\<rparr>) (csr_vars.fields 0))
       (sbind (for_each (csr_node wk th x weight bidirectional) [0..<n]) (\<lambda>_.
        sbind get_local (\<lambda>s. sret (csr_arrays.truncate s))))))"

text \<open>The part the option adds: the records of the store are marked or cleared, and the store keeps a copy of the arrays.\<close>

definition sync_rec :: "xid_t \<Rightarrow> nat \<Rightarrow> bool \<times> ('e delta_rec_scheme, 's) delta_store_scheme \<Rightarrow> (bool \<times> ('e delta_rec_scheme, 's) delta_store_scheme) result" where
  "sync_rec txid p = (\<lambda>(clear, s).
     rbind (cv_at (ds_delta_recs s) p) (\<lambda>r.
     Inr (if dr_txid r < txid then (clear, mark_merged p r s)
          else if txid < dr_txid r then (False, s) else (clear, s))))"

definition keep_arrays :: "csr_arrays \<Rightarrow> ('r, 's) delta_store_scheme \<Rightarrow> ('r, 's) delta_store_scheme" where
  "keep_arrays csr s = s\<lparr>ds_row_offsets := row_offsets csr, ds_col_indices := col_indices csr, ds_edge_values := edge_values csr\<rparr>"

definition sync_deltas :: "xid_t \<Rightarrow> csr_arrays \<Rightarrow> ('e delta_rec_scheme, 's) delta_store_scheme \<Rightarrow> ('e delta_rec_scheme, 's) delta_store_scheme result" where
  "sync_deltas txid csr s =
     (let s1 = s\<lparr>ds_last_txn_id := txid, ds_last_node_id := sub64 (length (row_offsets csr)) 2\<rparr> in
      rbind (rfold (sync_rec txid) (rec_positions s1) (True, s1)) (\<lambda>(clear, s2).
      Inr (keep_arrays csr (if clear then clear_deltas s2 else s2))))"

definition put_local :: "('d \<Rightarrow> 'd result) \<Rightarrow> ('d \<times> 'v, unit) gact" where
  "put_local f = sbind get_local (\<lambda>s. sbind (srun (f s)) (\<lambda>s'. upd_local (\<lambda>_. s')))"

definition host_csr_build_sync :: "nat \<Rightarrow> nat \<Rightarrow> csr_arrays \<Rightarrow> rship_weight \<Rightarrow> bool \<Rightarrow> (('e delta_rec_scheme, 's) delta_store_scheme \<times> 'v, csr_arrays) gact" where
  "host_csr_build_sync wk th csr weight bidirectional =
     sbind (host_csr_build wk th csr weight bidirectional) (\<lambda>csr1.
     sbind (current_xid th) (\<lambda>txid.
     sbind (put_local (sync_deltas txid csr1)) (\<lambda>_. sret csr1)))"

section \<open>Updating\<close>

text \<open>The old arrays, as the store keeps them, and the number of edges of a node in them.\<close>

definition kept_arrays :: "('r, 's) delta_store_scheme \<Rightarrow> csr_arrays" where
  "kept_arrays s = \<lparr>row_offsets = ds_row_offsets s, col_indices = ds_col_indices s, edge_values = ds_edge_values s\<rparr>"

definition old_edges :: "csr_arrays \<Rightarrow> nat \<Rightarrow> nat result" where
  "old_edges old i =
     rbind (vec_get (row_offsets old) (i + 1)) (\<lambda>b. rbind (vec_get (row_offsets old) i) (\<lambda>a. Inr (sub64 b a)))"

text \<open>A row at the end of new arrays, and the row of node \<open>i\<close> in the old ones.\<close>

definition push_row :: "nat list \<Rightarrow> real list \<Rightarrow> csr_arrays \<Rightarrow> csr_arrays" where
  "push_row ids vals new =
     new\<lparr>row_offsets := row_offsets new @ [last (row_offsets new) + length ids], col_indices := col_indices new @ ids,
         edge_values := edge_values new @ vals\<rparr>"

definition old_row :: "csr_arrays \<Rightarrow> nat \<Rightarrow> (nat list \<times> real list) result" where
  "old_row old i =
     rbind (old_edges old i) (\<lambda>n.
     rbind (vec_get (row_offsets old) i) (\<lambda>a.
     rbind (vec_slice (col_indices old) a (int n)) (\<lambda>ids.
     rbind (vec_slice (edge_values old) a (int n)) (\<lambda>vals. Inr (ids, vals)))))"

definition copy_row :: "csr_arrays \<Rightarrow> nat \<Rightarrow> csr_arrays \<Rightarrow> csr_arrays result" where
  "copy_row old i new = rbind (old_row old i) (\<lambda>(ids, vals). Inr (push_row ids vals new))"

text \<open>
  The nodes with deltas up to the last node of the old arrays: rows in between are copied, \<open>row\<close> makes the new row of a node with a
  delta. The state is the next node and the new arrays.
\<close>

definition update_node_row :: "csr_arrays \<Rightarrow> ('b \<Rightarrow> nat \<Rightarrow> (nat list \<times> real list) result) \<Rightarrow> nat \<times> 'b \<Rightarrow> nat \<times> csr_arrays \<Rightarrow> (nat \<times> csr_arrays) result" where
  "update_node_row old row = (\<lambda>(nid, d) (next_nid, new).
     rbind (rfold (copy_row old) [next_nid..<nid] new) (\<lambda>new1.
     let m = max next_nid nid in
     rbind (row d m) (\<lambda>(ids, vals). Inr (m + 1, push_row ids vals new1))))"

text \<open>The rest of the old arrays: edges at once, then the row offsets.\<close>

definition copy_offset :: "csr_arrays \<Rightarrow> nat \<Rightarrow> csr_arrays \<Rightarrow> csr_arrays result" where
  "copy_offset old i new =
     rbind (old_edges old i) (\<lambda>n. Inr (new\<lparr>row_offsets := row_offsets new @ [last (row_offsets new) + n]\<rparr>))"

definition copy_rest :: "csr_arrays \<Rightarrow> nat \<times> csr_arrays \<Rightarrow> (nat \<times> csr_arrays) result" where
  "copy_rest old = (\<lambda>(next_nid, new).
     rbind (vec_get (row_offsets old) next_nid) (\<lambda>a.
     rbind (vec_slice (col_indices old) a (int (length (col_indices old)) - int a)) (\<lambda>ids.
     rbind (vec_slice (edge_values old) a (int (length (edge_values old)) - int a)) (\<lambda>vals.
     let new1 = new\<lparr>col_indices := col_indices new @ ids, edge_values := edge_values new @ vals\<rparr>;
         n = sub64 (length (row_offsets old)) 1 in
     rbind (rfold (copy_offset old) [next_nid..<n] new1) (\<lambda>new2. Inr (max next_nid n, new2))))))"

text \<open>Nodes behind the last one of the old arrays; slots without a node have an empty row.\<close>

definition append_node_row :: "('b \<Rightarrow> nat list \<times> real list) \<Rightarrow> nat \<times> 'b \<Rightarrow> nat \<times> csr_arrays \<Rightarrow> nat \<times> csr_arrays" where
  "append_node_row row = (\<lambda>(nid, d) (next_nid, new).
     let new1 = ((push_row [] []) ^^ (nid - next_nid)) new in
     (max next_nid nid + 1, push_row (fst (row d)) (snd (row d)) new1))"

definition update_arrays :: "csr_arrays \<Rightarrow> offset_t \<Rightarrow> ('b \<Rightarrow> nat \<Rightarrow> (nat list \<times> real list) result) \<Rightarrow> ('b \<Rightarrow> nat list \<times> real list) \<Rightarrow> 'b omap \<Rightarrow> csr_arrays \<Rightarrow> csr_arrays result" where
  "update_arrays old lnid row new_row deltas csr =
     rbind (rfold (update_node_row old row) (takeWhile (\<lambda>(k, _). k \<le> lnid) deltas) (0, csr\<lparr>row_offsets := row_offsets csr @ [0]\<rparr>)) (\<lambda>st.
     rbind (copy_rest old st) (\<lambda>st1.
     Inr (snd (fold (append_node_row new_row) (dropWhile (\<lambda>(k, _). k \<le> lnid) deltas) st1))))"

text \<open>The two options: the row of a node from its delta.\<close>

definition adj_row :: "adj_delta \<Rightarrow> nat list \<times> real list" where
  "adj_row d = (ad_ids d, map rnd32 (ad_weights d))"

definition diff_row :: "csr_arrays \<Rightarrow> diff_delta \<Rightarrow> nat \<Rightarrow> (nat list \<times> real list) result" where
  "diff_row old d i =
     rbind (old_row old i) (\<lambda>(ids, vals).
     let tmp = filter (\<lambda>(k, _). k \<notin> set (fd_deletes d)) (zip (ids @ fd_inserts d) (vals @ fd_weights d)) in
     Inr (map fst tmp, map (rnd32 \<circ> snd) tmp))"

definition diff_new_row :: "diff_delta \<Rightarrow> nat list \<times> real list" where
  "diff_new_row d = (fd_inserts d, map rnd32 (fd_weights d))"

text \<open>The end of the update: the store keeps the new arrays.\<close>

definition finish_update :: "xid_t \<Rightarrow> csr_arrays \<Rightarrow> ('r, 's) delta_store_scheme \<Rightarrow> ('r, 's) delta_store_scheme" where
  "finish_update txid new s =
     keep_arrays new (s\<lparr>ds_last_txn_id := txid, ds_last_node_id := sub64 (length (row_offsets new)) 2\<rparr>)"

definition update_from_store ::
  "(xid_t \<Rightarrow> ('e delta_rec_scheme, 's) delta_store_scheme \<Rightarrow> ('b omap \<times> ('e delta_rec_scheme, 's) delta_store_scheme) result) \<Rightarrow>
   (csr_arrays \<Rightarrow> 'b \<Rightarrow> nat \<Rightarrow> (nat list \<times> real list) result) \<Rightarrow> ('b \<Rightarrow> nat list \<times> real list) \<Rightarrow> nat \<Rightarrow> nat \<Rightarrow> csr_arrays \<Rightarrow>
   (('e delta_rec_scheme, 's) delta_store_scheme \<times> 'v, csr_arrays) gact" where
  "update_from_store merge row new_row wk th csr =
     sbind (check_tx_context th) (\<lambda>tx.
     sbind get_local (\<lambda>s.
     if ds_last_txn_id s = UNKNOWN then host_csr_build_sync wk th csr (ds_weight_func s) (ds_bidirectional s)
     else if xid tx < ds_last_txn_id s then sthrow Invalid_csr_update
     else
       sbind (srun (merge (xid tx) s)) (\<lambda>(deltas, s1).
       sbind (upd_local (\<lambda>_. s1)) (\<lambda>_.
       if deltas = [] then sret csr
       else
         let old = kept_arrays s1 in
         sbind (srun (update_arrays old (ds_last_node_id s1) (row old) new_row deltas csr)) (\<lambda>new.
         sbind (upd_local (finish_update (xid tx) new)) (\<lambda>_. sret new))))))"

definition adj_csr_update_with_delta :: "nat \<Rightarrow> nat \<Rightarrow> csr_arrays \<Rightarrow> (adj_store \<times> 'v, csr_arrays) gact" where
  "adj_csr_update_with_delta = update_from_store (adj_merge_deltas []) (\<lambda>old d i. Inr (adj_row d)) adj_row"

definition diff_csr_update_with_delta :: "nat \<Rightarrow> nat \<Rightarrow> csr_arrays \<Rightarrow> (diff_store \<times> 'v, csr_arrays) gact" where
  "diff_csr_update_with_delta = update_from_store (diff_merge_deltas []) diff_row diff_new_row"

definition adj_poseidon_to_csr :: "nat \<Rightarrow> nat \<Rightarrow> csr_arrays \<Rightarrow> rship_weight \<Rightarrow> bool \<Rightarrow> (adj_store \<times> 'v, csr_arrays) gact" where
  "adj_poseidon_to_csr wk th csr weight bidirectional =
     sbind get_local (\<lambda>s.
     if ds_delta_mode s then adj_csr_update_with_delta wk th csr else host_csr_build_sync wk th csr weight bidirectional)"

definition diff_poseidon_to_csr :: "nat \<Rightarrow> nat \<Rightarrow> csr_arrays \<Rightarrow> rship_weight \<Rightarrow> bool \<Rightarrow> (diff_store \<times> 'v, csr_arrays) gact" where
  "diff_poseidon_to_csr wk th csr weight bidirectional =
     sbind get_local (\<lambda>s.
     if ds_delta_mode s then diff_csr_update_with_delta wk th csr else host_csr_build_sync wk th csr weight bidirectional)"

section \<open>Coordinates\<close>

text \<open>The two arrays of the caller; writing behind their end is undefined.\<close>

record edge_coords =
  ec_x :: offset_t
  ec_y :: offset_t

record coo_vars =
  coo_coords :: "edge_coords list"
  coo_values :: "real list"
  coo_edges :: nat

definition coo_put :: "offset_t \<Rightarrow> offset_t \<Rightarrow> real \<Rightarrow> coo_vars \<Rightarrow> coo_vars result" where
  "coo_put x y w s =
     rbind (vec_set (coo_coords s) (coo_edges s) \<lparr>ec_x = x, ec_y = y\<rparr>) (\<lambda>cs.
     rbind (vec_set (coo_values s) (coo_edges s) (rnd32 w)) (\<lambda>vs.
     Inr (s\<lparr>coo_coords := cs, coo_values := vs, coo_edges := coo_edges s + 1\<rparr>)))"

definition coo_rship :: "rship_weight \<Rightarrow> bool \<Rightarrow> rship cvec \<Rightarrow> nat \<Rightarrow> coo_vars \<Rightarrow> coo_vars result" where
  "coo_rship weight bidirectional v p s =
     rbind (cv_at v p) (\<lambda>r.
     let e = o_elem r; b = body e in
     rbind (coo_put (rs_src_node b) (rs_dest_node b) (weight e) s) (\<lambda>s1.
     if bidirectional then coo_put (rs_dest_node b) (rs_src_node b) (weight e) s1 else Inr s1))"

definition poseidon_to_coo :: "edge_coords list \<Rightarrow> real list \<Rightarrow> rship_weight \<Rightarrow> bool \<Rightarrow> 'q graph_db_scheme \<Rightarrow> (edge_coords list \<times> real list) result" where
  "poseidon_to_coo coords vals weight bidirectional g =
     rbind (rfold (coo_rship weight bidirectional (g_rships g)) (cv_walk (g_rships g) (cv_begin (g_rships g)))
             \<lparr>coo_coords = coords, coo_values = vals, coo_edges = 0\<rparr>) (\<lambda>s.
     Inr (coo_coords s, coo_values s))"

section \<open>Operations of the graph store with deltas\<close>

record adj_delta_ids =
  ai_updated_nodes :: "nat list"
  ai_deleted_nodes :: "nat list"
  ai_deleted_rships :: "nat list"

definition adj_delta_ids_new :: adj_delta_ids where
  "adj_delta_ids_new = \<lparr>ai_updated_nodes = [], ai_deleted_nodes = [], ai_deleted_rships = []\<rparr>"

type_synonym 'v adj_state = "adj_store \<times> (nat \<Rightarrow> adj_delta_ids) \<times> 'v"

definition mod_delta_ids :: "nat \<Rightarrow> (adj_delta_ids \<Rightarrow> adj_delta_ids) \<Rightarrow> ('v adj_state, unit) gact" where
  "mod_delta_ids th f = outer (upd_local (\<lambda>t. t(th := f (t th))))"

definition add_updated_node :: "nat \<Rightarrow> offset_t \<Rightarrow> ('v adj_state, unit) gact" where
  "add_updated_node th nid = mod_delta_ids th (\<lambda>t. t\<lparr>ai_updated_nodes := ai_updated_nodes t @ [nid]\<rparr>)"

definition add_deleted_node :: "nat \<Rightarrow> offset_t \<Rightarrow> ('v adj_state, unit) gact" where
  "add_deleted_node th nid = mod_delta_ids th (\<lambda>t. t\<lparr>ai_deleted_nodes := List.insert nid (ai_deleted_nodes t)\<rparr>)"

definition add_deleted_rship :: "nat \<Rightarrow> offset_t \<Rightarrow> ('v adj_state, unit) gact" where
  "add_deleted_rship th rid = mod_delta_ids th (\<lambda>t. t\<lparr>ai_deleted_rships := List.insert rid (ai_deleted_rships t)\<rparr>)"

definition if_bidirectional :: "('v adj_state, unit) gact \<Rightarrow> ('v adj_state, unit) gact" where
  "if_bidirectional act = sbind get_local (\<lambda>s. if ds_bidirectional s then act else sret ())"

definition adj_begin_transaction :: "nat \<Rightarrow> xid_t \<Rightarrow> ('v adj_state, unit) gact" where
  "adj_begin_transaction th now = sbind (begin_transaction th now) (\<lambda>_. mod_delta_ids th (\<lambda>_. adj_delta_ids_new))"

definition adj_add_node :: "conv \<Rightarrow> hash \<Rightarrow> nat \<Rightarrow> string \<Rightarrow> properties_t \<Rightarrow> bool \<Rightarrow> ('v adj_state, offset_t) gact" where
  "adj_add_node cv h th label props append_only =
     sbind (add_node cv h th label props append_only) (\<lambda>i. sbind (add_updated_node th i) (\<lambda>_. sret i))"

definition adj_add_relationship :: "conv \<Rightarrow> hash \<Rightarrow> nat \<Rightarrow> offset_t \<Rightarrow> offset_t \<Rightarrow> string \<Rightarrow> properties_t \<Rightarrow> bool \<Rightarrow> ('v adj_state, offset_t) gact" where
  "adj_add_relationship cv h th from_id to_id label props append_only =
     sbind (add_relationship cv h th from_id to_id label props append_only) (\<lambda>i.
     sbind (add_updated_node th from_id) (\<lambda>_.
     sbind (if_bidirectional (add_updated_node th to_id)) (\<lambda>_. sret i)))"

definition adj_delete_node :: "nat \<Rightarrow> offset_t \<Rightarrow> ('v adj_state, unit) gact" where
  "adj_delete_node th i =
     sbind (delete_node th i) (\<lambda>_. sbind (add_updated_node th i) (\<lambda>_. add_deleted_node th i))"

text \<open>The ends of the relationship are read from the version that was created last.\<close>

definition adj_delete_relationship :: "nat \<Rightarrow> offset_t \<Rightarrow> ('v adj_state, unit) gact" where
  "adj_delete_relationship th i =
     sbind (delete_relationship th i) (\<lambda>_.
     sbind (get_rship i) (\<lambda>r.
     case versions r of [] \<Rightarrow> sthrow Undefined_behaviour
     | v # _ \<Rightarrow>
         let b = body (v_elem v) in
         sbind (add_updated_node th (rs_src_node b)) (\<lambda>_.
         sbind (if_bidirectional (add_updated_node th (rs_dest_node b))) (\<lambda>_.
         add_deleted_rship th i))))"

text \<open>The neighbours of a list at commit: \<open>rships_->get\<close> reads the table, without looking for a version.\<close>

fun delta_neighbours :: "nat \<Rightarrow> (rship_body \<Rightarrow> offset_t) \<Rightarrow> (rship_body \<Rightarrow> offset_t) \<Rightarrow> rship_weight \<Rightarrow> nat list \<Rightarrow> offset_t \<Rightarrow> rship cvec \<Rightarrow> (nat list \<times> real list) result" where
  "delta_neighbours fuel nxt far weight gone i v =
     (if i = UNKNOWN then Inr ([], [])
      else case fuel of 0 \<Rightarrow> Inl Diverges
      | Suc k \<Rightarrow>
          rbind (table_get v i) (\<lambda>r.
          let e = o_elem r in
          rbind (delta_neighbours k nxt far weight gone (nxt (body e)) v) (\<lambda>(ids, ws).
          Inr (if i \<in> set gone then (ids, ws) else (far (body e) # ids, weight e # ws)))))"

declare delta_neighbours.simps [simp del]

definition node_delta :: "adj_delta_ids \<Rightarrow> adj_store \<Rightarrow> offset_t \<Rightarrow> 'q graph_db_scheme \<Rightarrow> (nat list \<times> real list) result" where
  "node_delta t s nid g =
     rbind (table_get (g_nodes g) nid) (\<lambda>n.
     let b = body (o_elem n); k = capacity (g_rships g); w = ds_weight_func s; gone = ai_deleted_rships t in
     if nid \<in> set (ai_deleted_nodes t) then Inr ([], [])
     else rbind (delta_neighbours k rs_next_src rs_dest_node w gone (nd_from_rships b) (g_rships g)) (\<lambda>(ids, ws).
          if ds_bidirectional s
          then rbind (delta_neighbours k rs_next_dest rs_src_node w gone (nd_to_rships b) (g_rships g)) (\<lambda>(ids2, ws2).
               Inr (ids @ ids2, ws @ ws2))
          else Inr (ids, ws)))"

definition commit_deltas :: "nat \<Rightarrow> xid_t \<Rightarrow> ('v adj_state, unit) gact" where
  "commit_deltas th x =
     sbind get_local (\<lambda>s.
     sbind (outer get_local) (\<lambda>ids.
     let t = ids th in
     if \<not> ds_delta_mode s then sret ()
     else if ds_max_delta_recs s < ds_num_delta_recs s + length (ai_updated_nodes t)
     then upd_local (\<lambda>s. s\<lparr>ds_delta_mode := False\<rparr>)
     else for_each (\<lambda>nid.
            sbind get_local (\<lambda>s.
            sbind (slift (node_delta t s nid)) (\<lambda>(ids, ws).
            put_local (store_delta x nid ids ws)))) (ai_updated_nodes t)))"

definition adj_commit_transaction :: "nat \<Rightarrow> ('v adj_state, bool) gact" where
  "adj_commit_transaction th =
     sbind (check_tx_context th) (\<lambda>tx.
     sbind (leave_active (xid tx)) (\<lambda>_.
     sbind (for_each (commit_dirty_relationship (xid tx)) (dirty_rships tx)) (\<lambda>_.
     sbind (for_each (commit_dirty_node (xid tx)) (dirty_nodes tx)) (\<lambda>_.
     sbind (commit_deltas th (xid tx)) (\<lambda>_.
     sbind (clear_current th) (\<lambda>_.
     sbind vacuum (\<lambda>_. sret True)))))))"

end
