(* ===== verification/Csr_Rows.thy ===== *)
theory Csr_Rows
  imports Csr_Build
begin

text \<open>
  CSR arrays as a list of rows, one for each node: the arrays are its unique encoding, and building and updating them is adding and
  replacing rows.
\<close>

named_theorems csr_simps \<open>arrays of a list of rows\<close>

type_synonym csr_row = "(offset_t \<times> real) list"

section \<open>The encoding\<close>

fun scan :: "nat \<Rightarrow> 'a list list \<Rightarrow> nat list" where
  "scan n [] = [n]"
| "scan n (r # rs) = n # scan (n + length r) rs"

definition csr_of :: "csr_row list \<Rightarrow> csr_arrays" where
  "csr_of rows = \<lparr>row_offsets = scan 0 rows, col_indices = map fst (concat rows), edge_values = map snd (concat rows)\<rparr>"

lemma length_scan [simp]: "length (scan n rs) = Suc (length rs)"
  by (induction rs arbitrary: n) auto

lemma scan_nth: "i \<le> length rs \<Longrightarrow> scan n rs ! i = n + length (concat (take i rs))"
proof (induction rs arbitrary: n i)
  case (Cons r rs)
  then show ?case by (cases i) auto
qed simp

lemma scan_snoc: "scan n (rs @ [r]) = scan n rs @ [n + length (concat rs) + length r]"
  by (induction rs arbitrary: n) auto

lemma last_scan [simp]: "last (scan n rs) = n + length (concat rs)"
  by (induction rs rule: rev_induct) (auto simp: scan_snoc)

lemma csr_of_sel [csr_simps]:
  "row_offsets (csr_of rows) = scan 0 rows" "col_indices (csr_of rows) = map fst (concat rows)" "edge_values (csr_of rows) = map snd (concat rows)"
  by (simp_all add: csr_of_def)

lemma push_row_csr: "push_row (map fst r) (map snd r) (csr_of rows) = csr_of (rows @ [r])"
  by (simp add: push_row_def csr_of_def scan_snoc)

lemma push_empty_rows: "((push_row [] []) ^^ n) (csr_of rows) = csr_of (rows @ replicate n [])"
proof (induction n)
  case (Suc n)
  then show ?case using push_row_csr [of "[]" "rows @ replicate n []"] by (simp add: replicate_append_same)
qed simp

lemma csr_start: "csr_empty\<lparr>row_offsets := row_offsets csr_empty @ [0]\<rparr> = csr_of []"
  by (simp add: csr_empty_def csr_of_def)

lemma vec_get_scan: "i \<le> length rows \<Longrightarrow> vec_get (scan 0 rows) i = Inr (length (concat (take i rows)))"
  by (simp add: vec_get_def scan_nth)

lemma concat_take_Suc: "i < length rows \<Longrightarrow> length (concat (take (Suc i) rows)) = length (concat (take i rows)) + length (rows ! i)"
  by (simp add: take_Suc_conv_app_nth)

lemma old_edges_csr: "i < length rows \<Longrightarrow> old_edges (csr_of rows) i = Inr (length (rows ! i))"
  using concat_take_Suc [of i rows] by (simp add: old_edges_def csr_simps vec_get_scan sub64_def)

lemma concat_split: "i < length rows \<Longrightarrow> concat rows = concat (take i rows) @ rows ! i @ concat (drop (Suc i) rows)"
  by (metis concat.simps(2) concat_append id_take_nth_drop)

lemma slice_row:
  assumes "i < length rows"
  shows "vec_slice (map f (concat rows)) (length (concat (take i rows))) (int (length (rows ! i))) = Inr (map f (rows ! i))"
proof -
  have "length (concat (take i rows)) + length (rows ! i) \<le> length (concat rows)"
    using arg_cong [OF concat_split [OF assms], of length] by simp
  moreover have "take (length (rows ! i)) (drop (length (concat (take i rows))) (concat rows)) = rows ! i"
    by (subst concat_split [OF assms]) simp
  ultimately show ?thesis by (simp add: vec_slice_def take_map drop_map)
qed

lemma old_row_csr: "i < length rows \<Longrightarrow> old_row (csr_of rows) i = Inr (map fst (rows ! i), map snd (rows ! i))"
  by (simp add: old_row_def old_edges_csr csr_simps vec_get_scan slice_row)

lemma copy_row_csr: "i < length rows \<Longrightarrow> copy_row (csr_of rows) i (csr_of new) = Inr (csr_of (new @ [rows ! i]))"
  by (simp add: copy_row_def old_row_csr push_row_csr)

lemma rfold_append: "rfold f (xs @ ys) s = rbind (rfold f xs s) (rfold f ys)"
proof (induction xs arbitrary: s)
  case (Cons x xs)
  then show ?case by (cases "f x s") auto
qed simp

lemma copy_rows_csr: "b \<le> length rows \<Longrightarrow> rfold (copy_row (csr_of rows)) [a..<b] (csr_of new) = Inr (csr_of (new @ map ((!) rows) [a..<b]))"
proof (induction b)
  case (Suc b)
  then show ?case by (cases "a \<le> b") (simp_all add: rfold_append copy_row_csr)
qed simp

section \<open>Updating rows\<close>

definition keys_sorted :: "'b omap \<Rightarrow> bool" where
  "keys_sorted m \<longleftrightarrow> sorted_wrt (<) (map fst m)"

lemma keys_sorted_Cons: "keys_sorted ((k, d) # m) \<longleftrightarrow> (\<forall>l\<in>fst ` set m. k < l) \<and> keys_sorted m"
  by (simp add: keys_sorted_def)

text \<open>The node behind the last key; the row of a node that has a delta or not.\<close>

definition end_of :: "nat \<Rightarrow> 'b omap \<Rightarrow> nat" where
  "end_of n m = (if m = [] then n else Suc (fst (last m)))"

definition pick :: "('b \<Rightarrow> nat \<Rightarrow> csr_row) \<Rightarrow> (nat \<Rightarrow> csr_row) \<Rightarrow> 'b omap \<Rightarrow> nat \<Rightarrow> csr_row" where
  "pick R old m i = (case map_of m i of None \<Rightarrow> old i | Some d \<Rightarrow> R d i)"

lemma pick_Cons: "pick R old ((k, d) # m) i = (if i = k then R d i else pick R old m i)"
  by (simp add: pick_def)

lemma end_of_Cons: "end_of n ((k, d) # m) = end_of (Suc k) m"
  by (simp add: end_of_def)

lemma end_of_le: "keys_sorted m \<Longrightarrow> \<forall>l\<in>fst ` set m. n \<le> l \<Longrightarrow> n \<le> end_of n m"
  by (cases m rule: rev_cases) (auto simp: end_of_def)

lemma upt_cut: "a \<le> k \<Longrightarrow> Suc k \<le> b \<Longrightarrow> [a..<b] = [a..<k] @ k # [Suc k..<b]"
  by (metis Suc_le_lessD le_add_diff_inverse less_imp_le_nat upt_add_eq_append upt_conv_Cons)

lemma pick_rows_Cons:
  assumes "keys_sorted ((k, d) # m)" "n \<le> k"
  shows "map (pick R old ((k, d) # m)) [n..<end_of n ((k, d) # m)] =
    map old [n..<k] @ R d k # map (pick R old m) [Suc k..<end_of (Suc k) m]"
proof -
  have "Suc k \<le> end_of (Suc k) m" using assms by (intro end_of_le) (auto simp: keys_sorted_Cons)
  then have "[n..<end_of n ((k, d) # m)] = [n..<k] @ k # [Suc k..<end_of (Suc k) m]"
    unfolding end_of_Cons using assms(2) by (rule upt_cut [rotated])
  moreover have "pick R old ((k, d) # m) i = old i" if "i < k" for i
    using that assms by (force simp: pick_def keys_sorted_Cons split: option.split dest: map_of_SomeD)
  ultimately show ?thesis by (simp add: pick_Cons)
qed

lemma update_rows_csr:
  assumes "keys_sorted m" "\<forall>l\<in>fst ` set m. n \<le> l \<and> l < length rows"
    "\<And>k d. (k, d) \<in> set m \<Longrightarrow> row d k = Inr (map fst (R d k), map snd (R d k))"
  shows "rfold (update_node_row (csr_of rows) row) m (n, csr_of new) =
    Inr (end_of n m, csr_of (new @ map (pick R ((!) rows) m) [n..<end_of n m]))"
  using assms
proof (induction m arbitrary: n new)
  case Nil
  then show ?case by (simp add: end_of_def)
next
  case (Cons a m)
  obtain k d where a: "a = (k, d)" by (cases a)
  have k: "n \<le> k" "k < length rows" using Cons.prems(2) by (auto simp: a)
  have "update_node_row (csr_of rows) row (k, d) (n, csr_of new) = Inr (Suc k, csr_of (new @ map ((!) rows) [n..<k] @ [R d k]))"
    using k copy_rows_csr [of k rows n new] Cons.prems(3) [of k d] push_row_csr [of "R d k" "new @ map ((!) rows) [n..<k]"]
    by (simp add: update_node_row_def a max_def)
  moreover have "rfold (update_node_row (csr_of rows) row) m (Suc k, csr_of (new @ map ((!) rows) [n..<k] @ [R d k])) =
      Inr (end_of (Suc k) m, csr_of ((new @ map ((!) rows) [n..<k] @ [R d k]) @ map (pick R ((!) rows) m) [Suc k..<end_of (Suc k) m]))"
    by (rule Cons.IH) (use Cons.prems in \<open>auto simp: a keys_sorted_Cons Suc_le_eq\<close>)
  ultimately show ?case
    using pick_rows_Cons [of k d m n R "(!) rows"] Cons.prems(1) k(1) by (simp add: a end_of_Cons)
qed

lemma copy_offsets_scan:
  assumes "b \<le> length rows" "a \<le> b" "row_offsets new = scan 0 ss"
  shows "rfold (copy_offset (csr_of rows)) [a..<b] new = Inr (new\<lparr>row_offsets := scan 0 (ss @ map ((!) rows) [a..<b])\<rparr>)"
  using assms(1,2)
proof (induction b)
  case (Suc b)
  then show ?case using assms(3) scan_snoc [of 0 "ss @ map ((!) rows) [a..<b]" "rows ! b"]
    by (cases "a \<le> b") (simp_all add: rfold_append copy_offset_def old_edges_csr)
qed (simp add: assms(3) flip: assms(3))

lemma map_nth_drop: "n \<le> length rows \<Longrightarrow> map ((!) rows) [n..<length rows] = drop n rows"
  by (rule nth_equalityI) auto

lemma slice_rest:
  "n \<le> length rows \<Longrightarrow> vec_slice (map f (concat rows)) (length (concat (take n rows))) (int (length (concat rows)) - int (length (concat (take n rows)))) =
    Inr (map f (concat (drop n rows)))"
proof -
  have "concat rows = concat (take n rows) @ concat (drop n rows)" by (metis append_take_drop_id concat_append)
  then have "length (concat rows) = length (concat (take n rows)) + length (concat (drop n rows))"
    "drop (length (concat (take n rows))) (concat rows) = concat (drop n rows)" by (metis length_append, metis append_eq_conv_conj)
  then show ?thesis by (simp add: vec_slice_def drop_map)
qed

lemma copy_rest_csr:
  assumes "n \<le> length rows"
  shows "copy_rest (csr_of rows) (n, csr_of new) = Inr (length rows, csr_of (new @ drop n rows))"
proof -
  have "rfold (copy_offset (csr_of rows)) [n..<length rows]
      (csr_of new\<lparr>col_indices := map fst (concat (new @ drop n rows)), edge_values := map snd (concat (new @ drop n rows))\<rparr>) =
    Inr (csr_of (new @ drop n rows))"
    using assms by (subst copy_offsets_scan [where ss = new]) (simp_all add: csr_of_def map_nth_drop)
  then show ?thesis using assms
    by (simp add: copy_rest_def csr_simps vec_get_scan sub64_def max_absorb2 slice_rest)
qed

lemma append_rows_csr:
  assumes "keys_sorted m" "\<forall>l\<in>fst ` set m. n \<le> l" "n = length new"
    "\<And>k d. (k, d) \<in> set m \<Longrightarrow> new_row d = (map fst (N d), map snd (N d))"
  shows "fold (append_node_row new_row) m (n, csr_of new) =
    (end_of n m, csr_of (new @ map (pick (\<lambda>d _. N d) (\<lambda>_. []) m) [n..<end_of n m]))"
  using assms
proof (induction m arbitrary: n new)
  case Nil
  then show ?case by (simp add: end_of_def)
next
  case (Cons a m)
  obtain k d where a: "a = (k, d)" by (cases a)
  have k: "n \<le> k" using Cons.prems(2) by (auto simp: a)
  let ?new = "new @ replicate (k - n) [] @ [N d]"
  have "append_node_row new_row (k, d) (n, csr_of new) = (Suc k, csr_of ?new)"
    using k Cons.prems(4) [of k d] push_row_csr [of "N d" "new @ replicate (k - n) []"] by (simp add: append_node_row_def a push_empty_rows max_def)
  moreover have "fold (append_node_row new_row) m (Suc k, csr_of ?new) =
      (end_of (Suc k) m, csr_of (?new @ map (pick (\<lambda>d _. N d) (\<lambda>_. []) m) [Suc k..<end_of (Suc k) m]))"
    by (rule Cons.IH) (use Cons.prems k in \<open>auto simp: a keys_sorted_Cons Suc_le_eq\<close>)
  moreover have "map (\<lambda>_. []) [n..<k] = (replicate (k - n) [] :: csr_row list)" by (simp add: map_replicate_const)
  ultimately show ?case
    using pick_rows_Cons [of k d m n "\<lambda>d _. N d" "\<lambda>_. []"] Cons.prems(1) k(1) by (simp add: a end_of_Cons)
qed

text \<open>The rows of the updated copy: with deltas for old nodes, and for nodes behind the last old one.\<close>

definition new_rows :: "('b \<Rightarrow> nat \<Rightarrow> csr_row) \<Rightarrow> ('b \<Rightarrow> csr_row) \<Rightarrow> csr_row list \<Rightarrow> 'b omap \<Rightarrow> csr_row list" where
  "new_rows R N rows m =
     map (pick (\<lambda>d i. if i < length rows then R d i else N d) (\<lambda>i. if i < length rows then rows ! i else []) m)
       [0..<max (length rows) (end_of 0 m)]"

lemma while_filter:
  assumes "keys_sorted m"
  shows "takeWhile (\<lambda>(k, _). k \<le> l) m = filter (\<lambda>(k, _). k \<le> l) m \<and> dropWhile (\<lambda>(k, _). k \<le> l) m = filter (\<lambda>(k, _). l < k) m"
  using assms
proof (induction m)
  case (Cons a m)
  obtain k d where a: "a = (k, d)" by (cases a)
  show ?case
  proof (cases "k \<le> l")
    case False
    then have "\<forall>(i, e)\<in>set m. l < i" using Cons.prems by (force simp: a keys_sorted_Cons)
    then have "filter (\<lambda>(k, _). k \<le> l) m = []" "filter (\<lambda>(k, _). l < k) m = m"
      by (force simp: filter_empty_conv, force simp: filter_id_conv)
    then show ?thesis using False by (simp add: a)
  qed (use Cons in \<open>simp add: a keys_sorted_Cons\<close>)
qed simp

lemma keys_sorted_filter: "keys_sorted m \<Longrightarrow> keys_sorted (filter P m)"
  unfolding keys_sorted_def by (induction m) auto

lemma map_of_filter_key: "map_of (filter (\<lambda>(k, _). P k) m) i = (if P i then map_of m i else None)"
  by (induction m) auto

lemma end_of_key: "keys_sorted m \<Longrightarrow> (k, d) \<in> set m \<Longrightarrow> k < end_of n m"
proof (induction m rule: rev_induct)
  case (snoc a m)
  then show ?case by (cases a) (auto simp: end_of_def keys_sorted_def sorted_wrt_append)
qed simp

lemma end_of_max:
  assumes "keys_sorted m"
  shows "end_of n (filter (\<lambda>(k, _). n \<le> k) m) = max n (end_of 0 m)"
proof (cases m rule: rev_cases)
  case (snoc m' a)
  obtain k d where a: "a = (k, d)" by (cases a)
  show ?thesis
  proof (cases "n \<le> k")
    case False
    then have "filter (\<lambda>(k, _). n \<le> k) m = []" using assms by (force simp: snoc a keys_sorted_def sorted_wrt_append filter_empty_conv)
    then show ?thesis using False by (simp add: end_of_def snoc a)
  qed (simp add: end_of_def snoc a)
qed (simp add: end_of_def)

lemma end_of_bound: "\<forall>l\<in>fst ` set m. l < n \<Longrightarrow> end_of 0 m \<le> n"
  by (cases m rule: rev_cases) (auto simp: end_of_def)

lemma pick_old_rows:
  assumes "keys_sorted m" "\<forall>l\<in>fst ` set m. l < length rows"
  shows "map (pick R ((!) rows) m) [0..<end_of 0 m] @ drop (end_of 0 m) rows = map (pick R ((!) rows) m) [0..<length rows]"
proof -
  note le = end_of_bound [OF assms(2)]
  have "pick R ((!) rows) m i = rows ! i" if "end_of 0 m \<le> i" for i
    using that end_of_key [OF assms(1), of i _ 0] by (force simp: pick_def split: option.split dest: map_of_SomeD)
  then have "map (pick R ((!) rows) m) [end_of 0 m..<length rows] = map ((!) rows) [end_of 0 m..<length rows]" by auto
  then have "map (pick R ((!) rows) m) [end_of 0 m..<length rows] = drop (end_of 0 m) rows" using map_nth_drop [OF le] by simp
  then show ?thesis using upt_add_eq_append [of 0 "end_of 0 m" "length rows - end_of 0 m"] le by simp
qed

lemma update_arrays_csr:
  assumes m: "keys_sorted m" and rows: "rows \<noteq> []"
    and R: "\<And>k d. (k, d) \<in> set m \<Longrightarrow> k < length rows \<Longrightarrow> row d k = Inr (map fst (R d k), map snd (R d k))"
    and N: "\<And>k d. (k, d) \<in> set m \<Longrightarrow> new_row d = (map fst (N d), map snd (N d))"
  shows "update_arrays (csr_of rows) (length rows - 1) row new_row m csr_empty = Inr (csr_of (new_rows R N rows m))"
proof -
  let ?L = "length rows"
  define m1 where "m1 = filter (\<lambda>(k, _). k \<le> ?L - 1) m"
  define m2 where "m2 = filter (\<lambda>(k, _). ?L \<le> k) m"
  have le: "k \<le> ?L - 1 \<longleftrightarrow> k < ?L" "?L - 1 < k \<longleftrightarrow> ?L \<le> k" for k using rows by (cases rows; auto)+
  have w: "takeWhile (\<lambda>(k, _). k \<le> ?L - 1) m = m1" "dropWhile (\<lambda>(k, _). k \<le> ?L - 1) m = m2"
    using while_filter [OF m, of "?L - 1"] unfolding m1_def m2_def le by simp_all
  have lt: "\<forall>l\<in>fst ` set m1. l < ?L" unfolding m1_def le by auto
  have s: "keys_sorted m1" "keys_sorted m2" using m by (simp_all add: m1_def m2_def keys_sorted_filter)
  have 1: "rfold (update_node_row (csr_of rows) row) m1 (0, csr_of []) =
      Inr (end_of 0 m1, csr_of ([] @ map (pick R ((!) rows) m1) [0..<end_of 0 m1]))"
    by (rule update_rows_csr) (use s lt R in \<open>auto simp: m1_def\<close>)
  have 2: "copy_rest (csr_of rows) (end_of 0 m1, csr_of (map (pick R ((!) rows) m1) [0..<end_of 0 m1])) =
      Inr (?L, csr_of (map (pick R ((!) rows) m1) [0..<?L]))"
    using copy_rest_csr [OF end_of_bound [OF lt]] pick_old_rows [OF s(1) lt, of R] by simp
  have 3: "fold (append_node_row new_row) m2 (?L, csr_of (map (pick R ((!) rows) m1) [0..<?L])) =
      (end_of ?L m2, csr_of (map (pick R ((!) rows) m1) [0..<?L] @ map (pick (\<lambda>d _. N d) (\<lambda>_. []) m2) [?L..<end_of ?L m2]))"
    by (rule append_rows_csr) (use s N in \<open>auto simp: m2_def\<close>)
  let ?p = "pick (\<lambda>d i. if i < ?L then R d i else N d) (\<lambda>i. if i < ?L then rows ! i else []) m"
  have k: "map_of m1 i = (if i < ?L then map_of m i else None)" "map_of m2 i = (if i < ?L then None else map_of m i)" for i
    unfolding m1_def m2_def le map_of_filter_key by auto
  have 4: "map (pick R ((!) rows) m1) [0..<?L] = map ?p [0..<?L]" "map (pick (\<lambda>d _. N d) (\<lambda>_. []) m2) [?L..<max ?L (end_of 0 m)] = map ?p [?L..<max ?L (end_of 0 m)]"
    by (auto simp: pick_def k split: option.split)
  have 5: "end_of ?L m2 = max ?L (end_of 0 m)" unfolding m2_def by (rule end_of_max [OF m])
  have "map ?p [0..<?L] @ map ?p [?L..<max ?L (end_of 0 m)] = new_rows R N rows m"
    using upt_add_eq_append [of 0 ?L "max ?L (end_of 0 m) - ?L"] by (simp add: new_rows_def flip: map_append)
  then show ?thesis unfolding update_arrays_def csr_start w using 1 2 3 4 5 by simp
qed

section \<open>The interface of a delta\<close>

text \<open>
  What an update relies on: \<open>row\<close> makes the new row of a node of the old copy from a delta, \<open>new_row\<close> that of a node behind its end; \<open>R\<close> and \<open>N\<close> are
  these rows, for deltas that are well formed.
\<close>

locale delta_rows =
  fixes row :: "csr_arrays \<Rightarrow> 'b \<Rightarrow> nat \<Rightarrow> (nat list \<times> real list) result" and R :: "csr_row list \<Rightarrow> 'b \<Rightarrow> nat \<Rightarrow> csr_row"
    and new_row :: "'b \<Rightarrow> nat list \<times> real list" and N :: "'b \<Rightarrow> csr_row" and ok :: "'b \<Rightarrow> bool"
  assumes row_read: "ok d \<Longrightarrow> i < length rows \<Longrightarrow> row (csr_of rows) d i = Inr (map fst (R rows d i), map snd (R rows d i))"
    and new_read: "ok d \<Longrightarrow> new_row d = (map fst (N d), map snd (N d))"
begin

lemma update_read:
  assumes "keys_sorted m" "rows \<noteq> []" "\<And>k d. (k, d) \<in> set m \<Longrightarrow> ok d"
  shows "update_arrays (csr_of rows) (length rows - 1) (row (csr_of rows)) new_row m csr_empty = Inr (csr_of (new_rows (R rows) N rows m))"
  by (rule update_arrays_csr) (use assms row_read new_read in auto)

end

end
