(* ===== verification/Csr_Update.thy ===== *)
theory Csr_Update
  imports Csr_Rows
begin

text \<open>
  What the operations on CSR copies do: merging takes the newest record of every node, building makes the row of every node a transaction sees, and an update
  replaces the rows of the nodes that have records.
\<close>

section \<open>Ordered maps\<close>

lemma om_put_keys: "fst ` set (om_put k v m) = insert k (fst ` set m)"
  by (induction k v m rule: om_put.induct) auto

lemma om_put_sorted: "keys_sorted m \<Longrightarrow> keys_sorted (om_put k v m)"
proof (induction k v m rule: om_put.induct)
  case (2 k v l w m)
  then show ?case by (auto simp: keys_sorted_Cons om_put_keys)
qed (simp add: keys_sorted_def)

lemma map_of_om_put: "keys_sorted m \<Longrightarrow> map_of (om_put k v m) = (map_of m)(k \<mapsto> v)"
proof (induction k v m rule: om_put.induct)
  case (2 k v l w m)
  have "map_of m k = None" if "k < l" using 2(2) that by (force simp: keys_sorted_Cons map_of_eq_None_iff)
  then show ?case using 2 by (auto simp: keys_sorted_Cons fun_eq_iff)
qed auto

lemma end_of_Max: "keys_sorted m \<Longrightarrow> m \<noteq> [] \<Longrightarrow> end_of 0 m = Suc (Max (dom (map_of m)))"
proof -
  assume m: "keys_sorted m" "m \<noteq> []"
  then have "fst (last m) \<in> fst ` set m" "\<forall>k\<in>fst ` set m. k < Suc (fst (last m))"
    using end_of_key [of m _ _ 0] by (auto simp: end_of_def)
  then have "Max (fst ` set m) = fst (last m)" by (intro Max_eqI) (auto simp: less_Suc_eq_le)
  then show ?thesis using m(2) by (simp add: end_of_def dom_map_of_conv_image_fst)
qed

section \<open>Merging\<close>

definition rec_at :: "('r, 's) delta_store_scheme \<Rightarrow> nat \<Rightarrow> 'r" where
  "rec_at s p = the (cv_view (ds_delta_recs s) p)"

definition recs_of :: "('r, 's) delta_store_scheme \<Rightarrow> 'r list" where
  "recs_of s = map (rec_at s) (rec_positions s)"

text \<open>The records a transaction \<open>x\<close> merges, and the newest of each node.\<close>

definition eligible :: "xid_t \<Rightarrow> ('r, 's) delta_store_scheme \<Rightarrow> 'e delta_rec_scheme \<Rightarrow> bool" where
  "eligible x s r \<longleftrightarrow> dr_txid r \<le> x \<and> \<not> rec_skipped s r"

definition add_newest :: "'e delta_rec_scheme \<Rightarrow> (nat \<Rightarrow> 'e delta_rec_scheme option) \<Rightarrow> nat \<Rightarrow> 'e delta_rec_scheme option" where
  "add_newest r N =
     (case N (dr_node_id r) of None \<Rightarrow> N(dr_node_id r \<mapsto> r) | Some t \<Rightarrow> if dr_txid t < dr_txid r then N(dr_node_id r \<mapsto> r) else N)"

definition newest :: "'e delta_rec_scheme list \<Rightarrow> nat \<Rightarrow> 'e delta_rec_scheme option" where
  "newest rs = fold add_newest rs Map.empty"

lemma newest_snoc: "newest (rs @ [r]) = add_newest r (newest rs)"
  by (simp add: newest_def)

lemma newest_None: "newest rs n = None \<longleftrightarrow> (\<forall>r\<in>set rs. dr_node_id r \<noteq> n)"
  by (induction rs rule: rev_induct) (auto simp: newest_snoc add_newest_def newest_def split: option.split)

lemma newest_Some: "newest rs n = Some r \<Longrightarrow> r \<in> set rs \<and> dr_node_id r = n \<and> (\<forall>t\<in>set rs. dr_node_id t = n \<longrightarrow> dr_txid t \<le> dr_txid r)"
proof (induction rs arbitrary: r rule: rev_induct)
  case (snoc a rs)
  show ?case
  proof (cases "dr_node_id a = n")
    case True
    then show ?thesis using snoc newest_None [of rs n]
      by (cases "newest rs n") (auto simp: newest_snoc add_newest_def split: if_splits)
  next
    case False
    then have "newest rs n = Some r" using snoc.prems by (auto simp: newest_snoc add_newest_def split: option.splits if_splits)
    then show ?thesis using snoc.IH False by auto
  qed
qed (simp add: newest_def)

text \<open>The slices of a record of neighbour lists lie in the vectors of the store.\<close>

definition rec_ok :: "adj_store \<Rightarrow> adj_rec \<Rightarrow> bool" where
  "rec_ok s r \<longleftrightarrow> 0 \<le> ar_count r \<and> ar_pos r + nat (ar_count r) \<le> length (as_ids s) \<and> length (as_weights s) = length (as_ids s)"

definition rec_delta :: "adj_store \<Rightarrow> adj_rec \<Rightarrow> adj_delta" where
  "rec_delta s r = \<lparr>ad_ids = take (nat (ar_count r)) (drop (ar_pos r) (as_ids s)), ad_weights = take (nat (ar_count r)) (drop (ar_pos r) (as_weights s))\<rparr>"

lemma adj_take_run:
  "rec_ok (mv_store m) r \<Longrightarrow> adj_take p r adj_delta_new m =
    Inr (m\<lparr>mv_deltas := om_put (dr_node_id r) (rec_delta (mv_store m) r) (mv_deltas m), mv_txid := (mv_txid m)(dr_node_id r \<mapsto> dr_txid r),
           mv_store := mark_merged p r (mv_store m)\<rparr>)"
  by (simp add: adj_take_def rec_ok_def vec_slice_def rec_delta_def adj_delta_new_def Let_def)

text \<open>What the loop over the records keeps: \<open>N\<close> has the newest record of each node so far.\<close>

definition merging :: "adj_store \<Rightarrow> (nat \<Rightarrow> adj_rec option) \<Rightarrow> (adj_delta, adj_store) merge_vars \<Rightarrow> bool" where
  "merging s N m \<longleftrightarrow> (\<exists>v. mv_store m = s\<lparr>ds_delta_recs := v\<rparr> \<and> cv_wf v \<and> capacity v = capacity (ds_delta_recs s)) \<and>
     mv_txid m = (\<lambda>n. map_option dr_txid (N n)) \<and>
     keys_sorted (mv_deltas m) \<and> map_of (mv_deltas m) = (\<lambda>n. map_option (rec_delta s) (N n))"

lemma rec_simps [simp]:
  "rec_ok (s\<lparr>ds_delta_recs := v\<rparr>) r = rec_ok s r" "rec_delta (s\<lparr>ds_delta_recs := v\<rparr>) r = rec_delta s r"
  "rec_skipped (s\<lparr>ds_delta_recs := v\<rparr>) e = rec_skipped s e"
  by (simp_all add: rec_ok_def rec_delta_def rec_skipped_def)

lemma merging_take:
  assumes m: "merging s N m" and p: "cv_view (ds_delta_recs (mv_store m)) p = Some r" and r: "rec_ok s r"
  shows "\<exists>m'. adj_take p r adj_delta_new m = Inr m' \<and> merging s (N(dr_node_id r \<mapsto> r)) m' \<and> mv_clear m' = mv_clear m \<and>
    (\<forall>q. q \<noteq> p \<longrightarrow> cv_view (ds_delta_recs (mv_store m')) q = cv_view (ds_delta_recs (mv_store m)) q)"
proof -
  from m obtain v where v: "mv_store m = s\<lparr>ds_delta_recs := v\<rparr>" "cv_wf v" "capacity v = capacity (ds_delta_recs s)"
    and k: "keys_sorted (mv_deltas m)" by (auto simp: merging_def)
  have a: "cv_wf (cv_assign v p (r\<lparr>dr_merged := True\<rparr>))" "capacity (cv_assign v p (r\<lparr>dr_merged := True\<rparr>)) = capacity v"
    "cv_view (cv_assign v p (r\<lparr>dr_merged := True\<rparr>)) = (cv_view v)(p \<mapsto> r\<lparr>dr_merged := True\<rparr>)"
    using cv_assign_props [OF v(2), of p] p v(1) by simp_all
  show ?thesis using m v(1,3) r a k
    by (simp add: adj_take_run merging_def mark_merged_def om_put_sorted map_of_om_put fun_eq_iff) blast
qed

lemma merge_rec_run:
  assumes m: "merging s N m" and p: "cv_view (ds_delta_recs (mv_store m)) p = Some r" and r: "rec_ok s r"
  shows "\<exists>m'. adj_merge_rec x p m = Inr m' \<and> merging s (if eligible x s r then add_newest r N else N) m' \<and>
    mv_clear m' = (mv_clear m \<and> dr_txid r \<le> x) \<and>
    (\<forall>q. q \<noteq> p \<longrightarrow> cv_view (ds_delta_recs (mv_store m')) q = cv_view (ds_delta_recs (mv_store m)) q)"
proof -
  have at: "cv_at (ds_delta_recs (mv_store m)) p = Inr r" using m p by (auto simp: merging_def intro: cv_rd.at_Some)
  have sk: "rec_skipped (mv_store m) r = rec_skipped s r" using m by (auto simp: merging_def)
  have tx: "mv_txid m (dr_node_id r) = map_option dr_txid (N (dr_node_id r))" using m by (simp add: merging_def)
  have new: "N (dr_node_id r) = None \<Longrightarrow> om_get adj_delta_new (dr_node_id r) (mv_deltas m) = adj_delta_new"
    using m by (simp add: merging_def om_get_def)
  note t = merging_take [OF assms]
  consider "x < dr_txid r" | "\<not> x < dr_txid r" "rec_skipped s r" | "\<not> x < dr_txid r" "\<not> rec_skipped s r" by blast
  then show ?thesis
  proof cases
    case 1
    then show ?thesis using m at by (simp add: adj_merge_rec_def eligible_def merging_def)
  next
    case 2
    then show ?thesis using m at sk by (simp add: adj_merge_rec_def eligible_def)
  next
    case 3
    then show ?thesis using m at sk t tx new
      by (cases "N (dr_node_id r)") (auto simp: adj_merge_rec_def eligible_def add_newest_def)
  qed
qed

lemma merge_loop_run:
  assumes "merging s N m" "distinct ps" "\<And>p. p \<in> set ps \<Longrightarrow> cv_view (ds_delta_recs (mv_store m)) p = Some (rr p) \<and> rec_ok s (rr p)"
  shows "\<exists>m'. rfold (adj_merge_rec x) ps m = Inr m' \<and> merging s (fold add_newest (filter (eligible x s) (map rr ps)) N) m' \<and>
    mv_clear m' = (mv_clear m \<and> (\<forall>p\<in>set ps. dr_txid (rr p) \<le> x))"
  using assms
proof (induction ps arbitrary: m N)
  case (Cons p ps)
  obtain m1 where m1: "adj_merge_rec x p m = Inr m1" "merging s (if eligible x s (rr p) then add_newest (rr p) N else N) m1"
    "mv_clear m1 = (mv_clear m \<and> dr_txid (rr p) \<le> x)"
    "\<forall>q. q \<noteq> p \<longrightarrow> cv_view (ds_delta_recs (mv_store m1)) q = cv_view (ds_delta_recs (mv_store m)) q"
    using merge_rec_run [OF Cons.prems(1), of p "rr p" x] Cons.prems(3) [of p] by auto
  have "\<exists>m'. rfold (adj_merge_rec x) ps m1 = Inr m' \<and>
      merging s (fold add_newest (filter (eligible x s) (map rr ps)) (if eligible x s (rr p) then add_newest (rr p) N else N)) m' \<and>
      mv_clear m' = (mv_clear m1 \<and> (\<forall>p\<in>set ps. dr_txid (rr p) \<le> x))"
    using Cons.prems(2,3) m1(4) by (intro Cons.IH [OF m1(2)]) (simp_all, metis)
  then show ?case using m1(1,3) by (auto simp: fold_filter)
qed simp

lemma rec_positions_used:
  assumes "cv_wf (ds_delta_recs s)"
  shows "distinct (rec_positions s)" "p \<in> set (rec_positions s) \<Longrightarrow> cv_view (ds_delta_recs s) p = Some (rec_at s p)"
  using assms by (auto simp: rec_positions_def cv_walk_begin rec_at_def split: if_splits)

lemma adj_merge_run:
  assumes wf: "cv_wf (ds_delta_recs s)" and ok: "\<And>r. r \<in> set (recs_of s) \<Longrightarrow> rec_ok s r"
  shows "\<exists>m v. adj_merge_deltas [] x s =
      Inr (m, if \<forall>r\<in>set (recs_of s). dr_txid r \<le> x then clear_deltas (s\<lparr>ds_delta_recs := v\<rparr>) else s\<lparr>ds_delta_recs := v\<rparr>) \<and>
    keys_sorted m \<and> map_of m = (\<lambda>n. map_option (rec_delta s) (newest (filter (eligible x s) (recs_of s)) n))"
proof -
  have "merging s Map.empty (merge_start [] s)" using wf by (auto simp: merging_def merge_start_def keys_sorted_def intro: exI [of _ "ds_delta_recs s"])
  then obtain m' where m': "rfold (adj_merge_rec x) (rec_positions s) (merge_start [] s) = Inr m'"
    "merging s (newest (filter (eligible x s) (recs_of s))) m'" "mv_clear m' = (\<forall>r\<in>set (recs_of s). dr_txid r \<le> x)"
    using merge_loop_run [OF _ rec_positions_used(1) [OF wf], of s Map.empty "merge_start [] s" "rec_at s" x] rec_positions_used(2) [OF wf] ok
    by (auto simp: merge_start_def recs_of_def newest_def)
  from m'(2) obtain v where "mv_store m' = s\<lparr>ds_delta_recs := v\<rparr>" by (auto simp: merging_def)
  with m' show ?thesis by (intro exI [of _ "mv_deltas m'"] exI [of _ v]) (simp add: adj_merge_deltas_def merging_def)
qed

section \<open>Building\<close>

text \<open>
  The row of node \<open>u\<close> for transaction \<open>x\<close>: the other ends of the relationships of its lists that are valid, with their weights. The
  lists have at most \<open>wk\<close> entries.
\<close>

definition row_edges :: "xid_t \<Rightarrow> rship_weight \<Rightarrow> (rship_body \<Rightarrow> offset_t) \<Rightarrow> (offset_t \<times> vref \<times> rship_body elem) list \<Rightarrow> csr_row" where
  "row_edges x w far cs = map (\<lambda>e. (far (body e), rnd32 (w e))) (filter (is_valid_for x) (chain_elems cs))"

definition seen_row :: "xid_t \<Rightarrow> nat \<Rightarrow> rship_weight \<Rightarrow> bool \<Rightarrow> 'q graph_db_scheme \<Rightarrow> offset_t \<Rightarrow> csr_row \<Rightarrow> bool" where
  "seen_row x wk w bi g u row \<longleftrightarrow> (\<exists>n r d cs ds. holds (g_nodes g) u n \<and> get_valid_node_version x (touch x n) = Inr r \<and> o_get (touch x n) r = Inr d \<and>
     rship_chain x rs_next_src (g_rships g) (nd_from_rships (body d)) cs \<and> length cs \<le> wk \<and>
     (bi \<longrightarrow> rship_chain x rs_next_dest (g_rships g) (nd_to_rships (body d)) ds \<and> length ds \<le> wk) \<and>
     row = row_edges x w rs_dest_node cs @ (if bi then row_edges x w rs_src_node ds else []))"

lemma seen_row_same: "seen_row x wk w bi g u row \<Longrightarrow> same_db x th g g' \<Longrightarrow> seen_row x wk w bi g' u row"
proof -
  assume s: "same_db x th g g'" and "seen_row x wk w bi g u row"
  then obtain n r d cs ds where n: "holds (g_nodes g) u n" "get_valid_node_version x (touch x n) = Inr r" "o_get (touch x n) r = Inr d"
    "rship_chain x rs_next_src (g_rships g) (nd_from_rships (body d)) cs" "length cs \<le> wk"
    "bi \<longrightarrow> rship_chain x rs_next_dest (g_rships g) (nd_to_rships (body d)) ds \<and> length ds \<le> wk"
    "row = row_edges x w rs_dest_node cs @ (if bi then row_edges x w rs_src_node ds else [])" unfolding seen_row_def by blast
  from s n(1) obtain n' where n': "holds (g_nodes g') u n'" "touch x n' = touch x n" unfolding same_db_def same_table_def by blast
  have c: "\<And>nxt i cs. rship_chain x nxt (g_rships g) i cs \<Longrightarrow> rship_chain x nxt (g_rships g') i cs"
    using s rship_chain_same unfolding same_db_def by blast
  show ?thesis unfolding seen_row_def
    by (rule exI [of _ n'], rule exI [of _ r], rule exI [of _ d], rule exI [of _ cs], rule exI [of _ ds]) (use n n' c in auto)
qed

text \<open>The local variables of the loop when the rows of some nodes have been made, and the edges of one more have been added.\<close>

definition build_vars :: "csr_row list \<Rightarrow> csr_row \<Rightarrow> csr_vars" where
  "build_vars rows row = csr_arrays.extend ((csr_of rows)\<lparr>col_indices := map fst (concat rows @ row), edge_values := map snd (concat rows @ row)\<rparr>)
     (csr_vars.fields (length (concat rows) + length row))"

definition edge_effect :: "rship_weight \<Rightarrow> (rship_body \<Rightarrow> offset_t) \<Rightarrow> rship_body elem \<Rightarrow> csr_vars \<times> 'v \<Rightarrow> csr_vars \<times> 'v" where
  "edge_effect w far e = map_prod (\<lambda>s. s\<lparr>col_indices := col_indices s @ [far (body e)], edge_values := edge_values s @ [rnd32 (w e)], csr_edges := csr_edges s + 1\<rparr>) id"

lemma push_edge_run: "rship_at j q h = (Inr e, h) \<Longrightarrow> push_edge w far j q h = (Inr (), with_more (edge_effect w far e (graph_db.more h)) h)"
  by (cases "graph_db.more h") (simp add: push_edge_def sbind_def upd_local_run edge_effect_def)

lemma edge_effect_vars: "edge_effect w far e (build_vars rows row, v) = (build_vars rows (row @ [(far (body e), rnd32 (w e))]), v)"
  by (simp add: edge_effect_def build_vars_def csr_arrays.defs csr_vars.defs csr_of_def)

lemma edge_effects: "fold (edge_effect w far) es (build_vars rows row, v) = (build_vars rows (row @ map (\<lambda>e. (far (body e), rnd32 (w e))) es), v)"
  by (induction es arbitrary: row) (simp_all add: edge_effect_vars)

lemma push_walk:
  assumes "rship_chain x nxt (g_rships g) i cs" "g_current g th = Some tx" "xid tx = x" "length cs \<le> wk"
    "graph_db.more g = (build_vars rows row, v)"
  shows "\<exists>t. rship_walk wk th nxt (is_valid_for x) (push_edge w far) i g =
      (Inr (), with_more (build_vars rows (row @ row_edges x w far cs), v) (g\<lparr>g_rships := t\<rparr>)) \<and> same_table x (g_rships g) t"
  using local_walk [OF assms(1-4), of "\<lambda>_. True" "is_valid_for x" "push_edge w far" "edge_effect w far"] assms(5)
  by (auto simp: push_edge_run edge_effects row_edges_def)

lemma row_end:
  "graph_db.more g = (build_vars rows row, v) \<Longrightarrow>
   upd_local (\<lambda>s. s\<lparr>row_offsets := row_offsets s @ [csr_edges s]\<rparr>) g = (Inr (), with_more (build_vars (rows @ [row]) [], v) g)"
  by (simp add: upd_local_run build_vars_def csr_arrays.defs csr_vars.defs csr_of_def scan_snoc)

lemma is_used_assign: "cv_is_used (cv_assign v i y) j = cv_is_used v j"
  by (cases "i div elems_per_chunk v = j div elems_per_chunk v") (simp_all add: cv_is_used_def cv_assign_def cv_find_chunk_def Let_def)

lemma is_used_holds: "holds v i n \<Longrightarrow> cv_is_used v i = Inr True"
  by (simp add: holds_def cv_is_used_def cv_view_eq cv_find_chunk_def Let_def split: if_splits)

text \<open>One node: its row is added, and the store is only read.\<close>

definition reads_only :: "xid_t \<Rightarrow> nat \<Rightarrow> 'q graph_db_scheme \<Rightarrow> 'r graph_db_scheme \<Rightarrow> bool" where
  "reads_only x th g g' \<longleftrightarrow> same_db x th g g' \<and> (\<forall>i. cv_is_used (g_nodes g') i = cv_is_used (g_nodes g) i)"

lemma csr_node_run:
  assumes "seen_row x wk w bi g u row \<or> cv_is_used (g_nodes g) u = Inr False \<and> row = []"
    "g_current g th = Some tx" "xid tx = x" "graph_db.more g = (build_vars rows [], v)"
  shows "\<exists>g'. csr_node wk th x w bi u g = (Inr (), g') \<and> reads_only x th g g' \<and> graph_db.more g' = (build_vars (rows @ [row]) [], v)"
proof (cases "cv_is_used (g_nodes g) u = Inr False")
  case True
  then have "row = []" using assms(1) by (auto simp: seen_row_def is_used_holds)
  then show ?thesis using True assms(4) row_end [of g rows "[]" v] by (simp add: csr_node_def sbind_def reads_only_def)
next
  case False
  then obtain n r d cs ds where n: "holds (g_nodes g) u n" "get_valid_node_version x (touch x n) = Inr r" "o_get (touch x n) r = Inr d"
    "rship_chain x rs_next_src (g_rships g) (nd_from_rships (body d)) cs" "length cs \<le> wk"
    and bi: "bi \<longrightarrow> rship_chain x rs_next_dest (g_rships g) (nd_to_rships (body d)) ds \<and> length ds \<le> wk"
    and row: "row = row_edges x w rs_dest_node cs @ (if bi then row_edges x w rs_src_node ds else [])"
    using assms(1) unfolding seen_row_def by blast
  let ?t = "touch x n"
  define g1 where "g1 = g\<lparr>g_nodes := cv_assign (g_nodes g) u ?t\<rparr>"
  have h1: "holds (g_nodes g1) u ?t" using holds_assign [OF n(1)] by (simp add: g1_def)
  have b: "node_by_id th u g = (Inr r, g1)" using node_by_id_run [OF n(1) assms(2)] assms(3) n(2) by (simp add: g1_def)
  have at: "node_at u r g' = (Inr d, g')" if "g_nodes g' = g_nodes g1" for g' :: "(csr_vars \<times> 'a) graph_db_scheme"
    using node_at_run [of g' u ?t r] h1 that n(3) by simp
  have 1: "reads_only x th g g1" using same_table_touch [OF n(1)] by (simp add: reads_only_def same_db_def g1_def is_used_assign)
  obtain t where t: "rship_walk wk th rs_next_src (is_valid_for x) (push_edge w rs_dest_node) (nd_from_rships (body d)) g1 =
      (Inr (), with_more (build_vars rows (row_edges x w rs_dest_node cs), v) (g1\<lparr>g_rships := t\<rparr>))" "same_table x (g_rships g1) t"
    using push_walk [of x rs_next_src g1 _ cs th tx wk rows "[]" v w rs_dest_node] n(4,5) assms(2-4) by (auto simp: g1_def)
  define g2 where "g2 = with_more (build_vars rows (row_edges x w rs_dest_node cs), v) (g1\<lparr>g_rships := t\<rparr>)"
  have 2: "reads_only x th g g2" using 1 t(2) same_table_trans by (auto simp: reads_only_def same_db_def g2_def g1_def)
  define inc where "inc = (if bi then sbind (node_at u r) (\<lambda>e. rship_walk wk th rs_next_dest (is_valid_for x) (push_edge w rs_src_node) (nd_to_rships (body e)))
      else sret () :: (csr_vars \<times> 'a, unit) gact)"
  have "\<exists>g3. inc g2 = (Inr (), g3) \<and> reads_only x th g g3 \<and> graph_db.more g3 = (build_vars rows row, v)"
  proof (cases bi)
    case True
    have "rship_chain x rs_next_dest (g_rships g2) (nd_to_rships (body d)) ds" using bi True t(2) rship_chain_same by (auto simp: g2_def g1_def)
    then obtain t' where "rship_walk wk th rs_next_dest (is_valid_for x) (push_edge w rs_src_node) (nd_to_rships (body d)) g2 =
        (Inr (), with_more (build_vars rows (row_edges x w rs_dest_node cs @ row_edges x w rs_src_node ds), v) (g2\<lparr>g_rships := t'\<rparr>))" "same_table x (g_rships g2) t'"
      using push_walk [of x rs_next_dest g2 _ ds th tx wk rows "row_edges x w rs_dest_node cs" v w rs_src_node] bi True assms(2-4) by (auto simp: g2_def g1_def)
    then show ?thesis using True at [of g2] 2 same_table_trans row
      by (auto simp: inc_def sbind_def g2_def reads_only_def same_db_def)
  qed (use 2 row in \<open>simp add: inc_def g2_def\<close>)
  then obtain g3 where g3: "inc g2 = (Inr (), g3)" "reads_only x th g g3" "graph_db.more g3 = (build_vars rows row, v)" by blast
  have "csr_node wk th x w bi u g = (Inr (), with_more (build_vars (rows @ [row]) [], v) g3)"
    using b at [of g1] t(1) g3(1) row_end [OF g3(3)] is_used_holds [OF n(1)]
    by (simp add: csr_node_def sbind_def g2_def inc_def)
  then show ?thesis using g3(2) by (simp add: reads_only_def)
qed

lemma reads_only_trans: "reads_only x th f g \<Longrightarrow> reads_only x th g h \<Longrightarrow> reads_only x th f h"
  by (auto simp: reads_only_def intro: same_db_trans)

lemma csr_nodes_run:
  assumes "\<And>u. u \<in> set us \<Longrightarrow> seen_row x wk w bi g u (A u) \<or> cv_is_used (g_nodes g) u = Inr False \<and> A u = []"
    "g_current g th = Some tx" "xid tx = x" "graph_db.more g = (build_vars rows [], v)"
  shows "\<exists>g'. for_each (csr_node wk th x w bi) us g = (Inr (), g') \<and> reads_only x th g g' \<and> graph_db.more g' = (build_vars (rows @ map A us) [], v)"
  using assms
proof (induction us arbitrary: g rows)
  case Nil
  then show ?case by (simp add: reads_only_def)
next
  case (Cons u us)
  obtain g1 where g1: "csr_node wk th x w bi u g = (Inr (), g1)" "reads_only x th g g1" "graph_db.more g1 = (build_vars (rows @ [A u]) [], v)"
    using csr_node_run [OF _ Cons.prems(2-4), of wk w bi u "A u"] Cons.prems(1) [of u] by auto
  have "seen_row x wk w bi g1 y (A y) \<or> cv_is_used (g_nodes g1) y = Inr False \<and> A y = []" if "y \<in> set us" for y
    using Cons.prems(1) [of y] that g1(2) seen_row_same [of x wk w bi g y "A y" th g1] by (auto simp: reads_only_def)
  then have "\<exists>g'. for_each (csr_node wk th x w bi) us g1 = (Inr (), g') \<and> reads_only x th g1 g' \<and>
      graph_db.more g' = (build_vars ((rows @ [A u]) @ map A us) [], v)"
    by (rule Cons.IH) (use Cons.prems g1(2,3) in \<open>auto simp: reads_only_def same_db_def\<close>)
  then show ?case using g1(1,2) by (auto simp: sbind_def intro: reads_only_trans)
qed

definition num_slots :: "'q graph_db_scheme \<Rightarrow> nat" where
  "num_slots g = (cv_last_used (g_nodes g) + 1) mod 2 ^ 64"

lemma host_csr_build_run:
  assumes "\<And>u. u < num_slots g \<Longrightarrow> seen_row x wk w bi g u (A u) \<or> cv_is_used (g_nodes g) u = Inr False \<and> A u = []"
    "g_current g th = Some tx" "xid tx = x"
  shows "\<exists>g'. host_csr_build wk th csr_empty w bi g = (Inr (csr_of (map A [0..<num_slots g])), g') \<and> reads_only x th g g' \<and>
    graph_db.more g' = graph_db.more g"
proof -
  let ?l = "build_vars [] []"
  have l: "csr_arrays.extend (csr_empty\<lparr>row_offsets := row_offsets csr_empty @ [0]\<rparr>) (csr_vars.fields 0) = ?l"
    by (simp add: build_vars_def csr_empty_def csr_of_def csr_arrays.defs csr_vars.defs)
  have "\<exists>g'. for_each (csr_node wk th x w bi) [0..<num_slots g] (with_more (?l, graph_db.more g) g) = (Inr (), g') \<and>
      reads_only x th (with_more (?l, graph_db.more g) g) g' \<and> graph_db.more g' = (build_vars ([] @ map A [0..<num_slots g]) [], graph_db.more g)"
    by (rule csr_nodes_run) (use assms in \<open>auto simp: seen_row_def\<close>)
  then obtain g' where g': "for_each (csr_node wk th x w bi) [0..<num_slots g] (with_more (?l, graph_db.more g) g) = (Inr (), g')"
    "reads_only x th g g'" "graph_db.more g' = (build_vars (map A [0..<num_slots g]) [], graph_db.more g)" by (auto simp: reads_only_def)
  have "csr_arrays.truncate (build_vars rows []) = csr_of rows" for rows
    by (simp add: build_vars_def csr_arrays.defs csr_vars.defs csr_of_def)
  then have "host_csr_build wk th csr_empty w bi g = (Inr (csr_of (map A [0..<num_slots g])), with_more (graph_db.more g) g')"
    using g' assms(2,3) l
    by (simp add: host_csr_build_def sbind_def current_xid_def max_num_nodes_def with_local_def get_local_run num_slots_def)
  then show ?thesis using g'(2) by (simp add: reads_only_def)
qed

section \<open>Updating\<close>

definition rec_row :: "adj_store \<Rightarrow> adj_rec \<Rightarrow> csr_row" where
  "rec_row s r = zip (ad_ids (rec_delta s r)) (map rnd32 (ad_weights (rec_delta s r)))"

definition updated_rows :: "adj_store \<Rightarrow> (nat \<Rightarrow> adj_rec option) \<Rightarrow> csr_row list \<Rightarrow> csr_row list" where
  "updated_rows s N rows =
     map (\<lambda>i. case N i of None \<Rightarrow> if i < length rows then rows ! i else [] | Some r \<Rightarrow> rec_row s r)
       [0..<max (length rows) (Suc (Max (dom N)))]"

text \<open>The store keeps the copy \<open>rows\<close>, and its records are well formed.\<close>

definition store_keeps :: "adj_store \<Rightarrow> csr_row list \<Rightarrow> bool" where
  "store_keeps s rows \<longleftrightarrow> ds_last_txn_id s \<noteq> UNKNOWN \<and> kept_arrays s = csr_of rows \<and> rows \<noteq> [] \<and> ds_last_node_id s = length rows - 1 \<and>
     cv_wf (ds_delta_recs s) \<and> (\<forall>r\<in>set (recs_of s). rec_ok s r)"

interpretation adj: delta_rows "\<lambda>_ d _. Inr (adj_row d)" "\<lambda>_ d _. zip (ad_ids d) (map rnd32 (ad_weights d))"
    adj_row "\<lambda>d. zip (ad_ids d) (map rnd32 (ad_weights d))" "\<lambda>d. length (ad_weights d) = length (ad_ids d)"
  by unfold_locales (simp_all add: adj_row_def)

lemma merged_rows:
  assumes m: "keys_sorted m" "map_of m = (\<lambda>n. map_option (rec_delta s) (N n))" "m \<noteq> []" and rows: "rows \<noteq> []"
    and ok: "\<And>n r. N n = Some r \<Longrightarrow> rec_ok s r"
  shows "update_arrays (csr_of rows) (length rows - 1) (\<lambda>d i. Inr (adj_row d)) adj_row m csr_empty = Inr (csr_of (updated_rows s N rows))"
proof -
  let ?R = "\<lambda>d. zip (ad_ids d) (map rnd32 (ad_weights d))"
  have "length (ad_weights d) = length (ad_ids d)" if kd: "(k, d) \<in> set m" for k d
  proof -
    have "distinct (map fst m)" using m(1) by (simp add: keys_sorted_def strict_sorted_iff)
    then have "map_of m k = Some d" using kd by simp
    then obtain r where "N k = Some r" "d = rec_delta s r" using m(2) by auto
    then show ?thesis using ok [of k r] by (auto simp: rec_delta_def rec_ok_def)
  qed
  then have "update_arrays (csr_of rows) (length rows - 1) (\<lambda>d i. Inr (adj_row d)) adj_row m csr_empty = Inr (csr_of (new_rows (\<lambda>d _. ?R d) ?R rows m))"
    by (intro adj.update_read m rows)
  moreover have "dom (map_of m) = dom N" using m(2) by (auto simp: dom_def)
  then have "new_rows (\<lambda>d _. ?R d) ?R rows m = updated_rows s N rows"
    using end_of_Max [OF m(1,3)] by (auto simp: new_rows_def updated_rows_def pick_def m(2) rec_row_def split: option.split)
  ultimately show ?thesis by simp
qed

lemma adj_update_run:
  assumes g: "graph_db.more g = (s, v)" "g_current g th = Some tx" "xid tx = x" and last: "ds_last_txn_id s \<le> x" and s: "store_keeps s rows"
    and N: "N = newest (filter (eligible x s) (recs_of s))" "N \<noteq> Map.empty"
  shows "\<exists>s'. adj_csr_update_with_delta wk th csr_empty g = (Inr (csr_of (updated_rows s N rows)), with_more (s', v) g) \<and>
    kept_arrays s' = csr_of (updated_rows s N rows) \<and> ds_last_txn_id s' = x \<and> ds_last_node_id s' = length (updated_rows s N rows) - 1"
proof -
  have ok: "N n = Some r \<Longrightarrow> rec_ok s r" for n r using newest_Some s by (fastforce simp: N(1) store_keeps_def)
  have wf: "cv_wf (ds_delta_recs s)" and rok: "\<And>r. r \<in> set (recs_of s) \<Longrightarrow> rec_ok s r" using s by (auto simp: store_keeps_def)
  from adj_merge_run [OF wf rok, of x] obtain m w where m: "adj_merge_deltas [] x s =
      Inr (m, if \<forall>r\<in>set (recs_of s). dr_txid r \<le> x then clear_deltas (s\<lparr>ds_delta_recs := w\<rparr>) else s\<lparr>ds_delta_recs := w\<rparr>)"
    "keys_sorted m" "map_of m = (\<lambda>n. map_option (rec_delta s) (N n))" unfolding N(1) by blast
  define s1 where "s1 = (if \<forall>r\<in>set (recs_of s). dr_txid r \<le> x then clear_deltas (s\<lparr>ds_delta_recs := w\<rparr>) else s\<lparr>ds_delta_recs := w\<rparr>)"
  have s1: "kept_arrays s1 = csr_of rows" "ds_last_node_id s1 = length rows - 1"
    using s by (simp_all add: s1_def store_keeps_def clear_deltas_def kept_arrays_def)
  have ne: "m \<noteq> []" using m(3) N(2) by (auto simp: fun_eq_iff)
  have rows: "rows \<noteq> []" using s by (simp add: store_keeps_def)
  note u = merged_rows [OF m(2,3) ne rows ok]
  have len: "0 < length (updated_rows s N rows)" by (simp add: updated_rows_def)
  have "adj_csr_update_with_delta wk th csr_empty g =
      (Inr (csr_of (updated_rows s N rows)), with_more (finish_update x (csr_of (updated_rows s N rows)) s1, v) g)"
    using g last s m(1) ne u s1
    by (simp add: adj_csr_update_with_delta_def update_from_store_def sbind_def check_run get_local_run store_keeps_def srun_def upd_local_run Let_def flip: s1_def)
  then show ?thesis using len
    by (intro exI [of _ "finish_update x (csr_of (updated_rows s N rows)) s1"])
      (simp add: finish_update_def keep_arrays_def kept_arrays_def csr_of_def sub64_def Suc_le_eq)
qed

end
