(* ===== verification/Csr_Props.thy ===== *)
theory Csr_Props
  imports Csr_Update Graph_Reach
begin

text \<open>
  Theorems on the CSR copies of the graph: a copy is built from what a transaction sees; a copy that is brought up to date with accurate records is the one that
  would be built from scratch; records are read back. Defects: updates that lose the copy or read behind its end, records with
  neighbours that were deleted, rows of deleted nodes.
\<close>

section \<open>A store with a copy of a graph with two nodes\<close>

definition pair_rec :: adj_rec where
  "pair_rec = adj_rec_new 4 0 0 1"

definition pair_store :: "adj_rec list \<Rightarrow> csr_row list \<Rightarrow> adj_store" where
  "pair_store rs rows = keep_arrays (csr_of rows) ((adj_store_new 1)\<lparr>ds_last_txn_id := 3, ds_last_node_id := sub64 (length (row_offsets (csr_of rows))) 2,
     ds_delta_recs := \<lparr>capacity = length rs, available_slots = 0, elems_per_chunk = 1,
       chunk_list = map (\<lambda>r. \<lparr>ch_data = [r], ch_slots = [True], ch_first = 1\<rparr>) rs, free_list = []\<rparr>,
     as_ids := [1], as_weights := [13 / 10], as_next_pos := 1\<rparr>)"

lemma pair_store_sel:
  "ds_last_txn_id (pair_store rs rows) = 3" "kept_arrays (pair_store rs rows) = csr_of rows" "ds_weight_func (pair_store rs rows) = (\<lambda>_. 13 / 10)"
  "ds_bidirectional (pair_store rs rows) = False" "as_ids (pair_store rs rows) = [1]" "as_weights (pair_store rs rows) = [13 / 10]"
  "ds_last_node_id (pair_store rs rows) = sub64 (Suc (length rows)) 2"
  "chunk_list (ds_delta_recs (pair_store rs rows)) = map (\<lambda>r. \<lparr>ch_data = [r], ch_slots = [True], ch_first = 1\<rparr>) rs"
  "elems_per_chunk (ds_delta_recs (pair_store rs rows)) = 1" "capacity (ds_delta_recs (pair_store rs rows)) = length rs"
  by (simp_all add: pair_store_def keep_arrays_def kept_arrays_def adj_store_new_def delta_store_new_def delta_store.defs adj_store.defs csr_of_def)

lemma pair_store_wf: "cv_wf (ds_delta_recs (pair_store rs rows))"
  by (simp add: cv_wf_def pair_store_def keep_arrays_def chunk_inv_def free_count_def sum_list_0 comp_def)

lemma pair_store_recs: "recs_of (pair_store rs rows) = rs"
proof -
  have v: "cv_view (ds_delta_recs (pair_store rs rows)) i = (if i < length rs then Some (rs ! i) else None)" for i
    using pair_store_wf by (simp add: cv_view_eq pair_store_sel)
  have "\<not> (chunk_list (ds_delta_recs (pair_store rs rows)) \<noteq> [] \<and> chunk_is_empty (hd (chunk_list (ds_delta_recs (pair_store rs rows)))))"
    by (cases rs) (auto simp: pair_store_sel chunk_is_empty_def intro: exI [of _ True])
  then have "rec_positions (pair_store rs rows) = filter (\<lambda>i. i < length rs) [0..<length rs]"
    using pair_store_wf [of rs rows] by (auto simp: rec_positions_def cv_walk_begin pair_store_sel v intro: filter_cong)
  then have "rec_positions (pair_store rs rows) = [0..<length rs]" by (simp add: filter_id_conv)
  then show ?thesis by (auto simp: recs_of_def rec_at_def v intro: nth_equalityI)
qed

lemma pair_rec_ok: "rec_ok (pair_store rs rows) pair_rec" "rec_row (pair_store rs rows) pair_rec = [(1, rnd32 (13 / 10))]"
  "eligible 5 (pair_store rs rows) pair_rec" "dr_node_id pair_rec = 0" "dr_txid pair_rec = 4"
  by (simp_all add: rec_ok_def rec_row_def rec_delta_def pair_rec_def adj_rec_new_def pair_store_sel eligible_def rec_skipped_def)

lemma pair_store_keeps: "rows \<noteq> [] \<Longrightarrow> rs \<in> {[], [pair_rec]} \<Longrightarrow> store_keeps (pair_store rs rows) rows"
  by (cases rows) (auto simp: store_keeps_def pair_store_sel pair_store_wf pair_store_recs pair_rec_ok sub64_def UNKNOWN_def)

definition pair_row :: "rship_weight \<Rightarrow> nat \<Rightarrow> csr_row" where
  "pair_row w u = (if u = 0 then [(1, rnd32 (w (o_elem pair_rship)))] else [])"

lemma pair_seen: "u < 2 \<Longrightarrow> seen_row 5 1 w False (with_more m pair_demo) u (pair_row w u)"
proof -
  assume "u < 2"
  then consider "u = 0" | "u = 1" by linarith
  then show ?thesis
  proof cases
    case 1
    show ?thesis unfolding seen_row_def
      by (rule exI [of _ "pair_node 0 0 UNKNOWN"], rule exI [of _ Main], rule exI [of _ "o_elem (pair_node 0 0 UNKNOWN)"],
          rule exI [of _ "[(0, Main, o_elem pair_rship)]"], rule exI [of _ "[]"])
        (use 1 pair_holds pair_chain in \<open>simp add: pair_demo_def pair_read pair_row_def row_edges_def is_valid_for_def pair_rship_def rship_item_def INF_TS_def\<close>)
  next
    case 2
    show ?thesis unfolding seen_row_def
      by (rule exI [of _ "pair_node 1 UNKNOWN 0"], rule exI [of _ Main], rule exI [of _ "o_elem (pair_node 1 UNKNOWN 0)"],
          rule exI [of _ "[]"], rule exI [of _ "[]"])
        (use 2 pair_holds in \<open>simp add: pair_demo_def pair_read pair_row_def row_edges_def\<close>)
  qed
qed

lemma pair_slots: "num_slots (with_more m pair_demo) = 2"
proof -
  let ?c = "\<lparr>ch_data = [pair_node 0 0 UNKNOWN, pair_node 1 UNKNOWN 0], ch_slots = [True, True], ch_first = 2\<rparr>"
  have "\<not> chunk_is_empty ?c" by (auto simp: chunk_is_empty_def intro: exI [of _ True])
  then have "chunk_last_used ?c = Some 1" by (simp add: chunk_last_used_def upt_rec)
  then show ?thesis by (simp add: num_slots_def pair_demo_def pair_nodes_def cv_last_used_def)
qed

lemma pair_demo_unit: "with_more () pair_demo = pair_demo"
  using with_more_id [of pair_demo] by simp

section \<open>Theorems\<close>

text \<open>
  C40. Building a copy of the graph: if the transaction can read every node in use and the relationships of its lists, the arrays encode one row for each slot
  of the node table, with the other ends and weights of the relationships it sees, in the order of the lists; slots without a node have an empty row. The
  store is only read.
\<close>

theorem csr_build_rows:
  assumes "\<And>u. u < num_slots g \<Longrightarrow> seen_row x wk w bi g u (A u) \<or> cv_is_used (g_nodes g) u = Inr False \<and> A u = []"
    "g_current g th = Some tx" "xid tx = x"
  shows "\<exists>g'. host_csr_build wk th csr_empty w bi g = (Inr (csr_of (map A [0..<num_slots g])), g') \<and> reads_only x th g g' \<and>
    graph_db.more g' = graph_db.more g"
  using host_csr_build_run [OF assms] .

theorem csr_build_rows_witness:
  "\<exists>g'. host_csr_build 1 1 csr_empty (\<lambda>_. 0) False pair_demo = (Inr (csr_of [[(1, rnd32 0)], []]), g') \<and> reads_only 5 1 pair_demo g'"
proof -
  have n: "num_slots pair_demo = 2" using pair_slots [of "()"] by (simp add: pair_demo_unit)
  have "\<exists>g'. host_csr_build 1 1 csr_empty (\<lambda>_. 0) False pair_demo = (Inr (csr_of (map (pair_row (\<lambda>_. 0)) [0..<num_slots pair_demo])), g') \<and>
      reads_only 5 1 pair_demo g' \<and> graph_db.more g' = graph_db.more pair_demo"
    by (rule csr_build_rows [where tx = "transaction_new 5"]) (use pair_seen [of _ _ "()"] pair_demo_sel n in \<open>simp_all add: pair_demo_unit transaction_new_def\<close>)
  then show ?thesis unfolding n by (auto simp: pair_row_def numeral_2_eq_2)
qed

text \<open>
  C18. Bringing a copy up to date gives the copy that would be built from scratch, if the delta records are accurate: the newest record of each node that
  the transaction may merge has the neighbours the transaction sees, and nodes without one have not changed. There is at least one record to merge,
  and the old copy is not empty; both cases are treated separately below. The store then keeps the new copy.
\<close>

theorem csr_update_rebuilds:
  assumes "graph_db.more g = (s, v)" "g_current g th = Some tx" "xid tx = x" "ds_last_txn_id s \<le> x" "store_keeps s rows"
    "N = newest (filter (eligible x s) (recs_of s))" "N \<noteq> Map.empty"
    "\<And>u. u < num_slots g \<Longrightarrow> seen_row x wk (ds_weight_func s) (ds_bidirectional s) g u (A u) \<or> cv_is_used (g_nodes g) u = Inr False \<and> A u = []"
    "num_slots g = max (length rows) (Suc (Max (dom N)))"
    "\<And>u. u < num_slots g \<Longrightarrow> A u = (case N u of None \<Rightarrow> if u < length rows then rows ! u else [] | Some r \<Rightarrow> rec_row s r)"
  shows "fst (adj_csr_update_with_delta wk th csr_empty g) = fst (host_csr_build wk th csr_empty (ds_weight_func s) (ds_bidirectional s) g) \<and>
    (\<exists>s'. snd (adj_csr_update_with_delta wk th csr_empty g) = with_more (s', v) g \<and> kept_arrays s' = csr_of (map A [0..<num_slots g]) \<and>
      ds_last_txn_id s' = x)"
proof -
  have A: "updated_rows s N rows = map A [0..<num_slots g]" using assms(9,10) by (simp add: updated_rows_def)
  have "fst (host_csr_build wk th csr_empty (ds_weight_func s) (ds_bidirectional s) g) = Inr (csr_of (map A [0..<num_slots g]))"
    using host_csr_build_run [OF assms(8) assms(2,3)] by auto
  then show ?thesis using adj_update_run [OF assms(1-7), of wk] A by auto
qed

theorem csr_update_rebuilds_witness:
  "fst (adj_csr_update_with_delta 1 1 csr_empty (with_more (pair_store [pair_rec] [[], []], ()) pair_demo)) =
   fst (host_csr_build 1 1 csr_empty (\<lambda>_. 13 / 10) False (with_more (pair_store [pair_rec] [[], []], ()) pair_demo))"
proof -
  let ?s = "pair_store [pair_rec] [[], []]" and ?w = "\<lambda>_ :: rship_body elem. 13 / 10 :: real"
  let ?g = "with_more (?s, ()) pair_demo"
  have N: "newest (filter (eligible 5 ?s) (recs_of ?s)) = [0 \<mapsto> pair_rec]"
    by (simp add: pair_store_recs pair_rec_ok newest_def add_newest_def)
  have "fst (adj_csr_update_with_delta 1 1 csr_empty ?g) = fst (host_csr_build 1 1 csr_empty (ds_weight_func ?s) (ds_bidirectional ?s) ?g) \<and>
      (\<exists>s'. snd (adj_csr_update_with_delta 1 1 csr_empty ?g) = with_more (s', ()) ?g \<and> kept_arrays s' = csr_of (map (pair_row ?w) [0..<num_slots ?g]) \<and>
        ds_last_txn_id s' = 5)"
    by (rule csr_update_rebuilds [where N = "[0 \<mapsto> pair_rec]" and tx = "transaction_new 5" and rows = "[[], []]" and s = ?s])
      (use pair_demo_sel N pair_seen [of _ ?w "(?s, ())"] pair_store_keeps [of "[[], []]" "[pair_rec]"] in
        \<open>auto simp: pair_store_sel pair_slots pair_rec_ok pair_row_def less_2_cases_iff\<close>)
  then show ?thesis by (simp add: pair_store_sel)
qed

text \<open>
  An update with no new records leaves the arrays of the caller as they are, although the store keeps a copy of the graph: a caller that passes empty arrays
  gets an empty copy.
\<close>

theorem csr_update_unchanged_empty:
  assumes "graph_db.more g = (s, v)" "g_current g th = Some tx" "xid tx = x" "ds_last_txn_id s \<le> x" "store_keeps s rows"
    "\<And>r. r \<in> set (recs_of s) \<Longrightarrow> \<not> eligible x s r"
  shows "fst (adj_csr_update_with_delta wk th csr_empty g) = Inr csr_empty"
proof -
  have N: "newest (filter (eligible x s) (recs_of s)) = Map.empty" using assms(6) by (simp add: newest_def filter_empty_conv)
  have wf: "cv_wf (ds_delta_recs s)" and rok: "\<And>r. r \<in> set (recs_of s) \<Longrightarrow> rec_ok s r" using assms(5) by (auto simp: store_keeps_def)
  from adj_merge_run [OF wf rok, of x] obtain m s1 where "adj_merge_deltas [] x s = Inr (m, s1)" "map_of m = Map.empty" unfolding N by auto
  then show ?thesis using assms(1-5)
    by (simp add: adj_csr_update_with_delta_def update_from_store_def sbind_def check_run get_local_run store_keeps_def srun_def upd_local_run)
qed

theorem csr_update_unchanged_empty_witness:
  "fst (adj_csr_update_with_delta 1 1 csr_empty (with_more (pair_store [] [[], []], ()) pair_demo)) = Inr csr_empty \<and>
   kept_arrays (pair_store [] [[], []]) \<noteq> csr_empty"
  using csr_update_unchanged_empty [where g = "with_more (pair_store [] [[], []], ()) pair_demo" and s = "pair_store [] [[], []]" and v = "()" and
      th = 1 and tx = "transaction_new 5" and x = 5 and rows = "[[], []]" and wk = 1] pair_demo_sel pair_store_keeps [of "[[], []]" "[]"]
  by (simp add: pair_store_sel pair_store_recs csr_of_def csr_empty_def)

lemma copy_row_error: "copy_row (csr_of []) i new = Inl Undefined_behaviour"
  by (simp add: copy_row_def old_row_def old_edges_def csr_simps vec_get_def)

lemma copy_rows_error: "rfold (copy_row (csr_of [])) xs new \<in> {Inr new, Inl Undefined_behaviour}"
  by (cases xs) (simp_all add: copy_row_error)

lemma update_rows_from_empty:
  "(case rfold (update_node_row (csr_of []) (\<lambda>d i. Inr (adj_row d))) m st of Inl e \<Rightarrow> e = Undefined_behaviour | Inr st' \<Rightarrow> m \<noteq> [] \<or> 0 < fst st \<longrightarrow> 0 < fst st')"
proof (induction m arbitrary: st)
  case (Cons a m)
  obtain k d where a: "a = (k, d)" by (cases a)
  obtain n new where st: "st = (n, new)" by (cases st)
  have "update_node_row (csr_of []) (\<lambda>d i. Inr (adj_row d)) a st = Inl Undefined_behaviour \<or>
      (\<exists>new'. update_node_row (csr_of []) (\<lambda>d i. Inr (adj_row d)) a st = Inr (max n k + 1, new'))"
    using copy_rows_error [of "[n..<k]" new] by (auto simp: update_node_row_def a st adj_row_def)
  then show ?case
  proof
    assume "\<exists>new'. update_node_row (csr_of []) (\<lambda>d i. Inr (adj_row d)) a st = Inr (max n k + 1, new')"
    then obtain new' where "update_node_row (csr_of []) (\<lambda>d i. Inr (adj_row d)) a st = Inr (max n k + 1, new')" by blast
    then show ?thesis using Cons [of "(max n k + 1, new')"] by (auto split: sum.splits)
  qed simp
qed simp

text \<open>
  After a copy of a graph without nodes, every update that has records reads behind the end of the row offsets: the last node id of the copy, one less
  than zero, is taken for a node of the old copy.
\<close>

theorem csr_update_after_empty_graph:
  assumes "graph_db.more g = (s, v)" "g_current g th = Some tx" "xid tx = x" "ds_last_txn_id s \<noteq> UNKNOWN" "ds_last_txn_id s \<le> x"
    "kept_arrays s = csr_of []" "ds_last_node_id s = sub64 (length (row_offsets (csr_of []))) 2"
    "cv_wf (ds_delta_recs s)" "\<And>r. r \<in> set (recs_of s) \<Longrightarrow> rec_ok s r \<and> dr_node_id r < 2 ^ 64"
    "r \<in> set (recs_of s)" "eligible x s r"
  shows "fst (adj_csr_update_with_delta wk th csr_empty g) = Inl Undefined_behaviour"
proof -
  let ?N = "newest (filter (eligible x s) (recs_of s))"
  obtain m w where m: "adj_merge_deltas [] x s =
      Inr (m, if \<forall>r\<in>set (recs_of s). dr_txid r \<le> x then clear_deltas (s\<lparr>ds_delta_recs := w\<rparr>) else s\<lparr>ds_delta_recs := w\<rparr>)"
    "keys_sorted m" "map_of m = (\<lambda>n. map_option (rec_delta s) (?N n))" using adj_merge_run [OF assms(8), of x] assms(9) by blast
  define s1 where "s1 = (if \<forall>r\<in>set (recs_of s). dr_txid r \<le> x then clear_deltas (s\<lparr>ds_delta_recs := w\<rparr>) else s\<lparr>ds_delta_recs := w\<rparr>)"
  have s1: "kept_arrays s1 = csr_of []" "ds_last_node_id s1 = UNKNOWN"
    using assms(6,7) by (simp_all add: s1_def clear_deltas_def kept_arrays_def csr_simps sub64_def UNKNOWN_def)
  have "?N (dr_node_id r) \<noteq> None" using assms(10,11) newest_None [of "filter (eligible x s) (recs_of s)"] by auto
  then have ne: "m \<noteq> []" using m(3) by (auto simp: fun_eq_iff)
  have "k \<le> UNKNOWN" if "(k, d) \<in> set m" for k d
  proof -
    have "k \<in> dom (map_of m)" using that weak_map_of_SomeI [of k d m] by blast
    then obtain t where "?N k = Some t" using m(3) by auto
    then show ?thesis using newest_Some [of "filter (eligible x s) (recs_of s)" k t] assms(9) [of t] by (auto simp: UNKNOWN_def)
  qed
  then have tw: "takeWhile (\<lambda>(k, _). k \<le> UNKNOWN) m = m" by (auto simp: takeWhile_eq_all_conv)
  have "copy_rest (csr_of []) st = Inl Undefined_behaviour" if "0 < fst st" for st
    using that by (cases st) (simp add: copy_rest_def csr_simps vec_get_def)
  then have "update_arrays (csr_of []) UNKNOWN (\<lambda>d i. Inr (adj_row d)) adj_row m csr_empty = Inl Undefined_behaviour"
    using update_rows_from_empty [of m "(0, csr_of [])"] ne
    by (auto simp: update_arrays_def tw csr_start split: sum.splits)
  then show ?thesis using assms(1-5) m(1) ne s1
    by (simp add: adj_csr_update_with_delta_def update_from_store_def sbind_def check_run get_local_run srun_def upd_local_run Let_def flip: s1_def)
qed

theorem csr_update_after_empty_graph_witness:
  "fst (adj_csr_update_with_delta 1 1 csr_empty (with_more (pair_store [pair_rec] [], ()) pair_demo)) = Inl Undefined_behaviour"
  using csr_update_after_empty_graph [where g = "with_more (pair_store [pair_rec] [], ()) pair_demo" and s = "pair_store [pair_rec] []" and v = "()" and
      th = 1 and tx = "transaction_new 5" and x = 5 and wk = 1 and r = pair_rec] pair_demo_sel
  by (simp add: pair_store_sel pair_store_recs pair_rec_ok pair_store_wf csr_simps UNKNOWN_def)

text \<open>
  A node in use that the transaction cannot read, for example because it was inserted by another transaction that is still running or deleted by one
  that has committed, makes the whole build fail; a scan of the query context skips such nodes.
\<close>

theorem csr_build_throws:
  assumes "\<And>u. u < k \<Longrightarrow> seen_row x wk w bi g u (A u) \<or> cv_is_used (g_nodes g) u = Inr False \<and> A u = []"
    "g_current g th = Some tx" "xid tx = x" "k < num_slots g"
    "holds (g_nodes g) k n" "get_valid_node_version x (touch x n) = Inl e"
  shows "fst (host_csr_build wk th csr_empty w bi g) = Inl e"
proof -
  let ?l = "csr_arrays.extend (csr_empty\<lparr>row_offsets := row_offsets csr_empty @ [0]\<rparr>) (csr_vars.fields 0)"
  have l: "?l = build_vars [] []" by (simp add: build_vars_def csr_empty_def csr_of_def csr_arrays.defs csr_vars.defs)
  let ?g = "with_more (build_vars [] [], graph_db.more g) g"
  have "\<exists>g'. for_each (csr_node wk th x w bi) [0..<k] ?g = (Inr (), g') \<and> reads_only x th ?g g' \<and>
      graph_db.more g' = (build_vars ([] @ map A [0..<k]) [], graph_db.more g)"
    by (rule csr_nodes_run) (use assms(1-3) in \<open>auto simp: seen_row_def\<close>)
  then obtain g' where g': "for_each (csr_node wk th x w bi) [0..<k] ?g = (Inr (), g')" "reads_only x th g g'" by (auto simp: reads_only_def)
  then obtain n' where n': "holds (g_nodes g') k n'" "touch x n' = touch x n" "g_current g' th = Some tx"
    using assms(2,5) unfolding reads_only_def same_db_def same_table_def by metis
  have "fst (csr_node wk th x w bi k g') = Inl e"
    using node_by_id_run [OF n'(1,3)] n'(2) assms(3,6) is_used_holds [OF n'(1)] by (simp add: csr_node_def sbind_def)
  moreover have "[0..<num_slots g] = [0..<k] @ k # [Suc k..<num_slots g]" using assms(4) by (intro upt_cut) auto
  ultimately have "fst (for_each (csr_node wk th x w bi) [0..<num_slots g] ?g) = Inl e"
    using g'(1) by (cases "csr_node wk th x w bi k g'") (simp add: for_each_append sbind_def)
  then show ?thesis unfolding host_csr_build_def l using assms(2,3)
    by (cases "for_each (csr_node wk th x w bi) [0..<num_slots g] ?g")
      (simp add: sbind_def current_xid_def max_num_nodes_def with_local_def num_slots_def)
qed

text \<open>A node inserted by another transaction that is still running: locked, with a version that is not valid for transaction 5.\<close>

definition locked_node :: node where
  "locked_node = \<lparr>o_elem = (node_elem_demo 9 9 INF_TS False)\<lparr>rts := 5\<rparr>, o_list = None\<rparr>"

definition locked_nodes :: "node cvec" where
  "locked_nodes = \<lparr>capacity = 1, available_slots = 0, elems_per_chunk = 1,
     chunk_list = [\<lparr>ch_data = [locked_node], ch_slots = [True], ch_first = 1\<rparr>], free_list = []\<rparr>"

lemma locked_holds: "holds locked_nodes 0 locked_node"
proof -
  have "cv_wf locked_nodes" by (auto simp: cv_wf_def locked_nodes_def chunk_inv_def free_count_def)
  then show ?thesis by (simp add: holds_def cv_view_eq) (simp add: locked_nodes_def)
qed

theorem csr_build_throws_witness:
  "fst (host_csr_build 1 1 csr_empty (\<lambda>_. 0) False (pair_demo\<lparr>g_nodes := locked_nodes\<rparr>)) = Inl Unknown_id"
proof (rule csr_build_throws [where k = 0 and tx = "transaction_new 5" and x = 5 and n = locked_node])
  have "\<not> chunk_is_empty \<lparr>ch_data = [locked_node], ch_slots = [True], ch_first = 1\<rparr>" by (auto simp: chunk_is_empty_def intro: exI [of _ True])
  then show "0 < num_slots (pair_demo\<lparr>g_nodes := locked_nodes\<rparr>)"
    by (simp add: num_slots_def locked_nodes_def cv_last_used_def chunk_last_used_def)
  show "get_valid_node_version 5 (touch 5 locked_node) = Inl Unknown_id"
    by (simp add: locked_node_def node_elem_demo_def get_valid_node_version_def touch_def set_rts_def prepare_def is_locked_by_def is_locked_def find_valid_version_def has_dirty_versions_def versions_def)
qed (use locked_holds pair_demo_sel in simp_all)

text \<open>
  A record is read back: storing the neighbours of a node adds a record with their ids and weights, and the slices of earlier records stay the same.
  The number of neighbours must fit the \<open>int\<close> of the record.
\<close>

theorem store_delta_read:
  assumes "cv_inv (ds_delta_recs s)" "as_next_pos s = length (as_ids s)" "length (as_weights s) = length (as_ids s)" "length ws = length ids"
    "length ids < 2 ^ 31"
  shows "\<exists>s' i r. store_delta txid nid ids ws s = Inr s' \<and> cv_view (ds_delta_recs s) i = None \<and>
    cv_view (ds_delta_recs s') = (cv_view (ds_delta_recs s))(i \<mapsto> r) \<and> dr_txid r = txid \<and> dr_node_id r = nid \<and> rec_ok s' r \<and>
    rec_delta s' r = \<lparr>ad_ids = ids, ad_weights = ws\<rparr> \<and> (\<forall>t. rec_ok s t \<longrightarrow> rec_ok s' t \<and> rec_delta s' t = rec_delta s t) \<and>
    cv_inv (ds_delta_recs s') \<and> as_next_pos s' = length (as_ids s') \<and> length (as_weights s') = length (as_ids s')"
proof -
  let ?r = "adj_rec_new txid nid (length (as_ids s)) (int (length ids))"
  have c: "int32 (length ids) = int (length ids)" using assms(5) by (simp add: int32_def)
  obtain v i where v: "cv_store (adj_rec_new 0 0 0 0) (ds_delta_recs s) ?r = Inr (v, i)" "cv_inv v" "cv_view (ds_delta_recs s) i = None"
    "cv_view v = (cv_view (ds_delta_recs s))(i \<mapsto> ?r)" using cv_store_spec [OF assms(1)] by metis
  have "store_delta txid nid ids ws s = Inr (s\<lparr>as_next_pos := length (as_ids s) + length ids, as_ids := as_ids s @ ids, as_weights := as_weights s @ ws,
      ds_delta_recs := v, ds_num_delta_recs := ds_num_delta_recs s + 1\<rparr>)"
    using v(1) c assms(2) by (simp add: store_delta_def put_rec_def Let_def)
  then show ?thesis using v assms(3,4)
    by (intro exI [of _ "s\<lparr>as_next_pos := length (as_ids s) + length ids, as_ids := as_ids s @ ids, as_weights := as_weights s @ ws,
      ds_delta_recs := v, ds_num_delta_recs := ds_num_delta_recs s + 1\<rparr>"] exI [of _ i] exI [of _ ?r])
      (auto simp: rec_ok_def rec_delta_def adj_rec_new_def)
qed

theorem store_delta_read_witness:
  "\<exists>s' i r. store_delta 7 0 [1, 2] [0, 0] (adj_store_new 2) = Inr s' \<and> cv_view (ds_delta_recs s') i = Some r \<and>
    rec_delta s' r = \<lparr>ad_ids = [1, 2], ad_weights = [0, 0]\<rparr>"
proof -
  have "cv_inv (cv_empty 2 :: adj_rec cvec)" by (simp add: cv_inv_def cv_wf_def fl_ok_def cv_empty_def)
  then show ?thesis using store_delta_read [of "adj_store_new 2" "[0, 0]" "[1, 2]" 7 0]
    by (fastforce simp: adj_store_new_def delta_store_new_def delta_store.defs adj_store.defs)
qed

text \<open>The relationships of a list as the table has them.\<close>

fun table_chain :: "(rship_body \<Rightarrow> offset_t) \<Rightarrow> rship cvec \<Rightarrow> offset_t \<Rightarrow> (offset_t \<times> rship_body elem) list \<Rightarrow> bool" where
  "table_chain nxt v i [] \<longleftrightarrow> i = UNKNOWN"
| "table_chain nxt v i ((j, e) # cs) \<longleftrightarrow> i = j \<and> i \<noteq> UNKNOWN \<and> (\<exists>r. holds v i r \<and> o_elem r = e) \<and> table_chain nxt v (nxt (body e)) cs"

lemma delta_neighbours_run:
  "table_chain nxt v i cs \<Longrightarrow> length cs \<le> fuel \<Longrightarrow> delta_neighbours fuel nxt far w gone i v =
    (let ks = filter (\<lambda>(j, _). j \<notin> set gone) cs in Inr (map (\<lambda>(_, e). far (body e)) ks, map (\<lambda>(_, e). w e) ks))"
proof (induction cs arbitrary: i fuel)
  case Nil
  then show ?case by (subst delta_neighbours.simps) simp
next
  case (Cons c cs)
  obtain j e where c: "c = (j, e)" by (cases c)
  obtain r where r: "i = j" "i \<noteq> UNKNOWN" "holds v i r" "o_elem r = e" "table_chain nxt v (nxt (body e)) cs" using Cons.prems(1) by (auto simp: c)
  obtain k where k: "fuel = Suc k" using Cons.prems(2) by (cases fuel) auto
  show ?case using Cons.IH [OF r(5), of k] Cons.prems(2) r holds_get [OF r(3)]
    by (subst delta_neighbours.simps) (simp add: k c Let_def)
qed

text \<open>
  The record a commit stores for a node has the other ends of all relationships that are in its list in the table, except those the transaction itself has deleted.
  A relationship that an earlier transaction has deleted stays in the list until the garbage collector unlinks it: the record has it, although no later
  transaction sees it.
\<close>

theorem commit_delta_stale:
  assumes "holds (g_nodes g) u n" "table_chain rs_next_src (g_rships g) (nd_from_rships (body (o_elem n))) cs" "length cs \<le> capacity (g_rships g)"
    "u \<notin> set (ai_deleted_nodes t)" "\<not> ds_bidirectional s" "(i, e) \<in> set cs" "i \<notin> set (ai_deleted_rships t)" "cts e \<le> x" "vol e \<noteq> None"
  shows "\<not> is_valid_for x e \<and> (\<exists>ids ws. node_delta t s u g = Inr (ids, ws) \<and> rs_dest_node (body e) \<in> set ids)"
  using assms delta_neighbours_run [OF assms(2,3), of rs_dest_node "ds_weight_func s" "ai_deleted_rships t"] holds_get [OF assms(1)]
  by (force simp: node_delta_def is_valid_for_def Let_def)

definition gone_rship :: rship where
  "gone_rship = pair_rship\<lparr>o_elem := (o_elem pair_rship)\<lparr>cts := 4\<rparr>\<rparr>"

definition gone_rships :: "rship cvec" where
  "gone_rships = \<lparr>capacity = 1, available_slots = 0, elems_per_chunk = 1,
     chunk_list = [\<lparr>ch_data = [gone_rship], ch_slots = [True], ch_first = 1\<rparr>], free_list = []\<rparr>"

lemma gone_holds: "holds gone_rships 0 gone_rship"
proof -
  have "cv_wf gone_rships" by (auto simp: cv_wf_def gone_rships_def chunk_inv_def free_count_def)
  then show ?thesis by (simp add: holds_def cv_view_eq) (simp add: gone_rships_def)
qed

theorem commit_delta_stale_witness:
  "\<not> is_valid_for 5 (o_elem gone_rship) \<and>
   (\<exists>ids ws. node_delta adj_delta_ids_new (adj_store_new 1) 0 (pair_demo\<lparr>g_rships := gone_rships\<rparr>) = Inr (ids, ws) \<and> 1 \<in> set ids)"
proof -
  have s: "\<not> ds_bidirectional (adj_store_new 1)" by (simp add: adj_store_new_def delta_store_new_def delta_store.defs)
  have e: "rs_next_src (body (o_elem gone_rship)) = UNKNOWN" "rs_dest_node (body (o_elem gone_rship)) = 1" "cts (o_elem gone_rship) = 4" "vol (o_elem gone_rship) \<noteq> None"
    by (simp_all add: gone_rship_def pair_rship_def rship_item_def)
  from commit_delta_stale [of "pair_demo\<lparr>g_rships := gone_rships\<rparr>" 0 "pair_node 0 0 UNKNOWN" "[(0, o_elem gone_rship)]" adj_delta_ids_new "adj_store_new 1" 0
      "o_elem gone_rship" 5]
  show ?thesis using pair_holds(1) gone_holds s e by (auto simp: pair_demo_def adj_delta_ids_new_def UNKNOWN_def gone_rships_def)
qed

section \<open>Inserted and deleted neighbours\<close>

definition diff_rows :: "csr_row list \<Rightarrow> diff_delta \<Rightarrow> nat \<Rightarrow> csr_row" where
  "diff_rows rows d i = map (map_prod id rnd32) (filter (\<lambda>(k, _). k \<notin> set (fd_deletes d)) (rows ! i @ zip (fd_inserts d) (fd_weights d)))"

lemma diff_row_run:
  "i < length rows \<Longrightarrow> length (fd_weights d) = length (fd_inserts d) \<Longrightarrow>
   diff_row (csr_of rows) d i = Inr (map fst (diff_rows rows d i), map snd (diff_rows rows d i))"
  by (simp add: diff_row_def old_row_csr diff_rows_def Let_def zip_map_fst_snd comp_def)

interpretation diff: delta_rows diff_row diff_rows diff_new_row "\<lambda>d. zip (fd_inserts d) (map rnd32 (fd_weights d))"
    "\<lambda>d. length (fd_weights d) = length (fd_inserts d)"
  by unfold_locales (simp_all add: diff_row_run diff_new_row_def)

text \<open>
  With records of differences, the new row of a node has the old neighbours and the inserted ones, without every entry whose node is among the
  deleted ones. So the deletion of one of two parallel relationships removes both, and whether the node itself was deleted makes no difference.
\<close>

theorem diff_update_rows:
  assumes "keys_sorted m" "rows \<noteq> []" "\<And>k d. (k, d) \<in> set m \<Longrightarrow> length (fd_weights d) = length (fd_inserts d)"
  shows "update_arrays (csr_of rows) (length rows - 1) (diff_row (csr_of rows)) diff_new_row m csr_empty =
    Inr (csr_of (new_rows (diff_rows rows) (\<lambda>d. zip (fd_inserts d) (map rnd32 (fd_weights d))) rows m))"
  by (rule diff.update_read [OF assms])

theorem diff_update_rows_witness:
  "update_arrays (csr_of [[(1, 0), (1, 0)], []]) 1 (diff_row (csr_of [[(1, 0), (1, 0)], []])) diff_new_row
     [(0, (diff_delta_new True)\<lparr>fd_deletes := [1]\<rparr>)] csr_empty = Inr (csr_of [[], []]) \<and>
   update_arrays (csr_of [[(1, 0), (1, 0)], []]) 1 (diff_row (csr_of [[(1, 0), (1, 0)], []])) diff_new_row
     [(0, diff_delta_new True)] csr_empty = Inr (csr_of [[(1, rnd32 0), (1, rnd32 0)], []])"
  using diff_update_rows [of "[(0, (diff_delta_new True)\<lparr>fd_deletes := [1]\<rparr>)]" "[[(1, 0), (1, 0)], []]"]
    diff_update_rows [of "[(0, diff_delta_new True)]" "[[(1, 0), (1, 0)], []]"]
  by (simp add: keys_sorted_def diff_delta_new_def new_rows_def end_of_def pick_def diff_rows_def upt_rec)

end
