(* ===== verification/Graph_Import.thy ===== *)
theory Graph_Import
  imports Graph_Index Csr_Props
begin

text \<open>
  Import of nodes and relationships, \<^verbatim>\<open>src/src/storage/graph_db_import.cpp\<close>: single objects, typed or not, and CSV files. The CSV parser
  is outside the repository; a file is the list of its rows, or \<open>None\<close> if it cannot be opened. The conversions of fractions and of dates can fail and are
  parameters (\<open>iconv\<close>). Nothing here runs in a transaction. The mutex argument is null, as in all calls of the repository.
\<close>

section \<open>Conversions\<close>

record iconv =
  ic_conv :: conv
  ic_stod :: "string \<Rightarrow> 64 word result"
  ic_date :: "string \<Rightarrow> 64 word result"
  ic_time :: "string \<Rightarrow> 64 word result"

text \<open>The longest number at the start of a string, after blanks and a sign, as \<open>std::stoi\<close>, \<open>std::stoll\<close> and \<open>std::stoull\<close> read it.\<close>

definition is_blank :: "char \<Rightarrow> bool" where
  "is_blank c = ((of_char c :: nat) = 32 \<or> 9 \<le> (of_char c :: nat) \<and> (of_char c :: nat) \<le> 13)"

definition int_prefix :: "string \<Rightarrow> int result" where
  "int_prefix s =
     (let t = dropWhile is_blank s;
          neg = (t \<noteq> [] \<and> hd t = CHR ''-'');
          u = (if t \<noteq> [] \<and> (hd t = CHR ''-'' \<or> hd t = CHR ''+'') then tl t else t);
          ds = takeWhile is_digit u in
      if ds = [] then Inl Std_invalid_argument
      else Inr (if neg then - int (nat_of_digits ds) else int (nat_of_digits ds)))"

definition text_stoi :: "string \<Rightarrow> int result" where
  "text_stoi s = rbind (int_prefix s) (\<lambda>i. if - (2 ^ 31) \<le> i \<and> i < 2 ^ 31 then Inr i else Inl Std_out_of_range)"

definition text_stoll :: "string \<Rightarrow> int result" where
  "text_stoll s = rbind (int_prefix s) (\<lambda>i. if - (2 ^ 63) \<le> i \<and> i < 2 ^ 63 then Inr i else Inl Std_out_of_range)"

definition text_stoull :: "string \<Rightarrow> 64 word result" where
  "text_stoull s = rbind (int_prefix s) (\<lambda>i. if \<bar>i\<bar> < 2 ^ 64 then Inr (word_of_int i) else Inl Std_out_of_range)"

text \<open>Writing at the position of a \<open>T\<close> that is not there is undefined.\<close>

definition text_time :: "iconv \<Rightarrow> string \<Rightarrow> 64 word result" where
  "text_time ic s = (if CHR ''T'' \<in> set s then ic_time ic (dtime_text s) else Inl Undefined_behaviour)"

text \<open>The dates of \<open>p_date\<close> have the type code \<open>P_unused\<close>.\<close>

definition string_to_any :: "iconv \<Rightarrow> hash \<Rightarrow> p_typecode \<Rightarrow> string \<Rightarrow> dict \<Rightarrow> (dict \<times> any_val option) result" where
  "string_to_any ic h tc s d =
     (case tc of
        P_dcode \<Rightarrow> rbind (dict_insert h s d) (\<lambda>(d', c). Inr (d', Some (Any_dcode c)))
      | P_int \<Rightarrow> rbind (text_stoi s) (\<lambda>i. Inr (d, Some (Any_int i)))
      | P_uint64 \<Rightarrow> rbind (text_stoull s) (\<lambda>u. Inr (d, Some (Any_uint64 u)))
      | P_double \<Rightarrow> rbind (ic_stod ic s) (\<lambda>x. Inr (d, Some (Any_double x)))
      | P_unused \<Rightarrow> rbind (ic_date ic s) (\<lambda>t. Inr (d, Some (Any_ptime t)))
      | P_ptime \<Rightarrow> rbind (text_time ic s) (\<lambda>t. Inr (d, Some (Any_ptime t)))
      | P_none \<Rightarrow> Inr (d, None))"

definition infer_datatype :: "iconv \<Rightarrow> hash \<Rightarrow> string \<Rightarrow> dict \<Rightarrow> (dict \<times> p_typecode \<times> any_val) result" where
  "infer_datatype ic h s d =
     (let code = rbind (dict_insert h s d) (\<lambda>(d', c). Inr (d', P_dcode, Any_dcode c)) in
      if is_quoted_string s then code
      else if is_int s then
        (case text_stoi s of
           Inr i \<Rightarrow> Inr (d, P_int, Any_int i)
         | Inl Std_out_of_range \<Rightarrow>
             (case text_stoull s of Inr u \<Rightarrow> Inr (d, P_uint64, Any_uint64 u) | Inl _ \<Rightarrow> Inr (d, P_int, Any_int 0))
         | Inl e \<Rightarrow> Inl e)
      else if is_float s then rbind (ic_stod ic s) (\<lambda>x. Inr (d, P_double, Any_double x))
      else if is_date s then rbind (ic_date ic s) (\<lambda>t. Inr (d, P_unused, Any_ptime t))
      else if is_dtime s then rbind (ic_time ic (dtime_text s)) (\<lambda>t. Inr (d, P_ptime, Any_ptime t))
      else code)"

definition get_datatype :: "string \<Rightarrow> p_typecode" where
  "get_datatype s =
     (if is_quoted_string s then P_dcode else if is_uint64 s then P_uint64 else if is_int s then P_int
      else if is_float s then P_double else if is_date s then P_unused else if is_dtime s then P_ptime else P_dcode)"

text \<open>The item of a typed column from its text.\<close>

definition pi_of_text :: "iconv \<Rightarrow> hash \<Rightarrow> dcode_t \<Rightarrow> p_typecode \<Rightarrow> string \<Rightarrow> dict \<Rightarrow> (dict \<times> p_item) result" where
  "pi_of_text ic h k tc s d =
     (let p = \<lparr>pi_value = 0, pi_key = k, pi_type = P_none\<rparr> in
      case tc of
        P_int \<Rightarrow> rbind (text_stoi s) (\<lambda>i. Inr (d, pi_set_int i p))
      | P_double \<Rightarrow> rbind (ic_stod ic s) (\<lambda>x. Inr (d, pi_set_double x p))
      | P_dcode \<Rightarrow> rbind (dict_insert h s d) (\<lambda>(d', c). Inr (d', pi_set_dcode c p))
      | P_uint64 \<Rightarrow> rbind (text_stoull s) (\<lambda>u. Inr (d, pi_set_uint64 u p))
      | P_ptime \<Rightarrow> rbind (text_time ic s) (\<lambda>t. Inr (d, pi_set_ptime t p))
      | P_unused \<Rightarrow> rbind (ic_date ic s) (\<lambda>t. Inr (d, pi_set_ptime t p))
      | P_none \<Rightarrow> Inr (d, p))"

section \<open>Properties\<close>

text \<open>
  \<open>append_properties\<close> and \<open>append_typed_properties\<close> as actions, because an exception is caught by the import, which goes on with what has been
  stored by then; \<open>put\<close> appends a property set to one of the two tables.
\<close>

definition append_nprops :: "property_set \<Rightarrow> ('q, offset_t) gact" where
  "append_nprops x = nprops_act (\<lambda>v. cv_append ps_blank v x)"

definition append_rprops :: "property_set \<Rightarrow> ('q, offset_t) gact" where
  "append_rprops x = rprops_act (\<lambda>v. cv_append ps_blank v x)"

fun append_props :: "conv \<Rightarrow> hash \<Rightarrow> (property_set \<Rightarrow> ('q, offset_t) gact) \<Rightarrow> offset_t \<Rightarrow> offset_t \<Rightarrow> p_item list \<Rightarrow> properties_t \<Rightarrow> ('q, offset_t) gact" where
  "append_props cv h put nid next_id pil [] = sret next_id"
| "append_props cv h put nid next_id pil ((k, a) # kvs) =
     sbind (dict_act (pi_of_kv cv h k a)) (\<lambda>p.
     let pil' = pil @ [p] in
     if kvs = [] \<or> length pil' = 3
     then sbind (put (ps_make nid pil' next_id)) (\<lambda>i. append_props cv h put nid i [] kvs)
     else append_props cv h put nid next_id pil' kvs)"

fun append_typed :: "(dcode_t \<Rightarrow> p_typecode \<Rightarrow> 'v \<Rightarrow> ('q, p_item) gact) \<Rightarrow> ('v \<Rightarrow> bool) \<Rightarrow> (property_set \<Rightarrow> ('q, offset_t) gact) \<Rightarrow>
    offset_t \<Rightarrow> offset_t \<Rightarrow> p_item list \<Rightarrow> dcode_t list \<Rightarrow> p_typecode list \<Rightarrow> 'v list \<Rightarrow> ('q, offset_t) gact" where
  "append_typed item skip put nid next_id pil [] types values = sret next_id"
| "append_typed item skip put nid next_id pil (k # keys) types values =
     (case values of [] \<Rightarrow> sthrow Undefined_behaviour
      | v # vs \<Rightarrow>
          if skip v then append_typed item skip put nid next_id pil keys (tl types) vs
          else (case types of [] \<Rightarrow> sthrow Undefined_behaviour
            | t # ts \<Rightarrow>
                sbind (item k t v) (\<lambda>p.
                let pil' = pil @ [p] in
                if keys = [] \<or> length pil' = 3
                then sbind (put (ps_make nid pil' next_id)) (\<lambda>i. append_typed item skip put nid i [] keys ts vs)
                else append_typed item skip put nid next_id pil' keys ts vs)))"

definition any_item :: "dcode_t \<Rightarrow> p_typecode \<Rightarrow> any_val option \<Rightarrow> ('q, p_item) gact" where
  "any_item k tc v = srun (case v of None \<Rightarrow> Inl Bad_any_cast | Some a \<Rightarrow> pi_typed k tc a)"

definition text_item :: "iconv \<Rightarrow> hash \<Rightarrow> dcode_t \<Rightarrow> p_typecode \<Rightarrow> string \<Rightarrow> ('q, p_item) gact" where
  "text_item ic h k tc s = dict_act (pi_of_text ic h k tc s)"

section \<open>Nodes and relationships\<close>

definition import_node_with :: "dcode_t \<Rightarrow> bool \<Rightarrow> (offset_t \<Rightarrow> ('q, offset_t) gact) \<Rightarrow> ('q, offset_t) gact" where
  "import_node_with c has_props props =
     sbind (put_new_node True (node_new c) 0) (\<lambda>i.
     sbind (get_node i) (\<lambda>_.
     sbind (if has_props then sbind (props i) (\<lambda>pid. upd_node_body i Main (\<lambda>b. b\<lparr>nd_property_list := pid\<rparr>)) else sret ()) (\<lambda>_.
     sret i)))"

definition import_node :: "iconv \<Rightarrow> hash \<Rightarrow> string \<Rightarrow> properties_t \<Rightarrow> ('q, offset_t) gact" where
  "import_node ic h label props =
     sbind (dict_act (dict_insert h label)) (\<lambda>c.
     import_node_with c (props \<noteq> []) (\<lambda>i. append_props (ic_conv ic) h append_nprops i UNKNOWN [] props))"

definition import_typed_node_any :: "dcode_t \<Rightarrow> dcode_t list \<Rightarrow> p_typecode list \<Rightarrow> any_val option list \<Rightarrow> ('q, offset_t) gact" where
  "import_typed_node_any label keys types values =
     import_node_with label (keys \<noteq> []) (\<lambda>i. append_typed any_item (\<lambda>v. v = None) append_nprops i UNKNOWN [] keys types values)"

definition import_typed_node :: "iconv \<Rightarrow> hash \<Rightarrow> dcode_t \<Rightarrow> dcode_t list \<Rightarrow> p_typecode list \<Rightarrow> string list \<Rightarrow> ('q, offset_t) gact" where
  "import_typed_node ic h label keys types values =
     import_node_with label (keys \<noteq> []) (\<lambda>i. append_typed (text_item ic h) (\<lambda>s. s = []) append_nprops i UNKNOWN [] keys types values)"

text \<open>The new relationship becomes the first of both lists.\<close>

definition link_first :: "offset_t \<Rightarrow> offset_t \<Rightarrow> offset_t \<Rightarrow> ('q, unit) gact" where
  "link_first from_id to_id rid =
     sbind (get_node from_id) (\<lambda>n.
     let old = nd_from_rships (body (o_elem n)) in
     sbind (if old = UNKNOWN then sret () else upd_rship_body rid Main (\<lambda>b. b\<lparr>rs_next_src := old\<rparr>)) (\<lambda>_.
     sbind (upd_node_body from_id Main (\<lambda>b. b\<lparr>nd_from_rships := rid\<rparr>)) (\<lambda>_.
     sbind (get_node to_id) (\<lambda>n.
     let old = nd_to_rships (body (o_elem n)) in
     sbind (if old = UNKNOWN then sret () else upd_rship_body rid Main (\<lambda>b. b\<lparr>rs_next_dest := old\<rparr>)) (\<lambda>_.
     upd_node_body to_id Main (\<lambda>b. b\<lparr>nd_to_rships := rid\<rparr>))))))"

definition import_rship_with :: "offset_t \<Rightarrow> offset_t \<Rightarrow> ('q, dcode_t) gact \<Rightarrow> bool \<Rightarrow> (offset_t \<Rightarrow> ('q, offset_t) gact) \<Rightarrow> ('q, offset_t) gact" where
  "import_rship_with from_id to_id label has_props props =
     sbind (get_node from_id) (\<lambda>_.
     sbind (get_node to_id) (\<lambda>_.
     sbind label (\<lambda>c.
     sbind (put_new_rship True (rship_new c from_id to_id) 0) (\<lambda>rid.
     sbind (get_rship rid) (\<lambda>_.
     sbind (if has_props then sbind (props rid) (\<lambda>pid. upd_rship_body rid Main (\<lambda>b. b\<lparr>rs_property_list := pid\<rparr>)) else sret ()) (\<lambda>_.
     sbind (link_first from_id to_id rid) (\<lambda>_. sret rid)))))))"

definition import_relationship :: "iconv \<Rightarrow> hash \<Rightarrow> offset_t \<Rightarrow> offset_t \<Rightarrow> string \<Rightarrow> properties_t \<Rightarrow> ('q, offset_t) gact" where
  "import_relationship ic h from_id to_id label props =
     import_rship_with from_id to_id (dict_act (dict_insert h label)) (props \<noteq> [])
       (\<lambda>i. append_props (ic_conv ic) h append_rprops i UNKNOWN [] props)"

definition import_typed_relationship_any :: "offset_t \<Rightarrow> offset_t \<Rightarrow> dcode_t \<Rightarrow> dcode_t list \<Rightarrow> p_typecode list \<Rightarrow> any_val option list \<Rightarrow> ('q, offset_t) gact" where
  "import_typed_relationship_any from_id to_id label keys types values =
     import_rship_with from_id to_id (sret label) (keys \<noteq> [])
       (\<lambda>i. append_typed any_item (\<lambda>v. v = None) append_rprops i UNKNOWN [] keys types values)"

definition import_typed_relationship :: "iconv \<Rightarrow> hash \<Rightarrow> offset_t \<Rightarrow> offset_t \<Rightarrow> dcode_t \<Rightarrow> dcode_t list \<Rightarrow> p_typecode list \<Rightarrow> string list \<Rightarrow> ('q, offset_t) gact" where
  "import_typed_relationship ic h from_id to_id label keys types values =
     import_rship_with from_id to_id (sret label) (keys \<noteq> [])
       (\<lambda>i. append_typed (text_item ic h) (\<lambda>s. s = []) append_rprops i UNKNOWN [] keys types values)"

section \<open>Node files\<close>

type_synonym mapping_t = "string \<Rightarrow> offset_t option"
type_synonym csv_file = "string list list option"

text \<open>\<open>try ... catch (std::exception&)\<close>: what is not an exception is not caught.\<close>

definition std_exception :: "exn \<Rightarrow> bool" where
  "std_exception e = (e \<noteq> Assertion_failed \<and> e \<noteq> Undefined_behaviour \<and> e \<noteq> Diverges)"

definition try_import :: "('s, 'a) action \<Rightarrow> ('s, 'a option) action" where
  "try_import act s = (case act s of (Inr x, s') \<Rightarrow> (Inr (Some x), s') | (Inl e, s') \<Rightarrow> if std_exception e then (Inr None, s') else (Inl e, s'))"

text \<open>\<open>insert\<close> of the mapping keeps an entry that is there.\<close>

definition map_insert :: "string \<Rightarrow> offset_t \<Rightarrow> mapping_t option \<Rightarrow> mapping_t option" where
  "map_insert k i m = map_option (\<lambda>t. if t k = None then t(k \<mapsto> i) else t) m"

text \<open>\<open>props.insert\<close> into a \<open>std::map\<close>, which is ordered by the keys.\<close>

fun str_less :: "string \<Rightarrow> string \<Rightarrow> bool" where
  "str_less s [] = False"
| "str_less [] (b # bs) = True"
| "str_less (a # as) (b # bs) = ((of_char a :: nat) < of_char b \<or> a = b \<and> str_less as bs)"

fun props_insert :: "string \<Rightarrow> any_val \<Rightarrow> properties_t \<Rightarrow> properties_t" where
  "props_insert k a [] = [(k, a)]"
| "props_insert k a ((l, b) # ps) =
     (if k = l then (l, b) # ps else if str_less k l then (k, a) # (l, b) # ps else (l, b) # props_insert k a ps)"

fun row_props :: "string list \<Rightarrow> string list \<Rightarrow> properties_t \<Rightarrow> properties_t result" where
  "row_props columns [] ps = Inr ps"
| "row_props [] (f # fs) ps = Inl Undefined_behaviour"
| "row_props (c # cs) (f # fs) ps = row_props cs fs (if c \<noteq> [] \<and> f \<noteq> [] then props_insert c (Any_string f) ps else ps)"

text \<open>The variable \<open>id_label\<close> of this function is never assigned.\<close>

fun import_node_rows :: "iconv \<Rightarrow> hash \<Rightarrow> string \<Rightarrow> string list \<Rightarrow> string list list \<Rightarrow> nat \<Rightarrow> mapping_t option \<Rightarrow> ('q, nat \<times> mapping_t option) gact" where
  "import_node_rows ic h label columns [] num m = sret (num, m)"
| "import_node_rows ic h label columns (row # rows) num m =
     (if num = 0 then import_node_rows ic h label row rows (num + 1) m
      else
        sbind (srun (row_props columns row [])) (\<lambda>props.
        sbind (try_import (import_node ic h label props)) (\<lambda>r.
        case r of
          None \<Rightarrow> import_node_rows ic h label columns rows num m
        | Some i \<Rightarrow> import_node_rows ic h label columns rows (num + 1) (map_insert ([] @ ''_'' @ label) i m))))"

definition import_nodes_from_csv :: "iconv \<Rightarrow> hash \<Rightarrow> string \<Rightarrow> csv_file \<Rightarrow> mapping_t option \<Rightarrow> ('q, nat \<times> mapping_t option) gact" where
  "import_nodes_from_csv ic h label f m =
     (case f of None \<Rightarrow> sret (0, m)
      | Some rows \<Rightarrow> sbind (import_node_rows ic h label [] rows 0 m) (\<lambda>(num, m'). sret (if 0 < num then num - 1 else 0, m')))"

text \<open>The types of the columns: from the type specification or the field in the first row, later from the first field that is not empty.\<close>

record col_types =
  ct_types :: "p_typecode list"
  ct_inferred :: "bool list"

definition first_row_type :: "(string \<Rightarrow> p_typecode option) \<Rightarrow> string \<Rightarrow> string list \<Rightarrow> nat \<Rightarrow> string \<Rightarrow> col_types \<Rightarrow> col_types result" where
  "first_row_type ty label columns i field c =
     rbind (vec_get columns i) (\<lambda>col.
     Inr (if col \<noteq> [] \<and> field \<noteq> []
          then c\<lparr>ct_types := (ct_types c)[i := (case ty (label @ ''.'' @ col) of Some t \<Rightarrow> t | None \<Rightarrow> get_datatype field)],
                 ct_inferred := (ct_inferred c)[i := True]\<rparr>
          else c\<lparr>ct_types := (ct_types c)[i := P_dcode]\<rparr>))"

definition other_row_type :: "string list \<Rightarrow> nat \<Rightarrow> string \<Rightarrow> col_types \<Rightarrow> col_types result" where
  "other_row_type columns i field c =
     rbind (vec_get columns i) (\<lambda>col.
     Inr (if col \<noteq> [] \<and> field \<noteq> [] \<and> \<not> ct_inferred c ! i
          then c\<lparr>ct_types := (ct_types c)[i := get_datatype field], ct_inferred := (ct_inferred c)[i := True]\<rparr>
          else c))"

definition row_types :: "(nat \<Rightarrow> string \<Rightarrow> col_types \<Rightarrow> col_types result) \<Rightarrow> string list \<Rightarrow> col_types \<Rightarrow> col_types result" where
  "row_types step row c = rfold (\<lambda>(i, field). step i field) (List.enumerate 0 row) c"

definition row_id_label :: "string list \<Rightarrow> string list \<Rightarrow> string" where
  "row_id_label columns row = (case (columns, row) of (c # _, f # _) \<Rightarrow> if c \<noteq> [] then f else [] | _ \<Rightarrow> [])"

fun insert_codes :: "hash \<Rightarrow> string list \<Rightarrow> ('q, dcode_t list) gact" where
  "insert_codes h [] = sret []"
| "insert_codes h (s # ss) = sbind (dict_act (dict_insert h s)) (\<lambda>c. sbind (insert_codes h ss) (\<lambda>cs. sret (c # cs)))"

fun typed_node_rows :: "iconv \<Rightarrow> hash \<Rightarrow> string \<Rightarrow> (string \<Rightarrow> p_typecode option) \<Rightarrow> dcode_t \<Rightarrow> string list \<Rightarrow> dcode_t list \<Rightarrow> col_types \<Rightarrow>
    string list list \<Rightarrow> nat \<Rightarrow> mapping_t option \<Rightarrow> ('q, nat \<times> mapping_t option) gact" where
  "typed_node_rows ic h label ty lc columns names c [] num m = sret (sub64 num 1, m)"
| "typed_node_rows ic h label ty lc columns names c (row # rows) num m =
     sbind (srun (row_types (if num = 1 then first_row_type ty label columns else other_row_type columns) row c)) (\<lambda>c1.
     sbind (try_import (import_typed_node ic h lc names (ct_types c1) row)) (\<lambda>r.
     case r of
       None \<Rightarrow> sret (num - 1, m)
     | Some i \<Rightarrow> typed_node_rows ic h label ty lc columns names c1 rows (num + 1) (map_insert (row_id_label columns row @ ''_'' @ label) i m)))"

definition import_typed_nodes_from_csv :: "iconv \<Rightarrow> hash \<Rightarrow> string \<Rightarrow> csv_file \<Rightarrow> mapping_t option \<Rightarrow> (string \<Rightarrow> p_typecode option) \<Rightarrow> ('q, nat \<times> mapping_t option) gact" where
  "import_typed_nodes_from_csv ic h label f m ty =
     (case f of None \<Rightarrow> sret (0, m)
      | Some rows \<Rightarrow>
          sbind (dict_act (dict_insert h label)) (\<lambda>lc.
          case rows of [] \<Rightarrow> sret (sub64 0 1, m)
          | columns # rows' \<Rightarrow>
              sbind (insert_codes h columns) (\<lambda>names.
              typed_node_rows ic h label ty lc columns names
                \<lparr>ct_types = replicate (length columns) P_none, ct_inferred = replicate (length columns) False\<rparr> rows' 1 m)))"

section \<open>Relationship files\<close>

text \<open>The first letter of the label is made a capital one.\<close>

definition capital :: "string \<Rightarrow> string" where
  "capital s = (case s of [] \<Rightarrow> [] | a # as \<Rightarrow> if 97 \<le> (of_char a :: nat) \<and> (of_char a :: nat) \<le> 122 then char_of ((of_char a :: nat) - 32) # as else s)"

definition node_id_from_field :: "mapping_t \<Rightarrow> string \<Rightarrow> string \<Rightarrow> offset_t" where
  "node_id_from_field m s field = (case m (field @ ''_'' @ capital s) of None \<Rightarrow> UNKNOWN | Some i \<Rightarrow> i)"

text \<open>\<open>field.substr(1, field.length() - 2)\<close>\<close>

definition inner :: "string \<Rightarrow> string result" where
  "inner s = (if s = [] then Inl Std_out_of_range else Inr (take (sub64 (length s) 2) (tl s)))"

definition field_key :: "hash \<Rightarrow> string \<Rightarrow> ('q, 64 word option) gact" where
  "field_key h field =
     (if is_quoted_string field \<or> \<not> is_uint64 field
      then sbind (srun (inner field)) (\<lambda>s. sbind (get_code h s) (\<lambda>dc. sret (if dc = UNKNOWN_CODE then None else Some (of_nat dc))))
      else (case text_stoll field of Inr i \<Rightarrow> sret (Some (word_of_int i)) | Inl _ \<Rightarrow> sret None))"

definition node_id_from_db :: "hash \<Rightarrow> string \<Rightarrow> string \<Rightarrow> string \<Rightarrow> ('q, offset_t) gact" where
  "node_id_from_db h node_label column field =
     sbind (field_key h field) (\<lambda>k.
     case k of None \<Rightarrow> sret UNKNOWN
     | Some kval \<Rightarrow>
         sbind (has_index node_label column) (\<lambda>b.
         if b then sbind (get_index node_label column) (\<lambda>idx. node_id_from_index idx (unat kval))
         else sbind (get_code h node_label) (\<lambda>cl. sbind (get_code h column) (\<lambda>cp. get_node_id_for_property cl cp kval))))"

definition get_rship_node :: "string \<Rightarrow> string \<times> string" where
  "get_rship_node column =
     (let p = (\<lambda>c. c \<noteq> CHR ''_'' \<and> c \<noteq> CHR ''.'') in
      case dropWhile p column of [] \<Rightarrow> (column, []) | _ # r \<Rightarrow> (takeWhile p column, r))"

definition get_connected_node_ids :: "hash \<Rightarrow> string \<times> string \<Rightarrow> string \<times> string \<Rightarrow> string list \<Rightarrow> mapping_t option \<Rightarrow> ('q, offset_t \<times> offset_t) gact" where
  "get_connected_node_ids h src dest row m =
     (let find = (\<lambda>(n, c) field. case m of Some t \<Rightarrow> sret (node_id_from_field t n field) | None \<Rightarrow> node_id_from_db h n c field) in
      sbind (srun (vec_get row 0)) (\<lambda>f0.
      sbind (find src f0) (\<lambda>from_node.
      if from_node = UNKNOWN then sret (UNKNOWN, UNKNOWN)
      else
        sbind (srun (vec_get row 1)) (\<lambda>f1.
        sbind (find dest f1) (\<lambda>to_node.
        if to_node = UNKNOWN then sret (UNKNOWN, UNKNOWN) else sret (from_node, to_node))))))"

text \<open>The header has the labels and properties of both ends; \<open>None\<close> stands for an invalid one, with which the import ends.\<close>

definition rship_header :: "string list \<Rightarrow> ((string \<times> string) \<times> (string \<times> string)) option result" where
  "rship_header columns =
     rbind (vec_get columns 0) (\<lambda>c0.
     rbind (vec_get columns 1) (\<lambda>c1.
     let src = get_rship_node c0; dest = get_rship_node c1 in
     Inr (if snd src = [] \<or> snd dest = [] then None else Some (src, dest))))"

text \<open>The properties of a row: columns from the third on, also those without a name.\<close>

fun rship_props :: "string list \<Rightarrow> string list \<Rightarrow> properties_t \<Rightarrow> properties_t result" where
  "rship_props columns [] ps = Inr ps"
| "rship_props [] (f # fs) ps = Inl Undefined_behaviour"
| "rship_props (c # cs) (f # fs) ps = rship_props cs fs (if f \<noteq> [] then props_insert c (Any_string f) ps else ps)"

fun import_rship_rows :: "iconv \<Rightarrow> hash \<Rightarrow> string \<Rightarrow> string \<times> string \<Rightarrow> string \<times> string \<Rightarrow> string list \<Rightarrow> string list list \<Rightarrow> nat \<Rightarrow> mapping_t option \<Rightarrow> ('q, nat) gact" where
  "import_rship_rows ic h label src dest columns [] num m = sret (num - 1)"
| "import_rship_rows ic h label src dest columns (row # rows) num m =
     sbind (get_connected_node_ids h src dest row m) (\<lambda>(from_node, to_node).
     sbind (srun (rship_props (drop 2 columns) (drop 2 row) [])) (\<lambda>props.
     sbind (import_relationship ic h from_node to_node label props) (\<lambda>_.
     import_rship_rows ic h label src dest columns rows (num + 1) m)))"

definition import_relationships_from_csv :: "iconv \<Rightarrow> hash \<Rightarrow> string \<Rightarrow> csv_file \<Rightarrow> mapping_t option \<Rightarrow> ('q, nat) gact" where
  "import_relationships_from_csv ic h label f m =
     (case f of None \<Rightarrow> sret 0
      | Some [] \<Rightarrow> sret (sub64 0 1)
      | Some (columns # rows) \<Rightarrow>
          sbind (srun (rship_header columns)) (\<lambda>ends.
          case ends of None \<Rightarrow> sret 0 | Some (src, dest) \<Rightarrow> import_rship_rows ic h label src dest columns rows 1 m))"

text \<open>The types and values of the first row: fields that are empty are skipped, so the later ones move to the left.\<close>

record rel_cols =
  rc_types :: "p_typecode list"
  rc_values :: "string list"

fun first_rel_row :: "string list \<Rightarrow> nat \<Rightarrow> rel_cols \<Rightarrow> rel_cols result" where
  "first_rel_row [] j c = Inr c"
| "first_rel_row (f # fs) j c =
     (if f = [] then first_rel_row fs j c
      else rbind (vec_set (rc_types c) j (get_datatype f)) (\<lambda>ts.
           rbind (vec_set (rc_values c) j f) (\<lambda>vs. first_rel_row fs (j + 1) (c\<lparr>rc_types := ts, rc_values := vs\<rparr>))))"

fun typed_rel_rows :: "iconv \<Rightarrow> hash \<Rightarrow> dcode_t \<Rightarrow> string \<times> string \<Rightarrow> string \<times> string \<Rightarrow> dcode_t list \<Rightarrow> rel_cols \<Rightarrow> string list list \<Rightarrow> nat \<Rightarrow> mapping_t option \<Rightarrow> ('q, nat) gact" where
  "typed_rel_rows ic h lc src dest names c [] num m = sret (num - 1)"
| "typed_rel_rows ic h lc src dest names c (row # rows) num m =
     sbind (get_connected_node_ids h src dest row m) (\<lambda>(from_node, to_node).
     sbind (srun (if num = 1 then first_rel_row (drop 2 row) 0 c else Inr c)) (\<lambda>c1.
     sbind (try_import (import_typed_relationship ic h from_node to_node lc names (rc_types c1) (rc_values c1))) (\<lambda>r.
     typed_rel_rows ic h lc src dest names c1 rows (case r of None \<Rightarrow> num | Some _ \<Rightarrow> num + 1) m)))"

definition import_typed_relationships_from_csv :: "iconv \<Rightarrow> hash \<Rightarrow> string \<Rightarrow> csv_file \<Rightarrow> mapping_t option \<Rightarrow> ('q, nat) gact" where
  "import_typed_relationships_from_csv ic h label f m =
     (case f of None \<Rightarrow> sret 0
      | Some rows \<Rightarrow>
          sbind (dict_act (dict_insert h label)) (\<lambda>lc.
          case rows of [] \<Rightarrow> sret 0
          | columns # rows' \<Rightarrow>
              sbind (srun (rship_header columns)) (\<lambda>ends.
              case ends of None \<Rightarrow> sret 0
              | Some (src, dest) \<Rightarrow>
                  sbind (insert_codes h (drop 2 columns)) (\<lambda>names.
                  let n = length columns - 2 in
                  typed_rel_rows ic h lc src dest names \<lparr>rc_types = replicate n P_none, rc_values = replicate n []\<rparr> rows' 1 m))))"

end
