(* ===== verification/Import_Props.thy ===== *)
theory Import_Props
  imports Graph_Import
begin

text \<open>
  Theorems on the import: what the mapping of the untyped node import has, where a new relationship is linked, which fields of a row are used.
\<close>

section \<open>Tables of property sets\<close>

text \<open>Appending to one of the two tables of property sets: the import of nodes and that of relationships share the loop.\<close>

locale prop_appender =
  fixes sel :: "'q graph_db_scheme \<Rightarrow> plist" and upd :: "plist \<Rightarrow> 'q graph_db_scheme \<Rightarrow> 'q graph_db_scheme"
    and put :: "property_set \<Rightarrow> ('q, offset_t) gact"
  assumes put_law: "cv_append ps_blank (sel g) x = Inr (v, i) \<Longrightarrow> put x g = (Inr i, upd v g)"
    and sel_upd: "sel (upd v g) = v" "upd w (upd v g) = upd w g" "upd (sel g) g = g"
    and dict_upd: "g_dict (upd v g) = g_dict g" "sel (g\<lparr>g_dict := d\<rparr>) = sel g" "upd v (g\<lparr>g_dict := d\<rparr>) = (upd v g)\<lparr>g_dict := d\<rparr>"
begin

lemma append_run:
  "pl_append_properties_loop cv h nid next_id pil kvs (g_dict g) (sel g) = Inr (d, v, i) \<Longrightarrow>
   append_props cv h put nid next_id pil kvs g = (Inr i, (upd v g)\<lparr>g_dict := d\<rparr>)"
proof (induction kvs arbitrary: next_id pil g)
  case Nil
  then show ?case by (auto simp: sret_def sel_upd)
next
  case (Cons kv kvs)
  obtain k a where kv: "kv = (k, a)" by (cases kv)
  from Cons.prems obtain d1 p where p: "pi_of_kv cv h k a (g_dict g) = Inr (d1, p)" by (auto simp: kv rbind_eq_Inr_iff)
  let ?pil = "pil @ [p]" and ?g = "g\<lparr>g_dict := d1\<rparr>"
  show ?case
  proof (cases "kvs = [] \<or> length ?pil = 3")
    case True
    with Cons.prems p obtain w j where w: "cv_append ps_blank (sel g) (ps_make nid ?pil next_id) = Inr (w, j)"
      "pl_append_properties_loop cv h nid j [] kvs d1 w = Inr (d, v, i)" by (auto simp: kv rbind_eq_Inr_iff Let_def)
    have "put (ps_make nid ?pil next_id) ?g = (Inr j, upd w ?g)" using w(1) by (simp add: put_law dict_upd)
    moreover have "append_props cv h put nid j [] kvs (upd w ?g) = (Inr i, (upd v (upd w ?g))\<lparr>g_dict := d\<rparr>)"
      using Cons.IH [of j "[]" "upd w ?g"] w(2) by (simp add: dict_upd sel_upd)
    ultimately show ?thesis using p True by (simp add: kv sbind_def dict_act_def Let_def sel_upd dict_upd)
  next
    case False
    then have "pl_append_properties_loop cv h nid next_id ?pil kvs d1 (sel g) = Inr (d, v, i)"
      using Cons.prems p by (simp add: kv Let_def)
    then show ?thesis using Cons.IH [of next_id ?pil ?g] p False by (simp add: kv sbind_def dict_act_def Let_def dict_upd)
  qed
qed

end

interpretation nprops: prop_appender g_nprops "\<lambda>v g. g\<lparr>g_nprops := v\<rparr>" append_nprops
  by unfold_locales (simp_all add: append_nprops_def nprops_act_def)

interpretation rprops: prop_appender g_rprops "\<lambda>v g. g\<lparr>g_rprops := v\<rparr>" append_rprops
  by unfold_locales (simp_all add: append_rprops_def rprops_act_def)

section \<open>New relationships\<close>

lemma upd_rship_body_run:
  "holds (g_rships g) i r \<Longrightarrow> o_get r q = Inr e \<Longrightarrow>
   upd_rship_body i q f g = (Inr (), g\<lparr>g_rships := cv_assign (g_rships g) i (o_set q (e\<lparr>body := f (body e)\<rparr>) r)\<rparr>)"
  by (simp add: upd_rship_body_def sbind_def get_rship_run set_rship_def)

text \<open>A table in which only position \<open>i\<close> has changed.\<close>

definition changed_at :: "'a cvec \<Rightarrow> nat \<Rightarrow> 'a \<Rightarrow> 'a cvec \<Rightarrow> bool" where
  "changed_at v i x w \<longleftrightarrow> cv_wf w \<and> cv_view w = (cv_view v)(i \<mapsto> x)"

lemma changed_at_assign: "holds v i y \<Longrightarrow> changed_at v i x (cv_assign v i x)"
  by (simp add: changed_at_def holds_def cv_assign_props)

lemma changed_at_same: "holds v i x \<Longrightarrow> changed_at v i x v"
  by (auto simp: changed_at_def holds_def)

lemma changed_at_trans: "changed_at v i x w \<Longrightarrow> changed_at w i y u \<Longrightarrow> changed_at v i y u"
  by (simp add: changed_at_def)

lemma changed_at_holds: "changed_at v i x w \<Longrightarrow> holds w i x" "changed_at v i x w \<Longrightarrow> holds v j y \<Longrightarrow> j \<noteq> i \<Longrightarrow> holds w j y"
  by (simp_all add: changed_at_def holds_def)

lemma rship_field_run:
  assumes "holds (g_rships g) rid r" "old = UNKNOWN \<Longrightarrow> f (body (o_elem r)) = body (o_elem r)"
  obtains w where "(if old = UNKNOWN then sret () else upd_rship_body rid Main f) g = (Inr (), g\<lparr>g_rships := w\<rparr>)"
    "changed_at (g_rships g) rid (r\<lparr>o_elem := (o_elem r)\<lparr>body := f (body (o_elem r))\<rparr>\<rparr>) w"
proof (cases "old = UNKNOWN")
  case True
  then show ?thesis using that [of "g_rships g"] assms(2) changed_at_same [OF assms(1)] by (simp add: sret_def)
next
  case False
  then show ?thesis using that [OF _ changed_at_assign [OF assms(1)]] by (simp add: upd_rship_body_run [OF assms(1)])
qed

lemma node_field_run:
  assumes "holds (g_nodes g) i n"
  obtains w where "upd_node_body i Main f g = (Inr (), g\<lparr>g_nodes := w\<rparr>)"
    "changed_at (g_nodes g) i (n\<lparr>o_elem := (o_elem n)\<lparr>body := f (body (o_elem n))\<rparr>\<rparr>) w"
  using that [OF _ changed_at_assign [OF assms]] by (simp add: upd_node_body_run [OF assms])

lemma link_first_run:
  assumes f: "holds (g_nodes g) from_id nf" and t: "holds (g_nodes g) to_id nt" and r: "holds (g_rships g) rid r"
    and new: "rs_next_src (body (o_elem r)) = UNKNOWN" "rs_next_dest (body (o_elem r)) = UNKNOWN"
  shows "\<exists>g' r' nf' nt'. link_first from_id to_id rid g = (Inr (), g') \<and> changed_at (g_rships g) rid r' (g_rships g') \<and>
    body (o_elem r') = (body (o_elem r))\<lparr>rs_next_src := nd_from_rships (body (o_elem nf)), rs_next_dest := nd_to_rships (body (o_elem nt))\<rparr> \<and>
    holds (g_nodes g') from_id nf' \<and> nd_from_rships (body (o_elem nf')) = rid \<and> holds (g_nodes g') to_id nt' \<and> nd_to_rships (body (o_elem nt')) = rid"
proof -
  let ?of = "nd_from_rships (body (o_elem nf))" and ?ot = "nd_to_rships (body (o_elem nt))"
  let ?r1 = "r\<lparr>o_elem := (o_elem r)\<lparr>body := (body (o_elem r))\<lparr>rs_next_src := ?of\<rparr>\<rparr>\<rparr>"
  let ?nf = "nf\<lparr>o_elem := (o_elem nf)\<lparr>body := (body (o_elem nf))\<lparr>nd_from_rships := rid\<rparr>\<rparr>\<rparr>"
  obtain w1 where w1: "(if ?of = UNKNOWN then sret () else upd_rship_body rid Main (\<lambda>b. b\<lparr>rs_next_src := ?of\<rparr>)) g = (Inr (), g\<lparr>g_rships := w1\<rparr>)"
    "changed_at (g_rships g) rid ?r1 w1" using rship_field_run [OF r, where old = ?of and f = "\<lambda>b. b\<lparr>rs_next_src := ?of\<rparr>"] new(1) by auto
  let ?g1 = "g\<lparr>g_rships := w1\<rparr>"
  obtain u1 where u1: "upd_node_body from_id Main (\<lambda>b. b\<lparr>nd_from_rships := rid\<rparr>) ?g1 = (Inr (), ?g1\<lparr>g_nodes := u1\<rparr>)" "changed_at (g_nodes g) from_id ?nf u1"
    using node_field_run [of ?g1 from_id nf "\<lambda>b. b\<lparr>nd_from_rships := rid\<rparr>"] f by auto
  let ?g2 = "?g1\<lparr>g_nodes := u1\<rparr>"
  obtain nt1 where nt1: "holds u1 to_id nt1" "nd_to_rships (body (o_elem nt1)) = ?ot" "to_id = from_id \<longrightarrow> nt1 = ?nf"
  proof (cases "to_id = from_id")
    case True
    then have "nt = nf" using f t by (simp add: holds_def)
    then show ?thesis using that [of ?nf] changed_at_holds(1) [OF u1(2)] True by simp
  next
    case False
    then show ?thesis using that [of nt] changed_at_holds(2) [OF u1(2) t] by simp
  qed
  let ?r2 = "?r1\<lparr>o_elem := (o_elem ?r1)\<lparr>body := (body (o_elem ?r1))\<lparr>rs_next_dest := ?ot\<rparr>\<rparr>\<rparr>"
  let ?nt = "nt1\<lparr>o_elem := (o_elem nt1)\<lparr>body := (body (o_elem nt1))\<lparr>nd_to_rships := rid\<rparr>\<rparr>\<rparr>"
  have r1: "holds (g_rships ?g2) rid ?r1" using changed_at_holds(1) [OF w1(2)] by simp
  obtain w2 where w2: "(if ?ot = UNKNOWN then sret () else upd_rship_body rid Main (\<lambda>b. b\<lparr>rs_next_dest := ?ot\<rparr>)) ?g2 = (Inr (), ?g2\<lparr>g_rships := w2\<rparr>)"
    "changed_at w1 rid ?r2 w2" using rship_field_run [OF r1, where old = ?ot and f = "\<lambda>b. b\<lparr>rs_next_dest := ?ot\<rparr>"] new(2) by auto
  let ?g3 = "?g2\<lparr>g_rships := w2\<rparr>"
  obtain u2 where u2: "upd_node_body to_id Main (\<lambda>b. b\<lparr>nd_to_rships := rid\<rparr>) ?g3 = (Inr (), ?g3\<lparr>g_nodes := u2\<rparr>)" "changed_at u1 to_id ?nt u2"
    using node_field_run [of ?g3 to_id nt1 "\<lambda>b. b\<lparr>nd_to_rships := rid\<rparr>"] nt1(1) by auto
  have run: "link_first from_id to_id rid g = (Inr (), ?g3\<lparr>g_nodes := u2\<rparr>)"
    using w1(1) u1(1) w2(1) [folded nt1(2)] u2(1) nt1(1) by (simp add: link_first_def sbind_def Let_def get_node_run [OF f] get_node_run [of ?g2 to_id nt1] split del: if_split)
  obtain nf2 where nf2: "holds u2 from_id nf2" "nd_from_rships (body (o_elem nf2)) = rid"
  proof (cases "to_id = from_id")
    case True
    then show ?thesis using that [of ?nt] changed_at_holds(1) [OF u2(2)] nt1(3) by simp
  next
    case False
    then show ?thesis using that [of ?nf] changed_at_holds(2) [OF u2(2) changed_at_holds(1) [OF u1(2)]] by simp
  qed
  have "changed_at (g_rships g) rid ?r2 w2" by (rule changed_at_trans [OF w1(2) w2(2)])
  moreover have "holds u2 to_id ?nt" by (rule changed_at_holds(1) [OF u2(2)])
  ultimately show ?thesis using run nf2 by fastforce
qed

lemma cv_append_size:
  assumes "cv_wf v" "cv_append d v x = Inr (w, i)"
  shows "capacity w \<le> capacity v + 2 * elems_per_chunk v"
proof -
  define v1 where "v1 = (if cv_is_full v then cv_resize d 1 v else v)"
  define v2 where "v2 = (if chunk_is_full (last (chunk_list v1)) then cv_resize d 1 v1 else v1)"
  have wf: "cv_wf v1" using assms(1) cv_add_chunk_wf [OF assms(1)] cv_resize_one [OF assms(1)] by (simp add: v1_def)
  have "cv_fill_first v2 (length (chunk_list v2) - 1) ((length (chunk_list v2) - 1) * elems_per_chunk v2) x = Inr (w, i)"
    using assms(2) unfolding cv_append_def Let_def v1_def [symmetric] v2_def [symmetric] by (simp split: if_splits)
  then have "capacity w = capacity v2" by (rule cv_fill_first_size)
  moreover have "capacity v1 \<le> capacity v + elems_per_chunk v" "elems_per_chunk v1 = elems_per_chunk v" "capacity v2 \<le> capacity v1 + elems_per_chunk v1"
    using cv_resize_one [OF assms(1), of d] cv_resize_one [OF wf, of d] by (simp_all add: v1_def v2_def)
  ultimately show ?thesis by simp
qed

lemma put_rship_run:
  assumes inv: "cv_inv (g_rships g)" and cap: "capacity (g_rships g) + 2 * elems_per_chunk (g_rships g) \<le> UNKNOWN"
  shows "\<exists>w rid. put_new_rship True r 0 g = (Inr rid, g\<lparr>g_rships := w\<rparr>) \<and> changed_at (g_rships g) rid (rship_set_id rid r) w \<and>
    cv_view (g_rships g) rid = None \<and> rid \<noteq> UNKNOWN"
proof -
  have l: "lock_owner 0 ob = ob" for ob :: rship by (simp add: lock_owner_def)
  obtain w rid where w: "put_completed (cv_append rship_blank (g_rships g)) (\<lambda>i r. lock_owner 0 (rship_set_id i r)) r = Inr (w, rid)" "cv_inv w"
    "cv_view (g_rships g) rid = None" "cv_view w = (cv_view (g_rships g))(rid \<mapsto> rship_set_id rid r)"
    using put_completed_append [OF inv, of rship_blank "\<lambda>i r. lock_owner 0 (rship_set_id i r)" r] by (auto simp: l)
  have wf: "cv_wf (g_rships g)" "cv_wf w" using inv w(2) by (simp_all add: cv_inv_def)
  obtain x where "cv_append rship_blank (g_rships g) x = Inr (w, rid)" using w(1) by (auto simp: put_completed_def rbind_eq_Inr_iff)
  from cv_append_size [OF wf(1) this] have "capacity w \<le> UNKNOWN" using cap by simp
  then have "rid \<noteq> UNKNOWN" using cv_view_dom [OF wf(2), of rid] w(4) by auto
  with w wf(2) show ?thesis by (intro exI [of _ w] exI [of _ rid]) (simp add: put_new_rship_def rl_append_def changed_at_def)
qed

lemma table_chain_keeps:
  "table_chain nxt v i cs \<Longrightarrow> (\<And>j r. holds v j r \<Longrightarrow> holds w j r) \<Longrightarrow> table_chain nxt w i cs"
  by (induction cs arbitrary: i) fastforce+

lemma import_props_run:
  assumes w: "changed_at (g_rships g) rid (rship_set_id rid (rship_new c from_id to_id)) w"
    and ap: "\<exists>d' v pid. pl_append_properties (ic_conv ic) h rid props d (g_rprops g) = Inr (d', v, pid)"
  shows "\<exists>g2 r2. (if props \<noteq> [] then sbind (append_props (ic_conv ic) h append_rprops rid UNKNOWN [] props)
        (\<lambda>pid. upd_rship_body rid Main (\<lambda>b. b\<lparr>rs_property_list := pid\<rparr>)) else sret ()) (g\<lparr>g_dict := d, g_rships := w\<rparr>) = (Inr (), g2) \<and>
    g_nodes g2 = g_nodes g \<and> changed_at (g_rships g) rid r2 (g_rships g2) \<and> rs_next_src (body (o_elem r2)) = UNKNOWN \<and> rs_next_dest (body (o_elem r2)) = UNKNOWN \<and>
    rs_src_node (body (o_elem r2)) = from_id \<and> rs_dest_node (body (o_elem r2)) = to_id \<and> rs_label (body (o_elem r2)) = c"
proof (cases "props = []")
  case True
  then show ?thesis using w by (force simp: sret_def rship_set_id_def rship_new_def object_new_def elem_new_def rship_body_new_def)
next
  case False
  let ?g1 = "g\<lparr>g_dict := d, g_rships := w\<rparr>" and ?r = "rship_set_id rid (rship_new c from_id to_id)"
  obtain d' v pid where "pl_append_properties (ic_conv ic) h rid props d (g_rprops g) = Inr (d', v, pid)" using ap by blast
  then have a: "append_props (ic_conv ic) h append_rprops rid UNKNOWN [] props ?g1 = (Inr pid, ?g1\<lparr>g_rprops := v, g_dict := d'\<rparr>)"
    using rprops.append_run [of "ic_conv ic" h rid UNKNOWN "[]" props ?g1 d' v pid] by (simp add: pl_append_properties_def)
  have hr: "holds w rid ?r" by (rule changed_at_holds(1) [OF w])
  let ?r2 = "?r\<lparr>o_elem := (o_elem ?r)\<lparr>body := (body (o_elem ?r))\<lparr>rs_property_list := pid\<rparr>\<rparr>\<rparr>"
  have "changed_at (g_rships g) rid ?r2 (cv_assign w rid ?r2)" by (rule changed_at_trans [OF w changed_at_assign [OF hr]])
  then show ?thesis using a hr False
    by (simp add: sbind_def upd_rship_body_run)
      (intro exI conjI, assumption, simp_all add: rship_set_id_def rship_new_def object_new_def elem_new_def rship_body_new_def)
qed

text \<open>
  C20. An imported relationship gets a new position and becomes the first one in the list of its source node and in the list of its destination node, in front
  of the relationships that were in these lists; all of these stay in their order. Source and destination may be the same node.
\<close>

theorem import_relationship_first:
  assumes "cv_inv (g_rships g)" "capacity (g_rships g) + 2 * elems_per_chunk (g_rships g) \<le> UNKNOWN"
    and "holds (g_nodes g) from_id nf" "holds (g_nodes g) to_id nt"
    and "table_chain rs_next_src (g_rships g) (nd_from_rships (body (o_elem nf))) cs"
    and "table_chain rs_next_dest (g_rships g) (nd_to_rships (body (o_elem nt))) ds"
    and "dict_insert h label (g_dict g) = Inr (d, c)"
    and "\<And>i. \<exists>d' v pid. pl_append_properties (ic_conv ic) h i props d (g_rprops g) = Inr (d', v, pid)"
  shows "\<exists>rid g' e nf' nt'. import_relationship ic h from_id to_id label props g = (Inr rid, g') \<and> cv_view (g_rships g) rid = None \<and>
    rs_src_node (body e) = from_id \<and> rs_dest_node (body e) = to_id \<and> rs_label (body e) = c \<and>
    holds (g_nodes g') from_id nf' \<and> table_chain rs_next_src (g_rships g') (nd_from_rships (body (o_elem nf'))) ((rid, e) # cs) \<and>
    holds (g_nodes g') to_id nt' \<and> table_chain rs_next_dest (g_rships g') (nd_to_rships (body (o_elem nt'))) ((rid, e) # ds)"
proof -
  let ?g0 = "g\<lparr>g_dict := d\<rparr>" and ?r = "rship_new c from_id to_id"
  obtain w rid where w: "put_new_rship True ?r 0 ?g0 = (Inr rid, ?g0\<lparr>g_rships := w\<rparr>)" "changed_at (g_rships g) rid (rship_set_id rid ?r) w"
    "cv_view (g_rships g) rid = None" "rid \<noteq> UNKNOWN" using put_rship_run [of ?g0 ?r] assms(1,2) by auto
  let ?g1 = "?g0\<lparr>g_rships := w\<rparr>"
  obtain g2 r2 where p: "(if props \<noteq> [] then sbind (append_props (ic_conv ic) h append_rprops rid UNKNOWN [] props)
        (\<lambda>pid. upd_rship_body rid Main (\<lambda>b. b\<lparr>rs_property_list := pid\<rparr>)) else sret ()) ?g1 = (Inr (), g2)"
    "g_nodes g2 = g_nodes g" "changed_at (g_rships g) rid r2 (g_rships g2)" "rs_next_src (body (o_elem r2)) = UNKNOWN" "rs_next_dest (body (o_elem r2)) = UNKNOWN"
    "rs_src_node (body (o_elem r2)) = from_id" "rs_dest_node (body (o_elem r2)) = to_id" "rs_label (body (o_elem r2)) = c"
    using import_props_run [OF w(2) assms(8)] by blast
  obtain g3 r3 nf' nt' where l: "link_first from_id to_id rid g2 = (Inr (), g3)" "changed_at (g_rships g2) rid r3 (g_rships g3)"
    "body (o_elem r3) = (body (o_elem r2))\<lparr>rs_next_src := nd_from_rships (body (o_elem nf)), rs_next_dest := nd_to_rships (body (o_elem nt))\<rparr>"
    "holds (g_nodes g3) from_id nf'" "nd_from_rships (body (o_elem nf')) = rid" "holds (g_nodes g3) to_id nt'" "nd_to_rships (body (o_elem nt')) = rid"
    using link_first_run [of g2 from_id nf to_id nt rid r2] assms(3,4) p(2-5) changed_at_holds(1) by force
  have ch: "changed_at (g_rships g) rid r3 (g_rships g3)" by (rule changed_at_trans [OF p(3) l(2)])
  then have keep: "holds (g_rships g3) j r" if "holds (g_rships g) j r" for j r
    using that w(3) changed_at_holds(2) [OF ch that] by (cases "j = rid") (simp_all add: holds_def)
  have "import_relationship ic h from_id to_id label props g = (Inr rid, g3)"
    using assms(7) w(1) p(1) l(1) changed_at_holds(1) [OF w(2)]
    by (simp add: import_relationship_def import_rship_with_def sbind_def get_node_run [OF assms(3)] get_node_run [OF assms(4)] dict_act_def get_rship_run sret_def
        split del: if_split)
  moreover have "table_chain rs_next_src (g_rships g3) rid ((rid, o_elem r3) # cs)" "table_chain rs_next_dest (g_rships g3) rid ((rid, o_elem r3) # ds)"
    using changed_at_holds(1) [OF ch] w(4) l(3) table_chain_keeps [OF assms(5) keep] table_chain_keeps [OF assms(6) keep] by auto
  ultimately show ?thesis using l w(3) p(6-8) by (intro exI [of _ rid] exI [of _ g3] exI [of _ "o_elem r3"] exI [of _ nf'] exI [of _ nt']) simp
qed

lemma knows_code:
  obtains d c where "dict_insert length ''knows'' dict_demo = Inr (d, c)"
proof -
  have "sp_fits ''knows'' (d_pool dict_demo)" by (simp add: sp_fits_def dict_demo_def)
  from dict_insert_new [OF dict_demo_inv _ _ _ this] that show ?thesis by auto
qed

definition iconv_demo :: iconv where
  "iconv_demo = \<lparr>ic_conv = conv_demo, ic_stod = (\<lambda>_. Inr 0), ic_date = (\<lambda>_. Inr 0), ic_time = (\<lambda>_. Inr 0)\<rparr>"

theorem import_relationship_first_witness:
  "\<exists>rid g' e nf'. import_relationship iconv_demo length 0 1 ''knows'' [] pair_demo = (Inr rid, g') \<and> rs_dest_node (body e) = 1 \<and>
    holds (g_nodes g') 0 nf' \<and> table_chain rs_next_src (g_rships g') (nd_from_rships (body (o_elem nf'))) [(rid, e), (0, o_elem pair_rship)]"
proof -
  obtain d c where d: "dict_insert length ''knows'' (g_dict pair_demo) = Inr (d, c)" using knows_code by (auto simp: pair_demo_def)
  have inv: "cv_inv (g_rships pair_demo)" using pair_holds(3)
    by (simp add: pair_demo_def cv_inv_def holds_def) (auto simp: fl_ok_def pair_rships_def chunk_is_full_def)
  have "table_chain rs_next_src pair_rships 0 [(0, o_elem pair_rship)]" "table_chain rs_next_dest pair_rships 0 [(0, o_elem pair_rship)]"
    using pair_holds(3) by (auto simp: UNKNOWN_def)
  then show ?thesis using import_relationship_first [OF inv _ _ _ _ _ d, of 0 "pair_node 0 0 UNKNOWN" 1 "pair_node 1 UNKNOWN 0" "[(0, o_elem pair_rship)]"
      "[(0, o_elem pair_rship)]" iconv_demo "[]"] pair_holds(1,2)
    by (fastforce simp: pair_demo_def pl_append_properties_def UNKNOWN_def pair_rships_def)
qed

section \<open>New nodes\<close>

text \<open>
  An imported node gets a new position; every transaction reads it there, with its label and with the list of its properties. The other nodes
  stay as they are.
\<close>

theorem import_node_readable:
  assumes "cv_inv (g_nodes g)" "dict_insert h label (g_dict g) = Inr (d, c)" "props \<noteq> []"
    and "\<And>i. pl_append_properties (ic_conv ic) h i props d (g_nprops g) = Inr (d' i, v i, pid i)"
  shows "\<exists>i n g'. import_node ic h label props g = (Inr i, g') \<and> cv_view (g_nodes g) i = None \<and> cv_view (g_nodes g') = (cv_view (g_nodes g))(i \<mapsto> n) \<and>
    g_nprops g' = v i \<and> g_dict g' = d' i \<and> nd_label (body (o_elem n)) = c \<and> nd_property_list (body (o_elem n)) = pid i \<and>
    (\<forall>x. x \<noteq> 0 \<longrightarrow> get_valid_node_version x n = Inr Main)"
proof -
  obtain w i where w: "nl_append (node_new c) 0 (g_nodes g) = Inr (w, i)" "cv_inv w" "cv_view (g_nodes g) i = None"
    "cv_view w = (cv_view (g_nodes g))(i \<mapsto> node_set_id i (node_new c))"
    using nl_put_spec [OF assms(1), of True "node_new c" 0] by (auto simp: lock_owner_def)
  let ?g0 = "g\<lparr>g_dict := d\<rparr>"
  let ?g1 = "?g0\<lparr>g_nodes := w\<rparr>" and ?n = "node_set_id i (node_new c)"
  let ?n2 = "?n\<lparr>o_elem := (o_elem ?n)\<lparr>body := (body (o_elem ?n))\<lparr>nd_property_list := pid i\<rparr>\<rparr>\<rparr>"
  have hn: "holds w i ?n" using w(2,4) by (simp add: holds_def cv_inv_def)
  have put: "put_new_node True (node_new c) 0 ?g0 = (Inr i, ?g1)" using w(1) by (simp add: put_new_node_def)
  have "append_props (ic_conv ic) h append_nprops i UNKNOWN [] props ?g1 = (Inr (pid i), ?g1\<lparr>g_nprops := v i, g_dict := d' i\<rparr>)"
    using nprops.append_run [of "ic_conv ic" h i UNKNOWN "[]" props ?g1] assms(4) [of i] by (simp add: pl_append_properties_def)
  then have run: "import_node ic h label props g = (Inr i, ?g1\<lparr>g_nprops := v i, g_dict := d' i, g_nodes := cv_assign w i ?n2\<rparr>)"
    using assms(2,3) put hn by (simp add: import_node_def import_node_with_def sbind_def dict_act_def get_node_run upd_node_body_run sret_def)
  have "cv_view (cv_assign w i ?n2) = (cv_view (g_nodes g))(i \<mapsto> ?n2)" using changed_at_assign [OF hn, of ?n2] w(4) by (simp add: changed_at_def)
  moreover have "get_valid_node_version x ?n2 = Inr Main" if "x \<noteq> 0" for x
    using that by (simp add: get_valid_node_version_def is_locked_by_def is_locked_def is_valid_for_def node_set_id_def node_new_def object_new_def elem_new_def)
  ultimately show ?thesis using run w(3)
    by (intro exI [of _ i] exI [of _ ?n2]) (simp add: node_set_id_def node_new_def object_new_def elem_new_def node_body_new_def)
qed

theorem import_node_readable_witness:
  "\<exists>i n g'. import_node iconv_demo length ''age'' [(''age'', Any_int 5)] (db_demo node_blank) = (Inr i, g') \<and> nd_label (body (o_elem n)) = 1 \<and>
    cv_view (g_nodes g') i = Some n \<and> get_valid_node_version 5 n = Inr Main"
proof -
  let ?g = "db_demo node_blank" and ?props = "[(''age'', Any_int 5)]"
  obtain d where lab: "label_result length ''age'' dict_demo = Inr (d, 1)"
    and items: "pl_build_dirty_props conv_demo length ?props d = Inr (d, [(pi_set_int 5 pi_unused)\<lparr>pi_key := 1\<rparr>])" by (rule dict_demo_label)
  have d: "dict_insert length ''age'' (g_dict ?g) = Inr (d, 1)"
    using lab by (simp add: label_result_def dict_demo_def dict_lookup_string_def ct_find_def)
  have inv: "cv_inv (g_nodes ?g)" "cv_inv (g_nprops ?g)" using nodes_demo_inv by (simp_all add: db_demo_def graph_db_new_def cv_empty_inv)
  have "\<exists>v j. pl_append_properties conv_demo length i ?props d (g_nprops ?g) = Inr (d, v, j)" for i
    using cv_append_spec [OF inv(2), of ps_blank] items by (force simp: pl_append_properties_def rbind_eq_Inr_iff)
  then obtain v pid where ap: "\<And>i. pl_append_properties (ic_conv iconv_demo) length i ?props d (g_nprops ?g) = Inr (d, v i, pid i)"
    by (metis (no_types) iconv.select_convs(1) iconv_demo_def)
  show ?thesis using import_node_readable [OF inv(1) d _ ap] by fastforce
qed

section \<open>The mapping of the untyped node import\<close>

lemma sbind_InrE:
  assumes "sbind f k s = (Inr y, s')"
  obtains x s1 where "f s = (Inr x, s1)" "k x s1 = (Inr y, s')"
  using assms by (auto simp: sbind_def split: prod.splits sum.splits)

lemma import_node_rows_map:
  "import_node_rows ic h label columns rows num (Some t) g = (Inr (n, m), g') \<Longrightarrow> \<exists>t'. m = Some t' \<and> (\<forall>k. k \<noteq> ''_'' @ label \<longrightarrow> t' k = t k)"
proof (induction rows arbitrary: columns num t g)
  case Nil
  then show ?case by (auto simp: sret_def)
next
  case (Cons row rows)
  show ?case
  proof (cases "num = 0")
    case True
    then show ?thesis using Cons by auto
  next
    case False
    from Cons.prems False obtain r g2 where r: "(case r of None \<Rightarrow> import_node_rows ic h label columns rows num (Some t)
        | Some i \<Rightarrow> import_node_rows ic h label columns rows (Suc num) (map_insert (''_'' @ label) i (Some t))) g2 = (Inr (n, m), g')"
      by (auto elim!: sbind_InrE) (metis append_Cons append_Nil)
    show ?thesis
    proof (cases r)
      case None
      then show ?thesis using r Cons.IH by simp
    next
      case (Some i)
      let ?t = "if t (''_'' @ label) = None then t(''_'' @ label \<mapsto> i) else t"
      have "map_insert (''_'' @ label) i (Some t) = Some ?t" by (simp add: map_insert_def)
      then have "import_node_rows ic h label columns rows (Suc num) (Some ?t) g2 = (Inr (n, m), g')" using r Some by simp
      from Cons.IH [OF this] show ?thesis by auto
    qed
  qed
qed

text \<open>
  The key of every node in the mapping that the untyped import of nodes fills is the label after an underscore, without the identifier of the node, so
  no field finds a node, unless it is empty or has an underscore first. The import of a relationship file with this mapping
  therefore fails at its first row: it throws \<open>unknown_id\<close>, and no relationship is stored.
\<close>

theorem untyped_mapping_useless:
  assumes "import_nodes_from_csv ic h label (Some rows) (Some Map.empty) g = (Inr (n, m), g')"
    and "field \<noteq> []" "hd field \<noteq> CHR ''_''" "rship_header columns = Inr (Some (src, dest))"
    and "length fs < length columns" "capacity (g_nodes g2) \<le> UNKNOWN"
  shows "(\<exists>t. m = Some t \<and> node_id_from_field t s field = UNKNOWN) \<and>
    import_relationships_from_csv ic h rl (Some (columns # (field # fs) # rest)) m g2 = (Inl Unknown_id, g2)"
proof -
  obtain t where t: "m = Some t" "\<forall>k. k \<noteq> ''_'' @ label \<longrightarrow> t k = None"
    using assms(1) import_node_rows_map [of ic h label "[]" rows 0 Map.empty g] by (auto simp: import_nodes_from_csv_def sret_def elim!: sbind_InrE)
  have "field @ ''_'' @ z \<noteq> ''_'' @ label" for z using assms(2,3) by (cases field) auto
  then have u: "node_id_from_field t z field = UNKNOWN" for z using t(2) by (simp add: node_id_from_field_def)
  have cols: "2 \<le> length columns" using assms(4) by (auto simp: rship_header_def vec_get_def rbind_eq_Inr_iff split: if_splits)
  have rp: "\<exists>ps. rship_props cs xs qs = Inr ps" if "length xs \<le> length cs" for cs xs qs
    using that by (induction cs xs qs rule: rship_props.induct) auto
  obtain ps where ps: "rship_props (drop 2 columns) (drop 2 (field # fs)) [] = Inr ps" using rp [of "drop 2 (field # fs)" "drop 2 columns" "[]"] assms(5) cols by force
  have "get_connected_node_ids h src dest (field # fs) m g2 = (Inr (UNKNOWN, UNKNOWN), g2)"
    by (cases src) (simp add: get_connected_node_ids_def t(1) u sbind_def vec_get_def sret_def)
  moreover have "import_relationship ic h UNKNOWN UNKNOWN rl ps g2 = (Inl Unknown_id, g2)"
    using assms(6) by (simp add: import_relationship_def import_rship_with_def sbind_def get_node_def table_get_def)
  ultimately have "import_relationships_from_csv ic h rl (Some (columns # (field # fs) # rest)) m g2 = (Inl Unknown_id, g2)"
    using assms(4) ps by (simp add: import_relationships_from_csv_def sbind_def)
  with t(1) u show ?thesis by blast
qed

lemma import_bare_node:
  obtains i g' where "import_node iconv_demo length ''knows'' [] (db_demo node_blank) = (Inr i, g')"
proof -
  let ?g = "db_demo node_blank"
  obtain d c where d: "dict_insert length ''knows'' (g_dict ?g) = Inr (d, c)" using knows_code by auto
  have "cv_inv (g_nodes ?g)" using nodes_demo_inv by (simp add: db_demo_def)
  from nl_put_spec [OF this, of True "node_new c" 0] obtain w i where w: "nl_append (node_new c) 0 (g_nodes ?g) = Inr (w, i)" "cv_inv w"
    "cv_view w i = Some (lock_owner 0 (node_set_id i (node_new c)))" by auto
  then have "holds w i (lock_owner 0 (node_set_id i (node_new c)))" by (simp add: holds_def cv_inv_def)
  then show ?thesis using that d w(1) by (simp add: import_node_def import_node_with_def sbind_def dict_act_def put_new_node_def get_node_run sret_def)
qed

theorem untyped_mapping_useless_witness:
  "\<exists>n m g'. import_nodes_from_csv iconv_demo length ''knows'' (Some [[''id''], [[]]]) (Some Map.empty) (db_demo node_blank) = (Inr (n, m), g') \<and> n = 1 \<and>
    import_relationships_from_csv iconv_demo length ''likes'' (Some [[''Knows_id'', ''Knows_id''], [''1'', ''2'']]) m (db_demo node_blank) =
      (Inl Unknown_id, db_demo node_blank)"
proof -
  obtain i g' where "import_node iconv_demo length ''knows'' [] (db_demo node_blank) = (Inr i, g')" by (rule import_bare_node)
  then have run: "import_nodes_from_csv iconv_demo length ''knows'' (Some [[''id''], [[]]]) (Some Map.empty) (db_demo node_blank) =
      (Inr (1, map_insert ''_knows'' i (Some Map.empty)), g')"
    by (simp add: import_nodes_from_csv_def sbind_def try_import_def sret_def)
  have hdr: "rship_header [''Knows_id'', ''Knows_id''] = Inr (Some ((''Knows'', ''id''), (''Knows'', ''id'')))"
    by (simp add: rship_header_def vec_get_def get_rship_node_def Let_def)
  have cap: "capacity (g_nodes (db_demo node_blank)) \<le> UNKNOWN" by (simp add: db_demo_def nodes_demo_def UNKNOWN_def)
  show ?thesis using run untyped_mapping_useless [OF run _ _ hdr _ cap, of "''1''" "[''2'']" "''Knows''" "''likes''" "[]"] by auto
qed

section \<open>Fields that are not used\<close>

lemma get_connected_take2: "take 2 row = take 2 row' \<Longrightarrow> get_connected_node_ids h src dest row m = get_connected_node_ids h src dest row' m"
proof -
  assume t: "take 2 row = take 2 row'"
  have "vec_get xs k = vec_get (take 2 xs) k" if "k < 2" for k and xs :: "string list" using that by (auto simp: vec_get_def)
  from this [of 0 row] this [of 0 row'] this [of 1 row] this [of 1 row'] t show ?thesis
    by (simp add: get_connected_node_ids_def del: One_nat_def cong: if_cong)
qed

text \<open>
  Of the rows after the first one that was imported, the typed import of relationships uses the two identifiers only: the relationships get the
  property values of the first row, whatever the other fields have.
\<close>

theorem typed_relationship_values_ignored:
  assumes "map (take 2) rows = map (take 2) rows'" "1 < num"
  shows "typed_rel_rows ic h lc src dest names c rows num m g = typed_rel_rows ic h lc src dest names c rows' num m g"
  using assms
proof (induction rows arbitrary: rows' num g)
  case (Cons row rows)
  obtain row' rs where rs: "rows' = row' # rs" "take 2 row = take 2 row'" "map (take 2) rows = map (take 2) rs" using Cons.prems(1) by (cases rows') auto
  show ?case using Cons.IH [OF rs(3)] Cons.prems(2)
    by (simp add: rs(1) sbind_def get_connected_take2 [OF rs(2)] split: prod.splits sum.splits option.splits)
qed simp

theorem typed_relationship_values_ignored_witness:
  "typed_rel_rows iconv_demo length 1 (''P'', ''id'') (''P'', ''id'') [2] \<lparr>rc_types = [P_int], rc_values = [''5'']\<rparr> [[''1'', ''2'', ''77'']] 2 None (db_demo node_blank) =
   typed_rel_rows iconv_demo length 1 (''P'', ''id'') (''P'', ''id'') [2] \<lparr>rc_types = [P_int], rc_values = [''5'']\<rparr> [[''1'', ''2'', []]] 2 None (db_demo node_blank)"
  by (rule typed_relationship_values_ignored) simp_all

text \<open>
  A field that is not a number greater than the largest \<open>int\<close> is taken for a quoted string: its first and last characters are cut off. All fields of
  one or two digits thus lead to the same node, the one whose property is the code of the empty string, and no node is found by a small number.
\<close>

theorem small_id_lookup:
  assumes "is_int f" "stoi f = Inr a" "is_int f'" "stoi f' = Inr b" "length f \<le> 2" "length f' \<le> 2"
  shows "node_id_from_db h node_label column f = node_id_from_db h node_label column f' \<and>
    field_key h f g = (Inr (let dc = dict_lookup_string h [] (g_dict g) in if dc = UNKNOWN_CODE then None else Some (of_nat dc)), g)"
proof -
  have i: "inner s = Inr [] \<and> \<not> Property_Value.is_uint64 s" if "is_int s" "stoi s = Inr x" "length s \<le> 2" for s x
  proof -
    from that(1) have "s \<noteq> []" by (auto simp: is_int_def is_posint_def is_digits_def)
    with that(3) have "inner s = Inr []" by (cases s; cases "tl s") (auto simp: inner_def sub64_def)
    then show ?thesis using that(2) by (simp add: is_uint64_def)
  qed
  have k: "field_key h s = sbind (get_code h []) (\<lambda>dc. sret (if dc = UNKNOWN_CODE then None else Some (of_nat dc)))" if "inner s = Inr [] \<and> \<not> is_uint64 s" for s
    using that by (auto simp: field_key_def sbind_def)
  note kf = k [OF i [OF assms(1,2,5)]] k [OF i [OF assms(3,4,6)]]
  have "node_id_from_db h node_label column f = node_id_from_db h node_label column f'" by (simp only: node_id_from_db_def kf)
  then show ?thesis unfolding kf by (simp add: sbind_def get_code_def sret_def Let_def)
qed

theorem small_id_lookup_witness:
  "node_id_from_db length ''Person'' ''id'' ''10'' = node_id_from_db length ''Person'' ''id'' ''27'' \<and>
   field_key length ''10'' (db_demo node_blank) = (Inr (Some 0), db_demo node_blank)"
proof -
  have s: "stoi ''10'' = Inr 10" "stoi ''27'' = Inr 27" "is_int ''10''" "is_int ''27''" by code_simp+
  have "dict_lookup_string length [] dict_demo = 0" by (simp add: dict_demo_def dict_lookup_string_def ct_find_def)
  then show ?thesis using small_id_lookup [OF s(3,1) s(4,2), of length "''Person''" "''id''" "db_demo node_blank"] by (simp add: Let_def UNKNOWN_CODE_def)
qed

end
