(* ===== verification/Spec2Isabelle.thy ===== *)
theory Spec2Isabelle
  imports Recovery Paged_BTree Graph_Abort Query_Scan Query_Analytics Query_Eval Query_Group Query_Update Import_Props
begin

text \<open>
  Poseidon graph database core: a verification development of its storage, transaction, logging, recovery, analytics and query layers.

  \<^bold>\<open>The program.\<close> Poseidon stores a property graph. Nodes and relationships are records of fixed size in tables; a node heads two
  linked lists of relationships (outgoing and incoming) and a chain of property sets; strings are replaced by codes of a
  dictionary. Tables live in memory (\<open>mem_chunked_vec\<close>), in pages of a buffer pool or in persistent memory, chosen when the
  program is built. Transactions use multiversion timestamp ordering: a table record has a lock word and three
  timestamps, and a list of its versions in volatile memory. B+ trees index properties. The paged configuration writes a log. Queries run
  on a query context that scans tables and follows relationship lists. The development models the in-memory
  configuration of the store and, from the paged one, the files, the buffer pool, the vector of records, the dictionary, the B+ tree, the log and recovery.

  \<^bold>\<open>Theories and code\<close> (files under \<^verbatim>\<open>src/src\<close>).
  \<^item> Prelude: integer types, sentinels and exceptions (\<^verbatim>\<open>defs.hpp\<close>, \<^verbatim>\<open>exceptions.hpp\<close>), results \<open>exn + 'a\<close>, and actions
    that return a result and a state, for code whose callers catch exceptions. \<open>Undefined_behaviour\<close>, \<open>Assertion_failed\<close> and \<open>Diverges\<close> stand for
    null or dangling accesses, failed assertions and loops that do not end.
  \<^item> Record_Table, Chunked_Vec: the interfaces of a table of records, and \<open>mem_chunked_vec\<close> (\<^verbatim>\<open>vec/mem_chunked_vec.hpp\<close>) with its chunks,
    slot bits, free list and iterators.
  \<^item> Lru_List, Paged_File, Bufferpool: \<^verbatim>\<open>bp_file/lru_list\<close>, \<^verbatim>\<open>bp_file/paged_file\<close>, \<^verbatim>\<open>bp_file/bufferpool\<close>. The
    replacement list is modelled with pointers and an explicit store.
  \<^item> Buffered_Vec: the vector of the paged configuration (\<^verbatim>\<open>vec/buffered_vec.hpp\<close>), its chunks in pages of the pool, and its iterators; the
    layout of a chunk in memory is a parameter with the law that it can be read back.
  \<^item> Dict: \<^verbatim>\<open>dict/string_pool\<close>, \<^verbatim>\<open>dict/code_table\<close>, \<^verbatim>\<open>dict/dict\<close>; the hash function is a parameter.
  \<^item> Paged_Pool: \<^verbatim>\<open>dict/paged_string_pool\<close>, strings with codes in pages of the buffer pool, and the dictionary on it.
  \<^item> Property_Value, Property_List: \<^verbatim>\<open>storage/properties\<close>; the conversions of the standard library and of boost are parameters.
  \<^item> BTree, Index_Map: the in-memory B+ tree (\<^verbatim>\<open>btree/imbtree.hpp\<close>) and the registry and maintenance of indexes. Paged_BTree: the B+ tree on pages
    of the buffer pool (\<^verbatim>\<open>btree/pfbtree.hpp\<close>), its nodes read and written through pointers into the buffer; the layout of a node is a parameter.
  \<^item> Txn: elements, versions and their searches (\<^verbatim>\<open>tx/txn_data.hpp\<close>), transactions. Graph_Objects: nodes and
    relationships and their tables (\<^verbatim>\<open>storage/nodes.hpp\<close>, \<^verbatim>\<open>storage/relationships.hpp\<close>).
  \<^item> Graph_Db, Graph_Tx: \<open>graph_db\<close> (\<^verbatim>\<open>storage/graph_db.cpp\<close>, \<^verbatim>\<open>storage/graph_db_gc.cpp\<close>): the state of the store is a record of the
    tables, the dictionary, the indexes, the transaction of every thread, the active transactions and the
    garbage list. Reading, adding, updating and deleting; begin, commit, abort and the garbage collector.
  \<^item> Query_Ctx, Graph_Index: \<^verbatim>\<open>query/interp/query_ctx.cpp\<close> and \<^verbatim>\<open>storage/graph_db_index.cpp\<close>: sequential and parallel scans, loops over
    relationship lists, paths of variable length, property tests; creating and searching an index. Consumers are actions of the store.
  \<^item> Walog, Recovery: the write-ahead log \<^verbatim>\<open>log/walog.cpp\<close> and recovery, \<^verbatim>\<open>storage/graph_db_recovery.cpp\<close>. The file is given by the
    records at their byte offsets, its length and the number in its header. Recovery redoes the records on the paged tables and the paged dictionary, which share a buffer pool.
  \<^item> Csr_Delta, Csr_Build: the delta stores of both kinds and the copies of the graph as arrays (\<^verbatim>\<open>storage/csr_delta.hpp\<close>, \<^verbatim>\<open>analytics/graph_db_analytics.cpp\<close>),
    with what transactions collect for them. Csr_Rows, Csr_Update, Csr_Props: their theorems.
  \<^item> Graph_Import, Import_Props: the import of nodes and relationships from CSV files (\<^verbatim>\<open>storage/graph_db_import.cpp\<close>); the conversions of strings are parameters.
  \<^item> Graph_Search: breadth-first search and the searches for shortest paths (\<^verbatim>\<open>analytics/bfs.cpp\<close>, \<^verbatim>\<open>analytics/shortest_path.cpp\<close>) as clients of the query
    context. Local_State: local variables that lambda expressions capture. Double_Round: the type \<open>double\<close>, its
    arithmetic with rounding to nearest and even, and its comparisons. Query_Analytics: the search for \<open>k\<close> paths, and the operators and named algorithms on the searches
    (\<^verbatim>\<open>query/plan_op/qop_analytics.cpp\<close>, \<^verbatim>\<open>query/plan_op/algorithms.cpp\<close>).
  \<^item> Query_Value, Query_Expr: values of query results with their comparisons and the built-in functions (\<^verbatim>\<open>query/utils/qresult\<close>, \<^verbatim>\<open>query/plan_op/qop_builtins.cpp\<close>), expressions, their
    interpreter with a stack, and the folding of constant calls (\<^verbatim>\<open>query/expr\<close>, \<^verbatim>\<open>query/interp/expr_interpreter.cpp\<close>, \<^verbatim>\<open>query/plan_visitors/prepare_expr_visitor.cpp\<close>).
  \<^item> Query_Ops, Query_Joins, Query_Aggr, Query_Update: the operators of the push-based query engine (\<^verbatim>\<open>query/plan_op\<close>): filters, limit, distinct, order; joins, set operators, scans
    and operators that follow relationships; aggregation and grouping; projection and the operators that change the store. An operator is an action with a tuple and the operator
    behind it as parameters; its members are local variables.
  \<^item> Mvto, Graph_Inv, Graph_Run, Graph_Abort, Query_Walk, Query_Scan, Graph_Reach, Graph_Paths, Graph_Dijkstra, Query_Eval, Query_Push, Query_Sort, Query_Group: theorems about the
    definitions of the other theories.

  \<^bold>\<open>State.\<close> The record of the store is extensible: code that runs with local variables has them, together with the variables of its callers, in the extension of the
  record, so that operations of the store, query loops, visitors and query operators compose without changing their definitions.

  \<^bold>\<open>Interfaces.\<close> Locales state what a client relies on: tables of records (Record_Table, interpreted by \<open>mem_chunked_vec\<close>), the store of
  pages below the buffer pool (Paged_File), an index by key (BTree, used by Index_Map and Graph_Index), a property of the store kept by
  single changes and by all operations (two locales of Graph_Inv, for the tables and for the bound of garbage collection), consumers that only read (Query_Walk, Query_Scan), visitors of graph searches (Graph_Reach, Graph_Paths), rounding (Double_Round), query operators
  that pass tuples on or keep them (Query_Push), comparisons of tuples (Query_Sort), writers of the log (Walog), a table beside others on one buffer pool (Recovery, for nodes
  and for relationships), the rows of a copy from delta records (Csr_Rows, for both kinds of deltas) and the tables that imported properties go to (Import_Props). Each is
  interpreted on the definitions of the model.

  \<^bold>\<open>What the theorems show.\<close>
  \<^item> Storage: the vector implements a partial map from positions to records, and its loop visits all of them; the replacement list
    implements a list; records of the paged vector are read back whatever pages are evicted; the buffer pool is transparent, every sequence of reads and writes of pages behaves as on a plain memory; files,
    dictionary and property chains return what was put into them; the tree implements a finite map. The tree in pages refines the in-memory tree for lookups and for insertions into
    a leaf with room, whatever pages are evicted, and is the same after it is closed and opened.
  \<^item> Transactions: every reachable state of the store has well-formed tables; a transaction reads the newest version that is valid for it;
    an update is isolated from older transactions and conflicts abort; an insertion is private until it commits and then
    readable, with its properties and its index entry; abort restores; the bound of garbage collection
    never exceeds an active timestamp, and collecting with it changes nothing that a transaction reads, but for the mark of a deletion by the oldest transaction itself.
  \<^item> Queries: the loops over a relationship list visit exactly its relationships and end; a parallel scan does what
    \<open>nodes\<close> does, if the first slot of every chunk is in use and every valid node can be read; a new index finds the visible nodes by label and key, where a missing property counts
    with key 0. Expressions evaluate to their mathematical meaning (relation \<open>denotes\<close> of Query_Eval) and only read the store. The hash join is the nested loop join, also on columns of properties;
    \<open>order_by\<close> gives a stable sorted permutation; \<open>distinct\<close>, \<open>limit\<close>, the cross join, aggregates and grouping pass on what their names say (minimum and maximum for integers only).
  \<^item> Graph algorithms: breadth-first search visits exactly the reachable nodes and ends; the unweighted search finds a path with the fewest relationships, the
    weighted one a path of least weight, both exactly when there is one, with the rounding of \<open>double\<close>.
  \<^item> Log and recovery: what is appended is read back, a torn file yields the complete entries, and the records of a transaction are linked. Recovery gives every record the
    value of the last redone log record, keeps the dictionary, writes the pages to their files, and can be repeated; the undo loop that follows changes nothing, as \<open>apply_undo\<close> is empty.
  \<^item> Copies and import: bringing a copy up to date with accurate delta records gives the arrays that building it anew gives, and these have a row for each node; an imported relationship
    comes first in the lists of both its nodes, and an imported node can be read. Strings of the paged dictionary are read back under their codes across pages and evictions.
  \<^item> Defects of the code, each as a theorem: among others, updates through an old version are lost, an aborted insertion stays visible,
    a node with relationships can be deleted, a traversal with a label misses matches, a parallel scan delivers removed nodes, nodes
    without a property are indexed, the paged vector does not count the slots it fills, log sequence numbers are reused after a crash, and uncommitted changes survive recovery; a missing
    property makes a true disjunction false, \<open>distinct\<close> conflates tuples, the maximum of negative doubles is positive, groups are identified by a hash, created nodes lose computed properties; delta records of a
    commit contain deleted relationships, the mapping of an untyped import finds no node, a scan of the paged dictionary stops at an empty string, and all but the first of \<open>k\<close> paths have
    the weight zero; erasing from the first leaf of a paged tree reads through a null pointer.

  \<^bold>\<open>Fuel and bounds.\<close> Walks over relationship lists inside the store and over property chains stop with \<open>Diverges\<close> after as many steps as
  the table has positions, which only a cycle exceeds. Loops that run a consumer, which may extend the table, have an explicit fuel; the
  theorems say how much is enough (the length of the list, the capacity of the table). The iterators of the paged vector have fuel too. The
  loops of the graph searches take one step per queue entry, and the theorems give a bound from the graph. Counters of 32 and 64 bits wrap where the
  code lets them. Threads interleave at the granularity of operations; a parallel scan runs its tasks one after the other.

  \<^bold>\<open>Not modelled.\<close> Persistent memory (needs PMDK), the JIT compiler (LLVM), the parser (generated) and planner, the vendored ANTLR
  runtime and hash map, GPU and UPMEM back ends, the command line and the Python binding; mutexes and logging
  output. The pool of databases, which manages directories, and materialized views, which include a header that does not exist, are left out. Of the
  paged B+ tree, the range scan, which does not compile, and the merging of branches, which is not reached; of the paged vector, the callbacks for the header of its file; of the named algorithms, the weighted one, whose weights read the store; of the query engine, printing, profiling, the
  buffers of compiled aggregates and the construction of plans.
\<close>

end
